(* ===== verification/Prelude.thy ===== *)
theory Prelude
  imports Complex_Main "HOL-Library.Signed_Division" "HOL-Library.While_Combinator"
begin

text \<open>
  Shared vocabulary of the development: the outcome of a C++ call (a value, a thrown
  \<open>CException\<close>, or a step the language leaves undefined), checked array access, C++ integer
  and floating conversions, and the generic lemmas the component theories use.

  A \<open>double\<close> is modelled by an exact rational; the model agrees with the code as long as no
  rounding happens, which for integral values holds up to \<open>2 ^ 53\<close>.  A C++ \<open>int\<close> or
  \<open>long long\<close> is modelled by an unbounded integer; overflow is undefined behaviour in C++, so
  the model speaks of executions without it, and the size lemmas of the components say when
  that is guaranteed.
\<close>

named_theorems outcome_simps "evaluation of outcomes"
named_theorems calendar_simps "unit lengths of the calendars"

section \<open>Outcomes\<close>

datatype cxx_error =
    CException string
  | UndefinedBehaviour string
  | NonTermination string

type_synonym 'a outcome = "cxx_error + 'a"

fun obind :: "'a outcome \<Rightarrow> ('a \<Rightarrow> 'b outcome) \<Rightarrow> 'b outcome" where
  "obind (Inl e) f = Inl e"
| "obind (Inr x) f = f x"

definition omap :: "('a \<Rightarrow> 'b) \<Rightarrow> 'a outcome \<Rightarrow> 'b outcome" where
  "omap f x = obind x (\<lambda>y. Inr (f y))"

definition is_ok :: "'a outcome \<Rightarrow> bool" where
  "is_ok x = (case x of Inl _ \<Rightarrow> False | Inr _ \<Rightarrow> True)"

text \<open>A loop over a list whose body may fail.\<close>

fun ofold :: "('a \<Rightarrow> 's \<Rightarrow> 's outcome) \<Rightarrow> 'a list \<Rightarrow> 's \<Rightarrow> 's outcome" where
  "ofold f [] s = Inr s"
| "ofold f (x # xs) s = obind (f x s) (ofold f xs)"

text \<open>What a possibly non-returning loop contributes to its caller.\<close>

definition returned :: "string \<Rightarrow> 'a outcome option \<Rightarrow> 'a outcome" where
  "returned what r = (case r of None \<Rightarrow> Inl (NonTermination what) | Some x \<Rightarrow> x)"

lemma obind_cong [fundef_cong]:
  "x = x' \<Longrightarrow> (\<And>y. x' = Inr y \<Longrightarrow> f y = f' y) \<Longrightarrow> obind x f = obind x' f'"
  by (cases x') auto

lemma obind_eq_Inr [outcome_simps]:
  "obind x f = Inr y \<longleftrightarrow> (\<exists>z. x = Inr z \<and> f z = Inr y)"
  by (cases x) auto

lemma obind_assoc: "obind (obind x f) g = obind x (\<lambda>y. obind (f y) g)"
  by (cases x) auto

lemma obind_Inr [simp]: "obind x Inr = x"
  by (cases x) auto

lemma omap_simps [simp]: "omap f (Inl e) = Inl e" "omap f (Inr x) = Inr (f x)"
  by (simp_all add: omap_def)

lemma is_ok_simps [simp]: "\<not> is_ok (Inl e)" "is_ok (Inr x)"
  by (simp_all add: is_ok_def)

lemma is_ok_iff: "is_ok x \<longleftrightarrow> (\<exists>y. x = Inr y)"
  by (cases x) auto

lemma returned_simps [simp]:
  "returned w None = Inl (NonTermination w)" "returned w (Some x) = x"
  by (simp_all add: returned_def)

lemma ofold_append: "ofold f (xs @ ys) s = obind (ofold f xs s) (ofold f ys)"
proof (induction xs arbitrary: s)
  case (Cons x xs)
  then show ?case by (cases "f x s") simp_all
qed simp

lemma ofold_cong [fundef_cong]:
  "xs = ys \<Longrightarrow> s = t \<Longrightarrow> (\<And>x u. x \<in> set ys \<Longrightarrow> f x u = g x u) \<Longrightarrow> ofold f xs s = ofold g ys t"
proof (induction ys arbitrary: xs s t)
  case (Cons y ys)
  then show ?case by (cases "g y t") auto
qed simp

lemma ofold_pure:
  "(\<And>x s. x \<in> set xs \<Longrightarrow> f x s = Inr (g x s)) \<Longrightarrow> ofold f xs s = Inr (fold g xs s)"
  by (induction xs arbitrary: s) simp_all

lemma ofold_invariant:
  assumes "ofold f xs s = Inr t" and "P s"
    and "\<And>x s t. x \<in> set xs \<Longrightarrow> P s \<Longrightarrow> f x s = Inr t \<Longrightarrow> P t"
  shows "P t"
  using assms
proof (induction xs arbitrary: s)
  case (Cons x xs)
  then obtain u where "f x s = Inr u" "ofold f xs u = Inr t"
    by (auto simp: outcome_simps)
  with Cons show ?case by (metis list.set_intros)
qed simp

text \<open>A counting loop: an invariant of the number of turns done.\<close>

lemma ofold_upto:
  assumes "P 0 s" "\<And>i s. i < n \<Longrightarrow> P i s \<Longrightarrow> \<exists>t. f i s = Inr t \<and> P (Suc i) t"
  shows "\<exists>t. ofold f [0..<n] s = Inr t \<and> P n t"
  using assms
proof (induction n)
  case (Suc n)
  then obtain t where t: "ofold f [0..<n] s = Inr t" "P n t" by (meson less_Suc_eq)
  then obtain u where "f n t = Inr u" "P (Suc n) u" using Suc.prems(2) by blast
  with t show ?case by (simp add: ofold_append)
qed simp

section \<open>Arrays\<close>

text \<open>
  Neither \<open>std::vector::operator[]\<close> nor the element access of a \<open>CArray\<close> checks its index:
  an index out of range is undefined behaviour.
\<close>

definition arr_get :: "'a list \<Rightarrow> int \<Rightarrow> 'a outcome" where
  "arr_get xs i =
     (if 0 \<le> i \<and> i < int (length xs) then Inr (xs ! nat i)
      else Inl (UndefinedBehaviour ''read out of range''))"

definition arr_set :: "'a list \<Rightarrow> int \<Rightarrow> 'a \<Rightarrow> 'a list outcome" where
  "arr_set xs i x =
     (if 0 \<le> i \<and> i < int (length xs) then Inr (xs[nat i := x])
      else Inl (UndefinedBehaviour ''write out of range''))"

lemma arr_get_ok [simp]: "0 \<le> i \<Longrightarrow> i < int (length xs) \<Longrightarrow> arr_get xs i = Inr (xs ! nat i)"
  by (simp add: arr_get_def)

lemma arr_set_ok [simp]: "0 \<le> i \<Longrightarrow> i < int (length xs) \<Longrightarrow> arr_set xs i x = Inr (xs[nat i := x])"
  by (simp add: arr_set_def)

lemma arr_get_InrD: "arr_get xs i = Inr x \<Longrightarrow> 0 \<le> i \<and> i < int (length xs) \<and> x = xs ! nat i"
  by (auto simp: arr_get_def split: if_splits)

lemma arr_set_InrD:
  "arr_set xs i x = Inr ys \<Longrightarrow> 0 \<le> i \<and> i < int (length xs) \<and> ys = xs[nat i := x]"
  by (auto simp: arr_set_def split: if_splits)

section \<open>C++ conversions\<close>

text \<open>Conversion of a floating value to an integer drops the fraction.\<close>

definition trunc :: "rat \<Rightarrow> int" where
  "trunc x = (if 0 \<le> x then \<lfloor>x\<rfloor> else \<lceil>x\<rceil>)"

text \<open>\<open>modf\<close>: the fractional part (with the sign of the argument) and the integral part.\<close>

definition modf :: "rat \<Rightarrow> rat \<times> rat" where
  "modf x = (x - of_int (trunc x), of_int (trunc x))"

lemma trunc_of_int [simp]: "trunc (of_int n) = n"
  by (simp add: trunc_def)

lemma trunc_0 [simp]: "trunc 0 = 0"
  by (simp add: trunc_def)

lemma trunc_numeral [simp]: "trunc (numeral n) = numeral n" "trunc 1 = 1"
  by (simp_all add: trunc_def)

lemma modf_of_int [simp]: "modf (of_int n) = (0, of_int n)"
  by (simp add: modf_def)

lemma modf_0 [simp]: "modf 0 = (0, 0)"
  by (simp add: modf_def)

lemma sdiv_nonneg [simp]: "0 \<le> (a::int) \<Longrightarrow> 0 \<le> b \<Longrightarrow> a sdiv b = a div b"
  by (cases "a = 0"; cases "b = 0") (auto simp: signed_divide_int_def)

lemma smod_nonneg [simp]: "0 \<le> (a::int) \<Longrightarrow> 0 \<le> b \<Longrightarrow> a smod b = a mod b"
  by (simp add: minus_sdiv_mult_eq_smod [symmetric] minus_div_mult_eq_mod)

lemma sdiv_smod: "(a::int) sdiv b * b + a smod b = a"
  by (rule sdiv_mult_smod_eq)

lemma smod_bounds: "0 < (b::int) \<Longrightarrow> - b < a smod b \<and> a smod b < b"
proof (cases "0 \<le> a")
  case True
  assume "0 < b"
  with True show ?thesis by (simp add: less_le_trans [OF _ pos_mod_sign])
next
  case False
  assume b: "0 < b"
  from False b have "a smod b = - ((- a) mod b)"
    by (simp add: signed_modulo_int_def signed_divide_int_def minus_div_mult_eq_mod [symmetric])
  with b show ?thesis
    using pos_mod_bound [OF b, of "- a"] pos_mod_sign [OF b, of "- a"] by linarith
qed

lemma smod_neg: "(- (a::int)) smod b = - (a smod b)"
  by (simp add: minus_sdiv_mult_eq_smod [symmetric] signed_divide_int_def)

lemma smod_eq_0_iff: "0 < (b::int) \<Longrightarrow> a smod b = 0 \<longleftrightarrow> b dvd a"
proof (cases "0 \<le> a")
  case False
  assume b: "0 < b"
  have "a smod b = - ((- a) mod b)"
  proof -
    have "(- a) smod b = (- a) mod b" by (rule smod_nonneg) (use False b in simp_all)
    moreover have "a smod b = - ((- a) smod b)" using smod_neg [of "- a" b] by (simp only: minus_minus)
    ultimately show ?thesis by (simp only:)
  qed
  then show ?thesis by (simp add: mod_eq_0_iff_dvd)
qed (simp add: mod_eq_0_iff_dvd)

lemma sdiv_smod_floor:
  fixes a b :: int
  assumes "0 < b"
  shows "a sdiv b = (if a smod b < 0 then a div b + 1 else a div b)"
    and "a smod b = (if a smod b < 0 then a mod b - b else a mod b)"
proof -
  note bounds = smod_bounds [OF assms, of a]
  have eq: "a = b * (a sdiv b) + a smod b" by (simp add: mult_sdiv_smod_eq)
  then have eq': "a = b * (a sdiv b - 1) + (a smod b + b)" by (simp add: right_diff_distrib)
  have "a div b = a sdiv b \<and> a mod b = a smod b" if "0 \<le> a smod b"
    using int_div_pos_eq [OF eq that] int_mod_pos_eq [OF eq that] bounds by simp
  moreover have "a div b = a sdiv b - 1 \<and> a mod b = a smod b + b" if "a smod b < 0"
    using int_div_pos_eq [OF eq'] int_mod_pos_eq [OF eq'] bounds that by simp
  ultimately show "a sdiv b = (if a smod b < 0 then a div b + 1 else a div b)"
    and "a smod b = (if a smod b < 0 then a mod b - b else a mod b)"
    by simp_all
qed

end
