(* ===== verification/Duration.thy ===== *)
theory Duration
  imports Prelude "HOL-Library.Product_Lexorder"
begin

text \<open>
  \<open>CDuration\<close> of \<open>src/duration.cpp\<close> and its operators of \<open>src/calendar_util.cpp\<close>: seven
  components, one per unit, kept unreduced until a calendar resolves them.
\<close>

section \<open>Data and constants\<close>

record duration =
  d_year :: rat
  d_month :: rat
  d_day :: rat
  d_hour :: rat
  d_minute :: rat
  d_second :: rat
  d_timestep :: rat

definition NoneDu :: duration where
  "NoneDu = \<lparr>d_year = 0, d_month = 0, d_day = 0, d_hour = 0, d_minute = 0, d_second = 0,
     d_timestep = 0\<rparr>"

definition Year :: duration where "Year = NoneDu\<lparr>d_year := 1\<rparr>"
definition Month :: duration where "Month = NoneDu\<lparr>d_month := 1\<rparr>"
definition Week :: duration where "Week = NoneDu\<lparr>d_day := 7\<rparr>"
definition Day :: duration where "Day = NoneDu\<lparr>d_day := 1\<rparr>"
definition Hour :: duration where "Hour = NoneDu\<lparr>d_hour := 1\<rparr>"
definition Minute :: duration where "Minute = NoneDu\<lparr>d_minute := 1\<rparr>"
definition Second :: duration where "Second = NoneDu\<lparr>d_second := 1\<rparr>"
definition TimeStep :: duration where "TimeStep = NoneDu\<lparr>d_timestep := 1\<rparr>"

section \<open>Operators\<close>

definition dur_minus :: "duration \<Rightarrow> duration \<Rightarrow> duration" where
  "dur_minus ddr dr =
     \<lparr>d_year = d_year ddr - d_year dr, d_month = d_month ddr - d_month dr,
      d_day = d_day ddr - d_day dr, d_hour = d_hour ddr - d_hour dr,
      d_minute = d_minute ddr - d_minute dr, d_second = d_second ddr - d_second dr,
      d_timestep = d_timestep ddr - d_timestep dr\<rparr>"

definition dur_plus :: "duration \<Rightarrow> duration \<Rightarrow> duration" where
  "dur_plus ddr dr =
     \<lparr>d_year = d_year ddr + d_year dr, d_month = d_month ddr + d_month dr,
      d_day = d_day ddr + d_day dr, d_hour = d_hour ddr + d_hour dr,
      d_minute = d_minute ddr + d_minute dr, d_second = d_second ddr + d_second dr,
      d_timestep = d_timestep ddr + d_timestep dr\<rparr>"

definition dur_times :: "duration \<Rightarrow> rat \<Rightarrow> duration" where
  "dur_times ddr scal =
     \<lparr>d_year = d_year ddr * scal, d_month = d_month ddr * scal, d_day = d_day ddr * scal,
      d_hour = d_hour ddr * scal, d_minute = d_minute ddr * scal, d_second = d_second ddr * scal,
      d_timestep = d_timestep ddr * scal\<rparr>"

definition dur_scale :: "rat \<Rightarrow> duration \<Rightarrow> duration" where
  "dur_scale scal ddr = dur_times ddr scal"

definition dur_uminus :: "duration \<Rightarrow> duration" where
  "dur_uminus ddr =
     \<lparr>d_year = - d_year ddr, d_month = - d_month ddr, d_day = - d_day ddr,
      d_hour = - d_hour ddr, d_minute = - d_minute ddr, d_second = - d_second ddr,
      d_timestep = - d_timestep ddr\<rparr>"

definition dur_eq :: "duration \<Rightarrow> duration \<Rightarrow> bool" where
  "dur_eq ddr dr \<longleftrightarrow>
     d_year ddr = d_year dr \<and> d_month ddr = d_month dr \<and> d_day dr = d_day ddr \<and>
     d_hour ddr = d_hour dr \<and> d_minute ddr = d_minute dr \<and> d_second dr = d_second ddr \<and>
     d_timestep ddr = d_timestep dr"

definition dur_neq :: "duration \<Rightarrow> duration \<Rightarrow> bool" where
  "dur_neq ddr dr \<longleftrightarrow> \<not> dur_eq ddr dr"

definition isNone :: "duration \<Rightarrow> bool" where
  "isNone du \<longleftrightarrow> dur_eq du NoneDu"

text \<open>\<open>CDuration::solveTimeStep\<close>, with the time step of the calendar as argument.\<close>

definition solveTimeStep :: "duration \<Rightarrow> duration \<Rightarrow> duration" where
  "solveTimeStep ts du =
     du\<lparr>d_second := d_second du + d_timestep du * d_second ts,
        d_minute := d_minute du + d_timestep du * d_minute ts,
        d_hour := d_hour du + d_timestep du * d_hour ts,
        d_day := d_day du + d_timestep du * d_day ts,
        d_month := d_month du + d_timestep du * d_month ts,
        d_year := d_year du + d_timestep du * d_year ts,
        d_timestep := 0\<rparr>"

text \<open>\<open>DurationFakeLessComparator\<close>, the key order of the maps indexed by durations.\<close>

definition dur_fake_less :: "duration \<Rightarrow> duration \<Rightarrow> bool" where
  "dur_fake_less dur1 dur2 =
     (if d_year dur1 < d_year dur2 then True
      else if d_year dur1 = d_year dur2 then
        (if d_month dur1 < d_month dur2 then True
         else if d_month dur1 = d_month dur2 then
           (if d_day dur1 < d_day dur2 then True
            else if d_day dur1 = d_day dur2 then
              (if d_hour dur1 < d_hour dur2 then True
               else if d_hour dur1 = d_hour dur2 then
                 (if d_minute dur1 < d_minute dur2 then True
                  else if d_minute dur1 = d_minute dur2 then
                    (if d_second dur1 < d_second dur2 then True
                     else if d_second dur1 = d_second dur2 then d_timestep dur1 < d_timestep dur2
                     else False)
                  else False)
               else False)
            else False)
         else False)
      else False)"

section \<open>Algebra of durations\<close>

lemmas duration_op_defs =
  dur_minus_def dur_plus_def dur_times_def dur_scale_def dur_uminus_def NoneDu_def

lemma dur_eq_iff: "dur_eq a b \<longleftrightarrow> a = b"
  by (cases a; cases b) (auto simp: dur_eq_def)

lemma dur_plus_comm: "dur_plus a b = dur_plus b a"
  by (simp add: duration_op_defs add.commute)

lemma dur_plus_assoc: "dur_plus (dur_plus a b) c = dur_plus a (dur_plus b c)"
  by (simp add: duration_op_defs add.assoc)

lemma dur_plus_NoneDu: "dur_plus a NoneDu = a"
  by (cases a) (simp add: duration_op_defs)

lemma dur_minus_as_plus: "dur_minus a b = dur_plus a (dur_uminus b)"
  by (simp add: duration_op_defs)

lemma dur_scale_add: "dur_scale (x + y) a = dur_plus (dur_scale x a) (dur_scale y a)"
  by (simp add: duration_op_defs algebra_simps)

lemma dur_scale_plus: "dur_scale x (dur_plus a b) = dur_plus (dur_scale x a) (dur_scale x b)"
  by (simp add: duration_op_defs algebra_simps)

lemma dur_scale_one: "dur_scale 1 a = a"
  by (cases a) (simp add: duration_op_defs)

lemma solveTimeStep_alt:
  "d_timestep ts = 0 \<Longrightarrow>
   solveTimeStep ts du = dur_plus (du\<lparr>d_timestep := 0\<rparr>) (dur_scale (d_timestep du) ts)"
  by (cases du; cases ts) (simp add: solveTimeStep_def duration_op_defs)

text \<open>The comparator is the lexicographic order of the components.\<close>

definition dur_key :: "duration \<Rightarrow> rat \<times> rat \<times> rat \<times> rat \<times> rat \<times> rat \<times> rat" where
  "dur_key d = (d_year d, d_month d, d_day d, d_hour d, d_minute d, d_second d, d_timestep d)"

lemma dur_key_inject: "dur_key a = dur_key b \<longleftrightarrow> a = b"
  by (cases a; cases b) (auto simp: dur_key_def)

lemma dur_fake_less_key: "dur_fake_less a b \<longleftrightarrow> dur_key a < dur_key b"
  unfolding dur_fake_less_def dur_key_def less_prod_simp
  by (simp only: if_bool_eq_disj simp_thms) (auto simp only: not_less)

lemma dur_fake_less_irrefl: "\<not> dur_fake_less a a"
  by (simp add: dur_fake_less_key)

lemma dur_fake_less_trans: "dur_fake_less a b \<Longrightarrow> dur_fake_less b c \<Longrightarrow> dur_fake_less a c"
  unfolding dur_fake_less_key by (rule less_trans)

lemma dur_fake_less_total: "dur_fake_less a b \<or> a = b \<or> dur_fake_less b a"
  unfolding dur_fake_less_key dur_key_inject [symmetric] by (rule less_linear)

section \<open>Durations with integral components\<close>

definition int_duration :: "int \<Rightarrow> int \<Rightarrow> int \<Rightarrow> int \<Rightarrow> int \<Rightarrow> int \<Rightarrow> duration" where
  "int_duration y mo d h mi s =
     \<lparr>d_year = of_int y, d_month = of_int mo, d_day = of_int d, d_hour = of_int h,
      d_minute = of_int mi, d_second = of_int s, d_timestep = 0\<rparr>"

lemma int_duration_sel [simp]:
  "d_year (int_duration y mo d h mi s) = of_int y"
  "d_month (int_duration y mo d h mi s) = of_int mo"
  "d_day (int_duration y mo d h mi s) = of_int d"
  "d_hour (int_duration y mo d h mi s) = of_int h"
  "d_minute (int_duration y mo d h mi s) = of_int mi"
  "d_second (int_duration y mo d h mi s) = of_int s"
  "d_timestep (int_duration y mo d h mi s) = 0"
  by (simp_all add: int_duration_def)

lemma dur_scale_int_duration:
  "dur_scale (of_int n) (int_duration y mo d h mi s)
   = int_duration (n * y) (n * mo) (n * d) (n * h) (n * mi) (n * s)"
  by (simp add: duration_op_defs int_duration_def mult.commute)

lemma dur_plus_int_duration:
  "dur_plus (int_duration y mo d h mi s) (int_duration y' mo' d' h' mi' s')
   = int_duration (y + y') (mo + mo') (d + d') (h + h') (mi + mi') (s + s')"
  by (simp add: duration_op_defs int_duration_def)

end
