(* ===== verification/Calendar.thy ===== *)
theory Calendar
  imports Duration
begin

text \<open>
  \<open>CDate\<close>, \<open>CCalendar\<close> and the calendars of \<open>src/date\<close>: unit lengths with their overrides,
  the date check, and the operations of a date that need its calendar.

  A date holds a pointer to its calendar, a calendar holds three dates that point back to it.
  Calendars therefore live in a store indexed by addresses; \<open>relCalendar d\<close> is \<open>None\<close> for the
  null pointer.  A non-null pointer of the program always refers to a live calendar, so the
  store is total.
\<close>

section \<open>Data\<close>

record cdate =
  relCalendar :: "nat option"
  year :: int
  month :: int
  day :: int
  hour :: int
  minute :: int
  second :: int

record user_calendar =
  dayLength :: int
  monthLengths :: "int list"
  yearLength :: int
  leapYearMonth :: int
  leapYearDrift :: rat
  leapYearDriftOffset :: rat

datatype cal_kind =
    AllLeap
  | D360
  | Gregorian
  | Julian
  | NoLeap
  | UserDefined user_calendar

record calendar =
  kind :: cal_kind
  step :: int
  initDate :: cdate
  timeOrigin :: cdate
  currentDate :: cdate
  timestep :: duration

type_synonym cal_store = "nat \<Rightarrow> calendar"

section \<open>Unit lengths\<close>

definition NoLeapMonthLength :: "int list" where
  "NoLeapMonthLength = [31, 28, 31, 30, 31, 30, 31, 31, 30, 31, 30, 31]"

definition base_getMonthLength :: "cdate \<Rightarrow> int outcome" where
  "base_getMonthLength d = arr_get NoLeapMonthLength (month d - 1)"

definition AllLeap_getMonthLength :: "cdate \<Rightarrow> int outcome" where
  "AllLeap_getMonthLength d = (if month d = 2 then Inr 29 else base_getMonthLength d)"

definition D360_getMonthLength :: "cdate \<Rightarrow> int outcome" where
  "D360_getMonthLength d = Inr 30"

definition Gregorian_getMonthLength :: "cdate \<Rightarrow> int outcome" where
  "Gregorian_getMonthLength d =
     (if month d = 2
      then (if year d smod 4 = 0 \<and> (year d smod 100 \<noteq> 0 \<or> year d smod 400 = 0)
            then Inr 29 else Inr 28)
      else base_getMonthLength d)"

definition Julian_getMonthLength :: "cdate \<Rightarrow> int outcome" where
  "Julian_getMonthLength d =
     (if month d = 2 then (if year d smod 4 = 0 then Inr 29 else Inr 28)
      else base_getMonthLength d)"

definition user_hasLeapYear :: "user_calendar \<Rightarrow> bool" where
  "user_hasLeapYear u \<longleftrightarrow> leapYearDrift u \<noteq> 0"

definition user_isLeapYear :: "user_calendar \<Rightarrow> cdate \<Rightarrow> int \<Rightarrow> bool" where
  "user_isLeapYear u origin y \<longleftrightarrow>
     user_hasLeapYear u \<and>
     \<bar>1 - (fst (modf (leapYearDriftOffset u + of_int (y - year origin) * leapYearDrift u))
           + leapYearDrift u)\<bar> < 1 / 10 ^ 14"

definition user_getMonthLength :: "user_calendar \<Rightarrow> cdate \<Rightarrow> cdate \<Rightarrow> int outcome" where
  "user_getMonthLength u origin d =
     (if 0 < length (monthLengths u)
      then omap (\<lambda>ml. if month d = leapYearMonth u \<and> user_isLeapYear u origin (year d)
                      then ml + 1 else ml)
                (arr_get (monthLengths u) (month d - 1))
      else Inr 0)"

definition getMonthLength :: "calendar \<Rightarrow> cdate \<Rightarrow> int outcome" where
  "getMonthLength c d =
     (case kind c of
        AllLeap \<Rightarrow> AllLeap_getMonthLength d
      | D360 \<Rightarrow> D360_getMonthLength d
      | Gregorian \<Rightarrow> Gregorian_getMonthLength d
      | Julian \<Rightarrow> Julian_getMonthLength d
      | NoLeap \<Rightarrow> base_getMonthLength d
      | UserDefined u \<Rightarrow> user_getMonthLength u (timeOrigin c) d)"

definition base_getYearTotalLength :: "cdate \<Rightarrow> int" where
  "base_getYearTotalLength d = 365 * 86400"

definition AllLeap_getYearTotalLength :: "cdate \<Rightarrow> int" where
  "AllLeap_getYearTotalLength d = 366 * 86400"

definition D360_getYearTotalLength :: "cdate \<Rightarrow> int" where
  "D360_getYearTotalLength d = 360 * 86400"

definition Gregorian_getYearTotalLength :: "cdate \<Rightarrow> int" where
  "Gregorian_getYearTotalLength d =
     (if year d smod 4 = 0 \<and> (year d smod 100 \<noteq> 0 \<or> year d smod 400 = 0)
      then 366 * 86400 else 365 * 86400)"

definition Julian_getYearTotalLength :: "cdate \<Rightarrow> int" where
  "Julian_getYearTotalLength d = (if year d smod 4 = 0 then 366 * 86400 else 365 * 86400)"

definition user_getYearTotalLength :: "user_calendar \<Rightarrow> cdate \<Rightarrow> cdate \<Rightarrow> int" where
  "user_getYearTotalLength u origin d =
     (if user_isLeapYear u origin (year d) then yearLength u + dayLength u else yearLength u)"

definition getYearTotalLength :: "calendar \<Rightarrow> cdate \<Rightarrow> int" where
  "getYearTotalLength c d =
     (case kind c of
        AllLeap \<Rightarrow> AllLeap_getYearTotalLength d
      | D360 \<Rightarrow> D360_getYearTotalLength d
      | Gregorian \<Rightarrow> Gregorian_getYearTotalLength d
      | Julian \<Rightarrow> Julian_getYearTotalLength d
      | NoLeap \<Rightarrow> base_getYearTotalLength d
      | UserDefined u \<Rightarrow> user_getYearTotalLength u (timeOrigin c) d)"

definition base_getYearLength :: int where "base_getYearLength = 12"
definition base_getDayLength :: int where "base_getDayLength = 24"
definition getHourLength :: "calendar \<Rightarrow> int" where "getHourLength c = 60"
definition getMinuteLength :: "calendar \<Rightarrow> int" where "getMinuteLength c = 60"

definition user_getYearLength :: "user_calendar \<Rightarrow> int" where
  "user_getYearLength u = int (length (monthLengths u))"

definition getYearLength :: "calendar \<Rightarrow> int" where
  "getYearLength c =
     (case kind c of UserDefined u \<Rightarrow> user_getYearLength u | _ \<Rightarrow> base_getYearLength)"

definition user_getDayLength :: "calendar \<Rightarrow> user_calendar \<Rightarrow> int" where
  "user_getDayLength c u =
     trunc (of_int \<lceil>of_int (dayLength u) / (of_int (getHourLength c * getMinuteLength c) :: rat)\<rceil>)"

definition getDayLength :: "calendar \<Rightarrow> int" where
  "getDayLength c =
     (case kind c of UserDefined u \<Rightarrow> user_getDayLength c u | _ \<Rightarrow> base_getDayLength)"

definition getDayLengthInSeconds :: "calendar \<Rightarrow> int" where
  "getDayLengthInSeconds c =
     (case kind c of
        UserDefined u \<Rightarrow> dayLength u
      | _ \<Rightarrow> getDayLength c * getHourLength c * getMinuteLength c)"

definition hasLeapYear :: "calendar \<Rightarrow> bool" where
  "hasLeapYear c =
     (case kind c of
        Gregorian \<Rightarrow> True
      | Julian \<Rightarrow> True
      | UserDefined u \<Rightarrow> user_hasLeapYear u
      | _ \<Rightarrow> False)"

definition getType :: "calendar \<Rightarrow> string" where
  "getType c =
     (case kind c of
        AllLeap \<Rightarrow> ''all_leap''
      | D360 \<Rightarrow> ''360_day''
      | Gregorian \<Rightarrow> ''gregorian''
      | Julian \<Rightarrow> ''julian''
      | NoLeap \<Rightarrow> ''noleap''
      | UserDefined u \<Rightarrow> ''user_defined'')"

definition getMonthName :: "int \<Rightarrow> string outcome" where
  "getMonthName monthId =
     arr_get [''january'', ''february'', ''march'', ''april'', ''may'', ''june'', ''july'',
       ''august'', ''september'', ''october'', ''november'', ''december''] (monthId - 1)"

definition getMonthShortName :: "int \<Rightarrow> string outcome" where
  "getMonthShortName monthId = omap (\<lambda>s. take 3 (s @ replicate 3 (CHR 0x00))) (getMonthName monthId)"

section \<open>Checking a date\<close>

text \<open>
  The checks on the hour, minute and second are the same text in both versions of
  \<open>checkDate\<close>; \<open>clamp_time\<close> is that text.
\<close>

definition clamp_time :: "calendar \<Rightarrow> bool \<Rightarrow> cdate \<Rightarrow> bool \<times> cdate" where
  "clamp_time c v d =
     (let (v, d) = (if hour d < 0 then (False, d\<lparr>hour := 0\<rparr>)
                    else if hour d \<ge> getDayLength c then (False, d\<lparr>hour := getDayLength c - 1\<rparr>)
                    else (v, d));
          (v, d) = (if minute d < 0 then (False, d\<lparr>minute := 0\<rparr>)
                    else if minute d \<ge> getHourLength c
                         then (False, d\<lparr>minute := getHourLength c - 1\<rparr>)
                    else (v, d));
          (v, d) = (if second d < 0 then (False, d\<lparr>second := 0\<rparr>)
                    else if second d \<ge> getMinuteLength c
                         then (False, d\<lparr>second := getMinuteLength c - 1\<rparr>)
                    else (v, d))
      in (v, d))"

definition base_checkDate :: "calendar \<Rightarrow> cdate \<Rightarrow> (bool \<times> cdate) outcome" where
  "base_checkDate c d =
     (let (v, d) = (if month d < 1 then (False, d\<lparr>month := 1\<rparr>)
                    else if month d > getYearLength c
                         then (False, d\<lparr>month := getYearLength c\<rparr>)
                    else (True, d))
      in if day d < 1 then Inr (clamp_time c False (d\<lparr>day := 1\<rparr>))
         else obind (getMonthLength c d)
                (\<lambda>ml. Inr (if day d > ml then clamp_time c False (d\<lparr>day := ml\<rparr>)
                           else clamp_time c v d)))"

definition user_maxDay :: "user_calendar \<Rightarrow> int" where
  "user_maxDay u = (yearLength u + dayLength u - 1) sdiv dayLength u"

definition user_checkDate :: "calendar \<Rightarrow> user_calendar \<Rightarrow> cdate \<Rightarrow> (bool \<times> cdate) outcome" where
  "user_checkDate c u d =
     (if 0 < length (monthLengths u) then base_checkDate c d
      else
        let maxDay = user_maxDay u;
            (v, d) = (if month d \<noteq> 1 then (False, d\<lparr>month := 1\<rparr>) else (True, d));
            (v, d) = (if day d < 1 then (False, d\<lparr>day := 1\<rparr>)
                      else if day d > maxDay then (False, d\<lparr>day := maxDay\<rparr>)
                      else (v, d))
        in Inr (clamp_time c v d))"

definition checkDate :: "calendar \<Rightarrow> cdate \<Rightarrow> (bool \<times> cdate) outcome" where
  "checkDate c d =
     (case kind c of UserDefined u \<Rightarrow> user_checkDate c u d | _ \<Rightarrow> base_checkDate c d)"

section \<open>Constructors and accessors of a date\<close>

definition emptyDate :: cdate where
  "emptyDate = \<lparr>relCalendar = None, year = 0, month = 1, day = 1, hour = 0, minute = 0, second = 0\<rparr>"

definition calDate :: "nat \<Rightarrow> cdate" where
  "calDate p = emptyDate\<lparr>relCalendar := Some p\<rparr>"

definition newDate ::
  "cal_store \<Rightarrow> nat \<Rightarrow> int \<Rightarrow> int \<Rightarrow> int \<Rightarrow> int \<Rightarrow> int \<Rightarrow> int \<Rightarrow> cdate outcome" where
  "newDate st p yr mth d hr mi sc =
     omap snd (checkDate (st p)
       \<lparr>relCalendar = Some p, year = yr, month = mth, day = d, hour = hr, minute = mi, second = sc\<rparr>)"

definition copyDate :: "cal_store \<Rightarrow> cdate \<Rightarrow> cdate outcome" where
  "copyDate st d =
     (case relCalendar d of None \<Rightarrow> Inr d | Some p \<Rightarrow> omap snd (checkDate (st p) d))"

definition date_eq_member :: "cdate \<Rightarrow> cdate \<Rightarrow> bool" where
  "date_eq_member a b \<longleftrightarrow>
     relCalendar a = relCalendar b \<and> year a = year b \<and> month a = month b \<and> day a = day b \<and>
     hour a = hour b \<and> minute a = minute b \<and> second a = second b"

definition getRelCalendar :: "cal_store \<Rightarrow> cdate \<Rightarrow> calendar outcome" where
  "getRelCalendar st d =
     (case relCalendar d of
        None \<Rightarrow> Inl (CException ''The date is not associated with any calendar.'')
      | Some p \<Rightarrow> Inr (st p))"

definition hasRelCalendar :: "cdate \<Rightarrow> bool" where
  "hasRelCalendar d \<longleftrightarrow> relCalendar d \<noteq> None"

definition date_checkDate :: "cal_store \<Rightarrow> cdate \<Rightarrow> (bool \<times> cdate) outcome" where
  "date_checkDate st d = obind (getRelCalendar st d) (\<lambda>c. checkDate c d)"

definition setRelCalendar :: "cal_store \<Rightarrow> nat \<Rightarrow> cdate \<Rightarrow> (bool \<times> cdate) outcome" where
  "setRelCalendar st p d = date_checkDate st (d\<lparr>relCalendar := Some p\<rparr>)"

definition setDate :: "cdate \<Rightarrow> int \<Rightarrow> int \<Rightarrow> int \<Rightarrow> int \<Rightarrow> int \<Rightarrow> int \<Rightarrow> cdate" where
  "setDate d yr mth dd hr mi sc =
     d\<lparr>year := yr, month := mth, day := dd, hour := hr, minute := mi, second := sc\<rparr>"

definition addMonth :: "cal_store \<Rightarrow> cdate \<Rightarrow> int \<Rightarrow> cdate outcome" where
  "addMonth st d value =
     obind (getRelCalendar st d) (\<lambda>c.
       let n = getYearLength c;
           d = d\<lparr>month := month d + value\<rparr>;
           d = (if month d = n + 1 then d\<lparr>year := year d + 1, month := 1\<rparr> else d);
           d = (if month d = 0 then d\<lparr>year := year d - 1, month := n\<rparr> else d)
       in Inr d)"

section \<open>Seconds, days and fractions\<close>

text \<open>The loop of \<open>getSecondOfYear\<close> over the months before the date's own.\<close>

function months_before :: "calendar \<Rightarrow> cdate \<Rightarrow> int \<Rightarrow> int \<Rightarrow> int outcome" where
  "months_before c yearStart m nbDay =
     (if month yearStart < m
      then obind (getMonthLength c yearStart)
             (\<lambda>ml. months_before c (yearStart\<lparr>month := month yearStart + 1\<rparr>) m (nbDay + ml))
      else Inr nbDay)"
  by pat_completeness auto
termination
  by (relation "measure (\<lambda>(c, y, m, n). nat (m - month y))") auto

declare months_before.simps [simp del]

definition getSecondOfYear :: "cal_store \<Rightarrow> cdate \<Rightarrow> int outcome" where
  "getSecondOfYear st d =
     obind (copyDate st d) (\<lambda>yearStart.
     obind (getRelCalendar st d) (\<lambda>c.
     obind (months_before c (yearStart\<lparr>month := 1\<rparr>) (month d) 0) (\<lambda>nbDay.
       Inr ((nbDay + day d - 1) * getDayLengthInSeconds c
            + (hour d * getHourLength c + minute d) * getMinuteLength c + second d))))"

definition getSecondOfDay :: "cal_store \<Rightarrow> cdate \<Rightarrow> int outcome" where
  "getSecondOfDay st d =
     obind (getRelCalendar st d) (\<lambda>c.
       Inr ((hour d * getHourLength c + minute d) * getMinuteLength c + second d))"

definition getDayOfYear :: "cal_store \<Rightarrow> cdate \<Rightarrow> rat outcome" where
  "getDayOfYear st d =
     obind (getSecondOfYear st d) (\<lambda>s.
     obind (getRelCalendar st d) (\<lambda>c. Inr (of_int s / of_int (getDayLengthInSeconds c))))"

definition getFractionOfYear :: "cal_store \<Rightarrow> cdate \<Rightarrow> rat outcome" where
  "getFractionOfYear st d =
     obind (getSecondOfYear st d) (\<lambda>s.
     obind (getRelCalendar st d) (\<lambda>c. Inr (of_int s / of_int (getYearTotalLength c d))))"

definition getFractionOfDay :: "cal_store \<Rightarrow> cdate \<Rightarrow> rat outcome" where
  "getFractionOfDay st d =
     obind (getSecondOfDay st d) (\<lambda>s.
     obind (getRelCalendar st d) (\<lambda>c. Inr (of_int s / of_int (getDayLengthInSeconds c))))"

text \<open>The conversion of a date to a \<open>Time\<close>: seconds since the calendar's time origin.\<close>

function years_between :: "calendar \<Rightarrow> cdate \<Rightarrow> int \<Rightarrow> int \<Rightarrow> int" where
  "years_between c d y t =
     (if year d < y then years_between c (d\<lparr>year := year d + 1\<rparr>) y (t + getYearTotalLength c d)
      else t)"
  by pat_completeness auto
termination
  by (relation "measure (\<lambda>(c, d, y, t). nat (y - year d))") auto

declare years_between.simps [simp del]

definition toTime :: "cal_store \<Rightarrow> cdate \<Rightarrow> int outcome" where
  "toTime st d =
     obind (getRelCalendar st d) (\<lambda>c.
     obind (getSecondOfYear st d) (\<lambda>s.
     obind (getSecondOfYear st (timeOrigin c)) (\<lambda>s0.
       if hasLeapYear c
       then obind (copyDate st (timeOrigin c)) (\<lambda>o0. Inr (years_between c o0 (year d) (s - s0)))
       else Inr (s - s0 + (year d - year (timeOrigin c)) * getYearTotalLength c d))))"

section \<open>Comparing dates\<close>

definition date_eq :: "cdate \<Rightarrow> cdate \<Rightarrow> bool" where
  "date_eq dt0 dt1 \<longleftrightarrow>
     year dt0 = year dt1 \<and> month dt0 = month dt1 \<and> day dt1 = day dt0 \<and>
     hour dt0 = hour dt1 \<and> minute dt0 = minute dt1 \<and> second dt1 = second dt0"

definition date_less :: "cdate \<Rightarrow> cdate \<Rightarrow> bool" where
  "date_less dt0 dt1 =
     (if year dt0 < year dt1 then True
      else if year dt0 = year dt1 then
        (if month dt0 < month dt1 then True
         else if month dt0 = month dt1 then
           (if day dt0 < day dt1 then True
            else if day dt0 = day dt1 then
              (if hour dt0 < hour dt1 then True
               else if hour dt0 = hour dt1 then
                 (if minute dt0 < minute dt1 then True
                  else if minute dt0 = minute dt1 then
                    (if second dt0 < second dt1 then True else False)
                  else False)
               else False)
            else False)
         else False)
      else False)"

definition date_neq :: "cdate \<Rightarrow> cdate \<Rightarrow> bool" where
  "date_neq dt0 dt1 \<longleftrightarrow> \<not> date_eq dt1 dt0"
definition date_greater :: "cdate \<Rightarrow> cdate \<Rightarrow> bool" where
  "date_greater dt0 dt1 \<longleftrightarrow> date_less dt1 dt0"
definition date_geq :: "cdate \<Rightarrow> cdate \<Rightarrow> bool" where
  "date_geq dt0 dt1 \<longleftrightarrow> date_greater dt0 dt1 \<or> date_eq dt1 dt0"
definition date_leq :: "cdate \<Rightarrow> cdate \<Rightarrow> bool" where
  "date_leq dt0 dt1 \<longleftrightarrow> date_less dt0 dt1 \<or> date_eq dt1 dt0"

section \<open>User defined calendars\<close>

definition newUserCalendarMonths :: "int \<Rightarrow> int list \<Rightarrow> user_calendar outcome" where
  "newUserCalendarMonths dl mls =
     (if dl \<le> 0 then Inl (CException ''The day length must be strictly positive.'')
      else if length mls = 0 then Inl (CException ''The month lengths must be specified.'')
      else if Min (set mls) \<le> 0 then Inl (CException ''All month lengths must be strictly positive.'')
      else Inr \<lparr>dayLength = dl, monthLengths = mls, yearLength = sum_list mls * dl,
             leapYearMonth = 0, leapYearDrift = 0, leapYearDriftOffset = 0\<rparr>)"

definition newUserCalendarYear :: "int \<Rightarrow> int \<Rightarrow> user_calendar outcome" where
  "newUserCalendarYear dl yl =
     (if dl \<le> 0 then Inl (CException ''The day length must be strictly positive.'')
      else if yl \<le> 0 then Inl (CException ''The year length must be strictly positive.'')
      else Inr \<lparr>dayLength = dl, monthLengths = [], yearLength = yl,
             leapYearMonth = 0, leapYearDrift = 0, leapYearDriftOffset = 0\<rparr>)"

definition configureLeapYear :: "user_calendar \<Rightarrow> int \<Rightarrow> rat \<Rightarrow> rat \<Rightarrow> user_calendar outcome" where
  "configureLeapYear u lm drift offset =
     (if length (monthLengths u) = 0
      then Inl (CException ''Impossible to define leap years on a calendar without months.'')
      else if lm < 1 \<or> lm > int (length (monthLengths u))
      then Inl (CException ''The month chosen for the additional day must be in the range'')
      else if drift < 0 \<or> drift \<ge> 1
      then Inl (CException ''The year drift must be in the range [0.0, 1.0).'')
      else if offset < 0 \<or> offset \<ge> 1
      then Inl (CException ''The year drift offset must be in the range [0.0, 1.0).'')
      else Inr (u\<lparr>leapYearMonth := lm, leapYearDrift := drift, leapYearDriftOffset := offset\<rparr>))"

end
