(* ===== verification/CalendarProps.thy ===== *)
theory CalendarProps
  imports Calendar
begin

text \<open>
  Well-formed calendars, what the constructors of user defined calendars establish, the
  specification of the date check, and the order on dates.
\<close>

section \<open>Well-formed calendars\<close>

definition valid_user :: "user_calendar \<Rightarrow> bool" where
  "valid_user u \<longleftrightarrow>
     0 < dayLength u \<and> 0 < yearLength u \<and> (\<forall>m\<in>set (monthLengths u). 0 < m) \<and>
     (if monthLengths u = [] then leapYearDrift u = 0
      else yearLength u = sum_list (monthLengths u) * dayLength u \<and>
           (leapYearDrift u \<noteq> 0 \<longrightarrow>
              1 \<le> leapYearMonth u \<and> leapYearMonth u \<le> int (length (monthLengths u))))"

definition valid_calendar :: "calendar \<Rightarrow> bool" where
  "valid_calendar c = (case kind c of UserDefined u \<Rightarrow> valid_user u | _ \<Rightarrow> True)"

definition has_months :: "calendar \<Rightarrow> bool" where
  "has_months c \<longleftrightarrow> 0 < getYearLength c"

definition is_user :: "calendar \<Rightarrow> bool" where
  "is_user c = (case kind c of UserDefined u \<Rightarrow> True | _ \<Rightarrow> False)"

lemma unit_lengths [simp]: "getHourLength c = 60" "getMinuteLength c = 60"
  by (simp_all add: getHourLength_def getMinuteLength_def)

lemma getYearLength_standard: "\<not> is_user c \<Longrightarrow> getYearLength c = 12"
  by (auto simp: getYearLength_def is_user_def base_getYearLength_def split: cal_kind.splits)

lemma standard_lengths:
  "\<not> is_user c \<Longrightarrow> getDayLength c = 24"
  "\<not> is_user c \<Longrightarrow> getDayLengthInSeconds c = 86400"
  by (auto simp: getDayLength_def getDayLengthInSeconds_def is_user_def base_getDayLength_def
      split: cal_kind.splits)

lemma getDayLength_pos: "valid_calendar c \<Longrightarrow> 0 < getDayLength c"
  by (auto simp: getDayLength_def base_getDayLength_def user_getDayLength_def valid_calendar_def
      valid_user_def split: cal_kind.splits)

lemma getDayLengthInSeconds_pos: "valid_calendar c \<Longrightarrow> 0 < getDayLengthInSeconds c"
  by (auto simp: getDayLengthInSeconds_def valid_calendar_def valid_user_def getDayLength_def
      base_getDayLength_def split: cal_kind.splits)

lemma getDayLength_covers:
  "getDayLengthInSeconds c \<le> getDayLength c * 3600"
  "getDayLength c * 3600 < getDayLengthInSeconds c + 3600"
proof -
  have "of_int (dayLength u) \<le> (of_int (\<lceil>of_int (dayLength u) / (3600 :: rat)\<rceil> * 3600) :: rat) \<and>
        (of_int (\<lceil>of_int (dayLength u) / (3600 :: rat)\<rceil> * 3600) :: rat) < of_int (dayLength u + 3600)"
    for u
    by linarith
  then have "dayLength u \<le> \<lceil>of_int (dayLength u) / (3600 :: rat)\<rceil> * 3600 \<and>
        \<lceil>of_int (dayLength u) / (3600 :: rat)\<rceil> * 3600 < dayLength u + 3600" for u
    by (simp only: of_int_le_iff of_int_less_iff)
  then show "getDayLengthInSeconds c \<le> getDayLength c * 3600"
    and "getDayLength c * 3600 < getDayLengthInSeconds c + 3600"
    by (auto simp: getDayLengthInSeconds_def getDayLength_def base_getDayLength_def
        user_getDayLength_def split: cal_kind.splits)
qed

lemma newUserCalendarMonths_valid:
  assumes "newUserCalendarMonths dl mls = Inr u"
  shows "valid_user u"
proof -
  from assms have "0 < dl" "mls \<noteq> []" "0 < Min (set mls)"
    and u: "u = \<lparr>dayLength = dl, monthLengths = mls, yearLength = sum_list mls * dl,
             leapYearMonth = 0, leapYearDrift = 0, leapYearDriftOffset = 0\<rparr>"
    by (auto simp: newUserCalendarMonths_def not_le split: if_splits)
  then have pos: "\<forall>m\<in>set mls. 0 < m" by simp
  then have "0 < sum_list mls"
    using \<open>mls \<noteq> []\<close>
    by (cases mls) (auto intro: add_pos_nonneg sum_list_nonneg order_less_imp_le simp del: add_pos_pos)
  with pos \<open>0 < dl\<close> \<open>mls \<noteq> []\<close> show ?thesis by (simp add: u valid_user_def)
qed

lemma newUserCalendarYear_valid: "newUserCalendarYear dl yl = Inr u \<Longrightarrow> valid_user u"
  by (auto simp: newUserCalendarYear_def valid_user_def split: if_splits)

lemma configureLeapYear_valid:
  "configureLeapYear u lm dr off = Inr u' \<Longrightarrow> valid_user u \<Longrightarrow> valid_user u'"
  by (auto simp: configureLeapYear_def valid_user_def split: if_splits)

section \<open>Month lengths\<close>

definition mlen :: "calendar \<Rightarrow> int \<Rightarrow> int \<Rightarrow> int" where
  "mlen c y m =
     (case getMonthLength c (emptyDate\<lparr>year := y, month := m\<rparr>) of Inl _ \<Rightarrow> 0 | Inr ml \<Rightarrow> ml)"

lemmas month_length_defs =
  getMonthLength_def AllLeap_getMonthLength_def D360_getMonthLength_def
  Gregorian_getMonthLength_def Julian_getMonthLength_def base_getMonthLength_def
  user_getMonthLength_def

lemmas year_length_defs =
  getYearTotalLength_def AllLeap_getYearTotalLength_def D360_getYearTotalLength_def
  Gregorian_getYearTotalLength_def Julian_getYearTotalLength_def base_getYearTotalLength_def
  user_getYearTotalLength_def

lemma getMonthLength_cong:
  "year d = year d' \<Longrightarrow> month d = month d' \<Longrightarrow> getMonthLength c d = getMonthLength c d'"
  by (simp add: month_length_defs split: cal_kind.split)

lemma getYearTotalLength_cong: "year d = year d' \<Longrightarrow> getYearTotalLength c d = getYearTotalLength c d'"
  by (simp add: year_length_defs split: cal_kind.split)

lemma NoLeapMonthLength_pos: "0 \<le> i \<Longrightarrow> i < 12 \<Longrightarrow> 0 < NoLeapMonthLength ! nat i"
proof -
  assume "0 \<le> i" "i < 12"
  then have "NoLeapMonthLength ! nat i \<in> set NoLeapMonthLength"
    by (intro nth_mem) (simp add: NoLeapMonthLength_def nat_less_iff)
  then show ?thesis by (auto simp: NoLeapMonthLength_def)
qed

lemma base_getMonthLength_ok:
  "1 \<le> month d \<Longrightarrow> month d \<le> 12 \<Longrightarrow> \<exists>ml>0. base_getMonthLength d = Inr ml"
  unfolding base_getMonthLength_def
  using NoLeapMonthLength_pos [of "month d - 1"]
  by (subst arr_get_ok) (auto simp: NoLeapMonthLength_def)

lemma getMonthLength_ex:
  assumes "valid_calendar c" "1 \<le> month d" "month d \<le> getYearLength c"
  shows "\<exists>ml>0. getMonthLength c d = Inr ml"
proof (cases "kind c")
  case (UserDefined u)
  with assms have len: "0 \<le> month d - 1" "month d - 1 < int (length (monthLengths u))"
    and "\<forall>m\<in>set (monthLengths u). 0 < m"
    by (auto simp: getYearLength_def user_getYearLength_def valid_calendar_def valid_user_def)
  then have "0 < monthLengths u ! nat (month d - 1)"
    by (simp add: nth_mem nat_less_iff)
  with UserDefined len show ?thesis
    by (auto simp: getMonthLength_def user_getMonthLength_def)
qed (use assms base_getMonthLength_ok [of d] in
  \<open>auto simp: getYearLength_def base_getYearLength_def month_length_defs\<close>)

lemma getMonthLength_mlen:
  assumes "valid_calendar c" "1 \<le> month d" "month d \<le> getYearLength c"
  shows "getMonthLength c d = Inr (mlen c (year d) (month d))"
proof -
  obtain ml where "getMonthLength c d = Inr ml" using getMonthLength_ex [OF assms] by blast
  moreover have "getMonthLength c (emptyDate\<lparr>year := year d, month := month d\<rparr>) = getMonthLength c d"
    by (rule getMonthLength_cong) simp_all
  ultimately show ?thesis by (simp add: mlen_def)
qed

lemma mlen_pos:
  assumes "valid_calendar c" "1 \<le> m" "m \<le> getYearLength c"
  shows "0 < mlen c y m"
proof -
  let ?d = "emptyDate\<lparr>year := y, month := m\<rparr>"
  obtain ml where "0 < ml" "getMonthLength c ?d = Inr ml"
    using getMonthLength_ex [of c ?d] assms by auto
  then show ?thesis by (simp add: mlen_def)
qed

section \<open>The date check\<close>

definition valid_time :: "calendar \<Rightarrow> cdate \<Rightarrow> bool" where
  "valid_time c d \<longleftrightarrow>
     0 \<le> hour d \<and> hour d < getDayLength c \<and> 0 \<le> minute d \<and> minute d < 60 \<and>
     0 \<le> second d \<and> second d < 60"

definition valid_date :: "calendar \<Rightarrow> cdate \<Rightarrow> bool" where
  "valid_date c d \<longleftrightarrow>
     valid_time c d \<and> 1 \<le> day d \<and>
     (case kind c of
        UserDefined u \<Rightarrow>
          (if monthLengths u = [] then month d = 1 \<and> day d \<le> user_maxDay u
           else 1 \<le> month d \<and> month d \<le> getYearLength c \<and> day d \<le> mlen c (year d) (month d))
      | _ \<Rightarrow> 1 \<le> month d \<and> month d \<le> getYearLength c \<and> day d \<le> mlen c (year d) (month d))"

lemma valid_date_months:
  "has_months c \<Longrightarrow> valid_date c d \<longleftrightarrow>
     valid_time c d \<and> 1 \<le> day d \<and> 1 \<le> month d \<and> month d \<le> getYearLength c \<and>
     day d \<le> mlen c (year d) (month d)"
  by (auto simp: valid_date_def has_months_def getYearLength_def user_getYearLength_def
      split: cal_kind.splits)

lemma clamp_time_spec:
  assumes "0 < getDayLength c" "clamp_time c v d = (v', d')"
  shows "valid_time c d'" and "v' \<longleftrightarrow> v \<and> valid_time c d" and "v' \<Longrightarrow> d' = d"
    and "relCalendar d' = relCalendar d" "year d' = year d" "month d' = month d" "day d' = day d"
  using assms by (auto simp: clamp_time_def valid_time_def split: if_splits)

text \<open>What a check that repairs the date in place guarantees.\<close>

definition check_post :: "calendar \<Rightarrow> cdate \<Rightarrow> bool \<times> cdate \<Rightarrow> bool" where
  "check_post c d r \<longleftrightarrow>
     valid_date c (snd r) \<and> (fst r \<longleftrightarrow> valid_date c d) \<and> (fst r \<longrightarrow> snd r = d) \<and>
     relCalendar (snd r) = relCalendar d \<and> year (snd r) = year d"

lemma base_checkDate_spec:
  assumes c: "valid_calendar c" "has_months c"
  shows "\<exists>r. base_checkDate c d = Inr r \<and> check_post c d r"
proof -
  define e where "e = (if month d < 1 then d\<lparr>month := 1\<rparr>
     else if month d > getYearLength c then d\<lparr>month := getYearLength c\<rparr> else d)"
  define v where "v \<longleftrightarrow> \<not> (month d < 1) \<and> \<not> month d > getYearLength c"
  have pair: "(if month d < 1 then (False, d\<lparr>month := 1\<rparr>)
      else if month d > getYearLength c then (False, d\<lparr>month := getYearLength c\<rparr>) else (True, d)) = (v, e)"
    by (simp add: e_def v_def)
  have e: "1 \<le> month e" "month e \<le> getYearLength c" "year e = year d"
    "relCalendar e = relCalendar d" "day e = day d" "v \<Longrightarrow> e = d" "v \<longleftrightarrow> 1 \<le> month d \<and> month d \<le> getYearLength c"
    "valid_time c e \<longleftrightarrow> valid_time c d"
    using c by (auto simp: e_def v_def has_months_def valid_time_def)
  let ?ml = "mlen c (year e) (month e)"
  have ml: "getMonthLength c e = Inr ?ml" "0 < ?ml"
    using getMonthLength_mlen mlen_pos c e by auto
  define f where "f = (if day e < 1 then e\<lparr>day := 1\<rparr> else if day e > ?ml then e\<lparr>day := ?ml\<rparr> else e)"
  define w where "w \<longleftrightarrow> v \<and> 1 \<le> day e \<and> day e \<le> ?ml"
  obtain w' g where g: "clamp_time c w f = (w', g)" by (cases "clamp_time c w f")
  have run: "base_checkDate c d = Inr (w', g)"
    using g ml unfolding base_checkDate_def pair by (auto simp: f_def w_def split: if_splits)
  have f: "1 \<le> day f" "day f \<le> ?ml" "month f = month e" "year f = year e"
    "relCalendar f = relCalendar e" "valid_time c f \<longleftrightarrow> valid_time c e" "w \<Longrightarrow> f = e"
    using ml by (auto simp: f_def w_def valid_time_def)
  note g_spec = clamp_time_spec [OF getDayLength_pos [OF c(1)] g]
  have "check_post c d (w', g)"
    unfolding check_post_def valid_date_months [OF c(2)]
    using e f g_spec by (auto simp: w_def)
  with run show ?thesis by blast
qed

lemma user_checkDate_spec:
  assumes c: "valid_calendar c" "kind c = UserDefined u" "monthLengths u = []"
  shows "\<exists>r. user_checkDate c u d = Inr r \<and> check_post c d r"
proof -
  have pos: "0 < dayLength u" "0 < yearLength u"
    using c by (auto simp: valid_calendar_def valid_user_def)
  then have max: "1 \<le> user_maxDay u"
    using zdiv_mono1 [of "dayLength u" "yearLength u + dayLength u - 1" "dayLength u"]
    by (simp add: user_maxDay_def)
  define e where "e = (if month d \<noteq> 1 then d\<lparr>month := 1\<rparr> else d)"
  define f where "f = (if day e < 1 then e\<lparr>day := 1\<rparr>
     else if day e > user_maxDay u then e\<lparr>day := user_maxDay u\<rparr> else e)"
  define w where "w \<longleftrightarrow> month d = 1 \<and> 1 \<le> day e \<and> day e \<le> user_maxDay u"
  obtain w' g where g: "clamp_time c w f = (w', g)" by (cases "clamp_time c w f")
  have run: "user_checkDate c u d = Inr (w', g)"
    using g c(3) by (auto simp: user_checkDate_def e_def f_def w_def Let_def split: if_splits)
  have f: "1 \<le> day f" "day f \<le> user_maxDay u" "month f = 1" "year f = year d" "day e = day d"
    "relCalendar f = relCalendar d" "valid_time c f \<longleftrightarrow> valid_time c d" "w \<Longrightarrow> f = d"
    using max by (auto simp: e_def f_def w_def valid_time_def)
  note g_spec = clamp_time_spec [OF getDayLength_pos [OF c(1)] g]
  have "check_post c d (w', g)"
    unfolding check_post_def valid_date_def using c(2,3) f g_spec by (auto simp: w_def)
  with run show ?thesis by blast
qed

lemma checkDate_spec:
  assumes "valid_calendar c"
  shows "\<exists>r. checkDate c d = Inr r \<and> check_post c d r"
proof (cases "is_user c")
  case False
  then have "has_months c" by (simp add: has_months_def getYearLength_standard)
  with assms False show ?thesis
    using base_checkDate_spec by (auto simp: checkDate_def is_user_def split: cal_kind.splits)
next
  case True
  then obtain u where u: "kind c = UserDefined u" by (auto simp: is_user_def split: cal_kind.splits)
  show ?thesis
  proof (cases "monthLengths u = []")
    case True
    with assms u user_checkDate_spec show ?thesis by (simp add: checkDate_def)
  next
    case False
    with u have "has_months c" by (simp add: has_months_def getYearLength_def user_getYearLength_def)
    with assms u False show ?thesis
      using base_checkDate_spec by (simp add: checkDate_def user_checkDate_def)
  qed
qed

lemma checkDate_valid:
  assumes "valid_calendar c" "valid_date c d"
  shows "checkDate c d = Inr (True, d)"
proof -
  obtain r where "checkDate c d = Inr r" "check_post c d r"
    using checkDate_spec assms(1) by blast
  then show ?thesis using assms(2) by (cases r) (auto simp: check_post_def)
qed

lemma copyDate_valid:
  "relCalendar d = Some p \<Longrightarrow> valid_calendar (st p) \<Longrightarrow> valid_date (st p) d \<Longrightarrow> copyDate st d = Inr d"
  by (simp add: copyDate_def checkDate_valid)

section \<open>The order on dates\<close>

definition date_key :: "cdate \<Rightarrow> int \<times> int \<times> int \<times> int \<times> int \<times> int" where
  "date_key d = (year d, month d, day d, hour d, minute d, second d)"

lemma date_eq_key: "date_eq a b \<longleftrightarrow> date_key a = date_key b"
  by (auto simp: date_eq_def date_key_def)

lemma date_less_key: "date_less a b \<longleftrightarrow> date_key a < date_key b"
  unfolding date_less_def date_key_def less_prod_simp
  by (simp only: if_bool_eq_disj simp_thms) (auto simp only: not_less)

lemma date_order_keys:
  "date_neq a b \<longleftrightarrow> date_key a \<noteq> date_key b"
  "date_greater a b \<longleftrightarrow> date_key b < date_key a"
  "date_geq a b \<longleftrightarrow> date_key b \<le> date_key a"
  "date_leq a b \<longleftrightarrow> date_key a \<le> date_key b"
  by (auto simp: date_neq_def date_greater_def date_geq_def date_leq_def date_eq_key date_less_key
      order_le_less)

end
