(* ===== verification/CalendarTime.thy ===== *)
theory CalendarTime
  imports CalendarProps
begin

text \<open>
  \<open>CDate::operator Time\<close> and \<open>getSecondOfYear\<close>: their loops are sums of month and year
  lengths, a date has an absolute second number, and the conversion to \<open>Time\<close> is its distance
  from the time origin.
\<close>

section \<open>Sums over ranges of years and months\<close>

definition days_before :: "calendar \<Rightarrow> int \<Rightarrow> int \<Rightarrow> int" where
  "days_before c y m = (\<Sum>k\<in>{1..<m}. mlen c y k)"

definition year_days :: "calendar \<Rightarrow> int \<Rightarrow> int" where
  "year_days c y = (\<Sum>k\<in>{1..getYearLength c}. mlen c y k)"

definition ytl :: "calendar \<Rightarrow> int \<Rightarrow> int" where
  "ytl c y = getYearTotalLength c (emptyDate\<lparr>year := y\<rparr>)"

definition year_start :: "calendar \<Rightarrow> int \<Rightarrow> int" where
  "year_start c y = (if 0 \<le> y then \<Sum>k\<in>{0..<y}. ytl c k else - (\<Sum>k\<in>{y..<0}. ytl c k))"

definition second_of_day :: "cdate \<Rightarrow> int" where
  "second_of_day d = (hour d * 60 + minute d) * 60 + second d"

definition second_of_year :: "calendar \<Rightarrow> cdate \<Rightarrow> int" where
  "second_of_year c d =
     (days_before c (year d) (month d) + day d - 1) * getDayLengthInSeconds c + second_of_day d"

definition abs_second :: "calendar \<Rightarrow> cdate \<Rightarrow> int" where
  "abs_second c d = year_start c (year d) + second_of_year c d"

lemma sum_int_Suc: "a \<le> b \<Longrightarrow> (\<Sum>k\<in>{a..<b + 1}. f k) = (\<Sum>k\<in>{a..<b}. f k) + f b" for a b :: int
  and f :: "int \<Rightarrow> int"
proof -
  assume "a \<le> b"
  then have "{a..<b + 1} = insert b {a..<b}" by auto
  then show ?thesis by simp
qed

lemma sum_int_first: "a < b \<Longrightarrow> (\<Sum>k\<in>{a..<b}. f k) = f a + (\<Sum>k\<in>{a + 1..<b}. f k)" for a b :: int
  and f :: "int \<Rightarrow> int"
proof -
  assume "a < b"
  then have "{a..<b} = insert a {a + 1..<b}" by auto
  then show ?thesis by simp
qed

lemma days_before_1 [simp]: "days_before c y 1 = 0"
  by (simp add: days_before_def)

lemma days_before_Suc: "1 \<le> m \<Longrightarrow> days_before c y (m + 1) = days_before c y m + mlen c y m"
  by (simp add: days_before_def sum_int_Suc)

lemma days_before_year: "0 \<le> getYearLength c \<Longrightarrow> days_before c y (getYearLength c + 1) = year_days c y"
proof -
  have "{1..<getYearLength c + 1} = {1..getYearLength c}" by auto
  then show ?thesis by (simp add: days_before_def year_days_def)
qed

lemma days_before_mono:
  assumes "valid_calendar c" "1 \<le> m" "m \<le> m'" "m' \<le> getYearLength c + 1"
  shows "days_before c y m \<le> days_before c y m'"
  unfolding days_before_def
proof (rule sum_mono2)
  show "\<And>k. k \<in> {1..<m'} - {1..<m} \<Longrightarrow> 0 \<le> mlen c y k"
    using assms mlen_pos by (force intro: order_less_imp_le)
qed (use assms in auto)

lemma year_start_Suc: "year_start c (y + 1) = year_start c y + ytl c y"
proof -
  consider "0 \<le> y" | "y = - 1" | "y + 1 < 0" by linarith
  then show ?thesis
  proof cases
    case 2
    have "{- 1..<0 :: int} = {- 1}" by auto
    with 2 show ?thesis by (simp add: year_start_def)
  next
    case 3
    then have "y < 0" by simp
    with 3 sum_int_first [of y 0 "ytl c"] show ?thesis by (simp add: year_start_def)
  qed (simp add: year_start_def sum_int_Suc)
qed

lemma year_start_diff: "y \<le> y' \<Longrightarrow> (\<Sum>k\<in>{y..<y'}. ytl c k) = year_start c y' - year_start c y"
proof (induction y' rule: int_ge_induct)
  case (step i)
  then show ?case by (simp add: sum_int_Suc year_start_Suc)
qed simp

section \<open>Year lengths\<close>

lemma getYearTotalLength_ytl: "getYearTotalLength c d = ytl c (year d)"
  unfolding ytl_def by (rule getYearTotalLength_cong) simp

lemma ytl_constant: "\<not> hasLeapYear c \<Longrightarrow> ytl c y = ytl c y'"
  by (auto simp: ytl_def year_length_defs hasLeapYear_def user_isLeapYear_def split: cal_kind.splits)

lemma months_12: "{1..12 :: int} = {1, 2, 3, 4, 5, 6, 7, 8, 9, 10, 11, 12}"
  unfolding set_eq_iff by (simp, presburger)

lemma year_days_standard: "\<not> is_user c \<Longrightarrow> year_days c y * 86400 = ytl c y"
  unfolding year_days_def getYearLength_standard months_12
  by (auto simp: is_user_def mlen_def month_length_defs NoLeapMonthLength_def ytl_def
      year_length_defs emptyDate_def split: cal_kind.splits)

lemma year_days_user:
  assumes c: "valid_calendar c" "kind c = UserDefined u" "monthLengths u \<noteq> []"
  shows "year_days c y * dayLength u = ytl c y"
proof -
  let ?n = "int (length (monthLengths u))"
  let ?leap = "user_isLeapYear u (timeOrigin c) y"
  let ?extra = "\<lambda>k. if k = leapYearMonth u \<and> ?leap then 1 else 0 :: int"
  have u: "valid_user u" using c by (simp add: valid_calendar_def)
  have mlen: "mlen c y k = monthLengths u ! nat (k - 1) + ?extra k" if "k \<in> {1..?n}" for k
    using that c by (auto simp: mlen_def getMonthLength_def user_getMonthLength_def emptyDate_def)
  have "year_days c y = (\<Sum>k\<in>{1..?n}. monthLengths u ! nat (k - 1)) + (\<Sum>k\<in>{1..?n}. ?extra k)"
    unfolding year_days_def using c(2) mlen
    by (simp add: getYearLength_def user_getYearLength_def sum.distrib)
  also have "(\<Sum>k\<in>{1..?n}. monthLengths u ! nat (k - 1)) = (\<Sum>i\<in>{0..<length (monthLengths u)}. monthLengths u ! i)"
    by (rule sum.reindex_bij_witness [of _ "\<lambda>i. int i + 1" "\<lambda>k. nat (k - 1)"]) auto
  also have "\<dots> = sum_list (monthLengths u)"
    by (simp add: sum_list_sum_nth)
  also have "(\<Sum>k\<in>{1..?n}. ?extra k) = (if ?leap then 1 else 0)"
  proof (cases ?leap)
    case True
    then have "leapYearMonth u \<in> {1..?n}"
      using u c(3) by (auto simp: valid_user_def user_isLeapYear_def user_hasLeapYear_def)
    with True show ?thesis by simp
  qed simp
  finally show ?thesis
    using u c by (simp add: ytl_def getYearTotalLength_def user_getYearTotalLength_def
        valid_user_def distrib_right)
qed

lemma year_days_ytl:
  assumes "valid_calendar c" "has_months c"
  shows "year_days c y * getDayLengthInSeconds c = ytl c y"
proof (cases "is_user c")
  case False
  then show ?thesis using year_days_standard standard_lengths by simp
next
  case True
  then obtain u where u: "kind c = UserDefined u" by (auto simp: is_user_def split: cal_kind.splits)
  with assms(2) have "monthLengths u \<noteq> []"
    by (auto simp: has_months_def getYearLength_def user_getYearLength_def)
  with assms u year_days_user show ?thesis by (simp add: getDayLengthInSeconds_def)
qed

lemma ytl_pos: "valid_calendar c \<Longrightarrow> 0 < ytl c y"
  by (auto simp: ytl_def year_length_defs valid_calendar_def valid_user_def split: cal_kind.splits)

lemma year_start_mono: "valid_calendar c \<Longrightarrow> y \<le> y' \<Longrightarrow> year_start c y \<le> year_start c y'"
proof -
  assume c: "valid_calendar c" and y: "y \<le> y'"
  have "0 \<le> (\<Sum>k\<in>{y..<y'}. ytl c k)"
    by (rule sum_nonneg) (use ytl_pos [OF c] order_less_imp_le in blast)
  with year_start_diff [OF y, of c] show ?thesis by simp
qed

section \<open>The loops\<close>

lemma months_before_sum:
  "valid_calendar c \<Longrightarrow> 1 \<le> month ys \<Longrightarrow> m \<le> getYearLength c + 1 \<Longrightarrow> month ys \<le> m \<Longrightarrow>
    months_before c ys m n = Inr (n + (\<Sum>k\<in>{month ys..<m}. mlen c (year ys) k))"
proof (induction c ys m n rule: months_before.induct)
  case (1 c ys m n)
  show ?case
  proof (cases "month ys < m")
    case True
    then have "getMonthLength c ys = Inr (mlen c (year ys) (month ys))"
      using "1.prems" by (intro getMonthLength_mlen) auto
    with True "1.IH" "1.prems" show ?thesis
      by (subst months_before.simps) (simp add: sum_int_first)
  next
    case False
    with "1.prems" show ?thesis by (subst months_before.simps) simp
  qed
qed

lemma years_between_sum:
  "years_between c d y t = t + (\<Sum>k\<in>{year d..<y}. ytl c k)"
proof (induction c d y t rule: years_between.induct)
  case (1 c d y t)
  then show ?case
    by (subst years_between.simps) (simp add: sum_int_first getYearTotalLength_ytl)
qed

section \<open>The conversion to time\<close>

text \<open>A calendar whose time origin was checked against it, and a date checked against it.\<close>

definition good_date :: "cal_store \<Rightarrow> nat \<Rightarrow> cdate \<Rightarrow> bool" where
  "good_date st p d \<longleftrightarrow> relCalendar d = Some p \<and> valid_date (st p) d"

definition good_cal :: "cal_store \<Rightarrow> nat \<Rightarrow> bool" where
  "good_cal st p \<longleftrightarrow> valid_calendar (st p) \<and> good_date st p (timeOrigin (st p))"

lemma getRelCalendar_good [simp]: "good_date st p d \<Longrightarrow> getRelCalendar st d = Inr (st p)"
  by (simp add: good_date_def getRelCalendar_def)

lemma copyDate_good: "valid_calendar (st p) \<Longrightarrow> good_date st p d \<Longrightarrow> copyDate st d = Inr d"
  by (simp add: good_date_def copyDate_valid)

lemma valid_date_month_range:
  assumes "valid_calendar c" "valid_date c d"
  shows "1 \<le> month d" "month d \<le> getYearLength c + 1"
  using assms
  by (auto simp: valid_date_def getYearLength_def user_getYearLength_def base_getYearLength_def
      split: cal_kind.splits if_splits)

lemma getSecondOfYear_good:
  assumes "valid_calendar (st p)" "good_date st p d"
  shows "getSecondOfYear st d = Inr (second_of_year (st p) d)"
proof -
  have "months_before (st p) (d\<lparr>month := 1\<rparr>) (month d) 0 = Inr (days_before (st p) (year d) (month d))"
    using assms valid_date_month_range [of "st p" d]
    by (subst months_before_sum) (auto simp: good_date_def days_before_def)
  with assms show ?thesis
    by (simp add: getSecondOfYear_def copyDate_good second_of_year_def second_of_day_def)
qed

lemma toTime_abs_second:
  assumes c: "good_cal st p" and d: "good_date st p d"
    and later: "hasLeapYear (st p) \<Longrightarrow> year (timeOrigin (st p)) \<le> year d"
  shows "toTime st d = Inr (abs_second (st p) d - abs_second (st p) (timeOrigin (st p)))"
proof -
  let ?c = "st p" and ?o = "timeOrigin (st p)"
  have o: "valid_calendar ?c" "good_date st p ?o" using c by (auto simp: good_cal_def)
  show ?thesis
  proof (cases "hasLeapYear ?c")
    case True
    with o d later show ?thesis
      by (simp add: toTime_def getSecondOfYear_good copyDate_good years_between_sum year_start_diff
          abs_second_def)
  next
    case False
    have diff: "(y' - y) * ytl ?c y = year_start ?c y' - year_start ?c y" if "y \<le> y'" for y y'
    proof -
      have "(\<Sum>k\<in>{y..<y'}. ytl ?c k) = (\<Sum>k\<in>{y..<y'}. ytl ?c y)"
        by (rule sum.cong) (use ytl_constant [OF False] in auto)
      with that year_start_diff [OF that] show ?thesis by simp
    qed
    have "(year d - year ?o) * ytl ?c (year d) = year_start ?c (year d) - year_start ?c (year ?o)"
    proof (cases "year ?o \<le> year d")
      case True
      then show ?thesis using diff ytl_constant [OF False] by metis
    next
      case le: False
      then have "(year ?o - year d) * ytl ?c (year d) = year_start ?c (year ?o) - year_start ?c (year d)"
        by (intro diff) simp
      then show ?thesis by (simp add: algebra_simps)
    qed
    with False o d show ?thesis
      by (simp add: toTime_def getSecondOfYear_good getYearTotalLength_ytl abs_second_def)
  qed
qed

section \<open>The absolute second number orders dates\<close>

text \<open>A date whose time of day lies within the day: automatic unless the length of the day of a
  user defined calendar is no whole number of hours.\<close>

definition proper_date :: "calendar \<Rightarrow> cdate \<Rightarrow> bool" where
  "proper_date c d \<longleftrightarrow> valid_date c d \<and> second_of_day d < getDayLengthInSeconds c"

lemma second_of_day_nonneg: "valid_time c d \<Longrightarrow> 0 \<le> second_of_day d"
  by (simp add: valid_time_def second_of_day_def)

lemma proper_date_standard: "\<not> is_user c \<Longrightarrow> valid_date c d \<Longrightarrow> proper_date c d"
  by (auto simp: proper_date_def valid_date_def valid_time_def second_of_day_def standard_lengths)

lemma proper_date_whole_hours:
  assumes "3600 dvd getDayLengthInSeconds c" "valid_date c d"
  shows "proper_date c d"
proof -
  obtain k where "getDayLengthInSeconds c = 3600 * k" using assms(1) by (rule dvdE)
  moreover from this have "getDayLength c \<le> k" "k \<le> getDayLength c"
    using getDayLength_covers [of c] by linarith+
  ultimately have "getDayLength c * 3600 = getDayLengthInSeconds c" by simp
  moreover have "second_of_day d < getDayLength c * 3600"
    using assms(2) by (auto simp: valid_date_def valid_time_def second_of_day_def)
  ultimately show ?thesis using assms(2) by (simp add: proper_date_def)
qed

lemma day_seconds_less:
  fixes n n' L s s' :: int
  assumes "n < n'" "0 < L" "s < L" "0 \<le> s'"
  shows "n * L + s < n' * L + s'"
proof -
  have "(n + 1) * L \<le> n' * L" using assms by (intro mult_right_mono) auto
  with assms show ?thesis by (simp add: distrib_right)
qed

lemma second_of_year_bounds:
  assumes c: "valid_calendar c" "has_months c" and d: "proper_date c d"
  shows "0 \<le> second_of_year c d" "second_of_year c d < ytl c (year d)"
proof -
  let ?L = "getDayLengthInSeconds c"
  have L: "0 < ?L" using c getDayLengthInSeconds_pos by simp
  have v: "1 \<le> month d" "month d \<le> getYearLength c" "1 \<le> day d" "day d \<le> mlen c (year d) (month d)"
    "0 \<le> second_of_day d" "second_of_day d < ?L"
    using d c second_of_day_nonneg by (auto simp: proper_date_def valid_date_months)
  have "0 \<le> days_before c (year d) (month d)"
    using days_before_mono [of c 1 "month d"] c v by simp
  then show "0 \<le> second_of_year c d" using v L by (simp add: second_of_year_def)
  have "days_before c (year d) (month d) + mlen c (year d) (month d) \<le> year_days c (year d)"
    using days_before_mono [of c "month d + 1" "getYearLength c + 1" "year d"] c v
      days_before_Suc [of "month d" c "year d"] days_before_year [of c "year d"]
    by simp
  then have "days_before c (year d) (month d) + day d - 1 < year_days c (year d)" using v by simp
  then have "second_of_year c d < year_days c (year d) * ?L + 0"
    unfolding second_of_year_def using L v by (intro day_seconds_less) auto
  then show "second_of_year c d < ytl c (year d)" using year_days_ytl c by simp
qed

lemma abs_second_less:
  assumes c: "valid_calendar c" "has_months c" and d: "proper_date c a" "proper_date c b"
    and less: "date_less a b"
  shows "abs_second c a < abs_second c b"
proof (cases "year a = year b")
  case False
  with less have "year a + 1 \<le> year b" by (auto simp: date_less_key date_key_def)
  then have "year_start c (year a) + ytl c (year a) \<le> year_start c (year b)"
    using year_start_mono [OF c(1)] year_start_Suc by metis
  with second_of_year_bounds [OF c d(1)] second_of_year_bounds [OF c d(2)] show ?thesis
    by (simp add: abs_second_def)
next
  case y: True
  let ?L = "getDayLengthInSeconds c"
  have L: "0 < ?L" using c getDayLengthInSeconds_pos by simp
  have v: "1 \<le> month a" "month b \<le> getYearLength c" "1 \<le> day b" "day a \<le> mlen c (year a) (month a)"
    "0 \<le> second_of_day b" "second_of_day a < ?L"
    using d c second_of_day_nonneg by (auto simp: proper_date_def valid_date_months)
  have "second_of_year c a < second_of_year c b"
  proof (cases "month a = month b \<and> day a = day b")
    case True
    have "0 \<le> minute a" "minute a < 60" "0 \<le> minute b" "minute b < 60"
      "0 \<le> second a" "second a < 60" "0 \<le> second b" "second b < 60"
      using d by (auto simp: proper_date_def valid_date_def valid_time_def)
    with True y less have "second_of_day a < second_of_day b"
      by (auto simp: date_less_key date_key_def second_of_day_def)
    with True y show ?thesis by (simp add: second_of_year_def)
  next
    case False
    have "days_before c (year a) (month a) + day a < days_before c (year b) (month b) + day b"
    proof (cases "month a = month b")
      case True
      with False y less show ?thesis by (auto simp: date_less_key date_key_def)
    next
      case m: False
      with y less have "month a + 1 \<le> month b" by (auto simp: date_less_key date_key_def)
      then have "days_before c (year a) (month a) + mlen c (year a) (month a)
          \<le> days_before c (year a) (month b)"
        using days_before_mono [of c "month a + 1" "month b" "year a"] c v
        by (simp add: days_before_Suc)
      with y v show ?thesis by simp
    qed
    then show ?thesis unfolding second_of_year_def using L v y by (intro day_seconds_less) auto
  qed
  with y show ?thesis by (simp add: abs_second_def)
qed

lemma abs_second_less_iff:
  assumes "valid_calendar c" "has_months c" "proper_date c a" "proper_date c b"
  shows "abs_second c a < abs_second c b \<longleftrightarrow> date_less a b"
    and "abs_second c a = abs_second c b \<longleftrightarrow> date_eq a b"
proof -
  have eq: "date_key a = date_key b \<Longrightarrow> abs_second c a = abs_second c b"
    by (simp add: date_key_def abs_second_def second_of_year_def second_of_day_def)
  have "date_less a b \<or> date_key a = date_key b \<or> date_less b a"
    unfolding date_less_key by (rule less_linear)
  with eq abs_second_less [of c a b] abs_second_less [of c b a] assms
  show "abs_second c a < abs_second c b \<longleftrightarrow> date_less a b"
    and "abs_second c a = abs_second c b \<longleftrightarrow> date_eq a b"
    by (auto simp: date_eq_key date_less_key)
qed

end
