(* ===== verification/DateArith.thy ===== *)
theory DateArith
  imports CalendarTime
begin

text \<open>
  Resolving durations and adding them to dates (\<open>src/calendar_util.cpp\<close>,
  \<open>CCalendar::resolve\<close>, \<open>CUserDefinedCalendar::resolve\<close>), and the operations of a calendar
  that set its dates and advance its clock (\<open>src/calendar.cpp\<close>).
\<close>

section \<open>Resolving a duration\<close>

text \<open>The loop that removes days until the time is positive.\<close>

partial_function (option) neg_loop :: "int \<Rightarrow> int \<Rightarrow> rat \<Rightarrow> (int \<times> rat) outcome option" where [code]:
  "neg_loop len t val =
     (if t < 0 then neg_loop len (t + len) (val - 1) else Some (Inr (t, val)))"

definition base_resolve :: "calendar \<Rightarrow> duration \<Rightarrow> bool \<Rightarrow> duration outcome" where
  "base_resolve c dur noNegativeTime =
     (let hourLengthInSeconds = getHourLength c * getMinuteLength c;
          dayLen = getDayLengthInSeconds c;
          (fracDay, dy) = modf (d_day dur);
          t = trunc (fracDay * of_int dayLen
                     + (d_hour dur * of_int (getHourLength c) + d_minute dur)
                         * of_int (getMinuteLength c) + d_second dur);
          dy = dy + of_int (t sdiv dayLen);
          t = t smod dayLen
      in obind (if noNegativeTime then returned ''resolve'' (neg_loop dayLen t dy) else Inr (t, dy))
           (\<lambda>(t, dy).
             let hr = t sdiv hourLengthInSeconds;
                 t = t smod hourLengthInSeconds;
                 mi = t sdiv getMinuteLength c;
                 sc = t smod getMinuteLength c;
                 (fracYear, yr) = modf (d_year dur);
                 mth = d_month dur + fracYear * of_int (getYearLength c);
                 yr = yr + of_int (trunc mth sdiv getYearLength c);
                 mth = of_int (trunc mth smod getYearLength c)
             in Inr (dur\<lparr>d_year := yr, d_month := mth, d_day := dy, d_hour := of_int hr,
                         d_minute := of_int mi, d_second := of_int sc\<rparr>)))"

definition user_resolve ::
  "calendar \<Rightarrow> user_calendar \<Rightarrow> duration \<Rightarrow> bool \<Rightarrow> duration outcome" where
  "user_resolve c u dur noNegativeTime =
     (if 0 < length (monthLengths u) then base_resolve c dur noNegativeTime
      else if d_month dur \<noteq> 0
      then Inl (CException ''the user defined calendar has no month.'')
      else
        let hourLengthInSeconds = getHourLength c * getMinuteLength c;
            t = trunc (d_year dur * of_int (yearLength u) + d_day dur * of_int (dayLength u)
                       + (d_hour dur * of_int (getHourLength c) + d_minute dur)
                           * of_int (getMinuteLength c) + d_second dur);
            yr = of_int (t sdiv yearLength u) :: rat;
            t = t smod yearLength u;
            dy = of_int (t sdiv dayLength u) :: rat;
            t = t smod dayLength u
        in obind
             (if noNegativeTime
              then if dayLength u < yearLength u
                   then omap (\<lambda>(t, v). (t, yr, v)) (returned ''resolve'' (neg_loop (dayLength u) t dy))
                   else omap (\<lambda>(t, v). (t, v, dy)) (returned ''resolve'' (neg_loop (yearLength u) t yr))
              else Inr (t, yr, dy))
             (\<lambda>(t, yr, dy).
               let hr = t sdiv hourLengthInSeconds;
                   t = t smod hourLengthInSeconds;
                   mi = t sdiv getMinuteLength c;
                   sc = t smod getMinuteLength c
               in Inr (dur\<lparr>d_year := yr, d_day := dy, d_hour := of_int hr,
                           d_minute := of_int mi, d_second := of_int sc\<rparr>)))"

definition resolve :: "calendar \<Rightarrow> duration \<Rightarrow> bool \<Rightarrow> duration outcome" where
  "resolve c dur noNegativeTime =
     (case kind c of
        UserDefined u \<Rightarrow> user_resolve c u dur noNegativeTime
      | _ \<Rightarrow> base_resolve c dur noNegativeTime)"

section \<open>Date plus duration\<close>

text \<open>The two loops over the months that the day offset crosses.\<close>

partial_function (option) walk_up ::
  "cal_store \<Rightarrow> calendar \<Rightarrow> cdate \<Rightarrow> rat \<Rightarrow> rat \<Rightarrow> (cdate \<times> rat \<times> rat) outcome option" where [code]:
  "walk_up st c dtt dd mm =
     (case getMonthLength c dtt of
        Inl e \<Rightarrow> Some (Inl e)
      | Inr ml \<Rightarrow>
          if of_int ml \<le> dd
          then (case addMonth st dtt 1 of
                  Inl e \<Rightarrow> Some (Inl e)
                | Inr dtt' \<Rightarrow> walk_up st c dtt' (dd - of_int ml) (mm + 1))
          else Some (Inr (dtt, dd, mm)))"

partial_function (option) walk_down ::
  "cal_store \<Rightarrow> calendar \<Rightarrow> cdate \<Rightarrow> rat \<Rightarrow> rat \<Rightarrow> (cdate \<times> rat \<times> rat) outcome option" where [code]:
  "walk_down st c dtt dd mm =
     (case getMonthLength c dtt of
        Inl e \<Rightarrow> Some (Inl e)
      | Inr ml \<Rightarrow>
          if of_int ml < - dd
          then (case addMonth st dtt (- 1) of
                  Inl e \<Rightarrow> Some (Inl e)
                | Inr dtt' \<Rightarrow> walk_down st c dtt' (dd + of_int ml) (mm - 1))
          else Some (Inr (dtt, dd, mm)))"

text \<open>The day of the result and the duration with its day and month adjusted.\<close>

definition adjust_days ::
  "cal_store \<Rightarrow> calendar \<Rightarrow> cdate \<Rightarrow> duration \<Rightarrow> (int \<times> duration) outcome" where
  "adjust_days st c dt drr =
     obind (copyDate st dt) (\<lambda>dtt.
       let dd = d_day drr + of_int (day dtt - 1);
           dtt = dtt\<lparr>day := 1\<rparr>
       in if 0 \<le> dd
          then obind (returned ''operator+'' (walk_up st c dtt dd (d_month drr)))
                 (\<lambda>(dtt, dd, mm). Inr (trunc (dd + 1), drr\<lparr>d_day := dd, d_month := mm\<rparr>))
          else obind (addMonth st dtt (- 1)) (\<lambda>dtt.
               obind (returned ''operator+'' (walk_down st c dtt dd (d_month drr - 1)))
                 (\<lambda>(dtt, dd, mm). obind (getMonthLength c dtt) (\<lambda>ml.
                    Inr (trunc (of_int ml + dd + 1), drr\<lparr>d_day := dd, d_month := mm\<rparr>)))))"

text \<open>The year and month of the result, from the date and the twice resolved duration.\<close>

definition adjust_months :: "calendar \<Rightarrow> cdate \<Rightarrow> duration \<Rightarrow> int \<times> int" where
  "adjust_months c dt drr =
     (let mth = trunc (of_int (month dt) + d_month drr);
          (yr, mth) = (if mth < 0 then (d_year drr - 1, mth + getYearLength c) else (d_year drr, mth));
          (yr, mth) = (if mth > getYearLength c then (yr + 1, mth - getYearLength c) else (yr, mth));
          (yr, mth) = (if mth = 0 then (yr - 1, getYearLength c) else (yr, mth))
      in (trunc (of_int (year dt) + yr), mth))"

definition date_plus :: "cal_store \<Rightarrow> cdate \<Rightarrow> duration \<Rightarrow> cdate outcome" where
  "date_plus st dt dr =
     (case relCalendar dt of
        None \<Rightarrow> Inl (CException ''The date is not associated with any calendar.'')
      | Some p \<Rightarrow>
          let c = st p;
              calendarHasMonths = (getYearLength c > 0);
              drr = dr\<lparr>d_timestep := 0\<rparr>
          in obind
               (if d_timestep dr \<noteq> 0
                then if dur_eq (timestep c) NoneDu
                     then Inl (CException ''Impossible to use the timestep before it is set.'')
                     else Inr (dur_plus drr (dur_scale (d_timestep dr) (timestep c)))
                else Inr drr)
             (\<lambda>drr.
               let drr = drr\<lparr>d_second := d_second drr + of_int (second dt),
                             d_minute := d_minute drr + of_int (minute dt),
                             d_hour := d_hour drr + of_int (hour dt)\<rparr>;
                   drr = (if \<not> calendarHasMonths
                          then drr\<lparr>d_day := d_day drr + of_int (day dt - 1),
                                   d_year := d_year drr + of_int (year dt)\<rparr>
                          else drr)
               in obind (resolve c drr True) (\<lambda>drr.
                    let sc = trunc (d_second drr); mi = trunc (d_minute drr); hr = trunc (d_hour drr)
                    in if calendarHasMonths
                       then obind (adjust_days st c dt drr) (\<lambda>(dy, drr).
                            obind (resolve c drr False) (\<lambda>drr.
                              let (yr, mth) = adjust_months c dt drr
                              in newDate st p yr mth dy hr mi sc))
                       else newDate st p (trunc (d_year drr)) 1 (trunc (d_day drr + 1)) hr mi sc)))"

definition date_minus_dur :: "cal_store \<Rightarrow> cdate \<Rightarrow> duration \<Rightarrow> cdate outcome" where
  "date_minus_dur st dt dr = date_plus st dt (dur_uminus dr)"

definition date_diff :: "cal_store \<Rightarrow> cdate \<Rightarrow> cdate \<Rightarrow> duration outcome" where
  "date_diff st dt0 dt1 =
     obind (getRelCalendar st dt0) (\<lambda>c.
       resolve c
         \<lparr>d_year = of_int (year dt0 - year dt1), d_month = of_int (month dt0 - month dt1),
          d_day = of_int (day dt0 - day dt1), d_hour = of_int (hour dt0 - hour dt1),
          d_minute = of_int (minute dt0 - minute dt1), d_second = of_int (second dt0 - second dt1),
          d_timestep = 0\<rparr> False)"

section \<open>The clock of a calendar\<close>

definition newCalendar :: "cal_kind \<Rightarrow> nat \<Rightarrow> calendar" where
  "newCalendar k p =
     \<lparr>kind = k, step = 0, initDate = calDate p, timeOrigin = calDate p, currentDate = calDate p,
      timestep = NoneDu\<rparr>"

definition newCalendarDates :: "cal_store \<Rightarrow> cal_kind \<Rightarrow> cdate \<Rightarrow> cdate \<Rightarrow> calendar outcome" where
  "newCalendarDates st k startDate origin =
     obind (copyDate st startDate) (\<lambda>i.
     obind (copyDate st origin) (\<lambda>o'.
     obind (copyDate st startDate) (\<lambda>cu.
       Inr \<lparr>kind = k, step = 0, initDate = i, timeOrigin = o', currentDate = cu,
            timestep = NoneDu\<rparr>)))"

text \<open>\<open>initializeDate()\<close> attaches the three dates to the calendar, one after the other, each
  checked with the calendar as it is by then.\<close>

definition attach ::
  "string \<Rightarrow> (calendar \<Rightarrow> cdate) \<Rightarrow> (cdate \<Rightarrow> calendar \<Rightarrow> calendar) \<Rightarrow> nat
     \<Rightarrow> cal_store \<Rightarrow> cal_store outcome" where
  "attach msg get put p st =
     obind (setRelCalendar (st(p := put ((get (st p))\<lparr>relCalendar := Some p\<rparr>) (st p))) p (get (st p)))
       (\<lambda>(ok, d). if ok then Inr (st(p := put d (st p))) else Inl (CException msg))"

definition initializeDate :: "cal_store \<Rightarrow> nat \<Rightarrow> cal_store outcome" where
  "initializeDate st p =
     obind (attach ''initDate: Bad format or date not conform to the calendar''
              initDate (\<lambda>d c. c\<lparr>initDate := d\<rparr>) p st) (\<lambda>st.
     obind (attach ''timeOrigin: Bad format or date not conform to the calendar''
              timeOrigin (\<lambda>d c. c\<lparr>timeOrigin := d\<rparr>) p st)
           (attach ''currentDate: Bad format or date not conform to the calendar''
              currentDate (\<lambda>d c. c\<lparr>currentDate := d\<rparr>) p))"

definition initializeDate6 ::
  "cal_store \<Rightarrow> nat \<Rightarrow> int \<Rightarrow> int \<Rightarrow> int \<Rightarrow> int \<Rightarrow> int \<Rightarrow> int \<Rightarrow> cal_store outcome" where
  "initializeDate6 st p yr mth d hr mi sc =
     omap (\<lambda>dt. st(p := (st p)\<lparr>initDate := dt, timeOrigin := dt, currentDate := dt\<rparr>))
       (newDate st p yr mth d hr mi sc)"

text \<open>The three constructors each calendar of \<open>src/date\<close> has.\<close>

datatype ctor_args =
    FromStart cdate
  | FromStartOrigin cdate cdate
  | FromInts int int int int int int

definition construct :: "cal_kind \<Rightarrow> cal_store \<Rightarrow> nat \<Rightarrow> ctor_args \<Rightarrow> cal_store outcome" where
  "construct k st p args =
     (case args of
        FromStart s \<Rightarrow> obind (newCalendarDates st k s s) (\<lambda>c. initializeDate (st(p := c)) p)
      | FromStartOrigin s t \<Rightarrow> obind (newCalendarDates st k s t) (\<lambda>c. initializeDate (st(p := c)) p)
      | FromInts yr mth d hr mi sc \<Rightarrow>
          initializeDate6 (st(p := newCalendar k p)) p yr mth d hr mi sc)"

definition AllLeap_construct :: "cal_store \<Rightarrow> nat \<Rightarrow> ctor_args \<Rightarrow> cal_store outcome" where
  "AllLeap_construct = construct AllLeap"
definition D360_construct :: "cal_store \<Rightarrow> nat \<Rightarrow> ctor_args \<Rightarrow> cal_store outcome" where
  "D360_construct = construct D360"
definition Gregorian_construct :: "cal_store \<Rightarrow> nat \<Rightarrow> ctor_args \<Rightarrow> cal_store outcome" where
  "Gregorian_construct = construct Gregorian"
definition Julian_construct :: "cal_store \<Rightarrow> nat \<Rightarrow> ctor_args \<Rightarrow> cal_store outcome" where
  "Julian_construct = construct Julian"
definition NoLeap_construct :: "cal_store \<Rightarrow> nat \<Rightarrow> ctor_args \<Rightarrow> cal_store outcome" where
  "NoLeap_construct = construct NoLeap"

definition setTimeStep :: "duration \<Rightarrow> calendar \<Rightarrow> calendar outcome" where
  "setTimeStep ts c =
     (if d_timestep ts \<noteq> 0
      then Inl (CException ''Circular definition of the timestep'')
      else Inr (c\<lparr>timestep := ts\<rparr>))"

definition update :: "cal_store \<Rightarrow> nat \<Rightarrow> int \<Rightarrow> cal_store \<times> cdate outcome" where
  "update st p n =
     (let st = st(p := (st p)\<lparr>step := n\<rparr>)
      in case date_plus st (initDate (st p)) (dur_scale (of_int n) (timestep (st p))) of
           Inl e \<Rightarrow> (st, Inl e)
         | Inr d \<Rightarrow> (st(p := (st p)\<lparr>currentDate := d\<rparr>), Inr d))"

definition setInitDate :: "cal_store \<Rightarrow> nat \<Rightarrow> cdate \<Rightarrow> cal_store outcome" where
  "setInitDate st p d =
     (case relCalendar d of
        None \<Rightarrow> Inl (CException ''The date is not associated with any calendar.'')
      | Some q \<Rightarrow>
          if q \<noteq> p then Inl (CException ''The init date cannot be attached to another calendar.'')
          else Inr (st(p := (st p)\<lparr>initDate := d\<rparr>)))"

definition setTimeOrigin :: "cal_store \<Rightarrow> nat \<Rightarrow> cdate \<Rightarrow> cal_store outcome" where
  "setTimeOrigin st p d =
     (case relCalendar d of
        None \<Rightarrow> Inl (CException ''The date is not associated with any calendar.'')
      | Some q \<Rightarrow>
          if q \<noteq> p then Inl (CException ''The time origin cannot be attached to another calendar.'')
          else Inr (st(p := (st p)\<lparr>timeOrigin := d\<rparr>)))"

end
