(* ===== verification/DateArithProps.thy ===== *)
theory DateArithProps
  imports DateArith
begin

text \<open>
  Correctness of adding an integral duration to a date: the time of day is carried into days,
  the days are carried into months by the two loops, the months into years.  Everything is
  measured by the absolute number of a month and the absolute second of a date.
\<close>

section \<open>Resolving an integral duration\<close>

lemma neg_loop_resolved:
  assumes "- len < t" "t < len"
  shows "neg_loop len t (of_int v) =
    Some (Inr (if t < 0 then (t + len, of_int (v - 1)) else (t, of_int v)))"
  using assms by (simp add: neg_loop.simps [of _ t] neg_loop.simps [of _ "t + len"])

lemma neg_loop_floor:
  assumes "0 < len"
  shows "neg_loop len (t smod len) (of_int (v + t sdiv len))
    = Some (Inr (t mod len, of_int (v + t div len)))"
  using neg_loop_resolved [of len "t smod len" "v + t sdiv len"] smod_bounds [OF assms, of t]
    sdiv_smod_floor [OF assms, of t]
  by (auto split: if_splits)

definition seconds_of :: "int \<Rightarrow> int \<Rightarrow> int \<Rightarrow> int" where
  "seconds_of h mi s = (h * 60 + mi) * 60 + s"

lemma seconds_of_parts:
  assumes "0 \<le> mi" "mi < 60" "0 \<le> s" "s < 60"
  shows "seconds_of h mi s mod 60 = s" "seconds_of h mi s div 60 mod 60 = mi"
    "seconds_of h mi s div 60 div 60 = h"
proof -
  have eq: "seconds_of h mi s = 60 * (h * 60 + mi) + s" by (simp add: seconds_of_def)
  show "seconds_of h mi s mod 60 = s"
    by (rule int_mod_pos_eq [OF eq]) (use assms in auto)
  have "seconds_of h mi s div 60 = h * 60 + mi"
    by (rule int_div_pos_eq [OF eq]) (use assms in auto)
  then show "seconds_of h mi s div 60 mod 60 = mi" "seconds_of h mi s div 60 div 60 = h"
    using assms by simp_all
qed

text \<open>The hours, minutes and seconds the code extracts from a number of seconds.\<close>

definition hms :: "int \<Rightarrow> int \<times> int \<times> int" where
  "hms t = (t sdiv 3600, (t smod 3600) sdiv 60, (t smod 3600) smod 60)"

lemma hms_recompose:
  assumes "hms t = (h, mi, s)"
  shows "seconds_of h mi s = t"
proof -
  from assms have "h = t sdiv 3600" "mi = (t smod 3600) sdiv 60" "s = (t smod 3600) smod 60"
    by (auto simp: hms_def)
  then show ?thesis
    using sdiv_smod [of t 3600] sdiv_smod [of "t smod 3600" 60] by (simp add: seconds_of_def)
qed

lemma hms_bounds:
  assumes "hms t = (h, mi, s)" "0 \<le> t"
  shows "0 \<le> h" "0 \<le> mi" "mi < 60" "0 \<le> s" "s < 60"
proof -
  from assms have "h = t div 3600" "mi = (t mod 3600) div 60" "s = (t mod 3600) mod 60"
    by (auto simp: hms_def)
  then show "0 \<le> h" "0 \<le> mi" "mi < 60" "0 \<le> s" "s < 60"
    using assms(2) pos_mod_bound [of 3600 t] by (auto simp: pos_imp_zdiv_nonneg_iff)
qed

lemma base_resolve_int:
  assumes "0 < getDayLengthInSeconds c"
  shows "base_resolve c (int_duration y mo d h mi s) neg =
    (let L = getDayLengthInSeconds c; S = seconds_of h mi s;
         (dy, t) = (if neg then (d + S div L, S mod L) else (d + S sdiv L, S smod L));
         (h', mi', s') = hms t
     in Inr (int_duration (y + mo sdiv getYearLength c) (mo smod getYearLength c) dy h' mi' s'))"
proof -
  let ?L = "getDayLengthInSeconds c" and ?S = "seconds_of h mi s"
  have "(3600 * of_int h + of_int mi * 60 + of_int s :: rat) = of_int ?S"
    by (simp add: seconds_of_def)
  then have S: "trunc (3600 * of_int h + of_int mi * 60 + of_int s) = ?S"
    by (simp only: trunc_of_int)
  have add: "(of_int a + of_int b :: rat) = of_int (a + b)" for a b by simp
  show ?thesis
    unfolding base_resolve_def int_duration_sel unit_lengths
    by (simp add: S add neg_loop_floor [OF assms] hms_def int_duration_def Let_def
        del: of_int_add)
qed

section \<open>Months by their absolute number\<close>

definition month_no :: "calendar \<Rightarrow> int \<Rightarrow> int \<Rightarrow> int" where
  "month_no c y m = y * getYearLength c + (m - 1)"

definition no_year :: "calendar \<Rightarrow> int \<Rightarrow> int" where
  "no_year c n = n div getYearLength c"

definition no_month :: "calendar \<Rightarrow> int \<Rightarrow> int" where
  "no_month c n = n mod getYearLength c + 1"

definition no_mlen :: "calendar \<Rightarrow> int \<Rightarrow> int" where
  "no_mlen c n = mlen c (no_year c n) (no_month c n)"

definition no_second :: "calendar \<Rightarrow> int \<Rightarrow> int" where
  "no_second c n =
     year_start c (no_year c n)
     + days_before c (no_year c n) (no_month c n) * getDayLengthInSeconds c"

lemma month_no_inverse:
  assumes "1 \<le> m" "m \<le> getYearLength c"
  shows "no_year c (month_no c y m) = y" "no_month c (month_no c y m) = m"
proof -
  have eq: "month_no c y m = getYearLength c * y + (m - 1)" by (simp add: month_no_def mult.commute)
  show "no_year c (month_no c y m) = y"
    unfolding no_year_def by (rule int_div_pos_eq [OF eq]) (use assms in auto)
  have "month_no c y m mod getYearLength c = m - 1"
    by (rule int_mod_pos_eq [OF eq]) (use assms in auto)
  then show "no_month c (month_no c y m) = m" by (simp add: no_month_def)
qed

lemma no_month_range: "has_months c \<Longrightarrow> 1 \<le> no_month c n \<and> no_month c n \<le> getYearLength c"
  by (simp add: has_months_def no_month_def add1_zle_eq)

lemma month_no_no: "month_no c (no_year c n) (no_month c n) = n"
  by (simp add: month_no_def no_year_def no_month_def)

lemma no_mlen_pos: "valid_calendar c \<Longrightarrow> has_months c \<Longrightarrow> 0 < no_mlen c n"
  unfolding no_mlen_def using no_month_range [of c n] by (intro mlen_pos) auto

lemma no_Suc:
  assumes "has_months c"
  shows "no_month c n < getYearLength c \<Longrightarrow> no_year c (n + 1) = no_year c n \<and> no_month c (n + 1) = no_month c n + 1"
    and "no_month c n = getYearLength c \<Longrightarrow> no_year c (n + 1) = no_year c n + 1 \<and> no_month c (n + 1) = 1"
proof -
  let ?y = "no_year c n" and ?m = "no_month c n"
  have Y: "0 < getYearLength c" using assms by (simp add: has_months_def)
  have n: "n = month_no c ?y ?m" by (simp add: month_no_no)
  note r = no_month_range [OF assms, of n]
  {
    assume less: "?m < getYearLength c"
    have "n + 1 = month_no c ?y (?m + 1)" using n by (simp add: month_no_def)
    then show "no_year c (n + 1) = ?y \<and> no_month c (n + 1) = ?m + 1"
      using month_no_inverse [of "?m + 1" c ?y] r less by simp
  next
    assume last: "?m = getYearLength c"
    have "n + 1 = month_no c (?y + 1) 1" using n last by (simp add: month_no_def distrib_right)
    then show "no_year c (n + 1) = ?y + 1 \<and> no_month c (n + 1) = 1"
      using month_no_inverse [of 1 c "?y + 1"] Y by simp
  }
qed

lemma no_second_Suc:
  assumes c: "valid_calendar c" "has_months c"
  shows "no_second c (n + 1) = no_second c n + no_mlen c n * getDayLengthInSeconds c"
proof (cases "no_month c n < getYearLength c")
  case True
  with no_Suc(1) [OF c(2) True] no_month_range [OF c(2), of n] show ?thesis
    by (simp add: no_second_def no_mlen_def days_before_Suc distrib_right)
next
  case False
  with no_month_range [OF c(2), of n] have last: "no_month c n = getYearLength c" by simp
  let ?y = "no_year c n" and ?L = "getDayLengthInSeconds c"
  have "year_days c ?y = days_before c ?y (getYearLength c) + mlen c ?y (getYearLength c)"
    using c(2) days_before_Suc [of "getYearLength c" c ?y] days_before_year [of c ?y]
    by (simp add: has_months_def)
  then have "ytl c ?y = (days_before c ?y (getYearLength c) + mlen c ?y (getYearLength c)) * ?L"
    using year_days_ytl [OF c] by metis
  with no_Suc(2) [OF c(2) last] last show ?thesis
    by (simp add: no_second_def no_mlen_def year_start_Suc distrib_right)
qed

section \<open>The month walks\<close>

definition at_no :: "calendar \<Rightarrow> cdate \<Rightarrow> int \<Rightarrow> cdate" where
  "at_no c d n = d\<lparr>year := no_year c n, month := no_month c n\<rparr>"

lemma at_no_self:
  "1 \<le> month d \<Longrightarrow> month d \<le> getYearLength c \<Longrightarrow> at_no c d (month_no c (year d) (month d)) = d"
  by (simp add: at_no_def month_no_inverse)

lemma getMonthLength_at_no:
  "valid_calendar c \<Longrightarrow> has_months c \<Longrightarrow> getMonthLength c (at_no c d n) = Inr (no_mlen c n)"
  using no_month_range [of c n] by (simp add: getMonthLength_mlen at_no_def no_mlen_def)

lemma addMonth_at_no:
  assumes c: "has_months (st p)" and d: "relCalendar d = Some p"
  shows "addMonth st (at_no (st p) d n) 1 = Inr (at_no (st p) d (n + 1))"
    and "addMonth st (at_no (st p) d n) (- 1) = Inr (at_no (st p) d (n - 1))"
proof -
  let ?c = "st p"
  note r = no_month_range [OF c, of n] no_month_range [OF c, of "n - 1"]
  show "addMonth st (at_no ?c d n) 1 = Inr (at_no ?c d (n + 1))"
    using r no_Suc [OF c, of n] d c
    by (cases "no_month ?c n = getYearLength ?c")
      (auto simp: addMonth_def getRelCalendar_def at_no_def has_months_def)
  show "addMonth st (at_no ?c d n) (- 1) = Inr (at_no ?c d (n - 1))"
    using r no_Suc [OF c, of "n - 1"] d c
    by (cases "no_month ?c (n - 1) = getYearLength ?c")
      (auto simp: addMonth_def getRelCalendar_def at_no_def has_months_def)
qed

lemma walk_up_ex:
  assumes c: "valid_calendar (st p)" "has_months (st p)" and d: "relCalendar d = Some p"
  shows "0 \<le> D \<Longrightarrow>
    \<exists>n' D'. walk_up st (st p) (at_no (st p) d n) (of_int D) (of_int M)
        = Some (Inr (at_no (st p) d n', of_int D', of_int (M + n' - n)))
      \<and> 0 \<le> D' \<and> D' < no_mlen (st p) n' \<and> (D < no_mlen (st p) n \<longrightarrow> n' = n)
      \<and> no_second (st p) n' + D' * getDayLengthInSeconds (st p)
        = no_second (st p) n + D * getDayLengthInSeconds (st p)"
proof (induction "nat D" arbitrary: D M n rule: less_induct)
  case less
  let ?c = "st p"
  note ml = getMonthLength_at_no [OF c, of d n] no_mlen_pos [OF c, of n]
  show ?case
  proof (cases "no_mlen ?c n \<le> D")
    case False
    then show ?thesis
      using less.prems ml by (intro exI [of _ n] exI [of _ D]) (simp add: walk_up.simps)
  next
    case True
    have "nat (D - no_mlen ?c n) < nat D" "0 \<le> D - no_mlen ?c n"
      using True ml less.prems by auto
    from less.hyps [OF this(1) this(2), of "n + 1" "M + 1"] obtain n' D' where
      IH: "walk_up st ?c (at_no ?c d (n + 1)) (of_int (D - no_mlen ?c n)) (of_int (M + 1))
          = Some (Inr (at_no ?c d n', of_int D', of_int (M + 1 + n' - (n + 1))))"
      "0 \<le> D'" "D' < no_mlen ?c n'"
      "no_second ?c n' + D' * getDayLengthInSeconds ?c
          = no_second ?c (n + 1) + (D - no_mlen ?c n) * getDayLengthInSeconds ?c"
      by blast
    have "walk_up st ?c (at_no ?c d n) (of_int D) (of_int M)
        = walk_up st ?c (at_no ?c d (n + 1)) (of_int (D - no_mlen ?c n)) (of_int (M + 1))"
      using True ml addMonth_at_no [of st p d n] c d by (subst walk_up.simps) simp
    with IH True no_second_Suc [OF c, of n] show ?thesis
      by (intro exI [of _ n'] exI [of _ D']) (simp add: algebra_simps)
  qed
qed

lemma walk_down_ex:
  assumes c: "valid_calendar (st p)" "has_months (st p)" and d: "relCalendar d = Some p"
  shows "D < 0 \<Longrightarrow>
    \<exists>n' D'. walk_down st (st p) (at_no (st p) d n) (of_int D) (of_int M)
        = Some (Inr (at_no (st p) d n', of_int D', of_int (M + n' - n)))
      \<and> 0 \<le> no_mlen (st p) n' + D' \<and> D' < 0 \<and> n' \<le> n
      \<and> no_second (st p) n' + (no_mlen (st p) n' + D') * getDayLengthInSeconds (st p)
        = no_second (st p) (n + 1) + D * getDayLengthInSeconds (st p)"
proof (induction "nat (- D)" arbitrary: D M n rule: less_induct)
  case less
  let ?c = "st p" and ?L = "getDayLengthInSeconds (st p)"
  note ml = getMonthLength_at_no [OF c, of d n] no_mlen_pos [OF c, of n]
  have stop: "no_second ?c n + (no_mlen ?c n + D) * ?L = no_second ?c (n + 1) + D * ?L"
    using no_second_Suc [OF c, of n] by (simp add: algebra_simps)
  show ?case
  proof (cases "no_mlen ?c n < - D")
    case False
    with stop show ?thesis
      using less.prems ml by (intro exI [of _ n] exI [of _ D]) (simp add: walk_down.simps)
  next
    case True
    have "nat (- (D + no_mlen ?c n)) < nat (- D)" "D + no_mlen ?c n < 0"
      using True ml less.prems by auto
    from less.hyps [OF this(1) this(2), of "n - 1" "M - 1"] obtain n' D' where
      IH: "walk_down st ?c (at_no ?c d (n - 1)) (of_int (D + no_mlen ?c n)) (of_int (M - 1))
          = Some (Inr (at_no ?c d n', of_int D', of_int (M - 1 + n' - (n - 1))))"
      "0 \<le> no_mlen ?c n' + D'" "D' < 0" "n' \<le> n - 1"
      "no_second ?c n' + (no_mlen ?c n' + D') * ?L = no_second ?c (n - 1 + 1) + (D + no_mlen ?c n) * ?L"
      by blast
    have "walk_down st ?c (at_no ?c d n) (of_int D) (of_int M)
        = walk_down st ?c (at_no ?c d (n - 1)) (of_int (D + no_mlen ?c n)) (of_int (M - 1))"
      using True ml addMonth_at_no [of st p d n] c d by (subst walk_down.simps) simp
    moreover have "no_second ?c n' + (no_mlen ?c n' + D') * ?L = no_second ?c (n + 1) + D * ?L"
      using IH(5) stop by (simp add: algebra_simps)
    ultimately show ?thesis
      using IH by (intro exI [of _ n'] exI [of _ D']) simp
  qed
qed

section \<open>Adjusting days, months and years\<close>

lemma resolve_months: "has_months c \<Longrightarrow> resolve c = base_resolve c"
  by (auto simp: resolve_def user_resolve_def has_months_def getYearLength_def user_getYearLength_def
      fun_eq_iff split: cal_kind.splits)

lemma of_int_combine:
  "(of_int a + of_int b :: rat) = of_int (a + b)" "(of_int a - of_int b :: rat) = of_int (a - b)"
  "(of_int a - 1 :: rat) = of_int (a - 1)" "(of_int a + 1 :: rat) = of_int (a + 1)"
  by simp_all

lemma adjust_days_ex:
  assumes c: "valid_calendar (st p)" "has_months (st p)" and dt: "good_date st p dt"
  defines "n \<equiv> month_no (st p) (year dt) (month dt)" and "L \<equiv> getDayLengthInSeconds (st p)"
  shows "\<exists>n' dy D'. adjust_days st (st p) dt (int_duration y mo d h mi s)
        = Inr (dy, int_duration y (mo + n' - n) D' h mi s)
      \<and> 1 \<le> dy \<and> dy \<le> no_mlen (st p) n'
      \<and> no_second (st p) n' + (dy - 1) * L = no_second (st p) n + (d + day dt - 1) * L
      \<and> (0 \<le> d + day dt - 1 \<longrightarrow> d + day dt - 1 < no_mlen (st p) n \<longrightarrow> n' = n)"
proof -
  let ?c = "st p" and ?D = "d + (day dt - 1)" and ?e = "dt\<lparr>day := 1\<rparr>"
  have dt': "copyDate st dt = Inr dt" "relCalendar dt = Some p" "relCalendar ?e = Some p"
    "1 \<le> month dt" "month dt \<le> getYearLength ?c"
    using dt c copyDate_good by (auto simp: good_date_def valid_date_months)
  have e: "at_no ?c ?e n = ?e"
    using at_no_self [of ?e ?c] dt' by (simp add: n_def)
  show ?thesis
  proof (cases "0 \<le> ?D")
    case True
    obtain n' D' where w: "walk_up st ?c ?e (of_int ?D) (of_int mo)
          = Some (Inr (at_no ?c ?e n', of_int D', of_int (mo + n' - n)))"
      "0 \<le> D'" "D' < no_mlen ?c n'" "?D < no_mlen ?c n \<longrightarrow> n' = n"
      "no_second ?c n' + D' * L = no_second ?c n + ?D * L"
      using walk_up_ex [where st = st and p = p and d = ?e and D = ?D and n = n and M = mo, OF c dt'(3) True] unfolding e L_def by blast
    have "adjust_days st ?c dt (int_duration y mo d h mi s)
        = Inr (D' + 1, int_duration y (mo + n' - n) D' h mi s)"
      using True w(1) dt'(1)
      by (simp add: adjust_days_def of_int_combine int_duration_def del: of_int_add of_int_diff)
    with w True show ?thesis by (intro exI [of _ n'] exI [of _ "D' + 1"] exI [of _ D']) auto
  next
    case False
    have prev: "addMonth st ?e (- 1) = Inr (at_no ?c ?e (n - 1))"
      using addMonth_at_no(2) [of st p ?e n] c dt' e by simp
    obtain n' D' where w: "walk_down st ?c (at_no ?c ?e (n - 1)) (of_int ?D) (of_int (mo - 1))
          = Some (Inr (at_no ?c ?e n', of_int D', of_int (mo - 1 + n' - (n - 1))))"
      "0 \<le> no_mlen ?c n' + D'" "D' < 0"
      "no_second ?c n' + (no_mlen ?c n' + D') * L = no_second ?c (n - 1 + 1) + ?D * L"
      using walk_down_ex [where st = st and p = p and d = ?e and D = ?D and n = "n - 1" and M = "mo - 1", OF c dt'(3)]
        False unfolding L_def by auto
    have "adjust_days st ?c dt (int_duration y mo d h mi s)
        = Inr (no_mlen ?c n' + D' + 1, int_duration y (mo + n' - n) D' h mi s)"
      using False w(1) dt'(1) prev getMonthLength_at_no [OF c]
      by (simp add: adjust_days_def of_int_combine int_duration_def del: of_int_add of_int_diff)
    with w False show ?thesis
      by (intro exI [of _ n'] exI [of _ "no_mlen ?c n' + D' + 1"] exI [of _ D']) auto
  qed
qed

lemma adjust_months_no:
  fixes N y :: int
  assumes c: "has_months c" and dt: "1 \<le> month dt" "month dt \<le> getYearLength c"
  defines "k \<equiv> month_no c (year dt) (month dt) + N + y * getYearLength c"
  shows "adjust_months c dt (int_duration (y + N sdiv getYearLength c) (N smod getYearLength c) d h mi s)
    = (no_year c k, no_month c k)"
proof -
  let ?Y = "getYearLength c" and ?q = "N sdiv getYearLength c" and ?r = "N smod getYearLength c"
  have Y: "0 < ?Y" using c by (simp add: has_months_def)
  note r = smod_bounds [OF Y, of N]
  have N: "N = ?q * ?Y + ?r" by (simp add: sdiv_mult_smod_eq)
  define m where "m = month dt + ?r"
  define y' where "y' = (if m \<le> 0 then year dt + y + ?q - 1
    else if m > ?Y then year dt + y + ?q + 1 else year dt + y + ?q)"
  define m' where "m' = (if m \<le> 0 then m + ?Y else if m > ?Y then m - ?Y else m)"
  have run: "adjust_months c dt (int_duration (y + ?q) ?r d h mi s) = (y', m')"
    using dt r Y unfolding y'_def m'_def m_def
    by (auto simp: adjust_months_def Let_def of_int_combine simp del: of_int_add of_int_diff)
  have "1 \<le> m'" "m' \<le> ?Y" using dt r Y unfolding m'_def m_def by auto
  moreover have "month_no c y' m' = k"
  proof -
    have "k = (year dt + y + ?q) * ?Y + (m - 1)"
      unfolding k_def month_no_def m_def by (subst N) (simp add: algebra_simps)
    then show ?thesis unfolding y'_def m'_def month_no_def by (simp add: algebra_simps)
  qed
  ultimately show ?thesis using run month_no_inverse by metis
qed

section \<open>Adding an integral duration\<close>

text \<open>The month and the time of day the code arrives at, before the final date check.\<close>

lemma resolve_int:
  assumes "valid_calendar c" "has_months c"
  shows "resolve c (int_duration y mo d h mi s) neg =
    (let L = getDayLengthInSeconds c; S = seconds_of h mi s;
         (dy, t) = (if neg then (d + S div L, S mod L) else (d + S sdiv L, S smod L));
         (h', mi', s') = hms t
     in Inr (int_duration (y + mo sdiv getYearLength c) (mo smod getYearLength c) dy h' mi' s'))"
  by (simp only: resolve_months [OF assms(2)] base_resolve_int [OF getDayLengthInSeconds_pos [OF assms(1)]])

lemma date_plus_int:
  fixes h mi s :: int
  assumes c: "valid_calendar (st p)" "has_months (st p)" and dt: "good_date st p dt"
  defines "L \<equiv> getDayLengthInSeconds (st p)"
    and "n \<equiv> month_no (st p) (year dt) (month dt)"
    and "S \<equiv> second_of_day dt + seconds_of h mi s"
  shows "\<exists>n' dy h' mi' s'.
      date_plus st dt (int_duration y mo d h mi s)
        = (let k = n' + mo + y * getYearLength (st p)
           in newDate st p (no_year (st p) k) (no_month (st p) k) dy h' mi' s')
      \<and> hms (S mod L) = (h', mi', s')
      \<and> 1 \<le> dy \<and> dy \<le> no_mlen (st p) n'
      \<and> no_second (st p) n' + (dy - 1) * L = no_second (st p) n + (d + S div L + day dt - 1) * L
      \<and> (0 \<le> d + S div L + day dt - 1 \<longrightarrow> d + S div L + day dt - 1 < no_mlen (st p) n \<longrightarrow> n' = n)"
proof -
  let ?c = "st p" and ?Y = "getYearLength (st p)"
  let ?drr = "int_duration y mo d (h + hour dt) (mi + minute dt) (s + second dt)"
  obtain h' mi' s' where hms: "hms (S mod L) = (h', mi', s')" by (metis prod_cases3)
  have S: "seconds_of (h + hour dt) (mi + minute dt) (s + second dt) = S"
    by (simp add: S_def seconds_of_def second_of_day_def)
  have first: "resolve ?c ?drr True
      = Inr (int_duration (y + mo sdiv ?Y) (mo smod ?Y) (d + S div L) h' mi' s')"
    unfolding resolve_int [OF c] S using hms by (simp add: L_def)
  obtain n' dy D' where adj: "adjust_days st ?c dt
        (int_duration (y + mo sdiv ?Y) (mo smod ?Y) (d + S div L) h' mi' s')
      = Inr (dy, int_duration (y + mo sdiv ?Y) (mo smod ?Y + n' - n) D' h' mi' s')"
    "1 \<le> dy" "dy \<le> no_mlen ?c n'"
    "no_second ?c n' + (dy - 1) * L = no_second ?c n + (d + S div L + day dt - 1) * L"
    "0 \<le> d + S div L + day dt - 1 \<longrightarrow> d + S div L + day dt - 1 < no_mlen ?c n \<longrightarrow> n' = n"
    using adjust_days_ex [where st = st and p = p and dt = dt and y = "y + mo sdiv ?Y"
        and mo = "mo smod ?Y" and d = "d + S div L" and h = h' and mi = mi' and s = s', OF c dt]
    unfolding n_def L_def by blast
  let ?N = "mo smod ?Y + n' - n"
  obtain dy2 h2 mi2 s2 where second: "resolve ?c
        (int_duration (y + mo sdiv ?Y) ?N D' h' mi' s') False
      = Inr (int_duration ((y + mo sdiv ?Y) + ?N sdiv ?Y) (?N smod ?Y) dy2 h2 mi2 s2)"
    unfolding resolve_int [OF c] Let_def if_False prod.case
    by (cases "hms (seconds_of h' mi' s' smod getDayLengthInSeconds ?c)") auto
  have months: "adjust_months ?c dt
        (int_duration ((y + mo sdiv ?Y) + ?N sdiv ?Y) (?N smod ?Y) dy2 h2 mi2 s2)
      = (no_year ?c (n' + mo + y * ?Y), no_month ?c (n' + mo + y * ?Y))"
  proof -
    have eq: "n + ?N + (y + mo sdiv ?Y) * ?Y = n' + mo + y * ?Y"
      using sdiv_smod [of mo ?Y] by (simp add: distrib_right)
    have "1 \<le> month dt" "month dt \<le> ?Y"
      using c dt by (auto simp: good_date_def valid_date_months)
    from adjust_months_no [where c = ?c and dt = dt and N = ?N and y = "y + mo sdiv ?Y"
        and d = dy2 and h = h2 and mi = mi2 and s = s2, OF c(2) this]
    show ?thesis unfolding n_def [symmetric] eq .
  qed
  have "date_plus st dt (int_duration y mo d h mi s)
      = newDate st p (no_year ?c (n' + mo + y * ?Y)) (no_month ?c (n' + mo + y * ?Y)) dy h' mi' s'"
  proof -
    have drr: "(int_duration y mo d h mi s)\<lparr>d_timestep := 0,
        d_second := of_int s + of_int (second dt), d_minute := of_int mi + of_int (minute dt),
        d_hour := of_int h + of_int (hour dt)\<rparr> = ?drr"
      by (simp add: int_duration_def)
    show ?thesis
      using c(2) dt
      by (simp add: date_plus_def good_date_def has_months_def Let_def drr first adj(1) second months)
  qed
  with hms adj show ?thesis
    by (intro exI [of _ n'] exI [of _ dy] exI [of _ h'] exI [of _ mi'] exI [of _ s']) (simp add: Let_def)
qed

lemma abs_second_no:
  assumes "has_months c" "1 \<le> month d" "month d \<le> getYearLength c"
  shows "abs_second c d = no_second c (month_no c (year d) (month d))
      + (day d - 1) * getDayLengthInSeconds c + second_of_day d"
  using month_no_inverse [OF assms(2,3)]
  by (simp add: abs_second_def second_of_year_def no_second_def algebra_simps)

lemma newDate_valid:
  assumes "valid_calendar (st p)"
    "valid_date (st p) \<lparr>relCalendar = Some p, year = y, month = m, day = d, hour = h, minute = mi, second = s\<rparr>"
  shows "newDate st p y m d h mi s
    = Inr \<lparr>relCalendar = Some p, year = y, month = m, day = d, hour = h, minute = mi, second = s\<rparr>"
  using checkDate_valid [OF assms] by (simp add: newDate_def)

lemma time_of_day_valid:
  assumes "valid_calendar c" "hms (S mod getDayLengthInSeconds c) = (h, mi, s)"
  shows "0 \<le> h" "h < getDayLength c" "0 \<le> mi" "mi < 60" "0 \<le> s" "s < 60"
    "seconds_of h mi s = S mod getDayLengthInSeconds c"
proof -
  let ?L = "getDayLengthInSeconds c"
  have L: "0 < ?L" using assms getDayLengthInSeconds_pos by simp
  show "0 \<le> h" "0 \<le> mi" "mi < 60" "0 \<le> s" "s < 60"
    using hms_bounds [OF assms(2)] L by simp_all
  show eq: "seconds_of h mi s = S mod ?L" by (rule hms_recompose [OF assms(2)])
  have "seconds_of h mi s < ?L" unfolding eq using L by simp
  moreover have "seconds_of h mi s = h * 3600 + mi * 60 + s" by (simp add: seconds_of_def)
  ultimately have "h * 3600 < getDayLength c * 3600"
    using getDayLength_covers(1) [of c] \<open>0 \<le> mi\<close> \<open>0 \<le> s\<close> by linarith
  then show "h < getDayLength c" by simp
qed

text \<open>Adding days, hours, minutes and seconds moves the absolute second by exactly that much.\<close>

lemma date_plus_time:
  assumes c: "valid_calendar (st p)" "has_months (st p)" and dt: "good_date st p dt"
  shows "\<exists>r. date_plus st dt (int_duration 0 0 d h mi s) = Inr r \<and> good_date st p r
    \<and> proper_date (st p) r
    \<and> abs_second (st p) r
        = abs_second (st p) dt + d * getDayLengthInSeconds (st p) + seconds_of h mi s"
proof -
  let ?c = "st p" and ?L = "getDayLengthInSeconds (st p)"
  let ?n = "month_no (st p) (year dt) (month dt)" and ?S = "second_of_day dt + seconds_of h mi s"
  obtain n' dy h' mi' s' where
    run: "date_plus st dt (int_duration 0 0 d h mi s)
        = newDate st p (no_year ?c n') (no_month ?c n') dy h' mi' s'"
    and hms: "hms (?S mod ?L) = (h', mi', s')"
    and dy: "1 \<le> dy" "dy \<le> no_mlen ?c n'"
    and sec: "no_second ?c n' + (dy - 1) * ?L = no_second ?c ?n + (d + ?S div ?L + day dt - 1) * ?L"
    using date_plus_int [where st = st and p = p and dt = dt and y = 0 and mo = 0 and d = d and h = h
        and mi = mi and s = s, OF c dt] by (auto simp: Let_def)
  let ?r = "\<lparr>relCalendar = Some p, year = no_year ?c n', month = no_month ?c n', day = dy,
      hour = h', minute = mi', second = s'\<rparr>"
  note t = time_of_day_valid [OF c(1) hms]
  have v: "valid_date ?c ?r"
    using t dy no_month_range [OF c(2), of n'] c(2)
    by (simp add: valid_date_months valid_time_def no_mlen_def)
  have sod: "second_of_day ?r = ?S mod ?L"
    using t(7) by (simp add: second_of_day_def seconds_of_def)
  have "abs_second ?c ?r = no_second ?c n' + (dy - 1) * ?L + ?S mod ?L"
    using abs_second_no [of ?c ?r] sod no_month_range [OF c(2), of n'] c(2) by (simp add: month_no_no)
  also have "\<dots> = no_second ?c ?n + (d + day dt - 1) * ?L + ?S"
    unfolding sec using div_mult_mod_eq [of ?S ?L] by (simp add: algebra_simps)
  also have "\<dots> = abs_second ?c dt + d * ?L + seconds_of h mi s"
    using abs_second_no [of ?c dt] dt c by (simp add: good_date_def valid_date_months algebra_simps)
  finally have "abs_second ?c ?r = abs_second ?c dt + d * ?L + seconds_of h mi s" .
  moreover have "proper_date ?c ?r"
    unfolding proper_date_def sod using v c getDayLengthInSeconds_pos by simp
  moreover have "good_date st p ?r" using v by (simp add: good_date_def)
  moreover have "date_plus st dt (int_duration 0 0 d h mi s) = Inr ?r"
    using run newDate_valid [where st = st and p = p, OF c(1) v] by simp
  ultimately show ?thesis by blast
qed

text \<open>Adding years and months moves the month number and clips the day to the new month.\<close>

lemma date_plus_months:
  fixes mo y :: int
  assumes c: "valid_calendar (st p)" "has_months (st p)"
    and dt: "good_date st p dt" "proper_date (st p) dt"
  defines "k \<equiv> month_no (st p) (year dt) (month dt) + mo + y * getYearLength (st p)"
  shows "date_plus st dt (int_duration y mo 0 0 0 0)
    = Inr (dt\<lparr>year := no_year (st p) k, month := no_month (st p) k,
              day := min (day dt) (no_mlen (st p) k)\<rparr>)"
proof -
  let ?c = "st p" and ?L = "getDayLengthInSeconds (st p)" and ?n = "month_no (st p) (year dt) (month dt)"
  have L: "0 < ?L" using c getDayLengthInSeconds_pos by simp
  have v: "1 \<le> day dt" "day dt \<le> no_mlen ?c ?n" "0 \<le> hour dt" "hour dt < getDayLength ?c"
    "0 \<le> minute dt" "minute dt < 60" "0 \<le> second dt" "second dt < 60" "relCalendar dt = Some p"
    "0 \<le> second_of_day dt" "second_of_day dt < ?L"
    using dt c second_of_day_nonneg
    by (auto simp: good_date_def proper_date_def valid_date_months valid_time_def no_mlen_def
        month_no_inverse)
  then have sod: "second_of_day dt div ?L = 0" "second_of_day dt mod ?L = second_of_day dt" by simp_all
  obtain n' dy h' mi' s' where
    run: "date_plus st dt (int_duration y mo 0 0 0 0)
        = (let k = n' + mo + y * getYearLength ?c in newDate st p (no_year ?c k) (no_month ?c k) dy h' mi' s')"
    and hms: "hms (second_of_day dt) = (h', mi', s')"
    and sec: "no_second ?c n' + (dy - 1) * ?L = no_second ?c ?n + (day dt - 1) * ?L" "n' = ?n"
    using date_plus_int [where st = st and p = p and dt = dt and y = y and mo = mo and d = 0 and h = 0
        and mi = 0 and s = 0, OF c dt(1)] sod v by (auto simp: seconds_of_def)
  have "dy = day dt" using sec L by simp
  have "h' = hour dt \<and> mi' = minute dt \<and> s' = second dt"
    using hms_recompose [OF hms] hms_bounds [OF hms] v seconds_of_parts [of mi' s' h']
      seconds_of_parts [of "minute dt" "second dt" "hour dt"]
    unfolding second_of_day_def seconds_of_def [symmetric] by metis
  with run sec(2) \<open>dy = day dt\<close> have run: "date_plus st dt (int_duration y mo 0 0 0 0)
      = newDate st p (no_year ?c k) (no_month ?c k) (day dt) (hour dt) (minute dt) (second dt)"
    by (simp add: k_def Let_def)
  let ?d = "\<lparr>relCalendar = Some p, year = no_year ?c k, month = no_month ?c k, day = day dt,
      hour = hour dt, minute = minute dt, second = second dt\<rparr>"
  have ml: "getMonthLength ?c ?d = Inr (no_mlen ?c k)" "0 < no_mlen ?c k"
    using getMonthLength_at_no [OF c, of ?d k] no_mlen_pos [OF c] by (simp_all add: at_no_def)
  have "checkDate ?c = base_checkDate ?c"
    using c(2) by (auto simp: checkDate_def user_checkDate_def has_months_def getYearLength_def
        user_getYearLength_def fun_eq_iff split: cal_kind.splits)
  then have "omap snd (checkDate ?c ?d) = Inr (?d\<lparr>day := min (day dt) (no_mlen ?c k)\<rparr>)"
    using v ml no_month_range [OF c(2), of k]
    by (simp add: base_checkDate_def clamp_time_def min_def)
  then show ?thesis using run v by (cases dt) (simp add: newDate_def)
qed

end
