(* ===== verification/CalendarClaims.thy ===== *)
theory CalendarClaims
  imports DateArithProps
begin

text \<open>
  The properties of the calendar component, each with a witness at a concrete calendar, and the
  lemmas that assemble them from the component's theories.
\<close>

section \<open>Orders by a key\<close>

text \<open>
  Both hand written comparators, the one of dates and the one of durations, promise to order
  by the components from the largest unit to the smallest.
\<close>

locale keyed_order =
  fixes less :: "'a \<Rightarrow> 'a \<Rightarrow> bool" and key :: "'a \<Rightarrow> 'k::linorder"
  assumes less_key: "less a b \<longleftrightarrow> key a < key b"
begin

lemma irrefl: "\<not> less a a"
  by (simp add: less_key)

lemma trans: "less a b \<Longrightarrow> less b c \<Longrightarrow> less a c"
  by (simp add: less_key)

lemma asym: "less a b \<Longrightarrow> \<not> less b a"
  by (simp add: less_key)

lemma incomparable_key: "\<not> less a b \<Longrightarrow> \<not> less b a \<Longrightarrow> key a = key b"
  by (simp add: less_key)

lemma incomparable_trans:
  "\<not> less a b \<Longrightarrow> \<not> less b a \<Longrightarrow> \<not> less b c \<Longrightarrow> \<not> less c b \<Longrightarrow> \<not> less a c \<and> \<not> less c a"
  by (simp add: less_key)

lemma strict_weak:
  "\<not> less a a \<and> (less a b \<longrightarrow> \<not> less b a) \<and> (less a b \<longrightarrow> less b c \<longrightarrow> less a c)
   \<and> (less a b \<or> key a = key b \<or> less b a)"
  using irrefl asym trans incomparable_key by blast

end

interpretation date_order: keyed_order date_less date_key
  by unfold_locales (rule date_less_key)

interpretation duration_order: keyed_order dur_fake_less dur_key
  by unfold_locales (rule dur_fake_less_key)

section \<open>Calendars used by the witnesses\<close>

definition jan1 :: "int \<Rightarrow> cdate" where
  "jan1 y = (calDate 0)\<lparr>year := y\<rparr>"

definition greg :: cal_store where
  "greg = (\<lambda>_. \<lparr>kind = Gregorian, step = 0, initDate = jan1 2000, timeOrigin = jan1 2000,
     currentDate = jan1 2000, timestep = int_duration 0 0 0 1 30 0\<rparr>)"

lemma greg_ok: "good_cal greg 0" "valid_calendar (greg 0)" "has_months (greg 0)"
  by code_simp+

section \<open>Time and dates\<close>

lemma toTime_after_origin:
  assumes "good_cal st p" "good_date st p d" "year (timeOrigin (st p)) \<le> year d"
  shows "toTime st d = Inr (abs_second (st p) d - abs_second (st p) (timeOrigin (st p)))"
  by (rule toTime_abs_second) (use assms in simp_all)

lemma good_cal_valid: "good_cal st p \<Longrightarrow> valid_calendar (st p)"
  by (simp add: good_cal_def)

lemma date_key_eq: "relCalendar a = relCalendar b \<Longrightarrow> date_key a = date_key b \<Longrightarrow> a = b"
  by (cases a; cases b) (simp add: date_key_def)

lemma abs_second_inject:
  assumes "valid_calendar (st p)" "has_months (st p)"
    "good_date st p a" "proper_date (st p) a" "good_date st p b" "proper_date (st p) b"
    "abs_second (st p) a = abs_second (st p) b"
  shows "a = b"
proof -
  have "date_eq a b" using assms abs_second_less_iff(2) by blast
  then show ?thesis using assms by (auto simp: date_eq_key good_date_def intro: date_key_eq)
qed

lemma abs_second_year_mono:
  assumes "valid_calendar c" "has_months c" "proper_date c a" "proper_date c b"
    and "abs_second c a \<le> abs_second c b"
  shows "year a \<le> year b"
proof (rule ccontr)
  assume "\<not> year a \<le> year b"
  then have "date_less b a" by (simp add: date_less_key date_key_def)
  with assms abs_second_less_iff(1) [of c b a] show False by simp
qed

text \<open>Checking a date against a calendar always returns: it answers whether the date was
  valid, leaves a valid date untouched, and otherwise repairs it in place to a valid date with
  the same year and the same calendar.\<close>

theorem checkDate_repairs:
  assumes "valid_calendar c"
  shows "\<exists>v d'. checkDate c d = Inr (v, d') \<and> (v \<longleftrightarrow> valid_date c d) \<and> (v \<longrightarrow> d' = d)
    \<and> valid_date c d' \<and> year d' = year d \<and> relCalendar d' = relCalendar d"
  using checkDate_spec [OF assms, of d] by (auto simp: check_post_def)

theorem checkDate_repairs_witness:
  "\<exists>v d'. checkDate (greg 0) ((jan1 2001)\<lparr>month := 2, day := 30\<rparr>) = Inr (v, d') \<and> \<not> v
     \<and> valid_date (greg 0) d' \<and> day d' = 28"
proof -
  obtain v d' where r: "checkDate (greg 0) ((jan1 2001)\<lparr>month := 2, day := 30\<rparr>) = Inr (v, d')"
    "v \<longleftrightarrow> valid_date (greg 0) ((jan1 2001)\<lparr>month := 2, day := 30\<rparr>)" "valid_date (greg 0) d'"
    using checkDate_repairs [OF greg_ok(2)] by blast
  have "checkDate (greg 0) ((jan1 2001)\<lparr>month := 2, day := 30\<rparr>)
      = Inr (False, (jan1 2001)\<lparr>month := 2, day := 28\<rparr>)"
    by code_simp
  moreover have "day ((jan1 2001)\<lparr>month := 2, day := 28\<rparr>) = 28" by simp
  ultimately show ?thesis using r by (metis Inr_inject prod.inject)
qed

text \<open>C28: The conversion of dates to \<open>Time\<close> is an order embedding: for two valid dates of a calendar
  with months, from the year of its time origin on, the earlier date gets the smaller number of
  seconds, and equal numbers mean equal dates.\<close>

theorem toTime_order_embedding:
  assumes "good_cal st p" "has_months (st p)"
    and "good_date st p a" "proper_date (st p) a" "year (timeOrigin (st p)) \<le> year a"
    and "good_date st p b" "proper_date (st p) b" "year (timeOrigin (st p)) \<le> year b"
  shows "\<exists>ta tb. toTime st a = Inr ta \<and> toTime st b = Inr tb
    \<and> (ta < tb \<longleftrightarrow> date_less a b) \<and> (ta = tb \<longleftrightarrow> date_eq a b)"
  using assms toTime_after_origin [of st p a] toTime_after_origin [of st p b]
    abs_second_less_iff [OF good_cal_valid [OF assms(1)] assms(2), of a b]
  by simp

theorem toTime_order_embedding_witness:
  "\<exists>ta tb. toTime greg ((jan1 2000)\<lparr>month := 2, day := 29\<rparr>) = Inr ta \<and> toTime greg (jan1 2001) = Inr tb
    \<and> ta < tb"
proof -
  have "good_date greg 0 ((jan1 2000)\<lparr>month := 2, day := 29\<rparr>)"
    "proper_date (greg 0) ((jan1 2000)\<lparr>month := 2, day := 29\<rparr>)"
    "year (timeOrigin (greg 0)) \<le> year ((jan1 2000)\<lparr>month := 2, day := 29\<rparr>)"
    "good_date greg 0 (jan1 2001)" "proper_date (greg 0) (jan1 2001)"
    "year (timeOrigin (greg 0)) \<le> year (jan1 2001)"
    "date_less ((jan1 2000)\<lparr>month := 2, day := 29\<rparr>) (jan1 2001)"
    by code_simp+
  with toTime_order_embedding [OF greg_ok(1,3)] show ?thesis by meson
qed

text \<open>C5: In a calendar with months, adding a duration of whole days, hours, minutes and seconds that is
  not negative in total (its parts may be) to a valid date not before the year of the time origin
  returns, the result is a valid date of the same calendar, and its \<open>Time\<close> is the date's \<open>Time\<close> plus
  exactly the seconds of the duration.  (In the years before the origin \<open>toTime\<close> leaves leap days out.)\<close>

theorem date_plus_moves_time:
  assumes "good_cal st p" "has_months (st p)" "good_date st p dt" "proper_date (st p) dt"
    and "year (timeOrigin (st p)) \<le> year dt"
    and "0 \<le> d * getDayLengthInSeconds (st p) + (h * 60 + mi) * 60 + s"
  shows "\<exists>r t. date_plus st dt (int_duration 0 0 d h mi s) = Inr r \<and> good_date st p r
    \<and> toTime st dt = Inr t
    \<and> toTime st r = Inr (t + d * getDayLengthInSeconds (st p) + (h * 60 + mi) * 60 + s)"
proof -
  obtain r where r: "date_plus st dt (int_duration 0 0 d h mi s) = Inr r" "good_date st p r"
    "proper_date (st p) r"
    "abs_second (st p) r = abs_second (st p) dt + d * getDayLengthInSeconds (st p) + seconds_of h mi s"
    using date_plus_time [where st = st and p = p, OF good_cal_valid [OF assms(1)] assms(2,3)] by blast
  have "year dt \<le> year r"
    by (rule abs_second_year_mono [OF good_cal_valid [OF assms(1)] assms(2,4) r(3)])
      (use assms(6) r(4) in \<open>simp add: seconds_of_def\<close>)
  with assms(5) have "toTime st r = Inr (abs_second (st p) r - abs_second (st p) (timeOrigin (st p)))"
    by (intro toTime_after_origin assms(1) r(2)) simp
  moreover note toTime_after_origin [OF assms(1,3,5)]
  ultimately show ?thesis
    using r by (intro exI [of _ r] exI) (simp add: seconds_of_def)
qed

theorem date_plus_moves_time_witness:
  "\<exists>r t. date_plus greg ((jan1 2000)\<lparr>month := 2, day := 28\<rparr>) (int_duration 0 0 2 (- 1) 0 1) = Inr r
    \<and> toTime greg ((jan1 2000)\<lparr>month := 2, day := 28\<rparr>) = Inr t
    \<and> toTime greg r = Inr (t + 2 * 86400 - 3600 + 1)"
proof -
  let ?d = "(jan1 2000)\<lparr>month := 2, day := 28\<rparr>"
  have "good_date greg 0 ?d" "proper_date (greg 0) ?d" "year (timeOrigin (greg 0)) \<le> year ?d"
    "getDayLengthInSeconds (greg 0) = 86400"
    by code_simp+
  then show ?thesis
    using date_plus_moves_time [OF greg_ok(1,3), of ?d 2 "- 1" 0 1] by auto
qed

text \<open>C26: In a calendar with months, adding whole years and months to a valid date moves the date by exactly that many months, keeps the time
  of day, and keeps the day unless the new month is shorter, when the last day of that month is
  taken.\<close>

theorem date_plus_months_clips:
  assumes "valid_calendar (st p)" "has_months (st p)" "good_date st p dt" "proper_date (st p) dt"
  shows "\<exists>r. date_plus st dt (int_duration y mo 0 0 0 0) = Inr r
    \<and> year r * getYearLength (st p) + month r
        = (year dt + y) * getYearLength (st p) + month dt + mo
    \<and> 1 \<le> month r \<and> month r \<le> getYearLength (st p)
    \<and> getMonthLength (st p) r = Inr (mlen (st p) (year r) (month r))
    \<and> day r = min (day dt) (mlen (st p) (year r) (month r))
    \<and> hour r = hour dt \<and> minute r = minute dt \<and> second r = second dt
    \<and> relCalendar r = relCalendar dt"
proof -
  define k where "k = month_no (st p) (year dt) (month dt) + mo + y * getYearLength (st p)"
  let ?r = "dt\<lparr>year := no_year (st p) k, month := no_month (st p) k,
      day := min (day dt) (no_mlen (st p) k)\<rparr>"
  note range = no_month_range [OF assms(2), of k]
  have "date_plus st dt (int_duration y mo 0 0 0 0) = Inr ?r"
    using date_plus_months [where st = st and p = p, OF assms] by (simp add: k_def)
  moreover have "no_year (st p) k * getYearLength (st p) + no_month (st p) k
        = (year dt + y) * getYearLength (st p) + month dt + mo"
    using month_no_no [of "st p" k] by (simp add: k_def month_no_def distrib_right)
  moreover have "getMonthLength (st p) ?r = Inr (mlen (st p) (year ?r) (month ?r))"
    using range assms(1) by (intro getMonthLength_mlen) simp_all
  ultimately show ?thesis
    using range by (intro exI [of _ ?r]) (simp add: no_mlen_def)
qed

theorem date_plus_months_clips_witness:
  "\<exists>r. date_plus greg ((jan1 2000)\<lparr>month := 1, day := 31\<rparr>) (int_duration 1 (- 11) 0 0 0 0) = Inr r
    \<and> day r = 29 \<and> month r = 2 \<and> year r = 2000"
proof -
  let ?d = "(jan1 2000)\<lparr>month := 1, day := 31\<rparr>"
  have "good_date greg 0 ?d" "proper_date (greg 0) ?d" by code_simp+
  then obtain r where r: "date_plus greg ?d (int_duration 1 (- 11) 0 0 0 0) = Inr r"
    "year r * getYearLength (greg 0) + month r = (year ?d + 1) * getYearLength (greg 0) + month ?d + - 11"
    "1 \<le> month r" "month r \<le> getYearLength (greg 0)" "day r = min (day ?d) (mlen (greg 0) (year r) (month r))"
    using date_plus_months_clips [where st = greg and p = 0, OF greg_ok(2,3)] by blast
  moreover have "getYearLength (greg 0) = 12" "year ?d = 2000" "month ?d = 1" "day ?d = 31"
    "mlen (greg 0) 2000 2 = 29"
    by code_simp+
  moreover have "month r = 2 \<and> year r = 2000"
    using r(2-4) calculation(6-8) by simp presburger
  ultimately show ?thesis by (intro exI [of _ r]) simp
qed

text \<open>C27: In a calendar with months, subtracting a duration of whole days, hours, minutes and seconds
  from a valid date it was added to undoes the addition: the same date comes back, across month
  ends, leap days and years, also before the time origin.  (Fractions of a second are lost.)\<close>

theorem date_minus_undoes_plus:
  assumes "valid_calendar (st p)" "has_months (st p)" "good_date st p dt" "proper_date (st p) dt"
  shows "obind (date_plus st dt (int_duration 0 0 d h mi s))
           (\<lambda>r. date_minus_dur st r (int_duration 0 0 d h mi s)) = Inr dt"
proof -
  note plus = date_plus_time [where st = st and p = p, OF assms(1,2)]
  obtain r where r: "date_plus st dt (int_duration 0 0 d h mi s) = Inr r" "good_date st p r"
    "abs_second (st p) r = abs_second (st p) dt + d * getDayLengthInSeconds (st p) + seconds_of h mi s"
    using plus [OF assms(3)] by blast
  obtain q where q: "date_plus st r (int_duration 0 0 (- d) (- h) (- mi) (- s)) = Inr q"
    "good_date st p q" "proper_date (st p) q"
    "abs_second (st p) q
       = abs_second (st p) r + (- d) * getDayLengthInSeconds (st p) + seconds_of (- h) (- mi) (- s)"
    using plus [OF r(2)] by blast
  have "abs_second (st p) q = abs_second (st p) dt" using r(3) q(4) by (simp add: seconds_of_def)
  then have "q = dt" using abs_second_inject [where st = st and p = p] assms q by blast
  moreover have "dur_uminus (int_duration 0 0 d h mi s) = int_duration 0 0 (- d) (- h) (- mi) (- s)"
    by (simp add: dur_uminus_def int_duration_def)
  ultimately show ?thesis using r(1) q(1) by (simp add: date_minus_dur_def)
qed

theorem date_minus_undoes_plus_witness:
  "obind (date_plus greg (jan1 1999) (int_duration 0 0 400 25 61 61))
     (\<lambda>r. date_minus_dur greg r (int_duration 0 0 400 25 61 61)) = Inr (jan1 1999)"
proof (rule date_minus_undoes_plus [where p = 0])
  show "good_date greg 0 (jan1 1999)" "proper_date (greg 0) (jan1 1999)" by code_simp+
qed (rule greg_ok)+

section \<open>The clock\<close>

text \<open>Advancing the clock changes nothing the unit lengths depend on.\<close>

lemma step_irrelevant:
  "getMonthLength (c\<lparr>step := n\<rparr>) = getMonthLength c" "getYearLength (c\<lparr>step := n\<rparr>) = getYearLength c"
  "getYearTotalLength (c\<lparr>step := n\<rparr>) = getYearTotalLength c"
  "getDayLength (c\<lparr>step := n\<rparr>) = getDayLength c"
  "getDayLengthInSeconds (c\<lparr>step := n\<rparr>) = getDayLengthInSeconds c"
  by (simp_all add: fun_eq_iff getMonthLength_def getYearLength_def getYearTotalLength_def
      getDayLength_def getDayLengthInSeconds_def user_getDayLength_def split: cal_kind.split)

lemma step_irrelevant_derived:
  "mlen (c\<lparr>step := n\<rparr>) = mlen c" "ytl (c\<lparr>step := n\<rparr>) = ytl c"
  "valid_date (c\<lparr>step := n\<rparr>) d = valid_date c d" "proper_date (c\<lparr>step := n\<rparr>) d = proper_date c d"
  "abs_second (c\<lparr>step := n\<rparr>) d = abs_second c d" "valid_calendar (c\<lparr>step := n\<rparr>) = valid_calendar c"
  "has_months (c\<lparr>step := n\<rparr>) = has_months c"
proof -
  show m: "mlen (c\<lparr>step := n\<rparr>) = mlen c" and y: "ytl (c\<lparr>step := n\<rparr>) = ytl c"
    by (simp_all add: fun_eq_iff mlen_def ytl_def step_irrelevant)
  show v: "valid_date (c\<lparr>step := n\<rparr>) d = valid_date c d"
    by (simp add: valid_date_def valid_time_def m step_irrelevant split: cal_kind.split)
  show "proper_date (c\<lparr>step := n\<rparr>) d = proper_date c d"
    by (simp add: proper_date_def v step_irrelevant)
  show "abs_second (c\<lparr>step := n\<rparr>) d = abs_second c d"
    by (simp add: abs_second_def year_start_def second_of_year_def days_before_def m y step_irrelevant)
  show "valid_calendar (c\<lparr>step := n\<rparr>) = valid_calendar c" "has_months (c\<lparr>step := n\<rparr>) = has_months c"
    by (simp_all add: valid_calendar_def has_months_def step_irrelevant)
qed

text \<open>After \<open>update n\<close> the calendar's step is \<open>n\<close> and its current date is a valid date exactly
  \<open>n\<close> time steps after the initial date; the time step, the initial date, the time origin and the
  other calendars are untouched.\<close>

theorem update_clock:
  assumes "valid_calendar (st p)" "has_months (st p)" "good_date st p (initDate (st p))"
    and ts: "timestep (st p) = int_duration 0 0 d h mi s"
  shows "\<exists>cu. update st p n = (st(p := (st p)\<lparr>step := n, currentDate := cu\<rparr>), Inr cu)
    \<and> good_date st p cu \<and> proper_date (st p) cu
    \<and> abs_second (st p) cu = abs_second (st p) (initDate (st p))
        + n * (d * getDayLengthInSeconds (st p) + (h * 60 + mi) * 60 + s)"
proof -
  let ?st = "st(p := (st p)\<lparr>step := n\<rparr>)"
  have "valid_calendar (?st p)" "has_months (?st p)" "good_date ?st p (initDate (st p))"
    using assms by (simp_all add: good_date_def step_irrelevant_derived)
  from date_plus_time [where st = ?st and p = p, OF this, of "n * d" "n * h" "n * mi" "n * s"]
  obtain r where r: "date_plus ?st (initDate (st p)) (int_duration 0 0 (n * d) (n * h) (n * mi) (n * s)) = Inr r"
    "good_date ?st p r" "proper_date (?st p) r"
    "abs_second (?st p) r = abs_second (?st p) (initDate (st p))
       + n * d * getDayLengthInSeconds (?st p) + seconds_of (n * h) (n * mi) (n * s)"
    by blast
  have "dur_scale (of_int n) (timestep (st p)) = int_duration 0 0 (n * d) (n * h) (n * mi) (n * s)"
    by (simp add: ts dur_scale_int_duration)
  with r(1) have "update st p n = (st(p := (st p)\<lparr>step := n, currentDate := r\<rparr>), Inr r)"
    by (simp add: update_def Let_def)
  with r(2-4) show ?thesis
    by (intro exI [of _ r])
      (simp add: good_date_def step_irrelevant step_irrelevant_derived seconds_of_def algebra_simps)
qed

theorem update_clock_witness:
  "\<exists>cu. update greg 0 48 = (greg(0 := (greg 0)\<lparr>step := 48, currentDate := cu\<rparr>), Inr cu)
    \<and> abs_second (greg 0) cu = abs_second (greg 0) (jan1 2000) + 48 * 5400"
proof -
  have init: "initDate (greg 0) = jan1 2000" and ts: "timestep (greg 0) = int_duration 0 0 0 1 30 0"
    by (simp_all add: greg_def)
  have "good_date greg 0 (initDate (greg 0))" by code_simp
  from update_clock [where st = greg and p = 0 and n = 48, OF greg_ok(2,3) this ts]
  show ?thesis by (auto simp: init)
qed

section \<open>Constructing calendars\<close>

lemma kind_determines:
  assumes "kind c = kind c'" "\<not> is_user c"
  shows "valid_date c d = valid_date c' d"
proof -
  have "getMonthLength c = getMonthLength c'" "getYearLength c = getYearLength c'"
    "getDayLength c = getDayLength c'"
    using assms
    by (auto simp: fun_eq_iff is_user_def getMonthLength_def getYearLength_def getDayLength_def
        split: cal_kind.splits)
  then show ?thesis
    using assms by (auto simp: valid_date_def valid_time_def mlen_def is_user_def split: cal_kind.splits)
qed

lemma attach_Inr:
  assumes "attach msg get put p st = Inr st'" "valid_calendar (st p)"
    and kind: "\<And>d c. kind (put d c) = kind c"
  shows "st' = st(p := put ((get (st p))\<lparr>relCalendar := Some p\<rparr>) (st p))"
    and "valid_date (put ((get (st p))\<lparr>relCalendar := Some p\<rparr>) (st p))
           ((get (st p))\<lparr>relCalendar := Some p\<rparr>)"
proof -
  let ?c = "put ((get (st p))\<lparr>relCalendar := Some p\<rparr>) (st p)" and ?e = "(get (st p))\<lparr>relCalendar := Some p\<rparr>"
  have "valid_calendar ?c" using assms by (simp add: valid_calendar_def)
  then obtain r where r: "checkDate ?c ?e = Inr r" "check_post ?c ?e r" using checkDate_spec by blast
  then have f: "fst r" "st' = st(p := put (snd r) (st p))"
    using assms(1)
    by (auto simp: attach_def setRelCalendar_def date_checkDate_def getRelCalendar_def split: prod.splits if_splits)
  with r(2) have "snd r = ?e" "valid_date ?c ?e" by (auto simp: check_post_def)
  with f show "st' = st(p := put ?e (st p))" "valid_date ?c ?e" by simp_all
qed

definition dates_attached :: "cal_store \<Rightarrow> nat \<Rightarrow> bool" where
  "dates_attached st p \<longleftrightarrow>
     good_date st p (initDate (st p)) \<and> good_date st p (timeOrigin (st p))
     \<and> good_date st p (currentDate (st p))"

lemma initializeDate_attaches:
  assumes run: "initializeDate st p = Inr st'" and k: "\<not> is_user (st p)"
  defines "ad d \<equiv> d\<lparr>relCalendar := Some p\<rparr>"
  shows "st' = st(p := (st p)\<lparr>initDate := ad (initDate (st p)), timeOrigin := ad (timeOrigin (st p)),
      currentDate := ad (currentDate (st p))\<rparr>)"
    and "dates_attached st' p"
proof -
  have user: "is_user c = is_user (st p)" if "kind c = kind (st p)" for c
    using that by (simp add: is_user_def)
  have v: "valid_calendar c" if "kind c = kind (st p)" for c
    using k user [OF that] that by (auto simp: valid_calendar_def is_user_def split: cal_kind.splits)
  have vd: "valid_date c d = valid_date (st p) d" if "kind c = kind (st p)" for c d
    using kind_determines [OF that] k user [OF that] by simp
  obtain s1 s2 where
    s1: "attach ''initDate: Bad format or date not conform to the calendar'' initDate
           (\<lambda>d c. c\<lparr>initDate := d\<rparr>) p st = Inr s1" and
    s2: "attach ''timeOrigin: Bad format or date not conform to the calendar'' timeOrigin
           (\<lambda>d c. c\<lparr>timeOrigin := d\<rparr>) p s1 = Inr s2" and
    s3: "attach ''currentDate: Bad format or date not conform to the calendar'' currentDate
           (\<lambda>d c. c\<lparr>currentDate := d\<rparr>) p s2 = Inr st'"
    using run by (auto simp: initializeDate_def obind_eq_Inr)
  note a1 = attach_Inr [OF s1 v [OF refl]]
  have e1: "s1 = st(p := (st p)\<lparr>initDate := ad (initDate (st p))\<rparr>)"
    using a1(1) by (simp add: ad_def)
  have w1: "valid_date (st p) (ad (initDate (st p)))"
    using a1(2) vd [of "(st p)\<lparr>initDate := ad (initDate (st p))\<rparr>"] by (simp add: ad_def)
  have k1: "kind (s1 p) = kind (st p)" by (simp add: e1)
  note a2 = attach_Inr [OF s2 v [OF k1]]
  have e2: "s2 = s1(p := (s1 p)\<lparr>timeOrigin := ad (timeOrigin (st p))\<rparr>)"
    using a2(1) by (simp add: ad_def e1 fun_eq_iff)
  have w2: "valid_date (st p) (ad (timeOrigin (st p)))"
    using a2(2) vd [of "(s1 p)\<lparr>timeOrigin := ad (timeOrigin (st p))\<rparr>"] by (simp add: ad_def e1)
  have k2: "kind (s2 p) = kind (st p)" by (simp add: e1 e2)
  note a3 = attach_Inr [OF s3 v [OF k2]]
  have e3: "st' = s2(p := (s2 p)\<lparr>currentDate := ad (currentDate (st p))\<rparr>)"
    using a3(1) by (simp add: ad_def e1 e2 fun_eq_iff)
  have w3: "valid_date (st p) (ad (currentDate (st p)))"
    using a3(2) vd [of "(s2 p)\<lparr>currentDate := ad (currentDate (st p))\<rparr>"] by (simp add: ad_def e1 e2)
  show "st' = st(p := (st p)\<lparr>initDate := ad (initDate (st p)), timeOrigin := ad (timeOrigin (st p)),
      currentDate := ad (currentDate (st p))\<rparr>)"
    by (simp add: e1 e2 e3)
  then show "dates_attached st' p"
    using w1 w2 w3 vd [of "st' p"] by (simp add: dates_attached_def good_date_def ad_def)
qed

text \<open>A calendar built by any of its constructors has its start date, time origin and current
  date attached to it and valid for it. Unattached dates handed over are taken exactly as they are
  (an invalid one is therefore refused, never repaired silently; six integers, in contrast, are
  repaired by the date they construct), and other calendars are not touched.\<close>

theorem construct_attaches_dates:
  assumes "construct k st p args = Inr st'" "\<not> is_user (newCalendar k p)"
  shows "dates_attached st' p \<and> kind (st' p) = k \<and> (\<forall>q. q \<noteq> p \<longrightarrow> st' q = st q)
    \<and> (\<forall>s. args = FromStart s \<longrightarrow> relCalendar s = None \<longrightarrow> date_key (initDate (st' p)) = date_key s
            \<and> date_key (timeOrigin (st' p)) = date_key s)
    \<and> (\<forall>s t. args = FromStartOrigin s t \<longrightarrow> relCalendar s = None \<longrightarrow> relCalendar t = None \<longrightarrow> date_key (initDate (st' p)) = date_key s
            \<and> date_key (timeOrigin (st' p)) = date_key t)"
proof -
  have nk: "kind (newCalendar k p) = k" by (simp add: newCalendar_def)
  have user: "is_user c = is_user (newCalendar k p)" if "kind c = k" for c
    using that nk by (simp add: is_user_def)
  have dates: "dates_attached st' p \<and> kind (st' p) = k \<and> (\<forall>q. q \<noteq> p \<longrightarrow> st' q = st q)
      \<and> (relCalendar s = None \<longrightarrow> date_key (initDate (st' p)) = date_key s)
      \<and> (relCalendar t = None \<longrightarrow> date_key (timeOrigin (st' p)) = date_key t)"
    if c: "newCalendarDates st k s t = Inr c" and i: "initializeDate (st(p := c)) p = Inr st'" for s t c
  proof -
    have f: "kind c = k" "relCalendar s = None \<Longrightarrow> initDate c = s" "relCalendar t = None \<Longrightarrow> timeOrigin c = t"
      using c by (auto simp: newCalendarDates_def obind_eq_Inr copyDate_def)
    have "\<not> is_user ((st(p := c)) p)" using user [OF f(1)] assms(2) by simp
    note a = initializeDate_attaches [OF i this]
    show ?thesis using a(2) f by (simp add: a(1) date_key_def)
  qed
  show ?thesis
  proof (cases args)
    case (FromInts yr mth d hr mi sc)
    let ?d = "\<lparr>relCalendar = Some p, year = yr, month = mth, day = d, hour = hr, minute = mi, second = sc\<rparr>"
    have "valid_calendar (newCalendar k p)"
      using assms(2) by (auto simp: valid_calendar_def is_user_def split: cal_kind.splits)
    then obtain r where r: "checkDate (newCalendar k p) ?d = Inr r" "check_post (newCalendar k p) ?d r"
      using checkDate_spec by blast
    with assms(1) FromInts have st': "st' = st(p := (newCalendar k p)\<lparr>initDate := snd r,
        timeOrigin := snd r, currentDate := snd r\<rparr>)"
      by (simp add: construct_def initializeDate6_def newDate_def)
    have "valid_date (st' p) (snd r) = valid_date (newCalendar k p) (snd r)"
      using assms(2) user nk by (intro kind_determines) (simp_all add: st' is_user_def)
    with r(2) nk FromInts show ?thesis
      by (simp add: st' dates_attached_def good_date_def check_post_def)
  next
    case (FromStart s)
    then obtain c where "newCalendarDates st k s s = Inr c" "initializeDate (st(p := c)) p = Inr st'"
      using assms(1) by (auto simp: construct_def obind_eq_Inr)
    from dates [OF this] FromStart show ?thesis by simp
  next
    case (FromStartOrigin s t)
    then obtain c where "newCalendarDates st k s t = Inr c" "initializeDate (st(p := c)) p = Inr st'"
      using assms(1) by (auto simp: construct_def obind_eq_Inr)
    from dates [OF this] FromStartOrigin show ?thesis by simp
  qed
qed

theorem construct_attaches_dates_witness:
  "\<exists>st'. Julian_construct greg 1 (FromStart (emptyDate\<lparr>year := 1900, month := 2, day := 29\<rparr>)) = Inr st'
     \<and> dates_attached st' 1"
proof -
  let ?run = "construct Julian greg 1 (FromStart (emptyDate\<lparr>year := 1900, month := 2, day := 29\<rparr>))"
  have "is_ok ?run" by code_simp
  then obtain st' where st': "?run = Inr st'" by (auto simp: is_ok_iff)
  moreover have "\<not> is_user (newCalendar Julian 1)" by code_simp
  ultimately have "dates_attached st' 1"
    using construct_attaches_dates [of Julian greg 1 _ st'] by blast
  with st' show ?thesis by (simp add: Julian_construct_def)
qed

end
