(* ===== verification/LeapYears.thy ===== *)
theory LeapYears
  imports CalendarClaims
begin

text \<open>
  Which years of a user defined calendar are leap years (\<open>CUserDefinedCalendar::isLeapYear\<close>), the
  rule the user guide documents, and two facts about the orders and the conversion to \<open>Time\<close>.
\<close>

section \<open>Drift and leap years\<close>

lemma modf_nonneg: "0 \<le> x \<Longrightarrow> fst (modf x) = frac x"
  by (simp add: modf_def trunc_def frac_def)

lemma frac_of_int_div:
  assumes "0 < (n::int)"
  shows "frac (of_int a / of_int n :: rat) = of_int (a mod n) / of_int n"
proof -
  have "of_int a / of_int n = (of_int (a mod n) / of_int n + of_int (a div n) :: rat)"
  proof -
    have "(of_int a :: rat) = of_int (a mod n) + of_int n * of_int (a div n)"
      by (metis mod_mult_div_eq of_int_add of_int_mult)
    then show ?thesis using assms by (simp add: field_simps)
  qed
  then have "frac (of_int a / of_int n :: rat) = frac (of_int (a mod n) / of_int n)" by simp
  also have "\<dots> = of_int (a mod n) / of_int n"
    using assms by (simp add: frac_eq divide_less_eq)
  finally show ?thesis .
qed

text \<open>The rule of the user guide: the drift is summed each year from the initial drift, a year in
  which it reaches one day is a leap year, and then one day is taken off.\<close>

fun documented_drift :: "rat \<Rightarrow> rat \<Rightarrow> nat \<Rightarrow> rat" where
  "documented_drift drift offset 0 = offset"
| "documented_drift drift offset (Suc k) =
     (let s = documented_drift drift offset k + drift in if 1 \<le> s then s - 1 else s)"

definition documented_leap :: "rat \<Rightarrow> rat \<Rightarrow> nat \<Rightarrow> bool" where
  "documented_leap drift offset k \<longleftrightarrow> 1 \<le> documented_drift drift offset k + drift"

lemma documented_drift_frac:
  assumes "0 \<le> drift" "drift < 1" "0 \<le> offset" "offset < 1"
  shows "documented_drift drift offset k = frac (offset + of_nat k * drift)"
proof (induction k)
  case 0
  then show ?case using assms by (simp add: frac_eq)
next
  case (Suc k)
  let ?x = "offset + of_nat k * drift"
  have "frac (?x + drift) = (if 1 \<le> frac ?x + drift then frac ?x + drift - 1 else frac ?x + drift)"
    using assms frac_eq [of drift] by (simp add: frac_add)
  moreover have "offset + of_nat (Suc k) * drift = ?x + drift" by (simp add: algebra_simps)
  ultimately show ?case using Suc by (simp only: documented_drift.simps Let_def if_distrib) simp
qed

text \<open>A drift of \<open>1 / n\<close> and an initial drift of \<open>j / n\<close>: the code's test, an equality up to
  \<open>1e-14\<close>, and the documented one are both a test on the year's number modulo \<open>n\<close>.\<close>

lemma unit_drift:
  assumes "0 < (n::int)"
  shows "offset = of_int j / of_int n \<Longrightarrow> drift = 1 / of_int n \<Longrightarrow>
    (frac :: rat \<Rightarrow> rat) (offset + of_int k * drift) + drift = of_int ((j + k) mod n + 1) / of_int n"
  using frac_of_int_div [OF assms, of "j + k"] by (simp add: add_divide_distrib)

lemma near_one:
  assumes "0 < (n::int)" "n \<le> 10 ^ 14" "0 \<le> m" "m < n"
  shows "\<bar>1 - (of_int (m + 1) / of_int n :: rat)\<bar> < 1 / 10 ^ 14 \<longleftrightarrow> m = n - 1"
proof
  assume l: "\<bar>1 - (of_int (m + 1) / of_int n :: rat)\<bar> < 1 / 10 ^ 14"
  show "m = n - 1"
  proof (rule ccontr)
    assume "m \<noteq> n - 1"
    then have "m + 1 \<le> n - 1" using assms(4) by linarith
    then have "(of_int (m + 1) / of_int n :: rat) \<le> of_int (n - 1) / of_int n"
      using assms(1) by (intro divide_right_mono) (simp_all only: of_int_le_iff of_int_0_le_iff)
    also have "\<dots> = 1 - 1 / of_int n" using assms(1) by (simp add: diff_divide_distrib)
    finally have "1 / (of_int n :: rat) \<le> 1 - of_int (m + 1) / of_int n" by simp
    moreover have "(1::rat) / 10 ^ 14 \<le> 1 / of_int n"
    proof -
      have "(of_int n :: rat) \<le> of_int (10 ^ 14)" using assms(2) by (simp only: of_int_le_iff)
      with assms(1) show ?thesis by (intro divide_left_mono) simp_all
    qed
    ultimately show False using l by linarith
  qed
qed (use assms in simp)

lemma near_one_le:
  assumes "0 < (n::int)" "0 \<le> m" "m < n"
  shows "1 \<le> (of_int (m + 1) / of_int n :: rat) \<longleftrightarrow> m = n - 1"
proof -
  have "1 \<le> (of_int (m + 1) / of_int n :: rat) \<longleftrightarrow> (of_int n :: rat) \<le> of_int (m + 1)"
    using assms(1) by (simp add: le_divide_eq)
  also have "\<dots> \<longleftrightarrow> n \<le> m + 1" by (simp only: of_int_le_iff)
  finally show ?thesis using assms by linarith
qed

text \<open>In a user defined calendar whose yearly drift is one \<open>n\<close>-th of a day and whose initial
  drift is \<open>j\<close> \<open>n\<close>-ths, the leap years from the year of the time origin on are exactly the ones
  the documented rule (sum the drift, a leap year each time it reaches a day) gives: every
  \<open>n\<close>-th year.\<close>

theorem user_leap_years_documented:
  assumes "1 < n" "n \<le> 10 ^ 14" "0 \<le> j" "j < n"
    and "leapYearDrift u = 1 / of_int n" "leapYearDriftOffset u = of_int j / of_int n"
  shows "(user_isLeapYear u origin (year origin + int k) \<longleftrightarrow> (j + int k) mod n = n - 1)
    \<and> (user_isLeapYear u origin (year origin + int k)
           \<longleftrightarrow> documented_leap (leapYearDrift u) (leapYearDriftOffset u) k)"
proof -
  let ?x = "leapYearDriftOffset u + of_int (int k) * leapYearDrift u" and ?m = "(j + int k) mod n"
  have n: "0 < n" "0 \<le> ?m" "?m < n" using assms(1) by simp_all
  have "0 \<le> ?x" using assms n(1) by simp
  have sum: "frac ?x + leapYearDrift u = of_int (?m + 1) / of_int n"
    by (rule unit_drift [OF n(1) assms(6,5)])
  have leap: "user_isLeapYear u origin (year origin + int k) \<longleftrightarrow> ?m = n - 1"
    using near_one [OF n(1) assms(2) n(2,3)] sum modf_nonneg [OF \<open>0 \<le> ?x\<close>] assms(5) n(1)
    by (simp add: user_isLeapYear_def user_hasLeapYear_def)
  have "documented_drift (leapYearDrift u) (leapYearDriftOffset u) k = frac ?x"
    using assms n(1) by (subst documented_drift_frac) (simp_all add: divide_less_eq)
  then show ?thesis
    using leap near_one_le [OF n] sum by (simp add: documented_leap_def)
qed

definition mars :: user_calendar where
  "mars = \<lparr>dayLength = 100, monthLengths = [10, 10], yearLength = 2000, leapYearMonth = 2,
     leapYearDrift = 1 / 4, leapYearDriftOffset = 1 / 2\<rparr>"

theorem user_leap_years_documented_witness:
  "(user_isLeapYear mars (jan1 2000) 2001 \<longleftrightarrow> (2 + int 1) mod 4 = (4::int) - 1)
   \<and> (user_isLeapYear mars (jan1 2000) 2002 \<longleftrightarrow> documented_leap (1 / 4) (1 / 2) 2)"
proof -
  have "leapYearDrift mars = 1 / 4" "leapYearDriftOffset mars = 1 / 2"
    "year (jan1 2000) = 2000" by (simp_all add: mars_def jan1_def)
  with user_leap_years_documented [of 4 2 mars "jan1 2000" 1] user_leap_years_documented [of 4 2 mars "jan1 2000" 2]
  show ?thesis by auto
qed

text \<open>With another drift the code and the documented rule part: a drift of three tenths of a
  day sums to more than one day in the fourth year, a documented leap year, yet the code, which
  asks whether the sum equals one day, has no leap year there; its first leap year is the tenth.\<close>

theorem user_leap_years_missed:
  "let u = mars\<lparr>leapYearDrift := 3 / 10, leapYearDriftOffset := 0\<rparr>
   in filter (\<lambda>k. documented_leap (3 / 10) 0 k) [0..<10] = [3, 6, 9]
      \<and> filter (\<lambda>k. user_isLeapYear u (jan1 2000) (2000 + int k)) [0..<10] = [9]"
  by code_simp

section \<open>The orders used by containers\<close>

text \<open>The comparator of durations, used as the order of the keys of maps and sets, is a strict
  total order on the seven components: irreflexive, asymmetric, transitive, and two durations
  that are not ordered either way have equal components.\<close>

theorem dur_fake_less_strict:
  "\<not> dur_fake_less a a \<and> (dur_fake_less a b \<longrightarrow> \<not> dur_fake_less b a)
   \<and> (dur_fake_less a b \<longrightarrow> dur_fake_less b c \<longrightarrow> dur_fake_less a c)
   \<and> (dur_fake_less a b \<or> dur_eq a b \<or> dur_fake_less b a)"
proof -
  have "dur_key a = dur_key b \<Longrightarrow> dur_eq a b" by (auto simp: dur_key_def dur_eq_def)
  with duration_order.strict_weak [of a b c] show ?thesis by blast
qed

theorem dur_fake_less_strict_witness:
  "dur_fake_less (int_duration 0 0 0 1 0 0) (int_duration 0 1 0 0 0 0)
   \<and> \<not> dur_fake_less (int_duration 0 1 0 0 0 0) (int_duration 0 0 0 1 0 0)"
proof -
  have "dur_fake_less (int_duration 0 0 0 1 0 0) (int_duration 0 1 0 0 0 0)" by code_simp
  with dur_fake_less_strict [of "int_duration 0 0 0 1 0 0" "int_duration 0 1 0 0 0 0"] show ?thesis by blast
qed

section \<open>Before the time origin\<close>

lemma years_between_none: "y \<le> year d \<Longrightarrow> years_between c d y t = t"
  by (subst years_between.simps) simp

text \<open>In a calendar with leap years the conversion to \<open>Time\<close> does not count the years of a
  date before the year of the time origin: the seconds within the years are subtracted and
  nothing else, so all first of Januaries before the origin get the same \<open>Time\<close>.\<close>

theorem toTime_ignores_earlier_years:
  assumes "good_cal st p" "good_date st p d" "hasLeapYear (st p)" "year d \<le> year (timeOrigin (st p))"
  shows "toTime st d
    = Inr (second_of_year (st p) d - second_of_year (st p) (timeOrigin (st p)))"
proof -
  have "valid_calendar (st p)" "good_date st p (timeOrigin (st p))" using assms(1) by (auto simp: good_cal_def)
  with assms show ?thesis
    by (simp add: toTime_def getSecondOfYear_good copyDate_good years_between_none)
qed

theorem toTime_ignores_earlier_years_witness:
  "toTime greg (jan1 1999) = Inr 0 \<and> toTime greg (jan1 1998) = Inr 0 \<and> date_less (jan1 1998) (jan1 1999)"
proof -
  have "good_date greg 0 (jan1 1999)" "good_date greg 0 (jan1 1998)" "hasLeapYear (greg 0)"
    "year (timeOrigin (greg 0)) = 2000" "year (jan1 1999) = 1999" "year (jan1 1998) = 1998"
    "second_of_year (greg 0) (jan1 1999) = 0" "second_of_year (greg 0) (jan1 1998) = 0"
    "second_of_year (greg 0) (timeOrigin (greg 0)) = 0" "date_less (jan1 1998) (jan1 1999)"
    by code_simp+
  with toTime_ignores_earlier_years [OF greg_ok(1), of "jan1 1999"]
    toTime_ignores_earlier_years [OF greg_ok(1), of "jan1 1998"]
  show ?thesis by simp
qed

end
