(* ===== verification/Streams.thy ===== *)
theory Streams
  imports Prelude
begin

text \<open>
  The parts of the C++ standard streams the text formats of dates and durations use: an input
  stream over a string with its \<open>eofbit\<close> and \<open>failbit\<close>, formatted extraction of a character, an
  \<open>int\<close> and a \<open>double\<close>, \<open>get\<close> and \<open>peek\<close>; formatted output of integers with a width and the
  fill character \<open>0\<close>, and of doubles with the default precision of six digits. An extraction
  whose sentry fails leaves its variable alone (\<open>None\<close>), one that finds no number stores zero.
\<close>

section \<open>Decimal digits\<close>

definition is_digit :: "char \<Rightarrow> bool" where
  "is_digit c \<longleftrightarrow> c \<in> set ''0123456789''"

definition digit_char :: "nat \<Rightarrow> char" where
  "digit_char k = ''0123456789'' ! k"

definition digit_value :: "char \<Rightarrow> nat" where
  "digit_value c = of_char c - 48"

fun show_nat :: "nat \<Rightarrow> string" where
  "show_nat n = (if n < 10 then [digit_char n] else show_nat (n div 10) @ [digit_char (n mod 10)])"

declare show_nat.simps [simp del]

definition show_int :: "int \<Rightarrow> string" where
  "show_int n = (if n < 0 then CHR ''-'' # show_nat (nat (- n)) else show_nat (nat n))"

definition nat_of_digits :: "string \<Rightarrow> nat" where
  "nat_of_digits ds = foldl (\<lambda>a c. a * 10 + digit_value c) 0 ds"

lemma less_10_cases: "k < (10::nat) \<Longrightarrow> k \<in> {0,1,2,3,4,5,6,7,8,9}"
  by auto

lemma digit_char [simp]:
  assumes "k < 10"
  shows "is_digit (digit_char k)" "digit_value (digit_char k) = k"
proof -
  have all: "\<forall>k\<in>{0,1,2,3,4,5,6,7,8,9}. is_digit (digit_char k) \<and> digit_value (digit_char k) = k"
    by code_simp
  show "is_digit (digit_char k)" "digit_value (digit_char k) = k"
    using bspec [OF all less_10_cases [OF assms]] by blast+
qed

lemma nat_of_digits_append [simp]:
  "nat_of_digits (xs @ [c]) = nat_of_digits xs * 10 + digit_value c"
  by (simp add: nat_of_digits_def)

lemma show_nat_ne [simp]: "show_nat n \<noteq> []"
  by (subst show_nat.simps) simp

lemma show_nat_digits: "\<forall>c\<in>set (show_nat n). is_digit c"
  by (induction n rule: show_nat.induct, subst show_nat.simps) auto

lemma nat_of_show_nat [simp]: "nat_of_digits (show_nat n) = n"
proof (induction n rule: show_nat.induct)
  case (1 n)
  show ?case
  proof (cases "n < 10")
    case True
    then show ?thesis
      using nat_of_digits_append [of "[]"] by (subst show_nat.simps) (simp add: nat_of_digits_def)
  next
    case False
    then show ?thesis using 1 by (subst show_nat.simps) simp
  qed
qed

lemma nat_of_digits_zeros [simp]:
  "nat_of_digits (replicate k (CHR ''0'') @ ds) = nat_of_digits ds"
proof -
  have "foldl (\<lambda>a c. a * 10 + digit_value c) 0 (replicate k (CHR ''0'')) = 0"
    by (induction k) (simp_all add: digit_value_def)
  then show ?thesis by (simp add: nat_of_digits_def)
qed

section \<open>Output\<close>

text \<open>\<open>width(w)\<close> with \<open>fill('0')\<close>: the fill goes in front, also of a sign.\<close>

definition padded :: "nat \<Rightarrow> int \<Rightarrow> string" where
  "padded w n = (let s = show_int n in replicate (w - length s) (CHR ''0'') @ s)"

text \<open>The default format of a double (\<open>%g\<close> with six significant digits).\<close>

definition round_half_even :: "rat \<Rightarrow> int" where
  "round_half_even x =
     (let f = \<lfloor>x\<rfloor>; r = x - of_int f
      in if r < 1 / 2 then f else if 1 / 2 < r then f + 1 else if even f then f else f + 1)"

definition exponent10 :: "rat \<Rightarrow> int" where
  "exponent10 x =
     (if 1 \<le> x then int (length (show_nat (nat \<lfloor>x\<rfloor>))) - 1
      else - int (length (show_nat (nat (\<lceil>1 / x\<rceil> - 1)))))"

definition scale10 :: "rat \<Rightarrow> int \<Rightarrow> rat" where
  "scale10 x e = (if 0 \<le> e then x * 10 ^ nat e else x / 10 ^ nat (- e))"

definition strip_zeros :: "string \<Rightarrow> string" where
  "strip_zeros s = rev (dropWhile (\<lambda>c. c = CHR ''0'') (rev s))"

definition with_fraction :: "string \<Rightarrow> string \<Rightarrow> string" where
  "with_fraction i f = (let f = strip_zeros f in if f = [] then i else i @ ''.'' @ f)"

definition show_double :: "rat \<Rightarrow> string" where
  "show_double x =
     (if x = 0 then ''0''
      else
        let a = \<bar>x\<bar>;
            e = exponent10 a;
            m = round_half_even (scale10 a (5 - e));
            (m, e) = (if m = 1000000 then (100000, e + 1) else (m, e));
            ds = show_nat (nat m);
            body =
              (if - 4 \<le> e \<and> e < 6
               then (if 0 \<le> e
                     then with_fraction (take (nat (e + 1)) ds) (drop (nat (e + 1)) ds)
                     else with_fraction ''0'' (replicate (nat (- e - 1)) (CHR ''0'') @ ds))
               else with_fraction (take 1 ds) (drop 1 ds) @ ''e'' @ (if e < 0 then ''-'' else ''+'')
                    @ padded 2 \<bar>e\<bar>)
        in (if x < 0 then ''-'' else '''') @ body)"

section \<open>Input\<close>

record istream =
  rest :: string
  eofbit :: bool
  failbit :: bool

definition open_string :: "string \<Rightarrow> istream" where
  "open_string str = \<lparr>rest = str, eofbit = False, failbit = False\<rparr>"

definition stream_good :: "istream \<Rightarrow> bool" where
  "stream_good s \<longleftrightarrow> \<not> eofbit s \<and> \<not> failbit s"

definition is_space :: "char \<Rightarrow> bool" where
  "is_space c \<longleftrightarrow> c \<in> {CHR '' '', CHR 0x09, CHR 0x0A, CHR 0x0B, CHR 0x0C, CHR 0x0D}"

text \<open>The sentry of formatted input: it skips white space and fails at the end.\<close>

definition sentry :: "istream \<Rightarrow> bool \<times> istream" where
  "sentry s =
     (if stream_good s
      then let r = dropWhile is_space (rest s)
           in if r = [] then (False, s\<lparr>rest := [], eofbit := True, failbit := True\<rparr>)
              else (True, s\<lparr>rest := r\<rparr>)
      else (False, s\<lparr>failbit := True\<rparr>))"

definition extract_char :: "istream \<Rightarrow> char option \<times> istream" where
  "extract_char s =
     (case sentry s of
        (True, s) \<Rightarrow> (Some (hd (rest s)), s\<lparr>rest := tl (rest s)\<rparr>)
      | (False, s) \<Rightarrow> (None, s))"

definition split_sign :: "string \<Rightarrow> bool \<times> string" where
  "split_sign s =
     (case s of
        [] \<Rightarrow> (False, [])
      | c # r \<Rightarrow> if c = CHR ''-'' then (True, r) else if c = CHR ''+'' then (False, r) else (False, s))"

definition int_max :: int where "int_max = 2147483647"

definition extract_int :: "istream \<Rightarrow> int option \<times> istream" where
  "extract_int s =
     (case sentry s of
        (False, s) \<Rightarrow> (None, s)
      | (True, s) \<Rightarrow>
          let (neg, r) = split_sign (rest s);
              ds = takeWhile is_digit r;
              r' = dropWhile is_digit r;
              s = s\<lparr>rest := r', eofbit := (r' = [])\<rparr>;
              v = (if neg then - int (nat_of_digits ds) else int (nat_of_digits ds))
          in if ds = [] then (Some 0, s\<lparr>failbit := True\<rparr>)
             else if int_max < v then (Some int_max, s\<lparr>failbit := True\<rparr>)
             else if v < - int_max - 1 then (Some (- int_max - 1), s\<lparr>failbit := True\<rparr>)
             else (Some v, s))"

text \<open>The characters of a floating point number are taken greedily: a sign, digits with at most
  one point, and after at least one digit an \<open>e\<close> with an optional sign and digits. What was taken
  must then be a number.\<close>

definition split_mantissa :: "string \<Rightarrow> string \<times> string \<times> string" where
  "split_mantissa r =
     (let i = takeWhile is_digit r; r = dropWhile is_digit r
      in case r of
           [] \<Rightarrow> (i, [], [])
         | c # r' \<Rightarrow> if c = CHR ''.'' then (i, takeWhile is_digit r', dropWhile is_digit r') else (i, [], r))"

definition split_exponent :: "bool \<Rightarrow> string \<Rightarrow> (bool \<times> string) option \<times> string" where
  "split_exponent found r =
     (case r of
        [] \<Rightarrow> (None, [])
      | c # r' \<Rightarrow>
          if found \<and> (c = CHR ''e'' \<or> c = CHR ''E'')
          then let (neg, r'') = split_sign r'
               in (Some (neg, takeWhile is_digit r''), dropWhile is_digit r'')
          else (None, r))"

definition extract_double :: "istream \<Rightarrow> rat option \<times> istream" where
  "extract_double s =
     (case sentry s of
        (False, s) \<Rightarrow> (None, s)
      | (True, s) \<Rightarrow>
          let (neg, r) = split_sign (rest s);
              (i, f, r) = split_mantissa r;
              (ex, r) = split_exponent (i \<noteq> [] \<or> f \<noteq> []) r;
              s = s\<lparr>rest := r, eofbit := (r = [])\<rparr>;
              m = of_nat (nat_of_digits (i @ f)) / 10 ^ length f;
              v = (case ex of
                     None \<Rightarrow> m
                   | Some (eneg, ed) \<Rightarrow> scale10 m ((if eneg then - 1 else 1) * int (nat_of_digits ed)))
          in if (i = [] \<and> f = []) \<or> (\<exists>n. ex = Some (n, [])) then (Some 0, s\<lparr>failbit := True\<rparr>)
             else (Some (if neg then - v else v), s))"

definition stream_get :: "istream \<Rightarrow> char \<times> istream" where
  "stream_get s =
     (if \<not> stream_good s then (CHR 0xFF, s\<lparr>failbit := True\<rparr>)
      else case rest s of
             [] \<Rightarrow> (CHR 0xFF, s\<lparr>eofbit := True, failbit := True\<rparr>)
           | c # r \<Rightarrow> (c, s\<lparr>rest := r\<rparr>))"

definition peek_eof :: "istream \<Rightarrow> bool \<times> istream" where
  "peek_eof s =
     (if \<not> stream_good s then (True, s\<lparr>failbit := True\<rparr>)
      else if rest s = [] then (True, s\<lparr>eofbit := True\<rparr>)
      else (False, s))"

text \<open>\<open>in >> x\<close> for a variable with a value.\<close>

definition read_int :: "int \<Rightarrow> istream \<Rightarrow> int \<times> istream" where
  "read_int v s = (case extract_int s of (None, s) \<Rightarrow> (v, s) | (Some w, s) \<Rightarrow> (w, s))"

definition read_char :: "char \<Rightarrow> istream \<Rightarrow> char \<times> istream" where
  "read_char c s = (case extract_char s of (None, s) \<Rightarrow> (c, s) | (Some d, s) \<Rightarrow> (d, s))"

definition read_double :: "rat \<Rightarrow> istream \<Rightarrow> rat \<times> istream" where
  "read_double v s = (case extract_double s of (None, s) \<Rightarrow> (v, s) | (Some w, s) \<Rightarrow> (w, s))"

section \<open>Reading back what was printed\<close>

lemma digit_props:
  assumes "is_digit c"
  shows "\<not> is_space c" "c \<noteq> CHR ''-''" "c \<noteq> CHR ''+''" "c \<noteq> CHR ''.''"
  using assms by (auto simp: is_digit_def is_space_def)

lemma split_sign_digits: "xs \<noteq> [] \<Longrightarrow> \<forall>c\<in>set xs. is_digit c \<Longrightarrow> split_sign (xs @ r) = (False, xs @ r)"
  by (cases xs) (auto simp: split_sign_def digit_props)

definition stops :: "string \<Rightarrow> bool" where
  "stops r \<longleftrightarrow> (case r of [] \<Rightarrow> True | c # _ \<Rightarrow> \<not> is_digit c)"

lemma take_digits:
  assumes "\<forall>c\<in>set xs. is_digit c" "stops r"
  shows "takeWhile is_digit (xs @ r) = xs" "dropWhile is_digit (xs @ r) = r"
    "takeWhile is_digit r = []" "dropWhile is_digit r = r"
  using assms by (cases r; simp add: stops_def)+

lemma sentry_good:
  "xs \<noteq> [] \<Longrightarrow> \<not> is_space (hd xs) \<Longrightarrow>
   sentry \<lparr>rest = xs @ r, eofbit = False, failbit = False\<rparr>
     = (True, \<lparr>rest = xs @ r, eofbit = False, failbit = False\<rparr>)"
  by (cases xs) (simp_all add: sentry_def stream_good_def)

lemma read_int_digits:
  assumes "xs \<noteq> []" "\<forall>c\<in>set xs. is_digit c" "stops r" "int (nat_of_digits xs) \<le> int_max"
  shows "read_int v \<lparr>rest = xs @ r, eofbit = False, failbit = False\<rparr>
    = (int (nat_of_digits xs), \<lparr>rest = r, eofbit = (r = []), failbit = False\<rparr>)"
proof -
  have "\<not> is_space (hd xs)" using assms(1,2) by (simp add: digit_props)
  note s = sentry_good [OF assms(1) this] split_sign_digits [OF assms(1,2)]
  have "\<not> int_max < int (nat_of_digits xs)" "\<not> int (nat_of_digits xs) < - int_max - 1"
    using assms(4) by (simp_all add: int_max_def)
  then show ?thesis
    using assms(1)
    by (simp add: read_int_def extract_int_def s take_digits [OF assms(2,3)] Let_def
        del: dropWhile_eq_Nil_conv)
qed

lemma padded_digits:
  assumes "0 \<le> n"
  shows "padded w n \<noteq> []" "\<forall>c\<in>set (padded w n). is_digit c" "nat_of_digits (padded w n) = nat n"
proof -
  have e: "padded w n = replicate (w - length (show_nat (nat n))) (CHR ''0'') @ show_nat (nat n)"
    using assms by (simp add: padded_def show_int_def Let_def)
  have "is_digit (CHR ''0'')" by code_simp
  then show "padded w n \<noteq> []" "\<forall>c\<in>set (padded w n). is_digit c" "nat_of_digits (padded w n) = nat n"
    using show_nat_digits [of "nat n"] by (auto simp: e)
qed

lemma read_int_padded:
  assumes "0 \<le> n" "n \<le> int_max" "stops r"
  shows "read_int v \<lparr>rest = padded w n @ r, eofbit = False, failbit = False\<rparr>
    = (n, \<lparr>rest = r, eofbit = (r = []), failbit = False\<rparr>)"
  using read_int_digits [OF padded_digits(1,2) [OF assms(1)] assms(3)] padded_digits(3) [OF assms(1)] assms
  by simp

lemma read_char_good:
  "\<not> is_space c \<Longrightarrow> read_char d \<lparr>rest = c # r, eofbit = False, failbit = False\<rparr>
    = (c, \<lparr>rest = r, eofbit = False, failbit = False\<rparr>)"
  by (simp add: read_char_def extract_char_def sentry_def stream_good_def)

lemma read_at_eof:
  "eofbit s \<Longrightarrow> read_char d s = (d, s\<lparr>failbit := True\<rparr>)"
  "eofbit s \<Longrightarrow> read_int v s = (v, s\<lparr>failbit := True\<rparr>)"
  by (simp_all add: read_char_def read_int_def extract_char_def extract_int_def sentry_def stream_good_def)

end
