(* ===== verification/DateText.thy ===== *)
theory DateText
  imports Streams CalendarClaims
begin

text \<open>
  The text forms of dates and durations: \<open>operator<<\<close>, \<open>toString\<close>, \<open>getStr\<close> and the parsers of
  \<open>src/date.cpp\<close>, \<open>src/duration.cpp\<close>, \<open>CCalendar::parseDateDefault\<close> and
  \<open>CUserDefinedCalendar::parseDate\<close>. The character variable the date parsers compare with the
  separators has no initial value; reading it before it is set is undefined behaviour.
\<close>

section \<open>Printing dates\<close>

text \<open>The loop that finds the width of a year of more than four digits.\<close>

function year_width :: "int \<Rightarrow> nat \<Rightarrow> int \<Rightarrow> nat" where
  "year_width y width maxSize =
     (if maxSize \<le> y \<and> 0 < maxSize then year_width y (width + 1) (maxSize * 10) else width)"
  by pat_completeness auto
termination
  by (relation "measure (\<lambda>(y, w, m). nat (y + 1 - m))") auto

declare year_width.simps [simp del]

definition date_print :: "cdate \<Rightarrow> string" where
  "date_print d =
     padded (year_width (year d) 4 10000) (year d) @ ''-'' @ padded 2 (month d) @ ''-''
     @ padded 2 (day d) @ '' '' @ padded 2 (hour d) @ '':'' @ padded 2 (minute d) @ '':''
     @ padded 2 (second d)"

definition date_toString :: "cdate \<Rightarrow> string" where
  "date_toString d = date_print d"

definition getStryyyymmdd :: "cdate \<Rightarrow> string" where
  "getStryyyymmdd d = padded 4 (year d) @ padded 2 (month d) @ padded 2 (day d)"

text \<open>The format string of \<open>getStr\<close>: the state \<open>level\<close> counts the characters of an unfinished
  directive.\<close>

definition getStr_directive :: "cal_store \<Rightarrow> cdate \<Rightarrow> char \<Rightarrow> (string \<times> nat) outcome" where
  "getStr_directive st d c =
     (if c = CHR ''y'' then Inr (padded 4 (year d), 0)
      else if c = CHR ''m'' then Inr ([], 2)
      else if c = CHR ''d'' then Inr (padded 2 (day d), 0)
      else if c = CHR ''h'' then Inr (padded 2 (hour d), 0)
      else if c = CHR ''s'' then Inr (padded 2 (second d), 0)
      else if c = CHR ''S'' then obind (toTime st d) (\<lambda>t. Inr (show_int t, 0))
      else if c = CHR ''D''
      then obind (toTime st d) (\<lambda>t. obind (getRelCalendar st d) (\<lambda>cal.
             Inr (show_int (t sdiv getDayLengthInSeconds cal), 0)))
      else Inr ([CHR ''%'', c], 0))"

definition getStr_month_minute :: "cdate \<Rightarrow> char \<Rightarrow> string" where
  "getStr_month_minute d c =
     (if c = CHR ''o'' then padded 2 (month d)
      else if c = CHR ''i'' then padded 2 (minute d)
      else [CHR ''%'', CHR ''m'', c])"

fun getStr_loop :: "cal_store \<Rightarrow> cdate \<Rightarrow> nat \<Rightarrow> string \<Rightarrow> string outcome" where
  "getStr_loop st d level [] = Inr []"
| "getStr_loop st d level (c # cs) =
     (if level = 0
      then if c = CHR ''%'' then getStr_loop st d 1 cs
           else omap (\<lambda>r. c # r) (getStr_loop st d 0 cs)
      else if level = 1
      then obind (getStr_directive st d c)
             (\<lambda>(out, level). omap (\<lambda>r. out @ r) (getStr_loop st d level cs))
      else omap (\<lambda>r. getStr_month_minute d c @ r) (getStr_loop st d 0 cs))"

definition getStr :: "cal_store \<Rightarrow> cdate \<Rightarrow> string \<Rightarrow> string outcome" where
  "getStr st d str = getStr_loop st d 0 str"

section \<open>Printing durations\<close>

definition duration_parts :: "(rat \<times> string) list \<Rightarrow> string" where
  "duration_parts ps = concat (map (\<lambda>(v, u). if v \<noteq> 0 then show_double v @ u @ '' '' else []) ps)"

definition dur_toString :: "duration \<Rightarrow> string" where
  "dur_toString du =
     (let out = duration_parts [(d_year du, ''y''), (d_month du, ''mo''), (d_day du, ''d''),
                  (d_hour du, ''h''), (d_minute du, ''mi''), (d_second du, ''s'')];
          forceOutput = (out = []);
          out = (if d_timestep du \<noteq> 0 \<or> forceOutput
                 then out @ show_double (d_timestep du) @ ''ts '' else out)
      in butlast out)"

definition dur_toStringUDUnits :: "duration \<Rightarrow> string outcome" where
  "dur_toStringUDUnits du =
     (if d_timestep du \<noteq> 0
      then Inl (CException ''Impossible to convert a duration to string using UDUnits when a timestep is set.'')
      else
        let out = duration_parts [(d_year du, '' yr''), (d_month du, '' month''), (d_day du, '' d''),
                    (d_hour du, '' h''), (d_minute du, '' min'')];
            forceOutput = (out = []);
            out = (if d_second du \<noteq> 0 \<or> forceOutput
                   then out @ show_double (d_second du) @ '' s '' else out)
        in Inr (butlast out))"

section \<open>Parsing durations\<close>

datatype dur_unit = UYear | UMonth | UDay | UHour | UMinute | USecond | UTimestep

definition unit_put :: "dur_unit \<Rightarrow> rat \<Rightarrow> duration \<Rightarrow> duration" where
  "unit_put u v du =
     (case u of
        UYear \<Rightarrow> du\<lparr>d_year := v\<rparr> | UMonth \<Rightarrow> du\<lparr>d_month := v\<rparr> | UDay \<Rightarrow> du\<lparr>d_day := v\<rparr>
      | UHour \<Rightarrow> du\<lparr>d_hour := v\<rparr> | UMinute \<Rightarrow> du\<lparr>d_minute := v\<rparr> | USecond \<Rightarrow> du\<lparr>d_second := v\<rparr>
      | UTimestep \<Rightarrow> du\<lparr>d_timestep := v\<rparr>)"

text \<open>The switch on the unit's first character; \<open>mi\<close>, \<open>mo\<close> and \<open>ts\<close> read a second one.\<close>

definition read_unit :: "char \<Rightarrow> istream \<Rightarrow> dur_unit option \<times> istream" where
  "read_unit c s =
     (if c = CHR ''y'' then (Some UYear, s)
      else if c = CHR ''d'' then (Some UDay, s)
      else if c = CHR ''h'' then (Some UHour, s)
      else if c = CHR ''s'' then (Some USecond, s)
      else if c = CHR ''m''
      then (case read_char c s of (c, s) \<Rightarrow>
             (if c = CHR ''i'' then Some UMinute else if c = CHR ''o'' then Some UMonth else None, s))
      else if c = CHR ''t''
      then (case read_char c s of (c, s) \<Rightarrow> (if c = CHR ''s'' then Some UTimestep else None, s))
      else (None, s))"

text \<open>One turn of the loop: the units set so far are the sentinel.\<close>

definition dur_step ::
  "rat \<times> char \<times> dur_unit list \<times> duration \<times> istream
     \<Rightarrow> (rat \<times> char \<times> dur_unit list \<times> duration \<times> istream) outcome" where
  "dur_step = (\<lambda>(v, c, sentinel, du, s).
     let (v, s) = read_double v s; (c, s) = read_char c s
     in if failbit s
        then Inl (CException ''Bad duration format: impossible to read a pair (value, unit).'')
        else case read_unit c s of
               (None, s) \<Rightarrow> Inl (CException ''Bad duration format: invalid unit'')
             | (Some u, s) \<Rightarrow>
                 if List.member sentinel u
                 then Inl (CException ''Bad duration format: unit has already been set.'')
                 else Inr (v, c, u # sentinel, unit_put u v du, s))"

partial_function (option) dur_loop ::
  "rat \<times> char \<times> dur_unit list \<times> duration \<times> istream \<Rightarrow> (duration \<times> istream) outcome option" where [code]:
  "dur_loop x =
     (case dur_step x of
        Inl e \<Rightarrow> Some (Inl e)
      | Inr (v, c, sentinel, du, s) \<Rightarrow>
          (case peek_eof s of
             (eof, s) \<Rightarrow> if eof then Some (Inr (du, s)) else dur_loop (v, c, sentinel, du, s)))"

definition dur_read :: "istream \<Rightarrow> (duration \<times> istream) outcome" where
  "dur_read s = returned ''operator>>'' (dur_loop (1, CHR ''/'', [], NoneDu, s))"

definition dur_FromString :: "string \<Rightarrow> duration outcome" where
  "dur_FromString str = omap fst (dur_read (open_string str))"

section \<open>Parsing dates\<close>

text \<open>From the hour on, the two parsers are the same text up to how the hour is reached.\<close>

definition read_time :: "char \<Rightarrow> istream \<Rightarrow> int \<times> int \<times> int \<times> char \<times> istream" where
  "read_time c s =
     (let (hr, s) = read_int 0 s; (c, s) = read_char c s
      in if c = CHR '':''
         then let (mi, s) = read_int 0 s; (c, s) = read_char c s
              in if c = CHR '':''
                 then let (sc, s) = read_int 0 s; (c, s) = read_char c s in (hr, mi, sc, c, s)
                 else (hr, mi, 0, c, s)
         else (hr, 0, 0, c, s))"

definition read_month_day ::
  "char \<Rightarrow> istream \<Rightarrow> int \<times> int \<times> int \<times> int \<times> int \<times> char \<times> istream" where
  "read_month_day c s =
     (let (mth, s) = read_int 1 s; (c, s) = read_char c s
      in if c = CHR ''-''
         then let (dy, s) = read_int 1 s; (c, s) = stream_get s
              in if c = CHR '' ''
                 then let (hr, mi, sc, c, s) = read_time c s in (mth, dy, hr, mi, sc, c, s)
                 else (mth, dy, 0, 0, 0, c, s)
         else (mth, 1, 0, 0, 0, c, s))"

text \<open>The end of both parsers: a duration after \<open>+\<close>, or the end of the input.\<close>

definition parse_rest ::
  "cal_store \<Rightarrow> char \<Rightarrow> istream \<Rightarrow> cdate \<Rightarrow> (istream \<times> cdate) outcome" where
  "parse_rest st c s d =
     (if c = CHR ''+''
      then obind (dur_read s) (\<lambda>(dur, s). omap (\<lambda>d. (s, d)) (date_plus st d dur))
      else if \<not> eofbit s
      then Inl (CException ''Invalid date format: unexpected trailing character(s)'')
      else Inr (s, d))"

definition parseDateDefault :: "cal_store \<Rightarrow> istream \<Rightarrow> cdate \<Rightarrow> (istream \<times> cdate) outcome" where
  "parseDateDefault st s d =
     (let (yr, s) = read_int 0 s
      in case extract_char s of
           (None, s) \<Rightarrow> Inl (UndefinedBehaviour ''c is read before it is set'')
         | (Some c, s) \<Rightarrow>
             let (mth, dy, hr, mi, sc, c, s) =
                   (if c = CHR ''-'' then read_month_day c s else (1, 1, 0, 0, 0, c, s));
                 d = setDate d yr mth dy hr mi sc
             in obind (if hasRelCalendar d then date_checkDate st d else Inr (True, d))
                  (\<lambda>(ok, d). if \<not> ok then Inl (CException ''Bad date format or not conform to calendar'')
                             else parse_rest st c s d))"

definition user_parseDate ::
  "cal_store \<Rightarrow> calendar \<Rightarrow> user_calendar \<Rightarrow> istream \<Rightarrow> cdate \<Rightarrow> (istream \<times> cdate) outcome" where
  "user_parseDate st cal u s d =
     (if 0 < length (monthLengths u) then parseDateDefault st s d
      else
        let (yr, s) = read_int 0 s; (c, s) = stream_get s;
            (dy, c, s) = (if c = CHR ''-'' \<and> dayLength u < yearLength u
                          then let (dy, s) = read_int 1 s; (c, s) = stream_get s in (dy, c, s)
                          else (1, c, s));
            (hr, mi, sc, c, s) = (if c = CHR '' '' then read_time c s else (0, 0, 0, c, s));
            d = setDate d yr 1 dy hr mi sc
        in obind (checkDate cal d)
             (\<lambda>(ok, d). if \<not> ok then Inl (CException ''Bad date format or not conform to calendar'')
                        else parse_rest st c s d))"

definition parseDate ::
  "cal_store \<Rightarrow> calendar \<Rightarrow> istream \<Rightarrow> cdate \<Rightarrow> (istream \<times> cdate) outcome" where
  "parseDate st cal s d =
     (case kind cal of
        UserDefined u \<Rightarrow> user_parseDate st cal u s d
      | _ \<Rightarrow> parseDateDefault st s d)"

definition date_read :: "cal_store \<Rightarrow> istream \<Rightarrow> cdate \<Rightarrow> (istream \<times> cdate) outcome" where
  "date_read st s d =
     (case relCalendar d of
        Some p \<Rightarrow> parseDate st (st p) s d
      | None \<Rightarrow> parseDateDefault st s d)"

definition date_FromString :: "cal_store \<Rightarrow> string \<Rightarrow> nat \<Rightarrow> cdate outcome" where
  "date_FromString st str p = omap snd (date_read st (open_string str) (calDate p))"

definition initializeDateString :: "cal_store \<Rightarrow> nat \<Rightarrow> string \<Rightarrow> cal_store outcome" where
  "initializeDateString st p dateStr =
     omap (\<lambda>d. st(p := (st p)\<lparr>initDate := d, timeOrigin := d, currentDate := d\<rparr>))
       (date_FromString st dateStr p)"

definition initializeDateStrings :: "cal_store \<Rightarrow> nat \<Rightarrow> string \<Rightarrow> string \<Rightarrow> cal_store outcome" where
  "initializeDateStrings st p dateStr originStr =
     obind (date_FromString st dateStr p) (\<lambda>d.
       let st = st(p := (st p)\<lparr>initDate := d\<rparr>)
       in obind (date_FromString st originStr p) (\<lambda>t.
            Inr (st(p := (st p)\<lparr>timeOrigin := t, currentDate := d\<rparr>))))"

definition calendar_toString :: "string \<Rightarrow> calendar \<Rightarrow> string" where
  "calendar_toString ident c =
     ''[type: '' @ ident @ '', start: '' @ date_print (initDate c) @ '', current: ''
     @ date_print (currentDate c) @ '']''"

end
