(* ===== verification/DateTextClaims.thy ===== *)
theory DateTextClaims
  imports DateText
begin

text \<open>
  What the text forms keep: printed durations and dates are read back as they were, and the short
  date forms the user guide shows.
\<close>

section \<open>Numbers\<close>

lemma show_nat_length_bounds:
  "0 < n \<Longrightarrow> 10 ^ (length (show_nat n) - 1) \<le> n \<and> n < 10 ^ length (show_nat n)"
proof (induction n rule: show_nat.induct)
  case (1 n)
  show ?case
  proof (cases "n < 10")
    case True
    then show ?thesis using 1 by (subst (1 2) show_nat.simps) simp
  next
    case False
    let ?m = "n div 10"
    have l: "length (show_nat n) = Suc (length (show_nat ?m))"
      using False by (subst show_nat.simps) simp
    have ih: "10 ^ (length (show_nat ?m) - 1) \<le> ?m" "?m < 10 ^ length (show_nat ?m)"
      using 1(1) False by auto
    have "length (show_nat ?m) = Suc (length (show_nat ?m) - 1)" by (cases "show_nat ?m") simp_all
    then have p: "(10::nat) ^ length (show_nat ?m) = 10 * 10 ^ (length (show_nat ?m) - 1)"
      by (metis power_Suc)
    have "10 ^ length (show_nat ?m) \<le> n" using ih(1) unfolding p by linarith
    moreover have "n < 10 * 10 ^ length (show_nat ?m)" using ih(2) by linarith
    ultimately show ?thesis unfolding l by simp
  qed
qed

lemma show_nat_shift: "0 < n \<Longrightarrow> show_nat (n * 10 ^ k) = show_nat n @ replicate k (CHR ''0'')"
proof (induction k)
  case (Suc k)
  have "show_nat (n * 10 ^ Suc k) = show_nat (n * 10 ^ k) @ [digit_char 0]"
  proof -
    have "\<not> n * 10 ^ Suc k < 10" using Suc(2) by simp
    moreover have "n * 10 ^ Suc k div 10 = n * 10 ^ k" "n * 10 ^ Suc k mod 10 = 0" by simp_all
    ultimately show ?thesis by (subst show_nat.simps) (simp only: if_False)
  qed
  with Suc show ?case by (simp add: digit_char_def replicate_append_same)
qed simp

lemma strip_zeros_replicate [simp]: "strip_zeros (replicate k (CHR ''0'')) = []"
  by (simp add: strip_zeros_def)

lemma exponent10_nat: "0 < a \<Longrightarrow> exponent10 (of_int (int a)) = int (length (show_nat a)) - 1"
  by (simp add: exponent10_def)

lemma show_double_int:
  assumes "\<bar>n\<bar> < 1000000"
  shows "show_double (of_int n) = show_int n"
proof (cases "n = 0")
  case True
  have "show_nat 0 = ''0''" by (subst show_nat.simps) (simp add: digit_char_def)
  with True show ?thesis by (simp add: show_double_def show_int_def)
next
  case False
  let ?a = "nat \<bar>n\<bar>" and ?l = "length (show_nat (nat \<bar>n\<bar>))"
  have a: "0 < ?a" "?a < 10 ^ 6" using False assms by simp_all
  have l: "10 ^ (?l - 1) \<le> ?a" "?a < 10 ^ ?l" using show_nat_length_bounds [OF a(1)] by auto
  have l1: "1 \<le> ?l" by (cases "show_nat ?a") simp_all
  have l6: "?l \<le> 6"
  proof (rule ccontr)
    assume "\<not> ?l \<le> 6"
    then have "(10::nat) ^ 6 \<le> 10 ^ (?l - 1)" by (intro power_increasing) simp_all
    with l(1) a(2) show False by linarith
  qed
  have ra: "\<bar>of_int n :: rat\<bar> = of_int (int ?a)" by simp
  have e: "exponent10 (of_int (int ?a)) = int ?l - 1" by (rule exponent10_nat [OF a(1)])
  have m: "round_half_even (scale10 (of_int (int ?a)) (5 - (int ?l - 1))) = int (?a * 10 ^ (6 - ?l))"
  proof -
    have "nat (5 - (int ?l - 1)) = 6 - ?l" by simp
    then have "scale10 (of_int (int ?a)) (5 - (int ?l - 1)) = of_int (int (?a * 10 ^ (6 - ?l)))"
      using l6 by (simp add: scale10_def)
    then show ?thesis by (simp only: round_half_even_def floor_of_int Let_def) simp
  qed
  have "?a * 10 ^ (6 - ?l) < 10 ^ ?l * 10 ^ (6 - ?l)" using l(2) by simp
  also have "\<dots> = 10 ^ 6" using l6 by (simp flip: power_add)
  finally have "?a * 10 ^ (6 - ?l) \<noteq> 1000000" by simp
  then have ne: "int (?a * 10 ^ (6 - ?l)) \<noteq> 1000000" by (metis of_nat_eq_iff of_nat_numeral)
  have split: "take ?l (show_nat (?a * 10 ^ (6 - ?l))) = show_nat ?a"
    "drop ?l (show_nat (?a * 10 ^ (6 - ?l))) = replicate (6 - ?l) (CHR ''0'')"
    by (simp_all add: show_nat_shift [OF a(1)])
  have "nat (int ?l - 1 + 1) = ?l" "- 4 \<le> int ?l - 1" "int ?l - 1 < 6" "0 \<le> int ?l - 1"
    using l1 l6 by simp_all
  with False e m ne split have "show_double (of_int n) = (if n < 0 then ''-'' else '''') @ show_nat ?a"
    unfolding show_double_def Let_def ra by (simp only: nat_int if_False if_True split_conv
        of_int_eq_0_iff of_int_less_0_iff with_fraction_def strip_zeros_replicate Let_def simp_thms)
  then show ?thesis by (simp add: show_int_def)
qed

section \<open>Durations\<close>

definition unit_name :: "dur_unit \<Rightarrow> string" where
  "unit_name u =
     (case u of UYear \<Rightarrow> ''y'' | UMonth \<Rightarrow> ''mo'' | UDay \<Rightarrow> ''d'' | UHour \<Rightarrow> ''h'' | UMinute \<Rightarrow> ''mi''
      | USecond \<Rightarrow> ''s'' | UTimestep \<Rightarrow> ''ts'')"

definition unit_get :: "dur_unit \<Rightarrow> duration \<Rightarrow> rat" where
  "unit_get u du =
     (case u of UYear \<Rightarrow> d_year du | UMonth \<Rightarrow> d_month du | UDay \<Rightarrow> d_day du | UHour \<Rightarrow> d_hour du
      | UMinute \<Rightarrow> d_minute du | USecond \<Rightarrow> d_second du | UTimestep \<Rightarrow> d_timestep du)"

abbreviation good_stream :: "string \<Rightarrow> istream" where
  "good_stream r \<equiv> \<lparr>rest = r, eofbit = False, failbit = False\<rparr>"

text \<open>A character that ends a number for the extraction of a double.\<close>

definition ends_double :: "char \<Rightarrow> bool" where
  "ends_double c \<longleftrightarrow> \<not> is_digit c \<and> c \<noteq> CHR ''.'' \<and> c \<noteq> CHR ''e'' \<and> c \<noteq> CHR ''E''"

lemma read_double_int:
  assumes "ends_double c"
  shows "read_double v (good_stream (show_int n @ c # r)) = (of_int n, good_stream (c # r))"
    and "read_double v (good_stream (CHR '' '' # show_int n @ c # r)) = (of_int n, good_stream (c # r))"
proof -
  let ?ds = "show_nat (nat \<bar>n\<bar>)"
  have st: "stops (c # r)" using assms by (simp add: stops_def ends_double_def)
  have td: "takeWhile is_digit (?ds @ c # r) = ?ds" "dropWhile is_digit (?ds @ c # r) = c # r"
    using take_digits [OF show_nat_digits st] by simp_all
  have mant: "split_mantissa (?ds @ c # r) = (?ds, [], c # r)"
    using assms by (simp only: split_mantissa_def td Let_def list.case ends_double_def) simp
  have ex: "split_exponent f (c # r) = (None, c # r)" for f
    using assms by (simp add: split_exponent_def ends_double_def)
  have hd: "is_digit (hd ?ds)" using show_nat_digits [of "nat \<bar>n\<bar>"] by simp
  obtain h t where ht: "show_int n @ c # r = h # t" "\<not> is_space h"
    and sg: "split_sign (show_int n @ c # r) = (n < 0, ?ds @ c # r)"
  proof (cases "n < 0")
    case True
    then have e: "show_int n @ c # r = CHR ''-'' # ?ds @ c # r" by (simp add: show_int_def)
    show ?thesis by (rule that [OF e]) (use True in \<open>simp_all add: e split_sign_def is_space_def\<close>)
  next
    case False
    then have e: "show_int n = ?ds" by (simp add: show_int_def)
    obtain h t where h: "?ds = h # t" by (cases ?ds) simp_all
    show ?thesis
    proof (rule that [of h "t @ c # r"])
      show "split_sign (show_int n @ c # r) = (n < 0, ?ds @ c # r)"
        using False e split_sign_digits [of ?ds "c # r"] show_nat_digits by simp
    qed (use e h hd in \<open>simp_all add: digit_props\<close>)
  qed
  have sentry: "sentry (good_stream (show_int n @ c # r)) = (True, good_stream (show_int n @ c # r))"
    "sentry (good_stream (CHR '' '' # show_int n @ c # r)) = (True, good_stream (show_int n @ c # r))"
    using ht by (simp_all add: sentry_def stream_good_def is_space_def)
  have v: "(if n < 0 then - (of_nat (nat \<bar>n\<bar>)) else of_nat (nat \<bar>n\<bar>)) = (of_int n :: rat)" by simp
  show "read_double v (good_stream (show_int n @ c # r)) = (of_int n, good_stream (c # r))"
    "read_double v (good_stream (CHR '' '' # show_int n @ c # r)) = (of_int n, good_stream (c # r))"
    by (simp_all add: read_double_def extract_double_def sentry sg mant ex Let_def)
qed

lemma unit_read:
  obtains c cs where "unit_name u = c # cs" "ends_double c" "\<not> is_space c"
    and "\<And>r. read_unit c (good_stream (cs @ r)) = (Some u, good_stream r)"
  by (cases u)
    (use that in \<open>auto simp: unit_name_def ends_double_def is_digit_def is_space_def read_unit_def read_char_good\<close>)

text \<open>A printed part: value and unit.\<close>

definition part :: "dur_unit \<times> int \<Rightarrow> string" where
  "part q = show_int (snd q) @ unit_name (fst q)"

definition put_part :: "duration \<Rightarrow> dur_unit \<times> int \<Rightarrow> duration" where
  "put_part du q = unit_put (fst q) (of_int (snd q)) du"

lemma dur_step_part:
  assumes "u \<notin> set sentinel" "lead = [] \<or> lead = '' ''"
  shows "\<exists>c'. dur_step (v, c, sentinel, du, good_stream (lead @ part (u, n) @ r))
    = Inr (of_int n, c', u # sentinel, put_part du (u, n), good_stream r)"
proof -
  obtain h hs where u: "unit_name u = h # hs" "ends_double h" "\<not> is_space h"
    "\<And>r. read_unit h (good_stream (hs @ r)) = (Some u, good_stream r)"
    using unit_read [of u] by blast
  have "read_double v (good_stream (lead @ show_int n @ h # hs @ r)) = (of_int n, good_stream (h # hs @ r))"
    using assms(2) read_double_int [OF u(2)] by auto
  with u assms(1) show ?thesis
    by (simp add: dur_step_def part_def put_part_def read_char_good)
qed

lemma dur_loop_parts:
  assumes "distinct (map fst (p # ps))" "set (map fst (p # ps)) \<inter> set sentinel = {}"
    "lead = [] \<or> lead = '' ''"
  shows "dur_loop (v, c, sentinel, du, good_stream (lead @ part p @ concat (map (\<lambda>q. '' '' @ part q) ps)))
    = Some (Inr (foldl put_part du (p # ps), \<lparr>rest = [], eofbit = True, failbit = False\<rparr>))"
  using assms
proof (induction ps arbitrary: p v c sentinel du lead)
  case Nil
  obtain c' where "dur_step (v, c, sentinel, du, good_stream (lead @ part (fst p, snd p) @ []))
    = Inr (of_int (snd p), c', fst p # sentinel, put_part du (fst p, snd p), good_stream [])"
    using dur_step_part [of "fst p" sentinel lead v c du "snd p" "[]"] Nil by auto
  then show ?case by (subst dur_loop.simps) (simp add: peek_eof_def stream_good_def)
next
  case (Cons q ps)
  let ?r = "'' '' @ part q @ concat (map (\<lambda>q. '' '' @ part q) ps)"
  obtain c' where "dur_step (v, c, sentinel, du, good_stream (lead @ part (fst p, snd p) @ ?r))
    = Inr (of_int (snd p), c', fst p # sentinel, put_part du (fst p, snd p), good_stream ?r)"
    using dur_step_part [of "fst p" sentinel lead v c du "snd p" ?r] Cons.prems by auto
  moreover have "dur_loop (of_int (snd p), c', fst p # sentinel, put_part du p, good_stream ?r)
    = Some (Inr (foldl put_part (put_part du p) (q # ps), \<lparr>rest = [], eofbit = True, failbit = False\<rparr>))"
    using Cons.prems by (intro Cons.IH) auto
  ultimately show ?case
    by (subst dur_loop.simps) (simp add: peek_eof_def stream_good_def)
qed

definition all_units :: "dur_unit list" where
  "all_units = [UYear, UMonth, UDay, UHour, UMinute, USecond, UTimestep]"

definition integral :: "duration \<Rightarrow> bool" where
  "integral du \<longleftrightarrow> (\<forall>u. \<bar>unit_get u du\<bar> < 1000000 \<and> unit_get u du \<in> \<int>)"

definition parts_of :: "duration \<Rightarrow> (dur_unit \<times> int) list" where
  "parts_of du =
     (let ps = filter (\<lambda>q. snd q \<noteq> 0) (map (\<lambda>u. (u, \<lfloor>unit_get u du\<rfloor>)) all_units)
      in if ps = [] then [(UTimestep, 0)] else ps)"

lemma integral_floor:
  assumes "integral du"
  obtains k where "unit_get u du = of_int k" "\<bar>k\<bar> < 1000000"
proof -
  obtain k where k: "unit_get u du = of_int k" using assms by (auto simp: integral_def Ints_def)
  then have "\<bar>of_int k :: rat\<bar> < of_int 1000000" using assms by (simp add: integral_def flip: k)
  then have "\<bar>k\<bar> < 1000000" by (simp only: of_int_abs [symmetric] of_int_less_iff)
  with k that show ?thesis by blast
qed

lemma part_string:
  assumes "integral du"
  shows "show_double (unit_get u du) @ unit_name u = part (u, \<lfloor>unit_get u du\<rfloor>)"
    and "unit_get u du \<noteq> 0 \<longleftrightarrow> \<lfloor>unit_get u du\<rfloor> \<noteq> 0"
  by (rule integral_floor [OF assms, of u], simp add: part_def show_double_int)+

lemma dur_toString_parts:
  assumes "integral du"
  shows "dur_toString du = butlast (concat (map (\<lambda>q. part q @ '' '') (parts_of du)))"
proof -
  let ?ps = "filter (\<lambda>q. snd q \<noteq> 0) (map (\<lambda>u. (u, \<lfloor>unit_get u du\<rfloor>)) all_units)"
  let ?six = "filter (\<lambda>q. snd q \<noteq> 0) (map (\<lambda>u. (u, \<lfloor>unit_get u du\<rfloor>)) (butlast all_units))"
  note p = part_string [OF assms]
  have ne: "part q \<noteq> []" for q by (cases "fst q") (simp_all add: part_def unit_name_def)
  have parts: "duration_parts (map (\<lambda>u. (unit_get u du, unit_name u)) us)
      = concat (map (\<lambda>q. part q @ '' '') (filter (\<lambda>q. snd q \<noteq> 0) (map (\<lambda>u. (u, \<lfloor>unit_get u du\<rfloor>)) us)))" for us
  proof (induction us)
    case (Cons u us)
    then show ?case using p(1) [of u, symmetric] p(2) [of u] by (simp add: duration_parts_def)
  qed (simp add: duration_parts_def)
  have six: "duration_parts [(d_year du, ''y''), (d_month du, ''mo''), (d_day du, ''d''),
      (d_hour du, ''h''), (d_minute du, ''mi''), (d_second du, ''s'')] = concat (map (\<lambda>q. part q @ '' '') ?six)"
  proof -
    have "[(d_year du, ''y''), (d_month du, ''mo''), (d_day du, ''d''), (d_hour du, ''h''),
        (d_minute du, ''mi''), (d_second du, ''s'')]
      = map (\<lambda>u. (unit_get u du, unit_name u)) (butlast all_units)"
      by (simp add: all_units_def unit_get_def unit_name_def)
    then show ?thesis by (simp only: parts)
  qed
  have empty: "concat (map (\<lambda>q. part q @ '' '') ?six) = [] \<longleftrightarrow> ?six = []" by (cases ?six) simp_all
  have ps: "?ps = ?six @ filter (\<lambda>q. snd q \<noteq> 0) [(UTimestep, \<lfloor>unit_get UTimestep du\<rfloor>)]"
    by (simp add: all_units_def)
  have ts: "show_double (d_timestep du) @ ''ts '' = part (UTimestep, \<lfloor>unit_get UTimestep du\<rfloor>) @ '' ''"
    "d_timestep du \<noteq> 0 \<longleftrightarrow> \<lfloor>unit_get UTimestep du\<rfloor> \<noteq> 0"
    using p(1) [of UTimestep] p(2) [of UTimestep] by (auto simp: unit_get_def unit_name_def)
  show ?thesis
    unfolding dur_toString_def six Let_def empty ts parts_of_def ps
    by (cases "\<lfloor>unit_get UTimestep du\<rfloor> = 0"; cases "?six = []") simp_all
qed

lemma butlast_parts:
  "butlast (concat (map (\<lambda>q. part q @ '' '') (p # ps))) = part p @ concat (map (\<lambda>q. '' '' @ part q) ps)"
proof (induction ps arbitrary: p)
  case (Cons q ps)
  from Cons [of q] show ?case by (simp add: butlast_append)
qed (simp add: butlast_append)

lemma unit_get_put: "unit_get u (unit_put u' v du) = (if u = u' then v else unit_get u du)"
  by (cases u; cases u') (simp_all add: unit_get_def unit_put_def)

lemma unit_get_fold:
  "distinct (map fst ps) \<Longrightarrow>
   unit_get u (foldl put_part du ps)
     = (case map_of ps u of None \<Rightarrow> unit_get u du | Some n \<Rightarrow> of_int n)"
proof (induction ps arbitrary: du)
  case (Cons p ps)
  have "map_of ps (fst p) = None" using Cons.prems by (simp add: map_of_eq_None_iff)
  with Cons show ?case by (cases p) (auto simp: put_part_def unit_get_put split: option.splits)
qed simp

lemma duration_eqI: "(\<And>u. unit_get u a = unit_get u b) \<Longrightarrow> a = (b :: duration)"
proof -
  assume a: "\<And>u. unit_get u a = unit_get u b"
  show ?thesis
    using a [of UYear] a [of UMonth] a [of UDay] a [of UHour] a [of UMinute] a [of USecond] a [of UTimestep]
    by (cases a; cases b) (simp add: unit_get_def)
qed

text \<open>C37: A duration whose components are whole numbers of at most six digits, of any sign, is read
  back from its printed form with all seven components as they were; the empty duration is
  printed as \<open>0ts\<close> and read back as empty.\<close>

theorem duration_text_roundtrip:
  assumes "integral du"
  shows "dur_FromString (dur_toString du) = Inr du"
proof -
  let ?fs = "\<lambda>u. \<lfloor>unit_get u du\<rfloor>"
  let ?ps = "filter (\<lambda>q. snd q \<noteq> 0) (map (\<lambda>u. (u, ?fs u)) all_units)"
  obtain p ps where ps: "parts_of du = p # ps"
    by (cases "parts_of du") (auto simp: parts_of_def Let_def split: if_splits)
  have d: "distinct (map fst (parts_of du))"
    by (auto simp: parts_of_def Let_def all_units_def)
  have "dur_loop (1, CHR ''/'', [], NoneDu, good_stream ([] @ part p @ concat (map (\<lambda>q. '' '' @ part q) ps)))
    = Some (Inr (foldl put_part NoneDu (p # ps), \<lparr>rest = [], eofbit = True, failbit = False\<rparr>))"
    using d ps by (intro dur_loop_parts) simp_all
  then have read: "dur_FromString (dur_toString du) = Inr (foldl put_part NoneDu (parts_of du))"
    unfolding dur_toString_parts [OF assms] ps butlast_parts
    by (simp add: dur_FromString_def dur_read_def returned_def open_string_def omap_def)
  have "foldl put_part NoneDu (parts_of du) = du"
  proof (rule duration_eqI)
    fix u
    obtain k where k: "unit_get u du = of_int k" by (rule integral_floor [OF assms])
    have zero: "unit_get u NoneDu = 0" by (cases u) (simp_all add: unit_get_def NoneDu_def)
    have "u \<in> set all_units" by (cases u) (simp_all add: all_units_def)
    then have "map_of (parts_of du) u = Some k \<or> (k = 0 \<and> map_of (parts_of du) u = None)"
    proof (cases "k = 0")
      case True
      then have "(u, n) \<in> set (parts_of du) \<Longrightarrow> n = 0" for n
        using k by (auto simp: parts_of_def Let_def split: if_splits)
      then show ?thesis using True d by (cases "map_of (parts_of du) u") (auto dest: map_of_SomeD)
    next
      case False
      with \<open>u \<in> set all_units\<close> k have "(u, k) \<in> set (parts_of du)"
        by (force simp: parts_of_def Let_def filter_empty_conv)
      with d show ?thesis by simp
    qed
    then show "unit_get u (foldl put_part NoneDu (parts_of du)) = unit_get u du"
      using unit_get_fold [OF d, of u NoneDu] k zero by auto
  qed
  with read show ?thesis by simp
qed

theorem duration_text_roundtrip_witness:
  "dur_FromString (dur_toString (int_duration 0 1 (- 2) 36 0 0)) = Inr (int_duration 0 1 (- 2) 36 0 0)"
proof -
  have "\<bar>unit_get u (int_duration 0 1 (- 2) 36 0 0)\<bar> < 1000000
      \<and> unit_get u (int_duration 0 1 (- 2) 36 0 0) \<in> \<int>" for u
    by (cases u) (simp_all add: unit_get_def int_duration_def)
  then have "integral (int_duration 0 1 (- 2) 36 0 0)" by (simp add: integral_def)
  then show ?thesis by (rule duration_text_roundtrip)
qed

section \<open>Dates\<close>

text \<open>The fields of a date fit the \<open>int\<close>s that hold them.\<close>

definition int_sized :: "cdate \<Rightarrow> bool" where
  "int_sized d \<longleftrightarrow> (\<forall>x\<in>{year d, month d, day d, hour d, minute d, second d}. \<bar>x\<bar> \<le> int_max)"

lemma stops_simps [simp]:
  "stops []" "stops (CHR ''-'' # r)" "stops (CHR '' '' # r)" "stops (CHR '':'' # r)"
  by (simp_all add: stops_def is_digit_def)

lemma read_time_printed:
  assumes "0 \<le> hr" "hr \<le> int_max" "0 \<le> mi" "mi \<le> int_max" "0 \<le> sc" "sc \<le> int_max"
  shows "read_time c (good_stream (padded 2 hr @ '':'' @ padded 2 mi @ '':'' @ padded 2 sc))
    = (hr, mi, sc, CHR '':'', \<lparr>rest = [], eofbit = True, failbit = True\<rparr>)"
  using assms read_int_padded [of sc "[]"]
  by (simp add: read_time_def read_int_padded read_char_good is_space_def read_at_eof)

lemma read_month_day_printed:
  assumes "0 \<le> mth" "mth \<le> int_max" "0 \<le> dy" "dy \<le> int_max"
    and "read_time (CHR '' '') (good_stream r) = (hr, mi, sc, c', s)"
  shows "read_month_day c (good_stream (padded 2 mth @ ''-'' @ padded 2 dy @ '' '' @ r))
    = (mth, dy, hr, mi, sc, c', s)"
  using assms
  by (simp add: read_month_day_def read_int_padded read_char_good is_space_def stream_get_def stream_good_def)

lemma valid_date_nonneg:
  assumes "valid_date c d" "valid_calendar c"
  shows "1 \<le> month d" "1 \<le> day d" "0 \<le> hour d" "0 \<le> minute d" "0 \<le> second d"
  using assms by (auto simp: valid_date_def valid_time_def split: cal_kind.splits if_splits)

text \<open>C36: A valid date of a calendar with months and a year that is not negative is read back from
  its printed form, by the parser of its own calendar, as the same date.\<close>

theorem date_text_roundtrip:
  assumes "valid_calendar (st p)" "has_months (st p)" "good_date st p d" "int_sized d" "0 \<le> year d"
  shows "date_FromString st (date_toString d) p = Inr d"
proof -
  let ?t = "padded 2 (hour d) @ '':'' @ padded 2 (minute d) @ '':'' @ padded 2 (second d)"
  let ?md = "padded 2 (month d) @ ''-'' @ padded 2 (day d) @ '' '' @ ?t"
  have v: "valid_date (st p) d" and r: "relCalendar d = Some p" using assms(3) by (auto simp: good_date_def)
  note nn = valid_date_nonneg [OF v assms(1)]
  have sz: "year d \<le> int_max" "month d \<le> int_max" "day d \<le> int_max" "hour d \<le> int_max"
    "minute d \<le> int_max" "second d \<le> int_max"
    using assms(4) by (auto simp: int_sized_def)
  have txt_d: "date_toString d = padded (year_width (year d) 4 10000) (year d) @ CHR ''-'' # ?md"
    by (simp add: date_toString_def date_print_def)
  have yr: "read_int 0 (good_stream (date_toString d)) = (year d, good_stream (CHR ''-'' # ?md))"
    unfolding txt_d using assms(5) sz(1) by (subst read_int_padded) simp_all
  have sep: "extract_char (good_stream (CHR ''-'' # ?md)) = (Some (CHR ''-''), good_stream ?md)"
    by (simp add: extract_char_def sentry_def stream_good_def is_space_def)
  have md: "read_month_day (CHR ''-'') (good_stream ?md)
      = (month d, day d, hour d, minute d, second d, CHR '':'', \<lparr>rest = [], eofbit = True, failbit = True\<rparr>)"
    using nn sz by (intro read_month_day_printed read_time_printed) simp_all
  have eq: "setDate (calDate p) (year d) (month d) (day d) (hour d) (minute d) (second d) = d"
    using r by (simp add: setDate_def calDate_def emptyDate_def)
  have check: "date_checkDate st d = Inr (True, d)"
    using v r assms(1) by (simp add: date_checkDate_def getRelCalendar_def checkDate_valid)
  have "parseDateDefault st (good_stream (date_toString d)) (calDate p)
      = Inr (\<lparr>rest = [], eofbit = True, failbit = True\<rparr>, d)"
    using r by (simp add: parseDateDefault_def yr sep [simplified] md [simplified] eq check hasRelCalendar_def parse_rest_def)
  moreover have "parseDate st (st p) s d' = parseDateDefault st s d'" for s d'
    using assms(2)
    by (auto simp: parseDate_def user_parseDate_def has_months_def getYearLength_def user_getYearLength_def
        split: cal_kind.split)
  ultimately show ?thesis
    by (simp add: date_FromString_def date_read_def open_string_def calDate_def omap_def)
qed

theorem date_text_roundtrip_witness:
  "date_FromString greg (date_toString ((jan1 2024)\<lparr>month := 2, day := 29, hour := 9\<rparr>)) 0
     = Inr ((jan1 2024)\<lparr>month := 2, day := 29, hour := 9\<rparr>)
   \<and> date_toString ((jan1 2024)\<lparr>month := 2, day := 29, hour := 9\<rparr>) = ''2024-02-29 09:00:00''"
proof
  let ?d = "(jan1 2024)\<lparr>month := 2, day := 29, hour := 9\<rparr>"
  show "date_FromString greg (date_toString ?d) 0 = Inr ?d"
  proof (rule date_text_roundtrip)
    show "good_date greg 0 ?d" "int_sized ?d" "0 \<le> year ?d" by code_simp+
  qed (rule greg_ok)+
  show "date_toString ?d = ''2024-02-29 09:00:00''" by code_simp
qed

text \<open>A string with nothing but a year, a form the user guide gives for the time origin, makes
  the default parser compare a character variable that was never set.\<close>

theorem bare_year_undefined:
  assumes "0 \<le> y" "y \<le> int_max"
  shows "parseDateDefault st (open_string (padded w y)) d
    = Inl (UndefinedBehaviour ''c is read before it is set'')"
proof -
  have "read_int 0 (good_stream (padded w y @ [])) = (y, \<lparr>rest = [], eofbit = True, failbit = False\<rparr>)"
    using assms by (subst read_int_padded) simp_all
  then show ?thesis
    by (simp add: parseDateDefault_def open_string_def extract_char_def sentry_def stream_good_def)
qed

theorem bare_year_undefined_witness:
  "parseDateDefault greg (open_string (padded 4 1789)) emptyDate
     = Inl (UndefinedBehaviour ''c is read before it is set'') \<and> padded 4 1789 = ''1789''"
proof
  show "parseDateDefault greg (open_string (padded 4 1789)) emptyDate
     = Inl (UndefinedBehaviour ''c is read before it is set'')"
    by (rule bare_year_undefined) (simp_all add: int_max_def)
  show "padded 4 1789 = ''1789''" by code_simp
qed

end
