(* ===== verification/Functors.thy ===== *)
theory Functors
  imports Prelude "HOL-Library.Multiset"
begin

text \<open>
  The temporal operations (\<open>src/functor.cpp\<close>, \<open>src/functor/*.cpp\<close>): \<open>once\<close>, \<open>instant\<close>, \<open>average\<close>,
  \<open>accumulate\<close>, \<open>minimum\<close> and \<open>maximum\<close>. A double is a rational number or the missing value
  (\<open>NaN\<close>, here \<open>None\<close>); infinities, signed zeros and rounding are not modelled. A functor works on
  the array \<open>doutput\<close> it was given a reference to, which is therefore part of its state.
\<close>

section \<open>Doubles with a missing value\<close>

type_synonym double = "rat option"

definition isNan :: "double \<Rightarrow> bool" where "isNan x \<longleftrightarrow> x = None"

definition dadd :: "double \<Rightarrow> double \<Rightarrow> double" where
  "dadd x y = (case (x, y) of (Some a, Some b) \<Rightarrow> Some (a + b) | _ \<Rightarrow> None)"

definition dless :: "double \<Rightarrow> double \<Rightarrow> bool" where
  "dless x y = (case (x, y) of (Some a, Some b) \<Rightarrow> a < b | _ \<Rightarrow> False)"

text \<open>\<open>std::max\<close> and \<open>std::min\<close>: the first argument unless the comparison holds.\<close>

definition dmax :: "double \<Rightarrow> double \<Rightarrow> double" where
  "dmax x y = (if dless x y then y else x)"

definition dmin :: "double \<Rightarrow> double \<Rightarrow> double" where
  "dmin x y = (if dless y x then y else x)"

definition ddiv :: "double \<Rightarrow> int \<Rightarrow> double" where
  "ddiv x n = map_option (\<lambda>a. a / of_int n) x"

section \<open>State and operations\<close>

datatype op_kind = COnce | CInstant | CAverage | CAccumulate | CMinimum | CMaximum

datatype ETimeType = once | instant | centered

record cfunctor =
  op :: op_kind
  doutput :: "double list"
  nbcall :: int
  hasMissingValue :: bool
  nbcalls :: "int list"

definition newFunctor :: "op_kind \<Rightarrow> bool \<Rightarrow> double list \<Rightarrow> cfunctor" where
  "newFunctor k missing out =
     \<lparr>op = k, doutput = out, nbcall = 0, hasMissingValue = missing, nbcalls = []\<rparr>"

definition timeType :: "op_kind \<Rightarrow> ETimeType" where
  "timeType k = (case k of COnce \<Rightarrow> once | CInstant \<Rightarrow> instant | _ \<Rightarrow> centered)"

definition accumulate_cell :: "double \<Rightarrow> double \<Rightarrow> double" where
  "accumulate_cell i out =
     (if \<not> isNan i then (if \<not> isNan out then dadd out i else i) else out)"

definition accumulate_apply :: "cfunctor \<Rightarrow> double list \<Rightarrow> cfunctor" where
  "accumulate_apply f din =
     (if nbcall f = 1 then f\<lparr>doutput := din\<rparr>
      else if hasMissingValue f then f\<lparr>doutput := map2 accumulate_cell din (doutput f)\<rparr>
      else f\<lparr>doutput := map2 (\<lambda>i out. dadd out i) din (doutput f)\<rparr>)"

definition average_cell :: "double \<Rightarrow> double \<times> int \<Rightarrow> double \<times> int" where
  "average_cell i = (\<lambda>(out, nc).
     if \<not> isNan i then (if nc \<noteq> 0 then dadd out i else i, nc + 1) else (out, nc))"

definition average_apply :: "cfunctor \<Rightarrow> double list \<Rightarrow> cfunctor" where
  "average_apply f din =
     (let f = (if hasMissingValue f \<and> length (nbcalls f) = 0
               then f\<lparr>nbcalls := replicate (length din) 0\<rparr> else f)
      in if nbcall f = 1
         then let f = f\<lparr>doutput := din\<rparr>
              in if hasMissingValue f
                 then f\<lparr>nbcalls := map2 (\<lambda>i nc. if \<not> isNan i then nc + 1 else nc) din (nbcalls f)\<rparr>
                 else f
         else if hasMissingValue f
         then let cells = map2 average_cell din (zip (doutput f) (nbcalls f))
              in f\<lparr>doutput := map fst cells, nbcalls := map snd cells\<rparr>
         else f\<lparr>doutput := map2 (\<lambda>i out. dadd out i) din (doutput f)\<rparr>)"

definition instant_apply :: "cfunctor \<Rightarrow> double list \<Rightarrow> cfunctor" where
  "instant_apply f din = f\<lparr>doutput := din\<rparr>"

definition once_apply :: "cfunctor \<Rightarrow> double list \<Rightarrow> cfunctor" where
  "once_apply f din = f\<lparr>doutput := din\<rparr>"

definition maximum_cell :: "double \<Rightarrow> double \<Rightarrow> double" where
  "maximum_cell i out = (if \<not> isNan i then (if \<not> isNan out then dmax i out else i) else out)"

definition maximum_apply :: "cfunctor \<Rightarrow> double list \<Rightarrow> cfunctor" where
  "maximum_apply f din =
     (if nbcall f = 1 then f\<lparr>doutput := din\<rparr>
      else if hasMissingValue f then f\<lparr>doutput := map2 maximum_cell din (doutput f)\<rparr>
      else f\<lparr>doutput := map2 dmax din (doutput f)\<rparr>)"

definition minimum_cell :: "double \<Rightarrow> double \<Rightarrow> double" where
  "minimum_cell i out = (if \<not> isNan i then (if \<not> isNan out then dmin i out else i) else out)"

definition minimum_apply :: "cfunctor \<Rightarrow> double list \<Rightarrow> cfunctor" where
  "minimum_apply f din =
     (if nbcall f = 1 then f\<lparr>doutput := din\<rparr>
      else if hasMissingValue f then f\<lparr>doutput := map2 minimum_cell din (doutput f)\<rparr>
      else f\<lparr>doutput := map2 dmin din (doutput f)\<rparr>)"

definition functor_apply :: "cfunctor \<Rightarrow> double list \<Rightarrow> cfunctor" where
  "functor_apply f din =
     (case op f of
        COnce \<Rightarrow> once_apply f din
      | CInstant \<Rightarrow> instant_apply f din
      | CAverage \<Rightarrow> average_apply f din
      | CAccumulate \<Rightarrow> accumulate_apply f din
      | CMinimum \<Rightarrow> minimum_apply f din
      | CMaximum \<Rightarrow> maximum_apply f din)"

text \<open>\<open>operator()\<close>\<close>

definition functor_call :: "cfunctor \<Rightarrow> double list \<Rightarrow> cfunctor outcome" where
  "functor_call f din =
     (let f = f\<lparr>nbcall := nbcall f + 1\<rparr>
      in if length din \<noteq> length (doutput f)
         then Inl (CException ''size of input array != size of output array'')
         else Inr (functor_apply f din))"

text \<open>A division by a count of zero, which C++ leaves undefined, is an error of the model.\<close>

definition average_final :: "cfunctor \<Rightarrow> cfunctor outcome" where
  "average_final f =
     (if hasMissingValue f
      then if length (doutput f) < length (nbcalls f)
           then Inl (UndefinedBehaviour ''doutput is read past its end'')
           else Inr (f\<lparr>doutput := map2 (\<lambda>out nc. if nc \<noteq> 0 then ddiv out nc else out)
                                    (take (length (nbcalls f)) (doutput f)) (nbcalls f)
                                  @ drop (length (nbcalls f)) (doutput f),
                       nbcalls := map (\<lambda>nc. 0) (nbcalls f), nbcall := 0\<rparr>)
      else if nbcall f = 0 \<and> doutput f \<noteq> [] then Inl (UndefinedBehaviour ''division by zero'')
      else Inr (f\<lparr>doutput := map (\<lambda>out. ddiv out (nbcall f)) (doutput f), nbcall := 0\<rparr>))"

definition base_final :: "cfunctor \<Rightarrow> cfunctor" where
  "base_final f = f\<lparr>nbcall := 0\<rparr>"

definition accumulate_final :: "cfunctor \<Rightarrow> cfunctor" where
  "accumulate_final f = f\<lparr>nbcall := 0\<rparr>"

definition functor_final :: "cfunctor \<Rightarrow> cfunctor outcome" where
  "functor_final f =
     (case op f of
        CAverage \<Rightarrow> average_final f
      | CAccumulate \<Rightarrow> Inr (accumulate_final f)
      | _ \<Rightarrow> Inr (base_final f))"

section \<open>Reductions of values that may be missing\<close>

text \<open>
  What minimum, maximum and accumulate share with the reductions of the spatial
  transformations: an associative and commutative operation extended to missing values, which it
  ignores.
\<close>

definition present :: "double list \<Rightarrow> rat list" where
  "present xs = map the (filter (\<lambda>x. \<not> isNan x) xs)"

lemma present_simps [simp]:
  "present [] = []" "present (None # xs) = present xs" "present (Some a # xs) = a # present xs"
  "present (xs @ ys) = present xs @ present ys"
  by (simp_all add: present_def isNan_def)

lemma present_mset: "mset (present xs) = image_mset the (filter_mset (\<lambda>x. \<not> isNan x) (mset xs))"
  by (simp add: present_def)

locale reduction =
  fixes comb :: "rat \<Rightarrow> rat \<Rightarrow> rat"
  assumes assoc: "comb (comb a b) c = comb a (comb b c)" and commute: "comb a b = comb b a"
begin

definition merge :: "double \<Rightarrow> double \<Rightarrow> double" where
  "merge x y =
     (case x of None \<Rightarrow> y | Some a \<Rightarrow> (case y of None \<Rightarrow> Some a | Some b \<Rightarrow> Some (comb a b)))"

definition reduce :: "double list \<Rightarrow> double" where
  "reduce xs = foldr merge xs None"

lemma merge_assoc: "merge (merge x y) z = merge x (merge y z)"
  by (cases x; cases y; cases z) (simp_all add: merge_def assoc)

lemma merge_commute: "merge x y = merge y x"
  by (cases x; cases y) (simp_all add: merge_def commute)

lemma merge_None [simp]: "merge None x = x" "merge x None = x"
  by (cases x; simp add: merge_def)+

lemma reduce_simps [simp]: "reduce [] = None" "reduce (x # xs) = merge x (reduce xs)"
  by (simp_all add: reduce_def)

lemma reduce_append: "reduce (xs @ ys) = merge (reduce xs) (reduce ys)"
  by (induction xs) (simp_all add: merge_assoc)

lemma reduce_perm: "mset xs = mset ys \<Longrightarrow> reduce xs = reduce ys"
proof (induction xs arbitrary: ys)
  case (Cons x xs)
  then obtain as bs where ys: "ys = as @ x # bs"
    by (metis in_multiset_in_set split_list list.set_intros(1))
  with Cons.prems have "mset xs = mset (as @ bs)" by simp
  then have "reduce xs = reduce (as @ bs)" by (rule Cons.IH)
  then show ?case
    by (simp add: ys reduce_append) (metis merge_assoc merge_commute)
qed simp

text \<open>Partial results of the parts of any partition combine to the result of the whole.\<close>

lemma reduce_partition: "reduce (map reduce xss) = reduce (concat xss)"
  by (induction xss) (simp_all add: reduce_append)

lemma reduce_present:
  "reduce xs = (case present xs of [] \<Rightarrow> None | a # as \<Rightarrow> Some (foldl comb a as))"
proof (induction xs)
  case (Cons x xs)
  have "foldl comb (comb a b) cs = comb a (foldl comb b cs)" for a b cs
    by (induction cs arbitrary: b) (simp_all add: assoc)
  with Cons show ?case by (cases x) (auto simp: merge_def split: list.splits)
qed simp

end

interpretation sum_red: reduction "(+)"
  by unfold_locales simp_all

interpretation max_red: reduction max
  by unfold_locales (simp_all add: max.assoc max.commute)

interpretation min_red: reduction min
  by unfold_locales (simp_all add: min.assoc min.commute)

lemma accumulate_cell_merge: "accumulate_cell i out = sum_red.merge i out"
  by (cases i; cases out) (simp_all add: accumulate_cell_def isNan_def dadd_def sum_red.merge_def)

lemma maximum_cell_merge: "maximum_cell i out = max_red.merge i out"
  by (cases i; cases out)
    (simp_all add: maximum_cell_def isNan_def dmax_def dless_def max_red.merge_def max_def)

lemma minimum_cell_merge: "minimum_cell i out = min_red.merge i out"
  by (cases i; cases out)
    (auto simp: minimum_cell_def isNan_def dmin_def dless_def min_red.merge_def min_def)

end
