(* ===== verification/FunctorProps.thy ===== *)
theory FunctorProps
  imports Functors
begin

text \<open>
  What a cycle of calls of a temporal operation and its \<open>final\<close> compute: cell by cell the
  documented reduction of the values that were fed in, and a functor ready for the next cycle.
\<close>

section \<open>The specification\<close>

definition op_spec :: "op_kind \<Rightarrow> double list \<Rightarrow> double" where
  "op_spec k xs =
     (case k of
        COnce \<Rightarrow> last xs
      | CInstant \<Rightarrow> last xs
      | CAverage \<Rightarrow> (if present xs = [] then None
                    else Some (sum_list (present xs) / of_nat (length (present xs))))
      | CAccumulate \<Rightarrow> sum_red.reduce xs
      | CMinimum \<Rightarrow> min_red.reduce xs
      | CMaximum \<Rightarrow> max_red.reduce xs)"

text \<open>The value held before \<open>final\<close>: an average is a sum until then.\<close>

definition held :: "op_kind \<Rightarrow> double list \<Rightarrow> double" where
  "held k xs = (if k = CAverage then sum_red.reduce xs else op_spec k xs)"

definition cell :: "nat \<Rightarrow> double list list \<Rightarrow> double list" where
  "cell i xss = map (\<lambda>xs. xs ! i) xss"

definition ready :: "nat \<Rightarrow> cfunctor \<Rightarrow> bool" where
  "ready n f \<longleftrightarrow> length (doutput f) = n \<and> nbcall f = 0 \<and> (nbcalls f = [] \<or> nbcalls f = replicate n 0)"

definition fits :: "nat \<Rightarrow> bool \<Rightarrow> double list \<Rightarrow> bool" where
  "fits n missing xs \<longleftrightarrow> length xs = n \<and> (missing \<or> None \<notin> set xs)"

section \<open>Cells\<close>

lemma map2_upt: "length xs = n \<Longrightarrow> map2 f xs (map g [0..<n]) = map (\<lambda>i. f (xs ! i) (g i)) [0..<n]"
  by (rule nth_equalityI) simp_all

lemma map2_upt_upt: "map2 f (map g [0..<n]) (map h [0..<n]) = map (\<lambda>i. f (g i) (h i)) [0..<n]"
  by (rule nth_equalityI) simp_all

lemma upt_nth: "length xs = n \<Longrightarrow> xs = map (\<lambda>i. xs ! i) [0..<n]"
  using map_nth [of xs] by simp

lemma sum_reduce_present:
  "sum_red.reduce xs = (if present xs = [] then None else Some (sum_list (present xs)))"
proof (induction xs)
  case (Cons x xs)
  then show ?case by (cases x) (simp_all add: sum_red.merge_def)
qed simp

lemma present_all: "None \<notin> set xs \<Longrightarrow> length (present xs) = length xs"
proof (induction xs)
  case (Cons x xs)
  then show ?case by (cases x) simp_all
qed simp

lemma reduce_Some:
  assumes "None \<notin> set xs" "xs \<noteq> []"
  shows "\<exists>a. sum_red.reduce xs = Some a" "\<exists>a. max_red.reduce xs = Some a" "\<exists>a. min_red.reduce xs = Some a"
proof -
  have "length (present xs) = length xs" by (rule present_all [OF assms(1)])
  with assms(2) have "present xs \<noteq> []" by auto
  then obtain a as where "present xs = a # as" by (cases "present xs") simp_all
  then show "\<exists>a. sum_red.reduce xs = Some a" "\<exists>a. max_red.reduce xs = Some a" "\<exists>a. min_red.reduce xs = Some a"
    by (simp_all add: sum_red.reduce_present max_red.reduce_present min_red.reduce_present)
qed

lemma reduce_snoc:
  "sum_red.reduce (xs @ [x]) = sum_red.merge x (sum_red.reduce xs)"
  "max_red.reduce (xs @ [x]) = max_red.merge x (max_red.reduce xs)"
  "min_red.reduce (xs @ [x]) = min_red.merge x (min_red.reduce xs)"
  by (simp_all add: sum_red.reduce_append max_red.reduce_append min_red.reduce_append
      sum_red.merge_commute max_red.merge_commute min_red.merge_commute)

lemma plain_cells:
  "dadd (Some b) (Some a) = sum_red.merge (Some a) (Some b)"
  "dmax (Some a) (Some b) = max_red.merge (Some a) (Some b)"
  "dmin (Some a) (Some b) = min_red.merge (Some a) (Some b)"
  by (auto simp: dadd_def dmax_def dmin_def dless_def sum_red.merge_def max_red.merge_def min_red.merge_def)

section \<open>The calls of a cycle\<close>

definition fed :: "nat \<Rightarrow> cfunctor \<Rightarrow> double list list \<Rightarrow> cfunctor \<Rightarrow> bool" where
  "fed n f xss g \<longleftrightarrow>
     op g = op f \<and> hasMissingValue g = hasMissingValue f \<and> nbcall g = int (length xss)
     \<and> doutput g = map (\<lambda>i. held (op f) (cell i xss)) [0..<n]
     \<and> (if op f = CAverage \<and> hasMissingValue f
        then nbcalls g = map (\<lambda>i. int (length (present (cell i xss)))) [0..<n]
        else nbcalls g = nbcalls f)"

lemma held_single [simp]: "held k [x] = x"
  by (cases k; cases x) (simp_all add: held_def op_spec_def)

lemma cell_snoc: "cell i (xss @ [xs]) = cell i xss @ [xs ! i]"
  by (simp add: cell_def)

lemma cell_None: "\<forall>xs\<in>set xss. length xs = n \<and> None \<notin> set xs \<Longrightarrow> i < n \<Longrightarrow> None \<notin> set (cell i xss)"
  unfolding cell_def using nth_mem by fastforce

lemma fed_first:
  assumes "ready n f" "fits n (hasMissingValue f) xs"
  shows "\<exists>g. functor_call f xs = Inr g \<and> fed n f [xs] g"
proof -
  have l: "length xs = n" "length (doutput f) = n" "nbcall f = 0" and nc: "nbcalls f = [] \<or> nbcalls f = replicate n 0"
    using assms by (auto simp: ready_def fits_def)
  have out: "xs = map (\<lambda>i. held k (cell i [xs])) [0..<n]" for k
    using upt_nth [OF l(1)] by (simp add: cell_def)
  have cnt: "map2 (\<lambda>i nc. if \<not> isNan i then nc + 1 else nc) xs (replicate n 0)
      = map (\<lambda>i. int (length (present (cell i [xs])))) [0..<n]"
  proof (rule nth_equalityI)
    fix i assume "i < length (map2 (\<lambda>i nc. if \<not> isNan i then nc + 1 else nc) xs (replicate n (0::int)))"
    then have "i < n" using l by simp
    then show "map2 (\<lambda>i nc. if \<not> isNan i then nc + 1 else nc) xs (replicate n 0) ! i
        = map (\<lambda>i. int (length (present (cell i [xs])))) [0..<n] ! i"
      using l by (cases "xs ! i") (simp_all add: cell_def isNan_def)
  qed (use l in simp)
  have nc': "length (nbcalls f) = 0 \<Longrightarrow> n = 0 \<or> nbcalls f = []" by simp
  show ?thesis
    using l nc cnt out [of "op f"]
    by (cases "op f")
      (auto simp: functor_call_def functor_apply_def Let_def fed_def once_apply_def instant_apply_def
        average_apply_def accumulate_apply_def minimum_apply_def maximum_apply_def)
qed

lemma fed_next:
  assumes xss: "xss \<noteq> []" "\<forall>xs\<in>set xss. fits n (hasMissingValue f) xs" and xs: "fits n (hasMissingValue f) xs"
    and g: "fed n f xss g" and f: "ready n f"
  shows "\<exists>h. functor_call g xs = Inr h \<and> fed n f (xss @ [xs]) h"
proof -
  have l: "length xs = n" "length (doutput g) = n" using xs g by (simp_all add: fits_def fed_def)
  have nb: "nbcall g + 1 \<noteq> 1" using g xss(1) by (simp add: fed_def)
  have call: "functor_call g xs = Inr (functor_apply (g\<lparr>nbcall := nbcall g + 1\<rparr>) xs)"
    using l by (simp add: functor_call_def Let_def)
  have plain: "\<exists>a. xs ! i = Some a" "None \<notin> set (cell i xss)" "cell i xss \<noteq> []"
    if "\<not> hasMissingValue f" "i < n" for i
  proof -
    show "\<exists>a. xs ! i = Some a" using xs that l nth_mem [of i xs] by (cases "xs ! i") (auto simp: fits_def)
    show "None \<notin> set (cell i xss)" using xss(2) that by (intro cell_None [of _ n]) (auto simp: fits_def)
    show "cell i xss \<noteq> []" using xss(1) by (simp add: cell_def)
  qed
  have idx: "map2 F xs (doutput g) = map (\<lambda>i. F (xs ! i) (held (op f) (cell i xss))) [0..<n]" for F
    using map2_upt [OF l(1), of F] g by (simp add: fed_def)
  have held: "held (op f) (cell i (xss @ [xs])) =
      (case op f of
         COnce \<Rightarrow> xs ! i | CInstant \<Rightarrow> xs ! i
       | CAverage \<Rightarrow> sum_red.merge (xs ! i) (held (op f) (cell i xss))
       | CAccumulate \<Rightarrow> sum_red.merge (xs ! i) (held (op f) (cell i xss))
       | CMinimum \<Rightarrow> min_red.merge (xs ! i) (held (op f) (cell i xss))
       | CMaximum \<Rightarrow> max_red.merge (xs ! i) (held (op f) (cell i xss)))" for i
    by (cases "op f") (simp_all add: held_def op_spec_def cell_snoc reduce_snoc)
  have sum_plain: "dadd (held (op f) (cell i xss)) (xs ! i) = sum_red.merge (xs ! i) (held (op f) (cell i xss))"
    if "\<not> hasMissingValue f" "i < n" "op f = CAverage \<or> op f = CAccumulate" for i
    using plain [OF that(1,2)] reduce_Some(1) [OF plain(2,3) [OF that(1,2)]] that(3)
    by (auto simp: held_def op_spec_def plain_cells)
  have max_plain: "dmax (xs ! i) (held (op f) (cell i xss)) = max_red.merge (xs ! i) (held (op f) (cell i xss))"
    if "\<not> hasMissingValue f" "i < n" "op f = CMaximum" for i
    using plain [OF that(1,2)] reduce_Some(2) [OF plain(2,3) [OF that(1,2)]] that(3)
    by (auto simp: held_def op_spec_def plain_cells)
  have min_plain: "dmin (xs ! i) (held (op f) (cell i xss)) = min_red.merge (xs ! i) (held (op f) (cell i xss))"
    if "\<not> hasMissingValue f" "i < n" "op f = CMinimum" for i
    using plain [OF that(1,2)] reduce_Some(3) [OF plain(2,3) [OF that(1,2)]] that(3)
    by (auto simp: held_def op_spec_def plain_cells)
  have avg: "average_cell (xs ! i) (sum_red.reduce (cell i xss), int (length (present (cell i xss))))
      = (sum_red.merge (xs ! i) (sum_red.reduce (cell i xss)),
         int (length (present (cell i (xss @ [xs])))))" for i
    by (cases "xs ! i")
      (auto simp: average_cell_def isNan_def cell_snoc sum_reduce_present dadd_def sum_red.merge_def)
  show ?thesis
  proof (cases "op f")
    case CAverage
    show ?thesis
    proof (cases "hasMissingValue f")
      case True
      have "map2 average_cell xs (zip (doutput g) (nbcalls g))
          = map (\<lambda>i. average_cell (xs ! i) (sum_red.reduce (cell i xss), int (length (present (cell i xss))))) [0..<n]"
        by (rule nth_equalityI) (use g CAverage True l in \<open>simp_all add: fed_def held_def\<close>)
      with CAverage True g nb show ?thesis
        by (auto simp: call functor_apply_def average_apply_def fed_def Let_def avg held_def comp_def
            cell_snoc reduce_snoc)
    next
      case False
      have "map2 (\<lambda>i out. dadd out i) xs (doutput g) = map (\<lambda>i. held (op f) (cell i (xss @ [xs]))) [0..<n]"
        unfolding idx using CAverage False by (intro map_cong) (simp_all add: held [unfolded CAverage] sum_plain [unfolded CAverage])
      with CAverage False g nb show ?thesis
        by (simp add: call functor_apply_def average_apply_def fed_def Let_def)
    qed
  next
    case COnce
    then show ?thesis
      using g nb upt_nth [OF l(1)] by (simp add: call functor_apply_def once_apply_def fed_def held [unfolded COnce])
  next
    case CInstant
    then show ?thesis
      using g nb upt_nth [OF l(1)] by (simp add: call functor_apply_def instant_apply_def fed_def held [unfolded CInstant])
  next
    case CAccumulate
    have "map2 accumulate_cell xs (doutput g) = map (\<lambda>i. held (op f) (cell i (xss @ [xs]))) [0..<n]"
      unfolding idx by (intro map_cong) (simp_all add: CAccumulate held [unfolded CAccumulate] accumulate_cell_merge)
    moreover have "map2 (\<lambda>i out. dadd out i) xs (doutput g) = map (\<lambda>i. held (op f) (cell i (xss @ [xs]))) [0..<n]"
      if "\<not> hasMissingValue f"
      unfolding idx using that
      by (intro map_cong) (simp_all add: CAccumulate held [unfolded CAccumulate] sum_plain [unfolded CAccumulate])
    ultimately show ?thesis
      using CAccumulate g nb by (simp add: call functor_apply_def accumulate_apply_def fed_def)
  next
    case CMinimum
    have "map2 minimum_cell xs (doutput g) = map (\<lambda>i. held (op f) (cell i (xss @ [xs]))) [0..<n]"
      unfolding idx by (intro map_cong) (simp_all add: CMinimum held [unfolded CMinimum] minimum_cell_merge)
    moreover have "map2 dmin xs (doutput g) = map (\<lambda>i. held (op f) (cell i (xss @ [xs]))) [0..<n]"
      if "\<not> hasMissingValue f"
      unfolding idx using that
      by (intro map_cong) (simp_all add: CMinimum held [unfolded CMinimum] min_plain [unfolded CMinimum])
    ultimately show ?thesis
      using CMinimum g nb by (simp add: call functor_apply_def minimum_apply_def fed_def)
  next
    case CMaximum
    have "map2 maximum_cell xs (doutput g) = map (\<lambda>i. held (op f) (cell i (xss @ [xs]))) [0..<n]"
      unfolding idx by (intro map_cong) (simp_all add: CMaximum held [unfolded CMaximum] maximum_cell_merge)
    moreover have "map2 dmax xs (doutput g) = map (\<lambda>i. held (op f) (cell i (xss @ [xs]))) [0..<n]"
      if "\<not> hasMissingValue f"
      unfolding idx using that
      by (intro map_cong) (simp_all add: CMaximum held [unfolded CMaximum] max_plain [unfolded CMaximum])
    ultimately show ?thesis
      using CMaximum g nb by (simp add: call functor_apply_def maximum_apply_def fed_def)
  qed
qed

definition feed :: "double list list \<Rightarrow> cfunctor \<Rightarrow> cfunctor outcome" where
  "feed xss f = ofold (\<lambda>xs f. functor_call f xs) xss f"

lemma feed_fed:
  assumes f: "ready n f" and "xss \<noteq> []" "\<forall>xs\<in>set xss. fits n (hasMissingValue f) xs"
  shows "\<exists>g. feed xss f = Inr g \<and> fed n f xss g"
  using assms(2,3)
proof (induction xss rule: rev_induct)
  case (snoc xs xss)
  show ?case
  proof (cases "xss = []")
    case True
    have "fits n (hasMissingValue f) xs" using snoc.prems by simp
    with fed_first [OF f] obtain g where "functor_call f xs = Inr g" "fed n f [xs] g" by blast
    with True show ?thesis by (simp add: feed_def)
  next
    case False
    then obtain g where g: "feed xss f = Inr g" "fed n f xss g" using snoc by auto
    moreover obtain h where "functor_call g xs = Inr h" "fed n f (xss @ [xs]) h"
      using fed_next [OF False _ _ g(2) f, of xs] snoc.prems by auto
    ultimately show ?thesis by (simp add: feed_def ofold_append)
  qed
qed simp

lemma final_cell:
  "(if length (present xs) \<noteq> 0 then ddiv (sum_red.reduce xs) (int (length (present xs))) else sum_red.reduce xs)
     = op_spec CAverage xs"
  by (simp add: op_spec_def sum_reduce_present ddiv_def)

lemma final_fed:
  assumes g: "fed n f xss g" and f: "ready n f" and xss: "xss \<noteq> []" "\<forall>xs\<in>set xss. fits n (hasMissingValue f) xs"
  shows "\<exists>h. functor_final g = Inr h \<and> ready n h \<and> op h = op f \<and> hasMissingValue h = hasMissingValue f
    \<and> doutput h = map (\<lambda>i. op_spec (op f) (cell i xss)) [0..<n]"
proof (cases "op f = CAverage")
  case avg: True
  show ?thesis
  proof (cases "hasMissingValue f")
    case True
    have "map2 (\<lambda>out nc. if nc \<noteq> 0 then ddiv out nc else out) (doutput g) (nbcalls g)
        = map (\<lambda>i. op_spec CAverage (cell i xss)) [0..<n]"
      using g avg True by (simp add: fed_def held_def map2_upt_upt flip: final_cell)
    then show ?thesis
      using g avg True
      by (simp add: functor_final_def average_final_def fed_def ready_def map_replicate_const)
  next
    case False
    have "ddiv (sum_red.reduce (cell i xss)) (int (length xss)) = op_spec CAverage (cell i xss)" if "i < n" for i
    proof -
      have "None \<notin> set (cell i xss)" using xss(2) that False by (intro cell_None [of _ n]) (auto simp: fits_def)
      then have "length (present (cell i xss)) = length xss" by (simp add: present_all cell_def)
      with xss(1) final_cell [of "cell i xss"] show ?thesis by simp
    qed
    then show ?thesis
      using g avg False f xss(1)
      by (simp add: functor_final_def average_final_def fed_def held_def ready_def)
  qed
next
  case False
  then show ?thesis
    using g f
    by (cases "op f")
      (auto simp: functor_final_def base_final_def accumulate_final_def fed_def ready_def held_def)
qed

text \<open>C34: One cycle of a temporal operation, any number of calls and then \<open>final\<close>, leaves in every
  cell of the output the documented reduction of the values that were fed in: the last one, the
  sum, the minimum, the maximum or the mean, over the values that are present when missing values
  are ignored (missing if there is none). The functor is then ready for the next cycle: no state
  of this one is left in it.\<close>

theorem functor_cycle:
  assumes "ready n f" "xss \<noteq> []" "\<forall>xs\<in>set xss. fits n (hasMissingValue f) xs"
  shows "\<exists>h. obind (feed xss f) functor_final = Inr h \<and> ready n h
    \<and> op h = op f \<and> hasMissingValue h = hasMissingValue f
    \<and> doutput h = map (\<lambda>i. op_spec (op f) (cell i xss)) [0..<n]"
proof -
  obtain g where g: "feed xss f = Inr g" "fed n f xss g" using feed_fed [OF assms] by blast
  with final_fed [OF g(2) assms] show ?thesis by simp
qed

theorem functor_cycle_witness:
  "\<exists>h. obind (feed [[Some 1, None, None], [Some 5, Some 2, None]] (newFunctor CAverage True [None, None, None]))
      functor_final = Inr h \<and> doutput h = [Some 3, Some 2, None]"
proof -
  let ?f = "newFunctor CAverage True [None, None, None]"
    and ?xss = "[[Some 1, None, None], [Some 5, Some 2, None]] :: double list list"
  have "ready 3 ?f" "op ?f = CAverage" by (simp_all add: ready_def newFunctor_def)
  moreover have "\<forall>xs\<in>set ?xss. fits 3 (hasMissingValue ?f) xs" by (simp add: fits_def newFunctor_def)
  ultimately obtain h where "obind (feed ?xss ?f) functor_final = Inr h"
    "doutput h = map (\<lambda>i. op_spec CAverage (cell i ?xss)) [0..<3]"
    using functor_cycle [of 3 ?f ?xss] by auto
  moreover have "map (\<lambda>i. op_spec CAverage (cell i ?xss)) [0..<3] = [Some 3, Some 2, None]"
    by (simp add: upt_rec op_spec_def cell_def)
  ultimately show ?thesis by simp
qed

lemma op_spec_order:
  assumes "mset xs = mset ys" "k \<noteq> COnce" "k \<noteq> CInstant"
  shows "op_spec k xs = op_spec k ys"
proof -
  have "mset (present xs) = mset (present ys)" using assms(1) by (simp add: present_mset)
  then have "sum_list (present xs) = sum_list (present ys)" "length (present xs) = length (present ys)"
    by (metis sum_mset_sum_list, metis mset_eq_length)
  moreover from this(2) have "present xs = [] \<longleftrightarrow> present ys = []" by auto
  ultimately show ?thesis
    using assms sum_red.reduce_perm [OF assms(1)] max_red.reduce_perm [OF assms(1)]
      min_red.reduce_perm [OF assms(1)]
    by (cases k) (auto simp: op_spec_def)
qed

text \<open>The result of a cycle does not depend on the order in which its arrays arrive, except for
  the operations that take the last one (sums of exact numbers, as the model has them).\<close>

theorem functor_order_irrelevant:
  assumes "ready n f" "xss \<noteq> []" "\<forall>xs\<in>set xss. fits n (hasMissingValue f) xs"
    and "mset xss = mset yss" "op f \<noteq> COnce" "op f \<noteq> CInstant"
  shows "\<exists>h h'. obind (feed xss f) functor_final = Inr h \<and> obind (feed yss f) functor_final = Inr h'
    \<and> doutput h = doutput h'"
proof -
  have s: "set yss = set xss" using assms(4) by (metis mset_eq_setD)
  then have "yss \<noteq> []" "\<forall>xs\<in>set yss. fits n (hasMissingValue f) xs" using assms(2,3) by auto
  moreover have "op_spec (op f) (cell i xss) = op_spec (op f) (cell i yss)" for i
    by (rule op_spec_order) (use assms in \<open>simp_all add: cell_def\<close>)
  ultimately show ?thesis
    using feed_fed [OF assms(1-3)] final_fed [OF _ assms(1-3)] feed_fed [OF assms(1), of yss]
      final_fed [OF _ assms(1), of yss] by fastforce
qed

theorem functor_order_irrelevant_witness:
  "\<exists>h h'. obind (feed [[Some 1], [None], [Some 5]] (newFunctor CMaximum True [None])) functor_final = Inr h
    \<and> obind (feed [[Some 5], [Some 1], [None]] (newFunctor CMaximum True [None])) functor_final = Inr h'
    \<and> doutput h = doutput h'"
proof (rule functor_order_irrelevant)
  show "ready 1 (newFunctor CMaximum True [None])" by (simp add: ready_def newFunctor_def)
  show "\<forall>xs\<in>set [[Some 1], [None], [Some 5]]. fits 1 (hasMissingValue (newFunctor CMaximum True [None])) xs"
    by (simp add: fits_def newFunctor_def)
qed (simp_all add: newFunctor_def)

end
