(* ===== verification/DataPacket.thy ===== *)
theory DataPacket
  imports Calendar Functors
begin

text \<open>
  \<open>CDataPacket\<close> (\<open>src/filter/data_packet.hpp\<close>): a timestamped array of data. The graph package, kept
  for display only, is not modelled.
\<close>

datatype StatusCode = NO_ERROR | END_OF_STREAM

record packet =
  p_data :: "double list"
  p_date :: cdate
  p_timestamp :: int
  p_status :: StatusCode

end
