(* ===== verification/TemporalFilter.thy ===== *)
theory TemporalFilter
  imports FunctorProps CalendarClaims DataPacket
begin

text \<open>
  \<open>CTemporalFilter\<close> (\<open>src/filter/temporal_filter.cpp\<close>): it samples the packets that reach it at
  the sampling frequency, gives them to a temporal operation, and outputs a packet at the
  operation frequency. The array \<open>tmpData\<close> is the functor's \<open>doutput\<close>. The graph of the workflow,
  which is kept for display only, is not modelled.
\<close>

section \<open>State and operations\<close>

record temporal_filter =
  tf_functor :: cfunctor
  isOnceOperation :: bool
  isInstantOperation :: bool
  samplingFreq :: duration
  samplingOffset :: duration
  opFreq :: duration
  offsetMonth :: duration
  offsetAllButMonth :: duration
  tf_initDate :: cdate
  nextSamplingDate :: cdate
  nbOperationDates :: int
  nbSamplingDates :: int
  isFirstOperation :: bool

definition createFunctor :: "string \<Rightarrow> bool \<Rightarrow> double list \<Rightarrow> cfunctor outcome" where
  "createFunctor opId ignoreMissingValue tmpData =
     (case map_of [(''average'', CAverage), (''accumulate'', CAccumulate), (''instant'', CInstant),
                   (''once'', COnce), (''maximum'', CMaximum), (''minimum'', CMinimum)] opId of
        None \<Rightarrow> Inl (CException (opId @ '' is not a valid operation.''))
      | Some k \<Rightarrow> Inr (newFunctor k ignoreMissingValue tmpData))"

definition timeStepOf :: "cal_store \<Rightarrow> cdate \<Rightarrow> duration outcome" where
  "timeStepOf st d = omap timestep (getRelCalendar st d)"

definition newTemporalFilter ::
  "cal_store \<Rightarrow> string \<Rightarrow> cdate \<Rightarrow> duration \<Rightarrow> duration \<Rightarrow> duration \<Rightarrow> bool \<Rightarrow> temporal_filter outcome" where
  "newTemporalFilter st opId start sFreq sOffset oFreq ignoreMissingValue =
     obind (createFunctor opId ignoreMissingValue []) (\<lambda>f.
     let offMonth = NoneDu\<lparr>d_month := d_month sOffset\<rparr>; offRest = sOffset\<lparr>d_month := 0\<rparr>
     in obind (date_plus st start offMonth) (\<lambda>d.
        obind (timeStepOf st start) (\<lambda>ts.
        obind (date_plus st d (dur_plus offRest ts)) (\<lambda>nxt.
          Inr \<lparr>tf_functor = f, isOnceOperation = (timeType (op f) = once),
               isInstantOperation = (timeType (op f) = instant), samplingFreq = sFreq,
               samplingOffset = sOffset, opFreq = oFreq, offsetMonth = offMonth,
               offsetAllButMonth = offRest, tf_initDate = start, nextSamplingDate = nxt,
               nbOperationDates = 1, nbSamplingDates = 0, isFirstOperation = True\<rparr>))))"

text \<open>\<open>initDate + nbOperationDates*opFreq - samplingFreq + offsetMonth + offsetAllButMonth\<close>\<close>

definition operationThreshold :: "cal_store \<Rightarrow> temporal_filter \<Rightarrow> cdate outcome" where
  "operationThreshold st f =
     obind (date_plus st (tf_initDate f) (dur_scale (of_int (nbOperationDates f)) (opFreq f))) (\<lambda>d.
     obind (date_minus_dur st d (samplingFreq f)) (\<lambda>d.
     obind (date_plus st d (offsetMonth f)) (\<lambda>d. date_plus st d (offsetAllButMonth f))))"

definition nextSampling :: "cal_store \<Rightarrow> temporal_filter \<Rightarrow> cdate outcome" where
  "nextSampling st f =
     obind (date_plus st (tf_initDate f) (offsetMonth f)) (\<lambda>d.
     obind (date_plus st d (dur_scale (of_int (nbSamplingDates f)) (samplingFreq f))) (\<lambda>d.
     obind (date_plus st d (offsetAllButMonth f)) (\<lambda>d.
     obind (timeStepOf st (tf_initDate f)) (\<lambda>ts. date_plus st d ts))))"

definition decide :: "cal_store \<Rightarrow> temporal_filter \<Rightarrow> packet \<Rightarrow> (bool \<times> bool \<times> bool) outcome" where
  "decide st f p =
     (if isOnceOperation f
      then Inr (isFirstOperation f, isFirstOperation f, isFirstOperation f)
      else obind (operationThreshold st f) (\<lambda>t.
             let usePacket = date_geq (p_date p) (nextSamplingDate f);
                 outputResult = date_greater (p_date p) t
             in Inr (usePacket, outputResult, isInstantOperation f \<and> usePacket \<and> outputResult)))"

text \<open>The contents of a resized array are unspecified; here the cells are missing values.\<close>

definition sample :: "cal_store \<Rightarrow> temporal_filter \<Rightarrow> packet \<Rightarrow> bool \<Rightarrow> temporal_filter outcome" where
  "sample st f p copyLess =
     (let f = f\<lparr>nbSamplingDates := nbSamplingDates f + 1\<rparr>
      in obind (if copyLess then Inr f
                else let g = tf_functor f;
                         g = (if length (doutput g) = 0
                              then g\<lparr>doutput := replicate (length (p_data p)) None\<rparr> else g)
                     in omap (\<lambda>g. f\<lparr>tf_functor := g\<rparr>) (functor_call g (p_data p))) (\<lambda>f.
         omap (\<lambda>d. f\<lparr>nextSamplingDate := d\<rparr>) (nextSampling st f)))"

definition deliver :: "temporal_filter \<Rightarrow> packet \<Rightarrow> bool \<Rightarrow> (temporal_filter \<times> packet option) outcome" where
  "deliver f p copyLess =
     (let f = f\<lparr>nbOperationDates := nbOperationDates f + 1\<rparr>
      in if copyLess then Inr (f\<lparr>isFirstOperation := False\<rparr>, Some p)
         else omap (\<lambda>g. (f\<lparr>tf_functor := g, isFirstOperation := False\<rparr>, Some (p\<lparr>p_data := doutput g\<rparr>)))
                (functor_final (tf_functor f)))"

definition temporal_apply ::
  "cal_store \<Rightarrow> temporal_filter \<Rightarrow> packet \<Rightarrow> (temporal_filter \<times> packet option) outcome" where
  "temporal_apply st f p =
     (if p_status p = END_OF_STREAM then Inr (f, None)
      else obind (decide st f p) (\<lambda>(usePacket, outputResult, copyLess).
           obind (if usePacket then sample st f p copyLess else Inr f) (\<lambda>f.
             if outputResult then deliver f p copyLess else Inr (f, None))))"

definition temporal_isDataExpected :: "cal_store \<Rightarrow> temporal_filter \<Rightarrow> cdate \<Rightarrow> bool outcome" where
  "temporal_isDataExpected st f d =
     (if isOnceOperation f then Inr (isFirstOperation f)
      else if date_geq d (nextSamplingDate f) then Inr True
      else omap (\<lambda>t. date_greater d t) (operationThreshold st f))"

fun temporal_run ::
  "cal_store \<Rightarrow> temporal_filter \<Rightarrow> packet list \<Rightarrow> (temporal_filter \<times> packet option list) outcome" where
  "temporal_run st f [] = Inr (f, [])"
| "temporal_run st f (p # ps) =
     obind (temporal_apply st f p) (\<lambda>(f, out). omap (\<lambda>(f, outs). (f, out # outs)) (temporal_run st f ps))"

section \<open>Durations in seconds\<close>

definition lasts :: "calendar \<Rightarrow> duration \<Rightarrow> int \<Rightarrow> bool" where
  "lasts c du n \<longleftrightarrow> (\<exists>d h mi s. du = int_duration 0 0 d h mi s
     \<and> n = d * getDayLengthInSeconds c + (h * 60 + mi) * 60 + s)"

definition on_time :: "cal_store \<Rightarrow> nat \<Rightarrow> cdate \<Rightarrow> int \<Rightarrow> bool" where
  "on_time st p d n \<longleftrightarrow> good_date st p d \<and> proper_date (st p) d \<and> abs_second (st p) d = n"

lemma lasts_NoneDu: "lasts c NoneDu 0"
  unfolding lasts_def by (rule exI [of _ 0])+ (simp add: int_duration_def NoneDu_def)

lemma lasts_scale: "lasts c du n \<Longrightarrow> lasts c (dur_scale (of_int k) du) (k * n)"
proof -
  assume "lasts c du n"
  then obtain d h mi s where "du = int_duration 0 0 d h mi s"
    "n = d * getDayLengthInSeconds c + (h * 60 + mi) * 60 + s" by (auto simp: lasts_def)
  then show ?thesis
    unfolding lasts_def
    by (intro exI [of _ "k * d"] exI [of _ "k * h"] exI [of _ "k * mi"] exI [of _ "k * s"])
      (simp add: dur_scale_int_duration algebra_simps)
qed

lemma lasts_uminus: "lasts c du n \<Longrightarrow> lasts c (dur_uminus du) (- n)"
proof -
  assume "lasts c du n"
  then obtain d h mi s where "du = int_duration 0 0 d h mi s"
    "n = d * getDayLengthInSeconds c + (h * 60 + mi) * 60 + s" by (auto simp: lasts_def)
  then show ?thesis
    unfolding lasts_def
    by (intro exI [of _ "- d"] exI [of _ "- h"] exI [of _ "- mi"] exI [of _ "- s"])
      (simp add: dur_uminus_def int_duration_def)
qed

lemma on_time_plus:
  assumes "valid_calendar (st p)" "has_months (st p)" "on_time st p x m" "lasts (st p) du n"
  shows "\<exists>r. date_plus st x du = Inr r \<and> on_time st p r (m + n)"
proof -
  from assms(4) obtain d h mi s where du: "du = int_duration 0 0 d h mi s"
    "n = d * getDayLengthInSeconds (st p) + (h * 60 + mi) * 60 + s" by (auto simp: lasts_def)
  have "good_date st p x" using assms(3) by (simp add: on_time_def)
  from date_plus_time [where st = st and p = p, OF assms(1,2) this, of d h mi s] du assms(3)
  show ?thesis by (auto simp: on_time_def seconds_of_def)
qed

lemma on_time_minus:
  assumes "valid_calendar (st p)" "has_months (st p)" "on_time st p x m" "lasts (st p) du n"
  shows "\<exists>r. date_minus_dur st x du = Inr r \<and> on_time st p r (m - n)"
  using on_time_plus [OF assms(1-3) lasts_uminus [OF assms(4)]] by (simp add: date_minus_dur_def)

lemma on_time_less:
  assumes "valid_calendar (st p)" "has_months (st p)" "on_time st p a m" "on_time st p b n"
  shows "date_greater a b \<longleftrightarrow> n < m" "date_geq a b \<longleftrightarrow> n \<le> m"
proof -
  have ab: "proper_date (st p) a" "proper_date (st p) b" "abs_second (st p) a = m" "abs_second (st p) b = n"
    using assms(3,4) by (auto simp: on_time_def)
  note l = abs_second_less_iff [OF assms(1,2) ab(2,1)]
  show g: "date_greater a b \<longleftrightarrow> n < m" using l(1) ab by (simp add: date_greater_def)
  show "date_geq a b \<longleftrightarrow> n \<le> m" using g l(2) ab by (auto simp: date_geq_def)
qed

end
