(* ===== verification/TemporalClaims.thy ===== *)
theory TemporalClaims
  imports TemporalFilter
begin

text \<open>
  The temporal filter on a regular time line: packets arrive every time step, are sampled every
  \<open>a\<close> time steps, and an operation ends every \<open>b\<close> samples. The state of the filter between two
  packets is described by the number of the operation and the samples it has taken so far.
\<close>

section \<open>The state within an operation\<close>









section \<open>One packet\<close>








section \<open>One operation\<close>













end
