(* ===== verification/Pins.thy ===== *)
theory Pins
  imports DataPacket
begin

text \<open>
  The pins of the filter graph (\<open>src/filter/input_pin.cpp\<close>, \<open>output_pin.cpp\<close>, \<open>filter.cpp\<close>) and the
  garbage collector they register with (\<open>garbage_collector.cpp\<close>). Filters are numbered; the engine
  of a filter, a virtual function of the code, is a parameter. The calls the filters make to each
  other are the tasks of a stack: a call that goes on after the calls it makes leaves the rest of
  its body as a task behind them, so tasks run in the order of the code's calls.
\<close>

section \<open>State\<close>

record input_buffer =
  slotsFilled :: nat
  packets :: "packet option list"

record input_pin =
  slotsCount :: nat
  inputs :: "int \<Rightarrow> input_buffer option"
  triggers :: "nat option list"
  hasTriggers :: bool

record output_pin =
  manualTrigger :: bool
  outputs :: "(nat \<times> nat) list"
  outputPackets :: "int \<Rightarrow> packet option"

datatype obj = InPin nat | OutPin nat

record 'e network =
  registeredObjects :: "int \<Rightarrow> obj set"
  in_pin :: "nat \<Rightarrow> input_pin"
  out_pin :: "nat \<Rightarrow> output_pin"
  engine_state :: "nat \<Rightarrow> 'e"

type_synonym 'e engine = "nat \<Rightarrow> 'e \<Rightarrow> packet option list \<Rightarrow> ('e \<times> packet option) outcome"

datatype task =
    SetInput nat nat "packet option"
  | EraseInput nat int
  | OutputReady nat "packet option"
  | TriggerFilter nat int
  | TriggerSlot nat int nat bool
  | TriggerOut nat int
  | EraseOutput nat int
  | SetTrigger nat nat nat
  | ConnectOutput nat nat nat

definition newInputPin :: "nat \<Rightarrow> input_pin" where
  "newInputPin n = \<lparr>slotsCount = n, inputs = (\<lambda>_. None), triggers = replicate n None, hasTriggers = False\<rparr>"

definition newOutputPin :: "bool \<Rightarrow> output_pin" where
  "newOutputPin manual = \<lparr>manualTrigger = manual, outputs = [], outputPackets = (\<lambda>_. None)\<rparr>"

section \<open>The garbage collector\<close>

definition registerObject :: "obj \<Rightarrow> int \<Rightarrow> (int \<Rightarrow> obj set) \<Rightarrow> int \<Rightarrow> obj set" where
  "registerObject x t gc = gc(t := insert x (gc t))"

definition unregisterObject :: "obj \<Rightarrow> int \<Rightarrow> (int \<Rightarrow> obj set) \<Rightarrow> int \<Rightarrow> obj set" where
  "unregisterObject x t gc = gc(t := gc t - {x})"

definition input_invalidate :: "int \<Rightarrow> input_pin \<Rightarrow> input_pin" where
  "input_invalidate t p = p\<lparr>inputs := (\<lambda>u. if u < t then None else inputs p u)\<rparr>"

definition output_invalidate :: "int \<Rightarrow> output_pin \<Rightarrow> output_pin" where
  "output_invalidate t p = p\<lparr>outputPackets := (\<lambda>u. if u < t then None else outputPackets p u)\<rparr>"

text \<open>Invalidating a pin twice with the same timestamp is invalidating it once, so the loop over
  the registered objects is a set of pins.\<close>

definition gc_invalidate :: "int \<Rightarrow> 'e network \<Rightarrow> 'e network" where
  "gc_invalidate t net =
     net\<lparr>in_pin := (\<lambda>p. if \<exists>u<t. InPin p \<in> registeredObjects net u
                        then input_invalidate t (in_pin net p) else in_pin net p),
         out_pin := (\<lambda>p. if \<exists>u<t. OutPin p \<in> registeredObjects net u
                         then output_invalidate t (out_pin net p) else out_pin net p),
         registeredObjects := (\<lambda>u. if u < t then {} else registeredObjects net u)\<rparr>"

section \<open>Input pins\<close>

text \<open>\<open>setInput\<close> up to the call of \<open>onInputReady\<close>: the pin, whether the timestamp is new to it, and
  the packets if all slots are filled.\<close>

definition pin_setInput ::
  "input_pin \<Rightarrow> nat \<Rightarrow> packet option \<Rightarrow> (input_pin \<times> int \<times> bool \<times> packet option list option) outcome" where
  "pin_setInput p slot pkt =
     (if slotsCount p \<le> slot then Inl (CException ''The input slot does not exist.'')
      else case pkt of
             None \<Rightarrow> Inl (CException ''The packet cannot be null.'')
           | Some q \<Rightarrow>
               let t = p_timestamp q;
                   isNew = (inputs p t = None);
                   buf = (case inputs p t of
                            None \<Rightarrow> \<lparr>slotsFilled = 0, packets = replicate (slotsCount p) None\<rparr>
                          | Some b \<Rightarrow> b);
                   buf = buf\<lparr>slotsFilled := slotsFilled buf + 1, packets := (packets buf)[slot := pkt]\<rparr>
               in Inr (p\<lparr>inputs := (inputs p)(t \<mapsto> buf)\<rparr>, t, isNew,
                       if slotsFilled buf = slotsCount p then Some (packets buf) else None))"

definition pin_setInputTrigger :: "input_pin \<Rightarrow> nat \<Rightarrow> nat \<Rightarrow> input_pin outcome" where
  "pin_setInputTrigger p slot trig =
     (if slotsCount p \<le> slot then Inl (CException ''The input slot does not exist.'')
      else if triggers p ! slot \<noteq> None then Inl (CException ''The trigger has already been set.'')
      else Inr (p\<lparr>triggers := (triggers p)[slot := Some trig], hasTriggers := True\<rparr>))"

definition canBeTriggered :: "'e network \<Rightarrow> nat \<Rightarrow> bool" where
  "canBeTriggered net p \<longleftrightarrow> hasTriggers (in_pin net p) \<or> manualTrigger (out_pin net p)"

section \<open>The tasks\<close>

definition put_in :: "nat \<Rightarrow> input_pin \<Rightarrow> 'e network \<Rightarrow> 'e network" where
  "put_in p x net = net\<lparr>in_pin := (in_pin net)(p := x)\<rparr>"

definition put_out :: "nat \<Rightarrow> output_pin \<Rightarrow> 'e network \<Rightarrow> 'e network" where
  "put_out p x net = net\<lparr>out_pin := (out_pin net)(p := x)\<rparr>"

definition setInput ::
  "'e engine \<Rightarrow> 'e network \<Rightarrow> nat \<Rightarrow> nat \<Rightarrow> packet option \<Rightarrow> ('e network \<times> task list) outcome" where
  "setInput engine net p slot pkt =
     obind (pin_setInput (in_pin net p) slot pkt) (\<lambda>(pin, t, isNew, ready).
       let net = put_in p pin net;
           net = (if isNew then net\<lparr>registeredObjects := registerObject (InPin p) t (registeredObjects net)\<rparr>
                  else net)
       in case ready of
            None \<Rightarrow> Inr (net, [])
          | Some data \<Rightarrow>
              let net = net\<lparr>registeredObjects := unregisterObject (InPin p) t (registeredObjects net)\<rparr>
              in obind (engine p (engine_state net p) data) (\<lambda>(e, out).
                   Inr (net\<lparr>engine_state := (engine_state net)(p := e)\<rparr>,
                        (case out of None \<Rightarrow> [] | Some q \<Rightarrow> [OutputReady p (Some q)]) @ [EraseInput p t])))"

definition deliverOuput :: "'e network \<Rightarrow> nat \<Rightarrow> packet option \<Rightarrow> task list outcome" where
  "deliverOuput net p pkt =
     (if pkt = None then Inl (CException ''The packet cannot be null.'')
      else Inr (map (\<lambda>(q, slot). SetInput q slot pkt) (outputs (out_pin net p))))"

definition onOutputReady ::
  "'e network \<Rightarrow> nat \<Rightarrow> packet option \<Rightarrow> ('e network \<times> task list) outcome" where
  "onOutputReady net p pkt =
     (case pkt of
        None \<Rightarrow> Inl (CException ''The packet cannot be null.'')
      | Some q \<Rightarrow>
          if manualTrigger (out_pin net p)
          then Inr (put_out p ((out_pin net p)\<lparr>outputPackets := (outputPackets (out_pin net p))(p_timestamp q \<mapsto> q)\<rparr>)
                      (net\<lparr>registeredObjects := registerObject (OutPin p) (p_timestamp q) (registeredObjects net)\<rparr>), [])
          else omap (\<lambda>ts. (net, ts)) (deliverOuput net p pkt))"

definition output_trigger :: "'e network \<Rightarrow> nat \<Rightarrow> int \<Rightarrow> ('e network \<times> task list) outcome" where
  "output_trigger net p t =
     (if manualTrigger (out_pin net p)
      then case outputPackets (out_pin net p) t of
             None \<Rightarrow> Inr (net, [])
           | Some q \<Rightarrow>
               let net = net\<lparr>registeredObjects := unregisterObject (OutPin p) t (registeredObjects net)\<rparr>
               in omap (\<lambda>ts. (net, ts @ [EraseOutput p t])) (deliverOuput net p (Some q))
      else Inr (net, []))"

text \<open>The loop of \<open>CInputPin::trigger\<close> looks the timestamp up once and keeps the iterator: a turn
  that needs it after the entry is gone reads through a dangling iterator.\<close>

definition input_trigger :: "'e network \<Rightarrow> nat \<Rightarrow> int \<Rightarrow> task list" where
  "input_trigger net p t =
     (if hasTriggers (in_pin net p)
      then map (\<lambda>s. TriggerSlot p t s (inputs (in_pin net p) t = None)) [0..<slotsCount (in_pin net p)]
      else [])"

definition trigger_slot :: "'e network \<Rightarrow> nat \<Rightarrow> int \<Rightarrow> nat \<Rightarrow> bool \<Rightarrow> task list outcome" where
  "trigger_slot net p t s nothingReceived =
     (case triggers (in_pin net p) ! s of
        None \<Rightarrow> Inr []
      | Some q \<Rightarrow>
          if nothingReceived then Inr [TriggerFilter q t]
          else case inputs (in_pin net p) t of
                 None \<Rightarrow> Inl (UndefinedBehaviour ''the iterator is used after erase'')
               | Some buf \<Rightarrow> Inr (if packets buf ! s = None then [TriggerFilter q t] else []))"

definition filter_setInputTrigger ::
  "'e network \<Rightarrow> nat \<Rightarrow> nat \<Rightarrow> nat \<Rightarrow> ('e network \<times> task list) outcome" where
  "filter_setInputTrigger net p slot trig =
     (let wasTriggerable = canBeTriggered net p
      in obind (pin_setInputTrigger (in_pin net p) slot trig) (\<lambda>pin.
           Inr (put_in p pin net,
                if wasTriggerable then [] else map (\<lambda>(q, s). SetTrigger q s p) (outputs (out_pin net p)))))"

definition connectOutput :: "'e network \<Rightarrow> nat \<Rightarrow> nat \<Rightarrow> nat \<Rightarrow> 'e network \<times> task list" where
  "connectOutput net p q slot =
     (put_out p ((out_pin net p)\<lparr>outputs := outputs (out_pin net p) @ [(q, slot)]\<rparr>) net,
      if canBeTriggered net p then [SetTrigger q slot p] else [])"

definition exec :: "'e engine \<Rightarrow> 'e network \<Rightarrow> task \<Rightarrow> ('e network \<times> task list) outcome" where
  "exec engine net tk =
     (case tk of
        SetInput p slot pkt \<Rightarrow> setInput engine net p slot pkt
      | EraseInput p t \<Rightarrow>
          Inr (put_in p ((in_pin net p)\<lparr>inputs := (inputs (in_pin net p))(t := None)\<rparr>) net, [])
      | OutputReady p pkt \<Rightarrow> onOutputReady net p pkt
      | TriggerFilter p t \<Rightarrow> Inr (net, input_trigger net p t @ [TriggerOut p t])
      | TriggerSlot p t s nothing \<Rightarrow> omap (\<lambda>ts. (net, ts)) (trigger_slot net p t s nothing)
      | TriggerOut p t \<Rightarrow> output_trigger net p t
      | EraseOutput p t \<Rightarrow>
          Inr (put_out p ((out_pin net p)\<lparr>outputPackets := (outputPackets (out_pin net p))(t := None)\<rparr>) net, [])
      | SetTrigger p slot q \<Rightarrow> filter_setInputTrigger net p slot q
      | ConnectOutput p q slot \<Rightarrow> Inr (connectOutput net p q slot))"

partial_function (option) run ::
  "'e engine \<Rightarrow> 'e network \<Rightarrow> task list \<Rightarrow> 'e network outcome option" where [code]:
  "run engine net stack =
     (case stack of
        [] \<Rightarrow> Some (Inr net)
      | tk # rest \<Rightarrow>
          (case exec engine net tk of
             Inl e \<Rightarrow> Some (Inl e)
           | Inr (net, new) \<Rightarrow> run engine net (new @ rest)))"

section \<open>Steps of the whole graph\<close>

text \<open>A source hands over a packet, a trigger or a connection; the graph then works until nothing is
  left to do, and only then is the garbage collector called.\<close>

inductive gstep :: "'e engine \<Rightarrow> 'e network \<times> task list \<Rightarrow> 'e network \<times> task list \<Rightarrow> bool"
  for engine :: "'e engine" where
  work: "exec engine net tk = Inr (net', new) \<Longrightarrow> gstep engine (net, tk # rest) (net', new @ rest)"
| start: "tk = OutputReady p pkt \<or> tk = TriggerFilter p t \<or> tk = ConnectOutput p q s \<Longrightarrow>
    gstep engine (net, []) (net, [tk])"
| collect: "gstep engine (net, []) (gc_invalidate t net, [])"

inductive_cases gstep_cases: "gstep engine (net, ts) (net', ts')"
inductive_simps gstep_idle: "gstep engine (net, []) (net', ts')"

inductive reachable :: "'e engine \<Rightarrow> 'e network \<Rightarrow> 'e network \<times> task list \<Rightarrow> bool"
  for engine :: "'e engine" and net0 :: "'e network" where
  initial: "reachable engine net0 (net0, [])"
| onward: "reachable engine net0 s \<Longrightarrow> gstep engine s s' \<Longrightarrow> reachable engine net0 s'"

end
