(* ===== verification/PinsProps.thy ===== *)
theory PinsProps
  imports Pins
begin

text \<open>
  Correctness of the filter graph: the garbage collector reaches every packet that lingers, an
  input pin joins the packets of a timestamp, and data flow in an acyclic graph ends.
\<close>

section \<open>Nothing escapes the garbage collector\<close>

text \<open>Whether an entry is present is an atom of the proofs about the collector.\<close>

declare not_None_eq [iff del]

definition gc_inv :: "'e network \<times> task list \<Rightarrow> bool" where
  "gc_inv s \<longleftrightarrow> (case s of (net, stack) \<Rightarrow>
     (\<forall>p t. inputs (in_pin net p) t = None
        \<or> InPin p \<in> registeredObjects net t \<or> EraseInput p t \<in> set stack)
     \<and> (\<forall>p t. outputPackets (out_pin net p) t = None
        \<or> OutPin p \<in> registeredObjects net t \<or> EraseOutput p t \<in> set stack))"

lemma pin_setInput_Inr:
  assumes "pin_setInput pin slot pkt = Inr (pin', t, isNew, ready)"
  obtains q b where "pkt = Some q" "t = p_timestamp q" "isNew = (inputs pin t = None)"
    "pin' = pin\<lparr>inputs := (inputs pin)(t \<mapsto> b)\<rparr>"
  using assms by (auto simp: pin_setInput_def Let_def split: if_splits option.splits)

lemma setInput_gc_inv:
  assumes inv: "gc_inv (net, SetInput p slot pkt # rest)" and run: "setInput engine net p slot pkt = Inr (net', new)"
  shows "gc_inv (net', new @ rest)"
proof -
  obtain pin t isNew ready where s: "pin_setInput (in_pin net p) slot pkt = Inr (pin, t, isNew, ready)"
    using run by (auto simp: setInput_def outcome_simps split: prod.splits)
  then obtain q b where pin: "isNew = (inputs (in_pin net p) t = None)"
    "pin = (in_pin net p)\<lparr>inputs := (inputs (in_pin net p))(t \<mapsto> b)\<rparr>"
    by (rule pin_setInput_Inr)
  show ?thesis
  proof (cases ready)
    case None
    with run s have e: "net' = (if isNew then (put_in p pin net)\<lparr>registeredObjects :=
        registerObject (InPin p) t (registeredObjects net)\<rparr> else put_in p pin net)" "new = []"
      by (auto simp: setInput_def Let_def put_in_def)
    show ?thesis
      using inv unfolding e gc_inv_def
      by (auto simp: pin put_in_def registerObject_def split: if_splits)
  next
    case (Some data)
    with run s obtain e out where e: "engine_state net' = (engine_state net)(p := e)"
      "in_pin net' = (in_pin net)(p := pin)" "out_pin net' = out_pin net"
      "\<forall>u x. x \<noteq> InPin p \<or> u \<noteq> t \<longrightarrow> x \<in> registeredObjects net u \<longrightarrow> x \<in> registeredObjects net' u"
      "new = (case out of None \<Rightarrow> [] | Some q \<Rightarrow> [OutputReady p (Some q)]) @ [EraseInput p t]"
      by (auto simp: setInput_def Let_def outcome_simps put_in_def registerObject_def unregisterObject_def
          split: prod.splits if_splits)
    have keep: "OutPin q \<in> registeredObjects net u \<Longrightarrow> OutPin q \<in> registeredObjects net' u"
      "InPin q \<in> registeredObjects net u \<Longrightarrow> q \<noteq> p \<or> u \<noteq> t \<Longrightarrow> InPin q \<in> registeredObjects net' u" for q u
      using e(4) by auto
    have old: "inputs (in_pin net q) u = None \<or> InPin q \<in> registeredObjects net u \<or> EraseInput q u \<in> set rest"
      "outputPackets (out_pin net q) u = None \<or> OutPin q \<in> registeredObjects net u \<or> EraseOutput q u \<in> set rest"
      for q u
      using inv by (auto simp: gc_inv_def)
    have "inputs (in_pin net' q) u = None \<or> InPin q \<in> registeredObjects net' u \<or> EraseInput q u \<in> set (new @ rest)"
      for q u
    proof (cases "q = p \<and> u = t")
      case True
      then show ?thesis by (simp add: e(5))
    next
      case False
      then have "inputs (in_pin net' q) u = inputs (in_pin net q) u" by (auto simp: e(2) pin)
      with old(1) [of q u] keep(2) [of q u] False show ?thesis by auto
    qed
    moreover have "outputPackets (out_pin net' q) u = None \<or> OutPin q \<in> registeredObjects net' u
        \<or> EraseOutput q u \<in> set (new @ rest)" for q u
      using old(2) [of q u] keep(1) [of q u] by (auto simp: e(3))
    ultimately show ?thesis by (simp add: gc_inv_def)
  qed
qed

lemma gc_inv_cong:
  assumes "gc_inv (net, tk # rest)" "\<forall>p. inputs (in_pin net' p) = inputs (in_pin net p)"
    and "\<forall>p. outputPackets (out_pin net' p) = outputPackets (out_pin net p)"
    and "registeredObjects net' = registeredObjects net"
    and "\<forall>p t. EraseInput p t \<noteq> tk \<and> EraseOutput p t \<noteq> tk"
  shows "gc_inv (net', new @ rest)"
  using assms by (auto simp: gc_inv_def)

lemma exec_gc_inv:
  assumes inv: "gc_inv (net, tk # rest)" and run: "exec engine net tk = Inr (net', new)"
  shows "gc_inv (net', new @ rest)"
proof (cases tk)
  case (SetInput p slot pkt)
  with assms show ?thesis by (intro setInput_gc_inv) (simp_all add: exec_def)
next
  case (EraseInput p t)
  with run have "net' = put_in p ((in_pin net p)\<lparr>inputs := (inputs (in_pin net p))(t := None)\<rparr>) net" "new = []"
    by (simp_all add: exec_def)
  with inv EraseInput show ?thesis by (auto simp: gc_inv_def put_in_def split: if_splits)
next
  case (OutputReady p pkt)
  show ?thesis
  proof (cases "manualTrigger (out_pin net p)")
    case True
    with run OutputReady obtain q where "pkt = Some q"
      "net' = put_out p ((out_pin net p)\<lparr>outputPackets := (outputPackets (out_pin net p))(p_timestamp q \<mapsto> q)\<rparr>)
        (net\<lparr>registeredObjects := registerObject (OutPin p) (p_timestamp q) (registeredObjects net)\<rparr>)" "new = []"
      by (auto simp: exec_def onOutputReady_def split: option.splits)
    with inv OutputReady show ?thesis by (auto simp: gc_inv_def put_out_def registerObject_def split: if_splits)
  next
    case False
    with run OutputReady have "net' = net"
      by (auto simp: exec_def onOutputReady_def omap_def outcome_simps split: option.splits)
    with OutputReady show ?thesis by (intro gc_inv_cong [OF inv]) simp_all
  qed
next
  case (TriggerFilter p t)
  with run show ?thesis by (intro gc_inv_cong [OF inv]) (auto simp: exec_def)
next
  case (TriggerSlot p t s b)
  with run show ?thesis by (intro gc_inv_cong [OF inv]) (auto simp: exec_def omap_def outcome_simps)
next
  case (TriggerOut p t)
  show ?thesis
  proof (cases "manualTrigger (out_pin net p) \<and> outputPackets (out_pin net p) t \<noteq> None")
    case True
    with run TriggerOut obtain ts where
      "net' = net\<lparr>registeredObjects := unregisterObject (OutPin p) t (registeredObjects net)\<rparr>"
      "new = ts @ [EraseOutput p t]"
      by (auto simp: exec_def output_trigger_def Let_def omap_def outcome_simps split: option.splits)
    with inv TriggerOut show ?thesis by (auto simp: gc_inv_def unregisterObject_def split: if_splits)
  next
    case False
    with run TriggerOut have "net' = net" by (auto simp: exec_def output_trigger_def split: if_splits option.splits)
    with TriggerOut show ?thesis by (intro gc_inv_cong [OF inv]) simp_all
  qed
next
  case (EraseOutput p t)
  with run have "net' = put_out p ((out_pin net p)\<lparr>outputPackets := (outputPackets (out_pin net p))(t := None)\<rparr>) net" "new = []"
    by (simp_all add: exec_def)
  with inv EraseOutput show ?thesis by (auto simp: gc_inv_def put_out_def split: if_splits)
next
  case (SetTrigger p slot q)
  with run obtain pin where "net' = put_in p pin net" "inputs pin = inputs (in_pin net p)"
    by (auto simp: exec_def filter_setInputTrigger_def Let_def outcome_simps pin_setInputTrigger_def split: if_splits)
  with SetTrigger show ?thesis by (intro gc_inv_cong [OF inv]) (auto simp: put_in_def)
next
  case (ConnectOutput p q slot)
  with run show ?thesis
    by (intro gc_inv_cong [OF inv]) (auto simp: exec_def connectOutput_def put_out_def)
qed

lemma gc_inv_idle:
  assumes "gc_inv (net, [])"
  shows "InPin p \<notin> registeredObjects net t \<Longrightarrow> inputs (in_pin net p) t = None"
    and "OutPin p \<notin> registeredObjects net t \<Longrightarrow> outputPackets (out_pin net p) t = None"
  using assms unfolding gc_inv_def prod.case list.set by (metis empty_iff)+

lemma collect_old:
  assumes "gc_inv (net, [])" "u < t"
  shows "inputs (in_pin (gc_invalidate t net) p) u = None
    \<and> outputPackets (out_pin (gc_invalidate t net) p) u = None"
  using assms(2) gc_inv_idle [OF assms(1), of p u]
  by (auto simp: gc_invalidate_def input_invalidate_def output_invalidate_def)

lemma collect_gc_inv:
  assumes "gc_inv (net, [])"
  shows "gc_inv (gc_invalidate t net, [])"
proof -
  have "inputs (in_pin (gc_invalidate t net) p) u = None \<or> InPin p \<in> registeredObjects (gc_invalidate t net) u"
    "outputPackets (out_pin (gc_invalidate t net) p) u = None \<or> OutPin p \<in> registeredObjects (gc_invalidate t net) u"
    for p u
    using collect_old [OF assms, of u t p] gc_inv_idle [OF assms, of p u]
    by (cases "u < t"; auto simp: gc_invalidate_def input_invalidate_def output_invalidate_def)+
  then show ?thesis by (simp add: gc_inv_def)
qed

lemma gc_inv_more: "gc_inv (net, []) \<Longrightarrow> gc_inv (net, ts)"
  unfolding gc_inv_def prod.case list.set by blast

definition empty_network :: "'e network \<Rightarrow> bool" where
  "empty_network net \<longleftrightarrow> (\<forall>p t. inputs (in_pin net p) t = None \<and> outputPackets (out_pin net p) t = None)"

lemma reachable_gc_inv: "reachable engine net0 s \<Longrightarrow> empty_network net0 \<Longrightarrow> gc_inv s"
proof (induction rule: reachable.induct)
  case initial
  then show ?case by (simp add: gc_inv_def empty_network_def)
next
  case (onward s s')
  from onward.hyps(2) onward.IH [OF onward.prems] show ?case
    by (cases rule: gstep.cases) (blast intro: exec_gc_inv collect_gc_inv gc_inv_more)+
qed

text \<open>C32: In every state of the filter graph that handing over packets, triggers, connections and
  garbage collections can reach, once the graph has finished working, a garbage collection for a
  timestamp leaves no packet older than it in any input or output pin.\<close>

theorem gc_complete:
  assumes "reachable engine net0 (net, [])" "empty_network net0" "u < t"
  shows "inputs (in_pin (gc_invalidate t net) p) u = None
    \<and> outputPackets (out_pin (gc_invalidate t net) p) u = None"
  by (rule collect_old [OF reachable_gc_inv [OF assms(1,2)] assms(3)])

declare not_None_eq [iff]

text \<open>A source (0) connected to the first of the two slots of a filter (1).\<close>

definition demo_net :: "unit network" where
  "demo_net = \<lparr>registeredObjects = (\<lambda>_. {}), in_pin = (\<lambda>_. newInputPin 2),
     out_pin = (\<lambda>p. (newOutputPin False)\<lparr>outputs := (if p = 0 then [(1, 0)] else [])\<rparr>),
     engine_state = (\<lambda>_. ())\<rparr>"

definition demo_engine :: "unit engine" where
  "demo_engine p e ps = Inr (e, None)"

definition demo_packet :: "int \<Rightarrow> packet" where
  "demo_packet t = \<lparr>p_data = [], p_date = emptyDate, p_timestamp = t, p_status = NO_ERROR\<rparr>"

theorem gc_complete_witness:
  "\<exists>net. reachable demo_engine demo_net (net, []) \<and> inputs (in_pin net 1) 5 \<noteq> None
     \<and> inputs (in_pin (gc_invalidate 7 net) 1) 5 = None"
proof -
  let ?q = "Some (demo_packet 5)"
  have e: "exec demo_engine demo_net (OutputReady 0 ?q) = Inr (demo_net, [SetInput 1 0 ?q])"
    by (simp add: exec_def onOutputReady_def deliverOuput_def demo_net_def newOutputPin_def)
  obtain net where n: "exec demo_engine demo_net (SetInput 1 0 ?q) = Inr (net, [])" "inputs (in_pin net 1) 5 \<noteq> None"
    by (simp add: exec_def setInput_def pin_setInput_def demo_net_def newInputPin_def demo_packet_def put_in_def Let_def)
  have "reachable demo_engine demo_net (demo_net, [OutputReady 0 ?q])"
    by (rule reachable.onward [OF reachable.initial gstep.start]) blast
  from reachable.onward [OF this gstep.work [OF e]]
  have "reachable demo_engine demo_net (demo_net, [SetInput 1 0 ?q])" by simp
  from reachable.onward [OF this gstep.work [OF n(1)]] have r: "reachable demo_engine demo_net (net, [])" by simp
  have "empty_network demo_net" by (simp add: empty_network_def demo_net_def newInputPin_def newOutputPin_def)
  from gc_complete [OF r this, of 5 7 1] r n(2) show ?thesis by auto
qed

section \<open>Joining the packets of a timestamp\<close>

text \<open>One delivery to a pin whose engine does not reach back to it: \<open>setInput\<close> as a whole, with the packets
  handed to \<open>onInputReady\<close> as its output, and the erasure of their buffer behind that call.  (The notes to
  the garbage collector are no part of the pin.)\<close>

definition pin_step :: "nat \<times> packet \<Rightarrow> input_pin \<times> packet option list option list
    \<Rightarrow> (input_pin \<times> packet option list option list) outcome" where
  "pin_step = (\<lambda>(slot, q) (p, outs).
     obind (pin_setInput p slot (Some q)) (\<lambda>(p, t, isNew, ready).
       Inr (if ready = None then p else p\<lparr>inputs := (inputs p)(t := None)\<rparr>, outs @ [ready])))"

definition at_time :: "int \<Rightarrow> (nat \<times> packet) list \<Rightarrow> (nat \<times> packet) list" where
  "at_time t ds = filter (\<lambda>d. p_timestamp (snd d) = t) ds"

text \<open>The buffer a pin of \<open>k\<close> slots has for a timestamp after the deliveries \<open>ds\<close>.\<close>

definition buffer_of :: "nat \<Rightarrow> (nat \<times> packet) list \<Rightarrow> input_buffer option" where
  "buffer_of k ds = (if ds = [] \<or> length ds = k then None
     else Some \<lparr>slotsFilled = length ds, packets = map (map_of ds) [0..<k]\<rparr>)"

definition slots_ok :: "nat \<Rightarrow> (nat \<times> packet) list \<Rightarrow> bool" where
  "slots_ok k ds \<longleftrightarrow> (\<forall>d\<in>set ds. fst d < k) \<and> (\<forall>t. distinct (map fst (at_time t ds)))"

lemma slots_ok_length:
  assumes "slots_ok k ds"
  shows "length (at_time t ds) \<le> k"
proof -
  have "distinct (map fst (at_time t ds))" "set (map fst (at_time t ds)) \<subseteq> {0..<k}"
    using assms by (auto simp: slots_ok_def at_time_def)
  then have "card (set (map fst (at_time t ds))) \<le> k" by (metis card_atLeastLessThan card_mono finite_atLeastLessThan minus_nat.diff_0)
  with \<open>distinct (map fst (at_time t ds))\<close> show ?thesis by (metis distinct_card length_map)
qed

lemma map_of_snoc:
  assumes "distinct (map fst (ds @ [(s, q)]))"
  shows "map (map_of (ds @ [(s, q)])) [0..<k] = (map (map_of ds) [0..<k])[s := Some q]"
proof (rule nth_equalityI)
  fix i assume i: "i < length (map (map_of (ds @ [(s, q)])) [0..<k])"
  have "map_of ds s = None" using assms by (auto simp: map_of_eq_None_iff)
  then have "map_of (ds @ [(s, q)]) i = (if i = s then Some q else map_of ds i)"
    by (auto simp: map_add_def split: option.splits)
  with i show "map (map_of (ds @ [(s, q)])) [0..<k] ! i = (map (map_of ds) [0..<k])[s := Some q] ! i"
    by (simp add: nth_list_update)
qed simp

lemma pin_step_joins:
  assumes ok: "slots_ok k (ds @ [(s, q)])" and k: "0 < k"
    and p: "slotsCount p = k" "inputs p = (\<lambda>t. buffer_of k (at_time t ds))"
  shows "\<exists>p'. pin_step (s, q) (p, outs) = Inr (p', outs @ [
        let D = at_time (p_timestamp q) (ds @ [(s, q)])
        in if length D = k then Some (map (map_of D) [0..<k]) else None])
    \<and> slotsCount p' = k \<and> inputs p' = (\<lambda>t. buffer_of k (at_time t (ds @ [(s, q)])))"
proof -
  let ?t = "p_timestamp q" let ?D = "at_time ?t ds"
  have s: "s < k" using ok by (simp add: slots_ok_def)
  have D: "at_time ?t (ds @ [(s, q)]) = ?D @ [(s, q)]" by (simp add: at_time_def)
  have other: "t \<noteq> ?t \<Longrightarrow> at_time t (ds @ [(s, q)]) = at_time t ds" for t by (simp add: at_time_def)
  have "length (at_time ?t (ds @ [(s, q)])) \<le> k" by (rule slots_ok_length [OF ok])
  then have lt: "length ?D < k" by (simp add: D)
  have dist: "distinct (map fst (?D @ [(s, q)]))" using ok D by (metis slots_ok_def)
  define P where "P = map (map_of (?D @ [(s, q)])) [0..<k]"
  have P: "(map (map_of ?D) [0..<k])[s := Some q] = P" unfolding P_def by (rule map_of_snoc [OF dist, symmetric])
  let ?b = "\<lparr>slotsFilled = Suc (length ?D), packets = P\<rparr>"
  have "inputs p ?t = (if ?D = [] then None
      else Some \<lparr>slotsFilled = length ?D, packets = map (map_of ?D) [0..<k]\<rparr>)"
    using p(2) lt by (simp add: buffer_of_def)
  moreover have "?D = [] \<Longrightarrow> (replicate k None)[s := Some q] = P" using P by (simp add: map_replicate_const)
  ultimately have set: "pin_setInput p s (Some q) = Inr (p\<lparr>inputs := (inputs p)(?t \<mapsto> ?b)\<rparr>, ?t, inputs p ?t = None,
      if Suc (length ?D) = k then Some P else None)"
    using s p(1) P by (cases "?D = []") (simp_all add: pin_setInput_def Let_def)
  have buf: "buffer_of k (at_time t (ds @ [(s, q)])) =
      (if t = ?t then (if Suc (length ?D) = k then None else Some ?b) else inputs p t)" for t
    using other [of t] D by (auto simp: buffer_of_def p(2) P_def)
  have out: "(let D = at_time ?t (ds @ [(s, q)]) in if length D = k then Some (map (map_of D) [0..<k]) else None)
      = (if Suc (length ?D) = k then Some P else None)"
    by (simp add: D P_def Let_def)
  show ?thesis
    unfolding out buf using p(1) by (auto simp: pin_step_def set fun_eq_iff)
qed

text \<open>C25: A pin of \<open>k\<close> slots, fed packets of any timestamps in any interleaving, each slot at most
  once per timestamp, hands the packets of a timestamp to its engine exactly when the last of its
  slots is filled, each packet at its slot, and keeps no buffer for that timestamp.\<close>

theorem pin_joins:
  assumes "slots_ok k ds" "0 < k"
  shows "\<exists>p. ofold pin_step ds (newInputPin k, []) = Inr (p,
        map (\<lambda>i. let D = at_time (p_timestamp (snd (ds ! i))) (take (Suc i) ds)
                 in if length D = k then Some (map (map_of D) [0..<k]) else None) [0..<length ds])
    \<and> (\<forall>t. inputs p t = None \<longleftrightarrow> length (at_time t ds) = 0 \<or> length (at_time t ds) = k)"
proof -
  let ?out = "\<lambda>ds i. let D = at_time (p_timestamp (snd (ds ! i))) (take (Suc i) ds)
      in if length D = k then Some (map (map_of D) [0..<k]) else None"
  have "\<exists>p. ofold pin_step ds (newInputPin k, []) = Inr (p, map (?out ds) [0..<length ds])
      \<and> slotsCount p = k \<and> inputs p = (\<lambda>t. buffer_of k (at_time t ds))"
    using assms(1)
  proof (induction ds rule: rev_induct)
    case Nil
    then show ?case by (simp add: newInputPin_def at_time_def buffer_of_def)
  next
    case (snoc d ds)
    obtain s q where d: "d = (s, q)" by (cases d)
    have "slots_ok k ds" using snoc.prems by (auto simp: slots_ok_def at_time_def split: if_splits)
    then obtain p where p: "ofold pin_step ds (newInputPin k, []) = Inr (p, map (?out ds) [0..<length ds])"
      "slotsCount p = k" "inputs p = (\<lambda>t. buffer_of k (at_time t ds))" using snoc.IH by blast
    have old: "map (?out (ds @ [d])) [0..<length ds] = map (?out ds) [0..<length ds]"
      by (rule map_cong) (simp_all add: nth_append)
    have new: "?out (ds @ [d]) (length ds) = (let D = at_time (p_timestamp q) (ds @ [d])
        in if length D = k then Some (map (map_of D) [0..<k]) else None)"
      by (simp add: d)
    let ?o = "let D = at_time (p_timestamp q) (ds @ [d]) in if length D = k then Some (map (map_of D) [0..<k]) else None"
    obtain p' where p': "pin_step d (p, map (?out ds) [0..<length ds]) = Inr (p', map (?out ds) [0..<length ds] @ [?o])"
      "slotsCount p' = k" "inputs p' = (\<lambda>t. buffer_of k (at_time t (ds @ [d])))"
      using pin_step_joins [OF _ assms(2) p(2,3), of s q] snoc.prems d by blast
    have "map (?out (ds @ [d])) [0..<length (ds @ [d])] = map (?out ds) [0..<length ds] @ [?o]"
      using old new by simp
    moreover have "ofold pin_step (ds @ [d]) (newInputPin k, []) = Inr (p', map (?out ds) [0..<length ds] @ [?o])"
      using p(1) p'(1) by (simp add: ofold_append)
    ultimately show ?case using p'(2,3) by simp
  qed
  then show ?thesis by (auto simp: buffer_of_def)
qed

theorem pin_joins_witness:
  "\<exists>p. ofold pin_step [(1, demo_packet 3), (0, demo_packet 4), (0, demo_packet 3)] (newInputPin 2, [])
     = Inr (p, [None, None, Some [Some (demo_packet 3), Some (demo_packet 3)]])
   \<and> inputs p 3 = None \<and> inputs p 4 \<noteq> None"
proof -
  let ?ds = "[(1, demo_packet 3), (0, demo_packet 4), (0, demo_packet 3)] :: (nat \<times> packet) list"
  have "slots_ok 2 ?ds" by (auto simp: slots_ok_def at_time_def demo_packet_def)
  then obtain p where p: "ofold pin_step ?ds (newInputPin 2, []) = Inr (p,
        map (\<lambda>i. let D = at_time (p_timestamp (snd (?ds ! i))) (take (Suc i) ?ds)
                 in if length D = 2 then Some (map (map_of D) [0..<2]) else None) [0..<length ?ds])"
    "\<forall>t. inputs p t = None \<longleftrightarrow> length (at_time t ?ds) = 0 \<or> length (at_time t ?ds) = 2"
    using pin_joins [of 2 ?ds] by auto
  have "map (\<lambda>i. let D = at_time (p_timestamp (snd (?ds ! i))) (take (Suc i) ?ds)
                 in if length D = 2 then Some (map (map_of D) [0..<2]) else None) [0..<length ?ds]
      = [None, None, Some [Some (demo_packet 3), Some (demo_packet 3)]]"
    by (simp add: upt_rec at_time_def demo_packet_def Let_def)
  with p show ?thesis by (intro exI [of _ p]) (simp add: at_time_def demo_packet_def)
qed

text \<open>The count of filled slots counts deliveries: two packets for the same slot and timestamp
  make a pin of two slots call its engine with a null packet for the other one.\<close>

theorem double_fill_gives_null:
  assumes "slotsCount p = 2" "inputs p (p_timestamp q) = None" "p_timestamp r = p_timestamp q"
  shows "\<exists>p'. ofold pin_step [(0, q), (0, r)] (p, []) = Inr (p', [None, Some [Some r, None]])"
  using assms by (simp add: pin_step_def pin_setInput_def Let_def numeral_2_eq_2)

theorem double_fill_gives_null_witness:
  "\<exists>p'. ofold pin_step [(0, demo_packet 1), (0, demo_packet 1)] (newInputPin 2, [])
     = Inr (p', [None, Some [Some (demo_packet 1), None]])"
  by (rule double_fill_gives_null) (simp_all add: newInputPin_def)

section \<open>Triggering\<close>

text \<open>Triggering an input pin that already holds a packet for its second slot, when the trigger
  of its first slot delivers the packet that was missing and the second slot has a trigger too,
  goes on reading the buffer through the iterator of the entry that the delivery erased.\<close>

theorem trigger_uses_erased_entry:
  assumes "hasTriggers (in_pin net p)" "slotsCount (in_pin net p) = 2"
    and "triggers (in_pin net p) = [Some a, Some b]"
    and "inputs (in_pin net p) t = Some \<lparr>slotsFilled = 1, packets = [None, Some q]\<rparr>"
    and delivers: "\<And>rest. run engine net (TriggerFilter a t # rest) = run engine net' rest"
    and filled: "inputs (in_pin net' p) t = None" "triggers (in_pin net' p) = triggers (in_pin net p)"
  shows "run engine net [TriggerFilter p t] = Some (Inl (UndefinedBehaviour ''the iterator is used after erase''))"
proof -
  have "run engine net [TriggerFilter p t]
      = run engine net [TriggerSlot p t 0 False, TriggerSlot p t 1 False, TriggerOut p t]"
    using assms(1-4) by (subst run.simps) (simp add: exec_def input_trigger_def upt_rec)
  also have "\<dots> = run engine net [TriggerFilter a t, TriggerSlot p t 1 False, TriggerOut p t]"
    using assms(3,4) by (subst run.simps) (simp add: exec_def trigger_slot_def)
  also have "\<dots> = run engine net' [TriggerSlot p t 1 False, TriggerOut p t]"
    by (rule delivers)
  also have "\<dots> = Some (Inl (UndefinedBehaviour ''the iterator is used after erase''))"
    using assms(3) filled by (subst run.simps) (simp add: exec_def trigger_slot_def)
  finally show ?thesis .
qed

text \<open>Two sources with manual triggers (0 and 1) feed the two slots of the filter 2.\<close>

definition lazy_net :: "unit network" where
  "lazy_net = \<lparr>registeredObjects = (\<lambda>_. {}),
     in_pin = (\<lambda>p. if p = 2 then \<lparr>slotsCount = 2,
         inputs = (\<lambda>t. if t = 5 then Some \<lparr>slotsFilled = 1, packets = [None, Some (demo_packet 5)]\<rparr> else None),
         triggers = [Some 0, Some 1], hasTriggers = True\<rparr> else newInputPin 0),
     out_pin = (\<lambda>p. if p = 2 then newOutputPin False
         else \<lparr>manualTrigger = True, outputs = [(2, p)],
               outputPackets = (\<lambda>t. if p = 0 \<and> t = 5 then Some (demo_packet 5) else None)\<rparr>),
     engine_state = (\<lambda>_. ())\<rparr>"

theorem trigger_uses_erased_entry_witness:
  "run demo_engine lazy_net [TriggerFilter 2 5]
     = Some (Inl (UndefinedBehaviour ''the iterator is used after erase''))"
proof -
  let ?n1 = "lazy_net\<lparr>registeredObjects := unregisterObject (OutPin 0) 5 (registeredObjects lazy_net)\<rparr>"
  obtain n2 where n2: "exec demo_engine ?n1 (SetInput 2 0 (Some (demo_packet 5))) = Inr (n2, [EraseInput 2 5])"
    "triggers (in_pin n2 2) = [Some 0, Some 1]"
    by (simp add: exec_def setInput_def pin_setInput_def Let_def lazy_net_def demo_packet_def put_in_def
        demo_engine_def)
  define n3 where "n3 = put_in 2 ((in_pin n2 2)\<lparr>inputs := (inputs (in_pin n2 2))(5 := None)\<rparr>) n2"
  define n4 where "n4 = put_out 0 ((out_pin n3 0)\<lparr>outputPackets := (outputPackets (out_pin n3 0))(5 := None)\<rparr>) n3"
  have "run demo_engine lazy_net (TriggerFilter 0 5 # rest) = run demo_engine n4 rest" for rest
  proof -
    have "run demo_engine lazy_net (TriggerFilter 0 5 # rest) = run demo_engine lazy_net (TriggerOut 0 5 # rest)"
      by (subst run.simps) (simp add: exec_def input_trigger_def lazy_net_def newInputPin_def)
    also have "\<dots> = run demo_engine ?n1 (SetInput 2 0 (Some (demo_packet 5)) # EraseOutput 0 5 # rest)"
      by (subst run.simps) (simp add: exec_def output_trigger_def deliverOuput_def lazy_net_def Let_def)
    also have "\<dots> = run demo_engine n2 (EraseInput 2 5 # EraseOutput 0 5 # rest)"
      by (subst run.simps) (simp add: n2)
    also have "\<dots> = run demo_engine n3 (EraseOutput 0 5 # rest)"
      by (subst run.simps) (simp add: exec_def n3_def)
    also have "\<dots> = run demo_engine n4 rest" by (subst run.simps) (simp add: exec_def n4_def)
    finally show ?thesis .
  qed
  moreover have "inputs (in_pin n4 2) 5 = None" "triggers (in_pin n4 2) = triggers (in_pin lazy_net 2)"
    using n2(2) by (simp_all add: n4_def n3_def put_in_def put_out_def lazy_net_def)
  moreover have "hasTriggers (in_pin lazy_net 2)" "slotsCount (in_pin lazy_net 2) = 2"
    "triggers (in_pin lazy_net 2) = [Some 0, Some 1]"
    "inputs (in_pin lazy_net 2) 5 = Some \<lparr>slotsFilled = 1, packets = [None, Some (demo_packet 5)]\<rparr>"
    by (simp_all add: lazy_net_def)
  ultimately show ?thesis by (intro trigger_uses_erased_entry) auto
qed

section \<open>Data flow ends\<close>

definition flow_task :: "task \<Rightarrow> bool" where
  "flow_task tk = (case tk of SetInput _ _ _ \<Rightarrow> True | EraseInput _ _ \<Rightarrow> True | OutputReady _ _ \<Rightarrow> True | _ \<Rightarrow> False)"

text \<open>The work a packet can cause below a filter, in an acyclic graph.\<close>

fun work :: "(nat \<Rightarrow> (nat \<times> nat) list) \<Rightarrow> nat \<Rightarrow> nat \<Rightarrow> nat" where
  "work out 0 p = 3"
| "work out (Suc n) p = 3 + sum_list (map (\<lambda>(q, s). work out n q) (out p))"

definition acyclic_by :: "(nat \<Rightarrow> nat) \<Rightarrow> (nat \<Rightarrow> (nat \<times> nat) list) \<Rightarrow> bool" where
  "acyclic_by rank out \<longleftrightarrow> (\<forall>p. \<forall>x\<in>set (out p). rank (fst x) < rank p)"

lemma work_stable: "acyclic_by rank out \<Longrightarrow> rank p < n \<Longrightarrow> rank p < m \<Longrightarrow> work out n p = work out m p"
proof (induction "rank p" arbitrary: p n m rule: less_induct)
  case less
  obtain n' where n: "n = Suc n'" using less.prems(2) by (cases n) simp_all
  obtain m' where m: "m = Suc m'" using less.prems(3) by (cases m) simp_all
  note nm = n m
  have "map (\<lambda>(q, s). work out n' q) (out p) = map (\<lambda>(q, s). work out m' q) (out p)"
  proof (rule map_cong)
    fix x assume x: "x \<in> set (out p)"
    then have r: "rank (fst x) < rank p" using less.prems(1) by (simp add: acyclic_by_def)
    then have "work out n' (fst x) = work out m' (fst x)"
      by (rule less.hyps [OF _ less.prems(1)]) (use r less.prems(2,3) nm in simp_all)
    then show "(\<lambda>(q, s). work out n' q) x = (\<lambda>(q, s). work out m' q) x"
      by (cases x) (simp del: work.simps)
  qed simp
  then show ?case by (simp only: nm work.simps)
qed

lemma work_step:
  assumes "acyclic_by rank out"
  shows "work out (Suc (rank p)) p = 3 + sum_list (map (\<lambda>(q, s). work out (Suc (rank q)) q) (out p))"
proof -
  have "map (\<lambda>(q, s). work out (rank p) q) (out p) = map (\<lambda>(q, s). work out (Suc (rank q)) q) (out p)"
  proof (rule map_cong)
    fix x assume x: "x \<in> set (out p)"
    then have "rank (fst x) < rank p" using assms by (simp add: acyclic_by_def)
    then have "work out (rank p) (fst x) = work out (Suc (rank (fst x))) (fst x)"
      by (intro work_stable [OF assms]) simp_all
    then show "(\<lambda>(q, s). work out (rank p) q) x = (\<lambda>(q, s). work out (Suc (rank q)) q) x"
      by (cases x) (simp del: work.simps)
  qed simp
  then show ?thesis by (simp only: work.simps(2) [of out "rank p" p])
qed

definition task_work :: "(nat \<Rightarrow> nat) \<Rightarrow> (nat \<Rightarrow> (nat \<times> nat) list) \<Rightarrow> task \<Rightarrow> nat" where
  "task_work rank out tk = (case tk of
     SetInput p _ _ \<Rightarrow> work out (Suc (rank p)) p | OutputReady p _ \<Rightarrow> work out (Suc (rank p)) p - 2 | _ \<Rightarrow> 1)"

lemma flow_step:
  assumes "exec engine net tk = Inr (net', new)" "flow_task tk" "acyclic_by rank (\<lambda>p. outputs (out_pin net p))"
  defines "out \<equiv> \<lambda>p. outputs (out_pin net p)"
  shows "(\<forall>t\<in>set new. flow_task t) \<and> (\<lambda>p. outputs (out_pin net' p)) = out
    \<and> sum_list (map (task_work rank out) new) < task_work rank out tk"
proof (cases tk)
  case (SetInput p slot pkt)
  define W where "W = work out (Suc (rank p)) p"
  have "3 \<le> W" by (simp add: W_def)
  have tw: "task_work rank out (SetInput p slot pkt) = W" "task_work rank out (OutputReady p x) = W - 2"
    "task_work rank out (EraseInput p t) = 1" for x t
    by (simp_all add: task_work_def W_def del: work.simps)
  have new: "out_pin net' = out_pin net \<and> (new = [] \<or> (\<exists>t. new = [EraseInput p t])
      \<or> (\<exists>x t. new = [OutputReady p x, EraseInput p t]))"
    using assms(1) SetInput
    by (auto simp: exec_def setInput_def outcome_simps Let_def put_in_def
        split: prod.splits option.splits if_splits)
  then show ?thesis
    using \<open>3 \<le> W\<close> by (auto simp: SetInput tw flow_task_def out_def [symmetric])
next
  case (OutputReady p pkt)
  have w: "sum_list (map (task_work rank out) (map (\<lambda>(q, slot). SetInput q slot pkt) (out p))) + 3
      = work out (Suc (rank p)) p"
    using work_step [OF assms(3), of p] by (simp add: out_def task_work_def comp_def case_prod_unfold del: work.simps)
  with assms(1) OutputReady show ?thesis
    by (auto simp: exec_def onOutputReady_def deliverOuput_def put_out_def out_def flow_task_def
        task_work_def [of _ _ "OutputReady p pkt"] omap_def outcome_simps fun_eq_iff
        split: option.splits if_splits simp del: work.simps map_map)
next
  case (EraseInput p t)
  with assms(1) show ?thesis by (auto simp: exec_def put_in_def out_def task_work_def)
qed (use assms(2) in \<open>simp_all add: flow_task_def\<close>)

text \<open>C33: In a graph without cycles the flow of packets ends: whatever the engines do, working off
  any packets on their way returns, with a new state of the graph or with an exception.\<close>

theorem flow_terminates:
  assumes "acyclic_by rank (\<lambda>p. outputs (out_pin net p))" "\<forall>tk\<in>set stack. flow_task tk"
  shows "\<exists>r. run engine net stack = Some r"
proof -
  define out where "out = (\<lambda>p. outputs (out_pin net p))"
  have "acyclic_by rank out" using assms(1) by (simp add: out_def)
  then have "(\<lambda>p. outputs (out_pin net p)) = out \<Longrightarrow> \<forall>tk\<in>set stack. flow_task tk \<Longrightarrow> ?thesis"
  proof (induction "sum_list (map (task_work rank out) stack)" arbitrary: net stack rule: less_induct)
    case less
    show ?case
    proof (cases stack)
      case (Cons tk rest)
      show ?thesis
      proof (cases "exec engine net tk")
        case (Inr x)
        obtain net' new where x: "exec engine net tk = Inr (net', new)" using Inr by (cases x) simp
        have tk: "flow_task tk" using less.prems Cons by simp
        from flow_step [OF x tk, of rank] less.prems
        have "\<forall>t\<in>set new. flow_task t" "(\<lambda>p. outputs (out_pin net' p)) = out"
          "sum_list (map (task_work rank out) new) < task_work rank out tk" by auto
        then have "\<exists>r. run engine net' (new @ rest) = Some r"
          using less.prems Cons by (intro less.hyps) auto
        then show ?thesis using Cons x by (subst run.simps) simp
      qed (use Cons in \<open>subst run.simps, simp\<close>)
    qed (subst run.simps, simp)
  qed
  then show ?thesis using assms(2) out_def by simp
qed

theorem flow_terminates_witness: "\<exists>r. run demo_engine demo_net [OutputReady 0 (Some (demo_packet 5))] = Some r"
  by (rule flow_terminates [where rank = "\<lambda>p. if p = 0 then 1 else 0"])
    (simp_all add: acyclic_by_def demo_net_def newOutputPin_def flow_task_def)

end
