(* ===== verification/Slices.thy ===== *)
theory Slices
  imports Prelude
begin

text \<open>
  The loop shape all connectors share (a counter \<open>i\<close> over a mask and a counter \<open>j\<close> over the
  connector, which holds an entry for each masked position) and the arrays it writes, described
  as patches: what a loop leaves at each position of a slice, or that it leaves it alone.
\<close>

section \<open>The loop over a mask\<close>

text \<open>\<open>for (i=0, j=0; i<mask.size(); i++) if (mask[i]) {body; j++} else {other}\<close>; with \<open>both\<close> the
  counter \<open>j\<close> is advanced on the other branch as well.\<close>

definition masked_loop ::
  "bool \<Rightarrow> bool list \<Rightarrow> int list \<Rightarrow> (nat \<Rightarrow> int \<Rightarrow> 's \<Rightarrow> 's outcome) \<Rightarrow> (nat \<Rightarrow> 's \<Rightarrow> 's outcome)
     \<Rightarrow> 's \<Rightarrow> 's outcome" where
  "masked_loop both msk connector body other s =
     omap snd (ofold (\<lambda>i (j, s).
         if msk ! i then obind (arr_get connector j) (\<lambda>c. omap (\<lambda>s. (j + 1, s)) (body i c s))
         else omap (\<lambda>s. (if both then j + 1 else j, s)) (other i s))
       [0..<length msk] (0, s))"

fun expand :: "bool list \<Rightarrow> 'a list \<Rightarrow> 'a option list" where
  "expand [] cs = []"
| "expand (True # m) [] = None # expand m []"
| "expand (True # m) (c # cs) = Some c # expand m cs"
| "expand (False # m) cs = None # expand m cs"

definition wanted :: "bool list \<Rightarrow> nat" where
  "wanted msk = length (filter id msk)"

lemma wanted_simps [simp]: "wanted [] = 0" "wanted (b # m) = (if b then Suc (wanted m) else wanted m)"
  by (simp_all add: wanted_def)

lemma length_expand [simp]: "length (expand m cs) = length m"
  by (induction m cs rule: expand.induct) simp_all

lemma arr_get_nth: "0 \<le> k \<Longrightarrow> k < int (length xs) \<Longrightarrow> arr_get xs k = Inr (xs ! nat k)"
  by (simp add: arr_get_def)

lemma masked_loop_expand:
  assumes "wanted msk \<le> length connector"
  shows "masked_loop False msk connector body other s =
    ofold (\<lambda>(i, c) s. case c of None \<Rightarrow> other i s | Some k \<Rightarrow> body i k s)
      (zip [0..<length msk] (expand msk connector)) s"
proof -
  let ?F = "\<lambda>m i (j, s). if m ! i then obind (arr_get connector j) (\<lambda>c. omap (\<lambda>s. (j + 1, s)) (body i c s))
         else omap (\<lambda>s. (if False then j + 1 else j, s)) (other i s)"
  let ?G = "\<lambda>(i, c) s. case c of None \<Rightarrow> other i s | Some k \<Rightarrow> body i k s"
  have "omap snd (ofold (?F (pre @ m)) [length pre..<length pre + length m] (int n, s))
      = ofold ?G (zip [length pre..<length pre + length m] (expand m (drop n connector))) s"
    if "n + wanted m \<le> length connector" for m pre n s
    using that
  proof (induction m arbitrary: pre n s)
    case (Cons b m)
    have upt: "[length pre..<length pre + length (b # m)] = length pre # [length (pre @ [b])..<length (pre @ [b]) + length m]"
      by (simp del: upt_Suc add: upt_conv_Cons)
    show ?case
    proof (cases b)
      case True
      then have n: "n < length connector" "Suc n + wanted m \<le> length connector" using Cons.prems by simp_all
      then have d: "drop n connector = connector ! n # drop (Suc n) connector" by (simp add: Cons_nth_drop_Suc)
      have ih: "omap snd (ofold (?F ((pre @ [b]) @ m)) [length (pre @ [b])..<length (pre @ [b]) + length m] (int (Suc n), s'))
          = ofold ?G (zip [length (pre @ [b])..<length (pre @ [b]) + length m] (expand m (drop (Suc n) connector))) s'" for s'
        by (rule Cons.IH [OF n(2)])
      have j: "int n + 1 = int (Suc n)" by simp
      show ?thesis
        unfolding upt using True n ih
        by (cases "body (length pre) (connector ! n) s") (simp_all add: arr_get_nth d j del: of_nat_Suc)
    next
      case False
      then have n: "n + wanted m \<le> length connector" using Cons.prems by simp
      have ih: "omap snd (ofold (?F ((pre @ [b]) @ m)) [length (pre @ [b])..<length (pre @ [b]) + length m] (int n, s'))
          = ofold ?G (zip [length (pre @ [b])..<length (pre @ [b]) + length m] (expand m (drop n connector))) s'" for s'
        by (rule Cons.IH [OF n])
      show ?thesis
        unfolding upt using False ih by (cases "other (length pre) s") simp_all
    qed
  qed simp
  from this [of 0 msk "[]" s] assms show ?thesis by (simp add: masked_loop_def)
qed

section \<open>Patches\<close>

definition patch :: "nat \<Rightarrow> 'a option list \<Rightarrow> 'a list \<Rightarrow> 'a list" where
  "patch off os out = map (\<lambda>p. if off \<le> p \<and> p < off + length os
       then (case os ! (p - off) of None \<Rightarrow> out ! p | Some x \<Rightarrow> x) else out ! p) [0..<length out]"

lemma length_patch [simp]: "length (patch off os out) = length out"
  by (simp add: patch_def)

lemma nth_patch:
  "p < length out \<Longrightarrow> patch off os out ! p = (if off \<le> p \<and> p < off + length os
     then (case os ! (p - off) of None \<Rightarrow> out ! p | Some x \<Rightarrow> x) else out ! p)"
  unfolding patch_def by (subst nth_map) (simp_all split: option.split)

lemma patch_Nil [simp]: "patch off [] out = out"
  by (rule nth_equalityI) (auto simp: nth_patch)

lemma patch_None [simp]: "patch off (replicate n None) out = out"
  by (rule nth_equalityI) (auto simp: nth_patch)

lemma patch_append: "patch off (xs @ ys) out = patch (off + length xs) ys (patch off xs out)"
  by (rule nth_equalityI) (auto simp: nth_patch nth_append split: option.split)

lemma arr_set_patch: "p < length out \<Longrightarrow> arr_set out (int p) x = Inr (patch p [Some x] out)"
  by (auto simp: arr_set_def intro!: nth_equalityI simp: nth_patch nth_list_update)

lemma patch_all: "length os = length out \<Longrightarrow>
   patch 0 os out = map (\<lambda>(x, y). case x of None \<Rightarrow> y | Some z \<Rightarrow> z) (zip os out)"
  by (rule nth_equalityI) (simp_all add: nth_patch)

text \<open>A loop whose turns write one slice after the other.\<close>

lemma ofold_slices:
  assumes "\<And>i c out. (i, c) \<in> set (zip [n..<n + length cs] cs) \<Longrightarrow> length out = N \<Longrightarrow>
      f (i, c) out = Inr (patch (off + i * D) (g c) out)" "\<And>c. c \<in> set cs \<Longrightarrow> length (g c) = D"
    and "length out = N"
  shows "ofold f (zip [n..<n + length cs] cs) out = Inr (patch (off + n * D) (concat (map g cs)) out)"
  using assms
proof (induction cs arbitrary: n out)
  case (Cons c cs)
  have upt: "[n..<n + length (c # cs)] = n # [Suc n..<Suc n + length cs]"
    by (simp del: upt_Suc add: upt_conv_Cons)
  have "f (n, c) out = Inr (patch (off + n * D) (g c) out)"
    by (rule Cons.prems(1)) (use Cons.prems(3) in \<open>simp_all only: upt zip_Cons_Cons list.set_intros\<close>)
  moreover have "ofold f (zip [Suc n..<Suc n + length cs] cs) (patch (off + n * D) (g c) out)
      = Inr (patch (off + Suc n * D) (concat (map g cs)) (patch (off + n * D) (g c) out))"
  proof (rule Cons.IH)
    fix i d out' assume "(i, d) \<in> set (zip [Suc n..<Suc n + length cs] cs)" "length (out' :: 'b list) = N"
    then show "f (i, d) out' = Inr (patch (off + i * D) (g d) out')"
      by (intro Cons.prems(1)) (simp_all only: upt zip_Cons_Cons list.set insert_iff simp_thms)
  qed (use Cons.prems in simp_all)
  moreover have "length (g c) = D" using Cons.prems(2) by simp
  moreover have "off + n * D + D = off + Suc n * D" by simp
  ultimately show ?case
    unfolding upt by (simp only: zip_Cons_Cons ofold.simps obind.simps list.map concat.simps patch_append)
qed simp

lemma length_zip_expand: "(i, c) \<in> set (zip [0..<length m] (expand m cs)) \<Longrightarrow>
    i < length m \<and> c = expand m cs ! i \<and> c \<in> set (expand m cs)"
  by (auto simp: set_zip)

lemma connector_loop:
  assumes "wanted m \<le> length cs"
    and "\<And>i k out. i < length m \<Longrightarrow> Some k \<in> set (expand m cs) \<Longrightarrow> length out = N \<Longrightarrow>
        body i k out = Inr (patch (off + i * D) (g (Some k)) out)"
    and "\<And>i out. i < length m \<Longrightarrow> None \<in> set (expand m cs) \<Longrightarrow> length out = N \<Longrightarrow>
        other i out = Inr (patch (off + i * D) (g None) out)"
    and "\<And>c. c \<in> set (expand m cs) \<Longrightarrow> length (g c) = D" "length out = N"
  shows "masked_loop False m cs body other out = Inr (patch off (concat (map g (expand m cs))) out)"
proof -
  let ?f = "\<lambda>(i, c) s. case c of None \<Rightarrow> other i s | Some k \<Rightarrow> body i k s"
  have "ofold ?f (zip [0..<0 + length (expand m cs)] (expand m cs)) out
      = Inr (patch (off + 0 * D) (concat (map g (expand m cs))) out)"
  proof (rule ofold_slices [where N = N])
    fix i c out assume z: "(i, c) \<in> set (zip [0..<0 + length (expand m cs)] (expand m cs))" "length (out :: 'a list) = N"
    then have "i < length m" "c \<in> set (expand m cs)" using length_zip_expand by fastforce+
    with z(2) show "?f (i, c) out = Inr (patch (off + i * D) (g c) out)"
      by (cases c) (simp_all add: assms(2,3))
  qed (use assms in simp_all)
  then show ?thesis by (simp add: masked_loop_expand [OF assms(1)])
qed

section \<open>Products of levels\<close>

text \<open>A level sends the positions of a destination dimension to positions of a source dimension
  of a given size; the product of levels sends cells to cells of arrays in row-major order.\<close>

type_synonym level = "nat option list \<times> nat"

fun tensor :: "level list \<Rightarrow> nat option list" where
  "tensor [] = [Some 0]"
| "tensor ((es, n) # ls) = concat (map (\<lambda>e. case e of
       None \<Rightarrow> replicate (length (tensor ls)) None
     | Some k \<Rightarrow> map (map_option (\<lambda>q. k * prod_list (map snd ls) + q)) (tensor ls)) es)"

definition level_ok :: "level \<Rightarrow> bool" where
  "level_ok l = (\<forall>k. Some k \<in> set (fst l) \<longrightarrow> k < snd l)"

text \<open>The position of a cell with the given coordinates.\<close>

fun flat :: "nat list \<Rightarrow> nat list \<Rightarrow> nat" where
  "flat (n # ns) (i # is) = i * prod_list ns + flat ns is"
| "flat ns is = 0"

definition in_box :: "nat list \<Rightarrow> nat list \<Rightarrow> bool" where
  "in_box = list_all2 (\<lambda>n i. i < n)"

lemma length_tensor: "length (tensor ls) = prod_list (map (length \<circ> fst) ls)"
proof (induction ls)
  case (Cons l ls)
  define F where "F = (\<lambda>es. concat (map (\<lambda>e. case e of None \<Rightarrow> replicate (length (tensor ls)) None
     | Some k \<Rightarrow> map (map_option (\<lambda>q. k * prod_list (map snd ls) + q)) (tensor ls)) es))"
  have "length (F es) = length es * length (tensor ls)" for es
    by (induction es) (simp_all add: F_def split: option.split)
  moreover have "tensor (l # ls) = F (fst l)" by (cases l) (simp add: F_def)
  ultimately show ?case using Cons.IH by simp
qed simp

lemma flat_less: "in_box ns is \<Longrightarrow> flat ns is < prod_list ns"
proof (induction ns arbitrary: "is")
  case (Cons n ns)
  then obtain i js where i: "is = i # js" "i < n" "in_box ns js" by (auto simp: in_box_def list_all2_Cons1)
  have "i * prod_list ns + flat ns js < Suc i * prod_list ns" using Cons.IH [OF i(3)] by simp
  also have "\<dots> \<le> n * prod_list ns" using i(2) by (intro mult_le_mono1) simp
  finally show ?case by (simp add: i(1))
qed (simp add: in_box_def)

lemma tensor_less:
  "\<forall>l\<in>set ls. level_ok l \<Longrightarrow> Some q \<in> set (tensor ls) \<Longrightarrow> q < prod_list (map snd ls)"
proof (induction ls arbitrary: q)
  case (Cons l ls)
  obtain es n where l: "l = (es, n)" by (cases l)
  define F where "F = (\<lambda>e. case e of None \<Rightarrow> replicate (length (tensor ls)) None
     | Some k \<Rightarrow> map (map_option (\<lambda>q. k * prod_list (map snd ls) + q)) (tensor ls))"
  have "tensor (l # ls) = concat (map F es)" by (simp add: l F_def)
  with Cons.prems(2) obtain e where e: "e \<in> set es" "Some q \<in> set (F e)" by auto
  obtain k where k': "e = Some k" using e(2) by (cases e) (auto simp: F_def)
  with e obtain r where k: "Some k \<in> set es" "Some r \<in> set (tensor ls)" "q = k * prod_list (map snd ls) + r"
    by (auto simp: F_def map_option_case split: option.splits)
  then have "r < prod_list (map snd ls)" "k < n" using Cons.IH [of r] Cons.prems(1) l by (auto simp: level_ok_def)
  then have "q < Suc k * prod_list (map snd ls)" using k(3) by simp
  also have "\<dots> \<le> n * prod_list (map snd ls)" using \<open>k < n\<close> by (intro mult_le_mono1) simp
  finally show ?case by (simp add: l)
qed simp

lemma nth_concat_equal:
  assumes "\<forall>x\<in>set xss. length x = D" "i < length xss" "q < D"
  shows "concat xss ! (i * D + q) = xss ! i ! q"
  using assms
proof (induction xss arbitrary: i)
  case (Cons x xss)
  show ?case
  proof (cases i)
    case 0
    with Cons.prems show ?thesis by (simp add: nth_append)
  next
    case (Suc j)
    then have "concat xss ! (j * D + q) = xss ! j ! q" using Cons.prems by (intro Cons.IH) auto
    with Suc Cons.prems show ?thesis by (simp add: nth_append)
  qed
qed simp

theorem tensor_nth:
  assumes "in_box (map (length \<circ> fst) ls) is"
  shows "tensor ls ! flat (map (length \<circ> fst) ls) is
    = (if \<exists>(l, i)\<in>set (zip ls is). fst l ! i = None then None
       else Some (flat (map snd ls) (map2 (\<lambda>l i. the (fst l ! i)) ls is)))"
  using assms
proof (induction ls arbitrary: "is")
  case (Cons l ls)
  obtain es n where l: "l = (es, n)" by (cases l)
  from Cons.prems obtain i js where i: "is = i # js" "i < length es" "in_box (map (length \<circ> fst) ls) js"
    by (auto simp: l in_box_def list_all2_Cons1 comp_def)
  define F where "F = (\<lambda>e. case e of
       None \<Rightarrow> replicate (length (tensor ls)) None
     | Some k \<Rightarrow> map (map_option (\<lambda>q. k * prod_list (map snd ls) + q)) (tensor ls))"
  have len: "length (F e) = prod_list (map (length \<circ> fst) ls)" for e
    by (simp add: F_def length_tensor split: option.split)
  have q: "flat (map (length \<circ> fst) ls) js < prod_list (map (length \<circ> fst) ls)" by (rule flat_less [OF i(3)])
  have "tensor ((es, n) # ls) ! flat (map (length \<circ> fst) ((es, n) # ls)) is
      = concat (map F es) ! (i * prod_list (map (length \<circ> fst) ls) + flat (map (length \<circ> fst) ls) js)"
    by (simp add: F_def i(1))
  also have "\<dots> = F (es ! i) ! flat (map (length \<circ> fst) ls) js"
    using i(2) q len by (subst nth_concat_equal) auto
  also have "\<dots> = (case es ! i of None \<Rightarrow> None | Some k \<Rightarrow>
      map_option (\<lambda>q. k * prod_list (map snd ls) + q) (tensor ls ! flat (map (length \<circ> fst) ls) js))"
    using q by (simp add: F_def length_tensor split: option.split)
  finally have eq: "tensor ((es, n) # ls) ! flat (map (length \<circ> fst) ((es, n) # ls)) is
      = (case es ! i of None \<Rightarrow> None | Some k \<Rightarrow>
          map_option (\<lambda>q. k * prod_list (map snd ls) + q) (tensor ls ! flat (map (length \<circ> fst) ls) js))" .
  show ?case
    unfolding l eq Cons.IH [OF i(3)] unfolding i(1) by (auto split: option.split)
qed (simp add: in_box_def)

end
