(* ===== verification/StdMap.thy ===== *)
theory StdMap
  imports Prelude
begin

text \<open>
  \<open>std::map\<close>: a list of pairs in increasing order of the keys, which is also the order in which
  the range loops of the code visit it.  The interface \<open>dictionary\<close> states what its clients rely
  on; \<open>std_put\<close> and \<open>map_of\<close> provide it.
\<close>

type_synonym ('k, 'v) std_map = "('k \<times> 'v) list"

text \<open>\<open>m[k] = v\<close>\<close>

fun std_put :: "'k::linorder \<Rightarrow> 'v \<Rightarrow> ('k, 'v) std_map \<Rightarrow> ('k, 'v) std_map" where
  "std_put k v [] = [(k, v)]"
| "std_put k v ((l, w) # m) = (if k < l then (k, v) # (l, w) # m
     else if k = l then (k, v) # m else (l, w) # std_put k v m)"

text \<open>Reading \<open>m[k]\<close>: an absent key yields (and inserts) the default value of the type.\<close>

definition std_at :: "'v \<Rightarrow> ('k, 'v) std_map \<Rightarrow> 'k \<Rightarrow> 'v" where
  "std_at d m k = (case map_of m k of None \<Rightarrow> d | Some v \<Rightarrow> v)"

definition in_order :: "('k::linorder, 'v) std_map \<Rightarrow> bool" where
  "in_order m = (sorted (map fst m) \<and> distinct (map fst m))"

lemma map_of_std_put: "map_of (std_put k v m) = (map_of m)(k \<mapsto> v)"
  by (induction m) (auto simp: fun_eq_iff)

lemma set_fst_std_put: "fst ` set (std_put k v m) = insert k (fst ` set m)"
proof -
  have "dom (map_of (std_put k v m)) = insert k (dom (map_of m))" by (simp add: map_of_std_put)
  then show ?thesis by (simp add: dom_map_of_conv_image_fst)
qed

lemma in_order_Nil [simp]: "in_order []"
  by (simp add: in_order_def)

lemma in_order_std_put [intro]: "in_order m \<Longrightarrow> in_order (std_put k v m)"
proof (induction m)
  case (Cons e m)
  obtain l w where e: "e = (l, w)" by (cases e)
  have m: "in_order m" "\<forall>x\<in>fst ` set m. l < x" using Cons.prems e by (auto simp: in_order_def image_iff less_le)
  then have s: "sorted (map fst (std_put k v m))" "distinct (map fst (std_put k v m))"
    using Cons.IH by (auto simp: in_order_def)
  have f: "\<forall>x\<in>fst ` set (std_put k v m). \<not> k \<le> l \<longrightarrow> l < x"
    using m(2) by (simp only: set_fst_std_put) auto
  show ?case
  proof (cases "k < l \<or> k = l")
    case True
    have "\<forall>x\<in>fst ` set m. k < x" using True m(2) by (auto intro: less_trans)
    then have "\<forall>x\<in>set m. k < fst x" by simp
    with True Cons.prems e show ?thesis by (force simp: in_order_def)
  next
    case False
    then have "\<forall>x\<in>set (std_put k v m). l < fst x" using f by auto
    then have "\<forall>x\<in>set (std_put k v m). l \<le> fst x" "l \<notin> fst ` set (std_put k v m)" by (auto simp: less_le)
    moreover have "std_put k v (e # m) = (l, w) # std_put k v m" using False e by simp
    ultimately show ?thesis using s by (simp add: in_order_def)
  qed
qed (simp add: in_order_def)

lemma find_append: "find P (xs @ ys) = (case find P xs of None \<Rightarrow> find P ys | Some x \<Rightarrow> Some x)"
  by (induction xs) simp_all

lemma find_SomeD: "find P xs = Some y \<Longrightarrow> y \<in> set xs \<and> P y"
  by (induction xs) (auto split: if_splits)

locale dictionary =
  fixes empty :: 'm and update :: "'k \<Rightarrow> 'v \<Rightarrow> 'm \<Rightarrow> 'm" and lookup :: "'m \<Rightarrow> 'k \<rightharpoonup> 'v"
  assumes lookup_empty: "lookup empty k = None"
    and lookup_update: "lookup (update k v m) l = (if k = l then Some v else lookup m l)"
begin

lemma lookup_fold:
  "lookup (fold (\<lambda>x. update (f x) (g x)) xs m) k
     = (case find (\<lambda>x. f x = k) (rev xs) of None \<Rightarrow> lookup m k | Some x \<Rightarrow> Some (g x))"
proof (induction xs arbitrary: m)
  case (Cons x xs)
  then show ?case
    by (cases "find (\<lambda>x. f x = k) (rev xs)") (simp_all add: find_append lookup_update)
qed simp

lemma lookup_fold_None:
  "lookup m k = None \<Longrightarrow> lookup (fold (\<lambda>x. update (f x) (g x)) xs m) k = None \<longleftrightarrow> k \<notin> f ` set xs"
  by (auto simp: lookup_fold find_None_iff image_iff split: option.split dest!: find_SomeD)

lemma lookup_fold_distinct:
  assumes "x \<in> set xs" "\<And>y. y \<in> set xs \<Longrightarrow> f y = f x \<Longrightarrow> g y = g x"
  shows "lookup (fold (\<lambda>x. update (f x) (g x)) xs m) (f x) = Some (g x)"
proof -
  obtain y where y: "find (\<lambda>y. f y = f x) (rev xs) = Some y"
    using assms(1) by (cases "find (\<lambda>y. f y = f x) (rev xs)") (auto simp: find_None_iff)
  then have "y \<in> set xs" "f y = f x" using find_SomeD [OF y] by simp_all
  with y assms(2) show ?thesis by (simp add: lookup_fold)
qed

end

interpretation std: dictionary "[]" std_put map_of
  by unfold_locales (auto simp: map_of_std_put)

text \<open>\<open>std::unordered_map\<close>, of which the code uses lookups only.\<close>

definition hash_put :: "'k \<Rightarrow> 'v \<Rightarrow> ('k \<rightharpoonup> 'v) \<Rightarrow> ('k \<rightharpoonup> 'v)" where
  "hash_put k v m = m(k \<mapsto> v)"

interpretation hash: dictionary Map.empty hash_put "\<lambda>m. m"
  by unfold_locales (auto simp: hash_put_def)

lemma fst_fold_std_put: "fst ` set (fold (\<lambda>x. std_put (f x) (g x)) xs m) = fst ` set m \<union> f ` set xs"
  by (induction xs arbitrary: m) (auto simp: set_fst_std_put)

lemma in_order_fold: "in_order m \<Longrightarrow> in_order (fold (\<lambda>x. std_put (f x) (g x)) xs m)"
  by (induction xs arbitrary: m) auto

text \<open>Building a map in the order of its keys.\<close>

lemma std_put_last: "\<forall>l\<in>fst ` set m. l < k \<Longrightarrow> std_put k v m = m @ [(k, v)]"
  by (induction m) force+

lemma in_order_Cons: "in_order ((k, v) # m) \<longleftrightarrow> in_order m \<and> (\<forall>l\<in>fst ` set m. k < l)"
  by (force simp: in_order_def less_le)

lemma fold_put_append:
  assumes "in_order m" "\<forall>k\<in>fst ` set m. \<forall>l\<in>fst ` set acc. l < k"
  shows "fold (\<lambda>(k, v). std_put k (f k v)) m acc = acc @ map (\<lambda>(k, v). (k, f k v)) m"
  using assms
proof (induction m arbitrary: acc)
  case (Cons e m)
  obtain k v where e: "e = (k, v)" by (cases e)
  have "std_put k (f k v) acc = acc @ [(k, f k v)]" using Cons.prems(2) e by (intro std_put_last) simp
  moreover have "\<forall>k'\<in>fst ` set m. \<forall>l\<in>fst ` set (acc @ [(k, f k v)]). l < k'"
    using Cons.prems by (auto simp: e in_order_Cons)
  ultimately show ?case using Cons.IH [of "acc @ [(k, f k v)]"] Cons.prems(1) by (simp add: e in_order_Cons)
qed simp

lemma fold_put_id: "in_order m \<Longrightarrow> fold (\<lambda>(k, v). std_put k (f k v)) m [] = map (\<lambda>(k, v). (k, f k v)) m"
  by (simp add: fold_put_append)

lemma fold_put_same: "in_order m \<Longrightarrow> fold (\<lambda>(k, v). std_put k v) m [] = m"
  using fold_put_id [of m "\<lambda>k v. v"] by simp

lemma map_of_map_snd: "map_of (map (\<lambda>(k, v). (k, f k v)) m) k = map_option (f k) (map_of m k)"
  by (induction m) auto

lemma std_at_map: "std_at d (map (\<lambda>(k, v). (k, f k v)) m) k = (case map_of m k of None \<Rightarrow> d | Some v \<Rightarrow> f k v)"
  by (simp add: std_at_def map_of_map_snd option.case_eq_if option.map_sel)

lemma in_order_map: "in_order m \<Longrightarrow> in_order (map (\<lambda>(k, v). (k, f k v)) m)"
  by (simp add: in_order_def case_prod_beta comp_def)

lemma in_order_map_of: "in_order m \<Longrightarrow> (k, v) \<in> set m \<Longrightarrow> map_of m k = Some v"
  by (simp add: in_order_def)

lemma fst_map_entry [simp]: "fst ` (\<lambda>(k, v). (k, f k v)) ` A = fst ` A"
  by force

text \<open>A loop over a map that builds another one from it, entry by entry.\<close>

lemma ofold_put_append:
  assumes "in_order m" "\<forall>k\<in>fst ` set m. \<forall>l\<in>fst ` set acc. l < k"
    and "\<And>k v acc. (k, v) \<in> set m \<Longrightarrow> \<forall>l\<in>fst ` set acc. l < k \<Longrightarrow> F (k, v) acc = Inr (std_put k (g k v) acc)"
  shows "ofold F m acc = Inr (acc @ map (\<lambda>(k, v). (k, g k v)) m)"
  using assms
proof (induction m arbitrary: acc)
  case (Cons e m)
  obtain k v where e: "e = (k, v)" by (cases e)
  have "F (k, v) acc = Inr (acc @ [(k, g k v)])"
    using Cons.prems(2) Cons.prems(3) [of k v acc] by (simp add: e std_put_last)
  moreover have "ofold F m (acc @ [(k, g k v)]) = Inr ((acc @ [(k, g k v)]) @ map (\<lambda>(k, v). (k, g k v)) m)"
  proof (rule Cons.IH)
    show "in_order m" "\<forall>k'\<in>fst ` set m. \<forall>l\<in>fst ` set (acc @ [(k, g k v)]). l < k'"
      using Cons.prems(1,2) by (auto simp: e in_order_Cons)
  qed (use Cons.prems(3) in simp)
  ultimately show ?case by (simp add: e)
qed simp

lemma ofold_put_id:
  assumes "in_order m"
    and "\<And>k v acc. (k, v) \<in> set m \<Longrightarrow> \<forall>l\<in>fst ` set acc. l < k \<Longrightarrow> F (k, v) acc = Inr (std_put k (g k v) acc)"
  shows "ofold F m [] = Inr (map (\<lambda>(k, v). (k, g k v)) m)"
  using ofold_put_append [OF assms(1), of "[]" F g] assms(2) by simp

lemma std_at_less: "\<forall>l\<in>fst ` set m. l < k \<Longrightarrow> std_at d m (k::'k::linorder) = d"
proof -
  assume "\<forall>l\<in>fst ` set m. l < k"
  then have "k \<notin> fst ` set m" by auto
  then show ?thesis by (simp add: std_at_def map_of_eq_None_iff [THEN iffD2])
qed

end
