(* ===== verification/Views.thy ===== *)
theory Views
  imports StdMap
begin

text \<open>
  Elements and their views (\<open>distribution/element.*\<close>, \<open>distributed_view.*\<close>, \<open>local_view.*\<close>).  An
  element holds the global indices of its cells, a local element those of one process, a
  distributed element those of several ranks.  A view selects cells by a list of local positions,
  in which positions out of range stand for cells without data.

  The views of the code refer to the index arrays of their element, which are only written while
  the element is constructed; the model copies them into the view.  An array of new size has
  contents of its own (the parameter \<open>junk\<close>): blitz does not initialise it.  Sizes and
  global indices are natural numbers, of which the code uses the first \<open>2 ^ 64\<close>.
\<close>

datatype view_type = FULL | MODEL | WORKFLOW

definition fresh_array :: "(nat \<Rightarrow> 'a) \<Rightarrow> nat \<Rightarrow> 'a list" where
  "fresh_array junk n = map junk [0..<n]"

lemma fresh_array_simps [simp]: "length (fresh_array junk n) = n" "i < n \<Longrightarrow> fresh_array junk n ! i = junk i"
  by (simp_all add: fresh_array_def)

section \<open>Views\<close>

record distributed_view =
  dv_index :: "(int, int list) std_map"
  dv_size :: "(int, int) std_map"
  dv_globalIndex :: "(int, nat list) std_map"
  dv_localSize :: "(int, int) std_map"
  dv_globalSize :: nat

record local_view =
  lv_index :: "int list"
  lv_size :: int
  lv_globalIndex :: "nat list"
  lv_localSize :: int
  lv_globalSize :: nat
  lv_localRank :: int

record distributed_element =
  de_globalIndex :: "(int, nat list) std_map"
  de_localSize :: "(int, int) std_map"
  de_globalSize :: nat
  de_views :: "view_type \<Rightarrow> distributed_view option"

record local_element =
  el_localRank :: int
  el_globalIndex :: "nat list"
  el_localSize :: int
  el_globalSize :: nat
  el_views :: "view_type \<Rightarrow> local_view option"

definition newDistributedView :: "distributed_element \<Rightarrow> (int, int list) std_map \<Rightarrow> distributed_view" where
  "newDistributedView parent indexView =
    \<lparr>dv_index = fold (\<lambda>(rank, ix). std_put rank ix) indexView [],
     dv_size = fold (\<lambda>(rank, ix). std_put rank (int (length ix))) indexView [],
     dv_globalIndex = de_globalIndex parent, dv_localSize = de_localSize parent,
     dv_globalSize = de_globalSize parent\<rparr>"

text \<open>The positions a mask selects, written to the front of an array that is then cut.\<close>

definition mask_index :: "(nat \<Rightarrow> int) \<Rightarrow> bool list \<Rightarrow> int list outcome" where
  "mask_index junk msk =
     omap (\<lambda>(pos, index). take (nat pos) index)
      (ofold (\<lambda>i (pos, index). if msk ! i then omap (\<lambda>index. (pos + 1, index)) (arr_set index pos (int i))
                               else Inr (pos, index))
        [0..<length msk] (0, fresh_array junk (length msk)))"

definition newDistributedViewMask ::
  "(nat \<Rightarrow> int) \<Rightarrow> distributed_element \<Rightarrow> (int, bool list) std_map \<Rightarrow> distributed_view outcome" where
  "newDistributedViewMask junk parent maskView =
     ofold (\<lambda>(rank, msk) v. omap (\<lambda>ix. v\<lparr>dv_index := std_put rank ix (dv_index v),
                                          dv_size := std_put rank (int (length ix)) (dv_size v)\<rparr>)
                              (mask_index junk msk))
       maskView (newDistributedView parent [])"

definition newLocalView :: "local_element \<Rightarrow> int list \<Rightarrow> local_view" where
  "newLocalView parent indexView =
    \<lparr>lv_index = indexView, lv_size = int (length indexView), lv_globalIndex = el_globalIndex parent,
     lv_localSize = el_localSize parent, lv_globalSize = el_globalSize parent,
     lv_localRank = el_localRank parent\<rparr>"

definition newLocalViewMask :: "(nat \<Rightarrow> int) \<Rightarrow> local_element \<Rightarrow> bool list \<Rightarrow> local_view outcome" where
  "newLocalViewMask junk parent maskView = omap (newLocalView parent) (mask_index junk maskView)"

text \<open>The global indices of a view, for one rank.\<close>

definition index_view ::
  "(nat \<Rightarrow> nat) \<Rightarrow> int \<Rightarrow> int list \<Rightarrow> int \<Rightarrow> nat list \<Rightarrow> nat list outcome" where
  "index_view junk sz index localSize globalIndex =
     omap (\<lambda>(pos, gv). take (nat pos) gv)
      (ofold (\<lambda>i (pos, gv). obind (arr_get index (int i)) (\<lambda>k.
            if 0 \<le> k \<and> k < localSize
            then obind (arr_get globalIndex k) (\<lambda>g. omap (\<lambda>gv. (pos + 1, gv)) (arr_set gv (int i) g))
            else Inr (pos, gv)))
        [0..<nat sz] (0::int, fresh_array junk (nat sz)))"

definition lv_getGlobalIndexView :: "(nat \<Rightarrow> nat) \<Rightarrow> local_view \<Rightarrow> nat list outcome" where
  "lv_getGlobalIndexView junk v =
     index_view junk (lv_size v) (lv_index v) (lv_localSize v) (lv_globalIndex v)"

definition dv_getGlobalIndexView ::
  "(nat \<Rightarrow> nat) \<Rightarrow> distributed_view \<Rightarrow> (int, nat list) std_map \<Rightarrow> (int, nat list) std_map outcome" where
  "dv_getGlobalIndexView junk v globalIndexView =
     ofold (\<lambda>(rank, globalIndex) out.
         omap (\<lambda>gv. std_put rank gv out)
           (index_view junk (std_at 0 (dv_size v) rank) (std_at [] (dv_index v) rank)
              (std_at 0 (dv_localSize v) rank) globalIndex))
       (dv_globalIndex v) globalIndexView"

text \<open>The global indices of a grid, one view per element, the outermost element first; each view
  comes with the size of the slices below it.\<close>

fun lv_getGlobalIndex :: "nat list \<Rightarrow> nat \<Rightarrow> (local_view \<times> nat) list \<Rightarrow> nat list outcome" where
  "lv_getGlobalIndex acc sliceIndex [] = Inr acc"
| "lv_getGlobalIndex acc sliceIndex ((v, sliceSize) # views) =
     ofold (\<lambda>i acc. obind (arr_get (lv_index v) (int i)) (\<lambda>k.
         if 0 \<le> k \<and> k < lv_localSize v
         then obind (arr_get (lv_globalIndex v) k) (\<lambda>g.
                if views = [] then Inr (acc @ [sliceIndex + g])
                else lv_getGlobalIndex acc (sliceIndex + g * sliceSize) views)
         else Inr acc))
       [0..<nat (lv_size v)] acc"

fun dv_getGlobalIndex :: "int \<Rightarrow> nat list \<Rightarrow> nat \<Rightarrow> (distributed_view \<times> nat) list \<Rightarrow> nat list outcome" where
  "dv_getGlobalIndex rank acc sliceIndex [] = Inr acc"
| "dv_getGlobalIndex rank acc sliceIndex ((v, sliceSize) # views) =
    (let globalInd = std_at [] (dv_globalIndex v) rank; index = std_at [] (dv_index v) rank
     in ofold (\<lambda>i acc. let k = index ! i in
           if 0 \<le> k \<and> k < int (length globalInd)
           then (if views = [] then Inr (acc @ [sliceIndex + globalInd ! nat k])
                 else dv_getGlobalIndex rank acc (sliceIndex + globalInd ! nat k * sliceSize) views)
           else Inr acc)
         [0..<length index] acc)"

section \<open>Elements\<close>

definition newDistributedElement :: "nat \<Rightarrow> (int, nat list) std_map \<Rightarrow> distributed_element" where
  "newDistributedElement globalSize globalIndex =
    \<lparr>de_globalIndex = fold (\<lambda>(rank, ix). std_put rank ix) globalIndex [],
     de_localSize = fold (\<lambda>(rank, ix). std_put rank (int (length ix))) globalIndex [],
     de_globalSize = globalSize, de_views = (\<lambda>_. None)\<rparr>"

definition de_addView :: "view_type \<Rightarrow> (int, int list) std_map \<Rightarrow> distributed_element \<Rightarrow> distributed_element" where
  "de_addView ty indexView el = el\<lparr>de_views := (de_views el)(ty \<mapsto> newDistributedView el indexView)\<rparr>"

definition de_addViewMask ::
  "(nat \<Rightarrow> int) \<Rightarrow> view_type \<Rightarrow> (int, bool list) std_map \<Rightarrow> distributed_element \<Rightarrow> distributed_element outcome" where
  "de_addViewMask junk ty maskView el =
     omap (\<lambda>v. el\<lparr>de_views := (de_views el)(ty \<mapsto> v)\<rparr>) (newDistributedViewMask junk el maskView)"

definition de_addFullView :: "distributed_element \<Rightarrow> distributed_element" where
  "de_addFullView el =
    (if de_views el FULL \<noteq> None then el
     else de_addView FULL
       (fold (\<lambda>(rank, ix). std_put rank (map int [0..<length ix])) (de_globalIndex el) []) el)"

definition de_getView :: "view_type \<Rightarrow> distributed_element \<Rightarrow> distributed_view outcome" where
  "de_getView ty el = (case de_views el ty of
     None \<Rightarrow> Inl (CException ''View is not initialized'') | Some v \<Rightarrow> Inr v)"

text \<open>What a sub event carries: the rank of the sender, the global size and the indices.\<close>

type_synonym index_message = "int \<times> nat \<times> nat list"

definition de_recvFromClient :: "index_message list \<Rightarrow> distributed_element \<Rightarrow> distributed_element" where
  "de_recvFromClient subEvents el =
    (let el = fold (\<lambda>(rank, globalSize, ix) el. el\<lparr>de_globalSize := globalSize,
                      de_globalIndex := std_put rank ix (de_globalIndex el)\<rparr>)
                subEvents (el\<lparr>de_globalIndex := []\<rparr>)
     in el\<lparr>de_localSize := fold (\<lambda>(rank, ix). std_put rank (int (length ix))) (de_globalIndex el) []\<rparr>)"

definition newLocalElement :: "int \<Rightarrow> nat \<Rightarrow> nat list \<Rightarrow> local_element" where
  "newLocalElement localRank globalSize globalIndex =
    \<lparr>el_localRank = localRank, el_globalIndex = globalIndex, el_localSize = int (length globalIndex),
     el_globalSize = globalSize, el_views = (\<lambda>_. None)\<rparr>"

definition el_recvFromClient :: "index_message list \<Rightarrow> local_element \<Rightarrow> local_element" where
  "el_recvFromClient subEvents el =
    (let (globalSize, indices) = fold (\<lambda>(rank, gs, indGlo) (globalSize, indices). (gs, indices \<union> set indGlo))
                                   subEvents (el_globalSize el, {})
     in el\<lparr>el_globalSize := globalSize, el_localSize := int (card indices),
           el_globalIndex := sorted_list_of_set indices\<rparr>)"

definition el_addView :: "view_type \<Rightarrow> int list \<Rightarrow> local_element \<Rightarrow> local_element" where
  "el_addView ty indexView el = el\<lparr>el_views := (el_views el)(ty \<mapsto> newLocalView el indexView)\<rparr>"

definition el_addViewMask :: "(nat \<Rightarrow> int) \<Rightarrow> view_type \<Rightarrow> bool list \<Rightarrow> local_element \<Rightarrow> local_element outcome" where
  "el_addViewMask junk ty maskView el =
     omap (\<lambda>v. el\<lparr>el_views := (el_views el)(ty \<mapsto> v)\<rparr>) (newLocalViewMask junk el maskView)"

definition el_addFullView :: "local_element \<Rightarrow> local_element" where
  "el_addFullView el =
    (if el_views el FULL \<noteq> None then el else el_addView FULL (map int [0..<nat (el_localSize el)]) el)"

definition el_getView :: "view_type \<Rightarrow> local_element \<Rightarrow> local_view outcome" where
  "el_getView ty el = (case el_views el ty of
     None \<Rightarrow> Inl (CException ''View is not initialized'') | Some v \<Rightarrow> Inr v)"

end
