(* ===== verification/ViewProps.thy ===== *)
theory ViewProps
  imports Views
begin

text \<open>
  What a view shows: at each of its positions a global index, or nothing where its local position
  is out of range.  The loops over views are described by this list of cells.
\<close>

definition cells :: "int list \<Rightarrow> nat list \<Rightarrow> nat option list" where
  "cells index gs = map (\<lambda>k. if 0 \<le> k \<and> k < int (length gs) then Some (gs ! nat k) else None) index"

definition lv_cells :: "local_view \<Rightarrow> nat option list" where
  "lv_cells v = cells (lv_index v) (lv_globalIndex v)"

definition lv_ok :: "local_view \<Rightarrow> bool" where
  "lv_ok v = (lv_size v = int (length (lv_index v)) \<and> lv_localSize v = int (length (lv_globalIndex v)))"

definition el_ok :: "local_element \<Rightarrow> bool" where
  "el_ok el = (el_localSize el = int (length (el_globalIndex el))
     \<and> (\<forall>ty v. el_views el ty = Some v \<longrightarrow> lv_ok v \<and> lv_globalIndex v = el_globalIndex el))"

definition shown :: "'a option list \<Rightarrow> 'a list" where
  "shown cs = map the (filter (\<lambda>c. c \<noteq> None) cs)"

lemma shown_simps [simp]: "shown [] = []" "shown (c # cs) = (case c of None \<Rightarrow> shown cs | Some x \<Rightarrow> x # shown cs)"
  by (auto simp: shown_def split: option.split)

lemma shown_append [simp]: "shown (xs @ ys) = shown xs @ shown ys"
  by (simp add: shown_def)

lemma set_shown: "set (shown cs) = {x. Some x \<in> set cs}"
  by (force simp: shown_def)

lemma concat_shown: "concat (map (case_option [] f) cs) = concat (map f (shown cs))"
  by (induction cs) (auto split: option.split)

lemma length_shown_le: "length (shown cs) \<le> length cs"
  by (simp add: shown_def)

lemma length_cells [simp]: "length (cells index gs) = length index"
  by (simp add: cells_def)

lemma cells_nth: "i < length index \<Longrightarrow> cells index gs ! i
    = (let k = index ! i in if 0 \<le> k \<and> k < int (length gs) then Some (gs ! nat k) else None)"
  by (simp add: cells_def Let_def)

section \<open>The loops\<close>

lemma mask_index_eq: "mask_index junk m = Inr (map int (filter (\<lambda>i. m ! i) [0..<length m]))"
proof -
  let ?f = "\<lambda>i (pos, index). if m ! i then omap (\<lambda>index. (pos + 1, index)) (arr_set index pos (int i)) else Inr (pos, index)"
  let ?sel = "\<lambda>n. filter (\<lambda>i. m ! i) [0..<n]"
  let ?P = "\<lambda>n (pos, index). pos = int (length (?sel n)) \<and> length index = length m
      \<and> take (length (?sel n)) index = map int (?sel n)"
  have "\<exists>t. ofold ?f [0..<length m] (0, fresh_array junk (length m)) = Inr t \<and> ?P (length m) t"
  proof (rule ofold_upto [where P = ?P])
    fix i s
    assume i: "i < length m" and p: "?P i s"
    obtain pos ix where s: "s = (pos, ix)" by (cases s)
    have l: "length (?sel i) < length m"
      using i length_filter_le [of "\<lambda>i. m ! i" "[0..<i]"] by simp
    show "\<exists>t. ?f i s = Inr t \<and> ?P (Suc i) t"
      using p l by (simp add: s take_Suc_conv_app_nth)
  qed simp
  then show ?thesis by (auto simp: mask_index_def)
qed

lemma index_view_eq:
  assumes "sz = int (length index)" "localSize = int (length gs)"
  shows "index_view junk sz index localSize gs
    = Inr (map (\<lambda>i. case cells index gs ! i of None \<Rightarrow> junk i | Some g \<Rightarrow> g)
             [0..<length (shown (cells index gs))])"
proof -
  let ?cs = "cells index gs" and ?N = "length index"
  let ?v = "\<lambda>i. case ?cs ! i of None \<Rightarrow> junk i | Some g \<Rightarrow> g"
  let ?f = "\<lambda>i (pos, gv). obind (arr_get index (int i)) (\<lambda>k.
            if 0 \<le> k \<and> k < localSize
            then obind (arr_get gs k) (\<lambda>g. omap (\<lambda>gv. (pos + 1, gv)) (arr_set gv (int i) g))
            else Inr (pos, gv))"
  let ?P = "\<lambda>n (pos, gv). pos = int (length (shown (take n ?cs))) \<and> length gv = ?N
     \<and> (\<forall>i < ?N. gv ! i = (if i < n then ?v i else junk i))"
  have "\<exists>t. ofold ?f [0..<?N] (0, fresh_array junk ?N) = Inr t \<and> ?P ?N t"
  proof (rule ofold_upto [where P = ?P])
    fix i s
    assume i: "i < ?N" and p: "?P i s"
    obtain pos gv where s: "s = (pos, gv)" by (cases s)
    from i show "\<exists>t. ?f i s = Inr t \<and> ?P (Suc i) t"
    proof (cases "?cs ! i")
      case None
      then have "\<not> (0 \<le> index ! i \<and> index ! i < localSize)"
        using i assms by (auto simp: cells_nth Let_def split: if_splits)
      with None i p show ?thesis
        by (auto simp: s take_Suc_conv_app_nth less_Suc_eq)
    next
      case (Some g)
      then have k: "0 \<le> index ! i" "index ! i < localSize" "gs ! nat (index ! i) = g"
        using i assms by (auto simp: cells_nth Let_def split: if_splits)
      with Some i p assms(2) show ?thesis
        by (auto simp: s take_Suc_conv_app_nth less_Suc_eq nth_list_update)
    qed
  qed simp
  then obtain gv where "ofold ?f [0..<?N] (0, fresh_array junk ?N) = Inr (int (length (shown ?cs)), gv)"
      "length gv = ?N" "\<forall>i < ?N. gv ! i = ?v i"
    by auto
  moreover have "length (shown ?cs) \<le> ?N" using length_shown_le [of ?cs] by simp
  moreover have "take n gv = map ?v [0..<n]" if "n \<le> ?N" "length gv = ?N" "\<forall>i < ?N. gv ! i = ?v i" for n
    by (rule nth_equalityI) (use that in \<open>auto split: option.split\<close>)
  ultimately show ?thesis using assms(1) by (simp add: index_view_def)
qed

lemma index_view_front:
  assumes "sz = int (length index)" "localSize = int (length gs)"
    and "cells index gs = map Some xs @ replicate n None"
  shows "index_view junk sz index localSize gs = Inr xs"
proof -
  have "shown (map Some xs @ replicate n None) = xs" by (induction xs) (simp_all add: shown_def)
  then show ?thesis
    unfolding index_view_eq [OF assms(1,2)] assms(3)
    by (auto intro!: nth_equalityI simp: nth_append)
qed

lemma lv_getGlobalIndex_eq:
  assumes "\<forall>(v, s)\<in>set views. lv_ok v" "views \<noteq> []" "snd (last views) = 1"
  shows "lv_getGlobalIndex acc si views = Inr (acc @
    map (\<lambda>gs. si + sum_list (map2 (*) gs (map snd views))) (product_lists (map (shown \<circ> lv_cells \<circ> fst) views)))"
  using assms
proof (induction views arbitrary: acc si)
  case (Cons vs views)
  obtain v s where vs: "vs = (v, s)" by (cases vs)
  let ?row = "\<lambda>g. map (\<lambda>gs. si + sum_list (map2 (*) gs (map snd (vs # views))))
     (map ((#) g) (product_lists (map (shown \<circ> lv_cells \<circ> fst) views)))"
  let ?part = "\<lambda>c. case c of None \<Rightarrow> [] | Some g \<Rightarrow> ?row g"
  let ?f = "\<lambda>i acc. obind (arr_get (lv_index v) (int i)) (\<lambda>k.
         if 0 \<le> k \<and> k < lv_localSize v
         then obind (arr_get (lv_globalIndex v) k) (\<lambda>g.
                if views = [] then Inr (acc @ [si + g])
                else lv_getGlobalIndex acc (si + g * s) views)
         else Inr acc)"
  have ok: "lv_size v = int (length (lv_index v))" "lv_localSize v = int (length (lv_globalIndex v))"
    using Cons.prems(1) vs by (auto simp: lv_ok_def)
  have rec: "(if views = [] then Inr (acc @ [si + g]) else lv_getGlobalIndex acc (si + g * s) views)
      = Inr (acc @ ?row g)" for g acc
  proof (cases "views = []")
    case True
    then show ?thesis using Cons.prems(3) by (simp add: vs)
  next
    case False
    then have "lv_getGlobalIndex acc (si + g * s) views = Inr (acc @ map (\<lambda>gs. si + g * s
        + sum_list (map2 (*) gs (map snd views))) (product_lists (map (shown \<circ> lv_cells \<circ> fst) views)))"
      using Cons.prems by (intro Cons.IH) auto
    with False show ?thesis by (simp add: vs add.assoc)
  qed
  let ?P = "\<lambda>n a. a = acc @ concat (map ?part (take n (lv_cells v)))"
  have "\<exists>t. ofold ?f [0..<length (lv_index v)] acc = Inr t \<and> ?P (length (lv_index v)) t"
  proof (rule ofold_upto [where P = ?P])
    fix i a
    assume i: "i < length (lv_index v)" and a: "?P i a"
    have c: "lv_cells v ! i = (if 0 \<le> lv_index v ! i \<and> lv_index v ! i < lv_localSize v
        then Some (lv_globalIndex v ! nat (lv_index v ! i)) else None)"
      using i ok by (simp add: lv_cells_def cells_nth Let_def)
    have t: "take (Suc i) (lv_cells v) = take i (lv_cells v) @ [lv_cells v ! i]"
      using i by (simp add: lv_cells_def take_Suc_conv_app_nth)
    have "?f i a = Inr (a @ ?part (lv_cells v ! i))"
    proof (cases "0 \<le> lv_index v ! i \<and> lv_index v ! i < lv_localSize v")
      case True
      with c have "lv_cells v ! i = Some (lv_globalIndex v ! nat (lv_index v ! i))" by simp
      with True i ok rec [of a "lv_globalIndex v ! nat (lv_index v ! i)"] show ?thesis by simp
    next
      case False
      with c have "lv_cells v ! i = None" by simp
      with False i show ?thesis by auto
    qed
    then show "\<exists>t. ?f i a = Inr t \<and> ?P (Suc i) t" unfolding t a by simp
  qed simp
  moreover have "concat (map ?part cs) = concat (map ?row (shown cs))" for cs
    by (rule concat_shown)
  ultimately show ?case
    using ok by (simp add: vs lv_cells_def map_concat comp_def del: product_lists.simps(2)) (simp add: map_concat comp_def)
qed simp

end
