(* ===== verification/LocalConnectors.thy ===== *)
theory LocalConnectors
  imports Slices ViewProps
begin

text \<open>
  The connector between two views of one local element (\<open>distribution/local_connector.*\<close>) and the
  connectors a local element keeps (\<open>CLocalElement::getConnector\<close>).  A pointer into an array is an
  offset; the connectors below the current one are the list of the outer elements' connectors
  followed by the inner ones, the current connector first.
\<close>

record local_connector =
  lc_srcSize :: int
  lc_dstSize :: int
  lc_connector :: "int list"
  lc_mask :: "bool list"

definition newLocalConnector :: "local_view \<Rightarrow> local_view \<Rightarrow> local_connector" where
  "newLocalConnector src dst =
    \<lparr>lc_srcSize = lv_size src, lc_dstSize = lv_size dst, lc_connector = [], lc_mask = []\<rparr>"

text \<open>\<open>local\<close>: where the source view shows each local position, -1 for the others.\<close>

definition local_positions :: "int \<Rightarrow> int list \<Rightarrow> int list outcome" where
  "local_positions srcLocalSize srcIndex =
     ofold (\<lambda>i local. let k = srcIndex ! i in
         if 0 \<le> k \<and> k < srcLocalSize then arr_set local k (int i) else Inr local)
       [0..<length srcIndex] (replicate (nat srcLocalSize) (-1))"

definition lc_computeConnector :: "local_view \<Rightarrow> local_view \<Rightarrow> local_connector \<Rightarrow> local_connector outcome" where
  "lc_computeConnector src dst lc =
     obind (local_positions (lv_localSize src) (lv_index src)) (\<lambda>local.
     obind (ofold (\<lambda>i msk. let k = lv_index dst ! i in
                if 0 \<le> k \<and> k < lv_localSize dst
                then obind (arr_get local k) (\<lambda>l. arr_set msk (int i) (l \<noteq> -1))
                else arr_set msk (int i) False)
              [0..<length (lv_index dst)] (replicate (length (lv_index dst)) False)) (\<lambda>msk.
     obind (ofold (\<lambda>i connector. if msk ! i
                then omap (\<lambda>l. connector @ [l]) (arr_get local (lv_index dst ! i)) else Inr connector)
              [0..<length (lv_index dst)] []) (\<lambda>connector.
     Inr (lc\<lparr>lc_mask := msk, lc_connector := connector\<rparr>))))"

section \<open>Transfers\<close>

definition lc_transfer_flat :: "(nat \<Rightarrow> 'a) \<Rightarrow> local_connector \<Rightarrow> 'a list \<Rightarrow> 'a list outcome" where
  "lc_transfer_flat junk lc input =
     masked_loop False (lc_mask lc) (lc_connector lc)
       (\<lambda>i c output. obind (arr_get input c) (arr_set output (int i)))
       (\<lambda>i output. Inr output)
       (fresh_array junk (length (lc_mask lc)))"

definition lc_transfer_flat_missing ::
  "(nat \<Rightarrow> 'a) \<Rightarrow> local_connector \<Rightarrow> 'a list \<Rightarrow> 'a \<Rightarrow> 'a list outcome" where
  "lc_transfer_flat_missing junk lc input missingValue =
     masked_loop False (lc_mask lc) (lc_connector lc)
       (\<lambda>i c output. obind (arr_get input c) (arr_set output (int i)))
       (\<lambda>i output. arr_set output (int i) missingValue)
       (fresh_array junk (length (lc_mask lc)))"

fun lc_getSrcSliceSize :: "local_connector list \<Rightarrow> int" where
  "lc_getSrcSliceSize [] = 1"
| "lc_getSrcSliceSize (lc # connectors) =
    (if connectors = [] then lc_srcSize lc else lc_srcSize lc * lc_getSrcSliceSize connectors)"

fun lc_getDstSliceSize :: "local_connector list \<Rightarrow> int" where
  "lc_getDstSliceSize [] = 1"
| "lc_getDstSliceSize (lc # connectors) =
    (if connectors = [] then lc_dstSize lc else lc_dstSize lc * lc_getDstSliceSize connectors)"

text \<open>\<open>for (j=0; j<n; j++) *(out+j) = value\<close>\<close>

definition fill :: "int \<Rightarrow> int \<Rightarrow> 'a \<Rightarrow> 'a list \<Rightarrow> 'a list outcome" where
  "fill out n x output = ofold (\<lambda>j output. arr_set output (out + int j) x) [0..<nat n] output"

fun lc_transfer :: "local_connector list \<Rightarrow> 'a list \<Rightarrow> int \<Rightarrow> int \<Rightarrow> 'a list \<Rightarrow> 'a list outcome" where
  "lc_transfer [] input inp out output = Inr output"
| "lc_transfer (lc # connectors) input inp out output =
    (if connectors = []
     then masked_loop False (lc_mask lc) (lc_connector lc)
            (\<lambda>i c output. obind (arr_get input (inp + c)) (arr_set output (out + int i)))
            (\<lambda>i output. Inr output) output
     else (let srcSliceSize = lc_getSrcSliceSize connectors; dstSliceSize = lc_getDstSliceSize connectors
           in masked_loop False (lc_mask lc) (lc_connector lc)
                (\<lambda>i c output. lc_transfer connectors input (inp + c * srcSliceSize)
                                (out + int i * dstSliceSize) output)
                (\<lambda>i output. Inr output) output))"

fun lc_transfer_missing ::
  "local_connector list \<Rightarrow> 'a list \<Rightarrow> int \<Rightarrow> int \<Rightarrow> 'a list \<Rightarrow> 'a \<Rightarrow> 'a list outcome" where
  "lc_transfer_missing [] input inp out output missingValue = Inr output"
| "lc_transfer_missing (lc # connectors) input inp out output missingValue =
    (if connectors = []
     then masked_loop False (lc_mask lc) (lc_connector lc)
            (\<lambda>i c output. obind (arr_get input (inp + c)) (arr_set output (out + int i)))
            (\<lambda>i output. arr_set output (out + int i) missingValue) output
     else (let srcSliceSize = lc_getSrcSliceSize connectors; dstSliceSize = lc_getDstSliceSize connectors
           in masked_loop False (lc_mask lc) (lc_connector lc)
                (\<lambda>i c output. lc_transfer_missing connectors input (inp + c * srcSliceSize)
                                (out + int i * dstSliceSize) output missingValue)
                (\<lambda>i output. fill (out + int i * dstSliceSize) dstSliceSize missingValue output) output))"

text \<open>The connectors a local element keeps, by the types of their views.\<close>

type_synonym connector_cache = "view_type \<times> view_type \<Rightarrow> local_connector option"

definition el_getConnector ::
  "view_type \<Rightarrow> view_type \<Rightarrow> local_element \<times> connector_cache
     \<Rightarrow> ((local_element \<times> connector_cache) \<times> local_connector) outcome" where
  "el_getConnector srcType dstType = (\<lambda>(el, connectors).
     case connectors (srcType, dstType) of
       Some lc \<Rightarrow> Inr ((el, connectors), lc)
     | None \<Rightarrow> obind (el_getView srcType el) (\<lambda>src. obind (el_getView dstType el) (\<lambda>dst.
         omap (\<lambda>lc. ((el, connectors((srcType, dstType) \<mapsto> lc)), lc))
           (lc_computeConnector src dst (newLocalConnector src dst)))))"

end
