(* ===== verification/LocalConnectorProps.thy ===== *)
theory LocalConnectorProps
  imports LocalConnectors
begin

text \<open>
  Local connectors as levels: each destination position has a source position or none.  The
  transfers write the product of the levels of their connectors, and the computed connector
  sends a destination position to the last source position that shows the same cell.
\<close>

definition lc_level :: "local_connector \<Rightarrow> level" where
  "lc_level lc = (map (map_option nat) (expand (lc_mask lc) (lc_connector lc)), nat (lc_srcSize lc))"

definition lc_ok :: "local_connector \<Rightarrow> bool" where
  "lc_ok lc = (wanted (lc_mask lc) \<le> length (lc_connector lc) \<and> 0 \<le> lc_srcSize lc
     \<and> lc_dstSize lc = int (length (lc_mask lc))
     \<and> (\<forall>k. Some k \<in> set (expand (lc_mask lc) (lc_connector lc)) \<longrightarrow> 0 \<le> k \<and> k < lc_srcSize lc))"

lemma lc_level_ok: "lc_ok lc \<Longrightarrow> level_ok (lc_level lc)"
  by (force simp: lc_ok_def lc_level_def level_ok_def map_option_case split: option.splits)

lemma length_lc_level [simp]: "length (fst (lc_level lc)) = length (lc_mask lc)"
  by (simp add: lc_level_def)

lemma lc_src_slice: "\<forall>lc\<in>set lcs. lc_ok lc \<Longrightarrow> lcs \<noteq> [] \<Longrightarrow>
   lc_getSrcSliceSize lcs = int (prod_list (map (snd \<circ> lc_level) lcs))"
  by (induction lcs) (auto simp: lc_ok_def lc_level_def)

lemma lc_dst_slice: "\<forall>lc\<in>set lcs. lc_ok lc \<Longrightarrow> lcs \<noteq> [] \<Longrightarrow>
   lc_getDstSliceSize lcs = int (length (tensor (map lc_level lcs)))"
  by (induction lcs) (auto simp: lc_ok_def length_tensor comp_def)

section \<open>Transfers\<close>

lemma tensor_single: "tensor [(es, n)] = es"
  by (simp, induction es) (simp_all split: option.split)

lemma arr_set_slot: "q < length out \<Longrightarrow> arr_set out (int q) x = Inr (patch q [Some x] out)"
  by (rule arr_set_patch)

lemma concat_single: "concat (map (\<lambda>c. [f c]) xs) = map f xs"
  by (induction xs) simp_all

text \<open>What a transfer writes: \<open>m\<close> says what to do where there is no source.\<close>

definition fetch :: "'a option \<Rightarrow> 'a list \<Rightarrow> nat \<Rightarrow> nat option list \<Rightarrow> 'a option list" where
  "fetch m input inp = map (\<lambda>q. case q of None \<Rightarrow> m | Some q \<Rightarrow> Some (input ! (inp + q)))"

lemma length_fetch [simp]: "length (fetch m input inp qs) = length qs"
  by (simp add: fetch_def)

lemma fetch_tensor:
  "fetch m input inp (tensor ((es, n) # ls)) = concat (map (\<lambda>e. case e of
       None \<Rightarrow> replicate (length (tensor ls)) m
     | Some k \<Rightarrow> fetch m input (inp + k * prod_list (map snd ls)) (tensor ls)) es)"
proof -
  have "fetch m input inp (case e of None \<Rightarrow> replicate (length (tensor ls)) None
       | Some k \<Rightarrow> map (map_option (\<lambda>q. k * prod_list (map snd ls) + q)) (tensor ls))
     = (case e of None \<Rightarrow> replicate (length (tensor ls)) m
       | Some k \<Rightarrow> fetch m input (inp + k * prod_list (map snd ls)) (tensor ls))" for e
    by (auto simp: fetch_def add.assoc split: option.split)
  moreover have "fetch m input inp (concat xss) = concat (map (fetch m input inp) xss)" for xss
    by (simp add: fetch_def map_concat)
  ultimately show ?thesis by (simp add: comp_def)
qed

lemma concat_map_expand: "concat (map g (map h es)) = concat (map (\<lambda>c. g (h c)) es)"
  by (simp add: comp_def)

lemma fill_eq:
  assumes "q + n \<le> length out"
  shows "fill (int q) (int n) x out = Inr (patch q (replicate n (Some x)) out)"
proof -
  let ?P = "\<lambda>i o'. o' = patch q (replicate i (Some x)) out"
  have "\<exists>t. ofold (\<lambda>j out. arr_set out (int q + int j) x) [0..<n] out = Inr t \<and> ?P n t"
  proof (rule ofold_upto [where P = ?P])
    fix i s assume "i < n" "?P i s"
    then have "arr_set s (int q + int i) x = Inr (patch (q + i) [Some x] s)"
      using assms arr_set_patch [of "q + i" s x] by simp
    moreover have "replicate (Suc i) (Some x) = replicate i (Some x) @ [Some x]"
      by (simp add: replicate_append_same)
    ultimately show "\<exists>t. arr_set s (int q + int i) x = Inr t \<and> ?P (Suc i) t"
      using \<open>?P i s\<close> patch_append [of q "replicate i (Some x)" "[Some x]" out] by simp
  qed simp
  then show ?thesis by (auto simp: fill_def)
qed

lemma lc_loop:
  assumes "lc_ok lc" "q + length (lc_mask lc) * D \<le> length out"
    and "\<And>i k out'. i < length (lc_mask lc) \<Longrightarrow> k < nat (lc_srcSize lc) \<Longrightarrow> length out' = length out \<Longrightarrow>
        body i (int k) out' = Inr (patch (q + i * D) (g k) out')"
    and "\<And>i out'. i < length (lc_mask lc) \<Longrightarrow> length out' = length out \<Longrightarrow>
        other i out' = Inr (patch (q + i * D) (replicate D m) out')"
    and "\<And>k. length (g k) = D"
  shows "masked_loop False (lc_mask lc) (lc_connector lc) body other out
    = Inr (patch q (concat (map (\<lambda>e. case e of None \<Rightarrow> replicate D m | Some k \<Rightarrow> g k) (fst (lc_level lc)))) out)"
proof -
  let ?g = "\<lambda>e. case map_option nat e of None \<Rightarrow> replicate D m | Some k \<Rightarrow> g k"
  have "masked_loop False (lc_mask lc) (lc_connector lc) body other out
      = Inr (patch q (concat (map ?g (expand (lc_mask lc) (lc_connector lc)))) out)"
  proof (rule connector_loop [where N = "length out" and D = D])
    fix i k out'
    assume i: "i < length (lc_mask lc)" and k: "Some k \<in> set (expand (lc_mask lc) (lc_connector lc))"
      and l: "length (out' :: 'a list) = length out"
    from k assms(1) have "0 \<le> k" "k < lc_srcSize lc" by (auto simp: lc_ok_def)
    then have "nat k < nat (lc_srcSize lc)" "int (nat k) = k" by simp_all
    with assms(3) [OF i _ l, of "nat k"] show "body i k out' = Inr (patch (q + i * D) (?g (Some k)) out')" by simp
  qed (use assms in \<open>auto simp: lc_ok_def split: option.split\<close>)
  then show ?thesis by (simp add: lc_level_def comp_def)
qed

theorem lc_transfer_eq:
  assumes "\<forall>lc\<in>set lcs. lc_ok lc" "lcs \<noteq> []"
    and "p + prod_list (map (snd \<circ> lc_level) lcs) \<le> length input"
    and "q + length (tensor (map lc_level lcs)) \<le> length out"
  shows "lc_transfer lcs input (int p) (int q) out
      = Inr (patch q (fetch None input p (tensor (map lc_level lcs))) out)"
    and "lc_transfer_missing lcs input (int p) (int q) out x
      = Inr (patch q (fetch (Some x) input p (tensor (map lc_level lcs))) out)"
proof -
  have "lc_transfer lcs input (int p) (int q) out
      = Inr (patch q (fetch None input p (tensor (map lc_level lcs))) out)
    \<and> lc_transfer_missing lcs input (int p) (int q) out x
      = Inr (patch q (fetch (Some x) input p (tensor (map lc_level lcs))) out)"
    using assms
  proof (induction lcs arbitrary: p q out)
    case (Cons lc lcs)
    define D S where "D = length (tensor (map lc_level lcs))" and "S = prod_list (map (snd \<circ> lc_level) lcs)"
    have ok: "lc_ok lc" "\<forall>lc\<in>set lcs. lc_ok lc" using Cons.prems(1) by simp_all
    have lev: "snd (lc_level lc) = nat (lc_srcSize lc)" by (simp add: lc_level_def)
    have room: "p + nat (lc_srcSize lc) * S \<le> length input" "q + length (lc_mask lc) * D \<le> length out"
      using Cons.prems(3,4) by (simp_all add: S_def D_def length_tensor lev comp_def)
    have src: "p + k * S + S \<le> length input" if "k < nat (lc_srcSize lc)" for k
    proof -
      have "Suc k * S \<le> nat (lc_srcSize lc) * S" using that by (intro mult_le_mono1) simp
      with room(1) show ?thesis by simp
    qed
    have dst: "q + i * D + D \<le> length out" if "i < length (lc_mask lc)" for i
    proof -
      have "Suc i * D \<le> length (lc_mask lc) * D" using that by (intro mult_le_mono1) simp
      with room(2) show ?thesis by simp
    qed
    let ?F = "\<lambda>m. \<lambda>k. fetch m input (p + k * S) (tensor (map lc_level lcs))"
    have res: "fetch m input p (tensor (map lc_level (lc # lcs)))
        = concat (map (\<lambda>e. case e of None \<Rightarrow> replicate D m | Some k \<Rightarrow> ?F m k) (fst (lc_level lc)))" for m
      unfolding list.map using fetch_tensor [of m input p "fst (lc_level lc)" "snd (lc_level lc)" "map lc_level lcs"]
      by (simp only: prod.collapse S_def D_def map_map)
    have sizes: "lcs \<noteq> [] \<Longrightarrow> lc_getSrcSliceSize lcs = int S" "lcs \<noteq> [] \<Longrightarrow> lc_getDstSliceSize lcs = int D"
      using lc_src_slice [OF ok(2)] lc_dst_slice [OF ok(2)] by (simp_all add: S_def D_def)
    show ?case
    proof (cases "lcs = []")
      case True
      then have one: "D = 1" "S = 1" by (simp_all add: D_def S_def)
      have body: "obind (arr_get input (int p + int k)) (arr_set out' (int q + int i))
          = Inr (patch (q + i * D) (?F m k) out')"
        if "i < length (lc_mask lc)" "k < nat (lc_srcSize lc)" "length out' = length out" for i k out' m
        using src [OF that(2)] dst [OF that(1)] that(3) arr_set_patch [of "q + i" out'] True
        by (simp add: one fetch_def nat_add_distrib flip: of_nat_add)
      have other: "arr_set out' (int q + int i) x = Inr (patch (q + i * D) (replicate D (Some x)) out')"
        if "i < length (lc_mask lc)" "length out' = length out" for i out'
        using dst [OF that(1)] that(2) arr_set_patch [of "q + i" out'] by (simp add: one flip: of_nat_add)
      have "masked_loop False (lc_mask lc) (lc_connector lc)
            (\<lambda>i c output. obind (arr_get input (int p + c)) (arr_set output (int q + int i)))
            (\<lambda>i output. Inr output) out = Inr (patch q (fetch None input p (tensor (map lc_level (lc # lcs)))) out)"
        unfolding res by (rule lc_loop [OF ok(1) room(2)]) (simp_all add: body, simp_all add: D_def)
      moreover have "masked_loop False (lc_mask lc) (lc_connector lc)
            (\<lambda>i c output. obind (arr_get input (int p + c)) (arr_set output (int q + int i)))
            (\<lambda>i output. arr_set output (int q + int i) x) out
          = Inr (patch q (fetch (Some x) input p (tensor (map lc_level (lc # lcs)))) out)"
        unfolding res by (rule lc_loop [OF ok(1) room(2)]) (simp_all add: body other, simp_all add: D_def)
      ultimately show ?thesis using True by simp
    next
      case False
      have pos: "int p + int k * int S = int (p + k * S)" "int q + int i * int D = int (q + i * D)" for k i
        by simp_all
      note ih = Cons.IH [OF ok(2) False, folded S_def D_def]
      have "masked_loop False (lc_mask lc) (lc_connector lc)
            (\<lambda>i c output. lc_transfer lcs input (int p + c * int S) (int q + int i * int D) output)
            (\<lambda>i output. Inr output) out = Inr (patch q (fetch None input p (tensor (map lc_level (lc # lcs)))) out)"
        unfolding res
      proof (rule lc_loop [OF ok(1) room(2)])
        fix i k out' assume "i < length (lc_mask lc)" "k < nat (lc_srcSize lc)" "length (out' :: 'a list) = length out"
        with ih [of "p + k * S" "q + i * D" out'] src dst
        show "lc_transfer lcs input (int p + int k * int S) (int q + int i * int D) out'
            = Inr (patch (q + i * D) (?F None k) out')" unfolding pos by simp
      qed (simp_all add: D_def)
      moreover have "masked_loop False (lc_mask lc) (lc_connector lc)
            (\<lambda>i c output. lc_transfer_missing lcs input (int p + c * int S) (int q + int i * int D) output x)
            (\<lambda>i output. fill (int q + int i * int D) (int D) x output) out
          = Inr (patch q (fetch (Some x) input p (tensor (map lc_level (lc # lcs)))) out)"
        unfolding res
      proof (rule lc_loop [OF ok(1) room(2)])
        fix i k out' assume "i < length (lc_mask lc)" "k < nat (lc_srcSize lc)" "length (out' :: 'a list) = length out"
        with ih [of "p + k * S" "q + i * D" out'] src dst
        show "lc_transfer_missing lcs input (int p + int k * int S) (int q + int i * int D) out' x
            = Inr (patch (q + i * D) (?F (Some x) k) out')" unfolding pos by simp
      next
        fix i out' assume "i < length (lc_mask lc)" "length (out' :: 'a list) = length out"
        with dst show "fill (int q + int i * int D) (int D) x out'
            = Inr (patch (q + i * D) (replicate D (Some x)) out')"
          unfolding pos by (intro fill_eq) simp
      qed (simp_all add: D_def)
      ultimately show ?thesis using False by (simp add: sizes Let_def)
    qed
  qed simp
  then show "lc_transfer lcs input (int p) (int q) out
      = Inr (patch q (fetch None input p (tensor (map lc_level lcs))) out)"
    and "lc_transfer_missing lcs input (int p) (int q) out x
      = Inr (patch q (fetch (Some x) input p (tensor (map lc_level lcs))) out)" by blast+
qed

section \<open>Computing a connector\<close>

definition last_pos :: "int list \<Rightarrow> int \<Rightarrow> nat option" where
  "last_pos xs k = find (\<lambda>i. xs ! i = k) (rev [0..<length xs])"

lemma last_pos_Some: "last_pos xs k = Some i \<Longrightarrow> i < length xs \<and> xs ! i = k"
  by (auto simp: last_pos_def dest: find_SomeD)

lemma last_pos_None: "last_pos xs k = None \<longleftrightarrow> k \<notin> set xs"
  by (auto simp: last_pos_def find_None_iff in_set_conv_nth)

lemma last_pos_distinct: "distinct xs \<Longrightarrow> i < length xs \<Longrightarrow> last_pos xs (xs ! i) = Some i"
proof -
  assume d: "distinct xs" "i < length xs"
  then obtain j where j: "last_pos xs (xs ! i) = Some j" using last_pos_None [of xs "xs ! i"] by fastforce
  then have "j = i" using nth_eq_iff_index_eq [OF d(1), of j i] d(2) last_pos_Some [OF j] by simp
  with j show ?thesis by simp
qed

lemma local_positions_eq:
  "local_positions n xs = Inr (map (\<lambda>k. case last_pos xs (int k) of None \<Rightarrow> -1 | Some i \<Rightarrow> int i) [0..<nat n])"
proof -
  let ?f = "\<lambda>i local. let k = xs ! i in if 0 \<le> k \<and> k < n then arr_set local k (int i) else Inr local"
  let ?v = "\<lambda>m k. case find (\<lambda>i. xs ! i = int k) (rev [0..<m]) of None \<Rightarrow> -1 | Some i \<Rightarrow> int i"
  let ?P = "\<lambda>m local. local = map (?v m) [0..<nat n]"
  have "\<exists>t. ofold ?f [0..<length xs] (replicate (nat n) (-1)) = Inr t \<and> ?P (length xs) t"
  proof (rule ofold_upto [where P = ?P])
    show "?P 0 (replicate (nat n) (-1))" by (simp add: map_replicate_const)
  next
    fix i s assume i: "i < length xs" and s: "?P i s"
    show "\<exists>t. ?f i s = Inr t \<and> ?P (Suc i) t"
    proof (cases "0 \<le> xs ! i \<and> xs ! i < n")
      case True
      then have "?f i s = Inr (s[nat (xs ! i) := int i])" using s by simp
      moreover have "s[nat (xs ! i) := int i] = map (?v (Suc i)) [0..<nat n]"
        using s True by (intro nth_equalityI) (auto simp: nth_list_update nat_eq_iff)
      ultimately show ?thesis by simp
    next
      case False
      then have "\<And>k. k < nat n \<Longrightarrow> xs ! i \<noteq> int k" by auto
      then have "s = map (?v (Suc i)) [0..<nat n]" using s by (intro nth_equalityI) simp_all
      with False show ?thesis by (auto simp: Let_def)
    qed
  qed
  then show ?thesis by (auto simp: local_positions_def last_pos_def)
qed

text \<open>The source position of each destination position.\<close>

definition lc_sources :: "local_view \<Rightarrow> local_view \<Rightarrow> nat option list" where
  "lc_sources src dst = map (\<lambda>k. if 0 \<le> k \<and> k < lv_localSize dst then last_pos (lv_index src) k else None)
     (lv_index dst)"

lemma expand_sources:
  "expand (map (\<lambda>e. e \<noteq> None) es) (map int (shown es)) = map (map_option int) es"
  by (induction es) (auto split: option.split)

lemma Some_map_option: "Some k = map_option f x \<longleftrightarrow> (\<exists>j. x = Some j \<and> k = f j)"
  by (cases x) auto

lemma wanted_sources: "wanted (map (\<lambda>e. e \<noteq> None) es) = length (shown es)"
  by (induction es) (auto split: option.split)

theorem lc_computeConnector_eq:
  assumes "lv_ok src" "lv_ok dst" "lv_localSize dst = lv_localSize src"
  shows "lc_computeConnector src dst lc = Inr (lc\<lparr>lc_mask := map (\<lambda>e. e \<noteq> None) (lc_sources src dst),
      lc_connector := map int (shown (lc_sources src dst))\<rparr>)"
proof -
  let ?es = "lc_sources src dst" and ?ix = "lv_index dst"
  define local where "local = map (\<lambda>k. case last_pos (lv_index src) (int k) of None \<Rightarrow> -1 | Some i \<Rightarrow> int i)
      [0..<nat (lv_localSize src)]"
  have n: "0 \<le> lv_localSize src" using assms(1) by (simp add: lv_ok_def)
  have get: "arr_get local k = Inr (case last_pos (lv_index src) k of None \<Rightarrow> -1 | Some i \<Rightarrow> int i)"
    if "0 \<le> k" "k < lv_localSize dst" for k using that assms(3) n by (simp add: local_def)
  have es: "?es ! i = (if 0 \<le> ?ix ! i \<and> ?ix ! i < lv_localSize dst then last_pos (lv_index src) (?ix ! i) else None)"
    if "i < length ?ix" for i using that by (simp add: lc_sources_def)
  have len: "length ?es = length ?ix" by (simp add: lc_sources_def)
  let ?f = "\<lambda>i msk. let k = ?ix ! i in if 0 \<le> k \<and> k < lv_localSize dst
                then obind (arr_get local k) (\<lambda>l. arr_set msk (int i) (l \<noteq> -1)) else arr_set msk (int i) False"
  let ?P = "\<lambda>m msk. msk = map (\<lambda>i. i < m \<and> ?es ! i \<noteq> None) [0..<length ?ix]"
  have mask: "\<exists>t. ofold ?f [0..<length ?ix] (replicate (length ?ix) False) = Inr t \<and> ?P (length ?ix) t"
  proof (rule ofold_upto [where P = ?P])
    show "?P 0 (replicate (length ?ix) False)" by (simp add: map_replicate_const)
  next
    fix i s assume i: "i < length ?ix" and s: "?P i s"
    have "?f i s = arr_set s (int i) (?es ! i \<noteq> None)"
      using get es [OF i] by (auto simp: Let_def split: option.split)
    moreover have "s[i := ?es ! i \<noteq> None] = map (\<lambda>j. j < Suc i \<and> ?es ! j \<noteq> None) [0..<length ?ix]"
      using i s by (intro nth_equalityI) (auto simp: nth_list_update)
    ultimately show "\<exists>t. ?f i s = Inr t \<and> ?P (Suc i) t" using i s by simp
  qed
  have mk: "map (\<lambda>i. i < length ?ix \<and> ?es ! i \<noteq> None) [0..<length ?ix] = map (\<lambda>e. e \<noteq> None) ?es"
    using len by (intro nth_equalityI) simp_all
  let ?g = "\<lambda>i connector. if map (\<lambda>e. e \<noteq> None) ?es ! i
                then omap (\<lambda>l. connector @ [l]) (arr_get local (?ix ! i)) else Inr connector"
  let ?Q = "\<lambda>m connector. connector = map int (shown (take m ?es))"
  have conn: "\<exists>t. ofold ?g [0..<length ?ix] [] = Inr t \<and> ?Q (length ?ix) t"
  proof (rule ofold_upto [where P = ?Q])
    fix i s assume i: "i < length ?ix" and s: "?Q i s"
    have t: "take (Suc i) ?es = take i ?es @ [?es ! i]" using i len by (simp add: take_Suc_conv_app_nth)
    show "\<exists>t. ?g i s = Inr t \<and> ?Q (Suc i) t"
      unfolding t using get es [OF i] i len s by (auto split: option.split if_splits)
  qed simp
  show ?thesis
    using mask conn len unfolding mk
    by (auto simp: lc_computeConnector_def local_positions_eq local_def [symmetric])
qed

lemma lc_sources_source:
  assumes "lv_ok src" "Some k \<in> set (lc_sources src dst)"
  shows "int k < lv_size src"
  using assms by (auto simp: lc_sources_def lv_ok_def split: if_splits dest!: last_pos_Some [OF sym])

lemma computed_connector:
  assumes "lv_ok src" "lv_ok dst" "lv_localSize dst = lv_localSize src"
  obtains lc where "lc_computeConnector src dst (newLocalConnector src dst) = Inr lc" "lc_ok lc"
    "lc_level lc = (lc_sources src dst, nat (lv_size src))" "length (lc_mask lc) = nat (lv_size dst)"
    "length (lc_mask lc) = length (lc_sources src dst)"
proof -
  let ?lc = "(newLocalConnector src dst)\<lparr>lc_mask := map (\<lambda>e. e \<noteq> None) (lc_sources src dst),
      lc_connector := map int (shown (lc_sources src dst))\<rparr>"
  have len: "length (lc_sources src dst) = length (lv_index dst)" by (simp add: lc_sources_def)
  have "lc_ok ?lc" using assms lc_sources_source [OF assms(1)] len
    by (auto simp: lc_ok_def newLocalConnector_def expand_sources wanted_sources lv_ok_def
          Some_map_option simp del: not_None_eq)
  moreover have "lc_level ?lc = (lc_sources src dst, nat (lv_size src))"
    by (simp add: lc_level_def newLocalConnector_def expand_sources comp_def option.map_comp option.map_ident
          del: not_None_eq)
  moreover have "lc_computeConnector src dst (newLocalConnector src dst) = Inr ?lc"
    by (rule lc_computeConnector_eq [OF assms])
  moreover have "length (lc_mask ?lc) = nat (lv_size dst)" using assms(2) len by (simp add: lv_ok_def)
  ultimately show thesis by (intro that [of ?lc]) simp_all
qed

end
