(* ===== verification/LocalClaims.thy ===== *)
theory LocalClaims
  imports LocalConnectorProps
begin

text \<open>The properties of elements, views and local connectors.\<close>

section \<open>Elements and views\<close>

text \<open>A local element built from the messages of several senders holds each global index sent
  by any of them once, in increasing order, whatever the overlaps and the order of the messages;
  its local size is their number.\<close>

theorem element_receives_union:
  "let el' = el_recvFromClient msgs el; S = (\<Union>(rank, gs, ix)\<in>set msgs. set ix)
   in set (el_globalIndex el') = S \<and> sorted (el_globalIndex el') \<and> distinct (el_globalIndex el')
      \<and> el_localSize el' = int (card S)
      \<and> el_globalSize el' = (if msgs = [] then el_globalSize el else fst (snd (last msgs)))"
proof -
  have "fold (\<lambda>(rank, gs, indGlo) (globalSize, indices). (gs, indices \<union> set indGlo)) msgs (g, A)
      = (if msgs = [] then g else fst (snd (last msgs)), A \<union> (\<Union>(rank, gs, ix)\<in>set msgs. set ix))" for g A
    by (induction msgs arbitrary: g A) (auto simp: Un_assoc)
  then show ?thesis
    by (simp add: el_recvFromClient_def Let_def case_prod_unfold)
qed

text \<open>The list of the global indices of a view has one entry per position that shows a cell, but
  the entries are those at the same positions of the view: it is the list of the shown indices
  when the positions without a cell come last, and holds memory that was never written at each
  earlier position without a cell.\<close>

theorem global_index_view_holes:
  assumes "lv_ok v"
  shows "\<exists>gv. lv_getGlobalIndexView junk v = Inr gv \<and> length gv = length (shown (lv_cells v))
    \<and> (\<forall>i<length gv. gv ! i = (case lv_cells v ! i of None \<Rightarrow> junk i | Some g \<Rightarrow> g))
    \<and> (\<forall>gs n. lv_cells v = map Some gs @ replicate n None \<longrightarrow> gv = gs)"
proof -
  have "lv_size v = int (length (lv_index v))" "lv_localSize v = int (length (lv_globalIndex v))"
    using assms by (simp_all add: lv_ok_def)
  note eq = index_view_eq [OF this, of junk] and front = index_view_front [OF this, where junk = junk]
  have "lv_cells v = map Some gs @ replicate n None \<Longrightarrow>
      lv_getGlobalIndexView junk v = Inr gs" for gs n
    using front by (simp add: lv_getGlobalIndexView_def lv_cells_def)
  then have front: "lv_cells v = map Some gs @ replicate n None \<Longrightarrow> gv = gs"
    if "lv_getGlobalIndexView junk v = Inr gv" for gv gs n using that by simp
  define gv where "gv = map (\<lambda>i. case lv_cells v ! i of None \<Rightarrow> junk i | Some g \<Rightarrow> g)
      [0..<length (shown (lv_cells v))]"
  have "lv_getGlobalIndexView junk v = Inr gv"
    by (simp add: lv_getGlobalIndexView_def lv_cells_def eq gv_def)
  moreover have "length gv = length (shown (lv_cells v))"
    "\<forall>i<length gv. gv ! i = (case lv_cells v ! i of None \<Rightarrow> junk i | Some g \<Rightarrow> g)"
    by (auto simp: gv_def split: option.split)
  ultimately show ?thesis using front by blast
qed

theorem global_index_view_holes_witness:
  "let v = newLocalView (newLocalElement 0 10 [4, 7]) [-1, 1]
   in lv_getGlobalIndexView (\<lambda>i. 99) v = Inr [99] \<and> shown (lv_cells v) = [7]"
proof -
  let ?v = "newLocalView (newLocalElement 0 10 [4, 7]) [-1, 1]"
  have "lv_ok ?v" by (simp add: newLocalView_def newLocalElement_def lv_ok_def)
  moreover have c: "lv_cells ?v = [None, Some 7]"
    by (simp add: newLocalView_def newLocalElement_def lv_cells_def cells_def)
  ultimately obtain gv where "lv_getGlobalIndexView (\<lambda>i. 99) ?v = Inr gv" "length gv = 1" "gv ! 0 = 99"
    using global_index_view_holes [of ?v "\<lambda>i. 99"] by auto
  then show ?thesis using c by (auto simp: length_Suc_conv Let_def)
qed

text \<open>The global indices of a grid are enumerated in row-major order over the cells its views
  show: one index per combination of shown cells, the sum of the cells' global indices times the
  sizes of the slices below them.\<close>

theorem grid_enumeration:
  assumes "\<forall>(v, s)\<in>set views. lv_ok v" "views \<noteq> []" "snd (last views) = 1"
  shows "lv_getGlobalIndex [] 0 views = Inr (map (\<lambda>gs. sum_list (map2 (*) gs (map snd views)))
    (product_lists (map (shown \<circ> lv_cells \<circ> fst) views)))"
  using lv_getGlobalIndex_eq [OF assms] by simp

theorem grid_enumeration_witness:
  "lv_getGlobalIndex [] 0 [(newLocalView (newLocalElement 0 10 [4, 7]) [1, -1, 0], 20),
      (newLocalView (newLocalElement 0 20 [2, 3]) [0, 1], 1)] = Inr [142, 143, 82, 83]"
  by (subst grid_enumeration)
    (simp_all add: newLocalView_def newLocalElement_def lv_ok_def lv_cells_def cells_def)

section \<open>Local connectors\<close>

text \<open>The connector between two views of an element gives each position of the destination the
  last position of the source that shows the same cell, and masks a position out exactly when it
  shows no cell or the source does not show its cell.\<close>

theorem connector_matches_cells:
  assumes "lv_ok src" "lv_ok dst" "lv_localSize dst = lv_localSize src"
  shows "\<exists>lc. lc_computeConnector src dst (newLocalConnector src dst) = Inr lc
    \<and> length (lc_mask lc) = length (lv_index dst) \<and> length (lc_connector lc) = wanted (lc_mask lc)
    \<and> (\<forall>p<length (lv_index dst). let k = lv_index dst ! p in
         case expand (lc_mask lc) (lc_connector lc) ! p of
           None \<Rightarrow> \<not> lc_mask lc ! p \<and> (k < 0 \<or> lv_localSize dst \<le> k \<or> k \<notin> set (lv_index src))
         | Some c \<Rightarrow> lc_mask lc ! p \<and> 0 \<le> c \<and> nat c < length (lv_index src) \<and> lv_index src ! nat c = k)"
proof -
  let ?es = "lc_sources src dst"
  have len: "length ?es = length (lv_index dst)" by (simp add: lc_sources_def)
  obtain lc where lc: "lc_computeConnector src dst (newLocalConnector src dst) = Inr lc"
    "lc_mask lc = map (\<lambda>e. e \<noteq> None) ?es" "lc_connector lc = map int (shown ?es)"
    using lc_computeConnector_eq [OF assms, of "newLocalConnector src dst"] by simp
  have ex: "expand (lc_mask lc) (lc_connector lc) = map (map_option int) ?es"
    unfolding lc(2,3) by (rule expand_sources)
  have "let k = lv_index dst ! p in case expand (lc_mask lc) (lc_connector lc) ! p of
           None \<Rightarrow> \<not> lc_mask lc ! p \<and> (k < 0 \<or> lv_localSize dst \<le> k \<or> k \<notin> set (lv_index src))
         | Some c \<Rightarrow> lc_mask lc ! p \<and> 0 \<le> c \<and> nat c < length (lv_index src) \<and> lv_index src ! nat c = k"
    if p: "p < length (lv_index dst)" for p
  proof (cases "?es ! p")
    case None
    then have "lv_index dst ! p < 0 \<or> lv_localSize dst \<le> lv_index dst ! p \<or> lv_index dst ! p \<notin> set (lv_index src)"
      using p by (auto simp: lc_sources_def last_pos_None split: if_splits)
    with None show ?thesis using p len unfolding ex by (simp add: lc(2) Let_def)
  next
    case (Some c)
    then have "last_pos (lv_index src) (lv_index dst ! p) = Some c" using p by (simp add: lc_sources_def split: if_splits)
    with Some p len last_pos_Some [of "lv_index src" "lv_index dst ! p" c] show ?thesis
      unfolding ex by (simp add: lc(2) Let_def)
  qed
  moreover have "length (lc_connector lc) = wanted (lc_mask lc)"
    unfolding lc(2,3) by (simp add: wanted_sources del: not_None_eq)
  moreover have "length (lc_mask lc) = length (lv_index dst)" using len by (simp add: lc(2))
  ultimately show ?thesis using lc(1) by blast
qed

theorem connector_matches_cells_witness:
  "let el = newLocalElement 0 10 [4, 7, 9]; src = newLocalView el [0, 1, 2]; dst = newLocalView el [2, -1, 0]
   in \<exists>lc. lc_computeConnector src dst (newLocalConnector src dst) = Inr lc \<and> lc_mask lc ! 0 \<and> \<not> lc_mask lc ! 1"
proof -
  let ?el = "newLocalElement 0 10 [4, 7, 9]"
  let ?src = "newLocalView ?el [0, 1, 2]" and ?dst = "newLocalView ?el [2, -1, 0]"
  have "lv_ok ?src" "lv_ok ?dst" "lv_localSize ?dst = lv_localSize ?src"
    by (simp_all add: newLocalView_def newLocalElement_def lv_ok_def)
  then obtain lc where lc: "lc_computeConnector ?src ?dst (newLocalConnector ?src ?dst) = Inr lc"
    "\<forall>p<length (lv_index ?dst). let k = lv_index ?dst ! p in
         case expand (lc_mask lc) (lc_connector lc) ! p of
           None \<Rightarrow> \<not> lc_mask lc ! p \<and> (k < 0 \<or> lv_localSize ?dst \<le> k \<or> k \<notin> set (lv_index ?src))
         | Some c \<Rightarrow> lc_mask lc ! p \<and> 0 \<le> c \<and> nat c < length (lv_index ?src) \<and> lv_index ?src ! nat c = k"
    using connector_matches_cells [of ?src ?dst] by blast
  have "lc_mask lc ! 0" using lc(2) [rule_format, of 0]
    by (auto simp: newLocalView_def newLocalElement_def split: option.splits)
  moreover have "\<not> lc_mask lc ! 1" using lc(2) [rule_format, of 1]
    by (auto simp: newLocalView_def newLocalElement_def nth_Cons' split: option.splits if_splits)
  ultimately show ?thesis using lc(1) by (auto simp: Let_def)
qed

text \<open>Connectors for the dimensions of a grid, computed from pairs of views.\<close>

definition view_pair_ok :: "local_view \<times> local_view \<Rightarrow> bool" where
  "view_pair_ok = (\<lambda>(src, dst). lv_ok src \<and> lv_ok dst \<and> lv_localSize dst = lv_localSize src)"

definition compute_all :: "(local_view \<times> local_view) list \<Rightarrow> local_connector list outcome" where
  "compute_all pairs = ofold (\<lambda>(src, dst) lcs. omap (\<lambda>lc. lcs @ [lc])
     (lc_computeConnector src dst (newLocalConnector src dst))) pairs []"

definition dst_sizes :: "(local_view \<times> local_view) list \<Rightarrow> nat list" where
  "dst_sizes = map (\<lambda>(src, dst). length (lv_index dst))"

definition src_sizes :: "(local_view \<times> local_view) list \<Rightarrow> nat list" where
  "src_sizes = map (\<lambda>(src, dst). length (lv_index src))"

definition sources_at :: "(local_view \<times> local_view) list \<Rightarrow> nat list \<Rightarrow> nat option list" where
  "sources_at pairs is = map2 (\<lambda>(src, dst) i. lc_sources src dst ! i) pairs is"

lemma compute_all_ok:
  assumes "\<forall>p\<in>set pairs. view_pair_ok p"
  obtains lcs where "compute_all pairs = Inr lcs" "\<forall>lc\<in>set lcs. lc_ok lc"
    "map lc_level lcs = map (\<lambda>(src, dst). (lc_sources src dst, length (lv_index src))) pairs"
proof -
  have "\<exists>lcs. ofold (\<lambda>(src, dst) lcs. omap (\<lambda>lc. lcs @ [lc])
       (lc_computeConnector src dst (newLocalConnector src dst))) pairs acc = Inr (acc @ lcs)
     \<and> (\<forall>lc\<in>set lcs. lc_ok lc)
     \<and> map lc_level lcs = map (\<lambda>(src, dst). (lc_sources src dst, length (lv_index src))) pairs" for acc
    using assms
  proof (induction pairs arbitrary: acc)
    case (Cons p pairs)
    obtain src dst where p: "p = (src, dst)" by (cases p)
    with Cons.prems have v: "lv_ok src" "lv_ok dst" "lv_localSize dst = lv_localSize src" by (auto simp: view_pair_ok_def)
    obtain lc where lc: "lc_computeConnector src dst (newLocalConnector src dst) = Inr lc" "lc_ok lc"
      "lc_level lc = (lc_sources src dst, nat (lv_size src))" by (rule computed_connector [OF v])
    have s: "nat (lv_size src) = length (lv_index src)" using v(1) by (simp add: lv_ok_def)
    obtain lcs where "ofold (\<lambda>(src, dst) lcs. omap (\<lambda>lc. lcs @ [lc])
        (lc_computeConnector src dst (newLocalConnector src dst))) pairs (acc @ [lc]) = Inr ((acc @ [lc]) @ lcs)"
      "\<forall>lc\<in>set lcs. lc_ok lc"
      "map lc_level lcs = map (\<lambda>(src, dst). (lc_sources src dst, length (lv_index src))) pairs"
      using Cons.IH [of "acc @ [lc]"] Cons.prems by auto
    with lc s show ?case by (intro exI [of _ "lc # lcs"]) (simp add: p)
  qed simp
  from this [of "[]"] that show thesis by (auto simp: compute_all_def)
qed

lemma fetch_at:
  assumes "in_box (dst_sizes pairs) is"
    and "levels = map (\<lambda>(src, dst). (lc_sources src dst, length (lv_index src))) pairs"
  shows "length (tensor levels) = prod_list (dst_sizes pairs)"
    and "fetch m input 0 (tensor levels) ! flat (dst_sizes pairs) is
      = (if None \<in> set (sources_at pairs is) then m
         else Some (input ! flat (src_sizes pairs) (map the (sources_at pairs is))))"
proof -
  have d: "map (length \<circ> fst) levels = dst_sizes pairs"
    by (auto simp: assms(2) dst_sizes_def lc_sources_def)
  have s: "map snd levels = src_sizes pairs" by (auto simp: assms(2) src_sizes_def)
  have z: "map2 (\<lambda>l i. g (fst l ! i)) levels is = map g (sources_at pairs is)" for g :: "nat option \<Rightarrow> 'c"
    unfolding assms(2) sources_at_def
    by (induction pairs "is" rule: list_induct2') (auto simp: case_prod_beta)
  have e: "(\<exists>(l, i)\<in>set (zip levels is). fst l ! i = None) \<longleftrightarrow> None \<in> set (sources_at pairs is)"
  proof -
    have "set (map2 (\<lambda>l i. fst l ! i) levels is) = set (sources_at pairs is)"
      using z [of "\<lambda>x. x"] by simp
    then show ?thesis by (force simp: case_prod_beta)
  qed
  show l: "length (tensor levels) = prod_list (dst_sizes pairs)" by (simp add: length_tensor d)
  have "flat (dst_sizes pairs) is < length (tensor levels)" using flat_less [OF assms(1)] l by simp
  then show "fetch m input 0 (tensor levels) ! flat (dst_sizes pairs) is
      = (if None \<in> set (sources_at pairs is) then m
         else Some (input ! flat (src_sizes pairs) (map the (sources_at pairs is))))"
    using tensor_nth [of levels "is"] assms(1) by (simp add: fetch_def d s e z [of the])
qed

lemma grid_transfer:
  assumes "\<forall>p\<in>set pairs. view_pair_ok p" "pairs \<noteq> []"
    and "length input = prod_list (src_sizes pairs)" "length out = prod_list (dst_sizes pairs)"
  shows "\<exists>lcs dense sparse. compute_all pairs = Inr lcs
    \<and> lc_transfer_missing lcs input 0 0 out m = Inr dense \<and> lc_transfer lcs input 0 0 out = Inr sparse
    \<and> length dense = length out \<and> length sparse = length out
    \<and> (\<forall>is. in_box (dst_sizes pairs) is \<longrightarrow>
        (let p = flat (dst_sizes pairs) is; s = flat (src_sizes pairs) (map the (sources_at pairs is))
         in if None \<in> set (sources_at pairs is) then dense ! p = m \<and> sparse ! p = out ! p
            else dense ! p = input ! s \<and> sparse ! p = input ! s))"
proof -
  obtain lcs where lcs: "compute_all pairs = Inr lcs" "\<forall>lc\<in>set lcs. lc_ok lc"
    and lev: "map lc_level lcs = map (\<lambda>(src, dst). (lc_sources src dst, length (lv_index src))) pairs"
    by (rule compute_all_ok [OF assms(1)])
  have ne: "lcs \<noteq> []" using lev assms(2) by auto
  have "map snd (map lc_level lcs) = src_sizes pairs" unfolding lev by (auto simp: src_sizes_def)
  then have room: "0 + prod_list (map (snd \<circ> lc_level) lcs) \<le> length input" using assms(3) by simp
  have "map (length \<circ> fst) (map lc_level lcs) = dst_sizes pairs"
    unfolding lev by (auto simp: dst_sizes_def lc_sources_def)
  then have len: "length (tensor (map lc_level lcs)) = length out" using assms(4) by (simp add: length_tensor)
  note eq = lc_transfer_eq [OF lcs(2) ne room, of 0 out, simplified len, simplified]
  have at: "patch 0 (fetch m' input 0 (tensor (map lc_level lcs))) out ! flat (dst_sizes pairs) is
      = (if None \<in> set (sources_at pairs is) then (case m' of None \<Rightarrow> out ! flat (dst_sizes pairs) is | Some x \<Rightarrow> x)
         else input ! flat (src_sizes pairs) (map the (sources_at pairs is)))"
    if "in_box (dst_sizes pairs) is" for m' "is"
    using flat_less [OF that] assms(4) len fetch_at(2) [OF that lev, of m' input] by (simp add: nth_patch)
  show ?thesis
    using lcs(1) eq at [where m' = None] at [where m' = "Some m"] by (simp add: Let_def)
qed

text \<open>C6: On a grid of any number of dimensions, the transfer with a missing value from one grid of
  views to another sets every cell of the destination: to the source cell whose coordinate in
  each dimension shows the same element cell, and to the missing value if some dimension has
  none.  The transfer without missing value writes the same cells and leaves the others as they
  were.\<close>

theorem grid_transfer_cells:
  assumes "\<forall>p\<in>set pairs. view_pair_ok p" "pairs \<noteq> []"
    and "length input = prod_list (src_sizes pairs)" "length out = prod_list (dst_sizes pairs)"
  shows "\<exists>lcs dense sparse. compute_all pairs = Inr lcs
    \<and> lc_transfer_missing lcs input 0 0 out m = Inr dense \<and> lc_transfer lcs input 0 0 out = Inr sparse
    \<and> length dense = length out \<and> length sparse = length out
    \<and> (\<forall>is. in_box (dst_sizes pairs) is \<longrightarrow>
        (let p = flat (dst_sizes pairs) is; s = flat (src_sizes pairs) (map the (sources_at pairs is))
         in if None \<in> set (sources_at pairs is) then dense ! p = m \<and> sparse ! p = out ! p
            else dense ! p = input ! s \<and> sparse ! p = input ! s))"
  by (rule grid_transfer [OF assms])

theorem grid_transfer_cells_witness:
  "let el = newLocalElement 0 10 [4, 7]; full = newLocalView el [0, 1]; v = newLocalView el [1, -1]
   in \<exists>lcs dense. compute_all [(full, v), (full, v)] = Inr lcs
      \<and> lc_transfer_missing lcs ''abcd'' 0 0 ''....'' CHR ''x'' = Inr dense \<and> dense ! 0 = CHR ''d''
      \<and> dense ! 1 = CHR ''x''"
proof -
  let ?el = "newLocalElement 0 10 [4, 7]"
  let ?full = "newLocalView ?el [0, 1]" and ?v = "newLocalView ?el [1, -1]"
  let ?pairs = "[(?full, ?v), (?full, ?v)]"
  have "\<forall>p\<in>set ?pairs. view_pair_ok p"
    by (simp add: view_pair_ok_def newLocalView_def newLocalElement_def lv_ok_def)
  moreover have "length ''abcd'' = prod_list (src_sizes ?pairs)" "length ''....'' = prod_list (dst_sizes ?pairs)"
    by (simp_all add: src_sizes_def dst_sizes_def newLocalView_def)
  ultimately obtain lcs dense where r: "compute_all ?pairs = Inr lcs"
      "lc_transfer_missing lcs ''abcd'' 0 0 ''....'' CHR ''x'' = Inr dense"
    and at: "\<forall>is. in_box (dst_sizes ?pairs) is \<longrightarrow>
        (let p = flat (dst_sizes ?pairs) is; s = flat (src_sizes ?pairs) (map the (sources_at ?pairs is))
         in if None \<in> set (sources_at ?pairs is) then dense ! p = CHR ''x''
            else dense ! p = ''abcd'' ! s)"
    using grid_transfer_cells [of ?pairs "''abcd''" "''....''" "CHR ''x''"] unfolding Let_def by (metis list.distinct(1))
  have src: "lc_sources ?full ?v = [Some 1, None]"
    by (simp add: lc_sources_def newLocalView_def newLocalElement_def last_pos_def upt_rec)
  have ix: "lv_index ?full = [0, 1]" "lv_index ?v = [1, -1]" by (simp_all add: newLocalView_def)
  have box: "in_box (dst_sizes ?pairs) [0, i]" if "i < 2" for i
    using that by (simp add: in_box_def dst_sizes_def newLocalView_def)
  have "dense ! 0 = CHR ''d''" using at [rule_format, OF box [of 0]]
    by (simp add: sources_at_def src dst_sizes_def src_sizes_def ix)
  moreover have "dense ! 1 = CHR ''x''" using at [rule_format, OF box [of 1]]
    by (simp add: sources_at_def src dst_sizes_def src_sizes_def ix)
  ultimately show ?thesis using r by (auto simp: Let_def)
qed

section \<open>Round trips\<close>

text \<open>The view of all cells of the element of a view, as \<open>addFullView\<close> makes it.\<close>

definition full_of :: "local_view \<Rightarrow> local_view" where
  "full_of v = v\<lparr>lv_index := map int [0..<nat (lv_localSize v)], lv_size := lv_localSize v\<rparr>"

definition shows_once :: "local_view \<Rightarrow> bool" where
  "shows_once v = (\<forall>i<length (lv_index v). \<forall>j<length (lv_index v).
     lv_index v ! i = lv_index v ! j \<and> 0 \<le> lv_index v ! i \<and> lv_index v ! i < lv_localSize v \<longrightarrow> i = j)"

lemma full_of_addFullView:
  "el_ok el \<Longrightarrow> el_views el FULL = None \<Longrightarrow> el_views el ty = Some v \<Longrightarrow>
   el_views (el_addFullView el) FULL = Some (newLocalView el (map int [0..<nat (el_localSize el)]))
   \<and> lv_cells (newLocalView el (map int [0..<nat (el_localSize el)])) = map Some (el_globalIndex el)"
  by (auto simp: el_addFullView_def el_addView_def el_ok_def lv_cells_def cells_def newLocalView_def
      intro!: nth_equalityI)

lemma sources_of_full:
  assumes "lv_ok v" "i < length (lv_index v)"
  shows "lc_sources (full_of v) v ! i
    = (if 0 \<le> lv_index v ! i \<and> lv_index v ! i < lv_localSize v then Some (nat (lv_index v ! i)) else None)"
proof -
  let ?n = "nat (lv_localSize v)"
  have "last_pos (map int [0..<?n]) (int k) = Some k" if "k < ?n" for k
    using last_pos_distinct [of "map int [0..<?n]" k] that by (simp add: distinct_map)
  then have "0 \<le> lv_index v ! i \<and> lv_index v ! i < lv_localSize v \<Longrightarrow>
      last_pos (map int [0..<?n]) (lv_index v ! i) = Some (nat (lv_index v ! i))"
    by (metis int_nat_eq nat_less_iff nat_mono_iff zless_nat_conj order_le_less_trans)
  with assms show ?thesis by (simp add: lc_sources_def full_of_def)
qed

lemma sources_in_full:
  assumes "shows_once v" "lv_ok v" "i < length (lv_index v)" "0 \<le> lv_index v ! i" "lv_index v ! i < lv_localSize v"
  shows "lc_sources v (full_of v) ! nat (lv_index v ! i) = Some i"
proof -
  obtain j where j: "last_pos (lv_index v) (lv_index v ! i) = Some j"
    using assms(3) last_pos_None [of "lv_index v" "lv_index v ! i"] by fastforce
  then have "j = i" using assms last_pos_Some [OF j] by (auto simp: shows_once_def)
  with j assms show ?thesis by (simp add: lc_sources_def full_of_def)
qed

lemma full_of_simps [simp]: "lv_index (full_of v) = map int [0..<nat (lv_localSize v)]"
  "lv_localSize (full_of v) = lv_localSize v" "lv_ok v \<Longrightarrow> lv_ok (full_of v)"
  by (auto simp: full_of_def lv_ok_def)

definition to_full :: "local_view list \<Rightarrow> (local_view \<times> local_view) list" where
  "to_full vs = map (\<lambda>v. (v, full_of v)) vs"

definition from_full :: "local_view list \<Rightarrow> (local_view \<times> local_view) list" where
  "from_full vs = map (\<lambda>v. (full_of v, v)) vs"

lemma there_and_back:
  assumes "\<forall>v\<in>set vs. lv_ok v \<and> shows_once v" "in_box (dst_sizes (from_full vs)) is"
    and "None \<notin> set (sources_at (from_full vs) is)"
  shows "in_box (dst_sizes (to_full vs)) (map the (sources_at (from_full vs) is))
    \<and> sources_at (to_full vs) (map the (sources_at (from_full vs) is)) = map Some is"
  using assms
proof (induction vs arbitrary: "is")
  case (Cons v vs)
  from Cons.prems(2) obtain i js where i: "is = i # js" "i < length (lv_index v)" "in_box (dst_sizes (from_full vs)) js"
    by (auto simp: in_box_def list_all2_Cons1 dst_sizes_def from_full_def)
  have v: "lv_ok v" "shows_once v" using Cons.prems(1) by simp_all
  have k: "0 \<le> lv_index v ! i" "lv_index v ! i < lv_localSize v"
    using Cons.prems(3) sources_of_full [OF v(1) i(2)]
    by (auto simp: i(1) sources_at_def from_full_def split: if_splits)
  have "None \<notin> set (sources_at (from_full vs) js)" using Cons.prems(3) by (simp add: i(1) sources_at_def from_full_def)
  with Cons.IH [OF _ i(3)] Cons.prems(1)
  have ih: "in_box (dst_sizes (to_full vs)) (map the (sources_at (from_full vs) js))"
    "sources_at (to_full vs) (map the (sources_at (from_full vs) js)) = map Some js" by simp_all
  have s: "sources_at (from_full (v # vs)) is = Some (nat (lv_index v ! i)) # sources_at (from_full vs) js"
    using sources_of_full [OF v(1) i(2)] k by (simp add: i(1) sources_at_def from_full_def)
  show ?case unfolding s using ih k sources_in_full [OF v(2,1) i(2) k]
    by (simp add: i(1) in_box_def dst_sizes_def to_full_def sources_at_def)
qed (simp add: in_box_def dst_sizes_def from_full_def to_full_def sources_at_def)

text \<open>C7: Writing a field from a grid of views to the full grid and reading it back through the same
  views gives every cell the views show its value again, and the missing value to the cells out
  of range; no order of the cells and no dimension is assumed, only that no view shows a cell
  twice.\<close>

theorem view_roundtrip:
  assumes "\<forall>v\<in>set vs. lv_ok v \<and> shows_once v" "vs \<noteq> []"
    and "length input = prod_list (src_sizes (to_full vs))"
    and "length full = prod_list (dst_sizes (to_full vs))" "length out = length input"
  shows "\<exists>there home mid res. compute_all (to_full vs) = Inr there \<and> compute_all (from_full vs) = Inr home
    \<and> lc_transfer_missing there input 0 0 full m = Inr mid
    \<and> lc_transfer_missing home mid 0 0 out m = Inr res
    \<and> (\<forall>is. in_box (dst_sizes (from_full vs)) is \<longrightarrow>
         res ! flat (dst_sizes (from_full vs)) is
           = (if \<forall>(v, i)\<in>set (zip vs is). 0 \<le> lv_index v ! i \<and> lv_index v ! i < lv_localSize v
              then input ! flat (dst_sizes (from_full vs)) is else m))"
proof -
  have sizes: "src_sizes (to_full vs) = dst_sizes (from_full vs)" "dst_sizes (to_full vs) = src_sizes (from_full vs)"
    by (auto simp: src_sizes_def dst_sizes_def to_full_def from_full_def)
  have ok: "\<forall>p\<in>set (to_full vs). view_pair_ok p" "\<forall>p\<in>set (from_full vs). view_pair_ok p"
    using assms(1) by (auto simp: view_pair_ok_def to_full_def from_full_def)
  have ne: "to_full vs \<noteq> []" "from_full vs \<noteq> []" using assms(2) by (simp_all add: to_full_def from_full_def)
  obtain there mid where t: "compute_all (to_full vs) = Inr there"
    "lc_transfer_missing there input 0 0 full m = Inr mid" "length mid = length full"
    and mid: "\<And>is. in_box (dst_sizes (to_full vs)) is \<Longrightarrow> mid ! flat (dst_sizes (to_full vs)) is =
        (if None \<in> set (sources_at (to_full vs) is) then m
         else input ! flat (src_sizes (to_full vs)) (map the (sources_at (to_full vs) is)))"
    using grid_transfer [OF ok(1) ne(1) assms(3,4), of m] by (auto simp: Let_def)
  have l: "length mid = prod_list (src_sizes (from_full vs))" "length out = prod_list (dst_sizes (from_full vs))"
    using t(3) assms(3-5) sizes by simp_all
  obtain home res where b: "compute_all (from_full vs) = Inr home" "lc_transfer_missing home mid 0 0 out m = Inr res"
    and res: "\<And>is. in_box (dst_sizes (from_full vs)) is \<Longrightarrow> res ! flat (dst_sizes (from_full vs)) is =
        (if None \<in> set (sources_at (from_full vs) is) then m
         else mid ! flat (src_sizes (from_full vs)) (map the (sources_at (from_full vs) is)))"
    using grid_transfer [OF ok(2) ne(2) l, of m] by (auto simp: Let_def)
  have vis: "None \<notin> set (sources_at (from_full vs) is)
      \<longleftrightarrow> (\<forall>(v, i)\<in>set (zip vs is). 0 \<le> lv_index v ! i \<and> lv_index v ! i < lv_localSize v)"
    if "in_box (dst_sizes (from_full vs)) is" "\<forall>v\<in>set vs. lv_ok v" for "is"
    using that
  proof (induction vs arbitrary: "is")
    case (Cons v vs)
    then obtain i js where i: "is = i # js" "i < length (lv_index v)" "in_box (dst_sizes (from_full vs)) js"
      by (auto simp: in_box_def list_all2_Cons1 dst_sizes_def from_full_def)
    with Cons.IH [OF i(3)] Cons.prems(2) sources_of_full [of v i] show ?case
      by (auto simp: sources_at_def from_full_def)
  qed (simp add: sources_at_def from_full_def)
  have "res ! flat (dst_sizes (from_full vs)) is
           = (if \<forall>(v, i)\<in>set (zip vs is). 0 \<le> lv_index v ! i \<and> lv_index v ! i < lv_localSize v
              then input ! flat (dst_sizes (from_full vs)) is else m)"
    if box: "in_box (dst_sizes (from_full vs)) is" for "is"
  proof (cases "None \<in> set (sources_at (from_full vs) is)")
    case False
    note b = there_and_back [OF assms(1) box False]
    have "map (the \<circ> Some) is = is" by simp
    moreover have "None \<notin> Some ` set is" by auto
    ultimately show ?thesis
      using res [OF box] mid [OF b [THEN conjunct1]] b vis [OF box] assms(1) False sizes by simp
  qed (use res [OF box] vis [OF box] assms(1) in auto)
  with t b show ?thesis by blast
qed

theorem view_roundtrip_witness:
  "\<exists>there home mid res. let vs = [newLocalView (newLocalElement 0 10 [4, 7, 9]) [2, -1, 0]]
   in compute_all (to_full vs) = Inr there \<and> compute_all (from_full vs) = Inr home
    \<and> lc_transfer_missing there ''abc'' 0 0 ''...'' CHR ''x'' = Inr mid
    \<and> lc_transfer_missing home mid 0 0 ''...'' CHR ''x'' = Inr res
    \<and> res ! 0 = CHR ''a'' \<and> res ! 1 = CHR ''x''"
proof -
  let ?v = "newLocalView (newLocalElement 0 10 [4, 7, 9]) [2, -1, 0]"
  have ix: "lv_index ?v = [2, -1, 0]" "lv_localSize ?v = 3" "lv_ok ?v"
    by (simp_all add: newLocalView_def newLocalElement_def lv_ok_def)
  have "shows_once ?v" by (auto simp: shows_once_def ix less_Suc_eq nth_Cons')
  moreover have "length ''abc'' = prod_list (src_sizes (to_full [?v]))"
    "length ''...'' = prod_list (dst_sizes (to_full [?v]))"
    by (simp_all add: src_sizes_def dst_sizes_def to_full_def ix)
  ultimately obtain there home mid res where r: "compute_all (to_full [?v]) = Inr there"
    "compute_all (from_full [?v]) = Inr home"
    "lc_transfer_missing there ''abc'' 0 0 ''...'' CHR ''x'' = Inr mid"
    "lc_transfer_missing home mid 0 0 ''...'' CHR ''x'' = Inr res"
    and at: "\<forall>is. in_box (dst_sizes (from_full [?v])) is \<longrightarrow>
         res ! flat (dst_sizes (from_full [?v])) is
           = (if \<forall>(v, i)\<in>set (zip [?v] is). 0 \<le> lv_index v ! i \<and> lv_index v ! i < lv_localSize v
              then ''abc'' ! flat (dst_sizes (from_full [?v])) is else CHR ''x'')"
    using view_roundtrip [of "[?v]" "''abc''" "''...''" "''...''" "CHR ''x''"] ix(3) by auto
  have box: "in_box (dst_sizes (from_full [?v])) [i]" "flat (dst_sizes (from_full [?v])) [i] = i" if "i < 3" for i
    using that by (simp_all add: in_box_def dst_sizes_def from_full_def ix)
  have "res ! 0 = CHR ''a''" using at [rule_format, OF box(1), of 0] by (simp add: box(2) ix)
  moreover have "res ! 1 = CHR ''x''" using at [rule_format, OF box(1), of 1] box(2) [of 1] by (simp add: ix)
  ultimately show ?thesis using r by (auto simp: Let_def)
qed

section \<open>The kept connectors\<close>

text \<open>A local element computes the connector of a pair of view types once: when it has answered,
  it gives the same connector ever after, for any views added or replaced in between; asking for
  a view type that was never added throws and keeps nothing.\<close>

theorem getConnector_kept:
  "(\<forall>el' cs' lc f. el_getConnector s d (el, cs) = Inr ((el', cs'), lc)
       \<longrightarrow> el' = el \<and> el_getConnector s d (f el', cs') = Inr ((f el', cs'), lc)
          \<and> (\<forall>t. t \<noteq> (s, d) \<longrightarrow> cs' t = cs t))
   \<and> (cs (s, d) = None \<and> (el_views el s = None \<or> el_views el d = None)
       \<longrightarrow> el_getConnector s d (el, cs) = Inl (CException ''View is not initialized''))"
  by (auto simp: el_getConnector_def el_getView_def outcome_simps omap_def split: option.splits)

theorem getConnector_kept_witness:
  "let el = el_addFullView (newLocalElement 0 10 [4, 7])
   in \<exists>cs lc. el_getConnector FULL FULL (el, \<lambda>_. None) = Inr ((el, cs), lc)
      \<and> el_getConnector FULL FULL (el_addView FULL [1] el, cs) = Inr ((el_addView FULL [1] el, cs), lc)
      \<and> el_getConnector FULL MODEL (el, \<lambda>_. None) = Inl (CException ''View is not initialized'')"
proof -
  let ?el = "el_addFullView (newLocalElement 0 10 [4, 7])"
  have "lv_ok (newLocalView (newLocalElement 0 10 [4, 7]) (map int [0..<2]))"
    by (simp add: newLocalView_def newLocalElement_def lv_ok_def)
  then obtain cs lc where r: "el_getConnector FULL FULL (?el, \<lambda>_. None) = Inr ((?el, cs), lc)"
    by (auto simp: el_getConnector_def el_getView_def el_addFullView_def el_addView_def
        newLocalElement_def lc_computeConnector_eq)
  moreover have "el_views ?el MODEL = None" by (simp add: el_addFullView_def el_addView_def newLocalElement_def)
  ultimately show ?thesis
    using getConnector_kept [of FULL FULL ?el "\<lambda>_. None"] getConnector_kept [of FULL MODEL ?el "\<lambda>_. None"]
    unfolding Let_def by blast
qed

end
