(* ===== verification/Scatterer.thy ===== *)
theory Scatterer
  imports LocalConnectorProps
begin

text \<open>
  The connector from a local view to the views of the ranks data are sent to
  (\<open>distribution/scatterer_connector.*\<close>).  \<open>MPI_Allreduce\<close> is a parameter.
\<close>

record scatterer =
  sc_connector :: "(int, int list) std_map"
  sc_mask :: "(int, bool list) std_map"
  sc_remoteCommSize :: int
  sc_nbSenders :: "(int, int) std_map"
  sc_srcSize :: int
  sc_dstSize :: "(int, int) std_map"

definition newScatterer :: "int \<Rightarrow> scatterer" where
  "newScatterer remoteCommSize = \<lparr>sc_connector = [], sc_mask = [], sc_remoteCommSize = remoteCommSize,
     sc_nbSenders = [], sc_srcSize = 0, sc_dstSize = []\<rparr>"

text \<open>\<open>mapGlobalLocalIndex\<close>: the position of a view for each global index it shows.\<close>

definition global_positions :: "int \<Rightarrow> int list \<Rightarrow> nat list \<Rightarrow> (nat \<rightharpoonup> int) outcome" where
  "global_positions localSize index globalIndex =
     ofold (\<lambda>i m. let k = index ! i in
         if 0 \<le> k \<and> k < localSize then omap (\<lambda>g. hash_put g (int i) m) (arr_get globalIndex k) else Inr m)
       [0..<length index] Map.empty"

text \<open>The entries of connector and mask for the positions of a view.\<close>

definition match_index ::
  "(nat \<rightharpoonup> int) \<Rightarrow> nat list \<Rightarrow> int list \<Rightarrow> int list \<times> bool list \<Rightarrow> int list \<times> bool list" where
  "match_index mapGlobalLocalIndex globalIndex =
     fold (\<lambda>k (connector, msk).
         if 0 \<le> k \<and> k < int (length globalIndex)
         then (case mapGlobalLocalIndex (globalIndex ! nat k) of
                 Some l \<Rightarrow> (connector @ [l], msk @ [True])
               | None \<Rightarrow> (connector, msk @ [False]))
         else (connector, msk @ [False]))"

definition sc_computeConnector ::
  "(int list \<Rightarrow> int list) \<Rightarrow> local_view \<Rightarrow> distributed_view \<Rightarrow> scatterer \<Rightarrow> scatterer outcome" where
  "sc_computeConnector allreduce src dst sc =
     obind (global_positions (lv_localSize src) (lv_index src) (lv_globalIndex src)) (\<lambda>positions.
     let sc = sc\<lparr>sc_srcSize := int (length (lv_index src)),
                 sc_dstSize := fold (\<lambda>(rank, index). std_put rank (int (length index))) (dv_index dst) (sc_dstSize sc)\<rparr>;
         sc = fold (\<lambda>(rank, index) sc.
                let (connector, msk) = match_index positions (std_at [] (dv_globalIndex dst) rank) index
                                         (std_at [] (sc_connector sc) rank, [])
                in sc\<lparr>sc_connector := std_put rank connector (sc_connector sc),
                      sc_mask := std_put rank msk (sc_mask sc)\<rparr>)
              (dv_index dst) sc
     in obind (ofold (\<lambda>(rank, connector) ranks. arr_set ranks rank 1) (sc_connector sc)
                (replicate (nat (sc_remoteCommSize sc)) 0)) (\<lambda>ranks.
        let ranks = allreduce ranks
        in ofold (\<lambda>(rank, connector) sc. omap (\<lambda>n. sc\<lparr>sc_nbSenders := std_put rank n (sc_nbSenders sc)\<rparr>)
             (arr_get ranks rank)) (sc_connector sc) sc))"

section \<open>Transfers\<close>

text \<open>\<open>resize\<close> allocates only if the size changes.\<close>

definition resize_array :: "(nat \<Rightarrow> 'a) \<Rightarrow> int \<Rightarrow> 'a list \<Rightarrow> 'a list" where
  "resize_array junk n xs = (if int (length xs) = n then xs else fresh_array junk (nat n))"

text \<open>\<open>for (k=0; k<n; k++) out[q+k] = in[p+k]\<close>\<close>

definition copy_block :: "'a list \<Rightarrow> int \<Rightarrow> int \<Rightarrow> nat \<Rightarrow> 'a list \<Rightarrow> 'a list outcome" where
  "copy_block input p q n out =
     ofold (\<lambda>k out. obind (arr_get input (p + int k)) (arr_set out (q + int k))) [0..<n] out"

definition sc_transfer ::
  "(int \<Rightarrow> nat \<Rightarrow> 'a) \<Rightarrow> scatterer \<Rightarrow> nat \<Rightarrow> nat \<Rightarrow> 'a list \<Rightarrow> (int, 'a list) std_map
     \<Rightarrow> (int, 'a list) std_map outcome" where
  "sc_transfer junk sc rep sizeT dataIn dataOut =
     (let srcSlice = int sizeT * sc_srcSize sc
      in ofold (\<lambda>(rank, connector) dataOut.
           let msk = std_at [] (sc_mask sc) rank;
               dstSlice = int (length msk) * int sizeT;
               data = resize_array (junk rank) (int rep * dstSlice) (std_at [] dataOut rank)
           in omap (\<lambda>data. std_put rank data dataOut)
               (ofold (\<lambda>l. masked_loop False msk connector
                   (\<lambda>i c. copy_block dataIn (int l * srcSlice + c * int sizeT)
                             (int l * dstSlice + int i * int sizeT) sizeT)
                   (\<lambda>i data. Inr data)) [0..<rep] data))
         (sc_connector sc) dataOut)"

text \<open>With a missing value, the loop counts \<open>j\<close> up on the other branch as well.\<close>

definition sc_transfer_missing ::
  "(int \<Rightarrow> nat \<Rightarrow> 'a) \<Rightarrow> scatterer \<Rightarrow> nat \<Rightarrow> nat \<Rightarrow> 'a list \<Rightarrow> (int, 'a list) std_map \<Rightarrow> 'a
     \<Rightarrow> (int, 'a list) std_map outcome" where
  "sc_transfer_missing junk sc rep sizeT dataIn dataOut missingValue =
     (let srcSlice = int sizeT * sc_srcSize sc
      in ofold (\<lambda>(rank, connector) dataOut.
           let msk = std_at [] (sc_mask sc) rank;
               dstSlice = int (length msk) * int sizeT;
               data = resize_array (junk rank) (int rep * dstSlice) (std_at [] dataOut rank)
           in omap (\<lambda>data. std_put rank data dataOut)
               (ofold (\<lambda>l. masked_loop True msk connector
                   (\<lambda>i c. copy_block dataIn (int l * srcSlice + c * int sizeT)
                             (int l * dstSlice + int i * int sizeT) sizeT)
                   (\<lambda>i. fill (int l * dstSlice + int i * int sizeT) (int sizeT) missingValue)) [0..<rep] data))
         (sc_connector sc) dataOut)"

fun sc_getSrcSliceSize :: "scatterer list \<Rightarrow> int" where
  "sc_getSrcSliceSize [] = 1"
| "sc_getSrcSliceSize (sc # connectors) =
    (if connectors = [] then sc_srcSize sc else sc_srcSize sc * sc_getSrcSliceSize connectors)"

fun sc_getDstSliceSize :: "int \<Rightarrow> scatterer list \<Rightarrow> int" where
  "sc_getDstSliceSize rank [] = 1"
| "sc_getDstSliceSize rank (sc # connectors) =
    (if connectors = [] then std_at 0 (sc_dstSize sc) rank
     else std_at 0 (sc_dstSize sc) rank * sc_getDstSliceSize rank connectors)"

text \<open>The transfer to one rank over the dimensions of a grid.\<close>

fun sc_transfer_rank :: "int \<Rightarrow> scatterer list \<Rightarrow> 'a list \<Rightarrow> int \<Rightarrow> int \<Rightarrow> 'a list \<Rightarrow> 'a list outcome" where
  "sc_transfer_rank rank [] input inp out output = Inr output"
| "sc_transfer_rank rank (sc # connectors) input inp out output =
    (let connector = std_at [] (sc_connector sc) rank; msk = std_at [] (sc_mask sc) rank
     in if connectors = []
        then masked_loop False msk connector
               (\<lambda>i c output. obind (arr_get input (inp + c)) (arr_set output (out + int i)))
               (\<lambda>i output. Inr output) output
        else (let srcSliceSize = sc_getSrcSliceSize connectors; dstSliceSize = sc_getDstSliceSize rank connectors
              in masked_loop False msk connector
                   (\<lambda>i c output. sc_transfer_rank rank connectors input (inp + c * srcSliceSize)
                                   (out + int i * dstSliceSize) output)
                   (\<lambda>i output. Inr output) output))"

text \<open>The messages of an event: the rank, the number of senders and the data.\<close>

definition sc_sendToServer :: "scatterer \<Rightarrow> (int, 'a list) std_map \<Rightarrow> (int \<times> int \<times> 'a list) list" where
  "sc_sendToServer sc dataOut = map (\<lambda>(rank, data). (rank, std_at 0 (sc_nbSenders sc) rank, data)) dataOut"

definition sc_transfer_event :: "(int \<Rightarrow> nat \<Rightarrow> 'a) \<Rightarrow> scatterer \<Rightarrow> nat \<Rightarrow> 'a list \<Rightarrow> (int \<times> int \<times> 'a list) list outcome" where
  "sc_transfer_event junk sc sizeT dataIn = omap (sc_sendToServer sc) (sc_transfer junk sc 1 sizeT dataIn [])"

end
