(* ===== verification/ScattererProps.thy ===== *)
theory ScattererProps
  imports Scatterer
begin

text \<open>
  Scatterers: the computed connector sends each position of a rank's view to the last position
  of the source view that shows the same global index, and a transfer copies the blocks of cells
  accordingly.
\<close>

section \<open>Computing the connector\<close>

definition position_of :: "nat option list \<Rightarrow> nat \<Rightarrow> nat option" where
  "position_of cs g = find (\<lambda>i. cs ! i = Some g) (rev [0..<length cs])"

lemma position_of_Some: "position_of cs g = Some i \<Longrightarrow> i < length cs \<and> cs ! i = Some g"
  by (auto simp: position_of_def dest: find_SomeD)

lemma position_of_None: "position_of cs g = None \<longleftrightarrow> Some g \<notin> set cs"
  by (auto simp: position_of_def find_None_iff in_set_conv_nth)

lemma global_positions_eq:
  assumes "localSize = int (length gs)"
  shows "global_positions localSize index gs = Inr (\<lambda>g. map_option int (position_of (cells index gs) g))"
proof -
  let ?f = "\<lambda>i m. let k = index ! i in
         if 0 \<le> k \<and> k < localSize then omap (\<lambda>g. hash_put g (int i) m) (arr_get gs k) else Inr m"
  let ?P = "\<lambda>n m. m = (\<lambda>g. map_option int (find (\<lambda>i. cells index gs ! i = Some g) (rev [0..<n])))"
  have "\<exists>t. ofold ?f [0..<length index] Map.empty = Inr t \<and> ?P (length index) t"
  proof (rule ofold_upto [where P = ?P])
    fix i s assume i: "i < length index" and s: "?P i s"
    show "\<exists>t. ?f i s = Inr t \<and> ?P (Suc i) t"
    proof (cases "0 \<le> index ! i \<and> index ! i < localSize")
      case True
      then have "?f i s = Inr (s(gs ! nat (index ! i) \<mapsto> int i))" using assms by (simp add: Let_def hash_put_def)
      moreover have "cells index gs ! i = Some (gs ! nat (index ! i))" using True i assms by (simp add: cells_nth Let_def)
      then have "?P (Suc i) (s(gs ! nat (index ! i) \<mapsto> int i))" using s by (auto simp: fun_eq_iff)
      ultimately show ?thesis by blast
    next
      case False
      then have "cells index gs ! i = None" using i assms by (auto simp: cells_nth Let_def)
      with False s show ?thesis by (auto simp: Let_def)
    qed
  qed simp
  then show ?thesis by (auto simp: global_positions_def position_of_def)
qed

text \<open>The source position of each position of a rank.\<close>

definition sources :: "nat option list \<Rightarrow> nat option list \<Rightarrow> nat option list" where
  "sources srcs dsts = map (\<lambda>c. Option.bind c (position_of srcs)) dsts"

lemma match_index_eq:
  "match_index (\<lambda>g. map_option int (position_of srcs g)) gs index (connector, msk)
    = (connector @ map int (shown (sources srcs (cells index gs))),
       msk @ map (\<lambda>e. e \<noteq> None) (sources srcs (cells index gs)))"
  by (induction index arbitrary: connector msk)
    (auto simp: match_index_def sources_def cells_def split: option.split)

section \<open>Transfers\<close>

lemma copy_block_eq:
  assumes "p + n \<le> length input" "q + n \<le> length out"
  shows "copy_block input (int p) (int q) n out = Inr (patch q (map (\<lambda>k. Some (input ! (p + k))) [0..<n]) out)"
proof -
  let ?f = "\<lambda>k out. obind (arr_get input (int p + int k)) (arr_set out (int q + int k))"
  let ?P = "\<lambda>m o'. o' = patch q (map (\<lambda>k. Some (input ! (p + k))) [0..<m]) out"
  have "\<exists>t. ofold ?f [0..<n] out = Inr t \<and> ?P n t"
  proof (rule ofold_upto [where P = ?P])
    fix i s assume i: "i < n" and s: "?P i s"
    have "arr_get input (int p + int i) = Inr (input ! (p + i))" using i assms(1)
      by (simp flip: of_nat_add)
    moreover have "arr_set s (int q + int i) x = Inr (patch (q + i) [Some x] s)" for x
      using i s assms(2) arr_set_patch [of "q + i" s x] by simp
    ultimately show "\<exists>t. ?f i s = Inr t \<and> ?P (Suc i) t" using s by (simp add: patch_append)
  qed simp
  then show ?thesis by (auto simp: copy_block_def)
qed

text \<open>What a slice of a transfer writes, from the input at \<open>base\<close>.\<close>

definition blocks :: "'a option \<Rightarrow> 'a list \<Rightarrow> nat \<Rightarrow> nat \<Rightarrow> nat option list \<Rightarrow> 'a option list" where
  "blocks m input base sizeT es = concat (map (\<lambda>e. case e of
      None \<Rightarrow> replicate sizeT m
    | Some c \<Rightarrow> map (\<lambda>k. Some (input ! (base + c * sizeT + k))) [0..<sizeT]) es)"

lemma length_blocks [simp]: "length (blocks m input base sizeT es) = length es * sizeT"
  by (induction es) (auto simp: blocks_def split: option.split)

lemma blocks_nth:
  assumes "i < length es" "k < sizeT"
  shows "blocks m input base sizeT es ! (i * sizeT + k)
    = (case es ! i of None \<Rightarrow> m | Some c \<Rightarrow> Some (input ! (base + c * sizeT + k)))"
  unfolding blocks_def using assms
  by (subst nth_concat_equal) (auto split: option.split)

lemma slice_loop:
  assumes "\<forall>c. Some c \<in> set es \<longrightarrow> c < srcSize" "base + srcSize * sizeT \<le> length input"
    and "off + length es * sizeT \<le> length out"
    and other: "\<And>i out'. i < length es \<Longrightarrow> length out' = length out \<Longrightarrow>
        other i out' = Inr (patch (off + i * sizeT) (replicate sizeT m) out')"
  shows "masked_loop False (map (\<lambda>e. e \<noteq> None) es) (map int (shown es))
      (\<lambda>i c. copy_block input (int base + c * int sizeT) (int off + int i * int sizeT) sizeT)
      other out = Inr (patch off (blocks m input base sizeT es) out)"
proof -
  let ?g = "\<lambda>e. case map_option nat e of None \<Rightarrow> replicate sizeT m
      | Some c \<Rightarrow> map (\<lambda>k. Some (input ! (base + c * sizeT + k))) [0..<sizeT]"
  have "masked_loop False (map (\<lambda>e. e \<noteq> None) es) (map int (shown es))
      (\<lambda>i c. copy_block input (int base + c * int sizeT) (int off + int i * int sizeT) sizeT)
      other out
    = Inr (patch off (concat (map ?g (expand (map (\<lambda>e. e \<noteq> None) es) (map int (shown es))))) out)"
  proof (rule connector_loop [where N = "length out" and D = sizeT])
    fix i k out'
    assume i: "i < length (map (\<lambda>e. e \<noteq> None) es)" and l: "length (out' :: 'a list) = length out"
      and k: "Some k \<in> set (expand (map (\<lambda>e. e \<noteq> None) es) (map int (shown es)))"
    from k obtain c where c: "k = int c" "Some c \<in> set es" by (auto simp: expand_sources Some_map_option simp del: not_None_eq)
    then have "Suc c * sizeT \<le> srcSize * sizeT" using assms(1) by (intro mult_le_mono1) (simp add: Suc_leI)
    moreover have "Suc i * sizeT \<le> length es * sizeT" using i by (intro mult_le_mono1) simp
    ultimately have "base + c * sizeT + sizeT \<le> length input" "off + i * sizeT + sizeT \<le> length out'"
      using assms(2,3) l by simp_all
    from copy_block_eq [OF this]
    show "copy_block input (int base + k * int sizeT) (int off + int i * int sizeT) sizeT out'
        = Inr (patch (off + i * sizeT) (?g (Some k)) out')" by (simp add: c(1))
  qed (auto simp: wanted_sources other split: option.split simp del: not_None_eq)
  moreover have "?g (map_option int e) = (case e of None \<Rightarrow> replicate sizeT m
      | Some c \<Rightarrow> map (\<lambda>k. Some (input ! (base + c * sizeT + k))) [0..<sizeT])" for e
    by (cases e) simp_all
  then have "map ?g (map (map_option int) es) = map (\<lambda>e. case e of None \<Rightarrow> replicate sizeT m
      | Some c \<Rightarrow> map (\<lambda>k. Some (input ! (base + c * sizeT + k))) [0..<sizeT]) es"
    unfolding list.map_comp comp_def by (intro map_cong refl)
  ultimately show ?thesis
    by (simp only: expand_sources blocks_def)
qed

lemma slices_loop:
  assumes "\<forall>c. Some c \<in> set es \<longrightarrow> c < srcSize" "rep * (sizeT * srcSize) \<le> length input"
    and "length out = rep * (length es * sizeT)"
    and other: "\<And>l i out'. l < rep \<Longrightarrow> i < length es \<Longrightarrow> length out' = length out \<Longrightarrow>
        other l i out' = Inr (patch (l * (length es * sizeT) + i * sizeT) (replicate sizeT m) out')"
  shows "ofold (\<lambda>l. masked_loop False (map (\<lambda>e. e \<noteq> None) es) (map int (shown es))
            (\<lambda>i c. copy_block input (int l * (int sizeT * int srcSize) + c * int sizeT)
                     (int l * (int (length es) * int sizeT) + int i * int sizeT) sizeT)
            (other l)) [0..<rep] out
      = Inr (patch 0 (concat (map (\<lambda>l. blocks m input (l * (sizeT * srcSize)) sizeT es) [0..<rep])) out)"
proof -
  let ?S = "sizeT * srcSize" and ?D = "length es * sizeT"
  let ?f = "\<lambda>l. masked_loop False (map (\<lambda>e. e \<noteq> None) es) (map int (shown es))
            (\<lambda>i c. copy_block input (int l * (int sizeT * int srcSize) + c * int sizeT)
                     (int l * (int (length es) * int sizeT) + int i * int sizeT) sizeT)
            (other l)"
  let ?res = "\<lambda>n. concat (map (\<lambda>l. blocks m input (l * ?S) sizeT es) [0..<n])"
  let ?P = "\<lambda>n o'. o' = patch 0 (?res n) out"
  have len: "length (?res n) = n * ?D" for n by (induction n) simp_all
  have "\<exists>t. ofold ?f [0..<rep] out = Inr t \<and> ?P rep t"
  proof (rule ofold_upto [where P = ?P])
    fix l s assume l: "l < rep" and s: "?P l s"
    have "Suc l * ?S \<le> rep * ?S" "Suc l * ?D \<le> rep * ?D" using l by (intro mult_le_mono1; simp)+
    then have "l * ?S + srcSize * sizeT \<le> length input" "l * ?D + length es * sizeT \<le> length s"
      using assms(2,3) s by (simp_all add: mult.commute [of srcSize])
    note slice_loop [OF assms(1) this, where other = "other l" and m = m]
    then have "?f l s = Inr (patch (l * ?D) (blocks m input (l * ?S) sizeT es) s)"
      using other [OF l] s by simp
    then show "\<exists>t. ?f l s = Inr t \<and> ?P (Suc l) t" using s by (simp add: patch_append len)
  qed simp
  then show ?thesis by simp
qed

section \<open>The computed scatterer\<close>

definition dv_cells :: "distributed_view \<Rightarrow> int \<Rightarrow> int list \<Rightarrow> nat option list" where
  "dv_cells v rank index = cells index (std_at [] (dv_globalIndex v) rank)"

definition sc_sources :: "local_view \<Rightarrow> distributed_view \<Rightarrow> int \<Rightarrow> int list \<Rightarrow> nat option list" where
  "sc_sources src dst rank index = sources (lv_cells src) (dv_cells dst rank index)"

text \<open>What \<open>computeConnector\<close> leaves.\<close>

definition sc_computed :: "local_view \<Rightarrow> distributed_view \<Rightarrow> scatterer \<Rightarrow> bool" where
  "sc_computed src dst sc = (sc_srcSize sc = int (length (lv_index src)) \<and> in_order (dv_index dst)
     \<and> sc_dstSize sc = map (\<lambda>(rank, index). (rank, int (length index))) (dv_index dst)
     \<and> sc_connector sc = map (\<lambda>(rank, index). (rank, map int (shown (sc_sources src dst rank index)))) (dv_index dst)
     \<and> sc_mask sc = map (\<lambda>(rank, index). (rank, map (\<lambda>e. e \<noteq> None) (sc_sources src dst rank index))) (dv_index dst))"

lemma length_sc_sources [simp]: "length (sc_sources src dst rank index) = length index"
  by (simp add: sc_sources_def sources_def dv_cells_def)

lemma sc_sources_less: "Some c \<in> set (sc_sources src dst rank index) \<Longrightarrow> c < length (lv_index src)"
proof -
  assume "Some c \<in> set (sc_sources src dst rank index)"
  then obtain g where "position_of (lv_cells src) g = Some c"
    by (auto simp: sc_sources_def sources_def bind_eq_Some_conv dest!: sym [of "Some c"])
  from position_of_Some [OF this] show ?thesis by (simp add: lv_cells_def)
qed

lemma match_fold:
  assumes "in_order m" "\<forall>k\<in>fst ` set m. \<forall>l\<in>fst ` set cs. l < k" "\<forall>k\<in>fst ` set m. \<forall>l\<in>fst ` set ms. l < k"
  shows "fold (\<lambda>(rank, index) sc.
        let (connector, msk) = match_index (\<lambda>g. map_option int (position_of srcs g)) (gs rank) index
                                 (std_at [] (sc_connector sc) rank, [])
        in sc\<lparr>sc_connector := std_put rank connector (sc_connector sc), sc_mask := std_put rank msk (sc_mask sc)\<rparr>)
      m (sc\<lparr>sc_connector := cs, sc_mask := ms\<rparr>)
    = sc\<lparr>sc_connector := cs @ map (\<lambda>(rank, index). (rank, map int (shown (sources srcs (cells index (gs rank)))))) m,
         sc_mask := ms @ map (\<lambda>(rank, index). (rank, map (\<lambda>e. e \<noteq> None) (sources srcs (cells index (gs rank))))) m\<rparr>"
  using assms
proof (induction m arbitrary: cs ms)
  case (Cons e m)
  obtain k v where e: "e = (k, v)" by (cases e)
  let ?es = "sources srcs (cells v (gs k))"
  let ?cs = "cs @ [(k, map int (shown ?es))]" and ?ms = "ms @ [(k, map (\<lambda>e. e \<noteq> None) ?es)]"
  have "std_at [] cs k = []" using Cons.prems(2) e by (intro std_at_less) simp
  moreover have "std_put k (map int (shown ?es)) cs = ?cs" "std_put k (map (\<lambda>e. e \<noteq> None) ?es) ms = ?ms"
    using Cons.prems(2,3) e by (auto intro!: std_put_last)
  moreover have "in_order m" "\<forall>k'\<in>fst ` set m. \<forall>l\<in>fst ` set ?cs. l < k'" "\<forall>k'\<in>fst ` set m. \<forall>l\<in>fst ` set ?ms. l < k'"
    using Cons.prems by (auto simp: e in_order_Cons)
  note Cons.IH [OF this]
  ultimately show ?case by (simp add: e match_index_eq Let_def del: not_None_eq)
qed simp

theorem sc_computeConnector_eq:
  assumes "lv_ok src" "in_order (dv_index dst)" "\<forall>rank\<in>fst ` set (dv_index dst). 0 \<le> rank \<and> rank < n"
    and "\<And>xs. length (allreduce xs) = length xs"
  obtains sc where "sc_computeConnector allreduce src dst (newScatterer n) = Inr sc" "sc_computed src dst sc"
    "sc_nbSenders sc = map (\<lambda>(rank, index). (rank, allreduce (map (\<lambda>r. if int r \<in> fst ` set (dv_index dst) then 1 else 0)
        [0..<nat n]) ! nat rank)) (dv_index dst)"
proof -
  let ?m = "dv_index dst"
  define sc0 where "sc0 = (newScatterer n)\<lparr>sc_srcSize := int (length (lv_index src)),
     sc_dstSize := map (\<lambda>(rank, index). (rank, int (length index))) ?m\<rparr>"
  define conn where "conn = map (\<lambda>(rank, index). (rank, map int (shown (sc_sources src dst rank index)))) ?m"
  define sc1 where "sc1 = sc0\<lparr>sc_connector := conn,
     sc_mask := map (\<lambda>(rank, index). (rank, map (\<lambda>e. e \<noteq> None) (sc_sources src dst rank index))) ?m\<rparr>"
  have keys: "fst ` set conn = fst ` set ?m" by (simp add: conn_def)
  have ord: "in_order conn" unfolding conn_def by (rule in_order_map [OF assms(2)])
  have fold1: "fold (\<lambda>(rank, index) sc.
        let (connector, msk) = match_index (\<lambda>g. map_option int (position_of (lv_cells src) g))
              (std_at [] (dv_globalIndex dst) rank) index (std_at [] (sc_connector sc) rank, [])
        in sc\<lparr>sc_connector := std_put rank connector (sc_connector sc), sc_mask := std_put rank msk (sc_mask sc)\<rparr>)
      ?m sc0 = sc1"
    using match_fold [OF assms(2), of "[]" "[]" "lv_cells src" "\<lambda>rank. std_at [] (dv_globalIndex dst) rank" sc0]
    by (simp add: sc1_def conn_def sc_sources_def dv_cells_def sc0_def newScatterer_def del: not_None_eq)
  define flags where "flags = map (\<lambda>r. if int r \<in> fst ` set ?m then 1 else (0::int)) [0..<nat n]"
  have marks: "ofold (\<lambda>(rank, connector) ranks. arr_set ranks rank 1) c (map (\<lambda>r. if int r \<in> A then 1 else 0) [0..<nat n])
      = Inr (map (\<lambda>r. if int r \<in> A \<union> fst ` set c then 1 else (0::int)) [0..<nat n])"
    if "\<forall>rank\<in>fst ` set c. 0 \<le> rank \<and> rank < n" for A and c :: "(int, int list) std_map"
    using that
  proof (induction c arbitrary: A)
    case (Cons e c)
    obtain k v where e: "e = (k, v)" by (cases e)
    with Cons.prems have k: "0 \<le> k" "k < n" by simp_all
    then have "(map (\<lambda>r. if int r \<in> A then 1 else 0) [0..<nat n])[nat k := 1]
        = map (\<lambda>r. if int r \<in> insert k A then 1 else (0::int)) [0..<nat n]"
      by (intro nth_equalityI) (auto simp: nth_list_update)
    with Cons.IH [of "insert k A"] Cons.prems k show ?case by (simp add: e)
  qed simp
  have "map (\<lambda>r. if int r \<in> {} then 1 else (0::int)) [0..<nat n] = replicate (nat n) 0"
    by (simp add: map_replicate_const)
  with marks [of conn "{}"] assms(3) have flags: "ofold (\<lambda>(rank, connector) ranks. arr_set ranks rank 1) conn
      (replicate (nat n) 0) = Inr flags" by (simp add: keys flags_def)
  have nb: "ofold (\<lambda>(rank, connector) sc. omap (\<lambda>x. sc\<lparr>sc_nbSenders := std_put rank x (sc_nbSenders sc)\<rparr>)
      (arr_get (allreduce flags) rank)) c sc
     = Inr (sc\<lparr>sc_nbSenders := fold (\<lambda>(rank, _). std_put rank (allreduce flags ! nat rank)) c (sc_nbSenders sc)\<rparr>)"
    if "\<forall>rank\<in>fst ` set c. 0 \<le> rank \<and> rank < n" for c :: "(int, int list) std_map" and sc
    using that by (induction c arbitrary: sc) (auto simp: assms(4) flags_def)
  let ?sc = "sc1\<lparr>sc_nbSenders := map (\<lambda>(rank, _). (rank, allreduce flags ! nat rank)) conn\<rparr>"
  have "sc_computeConnector allreduce src dst (newScatterer n) = Inr ?sc"
  proof -
    have "global_positions (lv_localSize src) (lv_index src) (lv_globalIndex src)
        = Inr (\<lambda>g. map_option int (position_of (lv_cells src) g))"
      unfolding lv_cells_def by (rule global_positions_eq) (use assms(1) in \<open>simp add: lv_ok_def\<close>)
    moreover have "(newScatterer n)\<lparr>sc_srcSize := int (length (lv_index src)),
         sc_dstSize := fold (\<lambda>(rank, index). std_put rank (int (length index))) ?m (sc_dstSize (newScatterer n))\<rparr> = sc0"
      using fold_put_id [OF assms(2), of "\<lambda>_ index. int (length index)"] by (simp add: sc0_def newScatterer_def)
    moreover have "sc_connector sc1 = conn" "sc_remoteCommSize sc1 = n" "sc_nbSenders sc1 = []"
      by (simp_all add: sc1_def sc0_def newScatterer_def)
    ultimately show ?thesis
      using nb [of conn sc1] assms(3) fold_put_id [OF ord, of "\<lambda>rank _. allreduce flags ! nat rank"]
      by (simp only: sc_computeConnector_def obind.simps Let_def fold1 [unfolded Let_def] flags keys)
  qed
  moreover have "sc_computed src dst ?sc" using assms(2)
    by (simp add: sc_computed_def sc1_def sc0_def conn_def del: not_None_eq)
  moreover have "sc_nbSenders ?sc = map (\<lambda>(rank, index). (rank, allreduce flags ! nat rank)) ?m"
    by (simp add: conn_def case_prod_beta comp_def)
  ultimately show thesis by (intro that [of ?sc]) (simp_all add: flags_def)
qed

end
