(* ===== verification/ScattererClaims.thy ===== *)
theory ScattererClaims
  imports ScattererProps
begin

text \<open>The properties of scatterers.\<close>

lemma computed_at:
  assumes "sc_computed src dst sc" "(rank, index) \<in> set (dv_index dst)"
  shows "std_at [] (sc_mask sc) rank = map (\<lambda>e. e \<noteq> None) (sc_sources src dst rank index)"
    and "std_at [] (sc_connector sc) rank = map int (shown (sc_sources src dst rank index))"
    and "std_at 0 (sc_dstSize sc) rank = int (length index)"
  using assms in_order_map_of [of "dv_index dst" rank index]
  by (auto simp: sc_computed_def std_at_map simp del: not_None_eq)

text \<open>The data of a rank after a transfer of \<open>rep\<close> slices of blocks of \<open>sizeT\<close> values.\<close>

definition scattered ::
  "(nat \<Rightarrow> 'a) \<Rightarrow> 'a option \<Rightarrow> nat \<Rightarrow> nat \<Rightarrow> nat \<Rightarrow> nat option list \<Rightarrow> 'a list \<Rightarrow> 'a list" where
  "scattered junk m rep sizeT srcSize es input =
     patch 0 (concat (map (\<lambda>l. blocks m input (l * (sizeT * srcSize)) sizeT es) [0..<rep]))
       (fresh_array junk (rep * (length es * sizeT)))"

lemma resize_empty: "resize_array junk (int rep * (int n * int sizeT)) [] = fresh_array junk (rep * (n * sizeT))"
proof (cases "rep * (n * sizeT) = 0")
  case True
  then have "int rep * (int n * int sizeT) = 0" by (metis of_nat_0 of_nat_mult)
  with True show ?thesis by (simp add: resize_array_def fresh_array_def)
next
  case False
  then have "int rep * (int n * int sizeT) \<noteq> 0" by simp
  moreover have "nat (int rep * (int n * int sizeT)) = rep * (n * sizeT)" by (simp add: nat_mult_distrib)
  ultimately show ?thesis by (simp add: resize_array_def)
qed

lemma sc_transfer_eq:
  assumes "sc_computed src dst sc" "rep * (sizeT * length (lv_index src)) \<le> length input"
  shows "sc_transfer junk sc rep sizeT input []
    = Inr (map (\<lambda>(rank, index). (rank, scattered (junk rank) None rep sizeT (length (lv_index src))
             (sc_sources src dst rank index) input)) (dv_index dst))"
proof -
  let ?es = "sc_sources src dst" and ?n = "length (lv_index src)"
  have ord: "in_order (dv_index dst)" and n: "sc_srcSize sc = int ?n"
    and conn: "sc_connector sc = map (\<lambda>(rank, index). (rank, map int (shown (?es rank index)))) (dv_index dst)"
    using assms(1) by (simp_all add: sc_computed_def)
  let ?F = "\<lambda>(rank, connector) dataOut.
           let msk = std_at [] (sc_mask sc) rank;
               dstSlice = int (length msk) * int sizeT;
               data = resize_array (junk rank) (int rep * dstSlice) (std_at [] dataOut rank)
           in omap (\<lambda>data. std_put rank data dataOut)
               (ofold (\<lambda>l. masked_loop False msk connector
                   (\<lambda>i c. copy_block input (int l * (int sizeT * int ?n) + c * int sizeT)
                             (int l * dstSlice + int i * int sizeT) sizeT)
                   (\<lambda>i data. Inr data)) [0..<rep] data)"
  have "?F (rank, map int (shown (?es rank index))) dataOut
      = Inr (std_put rank (scattered (junk rank) None rep sizeT ?n (?es rank index) input) dataOut)"
    if m: "(rank, index) \<in> set (dv_index dst)" and less: "\<forall>l\<in>fst ` set dataOut. l < rank" for rank index dataOut
  proof -
    have r: "resize_array (junk rank) (int rep * (int (length index) * int sizeT)) []
        = fresh_array (junk rank) (rep * (length index * sizeT))"
      by (rule resize_empty)
    have lt: "\<forall>c. Some c \<in> set (?es rank index) \<longrightarrow> c < ?n" by (auto dest: sc_sources_less)
    show ?thesis
      using slices_loop [OF lt assms(2), of "fresh_array (junk rank) (rep * (length index * sizeT))"
          "\<lambda>_ _. Inr" None]
      by (simp add: Let_def computed_at [OF assms(1) m] std_at_less [OF less] r scattered_def del: not_None_eq)
  qed
  then have "ofold ?F (map (\<lambda>(rank, index). (rank, map int (shown (?es rank index)))) (dv_index dst)) []
      = Inr (map (\<lambda>(rank, index). (rank, scattered (junk rank) None rep sizeT ?n (?es rank index) input)) (dv_index dst))"
  proof -
    assume F: "\<And>rank index dataOut. (rank, index) \<in> set (dv_index dst) \<Longrightarrow> \<forall>l\<in>fst ` set dataOut. l < rank \<Longrightarrow>
      ?F (rank, map int (shown (?es rank index))) dataOut
      = Inr (std_put rank (scattered (junk rank) None rep sizeT ?n (?es rank index) input) dataOut)"
    have "ofold ?F (map (\<lambda>(rank, index). (rank, map int (shown (?es rank index)))) m) acc
        = ofold (\<lambda>(rank, index). ?F (rank, map int (shown (?es rank index)))) m acc" for m acc
    proof (induction m arbitrary: acc)
      case (Cons e m)
      then show ?case by (cases "?F (fst e, map int (shown (?es (fst e) (snd e)))) acc")
          (simp_all add: case_prod_beta)
    qed simp
    moreover have "ofold (\<lambda>(rank, index). ?F (rank, map int (shown (?es rank index)))) (dv_index dst) []
        = Inr (map (\<lambda>(rank, index). (rank, scattered (junk rank) None rep sizeT ?n (?es rank index) input)) (dv_index dst))"
    proof (rule ofold_put_id [OF ord])
      fix k v acc assume "(k, v) \<in> set (dv_index dst)" "\<forall>l\<in>fst ` set (acc :: (int \<times> 'a list) list). l < k"
      from F [OF this] show "(\<lambda>(rank, index). ?F (rank, map int (shown (?es rank index)))) (k, v) acc
        = Inr (std_put k (scattered (junk k) None rep sizeT ?n (?es k v) input) acc)" by simp
    qed
    ultimately show ?thesis by simp
  qed
  then show ?thesis by (simp only: sc_transfer_def n conn Let_def)
qed

lemma scattered_nth:
  assumes "l < rep" "i < length es" "k < sizeT"
  shows "scattered junk m rep sizeT n es input ! ((l * length es + i) * sizeT + k)
    = (case es ! i of None \<Rightarrow> (case m of None \<Rightarrow> junk ((l * length es + i) * sizeT + k) | Some x \<Rightarrow> x)
        | Some c \<Rightarrow> input ! ((l * n + c) * sizeT + k))"
    and "length (scattered junk m rep sizeT n es input) = rep * (length es * sizeT)"
proof -
  let ?D = "length es * sizeT" and ?b = "\<lambda>l. blocks m input (l * (sizeT * n)) sizeT es"
  have len: "length (concat (map ?b [0..<m])) = m * ?D" for m by (induction m) simp_all
  have q: "i * sizeT + k < ?D"
  proof -
    have "Suc i * sizeT \<le> ?D" using assms(2) by (intro mult_le_mono1) simp
    with assms(3) show ?thesis by simp
  qed
  have p: "l * ?D + (i * sizeT + k) < rep * ?D"
  proof -
    have "Suc l * ?D \<le> rep * ?D" using assms(1) by (intro mult_le_mono1) simp
    with q show ?thesis by simp
  qed
  have "concat (map ?b [0..<rep]) ! (l * ?D + (i * sizeT + k)) = map ?b [0..<rep] ! l ! (i * sizeT + k)"
    by (rule nth_concat_equal) (use assms q in auto)
  also have "\<dots> = (case es ! i of None \<Rightarrow> m | Some c \<Rightarrow> Some (input ! (l * (sizeT * n) + c * sizeT + k)))"
    using assms by (simp add: blocks_nth)
  finally have c: "concat (map ?b [0..<rep]) ! (l * ?D + (i * sizeT + k)) = \<dots>" .
  have idx: "(l * length es + i) * sizeT + k = l * ?D + (i * sizeT + k)"
    "\<And>c. (l * n + c) * sizeT + k = l * (sizeT * n) + c * sizeT + k" by (simp_all add: algebra_simps)
  show "scattered junk m rep sizeT n es input ! ((l * length es + i) * sizeT + k)
    = (case es ! i of None \<Rightarrow> (case m of None \<Rightarrow> junk ((l * length es + i) * sizeT + k) | Some x \<Rightarrow> x)
        | Some c \<Rightarrow> input ! ((l * n + c) * sizeT + k))"
    unfolding scattered_def idx using p c len [of rep] by (simp add: nth_patch split: option.split)
  show "length (scattered junk m rep sizeT n es input) = rep * (length es * sizeT)" by (simp add: scattered_def)
qed

lemma sc_sources_nth:
  assumes "i < length index"
  shows "case sc_sources src dst rank index ! i of
      Some c \<Rightarrow> c < length (lv_index src) \<and> lv_cells src ! c = dv_cells dst rank index ! i \<and> dv_cells dst rank index ! i \<noteq> None
    | None \<Rightarrow> dv_cells dst rank index ! i = None \<or> dv_cells dst rank index ! i \<notin> set (lv_cells src)"
proof -
  have len: "length (dv_cells dst rank index) = length index" by (simp add: dv_cells_def)
  then have "sc_sources src dst rank index ! i = Option.bind (dv_cells dst rank index ! i) (position_of (lv_cells src))"
    using assms by (simp add: sc_sources_def sources_def)
  then show ?thesis
    by (auto simp: lv_cells_def position_of_None dest: position_of_Some split: option.split bind_splits)
qed

text \<open>C8: A transfer by a computed scatterer gives each rank an array with one block per position of
  its view and slice: the block of the source position that shows the same global index, whatever
  the number of slices and the size of the blocks; blocks of positions without a source stay as
  they were allocated.\<close>

theorem scatter_cells:
  assumes "lv_ok src" "in_order (dv_index dst)" "\<forall>rank\<in>fst ` set (dv_index dst). 0 \<le> rank \<and> rank < n"
    and "\<And>xs. length (allreduce xs) = length xs"
    and "length input = rep * (sizeT * length (lv_index src))"
  shows "\<exists>sc out. sc_computeConnector allreduce src dst (newScatterer n) = Inr sc
    \<and> sc_transfer junk sc rep sizeT input [] = Inr out \<and> map fst out = map fst (dv_index dst)
    \<and> (\<forall>(rank, index)\<in>set (dv_index dst). \<exists>data. map_of out rank = Some data
        \<and> length data = rep * (length index * sizeT)
        \<and> (\<forall>l<rep. \<forall>i<length index. \<forall>k<sizeT. let p = (l * length index + i) * sizeT + k in
             if dv_cells dst rank index ! i = None \<or> dv_cells dst rank index ! i \<notin> set (lv_cells src)
             then data ! p = junk rank p
             else \<exists>c<length (lv_index src). lv_cells src ! c = dv_cells dst rank index ! i
                    \<and> data ! p = input ! ((l * length (lv_index src) + c) * sizeT + k)))"
proof -
  obtain sc where sc: "sc_computeConnector allreduce src dst (newScatterer n) = Inr sc" "sc_computed src dst sc"
    using sc_computeConnector_eq [OF assms(1-4)] by metis
  let ?out = "map (\<lambda>(rank, index). (rank, scattered (junk rank) None rep sizeT (length (lv_index src))
             (sc_sources src dst rank index) input)) (dv_index dst)"
  have t: "sc_transfer junk sc rep sizeT input [] = Inr ?out"
    by (rule sc_transfer_eq [OF sc(2)]) (simp add: assms(5))
  have "\<exists>data. map_of ?out rank = Some data
        \<and> length data = rep * (length index * sizeT)
        \<and> (\<forall>l<rep. \<forall>i<length index. \<forall>k<sizeT. let p = (l * length index + i) * sizeT + k in
             if dv_cells dst rank index ! i = None \<or> dv_cells dst rank index ! i \<notin> set (lv_cells src)
             then data ! p = junk rank p
             else \<exists>c<length (lv_index src). lv_cells src ! c = dv_cells dst rank index ! i
                    \<and> data ! p = input ! ((l * length (lv_index src) + c) * sizeT + k))"
    if m: "(rank, index) \<in> set (dv_index dst)" for rank index
  proof -
    let ?es = "sc_sources src dst rank index"
    let ?data = "scattered (junk rank) None rep sizeT (length (lv_index src)) ?es input"
    have "let p = (l * length index + i) * sizeT + k in
             if dv_cells dst rank index ! i = None \<or> dv_cells dst rank index ! i \<notin> set (lv_cells src)
             then ?data ! p = junk rank p
             else \<exists>c<length (lv_index src). lv_cells src ! c = dv_cells dst rank index ! i
                    \<and> ?data ! p = input ! ((l * length (lv_index src) + c) * sizeT + k)"
      if b: "l < rep" "i < length index" "k < sizeT" for l i k
    proof -
      have *: "?data ! ((l * length index + i) * sizeT + k) = (case ?es ! i of
            None \<Rightarrow> junk rank ((l * length index + i) * sizeT + k)
          | Some c \<Rightarrow> input ! ((l * length (lv_index src) + c) * sizeT + k))"
        by (rule scattered_nth(1) [where m = None and es = ?es, unfolded length_sc_sources, OF b, unfolded option.case])
      have mem: "c < length (lv_index src) \<Longrightarrow> lv_cells src ! c \<in> set (lv_cells src)" for c
        by (rule nth_mem) (simp add: lv_cells_def)
      note s = sc_sources_nth [OF b(2), where src = src and dst = dst and rank = rank]
      show ?thesis
      proof (cases "?es ! i")
        case (Some c)
        with s mem [of c] have "c < length (lv_index src)" "lv_cells src ! c = dv_cells dst rank index ! i"
          "dv_cells dst rank index ! i \<noteq> None" "dv_cells dst rank index ! i \<in> set (lv_cells src)" by auto
        with Some * show ?thesis by (auto simp: Let_def)
      next
        case None
        with s * show ?thesis by (simp add: Let_def)
      qed
    qed
    moreover have "length ?data = rep * (length index * sizeT)" by (simp add: scattered_def)
    moreover have "map_of ?out rank = Some ?data"
      using in_order_map_of [OF assms(2) m] by (simp add: map_of_map_snd)
    ultimately show ?thesis by blast
  qed
  moreover have "map fst ?out = map fst (dv_index dst)" by (simp add: case_prod_beta comp_def)
  ultimately show ?thesis using sc(1) t by blast
qed

text \<open>A source of three cells, of which the two ranks 0 and 2 get one and two.\<close>

definition demo_source :: local_view where
  "demo_source = newLocalView (newLocalElement 0 10 [4, 7, 9]) [0, 1, 2]"

definition demo_target :: distributed_view where
  "demo_target = newDistributedView (newDistributedElement 10 [(0, [9]), (2, [5, 4])]) [(0, [0]), (2, [0, 1])]"

lemma demo_scatter: "lv_ok demo_source" "in_order (dv_index demo_target)"
    "lv_cells demo_source = [Some 4, Some 7, Some 9]" "length (lv_index demo_source) = 3"
    "dv_index demo_target = [(0, [0]), (2, [0, 1])]"
    "dv_cells demo_target 0 [0] = [Some 9]" "dv_cells demo_target 2 [0, 1] = [Some 5, Some 4]"
  by (simp_all add: demo_source_def demo_target_def newLocalView_def newLocalElement_def lv_ok_def lv_cells_def
      cells_def newDistributedView_def newDistributedElement_def in_order_def dv_cells_def std_at_def)

theorem scatter_cells_witness:
  "\<exists>sc out data. sc_computeConnector (\<lambda>xs. xs) demo_source demo_target (newScatterer 3) = Inr sc
    \<and> sc_transfer (\<lambda>_ _. CHR ''?'') sc 1 2 ''aAbBcC'' [] = Inr out \<and> map_of out 2 = Some data
    \<and> data ! 0 = CHR ''?'' \<and> data ! 2 = CHR ''a'' \<and> data ! 3 = CHR ''A''"
proof -
  have "\<forall>rank\<in>fst ` set (dv_index demo_target). 0 \<le> rank \<and> rank < 3"
    "length ''aAbBcC'' = 1 * (2 * length (lv_index demo_source))" by (simp_all add: demo_scatter)
  from scatter_cells [OF demo_scatter(1,2) this(1) _ this(2), of "\<lambda>xs. xs" "\<lambda>_ _. CHR ''?''"]
  obtain sc out where r: "sc_computeConnector (\<lambda>xs. xs) demo_source demo_target (newScatterer 3) = Inr sc"
      "sc_transfer (\<lambda>_ _. CHR ''?'') sc 1 2 ''aAbBcC'' [] = Inr out"
    and all: "\<forall>(rank, index)\<in>set (dv_index demo_target). \<exists>data. map_of out rank = Some data
        \<and> length data = 1 * (length index * 2)
        \<and> (\<forall>l<1. \<forall>i<length index. \<forall>k<2. let p = (l * length index + i) * 2 + k in
             if dv_cells demo_target rank index ! i = None \<or> dv_cells demo_target rank index ! i \<notin> set (lv_cells demo_source)
             then data ! p = CHR ''?''
             else \<exists>c<length (lv_index demo_source). lv_cells demo_source ! c = dv_cells demo_target rank index ! i
                    \<and> data ! p = ''aAbBcC'' ! ((l * length (lv_index demo_source) + c) * 2 + k))"
    by blast
  have "(2, [0, 1]) \<in> set (dv_index demo_target)" by (simp add: demo_scatter)
  with all obtain data where d: "map_of out 2 = Some data"
    and at: "\<forall>l<1. \<forall>i<length [0::int, 1]. \<forall>k<2. let p = (l * length [0::int, 1] + i) * 2 + k in
             if dv_cells demo_target 2 [0, 1] ! i = None \<or> dv_cells demo_target 2 [0, 1] ! i \<notin> set (lv_cells demo_source)
             then data ! p = CHR ''?''
             else \<exists>c<length (lv_index demo_source). lv_cells demo_source ! c = dv_cells demo_target 2 [0, 1] ! i
                    \<and> data ! p = ''aAbBcC'' ! ((l * length (lv_index demo_source) + c) * 2 + k)"
    by blast
  have only: "c = 0" if "c < 3" "[Some (4::nat), Some 7, Some 9] ! c = Some 4" for c
    using that by (auto simp: nth_Cons' numeral_3_eq_3 less_Suc_eq split: if_splits)
  have "data ! 0 = CHR ''?''" using at [rule_format, of 0 0 0] by (simp add: demo_scatter)
  moreover have "data ! 2 = CHR ''a''" using at [rule_format, of 0 1 0] by (auto simp: demo_scatter dest!: only)
  moreover have "data ! 3 = CHR ''A''" using at [rule_format, of 0 1 1] by (auto simp: demo_scatter dest!: only)
  ultimately show ?thesis using r d by blast
qed

section \<open>The transfer with a missing value\<close>

text \<open>As the other branch advances \<open>j\<close> as well, the loop reads the connector at \<open>i\<close>.\<close>

lemma masked_loop_both:
  "masked_loop True m cs body other s
    = ofold (\<lambda>i s. if m ! i then obind (arr_get cs (int i)) (\<lambda>c. body i c s) else other i s) [0..<length m] s"
proof -
  let ?f = "\<lambda>i (j, s). if m ! i then obind (arr_get cs j) (\<lambda>c. omap (\<lambda>s. (j + 1, s)) (body i c s))
         else omap (\<lambda>s. (if True then j + 1 else j, s)) (other i s)"
  let ?g = "\<lambda>i s. if m ! i then obind (arr_get cs (int i)) (\<lambda>c. body i c s) else other i s"
  have "ofold ?f [0..<n] (0, s) = omap (\<lambda>s. (int n, s)) (ofold ?g [0..<n] s)" for n
  proof (induction n)
    case (Suc n)
    have step: "?f n (int n, s') = omap (\<lambda>s. (int (Suc n), s)) (?g n s')" for s'
      by (cases "m ! n") (auto simp: omap_def obind_assoc add.commute)
    show ?case
      unfolding upt_Suc ofold_append
      using Suc step by (cases "ofold ?g [0..<n] s") (simp_all add: ofold_append omap_def obind_assoc)
  qed simp
  then show ?thesis by (simp add: masked_loop_def omap_def obind_assoc)
qed

lemma ofold_fails:
  assumes "\<And>x s. x \<in> set xs \<Longrightarrow> P s \<Longrightarrow> f x s = Inl e \<or> (\<exists>t. f x s = Inr t \<and> P t)"
    and "x \<in> set xs" "\<And>s. P s \<Longrightarrow> f x s = Inl e" "P s"
  shows "ofold f xs s = Inl e"
  using assms
proof (induction xs arbitrary: s)
  case (Cons y ys)
  show ?case
  proof (cases "f y s")
    case (Inl e')
    with Cons.prems(1) [of y s] Cons.prems(4) show ?thesis by auto
  next
    case (Inr t)
    then have "x \<noteq> y" "P t" using Cons.prems(1) [of y s] Cons.prems(3,4) by auto
    moreover have "ofold f ys t = Inl e"
      by (rule Cons.IH) (use Cons.prems \<open>x \<noteq> y\<close> \<open>P t\<close> in auto)
    ultimately show ?thesis using Inr by simp
  qed
qed simp

text \<open>A position without a source in front of one that has one.\<close>

definition hole_before :: "nat option list \<Rightarrow> bool" where
  "hole_before es = (\<exists>j<length es. es ! j \<noteq> None \<and> length (shown es) \<le> j)"

lemma hole_before_iff:
  "hole_before es \<longleftrightarrow> (\<exists>i j. i < j \<and> j < length es \<and> es ! i = None \<and> es ! j \<noteq> None)"
proof -
  have n: "length (shown es) = card {i. i < length es \<and> es ! i \<noteq> None}"
    by (simp add: shown_def length_filter_conv_card)
  show ?thesis
  proof
    assume "hole_before es"
    then obtain j where j: "j < length es" "es ! j \<noteq> None" "length (shown es) \<le> j" by (auto simp: hole_before_def)
    have "\<exists>i<j. es ! i = None"
    proof (rule ccontr)
      assume "\<not> (\<exists>i<j. es ! i = None)"
      then have "{..j} \<subseteq> {i. i < length es \<and> es ! i \<noteq> None}" using j by (auto simp: le_less)
      then have "card {..j} \<le> length (shown es)" unfolding n by (intro card_mono) auto
      with j(3) show False by simp
    qed
    with j show "\<exists>i j. i < j \<and> j < length es \<and> es ! i = None \<and> es ! j \<noteq> None" by blast
  next
    assume "\<exists>i j. i < j \<and> j < length es \<and> es ! i = None \<and> es ! j \<noteq> None"
    then obtain i j where ij: "i < j" "j < length es" "es ! i = None" "es ! j \<noteq> None" by blast
    define J where "J = Max {i. i < length es \<and> es ! i \<noteq> None}"
    have fin: "finite {i. i < length es \<and> es ! i \<noteq> None}" by simp
    have "J \<in> {i. i < length es \<and> es ! i \<noteq> None}" unfolding J_def by (rule Max_in [OF fin]) (use ij in auto)
    then have J: "J < length es" "es ! J \<noteq> None" by simp_all
    have "j \<le> J" unfolding J_def using ij fin by (intro Max_ge) auto
    have "{i. i < length es \<and> es ! i \<noteq> None} \<subseteq> {..J} - {i}"
      using Max_ge [OF fin] ij(3) by (auto simp: J_def)
    then have "length (shown es) \<le> card ({..J} - {i})" unfolding n by (intro card_mono) auto
    also have "\<dots> = J" using ij(1) \<open>j \<le> J\<close> by (subst card_Diff_singleton) auto
    finally show "hole_before es" using J by (auto simp: hole_before_def)
  qed
qed

text \<open>Without such holes the loop reads what it should.\<close>

lemma zip_upt: "zip [0..<length xs] xs = map (\<lambda>i. (i, xs ! i)) [0..<length xs]"
  by (intro nth_equalityI) simp_all

lemma ofold_map: "ofold f (map g xs) s = ofold (\<lambda>x. f (g x)) xs s"
proof (induction xs arbitrary: s)
  case (Cons x xs)
  then show ?case by (cases "f (g x) s") simp_all
qed simp

lemma shown_prefix:
  assumes "\<not> hole_before es" "i < length es" "es ! i = Some c"
  shows "i < length (shown es) \<and> shown es ! i = c"
proof -
  have i: "i < length (shown es)" using assms by (auto simp: hole_before_def not_le)
  have "\<forall>k<i. es ! k \<noteq> None" using assms unfolding hole_before_iff by (metis option.distinct(1))
  then have "filter (\<lambda>c. c \<noteq> None) (take i es) = take i es"
    by (intro filter_True) (auto simp: in_set_conv_nth)
  then have "shown es = map the (take i es) @ shown (drop i es)"
    by (metis append_take_drop_id shown_append shown_def)
  moreover have "drop i es = Some c # drop (Suc i) es" using assms(2,3) by (metis Cons_nth_drop_Suc)
  ultimately have "shown es = map the (take i es) @ c # shown (drop (Suc i) es)" by simp
  then have "shown es ! length (map the (take i es)) = c" by (metis nth_append_length)
  with i assms(2) show ?thesis by simp
qed

lemma masked_loop_no_holes:
  assumes "\<not> hole_before es"
  shows "masked_loop True (map (\<lambda>e. e \<noteq> None) es) (map int (shown es)) body other s
    = masked_loop False (map (\<lambda>e. e \<noteq> None) es) (map int (shown es)) body other s"
proof -
  have "masked_loop False (map (\<lambda>e. e \<noteq> None) es) (map int (shown es)) body other s
      = ofold (\<lambda>(i, c) s. case c of None \<Rightarrow> other i s | Some k \<Rightarrow> body i k s)
          (zip [0..<length (map (map_option int) es)] (map (map_option int) es)) s"
    by (subst masked_loop_expand) (simp_all add: wanted_sources expand_sources del: not_None_eq)
  also have "\<dots> = ofold (\<lambda>i s. case map_option int (es ! i) of None \<Rightarrow> other i s | Some k \<Rightarrow> body i k s) [0..<length es] s"
    unfolding zip_upt ofold_map by (intro ofold_cong) simp_all
  also have "\<dots> = ofold (\<lambda>i s. if map (\<lambda>e. e \<noteq> None) es ! i
      then obind (arr_get (map int (shown es)) (int i)) (\<lambda>c. body i c s) else other i s) [0..<length es] s"
  proof (intro ofold_cong refl)
    fix i s assume "i \<in> set [0..<length es]"
    with shown_prefix [OF assms, of i]
    show "(case map_option int (es ! i) of None \<Rightarrow> other i s | Some k \<Rightarrow> body i k s)
      = (if map (\<lambda>e. e \<noteq> None) es ! i
         then obind (arr_get (map int (shown es)) (int i)) (\<lambda>c. body i c s) else other i s)"
      by (cases "es ! i") simp_all
  qed
  finally show ?thesis by (simp add: masked_loop_both)
qed

lemma masked_loop_no_holes_fun:
  "\<not> hole_before es \<Longrightarrow> masked_loop True (map (\<lambda>e. e \<noteq> None) es) (map int (shown es)) body other
    = masked_loop False (map (\<lambda>e. e \<noteq> None) es) (map int (shown es)) body other"
  by (rule ext) (rule masked_loop_no_holes)

lemma slice_overruns:
  assumes "hole_before es" "0 < sizeT" "\<forall>c. Some c \<in> set es \<longrightarrow> c < srcSize"
    and "base + srcSize * sizeT \<le> length input" "off + length es * sizeT \<le> length out"
  shows "masked_loop True (map (\<lambda>e. e \<noteq> None) es) (map int (shown es))
      (\<lambda>i c. copy_block input (int base + c * int sizeT) (int off + int i * int sizeT) sizeT)
      (\<lambda>i. fill (int off + int i * int sizeT) (int sizeT) x) out
    = Inl (UndefinedBehaviour ''read out of range'')"
proof -
  let ?e = "UndefinedBehaviour ''read out of range''" and ?P = "\<lambda>s :: 'a list. length s = length out"
  let ?step = "\<lambda>i s. if map (\<lambda>e. e \<noteq> None) es ! i
      then obind (arr_get (map int (shown es)) (int i))
             (\<lambda>c. copy_block input (int base + c * int sizeT) (int off + int i * int sizeT) sizeT s)
      else fill (int off + int i * int sizeT) (int sizeT) x s"
  obtain j where j: "j < length es" "es ! j \<noteq> None" "length (shown es) \<le> j" using assms(1) by (auto simp: hole_before_def)
  have "ofold ?step [0..<length es] out = Inl ?e"
  proof (rule ofold_fails [where x = j and P = ?P])
    fix i and s :: "'a list" assume "i \<in> set [0..<length es]" and s: "?P s"
    then have i: "i < length es" by simp
    have "Suc i * sizeT \<le> length es * sizeT" using i by (intro mult_le_mono1) simp
    then have room: "off + i * sizeT + sizeT \<le> length s" using assms(5) s by simp
    show "?step i s = Inl ?e \<or> (\<exists>t. ?step i s = Inr t \<and> ?P t)"
    proof (cases "es ! i = None")
      case True
      have "fill (int (off + i * sizeT)) (int sizeT) x s = Inr (patch (off + i * sizeT) (replicate sizeT (Some x)) s)"
        by (rule fill_eq [OF room])
      with True i s show ?thesis by simp
    next
      case False
      show ?thesis
      proof (cases "i < length (shown es)")
        case True
        then have "shown es ! i < srcSize" using assms(3) set_shown [of es] nth_mem [of i "shown es"] by blast
        then have "Suc (shown es ! i) * sizeT \<le> srcSize * sizeT" by (intro mult_le_mono1) simp
        then have "base + shown es ! i * sizeT + sizeT \<le> length input" using assms(4) by simp
        from copy_block_eq [OF this room] True False i s show ?thesis by simp
      qed (use False i in \<open>simp add: arr_get_def\<close>)
    qed
  next
    fix s :: "'a list" show "?step j s = Inl ?e" using j by (simp add: arr_get_def)
  qed (use j in simp_all)
  then show ?thesis by (simp add: masked_loop_both)
qed

lemma length_resize: "0 \<le> n \<Longrightarrow> int (length (resize_array junk n xs)) = n"
  by (simp add: resize_array_def)

lemma rank_missing:
  assumes "\<forall>c. Some c \<in> set es \<longrightarrow> c < srcSize" "rep * (sizeT * srcSize) \<le> length input"
    and "length out = rep * (length es * sizeT)" "0 < rep" "0 < sizeT"
  shows "ofold (\<lambda>l. masked_loop True (map (\<lambda>e. e \<noteq> None) es) (map int (shown es))
            (\<lambda>i c. copy_block input (int l * (int sizeT * int srcSize) + c * int sizeT)
                     (int l * (int (length es) * int sizeT) + int i * int sizeT) sizeT)
            (\<lambda>i. fill (int l * (int (length es) * int sizeT) + int i * int sizeT) (int sizeT) x)) [0..<rep] out
      = (if hole_before es then Inl (UndefinedBehaviour ''read out of range'')
         else Inr (patch 0 (concat (map (\<lambda>l. blocks (Some x) input (l * (sizeT * srcSize)) sizeT es) [0..<rep])) out))"
proof (cases "hole_before es")
  case True
  have r: "[0..<rep] = 0 # [1..<rep]" using assms(4) by (simp add: upt_conv_Cons)
  have le: "n \<le> rep * n" for n using assms(4) by (cases rep) simp_all
  have "0 + srcSize * sizeT \<le> length input" using le_trans [OF le assms(2)] by (simp add: mult.commute)
  moreover have "0 + length es * sizeT \<le> length out" using le assms(3) by simp
  ultimately have this: "0 + srcSize * sizeT \<le> length input" "0 + length es * sizeT \<le> length out" .
  from slice_overruns [OF True assms(5,1) this(1,2), of x] True show ?thesis by (simp add: r)
next
  case False
  have "fill (int l * (int (length es) * int sizeT) + int i * int sizeT) (int sizeT) x out'
      = Inr (patch (l * (length es * sizeT) + i * sizeT) (replicate sizeT (Some x)) out')"
    if l: "l < rep" and i: "i < length es" and o: "length out' = length out" for l i out'
  proof -
    have "Suc l * (length es * sizeT) \<le> rep * (length es * sizeT)" "Suc i * sizeT \<le> length es * sizeT"
      using l i by (intro mult_le_mono1; simp)+
    then have "l * (length es * sizeT) + i * sizeT + sizeT \<le> length out'" using assms(3) o by simp
    from fill_eq [OF this] show ?thesis by simp
  qed
  from slices_loop [OF assms(1-3), of "\<lambda>l i. fill (int l * (int (length es) * int sizeT) + int i * int sizeT) (int sizeT) x" "Some x",
      OF this]
  show ?thesis using False by (simp add: masked_loop_no_holes_fun [OF False] del: not_None_eq)
qed

lemma sc_transfer_missing_eq:
  assumes "sc_computed src dst sc" "rep * (sizeT * length (lv_index src)) \<le> length input" "0 < rep" "0 < sizeT"
  shows "sc_transfer_missing junk sc rep sizeT input [] x
    = (if \<exists>(rank, index)\<in>set (dv_index dst). hole_before (sc_sources src dst rank index)
       then Inl (UndefinedBehaviour ''read out of range'')
       else Inr (map (\<lambda>(rank, index). (rank, scattered (junk rank) (Some x) rep sizeT (length (lv_index src))
             (sc_sources src dst rank index) input)) (dv_index dst)))"
proof -
  let ?es = "sc_sources src dst" and ?n = "length (lv_index src)"
  have ord: "in_order (dv_index dst)" and n: "sc_srcSize sc = int ?n"
    and conn: "sc_connector sc = map (\<lambda>(rank, index). (rank, map int (shown (?es rank index)))) (dv_index dst)"
    using assms(1) by (simp_all add: sc_computed_def)
  define F where "F = (\<lambda>(rank, connector) dataOut.
           let msk = std_at [] (sc_mask sc) rank;
               dstSlice = int (length msk) * int sizeT;
               data = resize_array (junk rank) (int rep * dstSlice) (std_at [] dataOut rank)
           in omap (\<lambda>data. std_put rank data dataOut)
               (ofold (\<lambda>l. masked_loop True msk connector
                   (\<lambda>i c. copy_block input (int l * (int sizeT * int ?n) + c * int sizeT)
                             (int l * dstSlice + int i * int sizeT) sizeT)
                   (\<lambda>i. fill (int l * dstSlice + int i * int sizeT) (int sizeT) x)) [0..<rep] data))"
  define G where "G = (\<lambda>(rank, index). F (rank, map int (shown (?es rank index))))"
  have G: "G (rank, index) dataOut = (if hole_before (?es rank index) then Inl (UndefinedBehaviour ''read out of range'')
      else Inr (std_put rank (patch 0 (concat (map (\<lambda>l. blocks (Some x) input (l * (sizeT * ?n)) sizeT (?es rank index)) [0..<rep]))
         (resize_array (junk rank) (int rep * (int (length index) * int sizeT)) (std_at [] dataOut rank))) dataOut))"
    if m: "(rank, index) \<in> set (dv_index dst)" for rank index dataOut
  proof -
    let ?data = "resize_array (junk rank) (int rep * (int (length index) * int sizeT)) (std_at [] dataOut rank)"
    have "int (length ?data) = int rep * (int (length index) * int sizeT)" by (rule length_resize) simp
    then have l: "length ?data = rep * (length (?es rank index) * sizeT)"
      by (metis length_sc_sources of_nat_eq_iff of_nat_mult)
    have lt: "\<forall>c. Some c \<in> set (?es rank index) \<longrightarrow> c < ?n" by (auto dest: sc_sources_less)
    show ?thesis using rank_missing [OF lt assms(2) l assms(3,4), of x]
      by (simp add: G_def F_def Let_def computed_at [OF assms(1) m] del: not_None_eq)
  qed
  have eq: "sc_transfer_missing junk sc rep sizeT input [] x = ofold G (dv_index dst) []"
  proof -
    have "sc_transfer_missing junk sc rep sizeT input [] x
        = ofold F (map (\<lambda>(rank, index). (rank, map int (shown (?es rank index)))) (dv_index dst)) []"
      by (simp only: sc_transfer_missing_def n conn Let_def F_def)
    also have "\<dots> = ofold G (dv_index dst) []"
      unfolding ofold_map by (intro ofold_cong refl) (auto simp: G_def)
    finally show ?thesis .
  qed
  show ?thesis
  proof (cases "\<exists>(rank, index)\<in>set (dv_index dst). hole_before (?es rank index)")
    case True
    then obtain rank index where r: "(rank, index) \<in> set (dv_index dst)" "hole_before (?es rank index)" by blast
    have "ofold G (dv_index dst) [] = Inl (UndefinedBehaviour ''read out of range'')"
    proof (rule ofold_fails [where x = "(rank, index)" and P = "\<lambda>_. True"])
      fix e s assume e: "e \<in> set (dv_index dst)"
      obtain a b where "e = (a, b)" by (cases e)
      with e G [of a b s] show "G e s = Inl (UndefinedBehaviour ''read out of range'') \<or> (\<exists>t. G e s = Inr t \<and> True)"
        by (cases "hole_before (?es a b)") simp_all
    qed (use r G in simp_all)
    with True eq show ?thesis by auto
  next
    case False
    have "ofold G (dv_index dst) [] = Inr (map (\<lambda>(rank, index). (rank, scattered (junk rank) (Some x) rep sizeT ?n
             (?es rank index) input)) (dv_index dst))"
    proof (rule ofold_put_id [OF ord])
      fix k v acc assume m: "(k, v) \<in> set (dv_index dst)" and less: "\<forall>l\<in>fst ` set (acc :: (int \<times> 'a list) list). l < k"
      from False m have "\<not> hole_before (?es k v)" by blast
      then show "G (k, v) acc = Inr (std_put k (scattered (junk k) (Some x) rep sizeT ?n (?es k v) input) acc)"
        by (simp add: G [OF m] std_at_less [OF less] resize_empty scattered_def)
    qed
    with False eq show ?thesis by auto
  qed
qed

text \<open>With a missing value the transfer is right exactly when in every rank's view the positions
  with a source come before the ones without: then the latter get the missing value and the
  others their source block. As soon as a position without a source stands before one that has a
  source, in the view of any rank, the transfer reads past the end of the connector.\<close>

theorem scatter_missing_overruns:
  assumes "lv_ok src" "in_order (dv_index dst)" "\<forall>rank\<in>fst ` set (dv_index dst). 0 \<le> rank \<and> rank < n"
    and "\<And>xs. length (allreduce xs) = length xs"
    and "length input = rep * (sizeT * length (lv_index src))" "0 < rep" "0 < sizeT"
  shows "\<exists>sc. sc_computeConnector allreduce src dst (newScatterer n) = Inr sc
    \<and> (if \<exists>(rank, index)\<in>set (dv_index dst). hole_before (sc_sources src dst rank index)
       then sc_transfer_missing junk sc rep sizeT input [] x = Inl (UndefinedBehaviour ''read out of range'')
       else \<exists>out. sc_transfer_missing junk sc rep sizeT input [] x = Inr out
         \<and> (\<forall>(rank, index)\<in>set (dv_index dst). \<exists>data. map_of out rank = Some data
             \<and> (\<forall>l<rep. \<forall>i<length index. \<forall>k<sizeT. data ! ((l * length index + i) * sizeT + k)
                  = (case sc_sources src dst rank index ! i of None \<Rightarrow> x
                      | Some c \<Rightarrow> input ! ((l * length (lv_index src) + c) * sizeT + k)))))"
proof -
  obtain sc where sc: "sc_computeConnector allreduce src dst (newScatterer n) = Inr sc" "sc_computed src dst sc"
    using sc_computeConnector_eq [OF assms(1-4)] by metis
  have "rep * (sizeT * length (lv_index src)) \<le> length input" using assms(5) by simp
  note eq = sc_transfer_missing_eq [OF sc(2) this assms(6,7), of junk x]
  show ?thesis
  proof (cases "\<exists>(rank, index)\<in>set (dv_index dst). hole_before (sc_sources src dst rank index)")
    case True
    with eq sc(1) show ?thesis by simp
  next
    case False
    define out where "out = map (\<lambda>(rank, index). (rank, scattered (junk rank) (Some x) rep sizeT (length (lv_index src))
             (sc_sources src dst rank index) input)) (dv_index dst)"
    have "map_of out rank = Some (scattered (junk rank) (Some x) rep sizeT (length (lv_index src))
        (sc_sources src dst rank index) input)" if "(rank, index) \<in> set (dv_index dst)" for rank index
      using in_order_map_of [OF assms(2) that] by (simp add: map_of_map_snd out_def)
    moreover have "scattered (junk rank) (Some x) rep sizeT (length (lv_index src)) (sc_sources src dst rank index) input
          ! ((l * length index + i) * sizeT + k)
        = (case sc_sources src dst rank index ! i of None \<Rightarrow> x
            | Some c \<Rightarrow> input ! ((l * length (lv_index src) + c) * sizeT + k))"
      if "l < rep" "i < length index" "k < sizeT" for l i k rank index
      by (rule scattered_nth(1) [where m = "Some x" and es = "sc_sources src dst rank index",
            unfolded length_sc_sources, OF that, unfolded option.case])
    ultimately have "\<forall>(rank, index)\<in>set (dv_index dst). \<exists>data. map_of out rank = Some data
             \<and> (\<forall>l<rep. \<forall>i<length index. \<forall>k<sizeT. data ! ((l * length index + i) * sizeT + k)
                  = (case sc_sources src dst rank index ! i of None \<Rightarrow> x
                      | Some c \<Rightarrow> input ! ((l * length (lv_index src) + c) * sizeT + k)))"
      by blast
    moreover have "sc_transfer_missing junk sc rep sizeT input [] x = Inr out"
      unfolding eq out_def by (rule if_not_P [OF False])
    ultimately show ?thesis unfolding if_not_P [OF False] using sc(1) by blast
  qed
qed

theorem scatter_missing_overruns_witness:
  "\<exists>sc. sc_computeConnector (\<lambda>xs. xs) demo_source demo_target (newScatterer 3) = Inr sc
    \<and> sc_transfer_missing (\<lambda>_ _. CHR ''?'') sc 1 1 ''abc'' [] CHR ''x''
        = Inl (UndefinedBehaviour ''read out of range'')"
proof -
  have r: "\<forall>rank\<in>fst ` set (dv_index demo_target). 0 \<le> rank \<and> rank < 3"
    "length ''abc'' = 1 * (1 * length (lv_index demo_source))" by (simp_all add: demo_scatter)
  have "sc_sources demo_source demo_target 2 [0, 1] = [None, Some 0]"
    by (simp add: sc_sources_def sources_def demo_scatter position_of_def upt_rec)
  then have "hole_before (sc_sources demo_source demo_target 2 [0, 1])"
    unfolding hole_before_iff by (intro exI [of _ 0] exI [of _ 1]) simp
  then have "\<exists>(rank, index)\<in>set (dv_index demo_target). hole_before (sc_sources demo_source demo_target rank index)"
    by (simp add: demo_scatter)
  with scatter_missing_overruns [OF demo_scatter(1,2) r(1) _ r(2), of "\<lambda>xs. xs" "\<lambda>_ _. CHR ''?''" "CHR ''x''"]
  show ?thesis by auto
qed

section \<open>Grids\<close>

text \<open>The transfer to one rank over several dimensions is that of local connectors.\<close>

definition at_rank :: "int \<Rightarrow> scatterer \<Rightarrow> local_connector" where
  "at_rank rank sc = \<lparr>lc_srcSize = sc_srcSize sc, lc_dstSize = std_at 0 (sc_dstSize sc) rank,
     lc_connector = std_at [] (sc_connector sc) rank, lc_mask = std_at [] (sc_mask sc) rank\<rparr>"

lemma sc_slices: "sc_getSrcSliceSize scs = lc_getSrcSliceSize (map (at_rank rank) scs)"
  "sc_getDstSliceSize rank scs = lc_getDstSliceSize (map (at_rank rank) scs)"
  by (induction scs) (auto simp: at_rank_def)

lemma sc_transfer_rank_eq:
  "sc_transfer_rank rank scs input p q out = lc_transfer (map (at_rank rank) scs) input p q out"
proof (induction scs arbitrary: p q out)
  case (Cons sc scs)
  have "sc_transfer_rank rank scs input = lc_transfer (map (at_rank rank) scs) input"
    by (intro ext) (rule Cons.IH)
  moreover have "lc_mask (at_rank rank sc) = std_at [] (sc_mask sc) rank"
    "lc_connector (at_rank rank sc) = std_at [] (sc_connector sc) rank" by (simp_all add: at_rank_def)
  ultimately show ?case by (simp add: Let_def sc_slices(1) [where rank = rank] sc_slices(2))
qed simp

end
