(* ===== verification/Gatherer.thy ===== *)
theory Gatherer
  imports ScattererClaims Functors
begin

text \<open>
  The connector from the views of the ranks data come from to a local view
  (\<open>distribution/gatherer_connector.*\<close>), with the reductions of data that meet in a cell.
\<close>

datatype EReduction = RNone | RSum | RMin | RMax | RExtract | RAverage

record gatherer =
  ga_connector :: "(int, int list) std_map"
  ga_mask :: "(int, bool list) std_map"
  ga_dstSize :: int
  ga_srcSize :: "(int, int) std_map"

definition newGatherer :: gatherer where
  "newGatherer = \<lparr>ga_connector = [], ga_mask = [], ga_dstSize = 0, ga_srcSize = []\<rparr>"

definition ga_computeConnector :: "distributed_view \<Rightarrow> local_view \<Rightarrow> gatherer \<Rightarrow> gatherer outcome" where
  "ga_computeConnector src dst ga =
     obind (global_positions (int (length (lv_globalIndex dst))) (lv_index dst) (lv_globalIndex dst)) (\<lambda>positions.
     let ga = ga\<lparr>ga_srcSize := fold (\<lambda>(rank, index). std_put rank (int (length index))) (dv_index src) (ga_srcSize ga),
                 ga_dstSize := int (length (lv_index dst))\<rparr>
     in Inr (fold (\<lambda>(rank, index) ga.
                let (connector, msk) = match_index positions (std_at [] (dv_globalIndex src) rank) index
                                         (std_at [] (ga_connector ga) rank, std_at [] (ga_mask ga) rank)
                in ga\<lparr>ga_connector := std_put rank connector (ga_connector ga),
                      ga_mask := std_put rank msk (ga_mask ga)\<rparr>)
              (dv_index src) ga))"

section \<open>Flat transfers\<close>

definition ga_transfer_none ::
  "gatherer \<Rightarrow> nat \<Rightarrow> nat \<Rightarrow> (int, 'a list) std_map \<Rightarrow> 'a list \<Rightarrow> 'a list outcome" where
  "ga_transfer_none ga rep sizeT dataIn dataOut =
     (let dstSlice = ga_dstSize ga * int sizeT
      in ofold (\<lambda>(rank, input) dataOut.
           let msk = std_at [] (ga_mask ga) rank; connector = std_at [] (ga_connector ga) rank;
               srcSlice = int (length msk) * int sizeT
           in ofold (\<lambda>l. masked_loop False msk connector
                (\<lambda>i c. copy_block input (int l * srcSlice + int i * int sizeT)
                          (int l * dstSlice + c * int sizeT) sizeT)
                (\<lambda>i dataOut. Inr dataOut)) [0..<rep] dataOut)
         dataIn dataOut)"

text \<open>A value that arrives in a cell which already holds one, and in any cell.\<close>

definition combine :: "EReduction \<Rightarrow> double \<Rightarrow> double \<Rightarrow> double outcome" where
  "combine rd out inp = (case rd of
       RSum \<Rightarrow> Inr (dadd out inp) | RMin \<Rightarrow> Inr (dmin out inp) | RMax \<Rightarrow> Inr (dmax out inp)
     | RAverage \<Rightarrow> Inr (dadd out inp)
     | _ \<Rightarrow> Inl (CException ''reduction operator is not defined for this operation''))"

definition reduce_cell ::
  "EReduction \<Rightarrow> double list \<Rightarrow> int \<Rightarrow> int \<Rightarrow> int \<Rightarrow> double list \<times> int list \<Rightarrow> (double list \<times> int list) outcome" where
  "reduce_cell rd input p q qc = (\<lambda>(output, vcount).
     obind (arr_get input p) (\<lambda>x.
       if isNan x then Inr (output, vcount)
       else obind (arr_get vcount qc) (\<lambda>n.
            obind (if n = 0 then Inr x else obind (arr_get output q) (\<lambda>y. combine rd y x)) (\<lambda>z.
            obind (arr_set output q z) (\<lambda>output.
            omap (\<lambda>vcount. (output, vcount)) (arr_set vcount qc (n + 1)))))))"

text \<open>The reduction: the pointer \<open>count\<close> moves on with every slice and is never set back.\<close>

definition ga_reduce_loop ::
  "gatherer \<Rightarrow> nat \<Rightarrow> nat \<Rightarrow> (int, double list) std_map \<Rightarrow> EReduction
     \<Rightarrow> double list \<times> int list \<times> int \<Rightarrow> (double list \<times> int list \<times> int) outcome" where
  "ga_reduce_loop ga rep sizeT dataIn rd =
     (let dstSlice = ga_dstSize ga * int sizeT
      in ofold (\<lambda>(rank, input) s.
           let msk = std_at [] (ga_mask ga) rank; connector = std_at [] (ga_connector ga) rank;
               srcSlice = int (length msk) * int sizeT
           in ofold (\<lambda>l (output, vcount, count).
                omap (\<lambda>(output, vcount). (output, vcount, count + dstSlice))
                 (masked_loop False msk connector
                   (\<lambda>i c. ofold (\<lambda>k. reduce_cell rd input (int l * srcSlice + int i * int sizeT + int k)
                                   (int l * dstSlice + c * int sizeT + int k) (count + c * int sizeT + int k)) [0..<sizeT])
                   (\<lambda>i s. Inr s) (output, vcount))) [0..<rep] s)
         dataIn)"

definition ga_transfer_reduce ::
  "gatherer \<Rightarrow> nat \<Rightarrow> nat \<Rightarrow> (int, double list) std_map \<Rightarrow> double list \<Rightarrow> EReduction \<Rightarrow> double list outcome" where
  "ga_transfer_reduce ga rep sizeT dataIn dataOut rd =
     obind (ga_reduce_loop ga rep sizeT dataIn rd (dataOut, replicate (length dataOut) 0, 0)) (\<lambda>(output, vcount, count).
       if rd = RAverage
       then ofold (\<lambda>i output. obind (arr_get vcount (count + int i)) (\<lambda>n.
                if 0 < n then obind (arr_get output (int i)) (\<lambda>y. arr_set output (int i) (ddiv y n))
                else arr_set output (int i) None)) [0..<length output] output
       else ofold (\<lambda>i output. obind (arr_get vcount (count + int i)) (\<lambda>n.
                if n = 0 then arr_set output (int i) None else Inr output)) [0..<length output] output)"

definition ga_transfer ::
  "(nat \<Rightarrow> double) \<Rightarrow> gatherer \<Rightarrow> nat \<Rightarrow> nat \<Rightarrow> (int, double list) std_map \<Rightarrow> double list \<Rightarrow> EReduction
     \<Rightarrow> double list outcome" where
  "ga_transfer junk ga rep sizeT dataIn dataOut rd =
     (let dataOut = resize_array junk (int rep * (ga_dstSize ga * int sizeT)) dataOut
      in if rd = RNone then ga_transfer_none ga rep sizeT dataIn dataOut
         else ga_transfer_reduce ga rep sizeT dataIn dataOut rd)"

definition ga_transfer_missing ::
  "gatherer \<Rightarrow> nat \<Rightarrow> nat \<Rightarrow> (int, double list) std_map \<Rightarrow> double \<Rightarrow> EReduction \<Rightarrow> double list outcome" where
  "ga_transfer_missing ga rep sizeT dataIn missingValue rd =
     ga_transfer (\<lambda>_. missingValue) ga rep sizeT dataIn
       (replicate (nat (int rep * ga_dstSize ga * int sizeT)) missingValue) rd"

text \<open>The messages of an event, of which the last one of a rank counts.\<close>

definition ga_transfer_event ::
  "(nat \<Rightarrow> double) \<Rightarrow> gatherer \<Rightarrow> nat \<Rightarrow> (int \<times> double list) list \<Rightarrow> double list \<Rightarrow> EReduction \<Rightarrow> double list outcome" where
  "ga_transfer_event junk ga sizeT subEvents dataOut rd =
     ga_transfer junk ga 1 sizeT (fold (\<lambda>(rank, data). std_put rank data) subEvents []) dataOut rd"

definition ga_transfer_event_missing ::
  "gatherer \<Rightarrow> nat \<Rightarrow> (int \<times> double list) list \<Rightarrow> double \<Rightarrow> EReduction \<Rightarrow> double list outcome" where
  "ga_transfer_event_missing ga sizeT subEvents missingValue rd =
     ga_transfer_missing ga 1 sizeT (fold (\<lambda>(rank, data). std_put rank data) subEvents []) missingValue rd"

section \<open>Transfers from one rank over the dimensions of a grid\<close>

fun ga_getSrcSliceSize :: "int \<Rightarrow> gatherer list \<Rightarrow> int" where
  "ga_getSrcSliceSize rank [] = 1"
| "ga_getSrcSliceSize rank (ga # connectors) =
    (if connectors = [] then std_at 0 (ga_srcSize ga) rank
     else std_at 0 (ga_srcSize ga) rank * ga_getSrcSliceSize rank connectors)"

fun ga_getDstSliceSize :: "gatherer list \<Rightarrow> int" where
  "ga_getDstSliceSize [] = 1"
| "ga_getDstSliceSize (ga # connectors) =
    (if connectors = [] then ga_dstSize ga else ga_dstSize ga * ga_getDstSliceSize connectors)"

text \<open>What a cell of the innermost dimension does with a value; output and count have the same
  offset \<open>q\<close>.\<close>

definition rank_cell ::
  "EReduction \<Rightarrow> double list \<Rightarrow> int \<Rightarrow> int \<Rightarrow> double list \<times> int list \<Rightarrow> (double list \<times> int list) outcome" where
  "rank_cell rd input p q = (\<lambda>(output, count).
     obind (arr_get input p) (\<lambda>x.
       if rd = RNone then omap (\<lambda>output. (output, count)) (arr_set output q x)
       else if isNan x then Inr (output, count)
       else obind (arr_get count q) (\<lambda>n.
            obind (if n = 0 then Inr x else obind (arr_get output q) (\<lambda>y.
                case rd of RSum \<Rightarrow> Inr (dadd y x) | RMin \<Rightarrow> Inr (dmin y x) | RMax \<Rightarrow> Inr (dmax y x)
                | RAverage \<Rightarrow> Inr (dadd (map_option (\<lambda>a. a * of_int n) y) x)
                | _ \<Rightarrow> Inl (CException ''reduction operator is not defined for this operation''))) (\<lambda>z.
            obind (arr_set output q z) (\<lambda>output.
            omap (\<lambda>count. (output, count)) (arr_set count q (n + 1)))))))"

fun ga_transfer_rank ::
  "int \<Rightarrow> gatherer list \<Rightarrow> double list \<Rightarrow> int \<Rightarrow> int \<Rightarrow> EReduction \<Rightarrow> double list \<times> int list
     \<Rightarrow> (double list \<times> int list) outcome" where
  "ga_transfer_rank rank [] input inp out rd s = Inr s"
| "ga_transfer_rank rank (ga # connectors) input inp out rd s =
    (let connector = std_at [] (ga_connector ga) rank; msk = std_at [] (ga_mask ga) rank
     in if connectors = []
        then (if rd = RExtract
              then Inl (CException ''reduction operator is not defined for this operation'')
              else obind (masked_loop False msk connector
                     (\<lambda>i c. rank_cell rd input (inp + int i) (out + c)) (\<lambda>i s. Inr s) s) (\<lambda>s.
                   if rd = RAverage
                   then masked_loop False msk connector
                     (\<lambda>i c (output, count). obind (arr_get input (inp + int i)) (\<lambda>x.
                        if isNan x then Inr (output, count)
                        else obind (arr_get output (out + c)) (\<lambda>y. obind (arr_get count (out + c)) (\<lambda>n.
                             omap (\<lambda>output. (output, count)) (arr_set output (out + c) (ddiv y n))))))
                     (\<lambda>i s. Inr s) s
                   else Inr s))
        else (let srcSliceSize = ga_getSrcSliceSize rank connectors; dstSliceSize = ga_getDstSliceSize connectors
              in masked_loop False msk connector
                   (\<lambda>i c. ga_transfer_rank rank connectors input (inp + int i * srcSliceSize)
                            (out + c * dstSliceSize) rd)
                   (\<lambda>i s. Inr s) s))"

fun ga_transfer_or :: "int \<Rightarrow> gatherer list \<Rightarrow> bool list \<Rightarrow> int \<Rightarrow> int \<Rightarrow> bool list \<Rightarrow> bool list outcome" where
  "ga_transfer_or rank [] input inp out output = Inr output"
| "ga_transfer_or rank (ga # connectors) input inp out output =
    (let connector = std_at [] (ga_connector ga) rank; msk = std_at [] (ga_mask ga) rank
     in if connectors = []
        then masked_loop False msk connector
               (\<lambda>i c output. obind (arr_get input (inp + int i)) (\<lambda>x.
                  obind (arr_get output (out + c)) (\<lambda>y. arr_set output (out + c) (y \<or> x))))
               (\<lambda>i output. Inr output) output
        else (let srcSliceSize = ga_getSrcSliceSize rank connectors; dstSliceSize = ga_getDstSliceSize connectors
              in masked_loop False msk connector
                   (\<lambda>i c. ga_transfer_or rank connectors input (inp + int i * srcSliceSize) (out + c * dstSliceSize))
                   (\<lambda>i output. Inr output) output))"

end
