(* ===== verification/Landing.thy ===== *)
theory Landing
  imports Gatherer
begin

text \<open>
  Gathering as a sequence of arrivals: each value of the source that has a destination arrives
  there, in the order of the source.  The locale \<open>gather_rank\<close> is what the recursion over the
  dimensions of a grid needs from an operation: a row of the innermost dimension lets its values
  arrive one by one.
\<close>

section \<open>Arrivals\<close>

definition landing :: "'v list \<Rightarrow> nat \<Rightarrow> nat \<Rightarrow> nat option list \<Rightarrow> (nat \<times> 'v) list" where
  "landing input p q ts =
     concat (map (\<lambda>j. case ts ! j of None \<Rightarrow> [] | Some d \<Rightarrow> [(q + d, input ! (p + j))]) [0..<length ts])"

lemma landing_Nil [simp]: "landing input p q [] = []"
  by (simp add: landing_def)

lemma upt_shift: "[n..<n + m] = map (\<lambda>j. n + j) [0..<m]"
  by (induction m) simp_all

lemma landing_append: "landing input p q (xs @ ys) = landing input p q xs @ landing input (p + length xs) q ys"
proof -
  have u: "[0..<length xs + length ys] = [0..<length xs] @ map (\<lambda>j. length xs + j) [0..<length ys]"
    using upt_add_eq_append [of 0 "length xs" "length ys"] upt_shift [of "length xs" "length ys"] by simp
  let ?F = "\<lambda>zs j. case zs ! j of None \<Rightarrow> [] | Some d \<Rightarrow> [(q + d, input ! (p + j))]"
  have "map (?F (xs @ ys)) [0..<length xs] = map (?F xs) [0..<length xs]"
    by (rule map_cong) (simp_all add: nth_append)
  moreover have "map (?F (xs @ ys)) (map (\<lambda>j. length xs + j) [0..<length ys])
      = map (\<lambda>j. case ys ! j of None \<Rightarrow> [] | Some d \<Rightarrow> [(q + d, input ! (p + length xs + j))]) [0..<length ys]"
    by (auto simp: comp_def nth_append add.assoc split: option.split)
  ultimately show ?thesis
    unfolding length_append u landing_def map_append concat_append by (simp only:)
qed

lemma landing_replicate [simp]: "landing input p q (replicate n None) = []"
  by (simp add: landing_def concat_eq_Nil_conv)

lemma landing_shift: "landing input p q (map (map_option (\<lambda>d. a + d)) ts) = landing input p (q + a) ts"
  unfolding landing_def length_map
  by (rule arg_cong [where f = concat], rule map_cong) (simp_all add: add.assoc split: option.split)

lemma landing_tensor:
  "landing input p q (tensor ((es, n) # ls)) = concat (map (\<lambda>i. case es ! i of None \<Rightarrow> []
     | Some k \<Rightarrow> landing input (p + i * length (tensor ls)) (q + k * prod_list (map snd ls)) (tensor ls)) [0..<length es])"
proof (induction es rule: rev_induct)
  case (snoc e es)
  have len: "length (tensor ((es, n) # ls)) = length es * length (tensor ls)"
    by (simp add: length_tensor del: tensor.simps)
  have "tensor ((es @ [e], n) # ls) = tensor ((es, n) # ls) @ (case e of None \<Rightarrow> replicate (length (tensor ls)) None
     | Some k \<Rightarrow> map (map_option (\<lambda>q. k * prod_list (map snd ls) + q)) (tensor ls))" by simp
  then have "landing input p q (tensor ((es @ [e], n) # ls)) = landing input p q (tensor ((es, n) # ls))
      @ (case e of None \<Rightarrow> [] | Some k \<Rightarrow>
          landing input (p + length es * length (tensor ls)) (q + k * prod_list (map snd ls)) (tensor ls))"
    by (simp only: landing_append len) (simp add: landing_shift split: option.split)
  moreover have "concat (map (\<lambda>i. case (es @ [e]) ! i of None \<Rightarrow> []
     | Some k \<Rightarrow> landing input (p + i * length (tensor ls)) (q + k * prod_list (map snd ls)) (tensor ls)) [0..<length es])
     = concat (map (\<lambda>i. case es ! i of None \<Rightarrow> []
     | Some k \<Rightarrow> landing input (p + i * length (tensor ls)) (q + k * prod_list (map snd ls)) (tensor ls)) [0..<length es])"
    by (rule arg_cong [where f = concat], rule map_cong) (simp_all add: nth_append)
  ultimately show ?case using snoc.IH by (simp del: tensor.simps)
qed simp

lemma landing_in:
  "(d, x) \<in> set (landing input p q ts) \<longleftrightarrow> (\<exists>j<length ts. \<exists>e. ts ! j = Some e \<and> d = q + e \<and> x = input ! (p + j))"
  by (force simp: landing_def split: option.splits)

text \<open>The values that arrive at a destination, in order.\<close>

definition arriving :: "nat \<Rightarrow> (nat \<times> 'v) list \<Rightarrow> 'v list" where
  "arriving d us = map snd (filter (\<lambda>u. fst u = d) us)"

lemma arriving_simps [simp]: "arriving d [] = []"
  "arriving d ((e, x) # us) = (if e = d then x # arriving d us else arriving d us)"
  "arriving d (us @ vs) = arriving d us @ arriving d vs"
  by (simp_all add: arriving_def)

lemma arriving_concat: "arriving d (concat uss) = concat (map (arriving d) uss)"
  by (induction uss) simp_all

section \<open>Loops of arrivals\<close>

definition arrive :: "(nat \<Rightarrow> 'v \<Rightarrow> 's \<Rightarrow> 's) \<Rightarrow> (nat \<times> 'v) list \<Rightarrow> 's \<Rightarrow> 's" where
  "arrive upd us s = fold (\<lambda>(d, x). upd d x) us s"

lemma arrive_simps [simp]: "arrive upd [] s = s" "arrive upd ((d, x) # us) s = arrive upd us (upd d x s)"
  "arrive upd (us @ vs) s = arrive upd vs (arrive upd us s)"
  by (simp_all add: arrive_def)

lemma ofold_arrive:
  assumes "\<And>x s. x \<in> set xs \<Longrightarrow> P s \<Longrightarrow> f x s = Inr (arrive upd (g x) s)"
    and "\<And>us s. P s \<Longrightarrow> P (arrive upd us s)" "P s"
  shows "ofold f xs s = Inr (arrive upd (concat (map g xs)) s)"
  using assms
proof (induction xs arbitrary: s)
  case (Cons x xs)
  then have "ofold f xs (arrive upd (g x) s) = Inr (arrive upd (concat (map g xs)) (arrive upd (g x) s))" by simp
  with Cons.prems(1) [of x s] Cons.prems(3) show ?case by simp
qed simp

lemma masked_loop_arrive:
  assumes "wanted m \<le> length cs"
    and "\<And>i k s. i < length m \<Longrightarrow> expand m cs ! i = Some k \<Longrightarrow> P s \<Longrightarrow> body i k s = Inr (arrive upd (g i k) s)"
    and "\<And>us s. P s \<Longrightarrow> P (arrive upd us s)" "P s"
  shows "masked_loop False m cs body (\<lambda>i s. Inr s) s
    = Inr (arrive upd (concat (map (\<lambda>i. case expand m cs ! i of None \<Rightarrow> [] | Some k \<Rightarrow> g i k) [0..<length m])) s)"
proof -
  let ?F = "\<lambda>i s. case expand m cs ! i of None \<Rightarrow> Inr s | Some k \<Rightarrow> body i k s"
  have "masked_loop False m cs body (\<lambda>i s. Inr s) s = ofold ?F [0..<length m] s"
    using zip_upt [of "expand m cs"] by (simp add: masked_loop_expand [OF assms(1)] ofold_map)
  also have "\<dots> = Inr (arrive upd (concat (map (\<lambda>i. case expand m cs ! i of None \<Rightarrow> [] | Some k \<Rightarrow> g i k) [0..<length m])) s)"
  proof (rule ofold_arrive [where P = P])
    fix i s assume "i \<in> set [0..<length m]" "P s"
    with assms(2) show "?F i s = Inr (arrive upd (case expand m cs ! i of None \<Rightarrow> [] | Some k \<Rightarrow> g i k) s)"
      by (cases "expand m cs ! i") auto
  qed (use assms(3,4) in auto)
  finally show ?thesis .
qed

section \<open>The recursion over dimensions\<close>

text \<open>Here the source of a level is the position in the array of a rank, and its range the
  positions of the local view.\<close>

lemma lc_expand_nat:
  assumes "lc_ok lc" "i < length (lc_mask lc)" "expand (lc_mask lc) (lc_connector lc) ! i = Some k"
  shows "fst (lc_level lc) ! i = Some (nat k) \<and> 0 \<le> k \<and> nat k < nat (lc_srcSize lc)"
proof -
  have "Some k \<in> set (expand (lc_mask lc) (lc_connector lc))"
    using assms(2,3) nth_mem [of i "expand (lc_mask lc) (lc_connector lc)"] by simp
  with assms show ?thesis by (auto simp: lc_ok_def lc_level_def)
qed

lemma lc_level_None:
  "i < length (lc_mask lc) \<Longrightarrow> expand (lc_mask lc) (lc_connector lc) ! i = None \<Longrightarrow> fst (lc_level lc) ! i = None"
  by (simp add: lc_level_def)

lemma level_arrivals:
  assumes "lc_ok lc" "\<And>i k. i < length (lc_mask lc) \<Longrightarrow> 0 \<le> k \<Longrightarrow> h i k = g i (nat k)"
  shows "concat (map (\<lambda>i. case expand (lc_mask lc) (lc_connector lc) ! i of None \<Rightarrow> [] | Some k \<Rightarrow> h i k)
        [0..<length (lc_mask lc)])
    = concat (map (\<lambda>i. case fst (lc_level lc) ! i of None \<Rightarrow> [] | Some k \<Rightarrow> g i k) [0..<length (lc_mask lc)])"
proof (rule arg_cong [where f = concat], rule map_cong [OF refl])
  fix i assume "i \<in> set [0..<length (lc_mask lc)]"
  with assms lc_expand_nat [OF assms(1)] lc_level_None [of i lc]
  show "(case expand (lc_mask lc) (lc_connector lc) ! i of None \<Rightarrow> [] | Some k \<Rightarrow> h i k)
      = (case fst (lc_level lc) ! i of None \<Rightarrow> [] | Some k \<Rightarrow> g i k)"
    by (cases "expand (lc_mask lc) (lc_connector lc) ! i") fastforce+
qed

locale gather_rank =
  fixes T :: "'c list \<Rightarrow> int \<Rightarrow> int \<Rightarrow> 's \<Rightarrow> 's outcome" and proj :: "'c \<Rightarrow> local_connector"
    and input :: "'v list" and upd :: "nat \<Rightarrow> 'v \<Rightarrow> 's \<Rightarrow> 's"
    and room :: "'s \<Rightarrow> nat" and row_ok :: "'c \<Rightarrow> bool"
  assumes T_row: "\<lbrakk>row_ok c; lc_ok (proj c); p + length (lc_mask (proj c)) \<le> length input;
        q + nat (lc_srcSize (proj c)) \<le> room s\<rbrakk> \<Longrightarrow>
      T [c] (int p) (int q) s = Inr (arrive upd (landing input p q (fst (lc_level (proj c)))) s)"
    and T_outer: "cs \<noteq> [] \<Longrightarrow> T (c # cs) P Q s = masked_loop False (lc_mask (proj c)) (lc_connector (proj c))
      (\<lambda>i k. T cs (P + int i * lc_getDstSliceSize (map proj cs)) (Q + k * lc_getSrcSliceSize (map proj cs)))
      (\<lambda>i s. Inr s) s"
    and room_upd: "room (upd d x s) = room s"
begin

lemma room_arrive: "room (arrive upd us s) = room s"
  by (induction us arbitrary: s) (auto simp: arrive_def room_upd)

theorem T_eq:
  assumes "\<forall>c\<in>set cs. lc_ok (proj c)" "cs \<noteq> []" "row_ok (last cs)"
    and "p + length (tensor (map lc_level (map proj cs))) \<le> length input"
    and "q + prod_list (map (snd \<circ> lc_level) (map proj cs)) \<le> room s"
  shows "T cs (int p) (int q) s = Inr (arrive upd (landing input p q (tensor (map lc_level (map proj cs)))) s)"
  using assms
proof (induction cs arbitrary: p q s)
  case (Cons c cs)
  define lc lcs where "lc = proj c" and "lcs = map proj cs"
  have ok: "lc_ok lc" "\<forall>lc\<in>set lcs. lc_ok lc" using Cons.prems(1) by (simp_all add: lc_def lcs_def)
  define D S where "D = length (tensor (map lc_level lcs))" and "S = prod_list (map (snd \<circ> lc_level) lcs)"
  have lev: "snd (lc_level lc) = nat (lc_srcSize lc)" by (simp add: lc_level_def)
  have sp: "p + length (lc_mask lc) * D \<le> length input" "q + nat (lc_srcSize lc) * S \<le> room s"
    using Cons.prems(4,5) by (simp_all add: S_def D_def length_tensor lev comp_def lc_def [symmetric] lcs_def)
  show ?case
  proof (cases "cs = []")
    case True
    have "tensor (map lc_level [lc]) = fst (lc_level lc)"
      using tensor_single [of "fst (lc_level lc)" "snd (lc_level lc)"] by (simp only: list.map prod.collapse)
    with T_row [of c p q s] ok(1) Cons.prems(3) sp True show ?thesis by (simp add: D_def S_def lc_def lcs_def)
  next
    case False
    from False have ne: "lcs \<noteq> []" by (simp add: lcs_def)
    have sizes: "lc_getSrcSliceSize lcs = int S" "lc_getDstSliceSize lcs = int D"
      using lc_src_slice [OF ok(2) ne] lc_dst_slice [OF ok(2) ne] by (simp_all add: S_def D_def)
    have "T (c # cs) (int p) (int q) s = Inr (arrive upd (concat (map (\<lambda>i.
        case expand (lc_mask lc) (lc_connector lc) ! i of None \<Rightarrow> []
        | Some k \<Rightarrow> landing input (p + i * D) (q + nat k * S) (tensor (map lc_level lcs))) [0..<length (lc_mask lc)])) s)"
      unfolding T_outer [OF False] lc_def [symmetric] lcs_def [symmetric] sizes
    proof (rule masked_loop_arrive [where P = "\<lambda>s'. room s' = room s"])
      fix i k s' assume i: "i < length (lc_mask lc)" "expand (lc_mask lc) (lc_connector lc) ! i = Some k"
        and s': "room s' = room s"
      have k: "0 \<le> k" "nat k < nat (lc_srcSize lc)" using lc_expand_nat [OF ok(1) i] by simp_all
      have "Suc i * D \<le> length (lc_mask lc) * D" "Suc (nat k) * S \<le> nat (lc_srcSize lc) * S"
        using i k by (intro mult_le_mono1; simp add: Suc_leI)+
      then have "p + i * D + D \<le> length input" "q + nat k * S + S \<le> room s'" using sp s' by simp_all
      then have "T cs (int (p + i * D)) (int (q + nat k * S)) s'
          = Inr (arrive upd (landing input (p + i * D) (q + nat k * S) (tensor (map lc_level lcs))) s')"
        using Cons.prems(3) False unfolding D_def S_def lcs_def
        by (intro Cons.IH) (use Cons.prems(1) in \<open>simp_all add: comp_def\<close>)
      with k show "T cs (int p + int i * int D) (int q + k * int S) s'
          = Inr (arrive upd (landing input (p + i * D) (q + nat k * S) (tensor (map lc_level lcs))) s')" by simp
    qed (use ok(1) in \<open>simp_all add: lc_ok_def room_arrive\<close>)
    also have "\<dots> = Inr (arrive upd (landing input p q (tensor (map lc_level (map proj (c # cs))))) s)"
    proof -
      have "concat (map (\<lambda>i. case expand (lc_mask lc) (lc_connector lc) ! i of None \<Rightarrow> []
          | Some k \<Rightarrow> landing input (p + i * D) (q + nat k * S) (tensor (map lc_level lcs))) [0..<length (lc_mask lc)])
        = concat (map (\<lambda>i. case fst (lc_level lc) ! i of None \<Rightarrow> []
          | Some k \<Rightarrow> landing input (p + i * D) (q + k * S) (tensor (map lc_level lcs))) [0..<length (lc_mask lc)])"
        by (rule level_arrivals [OF ok(1)]) simp
      moreover have "tensor (map lc_level (map proj (c # cs))) = tensor ((fst (lc_level lc), snd (lc_level lc)) # map lc_level lcs)"
        by (simp add: lc_def lcs_def)
      ultimately show ?thesis
        by (simp only: landing_tensor length_lc_level D_def S_def map_map)
    qed
    finally show ?thesis .
  qed
qed simp

end

end
