(* ===== verification/GridConnectors.thy ===== *)
theory GridConnectors
  imports Landing
begin

text \<open>
  The connectors of grids (\<open>distribution/grid_*_connector.*\<close>): the connectors of the elements of a
  grid, the outermost (last in the code's vector) first here, and the transfers over all of
  them.
\<close>

section \<open>Local\<close>

record grid_local_connector =
  glc_connectors :: "local_connector list"
  glc_srcSize :: int
  glc_dstSize :: int
  glc_mask :: "bool list"

definition newGridLocalConnector :: "local_connector list \<Rightarrow> grid_local_connector" where
  "newGridLocalConnector connectors =
    \<lparr>glc_connectors = connectors,
     glc_srcSize = fold (\<lambda>lc n. n * lc_srcSize lc) connectors 1,
     glc_dstSize = fold (\<lambda>lc n. n * lc_dstSize lc) connectors 1, glc_mask = []\<rparr>"

definition glc_transfer :: "grid_local_connector \<Rightarrow> 'a list \<Rightarrow> 'a list \<Rightarrow> 'a list outcome" where
  "glc_transfer g input output = lc_transfer (glc_connectors g) input 0 0 output"

text \<open>With a missing value the cells out of the mask are overwritten at the end.\<close>

definition glc_transfer_missing :: "grid_local_connector \<Rightarrow> 'a list \<Rightarrow> 'a list \<Rightarrow> 'a \<Rightarrow> 'a list outcome" where
  "glc_transfer_missing g input output missingValue =
     obind (lc_transfer_missing (glc_connectors g) input 0 0 output missingValue)
       (ofold (\<lambda>i output. if \<not> glc_mask g ! i then arr_set output (int i) missingValue else Inr output)
          [0..<length (glc_mask g)])"

text \<open>The constructor from the views of the elements: \<open>connectors\<close> are those between the two
  types of views, \<open>fullConnectors\<close> those from the full views, \<open>localMask\<close> is the mask of the grid
  if it has one and it is asked for.\<close>

definition newMaskedGridLocalConnector ::
  "(nat \<Rightarrow> bool) \<Rightarrow> local_connector list \<Rightarrow> local_connector list \<Rightarrow> bool list option \<Rightarrow> grid_local_connector outcome" where
  "newMaskedGridLocalConnector junk connectors fullConnectors localMask =
     (let g = newGridLocalConnector connectors
      in case localMask of None \<Rightarrow> Inr g
         | Some localMask \<Rightarrow>
            let localToDst = newGridLocalConnector fullConnectors;
                out = fresh_array junk (nat (glc_dstSize localToDst))
            in obind (glc_transfer_missing localToDst (replicate (nat (glc_srcSize localToDst)) True) out False) (\<lambda>maskOut1.
               obind (ofold (\<lambda>i maskIn. omap (\<lambda>b. maskIn @ [b]) (arr_get localMask (int i)))
                        [0..<nat (glc_srcSize localToDst)] []) (\<lambda>maskIn.
               obind (glc_transfer_missing localToDst maskIn out False) (\<lambda>maskOut2.
               omap (\<lambda>msk. g\<lparr>glc_mask := msk\<rparr>)
                 (ofold (\<lambda>i msk. obind (arr_get maskOut1 (int i)) (\<lambda>a. obind (arr_get maskOut2 (int i)) (\<lambda>b.
                      if a \<and> \<not> b then arr_set msk (int i) False else Inr msk)))
                    [0..<nat (glc_dstSize g)] (replicate (nat (glc_dstSize g)) True))))))"

section \<open>Scatterer\<close>

record grid_scatterer =
  gsc_connectors :: "scatterer list"
  gsc_nbSenders :: "(int, int) std_map"
  gsc_ranks :: "int list"
  gsc_dstSize :: "(int, int) std_map"

text \<open>The first element's connector is the innermost one.\<close>

definition newGridScatterer :: "scatterer list \<Rightarrow> grid_scatterer" where
  "newGridScatterer connectors =
    (let nbSenders = sc_nbSenders (last connectors);
         ones = fold (\<lambda>(rank, n). std_put rank 1) nbSenders []
     in \<lparr>gsc_connectors = connectors, gsc_nbSenders = nbSenders, gsc_ranks = map fst nbSenders,
         gsc_dstSize = fold (\<lambda>sc sizes. fold (\<lambda>(rank, n) sizes. std_put rank (std_at 0 sizes rank * n) sizes)
                              (sc_dstSize sc) sizes) (rev connectors) ones\<rparr>)"

definition gsc_transfer ::
  "(int \<Rightarrow> nat \<Rightarrow> 'a) \<Rightarrow> grid_scatterer \<Rightarrow> 'a list \<Rightarrow> (int, 'a list) std_map \<Rightarrow> (int, 'a list) std_map outcome" where
  "gsc_transfer junk g input output =
     ofold (\<lambda>rank output. let out = resize_array (junk rank) (std_at 0 (gsc_dstSize g) rank) (std_at [] output rank)
        in omap (\<lambda>out. std_put rank out output) (sc_transfer_rank rank (gsc_connectors g) input 0 0 out))
       (gsc_ranks g) output"

definition gsc_sendToServer :: "grid_scatterer \<Rightarrow> (int, 'a list) std_map \<Rightarrow> (int \<times> int \<times> 'a list) list" where
  "gsc_sendToServer g dataOut = map (\<lambda>(rank, data). (rank, std_at 0 (gsc_nbSenders g) rank, data)) dataOut"

definition gsc_transfer_event :: "(int \<Rightarrow> nat \<Rightarrow> 'a) \<Rightarrow> grid_scatterer \<Rightarrow> 'a list \<Rightarrow> (int \<times> int \<times> 'a list) list outcome" where
  "gsc_transfer_event junk g input = omap (gsc_sendToServer g) (gsc_transfer junk g input [])"

section \<open>Gatherer\<close>

record grid_gatherer =
  gga_connectors :: "gatherer list"
  gga_dstSize :: int

definition newGridGatherer :: "gatherer list \<Rightarrow> grid_gatherer" where
  "newGridGatherer connectors = \<lparr>gga_connectors = connectors,
     gga_dstSize = fold (\<lambda>ga n. n * ga_dstSize ga) (rev connectors) 1\<rparr>"

definition gga_transfer ::
  "(nat \<Rightarrow> double) \<Rightarrow> grid_gatherer \<Rightarrow> (int, double list) std_map \<Rightarrow> double list \<Rightarrow> EReduction \<Rightarrow> double list outcome" where
  "gga_transfer junk g input output rd =
    (let output = resize_array junk (gga_dstSize g) output; n = nat (gga_dstSize g)
     in if rd = RNone
        then omap fst (ofold (\<lambda>(rank, data). ga_transfer_rank rank (gga_connectors g) data 0 0 RNone) input (output, []))
        else obind (ofold (\<lambda>(rank, data). ga_transfer_rank rank (gga_connectors g) data 0 0 rd) input
                      (output, replicate n 0)) (\<lambda>(output, count).
             ofold (\<lambda>i output. if count ! i = 0 then arr_set output (int i) None else Inr output) [0..<n] output))"

definition gga_transfer_missing ::
  "grid_gatherer \<Rightarrow> (int, double list) std_map \<Rightarrow> double \<Rightarrow> double list outcome" where
  "gga_transfer_missing g input missingValue =
     omap fst (ofold (\<lambda>(rank, data). ga_transfer_rank rank (gga_connectors g) data 0 0 RNone) input
       (replicate (nat (gga_dstSize g)) missingValue, []))"

definition gga_transfer_or :: "grid_gatherer \<Rightarrow> (int, bool list) std_map \<Rightarrow> bool list outcome" where
  "gga_transfer_or g input =
     ofold (\<lambda>(rank, data). ga_transfer_or rank (gga_connectors g) data 0 0) input
       (replicate (nat (gga_dstSize g)) False)"

definition gga_transfer_event ::
  "(nat \<Rightarrow> double) \<Rightarrow> grid_gatherer \<Rightarrow> (int \<times> double list) list \<Rightarrow> double list \<Rightarrow> EReduction \<Rightarrow> double list outcome" where
  "gga_transfer_event junk g subEvents dataOut rd =
     gga_transfer junk g (fold (\<lambda>(rank, data). std_put rank data) subEvents []) dataOut rd"

definition gga_transfer_or_event :: "grid_gatherer \<Rightarrow> (int \<times> bool list) list \<Rightarrow> bool list outcome" where
  "gga_transfer_or_event g subEvents = gga_transfer_or g (fold (\<lambda>(rank, data). std_put rank data) subEvents [])"

definition gga_transfer_event_missing :: "grid_gatherer \<Rightarrow> (int \<times> double list) list \<Rightarrow> double \<Rightarrow> double list outcome" where
  "gga_transfer_event_missing g subEvents missingValue =
     gga_transfer_missing g (fold (\<lambda>(rank, data). std_put rank data) subEvents []) missingValue"

section \<open>Element masks from a grid mask\<close>

text \<open>The state of the walk over the mask: the masks of the elements, the indices and the rest
  of the mask.  The elements are in the order of the views, level 0 first.\<close>

type_synonym mask_walk = "bool list list \<times> nat list \<times> bool list"

definition mark_elements :: "bool \<Rightarrow> nat list \<Rightarrow> bool list list \<Rightarrow> bool list list" where
  "mark_elements b index elementsMask = map2 (\<lambda>i em. em[i := em ! i \<or> b]) index elementsMask"

text \<open>The walk of one level, given the walk of the levels below it.\<close>

fun recursiveInternal :: "nat list \<Rightarrow> nat \<Rightarrow> mask_walk \<Rightarrow> mask_walk outcome" where
  "recursiveInternal sizes 0 w =
     omap (\<lambda>(em, index, msk). (em, index[0 := 0], msk))
      (ofold (\<lambda>_ (em, index, msk). case msk of
           [] \<Rightarrow> Inl (UndefinedBehaviour ''read out of range'')
         | b # msk \<Rightarrow> Inr (mark_elements b index em, index[0 := index ! 0 + 1], msk))
       [0..<sizes ! 0] w)"
| "recursiveInternal sizes (Suc level) w =
     omap (\<lambda>(em, index, msk). (em, index[Suc level := 0], msk))
      (ofold (\<lambda>_ w. omap (\<lambda>(em, index, msk). (em, index[Suc level := index ! Suc level + 1], msk))
                       (recursiveInternal sizes level w))
       [0..<sizes ! Suc level] w)"

definition mask_computeConnector :: "nat list \<Rightarrow> bool list \<Rightarrow> bool list list outcome" where
  "mask_computeConnector sizes msk =
     omap fst (recursiveInternal sizes (length sizes - 1)
       (map (\<lambda>n. replicate n False) sizes, replicate (length sizes) 0, msk))"

end
