(* ===== verification/Cells.thy ===== *)
theory Cells
  imports Landing
begin

text \<open>
  Arrays of cells with a note at each (how many values have been taken, or whether one has): an
  operation that arrives at a cell changes its value and its note and nothing else, so what a
  loop leaves in a cell is the fold of the operations that arrive there.
\<close>

section \<open>Arrivals at a cell\<close>

definition upd_cells :: "('v \<times> 'n \<Rightarrow> 'v \<times> 'n) \<Rightarrow> nat \<Rightarrow> 'v list \<times> 'n list \<Rightarrow> 'v list \<times> 'n list" where
  "upd_cells f d = (\<lambda>(out, cnt). let c = f (out ! d, cnt ! d) in (out[d := fst c], cnt[d := snd c]))"

lemma upd_cells_len [simp]: "length (fst (upd_cells f d s)) = length (fst s)" "length (snd (upd_cells f d s)) = length (snd s)"
  by (cases s; simp add: upd_cells_def Let_def)+

lemma arrive_len [simp]:
  "length (fst (arrive (\<lambda>d x. upd_cells (f x) d) us s)) = length (fst s)"
  "length (snd (arrive (\<lambda>d x. upd_cells (f x) d) us s)) = length (snd s)"
proof -
  have "length (fst (arrive (\<lambda>d x. upd_cells (f x) d) us s)) = length (fst s)
    \<and> length (snd (arrive (\<lambda>d x. upd_cells (f x) d) us s)) = length (snd s)"
  proof (induction us arbitrary: s)
    case (Cons u us)
    show ?case using Cons.IH [of "upd_cells (f (snd u)) (fst u) s"] by (cases u) simp
  qed simp
  then show "length (fst (arrive (\<lambda>d x. upd_cells (f x) d) us s)) = length (fst s)"
    "length (snd (arrive (\<lambda>d x. upd_cells (f x) d) us s)) = length (snd s)" by simp_all
qed

definition cell_of :: "'v list \<times> 'n list \<Rightarrow> nat \<Rightarrow> 'v \<times> 'n" where
  "cell_of s d = (fst s ! d, snd s ! d)"

lemma arrive_cell:
  assumes "d < length (fst s)" "d < length (snd s)"
  shows "cell_of (arrive (\<lambda>d x. upd_cells (f x) d) us s) d = fold f (arriving d us) (cell_of s d)"
  using assms
proof (induction us arbitrary: s)
  case (Cons u us)
  obtain e x where u: "u = (e, x)" by (cases u)
  have "cell_of (upd_cells (f x) e s) d = (if e = d then f x (cell_of s d) else cell_of s d)"
    using Cons.prems by (cases s) (simp add: cell_of_def upd_cells_def Let_def)
  with Cons u show ?case by simp
qed simp

lemma arrive_untouched:
  assumes "d \<notin> fst ` set us"
  shows "fst (arrive (\<lambda>d x. upd_cells (f x) d) us s) ! d = fst s ! d"
  using assms
proof (induction us arbitrary: s)
  case (Cons u us)
  obtain e x where u: "u = (e, x)" by (cases u)
  have "fst (upd_cells (f x) e s) ! d = fst s ! d"
    using Cons.prems u by (cases s) (simp add: upd_cells_def Let_def)
  with Cons u show ?case by simp
qed simp

lemma cells_eqI:
  assumes "length (fst s) = length (fst t)" "length (snd s) = length (snd t)" "length (fst s) = length (snd s)"
    and "\<And>d. d < length (fst s) \<Longrightarrow> cell_of s d = cell_of t d"
  shows "s = t"
proof -
  have "fst s = fst t" by (rule nth_equalityI) (use assms in \<open>simp_all add: cell_of_def\<close>)
  moreover have "snd s = snd t" by (rule nth_equalityI) (use assms in \<open>simp_all add: cell_of_def\<close>)
  ultimately show ?thesis by (simp add: prod_eq_iff)
qed

section \<open>Slices of blocks\<close>

text \<open>Operations over \<open>rep\<close> slices of \<open>n\<close> blocks of \<open>m\<close> cells: in slice \<open>r\<close>, for each of a list of
  phases, block \<open>i\<close> gets the operations \<open>ts i\<close>, each of them at all cells of the block.\<close>

definition block_op :: "nat \<Rightarrow> nat \<Rightarrow> nat \<Rightarrow> nat \<Rightarrow> (nat \<Rightarrow> nat \<Rightarrow> 'f) \<Rightarrow> (nat \<times> 'f) list" where
  "block_op n m r i t = map (\<lambda>l. (r * (n * m) + i * m + l, t r l)) [0..<m]"

definition slice_ops :: "nat \<Rightarrow> nat \<Rightarrow> nat \<Rightarrow> (nat \<Rightarrow> (nat \<Rightarrow> nat \<Rightarrow> 'f) list) \<Rightarrow> (nat \<times> 'f) list" where
  "slice_ops n m r ts = concat (map (\<lambda>i. concat (map (block_op n m r i) (ts i))) [0..<n])"

definition block_ops :: "nat \<Rightarrow> nat \<Rightarrow> nat \<Rightarrow> (nat \<Rightarrow> (nat \<Rightarrow> nat \<Rightarrow> 'f) list) list \<Rightarrow> (nat \<times> 'f) list" where
  "block_ops rep n m phases = concat (map (\<lambda>r. concat (map (slice_ops n m r) phases)) [0..<rep])"

lemma arriving_concat_single:
  assumes "j < k" "\<And>i. i < k \<Longrightarrow> i \<noteq> j \<Longrightarrow> arriving d (g i) = []"
  shows "arriving d (concat (map g [0..<k])) = arriving d (g j)"
proof -
  have "[0..<k] = [0..<j] @ j # [Suc j..<k]"
    using assms(1) by (metis le_add1 less_imp_add_positive upt_add_eq_append upt_conv_Cons zero_le le_add_same_cancel1 add_0)
  moreover have none: "concat (map (arriving d) (map g xs)) = []" if "\<forall>i\<in>set xs. i < k \<and> i \<noteq> j" for xs
    using that assms(2) by (auto simp: concat_eq_Nil_conv)
  have "concat (map (arriving d) (map g [0..<j])) = []"
    "concat (map (arriving d) (map g [Suc j..<k])) = []"
    by (rule none; use assms(1) in auto)+
  ultimately show ?thesis by (simp only: arriving_concat [symmetric] arriving_simps(3) map_append list.map concat_append concat.simps append.left_neutral append_Nil2)
qed

lemma arriving_none: "\<forall>u\<in>set us. fst u \<noteq> d \<Longrightarrow> arriving d us = []"
  by (auto simp: arriving_def filter_empty_conv)

lemma block_index_bounds:
  assumes "i < n" "l < (m::nat)"
  shows "i * m + l < n * m"
proof -
  have "Suc i * m \<le> n * m" using assms(1) by (intro mult_le_mono1) simp
  with assms(2) show ?thesis by simp
qed

lemma block_index_inj:
  assumes "i * m + l = j * m + k" "l < m" "k < (m::nat)"
  shows "i = j" "l = k"
proof -
  have "(i * m + l) div m = i" "(j * m + k) div m = j" "(i * m + l) mod m = l" "(j * m + k) mod m = k"
    using assms(2,3) by simp_all
  with assms(1) show "i = j" "l = k" by simp_all
qed

lemma arriving_slice_ops:
  assumes "i < n" "l < m"
  shows "arriving (r * (n * m) + i * m + l) (slice_ops n m r ts) = map (\<lambda>t. t r l) (ts i)"
proof -
  let ?d = "r * (n * m) + i * m + l"
  have "arriving ?d (slice_ops n m r ts) = arriving ?d (concat (map (block_op n m r i) (ts i)))"
    unfolding slice_ops_def
  proof (rule arriving_concat_single [OF assms(1)], rule arriving_none, rule ballI)
    fix i' u assume "i' \<noteq> i" "u \<in> set (concat (map (block_op n m r i') (ts i')))"
    then obtain l' where u: "fst u = r * (n * m) + (i' * m + l')" "l' < m" by (auto simp: block_op_def)
    with block_index_inj(1) [of i' m l' i l] assms(2) \<open>i' \<noteq> i\<close> show "fst u \<noteq> ?d" by auto
  qed
  also have "\<dots> = concat (map (\<lambda>t. arriving ?d (block_op n m r i t)) (ts i))"
    by (simp add: arriving_concat comp_def)
  also have "\<dots> = concat (map (\<lambda>t. [t r l]) (ts i))"
  proof (rule arg_cong [where f = concat], rule map_cong [OF refl])
    fix t
    have "arriving ?d (concat (map (\<lambda>l. [(r * (n * m) + i * m + l, t r l)]) [0..<m]))
        = arriving ?d [(r * (n * m) + i * m + l, t r l)]"
      by (rule arriving_concat_single [OF assms(2)]) auto
    then show "arriving ?d (block_op n m r i t) = [t r l]" by (simp add: block_op_def concat_map_singleton)
  qed
  finally show ?thesis by simp
qed

lemma slice_ops_bounds: "u \<in> set (slice_ops n m r ts) \<Longrightarrow> \<exists>k<n * m. fst u = r * (n * m) + k"
  using block_index_bounds by (fastforce simp: slice_ops_def block_op_def add.assoc)

lemma arriving_block_ops:
  assumes "r < rep" "i < n" "l < m"
  shows "arriving (r * (n * m) + i * m + l) (block_ops rep n m phases) = concat (map (\<lambda>ts. map (\<lambda>t. t r l) (ts i)) phases)"
proof -
  let ?d = "r * (n * m) + i * m + l"
  have "arriving ?d (block_ops rep n m phases) = arriving ?d (concat (map (slice_ops n m r) phases))"
    unfolding block_ops_def
  proof (rule arriving_concat_single [OF assms(1)], rule arriving_none, rule ballI)
    fix r' u assume "r' \<noteq> r" "u \<in> set (concat (map (slice_ops n m r') phases))"
    then obtain ts where "u \<in> set (slice_ops n m r' ts)" by auto
    then obtain k where "fst u = r' * (n * m) + k" "k < n * m" using slice_ops_bounds by metis
    with block_index_inj(1) [of r' "n * m" k r "i * m + l"] block_index_bounds [OF assms(2,3)] \<open>r' \<noteq> r\<close>
    show "fst u \<noteq> ?d" by (auto simp: add.assoc)
  qed
  also have "\<dots> = concat (map (\<lambda>ts. arriving ?d (slice_ops n m r ts)) phases)"
    by (simp add: arriving_concat comp_def)
  finally show ?thesis by (simp add: arriving_slice_ops [OF assms(2,3)])
qed

section \<open>Loops of blocks\<close>

lemma block_arrive:
  assumes "\<And>l s. l < m \<Longrightarrow> P s \<Longrightarrow> f l s = Inr (upd (r * (n * m) + i * m + l) (t r l) s)"
    and "\<And>us s. P s \<Longrightarrow> P (arrive upd us s)" "P s"
  shows "ofold f [0..<m] s = Inr (arrive upd (block_op n m r i t) s)"
proof -
  have "ofold f [0..<m] s = Inr (arrive upd (concat (map (\<lambda>l. [(r * (n * m) + i * m + l, t r l)]) [0..<m])) s)"
    by (rule ofold_arrive [where P = P]) (use assms in auto)
  then show ?thesis by (simp add: block_op_def concat_map_singleton)
qed

lemma slice_arrive:
  assumes "\<And>i s. i < n \<Longrightarrow> P s \<Longrightarrow> f i s = Inr (arrive upd (concat (map (block_op n m r i) (ts i))) s)"
    and "\<And>us s. P s \<Longrightarrow> P (arrive upd us s)" "P s"
  shows "ofold f [0..<n] s = Inr (arrive upd (slice_ops n m r ts) s)"
  unfolding slice_ops_def by (rule ofold_arrive [where P = P]) (use assms in auto)

lemma slices_arrive:
  assumes "\<And>r s. r < rep \<Longrightarrow> P s \<Longrightarrow> f r s = Inr (arrive upd (concat (map (slice_ops n m r) phases)) s)"
    and "\<And>us s. P s \<Longrightarrow> P (arrive upd us s)" "P s"
  shows "ofold f [0..<rep] s = Inr (arrive upd (block_ops rep n m phases) s)"
  unfolding block_ops_def by (rule ofold_arrive [where P = P]) (use assms in auto)

text \<open>Arrays without notes.\<close>

definition upd_one :: "('v \<Rightarrow> 'v) \<Rightarrow> nat \<Rightarrow> 'v list \<Rightarrow> 'v list" where
  "upd_one f d out = out[d := f (out ! d)]"

lemma length_upd_one [simp]: "length (arrive (\<lambda>d f. upd_one f d) us out) = length out"
  by (induction us arbitrary: out) (auto simp: arrive_def upd_one_def)

lemma arrive_one: "d < length out \<Longrightarrow>
  arrive (\<lambda>d f. upd_one f d) us out ! d = fold (\<lambda>f. f) (arriving d us) (out ! d)"
proof (induction us arbitrary: out)
  case (Cons u us)
  obtain e f where u: "u = (e, f)" by (cases u)
  have "d < length (upd_one f e out)" using Cons.prems by (simp add: upd_one_def)
  from Cons.IH [OF this] Cons.prems show ?case by (simp add: u upd_one_def nth_list_update)
qed simp

end
