(* ===== verification/GathererProps.thy ===== *)
theory GathererProps
  imports GridConnectors FunctorProps Cells
begin

text \<open>
  Gatherers as arrivals: the transfers of one rank let its values arrive one by one at their
  cells, and a cell combines the values that arrive there.
\<close>

definition ga_at :: "int \<Rightarrow> gatherer \<Rightarrow> local_connector" where
  "ga_at rank ga = \<lparr>lc_srcSize = ga_dstSize ga, lc_dstSize = std_at 0 (ga_srcSize ga) rank,
     lc_connector = std_at [] (ga_connector ga) rank, lc_mask = std_at [] (ga_mask ga) rank\<rparr>"

lemma ga_slices: "ga_getSrcSliceSize rank gas = lc_getDstSliceSize (map (ga_at rank) gas)"
  "ga_getDstSliceSize gas = lc_getSrcSliceSize (map (ga_at rank) gas)"
  by (induction gas) (auto simp: ga_at_def)

lemma ga_at_simps [simp]: "lc_mask (ga_at rank ga) = std_at [] (ga_mask ga) rank"
  "lc_connector (ga_at rank ga) = std_at [] (ga_connector ga) rank" "lc_srcSize (ga_at rank ga) = ga_dstSize ga"
  by (simp_all add: ga_at_def)

section \<open>What a cell does\<close>

definition cell_fn :: "EReduction \<Rightarrow> double \<Rightarrow> double \<times> int \<Rightarrow> double \<times> int" where
  "cell_fn rd x = (\<lambda>(y, n).
     if rd = RNone then (x, n)
     else if isNan x then (y, n)
     else if n = 0 then (x, 1)
     else (case rd of RMin \<Rightarrow> dmin y x | RMax \<Rightarrow> dmax y x
           | RAverage \<Rightarrow> ddiv (dadd (map_option (\<lambda>a. a * of_int n) y) x) (n + 1)
           | _ \<Rightarrow> dadd y x, n + 1))"

definition upd_red :: "EReduction \<Rightarrow> nat \<Rightarrow> double \<Rightarrow> double list \<times> int list \<Rightarrow> double list \<times> int list" where
  "upd_red rd d x = upd_cells (cell_fn rd x) d"

definition red_room :: "EReduction \<Rightarrow> double list \<times> int list \<Rightarrow> nat" where
  "red_room rd s = (if rd = RNone then length (fst s) else if length (fst s) = length (snd s) then length (fst s) else 0)"

lemma red_room_upd [simp]: "red_room rd (upd_cells f d s) = red_room rd s"
  by (cases s) (simp add: red_room_def upd_cells_def Let_def)

section \<open>One row of the innermost dimension\<close>

lemma rank_cell_eq:
  assumes "rd \<noteq> RExtract" "rd \<noteq> RAverage" "p < length input" "q < red_room rd s"
  shows "rank_cell rd input (int p) (int q) s = Inr (upd_red rd q (input ! p) s)"
proof -
  obtain out cnt where s: "s = (out, cnt)" by (cases s)
  have q: "q < length out" "rd \<noteq> RNone \<Longrightarrow> q < length cnt" using assms(4) by (auto simp: s red_room_def split: if_splits)
  show ?thesis
  proof (cases "rd = RNone")
    case True
    then show ?thesis using q assms(3)
      by (simp add: rank_cell_def s upd_red_def upd_cells_def cell_fn_def Let_def)
  next
    case False
    show ?thesis using q(1) q(2) [OF False] assms(1-3) False
      by (cases rd) (auto simp: rank_cell_def s upd_red_def upd_cells_def cell_fn_def Let_def split: if_splits)
  qed
qed

text \<open>The first pass of an average, and its second pass.\<close>

definition avg_sum :: "double \<Rightarrow> double \<times> int \<Rightarrow> double \<times> int" where
  "avg_sum x = (\<lambda>(y, n). if isNan x then (y, n) else if n = 0 then (x, 1)
     else (dadd (map_option (\<lambda>a. a * of_int n) y) x, n + 1))"

definition avg_div :: "double \<Rightarrow> double \<times> int \<Rightarrow> double \<times> int" where
  "avg_div x = (\<lambda>(y, n). if isNan x then (y, n) else (ddiv y n, n))"

lemma avg_cell_eq:
  assumes "p < length input" "q < red_room RAverage s"
  shows "rank_cell RAverage input (int p) (int q) s = Inr (upd_cells (avg_sum (input ! p)) q s)"
  using assms by (cases s) (auto simp: rank_cell_def red_room_def upd_cells_def avg_sum_def Let_def split: if_splits)

lemma avg_div_eq:
  assumes "p < length input" "q < red_room RAverage s"
  shows "(case s of (output, cnt) \<Rightarrow> obind (arr_get input (int p)) (\<lambda>x.
            if isNan x then Inr (output, cnt)
            else obind (arr_get output (int q)) (\<lambda>y. obind (arr_get cnt (int q)) (\<lambda>n.
                 omap (\<lambda>output. (output, cnt)) (arr_set output (int q) (ddiv y n))))))
     = Inr (upd_cells (avg_div (input ! p)) q s)"
  using assms by (cases s) (auto simp: red_room_def upd_cells_def avg_div_def Let_def split: if_splits)

text \<open>No two positions of the row share a destination.\<close>

definition lands_once :: "nat option list \<Rightarrow> bool" where
  "lands_once es = (\<forall>i<length es. \<forall>j<length es. es ! i = es ! j \<and> es ! i \<noteq> None \<longrightarrow> i = j)"

lemma lands_once_arriving:
  assumes "lands_once es"
  shows "arriving d (landing input p q es) = [] \<or> (\<exists>x. arriving d (landing input p q es) = [x])"
  using assms
proof (induction es arbitrary: p)
  case (Cons e es)
  have l: "landing input p q (e # es) = (case e of None \<Rightarrow> [] | Some k \<Rightarrow> [(q + k, input ! p)]) @ landing input (p + 1) q es"
    using landing_append [of input p q "[e]" es] by (simp add: landing_def split: option.split)
  have once: "lands_once es" using Cons.prems unfolding lands_once_def
    by (metis Suc_less_eq length_Cons nat.inject nth_Cons_Suc)
  have ih: "arriving d (landing input (p + 1) q es) = [] \<or> (\<exists>x. arriving d (landing input (p + 1) q es) = [x])"
    by (rule Cons.IH [OF once])
  show ?case
  proof (cases "e = Some (d - q) \<and> q \<le> d")
    case True
    have "Some (d - q) \<notin> set es"
    proof
      assume "Some (d - q) \<in> set es"
      then obtain j where "j < length es" "es ! j = Some (d - q)" by (auto simp: in_set_conv_nth)
      then have "(e # es) ! 0 = (e # es) ! Suc j" "(e # es) ! 0 \<noteq> None" "Suc j < length (e # es)" using True by simp_all
      with Cons.prems show False unfolding lands_once_def by (metis length_greater_0_conv list.distinct(1) nat.distinct(1))
    qed
    then have "(d, x) \<notin> set (landing input (p + 1) q es)" for x
      by (auto simp: landing_in) (metis add_diff_cancel_left' nth_mem)
    then have "arriving d (landing input (p + 1) q es) = []" by (auto simp: arriving_def filter_empty_conv)
    with True l show ?thesis by simp
  next
    case False
    then have "arriving d (landing input p q (e # es)) = arriving d (landing input (p + 1) q es)"
      unfolding l by (auto split: option.split)
    with ih show ?thesis by simp
  qed
qed simp

lemma avg_passes: "avg_div x (avg_sum x c) = cell_fn RAverage x c"
  by (cases c) (auto simp: avg_div_def avg_sum_def cell_fn_def ddiv_def isNan_def)

lemma row_arrivals:
  assumes "lc_ok lc" "p + length (lc_mask lc) \<le> length input" "q + nat (lc_srcSize lc) \<le> red_room rd s"
    and "\<And>i k s. p + i < length input \<Longrightarrow> q + k < red_room rd s \<Longrightarrow>
      body i (int k) s = Inr (upd_cells (f (input ! (p + i))) (q + k) s)"
  shows "masked_loop False (lc_mask lc) (lc_connector lc) body (\<lambda>i s. Inr s) s
    = Inr (arrive (\<lambda>d x. upd_cells (f x) d) (landing input p q (fst (lc_level lc))) s)"
proof -
  have room: "red_room rd (arrive (\<lambda>d x. upd_cells (f x) d) us s) = red_room rd s" for us s
    by (simp add: red_room_def)
  have "masked_loop False (lc_mask lc) (lc_connector lc) body (\<lambda>i s. Inr s) s
    = Inr (arrive (\<lambda>d x. upd_cells (f x) d) (concat (map (\<lambda>i. case expand (lc_mask lc) (lc_connector lc) ! i of
        None \<Rightarrow> [] | Some k \<Rightarrow> [(q + nat k, input ! (p + i))]) [0..<length (lc_mask lc)])) s)"
  proof (rule masked_loop_arrive [where P = "\<lambda>s'. red_room rd s' = red_room rd s"])
    fix i k s' assume i: "i < length (lc_mask lc)" "expand (lc_mask lc) (lc_connector lc) ! i = Some k"
      and s': "red_room rd s' = red_room rd s"
    have k: "0 \<le> k" "nat k < nat (lc_srcSize lc)" using lc_expand_nat [OF assms(1) i] by simp_all
    have "body i (int (nat k)) s' = Inr (upd_cells (f (input ! (p + i))) (q + nat k) s')"
      by (rule assms(4)) (use i k s' assms(2,3) in linarith)+
    with k(1) show "body i k s' = Inr (arrive (\<lambda>d x. upd_cells (f x) d) [(q + nat k, input ! (p + i))] s')" by simp
  qed (use assms(1) room in \<open>simp_all add: lc_ok_def\<close>)
  also have "concat (map (\<lambda>i. case expand (lc_mask lc) (lc_connector lc) ! i of
        None \<Rightarrow> [] | Some k \<Rightarrow> [(q + nat k, input ! (p + i))]) [0..<length (lc_mask lc)])
      = landing input p q (fst (lc_level lc))"
    using level_arrivals [OF assms(1), of "\<lambda>i k. [(q + nat k, input ! (p + i))]" "\<lambda>i k. [(q + k, input ! (p + i))]"]
    by (simp add: landing_def)
  finally show ?thesis .
qed

lemma row_average:
  assumes "lc_ok lc" "lands_once (fst (lc_level lc))" "q + nat (lc_srcSize lc) \<le> red_room RAverage s"
  shows "arrive (\<lambda>d x. upd_cells (avg_div x) d) (landing input p q (fst (lc_level lc)))
      (arrive (\<lambda>d x. upd_cells (avg_sum x) d) (landing input p q (fst (lc_level lc))) s)
    = arrive (upd_red RAverage) (landing input p q (fst (lc_level lc))) s"
proof (cases "length (fst s) = length (snd s)")
  case True
  let ?L = "landing input p q (fst (lc_level lc))"
  show ?thesis unfolding upd_red_def
  proof (rule cells_eqI)
    fix d assume "d < length (fst (arrive (\<lambda>d x. upd_cells (avg_div x) d) ?L (arrive (\<lambda>d x. upd_cells (avg_sum x) d) ?L s)))"
    then have d: "d < length (fst s)" "d < length (snd s)" using True by simp_all
    show "cell_of (arrive (\<lambda>d x. upd_cells (avg_div x) d) ?L (arrive (\<lambda>d x. upd_cells (avg_sum x) d) ?L s)) d
        = cell_of (arrive (\<lambda>d x. upd_cells (cell_fn RAverage x) d) ?L s) d"
      using lands_once_arriving [OF assms(2), of d input p q] d by (auto simp: arrive_cell avg_passes)
  qed (use True in simp_all)
next
  case False
  then have "lc_srcSize lc \<le> 0" using assms(3) by (simp add: red_room_def)
  then have "expand (lc_mask lc) (lc_connector lc) ! i = None" if "i < length (lc_mask lc)" for i
    using that lc_expand_nat [OF assms(1) that] by (cases "expand (lc_mask lc) (lc_connector lc) ! i") fastforce+
  then have "landing input p q (fst (lc_level lc)) = []"
    by (auto simp: landing_def lc_level_None)
  then show ?thesis by simp
qed

definition ga_row_ok :: "EReduction \<Rightarrow> int \<Rightarrow> gatherer \<Rightarrow> bool" where
  "ga_row_ok rd rank ga = (rd \<noteq> RExtract \<and> (rd = RAverage \<longrightarrow> lands_once (fst (lc_level (ga_at rank ga)))))"

interpretation ranks: gather_rank "\<lambda>gas p q. ga_transfer_rank rank gas input p q rd" "ga_at rank" input
    "upd_red rd" "red_room rd" "ga_row_ok rd rank" for rank input rd
proof
  fix ga p q s
  assume ok: "ga_row_ok rd rank ga" "lc_ok (ga_at rank ga)" and room: "p + length (lc_mask (ga_at rank ga)) \<le> length input"
    "q + nat (lc_srcSize (ga_at rank ga)) \<le> red_room rd s"
  let ?L = "landing input p q (fst (lc_level (ga_at rank ga)))"
  show "ga_transfer_rank rank [ga] input (int p) (int q) rd s = Inr (arrive (upd_red rd) ?L s)"
  proof (cases "rd = RAverage")
    case False
    have "masked_loop False (lc_mask (ga_at rank ga)) (lc_connector (ga_at rank ga))
        (\<lambda>i c. rank_cell rd input (int p + int i) (int q + c)) (\<lambda>i s. Inr s) s
      = Inr (arrive (\<lambda>d x. upd_cells (cell_fn rd x) d) ?L s)"
      by (rule row_arrivals [OF ok(2) room]) (use ok(1) False in
        \<open>simp add: ga_row_ok_def rank_cell_eq [unfolded upd_red_def] flip: of_nat_add\<close>)
    with False ok(1) show ?thesis by (simp add: ga_row_ok_def upd_red_def [abs_def] Let_def)
  next
    case True
    have one: "masked_loop False (lc_mask (ga_at rank ga)) (lc_connector (ga_at rank ga))
        (\<lambda>i c. rank_cell RAverage input (int p + int i) (int q + c)) (\<lambda>i s. Inr s) s
      = Inr (arrive (\<lambda>d x. upd_cells (avg_sum x) d) ?L s)"
      by (rule row_arrivals [where rd = RAverage, OF ok(2) room(1)]) (use room(2) True in
        \<open>simp_all add: avg_cell_eq flip: of_nat_add\<close>)
    have two: "masked_loop False (lc_mask (ga_at rank ga)) (lc_connector (ga_at rank ga))
        (\<lambda>i c (output, cnt). obind (arr_get input (int p + int i)) (\<lambda>x.
            if isNan x then Inr (output, cnt)
            else obind (arr_get output (int q + c)) (\<lambda>y. obind (arr_get cnt (int q + c)) (\<lambda>n.
                 omap (\<lambda>output. (output, cnt)) (arr_set output (int q + c) (ddiv y n))))))
        (\<lambda>i s. Inr s) s'
      = Inr (arrive (\<lambda>d x. upd_cells (avg_div x) d) ?L s')" if "red_room rd s' = red_room rd s" for s'
    proof (rule row_arrivals [where rd = RAverage, OF ok(2) room(1)])
      fix i k sa assume "p + i < length input" "q + k < red_room RAverage sa"
      from avg_div_eq [OF this]
      show "(case sa of (output, cnt) \<Rightarrow> obind (arr_get input (int p + int i)) (\<lambda>x.
            if isNan x then Inr (output, cnt)
            else obind (arr_get output (int q + int k)) (\<lambda>y. obind (arr_get cnt (int q + int k)) (\<lambda>n.
                 omap (\<lambda>output. (output, cnt)) (arr_set output (int q + int k) (ddiv y n))))))
        = Inr (upd_cells (avg_div (input ! (p + i))) (q + k) sa)" by (simp only: of_nat_add)
    qed (use room(2) True that in simp)
    have "red_room rd (arrive (\<lambda>d x. upd_cells (avg_sum x) d) ?L s) = red_room rd s"
      by (simp add: red_room_def)
    from one two [OF this] row_average [OF ok(2), of q s input p] ok(1) room(2) True show ?thesis
      by (simp add: ga_row_ok_def Let_def)
  qed
next
  fix gas :: "gatherer list" and ga P Q s assume "gas \<noteq> []"
  then show "ga_transfer_rank rank (ga # gas) input P Q rd s
      = masked_loop False (lc_mask (ga_at rank ga)) (lc_connector (ga_at rank ga))
          (\<lambda>i k. ga_transfer_rank rank gas input (P + int i * lc_getDstSliceSize (map (ga_at rank) gas))
                   (Q + k * lc_getSrcSliceSize (map (ga_at rank) gas)) rd) (\<lambda>i s. Inr s) s"
    by (simp add: Let_def ga_slices(1) ga_slices(2) [where rank = rank])
qed (simp add: upd_red_def)

definition upd_or :: "nat \<Rightarrow> bool \<Rightarrow> bool list \<Rightarrow> bool list" where
  "upd_or d x out = out[d := out ! d \<or> x]"

interpretation ors: gather_rank "\<lambda>gas p q. ga_transfer_or rank gas input p q" "ga_at rank" input
    upd_or length "\<lambda>_. True" for rank input
proof
  fix ga p q s
  assume ok: "lc_ok (ga_at rank ga)" and room: "p + length (lc_mask (ga_at rank ga)) \<le> length input"
    "q + nat (lc_srcSize (ga_at rank ga)) \<le> length (s :: bool list)"
  have len: "length (arrive upd_or us s) = length s" for us s
    by (induction us arbitrary: s) (auto simp: arrive_def upd_or_def)
  have "masked_loop False (lc_mask (ga_at rank ga)) (lc_connector (ga_at rank ga))
        (\<lambda>i c output. obind (arr_get input (int p + int i)) (\<lambda>x.
           obind (arr_get output (int q + c)) (\<lambda>y. arr_set output (int q + c) (y \<or> x)))) (\<lambda>i s. Inr s) s
    = Inr (arrive upd_or (concat (map (\<lambda>i. case expand (lc_mask (ga_at rank ga)) (lc_connector (ga_at rank ga)) ! i of
        None \<Rightarrow> [] | Some k \<Rightarrow> [(q + nat k, input ! (p + i))]) [0..<length (lc_mask (ga_at rank ga))])) s)"
  proof (rule masked_loop_arrive [where P = "\<lambda>s'. length s' = length s"])
    fix i k and s' :: "bool list" assume i: "i < length (lc_mask (ga_at rank ga))"
        "expand (lc_mask (ga_at rank ga)) (lc_connector (ga_at rank ga)) ! i = Some k" and "length s' = length s"
    moreover obtain m where "k = int m" "m < nat (ga_dstSize ga)"
      using lc_expand_nat [OF ok i] by (metis ga_at_simps(3) int_nat_eq)
    ultimately show "obind (arr_get input (int p + int i)) (\<lambda>x.
           obind (arr_get s' (int q + k)) (\<lambda>y. arr_set s' (int q + k) (y \<or> x)))
        = Inr (arrive upd_or [(q + nat k, input ! (p + i))] s')"
      using room by (simp add: upd_or_def nat_add_distrib)
  qed (use ok len in \<open>simp_all add: lc_ok_def\<close>)
  moreover have "concat (map (\<lambda>i. case expand (lc_mask (ga_at rank ga)) (lc_connector (ga_at rank ga)) ! i of
        None \<Rightarrow> [] | Some k \<Rightarrow> [(q + nat k, input ! (p + i))]) [0..<length (lc_mask (ga_at rank ga))])
      = landing input p q (fst (lc_level (ga_at rank ga)))"
    using level_arrivals [OF ok, of "\<lambda>i k. [(q + nat k, input ! (p + i))]" "\<lambda>i k. [(q + k, input ! (p + i))]"]
    by (simp add: landing_def)
  ultimately show "ga_transfer_or rank [ga] input (int p) (int q) s
      = Inr (arrive upd_or (landing input p q (fst (lc_level (ga_at rank ga)))) s)"
    by (simp add: Let_def)
next
  fix gas :: "gatherer list" and ga P Q s assume "gas \<noteq> []"
  then show "ga_transfer_or rank (ga # gas) input P Q s
      = masked_loop False (lc_mask (ga_at rank ga)) (lc_connector (ga_at rank ga))
          (\<lambda>i k. ga_transfer_or rank gas input (P + int i * lc_getDstSliceSize (map (ga_at rank) gas))
                   (Q + k * lc_getSrcSliceSize (map (ga_at rank) gas))) (\<lambda>i s. Inr s) s"
    by (simp add: Let_def ga_slices(1) ga_slices(2) [where rank = rank])
qed (simp add: upd_or_def)

section \<open>What a sequence of values leaves in a cell\<close>

definition red_kind :: "EReduction \<Rightarrow> op_kind" where
  "red_kind rd = (case rd of RMin \<Rightarrow> CMinimum | RMax \<Rightarrow> CMaximum | RAverage \<Rightarrow> CAverage | _ \<Rightarrow> CAccumulate)"

lemma present_Nil_iff: "present xs = [] \<longleftrightarrow> set xs \<subseteq> {None}"
  by (induction xs) (auto simp: present_def isNan_def)

lemma op_spec_snoc_None:
  "k \<in> {CAverage, CAccumulate, CMinimum, CMaximum} \<Longrightarrow> op_spec k (xs @ [None]) = op_spec k xs"
  by (auto simp: op_spec_def reduce_snoc)

lemma fold_cell_fn:
  assumes "rd \<in> {RSum, RMin, RMax, RAverage}"
  shows "fold (cell_fn rd) xs (y, 0) = (if present xs = [] then y else op_spec (red_kind rd) xs, int (length (present xs)))"
proof (induction xs rule: rev_induct)
  case (snoc x xs)
  show ?case
  proof (cases x)
    case None
    have "op_spec (red_kind rd) (xs @ [None]) = op_spec (red_kind rd) xs"
      by (rule op_spec_snoc_None) (use assms in \<open>auto simp: red_kind_def\<close>)
    with None snoc.IH assms show ?thesis by (auto simp: cell_fn_def isNan_def)
  next
    case (Some a)
    show ?thesis
    proof (cases "present xs = []")
      case True
      then have "sum_red.reduce xs = None" "min_red.reduce xs = None" "max_red.reduce xs = None"
        by (simp_all add: sum_red.reduce_present min_red.reduce_present max_red.reduce_present)
      with True Some snoc.IH assms show ?thesis
        by (auto simp: cell_fn_def isNan_def red_kind_def op_spec_def reduce_snoc)
    next
      case False
      have s: "sum_red.reduce xs = Some (sum_list (present xs))" using False by (simp add: sum_reduce_present)
      obtain b where m: "min_red.reduce xs = Some b" using False by (cases "present xs") (auto simp: min_red.reduce_present)
      obtain c where M: "max_red.reduce xs = Some c" using False by (cases "present xs") (auto simp: max_red.reduce_present)
      from assms consider "rd = RSum" | "rd = RMin" | "rd = RMax" | "rd = RAverage" by auto
      then show ?thesis
        using False Some snoc.IH s m M
        by cases (simp_all add: cell_fn_def isNan_def red_kind_def op_spec_def reduce_snoc sum_red.merge_def
            min_red.merge_def max_red.merge_def dadd_def dmin_def dmax_def dless_def ddiv_def min_def max_def add.commute)
    qed
  qed
qed simp

end
