(* ===== verification/GathererClaims.thy ===== *)
theory GathererClaims
  imports GathererProps
begin

text \<open>The properties of gatherers and of the grid gatherer.\<close>

section \<open>What arrives at the cells of a grid\<close>

definition rank_levels :: "gatherer list \<Rightarrow> int \<Rightarrow> level list" where
  "rank_levels gas rank = map lc_level (map (ga_at rank) gas)"

definition all_arrivals :: "gatherer list \<Rightarrow> (int, 'v list) std_map \<Rightarrow> (nat \<times> 'v) list" where
  "all_arrivals gas input = concat (map (\<lambda>(rank, data). landing data 0 0 (tensor (rank_levels gas rank))) input)"

definition grid_size :: "gatherer list \<Rightarrow> nat" where
  "grid_size gas = prod_list (map (nat \<circ> ga_dstSize) gas)"

definition inputs_ok :: "gatherer list \<Rightarrow> (int, 'v list) std_map \<Rightarrow> bool" where
  "inputs_ok gas input = (gas \<noteq> [] \<and> (\<forall>ga\<in>set gas. 0 \<le> ga_dstSize ga)
     \<and> (\<forall>(rank, data)\<in>set input. (\<forall>ga\<in>set gas. lc_ok (ga_at rank ga))
          \<and> length (tensor (rank_levels gas rank)) \<le> length data))"

lemma rank_levels_size: "prod_list (map (snd \<circ> lc_level) (map (ga_at rank) gas)) = grid_size gas"
  by (induction gas) (simp_all add: grid_size_def lc_level_def)

lemma gga_dstSize_eq:
  assumes "\<forall>ga\<in>set gas. 0 \<le> ga_dstSize ga"
  shows "gga_dstSize (newGridGatherer gas) = int (grid_size gas)"
proof -
  have "fold (\<lambda>ga n. n * ga_dstSize ga) gas' n = n * prod_list (map ga_dstSize gas')"
    for gas' :: "gatherer list" and n
    by (induction gas' arbitrary: n) (simp_all add: mult.assoc)
  moreover have "prod_list (map ga_dstSize gas) = int (grid_size gas)"
    using assms by (induction gas) (simp_all add: grid_size_def)
  moreover have "prod_list (map ga_dstSize (rev gas)) = prod_list (map ga_dstSize gas)"
    by (simp add: rev_map [symmetric] prod_list.rev)
  ultimately show ?thesis by (simp add: newGridGatherer_def)
qed

lemma gga_connectors_eq [simp]: "gga_connectors (newGridGatherer gas) = gas"
  by (simp add: newGridGatherer_def)

lemma ranks_arrive:
  assumes "inputs_ok gas input" "\<forall>(rank, data)\<in>set input. ga_row_ok rd rank (last gas)"
    and "grid_size gas \<le> red_room rd s"
  shows "ofold (\<lambda>(rank, data). ga_transfer_rank rank gas data 0 0 rd) input s
    = Inr (arrive (upd_red rd) (all_arrivals gas input) s)"
  unfolding all_arrivals_def
proof (rule ofold_arrive [where P = "\<lambda>s'. red_room rd s' = red_room rd s"])
  fix e s' assume e: "e \<in> set input" and s': "red_room rd s' = red_room rd s"
  obtain rank data where rd: "e = (rank, data)" by (cases e)
  with e assms have "\<forall>ga\<in>set gas. lc_ok (ga_at rank ga)" "gas \<noteq> []" "ga_row_ok rd rank (last gas)"
    "0 + length (tensor (map lc_level (map (ga_at rank) gas))) \<le> length data"
    "0 + prod_list (map (snd \<circ> lc_level) (map (ga_at rank) gas)) \<le> red_room rd s'"
    by (auto simp: inputs_ok_def rank_levels_def rank_levels_size s' simp del: map_map)
  from ranks.T_eq [OF this]
  show "(case e of (rank, data) \<Rightarrow> ga_transfer_rank rank gas data 0 0 rd) s'
      = Inr (arrive (upd_red rd) (case e of (rank, data) \<Rightarrow> landing data 0 0 (tensor (rank_levels gas rank))) s')"
    by (simp add: rd rank_levels_def)
next
  fix us s' assume "red_room rd s' = red_room rd s"
  then show "red_room rd (arrive (upd_red rd) us s') = red_room rd s" by (simp add: ranks.room_arrive)
qed simp

section \<open>Reductions\<close>

text \<open>C9: The grid gatherer with a reduction gives each cell of the grid the sum, minimum, maximum or
  mean of all present values that arrive there, from any rank and any position, and the missing
  value where no present value arrives; the previous contents of the output play no part. (For
  the mean no rank may send two values of one row to the same cell.)\<close>

theorem grid_gather_reduces:
  assumes "inputs_ok gas input" "rd \<in> {RSum, RMin, RMax, RAverage}"
    and "rd = RAverage \<longrightarrow> (\<forall>(rank, data)\<in>set input. lands_once (fst (lc_level (ga_at rank (last gas)))))"
  shows "\<exists>res. gga_transfer junk (newGridGatherer gas) input out rd = Inr res \<and> length res = grid_size gas
    \<and> (\<forall>d<grid_size gas. res ! d = op_spec (red_kind rd) (arriving d (all_arrivals gas input)))"
proof -
  let ?N = "grid_size gas" and ?us = "all_arrivals gas input"
  define out' where "out' = resize_array junk (int ?N) out"
  have N: "gga_dstSize (newGridGatherer gas) = int ?N"
    by (rule gga_dstSize_eq) (use assms(1) in \<open>simp add: inputs_ok_def\<close>)
  have l: "length out' = ?N" using length_resize [of "int ?N" junk out] by (simp add: out'_def)
  have rd: "rd \<noteq> RNone" "rd \<noteq> RExtract" using assms(2) by auto
  obtain s where s: "s = arrive (upd_red rd) ?us (out', replicate ?N 0)" by blast
  have run: "ofold (\<lambda>(rank, data). ga_transfer_rank rank gas data 0 0 rd) input (out', replicate ?N 0) = Inr s"
    unfolding s by (rule ranks_arrive [OF assms(1)]) (use assms(3) rd l in \<open>auto simp: ga_row_ok_def red_room_def\<close>)
  have len: "length (fst s) = ?N" "length (snd s) = ?N" using l by (simp_all add: s upd_red_def [abs_def])
  have cell: "fst s ! d = (if present (arriving d ?us) = [] then out' ! d else op_spec (red_kind rd) (arriving d ?us))
      \<and> snd s ! d = int (length (present (arriving d ?us)))" if "d < ?N" for d
    using arrive_cell [of d "(out', replicate ?N 0)" "cell_fn rd" ?us] fold_cell_fn [OF assms(2)] that l
    by (simp add: s upd_red_def [abs_def] cell_of_def)
  let ?f = "\<lambda>i output. if snd s ! i = 0 then arr_set output (int i) None else Inr output"
  let ?P = "\<lambda>m o'. o' = map (\<lambda>i. if i < m \<and> snd s ! i = 0 then None else fst s ! i) [0..<?N]"
  have "\<exists>t. ofold ?f [0..<?N] (fst s) = Inr t \<and> ?P ?N t"
  proof (rule ofold_upto [where P = ?P])
    show "?P 0 (fst s)" using len by (intro nth_equalityI) simp_all
  next
    fix i o' assume i: "i < ?N" and o': "?P i o'"
    have "o'[i := None] = map (\<lambda>j. if j < Suc i \<and> snd s ! j = 0 then None else fst s ! j) [0..<?N]" if "snd s ! i = 0"
      using i o' that by (intro nth_equalityI) (auto simp: nth_list_update less_Suc_eq)
    moreover have "o' = map (\<lambda>j. if j < Suc i \<and> snd s ! j = 0 then None else fst s ! j) [0..<?N]" if "snd s ! i \<noteq> 0"
      using i o' that by (intro nth_equalityI) (auto simp: less_Suc_eq)
    ultimately show "\<exists>t. ?f i o' = Inr t \<and> ?P (Suc i) t" using i o' by auto
  qed
  then obtain res where res: "ofold ?f [0..<?N] (fst s) = Inr res"
    "res = map (\<lambda>i. if i < ?N \<and> snd s ! i = 0 then None else fst s ! i) [0..<?N]" by blast
  have none: "present xs = [] \<Longrightarrow> op_spec (red_kind rd) xs = None" for xs
    using assms(2) by (auto simp: red_kind_def op_spec_def sum_red.reduce_present min_red.reduce_present max_red.reduce_present)
  have "gga_transfer junk (newGridGatherer gas) input out rd = Inr res"
  proof -
    have "gga_transfer junk (newGridGatherer gas) input out rd
        = obind (Inr s) (\<lambda>(output, cnt). ofold (\<lambda>i output. if cnt ! i = 0 then arr_set output (int i) None else Inr output)
            [0..<?N] output)"
      using rd(1) run by (simp add: gga_transfer_def N Let_def out'_def)
    with res(1) show ?thesis by (simp add: case_prod_beta)
  qed
  moreover have "length res = ?N" by (simp add: res(2))
  moreover have "res ! d = op_spec (red_kind rd) (arriving d ?us)" if "d < ?N" for d
    using that cell [OF that] none by (simp add: res(2))
  ultimately show ?thesis by blast
qed

text \<open>Two ranks: the first sends its two values to the cells 0 and 1, the second to 1 and nowhere.\<close>

definition demo_gatherer :: gatherer where
  "demo_gatherer = \<lparr>ga_connector = [(0, [0, 1]), (3, [1])], ga_mask = [(0, [True, True]), (3, [True, False])],
     ga_dstSize = 3, ga_srcSize = [(0, 2), (3, 2)]\<rparr>"

lemma demo_gatherer_levels: "lc_level (ga_at 0 demo_gatherer) = ([Some 0, Some 1], 3)"
    "lc_level (ga_at 3 demo_gatherer) = ([Some 1, None], 3)"
    "lc_ok (ga_at 0 demo_gatherer)" "lc_ok (ga_at 3 demo_gatherer)" "grid_size [demo_gatherer] = 3"
  by (auto simp: demo_gatherer_def lc_level_def ga_at_def std_at_def lc_ok_def grid_size_def)

lemma demo_arrivals: "all_arrivals [demo_gatherer] [(0, [a, b]), (3, [c, d])] = [(0, a), (1, b), (1, c)]"
  by (simp add: all_arrivals_def rank_levels_def demo_gatherer_levels landing_def)

lemma demo_inputs_ok: "inputs_ok [demo_gatherer] [(0, [a, b]), (3, [c, d])]"
  by (simp add: inputs_ok_def demo_gatherer_levels rank_levels_def) (simp add: demo_gatherer_def)

theorem grid_gather_reduces_witness:
  "\<exists>res. gga_transfer (\<lambda>_. None) (newGridGatherer [demo_gatherer])
       [(0, [Some 5, Some 2]), (3, [Some 4, Some 9])] [] RAverage = Inr res
    \<and> res ! 0 = Some 5 \<and> res ! 1 = Some 3 \<and> res ! 2 = None"
proof -
  let ?in = "[(0, [Some 5, Some 2]), (3::int, [Some 4, Some 9])]"
  have "lands_once [Some 0, Some (1::nat)]" "lands_once [Some (1::nat), None]"
    by (auto simp: lands_once_def nth_Cons' less_Suc_eq numeral_2_eq_2 split: if_splits)
  then have "RAverage = RAverage \<longrightarrow> (\<forall>(rank, data)\<in>set ?in. lands_once (fst (lc_level (ga_at rank (last [demo_gatherer])))))"
    by (simp add: demo_gatherer_levels)
  from grid_gather_reduces [OF demo_inputs_ok _ this, of "\<lambda>_. None" "[]"] obtain res where
    r: "gga_transfer (\<lambda>_. None) (newGridGatherer [demo_gatherer]) ?in [] RAverage = Inr res"
    "\<forall>d<3. res ! d = op_spec (red_kind RAverage) (arriving d (all_arrivals [demo_gatherer] ?in))"
    by (auto simp: demo_gatherer_levels)
  then have "res ! 0 = Some 5" "res ! 1 = Some 3" "res ! 2 = None"
    by (simp_all add: demo_arrivals red_kind_def op_spec_def)
  with r(1) show ?thesis by blast
qed

section \<open>Without reduction\<close>

definition put_cell :: "nat \<Rightarrow> 'v \<Rightarrow> 'v list \<Rightarrow> 'v list" where
  "put_cell d x out = out[d := x]"

lemma length_put [simp]: "length (arrive put_cell us out) = length out"
  by (induction us arbitrary: out) (auto simp: arrive_def put_cell_def)

lemma put_nth:
  "d < length out \<Longrightarrow> arrive put_cell us out ! d = (if arriving d us = [] then out ! d else last (arriving d us))"
proof (induction us rule: rev_induct)
  case (snoc u us)
  obtain e x where u: "u = (e, x)" by (cases u)
  have "put_cell e x (arrive put_cell us out) ! d = (if e = d then x else arrive put_cell us out ! d)"
    using snoc.prems length_put [of us out] unfolding put_cell_def by (metis nth_list_update_eq nth_list_update_neq)
  with snoc show ?case by (simp add: u)
qed simp

lemma red_none: "fst (arrive (upd_red RNone) us s) = arrive put_cell us (fst s)"
proof (induction us arbitrary: s)
  case (Cons u us)
  obtain d x where u: "u = (d, x)" by (cases u)
  have "fst (upd_red RNone d x s) = put_cell d x (fst s)"
    by (cases s) (simp add: upd_red_def upd_cells_def cell_fn_def put_cell_def Let_def)
  with Cons u show ?case by simp
qed simp

text \<open>The grid gatherer with a missing value gives each cell the last of the values that arrive
  there, in the order of the ranks and of their positions, and the missing value where none
  arrives.\<close>

theorem grid_gather_missing:
  assumes "inputs_ok gas input"
  shows "\<exists>res. gga_transfer_missing (newGridGatherer gas) input m = Inr res \<and> length res = grid_size gas
    \<and> (\<forall>d<grid_size gas. let xs = arriving d (all_arrivals gas input) in res ! d = (if xs = [] then m else last xs))"
proof -
  let ?s = "(replicate (grid_size gas) m, [])"
  have N: "gga_dstSize (newGridGatherer gas) = int (grid_size gas)"
    by (rule gga_dstSize_eq) (use assms in \<open>simp add: inputs_ok_def\<close>)
  have "ofold (\<lambda>(rank, data). ga_transfer_rank rank gas data 0 0 RNone) input ?s
      = Inr (arrive (upd_red RNone) (all_arrivals gas input) ?s)"
    by (rule ranks_arrive [OF assms]) (auto simp: ga_row_ok_def red_room_def)
  then have "gga_transfer_missing (newGridGatherer gas) input m
      = Inr (arrive put_cell (all_arrivals gas input) (replicate (grid_size gas) m))"
    by (simp add: gga_transfer_missing_def N red_none)
  then show ?thesis by (simp add: Let_def put_nth)
qed

theorem grid_gather_missing_witness:
  "\<exists>res. gga_transfer_missing (newGridGatherer [demo_gatherer]) [(0, [Some 5, None]), (3, [Some 4, Some 9])] (Some 1)
       = Inr res \<and> res ! 0 = Some 5 \<and> res ! 1 = Some 4 \<and> res ! 2 = Some 1"
proof -
  let ?in = "[(0, [Some 5, None]), (3::int, [Some 4, Some 9])]"
  from grid_gather_missing [OF demo_inputs_ok, of "Some 5" None "Some 4" "Some 9" "Some 1"] obtain res where
    r: "gga_transfer_missing (newGridGatherer [demo_gatherer]) ?in (Some 1) = Inr res"
    "\<forall>d<3. let xs = arriving d (all_arrivals [demo_gatherer] ?in) in res ! d = (if xs = [] then Some 1 else last xs)"
    unfolding demo_gatherer_levels(5) by metis
  then have "res ! 0 = Some 5" "res ! 1 = Some 4" "res ! 2 = Some 1"
    by (simp_all add: demo_arrivals Let_def)
  with r(1) show ?thesis by blast
qed

section \<open>Masks\<close>

lemma length_or [simp]: "length (arrive upd_or us out) = length out"
  using ors.room_arrive by blast

lemma or_nth: "d < length out \<Longrightarrow> arrive upd_or us out ! d \<longleftrightarrow> out ! d \<or> True \<in> set (arriving d us)"
proof (induction us rule: rev_induct)
  case (snoc u us)
  obtain e x where u: "u = (e, x)" by (cases u)
  have "upd_or e x s ! d \<longleftrightarrow> (if e = d then s ! d \<or> x else s ! d)" if "d < length s" for s
    using that by (simp add: upd_or_def)
  with snoc show ?case by (auto simp: u)
qed simp

text \<open>A gathered mask is true exactly at the cells where some rank sends a true value.\<close>

theorem grid_gather_or:
  assumes "inputs_ok gas input"
  shows "\<exists>res. gga_transfer_or (newGridGatherer gas) input = Inr res \<and> length res = grid_size gas
    \<and> (\<forall>d<grid_size gas. res ! d \<longleftrightarrow> True \<in> set (arriving d (all_arrivals gas input)))"
proof -
  have N: "gga_dstSize (newGridGatherer gas) = int (grid_size gas)"
    by (rule gga_dstSize_eq) (use assms in \<open>simp add: inputs_ok_def\<close>)
  have "ofold (\<lambda>(rank, data). ga_transfer_or rank gas data 0 0) input (replicate (grid_size gas) False)
      = Inr (arrive upd_or (concat (map (\<lambda>(rank, data). landing data 0 0 (tensor (rank_levels gas rank))) input))
          (replicate (grid_size gas) False))"
  proof (rule ofold_arrive [where P = "\<lambda>out. length out = grid_size gas"])
    fix e out assume e: "e \<in> set input" and out: "length (out :: bool list) = grid_size gas"
    obtain rank data where rd: "e = (rank, data)" by (cases e)
    with e assms have "\<forall>ga\<in>set gas. lc_ok (ga_at rank ga)" "gas \<noteq> []" "True"
      "0 + length (tensor (map lc_level (map (ga_at rank) gas))) \<le> length data"
      "0 + prod_list (map (snd \<circ> lc_level) (map (ga_at rank) gas)) \<le> length out"
      by (auto simp: inputs_ok_def rank_levels_def rank_levels_size out simp del: map_map)
    from ors.T_eq [OF this]
    show "(case e of (rank, data) \<Rightarrow> ga_transfer_or rank gas data 0 0) out
        = Inr (arrive upd_or (case e of (rank, data) \<Rightarrow> landing data 0 0 (tensor (rank_levels gas rank))) out)"
      by (simp add: rd rank_levels_def)
  qed simp_all
  then show ?thesis by (simp add: gga_transfer_or_def N all_arrivals_def or_nth)
qed

theorem grid_gather_or_witness:
  "\<exists>res. gga_transfer_or (newGridGatherer [demo_gatherer]) [(0, [False, True]), (3, [False, True])] = Inr res
    \<and> \<not> res ! 0 \<and> res ! 1 \<and> \<not> res ! 2"
  using grid_gather_or [OF demo_inputs_ok, of False True False True]
  by (auto simp: demo_gatherer_levels demo_arrivals)

section \<open>The flat reduction\<close>

lemma masked_loop_lengths:
  assumes "\<And>i c s t. P s \<Longrightarrow> body i c s = Inr t \<Longrightarrow> P t" "P s"
    and "masked_loop False m cs body (\<lambda>i s. Inr s) s = Inr t"
  shows "P t"
proof -
  obtain j where o: "ofold (\<lambda>i (j, s).
         if m ! i then obind (arr_get cs j) (\<lambda>c. omap (\<lambda>s. (j + 1, s)) (body i c s))
         else omap (\<lambda>s. (if False then j + 1 else j, s)) (Inr s)) [0..<length m] (0, s) = Inr (j, t)"
    using assms(3) by (auto simp: masked_loop_def omap_def outcome_simps)
  have "P (snd (j, t))"
    by (rule ofold_invariant [OF o, where P = "\<lambda>x. P (snd x)"])
      (use assms(1,2) in \<open>auto simp: omap_def outcome_simps split: if_splits\<close>)
  then show ?thesis by simp
qed

lemma reduce_cell_lengths:
  assumes "reduce_cell rd input p q qc s = Inr t"
  shows "length (fst t) = length (fst s) \<and> length (snd t) = length (snd s)"
proof -
  have a: "arr_set xs i v = Inr ys \<Longrightarrow> length ys = length xs" for xs ys :: "'c list" and i v
    by (auto simp: arr_set_def split: if_splits)
  obtain o1 n1 where s: "s = (o1, n1)" by (cases s)
  obtain x where x: "arr_get input p = Inr x"
    using assms by (cases "arr_get input p") (simp_all add: s reduce_cell_def)
  show ?thesis
  proof (cases "isNan x")
    case True
    with assms x s show ?thesis by (simp add: reduce_cell_def)
  next
    case False
    with assms x obtain n z where n: "obind (arr_set o1 q z) (\<lambda>o2. omap (\<lambda>n2. (o2, n2)) (arr_set n1 qc (n + 1))) = Inr t"
      by (auto simp: s reduce_cell_def outcome_simps(1))
    then obtain o2 n2 where "arr_set o1 q z = Inr o2" "arr_set n1 qc (n + 1) = Inr n2" "t = (o2, n2)"
      by (cases "arr_set o1 q z"; cases "arr_set n1 qc (n + 1)") auto
    with s show ?thesis using a by (metis a fst_conv snd_conv)
  qed
qed

lemma reduce_loop_count:
  assumes "ga_reduce_loop ga rep sizeT dataIn rd (out, cnt, c) = Inr (out', cnt', c')"
  shows "length out' = length out \<and> length cnt' = length cnt
    \<and> c' = c + int (length dataIn) * (int rep * (ga_dstSize ga * int sizeT))"
  using assms
proof (induction dataIn arbitrary: out cnt c)
  case (Cons e dataIn)
  obtain rank input where e: "e = (rank, input)" by (cases e)
  let ?D = "ga_dstSize ga * int sizeT" and ?m = "std_at [] (ga_mask ga) rank" and ?k = "std_at [] (ga_connector ga) rank"
  define F where "F = (\<lambda>l (output, vcount, count).
        omap (\<lambda>(output, vcount). (output, vcount, count + ?D))
         (masked_loop False ?m ?k
           (\<lambda>i c. ofold (\<lambda>k. reduce_cell rd input (int l * (int (length ?m) * int sizeT) + int i * int sizeT + int k)
                           (int l * ?D + c * int sizeT + int k) (count + c * int sizeT + int k)) [0..<sizeT])
           (\<lambda>i s. Inr s) (output, vcount)))"
  have step: "length o2 = length o1 \<and> length n2 = length n1 \<and> c2 = c1 + ?D"
    if F: "F l (o1, n1, c1) = Inr (o2, n2, c2)" for l o1 n1 c1 o2 n2 c2
  proof -
    have c2: "c2 = c1 + ?D" using F by (auto simp: F_def omap_def outcome_simps)
    have "masked_loop False ?m ?k
           (\<lambda>i c. ofold (\<lambda>k. reduce_cell rd input (int l * (int (length ?m) * int sizeT) + int i * int sizeT + int k)
                           (int l * ?D + c * int sizeT + int k) (c1 + c * int sizeT + int k)) [0..<sizeT])
           (\<lambda>i s. Inr s) (o1, n1) = Inr (o2, n2)"
      using F by (auto simp: F_def omap_def outcome_simps)
    then have "length (fst (o2, n2)) = length o1 \<and> length (snd (o2, n2)) = length n1"
    proof (rule masked_loop_lengths [rotated 2])
      fix i c and s t :: "double list \<times> int list"
      assume s: "length (fst s) = length o1 \<and> length (snd s) = length n1"
      assume "ofold (\<lambda>k. reduce_cell rd input (int l * (int (length ?m) * int sizeT) + int i * int sizeT + int k)
            (int l * ?D + c * int sizeT + int k) (c1 + c * int sizeT + int k)) [0..<sizeT] s = Inr t"
      then show "length (fst t) = length o1 \<and> length (snd t) = length n1"
        by (rule ofold_invariant [where P = "\<lambda>s. length (fst s) = length o1 \<and> length (snd s) = length n1"])
          (use s reduce_cell_lengths in metis)+
    qed simp
    with c2 show ?thesis by simp
  qed
  have steps: "length o2 = length o1 \<and> length n2 = length n1 \<and> c2 = c1 + int (length ls) * ?D"
    if "ofold F ls (o1, n1, c1) = Inr (o2, n2, c2)" for ls o1 n1 c1 o2 n2 c2
    using that
  proof (induction ls arbitrary: o1 n1 c1)
    case (Cons l ls)
    then obtain o3 n3 c3 where 3: "F l (o1, n1, c1) = Inr (o3, n3, c3)" "ofold F ls (o3, n3, c3) = Inr (o2, n2, c2)"
      by (auto simp: outcome_simps)
    from step [OF 3(1)] Cons.IH [OF 3(2)] show ?case by (simp add: distrib_right)
  qed simp
  from Cons.prems obtain o1 n1 c1 where 1: "ofold F [0..<rep] (out, cnt, c) = Inr (o1, n1, c1)"
    "ga_reduce_loop ga rep sizeT dataIn rd (o1, n1, c1) = Inr (out', cnt', c')"
    by (auto simp: ga_reduce_loop_def Let_def e F_def outcome_simps)
  from steps [OF 1(1)] Cons.IH [OF 1(2)] show ?case by (simp add: distrib_right)
qed (simp add: ga_reduce_loop_def Let_def)

text \<open>The flat transfer with a reduction never returns a result: whatever the connector, the data
  and the operation, after the slices of at least one rank the pointer to the counts lies past
  the array it points into, and the last loop reads it there (if nothing failed before).\<close>

theorem flat_reduction_overruns:
  assumes "dataIn \<noteq> []" "0 < rep" "0 < sizeT" "0 < ga_dstSize ga" "rd \<noteq> RNone"
  shows "\<exists>e. ga_transfer junk ga rep sizeT dataIn out rd = Inl e"
proof -
  let ?n = "int rep * (ga_dstSize ga * int sizeT)"
  define out' where "out' = resize_array junk ?n out"
  have n: "0 < ?n" using assms by simp
  then have len: "int (length out') = ?n" unfolding out'_def by (intro length_resize) simp
  show ?thesis
  proof (cases "ga_reduce_loop ga rep sizeT dataIn rd (out', replicate (length out') 0, 0)")
    case (Inl e)
    then show ?thesis using assms(5) by (simp add: ga_transfer_def ga_transfer_reduce_def Let_def out'_def)
  next
    case (Inr s)
    obtain o2 n2 c2 where s: "s = (o2, n2, c2)" by (cases s)
    have c: "length o2 = length out'" "length n2 = length out'" "c2 = int (length dataIn) * ?n"
      using reduce_loop_count [OF Inr [unfolded s]] by simp_all
    have "1 * ?n \<le> int (length dataIn) * ?n" using assms(1) n by (intro mult_right_mono) (simp_all add: Suc_le_eq)
    then have "int (length n2) \<le> c2" using c len by simp
    then have get: "arr_get n2 (c2 + int 0) = Inl (UndefinedBehaviour ''read out of range'')" by (simp add: arr_get_def)
    have "0 < length o2" using c len n by linarith
    then have up: "[0..<length o2] = 0 # [1..<length o2]" by (simp add: upt_conv_Cons)
    have loops: "ofold (\<lambda>i output. obind (arr_get n2 (c2 + int i)) (g i output)) [0..<length o2] o2
        = Inl (UndefinedBehaviour ''read out of range'')" for g :: "nat \<Rightarrow> double list \<Rightarrow> int \<Rightarrow> double list outcome"
      unfolding up using get by simp
    show ?thesis
      using Inr assms(5) s loops by (simp add: ga_transfer_def ga_transfer_reduce_def Let_def out'_def [symmetric])
  qed
qed

theorem flat_reduction_overruns_witness:
  "\<exists>e. ga_transfer (\<lambda>_. None) demo_gatherer 1 1 [(0, [Some 5, Some 2])] [] RSum = Inl e"
  by (rule flat_reduction_overruns) (simp_all add: demo_gatherer_def)

section \<open>The average over dimensions\<close>

text \<open>When two values of a row arrive at the same cell, the transfer from one rank does not take
  their mean: the cell gets a quarter of their sum.\<close>

theorem average_of_repeats:
  "ga_transfer_rank 0 [\<lparr>ga_connector = [(0, [0, 0])], ga_mask = [(0, [True, True])], ga_dstSize = 1, ga_srcSize = [(0, 2)]\<rparr>]
     [Some a, Some b] 0 0 RAverage ([None], [0]) = Inr ([Some ((a + b) / 4)], [2])"
  by (simp add: Let_def std_at_def masked_loop_def upt_rec rank_cell_def isNan_def dadd_def ddiv_def omap_def)

end
