(* ===== verification/IndexConnectors.thy ===== *)
theory IndexConnectors
  imports GathererProps
begin

text \<open>
  The connectors of the transformations (\<open>distribution/reduce_transform_connector.*\<close>,
  \<open>weight_transform_connector.*\<close>, \<open>transfer_transform_connector.*\<close>): each position of the
  destination takes the values of the source positions an index map names for it, reduced,
  weighted or copied.
\<close>

section \<open>Conversions of indices\<close>

text \<open>The keys of the index maps are \<open>int\<close>, the global indices \<open>size_t\<close>.\<close>

definition int_of_size :: "nat \<Rightarrow> int" where
  "int_of_size g = signed_take_bit 31 (int g)"

definition size_of_int :: "int \<Rightarrow> nat" where
  "size_of_int v = nat (v mod 2 ^ 64)"

definition src_map_index :: "nat list \<Rightarrow> nat \<rightharpoonup> int" where
  "src_map_index srcGlobalIndex = fold (\<lambda>i. hash_put (srcGlobalIndex ! i) (int i)) [0..<length srcGlobalIndex] Map.empty"

text \<open>\<open>srcMapIndex[v]\<close>: an index the source does not have is entered with position 0.\<close>

definition src_position :: "(nat \<rightharpoonup> int) \<Rightarrow> int \<Rightarrow> int" where
  "src_position srcMapIndex v = (case srcMapIndex (size_of_int v) of None \<Rightarrow> 0 | Some i \<Rightarrow> i)"

section \<open>Loops over the sources of each position\<close>

text \<open>\<open>for i: if (n[i]==0) none(i) else { for (j=0; j<n[i]; j++, k++) body(i, k); done(i) }\<close>\<close>

definition grouped_loop ::
  "nat list \<Rightarrow> (nat \<Rightarrow> 's \<Rightarrow> 's outcome) \<Rightarrow> (nat \<Rightarrow> int \<Rightarrow> 's \<Rightarrow> 's outcome) \<Rightarrow> (nat \<Rightarrow> 's \<Rightarrow> 's outcome)
     \<Rightarrow> 's \<Rightarrow> 's outcome" where
  "grouped_loop ns none body done s = omap snd
     (ofold (\<lambda>i (k, s). if ns ! i = 0 then omap (\<lambda>s. (k, s)) (none i s)
              else obind (ofold (\<lambda>_ (k, s). omap (\<lambda>s. (k + 1, s)) (body i k s)) [0..<ns ! i] (k, s))
                     (\<lambda>(k, s). omap (\<lambda>s. (k, s)) (done i s)))
       [0..<length ns] (0, s))"

section \<open>Reductions\<close>

record reduce_connector =
  rt_connector :: "int list"
  rt_nSrc :: "nat list"
  rt_srcSize :: nat
  rt_dstSize :: nat
  rt_detect :: bool
  rt_transfer_op :: EReduction

definition rt_computeConnector ::
  "nat list \<Rightarrow> nat list \<Rightarrow> (int \<rightharpoonup> int list) \<Rightarrow> reduce_connector \<Rightarrow> reduce_connector" where
  "rt_computeConnector srcGlobalIndex dstGlobalIndex indexMap rt =
    (let srcMapIndex = src_map_index srcGlobalIndex
     in fold (\<lambda>g rt. case indexMap (int_of_size g) of
            Some vectIndex \<Rightarrow> rt\<lparr>rt_nSrc := rt_nSrc rt @ [length vectIndex],
                                rt_connector := rt_connector rt @ map (src_position srcMapIndex) vectIndex\<rparr>
          | None \<Rightarrow> rt\<lparr>rt_nSrc := rt_nSrc rt @ [0]\<rparr>)
        dstGlobalIndex (rt\<lparr>rt_srcSize := length srcGlobalIndex, rt_dstSize := length dstGlobalIndex\<rparr>))"

definition newReduceConnector ::
  "(nat \<Rightarrow> nat) \<Rightarrow> local_view \<Rightarrow> local_view \<Rightarrow> EReduction \<Rightarrow> (int \<rightharpoonup> int list) \<Rightarrow> bool \<Rightarrow> reduce_connector outcome" where
  "newReduceConnector junk src dst rd indexMap detect =
     (if rd \<in> {RSum, RMin, RMax, RAverage}
      then obind (lv_getGlobalIndexView junk dst) (\<lambda>dstGlobalIndex.
           obind (lv_getGlobalIndexView junk src) (\<lambda>srcGlobalIndex.
           Inr (rt_computeConnector srcGlobalIndex dstGlobalIndex indexMap
             \<lparr>rt_connector = [], rt_nSrc = [], rt_srcSize = 0, rt_dstSize = 0, rt_detect = detect, rt_transfer_op = rd\<rparr>)))
      else Inl (CException ''reduction operator is not defined for this operation''))"

text \<open>The operations on the cells of a block: a value at the input, and cell \<open>q\<close> of the output
  with its entry in \<open>touched\<close>.\<close>

definition touch_cell ::
  "(double \<Rightarrow> double \<Rightarrow> double) \<Rightarrow> double list \<Rightarrow> int \<Rightarrow> int \<Rightarrow> double list \<times> bool list
     \<Rightarrow> (double list \<times> bool list) outcome" where
  "touch_cell f input p q = (\<lambda>(output, touched).
     obind (arr_get input p) (\<lambda>x.
       if isNan x then Inr (output, touched)
       else obind (arr_get touched q) (\<lambda>t.
            if t then obind (arr_get output q) (\<lambda>y. omap (\<lambda>output. (output, touched)) (arr_set output q (f y x)))
            else obind (arr_set touched q True) (\<lambda>touched.
                 omap (\<lambda>output. (output, touched)) (arr_set output q x)))))"

definition set_missing :: "int \<Rightarrow> double list \<times> 't list \<Rightarrow> (double list \<times> 't list) outcome" where
  "set_missing q = (\<lambda>(output, touched). omap (\<lambda>output. (output, touched)) (arr_set output q None))"

definition combine_cell ::
  "(double \<Rightarrow> double \<Rightarrow> double) \<Rightarrow> double list \<Rightarrow> int \<Rightarrow> int \<Rightarrow> double list \<Rightarrow> double list outcome" where
  "combine_cell f input p q output =
     obind (arr_get input p) (\<lambda>x. obind (arr_get output q) (\<lambda>y. arr_set output q (f y x)))"

text \<open>The transfers of sums, minima and maxima, which differ in the operation only.\<close>

definition rt_transfer_with ::
  "(double \<Rightarrow> double \<Rightarrow> double) \<Rightarrow> reduce_connector \<Rightarrow> nat \<Rightarrow> nat \<Rightarrow> double list \<Rightarrow> double list outcome" where
  "rt_transfer_with f rt rep sizeT input =
    (let dstSlice = int (rt_dstSize rt * sizeT); srcSlice = int (rt_srcSize rt * sizeT);
         output = replicate (rep * (rt_dstSize rt * sizeT)) (Some 0)
     in if rt_detect rt
        then obind (ofold (\<lambda>r. grouped_loop (rt_nSrc rt)
                 (\<lambda>i. ofold (\<lambda>l. set_missing (int r * dstSlice + int i * int sizeT + int l)) [0..<sizeT])
                 (\<lambda>i k s. obind (arr_get (rt_connector rt) k) (\<lambda>c.
                    ofold (\<lambda>l. touch_cell f input (int r * srcSlice + c * int sizeT + int l)
                                 (int r * dstSlice + int i * int sizeT + int l)) [0..<sizeT] s))
                 (\<lambda>i s. Inr s)) [0..<rep] (output, replicate (rep * (rt_dstSize rt * sizeT)) False)) (\<lambda>s.
             omap fst (ofold (\<lambda>r. grouped_loop (rt_nSrc rt) (\<lambda>i s. Inr s)
                 (\<lambda>i k. ofold (\<lambda>l (output, touched).
                     obind (arr_get touched (int r * dstSlice + int i * int sizeT + int l)) (\<lambda>t.
                     if \<not> t then set_missing (int r * dstSlice + int i * int sizeT + int l) (output, touched)
                     else Inr (output, touched))) [0..<sizeT])
                 (\<lambda>i s. Inr s)) [0..<rep] s))
        else ofold (\<lambda>r. grouped_loop (rt_nSrc rt)
                 (\<lambda>i. ofold (\<lambda>l output. arr_set output (int r * dstSlice + int i * int sizeT + int l) None) [0..<sizeT])
                 (\<lambda>i k s. obind (arr_get (rt_connector rt) k) (\<lambda>c.
                    ofold (\<lambda>l. combine_cell f input (int r * srcSlice + c * int sizeT + int l)
                                 (int r * dstSlice + int i * int sizeT + int l)) [0..<sizeT] s))
                 (\<lambda>i s. Inr s)) [0..<rep] output)"

definition rt_transferSum :: "reduce_connector \<Rightarrow> nat \<Rightarrow> nat \<Rightarrow> double list \<Rightarrow> double list outcome" where
  "rt_transferSum = rt_transfer_with dadd"

definition rt_transferMin :: "reduce_connector \<Rightarrow> nat \<Rightarrow> nat \<Rightarrow> double list \<Rightarrow> double list outcome" where
  "rt_transferMin = rt_transfer_with dmin"

definition rt_transferMax :: "reduce_connector \<Rightarrow> nat \<Rightarrow> nat \<Rightarrow> double list \<Rightarrow> double list outcome" where
  "rt_transferMax = rt_transfer_with dmax"

text \<open>For an average \<open>touched\<close> counts; the division follows in the same turn of the loop.\<close>

definition count_cell ::
  "double list \<Rightarrow> int \<Rightarrow> int \<Rightarrow> double list \<times> int list \<Rightarrow> (double list \<times> int list) outcome" where
  "count_cell input p q = (\<lambda>(output, touched).
     obind (arr_get input p) (\<lambda>x.
       if isNan x then Inr (output, touched)
       else obind (arr_get touched q) (\<lambda>t.
            obind (if t \<noteq> 0 then obind (arr_get output q) (\<lambda>y. arr_set output q (dadd y x)) else arr_set output q x)
              (\<lambda>output. omap (\<lambda>touched. (output, touched)) (arr_set touched q (t + 1))))))"

definition divide_cell :: "int \<Rightarrow> double list \<times> int list \<Rightarrow> (double list \<times> int list) outcome" where
  "divide_cell q = (\<lambda>(output, touched). obind (arr_get touched q) (\<lambda>t.
     if t \<noteq> 0 then obind (arr_get output q) (\<lambda>y. omap (\<lambda>output. (output, touched)) (arr_set output q (ddiv y t)))
     else Inr (output, touched)))"

definition rt_transferAverage :: "reduce_connector \<Rightarrow> nat \<Rightarrow> nat \<Rightarrow> double list \<Rightarrow> double list outcome" where
  "rt_transferAverage rt rep sizeT input =
    (let dstSlice = int (rt_dstSize rt * sizeT); srcSlice = int (rt_srcSize rt * sizeT);
         output = replicate (rep * (rt_dstSize rt * sizeT)) (Some 0)
     in if rt_detect rt
        then obind (ofold (\<lambda>r. grouped_loop (rt_nSrc rt)
                 (\<lambda>i. ofold (\<lambda>l. set_missing (int r * dstSlice + int i * int sizeT + int l)) [0..<sizeT])
                 (\<lambda>i k s. obind (arr_get (rt_connector rt) k) (\<lambda>c.
                    ofold (\<lambda>l. count_cell input (int r * srcSlice + c * int sizeT + int l)
                                 (int r * dstSlice + int i * int sizeT + int l)) [0..<sizeT] s))
                 (\<lambda>i. ofold (\<lambda>l. divide_cell (int r * dstSlice + int i * int sizeT + int l)) [0..<sizeT]))
               [0..<rep] (output, replicate (rep * (rt_dstSize rt * sizeT)) 0)) (\<lambda>s.
             omap fst (ofold (\<lambda>r. grouped_loop (rt_nSrc rt) (\<lambda>i s. Inr s)
                 (\<lambda>i k. ofold (\<lambda>l (output, touched).
                     obind (arr_get touched (int r * dstSlice + int i * int sizeT + int l)) (\<lambda>t.
                     if t = 0 then set_missing (int r * dstSlice + int i * int sizeT + int l) (output, touched)
                     else Inr (output, touched))) [0..<sizeT])
                 (\<lambda>i s. Inr s)) [0..<rep] s))
        else ofold (\<lambda>r output. obind
               (grouped_loop (rt_nSrc rt)
                 (\<lambda>i. ofold (\<lambda>l output. arr_set output (int r * dstSlice + int i * int sizeT + int l) None) [0..<sizeT])
                 (\<lambda>i k s. obind (arr_get (rt_connector rt) k) (\<lambda>c.
                    ofold (\<lambda>l. combine_cell dadd input (int r * srcSlice + c * int sizeT + int l)
                                 (int r * dstSlice + int i * int sizeT + int l)) [0..<sizeT] s))
                 (\<lambda>i s. Inr s) output) (\<lambda>output.
               ofold (\<lambda>i output. if rt_nSrc rt ! i \<noteq> 0
                   then ofold (\<lambda>l output. let q = int r * dstSlice + int i * int sizeT + int l
                          in obind (arr_get output q) (\<lambda>y. arr_set output q (ddiv y (int (rt_nSrc rt ! i))))) [0..<sizeT] output
                   else Inr output) [0..<rt_dstSize rt] output)) [0..<rep] output)"

definition rt_transfer :: "reduce_connector \<Rightarrow> nat \<Rightarrow> nat \<Rightarrow> double list \<Rightarrow> double list outcome" where
  "rt_transfer rt rep sizeT input = (case rt_transfer_op rt of
     RSum \<Rightarrow> rt_transferSum rt rep sizeT input | RMin \<Rightarrow> rt_transferMin rt rep sizeT input
   | RMax \<Rightarrow> rt_transferMax rt rep sizeT input | _ \<Rightarrow> rt_transferAverage rt rep sizeT input)"

section \<open>Weights\<close>

definition dmul :: "double \<Rightarrow> double \<Rightarrow> double" where
  "dmul x y = (case (x, y) of (Some a, Some b) \<Rightarrow> Some (a * b) | _ \<Rightarrow> None)"

definition dsub :: "double \<Rightarrow> double \<Rightarrow> double" where
  "dsub x y = (case (x, y) of (Some a, Some b) \<Rightarrow> Some (a - b) | _ \<Rightarrow> None)"

text \<open>A quotient by zero is an infinity or not a number, both \<open>None\<close> here.\<close>

definition dquot :: "double \<Rightarrow> double \<Rightarrow> double" where
  "dquot x y = (case (x, y) of (Some a, Some b) \<Rightarrow> if b = 0 then None else Some (a / b) | _ \<Rightarrow> None)"

record weight_connector =
  wt_weights :: "double list"
  wt_connector :: "int list"
  wt_nWeights :: "nat list"
  wt_srcSize :: nat
  wt_dstSize :: nat
  wt_detect :: bool
  wt_renormalize :: bool

definition wt_computeConnector ::
  "nat list \<Rightarrow> nat list \<Rightarrow> (int \<rightharpoonup> int list) \<Rightarrow> (int \<rightharpoonup> double list) \<Rightarrow> weight_connector \<Rightarrow> weight_connector outcome" where
  "wt_computeConnector srcGlobalIndex dstGlobalIndex indexMap weightMap wt =
    (let srcMapIndex = src_map_index srcGlobalIndex
     in ofold (\<lambda>g wt. case (indexMap (int_of_size g), weightMap (int_of_size g)) of
            (Some vectIndex, Some vectWeight) \<Rightarrow>
              ofold (\<lambda>j wt. obind (arr_get vectWeight (int j)) (\<lambda>w. Inr
                  (wt\<lparr>wt_connector := wt_connector wt @ [src_position srcMapIndex (vectIndex ! j)],
                      wt_weights := wt_weights wt @ [w]\<rparr>))) [0..<length vectIndex]
                (wt\<lparr>wt_nWeights := wt_nWeights wt @ [length vectIndex]\<rparr>)
          | _ \<Rightarrow> Inr (wt\<lparr>wt_nWeights := wt_nWeights wt @ [0]\<rparr>))
        dstGlobalIndex (wt\<lparr>wt_srcSize := length srcGlobalIndex, wt_dstSize := length dstGlobalIndex\<rparr>))"

definition newWeightConnector ::
  "(nat \<Rightarrow> nat) \<Rightarrow> local_view \<Rightarrow> local_view \<Rightarrow> (int \<rightharpoonup> int list) \<Rightarrow> (int \<rightharpoonup> double list) \<Rightarrow> bool \<Rightarrow> bool
     \<Rightarrow> weight_connector outcome" where
  "newWeightConnector junk src dst indexMap weightMap detect renormalize =
     obind (lv_getGlobalIndexView junk dst) (\<lambda>dstGlobalIndex.
     obind (lv_getGlobalIndexView junk src) (\<lambda>srcGlobalIndex.
     wt_computeConnector srcGlobalIndex dstGlobalIndex indexMap weightMap
       \<lparr>wt_weights = [], wt_connector = [], wt_nWeights = [], wt_srcSize = 0, wt_dstSize = 0,
        wt_detect = detect, wt_renormalize = renormalize\<rparr>))"

text \<open>A weighted value arrives at cell \<open>q\<close>, \<open>qf\<close> in \<open>isFirst\<close>.\<close>

definition weigh_cell ::
  "double \<Rightarrow> double \<Rightarrow> int \<Rightarrow> int \<Rightarrow> double list \<times> bool list \<Rightarrow> (double list \<times> bool list) outcome" where
  "weigh_cell x w q qf = (\<lambda>(output, isFirst).
     obind (arr_get isFirst qf) (\<lambda>t.
       if t then obind (arr_set output q (dmul x w)) (\<lambda>output. omap (\<lambda>isFirst. (output, isFirst)) (arr_set isFirst qf False))
       else obind (arr_get output q) (\<lambda>y. omap (\<lambda>output. (output, isFirst)) (arr_set output q (dadd y (dmul x w))))))"

definition wt_slice ::
  "(int \<Rightarrow> double \<Rightarrow> double \<Rightarrow> nat \<Rightarrow> 's \<Rightarrow> 's outcome) \<Rightarrow> weight_connector \<Rightarrow> nat \<Rightarrow> double list \<Rightarrow> nat \<Rightarrow> 's \<Rightarrow> 's outcome" where
  "wt_slice body wt sizeT input r = grouped_loop (wt_nWeights wt) (\<lambda>i s. Inr s)
     (\<lambda>i k s. obind (arr_get (wt_connector wt) k) (\<lambda>c. obind (arr_get (wt_weights wt) k) (\<lambda>w.
        ofold (\<lambda>l s. obind (arr_get input (int r * int (wt_srcSize wt * sizeT) + c * int sizeT + int l)) (\<lambda>x.
                 body (int i * int sizeT) x w l s)) [0..<sizeT] s)))
     (\<lambda>i s. Inr s)"

definition wt_transfer :: "weight_connector \<Rightarrow> nat \<Rightarrow> nat \<Rightarrow> double list \<Rightarrow> double list outcome" where
  "wt_transfer wt rep sizeT input =
    (let D = wt_dstSize wt * sizeT; output = replicate (rep * D) None; isFirst = replicate D True
     in if wt_renormalize wt
        then omap fst (ofold (\<lambda>r (output, renorm).
               obind (wt_slice (\<lambda>b x w l ((output, isFirst), renorm).
                   if \<not> isNan x then omap (\<lambda>s. (s, renorm))
                       (weigh_cell x w (int r * int D + b + int l) (b + int l) (output, isFirst))
                   else obind (arr_get renorm (int r * int D + b + int l)) (\<lambda>y.
                        omap (\<lambda>renorm. ((output, isFirst), renorm))
                          (arr_set renorm (int r * int D + b + int l) (dsub y w))))
                 wt sizeT input r ((output, isFirst), renorm)) (\<lambda>((output, isFirst), renorm).
               omap (\<lambda>output. (output, renorm))
                 (ofold (\<lambda>i output. obind (arr_get output (int r * int D + int i)) (\<lambda>y.
                    obind (arr_get renorm (int r * int D + int i)) (\<lambda>z.
                    arr_set output (int r * int D + int i) (dquot y z)))) [0..<D] output)))
             [0..<rep] (output, replicate (rep * D) (Some 1)))
        else ofold (\<lambda>r output. omap fst
               (wt_slice (\<lambda>b x w l s. if wt_detect wt \<and> isNan x then Inr s
                    else weigh_cell x w (int r * int D + b + int l) (b + int l) s)
                 wt sizeT input r (output, isFirst)))
             [0..<rep] output)"

section \<open>Copies\<close>

record transfer_connector =
  tt_connector :: "int list"
  tt_mask :: "bool list"
  tt_srcSize :: nat
  tt_dstSize :: nat

definition tt_computeConnector :: "nat list \<Rightarrow> nat list \<Rightarrow> (int \<rightharpoonup> int) \<Rightarrow> transfer_connector" where
  "tt_computeConnector srcGlobalIndex dstGlobalIndex indexMap =
    (let srcMapIndex = src_map_index srcGlobalIndex
     in fold (\<lambda>i tt. case indexMap (int_of_size (dstGlobalIndex ! i)) of
            Some index \<Rightarrow> tt\<lparr>tt_connector := tt_connector tt @ [src_position srcMapIndex index],
                             tt_mask := (tt_mask tt)[i := True]\<rparr>
          | None \<Rightarrow> tt\<lparr>tt_mask := (tt_mask tt)[i := False]\<rparr>)
        [0..<length dstGlobalIndex]
        \<lparr>tt_connector = [], tt_mask = replicate (length dstGlobalIndex) False,
         tt_srcSize = length srcGlobalIndex, tt_dstSize = length dstGlobalIndex\<rparr>)"

definition newTransferConnector ::
  "(nat \<Rightarrow> nat) \<Rightarrow> local_view \<Rightarrow> local_view \<Rightarrow> (int \<rightharpoonup> int) \<Rightarrow> transfer_connector outcome" where
  "newTransferConnector junk src dst indexMap =
     obind (lv_getGlobalIndexView junk dst) (\<lambda>dstGlobalIndex.
     omap (\<lambda>srcGlobalIndex. tt_computeConnector srcGlobalIndex dstGlobalIndex indexMap)
       (lv_getGlobalIndexView junk src))"

definition tt_transfer :: "transfer_connector \<Rightarrow> nat \<Rightarrow> nat \<Rightarrow> double list \<Rightarrow> double list outcome" where
  "tt_transfer tt rep sizeT input =
    (let dstSlice = int (tt_dstSize tt * sizeT); srcSlice = int (tt_srcSize tt * sizeT)
     in ofold (\<lambda>r. masked_loop False (tt_mask tt) (tt_connector tt)
          (\<lambda>i c. copy_block input (int r * srcSlice + c * int sizeT) (int r * dstSlice + int i * int sizeT) sizeT)
          (\<lambda>i output. Inr output)) [0..<rep] (replicate (rep * (tt_dstSize tt * sizeT)) (Some 0)))"

end
