(* ===== verification/IndexConnectorProps.thy ===== *)
theory IndexConnectorProps
  imports IndexConnectors
begin

text \<open>
  The loops of the transformation connectors as operations on blocks of cells, and the sources
  the computed connectors name.
\<close>

section \<open>Positions\<close>

definition source_at :: "nat list \<Rightarrow> int \<Rightarrow> nat" where
  "source_at gs v = (case position_of (map Some gs) (size_of_int v) of None \<Rightarrow> 0 | Some i \<Rightarrow> i)"

lemma src_map_index_eq: "src_map_index gs = (\<lambda>g. map_option int (position_of (map Some gs) g))"
proof
  fix g
  have "find (\<lambda>i. gs ! i = g) (rev [0..<length gs]) = position_of (map Some gs) g"
    unfolding position_of_def length_map by (rule find_cong) auto
  then show "src_map_index gs g = map_option int (position_of (map Some gs) g)"
    using hash.lookup_fold [of "\<lambda>i. gs ! i" int "[0..<length gs]" Map.empty g]
    by (simp add: src_map_index_def split: option.split)
qed

lemma src_position_eq: "src_position (src_map_index gs) v = int (source_at gs v)"
  by (simp add: src_position_def src_map_index_eq source_at_def split: option.split)

lemma source_at_less: "gs \<noteq> [] \<Longrightarrow> source_at gs v < length gs"
  using position_of_Some [of "map Some gs"] by (auto simp: source_at_def split: option.split)

section \<open>The loop over groups\<close>

lemma ofold_const: "length xs = length ys \<Longrightarrow> ofold (\<lambda>_. F) xs s = ofold (\<lambda>_. F) ys s"
proof (induction xs ys arbitrary: s rule: list_induct2)
  case (Cons x xs y ys)
  then show ?case by (cases "F s") simp_all
qed simp

lemma ofold_Nil_fun: "ofold f [] = Inr"
  by (rule ext) simp

lemma grouped_row:
  assumes "\<And>j s. j < length g \<Longrightarrow> body (int (a + j)) s = B (g ! j) s"
  shows "ofold (\<lambda>_ (k, s). omap (\<lambda>s. (k + 1, s)) (body k s)) [0..<length g] (int a, s)
    = omap (\<lambda>s. (int (a + length g), s)) (ofold B g s)"
  using assms
proof (induction g arbitrary: a s)
  case (Cons x g)
  let ?F = "\<lambda>(k, s). omap (\<lambda>s. (k + 1, s)) (body k s)"
  have "ofold (\<lambda>_. ?F) [0..<length (x # g)] (int a, s) = ofold (\<lambda>_. ?F) (0 # [0..<length g]) (int a, s)"
    by (rule ofold_const) simp
  moreover have "body (int a) s = B x s" using Cons.prems [of 0 s] by simp
  moreover have "ofold (\<lambda>_. ?F) [0..<length g] (int (a + 1), t) = omap (\<lambda>s. (int (a + 1 + length g), s)) (ofold B g t)" for t
  proof (rule Cons.IH)
    fix j s assume "j < length g"
    then show "body (int (a + 1 + j)) s = B (g ! j) s" using Cons.prems [of "Suc j" s] by (simp add: add.commute)
  qed
  ultimately show ?case by (cases "B x s") (simp_all add: add.commute)
qed simp

lemma grouped_loop_eq:
  assumes "ns = map length grp"
    and "\<And>i k s. i < length grp \<Longrightarrow> k < length (concat grp) \<Longrightarrow> body i (int k) s = B i (concat grp ! k) s"
  shows "grouped_loop ns none body done s
    = ofold (\<lambda>i s. if grp ! i = [] then none i s else obind (ofold (B i) (grp ! i) s) (done i)) [0..<length grp] s"
proof -
  let ?F = "\<lambda>i (k, s). if ns ! i = 0 then omap (\<lambda>s. (k, s)) (none i s)
              else obind (ofold (\<lambda>_ (k, s). omap (\<lambda>s. (k + 1, s)) (body i k s)) [0..<ns ! i] (k, s))
                     (\<lambda>(k, s). omap (\<lambda>s. (k, s)) (done i s))"
  let ?G = "\<lambda>i s. if grp ! i = [] then none i s else obind (ofold (B i) (grp ! i) s) (done i)"
  have "ofold ?F [0..<n] (0, s) = omap (\<lambda>s. (int (length (concat (take n grp))), s)) (ofold ?G [0..<n] s)"
    if "n \<le> length grp" for n
    using that
  proof (induction n)
    case (Suc n)
    define a where "a = length (concat (take n grp))"
    have n: "n < length grp" using Suc.prems by simp
    have c: "concat grp = concat (take n grp) @ grp ! n @ concat (drop (Suc n) grp)"
      using id_take_nth_drop [OF n] by (metis concat.simps(2) concat_append)
    have a': "length (concat (take (Suc n) grp)) = a + length (grp ! n)"
      using n by (simp add: take_Suc_conv_app_nth a_def)
    have row: "ofold (\<lambda>_ (k, s). omap (\<lambda>s. (k + 1, s)) (body n k s)) [0..<length (grp ! n)] (int a, u)
        = omap (\<lambda>s. (int (a + length (grp ! n)), s)) (ofold (B n) (grp ! n) u)" for u
    proof (rule grouped_row)
      fix j s assume j: "j < length (grp ! n)"
      have "concat grp ! (a + j) = grp ! n ! j" "a + j < length (concat grp)"
        using j by (simp_all add: c a_def nth_append)
      with assms(2) [OF n, of "a + j" s] show "body n (int (a + j)) s = B n (grp ! n ! j) s" by simp
    qed
    have "?F n (int a, u) = omap (\<lambda>s. (int (a + length (grp ! n)), s)) (?G n u)" for u
    proof (cases "grp ! n = []")
      case True
      then show ?thesis using assms(1) n by simp
    next
      case False
      then have "?F n (int a, u) = obind (omap (\<lambda>s. (int (a + length (grp ! n)), s)) (ofold (B n) (grp ! n) u))
           (\<lambda>(k, s). omap (\<lambda>s. (k, s)) (done n s))"
        using row [of u] assms(1) n by simp
      with False show ?thesis by (cases "ofold (B n) (grp ! n) u") simp_all
    qed
    then show ?case
      using Suc.IH n by (cases "ofold ?G [0..<n] s") (simp_all add: ofold_append ofold_Nil_fun a_def [symmetric] a')
  qed simp
  note loop = this [of "length grp"]
  have "length ns = length grp" using assms(1) by simp
  with loop show ?thesis unfolding grouped_loop_def by (cases "ofold ?G [0..<length grp] s") simp_all
qed

lemma grouped_slice:
  assumes "ns = map length grp" "n = length grp"
    and "\<And>i k s. i < length grp \<Longrightarrow> k < length (concat grp) \<Longrightarrow> body i (int k) s = B i (concat grp ! k) s"
    and "\<And>i s. i < n \<Longrightarrow> P s \<Longrightarrow> none i s = Inr (arrive U (concat (map (block_op n m r i) tn)) s)"
    and "\<And>i c s. i < n \<Longrightarrow> c \<in> set (grp ! i) \<Longrightarrow> P s \<Longrightarrow> B i c s = Inr (arrive U (block_op n m r i (tb c)) s)"
    and "\<And>i s. i < n \<Longrightarrow> P s \<Longrightarrow> done i s = Inr (arrive U (concat (map (block_op n m r i) td)) s)"
    and P: "\<And>us s. P s \<Longrightarrow> P (arrive U us s)" "P s"
  shows "grouped_loop ns none body done s
    = Inr (arrive U (slice_ops n m r (\<lambda>i. if grp ! i = [] then tn else map tb (grp ! i) @ td)) s)"
proof -
  have "grouped_loop ns none body done s
      = ofold (\<lambda>i s. if grp ! i = [] then none i s else obind (ofold (B i) (grp ! i) s) (done i)) [0..<length grp] s"
    by (rule grouped_loop_eq [where B = B]) (use assms(1,3) in auto)
  also have "\<dots> = Inr (arrive U (slice_ops n m r (\<lambda>i. if grp ! i = [] then tn else map tb (grp ! i) @ td)) s)"
    unfolding assms(2) [symmetric]
  proof (rule slice_arrive [where P = P])
    fix i s assume i: "i < n" and s: "P s"
    show "(if grp ! i = [] then none i s else obind (ofold (B i) (grp ! i) s) (done i))
      = Inr (arrive U (concat (map (block_op n m r i) (if grp ! i = [] then tn else map tb (grp ! i) @ td))) s)"
    proof (cases "grp ! i = []")
      case False
      have "ofold (B i) (grp ! i) s = Inr (arrive U (concat (map (\<lambda>c. block_op n m r i (tb c)) (grp ! i))) s)"
        by (rule ofold_arrive [where P = P]) (use assms(5) i P(1) s in auto)
      with False assms(6) [OF i] P(1) [OF s] show ?thesis by (simp add: comp_def)
    qed (use assms(4) i s in simp)
  qed (use P in auto)
  finally show ?thesis .
qed

section \<open>Reductions\<close>

definition rt_groups :: "nat list \<Rightarrow> nat list \<Rightarrow> (int \<rightharpoonup> int list) \<Rightarrow> nat list list" where
  "rt_groups srcG dstG indexMap =
     map (\<lambda>g. case indexMap (int_of_size g) of None \<Rightarrow> [] | Some vs \<Rightarrow> map (source_at srcG) vs) dstG"

definition rt_ok :: "reduce_connector \<Rightarrow> nat list list \<Rightarrow> bool" where
  "rt_ok rt grp = (rt_nSrc rt = map length grp \<and> rt_connector rt = map int (concat grp)
     \<and> rt_dstSize rt = length grp \<and> (\<forall>c\<in>set (concat grp). c < rt_srcSize rt))"

lemma rt_compute_fold:
  "fold (\<lambda>g rt. case indexMap (int_of_size g) of
            Some vectIndex \<Rightarrow> rt\<lparr>rt_nSrc := rt_nSrc rt @ [length vectIndex],
                                rt_connector := rt_connector rt @ map (src_position (src_map_index srcG)) vectIndex\<rparr>
          | None \<Rightarrow> rt\<lparr>rt_nSrc := rt_nSrc rt @ [0]\<rparr>) dstG rt
   = rt\<lparr>rt_nSrc := rt_nSrc rt @ map length (rt_groups srcG dstG indexMap),
       rt_connector := rt_connector rt @ map int (concat (rt_groups srcG dstG indexMap))\<rparr>"
proof (induction dstG arbitrary: rt)
  case (Cons g dstG)
  then show ?case
    by (cases "indexMap (int_of_size g)") (simp_all add: rt_groups_def src_position_eq comp_def)
qed (simp add: rt_groups_def)

lemma rt_groups_less: "srcG \<noteq> [] \<Longrightarrow> c \<in> set (concat (rt_groups srcG dstG indexMap)) \<Longrightarrow> c < length srcG"
  by (auto simp: rt_groups_def source_at_less split: option.splits)

lemma rt_computed:
  assumes "srcG \<noteq> []" "rt_nSrc rt = []" "rt_connector rt = []"
  shows "rt_ok (rt_computeConnector srcG dstG indexMap rt) (rt_groups srcG dstG indexMap)"
    and "rt_srcSize (rt_computeConnector srcG dstG indexMap rt) = length srcG"
    and "rt_detect (rt_computeConnector srcG dstG indexMap rt) = rt_detect rt"
    and "rt_transfer_op (rt_computeConnector srcG dstG indexMap rt) = rt_transfer_op rt"
  using assms rt_groups_less [OF assms(1), of _ dstG indexMap]
  by (simp_all add: rt_computeConnector_def Let_def rt_compute_fold rt_ok_def) (simp add: rt_groups_def)

definition touch :: "(double \<Rightarrow> double \<Rightarrow> double) \<Rightarrow> double \<Rightarrow> double \<times> bool \<Rightarrow> double \<times> bool" where
  "touch f x = (\<lambda>(y, t). if isNan x then (y, t) else if t then (f y x, t) else (x, True))"

definition sized :: "nat \<Rightarrow> 'a list \<times> 'b list \<Rightarrow> bool" where
  "sized N s = (length (fst s) = N \<and> length (snd s) = N)"

definition at_cell :: "nat \<Rightarrow> ('v \<times> 'n \<Rightarrow> 'v \<times> 'n) \<Rightarrow> 'v list \<times> 'n list \<Rightarrow> 'v list \<times> 'n list" where
  "at_cell d f = upd_cells f d"

lemma sized_arrive: "sized N s \<Longrightarrow> sized N (arrive at_cell us s)"
  by (simp add: sized_def at_cell_def [abs_def])

lemma at_cell_fold:
  "sized N s \<Longrightarrow> d < N \<Longrightarrow> cell_of (arrive at_cell us s) d = fold (\<lambda>f. f) (arriving d us) (cell_of s d)"
  by (simp add: sized_def at_cell_def [abs_def] arrive_cell [where f = "\<lambda>f. f"])

lemma touch_cell_eq:
  "p < length input \<Longrightarrow> q < N \<Longrightarrow> sized N s \<Longrightarrow> touch_cell f input (int p) (int q) s = Inr (upd_cells (touch f (input ! p)) q s)"
proof -
  have "b ! q \<Longrightarrow> b[q := True] = b" for b :: "bool list" by (metis list_update_id)
  then show "p < length input \<Longrightarrow> q < N \<Longrightarrow> sized N s \<Longrightarrow> ?thesis"
    by (cases s) (auto simp: touch_cell_def touch_def upd_cells_def sized_def Let_def)
qed

lemma set_missing_eq:
  "q < N \<Longrightarrow> sized N s \<Longrightarrow> set_missing (int q) s = Inr (upd_cells (\<lambda>(y, t). (None, t)) q s)"
  by (cases s) (simp add: set_missing_def upd_cells_def sized_def Let_def)

lemma count_cell_eq:
  "p < length input \<Longrightarrow> q < N \<Longrightarrow> sized N s \<Longrightarrow> count_cell input (int p) (int q) s = Inr (upd_cells (cell_fn RSum (input ! p)) q s)"
  by (cases s) (auto simp: count_cell_def cell_fn_def upd_cells_def sized_def Let_def)

lemma divide_cell_eq:
  "q < N \<Longrightarrow> sized N s \<Longrightarrow> divide_cell (int q) s = Inr (upd_cells (\<lambda>(y, t). (if t \<noteq> 0 then ddiv y t else y, t)) q s)"
  by (cases s) (auto simp: divide_cell_def upd_cells_def sized_def Let_def)

text \<open>Positions of a block.\<close>

lemma block_position:
  assumes "r < rep" "i < n" "l < (m::nat)"
  shows "int r * int (n * m) + int i * int m + int l = int (r * (n * m) + i * m + l)"
    and "r * (n * m) + i * m + l < rep * (n * m)"
proof -
  have "i * m + l < n * m" by (rule block_index_bounds) (use assms in auto)
  from block_index_bounds [OF assms(1) this] show "r * (n * m) + i * m + l < rep * (n * m)" by simp
qed simp

text \<open>The values of the sources of a block, in slice \<open>r\<close> at cell \<open>l\<close>.\<close>

definition source_values :: "nat \<Rightarrow> nat \<Rightarrow> 'v list \<Rightarrow> nat list \<Rightarrow> nat \<Rightarrow> nat \<Rightarrow> 'v list" where
  "source_values S m input cs r l = map (\<lambda>c. input ! (r * (S * m) + c * m + l)) cs"

lemma connector_entry:
  "rt_ok rt grp \<Longrightarrow> k < length (concat grp) \<Longrightarrow> arr_get (rt_connector rt) (int k) = Inr (int (concat grp ! k))"
  by (simp add: rt_ok_def)

text \<open>The two loops of a transfer that watches for missing values: the first takes the values, the
  second marks the cells that took none.\<close>

lemma first_pass:
  fixes C :: "int \<Rightarrow> int \<Rightarrow> double list \<times> 'n list \<Rightarrow> (double list \<times> 'n list) outcome"
    and Dn :: "nat \<Rightarrow> nat \<Rightarrow> double list \<times> 'n list \<Rightarrow> (double list \<times> 'n list) outcome"
  assumes ok: "rt_ok rt grp" "n = length grp" "rep * (rt_srcSize rt * m) \<le> length input"
    and C: "\<And>p q s. p < length input \<Longrightarrow> q < rep * (n * m) \<Longrightarrow> sized (rep * (n * m)) s \<Longrightarrow>
      C (int p) (int q) s = Inr (at_cell q (cf (input ! p)) s)"
    and Dn: "\<And>r i s. r < rep \<Longrightarrow> i < n \<Longrightarrow> sized (rep * (n * m)) s \<Longrightarrow>
      Dn r i s = Inr (arrive at_cell (concat (map (block_op n m r i) td)) s)"
    and s0: "sized (rep * (n * m)) s0"
  shows "ofold (\<lambda>r. grouped_loop (rt_nSrc rt)
        (\<lambda>i. ofold (\<lambda>l. set_missing (int r * int (n * m) + int i * int m + int l)) [0..<m])
        (\<lambda>i k s. obind (arr_get (rt_connector rt) k) (\<lambda>c.
           ofold (\<lambda>l. C (int r * int (rt_srcSize rt * m) + c * int m + int l) (int r * int (n * m) + int i * int m + int l)) [0..<m] s))
        (Dn r)) [0..<rep] s0
    = Inr (arrive at_cell (block_ops rep n m [\<lambda>i. if grp ! i = [] then [\<lambda>r l (y, t). (None, t)]
        else map (\<lambda>c r l. cf (input ! (r * (rt_srcSize rt * m) + c * m + l))) (grp ! i) @ td]) s0)"
proof (rule slices_arrive [where P = "sized (rep * (n * m))"])
  let ?N = "rep * (n * m)" and ?S = "rt_srcSize rt"
  fix r s assume r: "r < rep" and s: "sized ?N (s :: double list \<times> 'n list)"
  let ?ts = "\<lambda>i. if grp ! i = [] then [\<lambda>r l (y, t). (None, t)]
      else map (\<lambda>c r l. cf (input ! (r * (?S * m) + c * m + l))) (grp ! i) @ td"
  have "grouped_loop (rt_nSrc rt)
      (\<lambda>i. ofold (\<lambda>l. set_missing (int r * int (n * m) + int i * int m + int l)) [0..<m])
      (\<lambda>i k s. obind (arr_get (rt_connector rt) k) (\<lambda>c.
         ofold (\<lambda>l. C (int r * int (?S * m) + c * int m + int l) (int r * int (n * m) + int i * int m + int l)) [0..<m] s))
      (Dn r) s = Inr (arrive at_cell (slice_ops n m r ?ts) s)"
  proof (rule grouped_slice [where P = "sized ?N" and B = "\<lambda>i c. ofold (\<lambda>l. C (int r * int (?S * m) + int c * int m + int l)
        (int r * int (n * m) + int i * int m + int l)) [0..<m]"])
    fix i s assume i: "i < n" and s: "sized ?N (s :: double list \<times> 'n list)"
    have "ofold (\<lambda>l. set_missing (int r * int (n * m) + int i * int m + int l)) [0..<m] s
        = Inr (arrive at_cell (block_op n m r i (\<lambda>r l (y, t). (None, t))) s)"
      by (rule block_arrive [where P = "sized ?N"])
        (use s in \<open>simp_all only: block_position(1) [OF r i] at_cell_def
          set_missing_eq [OF block_position(2) [OF r i]] sized_arrive\<close>)
    then show "ofold (\<lambda>l. set_missing (int r * int (n * m) + int i * int m + int l)) [0..<m] s
        = Inr (arrive at_cell (concat (map (block_op n m r i) [\<lambda>r l (y, t). (None, t)])) s)" by simp
  next
    fix i c s assume i: "i < n" and c: "c \<in> set (grp ! i)" and s: "sized ?N (s :: double list \<times> 'n list)"
    have c': "c < ?S" using ok(1) i c ok(2) by (auto simp: rt_ok_def)
    show "ofold (\<lambda>l. C (int r * int (?S * m) + int c * int m + int l) (int r * int (n * m) + int i * int m + int l)) [0..<m] s
        = Inr (arrive at_cell (block_op n m r i (\<lambda>r l. cf (input ! (r * (?S * m) + c * m + l)))) s)"
    proof (rule block_arrive [where P = "sized ?N"])
      fix l s assume l: "l < m" "sized ?N (s :: double list \<times> 'n list)"
      have "r * (?S * m) + c * m + l < length input" using block_position(2) [OF r c' l(1)] ok(3) by simp
      from C [OF this block_position(2) [OF r i l(1)] l(2)]
      show "C (int r * int (?S * m) + int c * int m + int l) (int r * int (n * m) + int i * int m + int l) s
          = Inr (at_cell (r * (n * m) + i * m + l) (cf (input ! (r * (?S * m) + c * m + l))) s)"
        by (simp only: block_position(1) [OF r c' l(1)] block_position(1) [OF r i l(1)])
    qed (use s sized_arrive in auto)
  qed (use ok connector_entry [OF ok(1)] Dn [OF r] sized_arrive s in \<open>auto simp: rt_ok_def\<close>)
  then show "grouped_loop (rt_nSrc rt)
      (\<lambda>i. ofold (\<lambda>l. set_missing (int r * int (n * m) + int i * int m + int l)) [0..<m])
      (\<lambda>i k s. obind (arr_get (rt_connector rt) k) (\<lambda>c.
         ofold (\<lambda>l. C (int r * int (?S * m) + c * int m + int l) (int r * int (n * m) + int i * int m + int l)) [0..<m] s))
      (Dn r) s = Inr (arrive at_cell (concat (map (slice_ops n m r) [?ts])) s)" by simp
qed (use s0 sized_arrive in auto)

lemma second_pass:
  fixes M :: "int \<Rightarrow> double list \<times> 'n list \<Rightarrow> (double list \<times> 'n list) outcome"
  assumes ok: "rt_ok rt grp" "n = length grp"
    and M: "\<And>q s. q < rep * (n * m) \<Longrightarrow> sized (rep * (n * m)) s \<Longrightarrow> M (int q) s = Inr (at_cell q mf s)"
    and s0: "sized (rep * (n * m)) s0"
  shows "ofold (\<lambda>r. grouped_loop (rt_nSrc rt) (\<lambda>i s. Inr s)
        (\<lambda>i k. ofold (\<lambda>l. M (int r * int (n * m) + int i * int m + int l)) [0..<m])
        (\<lambda>i s. Inr s)) [0..<rep] s0
    = Inr (arrive at_cell (block_ops rep n m [\<lambda>i. if grp ! i = [] then [] else map (\<lambda>c r l. mf) (grp ! i) @ []]) s0)"
proof (rule slices_arrive [where P = "sized (rep * (n * m))"])
  let ?N = "rep * (n * m)"
  fix r s assume r: "r < rep" and s: "sized ?N (s :: double list \<times> 'n list)"
  have "grouped_loop (rt_nSrc rt) (\<lambda>i s. Inr s)
      (\<lambda>i k. ofold (\<lambda>l. M (int r * int (n * m) + int i * int m + int l)) [0..<m])
      (\<lambda>i s. Inr s) s
    = Inr (arrive at_cell (slice_ops n m r (\<lambda>i. if grp ! i = [] then [] else map (\<lambda>c r l. mf) (grp ! i) @ [])) s)"
  proof (rule grouped_slice [where P = "sized ?N" and B = "\<lambda>i c. ofold (\<lambda>l. M (int r * int (n * m) + int i * int m + int l)) [0..<m]"])
    fix i c s assume i: "i < n" and s: "sized ?N (s :: double list \<times> 'n list)"
    show "ofold (\<lambda>l. M (int r * int (n * m) + int i * int m + int l)) [0..<m] s
        = Inr (arrive at_cell (block_op n m r i (\<lambda>r l. mf)) s)"
      by (rule block_arrive [where P = "sized ?N"])
        (use s in \<open>simp_all only: block_position(1) [OF r i] M [OF block_position(2) [OF r i]] sized_arrive\<close>)
  qed (use ok sized_arrive s in \<open>auto simp: rt_ok_def\<close>)
  then show "grouped_loop (rt_nSrc rt) (\<lambda>i s. Inr s)
      (\<lambda>i k. ofold (\<lambda>l. M (int r * int (n * m) + int i * int m + int l)) [0..<m])
      (\<lambda>i s. Inr s) s = Inr (arrive at_cell (concat (map (slice_ops n m r)
        [\<lambda>i. if grp ! i = [] then [] else map (\<lambda>c r l. mf) (grp ! i) @ []])) s)" by simp
qed (use s0 sized_arrive in auto)

text \<open>What the two passes leave in a cell.\<close>

lemma two_passes_cell:
  assumes "r < rep" "i < n" "l < m" "sized (rep * (n * m)) s0"
  shows "cell_of (arrive at_cell (block_ops rep n m [\<lambda>i. if grp ! i = [] then [] else map (\<lambda>c r l. mf) (grp ! i) @ []])
      (arrive at_cell (block_ops rep n m [\<lambda>i. if grp ! i = [] then [\<lambda>r l (y, t). (None, t)]
        else map (\<lambda>c r l. cf (input ! (r * (S * m) + c * m + l))) (grp ! i) @ td]) s0)) (r * (n * m) + i * m + l)
    = (let c0 = cell_of s0 (r * (n * m) + i * m + l) in if grp ! i = [] then (None, snd c0)
       else fold (\<lambda>_. mf) (grp ! i) (fold (\<lambda>t. t r l) td (fold cf (source_values S m input (grp ! i) r l) c0)))"
  using assms block_position(2) [OF assms(1-3)]
  by (simp add: at_cell_fold [OF sized_arrive] at_cell_fold arriving_block_ops fold_map comp_def source_values_def
      Let_def case_prod_beta)

section \<open>What a cell of the destination holds\<close>

lemma snd_touch: "snd (fold (touch f) xs (y, t)) \<longleftrightarrow> t \<or> present xs \<noteq> []"
proof (induction xs arbitrary: y t)
  case (Cons x xs)
  then show ?case by (cases x) (simp_all add: touch_def isNan_def)
qed simp

lemma fold_mark:
  "fold (\<lambda>_ (y, t). if b t then (None, t) else (y, t)) cs (y, t) = (if cs \<noteq> [] \<and> b t then (None, t) else (y, t))"
  by (induction cs arbitrary: y) auto

text \<open>The operation of each reduction.\<close>

definition red_fn :: "EReduction \<Rightarrow> double \<Rightarrow> double \<Rightarrow> double" where
  "red_fn rd = (case rd of RMin \<Rightarrow> dmin | RMax \<Rightarrow> dmax | _ \<Rightarrow> dadd)"

lemma touch_cell_fn:
  assumes "rd \<in> {RSum, RMin, RMax}" "0 \<le> n"
  shows "fold (touch (red_fn rd)) xs (y, n \<noteq> 0) = (\<lambda>(y, n). (y, n \<noteq> 0)) (fold (cell_fn rd) xs (y, n))"
  using assms(2)
proof (induction xs arbitrary: y n)
  case (Cons x xs)
  obtain y' n' where c: "cell_fn rd x (y, n) = (y', n')" by (cases "cell_fn rd x (y, n)")
  have "touch (red_fn rd) x (y, n \<noteq> 0) = (y', n' \<noteq> 0)" "0 \<le> n'"
    using c assms(1) Cons.prems by (auto simp: touch_def cell_fn_def red_fn_def split: if_splits)
  with Cons.IH [of n' y'] c show ?case by simp
qed simp

lemma fold_touch:
  assumes "rd \<in> {RSum, RMin, RMax}" "present xs \<noteq> []"
  shows "fst (fold (touch (red_fn rd)) xs (y, False)) = op_spec (red_kind rd) xs"
proof -
  have "fold (touch (red_fn rd)) xs (y, False) = (\<lambda>(y, n). (y, n \<noteq> 0)) (fold (cell_fn rd) xs (y, 0))"
    using touch_cell_fn [OF assms(1), of 0 xs y] by simp
  moreover have "rd \<in> {RSum, RMin, RMax, RAverage}" using assms(1) by auto
  ultimately show ?thesis using assms(2) by (simp add: fold_cell_fn)
qed

lemma op_spec_absent: "rd \<in> {RSum, RMin, RMax, RAverage} \<Longrightarrow> present xs = [] \<Longrightarrow> op_spec (red_kind rd) xs = None"
  by (auto simp: red_kind_def op_spec_def sum_red.reduce_present min_red.reduce_present max_red.reduce_present)

lemma marked_touch:
  assumes "rd \<in> {RSum, RMin, RMax}" "cs = [] \<longleftrightarrow> xs = []"
  shows "(if cs = [] then None else fst (fold (\<lambda>_ (y, t). if \<not> t then (None, t) else (y, t)) cs
      (fold (touch (red_fn rd)) xs (Some 0, False)))) = op_spec (red_kind rd) xs"
proof -
  obtain y t where yt: "fold (touch (red_fn rd)) xs (Some 0, False) = (y, t)" by (cases "fold (touch (red_fn rd)) xs (Some 0, False)")
  have t: "t \<longleftrightarrow> present xs \<noteq> []" using snd_touch [of "red_fn rd" xs "Some 0" False] by (simp add: yt)
  have rd: "rd \<in> {RSum, RMin, RMax, RAverage}" using assms(1) by auto
  show ?thesis
  proof (cases "present xs = []")
    case True
    then show ?thesis using op_spec_absent [OF rd True] t by (simp add: yt fold_mark)
  next
    case False
    then have "cs \<noteq> []" using assms(2) by auto
    with False t fold_touch [OF assms(1) False, of "Some 0"] show ?thesis by (simp add: yt fold_mark)
  qed
qed

lemma mean_of_sum:
  assumes "present xs \<noteq> []"
  shows "ddiv (op_spec (red_kind RSum) xs) (int (length (present xs))) = op_spec (red_kind RAverage) xs"
  using assms by (simp add: red_kind_def op_spec_def ddiv_def sum_reduce_present)

text \<open>Both detecting transfers.\<close>

definition cells_are :: "nat \<Rightarrow> nat \<Rightarrow> nat \<Rightarrow> (nat \<Rightarrow> nat \<Rightarrow> nat \<Rightarrow> 'v) \<Rightarrow> 'v list \<Rightarrow> bool" where
  "cells_are rep n m v res \<longleftrightarrow> length res = rep * (n * m)
     \<and> (\<forall>r<rep. \<forall>i<n. \<forall>l<m. res ! (r * (n * m) + i * m + l) = v r i l)"

lemma rt_with_detects:
  assumes "rt_ok rt grp" "rep * (rt_srcSize rt * m) \<le> length input" "rt_detect rt" "rd \<in> {RSum, RMin, RMax}"
  shows "\<exists>res. rt_transfer_with (red_fn rd) rt rep m input = Inr res \<and> cells_are rep (length grp) m
    (\<lambda>r i l. op_spec (red_kind rd) (source_values (rt_srcSize rt) m input (grp ! i) r l)) res"
proof -
  let ?n = "length grp" and ?S = "rt_srcSize rt" and ?f = "red_fn rd"
  let ?s0 = "(replicate (rep * (?n * m)) (Some (0::rat)), replicate (rep * (?n * m)) False)"
  let ?mf = "\<lambda>(y::double, t). if \<not> t then (None, t) else (y, t)"
  let ?s1 = "arrive at_cell (block_ops rep ?n m [\<lambda>i. if grp ! i = [] then [\<lambda>r l (y, t). (None, t)]
        else map (\<lambda>c r l. touch ?f (input ! (r * (?S * m) + c * m + l))) (grp ! i) @ []]) ?s0"
  let ?s2 = "arrive at_cell (block_ops rep ?n m [\<lambda>i. if grp ! i = [] then [] else map (\<lambda>c r l. ?mf) (grp ! i) @ []]) ?s1"
  have dst: "rt_dstSize rt = ?n" using assms(1) by (simp add: rt_ok_def)
  have s0: "sized (rep * (?n * m)) ?s0" by (simp add: sized_def)
  note s = s0 sized_arrive [OF s0] sized_arrive [OF sized_arrive [OF s0]]
  let ?M = "\<lambda>q (output, touched). obind (arr_get touched q) (\<lambda>t.
      if \<not> t then set_missing q (output, touched) else Inr (output, touched))"
  have C: "touch_cell ?f input (int p) (int q) s = Inr (at_cell q (touch ?f (input ! p)) s)"
    if "p < length input" "q < rep * (?n * m)" "sized (rep * (?n * m)) s" for p q s
    using touch_cell_eq [OF that] by (simp add: at_cell_def)
  have M: "?M (int q) s = Inr (at_cell q ?mf s)" if "q < rep * (?n * m)" "sized (rep * (?n * m)) s" for q s
  proof (cases s)
    case (Pair a b)
    with that have "q < length b" by (simp add: sized_def)
    moreover from this have "b ! q \<Longrightarrow> b[q := True] = b" "\<not> b ! q \<Longrightarrow> b[q := False] = b" by (metis list_update_id)+
    ultimately show ?thesis using set_missing_eq [OF that] Pair by (simp add: at_cell_def upd_cells_def Let_def)
  qed
  have D: "Inr s = (Inr (arrive at_cell (concat (map (block_op ?n m r i) [])) s) :: (double list \<times> bool list) outcome)" for r i s
    by simp
  note one = first_pass [where C = "touch_cell ?f input" and cf = "touch ?f"
      and Dn = "\<lambda>r i s. Inr s" and td = "[]", OF assms(1) refl assms(2) C D s(1)]
  note two = second_pass [where M = ?M and mf = ?mf, OF assms(1) refl M s(2)]
  have "rt_transfer_with ?f rt rep m input = Inr (fst ?s2)"
    unfolding rt_transfer_with_def Let_def dst if_P [OF assms(3)] using one two by simp
  moreover have "fst ?s2 ! (r * (?n * m) + i * m + l)
      = op_spec (red_kind rd) (source_values ?S m input (grp ! i) r l)" if "r < rep" "i < ?n" "l < m" for r i l
  proof -
    let ?d = "r * (?n * m) + i * m + l" and ?xs = "source_values ?S m input (grp ! i) r l"
    have c0: "cell_of ?s0 ?d = (Some 0, False)" using block_position(2) [OF that] by (simp add: cell_of_def)
    have "fst ?s2 ! ?d = fst (cell_of ?s2 ?d)" by (simp add: cell_of_def)
    also have "\<dots> = (if grp ! i = [] then None else fst (fold (\<lambda>_. ?mf) (grp ! i) (fold (touch ?f) ?xs (Some 0, False))))"
      by (simp add: two_passes_cell [OF that s(1)] c0 Let_def)
    also have "\<dots> = op_spec (red_kind rd) ?xs"
      by (rule marked_touch [OF assms(4)]) (simp add: source_values_def)
    finally show ?thesis .
  qed
  ultimately show ?thesis using s(3) by (simp add: cells_are_def sized_def)
qed

lemma rt_average_detects:
  assumes "rt_ok rt grp" "rep * (rt_srcSize rt * m) \<le> length input" "rt_detect rt"
  shows "\<exists>res. rt_transferAverage rt rep m input = Inr res \<and> cells_are rep (length grp) m
    (\<lambda>r i l. op_spec (red_kind RAverage) (source_values (rt_srcSize rt) m input (grp ! i) r l)) res"
proof -
  let ?n = "length grp" and ?S = "rt_srcSize rt"
  let ?s0 = "(replicate (rep * (?n * m)) (Some (0::rat)), replicate (rep * (?n * m)) (0::int))"
  let ?df = "\<lambda>(y, t). (if t \<noteq> 0 then ddiv y t else y, t)" and ?mf = "\<lambda>(y::double, t::int). if t = 0 then (None, t) else (y, t)"
  let ?td = "[\<lambda>r l. ?df] :: (nat \<Rightarrow> nat \<Rightarrow> double \<times> int \<Rightarrow> double \<times> int) list"
  let ?s1 = "arrive at_cell (block_ops rep ?n m [\<lambda>i. if grp ! i = [] then [\<lambda>r l (y, t). (None, t)]
        else map (\<lambda>c r l. cell_fn RSum (input ! (r * (?S * m) + c * m + l))) (grp ! i) @ ?td]) ?s0"
  let ?s2 = "arrive at_cell (block_ops rep ?n m [\<lambda>i. if grp ! i = [] then [] else map (\<lambda>c r l. ?mf) (grp ! i) @ []]) ?s1"
  have dst: "rt_dstSize rt = ?n" using assms(1) by (simp add: rt_ok_def)
  have s0: "sized (rep * (?n * m)) ?s0" by (simp add: sized_def)
  note s = s0 sized_arrive [OF s0] sized_arrive [OF sized_arrive [OF s0]]
  let ?M = "\<lambda>q (output, touched). obind (arr_get touched q) (\<lambda>t.
      if t = 0 then set_missing q (output, touched) else Inr (output, touched))"
  have C: "count_cell input (int p) (int q) s = Inr (at_cell q (cell_fn RSum (input ! p)) s)"
    if "p < length input" "q < rep * (?n * m)" "sized (rep * (?n * m)) s" for p q s
    using count_cell_eq [OF that] by (simp add: at_cell_def)
  have M: "?M (int q) s = Inr (at_cell q ?mf s)" if "q < rep * (?n * m)" "sized (rep * (?n * m)) s" for q s
  proof (cases s)
    case (Pair a b)
    with that have "q < length b" by (simp add: sized_def)
    moreover have "b ! q = 0 \<Longrightarrow> b[q := 0] = b" by (metis list_update_id)
    ultimately show ?thesis using set_missing_eq [OF that] Pair by (simp add: at_cell_def upd_cells_def Let_def)
  qed
  have D: "ofold (\<lambda>l. divide_cell (int r * int (?n * m) + int i * int m + int l)) [0..<m] s
      = Inr (arrive at_cell (concat (map (block_op ?n m r i) ?td)) s)"
    if "r < rep" "i < ?n" "sized (rep * (?n * m)) s" for r i s
  proof -
    have "ofold (\<lambda>l. divide_cell (int r * int (?n * m) + int i * int m + int l)) [0..<m] s
        = Inr (arrive at_cell (block_op ?n m r i (\<lambda>r l. ?df)) s)"
      by (rule block_arrive [where P = "sized (rep * (?n * m))"])
        (use that(3) in \<open>simp_all only: block_position(1) [OF that(1,2)] at_cell_def
          divide_cell_eq [OF block_position(2) [OF that(1,2)]] sized_arrive\<close>)
    then show ?thesis by simp
  qed
  note one = first_pass [where C = "count_cell input" and cf = "cell_fn RSum" and td = ?td
      and Dn = "\<lambda>r i. ofold (\<lambda>l. divide_cell (int r * int (?n * m) + int i * int m + int l)) [0..<m]",
      OF assms(1) refl assms(2) C D s(1)]
  note two = second_pass [where M = ?M and mf = ?mf, OF assms(1) refl M s(2)]
  have "rt_transferAverage rt rep m input = Inr (fst ?s2)"
    unfolding rt_transferAverage_def Let_def dst if_P [OF assms(3)] using one two by simp
  moreover have "fst ?s2 ! (r * (?n * m) + i * m + l)
      = op_spec (red_kind RAverage) (source_values ?S m input (grp ! i) r l)" if "r < rep" "i < ?n" "l < m" for r i l
  proof -
    let ?d = "r * (?n * m) + i * m + l" and ?xs = "source_values ?S m input (grp ! i) r l"
    have c0: "cell_of ?s0 ?d = (Some 0, 0)" using block_position(2) [OF that] by (simp add: cell_of_def)
    have "fst ?s2 ! ?d = fst (cell_of ?s2 ?d)" by (simp add: cell_of_def)
    also have "\<dots> = (if grp ! i = [] then None
        else fst (fold (\<lambda>_. ?mf) (grp ! i) (?df (fold (cell_fn RSum) ?xs (Some 0, 0)))))"
      by (simp add: two_passes_cell [OF that s(1)] c0 Let_def)
    also have "\<dots> = op_spec (red_kind RAverage) ?xs"
      using mean_of_sum [of ?xs] op_spec_absent [of RAverage ?xs] by (auto simp: fold_cell_fn fold_mark source_values_def)
    finally show ?thesis .
  qed
  ultimately show ?thesis using s(3) by (simp add: cells_are_def sized_def)
qed

section \<open>Without looking for missing values\<close>

definition at_one :: "nat \<Rightarrow> ('v \<Rightarrow> 'v) \<Rightarrow> 'v list \<Rightarrow> 'v list" where
  "at_one d f = upd_one f d"

lemma length_at_one [simp]: "length (arrive at_one us out) = length out"
  using length_upd_one [of us out] by (simp add: at_one_def [abs_def])

lemma at_one_fold: "d < length out \<Longrightarrow> arrive at_one us out ! d = fold (\<lambda>f. f) (arriving d us) (out ! d)"
  using arrive_one [of d out us] by (simp add: at_one_def [abs_def])

lemma arr_set_nat: "q < length s \<Longrightarrow> arr_set s (int q) v = Inr (s[q := v])"
  and arr_get_nat: "q < length s \<Longrightarrow> arr_get s (int q) = Inr (s ! q)"
  by simp_all

lemma plain_slice:
  assumes ok: "rt_ok rt grp" "n = length grp" "rep * (rt_srcSize rt * m) \<le> length input"
    and r: "r < rep" and s: "length s = rep * (n * m)"
  shows "grouped_loop (rt_nSrc rt)
        (\<lambda>i. ofold (\<lambda>l output. arr_set output (int r * int (n * m) + int i * int m + int l) None) [0..<m])
        (\<lambda>i k s. obind (arr_get (rt_connector rt) k) (\<lambda>c.
           ofold (\<lambda>l. combine_cell f input (int r * int (rt_srcSize rt * m) + c * int m + int l)
                        (int r * int (n * m) + int i * int m + int l)) [0..<m] s))
        (\<lambda>i s. Inr s) s
    = Inr (arrive at_one (slice_ops n m r (\<lambda>i. if grp ! i = [] then [\<lambda>r l y. None]
        else map (\<lambda>c r l y. f y (input ! (r * (rt_srcSize rt * m) + c * m + l))) (grp ! i) @ [])) s)"
proof (rule grouped_slice [where P = "\<lambda>s. length s = rep * (n * m)" and B = "\<lambda>i c. ofold (\<lambda>l. combine_cell f input
    (int r * int (rt_srcSize rt * m) + int c * int m + int l) (int r * int (n * m) + int i * int m + int l)) [0..<m]"])
  fix i and s :: "double list" assume i: "i < n" and s: "length s = rep * (n * m)"
  have "ofold (\<lambda>l output. arr_set output (int r * int (n * m) + int i * int m + int l) None) [0..<m] s
      = Inr (arrive at_one (block_op n m r i (\<lambda>r l y. None)) s)"
  proof (rule block_arrive [where P = "\<lambda>s. length s = rep * (n * m)"])
    fix l and s :: "double list" assume "l < m" "length s = rep * (n * m)"
    with block_position(2) [OF r i] show "arr_set s (int r * int (n * m) + int i * int m + int l) None
        = Inr (at_one (r * (n * m) + i * m + l) (\<lambda>y. None) s)"
      by (simp only: block_position(1) [OF r i] arr_set_nat at_one_def upd_one_def)
  qed (use s in auto)
  then show "ofold (\<lambda>l output. arr_set output (int r * int (n * m) + int i * int m + int l) None) [0..<m] s
      = Inr (arrive at_one (concat (map (block_op n m r i) [\<lambda>r l y. None])) s)" by simp
next
  fix i c and s :: "double list" assume i: "i < n" and c: "c \<in> set (grp ! i)" and s: "length s = rep * (n * m)"
  have c': "c < rt_srcSize rt" using ok(1) i c ok(2) by (auto simp: rt_ok_def)
  show "ofold (\<lambda>l. combine_cell f input (int r * int (rt_srcSize rt * m) + int c * int m + int l)
        (int r * int (n * m) + int i * int m + int l)) [0..<m] s
      = Inr (arrive at_one (block_op n m r i (\<lambda>r l y. f y (input ! (r * (rt_srcSize rt * m) + c * m + l)))) s)"
  proof (rule block_arrive [where P = "\<lambda>s. length s = rep * (n * m)"])
    fix l and s :: "double list" assume l: "l < m" "length s = rep * (n * m)"
    have "r * (rt_srcSize rt * m) + c * m + l < length input"
      using block_position(2) [OF r c' l(1)] ok(3) by simp
    with l block_position(2) [OF r i l(1)]
    show "combine_cell f input (int r * int (rt_srcSize rt * m) + int c * int m + int l)
        (int r * int (n * m) + int i * int m + int l) s
      = Inr (at_one (r * (n * m) + i * m + l) (\<lambda>y. f y (input ! (r * (rt_srcSize rt * m) + c * m + l))) s)"
      by (simp only: block_position(1) [OF r i l(1)] block_position(1) [OF r c' l(1)] combine_cell_def
          arr_get_nat arr_set_nat obind.simps at_one_def upd_one_def)
  qed (use s in auto)
qed (use ok connector_entry [OF ok(1)] s in \<open>auto simp: rt_ok_def\<close>)

lemma rt_with_plain:
  assumes "rt_ok rt grp" "rep * (rt_srcSize rt * m) \<le> length input" "\<not> rt_detect rt"
  shows "\<exists>res. rt_transfer_with f rt rep m input = Inr res \<and> cells_are rep (length grp) m
    (\<lambda>r i l. if grp ! i = [] then None
       else fold (\<lambda>x y. f y x) (source_values (rt_srcSize rt) m input (grp ! i) r l) (Some 0)) res"
proof -
  let ?n = "length grp" and ?S = "rt_srcSize rt"
  let ?ts = "\<lambda>i. if grp ! i = [] then [\<lambda>r l y. None] else map (\<lambda>c r l y. f y (input ! (r * (?S * m) + c * m + l))) (grp ! i) @ []"
  let ?s0 = "replicate (rep * (?n * m)) (Some 0)" and ?s1 = "arrive at_one (block_ops rep ?n m [?ts]) (replicate (rep * (?n * m)) (Some 0))"
  have dst: "rt_dstSize rt = ?n" using assms(1) by (simp add: rt_ok_def)
  have "rt_transfer_with f rt rep m input = Inr ?s1"
    unfolding rt_transfer_with_def Let_def dst if_not_P [OF assms(3)]
    by (rule slices_arrive [where P = "\<lambda>s. length s = rep * (?n * m)"])
      (simp_all add: plain_slice [OF assms(1) refl assms(2)] del: of_nat_mult)
  moreover have "?s1 ! (r * (?n * m) + i * m + l) = (if grp ! i = [] then None
       else fold (\<lambda>x y. f y x) (source_values ?S m input (grp ! i) r l) (Some 0))" if "r < rep" "i < ?n" "l < m" for r i l
    using that block_position(2) [OF that]
    by (simp add: at_one_fold arriving_block_ops fold_map comp_def source_values_def)
  ultimately show ?thesis by (simp add: cells_are_def)
qed

end
