(* ===== verification/WeightProps.thy ===== *)
theory WeightProps
  imports IndexConnectorProps
begin

text \<open>
  The weighted transfers.  A slice works on the cells of the output together with marks that are
  reset for each slice; \<open>cell_store\<close> is what the argument needs from such a store.
\<close>

section \<open>Stores of cells\<close>

locale cell_store =
  fixes valid :: "nat \<Rightarrow> 's \<Rightarrow> bool" and get :: "nat \<Rightarrow> 's \<Rightarrow> 'c" and put :: "nat \<Rightarrow> 'c \<Rightarrow> 's \<Rightarrow> 's"
  assumes get_put: "valid d s \<Longrightarrow> valid e s \<Longrightarrow> get e (put d c s) = (if d = e then c else get e s)"
    and valid_put: "valid e (put d c s) = valid e s"
begin

lemma valid_arrive: "valid d (arrive (\<lambda>d f s. put d (f (get d s)) s) us s) = valid d s"
proof (induction us arbitrary: s)
  case (Cons u us)
  then show ?case by (cases u) (simp add: valid_put)
qed simp

lemma get_arrive:
  assumes "valid d s" "\<forall>u\<in>set us. valid (fst u) s"
  shows "get d (arrive (\<lambda>d f s. put d (f (get d s)) s) us s) = fold (\<lambda>f. f) (arriving d us) (get d s)"
  using assms
proof (induction us arbitrary: s)
  case (Cons u us)
  obtain e f where u: "u = (e, f)" by (cases u)
  with Cons.IH [of "put e (f (get e s)) s"] Cons.prems show ?case by (simp add: valid_put get_put)
qed simp

end

text \<open>The window of \<open>D\<close> cells from \<open>base\<close> on, with a mark each, and with a factor each as well.\<close>

definition win_valid :: "nat \<Rightarrow> nat \<Rightarrow> nat \<Rightarrow> 'v list \<times> 'n list \<Rightarrow> bool" where
  "win_valid base D d s \<longleftrightarrow> base \<le> d \<and> d < base + D \<and> base + D \<le> length (fst s) \<and> length (snd s) = D"

definition win_get :: "nat \<Rightarrow> nat \<Rightarrow> 'v list \<times> 'n list \<Rightarrow> 'v \<times> 'n" where
  "win_get base d s = (fst s ! d, snd s ! (d - base))"

definition win_put :: "nat \<Rightarrow> nat \<Rightarrow> 'v \<times> 'n \<Rightarrow> 'v list \<times> 'n list \<Rightarrow> 'v list \<times> 'n list" where
  "win_put base d c s = ((fst s)[d := fst c], (snd s)[d - base := snd c])"

interpretation win: cell_store "win_valid base D" "win_get base" "win_put base" for base D
  by unfold_locales (auto simp: win_valid_def win_get_def win_put_def nth_list_update)

definition fac_valid :: "nat \<Rightarrow> nat \<Rightarrow> nat \<Rightarrow> ('v list \<times> 'n list) \<times> 'v list \<Rightarrow> bool" where
  "fac_valid base D d s \<longleftrightarrow> win_valid base D d (fst s) \<and> length (snd s) = length (fst (fst s))"

definition fac_get :: "nat \<Rightarrow> nat \<Rightarrow> ('v list \<times> 'n list) \<times> 'v list \<Rightarrow> ('v \<times> 'n) \<times> 'v" where
  "fac_get base d s = (win_get base d (fst s), snd s ! d)"

definition fac_put :: "nat \<Rightarrow> nat \<Rightarrow> ('v \<times> 'n) \<times> 'v \<Rightarrow> ('v list \<times> 'n list) \<times> 'v list \<Rightarrow> ('v list \<times> 'n list) \<times> 'v list" where
  "fac_put base d c s = (win_put base d (fst c) (fst s), (snd s)[d := snd c])"

interpretation fac: cell_store "fac_valid base D" "fac_get base" "fac_put base" for base D
proof
  show "fac_get base e (fac_put base d c s) = (if d = e then c else fac_get base e s)"
    if "fac_valid base D d s" "fac_valid base D e s" for d s e c
    using that by (cases c) (auto simp: fac_valid_def fac_get_def fac_put_def win.get_put, auto simp: win_valid_def)
  show "fac_valid base D e (fac_put base d c s) = fac_valid base D e s" for e d c s
    by (auto simp: fac_valid_def fac_put_def win_put_def win_valid_def)
qed

section \<open>The specification\<close>

text \<open>Pairs of a value and its weight.\<close>

definition weighted :: "(double \<times> double) list \<Rightarrow> double" where
  "weighted ps = (if ps = [] \<or> (\<exists>p\<in>set ps. fst p = None \<or> snd p = None) then None
     else Some (sum_list (map (\<lambda>p. the (fst p) * the (snd p)) ps)))"

definition is_here :: "double \<times> double \<Rightarrow> bool" where
  "is_here p \<longleftrightarrow> \<not> isNan (fst p)"

definition lost_weight :: "(double \<times> double) list \<Rightarrow> rat" where
  "lost_weight ps = sum_list (map (\<lambda>p. the (snd p)) (filter (\<lambda>p. \<not> is_here p) ps))"

definition weight_spec :: "bool \<Rightarrow> bool \<Rightarrow> (double \<times> double) list \<Rightarrow> double" where
  "weight_spec renormalize detect ps =
     (if renormalize then dquot (weighted (filter is_here ps)) (Some (1 - lost_weight ps))
      else if detect then weighted (filter is_here ps) else weighted ps)"

text \<open>When the weights sum up to one, a renormalised value is the mean of the present ones, by
  weight.\<close>

lemma weight_spec_mean:
  assumes "sum_list (map (\<lambda>p. the (snd p)) ps) = 1"
  shows "weight_spec True detect ps
    = dquot (weighted (filter is_here ps)) (Some (sum_list (map (\<lambda>p. the (snd p)) (filter is_here ps))))"
proof -
  have "sum_list (map (\<lambda>p. the (snd p)) ps) = sum_list (map (\<lambda>p. the (snd p)) (filter is_here ps)) + lost_weight ps"
    by (induction ps) (simp_all add: lost_weight_def)
  with assms have "1 - lost_weight ps = sum_list (map (\<lambda>p. the (snd p)) (filter is_here ps))" by simp
  then show ?thesis by (simp only: weight_spec_def if_True)
qed

definition weigh :: "bool \<Rightarrow> double \<times> double \<Rightarrow> double \<times> bool \<Rightarrow> double \<times> bool" where
  "weigh detect p = (\<lambda>(y, first). if detect \<and> \<not> is_here p then (y, first)
     else if first then (dmul (fst p) (snd p), False) else (dadd y (dmul (fst p) (snd p)), False))"

lemma weighted_snoc: "weighted (ps @ [p]) = (if ps = [] then dmul (fst p) (snd p) else dadd (weighted ps) (dmul (fst p) (snd p)))"
  by (cases "fst p"; cases "snd p") (auto simp: weighted_def dmul_def dadd_def)

lemma weighted_single: "weighted [p] = dmul (fst p) (snd p)"
  using weighted_snoc [of "[]" p] by simp

lemma fold_weigh:
  "fold (weigh detect) ps (None, True)
    = (let qs = if detect then filter is_here ps else ps in (weighted qs, qs = []))"
proof (induction ps rule: rev_induct)
  case (snoc p ps)
  then show ?case by (auto simp: weigh_def weighted_snoc weighted_single Let_def)
qed (simp add: weighted_def)

definition weigh_factor :: "double \<times> double \<Rightarrow> (double \<times> bool) \<times> double \<Rightarrow> (double \<times> bool) \<times> double" where
  "weigh_factor p = (\<lambda>(c, z). if is_here p then (weigh False p c, z) else (c, dsub z (snd p)))"

lemma fold_weigh_factor:
  assumes "\<forall>p\<in>set ps. snd p \<noteq> None"
  shows "fold weigh_factor ps ((None, True), Some 1)
    = ((weighted (filter is_here ps), filter is_here ps = []), Some (1 - lost_weight ps))"
  using assms
proof (induction ps rule: rev_induct)
  case (snoc p ps)
  then show ?case
    by (cases "snd p") (auto simp: weigh_factor_def weigh_def weighted_snoc weighted_single lost_weight_def dsub_def)
qed (simp add: weighted_def lost_weight_def)

section \<open>One slice\<close>

definition wt_pairs :: "weight_connector \<Rightarrow> (nat \<times> double) list list \<Rightarrow> bool" where
  "wt_pairs wt grp \<longleftrightarrow> wt_nWeights wt = map length grp \<and> wt_connector wt = map (int \<circ> fst) (concat grp)
     \<and> wt_weights wt = map snd (concat grp) \<and> wt_dstSize wt = length grp
     \<and> (\<forall>c\<in>set (concat grp). fst c < wt_srcSize wt)"

text \<open>The pairs of value and weight of block \<open>i\<close>, in slice \<open>r\<close> at cell \<open>l\<close>.\<close>

definition value_pair :: "nat \<Rightarrow> nat \<Rightarrow> 'v list \<Rightarrow> nat \<times> double \<Rightarrow> nat \<Rightarrow> nat \<Rightarrow> 'v \<times> double" where
  "value_pair S m input cw r l = (input ! (r * (S * m) + fst cw * m + l), snd cw)"

lemma wt_slice_arrive:
  assumes ok: "wt_pairs wt grp" "n = length grp" "rep * (wt_srcSize wt * m) \<le> length input" and r: "r < rep"
    and body: "\<And>i x w l s. i < n \<Longrightarrow> l < m \<Longrightarrow> P s \<Longrightarrow>
      body (int i * int m) x w l s = Inr (U (r * (n * m) + i * m + l) (cf (x, w)) s)"
    and P: "\<And>us s. P s \<Longrightarrow> P (arrive U us s)" "P s"
  shows "wt_slice body wt m input r s = Inr (arrive U (slice_ops n m r
    (\<lambda>i. map (\<lambda>cw r l. cf (value_pair (wt_srcSize wt) m input cw r l)) (grp ! i))) s)"
proof -
  let ?S = "wt_srcSize wt"
  let ?tb = "\<lambda>cw r l. cf (value_pair ?S m input cw r l)"
  have "wt_slice body wt m input r s
      = Inr (arrive U (slice_ops n m r (\<lambda>i. if grp ! i = [] then [] else map ?tb (grp ! i) @ [])) s)"
    unfolding wt_slice_def
  proof (rule grouped_slice [where P = P and B = "\<lambda>i (c, w). ofold (\<lambda>l s. obind (arr_get input
        (int r * int (?S * m) + int c * int m + int l)) (\<lambda>x. body (int i * int m) x w l s)) [0..<m]"])
    fix i k s assume "i < length grp" and k: "k < length (concat grp)"
    then have "arr_get (wt_connector wt) (int k) = Inr (int (fst (concat grp ! k)))"
      "arr_get (wt_weights wt) (int k) = Inr (snd (concat grp ! k))" using ok(1) by (simp_all add: wt_pairs_def)
    then show "obind (arr_get (wt_connector wt) (int k)) (\<lambda>c. obind (arr_get (wt_weights wt) (int k)) (\<lambda>w.
        ofold (\<lambda>l s. obind (arr_get input (int r * int (?S * m) + c * int m + int l)) (\<lambda>x.
                 body (int i * int m) x w l s)) [0..<m] s))
      = (case concat grp ! k of (c, w) \<Rightarrow> ofold (\<lambda>l s. obind (arr_get input
          (int r * int (?S * m) + int c * int m + int l)) (\<lambda>x. body (int i * int m) x w l s)) [0..<m]) s"
      by (simp add: case_prod_beta)
  next
    fix i cw s assume i: "i < n" and cw: "cw \<in> set (grp ! i)" and s: "P s"
    obtain c w where cw': "cw = (c, w)" by (cases cw)
    have c: "c < ?S" using ok(1) i cw cw' ok(2) by (fastforce simp: wt_pairs_def)
    have "ofold (\<lambda>l s. obind (arr_get input (int r * int (?S * m) + int c * int m + int l)) (\<lambda>x.
          body (int i * int m) x w l s)) [0..<m] s = Inr (arrive U (block_op n m r i (?tb (c, w))) s)"
    proof (rule block_arrive [where P = P])
      fix l s assume l: "l < m" "P s"
      have "r * (?S * m) + c * m + l < length input" using block_position(2) [OF r c l(1)] ok(3) by simp
      then show "obind (arr_get input (int r * int (?S * m) + int c * int m + int l)) (\<lambda>x. body (int i * int m) x w l s)
          = Inr (U (r * (n * m) + i * m + l) (?tb (c, w) r l) s)"
        by (simp only: block_position(1) [OF r c l(1)] arr_get_nat obind.simps body [OF i l] value_pair_def fst_conv snd_conv)
    qed (use P(1) s in auto)
    then show "(case cw of (c, w) \<Rightarrow> ofold (\<lambda>l s. obind (arr_get input
          (int r * int (?S * m) + int c * int m + int l)) (\<lambda>x. body (int i * int m) x w l s)) [0..<m]) s
        = Inr (arrive U (block_op n m r i (?tb cw)) s)" by (simp add: cw')
  qed (use ok P in \<open>auto simp: wt_pairs_def\<close>)
  moreover have "(\<lambda>i. if grp ! i = [] then [] else map ?tb (grp ! i) @ []) = (\<lambda>i. map ?tb (grp ! i))" by auto
  ultimately show ?thesis by simp
qed

section \<open>Slice by slice\<close>

lemma fill_slices:
  fixes look :: "'s \<Rightarrow> nat \<Rightarrow> 'c"
  assumes step: "\<And>r s. r < rep \<Longrightarrow> good s \<Longrightarrow> \<forall>k<D. look s (r * D + k) = init \<Longrightarrow>
      \<exists>t. F r s = Inr t \<and> good t \<and> (\<forall>k<D. look t (r * D + k) = v r k)
        \<and> (\<forall>d. \<not> (r * D \<le> d \<and> d < Suc r * D) \<longrightarrow> look t d = look s d)"
    and start: "good s0" "\<forall>d<rep * D. look s0 d = init"
  shows "\<exists>s. ofold F [0..<rep] s0 = Inr s \<and> good s \<and> (\<forall>r<rep. \<forall>k<D. look s (r * D + k) = v r k)"
proof -
  let ?P = "\<lambda>n s. good s \<and> (\<forall>r<n. \<forall>k<D. look s (r * D + k) = v r k) \<and> (\<forall>d. n * D \<le> d \<and> d < rep * D \<longrightarrow> look s d = init)"
  have "\<exists>s. ofold F [0..<rep] s0 = Inr s \<and> ?P rep s"
  proof (rule ofold_upto [where P = ?P])
    fix r s assume r: "r < rep" and s: "?P r s"
    have fit: "k < D \<Longrightarrow> r' \<le> r \<Longrightarrow> r' * D + k < rep * D" for r' k using r by (intro block_index_bounds) simp_all
    have "\<forall>k<D. look s (r * D + k) = init" using s fit [of _ r] by simp
    then obtain t where t: "F r s = Inr t" "good t" "\<forall>k<D. look t (r * D + k) = v r k"
      "\<forall>d. \<not> (r * D \<le> d \<and> d < Suc r * D) \<longrightarrow> look t d = look s d" using step [OF r] s by blast
    have "look t (r' * D + k) = v r' k" if "r' < r" "k < D" for r' k
    proof -
      have "r' * D + k < r * D" using that by (rule block_index_bounds)
      with t(4) s that show ?thesis by simp
    qed
    moreover have "look t d = init" if "Suc r * D \<le> d" "d < rep * D" for d
      using t(4) s that by simp
    ultimately show "\<exists>t. F r s = Inr t \<and> ?P (Suc r) t" using t by (auto simp: less_Suc_eq)
  qed (use start in simp)
  then show ?thesis by blast
qed

lemma cells_areI:
  assumes "length res = rep * (n * m)" "\<And>r k. r < rep \<Longrightarrow> k < n * m \<Longrightarrow> res ! (r * (n * m) + k) = v r (k div m) (k mod m)"
  shows "cells_are rep n m v res"
proof -
  have "res ! (r * (n * m) + i * m + l) = v r i l" if "r < rep" "i < n" "l < m" for r i l
    using assms(2) [of r "i * m + l"] block_index_bounds [OF that(2,3)] that by (simp add: add.assoc)
  with assms(1) show ?thesis by (simp add: cells_are_def)
qed

abbreviation win_at :: "nat \<Rightarrow> nat \<Rightarrow> ('v \<times> 'n \<Rightarrow> 'v \<times> 'n) \<Rightarrow> 'v list \<times> 'n list \<Rightarrow> 'v list \<times> 'n list" where
  "win_at base d f s \<equiv> win_put base d (f (win_get base d s)) s"

lemma win_sizes [simp]: "length (fst (arrive (win_at base) us s)) = length (fst s)"
    "length (snd (arrive (win_at base) us s)) = length (snd s)"
proof -
  have "length (fst (arrive (win_at base) us s)) = length (fst s) \<and> length (snd (arrive (win_at base) us s)) = length (snd s)"
  proof (induction us arbitrary: s)
    case (Cons u us)
    then show ?case by (cases u) (simp add: win_put_def)
  qed simp
  then show "length (fst (arrive (win_at base) us s)) = length (fst s)"
    "length (snd (arrive (win_at base) us s)) = length (snd s)" by simp_all
qed

lemma win_outside: "\<forall>u\<in>set us. fst u \<noteq> e \<Longrightarrow> fst (arrive (win_at base) us s) ! e = fst s ! e"
proof (induction us arbitrary: s)
  case (Cons u us)
  then show ?case by (cases u) (simp add: win_put_def)
qed simp

lemma slice_window:
  assumes "u \<in> set (slice_ops n m r ts)"
  shows "r * (n * m) \<le> fst u" "fst u < r * (n * m) + n * m"
  using slice_ops_bounds [OF assms] by auto

lemma win_inside:
  assumes "length (fst s) = rep * (n * m)" "length (snd s) = n * m" "r < rep" "k < n * m"
  shows "fst (arrive (win_at (r * (n * m))) (slice_ops n m r ts) s) ! (r * (n * m) + k)
    = fst (fold (\<lambda>t. t r (k mod m)) (ts (k div m)) (fst s ! (r * (n * m) + k), snd s ! k))"
proof -
  let ?B = "r * (n * m)" and ?us = "slice_ops n m r ts"
  have fit: "?B + n * m \<le> rep * (n * m)"
    using mult_le_mono1 [of "Suc r" rep "n * m"] assms(3) by simp
  have valid: "win_valid ?B (n * m) d s" if "?B \<le> d" "d < ?B + n * m" for d
    using that assms(1,2) fit by (simp add: win_valid_def)
  have m: "k div m < n" "k mod m < m" "k = k div m * m + k mod m"
    using assms(4) by (auto simp: less_mult_imp_div_less intro!: mod_less_divisor gr0I)
  have arr: "arriving (?B + k) ?us = map (\<lambda>t. t r (k mod m)) (ts (k div m))"
    using arriving_slice_ops [OF m(1,2), of r ts] m(3) by (simp add: add.assoc)
  have "win_get ?B (?B + k) (arrive (win_at ?B) ?us s) = fold (\<lambda>f. f) (arriving (?B + k) ?us) (win_get ?B (?B + k) s)"
    by (rule win.get_arrive [where D = "n * m"]) (use assms(4) valid slice_window [of _ n m r ts] in auto)
  then have "win_get ?B (?B + k) (arrive (win_at ?B) ?us s)
      = fold (\<lambda>t. t r (k mod m)) (ts (k div m)) (fst s ! (?B + k), snd s ! k)"
    by (simp add: arr fold_map comp_def win_get_def)
  then show ?thesis by (simp add: win_get_def prod_eq_iff)
qed

section \<open>The transfers\<close>

lemma weigh_cell_eq:
  assumes "r < rep" "i < n" "l < m" "length (fst s) = rep * (n * m)" "length (snd s) = n * m" "\<not> (detect \<and> isNan x)"
  shows "weigh_cell x w (int r * int (n * m) + int i * int m + int l) (int i * int m + int l) s
    = Inr (win_at (r * (n * m)) (r * (n * m) + i * m + l) (weigh detect (x, w)) s)"
proof -
  obtain out marks where s: "s = (out, marks)" by (cases s)
  have q: "r * (n * m) + i * m + l < length out" "i * m + l < length marks"
    using block_position(2) [OF assms(1-3)] block_index_bounds [OF assms(2,3)] assms(4,5) by (simp_all add: s)
  have p: "int i * int m + int l = int (i * m + l)" "r * (n * m) + i * m + l - r * (n * m) = i * m + l" by simp_all
  have "\<not> marks ! (i * m + l) \<Longrightarrow> marks[i * m + l := False] = marks" by (metis (full_types) list_update_id)
  then show ?thesis
    using q assms(6) unfolding s block_position(1) [OF assms(1-3)] p(1) weigh_cell_def
    by (simp only: prod.case arr_get_nat arr_set_nat obind.simps omap_simps if_distrib)
      (auto simp: win_put_def win_get_def weigh_def is_here_def add.assoc)
qed

text \<open>The pairs that reach a cell, by its position in the slice.\<close>

definition pairs_at :: "weight_connector \<Rightarrow> (nat \<times> double) list list \<Rightarrow> nat \<Rightarrow> double list \<Rightarrow> nat \<Rightarrow> nat \<Rightarrow> nat \<Rightarrow> (double \<times> double) list" where
  "pairs_at wt grp m input r i l = map (\<lambda>cw. value_pair (wt_srcSize wt) m input cw r l) (grp ! i)"

lemma wt_plain:
  assumes ok: "wt_pairs wt grp" "rep * (wt_srcSize wt * m) \<le> length input" "\<not> wt_renormalize wt"
  shows "\<exists>res. wt_transfer wt rep m input = Inr res
    \<and> cells_are rep (length grp) m (\<lambda>r i l. weight_spec False (wt_detect wt) (pairs_at wt grp m input r i l)) res"
proof -
  let ?n = "length grp" and ?dt = "wt_detect wt"
  let ?D = "?n * m"
  have dst: "wt_dstSize wt = ?n" using ok(1) by (simp add: wt_pairs_def)
  let ?body = "\<lambda>r b x w l s. if ?dt \<and> isNan x then Inr s else weigh_cell x w (int r * int ?D + b + int l) (b + int l) s"
  let ?F = "\<lambda>r output. omap fst (wt_slice (?body r) wt m input r (output, replicate ?D True))"
  let ?v = "\<lambda>r k. weight_spec False ?dt (pairs_at wt grp m input r (k div m) (k mod m))"
  have "\<exists>res. ofold ?F [0..<rep] (replicate (rep * ?D) None) = Inr res \<and> length res = rep * ?D
      \<and> (\<forall>r<rep. \<forall>k<?D. res ! (r * ?D + k) = ?v r k)"
  proof (rule fill_slices [where look = "(!)" and init = None])
    fix r and out :: "double list" assume r: "r < rep" and out: "length out = rep * ?D" "\<forall>k<?D. out ! (r * ?D + k) = None"
    let ?ts = "\<lambda>i. map (\<lambda>cw r l. weigh ?dt (value_pair (wt_srcSize wt) m input cw r l)) (grp ! i)"
    let ?s = "arrive (win_at (r * ?D)) (slice_ops ?n m r ?ts) (out, replicate ?D True)"
    have run: "wt_slice (?body r) wt m input r (out, replicate ?D True) = Inr ?s"
    proof (rule wt_slice_arrive [OF ok(1) refl ok(2) r, where P = "\<lambda>s. length (fst s) = rep * ?D \<and> length (snd s) = ?D"])
      fix i x w l and s :: "double list \<times> bool list"
      assume i: "i < ?n" "l < m" and s: "length (fst s) = rep * ?D \<and> length (snd s) = ?D"
      show "?body r (int i * int m) x w l s = Inr (win_at (r * ?D) (r * ?D + i * m + l) (weigh ?dt (x, w)) s)"
      proof (cases "?dt \<and> isNan x")
        case True
        then show ?thesis by (simp add: weigh_def is_here_def win_put_def win_get_def case_prod_beta)
      next
        case False
        show ?thesis unfolding if_not_P [OF False] by (rule weigh_cell_eq [OF r i _ _ False]) (use s in simp_all)
      qed
    qed (use out in simp_all)
    have "fst ?s ! (r * ?D + k) = ?v r k" if k: "k < ?D" for k
    proof -
      have "fst ?s ! (r * ?D + k) = fst (fold (weigh ?dt) (pairs_at wt grp m input r (k div m) (k mod m)) (None, True))"
        using win_inside [where s = "(out, replicate ?D True)", OF _ _ r k, of ?ts] out k
        by (simp add: fold_map comp_def pairs_at_def)
      then show ?thesis by (auto simp: fold_weigh Let_def weight_spec_def)
    qed
    moreover have "fst ?s ! d = out ! d" if "\<not> (r * ?D \<le> d \<and> d < Suc r * ?D)" for d
      using win_outside [of "slice_ops ?n m r ?ts" d] slice_window [of _ ?n m r ?ts] that by fastforce
    ultimately show "\<exists>t. ?F r out = Inr t \<and> length t = rep * ?D \<and> (\<forall>k<?D. t ! (r * ?D + k) = ?v r k)
        \<and> (\<forall>d. \<not> (r * ?D \<le> d \<and> d < Suc r * ?D) \<longrightarrow> t ! d = out ! d)"
      using run out by simp
  qed simp_all
  then obtain res where res: "ofold ?F [0..<rep] (replicate (rep * ?D) None) = Inr res" "length res = rep * ?D"
    "\<forall>r<rep. \<forall>k<?D. res ! (r * ?D + k) = ?v r k" by blast
  have "cells_are rep ?n m (\<lambda>r i l. weight_spec False ?dt (pairs_at wt grp m input r i l)) res"
    by (rule cells_areI) (use res(2,3) in simp_all)
  moreover have "wt_transfer wt rep m input = ofold ?F [0..<rep] (replicate (rep * ?D) None)"
    unfolding wt_transfer_def Let_def dst if_not_P [OF ok(3)] ..
  ultimately show ?thesis using res(1) by auto
qed

text \<open>Renormalisation: the store has a factor for each cell of the output.\<close>

abbreviation fac_at :: "nat \<Rightarrow> nat \<Rightarrow> (('v \<times> 'n) \<times> 'v \<Rightarrow> ('v \<times> 'n) \<times> 'v) \<Rightarrow> ('v list \<times> 'n list) \<times> 'v list \<Rightarrow> ('v list \<times> 'n list) \<times> 'v list" where
  "fac_at base d f s \<equiv> fac_put base d (f (fac_get base d s)) s"

definition fac_sizes :: "nat \<Rightarrow> nat \<Rightarrow> ('v list \<times> 'n list) \<times> 'v list \<Rightarrow> bool" where
  "fac_sizes N D s \<longleftrightarrow> length (fst (fst s)) = N \<and> length (snd (fst s)) = D \<and> length (snd s) = N"

lemma fac_sizes_arrive: "fac_sizes N D (arrive (fac_at base) us s) = fac_sizes N D s"
proof (induction us arbitrary: s)
  case (Cons u us)
  then show ?case by (cases u) (simp add: fac_sizes_def fac_put_def win_put_def)
qed simp

lemma fac_outside:
  "\<forall>u\<in>set us. fst u \<noteq> e \<Longrightarrow> fst (fst (arrive (fac_at base) us s)) ! e = fst (fst s) ! e
    \<and> snd (arrive (fac_at base) us s) ! e = snd s ! e"
proof (induction us arbitrary: s)
  case (Cons u us)
  then show ?case by (cases u) (simp add: fac_put_def win_put_def)
qed simp

lemma fac_inside:
  assumes "fac_sizes (rep * (n * m)) (n * m) s" "r < rep" "k < n * m"
  shows "fac_get (r * (n * m)) (r * (n * m) + k) (arrive (fac_at (r * (n * m))) (slice_ops n m r ts) s)
    = fold (\<lambda>t. t r (k mod m)) (ts (k div m)) (fac_get (r * (n * m)) (r * (n * m) + k) s)"
proof -
  let ?B = "r * (n * m)" and ?us = "slice_ops n m r ts"
  have fit: "?B + n * m \<le> rep * (n * m)"
    using mult_le_mono1 [of "Suc r" rep "n * m"] assms(2) by simp
  have valid: "fac_valid ?B (n * m) d s" if "?B \<le> d" "d < ?B + n * m" for d
    using that assms(1) fit by (simp add: fac_valid_def win_valid_def fac_sizes_def)
  have m: "k div m < n" "k mod m < m" "k = k div m * m + k mod m"
    using assms(3) by (auto simp: less_mult_imp_div_less intro!: mod_less_divisor gr0I)
  have arr: "arriving (?B + k) ?us = map (\<lambda>t. t r (k mod m)) (ts (k div m))"
    using arriving_slice_ops [OF m(1,2), of r ts] m(3) by (simp add: add.assoc)
  have "fac_get ?B (?B + k) (arrive (fac_at ?B) ?us s) = fold (\<lambda>f. f) (arriving (?B + k) ?us) (fac_get ?B (?B + k) s)"
    by (rule fac.get_arrive [where D = "n * m"]) (use assms(3) valid slice_window [of _ n m r ts] in auto)
  then show ?thesis by (simp add: arr fold_map comp_def)
qed

text \<open>The division at the end of a slice.\<close>

lemma divide_slice:
  assumes "r < rep" "length out = rep * D" "length ren = rep * D"
  shows "\<exists>out'. ofold (\<lambda>i output. obind (arr_get output (int r * int D + int i)) (\<lambda>y.
        obind (arr_get ren (int r * int D + int i)) (\<lambda>z.
        arr_set output (int r * int D + int i) (dquot y z)))) [0..<D] out = Inr out'
    \<and> length out' = rep * D \<and> (\<forall>k<D. out' ! (r * D + k) = dquot (out ! (r * D + k)) (ren ! (r * D + k)))
    \<and> (\<forall>d. \<not> (r * D \<le> d \<and> d < Suc r * D) \<longrightarrow> out' ! d = out ! d)"
proof -
  let ?f = "\<lambda>i output. obind (arr_get output (int r * int D + int i)) (\<lambda>y.
        obind (arr_get ren (int r * int D + int i)) (\<lambda>z. arr_set output (int r * int D + int i) (dquot y z)))"
  let ?P = "\<lambda>i o'. length o' = rep * D \<and> (\<forall>k<i. o' ! (r * D + k) = dquot (out ! (r * D + k)) (ren ! (r * D + k)))
     \<and> (\<forall>d. \<not> (r * D \<le> d \<and> d < r * D + i) \<longrightarrow> o' ! d = out ! d)"
  have "\<exists>t. ofold ?f [0..<D] out = Inr t \<and> ?P D t"
  proof (rule ofold_upto [where P = ?P])
    fix i o' assume i: "i < D" and o': "?P i o'"
    have q: "r * D + i < length o'" "r * D + i < length ren"
      using block_index_bounds [OF assms(1) i] o' assms(3) by simp_all
    have p: "int r * int D + int i = int (r * D + i)" by simp
    have "?f i o' = Inr (o'[r * D + i := dquot (o' ! (r * D + i)) (ren ! (r * D + i))])"
      unfolding p by (simp only: arr_get_nat [OF q(1)] arr_get_nat [OF q(2)] arr_set_nat [OF q(1)] obind.simps)
    moreover have "?P (Suc i) (o'[r * D + i := dquot (o' ! (r * D + i)) (ren ! (r * D + i))])"
      using o' q by (auto simp: nth_list_update less_Suc_eq)
    ultimately show "\<exists>t. ?f i o' = Inr t \<and> ?P (Suc i) t" by blast
  qed (use assms in simp)
  then show ?thesis by (simp add: add.commute)
qed

lemma weigh_factor_eq:
  assumes "r < rep" "i < n" "l < m" "fac_sizes (rep * (n * m)) (n * m) s"
  shows "(case s of ((output, isFirst), renorm) \<Rightarrow>
      if \<not> isNan x then omap (\<lambda>s. (s, renorm))
          (weigh_cell x w (int r * int (n * m) + int i * int m + int l) (int i * int m + int l) (output, isFirst))
      else obind (arr_get renorm (int r * int (n * m) + int i * int m + int l)) (\<lambda>y.
           omap (\<lambda>renorm. ((output, isFirst), renorm)) (arr_set renorm (int r * int (n * m) + int i * int m + int l) (dsub y w))))
    = Inr (fac_at (r * (n * m)) (r * (n * m) + i * m + l) (weigh_factor (x, w)) s)"
proof -
  obtain out marks ren where s: "s = ((out, marks), ren)" by (metis prod.exhaust)
  have len: "length (fst (out, marks)) = rep * (n * m)" "length (snd (out, marks)) = n * m" "length ren = rep * (n * m)"
    using assms(4) by (simp_all add: s fac_sizes_def)
  have q: "r * (n * m) + i * m + l < length ren" using block_position(2) [OF assms(1-3)] len(3) by simp
  show ?thesis
  proof (cases "isNan x")
    case True
    have keep: "xs[d := xs ! d] = xs" for xs :: "'z list" and d by (rule list_update_id)
    from True show ?thesis unfolding s block_position(1) [OF assms(1-3)] prod.case
      by (simp only: arr_get_nat [OF q] arr_set_nat [OF q] obind.simps omap_simps)
        (simp add: fac_put_def fac_get_def win_put_def win_get_def weigh_factor_def is_here_def)
  next
    case False
    have "weigh_cell x w (int r * int (n * m) + int i * int m + int l) (int i * int m + int l) (out, marks)
        = Inr (win_at (r * (n * m)) (r * (n * m) + i * m + l) (weigh False (x, w)) (out, marks))"
      by (rule weigh_cell_eq [OF assms(1-3) len(1,2)]) simp
    with False show ?thesis
      by (simp add: s fac_put_def fac_get_def win_get_def weigh_factor_def is_here_def del: of_nat_mult)
  qed
qed

lemma wt_renormalized:
  assumes ok: "wt_pairs wt grp" "rep * (wt_srcSize wt * m) \<le> length input" "wt_renormalize wt"
    and w: "\<forall>cw\<in>set (concat grp). snd cw \<noteq> None"
  shows "\<exists>res. wt_transfer wt rep m input = Inr res
    \<and> cells_are rep (length grp) m (\<lambda>r i l. weight_spec True (wt_detect wt) (pairs_at wt grp m input r i l)) res"
proof -
  let ?n = "length grp"
  let ?D = "?n * m"
  have dst: "wt_dstSize wt = ?n" using ok(1) by (simp add: wt_pairs_def)
  let ?body = "\<lambda>r b x w l ((output, isFirst), renorm).
      if \<not> isNan x then omap (\<lambda>s. (s, renorm)) (weigh_cell x w (int r * int ?D + b + int l) (b + int l) (output, isFirst))
      else obind (arr_get renorm (int r * int ?D + b + int l)) (\<lambda>y.
           omap (\<lambda>renorm. ((output, isFirst), renorm)) (arr_set renorm (int r * int ?D + b + int l) (dsub y w)))"
  let ?div = "\<lambda>r renorm output. ofold (\<lambda>i output. obind (arr_get output (int r * int ?D + int i)) (\<lambda>y.
      obind (arr_get renorm (int r * int ?D + int i)) (\<lambda>z. arr_set output (int r * int ?D + int i) (dquot y z)))) [0..<?D] output"
  let ?F = "\<lambda>r (output, renorm). obind (wt_slice (?body r) wt m input r ((output, replicate ?D True), renorm))
      (\<lambda>((output, isFirst), renorm). omap (\<lambda>output. (output, renorm)) (?div r renorm output))"
  let ?v = "\<lambda>r k. let ps = pairs_at wt grp m input r (k div m) (k mod m)
      in (weight_spec True (wt_detect wt) ps, Some (1 - lost_weight ps))"
  have "\<exists>s. ofold ?F [0..<rep] (replicate (rep * ?D) None, replicate (rep * ?D) (Some 1)) = Inr s
      \<and> (length (fst s) = rep * ?D \<and> length (snd s) = rep * ?D) \<and> (\<forall>r<rep. \<forall>k<?D. (fst s ! (r * ?D + k), snd s ! (r * ?D + k)) = ?v r k)"
  proof (rule fill_slices [where look = "\<lambda>s d. (fst s ! d, snd s ! d)" and init = "(None, Some 1)"])
    fix r and s :: "double list \<times> double list" assume r: "r < rep"
      and s: "length (fst s) = rep * ?D \<and> length (snd s) = rep * ?D" "\<forall>k<?D. (fst s ! (r * ?D + k), snd s ! (r * ?D + k)) = (None, Some 1)"
    obtain out ren where s': "s = (out, ren)" by (cases s)
    let ?ts = "\<lambda>i. map (\<lambda>cw r l. weigh_factor (value_pair (wt_srcSize wt) m input cw r l)) (grp ! i)"
    let ?s0 = "((out, replicate ?D True), ren)"
    let ?t = "arrive (fac_at (r * ?D)) (slice_ops ?n m r ?ts) ?s0"
    have sz: "fac_sizes (rep * ?D) ?D ?s0" using s(1) by (simp add: s' fac_sizes_def)
    have run: "wt_slice (?body r) wt m input r ?s0 = Inr ?t"
    proof (rule wt_slice_arrive [OF ok(1) refl ok(2) r, where P = "fac_sizes (rep * ?D) ?D"])
      fix i x w l and s :: "(double list \<times> bool list) \<times> double list"
      assume i: "i < ?n" "l < m" and s: "fac_sizes (rep * ?D) ?D s"
      show "?body r (int i * int m) x w l s = Inr (fac_at (r * ?D) (r * ?D + i * m + l) (weigh_factor (x, w)) s)"
        using weigh_factor_eq [OF r i s, of x w] by (simp only: case_prod_beta)
    qed (use sz in \<open>simp_all add: fac_sizes_arrive\<close>)
    have in_cell: "(fst (fst ?t) ! (r * ?D + k), snd ?t ! (r * ?D + k))
        = (weighted (filter is_here (pairs_at wt grp m input r (k div m) (k mod m))),
           Some (1 - lost_weight (pairs_at wt grp m input r (k div m) (k mod m))))" if k: "k < ?D" for k
    proof -
      let ?ps = "pairs_at wt grp m input r (k div m) (k mod m)"
      have "k div m < ?n" using k by (simp add: less_mult_imp_div_less)
      then have "\<forall>p\<in>set ?ps. snd p \<noteq> None" using w by (auto simp: pairs_at_def value_pair_def)
      then have "fold weigh_factor ?ps ((None, True), Some 1)
          = ((weighted (filter is_here ?ps), filter is_here ?ps = []), Some (1 - lost_weight ?ps))" by (rule fold_weigh_factor)
      moreover have "fac_get (r * ?D) (r * ?D + k) ?t = fold weigh_factor ?ps ((None, True), Some 1)"
        using fac_inside [OF sz r k, of ?ts] s(2) k by (simp add: s' fold_map comp_def pairs_at_def fac_get_def win_get_def)
      ultimately show ?thesis by (simp add: fac_get_def win_get_def)
    qed
    have outside: "fst (fst ?t) ! d = out ! d \<and> snd ?t ! d = ren ! d" if "\<not> (r * ?D \<le> d \<and> d < Suc r * ?D)" for d
      using fac_outside [of "slice_ops ?n m r ?ts" d] slice_window [of _ ?n m r ?ts] that by fastforce
    have len: "length (fst (fst ?t)) = rep * ?D" "length (snd ?t) = rep * ?D"
      using sz fac_sizes_arrive [of "rep * ?D" ?D "r * ?D" "slice_ops ?n m r ?ts" ?s0] unfolding fac_sizes_def by blast+
    from divide_slice [OF r len] obtain out' where d: "?div r (snd ?t) (fst (fst ?t)) = Inr out'" "length out' = rep * ?D"
      "\<forall>k<?D. out' ! (r * ?D + k) = dquot (fst (fst ?t) ! (r * ?D + k)) (snd ?t ! (r * ?D + k))"
      "\<forall>d. \<not> (r * ?D \<le> d \<and> d < Suc r * ?D) \<longrightarrow> out' ! d = fst (fst ?t) ! d" by blast
    have "?F r s = Inr (out', snd ?t)" using run d(1) by (simp add: s' case_prod_beta)
    moreover have "(out' ! (r * ?D + k), snd ?t ! (r * ?D + k)) = ?v r k" if "k < ?D" for k
      using in_cell [OF that] d(3) that by (simp add: weight_spec_def Let_def)
    ultimately show "\<exists>t. ?F r s = Inr t \<and> (length (fst t) = rep * ?D \<and> length (snd t) = rep * ?D)
        \<and> (\<forall>k<?D. (fst t ! (r * ?D + k), snd t ! (r * ?D + k)) = ?v r k)
        \<and> (\<forall>d. \<not> (r * ?D \<le> d \<and> d < Suc r * ?D) \<longrightarrow> (fst t ! d, snd t ! d) = (fst s ! d, snd s ! d))"
      using d(2,4) len(2) outside by (intro exI [where x = "(out', snd ?t)"]) (simp add: s')
  qed simp_all
  then obtain s where res: "ofold ?F [0..<rep] (replicate (rep * ?D) None, replicate (rep * ?D) (Some 1)) = Inr s"
    "length (fst s) = rep * ?D" "\<forall>r<rep. \<forall>k<?D. (fst s ! (r * ?D + k), snd s ! (r * ?D + k)) = ?v r k" by blast
  have "cells_are rep ?n m (\<lambda>r i l. weight_spec True (wt_detect wt) (pairs_at wt grp m input r i l)) (fst s)"
    by (rule cells_areI) (use res(2,3) in \<open>simp_all add: Let_def\<close>)
  moreover have "wt_transfer wt rep m input = omap fst (ofold ?F [0..<rep] (replicate (rep * ?D) None, replicate (rep * ?D) (Some 1)))"
    unfolding wt_transfer_def Let_def dst if_P [OF ok(3)] ..
  ultimately show ?thesis using res(1) by auto
qed

end
