(* ===== verification/IndexClaims.thy ===== *)
theory IndexClaims
  imports WeightProps
begin

text \<open>The properties of the transformation connectors.\<close>

section \<open>Views without holes\<close>

definition view_shows :: "local_view \<Rightarrow> nat list \<Rightarrow> bool" where
  "view_shows v gs \<longleftrightarrow> lv_ok v \<and> lv_cells v = map Some gs"

lemma view_shows_indices: "view_shows v gs \<Longrightarrow> lv_getGlobalIndexView junk v = Inr gs"
  unfolding lv_getGlobalIndexView_def
  by (rule index_view_front [where n = 0]) (simp_all add: view_shows_def lv_ok_def lv_cells_def)

text \<open>The positions of the sources of a destination.\<close>

definition sources_of :: "nat list \<Rightarrow> (int \<rightharpoonup> int list) \<Rightarrow> nat \<Rightarrow> nat list" where
  "sources_of srcG indexMap g = (case indexMap (int_of_size g) of None \<Rightarrow> [] | Some vs \<Rightarrow> map (source_at srcG) vs)"

lemma rt_groups_sources: "rt_groups srcG dstG indexMap = map (sources_of srcG indexMap) dstG"
  by (simp add: rt_groups_def sources_of_def)

text \<open>Between distinct indices the position of an index that fits its types is where it stands.\<close>

lemma source_at_nth:
  assumes "distinct gs" "p < length gs" "gs ! p < 2 ^ 31"
  shows "source_at gs (int (gs ! p)) = p"
proof -
  have s: "size_of_int (int (gs ! p)) = gs ! p" using assms(3) by (simp add: size_of_int_def)
  have "position_of (map Some gs) (gs ! p) \<noteq> None" using assms(2) by (auto simp: position_of_None)
  then obtain i where i: "position_of (map Some gs) (gs ! p) = Some i" by blast
  with position_of_Some [OF i] assms(1,2) have "i = p" by (auto simp: nth_eq_iff_index_eq)
  with s i show ?thesis by (simp add: source_at_def)
qed

section \<open>Reductions\<close>

lemma reduce_connector_built:
  assumes "view_shows src srcG" "view_shows dst dstG" "srcG \<noteq> []" "rd \<in> {RSum, RMin, RMax, RAverage}"
  shows "\<exists>rt. newReduceConnector junk src dst rd indexMap detect = Inr rt
    \<and> rt_ok rt (map (sources_of srcG indexMap) dstG) \<and> rt_srcSize rt = length srcG
    \<and> rt_detect rt = detect \<and> rt_transfer_op rt = rd"
  using assms rt_computed [OF assms(3)]
  by (auto simp: newReduceConnector_def view_shows_indices rt_groups_sources)

text \<open>C22: A reduction between two views, with missing values looked for, gives each cell of each slice
  of the destination the sum, minimum, maximum or mean of the present values of its sources, and
  the missing value when none is present or the index map names no source.\<close>

theorem reduce_cells:
  assumes "view_shows src srcG" "view_shows dst dstG" "srcG \<noteq> []" "rd \<in> {RSum, RMin, RMax, RAverage}"
    and "rep * (length srcG * m) \<le> length input"
  shows "\<exists>rt res. newReduceConnector junk src dst rd indexMap True = Inr rt \<and> rt_transfer rt rep m input = Inr res
    \<and> cells_are rep (length dstG) m (\<lambda>r i l. op_spec (red_kind rd)
        (source_values (length srcG) m input (sources_of srcG indexMap (dstG ! i)) r l)) res"
proof -
  obtain rt where rt: "newReduceConnector junk src dst rd indexMap True = Inr rt"
    "rt_ok rt (map (sources_of srcG indexMap) dstG)" "rt_srcSize rt = length srcG" "rt_detect rt" "rt_transfer_op rt = rd"
    using reduce_connector_built [OF assms(1-4)] by blast
  let ?grp = "map (sources_of srcG indexMap) dstG"
  have len: "rep * (rt_srcSize rt * m) \<le> length input" using assms(5) rt(3) by simp
  have "\<exists>res. rt_transfer rt rep m input = Inr res \<and> cells_are rep (length ?grp) m
      (\<lambda>r i l. op_spec (red_kind rd) (source_values (rt_srcSize rt) m input (?grp ! i) r l)) res"
  proof (cases "rd = RAverage")
    case True
    then show ?thesis using rt_average_detects [OF rt(2) len rt(4)] rt(5) by (simp add: rt_transfer_def)
  next
    case False
    then have three: "rd \<in> {RSum, RMin, RMax}" using assms(4) by auto
    then have "rt_transfer rt rep m input = rt_transfer_with (red_fn rd) rt rep m input"
      by (auto simp: rt_transfer_def rt(5) rt_transferSum_def rt_transferMin_def rt_transferMax_def red_fn_def)
    with rt_with_detects [OF rt(2) len rt(4) three] show ?thesis by simp
  qed
  then show ?thesis using rt(1,3) by (auto simp: cells_are_def)
qed

text \<open>Three source points 10, 11, 12; the first destination takes all, the second none.\<close>

definition demo_src :: local_view where
  "demo_src = \<lparr>lv_index = [0, 1, 2], lv_size = 3, lv_globalIndex = [10, 11, 12], lv_localSize = 3,
     lv_globalSize = 3, lv_localRank = 0\<rparr>"

definition demo_dst :: local_view where
  "demo_dst = \<lparr>lv_index = [0, 1], lv_size = 2, lv_globalIndex = [0, 1], lv_localSize = 2,
     lv_globalSize = 2, lv_localRank = 0\<rparr>"

lemma demo_views: "view_shows demo_src [10, 11, 12]" "view_shows demo_dst [0, 1]"
  by (simp_all add: view_shows_def lv_ok_def lv_cells_def cells_def demo_src_def demo_dst_def)

lemma demo_sources: "sources_of [10, 11, 12] [0 \<mapsto> [10, 11, 12]] 0 = [0, 1, 2]"
    "sources_of [10, 11, 12] [0 \<mapsto> [10, 11, 12]] 1 = []"
  by (simp_all add: sources_of_def int_of_size_def source_at_def position_of_def size_of_int_def upt_rec)

theorem reduce_cells_witness:
  "\<exists>rt res. newReduceConnector (\<lambda>_. 0) demo_src demo_dst RAverage [0 \<mapsto> [10, 11, 12]] True = Inr rt
    \<and> rt_transfer rt 1 1 [Some 4, None, Some 6] = Inr res \<and> res ! 0 = Some 5 \<and> res ! 1 = None"
proof -
  from reduce_cells [OF demo_views, of RAverage 1 1 "[Some 4, None, Some 6]" "\<lambda>_. 0" "[0 \<mapsto> [10, 11, 12]]"]
  obtain rt res where r: "newReduceConnector (\<lambda>_. 0) demo_src demo_dst RAverage [0 \<mapsto> [10, 11, 12]] True = Inr rt"
    "rt_transfer rt 1 1 [Some 4, None, Some 6] = Inr res"
    "cells_are 1 (length [0::nat, 1]) 1 (\<lambda>r i l. op_spec (red_kind RAverage) (source_values (length [10::nat, 11, 12]) 1
        [Some 4, None, Some 6] (sources_of [10, 11, 12] [0 \<mapsto> [10, 11, 12]] ([0, 1] ! i)) r l)) res" by auto
  have "res ! (0 * (2 * 1) + 0 * 1 + 0) = Some 5" "res ! (0 * (2 * 1) + 1 * 1 + 0) = None"
    using r(3) unfolding cells_are_def
    by (simp_all add: demo_sources source_values_def red_kind_def op_spec_def del: One_nat_def)
  with r(1,2) show ?thesis by auto
qed

lemma plain_extreme:
  assumes "rd \<in> {RMin, RMax}" "None \<notin> set xs" "xs \<noteq> []"
  shows "fold (\<lambda>x y. red_fn rd y x) xs (Some a)
    = Some (if rd = RMin then min a (Min (the ` set xs)) else max a (Max (the ` set xs)))"
  using assms(2,3)
proof (induction xs arbitrary: a)
  case (Cons x xs)
  then obtain b where x: "x = Some b" by (cases x) auto
  have s: "red_fn rd (Some a) x = Some (if rd = RMin then min a b else max a b)"
    using assms(1) by (auto simp: x red_fn_def dmin_def dmax_def dless_def min_def max_def)
  show ?case
  proof (cases "xs = []")
    case False
    with Cons.IH [of "if rd = RMin then min a b else max a b"] Cons.prems show ?thesis
      by (simp add: s) (simp add: x min.assoc max.assoc)
  qed (use s in \<open>simp add: x\<close>)
qed simp

lemma source_values_present:
  assumes "srcG \<noteq> []" "rep * (length srcG * m) \<le> length input" "None \<notin> set input" "r < rep" "l < m"
  shows "None \<notin> set (source_values (length srcG) m input (sources_of srcG indexMap g) r l)"
proof -
  have "input ! (r * (length srcG * m) + c * m + l) \<noteq> None" if "c \<in> set (sources_of srcG indexMap g)" for c
  proof -
    have "c < length srcG" using that source_at_less [OF assms(1)] by (auto simp: sources_of_def split: option.splits)
    from block_position(2) [OF assms(4) this assms(5)] assms(2) have "r * (length srcG * m) + c * m + l < length input" by simp
    with assms(3) show ?thesis by (metis nth_mem)
  qed
  then show ?thesis by (force simp: source_values_def)
qed

text \<open>Without looking for missing values the output starts at zero, so the minimum (maximum) a
  cell gets is that of its sources and zero: of positive values the minimum is always zero.\<close>

theorem undetected_extremes:
  assumes "view_shows src srcG" "view_shows dst dstG" "srcG \<noteq> []" "rd \<in> {RMin, RMax}"
    and "rep * (length srcG * m) \<le> length input" "None \<notin> set input"
  shows "\<exists>rt res. newReduceConnector junk src dst rd indexMap False = Inr rt \<and> rt_transfer rt rep m input = Inr res
    \<and> cells_are rep (length dstG) m (\<lambda>r i l.
        let xs = source_values (length srcG) m input (sources_of srcG indexMap (dstG ! i)) r l
        in if xs = [] then None
           else Some (if rd = RMin then min 0 (Min (the ` set xs)) else max 0 (Max (the ` set xs)))) res"
proof -
  have rd: "rd \<in> {RSum, RMin, RMax, RAverage}" using assms(4) by auto
  obtain rt where rt: "newReduceConnector junk src dst rd indexMap False = Inr rt"
    "rt_ok rt (map (sources_of srcG indexMap) dstG)" "rt_srcSize rt = length srcG" "\<not> rt_detect rt" "rt_transfer_op rt = rd"
    using reduce_connector_built [OF assms(1-3) rd] by blast
  let ?grp = "map (sources_of srcG indexMap) dstG"
  have len: "rep * (rt_srcSize rt * m) \<le> length input" using assms(5) rt(3) by simp
  have "rt_transfer rt rep m input = rt_transfer_with (red_fn rd) rt rep m input"
    using assms(4) by (auto simp: rt_transfer_def rt(5) rt_transferMin_def rt_transferMax_def red_fn_def)
  moreover obtain res where res: "rt_transfer_with (red_fn rd) rt rep m input = Inr res"
    "cells_are rep (length ?grp) m (\<lambda>r i l. if ?grp ! i = [] then None
       else fold (\<lambda>x y. red_fn rd y x) (source_values (rt_srcSize rt) m input (?grp ! i) r l) (Some 0)) res"
    using rt_with_plain [OF rt(2) len rt(4)] by blast
  moreover have "cells_are rep (length dstG) m (\<lambda>r i l.
        let xs = source_values (length srcG) m input (sources_of srcG indexMap (dstG ! i)) r l
        in if xs = [] then None
           else Some (if rd = RMin then min 0 (Min (the ` set xs)) else max 0 (Max (the ` set xs)))) res"
    using res(2) plain_extreme [OF assms(4) source_values_present [OF assms(3,5,6)]]
    by (simp add: cells_are_def rt(3) source_values_def Let_def)
  ultimately show ?thesis using rt(1) by auto
qed

theorem undetected_extremes_witness:
  "\<exists>rt res. newReduceConnector (\<lambda>_. 0) demo_src demo_dst RMin [0 \<mapsto> [10, 11, 12]] False = Inr rt
    \<and> rt_transfer rt 1 1 [Some 4, Some 5, Some 6] = Inr res \<and> res ! 0 = Some 0"
proof -
  from undetected_extremes [OF demo_views, of RMin 1 1 "[Some 4, Some 5, Some 6]" "\<lambda>_. 0" "[0 \<mapsto> [10, 11, 12]]"]
  obtain rt res where r: "newReduceConnector (\<lambda>_. 0) demo_src demo_dst RMin [0 \<mapsto> [10, 11, 12]] False = Inr rt"
    "rt_transfer rt 1 1 [Some 4, Some 5, Some 6] = Inr res"
    "cells_are 1 (length [0::nat, 1]) 1 (\<lambda>r i l.
        let xs = source_values (length [10::nat, 11, 12]) 1 [Some 4, Some 5, Some 6]
                   (sources_of [10, 11, 12] [0 \<mapsto> [10, 11, 12]] ([0, 1] ! i)) r l
        in if xs = [] then None else Some (if RMin = RMin then min 0 (Min (the ` set xs)) else max 0 (Max (the ` set xs)))) res"
    by auto
  have "res ! (0 * (2 * 1) + 0 * 1 + 0) = Some 0"
    using r(3) unfolding cells_are_def
    by (simp add: demo_sources source_values_def del: One_nat_def)
  with r(1,2) show ?thesis by auto
qed

section \<open>Weights\<close>

definition weights_of :: "nat list \<Rightarrow> (int \<rightharpoonup> int list) \<Rightarrow> (int \<rightharpoonup> double list) \<Rightarrow> nat \<Rightarrow> (nat \<times> double) list" where
  "weights_of srcG indexMap weightMap g = (case (indexMap (int_of_size g), weightMap (int_of_size g)) of
     (Some vs, Some ws) \<Rightarrow> zip (map (source_at srcG) vs) ws | _ \<Rightarrow> [])"

text \<open>There is a weight for each source.\<close>

definition maps_match :: "(int \<rightharpoonup> int list) \<Rightarrow> (int \<rightharpoonup> double list) \<Rightarrow> bool" where
  "maps_match indexMap weightMap \<longleftrightarrow> (\<forall>k vs ws. indexMap k = Some vs \<longrightarrow> weightMap k = Some ws \<longrightarrow> length ws = length vs)"

lemma wt_compute_row:
  assumes "length ws = length vs"
  shows "ofold (\<lambda>j wt. obind (arr_get ws (int j)) (\<lambda>w. Inr
        (wt\<lparr>wt_connector := wt_connector wt @ [src_position (src_map_index srcG) (vs ! j)],
            wt_weights := wt_weights wt @ [w]\<rparr>))) [0..<length vs] wt
    = Inr (wt\<lparr>wt_connector := wt_connector wt @ map (int \<circ> source_at srcG) vs, wt_weights := wt_weights wt @ ws\<rparr>)"
proof -
  let ?f = "\<lambda>j wt. obind (arr_get ws (int j)) (\<lambda>w. Inr
        (wt\<lparr>wt_connector := wt_connector wt @ [src_position (src_map_index srcG) (vs ! j)],
            wt_weights := wt_weights wt @ [w]\<rparr>))"
  let ?P = "\<lambda>n w. w = wt\<lparr>wt_connector := wt_connector wt @ map (int \<circ> source_at srcG) (take n vs),
      wt_weights := wt_weights wt @ take n ws\<rparr>"
  have "\<exists>t. ofold ?f [0..<length vs] wt = Inr t \<and> ?P (length vs) t"
  proof (rule ofold_upto [where P = ?P])
    fix j w assume "j < length vs" "?P j w"
    with assms show "\<exists>t. ?f j w = Inr t \<and> ?P (Suc j) t"
      by (simp add: take_Suc_conv_app_nth src_position_eq)
  qed simp
  then show ?thesis using assms by simp
qed

lemma wt_compute_fold:
  assumes "maps_match indexMap weightMap"
  shows "ofold (\<lambda>g wt. case (indexMap (int_of_size g), weightMap (int_of_size g)) of
            (Some vectIndex, Some vectWeight) \<Rightarrow>
              ofold (\<lambda>j wt. obind (arr_get vectWeight (int j)) (\<lambda>w. Inr
                  (wt\<lparr>wt_connector := wt_connector wt @ [src_position (src_map_index srcG) (vectIndex ! j)],
                      wt_weights := wt_weights wt @ [w]\<rparr>))) [0..<length vectIndex]
                (wt\<lparr>wt_nWeights := wt_nWeights wt @ [length vectIndex]\<rparr>)
          | _ \<Rightarrow> Inr (wt\<lparr>wt_nWeights := wt_nWeights wt @ [0]\<rparr>)) dstG wt
    = Inr (wt\<lparr>wt_nWeights := wt_nWeights wt @ map (length \<circ> weights_of srcG indexMap weightMap) dstG,
         wt_connector := wt_connector wt @ map (int \<circ> fst) (concat (map (weights_of srcG indexMap weightMap) dstG)),
         wt_weights := wt_weights wt @ map snd (concat (map (weights_of srcG indexMap weightMap) dstG))\<rparr>)"
proof (induction dstG arbitrary: wt)
  case (Cons g dstG)
  show ?case
  proof (cases "indexMap (int_of_size g)")
    case (Some vs)
    note vs = this
    show ?thesis
    proof (cases "weightMap (int_of_size g)")
      case (Some ws)
      with vs assms have l: "length ws = length vs" by (auto simp: maps_match_def)
      have "weights_of srcG indexMap weightMap g = zip (map (source_at srcG) vs) ws"
        by (simp add: weights_of_def vs Some)
      moreover have z: "map (\<lambda>a. int (fst a)) (zip (map (source_at srcG) vs) ws) = map (\<lambda>v. int (source_at srcG v)) vs"
        using l by (intro nth_equalityI) simp_all
      moreover have "map snd (zip (map (source_at srcG) vs) ws) = ws" using l by simp
      ultimately show ?thesis using Cons.IH by (simp add: vs Some wt_compute_row [OF l] l comp_def)
    qed (use Cons.IH vs in \<open>simp add: weights_of_def\<close>)
  qed (use Cons.IH in \<open>simp add: weights_of_def\<close>)
qed simp

lemma weight_connector_built:
  assumes "view_shows src srcG" "view_shows dst dstG" "srcG \<noteq> []" "maps_match indexMap weightMap"
  shows "\<exists>wt. newWeightConnector junk src dst indexMap weightMap detect renormalize = Inr wt
    \<and> wt_pairs wt (map (weights_of srcG indexMap weightMap) dstG) \<and> wt_srcSize wt = length srcG
    \<and> wt_detect wt = detect \<and> wt_renormalize wt = renormalize"
proof -
  have "fst cw < length srcG" if "cw \<in> set (weights_of srcG indexMap weightMap g)" for cw g
    using that source_at_less [OF assms(3)]
    by (auto simp: weights_of_def in_set_zip simp del: zip_map1 split: option.splits; metis)
  then show ?thesis
    unfolding newWeightConnector_def view_shows_indices [OF assms(1)] view_shows_indices [OF assms(2)]
      obind.simps wt_computeConnector_def Let_def wt_compute_fold [OF assms(4)]
    by (auto simp: wt_pairs_def comp_def)
qed

text \<open>C23: A weighted transfer gives each cell of each slice of the destination the sum of its sources
  by their weights, of the present ones only when missing values are looked for; renormalised,
  that sum is divided by one less the weights of the missing ones.  The map of the weights has as many
  entries for a cell as the map of the indices, none of them missing, and the views have the positions
  they show in front.\<close>

theorem weight_cells:
  assumes "view_shows src srcG" "view_shows dst dstG" "srcG \<noteq> []" "maps_match indexMap weightMap"
    and "\<forall>ws\<in>ran weightMap. None \<notin> set ws" "rep * (length srcG * m) \<le> length input"
  shows "\<exists>wt res. newWeightConnector junk src dst indexMap weightMap detect renormalize = Inr wt
    \<and> wt_transfer wt rep m input = Inr res
    \<and> cells_are rep (length dstG) m (\<lambda>r i l. weight_spec renormalize detect
        (map (\<lambda>cw. value_pair (length srcG) m input cw r l) (weights_of srcG indexMap weightMap (dstG ! i)))) res"
proof -
  let ?grp = "map (weights_of srcG indexMap weightMap) dstG"
  obtain wt where wt: "newWeightConnector junk src dst indexMap weightMap detect renormalize = Inr wt"
    "wt_pairs wt ?grp" "wt_srcSize wt = length srcG" "wt_detect wt = detect" "wt_renormalize wt = renormalize"
    using weight_connector_built [OF assms(1-4)] by blast
  have len: "rep * (wt_srcSize wt * m) \<le> length input" using assms(6) wt(3) by simp
  have "snd cw \<noteq> None" if cw: "cw \<in> set (weights_of srcG indexMap weightMap g)" for cw g
  proof -
    obtain vs ws where ws: "weightMap (int_of_size g) = Some ws" "cw \<in> set (zip (map (source_at srcG) vs) ws)"
      using cw by (cases "indexMap (int_of_size g)"; cases "weightMap (int_of_size g)") (simp_all add: weights_of_def del: zip_map1)
    then have "snd cw \<in> set ws" by (metis prod.collapse set_zip_rightD)
    with ws(1) assms(5) show ?thesis by (metis ranI)
  qed
  then have w: "\<forall>cw\<in>set (concat ?grp). snd cw \<noteq> None" by auto
  have "\<exists>res. wt_transfer wt rep m input = Inr res
    \<and> cells_are rep (length ?grp) m (\<lambda>r i l. weight_spec renormalize detect (pairs_at wt ?grp m input r i l)) res"
  proof (cases renormalize)
    case True
    then show ?thesis using wt_renormalized [OF wt(2) len _ w] wt(4,5) by simp
  next
    case False
    then show ?thesis using wt_plain [OF wt(2) len] wt(4,5) by simp
  qed
  then show ?thesis using wt(1,3) by (auto simp: cells_are_def pairs_at_def)
qed

text \<open>A quarter, a quarter and a half; the second value is missing.\<close>

theorem weight_cells_witness:
  "\<exists>wt res. newWeightConnector (\<lambda>_. 0) demo_src demo_dst [0 \<mapsto> [10, 11, 12]] [0 \<mapsto> [Some (1/4), Some (1/4), Some (1/2)]]
      True True = Inr wt \<and> wt_transfer wt 1 1 [Some 3, None, Some 6] = Inr res \<and> res ! 0 = Some 5 \<and> res ! 1 = None"
proof -
  let ?wm = "[0 \<mapsto> [Some (1/4), Some (1/4), Some (1/2)]] :: int \<rightharpoonup> double list"
  have "maps_match [0 \<mapsto> [10, 11, 12]] ?wm" "\<forall>ws\<in>ran ?wm. None \<notin> set ws"
    by (auto simp: maps_match_def split: if_splits)
  from weight_cells [OF demo_views _ this, of 1 1 "[Some 3, None, Some 6]" "\<lambda>_. 0" True True]
  obtain wt res where r: "newWeightConnector (\<lambda>_. 0) demo_src demo_dst [0 \<mapsto> [10, 11, 12]] ?wm True True = Inr wt"
    "wt_transfer wt 1 1 [Some 3, None, Some 6] = Inr res"
    "cells_are 1 (length [0::nat, 1]) 1 (\<lambda>r i l. weight_spec True True (map (\<lambda>cw. value_pair (length [10::nat, 11, 12]) 1
        [Some 3, None, Some 6] cw r l) (weights_of [10, 11, 12] [0 \<mapsto> [10, 11, 12]] ?wm ([0, 1] ! i)))) res" by auto
  have s: "source_at [10, 11, 12] 10 = 0" "source_at [10, 11, 12] 11 = 1" "source_at [10, 11, 12] 12 = 2"
    by (simp_all add: source_at_def position_of_def size_of_int_def upt_rec)
  have w: "weights_of [10, 11, 12] [0 \<mapsto> [10, 11, 12]] ?wm 0 = [(0, Some (1/4)), (1, Some (1/4)), (2, Some (1/2))]"
    "weights_of [10, 11, 12] [0 \<mapsto> [10, 11, 12]] ?wm 1 = []"
    by (simp_all add: weights_of_def int_of_size_def s)
  have v: "weight_spec True True [(Some 3, Some (1/4)), (None, Some (1/4)), (Some 6, Some (1/2))] = Some 5"
    by (simp add: weight_spec_def weighted_def is_here_def isNan_def lost_weight_def dquot_def)
  have "weight_spec True True [] = None" by (simp add: weight_spec_def weighted_def dquot_def)
  then have "res ! (0 * (2 * 1) + 0 * 1 + 0) = Some 5" "res ! (0 * (2 * 1) + 1 * 1 + 0) = None"
    using r(3) v unfolding cells_are_def by (simp_all add: w value_pair_def del: One_nat_def fun_upd_apply)
  with r(1,2) show ?thesis by auto
qed

section \<open>Copies\<close>

definition source_of :: "nat list \<Rightarrow> (int \<rightharpoonup> int) \<Rightarrow> nat \<Rightarrow> nat option" where
  "source_of srcG indexMap g = map_option (source_at srcG) (indexMap (int_of_size g))"

lemma tt_compute_eq:
  "tt_computeConnector srcG dstG indexMap =
    \<lparr>tt_connector = map int (shown (map (source_of srcG indexMap) dstG)),
     tt_mask = map (\<lambda>g. source_of srcG indexMap g \<noteq> None) dstG,
     tt_srcSize = length srcG, tt_dstSize = length dstG\<rparr>"
proof -
  let ?f = "\<lambda>i tt. case indexMap (int_of_size (dstG ! i)) of
            Some index \<Rightarrow> tt\<lparr>tt_connector := tt_connector tt @ [src_position (src_map_index srcG) index],
                             tt_mask := (tt_mask tt)[i := True]\<rparr>
          | None \<Rightarrow> tt\<lparr>tt_mask := (tt_mask tt)[i := False]\<rparr>"
  have "fold ?f [0..<n] \<lparr>tt_connector = [], tt_mask = replicate (length dstG) False,
         tt_srcSize = length srcG, tt_dstSize = length dstG\<rparr>
      = \<lparr>tt_connector = map int (shown (map (source_of srcG indexMap) (take n dstG))),
         tt_mask = map (\<lambda>g. source_of srcG indexMap g \<noteq> None) (take n dstG) @ replicate (length dstG - n) False,
         tt_srcSize = length srcG, tt_dstSize = length dstG\<rparr>" if "n \<le> length dstG" for n
    using that
  proof (induction n)
    case (Suc n)
    have r: "replicate (length dstG - n) False = False # replicate (length dstG - Suc n) False"
      using Suc.prems by (metis Suc_diff_le Suc_eq_plus1 Suc_le_lessD diff_Suc_Suc replicate_Suc Suc_diff_Suc)
    show ?case using Suc
      by (cases "indexMap (int_of_size (dstG ! n))")
        (simp_all add: take_Suc_conv_app_nth r source_of_def src_position_eq list_update_append)
  qed simp
  from this [of "length dstG"] show ?thesis by (simp add: tt_computeConnector_def Let_def)
qed

lemma copy_block_arrive:
  assumes "r < rep" "i < n" "c < S" "rep * (S * m) \<le> length input" "length s = rep * (n * m)"
  shows "copy_block input (int r * int (S * m) + int c * int m) (int r * int (n * m) + int i * int m) m s
    = Inr (arrive at_one (block_op n m r i (\<lambda>r l y. input ! (r * (S * m) + c * m + l))) s)"
  unfolding copy_block_def
proof (rule block_arrive [where P = "\<lambda>s. length s = rep * (n * m)"])
  fix l s assume l: "l < m" "length (s :: 'a list) = rep * (n * m)"
  have "r * (S * m) + c * m + l < length input" using block_position(2) [OF assms(1,3) l(1)] assms(4) by simp
  with block_position(2) [OF assms(1,2) l(1)] l(2)
  show "obind (arr_get input (int r * int (S * m) + int c * int m + int l)) (arr_set s (int r * int (n * m) + int i * int m + int l))
      = Inr (at_one (r * (n * m) + i * m + l) (\<lambda>y. input ! (r * (S * m) + c * m + l)) s)"
    by (simp only: block_position(1) [OF assms(1,2) l(1)] block_position(1) [OF assms(1,3) l(1)]
        arr_get_nat arr_set_nat obind.simps at_one_def upd_one_def)
qed (use assms(5) in auto)

lemma expand_mask: "expand (map (\<lambda>x. f x \<noteq> None) xs) (map int (shown (map f xs))) = map (map_option int \<circ> f) xs"
  by (induction xs) (auto split: option.split)

lemma wanted_mask: "wanted (map (\<lambda>x. f x \<noteq> None) xs) = length (shown (map f xs))"
  by (induction xs) (auto split: option.split)

text \<open>A copying transfer gives each cell of each slice of the destination the value of the source
  the index map names, and zero where it names none.\<close>

theorem copy_cells:
  assumes "view_shows src srcG" "view_shows dst dstG" "srcG \<noteq> []" "rep * (length srcG * m) \<le> length input"
  shows "\<exists>tt res. newTransferConnector junk src dst indexMap = Inr tt \<and> tt_transfer tt rep m input = Inr res
    \<and> cells_are rep (length dstG) m (\<lambda>r i l. case source_of srcG indexMap (dstG ! i) of None \<Rightarrow> Some 0
        | Some c \<Rightarrow> input ! (r * (length srcG * m) + c * m + l)) res"
proof -
  let ?n = "length dstG" and ?S = "length srcG" and ?tt = "tt_computeConnector srcG dstG indexMap"
  let ?so = "\<lambda>i. source_of srcG indexMap (dstG ! i)"
  let ?ts = "\<lambda>i. case ?so i of None \<Rightarrow> [] | Some c \<Rightarrow> [\<lambda>r l y. input ! (r * (?S * m) + c * m + l)]"
  let ?s1 = "arrive at_one (block_ops rep ?n m [?ts]) (replicate (rep * (?n * m)) (Some 0))"
  have so: "?so i = Some c \<Longrightarrow> c < ?S" for i c using source_at_less [OF assms(3)] by (auto simp: source_of_def)
  have "tt_transfer ?tt rep m input = Inr ?s1"
    unfolding tt_transfer_def tt_compute_eq Let_def transfer_connector.simps
  proof (rule slices_arrive [where P = "\<lambda>s. length s = rep * (?n * m)"])
    fix r and s :: "double list" assume r: "r < rep" and s: "length s = rep * (?n * m)"
    let ?m = "map (\<lambda>g. source_of srcG indexMap g \<noteq> None) dstG" and ?c = "map int (shown (map (source_of srcG indexMap) dstG))"
    have "masked_loop False ?m ?c (\<lambda>i c. copy_block input (int r * int (?S * m) + c * int m) (int r * int (?n * m) + int i * int m) m)
          (\<lambda>i output. Inr output) s
        = Inr (arrive at_one (concat (map (\<lambda>i. case expand ?m ?c ! i of None \<Rightarrow> []
            | Some k \<Rightarrow> block_op ?n m r i (\<lambda>r l y. input ! (r * (?S * m) + nat k * m + l))) [0..<length ?m])) s)"
    proof (rule masked_loop_arrive [where P = "\<lambda>s. length s = rep * (?n * m)"])
      fix i k s assume i: "i < length ?m" and e: "expand ?m ?c ! i = Some k" and s: "length (s :: double list) = rep * (?n * m)"
      obtain c where c: "?so i = Some c" "k = int c" using i e by (auto simp: expand_mask simp del: not_None_eq)
      show "copy_block input (int r * int (?S * m) + k * int m) (int r * int (?n * m) + int i * int m) m s
          = Inr (arrive at_one (block_op ?n m r i (\<lambda>r l y. input ! (r * (?S * m) + nat k * m + l))) s)"
        using copy_block_arrive [OF r _ so [OF c(1)] assms(4) s, of i] i by (simp add: c(2) del: of_nat_mult)
    qed (use s in \<open>simp_all add: wanted_mask del: not_None_eq\<close>)
    also have "concat (map (\<lambda>i. case expand ?m ?c ! i of None \<Rightarrow> []
            | Some k \<Rightarrow> block_op ?n m r i (\<lambda>r l y. input ! (r * (?S * m) + nat k * m + l))) [0..<length ?m])
        = concat (map (slice_ops ?n m r) [?ts])"
      unfolding slice_ops_def by (simp add: expand_mask del: not_None_eq) (rule arg_cong [where f = concat], rule map_cong, auto split: option.split)
    finally show "masked_loop False ?m ?c (\<lambda>i c. copy_block input (int r * int (?S * m) + c * int m) (int r * int (?n * m) + int i * int m) m)
          (\<lambda>i output. Inr output) s = Inr (arrive at_one (concat (map (slice_ops ?n m r) [?ts])) s)" .
  qed simp_all
  moreover have "?s1 ! (r * (?n * m) + i * m + l) = (case ?so i of None \<Rightarrow> Some 0
      | Some c \<Rightarrow> input ! (r * (?S * m) + c * m + l))" if "r < rep" "i < ?n" "l < m" for r i l
    using that block_position(2) [OF that] by (auto simp: at_one_fold arriving_block_ops split: option.split)
  moreover have "newTransferConnector junk src dst indexMap = Inr ?tt"
    by (simp add: newTransferConnector_def view_shows_indices [OF assms(1)] view_shows_indices [OF assms(2)])
  ultimately show ?thesis by (auto simp: cells_are_def)
qed

theorem copy_cells_witness:
  "\<exists>tt res. newTransferConnector (\<lambda>_. 0) demo_src demo_dst [1 \<mapsto> 12] = Inr tt
    \<and> tt_transfer tt 1 1 [Some 3, None, Some 6] = Inr res \<and> res ! 0 = Some 0 \<and> res ! 1 = Some 6"
proof -
  from copy_cells [OF demo_views, of 1 1 "[Some 3, None, Some 6]" "\<lambda>_. 0" "[1 \<mapsto> 12]"]
  obtain tt res where r: "newTransferConnector (\<lambda>_. 0) demo_src demo_dst [1 \<mapsto> 12] = Inr tt"
    "tt_transfer tt 1 1 [Some 3, None, Some 6] = Inr res"
    "cells_are 1 (length [0::nat, 1]) 1 (\<lambda>r i l. case source_of [10, 11, 12] [1 \<mapsto> 12] ([0, 1] ! i) of None \<Rightarrow> Some 0
        | Some c \<Rightarrow> [Some 3, None, Some 6] ! (r * (length [10::nat, 11, 12] * 1) + c * 1 + l)) res" by auto
  have "source_of [10, 11, 12] [1 \<mapsto> 12] 0 = None" "source_of [10, 11, 12] [1 \<mapsto> 12] 1 = Some 2"
    by (simp_all add: source_of_def int_of_size_def source_at_def position_of_def size_of_int_def upt_rec)
  then have "res ! (0 * (2 * 1) + 0 * 1 + 0) = Some 0" "res ! (0 * (2 * 1) + 1 * 1 + 0) = Some 6"
    using r(3) unfolding cells_are_def by (simp_all del: One_nat_def fun_upd_apply)
  with r(1,2) show ?thesis by auto
qed

end
