(* ===== verification/EventScheduler.thy ===== *)
theory EventScheduler
  imports StdMap "HOL-Library.Product_Lexorder"
begin

text \<open>
  The event scheduler (\<open>event_scheduler.cpp\<close>): a tree of processes along which the registrations of
  an event travel up to the root, which orders the events and sends its order down again.
  The schedulers of one program are addressed by numbers, a scheduler being one process of one
  communicator.  A message is in flight between \<open>MPI_Isend\<close> and the turn of a receive loop that
  finds it complete; messages from one process to another over one communicator with one tag do
  not overtake each other.  The polling calls (\<open>checkEvent\<close>) take such messages whenever they run,
  so the turns of the receive loops are steps of their own here.
\<close>

section \<open>The tree of a process\<close>

text \<open>The degree of the tree: the first \<open>k\<close> from 2 on with \<open>k ^ k\<close> at least the number of processes.\<close>

partial_function (option) find_degree :: "nat \<Rightarrow> nat \<Rightarrow> nat option" where [code]:
  "find_degree mpiSize maxChild =
     (let maxChild = maxChild + 1; m = fold (\<lambda>_ m. m * maxChild) [0..<maxChild] 1
      in if m < mpiSize then find_degree mpiSize maxChild else Some maxChild)"

partial_function (option) count_levels :: "nat \<Rightarrow> nat \<Rightarrow> nat \<Rightarrow> nat \<Rightarrow> nat option" where [code]:
  "count_levels mpiSize maxChild sz maxLevel =
     (if sz \<le> mpiSize then count_levels mpiSize maxChild (sz * maxChild) (maxLevel + 1) else Some maxLevel)"

record event_tree =
  tr_level :: nat
  tr_parent :: "nat list"
  tr_child :: "nat list list"
  tr_nbChild :: "nat list"

text \<open>One turn of the loop over the levels: the interval from \<open>from\<close> to \<open>till\<close> of \<open>nb\<close> ranks is cut
  into blocks, and the loop goes on with the block of the process.\<close>

definition cut_level ::
  "nat \<Rightarrow> nat \<Rightarrow> nat \<times> nat \<Rightarrow> event_tree \<Rightarrow> ((nat \<times> nat) \<times> event_tree) outcome" where
  "cut_level maxChild mpiRank = (\<lambda>(from, till) t.
     let nb = till - from + 1; lev = tr_level t
     in obind (arr_set (tr_nbChild t) (int lev) 0) (\<lambda>nbChild.
        obind (arr_set (tr_parent t) (int lev + 1) from) (\<lambda>parent.
        obind (ofold (\<lambda>i (pos, from, till, child, nbChild).
              let n = (if i < nb mod maxChild then nb div maxChild + 1 else nb div maxChild);
                  (from, till) = (if pos \<le> mpiRank \<and> mpiRank < pos + n then (pos, pos + n - 1) else (from, till))
              in obind (arr_get child (int lev)) (\<lambda>row.
                 obind (arr_set row (int i) pos) (\<lambda>row.
                 obind (arr_set child (int lev) row) (\<lambda>child.
                 obind (arr_get nbChild (int lev)) (\<lambda>c.
                 omap (\<lambda>nbChild. (pos + n, from, till, child, nbChild)) (arr_set nbChild (int lev) (c + 1)))))))
            [0..<min maxChild nb] (from, from, till, tr_child t, nbChild)) (\<lambda>(pos, from, till, child, nbChild).
        Inr ((from, till), t\<lparr>tr_level := lev + 1, tr_parent := parent, tr_child := child, tr_nbChild := nbChild\<rparr>)))))"

partial_function (option) cut_levels ::
  "nat \<Rightarrow> nat \<Rightarrow> nat \<times> nat \<Rightarrow> event_tree \<Rightarrow> event_tree outcome option" where [code]:
  "cut_levels maxChild mpiRank iv t =
     (case cut_level maxChild mpiRank iv t of
        Inl e \<Rightarrow> Some (Inl e)
      | Inr ((from, till), t) \<Rightarrow>
          if 1 < till - from + 1 then cut_levels maxChild mpiRank (from, till) t else Some (Inr t))"

definition init_tree :: "nat \<Rightarrow> nat \<Rightarrow> event_tree outcome" where
  "init_tree mpiSize mpiRank =
     obind (returned ''initialize'' (map_option Inr (find_degree mpiSize 1))) (\<lambda>maxChild.
     obind (returned ''initialize'' (map_option Inr (count_levels mpiSize maxChild 1 0))) (\<lambda>maxLevel.
     returned ''initialize'' (cut_levels maxChild mpiRank (0, mpiSize - 1)
       \<lparr>tr_level = 0, tr_parent = replicate (maxLevel + 1) 0,
        tr_child = replicate (maxLevel + 1) (replicate maxChild 0), tr_nbChild = replicate (maxLevel + 1) 0\<rparr>)))"

section \<open>Schedulers and messages\<close>

text \<open>Time line, hash of the context, level of the scheduler and level in the tree; their order is
  that of \<open>SEvent\<close>.\<close>

type_synonym sevent = "nat \<times> nat \<times> nat \<times> nat"

record scheduler =
  sc_tree :: event_tree
  sc_comm :: nat
  sc_rank :: nat
  sc_schedulerLevel :: nat
  sc_parentScheduler :: "nat option"
  sc_childScheduler :: "nat option"
  sc_recvEvent :: "(sevent, int) std_map"
  sc_eventStack :: "(nat \<times> nat) list"

record world =
  scheds :: "nat \<Rightarrow> scheduler"
  ups :: "nat \<Rightarrow> nat \<Rightarrow> sevent list"
  downs :: "nat \<Rightarrow> nat \<Rightarrow> nat \<Rightarrow> sevent list"

definition newScheduler :: "nat \<Rightarrow> nat \<Rightarrow> nat \<Rightarrow> nat \<Rightarrow> scheduler outcome" where
  "newScheduler mpiSize comm mpiRank schedLevel =
     omap (\<lambda>t. \<lparr>sc_tree = t, sc_comm = comm, sc_rank = mpiRank, sc_schedulerLevel = schedLevel,
                sc_parentScheduler = None, sc_childScheduler = None, sc_recvEvent = [], sc_eventStack = []\<rparr>)
       (init_tree mpiSize mpiRank)"

definition put_sched :: "nat \<Rightarrow> scheduler \<Rightarrow> world \<Rightarrow> world" where
  "put_sched s x w = w\<lparr>scheds := (scheds w)(s := x)\<rparr>"

definition isRoot :: "scheduler \<Rightarrow> bool outcome" where
  "isRoot x = omap (\<lambda>p. p = sc_rank x) (arr_get (tr_parent (sc_tree x)) 0)"

partial_function (option) getBaseScheduler :: "world \<Rightarrow> nat \<Rightarrow> nat option" where [code]:
  "getBaseScheduler w s = (case sc_childScheduler (scheds w s) of None \<Rightarrow> Some s | Some c \<Rightarrow> getBaseScheduler w c)"

text \<open>The message to the parent of a level, and those to the children of a level.\<close>

definition send_up :: "nat \<Rightarrow> sevent \<Rightarrow> world \<Rightarrow> world outcome" where
  "send_up s = (\<lambda>(timeLine, hashId, schedLevel, lev) w.
     let x = scheds w s
     in omap (\<lambda>p. w\<lparr>ups := (ups w)(sc_comm x := (ups w (sc_comm x))(p :=
            ups w (sc_comm x) p @ [(timeLine, hashId, schedLevel, lev - 1)]))\<rparr>)
          (arr_get (tr_parent (sc_tree x)) (int lev)))"

definition bcastEvent :: "nat \<Rightarrow> sevent \<Rightarrow> world \<Rightarrow> world outcome" where
  "bcastEvent s = (\<lambda>(timeLine, hashId, schedLevel, lev) w.
     let x = scheds w s; t = sc_tree x
     in obind (arr_get (tr_nbChild t) (int lev)) (\<lambda>n.
        ofold (\<lambda>i w. obind (arr_get (tr_child t) (int lev)) (\<lambda>row. omap (\<lambda>c.
              w\<lparr>downs := (downs w)(sc_comm x := (downs w (sc_comm x))(sc_rank x := (downs w (sc_comm x) (sc_rank x))(c :=
                 downs w (sc_comm x) (sc_rank x) c @ [(timeLine, hashId, schedLevel, lev + 1)])))\<rparr>)
            (arr_get row (int i)))) [0..<n] w))"

text \<open>\<open>registerEvent\<close> with a level of the scheduler starts at the level of the process in its tree.\<close>

definition registerEvent_at :: "nat \<Rightarrow> nat \<Rightarrow> nat \<Rightarrow> nat \<Rightarrow> world \<Rightarrow> world outcome" where
  "registerEvent_at s timeLine hashId schedLevel w =
     send_up s (timeLine, hashId, schedLevel, tr_level (sc_tree (scheds w s))) w"

definition registerEvent :: "nat \<Rightarrow> nat \<Rightarrow> nat \<Rightarrow> world \<Rightarrow> world outcome" where
  "registerEvent s timeLine hashId w =
     obind (returned ''getBaseScheduler'' (map_option Inr (getBaseScheduler w s))) (\<lambda>b.
     registerEvent_at b timeLine hashId (sc_schedulerLevel (scheds w s)) w)"

text \<open>What the receive loops do with a message that has arrived.\<close>

definition checkParentRequest :: "nat \<Rightarrow> sevent \<Rightarrow> world \<Rightarrow> world outcome" where
  "checkParentRequest s = (\<lambda>(timeLine, hashId, schedLevel, lev) w.
     let x = scheds w s
     in if lev = tr_level (sc_tree x)
        then (case sc_childScheduler x of
                Some c \<Rightarrow> bcastEvent c (timeLine, hashId, schedLevel, 0) w
              | None \<Rightarrow> Inr (put_sched s (x\<lparr>sc_eventStack := sc_eventStack x @ [(timeLine, hashId)]\<rparr>) w))
        else bcastEvent s (timeLine, hashId, schedLevel, lev) w)"

definition checkChildRequest :: "nat \<Rightarrow> sevent \<Rightarrow> world \<Rightarrow> world outcome" where
  "checkChildRequest s = (\<lambda>(timeLine, hashId, schedLevel, lev) w.
     let x = scheds w s; e = (timeLine, hashId, schedLevel, lev);
         n = (case map_of (sc_recvEvent x) e of None \<Rightarrow> 1 | Some n \<Rightarrow> n + 1);
         w = put_sched s (x\<lparr>sc_recvEvent := std_put e n (sc_recvEvent x)\<rparr>) w
     in obind (arr_get (tr_nbChild (sc_tree x)) (int lev)) (\<lambda>k.
        if n = int k
        then omap (\<lambda>w. put_sched s ((scheds w s)\<lparr>sc_recvEvent := filter (\<lambda>(f, _). f \<noteq> e) (sc_recvEvent (scheds w s))\<rparr>) w)
          (if lev = 0
           then (if schedLevel = sc_schedulerLevel x then bcastEvent s e w
                 else (case sc_parentScheduler x of
                         None \<Rightarrow> Inl (UndefinedBehaviour ''null pointer'')
                       | Some p \<Rightarrow> registerEvent_at p timeLine hashId schedLevel w))
           else send_up s e w)
        else Inr w))"

definition queryEvent :: "nat \<Rightarrow> nat \<Rightarrow> nat \<Rightarrow> world \<Rightarrow> bool" where
  "queryEvent s timeLine hashId w =
     (case sc_eventStack (scheds w s) of [] \<Rightarrow> False | e # _ \<Rightarrow> fst e = timeLine \<and> snd e = hashId)"

definition popEvent :: "nat \<Rightarrow> world \<Rightarrow> world outcome" where
  "popEvent s w = (case sc_eventStack (scheds w s) of
     [] \<Rightarrow> Inl (UndefinedBehaviour ''pop of an empty queue'')
   | _ # es \<Rightarrow> Inr (put_sched s ((scheds w s)\<lparr>sc_eventStack := es\<rparr>) w))"

section \<open>Steps\<close>

datatype sched_action =
    Register nat nat nat
  | FromChild nat sevent
  | FromParent nat nat sevent
  | Take nat "nat \<times> nat"

text \<open>Messages from the children may complete in any order, those of one process from above in the
  order they were sent.\<close>

inductive sched_step :: "world \<Rightarrow> sched_action \<Rightarrow> world \<Rightarrow> bool" where
  register: "registerEvent s timeLine hashId w = Inr w' \<Longrightarrow> sched_step w (Register s timeLine hashId) w'"
| from_child: "\<lbrakk>ups w (sc_comm (scheds w s)) (sc_rank (scheds w s)) = ms @ m # ms';
    checkChildRequest s m (w\<lparr>ups := (ups w)(sc_comm (scheds w s) :=
      (ups w (sc_comm (scheds w s)))(sc_rank (scheds w s) := ms @ ms'))\<rparr>) = Inr w'\<rbrakk>
    \<Longrightarrow> sched_step w (FromChild s m) w'"
| from_parent: "\<lbrakk>downs w (sc_comm (scheds w s)) p (sc_rank (scheds w s)) = m # ms;
    checkParentRequest s m (w\<lparr>downs := (downs w)(sc_comm (scheds w s) := (downs w (sc_comm (scheds w s)))(p :=
      (downs w (sc_comm (scheds w s)) p)(sc_rank (scheds w s) := ms)))\<rparr>) = Inr w'\<rbrakk>
    \<Longrightarrow> sched_step w (FromParent s p m) w'"
| take: "\<lbrakk>queryEvent s timeLine hashId w; popEvent s w = Inr w'\<rbrakk>
    \<Longrightarrow> sched_step w (Take s (timeLine, hashId)) w'"

inductive sched_run :: "world \<Rightarrow> sched_action list \<Rightarrow> world \<Rightarrow> bool" where
  run_Nil: "sched_run w [] w"
| run_snoc: "sched_run w as w' \<Longrightarrow> sched_step w' a w'' \<Longrightarrow> sched_run w (as @ [a]) w''"

text \<open>The same steps as a function, where a step that is not possible is \<open>None\<close>.\<close>

definition done_by :: "world outcome \<Rightarrow> world option" where
  "done_by r = (case r of Inl e \<Rightarrow> None | Inr w \<Rightarrow> Some w)"

fun sched_do :: "sched_action \<Rightarrow> world \<Rightarrow> world option" where
  "sched_do (Register s timeLine hashId) w = done_by (registerEvent s timeLine hashId w)"
| "sched_do (FromChild s m) w =
     (let cm = sc_comm (scheds w s); r = sc_rank (scheds w s)
      in if m \<in> set (ups w cm r)
         then done_by (checkChildRequest s m (w\<lparr>ups := (ups w)(cm := (ups w cm)(r := remove1 m (ups w cm r)))\<rparr>))
         else None)"
| "sched_do (FromParent s p m) w =
     (let cm = sc_comm (scheds w s); r = sc_rank (scheds w s)
      in case downs w cm p r of [] \<Rightarrow> None
         | e # ms \<Rightarrow> if e = m
             then done_by (checkParentRequest s m (w\<lparr>downs := (downs w)(cm := (downs w cm)(p := (downs w cm p)(r := ms)))\<rparr>))
             else None)"
| "sched_do (Take s e) w = (if queryEvent s (fst e) (snd e) w then done_by (popEvent s w) else None)"

fun sched_do_all :: "sched_action list \<Rightarrow> world \<Rightarrow> world option" where
  "sched_do_all [] w = Some w"
| "sched_do_all (act # acts) w = (case sched_do act w of None \<Rightarrow> None | Some w \<Rightarrow> sched_do_all acts w)"

lemma done_by_Some: "done_by r = Some w \<longleftrightarrow> r = Inr w"
  by (simp add: done_by_def split: sum.split)

lemma sched_do_step: "sched_do act w = Some w' \<Longrightarrow> sched_step w act w'"
proof (cases act)
  case (FromChild s m)
  let ?cm = "sc_comm (scheds w s)" and ?r = "sc_rank (scheds w s)"
  assume "sched_do act w = Some w'"
  then have m: "m \<in> set (ups w ?cm ?r)"
    and run: "checkChildRequest s m (w\<lparr>ups := (ups w)(?cm := (ups w ?cm)(?r := remove1 m (ups w ?cm ?r)))\<rparr>) = Inr w'"
    by (auto simp: FromChild Let_def done_by_Some split: if_splits)
  obtain ms ms' where ms: "ups w ?cm ?r = ms @ m # ms'" "m \<notin> set ms" using split_list_first [OF m] by blast
  then have "remove1 m (ups w ?cm ?r) = ms @ ms'" by (simp add: remove1_append)
  with run show ?thesis unfolding FromChild by (intro from_child [OF ms(1)]) simp
qed (auto simp: Let_def done_by_Some intro: sched_step.intros split: if_splits list.splits)

lemma sched_do_all_run:
  assumes "sched_do_all acts w = Some w'"
  shows "sched_run w acts w'"
proof -
  have "sched_run u tr w \<Longrightarrow> sched_do_all acts w = Some w' \<Longrightarrow> sched_run u (tr @ acts) w'" for u tr w
  proof (induction acts arbitrary: tr w)
    case (Cons act acts)
    then obtain v where v: "sched_do act w = Some v" "sched_do_all acts v = Some w'"
      by (auto split: option.splits)
    then have "sched_run u (tr @ [act]) v" using Cons.prems(1) sched_do_step run_snoc by blast
    from Cons.IH [OF this v(2)] show ?case by simp
  qed simp
  from this [OF run_Nil assms] show ?thesis by simp
qed

end
