(* ===== verification/EventTree.thy ===== *)
theory EventTree
  imports EventScheduler
begin

text \<open>
  The tree the schedulers build: every process computes its own path of blocks, and the paths fit
  together to one tree over all processes.
\<close>

section \<open>Blocks\<close>

definition blk_size :: "nat \<Rightarrow> nat \<Rightarrow> nat \<Rightarrow> nat" where
  "blk_size k nb i = (if i < nb mod k then nb div k + 1 else nb div k)"

definition blk_start :: "nat \<Rightarrow> nat \<Rightarrow> nat \<Rightarrow> nat \<Rightarrow> nat" where
  "blk_start k b nb i = b + i * (nb div k) + min i (nb mod k)"

lemma blk_start_simps: "blk_start k b nb 0 = b" "blk_start k b nb (Suc i) = blk_start k b nb i + blk_size k nb i"
  by (auto simp: blk_start_def blk_size_def)

lemma blk_start_all:
  assumes "0 < k"
  shows "blk_start k b nb (min k nb) = b + nb"
proof (cases "k \<le> nb")
  case True
  have "k * (nb div k) + nb mod k = nb" by simp
  moreover have "nb mod k \<le> k" using assms by (simp add: less_imp_le)
  ultimately show ?thesis using True by (simp add: blk_start_def min_absorb1 min_absorb2)
next
  case False
  then have "nb div k = 0" "nb mod k = nb" by simp_all
  with False show ?thesis by (simp add: blk_start_def)
qed

lemma blk_start_mono: "i \<le> j \<Longrightarrow> blk_start k b nb i \<le> blk_start k b nb j"
  by (rule lift_Suc_mono_le [of "blk_start k b nb"]) (simp_all add: blk_start_simps)

lemma blk_size_pos: "0 < k \<Longrightarrow> i < min k nb \<Longrightarrow> 0 < blk_size k nb i"
proof (cases "k \<le> nb")
  case False
  assume "i < min k nb"
  with False have "nb mod k = nb" "i < nb" by simp_all
  then show ?thesis by (simp add: blk_size_def)
qed (simp add: blk_size_def div_greater_zero_iff)

text \<open>The block of a process in an interval.\<close>

definition in_block :: "nat \<Rightarrow> nat \<times> nat \<Rightarrow> nat \<Rightarrow> nat \<Rightarrow> bool" where
  "in_block k iv r i = (case iv of (b, nb) \<Rightarrow> blk_start k b nb i \<le> r \<and> r < blk_start k b nb i + blk_size k nb i)"

definition locate :: "nat \<Rightarrow> nat \<Rightarrow> nat \<times> nat \<Rightarrow> nat \<times> nat" where
  "locate k r iv = (case find (in_block k iv r) [0..<min k (snd iv)] of
     None \<Rightarrow> iv | Some i \<Rightarrow> (blk_start k (fst iv) (snd iv) i, blk_size k (snd iv) i))"

lemma in_block_unique:
  assumes "in_block k iv r i" "in_block k iv r j"
  shows "i = j"
proof -
  obtain b nb where iv: "iv = (b, nb)" by (cases iv)
  have "\<not> i < j" if "in_block k iv r i" "in_block k iv r j" for i j
    using that blk_start_mono [of "Suc i" j k b nb] unfolding iv in_block_def prod.case blk_start_simps
    by (meson Suc_leI leD order.strict_trans2)
  with assms show ?thesis by (metis linorder_neqE_nat)
qed

lemma in_block_exists:
  assumes "0 < k" "b \<le> r" "r < b + nb"
  shows "\<exists>i<min k nb. in_block k (b, nb) r i"
proof -
  let ?Q = "\<lambda>j. r < blk_start k b nb j"
  have "?Q (min k nb)" using blk_start_all [OF assms(1)] assms(3) by simp
  moreover have "\<not> ?Q 0" using assms(2) by (simp add: blk_start_simps)
  ultimately obtain i where i: "i < min k nb" "\<not> ?Q i" "?Q (Suc i)"
    using ex_least_nat_less [of ?Q "min k nb"] by (metis le_eq_less_or_eq less_Suc_eq_le order.strict_trans2 lessI)
  then show ?thesis by (auto simp: in_block_def blk_start_simps)
qed

lemma locate_block:
  assumes "i < min k (snd iv)" "in_block k iv r i"
  shows "locate k r iv = (blk_start k (fst iv) (snd iv) i, blk_size k (snd iv) i)"
proof -
  obtain j where j: "find (in_block k iv r) [0..<min k (snd iv)] = Some j"
    using assms by (cases "find (in_block k iv r) [0..<min k (snd iv)]") (auto simp: find_None_iff)
  then have "j = i" using find_SomeD [OF j] assms(2) in_block_unique by blast
  with j show ?thesis by (simp add: locate_def)
qed

lemma locate_in:
  assumes "0 < k" "fst iv \<le> r" "r < fst iv + snd iv"
  shows "fst iv \<le> fst (locate k r iv) \<and> fst (locate k r iv) \<le> r \<and> r < fst (locate k r iv) + snd (locate k r iv)
    \<and> fst (locate k r iv) + snd (locate k r iv) \<le> fst iv + snd iv"
proof -
  obtain b nb where iv: "iv = (b, nb)" by (cases iv)
  obtain i where i: "i < min k nb" "in_block k (b, nb) r i" using in_block_exists [of k b r nb] assms by (auto simp: iv)
  have "blk_start k b nb (Suc i) \<le> blk_start k b nb (min k nb)" using i(1) by (intro blk_start_mono) simp
  moreover have "b \<le> blk_start k b nb i" by (simp add: blk_start_def)
  ultimately show ?thesis
    using i locate_block [of i k iv r] blk_start_all [OF assms(1)] by (simp add: iv in_block_def blk_start_simps)
qed

lemma blk_size_le:
  assumes "2 \<le> k" "nb \<le> k * m"
  shows "blk_size k nb i \<le> m"
proof (cases "i < nb mod k")
  case True
  then have "0 < nb mod k" by simp
  have "nb div k * k < nb" using \<open>0 < nb mod k\<close> by (metis div_mult_mod_eq less_add_same_cancel1)
  then have "k * (nb div k) < k * m" unfolding mult.commute [of "nb div k"] by (rule less_le_trans) (rule assms(2))
  then have "nb div k < m" by (simp only: mult_less_cancel1)
  with True show ?thesis by (simp add: blk_size_def)
next
  case False
  have "nb div k \<le> m" using assms by (metis div_le_mono nonzero_mult_div_cancel_left not_numeral_le_zero)
  with False show ?thesis by (simp add: blk_size_def)
qed

lemma locate_size:
  assumes "2 \<le> k" "fst iv \<le> r" "r < fst iv + snd iv" "snd iv \<le> k * m"
  shows "snd (locate k r iv) \<le> m"
proof -
  obtain i where "i < min k (snd iv)" "in_block k iv r i"
    using in_block_exists [of k "fst iv" r "snd iv"] assms by (cases iv) auto
  with locate_block blk_size_le [OF assms(1,4)] show ?thesis by simp
qed

section \<open>The degree and the number of levels\<close>

lemma fold_power: "fold (\<lambda>_ m. m * c) [0..<n] (1::nat) = c ^ n"
  by (induction n) simp_all

lemma find_degree_found: "1 \<le> c \<Longrightarrow> \<exists>k\<ge>2. find_degree n c = Some k"
proof (induction "n - c" arbitrary: c rule: less_induct)
  case less
  let ?m = "fold (\<lambda>_ m. m * (c + 1)) [0..<c + 1] 1"
  have m: "?m = (c + 1) ^ (c + 1)" by (rule fold_power)
  show ?case
  proof (cases "?m < n")
    case True
    have "c + 1 \<le> (c + 1) ^ (c + 1)" by (rule self_le_power) simp_all
    with True m less(2) have "n - (c + 1) < n - c" by simp
    from less(1) [OF this] obtain k where "2 \<le> k" "find_degree n (c + 1) = Some k" by auto
    with True show ?thesis by (subst find_degree.simps) (auto simp: Let_def)
  next
    case False
    with less(2) show ?thesis by (subst find_degree.simps) (simp add: Let_def)
  qed
qed

lemma find_degree_least:
  "1 \<le> c \<Longrightarrow> find_degree n c = Some k \<Longrightarrow> n \<le> k ^ k \<and> (\<forall>j. c < j \<and> j < k \<longrightarrow> j ^ j < n)"
proof (induction "n - c" arbitrary: c rule: less_induct)
  case less
  let ?m = "fold (\<lambda>_ m. m * (c + 1)) [0..<c + 1] 1"
  have m: "?m = (c + 1) ^ (c + 1)" by (rule fold_power)
  have eq: "(if ?m < n then find_degree n (c + 1) else Some (c + 1)) = Some k"
    using less.prems(2) find_degree.simps [of n c] unfolding Let_def by (simp only:)
  show ?case
  proof (cases "?m < n")
    case True
    have "c + 1 \<le> (c + 1) ^ (c + 1)" by (rule self_le_power) simp_all
    with True m less.prems(1) have "n - (c + 1) < n - c" by simp
    from less.hyps [OF this] eq True have ih: "n \<le> k ^ k" "\<forall>j. c + 1 < j \<and> j < k \<longrightarrow> j ^ j < n" by simp_all
    have "j ^ j < n" if "c < j" "j < k" for j
    proof (cases "j = c + 1")
      case True
      with \<open>?m < n\<close> m show ?thesis by (simp only:)
    qed (use ih(2) that in simp)
    with ih(1) show ?thesis by blast
  next
    case False
    with eq have "k = c + 1" by simp
    with False m have "n \<le> k ^ k" by (simp only: linorder_not_less)
    with \<open>k = c + 1\<close> show ?thesis by simp
  qed
qed

lemma count_levels_found:
  assumes "2 \<le> k" "1 \<le> sz"
  shows "\<exists>l. count_levels n k sz c = Some (c + l) \<and> n < sz * k ^ l \<and> (sz \<le> n \<longrightarrow> 0 < l)"
  using assms
proof (induction "n + 1 - sz" arbitrary: sz c rule: less_induct)
  case less
  show ?case
  proof (cases "sz \<le> n")
    case True
    have "sz * 2 \<le> sz * k" using less.prems(1) by (rule mult_le_mono2)
    with True less.prems(2) have "n + 1 - sz * k < n + 1 - sz" by linarith
    from less.hyps [OF this less.prems(1), of "c + 1"] less.prems
    obtain l where "count_levels n k (sz * k) (c + 1) = Some (c + 1 + l)" "n < sz * k * k ^ l" by auto
    with True show ?thesis
      by (subst count_levels.simps) (auto intro!: exI [where x = "Suc l"] simp: mult.assoc)
  next
    case False
    then show ?thesis by (subst count_levels.simps) auto
  qed
qed

section \<open>One level\<close>

text \<open>What a turn of the loop over the levels writes.\<close>

definition cut_result :: "nat \<Rightarrow> nat \<times> nat \<Rightarrow> event_tree \<Rightarrow> event_tree" where
  "cut_result k iv t = (let l = tr_level t; n = min k (snd iv)
     in t\<lparr>tr_level := l + 1, tr_parent := (tr_parent t)[l + 1 := fst iv],
          tr_child := (tr_child t)[l := map (blk_start k (fst iv) (snd iv)) [0..<n] @ drop n (tr_child t ! l)],
          tr_nbChild := (tr_nbChild t)[l := n]\<rparr>)"

lemma cut_level_eq:
  assumes k: "0 < k" and iv: "b \<le> r" "r < b + nb"
    and t: "tr_level t + 1 < length (tr_parent t)" "tr_level t < length (tr_child t)" "tr_level t < length (tr_nbChild t)"
      "length (tr_child t ! tr_level t) = k"
  shows "cut_level k r (b, b + nb - 1) t
    = Inr (let iv = locate k r (b, nb) in ((fst iv, fst iv + snd iv - 1), cut_result k (b, nb) t))"
proof -
  let ?l = "tr_level t" and ?row = "tr_child t ! tr_level t"
  let ?f = "\<lambda>i (pos, from, till, child, nbChild).
      let n = (if i < nb mod k then nb div k + 1 else nb div k);
          (from, till) = (if pos \<le> r \<and> r < pos + n then (pos, pos + n - 1) else (from, till))
      in obind (arr_get child (int ?l)) (\<lambda>row.
         obind (arr_set row (int i) pos) (\<lambda>row.
         obind (arr_set child (int ?l) row) (\<lambda>child.
         obind (arr_get nbChild (int ?l)) (\<lambda>c.
         omap (\<lambda>nbChild. (pos + n, from, till, child, nbChild)) (arr_set nbChild (int ?l) (c + 1))))))"
  define now where "now = (\<lambda>i. if r < blk_start k b nb i then (let iv = locate k r (b, nb) in (fst iv, fst iv + snd iv - 1)) else (b, b + nb - 1))"
  let ?P = "\<lambda>i (pos, from, till, child, nbChild). pos = blk_start k b nb i \<and> (from, till) = now i
     \<and> child = (tr_child t)[?l := map (blk_start k b nb) [0..<i] @ drop i ?row]
     \<and> nbChild = (tr_nbChild t)[?l := i]"
  have step: "now (Suc i) = (if blk_start k b nb i \<le> r \<and> r < blk_start k b nb i + blk_size k nb i
      then (blk_start k b nb i, blk_start k b nb i + blk_size k nb i - 1) else now i)" if "i < min k nb" for i
    using locate_block [of i k "(b, nb)" r] that by (auto simp: now_def in_block_def blk_start_simps)
  have "\<exists>s. ofold ?f [0..<min k nb] (b, b, b + nb - 1, tr_child t, (tr_nbChild t)[?l := 0]) = Inr s \<and> ?P (min k nb) s"
  proof (rule ofold_upto [where P = ?P])
    have "(tr_child t)[?l := ?row] = tr_child t" by simp
    then show "?P 0 (b, b, b + nb - 1, tr_child t, (tr_nbChild t)[?l := 0])"
      using iv by (simp add: blk_start_simps now_def)
  next
    fix i s assume i: "i < min k nb" and s: "?P i s"
    obtain pos f e ch nc where s': "s = (pos, f, e, ch, nc)" by (metis prod.exhaust)
    have row: "(map (blk_start k b nb) [0..<i] @ drop i ?row)[i := blk_start k b nb i]
        = map (blk_start k b nb) [0..<Suc i] @ drop (Suc i) ?row"
      using i t(4) by (simp add: list_update_append Cons_nth_drop_Suc [symmetric])
    have "?f i s = Inr (blk_start k b nb (Suc i), fst (now (Suc i)), snd (now (Suc i)),
        (tr_child t)[?l := map (blk_start k b nb) [0..<Suc i] @ drop (Suc i) ?row], (tr_nbChild t)[?l := Suc i])"
      using s t i row by (simp add: s' step blk_start_simps blk_size_def Let_def split: prod.splits)
    then show "\<exists>t. ?f i s = Inr t \<and> ?P (Suc i) t" by simp
  qed
  then obtain s where s: "ofold ?f [0..<min k nb] (b, b, b + nb - 1, tr_child t, (tr_nbChild t)[?l := 0]) = Inr s" "?P (min k nb) s"
    by blast
  have "now (min k nb) = (let iv = locate k r (b, nb) in (fst iv, fst iv + snd iv - 1))"
    using blk_start_all [OF k] iv by (simp add: now_def)
  with s(2) obtain pos where s': "s = (pos, fst (locate k r (b, nb)), fst (locate k r (b, nb)) + snd (locate k r (b, nb)) - 1,
      (tr_child t)[?l := map (blk_start k b nb) [0..<min k nb] @ drop (min k nb) ?row], (tr_nbChild t)[?l := min k nb])"
    by (auto simp: Let_def)
  have nb: "b + nb - 1 - b + 1 = nb" using iv by simp
  have set: "arr_set (tr_nbChild t) (int ?l) 0 = Inr ((tr_nbChild t)[?l := 0])"
    "arr_set (tr_parent t) (int ?l + 1) b = Inr ((tr_parent t)[?l + 1 := b])"
    using t by (simp_all add: nat_add_distrib)
  show ?thesis
    using s(1) unfolding s' cut_level_def prod.case Let_def nb set obind.simps cut_result_def by simp
qed

section \<open>The path of a process\<close>

primrec path :: "nat \<Rightarrow> nat \<Rightarrow> nat \<times> nat \<Rightarrow> nat \<Rightarrow> nat \<times> nat" where
  "path k r iv 0 = iv"
| "path k r iv (Suc l) = locate k r (path k r iv l)"

lemma path_shift: "path k r (locate k r iv) l = path k r iv (Suc l)"
  by (induction l) simp_all

text \<open>The levels from \<open>l\<close> on of a tree follow a path of \<open>d\<close> levels.\<close>

definition follows :: "nat \<Rightarrow> (nat \<Rightarrow> nat \<times> nat) \<Rightarrow> nat \<Rightarrow> nat \<Rightarrow> event_tree \<Rightarrow> bool" where
  "follows k p l d t \<longleftrightarrow> tr_level t = l + d \<and> l + d < length (tr_parent t) \<and> l + d \<le> length (tr_child t)
     \<and> l + d \<le> length (tr_nbChild t)
     \<and> (\<forall>j<d. tr_parent t ! (l + j + 1) = fst (p j) \<and> tr_nbChild t ! (l + j) = min k (snd (p j))
          \<and> min k (snd (p j)) \<le> length (tr_child t ! (l + j))
          \<and> (\<forall>i<min k (snd (p j)). tr_child t ! (l + j) ! i = blk_start k (fst (p j)) (snd (p j)) i))"

definition same_below :: "nat \<Rightarrow> event_tree \<Rightarrow> event_tree \<Rightarrow> bool" where
  "same_below l t t' \<longleftrightarrow> (\<forall>j\<le>l. tr_parent t' ! j = tr_parent t ! j)
     \<and> (\<forall>j<l. tr_nbChild t' ! j = tr_nbChild t ! j \<and> tr_child t' ! j = tr_child t ! j)"

definition room :: "nat \<Rightarrow> nat \<Rightarrow> event_tree \<Rightarrow> bool" where
  "room k D t \<longleftrightarrow> length (tr_parent t) = D + 1 \<and> length (tr_child t) = D + 1 \<and> length (tr_nbChild t) = D + 1
     \<and> (\<forall>i\<le>D. length (tr_child t ! i) = k)"

lemma room_cut: "room k D t \<Longrightarrow> tr_level t \<le> D \<Longrightarrow> room k D (cut_result k iv t)"
  by (auto simp: room_def cut_result_def Let_def nth_list_update)

lemma cut_levels_eq:
  assumes "2 \<le> k" "b \<le> r" "r < b + nb" "room k D t" "tr_level t < D" "nb \<le> k ^ (D - tr_level t)"
  shows "\<exists>t' d. cut_levels k r (b, b + nb - 1) t = Some (Inr t') \<and> 1 \<le> d \<and> snd (path k r (b, nb) d) = 1
    \<and> (\<forall>j. 1 \<le> j \<and> j < d \<longrightarrow> 1 < snd (path k r (b, nb) j))
    \<and> follows k (path k r (b, nb)) (tr_level t) d t' \<and> same_below (tr_level t) t t' \<and> length (tr_parent t') = D + 1"
  using assms
proof (induction "D - tr_level t" arbitrary: b nb t rule: less_induct)
  case less
  let ?l = "tr_level t" and ?t = "cut_result k (b, nb) t" and ?p = "path k r (b, nb)"
  obtain b' nb' where iv': "locate k r (b, nb) = (b', nb')" by (cases "locate k r (b, nb)")
  have "k ^ (D - ?l) = k * k ^ (D - Suc ?l)" using less.prems(5) by (simp add: Suc_diff_Suc flip: power_Suc)
  then have size: "nb' \<le> k ^ (D - Suc ?l)" using locate_size [OF less.prems(1), of "(b, nb)" r] less.prems iv' by simp
  have in': "b' \<le> r" "r < b' + nb'" using locate_in [of k "(b, nb)" r] less.prems iv' by simp_all
  have cut: "cut_level k r (b, b + nb - 1) t = Inr ((b', b' + nb' - 1), ?t)"
    using cut_level_eq [of k b r nb t] less.prems iv' by (auto simp: room_def)
  have lev: "tr_level ?t = Suc ?l" by (simp add: cut_result_def Let_def)
  have here: "tr_parent ?t ! Suc ?l = b" "tr_nbChild ?t ! ?l = min k nb" "same_below ?l t ?t"
    "min k nb \<le> length (tr_child ?t ! ?l)" "\<forall>i<min k nb. tr_child ?t ! ?l ! i = blk_start k b nb i"
    "length (tr_parent ?t) = D + 1"
    using less.prems(4,5) by (simp_all add: cut_result_def Let_def room_def same_below_def nth_append)
  have room': "room k D ?t" using room_cut less.prems(4,5) by simp
  show ?case
  proof (cases "1 < nb'")
    case False
    then have one: "nb' = 1" using in' by simp
    moreover have "cut_levels k r (b, b + nb - 1) t = Some (Inr ?t)"
      using one unfolding cut_levels.simps [of k r "(b, b + nb - 1)" t] cut by simp
    moreover have "follows k ?p ?l 1 ?t" using here lev room' less.prems(5) by (simp add: follows_def room_def)
    ultimately show ?thesis using here iv' by (intro exI [where x = ?t] exI [where x = 1]) simp
  next
    case True
    have "Suc ?l < D"
    proof (rule ccontr)
      assume "\<not> Suc ?l < D"
      then have "k ^ (D - Suc ?l) = 1" by simp
      with size True show False by simp
    qed
    moreover from this have "D - Suc ?l < D - ?l" by simp
    ultimately obtain t' d where t': "cut_levels k r (b', b' + nb' - 1) ?t = Some (Inr t')" "1 \<le> d"
      "snd (path k r (b', nb') d) = 1" "\<forall>j. 1 \<le> j \<and> j < d \<longrightarrow> 1 < snd (path k r (b', nb') j)"
      "follows k (path k r (b', nb')) (Suc ?l) d t'" "same_below (Suc ?l) ?t t'" "length (tr_parent t') = D + 1"
      using less.hyps [of ?t b' nb', unfolded lev, OF _ less.prems(1) in' room' _ size] by blast
    have p: "path k r (b', nb') j = ?p (Suc j)" for j using path_shift [of k r "(b, nb)" j] iv' by simp
    have "cut_levels k r (b, b + nb - 1) t = Some (Inr t')"
      using True in' t'(1) unfolding cut_levels.simps [of k r "(b, b + nb - 1)" t] cut by simp
    moreover have "\<forall>j. 1 \<le> j \<and> j < Suc d \<longrightarrow> 1 < snd (?p j)"
    proof (intro allI impI)
      fix j assume "1 \<le> j \<and> j < Suc d"
      then show "1 < snd (?p j)" using t'(4) True iv' p by (cases j; cases "j = 1") auto
    qed
    moreover have "follows k ?p ?l (Suc d) t'"
      unfolding follows_def
    proof (intro conjI allI impI)
      fix j assume j: "j < Suc d"
      show "tr_parent t' ! (?l + j + 1) = fst (?p j)" "tr_nbChild t' ! (?l + j) = min k (snd (?p j))"
        "min k (snd (?p j)) \<le> length (tr_child t' ! (?l + j))"
        using j t'(5,6) here p by (cases j; auto simp: follows_def same_below_def)+
      show "tr_child t' ! (?l + j) ! i = blk_start k (fst (?p j)) (snd (?p j)) i" if "i < min k (snd (?p j))" for i
        using j t'(5,6) here p that by (cases j) (auto simp: follows_def same_below_def)
    qed (use t'(5,7) in \<open>auto simp: follows_def\<close>)
    moreover have "same_below ?l t t'" using t'(6) here(3) by (simp add: same_below_def)
    ultimately show ?thesis using t'(2,3,7) p by (intro exI [where x = t'] exI [where x = "Suc d"]) simp
  qed
qed

section \<open>The tree\<close>

definition degree :: "nat \<Rightarrow> nat" where
  "degree n = the (find_degree n 1)"

definition spath :: "nat \<Rightarrow> nat \<Rightarrow> nat \<Rightarrow> nat \<times> nat" where
  "spath n r = path (degree n) r (0, n)"

definition depth :: "nat \<Rightarrow> nat \<Rightarrow> nat" where
  "depth n r = (LEAST d. 1 \<le> d \<and> snd (spath n r d) = 1)"

abbreviation leader :: "nat \<Rightarrow> nat \<Rightarrow> nat \<Rightarrow> nat" where
  "leader n r l \<equiv> fst (spath n r l)"

text \<open>The blocks below the node a process belongs to at a level.\<close>

definition nb_children :: "nat \<Rightarrow> nat \<Rightarrow> nat \<Rightarrow> nat" where
  "nb_children n r l = min (degree n) (snd (spath n r l))"

definition children :: "nat \<Rightarrow> nat \<Rightarrow> nat \<Rightarrow> nat list" where
  "children n r l = map (blk_start (degree n) (leader n r l) (snd (spath n r l))) [0..<nb_children n r l]"

lemma degree_ge: "2 \<le> degree n"
  using find_degree_found [of 1 n] by (auto simp: degree_def)

lemma init_tree_eq:
  assumes "r < n"
  shows "\<exists>t. init_tree n r = Inr t \<and> follows (degree n) (spath n r) 0 (depth n r) t \<and> tr_parent t ! 0 = 0
    \<and> 1 \<le> depth n r \<and> snd (spath n r (depth n r)) = 1 \<and> (\<forall>j. 1 \<le> j \<and> j < depth n r \<longrightarrow> 1 < snd (spath n r j))"
proof -
  have k: "find_degree n 1 = Some (degree n)" using find_degree_found [of 1 n] by (auto simp: degree_def)
  obtain D where D: "count_levels n (degree n) 1 0 = Some D" "n < degree n ^ D" "0 < D"
    using count_levels_found [OF degree_ge, of 1 n n 0] assms by auto
  let ?t = "\<lparr>tr_level = 0, tr_parent = replicate (D + 1) 0, tr_child = replicate (D + 1) (replicate (degree n) 0),
      tr_nbChild = replicate (D + 1) 0\<rparr>"
  have t: "room (degree n) D ?t" by (simp add: room_def del: replicate_Suc)
  have size: "n \<le> degree n ^ (D - tr_level ?t)" and lev: "tr_level ?t < D" using D(2,3) by simp_all
  have r: "(0::nat) \<le> r" "r < 0 + n" using assms by simp_all
  obtain t' d where t': "cut_levels (degree n) r (0, 0 + n - 1) ?t = Some (Inr t')"
    "1 \<le> d" "snd (path (degree n) r (0, n) d) = 1"
    "\<forall>j. 1 \<le> j \<and> j < d \<longrightarrow> 1 < snd (path (degree n) r (0, n) j)"
    "follows (degree n) (path (degree n) r (0, n)) (tr_level ?t) d t'" "same_below (tr_level ?t) ?t t'"
    using cut_levels_eq [OF degree_ge r t lev size] by blast
  have "depth n r = d"
    unfolding depth_def
  proof (rule Least_equality)
    show "1 \<le> d \<and> snd (spath n r d) = 1" using t'(2,3) by (simp add: spath_def)
    show "d \<le> j" if "1 \<le> j \<and> snd (spath n r j) = 1" for j
      using that t'(4) by (metis less_irrefl not_le spath_def)
  qed
  moreover have "init_tree n r = Inr t'" using k D(1) t'(1) by (simp add: init_tree_def)
  moreover have "tr_parent t' ! 0 = 0" using t'(6) by (simp add: same_below_def)
  ultimately show ?thesis using t'(2-5) by (simp add: spath_def)
qed

lemma spath_0 [simp]: "spath n r 0 = (0, n)"
  by (simp add: spath_def)

lemma spath_in:
  assumes "r < n"
  shows "leader n r l \<le> r \<and> r < leader n r l + snd (spath n r l)
    \<and> leader n r l + snd (spath n r l) \<le> n"
proof (induction l)
  case (Suc l)
  then show ?case using locate_in [of "degree n" "spath n r l" r] degree_ge [of n] by (simp add: spath_def)
qed (use assms in simp)

lemma locate_same:
  assumes "0 < k" "fst iv \<le> r" "r < fst iv + snd iv"
    "fst (locate k r iv) \<le> s" "s < fst (locate k r iv) + snd (locate k r iv)"
  shows "locate k s iv = locate k r iv"
proof -
  obtain b nb where iv: "iv = (b, nb)" by (cases iv)
  obtain i where i: "i < min k nb" "in_block k iv r i" using in_block_exists [of k b r nb] assms by (auto simp: iv)
  then have "in_block k iv s i" using assms(4,5) locate_block [of i k iv r] by (simp add: iv in_block_def)
  with i show ?thesis using locate_block [of i k iv r] locate_block [of i k iv s] by (simp add: iv)
qed

lemma spath_same:
  assumes "r < n" "leader n r l \<le> s" "s < leader n r l + snd (spath n r l)" "j \<le> l"
  shows "spath n s j = spath n r j"
  using assms(2,3,4)
proof (induction l arbitrary: j)
  case (Suc l)
  have k: "0 < degree n" using degree_ge [of n] by simp
  note r = spath_in [OF assms(1), of l]
  have step: "spath n x (Suc l) = locate (degree n) x (spath n x l)" for x by (simp add: spath_def)
  have s: "leader n r l \<le> s" "s < leader n r l + snd (spath n r l)"
    using locate_in [OF k, of "spath n r l" r] r Suc.prems(1,2) by (simp_all add: step)
  show ?case
  proof (cases "j = Suc l")
    case True
    have "spath n s l = spath n r l" using Suc.IH [OF s, of l] by simp
    with locate_same [OF k, of "spath n r l" r s] r Suc.prems(1,2) show ?thesis by (simp add: True step)
  qed (use Suc.IH [OF s] Suc.prems(3) in simp)
qed simp

text \<open>The process at the front of a block leads it.\<close>

lemma leader_leads:
  assumes "r < n" "j \<le> l"
  shows "leader n r l < n" "spath n (leader n r l) j = spath n r j"
proof -
  note i = spath_in [OF assms(1), of l]
  show "leader n r l < n" using i assms(1) by linarith
  show "spath n (leader n r l) j = spath n r j"
    by (rule spath_same [OF assms(1) _ _ assms(2)]) (use i in linarith)+
qed

lemma depth_facts:
  assumes "r < n"
  shows "1 \<le> depth n r" "spath n r (depth n r) = (r, 1)" "1 \<le> j \<Longrightarrow> j < depth n r \<Longrightarrow> 1 < snd (spath n r j)"
  using init_tree_eq [OF assms] spath_in [OF assms, of "depth n r"] by (auto simp: prod_eq_iff)

lemma depth_leader:
  assumes "r < n" "l < depth n r"
  shows "l < depth n (leader n r l)"
proof (rule ccontr)
  let ?p = "leader n r l"
  assume "\<not> l < depth n ?p"
  then have d: "depth n ?p \<le> l" by simp
  have "spath n ?p (depth n ?p) = (?p, 1)" by (rule depth_facts(2)) (rule leader_leads(1) [OF assms(1) order_refl])
  then have "snd (spath n r (depth n ?p)) = 1" unfolding leader_leads(2) [OF assms(1) d] by simp
  with depth_facts(3) [OF assms(1), of "depth n ?p"] depth_facts(1) [OF leader_leads(1) [OF assms(1) order_refl, of l]] d assms(2)
  show False by simp
qed

lemma set_children:
  assumes "r < n"
  shows "c \<in> set (children n r l) \<longleftrightarrow> (\<exists>s. s < n \<and> leader n r l \<le> s \<and> s < leader n r l + snd (spath n r l) \<and> c = leader n s (Suc l))"
proof -
  let ?iv = "spath n r l" and ?k = "degree n"
  have k: "0 < ?k" using degree_ge [of n] by simp
  note iv = spath_in [OF assms, of l]
  have loc: "leader n s (Suc l) = fst (locate ?k s ?iv)" if "leader n r l \<le> s" "s < leader n r l + snd ?iv" for s
    using spath_same [OF assms that order_refl] by (simp add: spath_def)
  show ?thesis
  proof
    assume "c \<in> set (children n r l)"
    then obtain i where i: "i < min ?k (snd ?iv)" "c = blk_start ?k (fst ?iv) (snd ?iv) i" by (auto simp: children_def nb_children_def)
    have b: "in_block ?k ?iv c i" using i blk_size_pos [OF k i(1)] by (simp add: in_block_def case_prod_beta)
    have "blk_start ?k (fst ?iv) (snd ?iv) (Suc i) \<le> blk_start ?k (fst ?iv) (snd ?iv) (min ?k (snd ?iv))"
      using i(1) by (intro blk_start_mono) simp
    moreover have "fst ?iv \<le> c" unfolding i(2) blk_start_def by simp
    moreover have "c < blk_start ?k (fst ?iv) (snd ?iv) (Suc i)"
      using b by (simp add: in_block_def blk_start_simps case_prod_beta)
    ultimately have c: "fst ?iv \<le> c" "c < fst ?iv + snd ?iv"
      using blk_start_all [OF k, of "fst ?iv" "snd ?iv"] by linarith+
    with iv loc locate_block [OF i(1) b] i(2)
    show "\<exists>s. s < n \<and> leader n r l \<le> s \<and> s < leader n r l + snd ?iv \<and> c = leader n s (Suc l)"
      by (intro exI [where x = c]) simp
  next
    assume "\<exists>s. s < n \<and> leader n r l \<le> s \<and> s < leader n r l + snd ?iv \<and> c = leader n s (Suc l)"
    then obtain s where s: "leader n r l \<le> s" "s < leader n r l + snd ?iv" "c = leader n s (Suc l)" by blast
    obtain i where i: "i < min ?k (snd ?iv)" "in_block ?k ?iv s i" using in_block_exists [OF k s(1,2)] by auto
    with s loc locate_block [OF i] show "c \<in> set (children n r l)" by (auto simp: children_def nb_children_def)
  qed
qed

lemma distinct_children: "distinct (children n r l)"
proof -
  let ?st = "blk_start (degree n) (leader n r l) (snd (spath n r l))"
  have k: "0 < degree n" using degree_ge [of n] by simp
  have "?st i < ?st j" if "i < j" "j < nb_children n r l" for i j
  proof -
    have "?st i < ?st (Suc i)" using blk_size_pos [OF k, of i] that by (simp add: blk_start_simps nb_children_def)
    also have "\<dots> \<le> ?st j" using that by (intro blk_start_mono) simp
    finally show ?thesis .
  qed
  then have "inj_on ?st (set [0..<nb_children n r l])"
    by (intro linorder_inj_onI') (metis atLeastLessThan_iff atLeast_upt lessThan_iff less_irrefl)
  then show ?thesis unfolding children_def distinct_map by simp
qed

lemma depth_same:
  assumes "r < n" "s < n" "spath n s l = spath n r l" "l < depth n r"
  shows "l < depth n s"
proof (rule ccontr)
  assume "\<not> l < depth n s"
  then have d: "depth n s \<le> l" by simp
  have i: "leader n r l \<le> s" "s < leader n r l + snd (spath n r l)"
    using spath_in [OF assms(2), of l] assms(3) by simp_all
  have "snd (spath n s (depth n s)) = 1" using depth_facts(2) [OF assms(2)] by simp
  then have "snd (spath n r (depth n s)) = 1" using spath_same [OF assms(1) i d] by simp
  with depth_facts(3) [OF assms(1), of "depth n s"] depth_facts(1) [OF assms(2)] d assms(4) show False by simp
qed

lemma children_of_leader:
  assumes "p < n" "l < depth n p" "leader n p l = p"
  shows "c \<in> set (children n p l) \<longleftrightarrow> (\<exists>s<n. l < depth n s \<and> leader n s l = p \<and> c = leader n s (Suc l))"
proof -
  have "(leader n p l \<le> s \<and> s < leader n p l + snd (spath n p l)) \<longleftrightarrow> (l < depth n s \<and> leader n s l = p)" if "s < n" for s
  proof
    assume "leader n p l \<le> s \<and> s < leader n p l + snd (spath n p l)"
    then have "spath n s l = spath n p l" using spath_same [OF assms(1), of l s l] by simp
    then show "l < depth n s \<and> leader n s l = p" using depth_same [OF assms(1) that _ assms(2)] assms(3) by simp
  next
    assume s: "l < depth n s \<and> leader n s l = p"
    then have "spath n p l = spath n s l" using leader_leads(2) [OF that order_refl, of l] by simp
    then show "leader n p l \<le> s \<and> s < leader n p l + snd (spath n p l)" using spath_in [OF that, of l] by simp
  qed
  then show ?thesis unfolding set_children [OF assms(1)] by blast
qed

end
