(* ===== verification/EventOrder.thy ===== *)
theory EventOrder
  imports EventTree
begin

text \<open>
  The protocol over one communicator.  What it needs of the tree is the locale \<open>sched_tree\<close>: \<open>dep r\<close>
  is the level of process \<open>r\<close>, \<open>ld r l\<close> the process that leads the node \<open>r\<close> belongs to at level \<open>l\<close>,
  and \<open>ch p l\<close> the processes that lead the nodes below that of \<open>p\<close>.
\<close>

section \<open>Traces\<close>

definition mlev :: "sevent \<Rightarrow> nat" where "mlev m = snd (snd (snd m))"

type_synonym event_id = "nat \<times> nat \<times> nat"

definition mev :: "sevent \<Rightarrow> event_id" where "mev m = (fst m, fst (snd m), fst (snd (snd m)))"

definition at_level :: "nat \<Rightarrow> sevent list \<Rightarrow> event_id list" where
  "at_level l ms = map mev (filter (\<lambda>m. mlev m = l) ms)"

text \<open>What process \<open>r\<close> handled from above at level \<open>l\<close>, and the events it took from its stack.\<close>

fun heard :: "nat \<Rightarrow> nat \<Rightarrow> sched_action \<Rightarrow> event_id list" where
  "heard r l (FromParent s p m) = (if s = r \<and> mlev m = l then [mev m] else [])"
| "heard r l a = []"

definition handled :: "sched_action list \<Rightarrow> nat \<Rightarrow> nat \<Rightarrow> event_id list" where
  "handled tr r l = concat (map (heard r l) tr)"

fun took :: "nat \<Rightarrow> sched_action \<Rightarrow> (nat \<times> nat) list" where
  "took r (Take s e) = (if s = r then [e] else [])"
| "took r a = []"

definition taken_by :: "sched_action list \<Rightarrow> nat \<Rightarrow> (nat \<times> nat) list" where
  "taken_by tr r = concat (map (took r) tr)"

fun actor :: "sched_action \<Rightarrow> nat" where
  "actor (Register s timeLine hashId) = s" | "actor (FromChild s m) = s"
| "actor (FromParent s p m) = s" | "actor (Take s e) = s"

lemma at_level_simps [simp]: "at_level l [] = []"
  "at_level l (m # ms) = (if mlev m = l then mev m # at_level l ms else at_level l ms)"
  "at_level l (ms @ ms') = at_level l ms @ at_level l ms'"
  by (simp_all add: at_level_def)

lemma handled_simps [simp]: "handled [] r l = []" "handled (tr @ [a]) r l = handled tr r l @ heard r l a"
  by (simp_all add: handled_def)

lemma taken_by_simps [simp]: "taken_by [] r = []" "taken_by (tr @ [a]) r = taken_by tr r @ took r a"
  by (simp_all add: taken_by_def)

lemma msg_simps [simp]: "mlev (a, b, c, l) = l" "mev (a, b, c, l) = (a, b, c)"
  by (simp_all add: mlev_def mev_def)

section \<open>One communicator\<close>

definition tree_for :: "nat \<Rightarrow> (nat \<Rightarrow> nat) \<Rightarrow> (nat \<Rightarrow> nat list) \<Rightarrow> event_tree \<Rightarrow> bool" where
  "tree_for d ld ch t \<longleftrightarrow> tr_level t = d \<and> (\<forall>l<d. arr_get (tr_parent t) (int (Suc l)) = Inr (ld l)
     \<and> arr_get (tr_nbChild t) (int l) = Inr (length (ch l))
     \<and> (\<exists>row. arr_get (tr_child t) (int l) = Inr row \<and> (\<forall>i<length (ch l). arr_get row (int i) = Inr (ch l ! i))))"

definition comm_of :: "nat \<Rightarrow> nat \<Rightarrow> (nat \<Rightarrow> nat) \<Rightarrow> (nat \<Rightarrow> nat \<Rightarrow> nat) \<Rightarrow> (nat \<Rightarrow> nat \<Rightarrow> nat list) \<Rightarrow> (nat \<Rightarrow> scheduler) \<Rightarrow> bool" where
  "comm_of cm n dep ld ch ss \<longleftrightarrow> (\<forall>r<n. sc_comm (ss r) = cm \<and> sc_rank (ss r) = r \<and> sc_parentScheduler (ss r) = None
     \<and> sc_childScheduler (ss r) = None \<and> tree_for (dep r) (ld r) (ch r) (sc_tree (ss r)))"

lemma comm_of_put:
  assumes "comm_of cm n dep ld ch (scheds w)" "sc_comm x = sc_comm (scheds w s)" "sc_rank x = sc_rank (scheds w s)"
    "sc_parentScheduler x = sc_parentScheduler (scheds w s)" "sc_childScheduler x = sc_childScheduler (scheds w s)"
    "sc_tree x = sc_tree (scheds w s)"
  shows "comm_of cm n dep ld ch (scheds (put_sched s x w))"
  using assms by (simp add: comm_of_def put_sched_def)

lemma put_sched_simps [simp]: "ups (put_sched s x w) = ups w" "downs (put_sched s x w) = downs w"
  "scheds (put_sched s x w) r = (if r = s then x else scheds w r)"
  by (simp_all add: put_sched_def)

text \<open>The messages of a broadcast, and of a registration.\<close>

definition bcast_to :: "nat \<Rightarrow> nat \<Rightarrow> nat list \<Rightarrow> sevent \<Rightarrow> world \<Rightarrow> world" where
  "bcast_to cm s cs m w = w\<lparr>downs := (\<lambda>c p q. if c = cm \<and> p = s \<and> q \<in> set cs then downs w c p q @ [m] else downs w c p q)\<rparr>"

definition post_up :: "nat \<Rightarrow> nat \<Rightarrow> sevent \<Rightarrow> world \<Rightarrow> world" where
  "post_up cm p m w = w\<lparr>ups := (\<lambda>c q. if c = cm \<and> q = p then ups w c q @ [m] else ups w c q)\<rparr>"

lemma bcastEvent_eq:
  assumes c: "comm_of cm n dep ld ch (scheds w)" and s: "s < n" "l < dep s" "distinct (ch s l)"
  shows "bcastEvent s (a, b, sl, l) w = Inr (bcast_to cm s (ch s l) (a, b, sl, Suc l) w)"
proof -
  let ?x = "scheds w s"
  have x: "sc_comm ?x = cm" "sc_rank ?x = s" "tree_for (dep s) (ld s) (ch s) (sc_tree ?x)"
    using c s(1) by (simp_all add: comm_of_def)
  obtain row where row: "arr_get (tr_child (sc_tree ?x)) (int l) = Inr row" "\<forall>i<length (ch s l). arr_get row (int i) = Inr (ch s l ! i)"
    using x(3) s(2) by (auto simp: tree_for_def)
  let ?f = "\<lambda>i w. obind (arr_get (tr_child (sc_tree ?x)) (int l)) (\<lambda>row. omap (\<lambda>c.
              w\<lparr>downs := (downs w)(sc_comm ?x := (downs w (sc_comm ?x))(sc_rank ?x := (downs w (sc_comm ?x) (sc_rank ?x))(c :=
                 downs w (sc_comm ?x) (sc_rank ?x) c @ [(a, b, sl, l + 1)])))\<rparr>)
            (arr_get row (int i)))"
  have "\<exists>t. ofold ?f [0..<length (ch s l)] w = Inr t \<and> t = bcast_to cm s (take (length (ch s l)) (ch s l)) (a, b, sl, Suc l) w"
  proof (rule ofold_upto [where P = "\<lambda>i t. t = bcast_to cm s (take i (ch s l)) (a, b, sl, Suc l) w"])
    fix i t assume i: "i < length (ch s l)" and t: "t = bcast_to cm s (take i (ch s l)) (a, b, sl, Suc l) w"
    have "ch s l ! i \<notin> set (take i (ch s l))" using s(3) i by (simp add: distinct_conv_nth in_set_conv_nth)
    then have "t\<lparr>downs := (downs t)(cm := (downs t cm)(s := (downs t cm s)(ch s l ! i := downs t cm s (ch s l ! i) @ [(a, b, sl, l + 1)])))\<rparr>
        = bcast_to cm s (take (Suc i) (ch s l)) (a, b, sl, Suc l) w"
      using i by (auto simp: t bcast_to_def take_Suc_conv_app_nth fun_eq_iff)
    with i row x show "\<exists>u. ?f i t = Inr u \<and> u = bcast_to cm s (take (Suc i) (ch s l)) (a, b, sl, Suc l) w"
      by simp
  qed (simp add: bcast_to_def)
  moreover have "arr_get (tr_nbChild (sc_tree ?x)) (int l) = Inr (length (ch s l))" using x(3) s(2) by (simp add: tree_for_def)
  ultimately show ?thesis by (simp add: bcastEvent_def Let_def)
qed

lemma send_up_eq:
  assumes c: "comm_of cm n dep ld ch (scheds w)" and s: "s < n" "l < dep s"
  shows "send_up s (a, b, sl, Suc l) w = Inr (post_up cm (ld s l) (a, b, sl, l) w)"
proof -
  have x: "sc_comm (scheds w s) = cm" "arr_get (tr_parent (sc_tree (scheds w s))) (int (Suc l)) = Inr (ld s l)"
    using c s by (simp_all add: comm_of_def tree_for_def)
  then show ?thesis by (auto simp: send_up_def post_up_def fun_eq_iff simp del: of_nat_Suc)
qed

section \<open>The effects of the steps\<close>

inductive_cases RegisterE: "sched_step w (Register s timeLine hashId) w'"
inductive_cases FromChildE: "sched_step w (FromChild s m) w'"
inductive_cases FromParentE: "sched_step w (FromParent s p m) w'"
inductive_cases TakeE: "sched_step w (Take s e) w'"

lemma comm_of_net [simp]: "comm_of cm n dep ld ch (scheds (bcast_to cm' s cs m w)) = comm_of cm n dep ld ch (scheds w)"
  "comm_of cm n dep ld ch (scheds (post_up cm' p m w)) = comm_of cm n dep ld ch (scheds w)"
  "scheds (bcast_to cm' s cs m w) = scheds w" "scheds (post_up cm' p m w) = scheds w"
  "ups (bcast_to cm' s cs m w) = ups w" "downs (post_up cm' p m w) = downs w"
  by (simp_all add: bcast_to_def post_up_def)

lemma register_effect:
  assumes "comm_of cm n dep ld ch (scheds w)" "s < n" "0 < dep s" "sched_step w (Register s timeLine hashId) w'"
  shows "w' = post_up cm (ld s (dep s - 1)) (timeLine, hashId, sc_schedulerLevel (scheds w s), dep s - 1) w"
proof -
  have x: "sc_childScheduler (scheds w s) = None" "tr_level (sc_tree (scheds w s)) = Suc (dep s - 1)"
    using assms(1-3) by (simp_all add: comm_of_def tree_for_def)
  have "getBaseScheduler w s = Some s" using x(1) by (subst getBaseScheduler.simps) simp
  moreover have "send_up s (timeLine, hashId, sc_schedulerLevel (scheds w s), Suc (dep s - 1)) w
      = Inr (post_up cm (ld s (dep s - 1)) (timeLine, hashId, sc_schedulerLevel (scheds w s), dep s - 1) w)"
    by (rule send_up_eq [OF assms(1,2)]) (use assms(3) in simp)
  ultimately show ?thesis using assms(4) x(2) by (auto elim!: RegisterE simp: registerEvent_def registerEvent_at_def)
qed

text \<open>The count of an event when one more message has come.\<close>

definition next_count :: "(sevent, int) std_map \<Rightarrow> sevent \<Rightarrow> int" where
  "next_count m e = (case map_of m e of None \<Rightarrow> 1 | Some k \<Rightarrow> k + 1)"

lemma child_effect:
  assumes c: "comm_of cm n dep ld ch (scheds w)" and s: "s < n" "l < dep s" "distinct (ch s l)"
    and step: "sched_step w (FromChild s (a, b, sl, l)) w'"
  defines "e \<equiv> (a, b, sl, l)"
  defines "k \<equiv> next_count (sc_recvEvent (scheds w s)) e"
  defines "full \<equiv> k = int (length (ch s l))"
  shows "comm_of cm n dep ld ch (scheds w')"
    and "sc_eventStack (scheds w' r) = sc_eventStack (scheds w r)"
    and "sc_schedulerLevel (scheds w' r) = sc_schedulerLevel (scheds w r)"
    and "sc_recvEvent (scheds w' r) = (if r = s then (if full then filter (\<lambda>(f, _). f \<noteq> e) (std_put e k (sc_recvEvent (scheds w s)))
           else std_put e k (sc_recvEvent (scheds w s))) else sc_recvEvent (scheds w r))"
    and "downs w' cm p q = (if full \<and> l = 0 \<and> p = s \<and> q \<in> set (ch s 0) then downs w cm p q @ [(a, b, sl, 1)] else downs w cm p q)"
    and "\<exists>ms ms'. ups w cm s = ms @ e # ms' \<and> (\<forall>q. ups w' cm q = (if q = s then ms @ ms' else ups w cm q)
           @ (if full \<and> l \<noteq> 0 \<and> q = ld s (l - 1) then [(a, b, sl, l - 1)] else []))"
proof -
  let ?x = "scheds w s"
  have x: "sc_comm ?x = cm" "sc_rank ?x = s" "sc_parentScheduler ?x = None"
    "arr_get (tr_nbChild (sc_tree ?x)) (int l) = Inr (length (ch s l))"
    using c s by (simp_all add: comm_of_def tree_for_def)
  from step obtain ms ms' where ms: "ups w cm s = ms @ e # ms'"
    and run: "checkChildRequest s e (w\<lparr>ups := (ups w)(cm := (ups w cm)(s := ms @ ms'))\<rparr>) = Inr w'"
    by (auto elim!: FromChildE simp: x e_def)
  define w1 where "w1 = put_sched s (?x\<lparr>sc_recvEvent := std_put e k (sc_recvEvent ?x)\<rparr>)
      (w\<lparr>ups := (ups w)(cm := (ups w cm)(s := ms @ ms'))\<rparr>)"
  have c1: "comm_of cm n dep ld ch (scheds w1)"
    unfolding w1_def by (rule comm_of_put) (use c in simp_all)
  define w2 where "w2 = (if \<not> full then w1 else if l = 0 then bcast_to cm s (ch s l) (a, b, sl, Suc l) w1
      else post_up cm (ld s (l - 1)) (a, b, sl, l - 1) w1)"
  have up: "l \<noteq> 0 \<Longrightarrow> send_up s (a, b, sl, l) w1 = Inr (post_up cm (ld s (l - 1)) (a, b, sl, l - 1) w1)"
    using send_up_eq [OF c1 s(1), of "l - 1" a b sl] s(2) by simp
  have bc: "bcastEvent s (a, b, sl, l) w1 = Inr (bcast_to cm s (ch s l) (a, b, sl, Suc l) w1)"
    by (rule bcastEvent_eq [where n = n and dep = dep and ld = ld]) (use c1 s in simp_all)
  have r: "checkChildRequest s e (w\<lparr>ups := (ups w)(cm := (ups w cm)(s := ms @ ms'))\<rparr>)
      = (if full then omap (\<lambda>w. put_sched s ((scheds w s)\<lparr>sc_recvEvent := filter (\<lambda>(f, _). f \<noteq> e) (sc_recvEvent (scheds w s))\<rparr>) w)
          (if l = 0 then (if sl = sc_schedulerLevel ?x then bcastEvent s e w1
                 else (case sc_parentScheduler ?x of None \<Rightarrow> Inl (UndefinedBehaviour ''null pointer'')
                       | Some p \<Rightarrow> registerEvent_at p a b sl w1))
           else send_up s e w1) else Inr w1)"
    by (simp add: checkChildRequest_def Let_def e_def full_def k_def next_count_def w1_def x(4) split: option.split)
  then have w': "w' = (if full then put_sched s ((scheds w2 s)\<lparr>sc_recvEvent := filter (\<lambda>(f, _). f \<noteq> e) (sc_recvEvent (scheds w2 s))\<rparr>) w2 else w1)"
    using run up bc x(3) unfolding w2_def by (auto simp: e_def split: if_splits)
  have sch: "scheds w2 = scheds w1" by (simp add: w2_def)
  show "comm_of cm n dep ld ch (scheds w')"
  proof (cases full)
    case True
    then have "w' = put_sched s ((scheds w2 s)\<lparr>sc_recvEvent := filter (\<lambda>(f, _). f \<noteq> e) (sc_recvEvent (scheds w2 s))\<rparr>) w2" by (simp add: w')
    then show ?thesis by (simp only:) (rule comm_of_put, use c1 sch in simp_all)
  qed (use w' c1 in simp)
  show "sc_eventStack (scheds w' r) = sc_eventStack (scheds w r)" "sc_schedulerLevel (scheds w' r) = sc_schedulerLevel (scheds w r)"
    "sc_recvEvent (scheds w' r) = (if r = s then (if full then filter (\<lambda>(f, _). f \<noteq> e) (std_put e k (sc_recvEvent (scheds w s)))
           else std_put e k (sc_recvEvent (scheds w s))) else sc_recvEvent (scheds w r))"
    by (simp_all add: w' sch) (simp_all add: w1_def)
  show "downs w' cm p q = (if full \<and> l = 0 \<and> p = s \<and> q \<in> set (ch s 0) then downs w cm p q @ [(a, b, sl, 1)] else downs w cm p q)"
    by (simp add: w' w2_def bcast_to_def w1_def)
  show "\<exists>ms ms'. ups w cm s = ms @ e # ms' \<and> (\<forall>q. ups w' cm q = (if q = s then ms @ ms' else ups w cm q)
           @ (if full \<and> l \<noteq> 0 \<and> q = ld s (l - 1) then [(a, b, sl, l - 1)] else []))"
    by (rule exI [where x = ms], rule exI [where x = ms']) (simp add: ms w' w2_def post_up_def w1_def)
qed

lemma parent_effect:
  assumes c: "comm_of cm n dep ld ch (scheds w)" and s: "s < n" "l \<le> dep s" "distinct (ch s l)"
    and step: "sched_step w (FromParent s p (a, b, sl, l)) w'"
  shows "comm_of cm n dep ld ch (scheds w')"
    and "ups w' = ups w" and "sc_recvEvent (scheds w' r) = sc_recvEvent (scheds w r)"
    and "sc_schedulerLevel (scheds w' r) = sc_schedulerLevel (scheds w r)"
    and "sc_eventStack (scheds w' r) = (if r = s \<and> l = dep s then sc_eventStack (scheds w r) @ [(a, b)] else sc_eventStack (scheds w r))"
    and "\<exists>ms. downs w cm p s = (a, b, sl, l) # ms \<and> (\<forall>p' q. downs w' cm p' q = (if p' = p \<and> q = s then ms else downs w cm p' q)
           @ (if l < dep s \<and> p' = s \<and> q \<in> set (ch s l) then [(a, b, sl, Suc l)] else []))"
proof -
  let ?x = "scheds w s"
  have x: "sc_comm ?x = cm" "sc_rank ?x = s" "sc_childScheduler ?x = None" "tr_level (sc_tree ?x) = dep s"
    using c s by (simp_all add: comm_of_def tree_for_def)
  from step obtain ms where ms: "downs w cm p s = (a, b, sl, l) # ms"
    and run: "checkParentRequest s (a, b, sl, l) (w\<lparr>downs := (downs w)(cm := (downs w cm)(p := (downs w cm p)(s := ms)))\<rparr>) = Inr w'"
    by (auto elim!: FromParentE simp: x)
  define w1 where "w1 = w\<lparr>downs := (downs w)(cm := (downs w cm)(p := (downs w cm p)(s := ms)))\<rparr>"
  have c1: "comm_of cm n dep ld ch (scheds w1)" using c by (simp add: w1_def)
  have w': "w' = (if l = dep s then put_sched s (?x\<lparr>sc_eventStack := sc_eventStack ?x @ [(a, b)]\<rparr>) w1
      else bcast_to cm s (ch s l) (a, b, sl, Suc l) w1)"
  proof (cases "l = dep s")
    case True
    then show ?thesis using run x by (simp add: checkParentRequest_def Let_def w1_def)
  next
    case False
    then have "bcastEvent s (a, b, sl, l) w1 = Inr (bcast_to cm s (ch s l) (a, b, sl, Suc l) w1)"
      using s by (intro bcastEvent_eq [OF c1]) simp_all
    with run x False show ?thesis by (simp add: checkParentRequest_def Let_def w1_def)
  qed
  show "comm_of cm n dep ld ch (scheds w')"
  proof (cases "l = dep s")
    case True
    then show ?thesis unfolding w' by simp (rule comm_of_put [OF c1], simp_all add: w1_def)
  qed (use c1 in \<open>simp add: w'\<close>)
  show "ups w' = ups w" "sc_recvEvent (scheds w' r) = sc_recvEvent (scheds w r)"
    "sc_schedulerLevel (scheds w' r) = sc_schedulerLevel (scheds w r)"
    "sc_eventStack (scheds w' r) = (if r = s \<and> l = dep s then sc_eventStack (scheds w r) @ [(a, b)] else sc_eventStack (scheds w r))"
    by (simp_all add: w' w1_def)
  show "\<exists>ms. downs w cm p s = (a, b, sl, l) # ms \<and> (\<forall>p' q. downs w' cm p' q = (if p' = p \<and> q = s then ms else downs w cm p' q)
           @ (if l < dep s \<and> p' = s \<and> q \<in> set (ch s l) then [(a, b, sl, Suc l)] else []))"
    using s(2) by (intro exI [where x = ms]) (auto simp: ms w' w1_def bcast_to_def)
qed

lemma take_effect:
  assumes "comm_of cm n dep ld ch (scheds w)" "sched_step w (Take s e) w'"
  shows "comm_of cm n dep ld ch (scheds w')" "ups w' = ups w" "downs w' = downs w"
    "sc_recvEvent (scheds w' r) = sc_recvEvent (scheds w r)" "sc_schedulerLevel (scheds w' r) = sc_schedulerLevel (scheds w r)"
    "sc_eventStack (scheds w s) = e # sc_eventStack (scheds w' s)" "r \<noteq> s \<Longrightarrow> sc_eventStack (scheds w' r) = sc_eventStack (scheds w r)"
proof -
  from assms(2) obtain es where es: "sc_eventStack (scheds w s) = e # es"
    "w' = put_sched s ((scheds w s)\<lparr>sc_eventStack := es\<rparr>) w"
    by (auto elim!: TakeE simp: queryEvent_def popEvent_def split: list.splits)
  show "comm_of cm n dep ld ch (scheds w')" unfolding es(2) by (rule comm_of_put [OF assms(1)]) simp_all
  show "ups w' = ups w" "downs w' = downs w" "sc_recvEvent (scheds w' r) = sc_recvEvent (scheds w r)"
    "sc_schedulerLevel (scheds w' r) = sc_schedulerLevel (scheds w r)"
    "sc_eventStack (scheds w s) = e # sc_eventStack (scheds w' s)" "r \<noteq> s \<Longrightarrow> sc_eventStack (scheds w' r) = sc_eventStack (scheds w r)"
    by (simp_all add: es)
qed

end
