(* ===== verification/EventSequence.thy ===== *)
theory EventSequence
  imports EventOrder "HOL-Library.Sublist"
begin

text \<open>
  The order of the events over one communicator.  A node of the tree is a process with a level; the
  sequence of events that the process of a node has handled, followed by those in flight to it, is
  the sequence handled by the process of the node above, up to the root and the order it fixed.
\<close>

section \<open>What the protocol needs of the tree\<close>

definition node :: "nat \<Rightarrow> (nat \<Rightarrow> nat) \<Rightarrow> (nat \<Rightarrow> nat \<Rightarrow> nat) \<Rightarrow> nat \<Rightarrow> nat \<Rightarrow> bool" where
  "node n dep ld p l \<longleftrightarrow> p < n \<and> l \<le> dep p \<and> ld p l = p"

locale sched_tree =
  fixes n :: nat and dep :: "nat \<Rightarrow> nat" and ld :: "nat \<Rightarrow> nat \<Rightarrow> nat" and ch :: "nat \<Rightarrow> nat \<Rightarrow> nat list"
  assumes dep_pos: "r < n \<Longrightarrow> 0 < dep r"
    and ld_dep: "r < n \<Longrightarrow> ld r (dep r) = r"
    and ld_less: "r < n \<Longrightarrow> ld r l < n"
    and ld_0: "r < n \<Longrightarrow> ld r 0 = 0"
    and ld_ld: "r < n \<Longrightarrow> j \<le> l \<Longrightarrow> ld (ld r l) j = ld r j"
    and dep_ld: "r < n \<Longrightarrow> l < dep r \<Longrightarrow> l < dep (ld r l)"
    and set_ch: "node n dep ld p l \<Longrightarrow> l < dep p \<Longrightarrow> q \<in> set (ch p l) \<longleftrightarrow> node n dep ld q (Suc l) \<and> ld q l = p"
    and distinct_ch: "distinct (ch p l)"

text \<open>What is in flight.\<close>

definition msl :: "sevent \<Rightarrow> nat" where "msl m = fst (snd (snd m))"

definition down_ok :: "nat \<Rightarrow> (nat \<Rightarrow> nat) \<Rightarrow> (nat \<Rightarrow> nat \<Rightarrow> nat) \<Rightarrow> nat \<Rightarrow> nat \<Rightarrow> nat \<Rightarrow> sevent \<Rightarrow> bool" where
  "down_ok n dep ld lv p q m \<longleftrightarrow> msl m = lv \<and> 0 < mlev m \<and> node n dep ld q (mlev m) \<and> ld q (mlev m - 1) = p"

definition up_ok :: "nat \<Rightarrow> (nat \<Rightarrow> nat) \<Rightarrow> (nat \<Rightarrow> nat \<Rightarrow> nat) \<Rightarrow> nat \<Rightarrow> nat \<Rightarrow> sevent \<Rightarrow> bool" where
  "up_ok n dep ld lv p m \<longleftrightarrow> msl m = lv \<and> node n dep ld p (mlev m) \<and> mlev m < dep p"

definition net_ok :: "nat \<Rightarrow> (nat \<Rightarrow> nat) \<Rightarrow> (nat \<Rightarrow> nat \<Rightarrow> nat) \<Rightarrow> nat \<Rightarrow> nat \<Rightarrow> world \<Rightarrow> bool" where
  "net_ok n dep ld cm lv w \<longleftrightarrow> (\<forall>p q. \<forall>m\<in>set (downs w cm p q). down_ok n dep ld lv p q m)
     \<and> (\<forall>p. \<forall>m\<in>set (ups w cm p). up_ok n dep ld lv p m) \<and> (\<forall>r<n. sc_schedulerLevel (scheds w r) = lv)"

lemma msl_simps [simp]: "msl (a, b, c, l) = c"
  by (simp add: msl_def)

definition seq_ok :: "nat \<Rightarrow> (nat \<Rightarrow> nat) \<Rightarrow> (nat \<Rightarrow> nat \<Rightarrow> nat) \<Rightarrow> nat \<Rightarrow> world \<Rightarrow> sched_action list \<Rightarrow> event_id list \<Rightarrow> bool" where
  "seq_ok n dep ld cm w tr B \<longleftrightarrow> (\<forall>q l. node n dep ld q (Suc l) \<longrightarrow>
     (if l = 0 then B else handled tr (ld q l) l) = handled tr q (Suc l) @ at_level (Suc l) (downs w cm (ld q l) q))"

definition stack_ok :: "nat \<Rightarrow> (nat \<Rightarrow> nat) \<Rightarrow> world \<Rightarrow> sched_action list \<Rightarrow> bool" where
  "stack_ok n dep w tr \<longleftrightarrow>
     (\<forall>r<n. map (\<lambda>(a, b, c). (a, b)) (handled tr r (dep r)) = taken_by tr r @ sc_eventStack (scheds w r))"

text \<open>The event that a step puts at the end of the order: its last registration reaches the root.\<close>

fun decided :: "(nat \<Rightarrow> nat \<Rightarrow> nat list) \<Rightarrow> world \<Rightarrow> sched_action \<Rightarrow> event_id list" where
  "decided ch w (FromChild s m) =
     (if mlev m = 0 \<and> next_count (sc_recvEvent (scheds w s)) m = int (length (ch s 0)) then [mev m] else [])"
| "decided ch w act = []"

section \<open>Preservation\<close>

context sched_tree
begin

lemma node_ld: "r < n \<Longrightarrow> l \<le> dep r \<Longrightarrow> node n dep ld (ld r l) l"
proof (cases "l = dep r")
  case False
  assume "r < n" "l \<le> dep r"
  with False dep_ld [of r l] ld_less [of r l] ld_ld [of r l l] show ?thesis by (simp add: node_def)
qed (simp add: node_def ld_dep)

lemma node_up:
  assumes "node n dep ld q (Suc l)"
  shows "node n dep ld (ld q l) l" "l < dep (ld q l)" "q \<in> set (ch (ld q l) l)"
proof -
  have q: "q < n" "l < dep q" using assms by (simp_all add: node_def)
  show "node n dep ld (ld q l) l" using node_ld q by simp
  moreover show "l < dep (ld q l)" by (rule dep_ld [OF q])
  ultimately show "q \<in> set (ch (ld q l) l)" using set_ch assms by simp
qed

lemma node_0: "node n dep ld p 0 \<Longrightarrow> p = 0"
  using ld_0 [of p] by (simp add: node_def)

lemma from_child_ok:
  assumes "net_ok n dep ld cm lv w" "comm_of cm n dep ld ch (scheds w)" "s < n" "sched_step w (FromChild s m) w'"
  shows "up_ok n dep ld lv s m"
proof -
  have "sc_comm (scheds w s) = cm" "sc_rank (scheds w s) = s" using assms(2,3) by (simp_all add: comm_of_def)
  then have "m \<in> set (ups w cm s)" using assms(4) by (auto elim!: FromChildE)
  with assms(1) show ?thesis by (simp add: net_ok_def)
qed

lemma from_parent_ok:
  assumes "net_ok n dep ld cm lv w" "comm_of cm n dep ld ch (scheds w)" "s < n" "sched_step w (FromParent s p m) w'"
  shows "down_ok n dep ld lv p s m"
proof -
  have "sc_comm (scheds w s) = cm" "sc_rank (scheds w s) = s" using assms(2,3) by (simp_all add: comm_of_def)
  then have "m \<in> set (downs w cm p s)" using assms(4) by (auto elim!: FromParentE)
  with assms(1) show ?thesis by (simp add: net_ok_def)
qed

lemma net_step:
  assumes net: "net_ok n dep ld cm lv w" and c: "comm_of cm n dep ld ch (scheds w)"
    and s: "actor act < n" and step: "sched_step w act w'"
  shows "net_ok n dep ld cm lv w' \<and> comm_of cm n dep ld ch (scheds w')"
proof (cases act)
  case (Register s t h)
  with s step have s': "s < n" "sched_step w (Register s t h) w'" by simp_all
  note d = dep_pos [OF s'(1)]
  have w': "w' = post_up cm (ld s (dep s - 1)) (t, h, lv, dep s - 1) w"
    using register_effect [OF c s'(1) d s'(2)] net s'(1) by (simp add: net_ok_def)
  have "node n dep ld (ld s (dep s - 1)) (dep s - 1)" "dep s - 1 < dep (ld s (dep s - 1))"
    using node_ld [of s "dep s - 1"] dep_ld [of s "dep s - 1"] s'(1) d by simp_all
  then have "up_ok n dep ld lv (ld s (dep s - 1)) (t, h, lv, dep s - 1)" by (simp add: up_ok_def)
  then show ?thesis using net c unfolding w' by (auto simp: net_ok_def post_up_def)
next
  case (FromChild s m)
  obtain a b sl l where m: "m = (a, b, sl, l)" by (cases m) auto
  have s': "s < n" "sched_step w (FromChild s (a, b, sl, l)) w'" using s step FromChild m by simp_all
  have "up_ok n dep ld lv s (a, b, sl, l)" by (rule from_child_ok [OF net c s'])
  then have up: "sl = lv" "node n dep ld s l" "l < dep s" by (simp_all add: up_ok_def)
  note eff = child_effect [OF c s'(1) up(3) distinct_ch s'(2)]
  have "down_ok n dep ld lv p q e" if "e \<in> set (downs w' cm p q)" for p q e
  proof (cases "e \<in> set (downs w cm p q)")
    case False
    with that have "l = 0" "p = s" "q \<in> set (ch s 0)" "e = (a, b, sl, 1)" unfolding eff(5) by (auto split: if_splits)
    then show ?thesis using set_ch [of s 0 q] up by (simp add: down_ok_def)
  qed (use net in \<open>simp add: net_ok_def\<close>)
  moreover have "up_ok n dep ld lv q e" if "e \<in> set (ups w' cm q)" for q e
  proof (cases "e \<in> set (ups w cm q)")
    case False
    from eff(6) obtain ms ms' where ms: "ups w cm s = ms @ (a, b, sl, l) # ms'"
      and u: "ups w' cm q = (if q = s then ms @ ms' else ups w cm q) @ (if next_count (sc_recvEvent (scheds w s)) (a, b, sl, l) = int (length (ch s l)) \<and> l \<noteq> 0 \<and> q = ld s (l - 1) then [(a, b, sl, l - 1)] else [])"
      by blast
    have "e \<notin> set (if q = s then ms @ ms' else ups w cm q)" using False ms by auto
    with that have "l \<noteq> 0 \<and> q = ld s (l - 1) \<and> e = (a, b, sl, l - 1)" unfolding u by (auto split: if_splits)
    then have "l \<noteq> 0" "q = ld s (l - 1)" "e = (a, b, sl, l - 1)" by simp_all
    then show ?thesis using node_up [of s "l - 1"] up by (simp add: up_ok_def)
  qed (use net in \<open>simp add: net_ok_def\<close>)
  ultimately show ?thesis using eff(1) eff(3) net by (simp add: net_ok_def)
next
  case (FromParent s p m)
  obtain a b sl l where m: "m = (a, b, sl, l)" by (cases m) auto
  have s': "s < n" "sched_step w (FromParent s p (a, b, sl, l)) w'" using s step FromParent m by simp_all
  have "down_ok n dep ld lv p s (a, b, sl, l)" by (rule from_parent_ok [OF net c s'])
  then have d: "sl = lv" "0 < l" "node n dep ld s l" "ld s (l - 1) = p" "l \<le> dep s" by (simp_all add: down_ok_def node_def)
  note eff = parent_effect [OF c s'(1) d(5) distinct_ch s'(2)]
  have "down_ok n dep ld lv p' q e" if "e \<in> set (downs w' cm p' q)" for p' q e
  proof (cases "e \<in> set (downs w cm p' q)")
    case False
    from eff(6) obtain ms where ms: "downs w cm p s = (a, b, sl, l) # ms"
      and u: "downs w' cm p' q = (if p' = p \<and> q = s then ms else downs w cm p' q)
        @ (if l < dep s \<and> p' = s \<and> q \<in> set (ch s l) then [(a, b, sl, Suc l)] else [])" by blast
    have "e \<notin> set (if p' = p \<and> q = s then ms else downs w cm p' q)" using False ms by auto
    with that have "l < dep s \<and> p' = s \<and> q \<in> set (ch s l) \<and> e = (a, b, sl, Suc l)" unfolding u by (auto split: if_splits)
    then have "l < dep s" "p' = s" "q \<in> set (ch s l)" "e = (a, b, sl, Suc l)" by simp_all
    then show ?thesis using set_ch [of s l q] d by (simp add: down_ok_def)
  qed (use net in \<open>simp add: net_ok_def\<close>)
  then show ?thesis using eff(1,2,4) net by (simp add: net_ok_def)
next
  case (Take s e)
  with s step have s': "s < n" "sched_step w (Take s e) w'" by simp_all
  show ?thesis using take_effect [OF c s'(2)] net by (simp add: net_ok_def)
qed

lemma seq_step:
  assumes net: "net_ok n dep ld cm lv w" and c: "comm_of cm n dep ld ch (scheds w)" and seq: "seq_ok n dep ld cm w tr B"
    and s: "actor act < n" and step: "sched_step w act w'"
  shows "seq_ok n dep ld cm w' (tr @ [act]) (B @ decided ch w act)"
proof (cases act)
  case (Register s t h)
  with s step have s': "s < n" "sched_step w (Register s t h) w'" by simp_all
  have "downs w' = downs w" using register_effect [OF c s'(1) dep_pos [OF s'(1)] s'(2)] by simp
  moreover have "handled (tr @ [act]) r l = handled tr r l" "decided ch w act = []" for r l by (simp_all add: Register)
  ultimately show ?thesis using seq by (simp only: seq_ok_def append_Nil2)
next
  case (FromChild s m)
  obtain a b sl l where m: "m = (a, b, sl, l)" by (cases m) auto
  have s': "s < n" "sched_step w (FromChild s (a, b, sl, l)) w'" using s step FromChild m by simp_all
  have "up_ok n dep ld lv s (a, b, sl, l)" by (rule from_child_ok [OF net c s'])
  then have up: "node n dep ld s l" "l < dep s" by (simp_all add: up_ok_def)
  note eff = child_effect [OF c s'(1) up(2) distinct_ch s'(2)]
  let ?full = "next_count (sc_recvEvent (scheds w s)) (a, b, sl, l) = int (length (ch s l))"
  show ?thesis unfolding seq_ok_def
  proof (intro allI impI)
    fix q k assume q: "node n dep ld q (Suc k)"
    have "at_level (Suc k) (downs w' cm (ld q k) q)
        = at_level (Suc k) (downs w cm (ld q k) q) @ (if ?full \<and> l = 0 \<and> k = 0 then [(a, b, sl)] else [])"
    proof (cases "?full \<and> l = 0 \<and> k = 0")
      case True
      have "ld q 0 = 0" "s = 0" using node_0 node_up [OF q] up True by simp_all
      then show ?thesis using True node_up [OF q] unfolding eff(5) by simp
    qed (auto simp: eff(5))
    have base: "(if k = 0 then B else handled tr (ld q k) k) = handled tr q (Suc k) @ at_level (Suc k) (downs w cm (ld q k) q)"
      using seq q unfolding seq_ok_def by blast
    with \<open>at_level (Suc k) (downs w' cm (ld q k) q) = _\<close> show "(if k = 0 then B @ decided ch w act else handled (tr @ [act]) (ld q k) k)
        = handled (tr @ [act]) q (Suc k) @ at_level (Suc k) (downs w' cm (ld q k) q)"
      by (auto simp: FromChild m split: if_splits)
  qed
next
  case (FromParent s p m)
  obtain a b sl l where m: "m = (a, b, sl, l)" by (cases m) auto
  have s': "s < n" "sched_step w (FromParent s p (a, b, sl, l)) w'" using s step FromParent m by simp_all
  have "down_ok n dep ld lv p s (a, b, sl, l)" by (rule from_parent_ok [OF net c s'])
  then have d: "0 < l" "node n dep ld s l" "ld s (l - 1) = p" "l \<le> dep s" by (simp_all add: down_ok_def node_def)
  obtain ms where ms: "downs w cm p s = (a, b, sl, l) # ms"
    and down: "\<And>p' q. downs w' cm p' q = (if p' = p \<and> q = s then ms else downs w cm p' q)
           @ (if l < dep s \<and> p' = s \<and> q \<in> set (ch s l) then [(a, b, sl, Suc l)] else [])"
    using parent_effect(6) [OF c s'(1) d(4) distinct_ch s'(2)] by blast
  show ?thesis unfolding seq_ok_def
  proof (intro allI impI)
    fix q k assume q: "node n dep ld q (Suc k)"
    note qu = node_up [OF q]
    have here: "ld q k = p" if "q = s" "Suc k = l" using that d by auto
    have from_s: "l < dep s \<and> q \<in> set (ch s l)" if "ld q k = s" "k = l" using that qu by simp
    have l1: "at_level (Suc k) (downs w cm (ld q k) q) = (if q = s \<and> Suc k = l then [(a, b, sl)] else [])
        @ at_level (Suc k) (if ld q k = p \<and> q = s then ms else downs w cm (ld q k) q)"
      using here ms by auto
    have l2: "at_level (Suc k) (downs w' cm (ld q k) q)
        = at_level (Suc k) (if ld q k = p \<and> q = s then ms else downs w cm (ld q k) q) @ (if ld q k = s \<and> k = l then [(a, b, sl)] else [])"
      using from_s unfolding down by auto
    have base: "(if k = 0 then B else handled tr (ld q k) k) = handled tr q (Suc k) @ at_level (Suc k) (downs w cm (ld q k) q)"
      using seq q unfolding seq_ok_def by blast
    have h: "handled (tr @ [act]) r j = handled tr r j @ (if r = s \<and> j = l then [(a, b, sl)] else [])" "decided ch w act = []" for r j
      by (auto simp: FromParent m)
    show "(if k = 0 then B @ decided ch w act else handled (tr @ [act]) (ld q k) k)
        = handled (tr @ [act]) q (Suc k) @ at_level (Suc k) (downs w' cm (ld q k) q)"
      unfolding h l2 using base d(1) unfolding l1 by (cases "k = 0") (simp_all add: append_assoc)
  qed
next
  case (Take s e)
  with s step have s': "s < n" "sched_step w (Take s e) w'" by simp_all
  show ?thesis using take_effect(3) [OF c s'(2)] seq by (simp only: seq_ok_def Take handled_simps heard.simps decided.simps append_Nil2)
qed

lemma stack_step:
  assumes net: "net_ok n dep ld cm lv w" and c: "comm_of cm n dep ld ch (scheds w)" and st: "stack_ok n dep w tr"
    and s: "actor act < n" and step: "sched_step w act w'"
  shows "stack_ok n dep w' (tr @ [act])"
proof (cases act)
  case (Register s t h)
  with s step have s': "s < n" "sched_step w (Register s t h) w'" by simp_all
  show ?thesis using register_effect [OF c s'(1) dep_pos [OF s'(1)] s'(2)] st by (simp add: stack_ok_def Register)
next
  case (FromChild s m)
  obtain a b sl l where m: "m = (a, b, sl, l)" by (cases m) auto
  have s': "s < n" "sched_step w (FromChild s (a, b, sl, l)) w'" using s step FromChild m by simp_all
  have "up_ok n dep ld lv s (a, b, sl, l)" by (rule from_child_ok [OF net c s'])
  then have "l < dep s" by (simp add: up_ok_def)
  from child_effect(2) [OF c s'(1) this distinct_ch s'(2)] show ?thesis using st by (simp add: stack_ok_def FromChild)
next
  case (FromParent s p m)
  obtain a b sl l where m: "m = (a, b, sl, l)" by (cases m) auto
  have s': "s < n" "sched_step w (FromParent s p (a, b, sl, l)) w'" using s step FromParent m by simp_all
  have "down_ok n dep ld lv p s (a, b, sl, l)" by (rule from_parent_ok [OF net c s'])
  then have "l \<le> dep s" by (simp add: down_ok_def node_def)
  from parent_effect(5) [OF c s'(1) this distinct_ch s'(2)] show ?thesis using st by (auto simp: stack_ok_def FromParent m)
next
  case (Take s e)
  with s step have s': "s < n" "sched_step w (Take s e) w'" by simp_all
  show ?thesis using take_effect(6,7) [OF c s'(2)] st by (auto simp: stack_ok_def Take)
qed

lemma handled_prefix:
  assumes seq: "seq_ok n dep ld cm w tr B" and r: "r < n"
  shows "l < dep r \<Longrightarrow> prefix (handled tr (ld r (Suc l)) (Suc l)) B"
proof (induction l)
  case 0
  then have "node n dep ld (ld r 1) 1" using node_ld [of r 1] r by simp
  with seq have "B = handled tr (ld r 1) 1 @ at_level 1 (downs w cm (ld (ld r 1) 0) (ld r 1))"
    unfolding seq_ok_def by fastforce
  then show ?case by (simp add: prefix_def)
next
  case (Suc l)
  then have "node n dep ld (ld r (Suc (Suc l))) (Suc (Suc l))" using node_ld [of r "Suc (Suc l)"] r by simp
  with seq have "handled tr (ld (ld r (Suc (Suc l))) (Suc l)) (Suc l)
      = handled tr (ld r (Suc (Suc l))) (Suc (Suc l)) @ at_level (Suc (Suc l)) (downs w cm (ld (ld r (Suc (Suc l))) (Suc l)) (ld r (Suc (Suc l))))"
    unfolding seq_ok_def by fastforce
  moreover have "ld (ld r (Suc (Suc l))) (Suc l) = ld r (Suc l)" using ld_ld r by simp
  ultimately have "prefix (handled tr (ld r (Suc (Suc l))) (Suc (Suc l))) (handled tr (ld r (Suc l)) (Suc l))"
    by (metis prefix_def)
  with Suc show ?case by (auto intro: prefix_order.trans)
qed

lemma stack_prefix:
  assumes seq: "seq_ok n dep ld cm w tr B" and st: "stack_ok n dep w tr" and r: "r < n"
  shows "prefix (taken_by tr r @ sc_eventStack (scheds w r)) (map (\<lambda>(a, b, c). (a, b)) B)"
proof -
  have "Suc (dep r - 1) = dep r" "dep r - 1 < dep r" using dep_pos [OF r] by simp_all
  with handled_prefix [OF seq r, of "dep r - 1"] have "prefix (handled tr r (dep r)) B" using ld_dep [OF r] by simp
  then have "prefix (map (\<lambda>(a, b, c). (a, b)) (handled tr r (dep r))) (map (\<lambda>(a, b, c). (a, b)) B)" by (rule map_mono_prefix)
  with st r show ?thesis by (simp add: stack_ok_def)
qed

lemma stack_quiet:
  assumes seq: "seq_ok n dep ld cm w tr B" and st: "stack_ok n dep w tr" and r: "r < n"
    and quiet: "\<And>p q. p < n \<Longrightarrow> q < n \<Longrightarrow> downs w cm p q = []"
  shows "taken_by tr r @ sc_eventStack (scheds w r) = map (\<lambda>(a, b, c). (a, b)) B"
proof -
  have step: "(if l = 0 then B else handled tr (ld r l) l) = handled tr (ld r (Suc l)) (Suc l)" if "l < dep r" for l
  proof -
    have "node n dep ld (ld r (Suc l)) (Suc l)" using node_ld [of r "Suc l"] r that by simp
    moreover have "downs w cm (ld r l) (ld r (Suc l)) = []" using quiet ld_less r by simp
    moreover have "ld (ld r (Suc l)) l = ld r l" using ld_ld r by simp
    ultimately show ?thesis using seq unfolding seq_ok_def by (metis append_Nil2 at_level_simps(1))
  qed
  have "l < dep r \<Longrightarrow> handled tr (ld r (Suc l)) (Suc l) = B" for l
  proof (induction l)
    case (Suc l)
    with step [of "Suc l"] show ?case by simp
  qed (use step [of 0] in simp)
  from this [of "dep r - 1"] have "handled tr r (dep r) = B" using dep_pos [OF r] ld_dep [OF r] by simp
  then show ?thesis using st r unfolding stack_ok_def by metis
qed

text \<open>No step of the protocol fails.\<close>

lemma child_possible:
  assumes net: "net_ok n dep ld cm lv w" and c: "comm_of cm n dep ld ch (scheds w)" and s: "s < n" and m: "m \<in> set (ups w cm s)"
  shows "\<exists>w'. sched_step w (FromChild s m) w'"
proof -
  obtain a b sl l where e: "m = (a, b, sl, l)" by (cases m) auto
  have "up_ok n dep ld lv s m" using net m by (simp add: net_ok_def)
  then have up: "sl = lv" "l < dep s" by (simp_all add: up_ok_def e)
  have x: "sc_comm (scheds w s) = cm" "sc_rank (scheds w s) = s" "sc_schedulerLevel (scheds w s) = lv"
    "arr_get (tr_nbChild (sc_tree (scheds w s))) (int l) = Inr (length (ch s l))"
    using c s net up(2) by (simp_all add: comm_of_def tree_for_def net_ok_def)
  obtain ms ms' where ms: "ups w cm s = ms @ m # ms'" using split_list [OF m] by blast
  define w1 where "w1 = w\<lparr>ups := (ups w)(cm := (ups w cm)(s := ms @ ms'))\<rparr>"
  define w2 where "w2 = put_sched s ((scheds w s)\<lparr>sc_recvEvent := std_put m (next_count (sc_recvEvent (scheds w s)) m) (sc_recvEvent (scheds w s))\<rparr>) w1"
  have c2: "comm_of cm n dep ld ch (scheds w2)" unfolding w2_def by (rule comm_of_put) (use c in \<open>simp_all add: w1_def\<close>)
  have eq: "checkChildRequest s m w1 = (if next_count (sc_recvEvent (scheds w s)) m = int (length (ch s l))
      then omap (\<lambda>w. put_sched s ((scheds w s)\<lparr>sc_recvEvent := filter (\<lambda>(f, _). f \<noteq> m) (sc_recvEvent (scheds w s))\<rparr>) w)
        (if l = 0 then bcastEvent s m w2 else send_up s m w2) else Inr w2)"
    using x up(1) by (simp add: checkChildRequest_def Let_def e next_count_def w1_def w2_def)
  have "l = 0 \<Longrightarrow> \<exists>v. bcastEvent s m w2 = Inr v" using bcastEvent_eq [OF c2 s up(2) distinct_ch] by (simp add: e)
  moreover have "l \<noteq> 0 \<Longrightarrow> \<exists>v. send_up s m w2 = Inr v" using send_up_eq [OF c2 s, of "l - 1"] up(2) by (simp add: e)
  ultimately have "\<exists>w'. checkChildRequest s m w1 = Inr w'" unfolding eq by (cases "l = 0") auto
  then show ?thesis using from_child [of w s ms m ms'] ms x(1,2) unfolding w1_def by auto
qed

lemma parent_possible:
  assumes net: "net_ok n dep ld cm lv w" and c: "comm_of cm n dep ld ch (scheds w)" and s: "s < n" and m: "downs w cm p s = m # ms"
  shows "\<exists>w'. sched_step w (FromParent s p m) w'"
proof -
  obtain a b sl l where e: "m = (a, b, sl, l)" by (cases m) auto
  have "down_ok n dep ld lv p s m" using net m by (simp add: net_ok_def)
  then have l: "l \<le> dep s" by (simp add: down_ok_def node_def e)
  have x: "sc_comm (scheds w s) = cm" "sc_rank (scheds w s) = s" "sc_childScheduler (scheds w s) = None"
    "tr_level (sc_tree (scheds w s)) = dep s"
    using c s by (simp_all add: comm_of_def tree_for_def)
  define w1 where "w1 = w\<lparr>downs := (downs w)(cm := (downs w cm)(p := (downs w cm p)(s := ms)))\<rparr>"
  have "\<exists>w'. checkParentRequest s m w1 = Inr w'"
  proof (cases "l = dep s")
    case False
    then have "bcastEvent s (a, b, sl, l) w1 = Inr (bcast_to cm s (ch s l) (a, b, sl, Suc l) w1)"
      using c s l distinct_ch by (intro bcastEvent_eq [where n = n and dep = dep and ld = ld]) (simp_all add: w1_def)
    with False x show ?thesis by (simp add: checkParentRequest_def Let_def e w1_def)
  qed (use x in \<open>simp add: checkParentRequest_def Let_def e w1_def\<close>)
  then show ?thesis using from_parent [of w s p m ms] m x(1,2) unfolding w1_def by auto
qed

lemma register_possible:
  assumes c: "comm_of cm n dep ld ch (scheds w)" and s: "s < n"
  shows "\<exists>w'. sched_step w (Register s t h) w'"
proof -
  have x: "sc_childScheduler (scheds w s) = None" "tr_level (sc_tree (scheds w s)) = Suc (dep s - 1)"
    using c s dep_pos [OF s] by (simp_all add: comm_of_def tree_for_def)
  have "getBaseScheduler w s = Some s" using x(1) by (subst getBaseScheduler.simps) simp
  then have "\<exists>w'. registerEvent s t h w = Inr w'"
    using send_up_eq [OF c s, of "dep s - 1" t h "sc_schedulerLevel (scheds w s)"] x(2) dep_pos [OF s]
    by (simp add: registerEvent_def registerEvent_at_def)
  then show ?thesis by (blast intro: register)
qed

end

end
