(* ===== verification/EventCount.thy ===== *)
theory EventCount
  imports EventSequence
begin

text \<open>
  The counts of the registrations of one event, from the leaves of the tree up to the root: what a
  node has passed on is what came in, divided by the number of its children.
\<close>

section \<open>Counts\<close>

definition pending :: "(sevent, int) std_map \<Rightarrow> sevent \<Rightarrow> int" where
  "pending m e = (case map_of m e of None \<Rightarrow> 0 | Some k \<Rightarrow> k)"

text \<open>How often the process \<open>q\<close> of a node at level \<open>l\<close> passed on an event.\<close>

definition sent :: "(nat \<Rightarrow> nat) \<Rightarrow> (nat \<Rightarrow> nat \<Rightarrow> nat list) \<Rightarrow> sched_action list \<Rightarrow> nat \<Rightarrow> nat \<Rightarrow> event_id \<Rightarrow> nat" where
  "sent dep ch tr q l = (\<lambda>(a, b, sl). if l = dep q then count_list tr (Register q a b)
     else count_list tr (FromChild q (a, b, sl, l)) div length (ch q l))"

definition count_ok :: "nat \<Rightarrow> (nat \<Rightarrow> nat) \<Rightarrow> (nat \<Rightarrow> nat \<Rightarrow> nat) \<Rightarrow> (nat \<Rightarrow> nat \<Rightarrow> nat list) \<Rightarrow> nat \<Rightarrow> nat \<Rightarrow> nat \<Rightarrow> nat \<Rightarrow> world \<Rightarrow> sched_action list \<Rightarrow> event_id list \<Rightarrow> bool" where
  "count_ok n dep ld ch cm lv a b w tr B \<longleftrightarrow>
     (\<forall>p l. node n dep ld p l \<longrightarrow> l < dep p \<longrightarrow>
        count_list (ups w cm p) (a, b, lv, l) + count_list tr (FromChild p (a, b, lv, l))
          = (\<Sum>q\<in>set (ch p l). sent dep ch tr q (Suc l) (a, b, lv))
      \<and> pending (sc_recvEvent (scheds w p)) (a, b, lv, l) = int (count_list tr (FromChild p (a, b, lv, l)) mod length (ch p l)))
     \<and> count_list B (a, b, lv) = count_list tr (FromChild 0 (a, b, lv, 0)) div length (ch 0 0)"

lemma next_count_pending: "next_count m e = pending m e + 1"
  by (simp add: next_count_def pending_def split: option.split)

lemma pending_put: "pending (std_put e k m) f = (if f = e then k else pending m f)"
  by (simp add: pending_def map_of_std_put)

lemma map_of_remove: "map_of (filter (\<lambda>(f, _). f \<noteq> e) m) f = (if f = e then None else map_of m f)"
  by (induction m) auto

lemma pending_remove: "pending (filter (\<lambda>(f, _). f \<noteq> e) m) f = (if f = e then 0 else pending m f)"
  by (simp add: pending_def map_of_remove)

lemma next_turn: "0 < k \<Longrightarrow> Suc m div k = m div k + (if Suc (m mod k) = k then 1 else 0)"
  "0 < k \<Longrightarrow> Suc m mod k = (if Suc (m mod k) = k then 0 else Suc (m mod k))"
  by (simp_all add: div_Suc mod_Suc)

lemma sum_tick: "finite A \<Longrightarrow> (\<Sum>q\<in>A. f q + (if q = s \<and> C then 1 else 0)) = (\<Sum>q\<in>A. f q) + (if s \<in> A \<and> C then 1 else (0::nat))"
  by (cases C) (simp_all add: sum.distrib)

section \<open>Preservation\<close>

context sched_tree
begin

lemma ch_pos:
  assumes "node n dep ld p l" "l < dep p"
  shows "0 < length (ch p l)"
proof -
  have "node n dep ld (ld p (Suc l)) (Suc l)" using node_ld [of p "Suc l"] assms by (simp add: node_def)
  moreover have "ld (ld p (Suc l)) l = p" using ld_ld [of p l "Suc l"] assms by (simp add: node_def)
  ultimately show ?thesis using set_ch [OF assms, of "ld p (Suc l)"] by (auto simp: length_pos_if_in_set)
qed

lemma sent_tick:
  assumes "\<And>q. node n dep ld q (Suc l) \<Longrightarrow> ld q l = p \<Longrightarrow> sent dep ch tr' q (Suc l) e = sent dep ch tr q (Suc l) e + (if q = s \<and> C then 1 else 0)"
    and p: "node n dep ld p l" "l < dep p"
  shows "(\<Sum>q\<in>set (ch p l). sent dep ch tr' q (Suc l) e)
    = (\<Sum>q\<in>set (ch p l). sent dep ch tr q (Suc l) e) + (if s \<in> set (ch p l) \<and> C then 1 else 0)"
proof -
  have "(\<Sum>q\<in>set (ch p l). sent dep ch tr' q (Suc l) e)
      = (\<Sum>q\<in>set (ch p l). sent dep ch tr q (Suc l) e + (if q = s \<and> C then 1 else 0))"
    by (rule sum.cong) (use assms set_ch in auto)
  then show ?thesis by (simp add: sum_tick)
qed

lemma count_register:
  assumes net: "net_ok n dep ld cm lv w" and c: "comm_of cm n dep ld ch (scheds w)" and cnt: "count_ok n dep ld ch cm lv a b w tr B"
    and s: "s < n" and step: "sched_step w (Register s t h) w'"
  shows "count_ok n dep ld ch cm lv a b w' (tr @ [Register s t h]) B"
proof -
  let ?tr' = "tr @ [Register s t h]" and ?E = "t = a \<and> h = b"
  note d = dep_pos [OF s]
  have w': "w' = post_up cm (ld s (dep s - 1)) (t, h, lv, dep s - 1) w"
    using register_effect [OF c s d step] net s by (simp add: net_ok_def)
  have leaf: "node n dep ld s (dep s)" using s ld_dep by (simp add: node_def)
  show ?thesis unfolding count_ok_def
  proof (intro conjI allI impI)
    fix p l assume p: "node n dep ld p l" "l < dep p"
    have "s \<in> set (ch p l) \<and> Suc l = dep s \<longleftrightarrow> p = ld s (dep s - 1) \<and> l = dep s - 1"
      using set_ch [OF p, of s] leaf d by (cases "dep s") auto
    moreover have "(\<Sum>q\<in>set (ch p l). sent dep ch ?tr' q (Suc l) (a, b, lv))
        = (\<Sum>q\<in>set (ch p l). sent dep ch tr q (Suc l) (a, b, lv)) + (if s \<in> set (ch p l) \<and> (Suc l = dep s \<and> ?E) then 1 else 0)"
      by (rule sent_tick [OF _ p]) (auto simp: sent_def)
    moreover have "count_list (ups w' cm p) (a, b, lv, l) = count_list (ups w cm p) (a, b, lv, l)
        + (if p = ld s (dep s - 1) \<and> l = dep s - 1 \<and> ?E then 1 else 0)"
      by (auto simp: w' post_up_def)
    ultimately show "count_list (ups w' cm p) (a, b, lv, l) + count_list ?tr' (FromChild p (a, b, lv, l))
          = (\<Sum>q\<in>set (ch p l). sent dep ch ?tr' q (Suc l) (a, b, lv))"
      using cnt p by (auto simp: count_ok_def)
    show "pending (sc_recvEvent (scheds w' p)) (a, b, lv, l) = int (count_list ?tr' (FromChild p (a, b, lv, l)) mod length (ch p l))"
      using cnt p by (simp add: count_ok_def w')
  qed (use cnt in \<open>simp add: count_ok_def\<close>)
qed

lemma count_child:
  assumes net: "net_ok n dep ld cm lv w" and c: "comm_of cm n dep ld ch (scheds w)" and cnt: "count_ok n dep ld ch cm lv a b w tr B"
    and s: "s < n" and step: "sched_step w (FromChild s m) w'"
  shows "count_ok n dep ld ch cm lv a b w' (tr @ [FromChild s m]) (B @ decided ch w (FromChild s m))"
proof -
  obtain a0 b0 sl l0 where m: "m = (a0, b0, sl, l0)" by (cases m) auto
  have up: "sl = lv" "node n dep ld s l0" "l0 < dep s"
    using from_child_ok [OF net c s step] by (simp_all add: m up_ok_def)
  note step' = step [unfolded m up(1)]
  note eff = child_effect [OF c s up(3) distinct_ch step']
  let ?tr' = "tr @ [FromChild s m]" and ?E = "a0 = a \<and> b0 = b" and ?k = "count_list tr (FromChild s (a0, b0, lv, l0))"
  let ?full = "next_count (sc_recvEvent (scheds w s)) (a0, b0, lv, l0) = int (length (ch s l0))"
  obtain ms ms' where ms: "ups w cm s = ms @ (a0, b0, lv, l0) # ms'"
    and ups: "\<And>q. ups w' cm q = (if q = s then ms @ ms' else ups w cm q) @ (if ?full \<and> l0 \<noteq> 0 \<and> q = ld s (l0 - 1) then [(a0, b0, lv, l0 - 1)] else [])"
    using eff(6) by blast
  have len: "0 < length (ch s l0)" by (rule ch_pos [OF up(2,3)])
  have full: "?full \<longleftrightarrow> Suc (?k mod length (ch s l0)) = length (ch s l0)" if ?E
    using cnt up that unfolding next_count_pending count_ok_def by auto
  have tick: "count_list ?tr' (FromChild p (a, b, lv, l)) = count_list tr (FromChild p (a, b, lv, l)) + (if p = s \<and> l = l0 \<and> ?E then 1 else 0)" for p l
    by (auto simp: m up(1))
  have sent: "sent dep ch ?tr' q (Suc l) (a, b, lv) = sent dep ch tr q (Suc l) (a, b, lv) + (if q = s \<and> (Suc l = l0 \<and> ?E \<and> ?full) then 1 else 0)" for q l
  proof (cases "q = s \<and> Suc l = l0 \<and> ?E")
    case True
    then show ?thesis using full up(3) next_turn(1) [OF len, of ?k] by (auto simp: sent_def m up(1))
  qed (auto simp: sent_def m)
  show ?thesis unfolding count_ok_def
  proof (intro conjI allI impI)
    fix p l assume p: "node n dep ld p l" "l < dep p"
    let ?e = "(a, b, lv, l)"
    have base: "count_list (ups w cm p) ?e + count_list tr (FromChild p ?e) = (\<Sum>q\<in>set (ch p l). sent dep ch tr q (Suc l) (a, b, lv))"
      "pending (sc_recvEvent (scheds w p)) ?e = int (count_list tr (FromChild p ?e) mod length (ch p l))"
      using cnt p unfolding count_ok_def by blast+
    have "s \<in> set (ch p l) \<and> Suc l = l0 \<longleftrightarrow> l0 \<noteq> 0 \<and> p = ld s (l0 - 1) \<and> l = l0 - 1"
      using set_ch [OF p, of s] up(2) by auto
    moreover have "(\<Sum>q\<in>set (ch p l). sent dep ch ?tr' q (Suc l) (a, b, lv))
        = (\<Sum>q\<in>set (ch p l). sent dep ch tr q (Suc l) (a, b, lv)) + (if s \<in> set (ch p l) \<and> (Suc l = l0 \<and> ?E \<and> ?full) then 1 else 0)"
      by (rule sent_tick [OF _ p]) (rule sent)
    moreover have "count_list (ups w' cm p) ?e + (if p = s \<and> l = l0 \<and> ?E then 1 else 0)
        = count_list (ups w cm p) ?e + (if l0 \<noteq> 0 \<and> p = ld s (l0 - 1) \<and> l = l0 - 1 \<and> ?E \<and> ?full then 1 else 0)"
      using ms unfolding ups by auto
    ultimately show "count_list (ups w' cm p) ?e + count_list ?tr' (FromChild p ?e)
          = (\<Sum>q\<in>set (ch p l). sent dep ch ?tr' q (Suc l) (a, b, lv))"
      using base(1) unfolding tick by (auto split: if_splits)
    show "pending (sc_recvEvent (scheds w' p)) ?e = int (count_list ?tr' (FromChild p ?e) mod length (ch p l))"
    proof (cases "p = s \<and> l = l0 \<and> ?E")
      case True
      have "pending (sc_recvEvent (scheds w' s)) ?e = (if ?full then 0 else pending (sc_recvEvent (scheds w s)) ?e + 1)"
        using True by (simp add: eff(4) pending_remove pending_put next_count_pending)
      then show ?thesis using True base(2) full next_turn(2) [OF len, of ?k] unfolding tick by simp
    next
      case False
      then have "pending (sc_recvEvent (scheds w' p)) ?e = pending (sc_recvEvent (scheds w p)) ?e"
        by (auto simp: eff(4) pending_remove pending_put)
      then show ?thesis using False base(2) unfolding tick by auto
    qed
  next
    have dec: "decided ch w (FromChild s m) = (if l0 = 0 \<and> ?full then [(a0, b0, lv)] else [])"
      by (cases "l0 = 0") (simp_all add: m up(1))
    have s0: "s = 0" if "l0 = 0" using node_0 up(2) that by simp
    have "count_list B (a, b, lv) = count_list tr (FromChild 0 (a, b, lv, 0)) div length (ch 0 0)"
      using cnt unfolding count_ok_def by blast
    then show "count_list (B @ decided ch w (FromChild s m)) (a, b, lv) = count_list ?tr' (FromChild 0 (a, b, lv, 0)) div length (ch 0 0)"
    proof (cases "l0 = 0 \<and> ?E")
      case True
      then show ?thesis using full s0 next_turn(1) [OF len, of ?k] \<open>count_list B (a, b, lv) = _\<close> unfolding tick dec by auto
    next
      case False
      then show ?thesis using \<open>count_list B (a, b, lv) = _\<close> unfolding tick dec by auto
    qed
  qed
qed

lemma count_step:
  assumes net: "net_ok n dep ld cm lv w" and c: "comm_of cm n dep ld ch (scheds w)" and cnt: "count_ok n dep ld ch cm lv a b w tr B"
    and s: "actor act < n" and step: "sched_step w act w'"
  shows "count_ok n dep ld ch cm lv a b w' (tr @ [act]) (B @ decided ch w act)"
proof (cases act)
  case (Register s t h)
  with count_register [OF net c cnt] s step show ?thesis by simp
next
  case (FromChild s m)
  with count_child [OF net c cnt] s step show ?thesis by simp
next
  case (FromParent s p m)
  obtain a0 b0 sl l where m: "m = (a0, b0, sl, l)" by (cases m) auto
  have s': "s < n" "sched_step w (FromParent s p (a0, b0, sl, l)) w'" using s step FromParent m by simp_all
  have "down_ok n dep ld lv p s (a0, b0, sl, l)" by (rule from_parent_ok [OF net c s'])
  then have "l \<le> dep s" by (simp add: down_ok_def node_def)
  note eff = parent_effect(2,3) [OF c s'(1) this distinct_ch s'(2)]
  have "sent dep ch (tr @ [act]) = sent dep ch tr" by (auto simp: fun_eq_iff sent_def FromParent)
  then show ?thesis using cnt unfolding count_ok_def eff by (simp add: FromParent)
next
  case (Take s e)
  with s step have s': "s < n" "sched_step w (Take s e) w'" by simp_all
  have "sent dep ch (tr @ [act]) = sent dep ch tr" by (auto simp: fun_eq_iff sent_def Take)
  then show ?thesis using cnt unfolding count_ok_def take_effect(2,4) [OF c s'(2)] by (simp add: Take)
qed

section \<open>One registration each\<close>

lemma node_induct [consumes 1, case_names down]:
  assumes "node n dep ld q l"
    and "\<And>q l. node n dep ld q l \<Longrightarrow> (\<And>c. l < dep q \<Longrightarrow> c \<in> set (ch q l) \<Longrightarrow> P c (Suc l)) \<Longrightarrow> P q l"
  shows "P q l"
  using assms(1)
proof (induction "Max (dep ` {..<n}) - l" arbitrary: q l rule: less_induct)
  case less
  show ?case
  proof (rule assms(2) [OF less.prems])
    fix c assume c: "l < dep q" "c \<in> set (ch q l)"
    with set_ch less.prems have nc: "node n dep ld c (Suc l)" by blast
    have "dep q \<le> Max (dep ` {..<n})" using less.prems by (intro Max_ge) (auto simp: node_def)
    with c(1) show "P c (Suc l)" by (intro less.hyps [OF _ nc]) linarith
  qed
qed

lemma received_sum:
  assumes "count_ok n dep ld ch cm lv a b w tr B" "node n dep ld p l" "l < dep p"
  shows "count_list (ups w cm p) (a, b, lv, l) + count_list tr (FromChild p (a, b, lv, l))
    = (\<Sum>q\<in>set (ch p l). sent dep ch tr q (Suc l) (a, b, lv))"
  using assms unfolding count_ok_def by blast

lemma sent_inner: "l < dep p \<Longrightarrow> sent dep ch tr p l (a, b, lv) = count_list tr (FromChild p (a, b, lv, l)) div length (ch p l)"
  by (simp add: sent_def)

lemma sent_once:
  assumes cnt: "count_ok n dep ld ch cm lv a b w tr B" and reg: "\<And>r. r < n \<Longrightarrow> count_list tr (Register r a b) \<le> 1"
    and q: "node n dep ld q l"
  shows "sent dep ch tr q l (a, b, lv) \<le> 1"
  using q
proof (induction rule: node_induct)
  case (down q l)
  show ?case
  proof (cases "l < dep q")
    case True
    have "(\<Sum>c\<in>set (ch q l). sent dep ch tr c (Suc l) (a, b, lv)) \<le> card (set (ch q l))"
      using down.IH [OF True] sum_bounded_above [of "set (ch q l)" "\<lambda>c. sent dep ch tr c (Suc l) (a, b, lv)" 1] by simp
    then have "count_list tr (FromChild q (a, b, lv, l)) \<le> length (ch q l)"
      using received_sum [OF cnt down.hyps True] distinct_card [OF distinct_ch] by simp
    then have "count_list tr (FromChild q (a, b, lv, l)) div length (ch q l) \<le> 1"
      using ch_pos [OF down.hyps True] by (metis div_le_mono div_self less_numeral_extra(3))
    with True show ?thesis by (simp add: sent_inner)
  next
    case False
    with down.hyps reg show ?thesis by (simp add: sent_def node_def)
  qed
qed

lemma sent_by_all:
  assumes cnt: "count_ok n dep ld ch cm lv a b w tr B" and reg: "\<And>r. r < n \<Longrightarrow> count_list tr (Register r a b) \<le> 1"
    and root: "1 \<le> sent dep ch tr 0 0 (a, b, lv)" and r: "r < n"
  shows "l \<le> dep r \<Longrightarrow> 1 \<le> sent dep ch tr (ld r l) l (a, b, lv)"
proof (induction l)
  case 0
  then show ?case using root ld_0 r by simp
next
  case (Suc l)
  let ?p = "ld r l" and ?f = "\<lambda>c. sent dep ch tr c (Suc l) (a, b, lv)"
  have q: "node n dep ld (ld r (Suc l)) (Suc l)" using node_ld Suc.prems r by simp
  have p: "ld (ld r (Suc l)) l = ?p" using ld_ld r by simp
  note up = node_up [OF q, unfolded p]
  have "1 \<le> count_list tr (FromChild ?p (a, b, lv, l)) div length (ch ?p l)"
    using Suc up(2) by (simp add: sent_inner)
  then have "length (ch ?p l) \<le> count_list tr (FromChild ?p (a, b, lv, l))"
    by (metis div_less less_one linorder_not_less)
  then have all: "card (set (ch ?p l)) \<le> (\<Sum>c\<in>set (ch ?p l). ?f c)"
    using received_sum [OF cnt up(1,2)] distinct_card [OF distinct_ch, of ?p l] by linarith
  have le: "?f c \<le> 1" if "c \<in> set (ch ?p l)" for c
    using sent_once [OF cnt reg] set_ch [OF up(1,2)] that by blast
  show ?case
  proof (rule ccontr)
    assume "\<not> 1 \<le> ?f (ld r (Suc l))"
    then have "(\<Sum>c\<in>set (ch ?p l). ?f c) = (\<Sum>c\<in>set (ch ?p l) - {ld r (Suc l)}. ?f c)"
      using up(3) by (simp add: sum.remove)
    also have "\<dots> \<le> card (set (ch ?p l) - {ld r (Suc l)})"
      using le sum_bounded_above [of "set (ch ?p l) - {ld r (Suc l)}" ?f 1] by simp
    also have "\<dots> < card (set (ch ?p l))" using up(3) by (intro psubset_card_mono) auto
    finally show False using all by simp
  qed
qed

lemma sent_quiet:
  assumes cnt: "count_ok n dep ld ch cm lv a b w tr B" and reg: "\<And>r. r < n \<Longrightarrow> count_list tr (Register r a b) = 1"
    and quiet: "\<And>p. p < n \<Longrightarrow> ups w cm p = []" and q: "node n dep ld q l"
  shows "sent dep ch tr q l (a, b, lv) = 1"
  using q
proof (induction rule: node_induct)
  case (down q l)
  show ?case
  proof (cases "l < dep q")
    case True
    have "count_list tr (FromChild q (a, b, lv, l)) = length (ch q l)"
      using received_sum [OF cnt down.hyps True] quiet [of q] down.IH [OF True] down.hyps distinct_card [OF distinct_ch, of q l]
      by (simp add: node_def)
    with True ch_pos [OF down.hyps True] show ?thesis by (simp add: sent_inner)
  next
    case False
    with down.hyps reg show ?thesis by (simp add: sent_def node_def)
  qed
qed

end

end
