(* ===== verification/EventTraffic.thy ===== *)
theory EventTraffic
  imports EventSequence
begin

text \<open>
  The messages in flight run out: each one has a weight, that of the messages its reception can
  cause included.  \<open>M\<close> is a bound for the levels of the tree.
\<close>

definition up_weight :: "nat \<Rightarrow> nat \<Rightarrow> sevent \<Rightarrow> nat" where
  "up_weight n M m = (n + 1) ^ M + mlev m"

definition down_weight :: "nat \<Rightarrow> nat \<Rightarrow> sevent \<Rightarrow> nat" where
  "down_weight n M m = (n + 1) ^ (M - mlev m)"

definition traffic :: "nat \<Rightarrow> nat \<Rightarrow> nat \<Rightarrow> world \<Rightarrow> nat" where
  "traffic n M cm w = (\<Sum>p<n. sum_list (map (up_weight n M) (ups w cm p)))
     + (\<Sum>p<n. \<Sum>q<n. sum_list (map (down_weight n M) (downs w cm p q)))"

fun reception :: "sched_action \<Rightarrow> bool" where
  "reception (FromChild s m) = True" | "reception (FromParent s p m) = True" | "reception act = False"

lemma sum_shift:
  fixes f g :: "nat \<Rightarrow> nat"
  assumes "\<And>p. p < n \<Longrightarrow> f p + (if p = s then x else 0) \<le> g p + (if p = t \<and> C then y else 0)" "s < n"
  shows "(\<Sum>p<n. f p) + x \<le> (\<Sum>p<n. g p) + (if C then y else 0)"
proof -
  have "(\<Sum>p<n. f p + (if p = s then x else 0)) \<le> (\<Sum>p<n. g p + (if p = t \<and> C then y else 0))"
    by (rule sum_mono) (use assms in simp)
  moreover have "(\<Sum>p<n. (if p = t \<and> C then y else 0)) \<le> (if C then y else 0)" by (cases C) simp_all
  ultimately show ?thesis using assms(2) by (simp add: sum.distrib)
qed

lemma sum_row:
  fixes f g :: "nat \<Rightarrow> nat \<Rightarrow> nat"
  assumes "\<And>p q. p < n \<Longrightarrow> q < n \<Longrightarrow> f p q + (if p = p0 \<and> q = s then x else 0) \<le> g p q + (if p = t \<and> C then y else 0)"
    "p0 < n" "s < n"
  shows "(\<Sum>p<n. \<Sum>q<n. f p q) + x \<le> (\<Sum>p<n. \<Sum>q<n. g p q) + (if C then n * y else 0)"
proof (rule sum_shift [where t = t])
  fix p assume p: "p < n"
  have "(\<Sum>q<n. f p q + (if p = p0 \<and> q = s then x else 0)) \<le> (\<Sum>q<n. g p q + (if p = t \<and> C then y else 0))"
    by (rule sum_mono) (use assms(1) p in simp)
  moreover have "(\<Sum>q<n. (if p = p0 \<and> q = s then x else 0)) = (if p = p0 then x else 0)"
    using assms(3) by (cases "p = p0") simp_all
  ultimately show "(\<Sum>q<n. f p q) + (if p = p0 then x else 0) \<le> (\<Sum>q<n. g p q) + (if p = t \<and> C then n * y else 0)"
    by (cases "p = p0"; cases "p = t \<and> C") (auto simp: sum.distrib)
qed (rule assms(2))

context sched_tree
begin

lemma traffic_step:
  assumes net: "net_ok n dep ld cm lv w" and c: "comm_of cm n dep ld ch (scheds w)" and M: "\<And>r. r < n \<Longrightarrow> dep r \<le> M"
    and s: "actor act < n" and step: "sched_step w act w'" and rec: "reception act"
  shows "traffic n M cm w' < traffic n M cm w"
proof (cases act)
  case (FromChild s m)
  obtain a b sl l where m: "m = (a, b, sl, l)" by (cases m) auto
  have s': "s < n" "sched_step w (FromChild s (a, b, sl, l)) w'" using s step FromChild m by simp_all
  have "up_ok n dep ld lv s (a, b, sl, l)" by (rule from_child_ok [OF net c s'])
  then have l: "l < dep s" by (simp add: up_ok_def)
  note eff = child_effect [OF c s'(1) l distinct_ch s'(2)]
  let ?full = "next_count (sc_recvEvent (scheds w s)) (a, b, sl, l) = int (length (ch s l))"
  obtain ms ms' where ms: "ups w cm s = ms @ (a, b, sl, l) # ms'"
    and ups: "\<And>q. ups w' cm q = (if q = s then ms @ ms' else ups w cm q) @ (if ?full \<and> l \<noteq> 0 \<and> q = ld s (l - 1) then [(a, b, sl, l - 1)] else [])"
    using eff(6) by blast
  have u: "(\<Sum>p<n. sum_list (map (up_weight n M) (ups w' cm p))) + ((n + 1) ^ M + l)
      \<le> (\<Sum>p<n. sum_list (map (up_weight n M) (ups w cm p))) + (if ?full \<and> l \<noteq> 0 then (n + 1) ^ M + (l - 1) else 0)"
    by (rule sum_shift [where t = "ld s (l - 1)", OF _ s'(1)]) (auto simp: ups ms up_weight_def)
  have d: "(\<Sum>p<n. \<Sum>q<n. sum_list (map (down_weight n M) (downs w' cm p q))) + 0
      \<le> (\<Sum>p<n. \<Sum>q<n. sum_list (map (down_weight n M) (downs w cm p q))) + (if ?full \<and> l = 0 then n * (n + 1) ^ (M - 1) else 0)"
    by (rule sum_row [where t = s, OF _ s'(1) s'(1)]) (auto simp: eff(5) down_weight_def)
  have "0 < M" using M [OF s'(1)] dep_pos [OF s'(1)] by simp
  then have "n * (n + 1) ^ (M - 1) < (n + 1) ^ M" by (cases M) simp_all
  with u d show ?thesis unfolding traffic_def by (cases "l = 0") (auto split: if_splits)
next
  case (FromParent s p m)
  obtain a b sl l where m: "m = (a, b, sl, l)" by (cases m) auto
  have s': "s < n" "sched_step w (FromParent s p (a, b, sl, l)) w'" using s step FromParent m by simp_all
  have "down_ok n dep ld lv p s (a, b, sl, l)" by (rule from_parent_ok [OF net c s'])
  then have l: "l \<le> dep s" "p < n" using ld_less [OF s'(1)] by (auto simp: down_ok_def node_def)
  note eff = parent_effect [OF c s'(1) l(1) distinct_ch s'(2)]
  obtain ms where ms: "downs w cm p s = (a, b, sl, l) # ms"
    and down: "\<And>p' q. downs w' cm p' q = (if p' = p \<and> q = s then ms else downs w cm p' q)
        @ (if l < dep s \<and> p' = s \<and> q \<in> set (ch s l) then [(a, b, sl, Suc l)] else [])" using eff(6) by blast
  have "(\<Sum>p<n. \<Sum>q<n. sum_list (map (down_weight n M) (downs w' cm p q))) + (n + 1) ^ (M - l)
      \<le> (\<Sum>p<n. \<Sum>q<n. sum_list (map (down_weight n M) (downs w cm p q))) + (if l < dep s then n * (n + 1) ^ (M - Suc l) else 0)"
    by (rule sum_row [where t = s, OF _ l(2) s'(1)])
      (use ms in \<open>auto simp: down down_weight_def\<close>)
  moreover have "n * (n + 1) ^ (M - Suc l) < (n + 1) ^ (M - l)" if "l < dep s"
    using M [OF s'(1)] that by (simp add: Suc_diff_Suc [symmetric])
  moreover obtain K where "(n + 1) ^ (M - l) = K" "0 < K" by simp
  ultimately show ?thesis unfolding traffic_def eff(2) by (cases "l < dep s") simp_all
qed (use rec in simp_all)

end

end
