(* ===== verification/EventClaims.thy ===== *)
theory EventClaims
  imports EventCount EventTraffic
begin

text \<open>
  The properties of the event scheduler over one communicator: the tree that each process builds,
  and the order in which the processes get the events.
\<close>

section \<open>The tree of the code is a tree of the protocol\<close>

lemma node_children:
  assumes "node n (depth n) (leader n) p l" "l < depth n p"
  shows "q \<in> set (children n p l) \<longleftrightarrow> node n (depth n) (leader n) q (Suc l) \<and> leader n q l = p"
proof
  have p: "p < n" "leader n p l = p" using assms(1) by (simp_all add: node_def)
  note mem = children_of_leader [OF p(1) assms(2) p(2)]
  assume "q \<in> set (children n p l)"
  with mem obtain s where s: "s < n" "l < depth n s" "leader n s l = p" "q = leader n s (Suc l)" by blast
  note ql = leader_leads [OF s(1), of _ "Suc l", folded s(4)]
  have "Suc l \<le> depth n q"
  proof (cases "Suc l = depth n s")
    case True
    then have "q = s" using depth_facts(2) [OF s(1)] s(4) by simp
    then show ?thesis using s(2) by simp
  qed (use depth_leader [OF s(1), of "Suc l"] s in simp)
  then show "node n (depth n) (leader n) q (Suc l) \<and> leader n q l = p"
    using ql(1) [of l] ql(2) [of l] ql(2) [of "Suc l"] s by (simp add: node_def)
next
  have p: "p < n" "leader n p l = p" using assms(1) by (simp_all add: node_def)
  assume "node n (depth n) (leader n) q (Suc l) \<and> leader n q l = p"
  then show "q \<in> set (children n p l)"
    using children_of_leader [OF p(1) assms(2) p(2), of q] by (auto simp: node_def)
qed

interpretation et: sched_tree n "depth n" "leader n" "children n" for n
proof
  fix r l j p q
  show "r < n \<Longrightarrow> 0 < depth n r" using depth_facts(1) [of r n] by simp
  show "r < n \<Longrightarrow> leader n r (depth n r) = r" using depth_facts(2) [of r n] by simp
  show "r < n \<Longrightarrow> leader n r l < n" by (rule leader_leads [OF _ order_refl])
  show "leader n r 0 = 0" by simp
  show "r < n \<Longrightarrow> j \<le> l \<Longrightarrow> leader n (leader n r l) j = leader n r j" using leader_leads(2) [of r n j l] by simp
  show "r < n \<Longrightarrow> l < depth n r \<Longrightarrow> l < depth n (leader n r l)" by (rule depth_leader)
  show "node n (depth n) (leader n) p l \<Longrightarrow> l < depth n p \<Longrightarrow>
      q \<in> set (children n p l) \<longleftrightarrow> node n (depth n) (leader n) q (Suc l) \<and> leader n q l = p" by (rule node_children)
  show "distinct (children n p l)" by (rule distinct_children)
qed

lemma init_tree_for:
  assumes "r < n"
  shows "\<exists>t. init_tree n r = Inr t \<and> tree_for (depth n r) (leader n r) (children n r) t"
proof -
  obtain t where t: "init_tree n r = Inr t" "follows (degree n) (spath n r) 0 (depth n r) t"
    using init_tree_eq [OF assms] by blast
  have "tree_for (depth n r) (leader n r) (children n r) t"
    using t(2) by (auto simp: tree_for_def follows_def arr_get_def children_def nb_children_def simp del: of_nat_Suc)
  with t(1) show ?thesis by blast
qed

text \<open>The process that speaks for process \<open>r\<close> at a level: itself at its own level, and above it the
  parent its table names for the level below.\<close>

definition node_rank :: "event_tree \<Rightarrow> nat \<Rightarrow> nat \<Rightarrow> nat" where
  "node_rank t r l = (if l = tr_level t then r else tr_parent t ! (l + 1))"

lemma node_rank_eq:
  assumes "r < n" "follows (degree n) (spath n r) 0 (depth n r) t" "l \<le> depth n r"
  shows "node_rank t r l = leader n r l"
  using assms depth_facts(2) [OF assms(1)] by (auto simp: node_rank_def follows_def)

lemma take_children:
  assumes "follows (degree n) (spath n r) 0 (depth n r) t" "l < depth n r"
  shows "take (tr_nbChild t ! l) (tr_child t ! l) = children n r l \<and> tr_nbChild t ! l \<le> length (tr_child t ! l)"
proof -
  have f: "tr_nbChild t ! l = nb_children n r l" "nb_children n r l \<le> length (tr_child t ! l)"
    "\<forall>i<nb_children n r l. tr_child t ! l ! i = blk_start (degree n) (leader n r l) (snd (spath n r l)) i"
    using assms by (auto simp: follows_def nb_children_def)
  then show ?thesis by (auto simp: children_def intro!: nth_equalityI)
qed

text \<open>C29: For every number of processes, each process builds its tables without leaving their bounds,
  and the tables of different processes agree: the parent that a process names at a level lists, as
  its children there, exactly the processes that speak for those who name it, each once.\<close>

theorem trees_agree:
  "\<exists>T. \<forall>r<n. init_tree n r = Inr (T r) \<and> 0 < tr_level (T r) \<and> tr_level (T r) < length (tr_parent (T r))
    \<and> (\<forall>l<tr_level (T r). let p = tr_parent (T r) ! (l + 1); cs = take (tr_nbChild (T p) ! l) (tr_child (T p) ! l) in
         p < n \<and> l < tr_level (T p) \<and> node_rank (T p) p l = p \<and> length cs = tr_nbChild (T p) ! l \<and> distinct cs
         \<and> set cs = {node_rank (T s) s (l + 1) | s. s < n \<and> l < tr_level (T s) \<and> tr_parent (T s) ! (l + 1) = p})"
proof -
  define T where "T r = (THE t. init_tree n r = Inr t)" for r
  have T: "init_tree n r = Inr (T r)" "follows (degree n) (spath n r) 0 (depth n r) (T r)" if "r < n" for r
    using init_tree_eq [OF that] by (auto simp: T_def)
  have lev: "tr_level (T r) = depth n r" "depth n r < length (tr_parent (T r))"
    "l < depth n r \<Longrightarrow> tr_parent (T r) ! (l + 1) = leader n r l" if "r < n" for r l
    using T(2) [OF that] by (auto simp: follows_def)
  have main: "let p = tr_parent (T r) ! (l + 1); cs = take (tr_nbChild (T p) ! l) (tr_child (T p) ! l) in
         p < n \<and> l < tr_level (T p) \<and> node_rank (T p) p l = p \<and> length cs = tr_nbChild (T p) ! l \<and> distinct cs
         \<and> set cs = {node_rank (T s) s (l + 1) | s. s < n \<and> l < tr_level (T s) \<and> tr_parent (T s) ! (l + 1) = p}"
    if r: "r < n" and l: "l < depth n r" for r l
  proof -
    define p where "p = leader n r l"
    have p: "p < n" "l < depth n p" "leader n p l = p"
      using leader_leads [OF r order_refl, of l] depth_leader [OF r l] by (simp_all add: p_def)
    note cs = take_children [OF T(2) [OF p(1)] p(2)]
    have "set (children n p l) = {node_rank (T s) s (l + 1) | s. s < n \<and> l < tr_level (T s) \<and> tr_parent (T s) ! (l + 1) = p}"
      (is "_ = ?R")
    proof (rule set_eqI)
      fix c
      have "(s < n \<and> l < tr_level (T s) \<and> tr_parent (T s) ! (l + 1) = p) = (s < n \<and> l < depth n s \<and> leader n s l = p)" for s
        using lev by auto
      moreover have "s < n \<Longrightarrow> l < depth n s \<Longrightarrow> node_rank (T s) s (l + 1) = leader n s (Suc l)" for s
        using node_rank_eq [OF _ T(2), of s "Suc l"] by simp
      ultimately show "c \<in> set (children n p l) \<longleftrightarrow> c \<in> ?R"
        unfolding children_of_leader [OF p] mem_Collect_eq by metis
    qed
    moreover have "node_rank (T p) p l = p" using node_rank_eq [OF p(1) T(2) [OF p(1)], of l] p by simp
    moreover have "tr_parent (T r) ! (l + 1) = p" using lev(3) [OF r l] by (simp add: p_def)
    ultimately show ?thesis using cs p lev(1) [OF p(1)] distinct_children by (auto simp: Let_def)
  qed
  show ?thesis using T(1) lev main depth_facts(1) by (intro exI [where x = T]) (auto simp: Suc_le_eq)
qed

text \<open>The degree of the tree is the least \<open>k\<close> from 2 on with \<open>k ^ k\<close> at least the number of
  processes; no process has more than \<open>k\<close> children at a level and none is below level \<open>k\<close>.\<close>

theorem tree_shape:
  "\<exists>k\<ge>2. find_degree n 1 = Some k \<and> n \<le> k ^ k \<and> (\<forall>j. 2 \<le> j \<and> j < k \<longrightarrow> j ^ j < n)
    \<and> (\<forall>r<n. \<exists>t. init_tree n r = Inr t \<and> tr_level t \<le> k \<and> (\<forall>l<tr_level t. tr_nbChild t ! l \<le> k))"
proof -
  obtain k where k: "2 \<le> k" "find_degree n 1 = Some k" using find_degree_found [of 1 n] by auto
  then have d: "degree n = k" by (simp add: degree_def)
  note found = find_degree_least [OF _ k(2), simplified]
  have small: "snd (spath n r l) \<le> k ^ (k - l)" if "r < n" "l \<le> k" for r l
    using that(2)
  proof (induction l)
    case (Suc l)
    then have "snd (spath n r l) \<le> k * k ^ (k - Suc l)" by (simp add: Suc_diff_Suc flip: power_Suc)
    with locate_size [OF k(1), of "spath n r l" r "k ^ (k - Suc l)"] spath_in [OF that(1), of l]
    show ?case by (simp add: spath_def d)
  qed (use found in simp)
  have "\<exists>t. init_tree n r = Inr t \<and> tr_level t \<le> k \<and> (\<forall>l<tr_level t. tr_nbChild t ! l \<le> k)" if r: "r < n" for r
  proof -
    obtain t where t: "init_tree n r = Inr t" "follows (degree n) (spath n r) 0 (depth n r) t"
      using init_tree_eq [OF r] by blast
    have "snd (spath n r k) = 1" using small [OF r order_refl] spath_in [OF r, of k] by simp
    then have "depth n r \<le> k" using k(1) by (auto simp: depth_def intro: Least_le)
    with t show ?thesis by (auto simp: follows_def d)
  qed
  with k found show ?thesis by (auto simp: Suc_le_eq numeral_2_eq_2)
qed

section \<open>Runs of one communicator\<close>

text \<open>Schedulers as the constructor leaves them, with nothing in flight.\<close>

definition new_comm :: "nat \<Rightarrow> nat \<Rightarrow> nat \<Rightarrow> world \<Rightarrow> bool" where
  "new_comm cm n lv w \<longleftrightarrow> (\<forall>r<n. newScheduler n cm r lv = Inr (scheds w r))
     \<and> (\<forall>p. ups w cm p = []) \<and> (\<forall>p q. downs w cm p q = [])"

definition run_ok :: "nat \<Rightarrow> nat \<Rightarrow> nat \<Rightarrow> world \<Rightarrow> sched_action list \<Rightarrow> event_id list \<Rightarrow> bool" where
  "run_ok cm n lv w tr B \<longleftrightarrow> net_ok n (depth n) (leader n) cm lv w
     \<and> comm_of cm n (depth n) (leader n) (children n) (scheds w)
     \<and> seq_ok n (depth n) (leader n) cm w tr B \<and> stack_ok n (depth n) w tr
     \<and> (\<forall>a b. count_ok n (depth n) (leader n) (children n) cm lv a b w tr B) \<and> (\<forall>e\<in>set B. snd (snd e) = lv)"

lemma run_start:
  assumes "new_comm cm n lv w"
  shows "run_ok cm n lv w [] []"
proof -
  have x: "sc_comm (scheds w r) = cm \<and> sc_rank (scheds w r) = r \<and> sc_schedulerLevel (scheds w r) = lv
      \<and> sc_parentScheduler (scheds w r) = None \<and> sc_childScheduler (scheds w r) = None \<and> sc_recvEvent (scheds w r) = []
      \<and> sc_eventStack (scheds w r) = [] \<and> tree_for (depth n r) (leader n r) (children n r) (sc_tree (scheds w r))" if r: "r < n" for r
  proof -
    obtain t where t: "init_tree n r = Inr t" "tree_for (depth n r) (leader n r) (children n r) t"
      using init_tree_for [OF r] by blast
    have "newScheduler n cm r lv = Inr (scheds w r)" using assms r by (simp add: new_comm_def)
    with t(1) have "scheds w r = \<lparr>sc_tree = t, sc_comm = cm, sc_rank = r, sc_schedulerLevel = lv,
        sc_parentScheduler = None, sc_childScheduler = None, sc_recvEvent = [], sc_eventStack = []\<rparr>"
      by (simp add: newScheduler_def)
    with t(2) show ?thesis by simp
  qed
  then show ?thesis using assms
    by (auto simp: run_ok_def new_comm_def net_ok_def comm_of_def seq_ok_def stack_ok_def count_ok_def sent_def pending_def node_def)
qed

lemma run_invariant:
  assumes "sched_run w0 tr w" "new_comm cm n lv w0" "\<forall>act\<in>set tr. actor act < n"
  shows "\<exists>B. run_ok cm n lv w tr B"
  using assms
proof (induction rule: sched_run.induct)
  case (run_Nil w)
  then show ?case using run_start by blast
next
  case (run_snoc w0 tr w act w')
  then obtain B where B: "run_ok cm n lv w tr B" by auto
  then have i: "net_ok n (depth n) (leader n) cm lv w" "comm_of cm n (depth n) (leader n) (children n) (scheds w)"
    "seq_ok n (depth n) (leader n) cm w tr B" "stack_ok n (depth n) w tr"
    "\<And>a b. count_ok n (depth n) (leader n) (children n) cm lv a b w tr B" "\<forall>e\<in>set B. snd (snd e) = lv"
    by (auto simp: run_ok_def)
  have act: "actor act < n" using run_snoc.prems by simp
  note st = act run_snoc.hyps(2)
  have "snd (snd e) = lv" if "e \<in> set (decided (children n) w act)" for e
  proof (cases act)
    case (FromChild s m)
    with st have "msl m = lv" using et.from_child_ok [OF i(1,2)] by (auto simp: up_ok_def)
    with that FromChild show ?thesis by (auto simp: mev_def msl_def split: if_splits)
  qed (use that in auto)
  then have "run_ok cm n lv w' (tr @ [act]) (B @ decided (children n) w act)"
    unfolding run_ok_def
    using et.net_step [OF i(1,2) st] et.seq_step [OF i(1,2,3) st] et.stack_step [OF i(1,2,4) st] et.count_step [OF i(1,2,5) st] i(6)
    by auto
  then show ?case by blast
qed

section \<open>What a run has done\<close>

lemma run_prefix:
  assumes "run_ok cm n lv w tr B" "r < n"
  shows "prefix (taken_by tr r @ sc_eventStack (scheds w r)) (map (\<lambda>(a, b, c). (a, b)) B)"
proof -
  from assms(1) have "seq_ok n (depth n) (leader n) cm w tr B" "stack_ok n (depth n) w tr" by (simp_all add: run_ok_def)
  then show ?thesis by (rule et.stack_prefix) (rule assms(2))
qed

lemma count_order:
  "\<forall>e\<in>set B. snd (snd e) = lv \<Longrightarrow> count_list (map (\<lambda>(a, b, c). (a, b)) B) (a, b) = count_list B (a, b, lv)"
  by (induction B) auto

lemma run_decided:
  assumes "run_ok cm n lv w tr B" "0 < n"
  shows "count_list (map (\<lambda>(a, b, c). (a, b)) B) (a, b) = sent (depth n) (children n) tr 0 0 (a, b, lv)"
proof -
  have "count_list B (a, b, lv) = count_list tr (FromChild 0 (a, b, lv, 0)) div length (children n 0 0)"
    using assms(1) by (auto simp: run_ok_def count_ok_def)
  moreover have "\<forall>e\<in>set B. snd (snd e) = lv" using assms(1) by (simp add: run_ok_def)
  ultimately show ?thesis using count_order [of B lv] et.sent_inner [of 0 n 0] depth_facts(1) [OF assms(2)] by simp
qed

lemma count_prefix: "prefix xs ys \<Longrightarrow> count_list xs x \<le> count_list ys x"
  by (auto simp: prefix_def)

lemma node_root: "0 < n \<Longrightarrow> node n (depth n) (leader n) 0 0"
  by (simp add: node_def)

section \<open>The order of the events\<close>

text \<open>C10: Whatever the timing of the messages and the order of the registrations, the sequences of
  events that any two processes of a communicator have taken agree: one is an initial part of the
  other.\<close>

theorem events_ordered:
  assumes "new_comm cm n lv w0" "sched_run w0 tr w" "\<forall>act\<in>set tr. actor act < n" "r < n" "s < n"
  shows "prefix (taken_by tr r) (taken_by tr s) \<or> prefix (taken_by tr s) (taken_by tr r)"
proof -
  obtain B where B: "run_ok cm n lv w tr B" using run_invariant assms by blast
  have "prefix (taken_by tr r) (map (\<lambda>(a, b, c). (a, b)) B)" "prefix (taken_by tr s) (map (\<lambda>(a, b, c). (a, b)) B)"
    using run_prefix [OF B] assms(4,5) append_prefixD by blast+
  then show ?thesis by (rule prefix_same_cases)
qed

text \<open>C11: An event that each process registers at most once is taken by a process only when every
  process of the communicator has registered it, and no process takes it twice.\<close>

theorem event_after_all:
  assumes "new_comm cm n lv w0" "sched_run w0 tr w" "\<forall>act\<in>set tr. actor act < n"
    "\<forall>r<n. count_list tr (Register r a b) \<le> 1" "q < n" "(a, b) \<in> set (taken_by tr q)"
  shows "\<forall>r<n. Register r a b \<in> set tr \<and> count_list (taken_by tr r) (a, b) \<le> 1"
proof (intro allI impI)
  fix r assume r: "r < n"
  obtain B where B: "run_ok cm n lv w tr B" using run_invariant assms by blast
  then have cnt: "count_ok n (depth n) (leader n) (children n) cm lv a b w tr B" by (simp add: run_ok_def)
  have n: "0 < n" and reg: "\<And>r. r < n \<Longrightarrow> count_list tr (Register r a b) \<le> 1" using assms(4,5) by auto
  let ?B = "map (\<lambda>(a, b, c). (a, b)) B"
  have pre: "prefix (taken_by tr i) ?B" if "i < n" for i using run_prefix [OF B that] append_prefixD by blast
  have "(a, b) \<in> set ?B" using assms(6) set_mono_prefix [OF pre [OF assms(5)]] by blast
  then have "1 \<le> sent (depth n) (children n) tr 0 0 (a, b, lv)"
    using run_decided [OF B n] by (metis count_list_0_iff less_one linorder_not_less)
  then have "1 \<le> sent (depth n) (children n) tr (leader n r (depth n r)) (depth n r) (a, b, lv)"
    by (rule et.sent_by_all [OF cnt reg _ r order_refl, rotated -1])
  then have "count_list tr (Register r a b) \<noteq> 0" using depth_facts(2) [OF r] by (simp add: sent_def)
  then have "Register r a b \<in> set tr" by (simp add: count_list_0_iff)
  moreover have "count_list (taken_by tr r) (a, b) \<le> 1"
    using count_prefix [OF pre [OF r], of "(a, b)"] et.sent_once [OF cnt reg node_root [OF n]] unfolding run_decided [OF B n] by linarith
  ultimately show "Register r a b \<in> set tr \<and> count_list (taken_by tr r) (a, b) \<le> 1" by blast
qed

lemma quiet_counts:
  assumes "new_comm cm n lv w0" "sched_run w0 tr w" "\<forall>act\<in>set tr. actor act < n"
    "\<forall>r<n. count_list tr (Register r a b) = 1" "\<forall>p<n. ups w cm p = []" "\<forall>p<n. \<forall>q<n. downs w cm p q = []" "r < n" "s < n"
  shows "count_list (taken_by tr r @ sc_eventStack (scheds w r)) (a, b) = 1
    \<and> taken_by tr r @ sc_eventStack (scheds w r) = taken_by tr s @ sc_eventStack (scheds w s)"
proof -
  obtain B where B: "run_ok cm n lv w tr B" using run_invariant assms by blast
  then have i: "seq_ok n (depth n) (leader n) cm w tr B" "stack_ok n (depth n) w tr"
    "count_ok n (depth n) (leader n) (children n) cm lv a b w tr B" by (simp_all add: run_ok_def)
  have n: "0 < n" using assms(7) by simp
  have all: "taken_by tr r @ sc_eventStack (scheds w r) = map (\<lambda>(a, b, c). (a, b)) B" if "r < n" for r
    using et.stack_quiet [OF i(1,2) that] assms(6) by simp
  have "sent (depth n) (children n) tr 0 0 (a, b, lv) = 1"
    using et.sent_quiet [OF i(3) _ _ node_root [OF n]] assms(4,5) by simp
  then show ?thesis using all [OF assms(7)] all [OF assms(8)] run_decided [OF B n] by metis
qed

text \<open>When every process has registered an event once and no message is left in flight, every
  process has the event exactly once, taken or on its stack, and all have the same events in the
  same order.\<close>

theorem events_delivered:
  assumes "new_comm cm n lv w0" "sched_run w0 tr w" "\<forall>act\<in>set tr. actor act < n"
    "\<forall>r<n. count_list tr (Register r a b) = 1" "\<forall>p<n. ups w cm p = []" "\<forall>p<n. \<forall>q<n. downs w cm p q = []" "r < n" "s < n"
  shows "count_list (taken_by tr r @ sc_eventStack (scheds w r)) (a, b) = 1
    \<and> taken_by tr r @ sc_eventStack (scheds w r) = taken_by tr s @ sc_eventStack (scheds w s)"
  using quiet_counts [OF assms] .

text \<open>C31: No reception of the scheduler goes wrong: in every state that a run reaches, each message
  that is in flight can be handled by the process it was sent to, which finds its level, its children
  and its parent in its tables, and each process can register one more event.\<close>

theorem no_reception_fails:
  assumes "new_comm cm n lv w0" "sched_run w0 tr w" "\<forall>act\<in>set tr. actor act < n" "s < n"
  shows "(\<forall>m\<in>set (ups w cm s). \<exists>w'. sched_step w (FromChild s m) w')
    \<and> (\<forall>p m ms. downs w cm p s = m # ms \<longrightarrow> (\<exists>w'. sched_step w (FromParent s p m) w'))
    \<and> (\<forall>t h. \<exists>w'. sched_step w (Register s t h) w')"
proof -
  obtain B where "run_ok cm n lv w tr B" using run_invariant assms by blast
  then have i: "net_ok n (depth n) (leader n) cm lv w" "comm_of cm n (depth n) (leader n) (children n) (scheds w)"
    by (simp_all add: run_ok_def)
  show ?thesis
    using et.child_possible [OF i assms(4)] et.parent_possible [OF i assms(4)] et.register_possible [OF i(2) assms(4)] by blast
qed

section \<open>The messages run out\<close>

definition max_depth :: "nat \<Rightarrow> nat" where
  "max_depth n = Max (depth n ` {..<n})"

lemma max_depth: "r < n \<Longrightarrow> depth n r \<le> max_depth n"
  by (simp add: max_depth_def)

lemma run_step_ok:
  assumes "run_ok cm n lv w tr B" "actor act < n" "sched_step w act w'" "reception act"
  shows "traffic n (max_depth n) cm w' < traffic n (max_depth n) cm w"
  by (rule et.traffic_step [OF _ _ max_depth assms(2,3,4)]) (use assms(1) in \<open>auto simp: run_ok_def\<close>)

lemma sched_run_append: "sched_run w tr v \<Longrightarrow> sched_run w0 tr0 w \<Longrightarrow> sched_run w0 (tr0 @ tr) v"
proof (induction rule: sched_run.induct)
  case (run_snoc w tr w' act w'')
  then show ?case using sched_run.run_snoc [of w0 "tr0 @ tr" w' act w''] by simp
qed simp

lemma receptions_bounded:
  assumes "sched_run w rs v" "new_comm cm n lv w0" "sched_run w0 tr w" "\<forall>act\<in>set tr. actor act < n"
    "\<forall>act\<in>set rs. reception act \<and> actor act < n"
  shows "length rs + traffic n (max_depth n) cm v \<le> traffic n (max_depth n) cm w"
  using assms
proof (induction rule: sched_run.induct)
  case (run_snoc w rs v act v')
  have "\<forall>act\<in>set (tr @ rs). actor act < n" using run_snoc.prems by auto
  then obtain B where "run_ok cm n lv v (tr @ rs) B"
    using run_invariant sched_run_append run_snoc.hyps(1) run_snoc.prems by blast
  then have "traffic n (max_depth n) cm v' < traffic n (max_depth n) cm v"
    by (rule run_step_ok [OF _ _ run_snoc.hyps(2)]) (use run_snoc.prems in auto)
  moreover have "length rs + traffic n (max_depth n) cm v \<le> traffic n (max_depth n) cm w"
    using run_snoc by simp
  ultimately show ?case by simp
qed simp

lemma drained:
  assumes "run_ok cm n lv w tr B" "sched_run w0 tr w" "new_comm cm n lv w0" "\<forall>act\<in>set tr. actor act < n"
  shows "\<exists>rs v. sched_run w0 (tr @ rs) v \<and> (\<forall>act\<in>set rs. reception act \<and> actor act < n)
    \<and> (\<forall>p<n. ups v cm p = []) \<and> (\<forall>p<n. \<forall>q<n. downs v cm p q = [])"
  using assms
proof (induction "traffic n (max_depth n) cm w" arbitrary: w tr B rule: less_induct)
  case less
  have i: "net_ok n (depth n) (leader n) cm lv w" "comm_of cm n (depth n) (leader n) (children n) (scheds w)"
    using less.prems(1) by (simp_all add: run_ok_def)
  show ?case
  proof (cases "(\<forall>p<n. ups w cm p = []) \<and> (\<forall>p<n. \<forall>q<n. downs w cm p q = [])")
    case True
    with less.prems(2) show ?thesis by (intro exI [where x = "[]"] exI [where x = w]) simp
  next
    case False
    have "\<exists>act w'. sched_step w act w' \<and> reception act \<and> actor act < n"
    proof (cases "\<forall>p<n. ups w cm p = []")
      case True
      with False obtain p q m ms where q: "q < n" "downs w cm p q = m # ms" by (auto simp: neq_Nil_conv)
      with et.parent_possible [OF i q(1,2)] show ?thesis by (metis actor.simps(3) reception.simps(2))
    next
      case False
      then obtain p m where p: "p < n" "m \<in> set (ups w cm p)" by (meson list.set_sel(1))
      with et.child_possible [OF i p] show ?thesis by (metis actor.simps(2) reception.simps(1))
    qed
    then obtain act w' where act: "sched_step w act w'" "reception act" "actor act < n" by blast
    have run: "sched_run w0 (tr @ [act]) w'" by (rule sched_run.run_snoc [OF less.prems(2) act(1)])
    have ok: "\<forall>a\<in>set (tr @ [act]). actor a < n" using less.prems(4) act(3) by simp
    obtain B' where "run_ok cm n lv w' (tr @ [act]) B'" using run_invariant run less.prems(3) ok by blast
    from less.hyps [OF run_step_ok [OF less.prems(1) act(3,1,2)] this run less.prems(3) ok]
    obtain rs v where "sched_run w0 (tr @ (act # rs)) v" "\<forall>a\<in>set rs. reception a \<and> actor a < n"
      "\<forall>p<n. ups v cm p = []" "\<forall>p<n. \<forall>q<n. downs v cm p q = []" by auto
    with act(2,3) show ?thesis by (intro exI [where x = "act # rs"] exI [where x = v]) simp
  qed
qed

text \<open>C30: Receptions do not go on for ever: what is in flight in a reachable state bounds the number of
  receptions that can follow before a process registers another event.\<close>

theorem receptions_end:
  assumes "new_comm cm n lv w0" "sched_run w0 tr w" "\<forall>act\<in>set tr. actor act < n"
    "sched_run w rs v" "\<forall>act\<in>set rs. reception act \<and> actor act < n"
  shows "length rs \<le> traffic n (max_depth n) cm w"
  using receptions_bounded [OF assms(4,1,2,3,5)] by simp

text \<open>C12: Once every process has registered an event once, the messages that are in flight and those
  that they cause can be received until none is left, and the event then is on the stack of every
  process, or taken from it, exactly once.\<close>

theorem event_reaches_all:
  assumes "new_comm cm n lv w0" "sched_run w0 tr w" "\<forall>act\<in>set tr. actor act < n"
    "\<forall>r<n. count_list tr (Register r a b) = 1"
  shows "\<exists>rs v. sched_run w0 (tr @ rs) v \<and> (\<forall>act\<in>set rs. reception act) \<and> (\<forall>p<n. ups v cm p = [])
    \<and> (\<forall>p<n. \<forall>q<n. downs v cm p q = [])
    \<and> (\<forall>r<n. count_list (taken_by (tr @ rs) r @ sc_eventStack (scheds v r)) (a, b) = 1)"
proof -
  obtain B where "run_ok cm n lv w tr B" using run_invariant assms by blast
  from drained [OF this assms(2,1,3)] obtain rs v where rs: "sched_run w0 (tr @ rs) v"
    "\<forall>act\<in>set rs. reception act \<and> actor act < n" "\<forall>p<n. ups v cm p = []" "\<forall>p<n. \<forall>q<n. downs v cm p q = []" by blast
  have ok: "\<forall>act\<in>set (tr @ rs). actor act < n" using assms(3) rs(2) by auto
  have "Register r a b \<notin> set rs" for r using rs(2) by force
  then have reg: "\<forall>r<n. count_list (tr @ rs) (Register r a b) = 1" using assms(4) by simp
  have "count_list (taken_by (tr @ rs) r @ sc_eventStack (scheds v r)) (a, b) = 1" if "r < n" for r
    using quiet_counts [OF assms(1) rs(1) ok reg rs(3,4) that that] by simp
  with rs show ?thesis by blast
qed

section \<open>A communicator of three processes\<close>

definition three_sched :: "nat \<Rightarrow> event_tree \<Rightarrow> scheduler" where
  "three_sched r t = \<lparr>sc_tree = t, sc_comm = 0, sc_rank = r, sc_schedulerLevel = 0, sc_parentScheduler = None,
     sc_childScheduler = None, sc_recvEvent = [], sc_eventStack = []\<rparr>"

definition three_world :: world where
  "three_world = \<lparr>scheds = (\<lambda>r. three_sched r (if r = 2
       then \<lparr>tr_level = 1, tr_parent = [0, 0, 0], tr_child = [[0, 2], [0, 0], [0, 0]], tr_nbChild = [2, 0, 0]\<rparr>
       else \<lparr>tr_level = 2, tr_parent = [0, 0, 0], tr_child = [[0, 2], [0, 1], [0, 0]], tr_nbChild = [2, 2, 0]\<rparr>)),
     ups = (\<lambda>_ _. []), downs = (\<lambda>_ _ _. [])\<rparr>"

definition three_registered :: "sched_action list" where
  "three_registered = [Register 1 5 7, Register 0 5 7, FromChild 0 (5, 7, 0, 1), Register 2 5 7]"

definition three_received :: "sched_action list" where
  "three_received = [FromChild 0 (5, 7, 0, 0), FromChild 0 (5, 7, 0, 1), FromChild 0 (5, 7, 0, 0),
     FromParent 2 0 (5, 7, 0, 1), FromParent 0 0 (5, 7, 0, 1), FromParent 1 0 (5, 7, 0, 2), FromParent 0 0 (5, 7, 0, 2)]"

definition three_run :: "sched_action list" where
  "three_run = three_registered @ three_received @ [Take 2 (5, 7), Take 1 (5, 7)]"

lemma three_new: "new_comm 0 3 0 three_world"
proof -
  have "newScheduler 3 0 0 0 = Inr (scheds three_world 0)" "newScheduler 3 0 1 0 = Inr (scheds three_world 1)"
    "newScheduler 3 0 2 0 = Inr (scheds three_world 2)" by code_simp+
  then show ?thesis by (auto simp: new_comm_def three_world_def less_Suc_eq numeral_3_eq_3 numeral_2_eq_2)
qed

lemmas three_eval = three_world_def three_sched_def three_run_def three_registered_def three_received_def
  registerEvent_def registerEvent_at_def getBaseScheduler.simps send_up_def done_by_def Let_def arr_get_def
  checkChildRequest_def checkParentRequest_def bcastEvent_def queryEvent_def popEvent_def put_sched_def std_put.simps upt_rec

lemma three_ends:
  "\<exists>w. sched_do_all three_run three_world = Some w \<and> (\<forall>p. ups w 0 p = []) \<and> (\<forall>p q. downs w 0 p q = [])"
  by (simp add: three_eval)

lemma three_runs: "\<exists>w. sched_run three_world three_run w \<and> (\<forall>p. ups w 0 p = []) \<and> (\<forall>p q. downs w 0 p q = [])"
  using three_ends sched_do_all_run by blast

lemma three_midway: "\<exists>w v. sched_run three_world three_registered w \<and> sched_run w three_received v"
proof -
  have "\<exists>w v. sched_do_all three_registered three_world = Some w \<and> sched_do_all three_received w = Some v"
    by (simp add: three_eval)
  then show ?thesis using sched_do_all_run by blast
qed

lemma three_actors: "\<forall>act\<in>set three_run. actor act < 3" "\<forall>act\<in>set three_registered. actor act < 3"
  "\<forall>act\<in>set three_received. reception act \<and> actor act < 3"
  by (simp_all add: three_run_def three_registered_def three_received_def)

lemma three_once: "\<forall>r<3. count_list three_run (Register r 5 7) = 1" "\<forall>r<3. count_list three_registered (Register r 5 7) = 1"
  by (auto simp: three_run_def three_registered_def three_received_def less_Suc_eq numeral_3_eq_3)

theorem events_ordered_witness:
  "prefix (taken_by three_run 2) (taken_by three_run 1) \<or> prefix (taken_by three_run 1) (taken_by three_run 2)"
proof -
  obtain w where "sched_run three_world three_run w" using three_runs by blast
  from events_ordered [OF three_new this three_actors(1), of 2 1] show ?thesis by simp
qed

theorem event_after_all_witness:
  "Register 0 5 7 \<in> set three_run \<and> Register 1 5 7 \<in> set three_run \<and> Register 2 5 7 \<in> set three_run
    \<and> count_list (taken_by three_run 2) (5, 7) \<le> 1"
proof -
  obtain w where w: "sched_run three_world three_run w" using three_runs by blast
  have "(5, 7) \<in> set (taken_by three_run 2)" by (simp add: taken_by_def three_run_def)
  with event_after_all [OF three_new w three_actors(1), of 5 7 2] three_once(1) show ?thesis by simp
qed

theorem events_delivered_witness:
  "\<exists>w. sched_run three_world three_run w \<and> count_list (taken_by three_run 0 @ sc_eventStack (scheds w 0)) (5, 7) = 1
    \<and> taken_by three_run 0 @ sc_eventStack (scheds w 0) = taken_by three_run 1 @ sc_eventStack (scheds w 1)"
proof -
  obtain w where w: "sched_run three_world three_run w" "\<forall>p. ups w 0 p = []" "\<forall>p q. downs w 0 p q = []"
    using three_runs by blast
  with events_delivered [OF three_new w(1) three_actors(1) three_once(1), of 0 1] show ?thesis by auto
qed

theorem no_reception_fails_witness:
  "\<exists>w w'. sched_run three_world three_registered w \<and> sched_step w (Register 0 6 7) w'"
proof -
  obtain w where w: "sched_run three_world three_registered w" using three_midway by blast
  with no_reception_fails [OF three_new w three_actors(2), of 0] show ?thesis by auto
qed

theorem receptions_end_witness:
  "\<exists>w. sched_run three_world three_registered w \<and> length three_received \<le> traffic 3 (max_depth 3) 0 w"
proof -
  obtain w v where w: "sched_run three_world three_registered w" "sched_run w three_received v" using three_midway by blast
  with receptions_end [OF three_new w(1) three_actors(2) w(2) three_actors(3)] show ?thesis by blast
qed

theorem event_reaches_all_witness:
  "\<exists>rs v. sched_run three_world (three_registered @ rs) v
    \<and> count_list (taken_by (three_registered @ rs) 1 @ sc_eventStack (scheds v 1)) (5, 7) = 1"
proof -
  obtain w where w: "sched_run three_world three_registered w" using three_midway by blast
  have "1 < (3 :: nat)" by simp
  with event_reaches_all [OF three_new w three_actors(2) three_once(2)] show ?thesis by blast
qed

theorem trees_agree_witness:
  "\<exists>t u. init_tree 3 1 = Inr t \<and> init_tree 3 (tr_parent t ! 1) = Inr u \<and> node_rank t 1 1 \<in> set (take (tr_nbChild u ! 0) (tr_child u ! 0))"
proof -
  obtain T where T: "\<forall>r<3. init_tree 3 r = Inr (T r) \<and> 0 < tr_level (T r) \<and> tr_level (T r) < length (tr_parent (T r))
    \<and> (\<forall>l<tr_level (T r). let p = tr_parent (T r) ! (l + 1); cs = take (tr_nbChild (T p) ! l) (tr_child (T p) ! l) in
         p < 3 \<and> l < tr_level (T p) \<and> node_rank (T p) p l = p \<and> length cs = tr_nbChild (T p) ! l \<and> distinct cs
         \<and> set cs = {node_rank (T s) s (l + 1) | s. s < 3 \<and> l < tr_level (T s) \<and> tr_parent (T s) ! (l + 1) = p})"
    using trees_agree [of 3] by (elim exE)
  let ?p = "tr_parent (T 1) ! 1"
  have 1: "(1 :: nat) < 3" by simp
  have a: "init_tree 3 1 = Inr (T 1)" "0 < tr_level (T 1)" using T 1 by blast+
  with T 1 have "let p = tr_parent (T 1) ! (0 + 1); cs = take (tr_nbChild (T p) ! 0) (tr_child (T p) ! 0) in
         p < 3 \<and> 0 < tr_level (T p) \<and> node_rank (T p) p 0 = p \<and> length cs = tr_nbChild (T p) ! 0 \<and> distinct cs
         \<and> set cs = {node_rank (T s) s (0 + 1) | s. s < 3 \<and> 0 < tr_level (T s) \<and> tr_parent (T s) ! (0 + 1) = p}"
    by blast
  then have b: "?p < 3" "set (take (tr_nbChild (T ?p) ! 0) (tr_child (T ?p) ! 0))
      = {node_rank (T s) s 1 | s. s < 3 \<and> 0 < tr_level (T s) \<and> tr_parent (T s) ! 1 = ?p}"
    by (simp_all only: Let_def add_0)
  moreover from b(1) T have "init_tree 3 ?p = Inr (T ?p)" by blast
  moreover note a
  ultimately show ?thesis using 1 by (intro exI [where x = "T 1"] exI [where x = "T ?p"]) auto
qed

theorem tree_shape_witness:
  "\<exists>k t. find_degree 3 1 = Some k \<and> 3 \<le> k ^ k \<and> init_tree 3 2 = Inr t \<and> tr_level t \<le> k"
proof -
  have "(2 :: nat) < 3" by simp
  with tree_shape [of 3] show ?thesis by blast
qed

end
