(* ===== verification/Dht.thy ===== *)
theory Dht
  imports EventScheduler "HOL-Library.Word" "HOL-Library.AList"
begin

text \<open>
  The distributed hash table (\<open>distribution/client_client_dht_template_impl.hpp\<close>) and the hierarchy of
  groups its messages follow (\<open>policy.cpp\<close>).  All processes of a communicator construct a table
  together and ask it together, level by level; a level is one exchange of messages, in which every
  process sends what it has to the processes of its group.  An exchange goes through when each
  message that is sent is received: the numbers of messages first, then the messages themselves.
\<close>

unbundle bit_operations_syntax

section \<open>Calls on all processes\<close>

fun otraverse :: "('a \<Rightarrow> 'b outcome) \<Rightarrow> 'a list \<Rightarrow> 'b list outcome" where
  "otraverse f [] = Inr []"
| "otraverse f (x # xs) = obind (f x) (\<lambda>y. omap (Cons y) (otraverse f xs))"

lemma otraverse_cong [fundef_cong]:
  "xs = ys \<Longrightarrow> (\<And>x. x \<in> set ys \<Longrightarrow> f x = g x) \<Longrightarrow> otraverse f xs = otraverse g ys"
  by (induction ys arbitrary: xs) auto

lemma otraverse_ok: "(\<And>x. x \<in> set xs \<Longrightarrow> f x = Inr (g x)) \<Longrightarrow> otraverse f xs = Inr (map g xs)"
  by (induction xs) simp_all

section \<open>The hierarchy of groups\<close>

record dht_policy =
  dp_groupBegin :: "nat list"
  dp_nbInGroup :: "nat list"
  dp_parentsBegin :: "nat list list"
  dp_nbInParents :: "nat list list"

definition row_set :: "'a list list \<Rightarrow> int \<Rightarrow> int \<Rightarrow> 'a \<Rightarrow> 'a list list outcome" where
  "row_set xss i j x = obind (arr_get xss i) (\<lambda>xs. obind (arr_set xs j x) (arr_set xss i))"

text \<open>One turn of the loop over the levels cuts the group of the process into blocks.\<close>

definition policy_cut ::
  "nat \<Rightarrow> nat \<Rightarrow> nat \<Rightarrow> nat \<times> nat \<Rightarrow> dht_policy \<Rightarrow> ((nat \<times> nat) \<times> dht_policy) outcome" where
  "policy_cut maxChild mpiRank level = (\<lambda>(from, till) p.
     let nb = till - from + 1
     in obind (ofold (\<lambda>i (pos, from, till, pb, np).
              let n = (if i < nb mod maxChild then nb div maxChild + 1 else nb div maxChild);
                  (from, till) = (if pos \<le> mpiRank \<and> mpiRank < pos + n then (pos, pos + n - 1) else (from, till))
              in obind (row_set pb (int level - 1) (int i) pos) (\<lambda>pb.
                 omap (\<lambda>np. (pos + n, from, till, pb, np)) (row_set np (int level - 1) (int i) n)))
            [0..<min maxChild nb] (from, from, till, dp_parentsBegin p, dp_nbInParents p)) (\<lambda>(pos, from, till, pb, np).
        obind (arr_set (dp_groupBegin p) (int level) from) (\<lambda>gb.
        omap (\<lambda>ng. ((from, till), \<lparr>dp_groupBegin = gb, dp_nbInGroup = ng, dp_parentsBegin = pb, dp_nbInParents = np\<rparr>))
          (arr_set (dp_nbInGroup p) (int level) (till - from + 1)))))"

function policy_levels ::
  "nat \<Rightarrow> nat \<Rightarrow> nat \<Rightarrow> nat \<Rightarrow> nat \<times> nat \<Rightarrow> dht_policy \<Rightarrow> (nat \<times> dht_policy) outcome" where
  "policy_levels maxChild maxLevel mpiRank level (from, till) p =
     (if 2 < till - from + 1 \<and> level < maxLevel
      then obind (policy_cut maxChild mpiRank level (from, till) p)
             (\<lambda>(iv, p). policy_levels maxChild maxLevel mpiRank (level + 1) iv p)
      else Inr (level, p))"
  by pat_completeness auto
termination by (relation "measure (\<lambda>(_, maxLevel, _, level, _, _). maxLevel - level)") auto

text \<open>At the last level each process of the group is a group of its own.\<close>

definition computeMPICommLevel :: "nat \<Rightarrow> nat \<Rightarrow> (nat \<times> dht_policy) outcome" where
  "computeMPICommLevel mpiSize mpiRank =
     obind (returned ''computeMPICommLevel'' (map_option Inr (find_degree mpiSize 1))) (\<lambda>maxChild.
     obind (returned ''computeMPICommLevel'' (map_option Inr (count_levels mpiSize maxChild 1 0))) (\<lambda>maxLevel.
     obind (arr_set (replicate maxLevel 0) 0 0) (\<lambda>gb.
     obind (arr_set (replicate maxLevel 0) 0 mpiSize) (\<lambda>ng.
     obind (policy_levels maxChild maxLevel mpiRank 1 (0, mpiSize - 1)
       \<lparr>dp_groupBegin = gb, dp_nbInGroup = ng, dp_parentsBegin = replicate maxLevel (replicate maxChild 0),
        dp_nbInParents = replicate maxLevel (replicate maxChild 0)\<rparr>) (\<lambda>(level, p).
     obind (arr_get (dp_nbInGroup p) (int level - 1)) (\<lambda>nb.
     obind (arr_get (dp_groupBegin p) (int level - 1)) (\<lambda>from.
     omap (\<lambda>(pb, np). (level, p\<lparr>dp_parentsBegin := pb, dp_nbInParents := np\<rparr>))
       (ofold (\<lambda>i (pb, np). obind (row_set pb (int level - 1) (int i) (from + i)) (\<lambda>pb.
           omap (Pair pb) (row_set np (int level - 1) (int i) 1)))
         [0..<nb] (dp_parentsBegin p, dp_nbInParents p)))))))))"

section \<open>Hashing\<close>

text \<open>The bytes of an index on a little endian machine.\<close>

definition sizet_bytes :: "64 word \<Rightarrow> 64 word list" where
  "sizet_bytes u = map (\<lambda>i. drop_bit (8 * i) u AND 255) [0..<8]"

definition jenkins_hash :: "64 word \<Rightarrow> 64 word" where
  "jenkins_hash u =
     (let hash = fold (\<lambda>b hash. let hash = hash + b; hash = hash + push_bit 10 hash
                       in hash XOR drop_bit 6 hash) (sizet_bytes u) 0;
          hash = hash + push_bit 3 hash;
          hash = hash XOR drop_bit 11 hash
      in hash + push_bit 15 hash)"

definition hashXIOS :: "nat \<Rightarrow> nat" where
  "hashXIOS index = unat (jenkins_hash (word_of_nat index))"

text \<open>\<open>std::numeric_limits<size_t>::max()\<close>\<close>

definition nbHashIndexMax :: nat where
  "nbHashIndexMax = 2 ^ 64 - 1"

fun hash_bounds :: "nat \<Rightarrow> nat \<Rightarrow> nat" where
  "hash_bounds nbClient 0 = 0"
| "hash_bounds nbClient (Suc i) =
     (let nbHashIndex = nbHashIndexMax div nbClient;
          nbHashIndex = (if Suc i < nbHashIndexMax mod nbClient then nbHashIndex + 1 else nbHashIndex)
      in hash_bounds nbClient i + nbHashIndex)"

definition computeHashIndex :: "nat \<Rightarrow> nat list" where
  "computeHashIndex nbClient = (map (hash_bounds nbClient) [0..<nbClient] @ [0])[nbClient := nbHashIndexMax]"

text \<open>The searches of the standard library in a sorted range, as distances from its start.\<close>

definition std_upper_bound :: "nat list \<Rightarrow> nat \<Rightarrow> nat" where
  "std_upper_bound xs v = length (takeWhile (\<lambda>x. x \<le> v) xs)"

definition std_lower_bound :: "nat list \<Rightarrow> nat \<Rightarrow> nat" where
  "std_lower_bound xs v = length (takeWhile (\<lambda>x. x < v) xs)"

definition indexClient :: "nat \<Rightarrow> nat \<Rightarrow> int" where
  "indexClient nbClient index = int (std_upper_bound (computeHashIndex nbClient) (hashXIOS index)) - 1"

section \<open>The tables of the processes\<close>

text \<open>An unordered map of vectors, in the order in which its keys were put into it; the order in which
  such a map is traversed is not fixed by the language and nothing below depends on it.\<close>

type_synonym 'a info_map = "(nat \<times> 'a list) list"

definition infos :: "'a info_map \<Rightarrow> nat \<Rightarrow> 'a list" where
  "infos m i = (case map_of m i of None \<Rightarrow> [] | Some xs \<Rightarrow> xs)"

definition info_push :: "nat \<times> 'a \<Rightarrow> 'a info_map \<Rightarrow> 'a info_map" where
  "info_push = (\<lambda>(i, x) m. AList.update i (infos m i @ [x]) m)"

record dht =
  dt_rank :: nat
  dt_level :: nat
  dt_policy :: dht_policy
  dt_sendRank :: "nat list list"
  dt_recvRank :: "nat list list"

definition newDht :: "nat \<Rightarrow> nat \<Rightarrow> dht outcome" where
  "newDht mpiSize rank = omap (\<lambda>(level, p).
     \<lparr>dt_rank = rank, dt_level = level, dt_policy = p, dt_sendRank = replicate level [], dt_recvRank = replicate level []\<rparr>)
     (computeMPICommLevel mpiSize rank)"

text \<open>The processes of the group whose range of hashes meets that of this process one level below,
  and those whose range, one level below, meets that of this process.\<close>

definition computeSendRecvRank :: "nat \<Rightarrow> dht \<Rightarrow> dht outcome" where
  "computeSendRecvRank level c =
     (let p = dt_policy c; rank = dt_rank c in
     obind (arr_get (dp_groupBegin p) (int level)) (\<lambda>groupBegin.
     obind (arr_get (dp_nbInGroup p) (int level)) (\<lambda>nbInGroup.
     obind (arr_get (dp_parentsBegin p) (int level)) (\<lambda>groupParentBegin.
     obind (arr_get (dp_nbInParents p) (int level)) (\<lambda>nbInGroupParents.
     obind (arr_get (dt_recvRank c) (int level)) (\<lambda>recv.
     let hashedIndexGroup = computeHashIndex nbInGroup in
     obind (arr_get hashedIndexGroup (int rank - int groupBegin)) (\<lambda>a.
     obind (arr_get hashedIndexGroup (int rank - int groupBegin + 1)) (\<lambda>b1. let b = b1 - 1 in
     obind (ofold (\<lambda>idx (recv, ef).
         obind (arr_get nbInGroupParents (int idx)) (\<lambda>nb.
         obind (arr_get groupParentBegin (int idx)) (\<lambda>from.
         let hashed = (if nb \<noteq> 0 then computeHashIndex nb else []); offset = int rank - int from in
         obind (ofold (\<lambda>i recv.
             obind (arr_get hashed (int i)) (\<lambda>c.
             omap (\<lambda>d1. let d = d1 - 1 in if \<not> (d < a \<or> b < c) then recv @ [from + i] else recv)
               (arr_get hashed (int i + 1)))) [0..<nb] recv) (\<lambda>recv.
         if offset < int nb \<and> 0 \<le> offset
         then obind (arr_get hashed offset) (\<lambda>e. omap (\<lambda>f1. (recv, Some (e, f1 - 1))) (arr_get hashed (offset + 1)))
         else Inr (recv, ef)))))
       [0..<length groupParentBegin] (recv, None)) (\<lambda>(recv, ef).
     case ef of
       None \<Rightarrow> Inl (UndefinedBehaviour ''e and f are not set'')
     | Some (e, f) \<Rightarrow>
         let start = int (std_lower_bound hashedIndexGroup (e + 1)) - 1;
             stop = int (std_upper_bound hashedIndexGroup f) - 1
         in if stop + 1 < start then Inl (CException ''length_error'')
            else obind (arr_set (dt_sendRank c) (int level)
                     (map (\<lambda>idx. nat (int idx + int groupBegin + start)) [0..<nat (stop - start + 1)])) (\<lambda>sends.
                 omap (\<lambda>recvs. c\<lparr>dt_sendRank := sends, dt_recvRank := recvs\<rparr>)
                   (arr_set (dt_recvRank c) (int level) recv)))))))))))"

section \<open>Exchanges\<close>

text \<open>What a process has for each process of its group: \<open>ms\<close> for the one that an index hashes to.\<close>

definition dht_bins :: "nat \<Rightarrow> (nat \<times> 'm list) list \<Rightarrow> 'm list list outcome" where
  "dht_bins nbClient xs =
     ofold (\<lambda>(index, ms) bins. obind (arr_get bins (indexClient nbClient index)) (\<lambda>b.
         arr_set bins (indexClient nbClient index) (b @ ms)))
       xs (replicate nbClient [])"

definition dht_sends :: "nat \<Rightarrow> dht \<Rightarrow> nat list" where
  "dht_sends level c = (if level < dt_level c then dt_sendRank c ! level else [])"

definition dht_recvs :: "nat \<Rightarrow> dht \<Rightarrow> nat list" where
  "dht_recvs level c = (if level < dt_level c then dt_recvRank c ! level else [])"

abbreviation dht_begin :: "nat \<Rightarrow> dht \<Rightarrow> nat" where
  "dht_begin level c \<equiv> dp_groupBegin (dt_policy c) ! level"

definition dht_matched :: "nat \<Rightarrow> dht list \<Rightarrow> 'm list list list \<Rightarrow> bool" where
  "dht_matched level cs out \<longleftrightarrow>
     list_all (\<lambda>c. list_all (\<lambda>q. q < length cs) (dht_sends level c @ dht_recvs level c)) cs
     \<and> list_all (\<lambda>p. list_all (\<lambda>q.
         count_list (dht_sends level (cs ! p)) q = count_list (dht_recvs level (cs ! q)) p) [0..<length cs]) [0..<length cs]
     \<and> list_all (\<lambda>p. list_all (\<lambda>d. out ! p ! d = [] \<or> dht_begin level (cs ! p) + d \<in> set (dht_sends level (cs ! p)))
         [0..<length (out ! p)]) [0..<length cs]"

text \<open>\<open>sendRecvRank\<close> and the messages that follow it: each process gets the messages from its senders in
  the order of \<open>recvRank_\<close>, those that have none for it left out.\<close>

definition dht_exchange :: "nat \<Rightarrow> dht list \<Rightarrow> 'm list list list \<Rightarrow> (nat \<times> 'm list) list list outcome" where
  "dht_exchange level cs out =
     obind (otraverse (\<lambda>(c, bins). otraverse (\<lambda>q. arr_get bins (int q - int (dht_begin level c))) (dht_sends level c)) (zip cs out)) (\<lambda>_.
     if dht_matched level cs out
     then Inr (map (\<lambda>q. filter (\<lambda>(p, ms). ms \<noteq> [])
                 (map (\<lambda>p. (p, out ! p ! (q - dht_begin level (cs ! p)))) (dht_recvs level (cs ! q)))) [0..<length cs])
     else Inl (NonTermination ''MPI_Waitall''))"

section \<open>Distributing\<close>

definition dht_out :: "nat \<Rightarrow> dht \<Rightarrow> (nat \<times> 'm list) list \<Rightarrow> 'm list list outcome" where
  "dht_out level c xs =
     (if level < dt_level c then obind (arr_get (dp_nbInGroup (dt_policy c)) (int level)) (\<lambda>nb. dht_bins nb xs) else Inr [])"

definition distribute_level :: "nat \<Rightarrow> dht list \<times> 'a info_map list \<Rightarrow> (dht list \<times> 'a info_map list) outcome" where
  "distribute_level level = (\<lambda>(cs, maps).
     obind (otraverse (\<lambda>c. if level < dt_level c then computeSendRecvRank level c else Inr c) cs) (\<lambda>cs.
     obind (otraverse (\<lambda>(c, m). dht_out level c (map (\<lambda>(i, xs). (i, map (Pair i) xs)) m)) (zip cs maps)) (\<lambda>out.
     omap (\<lambda>got. (cs, map (\<lambda>(c, m, ms). if level < dt_level c then fold info_push (concat (map snd ms)) [] else m)
                        (zip cs (zip maps got))))
       (dht_exchange level cs out))))"

text \<open>\<open>computeDistributedIndex\<close> goes down the levels; a process takes part from its last level on.\<close>

fun distribute_from :: "nat \<Rightarrow> dht list \<times> 'a info_map list \<Rightarrow> (dht list \<times> 'a info_map list) outcome" where
  "distribute_from 0 s = Inr s"
| "distribute_from (Suc level) s = obind (distribute_level level s) (distribute_from level)"

definition dht_levels :: "dht list \<Rightarrow> nat" where
  "dht_levels cs = fold (\<lambda>c. max (dt_level c)) cs 0"

text \<open>The constructor, on all processes: the tables and \<open>index2InfoMapping_\<close> of each.\<close>

definition construct_dht :: "'a info_map list \<Rightarrow> (dht list \<times> 'a info_map list) outcome" where
  "construct_dht indexInfoMaps =
     obind (otraverse (newDht (length indexInfoMaps)) [0..<length indexInfoMaps]) (\<lambda>cs.
     distribute_from (dht_levels cs) (cs, indexInfoMaps))"

section \<open>Asking\<close>

definition dht_first :: "nat list \<Rightarrow> nat list" where
  "dht_first indices = fold (\<lambda>i seen. if i \<in> set seen then seen else seen @ [i]) indices []"

text \<open>The answers to the indices a process has sent, in the order of the processes it has asked.\<close>

definition dht_reply :: "(nat \<times> nat list) list \<Rightarrow> 'a info_map \<Rightarrow> nat \<Rightarrow> (nat \<times> 'a) list" where
  "dht_reply got found p = concat (map (\<lambda>(p', is). if p' = p
       then concat (map (\<lambda>i. map (Pair i) (infos found i)) is) else []) got)"

definition dht_returned :: "nat \<Rightarrow> dht list \<Rightarrow> nat list list list \<Rightarrow> (nat \<times> nat list) list list \<Rightarrow> 'a info_map list
    \<Rightarrow> nat \<Rightarrow> 'a info_map" where
  "dht_returned level cs out got found p =
     fold info_push (concat (map (\<lambda>d. if out ! p ! d = [] then []
         else (let q = dht_begin level (cs ! p) + d in dht_reply (got ! q) (found ! q) p)) [0..<length (out ! p)])) []"

fun ask_from :: "nat \<Rightarrow> dht list \<Rightarrow> 'a info_map list \<Rightarrow> nat list list \<Rightarrow> 'a info_map list outcome" where
  "ask_from 0 cs index2Info indices = Inr index2Info"
| "ask_from (Suc level) cs index2Info indices =
     obind (otraverse (\<lambda>(c, is). dht_out level c (map (\<lambda>i. (i, [i])) (dht_first is))) (zip cs indices)) (\<lambda>out.
     obind (dht_exchange level cs out) (\<lambda>got.
     omap (\<lambda>found. map (\<lambda>p. if level < dt_level (cs ! p) then dht_returned level cs out got found p else found ! p) [0..<length cs])
       (ask_from level cs index2Info
         (map (\<lambda>(c, is, ms). if level < dt_level c then concat (map snd ms) else is) (zip cs (zip indices got))))))"

text \<open>\<open>computeIndexInfoMapping\<close> on all processes: \<open>indexToInfoMappingLevel_\<close> of each.\<close>

definition computeIndexInfoMapping :: "dht list \<times> 'a info_map list \<Rightarrow> nat list list \<Rightarrow> 'a info_map list outcome" where
  "computeIndexInfoMapping = (\<lambda>(cs, index2Info) indices. ask_from (dht_levels cs) cs index2Info indices)"

end
