(* ===== verification/DhtHash.thy ===== *)
theory DhtHash
  imports Dht
begin

text \<open>
  The ranges of hash values: the bounds rise strictly from zero to the largest \<open>size_t\<close>, so each hash value
  below it belongs to exactly one process of a group.
\<close>

section \<open>Bounds\<close>

definition hbound :: "nat \<Rightarrow> nat \<Rightarrow> nat" where
  "hbound nb i = (if i < nb then hash_bounds nb i else nbHashIndexMax)"

lemma hash_bounds_eq: "hash_bounds nb i = i * (nbHashIndexMax div nb) + min i (nbHashIndexMax mod nb - 1)"
  by (induction i) (auto simp: Let_def)

lemma hbound_0: "0 < nb \<Longrightarrow> hbound nb 0 = 0"
  by (simp add: hbound_def)

lemma hbound_last: "hbound nb nb = nbHashIndexMax"
  by (simp add: hbound_def)

lemma hbound_less:
  assumes "0 < nb" "nb \<le> nbHashIndexMax" "i < nb"
  shows "hbound nb i < hbound nb (Suc i)"
proof -
  let ?M = nbHashIndexMax
  have q: "0 < ?M div nb" using assms by (simp add: div_greater_zero_iff)
  show ?thesis
  proof (cases "Suc i < nb")
    case True
    then show ?thesis using q assms(3) by (simp add: hbound_def hash_bounds_eq)
  next
    case False
    then have i: "nb = Suc i" using assms(3) by simp
    have "?M = i * (?M div nb) + ?M div nb + ?M mod nb"
      using div_mult_mod_eq [of ?M nb] by (simp add: i algebra_simps)
    then have "i * (?M div nb) + min i (?M mod nb - 1) < ?M" using q by linarith
    then show ?thesis by (simp add: hbound_def hash_bounds_eq i)
  qed
qed

lemma hbound_mono:
  assumes "0 < nb" "nb \<le> nbHashIndexMax" "i \<le> j" "j \<le> nb"
  shows "hbound nb i \<le> hbound nb j"
  using assms(3,4)
proof (induction j)
  case (Suc j)
  show ?case
  proof (cases "i = Suc j")
    case False
    then have "hbound nb i \<le> hbound nb j" using Suc by simp
    also have "\<dots> < hbound nb (Suc j)" using Suc.prems assms by (intro hbound_less) simp_all
    finally show ?thesis by simp
  qed simp
qed simp

lemma computeHashIndex_eq: "computeHashIndex nb = map (hbound nb) [0..<Suc nb]"
proof -
  have "map (hash_bounds nb) [0..<nb] = map (hbound nb) [0..<nb]" by (simp add: hbound_def)
  then show ?thesis by (simp add: computeHashIndex_def hbound_last list_update_append)
qed

lemma length_computeHashIndex [simp]: "length (computeHashIndex nb) = Suc nb"
  by (simp add: computeHashIndex_eq del: upt_Suc)

lemma nth_computeHashIndex [simp]: "i \<le> nb \<Longrightarrow> computeHashIndex nb ! i = hbound nb i"
  by (simp add: computeHashIndex_eq del: upt_Suc)

section \<open>The owner of a hash value\<close>

definition hash_owner :: "nat \<Rightarrow> nat \<Rightarrow> nat" where
  "hash_owner nb h = std_upper_bound (computeHashIndex nb) h - 1"

lemma std_upper_bound_hash:
  assumes nb: "0 < nb" "nb \<le> nbHashIndexMax" and i: "i \<le> nb" "hbound nb i \<le> h" "i < nb \<Longrightarrow> h < hbound nb (Suc i)"
  shows "std_upper_bound (computeHashIndex nb) h = Suc i"
proof -
  have split: "[0..<Suc nb] = [0..<Suc i] @ [Suc i..<Suc nb]" using upt_add_eq_append [of 0 "Suc i" "nb - i"] i(1) by simp
  have low: "x \<le> h" if "x \<in> set (map (hbound nb) [0..<Suc i])" for x
  proof -
    obtain j where "x = hbound nb j" "j \<le> i" using \<open>x \<in> _\<close> by auto
    with hbound_mono [OF nb, of j i] i show ?thesis by simp
  qed
  have high: "takeWhile (\<lambda>x. x \<le> h) (map (hbound nb) [Suc i..<Suc nb]) = []"
  proof (cases "i < nb")
    case True
    then have "[Suc i..<Suc nb] = Suc i # [Suc (Suc i)..<Suc nb]" by (intro upt_conv_Cons) simp
    with i(3) [OF True] show ?thesis by (simp add: not_le del: upt_Suc)
  qed (use i(1) in simp)
  have "takeWhile (\<lambda>x. x \<le> h) (computeHashIndex nb) = map (hbound nb) [0..<Suc i]"
    unfolding computeHashIndex_eq split map_append using low high
    by (subst takeWhile_append2) (simp_all del: upt_Suc)
  then show ?thesis by (simp add: std_upper_bound_def del: upt_Suc)
qed

lemma hash_owner_exists:
  assumes nb: "0 < nb" "nb \<le> nbHashIndexMax" and h: "h < nbHashIndexMax"
  shows "\<exists>i<nb. hbound nb i \<le> h \<and> h < hbound nb (Suc i)"
proof -
  let ?Q = "\<lambda>j. h < hbound nb j"
  have "?Q nb" using h by (simp add: hbound_last)
  moreover have "\<not> ?Q 0" by (simp add: hbound_0 [OF nb(1)])
  ultimately obtain i where "i < nb" "\<not> ?Q i" "?Q (Suc i)"
    using ex_least_nat_less [of ?Q nb] by (metis le_eq_less_or_eq less_Suc_eq_le order.strict_trans2 lessI)
  then show ?thesis by (auto simp: not_less)
qed

lemma hash_owner:
  assumes "0 < nb" "nb \<le> nbHashIndexMax" "h < nbHashIndexMax"
  shows "hash_owner nb h < nb" "hbound nb (hash_owner nb h) \<le> h" "h < hbound nb (Suc (hash_owner nb h))"
proof -
  obtain i where i: "i < nb" "hbound nb i \<le> h" "h < hbound nb (Suc i)" using hash_owner_exists [OF assms] by blast
  then have "hash_owner nb h = i" using std_upper_bound_hash [OF assms(1,2), of i h] by (simp add: hash_owner_def)
  with i show "hash_owner nb h < nb" "hbound nb (hash_owner nb h) \<le> h" "h < hbound nb (Suc (hash_owner nb h))" by simp_all
qed

lemma std_upper_bound_owner:
  assumes "0 < nb" "nb \<le> nbHashIndexMax" "h < nbHashIndexMax"
  shows "std_upper_bound (computeHashIndex nb) h = Suc (hash_owner nb h)"
  using hash_owner [OF assms] by (intro std_upper_bound_hash) (use assms in simp_all)

lemma hash_owner_le:
  assumes "0 < nb" "nb \<le> nbHashIndexMax" "h < nbHashIndexMax" "j < nb"
  shows "hash_owner nb h \<le> j \<longleftrightarrow> h < hbound nb (Suc j)"
proof -
  note o = hash_owner [OF assms(1-3)]
  have "h < hbound nb (Suc j)" if "hash_owner nb h \<le> j"
    using o(3) hbound_mono [OF assms(1,2), of "Suc (hash_owner nb h)" "Suc j"] that assms(4) by simp
  moreover have "\<not> h < hbound nb (Suc j)" if "\<not> hash_owner nb h \<le> j"
    using o(1,2) hbound_mono [OF assms(1,2), of "Suc j" "hash_owner nb h"] that by simp
  ultimately show ?thesis by blast
qed

lemma hash_owner_ge:
  assumes "0 < nb" "nb \<le> nbHashIndexMax" "h < nbHashIndexMax" "j < nb"
  shows "j \<le> hash_owner nb h \<longleftrightarrow> hbound nb j \<le> h"
proof (cases j)
  case (Suc i)
  then show ?thesis using hash_owner_le [OF assms(1-3), of i] assms(4) by auto
qed (simp add: hbound_0 assms(1))

lemma hash_owner_one [simp]: "h < nbHashIndexMax \<Longrightarrow> hash_owner 1 h = 0"
  using hash_owner(1) [of 1 h] by (simp add: nbHashIndexMax_def)

text \<open>The processes whose ranges meet that from \<open>e\<close> to \<open>f\<close>.\<close>

lemma meeting_ranges:
  assumes "0 < nb" "nb \<le> nbHashIndexMax" "e < nbHashIndexMax" "f < nbHashIndexMax" "j < nb"
  shows "hash_owner nb e \<le> j \<and> j \<le> hash_owner nb f \<longleftrightarrow> \<not> (f < hbound nb j \<or> hbound nb (Suc j) - 1 < e)"
  using hash_owner_le [OF assms(1-3,5)] hash_owner_ge [OF assms(1,2,4,5)] hbound_less [OF assms(1,2,5)] by auto

lemma hash_owner_mono:
  assumes "0 < nb" "nb \<le> nbHashIndexMax" "e \<le> f" "f < nbHashIndexMax"
  shows "hash_owner nb e \<le> hash_owner nb f"
  using hash_owner [OF assms(1,2), of f] hash_owner_le [OF assms(1,2), of e "hash_owner nb f"] assms(3,4) by simp

section \<open>Where an index goes\<close>

lemma indexClient_owner:
  assumes "0 < nb" "nb \<le> nbHashIndexMax" "hashXIOS i < nbHashIndexMax"
  shows "indexClient nb i = int (hash_owner nb (hashXIOS i))"
  using std_upper_bound_owner [OF assms] by (simp add: indexClient_def)

text \<open>The largest hash value belongs to nobody.\<close>

lemma indexClient_max:
  assumes "0 < nb" "nb \<le> nbHashIndexMax" "hashXIOS i = nbHashIndexMax"
  shows "indexClient nb i = int nb"
  using std_upper_bound_hash [OF assms(1,2), of nb nbHashIndexMax] assms(3) by (simp add: indexClient_def hbound_last)

lemma hashXIOS_le: "hashXIOS i \<le> nbHashIndexMax"
proof -
  have "unat (jenkins_hash (word_of_nat i)) < 2 ^ LENGTH(64)" by (rule unsigned_less)
  then show ?thesis by (simp add: hashXIOS_def nbHashIndexMax_def)
qed

end
