(* ===== verification/DhtTree.thy ===== *)
theory DhtTree
  imports DhtHash EventTree
begin

text \<open>
  The groups the processes build for the hash table: each process computes the path of its groups, the
  same cuts as those of the event scheduler but with an earlier end, and the blocks of each group.
\<close>

section \<open>One cut\<close>

definition row_of :: "nat \<Rightarrow> (nat \<Rightarrow> nat) \<Rightarrow> nat \<Rightarrow> nat list" where
  "row_of k f m = map f [0..<m] @ replicate (k - m) 0"

lemma row_of_simps [simp]: "m \<le> k \<Longrightarrow> length (row_of k f m) = k" "row_of k f 0 = replicate k 0"
  "i < m \<Longrightarrow> row_of k f m ! i = f i" "m \<le> i \<Longrightarrow> i < k \<Longrightarrow> row_of k f m ! i = 0"
  by (simp_all add: row_of_def nth_append)

lemma row_of_step: "m < k \<Longrightarrow> (row_of k f m)[m := f m] = row_of k f (Suc m)"
  by (cases "k - m") (simp_all add: row_of_def list_update_append Suc_diff_Suc [symmetric])

lemma row_of_cong: "(\<And>i. i < m \<Longrightarrow> f i = g i) \<Longrightarrow> row_of k f m = row_of k g m"
  by (simp add: row_of_def)

lemma row_set_ok:
  "i < length xss \<Longrightarrow> j < length (xss ! i) \<Longrightarrow> row_set xss (int i) (int j) x = Inr (xss[i := (xss ! i)[j := x]])"
  by (simp add: row_set_def)

lemma policy_cut_eq:
  assumes k: "0 < k" and iv: "b \<le> r" "r < b + nb"
    and p: "Suc l < length (dp_groupBegin p)" "Suc l < length (dp_nbInGroup p)"
      "l < length (dp_parentsBegin p)" "l < length (dp_nbInParents p)"
      "dp_parentsBegin p ! l = replicate k 0" "dp_nbInParents p ! l = replicate k 0"
    and iv': "locate k r (b, nb) = (b', nb')"
  shows "policy_cut k r (Suc l) (b, b + nb - 1) p = Inr ((b', b' + nb' - 1),
    \<lparr>dp_groupBegin = (dp_groupBegin p)[Suc l := b'], dp_nbInGroup = (dp_nbInGroup p)[Suc l := nb'],
     dp_parentsBegin = (dp_parentsBegin p)[l := row_of k (blk_start k b nb) (min k nb)],
     dp_nbInParents = (dp_nbInParents p)[l := row_of k (blk_size k nb) (min k nb)]\<rparr>)"
proof -
  let ?f = "\<lambda>i (pos, from, till, pb, np).
      let n = (if i < nb mod k then nb div k + 1 else nb div k);
          (from, till) = (if pos \<le> r \<and> r < pos + n then (pos, pos + n - 1) else (from, till))
      in obind (row_set pb (int (Suc l) - 1) (int i) pos) (\<lambda>pb.
         omap (\<lambda>np. (pos + n, from, till, pb, np)) (row_set np (int (Suc l) - 1) (int i) n))"
  define now where "now = (\<lambda>i. if r < blk_start k b nb i then (b', b' + nb' - 1) else (b, b + nb - 1))"
  let ?P = "\<lambda>i (pos, from, till, pb, np). pos = blk_start k b nb i \<and> (from, till) = now i
     \<and> pb = (dp_parentsBegin p)[l := row_of k (blk_start k b nb) i]
     \<and> np = (dp_nbInParents p)[l := row_of k (blk_size k nb) i]"
  have step: "now (Suc i) = (if blk_start k b nb i \<le> r \<and> r < blk_start k b nb i + blk_size k nb i
      then (blk_start k b nb i, blk_start k b nb i + blk_size k nb i - 1) else now i)" if "i < min k nb" for i
    using locate_block [of i k "(b, nb)" r] that iv' by (auto simp: now_def in_block_def blk_start_simps)
  have "\<exists>s. ofold ?f [0..<min k nb] (b, b, b + nb - 1, dp_parentsBegin p, dp_nbInParents p) = Inr s \<and> ?P (min k nb) s"
  proof (rule ofold_upto [where P = ?P])
    have "(dp_parentsBegin p)[l := replicate k 0] = dp_parentsBegin p" "(dp_nbInParents p)[l := replicate k 0] = dp_nbInParents p"
      using p(5,6) list_update_id [of "dp_parentsBegin p" l] list_update_id [of "dp_nbInParents p" l] by simp_all
    then show "?P 0 (b, b, b + nb - 1, dp_parentsBegin p, dp_nbInParents p)"
      using iv by (simp add: blk_start_simps now_def)
  next
    fix i s assume i: "i < min k nb" and s: "?P i s"
    obtain pos f e pb np where s': "s = (pos, f, e, pb, np)" by (metis prod.exhaust)
    have rows: "row_set pb (int (Suc l) - 1) (int i) x = Inr (pb[l := (pb ! l)[i := x]])"
      "row_set np (int (Suc l) - 1) (int i) x = Inr (np[l := (np ! l)[i := x]])" for x
      using row_set_ok [of l pb i x] row_set_ok [of l np i x] s i p by (simp_all add: s')
    have "?f i s = Inr (blk_start k b nb (Suc i), fst (now (Suc i)), snd (now (Suc i)),
        (dp_parentsBegin p)[l := row_of k (blk_start k b nb) (Suc i)], (dp_nbInParents p)[l := row_of k (blk_size k nb) (Suc i)])"
      using s i p row_of_step [of i k "blk_start k b nb"] row_of_step [of i k "blk_size k nb"]
      unfolding s' prod.case rows
      by (simp add: step blk_start_simps blk_size_def Let_def split: prod.splits)
    then show "\<exists>t. ?f i s = Inr t \<and> ?P (Suc i) t" by simp
  qed
  then obtain s where s: "ofold ?f [0..<min k nb] (b, b, b + nb - 1, dp_parentsBegin p, dp_nbInParents p) = Inr s" "?P (min k nb) s"
    by blast
  have "now (min k nb) = (b', b' + nb' - 1)" using blk_start_all [OF k] iv by (simp add: now_def)
  with s(2) obtain pos where s': "s = (pos, b', b' + nb' - 1, (dp_parentsBegin p)[l := row_of k (blk_start k b nb) (min k nb)],
      (dp_nbInParents p)[l := row_of k (blk_size k nb) (min k nb)])"
    by auto
  have nb: "b + nb - 1 - b + 1 = nb" using iv by simp
  have nb': "b' + nb' - 1 - b' + 1 = nb'" using locate_in [of k "(b, nb)" r] assms by simp
  have set: "arr_set (dp_groupBegin p) (int (Suc l)) b' = Inr ((dp_groupBegin p)[Suc l := b'])"
    "arr_set (dp_nbInGroup p) (int (Suc l)) nb' = Inr ((dp_nbInGroup p)[Suc l := nb'])"
    using p arr_set_ok [of "int (Suc l)" "dp_groupBegin p" b'] arr_set_ok [of "int (Suc l)" "dp_nbInGroup p" nb']
    unfolding nat_int by (simp_all del: of_nat_Suc)
  show ?thesis
    unfolding policy_cut_def prod.case Let_def nb s(1) [unfolded Let_def s'] obind.simps nb' set omap_simps ..
qed

section \<open>The levels of a process\<close>

definition levels :: "nat \<Rightarrow> nat" where
  "levels n = the (count_levels n (degree n) 1 0)"

definition dht_stop :: "nat \<Rightarrow> nat \<Rightarrow> nat \<Rightarrow> bool" where
  "dht_stop n r l \<longleftrightarrow> snd (spath n r (l - 1)) \<le> 2 \<or> levels n \<le> l"

definition dlev :: "nat \<Rightarrow> nat \<Rightarrow> nat" where
  "dlev n r = (LEAST l. 1 \<le> l \<and> dht_stop n r l)"

lemma levels_facts:
  assumes "0 < n"
  shows "count_levels n (degree n) 1 0 = Some (levels n)" "n < degree n ^ levels n" "0 < levels n"
  using count_levels_found [OF degree_ge, of 1 n n 0] assms by (auto simp: levels_def)

lemma spath_size_le:
  assumes "r < n" "l \<le> levels n"
  shows "snd (spath n r l) \<le> degree n ^ (levels n - l)"
  using assms(2)
proof (induction l)
  case 0
  then show ?case using levels_facts [of n] assms(1) by simp
next
  case (Suc l)
  have "degree n ^ (levels n - l) = degree n * degree n ^ (levels n - Suc l)"
    using Suc.prems by (simp add: Suc_diff_Suc flip: power_Suc)
  with Suc locate_size [OF degree_ge, of "spath n r l" r] spath_in [OF assms(1), of l] show ?case
    by (simp add: spath_def)
qed

lemma dlev_facts:
  assumes "r < n"
  shows "1 \<le> dlev n r" "dht_stop n r (dlev n r)" "dlev n r \<le> levels n" "1 \<le> l \<Longrightarrow> l < dlev n r \<Longrightarrow> \<not> dht_stop n r l"
proof -
  have ex: "1 \<le> levels n \<and> dht_stop n r (levels n)" using levels_facts [of n] assms by (simp add: dht_stop_def)
  show "1 \<le> dlev n r" "dht_stop n r (dlev n r)" using LeastI [of "\<lambda>l. 1 \<le> l \<and> dht_stop n r l", OF ex] by (simp_all add: dlev_def)
  show "dlev n r \<le> levels n" using Least_le [of "\<lambda>l. 1 \<le> l \<and> dht_stop n r l", OF ex] by (simp add: dlev_def)
  show "\<not> dht_stop n r l" if "1 \<le> l" "l < dlev n r"
    using not_less_Least [of l "\<lambda>l. 1 \<le> l \<and> dht_stop n r l"] that by (simp add: dlev_def)
qed

text \<open>At its last level a group is not larger than the degree, and its blocks are single processes.\<close>

lemma last_group:
  assumes "r < n"
  shows "snd (spath n r (dlev n r - 1)) \<le> degree n" "spath n r (dlev n r) = (r, 1)"
proof -
  note d = dlev_facts [OF assms]
  show le: "snd (spath n r (dlev n r - 1)) \<le> degree n"
  proof (cases "levels n \<le> dlev n r")
    case True
    then have "dlev n r = levels n" using d(3) by simp
    then show ?thesis using spath_size_le [OF assms, of "levels n - 1"] d(1) by simp
  next
    case False
    then show ?thesis using d(2) degree_ge [of n] by (simp add: dht_stop_def)
  qed
  have "spath n r (dlev n r) = locate (degree n) r (spath n r (dlev n r - 1))"
    using d(1) by (cases "dlev n r") (simp_all add: spath_def)
  moreover have "locate (degree n) r (spath n r (dlev n r - 1)) = (r, 1)"
  proof -
    obtain b nb where iv: "spath n r (dlev n r - 1) = (b, nb)" by (cases "spath n r (dlev n r - 1)")
    have in': "b \<le> r" "r < b + nb" "nb \<le> degree n" using spath_in [OF assms, of "dlev n r - 1"] le iv by simp_all
    have one: "blk_size (degree n) nb i = 1" "blk_start (degree n) b nb i = b + i" if "i < nb" for i
      using that in'(3) by (cases "nb = degree n"; simp add: blk_size_def blk_start_def)+
    have "in_block (degree n) (b, nb) r (r - b)" using one [of "r - b"] in' by (simp add: in_block_def)
    then show ?thesis unfolding iv using locate_block [of "r - b" "degree n" "(b, nb)" r] one [of "r - b"] in' by simp
  qed
  ultimately show "spath n r (dlev n r) = (r, 1)" by simp
qed

lemma spath_beyond:
  assumes "r < n" "dlev n r \<le> l"
  shows "spath n r l = (r, 1)"
  using assms(2)
proof (induction l)
  case (Suc l)
  show ?case
  proof (cases "dlev n r = Suc l")
    case False
    then have "spath n r (Suc l) = locate (degree n) r (r, 1)" using Suc by (simp add: spath_def)
    moreover have "in_block (degree n) (r, 1) r 0" using degree_ge [of n] by (simp add: in_block_def blk_start_def blk_size_def)
    ultimately show ?thesis
      using locate_block [of 0 "degree n" "(r, 1)" r] degree_ge [of n] by (simp add: blk_start_def blk_size_def)
  qed (use last_group [OF assms(1)] in simp)
qed (use dlev_facts(1) [OF assms(1)] in simp)

text \<open>The processes of a group agree on its path.\<close>

lemma dlev_same:
  assumes "r < n" "s < n" "spath n s l = spath n r l" "l < dlev n r"
  shows "l < dlev n s"
proof (rule ccontr)
  assume "\<not> l < dlev n s"
  then have d: "dlev n s \<le> l" by simp
  have "spath n s l = (s, 1)" by (rule spath_beyond [OF assms(2) d])
  then have i: "leader n r l \<le> s" "s < leader n r l + snd (spath n r l)" using assms(3) by simp_all
  have "dht_stop n s (dlev n s)" by (rule dlev_facts(2) [OF assms(2)])
  moreover have "spath n s (dlev n s - 1) = spath n r (dlev n s - 1)" by (rule spath_same [OF assms(1) i]) (use d in simp)
  ultimately have "dht_stop n r (dlev n s)" by (simp add: dht_stop_def)
  then show False using dlev_facts(4) [OF assms(1), of "dlev n s"] dlev_facts(1) [OF assms(2)] d assms(4) by simp
qed

section \<open>The tables of a process\<close>

abbreviation dht_starts :: "nat \<Rightarrow> nat \<Rightarrow> nat \<Rightarrow> nat list" where
  "dht_starts n r l \<equiv> row_of (degree n) (blk_start (degree n) (leader n r l) (snd (spath n r l))) (min (degree n) (snd (spath n r l)))"

abbreviation dht_sizes :: "nat \<Rightarrow> nat \<Rightarrow> nat \<Rightarrow> nat list" where
  "dht_sizes n r l \<equiv> row_of (degree n) (blk_size (degree n) (snd (spath n r l))) (min (degree n) (snd (spath n r l)))"

text \<open>The groups of the levels below \<open>l\<close> and the blocks of those below \<open>c\<close> are in the tables.\<close>

definition pol_rows :: "nat \<Rightarrow> nat \<Rightarrow> nat \<Rightarrow> nat \<Rightarrow> dht_policy \<Rightarrow> bool" where
  "pol_rows n r l c p \<longleftrightarrow> length (dp_groupBegin p) = levels n \<and> length (dp_nbInGroup p) = levels n
     \<and> length (dp_parentsBegin p) = levels n \<and> length (dp_nbInParents p) = levels n
     \<and> (\<forall>j<l. dp_groupBegin p ! j = leader n r j \<and> dp_nbInGroup p ! j = snd (spath n r j))
     \<and> (\<forall>j<levels n. dp_parentsBegin p ! j = (if j < c then dht_starts n r j else replicate (degree n) 0)
          \<and> dp_nbInParents p ! j = (if j < c then dht_sizes n r j else replicate (degree n) 0))"

lemma pol_rows_cut:
  assumes r: "r < n" and l: "Suc l < levels n" and p: "pol_rows n r (Suc l) l p"
    and iv: "spath n r l = (b, nb)" "spath n r (Suc l) = (b', nb')"
  shows "\<exists>p'. policy_cut (degree n) r (Suc l) (b, b + nb - 1) p = Inr ((b', b' + nb' - 1), p')
    \<and> pol_rows n r (Suc (Suc l)) (Suc l) p'"
proof -
  have k: "0 < degree n" using degree_ge [of n] by simp
  have iv': "locate (degree n) r (b, nb) = (b', nb')" using iv by (simp add: spath_def)
  have in': "b \<le> r" "r < b + nb" using spath_in [OF r, of l] iv by simp_all
  have t: "Suc l < length (dp_groupBegin p)" "Suc l < length (dp_nbInGroup p)" "l < length (dp_parentsBegin p)"
    "l < length (dp_nbInParents p)" "dp_parentsBegin p ! l = replicate (degree n) 0" "dp_nbInParents p ! l = replicate (degree n) 0"
    using p l by (simp_all add: pol_rows_def)
  show ?thesis
    unfolding policy_cut_eq [OF k in' t iv'] using p l iv
    by (auto simp: pol_rows_def nth_list_update less_Suc_eq)
qed

lemma policy_levels_eq:
  assumes r: "r < n"
  shows "1 \<le> l \<Longrightarrow> l \<le> dlev n r \<Longrightarrow> pol_rows n r l (l - 1) p \<Longrightarrow> spath n r (l - 1) = (b, nb)
    \<Longrightarrow> \<exists>p'. policy_levels (degree n) (levels n) r l (b, b + nb - 1) p = Inr (dlev n r, p')
      \<and> pol_rows n r (dlev n r) (dlev n r - 1) p'"
proof (induction "dlev n r - l" arbitrary: l b nb p)
  case 0
  have nb: "b + nb - 1 - b + 1 = nb" using spath_in [OF r, of "l - 1"] 0 by simp
  have l: "l = dlev n r" using 0 by simp
  then have "\<not> (2 < nb \<and> l < levels n)" using dlev_facts(2) [OF r] 0(5) by (auto simp: dht_stop_def)
  then have "policy_levels (degree n) (levels n) r l (b, b + nb - 1) p = Inr (l, p)"
    unfolding policy_levels.simps nb by (simp only: if_False)
  with 0(4) l show ?case by blast
next
  case (Suc d)
  obtain c where c: "l = Suc c" using Suc(3) by (cases l) auto
  have nb: "b + nb - 1 - b + 1 = nb" using spath_in [OF r, of "l - 1"] Suc by simp
  have "\<not> dht_stop n r l" using dlev_facts(4) [OF r, of l] Suc(2,3) by simp
  then have go: "2 < nb \<and> l < levels n" using Suc(6) by (auto simp: dht_stop_def)
  obtain b' nb' where iv: "spath n r (Suc c) = (b', nb')" by (cases "spath n r (Suc c)")
  obtain p' where p': "policy_cut (degree n) r (Suc c) (b, b + nb - 1) p = Inr ((b', b' + nb' - 1), p')"
    "pol_rows n r (Suc (Suc c)) (Suc c) p'"
    using pol_rows_cut [OF r _ _ _ iv, of p b nb] go Suc(5,6) c by auto
  have "policy_levels (degree n) (levels n) r l (b, b + nb - 1) p
      = policy_levels (degree n) (levels n) r (Suc l) (b', b' + nb' - 1) p'"
    unfolding policy_levels.simps [of "degree n" "levels n" r l] nb using go p'(1) by (simp add: c)
  with Suc(1) [of "Suc l" p' b' nb'] Suc(2,4) p'(2) iv c show ?case by simp
qed

lemma small_blocks:
  assumes "nb \<le> k" "i < nb"
  shows "blk_start k b nb i = b + i" "blk_size k nb i = 1"
  using assms by (cases "nb = k"; simp add: blk_size_def blk_start_def)+

lemma policy_fill_eq:
  assumes r: "r < n" and l: "l = dlev n r - 1" and p: "pol_rows n r (dlev n r) l p" and iv: "spath n r l = (b, nb)"
  shows "\<exists>pb np. ofold (\<lambda>i (pb, np). obind (row_set pb (int l) (int i) (b + i)) (\<lambda>pb.
           omap (Pair pb) (row_set np (int l) (int i) 1)))
         [0..<nb] (dp_parentsBegin p, dp_nbInParents p) = Inr (pb, np)
      \<and> pol_rows n r (dlev n r) (dlev n r) (p\<lparr>dp_parentsBegin := pb, dp_nbInParents := np\<rparr>)"
proof -
  let ?k = "degree n"
  let ?f = "\<lambda>i (pb, np). obind (row_set pb (int l) (int i) (b + i)) (\<lambda>pb. omap (Pair pb) (row_set np (int l) (int i) 1))"
  let ?P = "\<lambda>i (pb, np). pb = (dp_parentsBegin p)[l := row_of ?k (blk_start ?k b nb) i]
     \<and> np = (dp_nbInParents p)[l := row_of ?k (blk_size ?k nb) i]"
  have lv: "l < levels n" "dlev n r = Suc l" using dlev_facts(1,3) [OF r] l by simp_all
  have nb: "nb \<le> ?k" using last_group(1) [OF r] iv l by simp
  have rows: "dp_parentsBegin p ! l = replicate ?k 0" "dp_nbInParents p ! l = replicate ?k 0"
    "length (dp_parentsBegin p) = levels n" "length (dp_nbInParents p) = levels n"
    using p lv by (simp_all add: pol_rows_def)
  have "\<exists>s. ofold ?f [0..<nb] (dp_parentsBegin p, dp_nbInParents p) = Inr s \<and> ?P nb s"
  proof (rule ofold_upto [where P = ?P])
    show "?P 0 (dp_parentsBegin p, dp_nbInParents p)"
      using rows list_update_id [of "dp_parentsBegin p" l] list_update_id [of "dp_nbInParents p" l] by simp
  next
    fix i s assume i: "i < nb" and s: "?P i s"
    obtain pb np where s': "s = (pb, np)" by (cases s)
    have set: "row_set pb (int l) (int i) x = Inr (pb[l := (pb ! l)[i := x]])"
      "row_set np (int l) (int i) x = Inr (np[l := (np ! l)[i := x]])" for x
      using row_set_ok [of l pb i x] row_set_ok [of l np i x] s i rows lv nb by (simp_all add: s')
    show "\<exists>t. ?f i s = Inr t \<and> ?P (Suc i) t"
      unfolding s' prod.case set
      using s i nb rows lv row_of_step [of i ?k "blk_start ?k b nb"] row_of_step [of i ?k "blk_size ?k nb"] small_blocks [OF nb i]
      by (simp add: s')
  qed
  then obtain pb np where s: "ofold ?f [0..<nb] (dp_parentsBegin p, dp_nbInParents p) = Inr (pb, np)" "?P nb (pb, np)" by auto
  moreover have "pol_rows n r (dlev n r) (dlev n r) (p\<lparr>dp_parentsBegin := pb, dp_nbInParents := np\<rparr>)"
    using s(2) p lv nb iv by (auto simp: pol_rows_def nth_list_update less_Suc_eq min_absorb2)
  ultimately show ?thesis by blast
qed

lemma computeMPICommLevel_eq:
  assumes "r < n"
  shows "\<exists>p. computeMPICommLevel n r = Inr (dlev n r, p) \<and> pol_rows n r (dlev n r) (dlev n r) p"
proof -
  have n: "0 < n" using assms by simp
  have k: "find_degree n 1 = Some (degree n)" using find_degree_found [of 1 n] by (auto simp: degree_def)
  note lv = levels_facts [OF n] and d = dlev_facts [OF assms]
  let ?D = "levels n"
  let ?p = "\<lparr>dp_groupBegin = (replicate ?D 0)[0 := 0], dp_nbInGroup = (replicate ?D 0)[0 := n],
      dp_parentsBegin = replicate ?D (replicate (degree n) 0), dp_nbInParents = replicate ?D (replicate (degree n) 0)\<rparr>"
  have "pol_rows n r 1 0 ?p" using lv(3) by (simp add: pol_rows_def)
  from policy_levels_eq [OF assms _ d(1) _, of ?p 0 n] this
  obtain p where p: "policy_levels (degree n) ?D r 1 (0, n - 1) ?p = Inr (dlev n r, p)" "pol_rows n r (dlev n r) (dlev n r - 1) p"
    by auto
  obtain b nb where iv: "spath n r (dlev n r - 1) = (b, nb)" by (cases "spath n r (dlev n r - 1)")
  have l: "int (dlev n r) - 1 = int (dlev n r - 1)" using d(1) by simp
  have "dlev n r - 1 < ?D" "dlev n r - 1 < dlev n r" using d(1,3) by linarith+
  then have get: "arr_get (dp_nbInGroup p) (int (dlev n r - 1)) = Inr nb" "arr_get (dp_groupBegin p) (int (dlev n r - 1)) = Inr b"
    using p(2) iv unfolding pol_rows_def arr_get_def nat_int by simp_all
  obtain pb np where f: "ofold (\<lambda>i (pb, np). obind (row_set pb (int (dlev n r - 1)) (int i) (b + i)) (\<lambda>pb.
           omap (Pair pb) (row_set np (int (dlev n r - 1)) (int i) 1)))
         [0..<nb] (dp_parentsBegin p, dp_nbInParents p) = Inr (pb, np)"
      "pol_rows n r (dlev n r) (dlev n r) (p\<lparr>dp_parentsBegin := pb, dp_nbInParents := np\<rparr>)"
    using policy_fill_eq [OF assms refl p(2) iv] by blast
  have set: "arr_set (replicate ?D 0) 0 (0::nat) = Inr ((replicate ?D 0)[0 := 0])" "arr_set (replicate ?D 0) 0 n = Inr ((replicate ?D 0)[0 := n])"
    using lv(3) by (simp_all add: arr_set_def)
  have "computeMPICommLevel n r = Inr (dlev n r, p\<lparr>dp_parentsBegin := pb, dp_nbInParents := np\<rparr>)"
    unfolding computeMPICommLevel_def k lv(1) option.map returned_simps obind.simps set p(1) prod.case l get f(1) omap_simps ..
  with f(2) show ?thesis by blast
qed

end
