(* ===== verification/DhtRanks.thy ===== *)
theory DhtRanks
  imports DhtTree
begin

text \<open>
  Who sends to whom at a level: a process holds a range of hashes in its block, and sends to the
  processes of its group whose ranges meet it; these are the processes that expect a message from it.
\<close>

section \<open>Ranges\<close>

abbreviation grp_size :: "nat \<Rightarrow> nat \<Rightarrow> nat \<Rightarrow> nat" where
  "grp_size n r l \<equiv> snd (spath n r l)"

text \<open>The process that a hash belongs to in the group of a level, and the hashes that belong to a
  process.\<close>

definition dht_home :: "nat \<Rightarrow> nat \<Rightarrow> nat \<Rightarrow> nat \<Rightarrow> nat" where
  "dht_home n r l h = leader n r l + hash_owner (grp_size n r l) h"

definition dht_low :: "nat \<Rightarrow> nat \<Rightarrow> nat \<Rightarrow> nat" where
  "dht_low n r l = hbound (grp_size n r l) (r - leader n r l)"

definition dht_high :: "nat \<Rightarrow> nat \<Rightarrow> nat \<Rightarrow> nat" where
  "dht_high n r l = hbound (grp_size n r l) (Suc (r - leader n r l)) - 1"

definition dht_meets :: "nat \<Rightarrow> nat \<Rightarrow> nat \<Rightarrow> nat \<Rightarrow> bool" where
  "dht_meets n l p q \<longleftrightarrow> \<not> (dht_high n p (Suc l) < dht_low n q l \<or> dht_high n q l < dht_low n p (Suc l))"

definition dht_group :: "nat \<Rightarrow> nat \<Rightarrow> nat \<Rightarrow> nat list" where
  "dht_group n r l = [leader n r l..<leader n r l + grp_size n r l]"

definition dht_from :: "nat \<Rightarrow> nat \<Rightarrow> nat \<Rightarrow> nat list" where
  "dht_from n l q = filter (\<lambda>p. dht_meets n l p q) (dht_group n q l)"

definition dht_to :: "nat \<Rightarrow> nat \<Rightarrow> nat \<Rightarrow> nat list" where
  "dht_to n l p = filter (\<lambda>q. dht_meets n l p q) (dht_group n p l)"

lemma group_facts:
  assumes "r < n"
  shows "leader n r l \<le> r" "r < leader n r l + grp_size n r l" "leader n r l + grp_size n r l \<le> n"
    "0 < grp_size n r l" "grp_size n r l \<le> n" "r - leader n r l < grp_size n r l"
  using spath_in [OF assms, of l] by linarith+

lemma group_same:
  assumes "r < n" "s \<in> set (dht_group n r l)"
  shows "s < n" "spath n s l = spath n r l"
proof -
  have s: "leader n r l \<le> s" "s < leader n r l + grp_size n r l" using assms(2) by (simp_all add: dht_group_def)
  show "s < n" using s group_facts(3) [OF assms(1), of l] by linarith
  show "spath n s l = spath n r l" by (rule spath_same [OF assms(1) s order_refl])
qed

lemma group_self: "r < n \<Longrightarrow> r \<in> set (dht_group n r l)"
  using group_facts [of r n l] by (simp add: dht_group_def)

lemma group_sym:
  assumes "r < n" "s < n"
  shows "s \<in> set (dht_group n r l) \<longleftrightarrow> r \<in> set (dht_group n s l)"
proof -
  have "dht_group n s l = dht_group n r l" if "s \<in> set (dht_group n r l)" "r < n" for r s
    using group_same(2) [OF that(2,1)] by (simp add: dht_group_def)
  from this [of s r] this [of r s] assms show ?thesis using group_self by metis
qed

lemma group_level:
  assumes "r < n" "s \<in> set (dht_group n r l)"
  shows "l < dlev n s \<longleftrightarrow> l < dlev n r"
proof -
  note s = group_same [OF assms]
  show ?thesis using dlev_same [OF assms(1) s(1,2)] dlev_same [OF s(1) assms(1) s(2) [symmetric]] by blast
qed

lemma dht_home_iff:
  assumes "r < n" "n \<le> nbHashIndexMax" "h < nbHashIndexMax"
  shows "dht_home n r l h = r \<longleftrightarrow> dht_low n r l \<le> h \<and> h \<le> dht_high n r l"
proof -
  note g = group_facts [OF assms(1), of l]
  have m: "grp_size n r l \<le> nbHashIndexMax" using g assms(2) by linarith
  have "hbound (grp_size n r l) (r - leader n r l) < hbound (grp_size n r l) (Suc (r - leader n r l))"
    using hbound_less [OF g(4) m g(6)] .
  then have "dht_low n r l \<le> h \<and> h \<le> dht_high n r l \<longleftrightarrow> hash_owner (grp_size n r l) h = r - leader n r l"
    using hash_owner_le [OF g(4) m assms(3) g(6)] hash_owner_ge [OF g(4) m assms(3) g(6)]
    by (auto simp: dht_low_def dht_high_def)
  moreover have "dht_home n r l h = r \<longleftrightarrow> hash_owner (grp_size n r l) h = r - leader n r l"
    using g(1) by (auto simp: dht_home_def)
  ultimately show ?thesis by blast
qed

lemma dht_home_in:
  assumes "r < n" "n \<le> nbHashIndexMax" "h < nbHashIndexMax"
  shows "dht_home n r l h \<in> set (dht_group n r l)" "dht_home n (dht_home n r l h) l h = dht_home n r l h"
proof -
  note g = group_facts [OF assms(1), of l]
  have "hash_owner (grp_size n r l) h < grp_size n r l" using hash_owner(1) g assms(2,3) by (meson order_trans)
  then show *: "dht_home n r l h \<in> set (dht_group n r l)" by (simp add: dht_home_def dht_group_def)
  from group_same(2) [OF assms(1) *] show "dht_home n (dht_home n r l h) l h = dht_home n r l h"
    by (simp add: dht_home_def)
qed

text \<open>Two processes that a hash belongs to, in the group of the one and in the block of the other, meet.\<close>

lemma homes_meet:
  assumes "p < n" "q < n" "n \<le> nbHashIndexMax" "h < nbHashIndexMax" "dht_home n p (Suc l) h = p" "dht_home n q l h = q"
  shows "dht_meets n l p q"
  using dht_home_iff [of p n h "Suc l"] dht_home_iff [of q n h l] assms unfolding dht_meets_def by linarith

lemma in_dht_to:
  assumes "p < n" "q < n"
  shows "q \<in> set (dht_to n l p) \<longleftrightarrow> p \<in> set (dht_from n l q)"
  using group_sym [OF assms, of l] by (auto simp: dht_to_def dht_from_def)

lemma distinct_dht [simp]: "distinct (dht_to n l p)" "distinct (dht_from n l p)" "distinct (dht_group n r l)"
  by (simp_all add: dht_to_def dht_from_def dht_group_def)

section \<open>The processes a process sends to\<close>

lemma filter_interval:
  assumes "\<And>j. j < nb \<Longrightarrow> P (b + j) \<longleftrightarrow> s \<le> j \<and> j \<le> t" "s \<le> t" "t < nb"
  shows "filter P [b..<b + nb] = map (\<lambda>i. i + b + s) [0..<Suc t - s]"
proof -
  have "nb = s + (Suc t - s) + (nb - Suc t)" using assms(2,3) by simp
  then have "[b..<b + nb] = [b..<b + s] @ [b + s..<b + Suc t] @ [b + Suc t..<b + nb]"
    using upt_add_eq_append [of b "b + s" "nb - s"] upt_add_eq_append [of "b + s" "b + Suc t" "nb - Suc t"] assms(2,3) by simp
  moreover have "filter P [b..<b + s] = []" "filter P [b + Suc t..<b + nb] = []"
  proof -
    have "\<not> P x" if "b \<le> x" "x < b + nb" "x < b + s \<or> b + Suc t \<le> x" for x
    proof -
      have "x = b + (x - b)" "x - b < nb" "\<not> (s \<le> x - b \<and> x - b \<le> t)" using that by auto
      with assms(1) [of "x - b"] show ?thesis by simp
    qed
    then show "filter P [b..<b + s] = []" "filter P [b + Suc t..<b + nb] = []"
      using assms(2,3) by (auto simp: filter_empty_conv)
  qed
  moreover have "filter P [b + s..<b + Suc t] = [b + s..<b + Suc t]"
  proof (rule filter_True, rule ballI)
    fix x assume "x \<in> set [b + s..<b + Suc t]"
    then have "s \<le> x - b" "x - b \<le> t" "x = b + (x - b)" by auto
    with assms(1) [of "x - b"] assms(3) show "P x" by simp
  qed
  moreover have "[b + s..<b + Suc t] = map (\<lambda>i. i + b + s) [0..<Suc t - s]"
    using map_add_upt [of "b + s" "Suc t - s"] assms(2) by (simp add: ac_simps Suc_diff_le)
  ultimately show ?thesis by simp
qed

lemma dht_low_high:
  assumes "r < n" "n \<le> nbHashIndexMax"
  shows "dht_low n r l \<le> dht_high n r l" "dht_high n r l < nbHashIndexMax"
proof -
  note g = group_facts [OF assms(1), of l]
  have m: "grp_size n r l \<le> nbHashIndexMax" using g assms(2) by linarith
  have b: "hbound (grp_size n r l) (r - leader n r l) < hbound (grp_size n r l) (Suc (r - leader n r l))"
    by (rule hbound_less [OF g(4) m g(6)])
  then show "dht_low n r l \<le> dht_high n r l" by (simp add: dht_low_def dht_high_def)
  have "hbound (grp_size n r l) (Suc (r - leader n r l)) \<le> nbHashIndexMax"
    using hbound_mono [OF g(4) m, of "Suc (r - leader n r l)" "grp_size n r l"] g(6) by (simp add: hbound_last)
  with b show "dht_high n r l < nbHashIndexMax" by (simp add: dht_high_def)
qed

lemma dht_to_interval:
  assumes "p < n" "n \<le> nbHashIndexMax"
  shows "dht_to n l p = map (\<lambda>i. i + leader n p l + hash_owner (grp_size n p l) (dht_low n p (Suc l)))
    [0..<Suc (hash_owner (grp_size n p l) (dht_high n p (Suc l))) - hash_owner (grp_size n p l) (dht_low n p (Suc l))]"
proof -
  note g = group_facts [OF assms(1), of l]
  have m: "grp_size n p l \<le> nbHashIndexMax" using g assms(2) by linarith
  note lh = dht_low_high [OF assms, of "Suc l"]
  show ?thesis
    unfolding dht_to_def dht_group_def
  proof (rule filter_interval)
    fix j assume j: "j < grp_size n p l"
    have "leader n p l + j \<in> set (dht_group n p l)" using j by (simp add: dht_group_def)
    from group_same(2) [OF assms(1) this]
    have "dht_low n (leader n p l + j) l = hbound (grp_size n p l) j" "dht_high n (leader n p l + j) l = hbound (grp_size n p l) (Suc j) - 1"
      by (simp_all add: dht_low_def dht_high_def)
    then show "dht_meets n l p (leader n p l + j) \<longleftrightarrow> hash_owner (grp_size n p l) (dht_low n p (Suc l)) \<le> j
        \<and> j \<le> hash_owner (grp_size n p l) (dht_high n p (Suc l))"
      using meeting_ranges [OF g(4) m _ lh(2) j, of "dht_low n p (Suc l)"] lh by (simp add: dht_meets_def)
  qed (use hash_owner_mono [OF g(4) m lh] hash_owner(1) [OF g(4) m lh(2)] in auto)
qed

section \<open>The computed ranks\<close>

lemma fold_filter: "fold (\<lambda>i xs. if P i then xs @ [f i] else xs) is xs = xs @ map f (filter P is)"
  by (induction "is" arbitrary: xs) simp_all

lemma concat_blocks:
  "concat (map (\<lambda>i. [blk_start k b nb i..<blk_start k b nb i + blk_size k nb i]) [0..<m]) = [b..<blk_start k b nb m]"
proof (induction m)
  case (Suc m)
  have "b \<le> blk_start k b nb m" by (simp add: blk_start_def)
  then show ?case using Suc upt_add_eq_append [of b "blk_start k b nb m" "blk_size k nb m"] by (simp add: blk_start_simps)
qed (simp add: blk_start_simps)

definition blk_from :: "nat \<Rightarrow> nat \<Rightarrow> nat \<Rightarrow> nat \<Rightarrow> nat list" where
  "blk_from n r l i = (let s = blk_start (degree n) (leader n r l) (grp_size n r l) i; z = blk_size (degree n) (grp_size n r l) i
     in filter (\<lambda>p. dht_meets n l p r) [s..<s + z])"

lemma concat_blk_from: "concat (map (blk_from n r l) [0..<min (degree n) (grp_size n r l)]) = dht_from n l r"
proof -
  have k: "0 < degree n" using degree_ge [of n] by simp
  have "concat (map (blk_from n r l) is) = filter (\<lambda>p. dht_meets n l p r) (concat (map (\<lambda>i.
      [blk_start (degree n) (leader n r l) (grp_size n r l) i..<
       blk_start (degree n) (leader n r l) (grp_size n r l) i + blk_size (degree n) (grp_size n r l) i]) is))" for "is"
    by (simp add: filter_concat blk_from_def [abs_def] Let_def comp_def)
  then show ?thesis using concat_blocks blk_start_all [OF k] by (simp add: dht_from_def dht_group_def)
qed

lemma block_path:
  assumes "r < n" "i < min (degree n) (grp_size n r l)" "s = blk_start (degree n) (leader n r l) (grp_size n r l) i"
    "z = blk_size (degree n) (grp_size n r l) i" "o' < z"
  shows "s + o' \<in> set (dht_group n r l)" "spath n (s + o') (Suc l) = (s, z)"
proof -
  have k: "0 < degree n" using degree_ge [of n] by simp
  have "blk_start (degree n) (leader n r l) (grp_size n r l) (Suc i)
      \<le> blk_start (degree n) (leader n r l) (grp_size n r l) (min (degree n) (grp_size n r l))"
    using assms(2) by (intro blk_start_mono) simp
  moreover have "leader n r l \<le> s" by (simp add: assms(3) blk_start_def)
  ultimately show g: "s + o' \<in> set (dht_group n r l)"
    using blk_start_all [OF k, of "leader n r l" "grp_size n r l"] assms(3-5) by (simp add: dht_group_def blk_start_simps)
  from group_same(2) [OF assms(1) g] have "spath n (s + o') l = (leader n r l, grp_size n r l)" by simp
  moreover have "in_block (degree n) (leader n r l, grp_size n r l) (s + o') i" using assms(3-5) by (simp add: in_block_def case_prod_beta)
  ultimately show "spath n (s + o') (Suc l) = (s, z)"
    using locate_block [of i "degree n" "(leader n r l, grp_size n r l)" "s + o'"] assms(2-4) by (simp add: spath_def)
qed

definition dht_base :: "nat \<Rightarrow> nat \<Rightarrow> dht \<Rightarrow> bool" where
  "dht_base n r c \<longleftrightarrow> dt_rank c = r \<and> dt_level c = dlev n r \<and> pol_rows n r (dlev n r) (dlev n r) (dt_policy c)
     \<and> length (dt_sendRank c) = dlev n r \<and> length (dt_recvRank c) = dlev n r"

lemma newDht_eq:
  assumes "r < n"
  shows "\<exists>c. newDht n r = Inr c \<and> dht_base n r c \<and> (\<forall>l<dlev n r. dt_recvRank c ! l = [])"
  using computeMPICommLevel_eq [OF assms] by (auto simp: newDht_def dht_base_def)

lemma get_bound:
  assumes "j < z"
  shows "arr_get (computeHashIndex z) (int j) = Inr (hbound z j)" "arr_get (computeHashIndex z) (int j + 1) = Inr (hbound z (Suc j))"
  using assms by (auto simp: arr_get_def nat_add_distrib)

lemma inner_loop:
  assumes "r < n" "i < min (degree n) (grp_size n r l)" "s = blk_start (degree n) (leader n r l) (grp_size n r l) i"
    "z = blk_size (degree n) (grp_size n r l) i" "n \<le> nbHashIndexMax"
  shows "ofold (\<lambda>i recv. obind (arr_get (computeHashIndex z) (int i)) (\<lambda>c.
             omap (\<lambda>d1. let d = d1 - 1 in if \<not> (d < dht_low n r l \<or> dht_high n r l < c) then recv @ [s + i] else recv)
               (arr_get (computeHashIndex z) (int i + 1)))) [0..<z] recv = Inr (recv @ blk_from n r l i)"
proof -
  have "ofold (\<lambda>i recv. obind (arr_get (computeHashIndex z) (int i)) (\<lambda>c.
             omap (\<lambda>d1. let d = d1 - 1 in if \<not> (d < dht_low n r l \<or> dht_high n r l < c) then recv @ [s + i] else recv)
               (arr_get (computeHashIndex z) (int i + 1)))) [0..<z] recv
      = Inr (fold (\<lambda>i recv. if dht_meets n l (s + i) r then recv @ [s + i] else recv) [0..<z] recv)"
  proof (rule ofold_pure)
    fix j and xs :: "nat list" assume "j \<in> set [0..<z]"
    then have j: "j < z" by simp
    have "spath n (s + j) (Suc l) = (s, z)" using block_path [OF assms(1-4) j] by blast
    then have "dht_low n (s + j) (Suc l) = hbound z j" "dht_high n (s + j) (Suc l) = hbound z (Suc j) - 1"
      by (simp_all add: dht_low_def dht_high_def)
    then show "obind (arr_get (computeHashIndex z) (int j)) (\<lambda>c.
             omap (\<lambda>d1. let d = d1 - 1 in if \<not> (d < dht_low n r l \<or> dht_high n r l < c) then xs @ [s + j] else xs)
               (arr_get (computeHashIndex z) (int j + 1))) = Inr (if dht_meets n l (s + j) r then xs @ [s + j] else xs)"
      by (simp add: get_bound [OF j] dht_meets_def)
  qed
  also have "fold (\<lambda>i recv. if dht_meets n l (s + i) r then recv @ [s + i] else recv) [0..<z] recv = recv @ blk_from n r l i"
  proof -
    have "[s..<s + z] = map (\<lambda>i. s + i) [0..<z]" using map_add_upt [of s z] by (simp add: add.commute)
    then have "blk_from n r l i = map (\<lambda>i. s + i) (filter (\<lambda>i. dht_meets n l (s + i) r) [0..<z])"
      by (simp add: blk_from_def Let_def assms(3,4) [symmetric] filter_map comp_def)
    then show ?thesis by (simp add: fold_filter)
  qed
  finally show ?thesis .
qed

lemma computeSendRecvRank_eq:
  assumes r: "r < n" and n: "n \<le> nbHashIndexMax" and c: "dht_base n r c" "dt_recvRank c ! l = []" and l: "l < dlev n r"
  shows "computeSendRecvRank l c = Inr (c\<lparr>dt_sendRank := (dt_sendRank c)[l := dht_to n l r],
    dt_recvRank := (dt_recvRank c)[l := dht_from n l r]\<rparr>)"
proof -
  let ?k = "degree n" and ?b = "leader n r l" and ?nb = "grp_size n r l"
  let ?m = "min ?k ?nb"
  note g = group_facts [OF r, of l]
  have k: "0 < ?k" using degree_ge [of n] by simp
  have m: "?nb \<le> nbHashIndexMax" using g n by linarith
  note lh = dht_low_high [OF r n, of "Suc l"]
  have lv: "l < levels n" using l dlev_facts(3) [OF r] by simp
  have rank: "dt_rank c = r" using c(1) by (simp add: dht_base_def)
  have get: "arr_get (dp_groupBegin (dt_policy c)) (int l) = Inr ?b" "arr_get (dp_nbInGroup (dt_policy c)) (int l) = Inr ?nb"
    "arr_get (dp_parentsBegin (dt_policy c)) (int l) = Inr (dht_starts n r l)"
    "arr_get (dp_nbInParents (dt_policy c)) (int l) = Inr (dht_sizes n r l)"
    "arr_get (dt_recvRank c) (int l) = Inr []"
    using c l lv by (simp_all add: dht_base_def pol_rows_def)
  have ab: "arr_get (computeHashIndex ?nb) (int r - int ?b) = Inr (dht_low n r l)"
    "arr_get (computeHashIndex ?nb) (int r - int ?b + 1) = Inr (hbound ?nb (Suc (r - ?b)))"
    using g by (auto simp: arr_get_def dht_low_def nat_diff_distrib nat_add_distrib Suc_le_eq simp flip: of_nat_diff)
  have high: "hbound ?nb (Suc (r - ?b)) - 1 = dht_high n r l" by (simp add: dht_high_def)
  let ?st = "blk_start ?k ?b ?nb" and ?sz = "blk_size ?k ?nb"
  let ?f = "\<lambda>idx (recv, ef).
         obind (arr_get (dht_sizes n r l) (int idx)) (\<lambda>nb.
         obind (arr_get (dht_starts n r l) (int idx)) (\<lambda>from.
         let hashed = (if nb \<noteq> 0 then computeHashIndex nb else []); offset = int r - int from in
         obind (ofold (\<lambda>i recv.
             obind (arr_get hashed (int i)) (\<lambda>c.
             omap (\<lambda>d1. let d = d1 - 1 in if \<not> (d < dht_low n r l \<or> dht_high n r l < c) then recv @ [from + i] else recv)
               (arr_get hashed (int i + 1)))) [0..<nb] recv) (\<lambda>recv.
         if offset < int nb \<and> 0 \<le> offset
         then obind (arr_get hashed offset) (\<lambda>e. omap (\<lambda>f1. (recv, Some (e, f1 - 1))) (arr_get hashed (offset + 1)))
         else Inr (recv, ef))))"
  let ?P = "\<lambda>i (recv, ef). recv = concat (map (blk_from n r l) [0..<min i ?m])
     \<and> ef = (if r < ?st (min i ?m) then Some (dht_low n r (Suc l), dht_high n r (Suc l)) else None)"
  have "\<exists>s. ofold ?f [0..<?k] ([], None) = Inr s \<and> ?P ?k s"
  proof (rule ofold_upto [where P = ?P])
    show "?P 0 ([], None)" using g by (simp add: blk_start_simps)
  next
    fix i s assume i: "i < ?k" and s: "?P i s"
    obtain recv ef where s': "s = (recv, ef)" by (cases s)
    show "\<exists>t. ?f i s = Inr t \<and> ?P (Suc i) t"
    proof (cases "i < ?m")
      case False
      then have nb: "arr_get (dht_sizes n r l) (int i) = Inr 0" "arr_get (dht_starts n r l) (int i) = Inr 0" "min (Suc i) ?m = min i ?m"
        using i by auto
      then show ?thesis using s by (auto simp: s')
    next
      case True
      then have nb: "arr_get (dht_sizes n r l) (int i) = Inr (?sz i)" "arr_get (dht_starts n r l) (int i) = Inr (?st i)"
        using i by simp_all
      have z: "?sz i \<noteq> 0" using blk_size_pos [OF k True] by simp
      have mm: "min i ?m = i" "min (Suc i) ?m = Suc i" using True by simp_all
      note loop = inner_loop [OF r True refl refl n]
      have recv: "recv @ blk_from n r l i = concat (map (blk_from n r l) [0..<Suc i])" using s mm by (simp add: s')
      have inb: "in_block ?k (?b, ?nb) r i \<longleftrightarrow> int r - int (?st i) < int (?sz i) \<and> 0 \<le> int r - int (?st i)"
        unfolding in_block_def by auto
      have off: "arr_get (computeHashIndex (?sz i)) (int r - int (?st i)) = Inr (dht_low n r (Suc l))"
        "omap (\<lambda>f1. (recv, Some (dht_low n r (Suc l), f1 - 1))) (arr_get (computeHashIndex (?sz i)) (int r - int (?st i) + 1))
          = Inr (recv, Some (dht_low n r (Suc l), dht_high n r (Suc l)))"
        if "in_block ?k (?b, ?nb) r i" for recv
      proof -
        have p: "spath n r (Suc l) = (?st i, ?sz i)" using locate_block [OF _ that] True by (simp add: spath_def)
        have o': "?st i \<le> r" "r - ?st i < ?sz i" using that by (auto simp: in_block_def)
        then have d: "int r - int (?st i) = int (r - ?st i)" by simp
        show "arr_get (computeHashIndex (?sz i)) (int r - int (?st i)) = Inr (dht_low n r (Suc l))"
          "omap (\<lambda>f1. (recv, Some (dht_low n r (Suc l), f1 - 1))) (arr_get (computeHashIndex (?sz i)) (int r - int (?st i) + 1))
            = Inr (recv, Some (dht_low n r (Suc l), dht_high n r (Suc l)))"
          unfolding d get_bound [OF o'(2)] using p by (simp_all add: dht_low_def dht_high_def)
      qed
      have "?f i s = Inr (concat (map (blk_from n r l) [0..<Suc i]),
          if in_block ?k (?b, ?nb) r i then Some (dht_low n r (Suc l), dht_high n r (Suc l)) else ef)"
        unfolding s' prod.case nb obind.simps Let_def if_P [OF z] loop [unfolded Let_def] recv inb [symmetric]
        by (cases "in_block ?k (?b, ?nb) r i") (simp_all only: if_True if_False off obind.simps)
      moreover have "(if in_block ?k (?b, ?nb) r i then Some (dht_low n r (Suc l), dht_high n r (Suc l)) else ef)
          = (if r < ?st (Suc i) then Some (dht_low n r (Suc l), dht_high n r (Suc l)) else None)"
        using s mm by (auto simp: s' in_block_def blk_start_simps)
      ultimately show ?thesis using mm by simp
    qed
  qed
  then obtain s where s: "ofold ?f [0..<?k] ([], None) = Inr s" "?P ?k s" by blast
  have "r < ?st (min ?k ?m)" using blk_start_all [OF k, of ?b ?nb] g by (simp add: min.absorb2)
  then have s': "s = (dht_from n l r, Some (dht_low n r (Suc l), dht_high n r (Suc l)))"
    using s(2) concat_blk_from [of n r l] by (cases s) (simp add: min.absorb2)
  have len: "length (dht_starts n r l) = ?k" by simp
  have ub: "int (std_lower_bound (computeHashIndex ?nb) (dht_low n r (Suc l) + 1)) - 1 = int (hash_owner ?nb (dht_low n r (Suc l)))"
    "int (std_upper_bound (computeHashIndex ?nb) (dht_high n r (Suc l))) - 1 = int (hash_owner ?nb (dht_high n r (Suc l)))"
    using std_upper_bound_owner [OF g(4) m, of "dht_low n r (Suc l)"] std_upper_bound_owner [OF g(4) m lh(2)] lh
    by (simp_all add: std_lower_bound_def std_upper_bound_def less_Suc_eq_le)
  let ?e = "hash_owner ?nb (dht_low n r (Suc l))" and ?ff = "hash_owner ?nb (dht_high n r (Suc l))"
  have le: "?e \<le> ?ff" by (rule hash_owner_mono [OF g(4) m lh])
  have to: "map (\<lambda>idx. nat (int idx + int ?b + int ?e)) [0..<nat (int ?ff - int ?e + 1)] = dht_to n l r"
  proof -
    have "nat (int ?ff - int ?e + 1) = Suc ?ff - ?e" using le by simp
    moreover have "nat (int idx + int ?b + int ?e) = idx + ?b + ?e" for idx by simp
    ultimately show ?thesis unfolding dht_to_interval [OF r n] by simp
  qed
  have cond: "\<not> (int ?ff + 1 < int ?e)" using le by simp
  have set: "arr_set (dt_sendRank c) (int l) (dht_to n l r) = Inr ((dt_sendRank c)[l := dht_to n l r])"
    "arr_set (dt_recvRank c) (int l) (dht_from n l r) = Inr ((dt_recvRank c)[l := dht_from n l r])"
    using c(1) l by (simp_all add: dht_base_def)
  show ?thesis
    unfolding computeSendRecvRank_def Let_def rank get obind.simps ab high len s(1) [unfolded Let_def s'] prod.case option.case ub
      if_not_P [OF cond] to set omap_simps ..
qed

end
