(* ===== verification/DhtRound.thy ===== *)
theory DhtRound
  imports DhtRanks
begin

text \<open>
  One exchange of all processes: it goes through, and what a process receives is what the processes
  of its group have for it, in the order of their ranks.
\<close>

section \<open>Lists of all processes\<close>

lemma otraverse_nth:
  assumes "\<And>i. i < length xs \<Longrightarrow> \<exists>y. f (xs ! i) = Inr y \<and> P i y"
  shows "\<exists>ys. otraverse f xs = Inr ys \<and> length ys = length xs \<and> (\<forall>i<length xs. P i (ys ! i))"
  using assms
proof (induction xs arbitrary: P)
  case (Cons x xs)
  from Cons.prems [of 0] obtain y where y: "f x = Inr y" "P 0 y" by auto
  have "\<exists>y. f (xs ! i) = Inr y \<and> P (Suc i) y" if "i < length xs" for i using Cons.prems [of "Suc i"] that by simp
  from Cons.IH [OF this] obtain ys where "otraverse f xs = Inr ys" "length ys = length xs" "\<forall>i<length xs. P (Suc i) (ys ! i)"
    by blast
  with y show ?case by (auto simp: less_Suc_eq_0_disj intro!: exI [where x = "y # ys"])
qed simp

lemma otraverse_eq:
  assumes "length ys = length xs" "\<And>i. i < length xs \<Longrightarrow> f (xs ! i) = Inr (ys ! i)"
  shows "otraverse f xs = Inr ys"
proof -
  obtain zs where "otraverse f xs = Inr zs" "length zs = length xs" "\<forall>i<length xs. zs ! i = ys ! i"
    using otraverse_nth [of xs f "\<lambda>i y. y = ys ! i"] assms(2) by blast
  with assms(1) show ?thesis by (metis nth_equalityI)
qed

lemma distinct_count_list: "distinct xs \<Longrightarrow> count_list xs x = (if x \<in> set xs then 1 else 0)"
  by (induction xs) auto

section \<open>The state before a level\<close>

definition dht_world :: "nat \<Rightarrow> nat \<Rightarrow> dht list \<Rightarrow> bool" where
  "dht_world n lv cs \<longleftrightarrow> length cs = n \<and> (\<forall>r<n. dht_base n r (cs ! r)
     \<and> (\<forall>l<dlev n r. if lv \<le> l then dt_sendRank (cs ! r) ! l = dht_to n l r \<and> dt_recvRank (cs ! r) ! l = dht_from n l r
          else dt_recvRank (cs ! r) ! l = []))"

text \<open>What an exchange needs: the ranks of its level are known.\<close>

definition dht_ready :: "nat \<Rightarrow> nat \<Rightarrow> dht list \<Rightarrow> bool" where
  "dht_ready n l cs \<longleftrightarrow> length cs = n \<and> (\<forall>r<n. dht_base n r (cs ! r)
     \<and> (l < dlev n r \<longrightarrow> dt_sendRank (cs ! r) ! l = dht_to n l r \<and> dt_recvRank (cs ! r) ! l = dht_from n l r))"

lemma dht_ready: "dht_world n lv cs \<Longrightarrow> lv \<le> l \<Longrightarrow> dht_ready n l cs"
  by (auto simp: dht_world_def dht_ready_def)

lemma dht_world_new:
  "\<exists>cs. otraverse (newDht n) [0..<n] = Inr cs \<and> (\<forall>lv. (\<forall>r<n. dlev n r \<le> lv) \<longrightarrow> dht_world n lv cs)"
proof -
  have "\<exists>c. newDht n ([0..<n] ! r) = Inr c \<and> dht_base n r c \<and> (\<forall>l<dlev n r. dt_recvRank c ! l = [])"
    if "r < length [0..<n]" for r
    using newDht_eq [of r n] that by simp
  from otraverse_nth [of "[0..<n]" "newDht n", OF this] show ?thesis by (fastforce simp: dht_world_def)
qed

lemma dht_world_ranks:
  assumes "dht_world n (Suc l) cs" "n \<le> nbHashIndexMax"
  shows "\<exists>cs'. otraverse (\<lambda>c. if l < dt_level c then computeSendRecvRank l c else Inr c) cs = Inr cs' \<and> dht_world n l cs'"
proof -
  let ?P = "\<lambda>r c. dht_base n r c \<and> (\<forall>j<dlev n r. if l \<le> j then dt_sendRank c ! j = dht_to n j r \<and> dt_recvRank c ! j = dht_from n j r
    else dt_recvRank c ! j = [])"
  have "\<exists>c. (if l < dt_level (cs ! r) then computeSendRecvRank l (cs ! r) else Inr (cs ! r)) = Inr c \<and> ?P r c"
    if "r < length cs" for r
  proof -
    have r: "r < n" using that assms(1) by (simp add: dht_world_def)
    then have b: "dht_base n r (cs ! r)" and w: "\<forall>j<dlev n r. if Suc l \<le> j then dt_sendRank (cs ! r) ! j = dht_to n j r
        \<and> dt_recvRank (cs ! r) ! j = dht_from n j r else dt_recvRank (cs ! r) ! j = []"
      using assms(1) by (simp_all add: dht_world_def)
    have lev: "dt_level (cs ! r) = dlev n r" using b by (simp add: dht_base_def)
    show ?thesis
    proof (cases "l < dlev n r")
      case True
      then have "dt_recvRank (cs ! r) ! l = []" using w by auto
      from computeSendRecvRank_eq [OF r assms(2) b this True] True w b lev show ?thesis
        by (auto simp: dht_base_def nth_list_update)
    next
      case False
      with w b lev show ?thesis by auto
    qed
  qed
  from otraverse_nth [of cs "\<lambda>c. if l < dt_level c then computeSendRecvRank l c else Inr c", OF this]
  obtain cs' where "otraverse (\<lambda>c. if l < dt_level c then computeSendRecvRank l c else Inr c) cs = Inr cs'"
    "length cs' = length cs" "\<forall>r<length cs. ?P r (cs' ! r)"
    by blast
  with assms(1) show ?thesis by (auto simp: dht_world_def)
qed

lemma dht_levels_ge: "c \<in> set cs \<Longrightarrow> dt_level c \<le> dht_levels cs"
proof -
  have "dt_level c \<le> fold (\<lambda>c. max (dt_level c)) cs m \<and> m \<le> fold (\<lambda>c. max (dt_level c)) cs m" if "c \<in> set cs" for m
    using that
  proof (induction cs arbitrary: m)
    case (Cons d cs)
    have "m \<le> fold (\<lambda>c. max (dt_level c)) cs m" for m by (induction cs arbitrary: m) (auto intro: order_trans [OF max.cobounded2])
    from this [of "max (dt_level d) m"] Cons show ?case by auto
  qed simp
  then show "c \<in> set cs \<Longrightarrow> dt_level c \<le> dht_levels cs" by (simp add: dht_levels_def)
qed

section \<open>Bins\<close>

definition bin_of :: "nat \<Rightarrow> (nat \<times> 'm list) list \<Rightarrow> nat \<Rightarrow> 'm list" where
  "bin_of nb xs d = concat (map snd (filter (\<lambda>(i, ms). hash_owner nb (hashXIOS i) = d) xs))"

lemma dht_bins_eq:
  assumes nb: "0 < nb" "nb \<le> nbHashIndexMax" and h: "\<forall>i\<in>fst ` set xs. hashXIOS i < nbHashIndexMax"
  shows "dht_bins nb xs = Inr (map (bin_of nb xs) [0..<nb])"
proof -
  let ?f = "\<lambda>(index, ms) bins. obind (arr_get bins (indexClient nb index)) (\<lambda>b. arr_set bins (indexClient nb index) (b @ ms))"
  have "length bins = nb \<Longrightarrow> ofold ?f xs bins = Inr (map (\<lambda>d. bins ! d @ bin_of nb xs d) [0..<nb])" for bins
    using h
  proof (induction xs arbitrary: bins)
    case Nil
    then show ?case using map_nth [of bins] by (simp add: bin_of_def)
  next
    case (Cons x xs)
    obtain i ms where x: "x = (i, ms)" by (cases x)
    have hi: "hashXIOS i < nbHashIndexMax" using Cons.prems(2) by (simp add: x)
    let ?d = "hash_owner nb (hashXIOS i)"
    have d: "?d < nb" by (rule hash_owner(1) [OF nb hi])
    have "?f x bins = Inr (bins[?d := bins ! ?d @ ms])"
      using d Cons.prems(1) by (simp add: x indexClient_owner [OF nb hi])
    moreover have "ofold ?f xs (bins[?d := bins ! ?d @ ms])
        = Inr (map (\<lambda>d. bins[?d := bins ! ?d @ ms] ! d @ bin_of nb xs d) [0..<nb])"
      using Cons by simp
    moreover have "map (\<lambda>d. bins[?d := bins ! ?d @ ms] ! d @ bin_of nb xs d) [0..<nb] = map (\<lambda>d. bins ! d @ bin_of nb (x # xs) d) [0..<nb]"
      using d Cons.prems(1) by (auto simp: bin_of_def x nth_list_update)
    ultimately show ?case by simp
  qed
  from this [of "replicate nb []"] show ?thesis unfolding dht_bins_def by simp
qed

section \<open>The exchange\<close>

text \<open>What process \<open>p\<close>, with the entries \<open>xs\<close>, has for process \<open>q\<close>.\<close>

definition msgs :: "nat \<Rightarrow> nat \<Rightarrow> (nat \<times> 'm list) list \<Rightarrow> nat \<Rightarrow> nat \<Rightarrow> 'm list" where
  "msgs n l xs p q = concat (map snd (filter (\<lambda>(i, ms). dht_home n p l (hashXIOS i) = q) xs))"

lemma msgs_bin: "leader n p l \<le> q \<Longrightarrow> msgs n l xs p q = bin_of (grp_size n p l) xs (q - leader n p l)"
  by (auto simp: msgs_def bin_of_def dht_home_def intro!: arg_cong [where f = "\<lambda>P. concat (map snd (filter P xs))"])

definition dht_entries :: "nat \<Rightarrow> nat \<Rightarrow> (nat \<Rightarrow> (nat \<times> 'm list) list) \<Rightarrow> bool" where
  "dht_entries n l xs \<longleftrightarrow> (\<forall>p<n. \<forall>(i, ms)\<in>set (xs p). hashXIOS i < nbHashIndexMax
     \<and> (ms \<noteq> [] \<longrightarrow> dht_home n p (Suc l) (hashXIOS i) = p))"

definition dht_outs :: "nat \<Rightarrow> nat \<Rightarrow> (nat \<Rightarrow> (nat \<times> 'm list) list) \<Rightarrow> 'm list list list" where
  "dht_outs n l xs = map (\<lambda>p. if l < dlev n p then map (bin_of (grp_size n p l) (xs p)) [0..<grp_size n p l] else []) [0..<n]"

definition received :: "nat \<Rightarrow> nat \<Rightarrow> (nat \<Rightarrow> (nat \<times> 'm list) list) \<Rightarrow> nat \<Rightarrow> (nat \<times> 'm list) list" where
  "received n l xs q = (if l < dlev n q
     then filter (\<lambda>(p, ms). ms \<noteq> []) (map (\<lambda>p. (p, msgs n l (xs p) p q)) (dht_from n l q)) else [])"

lemma world_facts:
  assumes "dht_ready n l cs" "p < n"
  shows "dt_level (cs ! p) = dlev n p"
    "dht_sends l (cs ! p) = (if l < dlev n p then dht_to n l p else [])"
    "dht_recvs l (cs ! p) = (if l < dlev n p then dht_from n l p else [])"
    "l < dlev n p \<Longrightarrow> dht_begin l (cs ! p) = leader n p l"
    "l < dlev n p \<Longrightarrow> arr_get (dp_nbInGroup (dt_policy (cs ! p))) (int l) = Inr (grp_size n p l)"
proof -
  have b: "dht_base n p (cs ! p)" using assms by (simp add: dht_ready_def)
  then show lev: "dt_level (cs ! p) = dlev n p" by (simp add: dht_base_def)
  show "dht_sends l (cs ! p) = (if l < dlev n p then dht_to n l p else [])"
    "dht_recvs l (cs ! p) = (if l < dlev n p then dht_from n l p else [])"
    using assms lev by (auto simp: dht_ready_def dht_sends_def dht_recvs_def)
  assume l: "l < dlev n p"
  then have "l < levels n" using dlev_facts(3) [OF assms(2)] by simp
  with b l show "dht_begin l (cs ! p) = leader n p l"
    "arr_get (dp_nbInGroup (dt_policy (cs ! p))) (int l) = Inr (grp_size n p l)"
    by (simp_all add: dht_base_def pol_rows_def)
qed

lemma dht_out_eq:
  assumes w: "dht_ready n l cs" and p: "p < n" and n: "n \<le> nbHashIndexMax"
    and h: "\<forall>i\<in>fst ` set xs. hashXIOS i < nbHashIndexMax"
  shows "dht_out l (cs ! p) xs = Inr (if l < dlev n p then map (bin_of (grp_size n p l) xs) [0..<grp_size n p l] else [])"
proof -
  note f = world_facts [OF w p] and g = group_facts [OF p, of l]
  have m: "grp_size n p l \<le> nbHashIndexMax" using g n by linarith
  show ?thesis using f dht_bins_eq [OF g(4) m h] by (simp add: dht_out_def)
qed

lemma to_facts:
  assumes "p < n" "q \<in> set (dht_to n l p)"
  shows "q < n" "leader n p l \<le> q" "q - leader n p l < grp_size n p l"
  using assms(2) group_same(1) [OF assms(1), of q l] by (auto simp: dht_to_def dht_group_def)

lemma from_facts:
  assumes "q < n" "p \<in> set (dht_from n l q)"
  shows "p < n" "q \<in> set (dht_to n l p)" "l < dlev n p \<longleftrightarrow> l < dlev n q" "leader n p l = leader n q l"
proof -
  have p: "p \<in> set (dht_group n q l)" using assms(2) by (simp add: dht_from_def)
  show pn: "p < n" by (rule group_same(1) [OF assms(1) p])
  show "q \<in> set (dht_to n l p)" using in_dht_to [OF pn assms(1)] assms(2) by simp
  show "l < dlev n p \<longleftrightarrow> l < dlev n q" by (rule group_level [OF assms(1) p])
  show "leader n p l = leader n q l" using group_same(2) [OF assms(1) p] by simp
qed

text \<open>What is not empty goes to a process that expects it.\<close>

lemma msgs_home:
  assumes "dht_entries n l xs" "p < n" "n \<le> nbHashIndexMax" "msgs n l (xs p) p q \<noteq> []"
  shows "q \<in> set (dht_to n l p)" "q < n"
proof -
  obtain i ms where i: "(i, ms) \<in> set (xs p)" "dht_home n p l (hashXIOS i) = q" "ms \<noteq> []"
    using assms(4) by (auto simp: msgs_def)
  then have h: "hashXIOS i < nbHashIndexMax" "dht_home n p (Suc l) (hashXIOS i) = p"
    using assms(1,2) unfolding dht_entries_def by blast+
  note home = dht_home_in [OF assms(2,3) h(1), of l]
  have q: "q \<in> set (dht_group n p l)" "dht_home n q l (hashXIOS i) = q" using home i(2) by simp_all
  show qn: "q < n" by (rule group_same(1) [OF assms(2) q(1)])
  from homes_meet [OF assms(2) qn assms(3) h q(2)] q(1) show "q \<in> set (dht_to n l p)" by (simp add: dht_to_def)
qed

lemma dht_matched:
  assumes w: "dht_ready n l cs" and n: "n \<le> nbHashIndexMax" and xs: "dht_entries n l xs"
  shows "dht_matched l cs (dht_outs n l xs)"
proof -
  have len: "length cs = n" using w by (simp add: dht_ready_def)
  have all: "list_all (\<lambda>q. q < n) (dht_sends l c @ dht_recvs l c)" if c: "c \<in> set cs" for c
  proof -
    obtain p where p: "p < n" "c = cs ! p" using c len in_set_conv_nth [of c cs] by blast
    have "q < n" if "q \<in> set (dht_to n l p)" for q using to_facts(1) [OF p(1) that] .
    moreover have "q < n" if "q \<in> set (dht_from n l p)" for q using from_facts(1) [OF p(1) that] .
    ultimately show ?thesis using world_facts(2,3) [OF w p(1)] by (auto simp: list_all_iff p(2))
  qed
  have counts: "count_list (dht_sends l (cs ! p)) q = count_list (dht_recvs l (cs ! q)) p" if "p < n" "q < n" for p q
  proof -
    have "p \<in> set (dht_from n l q) \<Longrightarrow> l < dlev n p \<longleftrightarrow> l < dlev n q" using from_facts(3) [OF that(2)] .
    then show ?thesis using world_facts(2) [OF w that(1)] world_facts(3) [OF w that(2)] in_dht_to [OF that, of l]
      by (auto simp: distinct_count_list)
  qed
  have data: "dht_outs n l xs ! p ! d = [] \<or> dht_begin l (cs ! p) + d \<in> set (dht_sends l (cs ! p))"
    if "p < n" "d < length (dht_outs n l xs ! p)" for p d
  proof -
    have l: "l < dlev n p" "d < grp_size n p l" using that by (auto simp: dht_outs_def split: if_splits)
    then have bin: "dht_outs n l xs ! p ! d = msgs n l (xs p) p (leader n p l + d)"
      using that msgs_bin [of n p l "leader n p l + d" "xs p"] by (simp add: dht_outs_def)
    show ?thesis using msgs_home(1) [where q = "leader n p l + d", OF xs that(1) n] world_facts(2,4) [OF w that(1)] l unfolding bin by auto
  qed
  show ?thesis
    unfolding dht_matched_def len list_all_iff
    by (intro conjI ballI) (use all counts data in \<open>simp_all add: list_all_iff\<close>)
qed

lemma dht_exchange_eq:
  assumes w: "dht_ready n l cs" and n: "n \<le> nbHashIndexMax" and xs: "dht_entries n l xs"
  shows "dht_exchange l cs (dht_outs n l xs) = Inr (map (received n l xs) [0..<n])"
proof -
  have len: "length cs = n" "length (dht_outs n l xs) = n" using w by (simp_all add: dht_ready_def dht_outs_def)
  let ?g = "\<lambda>(c, bins). otraverse (\<lambda>q. arr_get bins (int q - int (dht_begin l c))) (dht_sends l c)"
  have "\<exists>ys. ?g (zip cs (dht_outs n l xs) ! p) = Inr ys \<and> True" if "p < length (zip cs (dht_outs n l xs))" for p
  proof -
    have p: "p < n" using that len by simp
    have "\<exists>y. arr_get (dht_outs n l xs ! p) (int (dht_sends l (cs ! p) ! i) - int (dht_begin l (cs ! p))) = Inr y \<and> True"
      if i: "i < length (dht_sends l (cs ! p))" for i
    proof -
      have l: "l < dlev n p" using i world_facts(2) [OF w p] by (auto split: if_splits)
      have "dht_sends l (cs ! p) ! i \<in> set (dht_to n l p)" using i l world_facts(2) [OF w p] nth_mem [OF i] by simp
      from to_facts [OF p this] show ?thesis using l world_facts(4) [OF w p l] p by (simp add: dht_outs_def arr_get_def)
    qed
    from otraverse_nth [where P = "\<lambda>_ _. True" and xs = "dht_sends l (cs ! p)"
        and f = "\<lambda>q. arr_get (dht_outs n l xs ! p) (int q - int (dht_begin l (cs ! p)))", OF this] p len
    show ?thesis by auto
  qed
  from otraverse_nth [where P = "\<lambda>_ _. True" and xs = "zip cs (dht_outs n l xs)" and f = ?g, OF this]
  obtain ys where ys: "otraverse ?g (zip cs (dht_outs n l xs)) = Inr ys" by blast
  have get: "map (\<lambda>p. (p, dht_outs n l xs ! p ! (q - dht_begin l (cs ! p)))) (dht_recvs l (cs ! q))
      = (if l < dlev n q then map (\<lambda>p. (p, msgs n l (xs p) p q)) (dht_from n l q) else [])" if "q < n" for q
  proof (cases "l < dlev n q")
    case True
    have "dht_outs n l xs ! p ! (q - dht_begin l (cs ! p)) = msgs n l (xs p) p q" if p: "p \<in> set (dht_from n l q)" for p
    proof -
      note f = from_facts [OF \<open>q < n\<close> p]
      have l: "l < dlev n p" using f(3) True by simp
      from to_facts(2,3) [OF f(1,2)] msgs_bin [of n p l q "xs p"] world_facts(4) [OF w f(1) l] l f(1)
      show ?thesis by (simp add: dht_outs_def)
    qed
    with True world_facts(3) [OF w that] show ?thesis by simp
  qed (use world_facts(3) [OF w that] in simp)
  have "map (\<lambda>q. filter (\<lambda>(p, ms). ms \<noteq> []) (map (\<lambda>p. (p, dht_outs n l xs ! p ! (q - dht_begin l (cs ! p)))) (dht_recvs l (cs ! q)))) [0..<n]
      = map (received n l xs) [0..<n]"
    by (rule map_cong) (simp_all add: get received_def)
  then show ?thesis unfolding dht_exchange_def ys obind.simps using dht_matched [OF w n xs] by (simp add: len)
qed

end
