(* ===== verification/DhtInsert.thy ===== *)
theory DhtInsert
  imports DhtRound
begin

text \<open>
  Distributing the entries: after each level a process holds, for the hashes that are its own in the
  group of that level, what all processes of the group have put in, in the order of their ranks.
\<close>

section \<open>Maps of vectors\<close>

lemma infos_update: "infos (AList.update k v m) i = (if i = k then v else infos m i)"
  by (simp add: infos_def update_conv')

lemma infos_push: "infos (fold info_push kvs m) i = infos m i @ map snd (filter (\<lambda>(j, x). j = i) kvs)"
proof (induction kvs arbitrary: m)
  case (Cons kv kvs)
  then show ?case by (cases kv) (simp add: info_push_def infos_update)
qed simp

lemma infos_Nil [simp]: "infos [] i = []"
  by (simp add: infos_def)

lemma infos_Cons: "infos ((k, v) # m) i = (if i = k then v else infos m i)"
  by (simp add: infos_def)

text \<open>No key twice, and no vector is empty.\<close>

definition info_ok :: "'a info_map \<Rightarrow> bool" where
  "info_ok m \<longleftrightarrow> distinct (map fst m) \<and> (\<forall>x\<in>set m. snd x \<noteq> [])"

lemma set_update_subset: "set (AList.update k v m) \<subseteq> insert (k, v) (set m)"
  by (induction m) auto

lemma info_ok_push: "info_ok m \<Longrightarrow> info_ok (fold info_push kvs m)"
proof (induction kvs arbitrary: m)
  case (Cons kv kvs)
  have "info_ok (info_push kv m)"
    using Cons.prems set_update_subset [of "fst kv" "infos m (fst kv) @ [snd kv]" m]
    by (auto simp: info_ok_def info_push_def case_prod_beta intro: distinct_update)
  then show ?case using Cons.IH by simp
qed simp

lemma info_ok_Nil: "info_ok []"
  by (simp add: info_ok_def)

lemma map_of_infos: "info_ok m \<Longrightarrow> map_of m i = (if infos m i = [] then None else Some (infos m i))"
  by (auto simp: info_ok_def infos_def split: option.split dest!: map_of_SomeD)

lemma keys_push: "fst ` set (fold info_push kvs m) = fst ` set m \<union> fst ` set kvs"
proof (induction kvs arbitrary: m)
  case (Cons kv kvs)
  then show ?case by (auto simp: info_push_def case_prod_beta dom_update)
qed simp

lemma infos_key: "infos m i \<noteq> [] \<Longrightarrow> i \<in> fst ` set m"
  by (auto simp: infos_def split: option.splits dest!: map_of_SomeD intro: rev_image_eqI)

section \<open>What a process has for another\<close>

definition map_entries :: "'a info_map \<Rightarrow> (nat \<times> (nat \<times> 'a) list) list" where
  "map_entries m = map (\<lambda>(i, xs). (i, map (Pair i) xs)) m"

lemma msgs_infos:
  assumes "distinct (map fst m)"
  shows "map snd (filter (\<lambda>(j, x). j = i) (msgs n l (map_entries m) p q)) = (if dht_home n p l (hashXIOS i) = q then infos m i else [])"
  using assms
proof (induction m)
  case (Cons e m)
  obtain k xs where e: "e = (k, xs)" by (cases e)
  have none: "infos m k = []" using Cons.prems infos_key [of m k] by (auto simp: e)
  have "map snd (filter (\<lambda>(j, x). j = i) (map (Pair k) xs)) = (if k = i then xs else [])" by (simp add: filter_map comp_def)
  moreover have "msgs n l (map_entries (e # m)) p q
      = (if dht_home n p l (hashXIOS k) = q then map (Pair k) xs else []) @ msgs n l (map_entries m) p q"
    by (simp add: msgs_def map_entries_def e)
  ultimately show ?case using Cons none by (auto simp: e infos_Cons)
qed (simp add: msgs_def map_entries_def)

lemma msgs_keys: "fst ` set (msgs n l (map_entries m) p q) \<subseteq> fst ` set m"
  by (force simp: msgs_def map_entries_def)

section \<open>The invariant\<close>

definition hash_ok :: "'a info_map list \<Rightarrow> bool" where
  "hash_ok maps \<longleftrightarrow> (\<forall>m\<in>set maps. \<forall>i\<in>fst ` set m. hashXIOS i < nbHashIndexMax)"

definition dht_holds :: "nat \<Rightarrow> nat \<Rightarrow> (nat \<Rightarrow> 'a info_map) \<Rightarrow> 'a info_map list \<Rightarrow> bool" where
  "dht_holds n l m0 maps \<longleftrightarrow> length maps = n \<and> hash_ok maps \<and> (\<forall>p<n. distinct (map fst (maps ! p))
     \<and> (\<forall>i. hashXIOS i < nbHashIndexMax \<longrightarrow> infos (maps ! p) i
          = (if dht_home n p l (hashXIOS i) = p then concat (map (\<lambda>s. infos (m0 s) i) (dht_group n p l)) else [])))"

lemma dht_holds_start:
  assumes "\<forall>m\<in>set maps. distinct (map fst m)" "hash_ok maps" "\<forall>p<length maps. dlev (length maps) p \<le> l"
  shows "dht_holds (length maps) l ((!) maps) maps"
  using assms spath_beyond [of _ "length maps" l] by (auto simp: dht_holds_def dht_home_def dht_group_def hash_owner_one [unfolded One_nat_def])

lemma dht_holds_entries:
  assumes "dht_holds n (Suc l) m0 maps"
  shows "dht_entries n l (\<lambda>p. map_entries (maps ! p))"
  unfolding dht_entries_def
proof (intro allI impI ballI)
  fix p e assume p: "p < n" and "e \<in> set (map_entries (maps ! p))"
  then obtain i xs where e: "e = (i, map (Pair i) xs)" "(i, xs) \<in> set (maps ! p)" by (auto simp: map_entries_def)
  then have h: "hashXIOS i < nbHashIndexMax" using assms p by (force simp: dht_holds_def hash_ok_def)
  have "infos (maps ! p) i = xs" using e assms p by (simp add: dht_holds_def infos_def)
  then have "xs \<noteq> [] \<Longrightarrow> dht_home n p (Suc l) (hashXIOS i) = p" using assms p h by (auto simp: dht_holds_def split: if_splits)
  with h show "case e of (i, ms) \<Rightarrow> hashXIOS i < nbHashIndexMax \<and> (ms \<noteq> [] \<longrightarrow> dht_home n p (Suc l) (hashXIOS i) = p)"
    by (simp add: e)
qed

lemma concat_only: "d < z \<Longrightarrow> concat (map (\<lambda>i. if i = d then xs else []) [0..<z]) = xs"
proof (induction z)
  case (Suc z)
  have "concat (map (\<lambda>i. if i = d then xs else []) [0..<z]) = []" if "z \<le> d" using that by (simp add: concat_eq_Nil_conv)
  with Suc show ?case by (cases "d < z") auto
qed simp

lemma concat_filter: "(\<And>x. x \<in> set xs \<Longrightarrow> \<not> P x \<Longrightarrow> f x = []) \<Longrightarrow> concat (map f (filter P xs)) = concat (map f xs)"
  by (induction xs) simp_all

lemma concat_Nils: "concat (map (\<lambda>x. []) xs) = []"
  by (induction xs) simp_all

lemma concat_map_concat: "concat (map f (concat xss)) = concat (map (\<lambda>xs. concat (map f xs)) xss)"
  by (induction xss) simp_all

text \<open>In each block of a group exactly one process holds a hash.\<close>

lemma concat_homes:
  assumes r: "r < n" and n: "n \<le> nbHashIndexMax" and h: "h < nbHashIndexMax"
  shows "concat (map (\<lambda>p. if dht_home n p (Suc l) h = p then concat (map f (dht_group n p (Suc l))) else []) (dht_group n r l))
    = concat (map f (dht_group n r l))"
proof -
  let ?k = "degree n" and ?b = "leader n r l" and ?nb = "grp_size n r l"
  let ?st = "blk_start ?k ?b ?nb" and ?sz = "blk_size ?k ?nb"
  let ?g = "\<lambda>p. if dht_home n p (Suc l) h = p then concat (map f (dht_group n p (Suc l))) else []"
  have k: "0 < ?k" using degree_ge [of n] by simp
  have group: "dht_group n r l = concat (map (\<lambda>i. [?st i..<?st i + ?sz i]) [0..<min ?k ?nb])"
    unfolding concat_blocks blk_start_all [OF k] dht_group_def ..
  have block: "concat (map ?g [?st i..<?st i + ?sz i]) = concat (map f [?st i..<?st i + ?sz i])" if i: "i < min ?k ?nb" for i
  proof -
    have z: "0 < ?sz i" by (rule blk_size_pos [OF k i])
    note path = block_path [OF r i refl refl]
    have "?sz i \<le> grp_size n (?st i) (Suc l)" using path(2) [of 0] z by simp
    moreover have "?st i < n" using group_same(1) [OF r path(1) [of 0]] z by simp
    ultimately have m: "?sz i \<le> nbHashIndexMax" using group_facts(5) [of "?st i" n "Suc l"] n by linarith
    have o': "hash_owner (?sz i) h < ?sz i" by (rule hash_owner(1) [OF z m h])
    have "?g (?st i + j) = (if j = hash_owner (?sz i) h then concat (map f [?st i..<?st i + ?sz i]) else [])" if "j < ?sz i" for j
      using path(2) [OF that] by (auto simp: dht_home_def dht_group_def)
    then have "map (\<lambda>j. ?g (?st i + j)) [0..<?sz i] = map (\<lambda>j. if j = hash_owner (?sz i) h then concat (map f [?st i..<?st i + ?sz i]) else []) [0..<?sz i]"
      by (intro map_cong) simp_all
    moreover have upt: "[?st i..<?st i + ?sz i] = map (\<lambda>j. ?st i + j) [0..<?sz i]" using map_add_upt [of "?st i" "?sz i"] by (simp add: add.commute)
    ultimately have "map ?g [?st i..<?st i + ?sz i] = map (\<lambda>j. if j = hash_owner (?sz i) h then concat (map f [?st i..<?st i + ?sz i]) else []) [0..<?sz i]"
      by (simp only: upt map_map comp_def)
    then show ?thesis using concat_only [OF o'] by simp
  qed
  have "concat (map ?g (dht_group n r l)) = concat (map (\<lambda>i. concat (map ?g [?st i..<?st i + ?sz i])) [0..<min ?k ?nb])"
    unfolding group concat_map_concat map_map comp_def ..
  also have "\<dots> = concat (map (\<lambda>i. concat (map f [?st i..<?st i + ?sz i])) [0..<min ?k ?nb])"
    by (rule arg_cong [where f = concat], rule map_cong [OF refl], rule block) simp
  also have "\<dots> = concat (map f (dht_group n r l))" unfolding group concat_map_concat map_map comp_def ..
  finally show ?thesis .
qed

lemma concat_map_nonempty: "concat (map snd (filter (\<lambda>(p, ms). ms \<noteq> []) (map (\<lambda>p. (p, f p)) ps))) = concat (map f ps)"
  by (induction ps) auto

lemma received_infos:
  assumes q: "q < n" "l < dlev n q" and n: "n \<le> nbHashIndexMax" and w: "dht_holds n (Suc l) m0 maps" and h: "hashXIOS i < nbHashIndexMax"
  shows "infos (fold info_push (concat (map snd (received n l (\<lambda>p. map_entries (maps ! p)) q))) []) i
    = (if dht_home n q l (hashXIOS i) = q then concat (map (\<lambda>s. infos (m0 s) i) (dht_group n q l)) else [])"
proof -
  let ?F = "\<lambda>p. map snd (filter (\<lambda>(j, x). j = i) (msgs n l (map_entries (maps ! p)) p q))"
  have F: "?F p = (if dht_home n q l (hashXIOS i) = q \<and> dht_home n p (Suc l) (hashXIOS i) = p
      then concat (map (\<lambda>s. infos (m0 s) i) (dht_group n p (Suc l))) else [])" if "p \<in> set (dht_group n q l)" for p
  proof -
    note g = group_same [OF q(1) that]
    have "dht_home n p l (hashXIOS i) = dht_home n q l (hashXIOS i)" using g(2) by (simp add: dht_home_def)
    then show ?thesis using msgs_infos [of "maps ! p" i n l p q] w g(1) h by (simp add: dht_holds_def)
  qed
  have "infos (fold info_push (concat (map snd (received n l (\<lambda>p. map_entries (maps ! p)) q))) []) i
      = concat (map ?F (dht_from n l q))"
    using q(2) by (simp add: infos_push received_def concat_map_nonempty filter_concat map_concat comp_def)
  also have "\<dots> = concat (map ?F (dht_group n q l))"
    unfolding dht_from_def
  proof (rule concat_filter)
    fix p assume p: "p \<in> set (dht_group n q l)" "\<not> dht_meets n l p q"
    have no: "\<not> (dht_home n q l (hashXIOS i) = q \<and> dht_home n p (Suc l) (hashXIOS i) = p)"
      using homes_meet [OF group_same(1) [OF q(1) p(1)] q(1) n h] p(2) by blast
    show "?F p = []" by (simp only: F [OF p(1)] no if_False)
  qed
  also have "\<dots> = (if dht_home n q l (hashXIOS i) = q then concat (map (\<lambda>s. infos (m0 s) i) (dht_group n q l)) else [])"
  proof -
    have "map ?F (dht_group n q l) = map (\<lambda>p. if dht_home n q l (hashXIOS i) = q then (if dht_home n p (Suc l) (hashXIOS i) = p
        then concat (map (\<lambda>s. infos (m0 s) i) (dht_group n p (Suc l))) else []) else []) (dht_group n q l)"
      by (rule map_cong) (simp_all add: F)
    then have "concat (map ?F (dht_group n q l)) = concat (map (\<lambda>p. if dht_home n q l (hashXIOS i) = q then (if dht_home n p (Suc l) (hashXIOS i) = p
        then concat (map (\<lambda>s. infos (m0 s) i) (dht_group n p (Suc l))) else []) else []) (dht_group n q l))"
      by (simp only:)
    then show ?thesis using concat_homes [OF q(1) n h, of l "\<lambda>s. infos (m0 s) i"]
      by (cases "dht_home n q l (hashXIOS i) = q") (simp_all only: if_True if_False concat_Nils simp_thms)
  qed
  finally show ?thesis .
qed

end
