(* ===== verification/DhtAsk.thy ===== *)
theory DhtAsk
  imports DhtInsert
begin

text \<open>
  The construction of the tables, and asking them: a question goes down the levels to the process that
  holds the answer, and the answer comes back the way the question went.
\<close>

section \<open>Construction\<close>

lemma keys_received:
  assumes "q < n" "length maps = n" "hash_ok maps"
  shows "\<forall>i\<in>fst ` set (concat (map snd (received n l (\<lambda>p. map_entries (maps ! p)) q))). hashXIOS i < nbHashIndexMax"
proof (cases "l < dlev n q")
  case True
  show ?thesis
  proof
    fix i assume "i \<in> fst ` set (concat (map snd (received n l (\<lambda>p. map_entries (maps ! p)) q)))"
    then obtain p where p: "p \<in> set (dht_from n l q)" "i \<in> fst ` set (msgs n l (map_entries (maps ! p)) p q)"
      using True by (auto simp: received_def concat_map_nonempty)
    with msgs_keys have "i \<in> fst ` set (maps ! p)" by blast
    moreover have "maps ! p \<in> set maps" using from_facts(1) [OF assms(1) p(1)] assms(2) by simp
    ultimately show "hashXIOS i < nbHashIndexMax" using assms(3) unfolding hash_ok_def by blast
  qed
qed (simp add: received_def)

lemma distribute_level_eq:
  assumes w: "dht_world n (Suc l) cs" and n: "n \<le> nbHashIndexMax" and m: "dht_holds n (Suc l) m0 maps"
  shows "\<exists>cs' maps'. distribute_level l (cs, maps) = Inr (cs', maps') \<and> dht_world n l cs' \<and> dht_holds n l m0 maps'"
proof -
  obtain cs' where cs': "otraverse (\<lambda>c. if l < dt_level c then computeSendRecvRank l c else Inr c) cs = Inr cs'" "dht_world n l cs'"
    using dht_world_ranks [OF w n] by blast
  have rd: "dht_ready n l cs'" by (rule dht_ready [OF cs'(2) order_refl])
  let ?xs = "\<lambda>p. map_entries (maps ! p)"
  have len: "length cs' = n" "length maps = n" "length (dht_outs n l ?xs) = n"
    using cs'(2) m by (simp_all add: dht_world_def dht_holds_def dht_outs_def)
  have ok: "hash_ok maps" using m by (simp add: dht_holds_def)
  have out: "otraverse (\<lambda>(c, m). dht_out l c (map (\<lambda>(i, xs). (i, map (Pair i) xs)) m)) (zip cs' maps) = Inr (dht_outs n l ?xs)"
  proof (rule otraverse_eq)
    fix p assume p: "p < length (zip cs' maps)"
    then have "\<forall>i\<in>fst ` set (map_entries (maps ! p)). hashXIOS i < nbHashIndexMax"
      using ok len by (force simp: hash_ok_def map_entries_def)
    from dht_out_eq [OF rd _ n this] p len
    show "(case zip cs' maps ! p of (c, m) \<Rightarrow> dht_out l c (map (\<lambda>(i, xs). (i, map (Pair i) xs)) m)) = Inr (dht_outs n l ?xs ! p)"
      by (simp add: dht_outs_def map_entries_def)
  qed (simp add: len)
  note ex = dht_exchange_eq [OF rd n dht_holds_entries [OF m]]
  define maps' where "maps' = map (\<lambda>(c, m, ms). if l < dt_level c then fold info_push (concat (map snd ms)) [] else m)
    (zip cs' (zip maps (map (received n l ?xs) [0..<n])))"
  have run: "distribute_level l (cs, maps) = Inr (cs', maps')"
    unfolding distribute_level_def prod.case cs'(1) obind.simps out ex omap_simps maps'_def ..
  have nth: "maps' ! q = (if l < dlev n q then fold info_push (concat (map snd (received n l ?xs q))) [] else maps ! q)" if "q < n" for q
    using that len world_facts(1) [OF rd that] by (simp add: maps'_def)
  have "dht_holds n l m0 maps'"
    unfolding dht_holds_def
  proof (intro conjI allI impI)
    show "length maps' = n" by (simp add: maps'_def len)
    show "hash_ok maps'"
      unfolding hash_ok_def
    proof
      fix m' assume "m' \<in> set maps'"
      then obtain q where q: "q < n" "m' = maps' ! q" using len by (auto simp: in_set_conv_nth maps'_def)
      show "\<forall>i\<in>fst ` set m'. hashXIOS i < nbHashIndexMax"
      proof (cases "l < dlev n q")
        case True
        then show ?thesis using keys_received [OF q(1) len(2) ok, of l] by (simp add: q nth keys_push)
      next
        case False
        then have "m' \<in> set maps" using q len by (simp add: nth)
          with ok show ?thesis unfolding hash_ok_def by blast
      qed
    qed
  next
    fix q assume q: "q < n"
    show "distinct (map fst (maps' ! q))"
      using m q info_ok_push [OF info_ok_Nil] by (auto simp: nth dht_holds_def info_ok_def)
    fix i assume h: "hashXIOS i < nbHashIndexMax"
    show "infos (maps' ! q) i = (if dht_home n q l (hashXIOS i) = q then concat (map (\<lambda>s. infos (m0 s) i) (dht_group n q l)) else [])"
    proof (cases "l < dlev n q")
      case True
      from received_infos [OF q True n m h] show ?thesis by (simp add: nth q True)
    next
      case False
      then have "spath n q (Suc l) = spath n q l" using spath_beyond [OF q, of l] spath_beyond [OF q, of "Suc l"] by simp
      then show ?thesis using m q h False by (simp add: nth dht_holds_def dht_home_def dht_group_def)
    qed
  qed
  with run cs'(2) show ?thesis by blast
qed

lemma distribute_from_eq:
  assumes "n \<le> nbHashIndexMax"
  shows "dht_world n l cs \<Longrightarrow> dht_holds n l m0 maps
    \<Longrightarrow> \<exists>cs' maps'. distribute_from l (cs, maps) = Inr (cs', maps') \<and> dht_world n 0 cs' \<and> dht_holds n 0 m0 maps'"
proof (induction l arbitrary: cs maps)
  case (Suc l)
  from distribute_level_eq [OF Suc.prems(1) assms Suc.prems(2)]
  obtain cs' maps' where "distribute_level l (cs, maps) = Inr (cs', maps')" "dht_world n l cs'" "dht_holds n l m0 maps'" by blast
  with Suc.IH [of cs' maps'] show ?case by simp
qed auto

lemma construct_dht_eq:
  assumes "length maps \<le> nbHashIndexMax" "\<forall>m\<in>set maps. distinct (map fst m)" "hash_ok maps"
  shows "\<exists>cs maps'. construct_dht maps = Inr (cs, maps') \<and> dht_world (length maps) 0 cs \<and> dht_holds (length maps) 0 ((!) maps) maps'"
proof -
  let ?n = "length maps"
  obtain cs where cs: "otraverse (newDht ?n) [0..<?n] = Inr cs" "\<And>lv. \<forall>r<?n. dlev ?n r \<le> lv \<Longrightarrow> dht_world ?n lv cs"
    using dht_world_new [of ?n] by blast
  have lev: "\<forall>r<?n. dlev ?n r \<le> dht_levels cs"
  proof (intro allI impI)
    fix r assume r: "r < ?n"
    have "\<forall>r<?n. dlev ?n r \<le> levels ?n" using dlev_facts(3) by blast
    from cs(2) [OF this] have w: "dht_world ?n (levels ?n) cs" .
    then have "dht_base ?n r (cs ! r)" "cs ! r \<in> set cs" using r by (simp_all add: dht_world_def)
    then have "dt_level (cs ! r) = dlev ?n r" "cs ! r \<in> set cs" by (simp_all add: dht_base_def)
    with dht_levels_ge show "dlev ?n r \<le> dht_levels cs" by metis
  qed
  from distribute_from_eq [OF assms(1) cs(2) [OF lev] dht_holds_start [OF assms(2,3) lev]]
  show ?thesis by (simp add: construct_dht_def cs(1))
qed

section \<open>Questions\<close>

lemma dht_first_facts: "set (dht_first is) = set is" "distinct (dht_first is)"
proof -
  have "set (fold (\<lambda>i seen. if i \<in> set seen then seen else seen @ [i]) is xs) = set xs \<union> set is
      \<and> (distinct xs \<longrightarrow> distinct (fold (\<lambda>i seen. if i \<in> set seen then seen else seen @ [i]) is xs))" for xs :: "nat list"
    by (induction "is" arbitrary: xs) auto
  from this [of "[]"] show "set (dht_first is) = set is" "distinct (dht_first is)" by (simp_all add: dht_first_def)
qed

definition ask_entries :: "nat list \<Rightarrow> (nat \<times> nat list) list" where
  "ask_entries is = map (\<lambda>i. (i, [i])) (dht_first is)"

lemma msgs_ask: "msgs n l (ask_entries is) p q = filter (\<lambda>i. dht_home n p l (hashXIOS i) = q) (dht_first is)"
proof -
  have "concat (map snd (filter (\<lambda>(i, ms). P i) (map (\<lambda>i. (i, [i])) js))) = filter P js" for P and js :: "nat list"
    by (induction js) simp_all
  then show ?thesis by (simp add: msgs_def ask_entries_def)
qed

text \<open>The indices a process asks for at a level are those it is responsible for one level below.\<close>

definition asks :: "nat \<Rightarrow> nat \<Rightarrow> nat list list \<Rightarrow> bool" where
  "asks n l indices \<longleftrightarrow> length indices = n \<and> (\<forall>p<n. \<forall>i\<in>set (indices ! p). hashXIOS i < nbHashIndexMax
     \<and> dht_home n p l (hashXIOS i) = p)"

lemma asks_entries: "asks n (Suc l) indices \<Longrightarrow> dht_entries n l (\<lambda>p. ask_entries (indices ! p))"
  by (auto simp: asks_def dht_entries_def ask_entries_def dht_first_facts)

lemma asks_start:
  assumes "\<forall>r<n. dlev n r \<le> l" "length indices = n" "\<forall>is\<in>set indices. \<forall>i\<in>set is. hashXIOS i < nbHashIndexMax"
  shows "asks n l indices"
  unfolding asks_def
proof (intro conjI allI impI ballI)
  fix p i assume p: "p < n" "i \<in> set (indices ! p)"
  then show "hashXIOS i < nbHashIndexMax" using assms(2,3) by auto
  then show "dht_home n p l (hashXIOS i) = p"
    using spath_beyond [OF p(1), of l] assms(1) p(1) by (simp add: dht_home_def hash_owner_one [unfolded One_nat_def])
qed (rule assms(2))

lemma infos_replies:
  "map snd (filter (\<lambda>(j, x). j = i) (concat (map (\<lambda>i. map (Pair i) (f i)) is))) = concat (map f (filter ((=) i) is))"
proof (induction "is")
  case (Cons j "is")
  have "map snd (filter (\<lambda>(j, x). j = i) (map (Pair j) (f j))) = (if i = j then f j else [])" by (auto simp: filter_map comp_def)
  then show ?case using Cons by auto
qed simp

lemma filter_one: "distinct is \<Longrightarrow> filter ((=) i) is = (if i \<in> set is then [i] else [])"
  by (induction "is") auto

lemma dht_reply_eq:
  assumes "q < n" "p \<in> set (dht_from n l q)" "l < dlev n q" "msgs n l (xs p) p q \<noteq> []"
  shows "dht_reply (received n l xs q) found p = concat (map (\<lambda>i. map (Pair i) (infos found i)) (msgs n l (xs p) p q))"
proof -
  have "concat (map (\<lambda>(p', is). if p' = p then F is else []) (filter (\<lambda>(p, ms). ms \<noteq> []) (map (\<lambda>p. (p, G p)) ps))) = F (G p)"
    if "distinct ps" "p \<in> set ps" "G p \<noteq> []" for ps and F :: "nat list \<Rightarrow> (nat \<times> 'b) list" and G
  proof -
    have "concat (map (\<lambda>(p', is). if p' = p then F is else []) (filter (\<lambda>(p, ms). ms \<noteq> []) (map (\<lambda>p. (p, G p)) ps))) = []"
      if "p \<notin> set ps" for ps using that by (induction ps) auto
    with that show ?thesis by (induction ps) auto
  qed
  from this [of "dht_from n l q" "\<lambda>p. msgs n l (xs p) p q"] assms show ?thesis by (simp add: dht_reply_def received_def)
qed

lemma returned_infos:
  assumes w: "dht_ready n l cs" and p: "p < n" "l < dlev n p" and n: "n \<le> nbHashIndexMax" and a: "asks n (Suc l) indices"
    and found: "\<And>q. q < n \<Longrightarrow> l < dlev n q \<Longrightarrow> \<forall>i\<in>set (concat (map snd (received n l (\<lambda>p. ask_entries (indices ! p)) q))). infos (found ! q) i = T i"
  shows "infos (dht_returned l cs (dht_outs n l (\<lambda>p. ask_entries (indices ! p))) (map (received n l (\<lambda>p. ask_entries (indices ! p))) [0..<n]) found p) i
    = (if i \<in> set (indices ! p) then T i else [])"
proof -
  let ?xs = "\<lambda>p. ask_entries (indices ! p)" and ?b = "leader n p l" and ?z = "grp_size n p l"
  let ?is = "dht_first (indices ! p)"
  let ?R = "\<lambda>d. if msgs n l (?xs p) p (?b + d) = [] then [] else dht_reply (received n l ?xs (?b + d)) (found ! (?b + d)) p"
  have out: "length (dht_outs n l ?xs ! p) = ?z" "\<And>d. d < ?z \<Longrightarrow> dht_outs n l ?xs ! p ! d = msgs n l (?xs p) p (?b + d)"
    using p by (simp_all add: dht_outs_def msgs_bin)
  have grp: "?b + d < n" if "d < ?z" for d using that group_facts(3) [OF p(1), of l] by simp
  have reply: "map snd (filter (\<lambda>(j, x). j = i) (?R d))
      = (if i \<in> set (indices ! p) \<and> dht_home n p l (hashXIOS i) = ?b + d then T i else [])" if d: "d < ?z" for d
  proof (cases "msgs n l (?xs p) p (?b + d) = []")
    case True
    then have "\<not> (i \<in> set (indices ! p) \<and> dht_home n p l (hashXIOS i) = ?b + d)"
      by (auto simp: msgs_ask filter_empty_conv dht_first_facts)
    with True show ?thesis by auto
  next
    case False
    let ?q = "?b + d"
    have q: "?q < n" by (rule grp [OF d])
    have "?q \<in> set (dht_to n l p)" by (rule msgs_home(1) [OF asks_entries [OF a] p(1) n False])
    then have f: "p \<in> set (dht_from n l ?q)" using in_dht_to [OF p(1) q] by simp
    have lq: "l < dlev n ?q" using from_facts(3) [OF q f] p(2) by simp
    have "infos (found ! ?q) j = T j" if "j \<in> set (msgs n l (?xs p) p ?q)" for j
    proof -
      have "j \<in> set (concat (map snd (received n l ?xs ?q)))"
        using that f lq by (auto simp: received_def concat_map_nonempty)
      then show ?thesis using found [OF q lq] by blast
    qed
    moreover have "map snd (filter (\<lambda>(j, x). j = i) (?R d)) = concat (map (infos (found ! ?q)) (filter ((=) i) (msgs n l (?xs p) p ?q)))"
      using False dht_reply_eq [where xs = ?xs and found = "found ! ?q", OF q f lq False] infos_replies [of i "infos (found ! ?q)" "msgs n l (?xs p) p ?q"] by simp
    moreover have "filter ((=) i) (msgs n l (?xs p) p ?q) = (if i \<in> set (msgs n l (?xs p) p ?q) then [i] else [])"
      by (rule filter_one) (simp add: msgs_ask dht_first_facts)
    moreover have "i \<in> set (msgs n l (?xs p) p ?q) \<longleftrightarrow> i \<in> set (indices ! p) \<and> dht_home n p l (hashXIOS i) = ?q"
      by (simp add: msgs_ask dht_first_facts)
    ultimately show ?thesis by auto
  qed
  have "dht_returned l cs (dht_outs n l ?xs) (map (received n l ?xs) [0..<n]) found p = fold info_push (concat (map ?R [0..<?z])) []"
    unfolding dht_returned_def out(1) Let_def world_facts(4) [OF w p]
    by (intro arg_cong [where f = "\<lambda>x. fold info_push (concat x) []"] map_cong) (auto simp: out(2) grp)
  then have "infos (dht_returned l cs (dht_outs n l ?xs) (map (received n l ?xs) [0..<n]) found p) i
      = concat (map (\<lambda>d. map snd (filter (\<lambda>(j, x). j = i) (?R d))) [0..<?z])"
    by (simp only: infos_push infos_Nil append_Nil filter_concat map_concat map_map comp_def)
  also have "\<dots> = concat (map (\<lambda>d. if d = hash_owner ?z (hashXIOS i) then (if i \<in> set (indices ! p) then T i else []) else []) [0..<?z])"
    by (rule arg_cong [where f = concat], rule map_cong [OF refl], subst reply) (auto simp: dht_home_def)
  also have "\<dots> = (if i \<in> set (indices ! p) then T i else [])"
  proof (cases "i \<in> set (indices ! p)")
    case True
    then have "hashXIOS i < nbHashIndexMax" using a p(1) by (simp add: asks_def)
    then have "hash_owner ?z (hashXIOS i) < ?z" using hash_owner(1) group_facts(4,5) [OF p(1), of l] n by (meson order_trans)
    from concat_only [OF this, of "T i"] True show ?thesis by simp
  qed (simp only: if_False if_cancel concat_Nils)
  finally show ?thesis .
qed

lemma asks_below:
  assumes w: "dht_ready n l cs" and n: "n \<le> nbHashIndexMax" and a: "asks n (Suc l) indices"
  shows "asks n l (map (\<lambda>(c, is, ms). if l < dt_level c then concat (map snd ms) else is)
    (zip cs (zip indices (map (received n l (\<lambda>p. ask_entries (indices ! p))) [0..<n]))))"
proof -
  let ?xs = "\<lambda>p. ask_entries (indices ! p)"
  let ?below = "map (\<lambda>(c, is, ms). if l < dt_level c then concat (map snd ms) else is) (zip cs (zip indices (map (received n l ?xs) [0..<n])))"
  have len: "length cs = n" "length indices = n" using w a by (simp_all add: dht_ready_def asks_def)
  have nth: "?below ! q = (if l < dlev n q then concat (map snd (received n l ?xs q)) else indices ! q)" if "q < n" for q
    using that len world_facts(1) [OF w that] by simp
  show ?thesis
    unfolding asks_def
  proof (intro conjI allI impI ballI)
    fix q i assume q: "q < n" "i \<in> set (?below ! q)"
    have *: "hashXIOS i < nbHashIndexMax \<and> dht_home n q l (hashXIOS i) = q"
    proof (cases "l < dlev n q")
      case True
      with q obtain p where p: "p \<in> set (dht_from n l q)" "i \<in> set (msgs n l (?xs p) p q)"
        unfolding nth [OF q(1)] by (auto simp: received_def concat_map_nonempty)
      have pn: "p < n" by (rule from_facts(1) [OF q(1) p(1)])
      have i: "i \<in> set (indices ! p)" "dht_home n p l (hashXIOS i) = q"
        using p(2) by (simp_all add: msgs_ask dht_first_facts)
      have h: "hashXIOS i < nbHashIndexMax" using a pn i(1) by (simp add: asks_def)
      then show ?thesis using dht_home_in(2) [OF pn n h, of l] i(2) by simp
    next
      case False
      then have "spath n q (Suc l) = spath n q l" using spath_beyond [OF q(1), of l] spath_beyond [OF q(1), of "Suc l"] by simp
      then show ?thesis using a q False unfolding nth [OF q(1)] by (force simp: asks_def dht_home_def)
    qed
    then show "hashXIOS i < nbHashIndexMax" "dht_home n q l (hashXIOS i) = q" by simp_all
  qed (simp add: len)
qed

text \<open>The answers of the level below, for the indices asked there, give those of a level.\<close>

lemma ask_level:
  assumes w: "dht_ready n l cs" and n: "n \<le> nbHashIndexMax" and a: "asks n (Suc l) indices"
    and below: "\<And>is. asks n l is \<Longrightarrow> \<exists>found. ask_from l cs index2Info is = Inr found \<and> length found = n
      \<and> (\<forall>q<n. \<forall>i\<in>set (is ! q). infos (found ! q) i = T i)
      \<and> (\<forall>q<n. dlev n q \<le> l \<longrightarrow> info_ok (found ! q) \<and> (\<forall>i. infos (found ! q) i = (if i \<in> set (is ! q) then T i else [])))"
  shows "\<exists>found. ask_from (Suc l) cs index2Info indices = Inr found \<and> length found = n
    \<and> (\<forall>q<n. \<forall>i\<in>set (indices ! q). infos (found ! q) i = T i)
    \<and> (\<forall>q<n. dlev n q \<le> Suc l \<longrightarrow> info_ok (found ! q) \<and> (\<forall>i. infos (found ! q) i = (if i \<in> set (indices ! q) then T i else [])))"
proof -
  let ?xs = "\<lambda>p. ask_entries (indices ! p)"
  let ?got = "map (received n l ?xs) [0..<n]"
  let ?below = "map (\<lambda>(c, is, ms). if l < dt_level c then concat (map snd ms) else is) (zip cs (zip indices ?got))"
  have len: "length cs = n" "length indices = n" using w a by (simp_all add: dht_ready_def asks_def)
  have nth: "?below ! q = (if l < dlev n q then concat (map snd (received n l ?xs q)) else indices ! q)" if "q < n" for q
    using that len world_facts(1) [OF w that] by simp
  have out: "otraverse (\<lambda>(c, is). dht_out l c (map (\<lambda>i. (i, [i])) (dht_first is))) (zip cs indices) = Inr (dht_outs n l ?xs)"
  proof (rule otraverse_eq)
    fix p assume "p < length (zip cs indices)"
    then have p: "p < n" using len by simp
    then have "\<forall>i\<in>fst ` set (ask_entries (indices ! p)). hashXIOS i < nbHashIndexMax"
      using a by (auto simp: asks_def ask_entries_def dht_first_facts)
    from dht_out_eq [OF w p n this] p len
    show "(case zip cs indices ! p of (c, is) \<Rightarrow> dht_out l c (map (\<lambda>i. (i, [i])) (dht_first is))) = Inr (dht_outs n l ?xs ! p)"
      by (simp add: dht_outs_def ask_entries_def)
  qed (simp add: len dht_outs_def)
  note ex = dht_exchange_eq [OF w n asks_entries [OF a]]
  obtain found where found: "ask_from l cs index2Info ?below = Inr found" "length found = n"
      "\<And>q i. q < n \<Longrightarrow> i \<in> set (?below ! q) \<Longrightarrow> infos (found ! q) i = T i"
      "\<And>q i. q < n \<Longrightarrow> dlev n q \<le> l \<Longrightarrow> info_ok (found ! q) \<and> infos (found ! q) i = (if i \<in> set (?below ! q) then T i else [])"
    using below [OF asks_below [OF w n a]] by blast
  have found': "\<forall>i\<in>set (concat (map snd (received n l ?xs q))). infos (found ! q) i = T i" if "q < n" "l < dlev n q" for q
    using found(3) [OF that(1)] unfolding nth [OF that(1)] if_P [OF that(2)] by blast
  define res where "res = map (\<lambda>p. if l < dt_level (cs ! p) then dht_returned l cs (dht_outs n l ?xs) ?got found p else found ! p) [0..<length cs]"
  have run: "ask_from (Suc l) cs index2Info indices = Inr res"
    unfolding ask_from.simps out obind.simps ex found(1) omap_simps res_def ..
  have res: "info_ok (res ! q) \<and> infos (res ! q) i = (if i \<in> set (indices ! q) then T i else [])"
    if q: "q < n" "dlev n q \<le> l \<or> l < dlev n q" for q i
  proof (cases "l < dlev n q")
    case True
    then have "res ! q = dht_returned l cs (dht_outs n l ?xs) ?got found q"
      using q(1) len world_facts(1) [OF w q(1)] by (simp add: res_def)
    moreover have "info_ok (dht_returned l cs (dht_outs n l ?xs) ?got found q)"
      by (simp add: dht_returned_def info_ok_push [OF info_ok_Nil])
    ultimately show ?thesis using returned_infos [OF w q(1) True n a found'] by simp
  next
    case False
    then have "res ! q = found ! q" using q(1) len world_facts(1) [OF w q(1)] by (simp add: res_def)
    with found(4) [OF q(1)] False show ?thesis unfolding nth [OF q(1)] by simp
  qed
  have "length res = n" by (simp add: res_def len)
  moreover have "\<forall>q<n. \<forall>i\<in>set (indices ! q). infos (res ! q) i = T i"
  proof (intro allI impI ballI)
    fix q i assume "q < n" "i \<in> set (indices ! q)"
    then show "infos (res ! q) i = T i" using res [of q i] by (simp add: not_less [symmetric])
  qed
  moreover have "\<forall>q<n. dlev n q \<le> Suc l \<longrightarrow> info_ok (res ! q) \<and> (\<forall>i. infos (res ! q) i = (if i \<in> set (indices ! q) then T i else []))"
    using res by (simp add: not_less [symmetric])
  ultimately show ?thesis using run by blast
qed

end
