(* ===== verification/DhtClaims.thy ===== *)
theory DhtClaims
  imports DhtAsk
begin

text \<open>
  The properties of the distributed hash table: together the processes are one map, and the one hash
  value that belongs to no process.
\<close>

section \<open>The table as one map\<close>

text \<open>What the processes have put in for an index, in the order of their ranks.\<close>

definition dht_infos :: "'a info_map list \<Rightarrow> nat \<Rightarrow> 'a list" where
  "dht_infos maps i = concat (map (\<lambda>m. infos m i) maps)"

definition hashes :: "nat list \<Rightarrow> bool" where
  "hashes is \<longleftrightarrow> list_all (\<lambda>i. hashXIOS i < nbHashIndexMax) is"

lemma ask_from_eq:
  assumes w: "dht_world n 0 cs" and n: "n \<le> nbHashIndexMax" and m: "dht_holds n 0 m0 maps"
  shows "asks n l indices \<Longrightarrow> \<exists>found. ask_from l cs maps indices = Inr found \<and> length found = n
    \<and> (\<forall>q<n. \<forall>i\<in>set (indices ! q). infos (found ! q) i = concat (map (\<lambda>s. infos (m0 s) i) [0..<n]))
    \<and> (\<forall>q<n. dlev n q \<le> l \<longrightarrow> info_ok (found ! q)
        \<and> (\<forall>i. infos (found ! q) i = (if i \<in> set (indices ! q) then concat (map (\<lambda>s. infos (m0 s) i) [0..<n]) else [])))"
proof (induction l arbitrary: indices)
  case 0
  have "infos (maps ! q) i = concat (map (\<lambda>s. infos (m0 s) i) [0..<n])" if "q < n" "i \<in> set (indices ! q)" for q i
    using m 0 that by (auto simp: dht_holds_def asks_def dht_group_def)
  moreover have "\<forall>q<n. \<not> dlev n q \<le> 0" using dlev_facts(1) by fastforce
  moreover have "length maps = n" using m by (simp add: dht_holds_def)
  ultimately show ?case by (intro exI [where x = maps] conjI) (simp, blast+)
next
  case (Suc l)
  show ?case by (rule ask_level [OF dht_ready [OF w zero_le] n Suc.prems Suc.IH])
qed

lemma dht_end_to_end:
  assumes n: "length maps \<le> nbHashIndexMax" and d: "\<forall>m\<in>set maps. distinct (map fst m)" and h: "hash_ok maps"
    and q: "length indices = length maps" "\<forall>is\<in>set indices. hashes is"
  shows "\<exists>s found. construct_dht maps = Inr s \<and> computeIndexInfoMapping s indices = Inr found \<and> length found = length maps
    \<and> (\<forall>p<length maps. info_ok (found ! p) \<and> (\<forall>i. map_of (found ! p) i
        = (if i \<in> set (indices ! p) \<and> dht_infos maps i \<noteq> [] then Some (dht_infos maps i) else None)))"
proof -
  let ?n = "length maps"
  obtain cs maps' where s: "construct_dht maps = Inr (cs, maps')" "dht_world ?n 0 cs" "dht_holds ?n 0 ((!) maps) maps'"
    using construct_dht_eq [OF n d h] by blast
  have lev: "dlev ?n r \<le> dht_levels cs" if "r < ?n" for r
  proof -
    have "dt_level (cs ! r) = dlev ?n r" "cs ! r \<in> set cs" using s(2) that by (simp_all add: dht_world_def dht_base_def)
    then show ?thesis using dht_levels_ge by metis
  qed
  have "asks ?n (dht_levels cs) indices" using lev q by (intro asks_start) (auto simp: hashes_def list_all_iff)
  from ask_from_eq [OF s(2) n s(3) this] lev
  obtain found where f: "ask_from (dht_levels cs) cs maps' indices = Inr found" "length found = ?n"
    "\<And>q i. q < ?n \<Longrightarrow> info_ok (found ! q) \<and> infos (found ! q) i
       = (if i \<in> set (indices ! q) then concat (map (\<lambda>s. infos (maps ! s) i) [0..<?n]) else [])"
    by blast
  have T: "concat (map (\<lambda>s. infos (maps ! s) i) [0..<?n]) = dht_infos maps i" for i
  proof -
    have "map (\<lambda>s. infos (maps ! s) i) [0..<?n] = map (\<lambda>m. infos m i) maps" by (rule nth_equalityI) simp_all
    then show ?thesis by (simp only: dht_infos_def)
  qed
  have "info_ok (found ! p) \<and> map_of (found ! p) i = (if i \<in> set (indices ! p) \<and> dht_infos maps i \<noteq> [] then Some (dht_infos maps i) else None)" if "p < ?n" for p i
    using f(3) [OF that, of i] map_of_infos [of "found ! p" i] by (auto simp: T)
  with s(1) f(1,2) show ?thesis by (auto simp: computeIndexInfoMapping_def)
qed

section \<open>The largest hash value\<close>

text \<open>A process with such an index fails as soon as it takes part in a level.\<close>

abbreviation out_of_range :: cxx_error where "out_of_range \<equiv> UndefinedBehaviour ''read out of range''"

lemma dht_bins_max:
  assumes "0 < nb" "nb \<le> nbHashIndexMax" "i \<in> fst ` set xs" "hashXIOS i = nbHashIndexMax"
  shows "dht_bins nb xs = Inl out_of_range"
proof -
  let ?f = "\<lambda>(index, ms) bins. obind (arr_get bins (indexClient nb index)) (\<lambda>b. arr_set bins (indexClient nb index) (b @ ms))"
  have "ofold ?f xs bins = Inl out_of_range" if "length bins = nb" for bins
    using assms(3) that
  proof (induction xs arbitrary: bins)
    case (Cons x xs)
    obtain j ms where x: "x = (j, ms)" by (cases x)
    show ?case
    proof (cases "hashXIOS j = nbHashIndexMax")
      case True
      then have "arr_get bins (indexClient nb j) = Inl out_of_range"
        using indexClient_max [OF assms(1,2)] Cons.prems(2) by (simp add: arr_get_def)
      then show ?thesis by (simp add: x)
    next
      case False
      then have h: "hashXIOS j < nbHashIndexMax" using hashXIOS_le [of j] by simp
      have "hash_owner nb (hashXIOS j) < nb" by (rule hash_owner(1) [OF assms(1,2) h])
      then have "?f x bins = Inr (bins[hash_owner nb (hashXIOS j) := bins ! hash_owner nb (hashXIOS j) @ ms])"
        using indexClient_owner [OF assms(1,2) h] Cons.prems(2) by (simp add: x arr_get_def arr_set_def)
      moreover have "i \<in> fst ` set xs" using Cons.prems(1) False assms(4) x by auto
      ultimately show ?thesis using Cons.IH Cons.prems(2) by simp
    qed
  qed simp
  from this [of "replicate nb []"] show ?thesis by (simp add: dht_bins_def)
qed

lemma otraverse_Inl:
  "\<forall>x\<in>set xs. f x = Inl e \<or> (\<exists>y. f x = Inr y) \<Longrightarrow> \<exists>x\<in>set xs. f x = Inl e \<Longrightarrow> otraverse f xs = Inl e"
proof (induction xs)
  case (Cons x xs)
  show ?case
  proof (cases "f x = Inl e")
    case False
    then obtain y where "f x = Inr y" using Cons.prems(1) by auto
    moreover from this have "otraverse f xs = Inl e" using Cons.IH Cons.prems by auto
    ultimately show ?thesis by simp
  qed simp
qed simp

lemma otraverse_map_eq: "map f xs = map g ys \<Longrightarrow> otraverse f xs = otraverse g ys"
proof (induction xs arbitrary: ys)
  case (Cons x xs)
  then obtain y zs where "ys = y # zs" "f x = g y" "map f xs = map g zs" by (cases ys) auto
  with Cons.IH [of zs] show ?case by simp
qed simp

definition hashed_well :: "'a info_map \<Rightarrow> bool" where
  "hashed_well m \<longleftrightarrow> (\<forall>i\<in>fst ` set m. hashXIOS i < nbHashIndexMax)"

definition well_part :: "'a info_map list \<Rightarrow> 'a info_map list" where
  "well_part maps = map (\<lambda>m. if hashed_well m then m else []) maps"

lemma well_part_simps [simp]: "length (well_part maps) = length maps"
  "q < length maps \<Longrightarrow> well_part maps ! q = (if hashed_well (maps ! q) then maps ! q else [])"
  by (simp_all add: well_part_def)

lemma not_well: "\<not> hashed_well m \<Longrightarrow> \<exists>i\<in>fst ` set m. hashXIOS i = nbHashIndexMax"
  using hashXIOS_le unfolding hashed_well_def by (metis le_neq_implies_less)

lemma dht_out_max:
  assumes w: "dht_ready n l cs" and p: "p < n" and n: "n \<le> nbHashIndexMax"
  shows "dht_out l (cs ! p) (map_entries m) = (if l < dlev n p \<and> \<not> hashed_well m then Inl out_of_range
    else Inr (if l < dlev n p then map (bin_of (grp_size n p l) (map_entries m)) [0..<grp_size n p l] else []))"
proof (cases "hashed_well m")
  case True
  then have "\<forall>i\<in>fst ` set (map_entries m). hashXIOS i < nbHashIndexMax" by (force simp: hashed_well_def map_entries_def)
  from dht_out_eq [OF w p n this] True show ?thesis by (simp only: simp_thms if_False)
next
  case False
  then obtain i where i: "i \<in> fst ` set m" "hashXIOS i = nbHashIndexMax" using not_well by blast
  have "i \<in> fst ` set (map_entries m)" using i(1) by (force simp: map_entries_def)
  moreover have "0 < grp_size n p l" "grp_size n p l \<le> nbHashIndexMax" using group_facts(4,5) [OF p, of l] n by linarith+
  ultimately have "dht_bins (grp_size n p l) (map_entries m) = Inl out_of_range" using dht_bins_max i(2) by blast
  with False world_facts(1,5) [OF w p] show ?thesis by (simp add: dht_out_def)
qed

lemma level_max:
  assumes w: "dht_world n (Suc l) cs" and n: "n \<le> nbHashIndexMax" and m: "dht_holds n (Suc l) m0 (well_part maps)"
  shows "if \<exists>p<n. l < dlev n p \<and> \<not> hashed_well (maps ! p) then distribute_level l (cs, maps) = Inl out_of_range
    else \<exists>cs' maps'. distribute_level l (cs, maps) = Inr (cs', maps') \<and> dht_world n l cs' \<and> dht_holds n l m0 (well_part maps')
      \<and> (\<forall>q<n. \<not> hashed_well (maps ! q) \<longrightarrow> maps' ! q = maps ! q)"
proof -
  obtain cs' where cs': "otraverse (\<lambda>c. if l < dt_level c then computeSendRecvRank l c else Inr c) cs = Inr cs'" "dht_world n l cs'"
    using dht_world_ranks [OF w n] by blast
  have rd: "dht_ready n l cs'" by (rule dht_ready [OF cs'(2) order_refl])
  have len: "length cs' = n" "length maps = n" using rd m by (simp_all add: dht_ready_def dht_holds_def)
  let ?out = "\<lambda>(c, m). dht_out l c (map (\<lambda>(i, xs). (i, map (Pair i) xs)) m)"
  let ?new = "\<lambda>maps got. map (\<lambda>(c, m, ms). if l < dt_level c then fold info_push (concat (map snd ms)) [] else m) (zip cs' (zip maps got))"
  have out: "?out (zip cs' maps ! p) = (if l < dlev n p \<and> \<not> hashed_well (maps ! p) then Inl out_of_range
      else Inr (if l < dlev n p then map (bin_of (grp_size n p l) (map_entries (maps ! p))) [0..<grp_size n p l] else []))" if p: "p < n" for p
    using dht_out_max [OF rd p n, of "maps ! p"] p len by (simp only: nth_zip prod.case map_entries_def)
  show ?thesis
  proof (cases "\<exists>p<n. l < dlev n p \<and> \<not> hashed_well (maps ! p)")
    case True
    have "otraverse ?out (zip cs' maps) = Inl out_of_range"
    proof (rule otraverse_Inl)
      show "\<forall>x\<in>set (zip cs' maps). ?out x = Inl out_of_range \<or> (\<exists>y. ?out x = Inr y)"
      proof
        fix x assume "x \<in> set (zip cs' maps)"
        then obtain p where "p < n" "x = zip cs' maps ! p" using len by (auto simp: in_set_conv_nth)
        then show "?out x = Inl out_of_range \<or> (\<exists>y. ?out x = Inr y)" by (simp only: out split: if_split) blast
      qed
      obtain p where p: "p < n" "l < dlev n p \<and> \<not> hashed_well (maps ! p)" using True by blast
      then have "zip cs' maps ! p \<in> set (zip cs' maps)" using len by (intro nth_mem) simp
      moreover have "?out (zip cs' maps ! p) = Inl out_of_range" unfolding out [OF p(1)] using p(2) by (simp only: simp_thms if_True)
      ultimately show "\<exists>x\<in>set (zip cs' maps). ?out x = Inl out_of_range" by blast
    qed
    then have "distribute_level l (cs, maps) = Inl out_of_range"
      by (simp only: distribute_level_def prod.case cs'(1) obind.simps)
    with True show ?thesis by simp
  next
    case False
    obtain cs2 mapsT where t: "distribute_level l (cs, well_part maps) = Inr (cs2, mapsT)" "dht_world n l cs2" "dht_holds n l m0 mapsT"
      using distribute_level_eq [OF w n m] by blast
    have same: "otraverse ?out (zip cs' maps) = otraverse ?out (zip cs' (well_part maps))"
    proof -
      have "map ?out (zip cs' maps) = map ?out (zip cs' (well_part maps))"
      proof (rule nth_equalityI)
        fix p assume "p < length (map ?out (zip cs' maps))"
        then have p: "p < n" using len by simp
        have "?out (zip cs' (well_part maps) ! p) = Inr (if l < dlev n p then map (bin_of (grp_size n p l) (map_entries (maps ! p))) [0..<grp_size n p l] else [])"
          using dht_out_max [OF rd p n, of "well_part maps ! p"] p len False by (auto simp: map_entries_def hashed_well_def)
        then show "map ?out (zip cs' maps) ! p = map ?out (zip cs' (well_part maps)) ! p"
          using out [OF p] p len False by (simp only: nth_map length_zip well_part_simps) auto
      qed (simp add: len)
      then show ?thesis by (rule otraverse_map_eq)
    qed
    obtain out got where og: "otraverse ?out (zip cs' (well_part maps)) = Inr out" "dht_exchange l cs' out = Inr got"
      "cs2 = cs'" "mapsT = ?new (well_part maps) got"
      using t(1) by (auto simp: distribute_level_def cs'(1) outcome_simps omap_def)
    define maps1 where "maps1 = ?new maps got"
    have run: "distribute_level l (cs, maps) = Inr (cs', maps1)"
      by (simp add: distribute_level_def cs'(1) maps1_def same og(1,2))
    have lg: "length got = n" using og(2) len by (auto simp: dht_exchange_def outcome_simps split: if_splits)
    have l1: "length maps1 = n" by (simp add: maps1_def len lg)
    have new: "maps1 ! q = (if l < dlev n q then mapsT ! q else maps ! q)"
      "\<not> l < dlev n q \<Longrightarrow> mapsT ! q = (if hashed_well (maps ! q) then maps ! q else [])" if "q < n" for q
      using that len lg world_facts(1) [OF rd that] by (simp_all add: og(4) maps1_def)
    have lT: "length mapsT = n" "hash_ok mapsT" using t(3) by (simp_all add: dht_holds_def)
    have "well_part maps1 = mapsT"
    proof (rule nth_equalityI)
      fix q assume "q < length (well_part maps1)"
      then have q: "q < n" using l1 by simp
      have "mapsT ! q \<in> set mapsT" using lT(1) q by simp
      then have "hashed_well (mapsT ! q)" using lT(2) unfolding hash_ok_def hashed_well_def by blast
      then show "well_part maps1 ! q = mapsT ! q" using new [OF q] q l1 by (cases "l < dlev n q") simp_all
    qed (simp add: l1 lT)
    then have "dht_holds n l m0 (well_part maps1)" using t(3) by simp
    moreover have "\<forall>q<n. \<not> hashed_well (maps ! q) \<longrightarrow> maps1 ! q = maps ! q" using new(1) False by auto
    ultimately show ?thesis unfolding if_not_P [OF False] using run cs'(2) by blast
  qed
qed

lemma distribute_max:
  assumes n: "n \<le> nbHashIndexMax" and p: "p < n"
  shows "dht_world n l cs \<Longrightarrow> dht_holds n l m0 (well_part maps) \<Longrightarrow> dlev n p \<le> l \<Longrightarrow> \<not> hashed_well (maps ! p)
    \<Longrightarrow> distribute_from l (cs, maps) = Inl out_of_range"
proof (induction l arbitrary: cs maps)
  case 0
  then show ?case using dlev_facts(1) [OF p] by simp
next
  case (Suc l)
  note level = level_max [OF Suc.prems(1) n Suc.prems(2)]
  show ?case
  proof (cases "\<exists>p<n. l < dlev n p \<and> \<not> hashed_well (maps ! p)")
    case True
    with level have "distribute_level l (cs, maps) = Inl out_of_range" by (simp only: if_True)
    then show ?thesis by simp
  next
    case False
    note goes_on = level [unfolded if_not_P [OF False]]
    obtain cs' maps' where s: "distribute_level l (cs, maps) = Inr (cs', maps')" "dht_world n l cs'" "dht_holds n l m0 (well_part maps')"
      "maps' ! p = maps ! p" using goes_on p Suc.prems(4) by blast
    have "dlev n p \<le> l" using False p Suc.prems(4) by (meson not_le)
    with Suc.IH [OF s(2,3)] s(1,4) Suc.prems(4) show ?thesis by simp
  qed
qed

section \<open>Properties\<close>

text \<open>C19: The distributed hash table is one map: whatever the number of processes and whatever each of
  them puts in, the construction and the questions that follow go through (no message waits for ever and no
  access is out of range), and for each index a process asks for it gets what all processes have put
  in for that index, in the order of their ranks, and nothing for an index without entries.
  The hash values of the indices are supposed to be below the largest \<open>size_t\<close>.\<close>

theorem dht_answers:
  assumes "length maps \<le> nbHashIndexMax" "\<forall>m\<in>set maps. distinct (map fst m)" "hash_ok maps"
    and "length indices = length maps" "\<forall>is\<in>set indices. hashes is"
  shows "\<exists>s found. construct_dht maps = Inr s \<and> computeIndexInfoMapping s indices = Inr found \<and> length found = length maps
    \<and> (\<forall>p<length maps. \<forall>i. map_of (found ! p) i
        = (if i \<in> set (indices ! p) \<and> dht_infos maps i \<noteq> [] then Some (dht_infos maps i) else None))"
  using dht_end_to_end [OF assms] by blast

text \<open>C38: An index whose hash value is the largest \<open>size_t\<close> belongs to no process: for any number of processes the
  search for its process answers that number, one behind the last process.  When a process puts such an
  index in, the construction ends with an access behind the end of the table of the counts.\<close>

theorem dht_largest_hash:
  assumes "length maps \<le> nbHashIndexMax" "\<forall>m\<in>set maps. distinct (map fst m)"
    and "p < length maps" "i \<in> fst ` set (maps ! p)" "hashXIOS i = nbHashIndexMax"
  shows "construct_dht maps = Inl (UndefinedBehaviour ''read out of range'')
    \<and> (\<forall>nb. 0 < nb \<and> nb \<le> nbHashIndexMax \<longrightarrow> indexClient nb i = int nb)"
proof
  let ?n = "length maps"
  have bad: "\<not> hashed_well (maps ! p)" using assms(4,5) unfolding hashed_well_def by force
  obtain cs where cs: "otraverse (newDht ?n) [0..<?n] = Inr cs" "\<And>lv. \<forall>r<?n. dlev ?n r \<le> lv \<Longrightarrow> dht_world ?n lv cs"
    using dht_world_new [of ?n] by blast
  have w: "dht_world ?n (levels ?n) cs" using cs(2) dlev_facts(3) by blast
  have lev: "\<forall>r<?n. dlev ?n r \<le> dht_levels cs"
  proof (intro allI impI)
    fix r assume "r < ?n"
    then have "dt_level (cs ! r) = dlev ?n r" "cs ! r \<in> set cs" using w by (simp_all add: dht_world_def dht_base_def)
    then show "dlev ?n r \<le> dht_levels cs" using dht_levels_ge by metis
  qed
  have d: "\<forall>m\<in>set (well_part maps). distinct (map fst m)" "hash_ok (well_part maps)"
    using assms(2) by (auto simp: well_part_def hash_ok_def hashed_well_def)
  have "dht_holds ?n (dht_levels cs) ((!) (well_part maps)) (well_part maps)"
    using dht_holds_start [OF d, of "dht_levels cs"] lev by simp
  from distribute_max [OF assms(1,3) cs(2) [OF lev] this _ bad] lev assms(3)
  show "construct_dht maps = Inl (UndefinedBehaviour ''read out of range'')" by (simp add: construct_dht_def cs(1))
  show "\<forall>nb. 0 < nb \<and> nb \<le> nbHashIndexMax \<longrightarrow> indexClient nb i = int nb" using indexClient_max assms(5) by blast
qed

section \<open>Witnesses\<close>

lemma hash_values: "hashXIOS 3 < nbHashIndexMax" "hashXIOS 7 < nbHashIndexMax" "hashXIOS 8 < nbHashIndexMax"
  "hashXIOS 13778826395257401042 = nbHashIndexMax"
  by (simp_all add: hashXIOS_def jenkins_hash_def sizet_bytes_def nbHashIndexMax_def upt_rec Let_def)

lemma small_hashes: "hashXIOS 0 < nbHashIndexMax" "hashXIOS (Suc 0) < nbHashIndexMax" "hashXIOS 2 < nbHashIndexMax"
  by (simp_all add: hashXIOS_def jenkins_hash_def sizet_bytes_def nbHashIndexMax_def upt_rec Let_def)

text \<open>Two processes put in values for the index 7, and a process that has none asks for it.\<close>

lemma dht_answers_witness:
  "\<exists>s found. construct_dht [[(7, [10::nat]), (3, [20])], [(7, [11, 12])], []] = Inr s
    \<and> computeIndexInfoMapping s [[], [3], [7, 8, 7]] = Inr found \<and> map_of (found ! 2) 7 = Some [10, 11, 12]
    \<and> map_of (found ! 2) 8 = None \<and> map_of (found ! 1) 3 = Some [20] \<and> map_of (found ! 1) 7 = None"
proof -
  let ?maps = "[[(7, [10]), (3, [20])], [(7, [11, 12])], []] :: nat info_map list" and ?is = "[[], [3], [7, 8, 7]] :: nat list list"
  have a: "length ?maps \<le> nbHashIndexMax" "\<forall>m\<in>set ?maps. distinct (map fst m)" "hash_ok ?maps"
    "length ?is = length ?maps" "\<forall>is\<in>set ?is. hashes is"
    using hash_values by (simp_all add: nbHashIndexMax_def hash_ok_def hashes_def)
  have t: "dht_infos ?maps 7 = [10, 11, 12]" "dht_infos ?maps 8 = []" "dht_infos ?maps 3 = [20]"
    by (simp_all add: dht_infos_def infos_def)
  obtain s found where f: "construct_dht ?maps = Inr s" "computeIndexInfoMapping s ?is = Inr found"
    "\<forall>p<length ?maps. \<forall>i. map_of (found ! p) i
        = (if i \<in> set (?is ! p) \<and> dht_infos ?maps i \<noteq> [] then Some (dht_infos ?maps i) else None)"
    using dht_answers [OF a] by blast
  have "map_of (found ! 2) i = (if i \<in> set (?is ! 2) \<and> dht_infos ?maps i \<noteq> [] then Some (dht_infos ?maps i) else None)"
    "map_of (found ! 1) i = (if i \<in> set (?is ! 1) \<and> dht_infos ?maps i \<noteq> [] then Some (dht_infos ?maps i) else None)" for i
    using f(3) by simp_all
  then have "map_of (found ! 2) 7 = Some [10, 11, 12] \<and> map_of (found ! 2) 8 = None \<and> map_of (found ! 1) 3 = Some [20] \<and> map_of (found ! 1) 7 = None"
    by (simp add: t)
  with f(1,2) show ?thesis by blast
qed

text \<open>An index with the largest hash value.\<close>

lemma dht_largest_hash_witness:
  "construct_dht [[], [(13778826395257401042, [5::nat])]] = Inl (UndefinedBehaviour ''read out of range'')
    \<and> indexClient 2 13778826395257401042 = 2"
  using dht_largest_hash [of "[[], [(13778826395257401042, [5::nat])]]" 1 13778826395257401042] hash_values(4)
  by (simp add: nbHashIndexMax_def)

end
