(* ===== verification/TransformConnector.thy ===== *)
theory TransformConnector
  imports Dht Gatherer
begin

text \<open>
  The connector between the views of the processes of a communicator
  (\<open>distribution/transform_connector.*\<close>).  The processes find out by the distributed hash table which
  of them show a global index, and each builds a scatterer for what it sends and a gatherer for what
  it receives.  Every step is taken by all processes together, so the state is the list of the
  connectors of all of them, in the order of the ranks.

  The order in which the messages of different senders arrive at a process is a parameter
  (\<open>arrival\<close>), and so is what \<open>MPI_Allreduce\<close> returns in the scatterers (\<open>allreduce\<close>).
\<close>

record transform_connector =
  tc_recvRankSize :: "(int, int) std_map"
  tc_scatterer :: scatterer
  tc_gatherer :: gatherer

section \<open>Computing the connector\<close>

text \<open>What a process puts into the hash table: its rank under each index of its view.\<close>

definition tc_info :: "nat \<Rightarrow> nat list \<Rightarrow> nat info_map" where
  "tc_info rank globalIndex = fold (\<lambda>g. info_push (g, rank)) globalIndex []"

definition tc_vectorIndex :: "nat info_map \<Rightarrow> (int, nat list) std_map" where
  "tc_vectorIndex returnInfo = fold (\<lambda>(indGlo, listRank).
     fold (\<lambda>rank m. std_put (int rank) (std_at [] m (int rank) @ [indGlo]) m) listRank) returnInfo []"

definition tc_scatter :: "(int list \<Rightarrow> int list) \<Rightarrow> nat \<Rightarrow> local_view \<Rightarrow> (int, nat list) std_map \<Rightarrow> scatterer outcome" where
  "tc_scatter allreduce commSize srcView dstArrayIndex =
     obind (de_getView FULL (de_addFullView (newDistributedElement (lv_globalSize srcView) dstArrayIndex))) (\<lambda>dstView.
     sc_computeConnector allreduce srcView dstView (newScatterer (int commSize)))"

definition tc_gather :: "local_view \<Rightarrow> (int, nat list) std_map \<Rightarrow> gatherer outcome" where
  "tc_gather dstView remoteArrayIndex =
     obind (de_getView FULL (de_addFullView (newDistributedElement (lv_globalSize dstView) remoteArrayIndex))) (\<lambda>remoteView.
     ga_computeConnector remoteView dstView newGatherer)"

text \<open>\<open>nbSenders\<close> of a process, of which \<open>MPI_Reduce_scatter\<close> gives each process the sum of its entries.\<close>

definition tc_nbSenders :: "nat \<Rightarrow> (int, nat list) std_map \<Rightarrow> int list outcome" where
  "tc_nbSenders commSize dstArrayIndex =
     ofold (\<lambda>(rank, _) nbSenders. arr_set nbSenders rank 1) dstArrayIndex (replicate commSize 0)"

text \<open>The messages for a process, and the loop that receives as many as there are senders.\<close>

definition tc_messages :: "(int, 'm) std_map list \<Rightarrow> nat \<Rightarrow> (int \<times> 'm) list" where
  "tc_messages sent q = concat (map (\<lambda>p. case map_of (sent ! p) (int q) of None \<Rightarrow> [] | Some m \<Rightarrow> [(int p, m)]) [0..<length sent])"

definition tc_receive :: "int \<Rightarrow> (int \<times> nat list) list \<Rightarrow> ((int, nat list) std_map \<times> (int, int) std_map) outcome" where
  "tc_receive nbSender arrivals =
     (if int (length arrivals) = nbSender
      then Inr (fold (\<lambda>(source, recvBuff) (remoteArrayIndex, recvRankSize).
             (std_put source recvBuff remoteArrayIndex, std_put source (int (length recvBuff)) recvRankSize)) arrivals ([], []))
      else Inl (NonTermination ''MPI_Waitall''))"

definition tc_computeConnector ::
  "(nat \<Rightarrow> nat) \<Rightarrow> (nat \<Rightarrow> (int \<times> nat list) list \<Rightarrow> (int \<times> nat list) list) \<Rightarrow> (int list \<Rightarrow> int list)
     \<Rightarrow> local_view list \<Rightarrow> local_view list \<Rightarrow> transform_connector list outcome" where
  "tc_computeConnector junk arrival allreduce srcViews dstViews =
     (let commSize = length dstViews
      in obind (otraverse (lv_getGlobalIndexView junk) dstViews) (\<lambda>globalIndex.
         obind (construct_dht (map2 tc_info [0..<commSize] globalIndex)) (\<lambda>dataRanks.
         obind (otraverse (lv_getGlobalIndexView junk) srcViews) (\<lambda>globalIndex.
         obind (computeIndexInfoMapping dataRanks (map (\<lambda>gs. sorted_list_of_set (set gs)) globalIndex)) (\<lambda>returnInfo.
         let dstArrayIndex = map tc_vectorIndex returnInfo
         in obind (otraverse (\<lambda>(v, index). tc_scatter allreduce commSize v index) (zip srcViews dstArrayIndex)) (\<lambda>scatterers.
            obind (otraverse (tc_nbSenders commSize) dstArrayIndex) (\<lambda>nbSenders.
            obind (otraverse (\<lambda>q. tc_receive (sum_list (map (\<lambda>ns. ns ! q) nbSenders)) (arrival q (tc_messages dstArrayIndex q)))
                     [0..<commSize]) (\<lambda>received.
            omap (\<lambda>gatherers. map (\<lambda>(sc, got, ga). \<lparr>tc_recvRankSize = snd got, tc_scatterer = sc, tc_gatherer = ga\<rparr>)
                    (zip scatterers (zip received gatherers)))
              (otraverse (\<lambda>(v, got). tc_gather v (fst got)) (zip dstViews received))))))))))"

section \<open>Transfers\<close>

text \<open>The messages of all processes: every send needs its receive, of a buffer that is large enough, and
  every receive its send.\<close>

definition tc_matched :: "(int, int) std_map list \<Rightarrow> (int, 'a list) std_map list \<Rightarrow> bool" where
  "tc_matched recvRankSizes sent =
     (list_all (\<lambda>p. list_all (\<lambda>q. 0 \<le> q \<and> q < int (length sent) \<and> map_of (recvRankSizes ! nat q) (int p) \<noteq> None)
        (map fst (sent ! p))) [0..<length sent]
    \<and> list_all (\<lambda>q. list_all (\<lambda>p. 0 \<le> p \<and> p < int (length sent) \<and> map_of (sent ! nat p) (int q) \<noteq> None)
        (map fst (recvRankSizes ! q))) [0..<length sent])"

definition tc_irecv :: "(nat \<Rightarrow> 'a) \<Rightarrow> int \<Rightarrow> 'a list \<Rightarrow> 'a list outcome" where
  "tc_irecv junk n message =
     (if int (length message) \<le> n then Inr (message @ drop (length message) (fresh_array junk (nat n)))
      else Inl (UndefinedBehaviour ''MPI_Irecv: message too long''))"

definition tc_exchange ::
  "(nat \<Rightarrow> 'a) \<Rightarrow> nat \<Rightarrow> nat \<Rightarrow> (int, int) std_map list \<Rightarrow> (int, 'a list) std_map list \<Rightarrow> (int, 'a list) std_map list outcome" where
  "tc_exchange junk rep sizeT recvRankSizes sent =
     (if tc_matched recvRankSizes sent
      then otraverse (\<lambda>q. ofold (\<lambda>(rank, n) tmpArrayOut.
               omap (\<lambda>array. std_put rank array tmpArrayOut)
                 (tc_irecv junk (n * int rep * int sizeT) (std_at [] (sent ! nat rank) (int q))))
             (recvRankSizes ! q) []) [0..<length sent]
      else Inl (NonTermination ''MPI_Waitall''))"

definition tc_transfer ::
  "(nat \<Rightarrow> double) \<Rightarrow> transform_connector list \<Rightarrow> nat \<Rightarrow> nat \<Rightarrow> double list list \<Rightarrow> double list list \<Rightarrow> bool \<Rightarrow> double
     \<Rightarrow> double list list outcome" where
  "tc_transfer junk cs rep sizeT dataIn dataOut useMissingValue missingValue =
     obind (otraverse (\<lambda>(c, input). sc_transfer (\<lambda>_. junk) (tc_scatterer c) rep sizeT input []) (zip cs dataIn)) (\<lambda>tmpArrayIn.
     obind (tc_exchange junk rep sizeT (map tc_recvRankSize cs) tmpArrayIn) (\<lambda>tmpArrayOut.
     otraverse (\<lambda>(c, tmp, output).
         if useMissingValue then ga_transfer_missing (tc_gatherer c) rep sizeT tmp missingValue RNone
         else ga_transfer junk (tc_gatherer c) rep sizeT tmp output RNone)
       (zip cs (zip tmpArrayOut dataOut))))"

text \<open>The other signatures.  The ones with a number of repetitions hand on 1 in its place.\<close>

definition tc_transfer_repeat ::
  "(nat \<Rightarrow> double) \<Rightarrow> transform_connector list \<Rightarrow> nat \<Rightarrow> nat \<Rightarrow> double list list \<Rightarrow> double list list \<Rightarrow> double
     \<Rightarrow> double list list outcome" where
  "tc_transfer_repeat junk cs rep sizeT dataIn dataOut missingValue =
     tc_transfer junk cs 1 sizeT dataIn dataOut False missingValue"

definition tc_transfer_repeat_missing ::
  "(nat \<Rightarrow> double) \<Rightarrow> transform_connector list \<Rightarrow> nat \<Rightarrow> nat \<Rightarrow> double list list \<Rightarrow> double list list \<Rightarrow> double
     \<Rightarrow> double list list outcome" where
  "tc_transfer_repeat_missing junk cs rep sizeT dataIn dataOut missingValue =
     tc_transfer junk cs 1 sizeT dataIn dataOut True missingValue"

definition tc_transfer_block where
  "tc_transfer_block junk cs sizeT dataIn dataOut missingValue = tc_transfer_repeat junk cs 1 sizeT dataIn dataOut missingValue"

definition tc_transfer_block_missing where
  "tc_transfer_block_missing junk cs sizeT dataIn dataOut missingValue =
     tc_transfer_repeat_missing junk cs 1 sizeT dataIn dataOut missingValue"

definition tc_transfer_flat where
  "tc_transfer_flat junk cs dataIn dataOut missingValue = tc_transfer_repeat junk cs 1 1 dataIn dataOut missingValue"

definition tc_transfer_flat_missing where
  "tc_transfer_flat_missing junk cs dataIn dataOut missingValue =
     tc_transfer_repeat_missing junk cs 1 1 dataIn dataOut missingValue"

end
