(* ===== verification/TransformProps.thy ===== *)
theory TransformProps
  imports TransformConnector DhtClaims GathererClaims
begin

text \<open>
  The connectors between processes: each process sends to another exactly the indices both show, and
  gathering writes them at the positions where the receiver shows them.
\<close>

section \<open>Maps\<close>

lemma in_order_eqI:
  assumes "in_order m" "in_order m'" "map_of m = map_of m'"
  shows "m = m'"
proof -
  have "set (map fst m) = set (map fst m')" using assms(3) by (metis dom_map_of_conv_image_fst set_map)
  then have k: "map fst m = map fst m'"
    using assms(1,2) by (intro sorted_distinct_set_unique) (simp_all add: in_order_def)
  show ?thesis
  proof (rule nth_equalityI)
    show "length m = length m'" using k by (metis length_map)
    fix i assume i: "i < length m"
    then have i': "i < length m'" "fst (m ! i) = fst (m' ! i)" using k by (metis length_map, metis nth_map length_map)
    have "map_of m (fst (m ! i)) = Some (snd (m ! i))" "map_of m' (fst (m' ! i)) = Some (snd (m' ! i))"
      by (rule in_order_map_of [OF assms(1)] in_order_map_of [OF assms(2)], use i i'(1) in simp)+
    with i'(2) assms(3) show "m ! i = m' ! i" by (simp add: prod_eq_iff)
  qed
qed

text \<open>A map that is put together in any order.\<close>

lemma fold_put_mset:
  assumes "in_order m" "mset xs = mset m"
  shows "fold (\<lambda>(k, v). std_put k (f v)) xs [] = map (\<lambda>(k, v). (k, f v)) m"
proof (rule in_order_eqI)
  show "in_order (fold (\<lambda>(k, v). std_put k (f v)) xs [])"
    using in_order_fold [of "[]" fst "f \<circ> snd" xs] by (simp add: case_prod_beta')
  show "in_order (map (\<lambda>(k, v). (k, f v)) m)" by (rule in_order_map [OF assms(1)])
  have d: "distinct (map fst m)" "set xs = set m" using assms by (auto simp: in_order_def dest: mset_eq_setD)
  show "map_of (fold (\<lambda>(k, v). std_put k (f v)) xs []) = map_of (map (\<lambda>(k, v). (k, f v)) m)"
  proof
    fix k
    have u: "fold (\<lambda>(k, v). std_put k (f v)) xs [] = fold (\<lambda>x. std_put (fst x) (f (snd x))) xs []" by (simp add: case_prod_beta')
    show "map_of (fold (\<lambda>(k, v). std_put k (f v)) xs []) k = map_of (map (\<lambda>(k, v). (k, f v)) m) k"
    proof (cases "map_of m k")
      case None
      then have "k \<notin> fst ` set xs" by (simp add: d map_of_eq_None_iff)
      then have "map_of (fold (\<lambda>x. std_put (fst x) (f (snd x))) xs []) k = None"
        by (subst std.lookup_fold_None) simp_all
      with None u show ?thesis by (simp add: map_of_map_snd)
    next
      case (Some v)
      then have kv: "(k, v) \<in> set xs" using d map_of_SomeD by metis
      have "map_of (fold (\<lambda>x. std_put (fst x) (f (snd x))) xs []) (fst (k, v)) = Some (f (snd (k, v)))"
      proof (rule std.lookup_fold_distinct [OF kv])
        fix y assume "y \<in> set xs" "fst y = fst (k, v)"
        then have "(k, snd y) \<in> set m" using d(2) by (metis fst_conv prod.collapse)
        then have "map_of m k = Some (snd y)" using d(1) by simp
        with Some show "f (snd y) = f (snd (k, v))" by simp
      qed
      with Some u show ?thesis by (simp add: map_of_map_snd)
    qed
  qed
qed

section \<open>Questions and answers\<close>

lemma tc_info_eq: "tc_info rank gs = fold info_push (map (\<lambda>g. (g, rank)) gs) []"
  by (simp add: tc_info_def fold_map comp_def)

lemma tc_info_facts:
  "distinct (map fst (tc_info rank gs))" "fst ` set (tc_info rank gs) = set gs"
  "set (infos (tc_info rank gs) g) = (if g \<in> set gs then {rank} else {})"
proof -
  show "distinct (map fst (tc_info rank gs))" "fst ` set (tc_info rank gs) = set gs"
    using info_ok_push [OF info_ok_Nil, of "map (\<lambda>g. (g, rank)) gs"] by (simp_all add: tc_info_eq info_ok_def keys_push image_image)
  have "infos (tc_info rank gs) g = map (\<lambda>_. rank) (filter (\<lambda>h. h = g) gs)"
    by (simp add: tc_info_eq infos_push infos_def [of "[]"] filter_map comp_def)
  then show "set (infos (tc_info rank gs) g) = (if g \<in> set gs then {rank} else {})" by auto
qed

lemma dht_infos_set:
  assumes "length gss = n"
  shows "set (dht_infos (map2 tc_info [0..<n] gss) g) = {p. p < n \<and> g \<in> set (gss ! p)}"
proof -
  have "set (dht_infos (map2 tc_info [0..<n] gss) g) = (\<Union>p\<in>{..<n}. set (infos (tc_info p (gss ! p)) g))"
  proof -
    have "map2 tc_info [0..<n] gss = map (\<lambda>p. tc_info p (gss ! p)) [0..<n]"
      by (rule nth_equalityI) (use assms in simp_all)
    then show ?thesis by (auto simp: dht_infos_def)
  qed
  also have "\<dots> = {p. p < n \<and> g \<in> set (gss ! p)}" by (auto simp: tc_info_facts(3) split: if_splits)
  finally show ?thesis .
qed

text \<open>Appending to the vectors of a map.\<close>

definition std_append :: "'k::linorder \<times> 'v \<Rightarrow> ('k, 'v list) std_map \<Rightarrow> ('k, 'v list) std_map" where
  "std_append = (\<lambda>(k, v) m. std_put k (std_at [] m k @ [v]) m)"

lemma std_at_append:
  "std_at [] (fold std_append kvs m) k = std_at [] m k @ map snd (filter (\<lambda>(l, v). l = k) kvs)"
proof (induction kvs arbitrary: m)
  case (Cons kv kvs)
  obtain l v where kv: "kv = (l, v)" by (cases kv)
  have "std_at [] (std_append kv m) k = std_at [] m k @ (if l = k then [v] else [])"
    by (simp add: kv std_append_def std_at_def map_of_std_put)
  with Cons.IH [of "std_append kv m"] show ?case by (simp add: kv)
qed simp

lemma keys_append: "fst ` set (fold std_append kvs m) = fst ` set m \<union> fst ` set kvs"
  by (induction kvs arbitrary: m) (simp_all add: std_append_def set_fst_std_put case_prod_beta)

lemma in_order_append: "in_order m \<Longrightarrow> in_order (fold std_append kvs m)"
  by (induction kvs arbitrary: m) (auto simp: std_append_def)

lemma tc_vectorIndex_eq:
  "tc_vectorIndex m = fold std_append (concat (map (\<lambda>(g, rs). map (\<lambda>r. (int r, g)) rs) m)) []"
proof -
  have "fold (\<lambda>(indGlo, listRank). fold (\<lambda>rank m. std_put (int rank) (std_at [] m (int rank) @ [indGlo]) m) listRank) m acc
      = fold std_append (concat (map (\<lambda>(g, rs). map (\<lambda>r. (int r, g)) rs) m)) acc" for acc
    by (induction m arbitrary: acc) (auto simp: fold_map comp_def std_append_def)
  then show ?thesis by (simp add: tc_vectorIndex_def)
qed

lemma tc_vectorIndex_facts:
  assumes "distinct (map fst m)"
  shows "in_order (tc_vectorIndex m)"
    and "(k, ix) \<in> set (tc_vectorIndex m) \<Longrightarrow> ix \<noteq> [] \<and> set ix = {g. \<exists>r\<in>set (infos m g). k = int r}"
    and "k \<in> fst ` set (tc_vectorIndex m) \<longleftrightarrow> (\<exists>g. \<exists>r\<in>set (infos m g). k = int r)"
proof -
  let ?kvs = "concat (map (\<lambda>(g, rs). map (\<lambda>r. (int r, g)) rs) m)"
  show o: "in_order (tc_vectorIndex m)" by (simp add: tc_vectorIndex_eq in_order_append)
  have pairs: "(k, g) \<in> set ?kvs \<longleftrightarrow> (\<exists>r\<in>set (infos m g). k = int r)" for k g
  proof -
    have "(k, g) \<in> set ?kvs \<longleftrightarrow> (\<exists>rs. (g, rs) \<in> set m \<and> k \<in> int ` set rs)" by force
    also have "\<dots> \<longleftrightarrow> (\<exists>rs. map_of m g = Some rs \<and> k \<in> int ` set rs)" using assms by simp
    also have "\<dots> \<longleftrightarrow> (\<exists>r\<in>set (infos m g). k = int r)"
      by (cases "map_of m g") (auto simp: infos_def)
    finally show ?thesis .
  qed
  show keys: "k \<in> fst ` set (tc_vectorIndex m) \<longleftrightarrow> (\<exists>g. \<exists>r\<in>set (infos m g). k = int r)" for k
  proof -
    have "k \<in> fst ` set (tc_vectorIndex m) \<longleftrightarrow> (\<exists>g. (k, g) \<in> set ?kvs)"
      unfolding tc_vectorIndex_eq keys_append by (auto simp del: set_concat) (metis fst_conv image_eqI)
    then show ?thesis by (simp only: pairs)
  qed
  assume k: "(k, ix) \<in> set (tc_vectorIndex m)"
  then have "map_of (tc_vectorIndex m) k = Some ix" by (rule in_order_map_of [OF o])
  then have "ix = map snd (filter (\<lambda>(l, v). l = k) ?kvs)"
    using std_at_append [of ?kvs "[]" k] by (simp add: tc_vectorIndex_eq std_at_def)
  then have "set ix = {g. (k, g) \<in> set ?kvs}" by force
  then have s: "set ix = {g. \<exists>r\<in>set (infos m g). k = int r}" by (simp only: pairs)
  moreover have "k \<in> fst ` set (tc_vectorIndex m)" using k by force
  ultimately show "ix \<noteq> [] \<and> set ix = {g. \<exists>r\<in>set (infos m g). k = int r}" using keys [of k] by force
qed

section \<open>Views of what is sent\<close>

definition full_index :: "(int, nat list) std_map \<Rightarrow> (int, int list) std_map" where
  "full_index = map (\<lambda>(r, ix). (r, map int [0..<length ix]))"

lemma full_view:
  assumes "in_order m"
  obtains v where "de_getView FULL (de_addFullView (newDistributedElement n m)) = Inr v"
    "dv_index v = full_index m" "dv_globalIndex v = m"
proof -
  let ?e = "newDistributedElement n m"
  have e: "de_globalIndex ?e = m" "de_views ?e FULL = None"
    using fold_put_same [OF assms] by (simp_all add: newDistributedElement_def)
  have f: "fold (\<lambda>(rank, ix). std_put rank (map int [0..<length ix])) m [] = full_index m"
    unfolding full_index_def by (rule fold_put_id [OF assms])
  have o: "in_order (full_index m)" unfolding full_index_def by (rule in_order_map [OF assms])
  show thesis
    by (rule that [of "newDistributedView ?e (full_index m)"])
      (simp_all add: de_addFullView_def de_addView_def de_getView_def e f newDistributedView_def fold_put_same [OF o])
qed

lemma cells_full: "cells (map int [0..<length ix]) ix = map Some ix"
  by (rule nth_equalityI) (simp_all add: cells_nth)

lemma full_index_mem: "(r, index) \<in> set (full_index m) \<longleftrightarrow> (\<exists>ix. (r, ix) \<in> set m \<and> index = map int [0..<length ix])"
  by (auto simp: full_index_def)

lemma full_index_keys [simp]: "fst ` set (full_index m) = fst ` set m"
  by (simp add: full_index_def)

text \<open>The cells two processes share.\<close>

definition shared :: "local_view \<Rightarrow> local_view \<Rightarrow> nat set" where
  "shared src dst = {g. Some g \<in> set (lv_cells src) \<and> Some g \<in> set (lv_cells dst)}"

text \<open>What the processes have agreed upon: each sends to each other, in some order and perhaps more than
  once, the cells they share.\<close>

definition tc_links :: "local_view list \<Rightarrow> local_view list \<Rightarrow> (int, nat list) std_map list \<Rightarrow> bool" where
  "tc_links srcs dsts D \<longleftrightarrow> length D = length dsts \<and> length srcs = length dsts
    \<and> (\<forall>p<length dsts. in_order (D ! p)
        \<and> (\<forall>(r, ix)\<in>set (D ! p). 0 \<le> r \<and> r < int (length dsts) \<and> ix \<noteq> [] \<and> set ix = shared (srcs ! p) (dsts ! nat r))
        \<and> (\<forall>q<length dsts. shared (srcs ! p) (dsts ! q) \<noteq> {} \<longrightarrow> int q \<in> fst ` set (D ! p)))"

lemma tc_links_facts:
  assumes "tc_links srcs dsts D" "p < length dsts"
  shows "in_order (D ! p)" "\<And>r. r \<in> fst ` set (D ! p) \<Longrightarrow> 0 \<le> r \<and> r < int (length dsts)"
    "\<And>r ix. (r, ix) \<in> set (D ! p) \<Longrightarrow> ix \<noteq> [] \<and> set ix = shared (srcs ! p) (dsts ! nat r)"
    "\<And>q. q < length dsts \<Longrightarrow> int q \<in> fst ` set (D ! p) \<longleftrightarrow> shared (srcs ! p) (dsts ! q) \<noteq> {}"
proof -
  have l: "in_order (D ! p)"
    "\<And>r ix. (r, ix) \<in> set (D ! p) \<Longrightarrow> 0 \<le> r \<and> r < int (length dsts) \<and> ix \<noteq> [] \<and> set ix = shared (srcs ! p) (dsts ! nat r)"
    "\<And>q. q < length dsts \<Longrightarrow> shared (srcs ! p) (dsts ! q) \<noteq> {} \<Longrightarrow> int q \<in> fst ` set (D ! p)"
    using assms unfolding tc_links_def by blast+
  show "in_order (D ! p)" by (rule l(1))
  show "0 \<le> r \<and> r < int (length dsts)" if "r \<in> fst ` set (D ! p)" for r using l(2) that by auto
  show "ix \<noteq> [] \<and> set ix = shared (srcs ! p) (dsts ! nat r)" if "(r, ix) \<in> set (D ! p)" for r ix using l(2) [OF that] by blast
  show "int q \<in> fst ` set (D ! p) \<longleftrightarrow> shared (srcs ! p) (dsts ! q) \<noteq> {}" if "q < length dsts" for q
  proof
    assume "int q \<in> fst ` set (D ! p)"
    then obtain ix where "(int q, ix) \<in> set (D ! p)" by auto
    from l(2) [OF this] have "ix \<noteq> []" "set ix = shared (srcs ! p) (dsts ! q)" by simp_all
    then show "shared (srcs ! p) (dsts ! q) \<noteq> {}" by force
  qed (use l(3) that in blast)
qed

section \<open>Messages\<close>

text \<open>The columns of the messages of all processes.\<close>

lemma tc_messages_mem:
  "(k, m) \<in> set (tc_messages sent q) \<longleftrightarrow> (\<exists>p<length sent. k = int p \<and> map_of (sent ! p) (int q) = Some m)"
  by (force simp: tc_messages_def split: option.splits)

lemma tc_messages_order: "in_order (tc_messages sent q)"
proof -
  let ?F = "\<lambda>p. case map_of (sent ! p) (int q) of None \<Rightarrow> [] | Some m \<Rightarrow> [(int p, m)]"
  have "in_order (concat (map ?F [0..<n])) \<and> (\<forall>k\<in>fst ` set (concat (map ?F [0..<n])). k < int n)" for n
  proof (induction n)
    case (Suc n)
    let ?xs = "concat (map ?F [0..<n])"
    have eq: "concat (map ?F [0..<Suc n]) = ?xs @ ?F n" by simp
    show ?case
    proof (cases "map_of (sent ! n) (int q)")
      case None
      then show ?thesis using Suc unfolding eq by force
    next
      case (Some m)
      have put: "std_put (int n) m ?xs = ?xs @ ?F n" using Suc Some by (simp add: std_put_last)
      have "in_order (std_put (int n) m ?xs)" by (rule in_order_std_put) (rule Suc [THEN conjunct1])
      then have "in_order (?xs @ ?F n)" by (simp only: put)
      moreover have "\<forall>k\<in>fst ` set (?xs @ ?F n). k < int (Suc n)"
      proof -
        have "fst ` set (?xs @ ?F n) = insert (int n) (fst ` set ?xs)" unfolding put [symmetric] by (rule set_fst_std_put)
        with Suc show ?thesis by force
      qed
      ultimately show ?thesis unfolding eq by blast
    qed
  qed simp
  then show ?thesis by (simp add: tc_messages_def)
qed

lemma tc_messages_length:
  "int (length (tc_messages sent q)) = sum_list (map (\<lambda>p. if int q \<in> fst ` set (sent ! p) then 1 else 0) [0..<length sent])"
proof -
  have "int (length (concat (map (\<lambda>p. case map_of (sent ! p) (int q) of None \<Rightarrow> [] | Some m \<Rightarrow> [(int p, m)]) ps)))
      = sum_list (map (\<lambda>p. if int q \<in> fst ` set (sent ! p) then 1 else 0) ps)" for ps
  proof (induction ps)
    case (Cons p ps)
    have "map_of (sent ! p) (int q) = None \<longleftrightarrow> int q \<notin> fst ` set (sent ! p)" by (rule map_of_eq_None_iff)
    with Cons show ?case by (cases "map_of (sent ! p) (int q)") simp_all
  qed simp
  then show ?thesis by (simp add: tc_messages_def)
qed

lemma tc_nbSenders_eq:
  assumes "\<forall>r\<in>fst ` set m. 0 \<le> r \<and> r < int n"
  shows "tc_nbSenders n m = Inr (map (\<lambda>q. if int q \<in> fst ` set m then 1 else 0) [0..<n])"
proof -
  have "ofold (\<lambda>(rank, _) nbSenders. arr_set nbSenders rank 1) m (map (\<lambda>q. if int q \<in> A then 1 else 0) [0..<n])
      = Inr (map (\<lambda>q. if int q \<in> A \<union> fst ` set m then 1 else (0::int)) [0..<n])" for A
    using assms
  proof (induction m arbitrary: A)
    case (Cons e m)
    obtain k v where e: "e = (k, v)" by (cases e)
    with Cons.prems have k: "0 \<le> k" "k < int n" by simp_all
    then have "(map (\<lambda>q. if int q \<in> A then 1 else 0) [0..<n])[nat k := 1]
        = map (\<lambda>q. if int q \<in> insert k A then 1 else (0::int)) [0..<n]"
      by (intro nth_equalityI) (auto simp: nth_list_update)
    with Cons.IH [of "insert k A"] Cons.prems k show ?case by (simp add: e)
  qed simp
  from this [of "{}"] show ?thesis by (simp add: tc_nbSenders_def map_replicate_const)
qed

lemma tc_receive_eq:
  assumes "mset arrivals = mset (tc_messages D q)"
  shows "tc_receive (int (length (tc_messages D q))) arrivals
    = Inr (tc_messages D q, map (\<lambda>(p, ix). (p, int (length ix))) (tc_messages D q))"
proof -
  have "fold (\<lambda>(source, recvBuff) (remoteArrayIndex, recvRankSize).
      (std_put source recvBuff remoteArrayIndex, std_put source (int (length recvBuff)) recvRankSize)) xs (a, b)
    = (fold (\<lambda>(k, v). std_put k v) xs a, fold (\<lambda>(k, v). std_put k (int (length v))) xs b)"
    for xs :: "(int \<times> nat list) list" and a b
    by (induction xs arbitrary: a b) auto
  moreover have "length arrivals = length (tc_messages D q)" using assms by (metis size_mset)
  ultimately show ?thesis
    using fold_put_mset [OF tc_messages_order assms, of "\<lambda>v. v"] fold_put_mset [OF tc_messages_order assms, of "\<lambda>v. int (length v)"]
    by (simp add: tc_receive_def case_prod_beta')
qed

end
