(* ===== verification/TransformTransfer.thy ===== *)
theory TransformTransfer
  imports TransformProps
begin

text \<open>
  What a gatherer without reduction leaves in a cell: the value of the last rank whose view shows the
  global index of the cell.
\<close>

section \<open>Computing the gatherer\<close>

lemma gather_fold:
  assumes "in_order m" "\<forall>k\<in>fst ` set m. \<forall>l\<in>fst ` set cs. l < k" "\<forall>k\<in>fst ` set m. \<forall>l\<in>fst ` set ms. l < k"
  shows "fold (\<lambda>(rank, index) ga.
        let (connector, msk) = match_index (\<lambda>g. map_option int (position_of dsts g)) (gs rank) index
                                 (std_at [] (ga_connector ga) rank, std_at [] (ga_mask ga) rank)
        in ga\<lparr>ga_connector := std_put rank connector (ga_connector ga), ga_mask := std_put rank msk (ga_mask ga)\<rparr>)
      m (ga\<lparr>ga_connector := cs, ga_mask := ms\<rparr>)
    = ga\<lparr>ga_connector := cs @ map (\<lambda>(rank, index). (rank, map int (shown (sources dsts (cells index (gs rank)))))) m,
         ga_mask := ms @ map (\<lambda>(rank, index). (rank, map (\<lambda>e. e \<noteq> None) (sources dsts (cells index (gs rank))))) m\<rparr>"
  using assms
proof (induction m arbitrary: cs ms)
  case (Cons e m)
  obtain k v where e: "e = (k, v)" by (cases e)
  let ?es = "sources dsts (cells v (gs k))"
  let ?cs = "cs @ [(k, map int (shown ?es))]" and ?ms = "ms @ [(k, map (\<lambda>e. e \<noteq> None) ?es)]"
  have "std_at [] cs k = []" "std_at [] ms k = []" using Cons.prems(2,3) e by (auto intro!: std_at_less)
  moreover have "std_put k (map int (shown ?es)) cs = ?cs" "std_put k (map (\<lambda>e. e \<noteq> None) ?es) ms = ?ms"
    using Cons.prems(2,3) e by (auto intro!: std_put_last)
  moreover have "in_order m" "\<forall>k'\<in>fst ` set m. \<forall>l\<in>fst ` set ?cs. l < k'" "\<forall>k'\<in>fst ` set m. \<forall>l\<in>fst ` set ?ms. l < k'"
    using Cons.prems by (auto simp: e in_order_Cons)
  note Cons.IH [OF this]
  ultimately show ?case by (simp add: e match_index_eq Let_def del: not_None_eq)
qed simp

text \<open>The positions of the local view for the entries of an array of global indices.\<close>

definition landings :: "local_view \<Rightarrow> nat list \<Rightarrow> nat option list" where
  "landings dst ix = map (position_of (lv_cells dst)) ix"

lemma length_landings [simp]: "length (landings dst ix) = length ix"
  by (simp add: landings_def)

lemma landings_less: "Some c \<in> set (landings dst ix) \<Longrightarrow> c < length (lv_index dst)"
  by (auto simp: landings_def lv_cells_def dest!: sym [of "Some c"] dest: position_of_Some)

lemma sources_Some: "sources cs (map Some ix) = map (position_of cs) ix"
  by (simp add: sources_def)

definition tc_gathers :: "local_view \<Rightarrow> (int, nat list) std_map \<Rightarrow> gatherer \<Rightarrow> bool" where
  "tc_gathers dst remote ga \<longleftrightarrow> ga_dstSize ga = int (length (lv_index dst))
    \<and> (\<forall>(r, ix)\<in>set remote. std_at [] (ga_mask ga) r = map (\<lambda>e. e \<noteq> None) (landings dst ix)
        \<and> std_at [] (ga_connector ga) r = map int (shown (landings dst ix)))"

lemma tc_gather_eq:
  assumes "lv_ok dst" "in_order remote"
  shows "\<exists>ga. tc_gather dst remote = Inr ga \<and> tc_gathers dst remote ga"
proof -
  obtain v where v: "de_getView FULL (de_addFullView (newDistributedElement (lv_globalSize dst) remote)) = Inr v"
    "dv_index v = full_index remote" "dv_globalIndex v = remote"
    by (rule full_view [OF assms(2)])
  have o: "in_order (full_index remote)" unfolding full_index_def by (rule in_order_map [OF assms(2)])
  define ga0 where "ga0 = newGatherer\<lparr>ga_srcSize := fold (\<lambda>(rank, index). std_put rank (int (length index))) (full_index remote) (ga_srcSize newGatherer),
                 ga_dstSize := int (length (lv_index dst))\<rparr>"
  have e: "ga0\<lparr>ga_connector := [], ga_mask := []\<rparr> = ga0" by (simp add: ga0_def newGatherer_def)
  define F where "F = (\<lambda>rank index. sources (lv_cells dst) (cells index (std_at [] remote rank)))"
  define ga where "ga = ga0\<lparr>ga_connector := map (\<lambda>(rank, index). (rank, map int (shown (F rank index)))) (full_index remote),
         ga_mask := map (\<lambda>(rank, index). (rank, map (\<lambda>e. e \<noteq> None) (F rank index))) (full_index remote)\<rparr>"
  have pos: "global_positions (int (length (lv_globalIndex dst))) (lv_index dst) (lv_globalIndex dst)
      = Inr (\<lambda>g. map_option int (position_of (lv_cells dst) g))"
    unfolding lv_cells_def by (rule global_positions_eq) simp
  have ok: "tc_gather dst remote = Inr ga"
    using gather_fold [OF o, of "[]" "[]" "lv_cells dst" "std_at [] remote" ga0]
    by (simp add: tc_gather_def v(1) ga_computeConnector_def pos v(2,3) e ga_def F_def flip: ga0_def del: not_None_eq)
  moreover have "tc_gathers dst remote ga"
  proof -
    have "std_at [] (ga_mask ga) r = map (\<lambda>e. e \<noteq> None) (landings dst ix)
        \<and> std_at [] (ga_connector ga) r = map int (shown (landings dst ix))" if m: "(r, ix) \<in> set remote" for r ix
    proof -
      have at: "map_of remote r = Some ix" by (rule in_order_map_of [OF assms(2) m])
      have "(r, map int [0..<length ix]) \<in> set (full_index remote)" using m by (auto simp: full_index_mem)
      from in_order_map_of [OF o this] have f: "map_of (full_index remote) r = Some (map int [0..<length ix])" .
      have "F r (map int [0..<length ix]) = landings dst ix"
        by (simp add: F_def std_at_def at cells_full sources_Some landings_def)
      with f show ?thesis by (simp add: ga_def std_at_map del: not_None_eq)
    qed
    then show ?thesis by (auto simp: tc_gathers_def ga_def ga0_def)
  qed
  ultimately show ?thesis by blast
qed

section \<open>The cells a transfer writes\<close>

lemma copy_block_puts:
  fixes input out :: "'a list"
  assumes "p + n \<le> length input" "q + n \<le> length out"
  shows "copy_block input (int p) (int q) n out = Inr (arrive put_cell (map (\<lambda>k. (q + k, input ! (p + k))) [0..<n]) out)"
proof -
  have "copy_block input (int p) (int q) n out
      = Inr (arrive put_cell (concat (map (\<lambda>k. [(q + k, input ! (p + k))]) [0..<n])) out)"
    unfolding copy_block_def
  proof (rule ofold_arrive [where P = "\<lambda>s. length s = length out"])
    fix k and s :: "'a list" assume k: "k \<in> set [0..<n]" and s: "length s = length out"
    have "arr_get input (int p + int k) = Inr (input ! (p + k))" using k assms(1) by (simp flip: of_nat_add)
    moreover have "arr_set s (int q + int k) x = Inr (s[q + k := x])" for x
      using k s assms(2) by (simp add: arr_set_def flip: of_nat_add)
    ultimately show "obind (arr_get input (int p + int k)) (arr_set s (int q + int k)) = Inr (arrive put_cell [(q + k, input ! (p + k))] s)"
      by (simp add: put_cell_def)
  qed simp_all
  then show ?thesis by (simp add: concat_map_singleton)
qed

definition rank_puts :: "nat \<Rightarrow> nat \<Rightarrow> nat \<Rightarrow> nat option list \<Rightarrow> 'a list \<Rightarrow> (nat \<times> 'a) list" where
  "rank_puts rep sizeT N es input = concat (map (\<lambda>l. concat (map (\<lambda>i. case es ! i of None \<Rightarrow> []
     | Some c \<Rightarrow> map (\<lambda>k. ((l * N + c) * sizeT + k, input ! ((l * length es + i) * sizeT + k))) [0..<sizeT])
     [0..<length es])) [0..<rep])"

lemma block_room: "i < n \<Longrightarrow> l < rep \<Longrightarrow> (l * n + i) * sizeT + sizeT \<le> rep * (n * (sizeT::nat))"
proof -
  assume a: "i < n" "l < rep"
  have "Suc (l * n + i) * sizeT \<le> rep * n * sizeT" using block_index_bounds [OF a(2,1)] by (intro mult_le_mono1) simp
  then show ?thesis by (simp add: mult.assoc)
qed

lemma rank_loop:
  fixes input out :: "'a list"
  assumes "\<forall>c. Some c \<in> set es \<longrightarrow> c < N" "length input = rep * (length es * sizeT)" "length out = rep * (N * sizeT)"
  shows "ofold (\<lambda>l. masked_loop False (map (\<lambda>e. e \<noteq> None) es) (map int (shown es))
            (\<lambda>i c. copy_block input (int l * (int (length es) * int sizeT) + int i * int sizeT)
                     (int l * (int N * int sizeT) + c * int sizeT) sizeT)
            (\<lambda>i. Inr)) [0..<rep] out = Inr (arrive put_cell (rank_puts rep sizeT N es input) out)"
  unfolding rank_puts_def
proof (rule ofold_arrive [where P = "\<lambda>s. length s = length out"])
  fix l and s :: "'a list" assume l: "l \<in> set [0..<rep]" and s: "length s = length out"
  let ?g = "\<lambda>i c. map (\<lambda>k. ((l * N + nat c) * sizeT + k, input ! ((l * length es + i) * sizeT + k))) [0..<sizeT]"
  have ex: "expand (map (\<lambda>e. e \<noteq> None) es) (map int (shown es)) = map (map_option int) es" by (rule expand_sources)
  have "masked_loop False (map (\<lambda>e. e \<noteq> None) es) (map int (shown es))
            (\<lambda>i c. copy_block input (int l * (int (length es) * int sizeT) + int i * int sizeT)
                     (int l * (int N * int sizeT) + c * int sizeT) sizeT) (\<lambda>i s. Inr s) s
    = Inr (arrive put_cell (concat (map (\<lambda>i. case expand (map (\<lambda>e. e \<noteq> None) es) (map int (shown es)) ! i of None \<Rightarrow> [] | Some c \<Rightarrow> ?g i c)
        [0..<length (map (\<lambda>e. e \<noteq> None) es)])) s)"
  proof (rule masked_loop_arrive [where P = "\<lambda>s. length s = length out"])
    fix i c and s' :: "'a list"
    assume i: "i < length (map (\<lambda>e. e \<noteq> None) es)" "expand (map (\<lambda>e. e \<noteq> None) es) (map int (shown es)) ! i = Some c"
      and s': "length s' = length out"
    then obtain d where d: "es ! i = Some d" "c = int d" by (auto simp: ex simp del: not_None_eq)
    then have dN: "d < N" using assms(1) i(1) nth_mem by (metis length_map)
    have r: "(l * length es + i) * sizeT + sizeT \<le> length input" "(l * N + d) * sizeT + sizeT \<le> length s'"
      using block_room [of i "length es" l rep sizeT] block_room [OF dN, of l rep sizeT] i(1) l assms(2,3) s' by simp_all
    have "int l * (int (length es) * int sizeT) + int i * int sizeT = int ((l * length es + i) * sizeT)"
      "int l * (int N * int sizeT) + c * int sizeT = int ((l * N + d) * sizeT)" by (simp_all add: d(2) algebra_simps)
    with copy_block_puts [OF r] d(2)
    show "copy_block input (int l * (int (length es) * int sizeT) + int i * int sizeT)
        (int l * (int N * int sizeT) + c * int sizeT) sizeT s' = Inr (arrive put_cell (?g i c) s')" by simp
  qed (use s in \<open>simp_all add: wanted_sources del: not_None_eq\<close>)
  moreover have "map (\<lambda>i. case expand (map (\<lambda>e. e \<noteq> None) es) (map int (shown es)) ! i of None \<Rightarrow> [] | Some c \<Rightarrow> ?g i c)
        [0..<length (map (\<lambda>e. e \<noteq> None) es)]
      = map (\<lambda>i. case es ! i of None \<Rightarrow> []
     | Some c \<Rightarrow> map (\<lambda>k. ((l * N + c) * sizeT + k, input ! ((l * length es + i) * sizeT + k))) [0..<sizeT]) [0..<length es]"
    unfolding ex by (auto split: option.split)
  ultimately show "masked_loop False (map (\<lambda>e. e \<noteq> None) es) (map int (shown es))
            (\<lambda>i c. copy_block input (int l * (int (length es) * int sizeT) + int i * int sizeT)
                     (int l * (int N * int sizeT) + c * int sizeT) sizeT) (\<lambda>i. Inr) s
    = Inr (arrive put_cell (concat (map (\<lambda>i. case es ! i of None \<Rightarrow> []
     | Some c \<Rightarrow> map (\<lambda>k. ((l * N + c) * sizeT + k, input ! ((l * length es + i) * sizeT + k))) [0..<sizeT])
     [0..<length es])) s)" by (simp only:)
qed simp_all

lemma rank_puts_mem:
  "(d, x) \<in> set (rank_puts rep sizeT N es input) \<longleftrightarrow> (\<exists>l<rep. \<exists>i<length es. \<exists>c. es ! i = Some c
     \<and> (\<exists>k < sizeT. d = (l * N + c) * sizeT + k \<and> x = input ! ((l * length es + i) * sizeT + k)))"
  by (force simp: rank_puts_def split: option.splits)

lemma arriving_mem: "x \<in> set (arriving d us) \<longleftrightarrow> (d, x) \<in> set us"
  by (force simp: arriving_def)

text \<open>All values a rank sends to a cell are the same when its array shows the cell with one value.\<close>

lemma rank_puts_cell:
  assumes "l < rep" "c < N" "k < sizeT" "\<forall>c. Some c \<in> set es \<longrightarrow> c < N"
    and "\<And>i. i < length es \<Longrightarrow> es ! i = Some c \<Longrightarrow> input ! ((l * length es + i) * sizeT + k) = v"
  shows "set (arriving ((l * N + c) * sizeT + k) (rank_puts rep sizeT N es input)) = (if Some c \<in> set es then {v} else {})"
proof -
  have inj: "l' = l \<and> d = c \<and> k' = k" if "(l * N + c) * sizeT + k = (l' * N + d) * sizeT + k'" "k' < sizeT" "d < N" for l' d k'
    using block_index_inj [OF that(1) assms(3) that(2)] block_index_inj [of l N c l' d] assms(2) that(3) by metis
  have "x \<in> set (arriving ((l * N + c) * sizeT + k) (rank_puts rep sizeT N es input)) \<longleftrightarrow> Some c \<in> set es \<and> x = v" for x
  proof
    assume "x \<in> set (arriving ((l * N + c) * sizeT + k) (rank_puts rep sizeT N es input))"
    then obtain l' i d k' where p: "i < length es" "es ! i = Some d" "k' < sizeT"
      "(l * N + c) * sizeT + k = (l' * N + d) * sizeT + k'" "x = input ! ((l' * length es + i) * sizeT + k')"
      unfolding arriving_mem rank_puts_mem by blast
    have "d < N" using assms(4) p(1,2) nth_mem by metis
    with inj [OF p(4,3)] have "l' = l" "d = c" "k' = k" by auto
    with p assms(5) nth_mem [OF p(1)] show "Some c \<in> set es \<and> x = v" by simp
  next
    assume a: "Some c \<in> set es \<and> x = v"
    then obtain i where "i < length es" "es ! i = Some c" by (auto simp: in_set_conv_nth)
    with a assms(1,3,5) show "x \<in> set (arriving ((l * N + c) * sizeT + k) (rank_puts rep sizeT N es input))"
      unfolding arriving_mem rank_puts_mem by blast
  qed
  then show ?thesis by (simp add: set_eq_iff del: set_empty)
qed

text \<open>The last of a list of blocks each of which is empty or repeats one value.\<close>

lemma last_of_blocks:
  assumes "\<And>p. p \<in> set ps \<Longrightarrow> set (f p) = (if P p then {v p} else {})"
  shows "(if concat (map f ps) = [] then y else last (concat (map f ps))) = (case find P (rev ps) of None \<Rightarrow> y | Some p \<Rightarrow> v p)"
  using assms
proof (induction ps rule: rev_induct)
  case (snoc p ps)
  have p: "set (f p) = (if P p then {v p} else {})" by (rule snoc.prems) simp
  show ?case
  proof (cases "P p")
    case True
    then have ne: "f p \<noteq> []" "set (f p) = {v p}" using p by auto
    then have "last (f p) = v p" using last_in_set by blast
    with ne True show ?thesis by simp
  next
    case False
    then have "f p = []" using p by simp
    moreover have "(if concat (map f ps) = [] then y else last (concat (map f ps))) = (case find P (rev ps) of None \<Rightarrow> y | Some p \<Rightarrow> v p)"
      by (rule snoc.IH) (rule snoc.prems, simp)
    moreover have "concat (map f (ps @ [p])) = concat (map f ps)" "find P (rev (ps @ [p])) = find P (rev ps)"
      using False \<open>f p = []\<close> by simp_all
    ultimately show ?thesis by (simp only:)
  qed
qed simp

section \<open>The gathering of all ranks\<close>

lemma ga_transfer_none_eq:
  fixes out :: "'a list"
  assumes ga: "tc_gathers dst remote ga"
    and inp: "map fst input = map fst remote" "\<And>r ix data. (r, ix) \<in> set remote \<Longrightarrow> (r, data) \<in> set input \<Longrightarrow> length data = rep * (length ix * sizeT)"
    and d: "distinct (map fst remote)" and out: "length out = rep * (length (lv_index dst) * sizeT)"
  shows "ga_transfer_none ga rep sizeT input out = Inr (arrive put_cell (concat (map (\<lambda>(r, data).
      rank_puts rep sizeT (length (lv_index dst)) (landings dst (std_at [] remote r)) data) input)) out)"
proof -
  have size: "ga_dstSize ga = int (length (lv_index dst))" using ga by (simp add: tc_gathers_def)
  show ?thesis
    unfolding ga_transfer_none_def Let_def size
  proof (rule ofold_arrive [where P = "\<lambda>s. length s = length out"])
    fix e and s :: "'a list" assume e: "e \<in> set input" and s: "length s = length out"
    obtain r data where rd: "e = (r, data)" by (cases e)
    have "r \<in> set (map fst remote)" using e rd inp(1) by (metis fst_conv image_eqI set_map)
    then obtain ix where ix: "(r, ix) \<in> set remote" by auto
    then have at: "std_at [] remote r = ix" using d by (simp add: std_at_def)
    have m: "std_at [] (ga_mask ga) r = map (\<lambda>e. e \<noteq> None) (landings dst ix)" "std_at [] (ga_connector ga) r = map int (shown (landings dst ix))"
      using ga ix by (auto simp: tc_gathers_def simp del: not_None_eq)
    have len: "length data = rep * (length (landings dst ix) * sizeT)" using inp(2) [OF ix] e rd by simp
    have lt: "\<forall>c. Some c \<in> set (landings dst ix) \<longrightarrow> c < length (lv_index dst)" using landings_less by blast
    show "(case e of (rank, input) \<Rightarrow> \<lambda>dataOut. ofold (\<lambda>l. masked_loop False (std_at [] (ga_mask ga) rank) (std_at [] (ga_connector ga) rank)
          (\<lambda>i c. copy_block input (int l * (int (length (std_at [] (ga_mask ga) rank)) * int sizeT) + int i * int sizeT)
                   (int l * (int (length (lv_index dst)) * int sizeT) + c * int sizeT) sizeT)
          (\<lambda>i. Inr)) [0..<rep] dataOut) s
      = Inr (arrive put_cell (case e of (r, data) \<Rightarrow> rank_puts rep sizeT (length (lv_index dst)) (landings dst (std_at [] remote r)) data) s)"
      using rank_loop [OF lt len, of s] s out unfolding rd prod.case m at by simp
  qed simp_all
qed

end
