(* ===== verification/TransformClaims.thy ===== *)
theory TransformClaims
  imports TransformTransfer
begin

text \<open>The property of the connector between processes: a transfer is a redistribution by global index.\<close>

section \<open>Computing the connectors of all processes\<close>

text \<open>The positions without a cell come last in the view.\<close>

definition holes_behind :: "'a option list \<Rightarrow> bool" where
  "holes_behind cs \<longleftrightarrow> list_all (\<lambda>c. c = None) (dropWhile (\<lambda>c. c \<noteq> None) cs)"

definition holes_last :: "local_view \<Rightarrow> bool" where
  "holes_last v \<longleftrightarrow> holes_behind (lv_cells v)"

lemma holes_shape: "holes_behind cs \<Longrightarrow> cs = map Some (shown cs) @ replicate (length cs - length (shown cs)) None"
proof (induction cs)
  case (Cons c cs)
  show ?case
  proof (cases c)
    case None
    with Cons.prems have "\<forall>d\<in>set (c # cs). d = None" by (simp add: holes_behind_def list_all_iff)
    then have "c # cs = replicate (Suc (length cs)) None" by (metis length_Cons replicate_eqI)
    moreover have "shown (replicate n (None :: 'a option)) = []" for n by (induction n) simp_all
    ultimately show ?thesis by (metis append_Nil diff_zero length_replicate list.map(1) list.size(3))
  next
    case (Some x)
    with Cons show ?thesis by (simp add: holes_behind_def)
  qed
qed simp

lemma holes_last_index:
  assumes "lv_ok v" "holes_last v"
  shows "lv_getGlobalIndexView junk v = Inr (shown (lv_cells v))"
proof -
  have "lv_size v = int (length (lv_index v))" "lv_localSize v = int (length (lv_globalIndex v))"
    using assms(1) by (simp_all add: lv_ok_def)
  from index_view_front [OF this holes_shape [OF assms(2) [unfolded holes_last_def lv_cells_def]]] show ?thesis
    by (simp add: lv_getGlobalIndexView_def lv_cells_def)
qed

lemma tc_scatter_eq:
  assumes "lv_ok src" "in_order D" "\<forall>r\<in>fst ` set D. 0 \<le> r \<and> r < int n" "\<And>xs. length (allreduce xs) = length xs"
  shows "\<exists>sc. tc_scatter allreduce n src D = Inr sc
    \<and> (\<exists>v. sc_computed src v sc \<and> dv_index v = full_index D \<and> dv_globalIndex v = D)"
proof -
  obtain v where v: "de_getView FULL (de_addFullView (newDistributedElement (lv_globalSize src) D)) = Inr v"
    "dv_index v = full_index D" "dv_globalIndex v = D"
    by (rule full_view [OF assms(2)])
  have "in_order (dv_index v)" unfolding v(2) full_index_def by (rule in_order_map [OF assms(2)])
  moreover have "\<forall>rank\<in>fst ` set (dv_index v). 0 \<le> rank \<and> rank < int n" using assms(3) by (simp add: v(2))
  ultimately obtain sc where "sc_computeConnector allreduce src v (newScatterer (int n)) = Inr sc" "sc_computed src v sc"
    using sc_computeConnector_eq [OF assms(1) _ _ assms(4), of v "int n"] by metis
  with v show ?thesis by (auto simp: tc_scatter_def)
qed

text \<open>What a process has when the connectors are computed.\<close>

definition tc_ready :: "local_view list \<Rightarrow> local_view list \<Rightarrow> (int, nat list) std_map list \<Rightarrow> nat \<Rightarrow> transform_connector \<Rightarrow> bool" where
  "tc_ready srcs dsts D p c \<longleftrightarrow> tc_recvRankSize c = map (\<lambda>(r, ix). (r, int (length ix))) (tc_messages D p)
     \<and> (\<exists>v. sc_computed (srcs ! p) v (tc_scatterer c) \<and> dv_index v = full_index (D ! p) \<and> dv_globalIndex v = D ! p)
     \<and> tc_gathers (dsts ! p) (tc_messages D p) (tc_gatherer c)"

definition tc_asked :: "local_view list \<Rightarrow> local_view list \<Rightarrow> nat info_map list \<Rightarrow> bool" where
  "tc_asked srcs dsts found \<longleftrightarrow> length found = length dsts \<and> (\<forall>p<length dsts. info_ok (found ! p)
     \<and> (\<forall>g. set (infos (found ! p) g) = {q. q < length dsts \<and> g \<in> shared (srcs ! p) (dsts ! q)}))"

lemma asked_links:
  assumes "tc_asked srcs dsts found" "length srcs = length dsts"
  shows "tc_links srcs dsts (map tc_vectorIndex found)"
proof -
  have len: "length found = length dsts" using assms(1) by (simp add: tc_asked_def)
  have "in_order (tc_vectorIndex (found ! p))
      \<and> (\<forall>(r, ix)\<in>set (tc_vectorIndex (found ! p)). 0 \<le> r \<and> r < int (length dsts) \<and> ix \<noteq> [] \<and> set ix = shared (srcs ! p) (dsts ! nat r))
      \<and> (\<forall>q<length dsts. shared (srcs ! p) (dsts ! q) \<noteq> {} \<longrightarrow> int q \<in> fst ` set (tc_vectorIndex (found ! p)))"
    if p: "p < length dsts" for p
  proof -
    have i: "\<And>g. set (infos (found ! p) g) = {q. q < length dsts \<and> g \<in> shared (srcs ! p) (dsts ! q)}"
      "distinct (map fst (found ! p))" using assms(1) p by (simp_all add: tc_asked_def info_ok_def)
    note f = tc_vectorIndex_facts [OF i(2)]
    have "0 \<le> r \<and> r < int (length dsts) \<and> ix \<noteq> [] \<and> set ix = shared (srcs ! p) (dsts ! nat r)"
      if "(r, ix) \<in> set (tc_vectorIndex (found ! p))" for r ix
    proof -
      have ix: "ix \<noteq> []" "set ix = {g. \<exists>q<length dsts. g \<in> shared (srcs ! p) (dsts ! q) \<and> r = int q}"
        using f(2) [OF that] by (auto simp: i(1))
      then obtain g where "g \<in> set ix" by fastforce
      then obtain q where "q < length dsts" "r = int q" by (auto simp: ix(2))
      with ix show ?thesis by auto
    qed
    moreover have "int q \<in> fst ` set (tc_vectorIndex (found ! p))" if "q < length dsts" "shared (srcs ! p) (dsts ! q) \<noteq> {}" for q
      unfolding f(3) i(1) using that by blast
    ultimately show ?thesis using f(1) by blast
  qed
  then show ?thesis using assms(2) len by (simp add: tc_links_def)
qed

definition redistribution_ok :: "local_view list \<Rightarrow> local_view list \<Rightarrow> bool" where
  "redistribution_ok srcs dsts \<longleftrightarrow> length srcs = length dsts \<and> length dsts \<le> nbHashIndexMax
     \<and> list_all (\<lambda>v. lv_ok v \<and> holes_last v \<and> hashes (shown (lv_cells v))) (srcs @ dsts)"

lemma tc_table:
  assumes "redistribution_ok srcs dsts"
  shows "otraverse (lv_getGlobalIndexView junk) dsts = Inr (map (\<lambda>v. shown (lv_cells v)) dsts)"
    and "otraverse (lv_getGlobalIndexView junk) srcs = Inr (map (\<lambda>v. shown (lv_cells v)) srcs)"
    and "\<exists>s found. construct_dht (map2 tc_info [0..<length dsts] (map (\<lambda>v. shown (lv_cells v)) dsts)) = Inr s
      \<and> computeIndexInfoMapping s (map (\<lambda>gs. sorted_list_of_set (set gs)) (map (\<lambda>v. shown (lv_cells v)) srcs)) = Inr found
      \<and> tc_asked srcs dsts found"
proof -
  let ?n = "length dsts"
  have ok: "length srcs = ?n" "?n \<le> nbHashIndexMax"
    "\<And>v. v \<in> set srcs \<union> set dsts \<Longrightarrow> lv_ok v \<and> holes_last v \<and> hashes (shown (lv_cells v))"
    using assms by (auto simp: redistribution_ok_def list_all_iff)
  show "otraverse (lv_getGlobalIndexView junk) dsts = Inr (map (\<lambda>v. shown (lv_cells v)) dsts)"
    "otraverse (lv_getGlobalIndexView junk) srcs = Inr (map (\<lambda>v. shown (lv_cells v)) srcs)"
    using ok(3) by (auto intro!: otraverse_ok holes_last_index)
  let ?gss = "map (\<lambda>v. shown (lv_cells v)) dsts"
  define maps where "maps = map2 tc_info [0..<?n] ?gss"
  have len: "length maps = ?n" by (simp add: maps_def)
  have mem: "\<exists>p gs. m = tc_info p gs \<and> gs \<in> set ?gss" if "m \<in> set maps" for m
    using that by (fastforce simp: maps_def dest: set_zip_rightD)
  have dist: "\<forall>m\<in>set maps. distinct (map fst m)" using mem tc_info_facts(1) by metis
  have hok: "hash_ok maps"
  proof -
    have "hashXIOS i < nbHashIndexMax" if "m \<in> set maps" "i \<in> fst ` set m" for m i
    proof -
      obtain p v where v: "m = tc_info p (shown (lv_cells v))" "v \<in> set dsts" using mem [OF \<open>m \<in> set maps\<close>] by auto
      with that(2) have "i \<in> set (shown (lv_cells v))" by (simp only: tc_info_facts(2))
      with ok(3) [of v] v(2) show ?thesis by (simp add: hashes_def list_all_iff)
    qed
    then show ?thesis unfolding hash_ok_def by blast
  qed
  define qs where "qs = map (\<lambda>gs. sorted_list_of_set (set gs)) (map (\<lambda>v. shown (lv_cells v)) srcs)"
  have q1: "length qs = length maps" by (simp add: ok(1) qs_def len)
  have q2: "\<forall>is\<in>set qs. hashes is"
  proof
    fix gs assume "gs \<in> set qs"
    then obtain v where v: "v \<in> set srcs" "gs = sorted_list_of_set (set (shown (lv_cells v)))" by (auto simp: qs_def)
    then have "hashes (shown (lv_cells v))" using ok(3) [of v] by simp
    then show "hashes gs" by (simp add: v(2) hashes_def list_all_iff)
  qed
  have n: "length maps \<le> nbHashIndexMax" using ok(2) len by simp
  note dht_end_to_end [OF n dist hok q1 q2]
  then obtain s found where f: "construct_dht maps = Inr s" "computeIndexInfoMapping s qs = Inr found" "length found = ?n"
    "\<And>p. p < ?n \<Longrightarrow> info_ok (found ! p)"
    "\<And>p i. p < ?n \<Longrightarrow> map_of (found ! p) i = (if i \<in> set (qs ! p) \<and> dht_infos maps i \<noteq> [] then Some (dht_infos maps i) else None)"
    unfolding len by blast
  have "set (infos (found ! p) g) = {q. q < ?n \<and> g \<in> shared (srcs ! p) (dsts ! q)}" if p: "p < ?n" for p g
  proof -
    have d: "set (dht_infos maps g) = {q. q < ?n \<and> Some g \<in> set (lv_cells (dsts ! q))}"
    proof -
      have "set (dht_infos maps g) = {q. q < ?n \<and> g \<in> set (?gss ! q)}" unfolding maps_def by (rule dht_infos_set) simp
      then show ?thesis by (simp add: set_shown cong: conj_cong)
    qed
    have "g \<in> set (qs ! p) \<longleftrightarrow> Some g \<in> set (lv_cells (srcs ! p))"
      using p ok(1) by (simp add: qs_def) (simp add: set_shown)
    with f(5) [OF p, of g] have "infos (found ! p) g = (if Some g \<in> set (lv_cells (srcs ! p)) then dht_infos maps g else [])"
      by (simp add: infos_def)
    with d show ?thesis by (auto simp: shared_def)
  qed
  with f show "\<exists>s found. construct_dht (map2 tc_info [0..<?n] ?gss) = Inr s
      \<and> computeIndexInfoMapping s (map (\<lambda>gs. sorted_list_of_set (set gs)) (map (\<lambda>v. shown (lv_cells v)) srcs)) = Inr found
      \<and> tc_asked srcs dsts found"
    unfolding qs_def [symmetric] maps_def [symmetric] tc_asked_def by blast
qed

lemma tc_computed:
  assumes "redistribution_ok srcs dsts" "\<And>xs. length (allreduce xs) = length xs"
    and "\<And>q ms. mset (arrival q ms) = mset ms"
  shows "\<exists>cs D. tc_computeConnector junk arrival allreduce srcs dsts = Inr cs \<and> tc_links srcs dsts D
    \<and> length cs = length dsts \<and> (\<forall>p<length dsts. tc_ready srcs dsts D p (cs ! p))"
proof -
  let ?n = "length dsts"
  have ok: "length srcs = ?n" "\<And>p. p < ?n \<Longrightarrow> lv_ok (srcs ! p)" "\<And>p. p < ?n \<Longrightarrow> lv_ok (dsts ! p)"
    using assms(1) by (auto simp: redistribution_ok_def list_all_iff)
  obtain s found where f: "construct_dht (map2 tc_info [0..<?n] (map (\<lambda>v. shown (lv_cells v)) dsts)) = Inr s"
    "computeIndexInfoMapping s (map (\<lambda>gs. sorted_list_of_set (set gs)) (map (\<lambda>v. shown (lv_cells v)) srcs)) = Inr found"
    "tc_asked srcs dsts found"
    using tc_table(3) [OF assms(1)] by blast
  define D where "D = map tc_vectorIndex found"
  have links: "tc_links srcs dsts D" unfolding D_def by (rule asked_links [OF f(3) ok(1)])
  have len: "length D = ?n" using links by (simp add: tc_links_def)
  note L = tc_links_facts [OF links]
  obtain scs where scs: "otraverse (\<lambda>(v, index). tc_scatter allreduce ?n v index) (zip srcs D) = Inr scs" "length scs = ?n"
    "\<And>p. p < ?n \<Longrightarrow> \<exists>v. sc_computed (srcs ! p) v (scs ! p) \<and> dv_index v = full_index (D ! p) \<and> dv_globalIndex v = D ! p"
  proof -
    have "\<exists>ys. otraverse (\<lambda>(v, index). tc_scatter allreduce ?n v index) (zip srcs D) = Inr ys \<and> length ys = length (zip srcs D)
      \<and> (\<forall>p<length (zip srcs D). \<exists>v. sc_computed (srcs ! p) v (ys ! p) \<and> dv_index v = full_index (D ! p) \<and> dv_globalIndex v = D ! p)"
    proof (rule otraverse_nth)
      fix p assume "p < length (zip srcs D)"
      then have p: "p < ?n" using ok(1) len by simp
      have "\<forall>r\<in>fst ` set (D ! p). 0 \<le> r \<and> r < int ?n" using L(2) [OF p] by blast
      from tc_scatter_eq [OF ok(2) [OF p] L(1) [OF p] this assms(2)] p ok(1) len
      show "\<exists>y. (case zip srcs D ! p of (v, index) \<Rightarrow> tc_scatter allreduce ?n v index) = Inr y
        \<and> (\<exists>v. sc_computed (srcs ! p) v y \<and> dv_index v = full_index (D ! p) \<and> dv_globalIndex v = D ! p)" by simp
    qed
    with that ok(1) len show thesis by auto
  qed
  let ?ns = "map (\<lambda>p. map (\<lambda>q. if int q \<in> fst ` set (D ! p) then 1 else (0::int)) [0..<?n]) [0..<?n]"
  have ns: "otraverse (tc_nbSenders ?n) D = Inr ?ns"
    by (rule otraverse_eq) (use len L(2) in \<open>auto intro!: tc_nbSenders_eq\<close>)
  have sum: "sum_list (map (\<lambda>ns. ns ! q) ?ns) = int (length (tc_messages D q))" if "q < ?n" for q
    unfolding tc_messages_length len using that by (simp add: comp_def)
  let ?got = "map (\<lambda>q. (tc_messages D q, map (\<lambda>(p, ix). (p, int (length ix))) (tc_messages D q))) [0..<?n]"
  have got: "otraverse (\<lambda>q. tc_receive (sum_list (map (\<lambda>ns. ns ! q) ?ns)) (arrival q (tc_messages D q))) [0..<?n] = Inr ?got"
    by (rule otraverse_ok) (simp only: sum tc_receive_eq [OF assms(3)] atLeastLessThan_iff set_upt)
  obtain gas where gas: "otraverse (\<lambda>(v, got). tc_gather v (fst got)) (zip dsts ?got) = Inr gas" "length gas = ?n"
    "\<And>p. p < ?n \<Longrightarrow> tc_gathers (dsts ! p) (tc_messages D p) (gas ! p)"
  proof -
    have "\<exists>ys. otraverse (\<lambda>(v, got). tc_gather v (fst got)) (zip dsts ?got) = Inr ys \<and> length ys = length (zip dsts ?got)
      \<and> (\<forall>p<length (zip dsts ?got). tc_gathers (dsts ! p) (tc_messages D p) (ys ! p))"
      by (rule otraverse_nth) (use tc_gather_eq [OF ok(3) tc_messages_order] in simp)
    with that show thesis by auto
  qed
  define cs where "cs = map (\<lambda>(sc, got, ga). \<lparr>tc_recvRankSize = snd got, tc_scatterer = sc, tc_gatherer = ga\<rparr>) (zip scs (zip ?got gas))"
  have "tc_computeConnector junk arrival allreduce srcs dsts = Inr cs"
    unfolding tc_computeConnector_def Let_def tc_table(1,2) [OF assms(1)] obind.simps f(1,2) D_def [symmetric] scs(1) ns got gas(1) cs_def
    by simp
  moreover have "tc_ready srcs dsts D p (cs ! p)" if "p < ?n" for p
    using that scs(2,3) gas(2,3) by (simp add: cs_def tc_ready_def)
  moreover have "length cs = ?n" by (simp add: cs_def scs(2) gas(2))
  ultimately show ?thesis using links by blast
qed

section \<open>Transfers on all processes\<close>

text \<open>The array a process sends for a list of indices.\<close>

definition tc_array :: "(nat \<Rightarrow> 'a) \<Rightarrow> nat \<Rightarrow> nat \<Rightarrow> local_view \<Rightarrow> 'a list \<Rightarrow> nat list \<Rightarrow> 'a list" where
  "tc_array junk rep sizeT src input ix =
     scattered junk None rep sizeT (length (lv_index src)) (landings src ix) input"

lemma tc_array_nth:
  assumes "l < rep" "i < length ix" "k < sizeT" "Some (ix ! i) \<in> set (lv_cells src)"
  shows "tc_array junk rep sizeT src input ix ! ((l * length ix + i) * sizeT + k)
    = input ! ((l * length (lv_index src) + the (position_of (lv_cells src) (ix ! i))) * sizeT + k)"
proof -
  obtain c where c: "position_of (lv_cells src) (ix ! i) = Some c" using assms(4) position_of_None by (cases "position_of (lv_cells src) (ix ! i)") auto
  have i: "i < length (landings src ix)" "landings src ix ! i = Some c" using assms(2) c by (simp_all add: landings_def)
  from scattered_nth(1) [OF assms(1) i(1) assms(3), of junk None] show ?thesis by (simp add: tc_array_def i(2) c)
qed

lemma length_tc_array [simp]: "length (tc_array junk rep sizeT src input ix) = rep * (length ix * sizeT)"
  by (simp add: tc_array_def scattered_def)

lemma tc_sends:
  assumes "tc_ready srcs dsts D p c" "in_order (D ! p)" "length input = rep * (sizeT * length (lv_index (srcs ! p)))"
  shows "sc_transfer (\<lambda>_. junk) (tc_scatterer c) rep sizeT input []
    = Inr (map (\<lambda>(r, ix). (r, tc_array junk rep sizeT (srcs ! p) input ix)) (D ! p))"
proof -
  obtain v where v: "sc_computed (srcs ! p) v (tc_scatterer c)" "dv_index v = full_index (D ! p)" "dv_globalIndex v = D ! p"
    using assms(1) by (auto simp: tc_ready_def)
  have src: "sc_sources (srcs ! p) v r (map int [0..<length ix]) = landings (srcs ! p) ix" if "(r, ix) \<in> set (D ! p)" for r ix
    using in_order_map_of [OF assms(2) that]
    by (simp add: sc_sources_def dv_cells_def v(3) std_at_def cells_full sources_Some landings_def)
  have "rep * (sizeT * length (lv_index (srcs ! p))) \<le> length input" using assms(3) by simp
  from sc_transfer_eq [OF v(1) this, of "\<lambda>_. junk"] show ?thesis
    by (auto simp: v(2) full_index_def tc_array_def src)
qed

text \<open>What the messages deliver.\<close>

lemma map_of_put_snd: "map_of (map (\<lambda>(k, v). (k, f v)) m) k = map_option f (map_of m k)"
  by (induction m) auto

lemma tc_exchange_eq:
  assumes links: "tc_links srcs dsts D" and ready: "\<And>p. p < length dsts \<Longrightarrow> tc_ready srcs dsts D p (cs ! p)"
    and len: "length cs = length dsts"
    and sent: "sent = map (\<lambda>p. map (\<lambda>(r, ix). (r, tc_array junk rep sizeT (srcs ! p) (ins ! p) ix)) (D ! p)) [0..<length dsts]"
  shows "tc_exchange junk rep sizeT (map tc_recvRankSize cs) sent
    = Inr (map (\<lambda>q. map (\<lambda>(p, ix). (p, tc_array junk rep sizeT (srcs ! nat p) (ins ! nat p) ix)) (tc_messages D q)) [0..<length dsts])"
proof -
  let ?n = "length dsts"
  have lenD: "length D = ?n" using links by (simp add: tc_links_def)
  note L = tc_links_facts [OF links]
  have recv: "map tc_recvRankSize cs ! q = map (\<lambda>(r, ix). (r, int (length ix))) (tc_messages D q)" if "q < ?n" for q
    using ready [OF that] that len by (simp add: tc_ready_def)
  have at: "map_of (sent ! p) (int q) = map_option (tc_array junk rep sizeT (srcs ! p) (ins ! p)) (map_of (D ! p) (int q))" if "p < ?n" for p q
    using that by (simp add: sent map_of_put_snd)
  have msg: "map_of (tc_messages D q) (int p) = map_of (D ! p) (int q)" if "p < ?n" for p q
  proof (cases "map_of (D ! p) (int q)")
    case None
    then have "int p \<notin> fst ` set (tc_messages D q)" by (auto simp: tc_messages_mem)
    then have "map_of (tc_messages D q) (int p) = None" by (rule map_of_eq_None_iff [THEN iffD2])
    with None show ?thesis by (simp only:)
  next
    case (Some ix)
    then have "(int p, ix) \<in> set (tc_messages D q)" using that lenD by (auto simp: tc_messages_mem)
    with Some show ?thesis using in_order_map_of [OF tc_messages_order] by metis
  qed
  have keys: "fst ` set (sent ! p) = fst ` set (D ! p)" if "p < ?n" for p using that by (simp add: sent)
  have "tc_matched (map tc_recvRankSize cs) sent"
  proof -
    have "0 \<le> q \<and> q < int (length sent) \<and> map_of (map tc_recvRankSize cs ! nat q) (int p) \<noteq> None"
      if p: "p < ?n" and q: "q \<in> fst ` set (sent ! p)" for p q
    proof -
      have q': "0 \<le> q" "q < int ?n" "q \<in> fst ` set (D ! p)" using L(2) [OF p] q keys [OF p] by auto
      then have nq: "nat q < ?n" by linarith
      have "map_of (D ! p) (int (nat q)) \<noteq> None" using q' by (simp add: map_of_eq_None_iff)
      with q' nq show ?thesis by (simp add: recv [OF nq] map_of_put_snd msg [OF p] sent del: not_None_eq)
    qed
    moreover have "0 \<le> p \<and> p < int (length sent) \<and> map_of (sent ! nat p) (int q) \<noteq> None"
      if q: "q < ?n" and p: "p \<in> fst ` set (map tc_recvRankSize cs ! q)" for p q
    proof -
      obtain ix where "(p, ix) \<in> set (tc_messages D q)" using p by (auto simp: recv [OF q])
      then obtain r where r: "r < ?n" "p = int r" "map_of (D ! r) (int q) = Some ix" using lenD by (auto simp: tc_messages_mem)
      have "map_of (sent ! r) (int q) \<noteq> None" unfolding at [OF r(1)] r(3) by simp
      moreover have "length sent = ?n" by (simp add: sent)
      ultimately show ?thesis using r(1,2) by simp
    qed
    moreover have "length sent = ?n" by (simp add: sent)
    ultimately show ?thesis unfolding tc_matched_def list_all_iff set_map
      by (intro conjI ballI) (simp_all del: not_None_eq)
  qed
  moreover have "ofold (\<lambda>(rank, n) tmpArrayOut. omap (\<lambda>array. std_put rank array tmpArrayOut)
        (tc_irecv junk (n * int rep * int sizeT) (std_at [] (sent ! nat rank) (int q)))) (map tc_recvRankSize cs ! q) []
      = Inr (map (\<lambda>(p, ix). (p, tc_array junk rep sizeT (srcs ! nat p) (ins ! nat p) ix)) (tc_messages D q))" if q: "q < ?n" for q
  proof -
    have "ofold (\<lambda>e. case (case e of (r, ix) \<Rightarrow> (r, int (length ix))) of (rank, n) \<Rightarrow> \<lambda>tmpArrayOut. omap (\<lambda>array. std_put rank array tmpArrayOut)
        (tc_irecv junk (n * int rep * int sizeT) (std_at [] (sent ! nat rank) (int q)))) (tc_messages D q) []
      = Inr (map (\<lambda>(p, ix). (p, tc_array junk rep sizeT (srcs ! nat p) (ins ! nat p) ix)) (tc_messages D q))"
    proof (rule ofold_put_id [OF tc_messages_order])
      fix k ix acc assume "(k, ix) \<in> set (tc_messages D q)"
      then obtain r where r: "r < ?n" "k = int r" "map_of (D ! r) (int q) = Some ix" using lenD by (auto simp: tc_messages_mem)
      have "std_at [] (sent ! r) (int q) = tc_array junk rep sizeT (srcs ! r) (ins ! r) ix" using r by (simp add: std_at_def at)
      moreover have "int (length ix) * int rep * int sizeT = int (rep * (length ix * sizeT))" by simp
      then have "tc_irecv junk (int (length ix) * int rep * int sizeT) (tc_array junk rep sizeT (srcs ! r) (ins ! r) ix)
          = Inr (tc_array junk rep sizeT (srcs ! r) (ins ! r) ix)" by (simp only: tc_irecv_def length_tc_array nat_int order_refl if_True) simp
      ultimately show "(case (case (k, ix) of (r, ix) \<Rightarrow> (r, int (length ix))) of (rank, n) \<Rightarrow> \<lambda>tmpArrayOut. omap (\<lambda>array. std_put rank array tmpArrayOut)
          (tc_irecv junk (n * int rep * int sizeT) (std_at [] (sent ! nat rank) (int q)))) acc
        = Inr (std_put k (tc_array junk rep sizeT (srcs ! nat k) (ins ! nat k) ix) acc)" by (simp add: r(2))
    qed
    then show ?thesis by (simp only: recv [OF q] ofold_map)
  qed
  ultimately show ?thesis
  proof -
    assume matched: "tc_matched (map tc_recvRankSize cs) sent"
      and each: "\<And>q. q < ?n \<Longrightarrow> ofold (\<lambda>(rank, n) tmpArrayOut. omap (\<lambda>array. std_put rank array tmpArrayOut)
        (tc_irecv junk (n * int rep * int sizeT) (std_at [] (sent ! nat rank) (int q)))) (map tc_recvRankSize cs ! q) []
      = Inr (map (\<lambda>(p, ix). (p, tc_array junk rep sizeT (srcs ! nat p) (ins ! nat p) ix)) (tc_messages D q))"
    have "length sent = ?n" by (simp add: sent)
    then show ?thesis unfolding tc_exchange_def if_P [OF matched]
      by (simp only:) (rule otraverse_ok, rule each, simp)
  qed
qed

section \<open>Redistribution\<close>

text \<open>Where the value of a position of a destination view comes from: the last process that shows its
  cell, and the last position there; a cell that is shown at several positions of the destination is
  filled in at the last of them.\<close>

definition last_shower :: "local_view list \<Rightarrow> nat \<Rightarrow> nat option" where
  "last_shower srcs g = find (\<lambda>p. Some g \<in> set (lv_cells (srcs ! p))) (rev [0..<length srcs])"

definition origin :: "local_view list \<Rightarrow> local_view \<Rightarrow> nat \<Rightarrow> (nat \<times> nat) option" where
  "origin srcs dst c = (case lv_cells dst ! c of None \<Rightarrow> None | Some g \<Rightarrow>
     if position_of (lv_cells dst) g = Some c
     then map_option (\<lambda>p. (p, the (position_of (lv_cells (srcs ! p)) g))) (last_shower srcs g) else None)"

lemma position_of_cell: "position_of cs g = Some c \<Longrightarrow> cs ! c = Some g"
  by (simp add: position_of_Some)

lemma position_of_mem: "position_of cs g = Some c \<Longrightarrow> Some g \<in> set cs"
  using position_of_None [of cs g] by auto

lemma arrivals_origin:
  assumes links: "tc_links srcs dsts D" and q: "q < length dsts" and b: "l < rep" "c < length (lv_index (dsts ! q))" "k < sizeT"
  shows "(let us = concat (map (\<lambda>(p, data). rank_puts rep sizeT (length (lv_index (dsts ! q)))
            (landings (dsts ! q) (std_at [] (tc_messages D q) p)) data)
          (map (\<lambda>(p, ix). (p, tc_array junk rep sizeT (srcs ! nat p) (ins ! nat p) ix)) (tc_messages D q)));
        xs = arriving ((l * length (lv_index (dsts ! q)) + c) * sizeT + k) us
      in if xs = [] then m else last xs)
    = (case origin srcs (dsts ! q) c of None \<Rightarrow> m
       | Some (p, i) \<Rightarrow> ins ! p ! ((l * length (lv_index (srcs ! p)) + i) * sizeT + k))"
proof -
  let ?n = "length dsts" and ?N = "length (lv_index (dsts ! q))" and ?dst = "dsts ! q"
  let ?d = "(l * ?N + c) * sizeT + k"
  have len: "length D = ?n" "length srcs = ?n" using links by (simp_all add: tc_links_def)
  note L = tc_links_facts [OF links]
  let ?arr = "\<lambda>p. tc_array junk rep sizeT (srcs ! p) (ins ! p)"
  define f where "f = (\<lambda>p. case map_of (D ! p) (int q) of None \<Rightarrow> [] | Some ix \<Rightarrow>
      arriving ?d (rank_puts rep sizeT ?N (landings ?dst ix) (?arr p ix)))"
  define P where "P = (\<lambda>p. \<exists>g. position_of (lv_cells ?dst) g = Some c \<and> Some g \<in> set (lv_cells (srcs ! p)))"
  define v where "v = (\<lambda>p. ins ! p ! ((l * length (lv_index (srcs ! p)) + the (position_of (lv_cells (srcs ! p)) (the (lv_cells ?dst ! c)))) * sizeT + k))"
  have "arriving ?d (concat (map (\<lambda>(p, data). rank_puts rep sizeT ?N (landings ?dst (std_at [] (tc_messages D q) p)) data)
      (map (\<lambda>(p, ix). (p, tc_array junk rep sizeT (srcs ! nat p) (ins ! nat p) ix)) (tc_messages D q)))) = concat (map f [0..<?n])"
  proof -
    let ?puts = "\<lambda>p ix jx. arriving ?d (rank_puts rep sizeT ?N (landings ?dst ix) (?arr (nat p) jx))"
    have "arriving ?d (concat (map (\<lambda>(p, data). rank_puts rep sizeT ?N (landings ?dst (std_at [] (tc_messages D q) p)) data)
        (map (\<lambda>(p, ix). (p, ?arr (nat p) ix)) ms))) = concat (map (\<lambda>(p, ix). ?puts p (std_at [] (tc_messages D q) p) ix) ms)" for ms
      by (simp add: arriving_concat comp_def case_prod_beta')
    moreover have "map (\<lambda>(p, ix). ?puts p (std_at [] (tc_messages D q) p) ix) (tc_messages D q)
        = map (\<lambda>(p, ix). ?puts p ix ix) (tc_messages D q)"
      by (rule map_cong [OF refl]) (auto simp: std_at_def in_order_map_of [OF tc_messages_order])
    moreover have "concat (map (\<lambda>(p, ix). ?puts p ix ix)
        (concat (map (\<lambda>p. case map_of (D ! p) (int q) of None \<Rightarrow> [] | Some m \<Rightarrow> [(int p, m)]) ps))) = concat (map f ps)" for ps
      by (induction ps) (auto simp: f_def split: option.split)
    then have "concat (map (\<lambda>(p, ix). ?puts p ix ix) (tc_messages D q)) = concat (map f [0..<?n])"
      by (simp only: tc_messages_def len(1))
    ultimately show ?thesis by (simp only:)
  qed
  moreover have "(if concat (map f [0..<?n]) = [] then m else last (concat (map f [0..<?n])))
      = (case find P (rev [0..<?n]) of None \<Rightarrow> m | Some p \<Rightarrow> v p)"
  proof (rule last_of_blocks)
    fix p assume "p \<in> set [0..<?n]"
    then have p: "p < ?n" by simp
    show "set (f p) = (if P p then {v p} else {})"
    proof (cases "map_of (D ! p) (int q)")
      case None
      then have "shared (srcs ! p) ?dst = {}" using L(4) [OF p q] by (simp add: map_of_eq_None_iff)
      then have "\<not> P p" by (auto simp: P_def shared_def dest: position_of_mem)
      with None show ?thesis by (simp add: f_def)
    next
      case (Some ix)
      have ix: "set ix = shared (srcs ! p) ?dst" using L(3) [OF p map_of_SomeD [OF Some]] by simp
      have "set (arriving ?d (rank_puts rep sizeT ?N (landings ?dst ix) (?arr p ix))) = (if Some c \<in> set (landings ?dst ix) then {v p} else {})"
      proof (rule rank_puts_cell [OF b])
        show "\<forall>c. Some c \<in> set (landings ?dst ix) \<longrightarrow> c < ?N" using landings_less by blast
        fix i assume i: "i < length (landings ?dst ix)" "landings ?dst ix ! i = Some c"
        then have g: "position_of (lv_cells ?dst) (ix ! i) = Some c" "i < length ix" by (simp_all add: landings_def)
        then have "Some (ix ! i) \<in> set (lv_cells (srcs ! p))" using ix nth_mem [OF g(2)] by (simp add: shared_def)
        from tc_array_nth [OF b(1) g(2) b(3) this] position_of_cell [OF g(1)]
        show "?arr p ix ! ((l * length (landings ?dst ix) + i) * sizeT + k) = v p" by (simp add: v_def)
      qed
      moreover have "Some c \<in> set (landings ?dst ix) \<longleftrightarrow> P p"
      proof
        assume "Some c \<in> set (landings ?dst ix)"
        then show "P p" by (auto simp: landings_def ix P_def shared_def)
      next
        assume "P p"
        then obtain g where g: "position_of (lv_cells ?dst) g = Some c" "Some g \<in> set (lv_cells (srcs ! p))" by (auto simp: P_def)
        then have "g \<in> set ix" using position_of_mem by (simp add: ix shared_def)
        with g(1) show "Some c \<in> set (landings ?dst ix)" by (force simp: landings_def)
      qed
      ultimately show ?thesis using Some by (simp add: f_def)
    qed
  qed
  moreover have "(case find P (rev [0..<?n]) of None \<Rightarrow> m | Some p \<Rightarrow> v p)
    = (case origin srcs ?dst c of None \<Rightarrow> m | Some (p, i) \<Rightarrow> ins ! p ! ((l * length (lv_index (srcs ! p)) + i) * sizeT + k))"
  proof (cases "\<exists>g. position_of (lv_cells ?dst) g = Some c")
    case True
    then obtain g where g: "position_of (lv_cells ?dst) g = Some c" by blast
    have P: "P = (\<lambda>p. Some g \<in> set (lv_cells (srcs ! p)))"
    proof
      fix p
      have "h = g" if "position_of (lv_cells ?dst) h = Some c" for h
        using position_of_cell [OF that] position_of_cell [OF g] by simp
      with g show "P p = (Some g \<in> set (lv_cells (srcs ! p)))" unfolding P_def by blast
    qed
    have "origin srcs ?dst c = map_option (\<lambda>p. (p, the (position_of (lv_cells (srcs ! p)) g))) (find P (rev [0..<?n]))"
      using g position_of_cell [OF g] by (simp add: origin_def last_shower_def len(2) P)
    then show ?thesis using position_of_cell [OF g] by (simp add: v_def split: option.split)
  next
    case False
    then have "origin srcs ?dst c = None" "\<And>p. \<not> P p" by (auto simp: origin_def P_def split: option.split)
    moreover from this(2) have "find P (rev [0..<?n]) = None" by (simp add: find_None_iff)
    ultimately show ?thesis by simp
  qed
  ultimately show ?thesis by (simp only: Let_def)
qed

text \<open>What the destination holds before anything arrives.\<close>

definition before_arrival :: "bool \<Rightarrow> double \<Rightarrow> double list \<Rightarrow> nat \<Rightarrow> double" where
  "before_arrival useMissingValue m out d = (if useMissingValue then m else out ! d)"

lemma tc_gathered:
  assumes links: "tc_links srcs dsts D" and ready: "tc_ready srcs dsts D q c" and q: "q < length dsts"
    and out: "length out = rep * (length (lv_index (dsts ! q)) * sizeT)"
    and tmp_def: "tmp = map (\<lambda>(p, ix). (p, tc_array junk rep sizeT (srcs ! nat p) (ins ! nat p) ix)) (tc_messages D q)"
  shows "\<exists>res. (if useMissingValue then ga_transfer_missing (tc_gatherer c) rep sizeT tmp m RNone
        else ga_transfer junkd (tc_gatherer c) rep sizeT tmp out RNone) = Inr res
    \<and> length res = rep * (length (lv_index (dsts ! q)) * sizeT)
    \<and> (\<forall>l<rep. \<forall>c<length (lv_index (dsts ! q)). \<forall>k < sizeT. let d = (l * length (lv_index (dsts ! q)) + c) * sizeT + k in
        res ! d = (case origin srcs (dsts ! q) c of None \<Rightarrow> before_arrival useMissingValue m out d
           | Some (p, i) \<Rightarrow> ins ! p ! ((l * length (lv_index (srcs ! p)) + i) * sizeT + k)))"
proof -
  let ?N = "length (lv_index (dsts ! q))"
  have ga: "tc_gathers (dsts ! q) (tc_messages D q) (tc_gatherer c)" using ready by (simp add: tc_ready_def)
  then have dst: "ga_dstSize (tc_gatherer c) = int ?N" by (simp add: tc_gathers_def)
  have d: "distinct (map fst (tc_messages D q))" using tc_messages_order [of D q] by (simp add: in_order_def)
  define old where "old = (if useMissingValue then replicate (rep * (?N * sizeT)) m else out)"
  have old: "length old = rep * (?N * sizeT)" using out by (simp add: old_def)
  have at_old: "old ! j = before_arrival useMissingValue m out j" if "j < rep * (?N * sizeT)" for j
    using that by (simp add: old_def before_arrival_def)
  let ?us = "concat (map (\<lambda>(p, data). rank_puts rep sizeT ?N (landings (dsts ! q) (std_at [] (tc_messages D q) p)) data) tmp)"
  have none: "ga_transfer_none (tc_gatherer c) rep sizeT tmp old = Inr (arrive put_cell ?us old)"
  proof (rule ga_transfer_none_eq [OF ga _ _ d])
    show "map fst tmp = map fst (tc_messages D q)" by (simp add: case_prod_beta' tmp_def)
    fix r ix data assume "(r, ix) \<in> set (tc_messages D q)" "(r, data) \<in> set tmp"
    then obtain ix' where ix': "(r, ix') \<in> set (tc_messages D q)" "data = tc_array junk rep sizeT (srcs ! nat r) (ins ! nat r) ix'"
      by (auto simp: tmp_def)
    have "ix' = ix" using eq_key_imp_eq_value [OF d ix'(1)] \<open>(r, ix) \<in> set (tc_messages D q)\<close> by blast
    with ix'(2) show "length data = rep * (length ix * sizeT)" by simp
  qed (simp add: old)
  have sz: "int rep * (int ?N * int sizeT) = int (rep * (?N * sizeT))" "int rep * int ?N * int sizeT = int (rep * (?N * sizeT))" by simp_all
  have same: "resize_array j (int (rep * (?N * sizeT))) old = old" for j by (simp only: resize_array_def old simp_thms if_True)
  have "(if useMissingValue then ga_transfer_missing (tc_gatherer c) rep sizeT tmp m RNone
      else ga_transfer junkd (tc_gatherer c) rep sizeT tmp out RNone) = ga_transfer_none (tc_gatherer c) rep sizeT tmp old"
    using same by (cases useMissingValue)
      (simp_all only: old_def ga_transfer_missing_def ga_transfer_def dst sz nat_int simp_thms if_True if_False Let_def)
  moreover have "arrive put_cell ?us old ! ((l * ?N + c) * sizeT + k) = (case origin srcs (dsts ! q) c of None \<Rightarrow> before_arrival useMissingValue m out ((l * ?N + c) * sizeT + k)
           | Some (p, i) \<Rightarrow> ins ! p ! ((l * length (lv_index (srcs ! p)) + i) * sizeT + k))"
    if b: "l < rep" "c < ?N" "k < sizeT" for l c k
  proof -
    let ?d = "(l * ?N + c) * sizeT + k"
    have r: "?d < rep * (?N * sizeT)" using block_room [OF b(2,1), of sizeT] b(3) by linarith
    then have "arrive put_cell ?us old ! ?d = (let us = ?us; xs = arriving ?d us in if xs = [] then before_arrival useMissingValue m out ?d else last xs)"
      using old at_old [OF r] by (simp add: put_nth Let_def del: mult_Suc_right)
    also note arrivals_origin [OF links q b, of junk ins "before_arrival useMissingValue m out ?d", folded tmp_def]
    finally show ?thesis .
  qed
  ultimately show ?thesis using none old by (simp add: Let_def)
qed

text \<open>C1: Redistribution: whatever the number of processes and whatever the order in which the messages
  arrive, the connectors of all processes between the views they have of an element before and after
  are computed and the transfer goes through (nobody waits for ever, no message is too long, no access
  is out of range).  In every slice and for every value of its block a position of a destination view
  gets what the last process that shows its cell holds there, at the last position where it shows it;
  when a destination view shows a cell more than once only the last of these positions gets it.  All
  other positions, of cells nobody shows and of no cell too, get the missing value, or without a missing
  value keep what the output had there.  The conditions (\<open>redistribution_ok\<close>): the views are well formed with the positions
  without a cell behind the others, and the hash of an index is not the largest \<open>size_t\<close>; the arrays have the
  sizes of the views.\<close>

theorem redistribution:
  assumes "redistribution_ok srcs dsts" "\<And>xs. length (allreduce xs) = length xs" "\<And>q ms. mset (arrival q ms) = mset ms"
    and "length ins = length dsts" "length outs = length dsts"
    and "\<forall>p<length dsts. length (ins ! p) = rep * (sizeT * length (lv_index (srcs ! p)))"
    and "\<forall>q<length dsts. length (outs ! q) = rep * (length (lv_index (dsts ! q)) * sizeT)"
  shows "\<exists>cs res. tc_computeConnector junk arrival allreduce srcs dsts = Inr cs
    \<and> tc_transfer junkd cs rep sizeT ins outs useMissingValue m = Inr res \<and> length res = length dsts
    \<and> (\<forall>q<length dsts. length (res ! q) = rep * (length (lv_index (dsts ! q)) * sizeT)
        \<and> (\<forall>l<rep. \<forall>c<length (lv_index (dsts ! q)). \<forall>k < sizeT. let d = (l * length (lv_index (dsts ! q)) + c) * sizeT + k in
            res ! q ! d = (case origin srcs (dsts ! q) c of None \<Rightarrow> if useMissingValue then m else outs ! q ! d
               | Some (p, i) \<Rightarrow> ins ! p ! ((l * length (lv_index (srcs ! p)) + i) * sizeT + k))))"
proof -
  let ?n = "length dsts"
  obtain cs D where cs: "tc_computeConnector junk arrival allreduce srcs dsts = Inr cs" "tc_links srcs dsts D" "length cs = ?n"
    "\<And>p. p < ?n \<Longrightarrow> tc_ready srcs dsts D p (cs ! p)"
    using tc_computed [where arrival = arrival and junk = junk, OF assms(1-3)] by blast
  let ?sent = "map (\<lambda>p. map (\<lambda>(r, ix). (r, tc_array junkd rep sizeT (srcs ! p) (ins ! p) ix)) (D ! p)) [0..<?n]"
  let ?got = "map (\<lambda>q. map (\<lambda>(p, ix). (p, tc_array junkd rep sizeT (srcs ! nat p) (ins ! nat p) ix)) (tc_messages D q)) [0..<?n]"
  let ?put = "\<lambda>(c, tmp, output). if useMissingValue then ga_transfer_missing (tc_gatherer c) rep sizeT tmp m RNone
         else ga_transfer junkd (tc_gatherer c) rep sizeT tmp output RNone"
  define good where "good q y \<longleftrightarrow> length y = rep * (length (lv_index (dsts ! q)) * sizeT)
    \<and> (\<forall>l<rep. \<forall>c<length (lv_index (dsts ! q)). \<forall>k < sizeT. let d = (l * length (lv_index (dsts ! q)) + c) * sizeT + k in
        y ! d = (case origin srcs (dsts ! q) c of None \<Rightarrow> before_arrival useMissingValue m (outs ! q) d
               | Some (p, i) \<Rightarrow> ins ! p ! ((l * length (lv_index (srcs ! p)) + i) * sizeT + k)))" for q y
  have sent: "otraverse (\<lambda>(c, input). sc_transfer (\<lambda>_. junkd) (tc_scatterer c) rep sizeT input []) (zip cs ins) = Inr ?sent"
  proof (rule otraverse_eq)
    fix p assume "p < length (zip cs ins)"
    then have p: "p < ?n" using cs(3) by simp
    have "length (ins ! p) = rep * (sizeT * length (lv_index (srcs ! p)))" using assms(6) p by blast
    from tc_sends [OF cs(4) [OF p] tc_links_facts(1) [OF cs(2) p] this] p cs(3) assms(4)
    show "(case zip cs ins ! p of (c, input) \<Rightarrow> sc_transfer (\<lambda>_. junkd) (tc_scatterer c) rep sizeT input []) = Inr (?sent ! p)" by simp
  qed (use cs(3) assms(4) in simp)
  have "\<exists>res. otraverse ?put (zip cs (zip ?got outs)) = Inr res \<and> length res = length (zip cs (zip ?got outs))
    \<and> (\<forall>q<length (zip cs (zip ?got outs)). good q (res ! q))"
  proof (rule otraverse_nth)
    fix q assume "q < length (zip cs (zip ?got outs))"
    then have q: "q < ?n" using cs(3) by simp
    then have z: "zip cs (zip ?got outs) ! q = (cs ! q, ?got ! q, outs ! q)" "?got ! q = map (\<lambda>(p, ix). (p, tc_array junkd rep sizeT (srcs ! nat p) (ins ! nat p) ix)) (tc_messages D q)"
      using cs(3) assms(5) by simp_all
    have "length (outs ! q) = rep * (length (lv_index (dsts ! q)) * sizeT)" using assms(7) q by blast
    from tc_gathered [where useMissingValue = useMissingValue and m = m and junkd = junkd, OF cs(2) cs(4) [OF q] q this refl]
    show "\<exists>y. ?put (zip cs (zip ?got outs) ! q) = Inr y \<and> good q y" unfolding z(1) prod.case z(2) good_def .
  qed
  then obtain res where res: "otraverse ?put (zip cs (zip ?got outs)) = Inr res" "length res = ?n" "\<forall>q<?n. good q (res ! q)"
    using cs(3) assms(5) by auto
  have "tc_exchange junkd rep sizeT (map tc_recvRankSize cs) ?sent = Inr ?got"
    by (rule tc_exchange_eq [OF cs(2) cs(4) cs(3) refl])
  then have "tc_transfer junkd cs rep sizeT ins outs useMissingValue m = Inr res"
    unfolding tc_transfer_def sent obind.simps by (simp only: obind.simps res(1))
  with cs(1) res(2,3) show ?thesis unfolding good_def before_arrival_def by blast
qed

section \<open>Witness\<close>

definition demo_view :: "nat list \<Rightarrow> int list \<Rightarrow> local_view" where
  "demo_view gs index = newLocalView (newLocalElement 0 10 gs) index"

lemma demo_view_facts: "lv_ok (demo_view gs index)" "lv_cells (demo_view gs index) = cells index gs" "lv_index (demo_view gs index) = index"
  by (simp_all add: demo_view_def newLocalView_def newLocalElement_def lv_ok_def lv_cells_def)

text \<open>Two processes; the messages arrive in the reverse order of the ranks.\<close>

lemma redistribution_witness:
  "\<exists>cs res. tc_computeConnector (\<lambda>_. 99) (\<lambda>_. rev) (\<lambda>xs. xs) [demo_view [3] [0], demo_view [7, 8] [0, 1]]
      [demo_view [8, 3] [0, 1], demo_view [7, 8] [1, -1]] = Inr cs
    \<and> tc_transfer (\<lambda>_. None) cs 1 1 [[Some 10], [Some 20, Some 21]] [[Some 1, Some 2], [Some 3, Some 4]] False None = Inr res
    \<and> res ! 0 ! 0 = Some 21 \<and> res ! 0 ! 1 = Some 10 \<and> res ! 1 ! 0 = Some 21 \<and> res ! 1 ! 1 = Some 4"
proof -
  let ?srcs = "[demo_view [3] [0], demo_view [7, 8] [0, 1]]" and ?dsts = "[demo_view [8, 3] [0, 1], demo_view [7, 8] [1, -1]]"
  let ?ins = "[[Some 10], [Some 20, Some 21]] :: double list list" and ?outs = "[[Some 1, Some 2], [Some 3, Some 4]] :: double list list"
  have ok: "redistribution_ok ?srcs ?dsts"
    using hash_values by (simp add: redistribution_ok_def nbHashIndexMax_def demo_view_facts holes_last_def holes_behind_def hashes_def cells_def)
  have o: "origin ?srcs (demo_view [8, 3] [0, 1]) 0 = Some (1, 1)" "origin ?srcs (demo_view [8, 3] [0, 1]) 1 = Some (0, 0)"
    "origin ?srcs (demo_view [7, 8] [1, -1]) 0 = Some (1, 1)" "origin ?srcs (demo_view [7, 8] [1, -1]) 1 = None"
    by (simp_all add: origin_def last_shower_def position_of_def demo_view_facts cells_def upt_rec)
  have len: "\<forall>p<length ?dsts. length (?ins ! p) = 1 * (1 * length (lv_index (?srcs ! p)))"
    "\<forall>q<length ?dsts. length (?outs ! q) = 1 * (length (lv_index (?dsts ! q)) * 1)"
    by (auto simp: less_Suc_eq demo_view_facts)
  obtain cs res where r: "tc_computeConnector (\<lambda>_. 99) (\<lambda>_. rev) (\<lambda>xs. xs) ?srcs ?dsts = Inr cs"
    "tc_transfer (\<lambda>_. None) cs 1 1 ?ins ?outs False None = Inr res"
    "\<And>q l c k. q < length ?dsts \<Longrightarrow> l < 1 \<Longrightarrow> c < length (lv_index (?dsts ! q)) \<Longrightarrow> k < 1 \<Longrightarrow>
       let d = (l * length (lv_index (?dsts ! q)) + c) * 1 + k in res ! q ! d
            = (case origin ?srcs (?dsts ! q) c of None \<Rightarrow> if False then None else ?outs ! q ! d
               | Some (p, i) \<Rightarrow> ?ins ! p ! ((l * length (lv_index (?srcs ! p)) + i) * 1 + k))"
    using redistribution [where arrival = "\<lambda>_. rev" and junk = "\<lambda>_. 99" and allreduce = "\<lambda>xs. xs" and junkd = "\<lambda>_. None"
        and ins = ?ins and outs = ?outs and useMissingValue = False and m = None, OF ok _ _ _ _ len] by auto
  have "res ! 0 ! 0 = Some 21" "res ! 0 ! 1 = Some 10" "res ! 1 ! 0 = Some 21" "res ! 1 ! 1 = Some 4"
    using r(3) [of 0 0 0 0] r(3) [of 0 0 1 0] r(3) [of 1 0 0 0] r(3) [of 1 0 1 0] by (simp_all add: o [unfolded One_nat_def] demo_view_facts)
  with r(1,2) show ?thesis by blast
qed

end
