(* ===== verification/Leader.thy ===== *)
theory Leader
  imports Main
begin

text \<open>
  The distribution of the processes of one communicator over those of another
  (\<open>distribution/leader_process.cpp\<close>): of which servers a client is the leader, and which client is the
  leader of a server.  Ranks and sizes are natural numbers; the code subtracts only what is not larger.
\<close>

definition computeLeaderProcess :: "nat \<Rightarrow> nat \<Rightarrow> nat \<Rightarrow> nat list \<times> nat list" where
  "computeLeaderProcess clientRank clientSize serverSize =
     (if clientSize = 0 \<or> serverSize = 0 then ([], [])
      else if clientSize < serverSize then
        let serverByClient = serverSize div clientSize;
            remain = serverSize mod clientSize;
            rankStart = serverByClient * clientRank;
            (serverByClient, rankStart) = (if clientRank < remain then (serverByClient + 1, rankStart + clientRank)
                                           else (serverByClient, rankStart + remain))
        in (map (\<lambda>i. rankStart + i) [0..<serverByClient], [])
      else
        let clientByServer = clientSize div serverSize;
            remain = clientSize mod serverSize
        in if clientRank < (clientByServer + 1) * remain
           then (if clientRank mod (clientByServer + 1) = 0 then ([clientRank div (clientByServer + 1)], [])
                 else ([], [clientRank div (clientByServer + 1)]))
           else let rank = clientRank - (clientByServer + 1) * remain
                in if rank mod clientByServer = 0 then ([remain + rank div clientByServer], [])
                   else ([], [remain + rank div clientByServer]))"

definition getLeaderRank :: "nat \<Rightarrow> nat \<Rightarrow> nat \<Rightarrow> nat" where
  "getLeaderRank clientSize serverSize serverRank =
     (if serverSize < clientSize then
        let serverByClient = clientSize div serverSize;
            remain = clientSize mod serverSize
        in if remain < serverRank then (serverByClient + 1) * remain + serverByClient * (serverRank - remain)
           else (serverByClient + 1) * serverRank
      else
        let serverByClient = serverSize div clientSize;
            remain = serverSize mod clientSize
        in if serverRank < remain * (serverByClient + 1) then serverRank div (serverByClient + 1)
           else remain + (serverRank - (serverByClient + 1) * remain) div serverByClient)"

section \<open>Blocks\<close>

lemma div_eq_block: "0 < n \<Longrightarrow> (k::nat) div n = r \<longleftrightarrow> n * r \<le> k \<and> k < n * r + n"
  by (metis div_nat_eqI mult.commute mult_Suc_right add.commute times_div_less_eq_dividend dividend_less_times_div)

text \<open>A range that is cut into blocks, the first ones longer by one.\<close>

lemma block_of:
  fixes b m r k :: nat
  assumes "0 < b"
  shows "(if k < m * (b + 1) then k div (b + 1) else m + (k - (b + 1) * m) div b) = r
    \<longleftrightarrow> (if r < m then (b + 1) * r \<le> k \<and> k < (b + 1) * r + (b + 1) else b * r + m \<le> k \<and> k < b * r + m + b)"
proof (cases "k < m * (b + 1)")
  case True
  have lt: "k div (b + 1) < m" using True by (simp add: less_mult_imp_div_less)
  have "\<not> (b * r + m \<le> k)" if "m \<le> r"
  proof -
    have "b * m \<le> b * r" by (rule mult_le_mono2 [OF that])
    moreover have "m * (b + 1) = b * m + m" by simp
    ultimately show ?thesis using True by linarith
  qed
  with True lt show ?thesis using div_eq_block [of "b + 1" k r] by auto
next
  case False
  have "k div (b + 1) = r \<Longrightarrow> \<not> r < m" using False by (metis div_less_iff_less_mult zero_less_Suc Suc_eq_plus1)
  have big: "\<not> (k < (b + 1) * r + (b + 1))" if "r < m"
  proof -
    have "(b + 1) * Suc r \<le> (b + 1) * m" using that by (intro mult_le_mono2) simp
    with False show ?thesis by (simp add: algebra_simps)
  qed
  show ?thesis
  proof (cases "r < m")
    case True
    with False big show ?thesis by auto
  next
    case ge: False
    have "m + (k - (b + 1) * m) div b = r \<longleftrightarrow> (k - (b + 1) * m) div b = r - m" using ge by auto
    also have "\<dots> \<longleftrightarrow> b * (r - m) \<le> k - (b + 1) * m \<and> k - (b + 1) * m < b * (r - m) + b" by (rule div_eq_block [OF assms])
    also have "\<dots> \<longleftrightarrow> b * r + m \<le> k \<and> k < b * r + m + b"
    proof -
      obtain d where d: "r = m + d" using ge by (metis le_add_diff_inverse not_less)
      obtain e where e: "k = (b + 1) * m + e" using False by (metis le_add_diff_inverse not_less mult.commute)
      show ?thesis by (simp add: d e algebra_simps)
    qed
    finally show ?thesis using False ge by simp
  qed
qed

lemma few_clients:
  assumes "0 < c" "c < s"
  shows "set (fst (computeLeaderProcess r c s)) = {k. getLeaderRank c s k = r}"
proof -
  let ?b = "s div c" and ?m = "s mod c"
  have b: "0 < ?b" using assms by (simp add: div_greater_zero_iff)
  have l: "getLeaderRank c s k = r \<longleftrightarrow> (if r < ?m then (?b + 1) * r \<le> k \<and> k < (?b + 1) * r + (?b + 1) else ?b * r + ?m \<le> k \<and> k < ?b * r + ?m + ?b)" for k
    using block_of [OF b, of k ?m r] assms by (simp add: getLeaderRank_def Let_def)
  have im: "(\<lambda>i. a + i) ` {0..<n} = {k. a \<le> k \<and> k < a + n}" for a n :: nat
    by (auto simp: image_iff intro: bexI [of _ "_ - a"])
  show ?thesis
    using assms by (auto simp: l computeLeaderProcess_def Let_def im algebra_simps)
qed

lemma many_clients:
  assumes "0 < s" "s \<le> c"
  shows "k \<in> set (fst (computeLeaderProcess r c s)) \<longleftrightarrow> r = getLeaderRank c s k"
proof -
  let ?b = "c div s" and ?m = "c mod s"
  have b: "0 < ?b" using assms by (simp add: div_greater_zero_iff)
  have g: "getLeaderRank c s k = (if ?m < k then (?b + 1) * ?m + ?b * (k - ?m) else (?b + 1) * k)"
    using assms by (cases "c = s") (simp_all add: getLeaderRank_def Let_def)
  have c: "computeLeaderProcess r c s = (if r < (?b + 1) * ?m
      then (if r mod (?b + 1) = 0 then ([r div (?b + 1)], []) else ([], [r div (?b + 1)]))
      else if (r - (?b + 1) * ?m) mod ?b = 0 then ([?m + (r - (?b + 1) * ?m) div ?b], [])
      else ([], [?m + (r - (?b + 1) * ?m) div ?b]))"
    using assms by (simp add: computeLeaderProcess_def Let_def del: One_nat_def)
  have whole: "n mod q = 0 \<and> k = n div q \<longleftrightarrow> n = q * k" if "0 < q" for n q k :: nat
    using that by (metis add.right_neutral mod_mult_self1_is_0 mult.commute mult_div_mod_eq nonzero_mult_div_cancel_left not_less_zero)
  show ?thesis
  proof (cases "r < (?b + 1) * ?m")
    case True
    have "k \<in> set (fst (computeLeaderProcess r c s)) \<longleftrightarrow> r mod (?b + 1) = 0 \<and> k = r div (?b + 1)"
      unfolding c if_P [OF True] by simp
    also have "\<dots> \<longleftrightarrow> r = (?b + 1) * k" by (rule whole) simp
    also have "\<dots> \<longleftrightarrow> r = getLeaderRank c s k"
    proof (cases "?m < k")
      case big: True
      then have "(?b + 1) * ?m \<le> (?b + 1) * k" by (intro mult_le_mono2) simp
      with True big show ?thesis by (simp add: g)
    qed (simp add: g)
    finally show ?thesis .
  next
    case False
    let ?q = "r - (?b + 1) * ?m"
    have "k \<in> set (fst (computeLeaderProcess r c s)) \<longleftrightarrow> ?q mod ?b = 0 \<and> k = ?m + ?q div ?b"
      unfolding c if_not_P [OF False] by simp
    also have "\<dots> \<longleftrightarrow> ?m \<le> k \<and> (?q mod ?b = 0 \<and> k - ?m = ?q div ?b)" by auto
    also have "\<dots> \<longleftrightarrow> ?m \<le> k \<and> ?q = ?b * (k - ?m)" by (simp only: whole [OF b])
    also have "\<dots> \<longleftrightarrow> ?m \<le> k \<and> r = (?b + 1) * ?m + ?b * (k - ?m)" using False by auto
    also have "\<dots> \<longleftrightarrow> r = getLeaderRank c s k"
    proof (cases "?m \<le> k")
      case True
      show ?thesis
      proof (cases "?m < k")
        case False
        with True have kk: "k - ?m = 0" "(?b + 1) * k = (?b + 1) * ?m" by simp_all
        from True show ?thesis unfolding g if_not_P [OF False] kk by simp
      qed (use True in \<open>simp add: g\<close>)
    next
      case small: False
      have "(?b + 1) * Suc k \<le> (?b + 1) * ?m" using small by (intro mult_le_mono2) simp
      then have "(?b + 1) * k < (?b + 1) * ?m" by simp
      with small False show ?thesis by (auto simp: g)
    qed
    finally show ?thesis .
  qed
qed

lemma leader_less:
  assumes "0 < c" "0 < s" "k < s"
  shows "getLeaderRank c s k < c"
proof (cases "s < c")
  case True
  let ?b = "c div s" and ?m = "c mod s"
  have c: "c = ?b * s + ?m" by simp
  have b: "0 < ?b" using True assms by (simp add: div_greater_zero_iff)
  have g: "getLeaderRank c s k = ?b * k + min k ?m"
  proof (cases "?m < k")
    case True
    then have "?b * k = ?b * ?m + ?b * (k - ?m)" by (metis add_mult_distrib2 le_add_diff_inverse less_imp_le)
    with True \<open>s < c\<close> show ?thesis by (simp add: getLeaderRank_def Let_def)
  qed (use \<open>s < c\<close> in \<open>simp add: getLeaderRank_def Let_def\<close>)
  have "?b * k < ?b * s" using b assms(3) by simp
  then show ?thesis using c g by linarith
next
  case False
  let ?b = "s div c" and ?m = "s mod c"
  have b: "0 < ?b" using False assms by (simp add: div_greater_zero_iff)
  have s: "s = ?b * c + ?m" by simp
  have m: "?m < c" using assms(1) by simp
  show ?thesis
  proof (rule ccontr)
    assume "\<not> getLeaderRank c s k < c"
    then obtain r where r: "getLeaderRank c s k = r" "c \<le> r" by simp
    have "(if k < ?m * (?b + 1) then k div (?b + 1) else ?m + (k - (?b + 1) * ?m) div ?b) = r"
      using r(1) False by (simp add: getLeaderRank_def Let_def)
    then have "?b * r + ?m \<le> k" using block_of [OF b, of k ?m r] r(2) m by (simp split: if_splits)
    moreover have "?b * c \<le> ?b * r" by (rule mult_le_mono2 [OF r(2)])
    ultimately show False using s assms(3) by linarith
  qed
qed

section \<open>Leaders\<close>

text \<open>C21: Whatever the numbers of clients and servers, each server has exactly one leader among the clients:
  a client finds a server in the list of those it leads just when it is the one that
  \<open>getLeaderRank\<close> names for the server.\<close>

theorem one_leader:
  assumes "0 < clientSize" "serverRank < serverSize"
  shows "getLeaderRank clientSize serverSize serverRank < clientSize
    \<and> (\<forall>clientRank<clientSize. serverRank \<in> set (fst (computeLeaderProcess clientRank clientSize serverSize))
          \<longleftrightarrow> clientRank = getLeaderRank clientSize serverSize serverRank)"
  using leader_less [OF assms(1) _ assms(2)] few_clients [OF assms(1), of serverSize] many_clients [of serverSize clientSize serverRank] assms
  by (cases "clientSize < serverSize") auto

lemma one_leader_witness:
  "3 \<in> set (fst (computeLeaderProcess 1 2 5)) \<and> 3 \<notin> set (fst (computeLeaderProcess 0 2 5))"
proof -
  have "getLeaderRank 2 5 3 = 1" by (simp add: getLeaderRank_def)
  then show ?thesis using one_leader [of 2 3 5] by (simp add: less_Suc_eq numeral_2_eq_2)
qed

end
