(* ===== verification/GridRemote.thy ===== *)
theory GridRemote
  imports TransformConnector Leader
begin

text \<open>
  Which cells of a grid go to which rank of a remote grid (\<open>distribution/grid_remote_connector.cpp\<close>): whether
  the views of an element are distributed, and the generic method, by which the processes put the
  indices of the remote grid into the distributed hash table and ask it for their own.

  As in \<open>TransformConnector\<close> all processes act together; their views are one list of views per process, with one
  view per element of the grid, the innermost first.  \<open>MPI_Allreduce\<close> gives each process the sum, the
  least or the largest of what all of them put in.  Ranks are not negative and are keys of hash tables as
  \<open>size_t\<close>.
\<close>

section \<open>Distributed views\<close>

definition view_hash :: "nat list \<Rightarrow> 64 word" where
  "view_hash gs = fold (\<lambda>g h. h + jenkins_hash (word_of_nat g)) gs 0"

definition dst_marks :: "nat \<Rightarrow> (int, nat list) std_map \<Rightarrow> (64 word list \<times> nat list) outcome" where
  "dst_marks remoteSize globalIndexView =
     ofold (\<lambda>(rank, globalIndex) (hashRank, sizeRank).
         obind (arr_get hashRank rank) (\<lambda>h. obind (arr_set hashRank rank (h + view_hash globalIndex)) (\<lambda>hashRank.
         obind (arr_get sizeRank rank) (\<lambda>s. omap (Pair hashRank) (arr_set sizeRank rank (s + length globalIndex))))))
       globalIndexView (replicate remoteSize 0, replicate remoteSize 0)"

definition isDstViewDistributed :: "nat \<Rightarrow> (int, nat list) std_map list \<Rightarrow> bool outcome" where
  "isDstViewDistributed remoteSize globalIndexViews =
     obind (otraverse (dst_marks remoteSize) globalIndexViews) (\<lambda>marks.
     let hashRank = map (\<lambda>j. sum_list (map (\<lambda>m. fst m ! j) marks)) [0..<remoteSize];
         sizeRank = map (\<lambda>j. sum_list (map (\<lambda>m. snd m ! j) marks)) [0..<remoteSize]
     in obind (arr_get hashRank 0) (\<lambda>value.
        omap (\<lambda>s. list_ex (\<lambda>j. s \<noteq> sizeRank ! j \<or> value \<noteq> hashRank ! j) [0..<remoteSize]) (arr_get sizeRank 0)))"

definition all_min :: "'a::linorder list \<Rightarrow> 'a" where
  "all_min xs = fold min xs (hd xs)"

definition all_max :: "'a::linorder list \<Rightarrow> 'a" where
  "all_max xs = fold max xs (hd xs)"

text \<open>The loop over the source views ends at the first element whose views differ in size; the flags of the
  elements behind it stay as \<open>resize\<close> has left them.\<close>

fun isSrcViewDistributed :: "(nat \<Rightarrow> nat) \<Rightarrow> local_view list list \<Rightarrow> nat list \<Rightarrow> bool list outcome" where
  "isSrcViewDistributed junk srcViews [] = Inr []"
| "isSrcViewDistributed junk srcViews (i # is) =
     obind (otraverse (\<lambda>vs. lv_getGlobalIndexView junk (vs ! i)) srcViews) (\<lambda>globalIndex.
     if all_min (map length globalIndex) \<noteq> all_max (map length globalIndex)
     then Inr (True # replicate (length is) False)
     else omap (Cons (all_min (map view_hash globalIndex) \<noteq> all_max (map view_hash globalIndex)))
            (isSrcViewDistributed junk srcViews is))"

definition computeViewDistribution ::
  "(nat \<Rightarrow> nat) \<Rightarrow> nat \<Rightarrow> nat \<Rightarrow> local_view list list \<Rightarrow> distributed_view list list \<Rightarrow> (bool list \<times> bool list) outcome" where
  "computeViewDistribution junk remoteSize nElements srcViews dstViews =
     obind (otraverse (\<lambda>i. obind (otraverse (\<lambda>vs. dv_getGlobalIndexView junk (vs ! i) []) dstViews) (isDstViewDistributed remoteSize))
       [0..<nElements]) (\<lambda>isDst.
     omap (\<lambda>isSrc. (isSrc, isDst)) (isSrcViewDistributed junk srcViews [0..<nElements]))"

section \<open>The generic method\<close>

fun slice_sizes :: "nat \<Rightarrow> nat list \<Rightarrow> nat list" where
  "slice_sizes s [] = []"
| "slice_sizes s (n # ns) = s # slice_sizes (n * s) ns"

text \<open>The indices of the remote grid up to an element, for each rank of the view of the process.\<close>

definition gm_combine :: "bool \<Rightarrow> nat \<Rightarrow> nat info_map \<Rightarrow> (int, nat list) std_map \<Rightarrow> nat info_map" where
  "gm_combine isFirst sliceSize lastInfo globalIndexView = map (\<lambda>(rank, globalIndex). (nat rank,
     if isFirst then globalIndex
     else concat (map (\<lambda>lastGlobalInd. map (\<lambda>g. g * sliceSize + lastGlobalInd) globalIndex) (infos lastInfo (nat rank)))))
   globalIndexView"

definition gm_step ::
  "(nat \<Rightarrow> nat) \<Rightarrow> distributed_view list list \<Rightarrow> nat \<Rightarrow> nat info_map list \<Rightarrow> nat info_map list outcome" where
  "gm_step junk dstViews pos info =
     obind (otraverse (\<lambda>vs. dv_getGlobalIndexView junk (vs ! pos) []) dstViews) (\<lambda>globalIndexViews.
     omap (\<lambda>lastInfo. map (\<lambda>(vs, l, view). gm_combine (pos = 0) (slice_sizes 1 (map dv_globalSize vs) ! pos) l view)
             (zip dstViews (zip lastInfo globalIndexViews)))
       (if pos = 0 then Inr info
        else obind (construct_dht info) (\<lambda>dataRanks.
             computeIndexInfoMapping dataRanks (map (map (nat \<circ> fst)) globalIndexViews))))"

definition gm_dataInfo :: "nat info_map \<Rightarrow> nat info_map" where
  "gm_dataInfo info = fold (\<lambda>(rank, globalIndex). fold (\<lambda>g. info_push (g, rank)) globalIndex) info []"

text \<open>The index of each element for a cell of the grid, the outermost element first.\<close>

fun gm_digits :: "nat list \<Rightarrow> nat \<Rightarrow> nat list" where
  "gm_digits [] g = []"
| "gm_digits (s # ss) g = g div s # gm_digits ss (g mod s)"

definition gm_element :: "nat list \<Rightarrow> nat \<Rightarrow> nat info_map \<Rightarrow> (int, nat list) std_map" where
  "gm_element srcSliceSize i returnInfo = map (\<lambda>(rank, indGlo). (rank, sorted_list_of_set indGlo))
     (fold (\<lambda>(gridIndexGlo, ranks). fold (\<lambda>rank element. std_put (int rank)
          (insert (rev (gm_digits (rev srcSliceSize) gridIndexGlo) ! i) (std_at {} element (int rank))) element) ranks)
        returnInfo [])"

text \<open>The ranks nobody has anything for are shared out.\<close>

definition gm_void :: "nat \<Rightarrow> nat \<Rightarrow> nat \<Rightarrow> int list \<Rightarrow> (int, nat list) std_map list \<Rightarrow> (int, nat list) std_map list" where
  "gm_void remoteSize commSize commRank ranks elements = snd (fold (\<lambda>i (pos, elements).
       if ranks ! i = 0
       then (pos + 1, if pos mod commSize = commRank then map (std_put (int i) []) elements else elements)
       else (pos, elements))
     [0..<remoteSize] (0, elements))"

definition computeGenericMethod ::
  "(nat \<Rightarrow> nat) \<Rightarrow> nat \<Rightarrow> nat \<Rightarrow> local_view list list \<Rightarrow> distributed_view list list
     \<Rightarrow> (int, nat list) std_map list list outcome" where
  "computeGenericMethod junk remoteSize nElements srcViews dstViews =
     (let commSize = length srcViews
      in obind (ofold (gm_step junk dstViews) [0..<nElements] (replicate commSize [])) (\<lambda>info.
         obind (construct_dht (map gm_dataInfo info)) (\<lambda>dataRanks.
         obind (otraverse (\<lambda>vs. lv_getGlobalIndex [] 0 (rev (zip vs (slice_sizes 1 (map lv_globalSize vs))))) srcViews) (\<lambda>srcGlobalIndex.
         obind (computeIndexInfoMapping dataRanks srcGlobalIndex) (\<lambda>returnInfo.
         let elements = map2 (\<lambda>vs info. map (\<lambda>i. gm_element (slice_sizes 1 (map lv_globalSize vs)) i info) [0..<nElements]) srcViews returnInfo
         in omap (\<lambda>marks.
              let ranks = map (\<lambda>i. sum_list (map (\<lambda>m. m ! i) marks)) [0..<remoteSize]
              in map2 (\<lambda>commRank es. gm_void remoteSize commSize commRank ranks es) [0..<commSize] elements)
            (otraverse (\<lambda>es. obind (arr_get es 0) (tc_nbSenders remoteSize)) elements))))))"

text \<open>\<open>computeConnector(false)\<close>\<close>

definition computeConnectorRedundant ::
  "(nat \<Rightarrow> nat) \<Rightarrow> nat \<Rightarrow> nat \<Rightarrow> local_view list list \<Rightarrow> distributed_view list list
     \<Rightarrow> ((bool list \<times> bool list) \<times> (int, nat list) std_map list list) outcome" where
  "computeConnectorRedundant junk remoteSize nElements srcViews dstViews =
     obind (computeViewDistribution junk remoteSize nElements srcViews dstViews) (\<lambda>flags.
     omap (Pair flags) (computeGenericMethod junk remoteSize nElements srcViews dstViews))"

end
