(* ===== verification/GridRemoteProps.thy ===== *)
theory GridRemoteProps
  imports GridRemote TransformClaims
begin

text \<open>
  The cells of a grid as numbers in a mixed radix, and the indices the processes put together for each
  rank of the remote grid: the product of what the views show.
\<close>

section \<open>Numbers of cells\<close>

lemma in_box_simps [simp]: "in_box [] gs \<longleftrightarrow> gs = []" "in_box (n # ns) (g # gs) \<longleftrightarrow> g < n \<and> in_box ns gs"
  "\<not> in_box (n # ns) []"
  by (auto simp: in_box_def)

lemma in_box_length: "in_box ns gs \<Longrightarrow> length gs = length ns"
  by (auto simp: in_box_def dest: list_all2_lengthD)

fun down_sizes :: "nat list \<Rightarrow> nat list" where
  "down_sizes [] = []"
| "down_sizes (n # ns) = prod_list ns # down_sizes ns"

lemma down_sizes_snoc: "down_sizes (ns @ [n]) = map (\<lambda>s. s * n) (down_sizes ns) @ [1]"
  by (induction ns) simp_all

lemma slice_sizes_down: "slice_sizes s ns = map (\<lambda>x. x * s) (rev (down_sizes (rev ns)))"
proof (induction ns arbitrary: s)
  case (Cons n ns)
  then show ?case by (simp add: down_sizes_snoc rev_map comp_def ac_simps)
qed simp

lemma rev_slice_sizes: "rev (slice_sizes 1 ns) = down_sizes (rev ns)"
  by (simp add: slice_sizes_down)

lemma slice_sizes_nth: "i < length ns \<Longrightarrow> slice_sizes s ns ! i = s * prod_list (take i ns)"
  by (induction ns arbitrary: s i) (simp_all add: nth_Cons ac_simps split: nat.split)

lemma length_slice_sizes [simp]: "length (slice_sizes s ns) = length ns"
  by (induction ns arbitrary: s) simp_all

lemma flat_sum: "length gs = length ns \<Longrightarrow> flat ns gs = sum_list (map2 (*) gs (down_sizes ns))"
  by (induction ns gs rule: list_induct2') simp_all

lemma gm_digits_flat: "in_box ns gs \<Longrightarrow> gm_digits (down_sizes ns) (flat ns gs) = gs"
proof (induction ns arbitrary: gs)
  case (Cons n ns)
  then obtain g hs where g: "gs = g # hs" "in_box ns hs" by (cases gs) auto
  with flat_less [OF g(2)] Cons.IH [OF g(2)] show ?case by simp
qed simp

lemma flat_inj: "in_box ns gs \<Longrightarrow> in_box ns hs \<Longrightarrow> flat ns gs = flat ns hs \<Longrightarrow> gs = hs"
  by (metis gm_digits_flat)

section \<open>What a distributed view shows\<close>

definition dv_shown :: "distributed_view \<Rightarrow> int \<Rightarrow> nat list" where
  "dv_shown v rank = shown (cells (std_at [] (dv_index v) rank) (std_at [] (dv_globalIndex v) rank))"

definition dv_ok :: "nat \<Rightarrow> nat \<Rightarrow> distributed_view \<Rightarrow> bool" where
  "dv_ok remoteSize globalSize v \<longleftrightarrow> in_order (dv_globalIndex v) \<and> dv_globalSize v = globalSize
     \<and> list_all (\<lambda>(rank, gs). 0 \<le> rank \<and> rank < int remoteSize
          \<and> std_at 0 (dv_size v) rank = int (length (std_at [] (dv_index v) rank)) \<and> std_at 0 (dv_localSize v) rank = int (length gs)
          \<and> holes_behind (cells (std_at [] (dv_index v) rank) gs) \<and> list_all (\<lambda>g. g < globalSize) (dv_shown v rank))
        (dv_globalIndex v)"

definition dv_table :: "distributed_view \<Rightarrow> (int, nat list) std_map" where
  "dv_table v = map (\<lambda>(rank, gs). (rank, dv_shown v rank)) (dv_globalIndex v)"

lemma dv_ok_facts:
  assumes "dv_ok n m v"
  shows "in_order (dv_globalIndex v)" "dv_globalSize v = m"
    "\<And>rank gs. (rank, gs) \<in> set (dv_globalIndex v) \<Longrightarrow> 0 \<le> rank \<and> rank < int n
          \<and> std_at 0 (dv_size v) rank = int (length (std_at [] (dv_index v) rank)) \<and> std_at 0 (dv_localSize v) rank = int (length gs)
          \<and> holes_behind (cells (std_at [] (dv_index v) rank) gs)"
    "\<And>rank g. rank \<in> fst ` set (dv_globalIndex v) \<Longrightarrow> g \<in> set (dv_shown v rank) \<Longrightarrow> g < m"
  using assms by (auto simp: dv_ok_def list_all_iff)

lemma dv_table_eq:
  assumes "dv_ok n m v"
  shows "dv_getGlobalIndexView junk v [] = Inr (dv_table v)"
  unfolding dv_getGlobalIndexView_def dv_table_def
proof (rule ofold_put_id [OF dv_ok_facts(1) [OF assms]])
  fix rank gs acc assume m: "(rank, gs) \<in> set (dv_globalIndex v)"
  note v = dv_ok_facts(3) [OF assms m]
  have g: "std_at [] (dv_globalIndex v) rank = gs" using in_order_map_of [OF dv_ok_facts(1) [OF assms] m] by (simp add: std_at_def)
  have "index_view junk (std_at 0 (dv_size v) rank) (std_at [] (dv_index v) rank) (std_at 0 (dv_localSize v) rank) gs = Inr (dv_shown v rank)"
    unfolding dv_shown_def g using v by (intro index_view_front [OF _ _ holes_shape]) auto
  then show "(case (rank, gs) of (rank, globalIndex) \<Rightarrow> \<lambda>out. omap (\<lambda>gv. std_put rank gv out)
      (index_view junk (std_at 0 (dv_size v) rank) (std_at [] (dv_index v) rank) (std_at 0 (dv_localSize v) rank) globalIndex)) acc
    = Inr (std_put rank (dv_shown v rank) acc)" by simp
qed

lemma dv_table_mem: "(rank, gs) \<in> set (dv_table v) \<longleftrightarrow> rank \<in> fst ` set (dv_globalIndex v) \<and> gs = dv_shown v rank"
  by (force simp: dv_table_def)

lemma dv_shown_empty: "rank \<notin> fst ` set (dv_globalIndex v) \<Longrightarrow> dv_shown v rank = []"
proof -
  assume "rank \<notin> fst ` set (dv_globalIndex v)"
  then have "std_at [] (dv_globalIndex v) rank = []" by (simp add: std_at_def map_of_eq_None_iff [THEN iffD2])
  moreover have "cells index [] = replicate (length index) None" for index by (rule nth_equalityI) (simp_all add: cells_nth Let_def)
  moreover have "shown (replicate k (None :: nat option)) = []" for k by (induction k) simp_all
  ultimately show ?thesis by (simp add: dv_shown_def)
qed

section \<open>The indices of the remote grid\<close>

text \<open>The cells of the remote grid up to an element when \<open>T i\<close> are the indices of element \<open>i\<close>.\<close>

fun gm_cells :: "nat list \<Rightarrow> (nat \<Rightarrow> nat set) \<Rightarrow> nat \<Rightarrow> nat set" where
  "gm_cells gss T 0 = {0}"
| "gm_cells gss T (Suc k) = {g * prod_list (take k gss) + x | g x. g \<in> T k \<and> x \<in> gm_cells gss T k}"

lemma gm_cells_less:
  "k \<le> length gss \<Longrightarrow> (\<And>i g. i < k \<Longrightarrow> g \<in> T i \<Longrightarrow> g < gss ! i) \<Longrightarrow> x \<in> gm_cells gss T k \<Longrightarrow> x < prod_list (take k gss)"
proof (induction k arbitrary: x)
  case (Suc k)
  then obtain g y where g: "x = g * prod_list (take k gss) + y" "g \<in> T k" "y \<in> gm_cells gss T k" by auto
  have "y < prod_list (take k gss)" by (rule Suc.IH) (use Suc.prems g in auto)
  moreover have "g < gss ! k" using Suc.prems(2) g(2) by blast
  ultimately have "x < gss ! k * prod_list (take k gss)" unfolding g(1) by (intro block_index_bounds)
  with Suc.prems(1) show ?case by (simp add: take_Suc_conv_app_nth mult.commute)
qed simp

lemma gm_cells_flat:
  assumes "\<And>i g. i < length gss \<Longrightarrow> g \<in> T i \<Longrightarrow> g < gss ! i"
  shows "k \<le> length gss \<Longrightarrow> length gs = k \<Longrightarrow> in_box (rev (take k gss)) (rev gs) \<Longrightarrow>
     flat (rev (take k gss)) (rev gs) \<in> gm_cells gss T k \<longleftrightarrow> (\<forall>i<k. gs ! i \<in> T i)"
proof (induction k arbitrary: gs)
  case (Suc k)
  then obtain hs g where gs: "gs = hs @ [g]" "length hs = k" by (metis length_Suc_conv_rev)
  have t: "rev (take (Suc k) gss) = gss ! k # rev (take k gss)" using Suc.prems(1) by (simp add: take_Suc_conv_app_nth)
  let ?P = "prod_list (take k gss)" and ?x = "flat (rev (take k gss)) (rev hs)"
  have box: "g < gss ! k" "in_box (rev (take k gss)) (rev hs)" using Suc.prems(3) by (simp_all add: t gs(1))
  have x: "?x < ?P" using flat_less [OF box(2)] by (simp add: prod_list.rev)
  have f: "flat (rev (take (Suc k) gss)) (rev gs) = g * ?P + ?x" by (simp add: t gs(1) prod_list.rev)
  have "g * ?P + ?x \<in> gm_cells gss T (Suc k) \<longleftrightarrow> g \<in> T k \<and> ?x \<in> gm_cells gss T k"
  proof
    assume "g * ?P + ?x \<in> gm_cells gss T (Suc k)"
    then obtain h y where y: "g * ?P + ?x = h * ?P + y" "h \<in> T k" "y \<in> gm_cells gss T k" by auto
    have "y < ?P" by (rule gm_cells_less [OF _ _ y(3)]) (use Suc.prems(1) assms in auto)
    from block_index_inj [OF y(1) x this] y(2,3) show "g \<in> T k \<and> ?x \<in> gm_cells gss T k" by simp
  qed auto
  also have "?x \<in> gm_cells gss T k \<longleftrightarrow> (\<forall>i<k. hs ! i \<in> T i)"
    using Suc.prems(1) gs(2) box(2) by (intro Suc.IH) simp_all
  finally show ?case unfolding f by (auto simp: gs less_Suc_eq nth_append)
qed simp

definition gm_ok :: "nat list \<Rightarrow> nat \<Rightarrow> local_view list list \<Rightarrow> distributed_view list list \<Rightarrow> bool" where
  "gm_ok gss remoteSize srcs dsts \<longleftrightarrow> gss \<noteq> [] \<and> srcs \<noteq> [] \<and> length srcs = length dsts \<and> length dsts \<le> nbHashIndexMax
     \<and> list_all (\<lambda>vs. list_all2 (\<lambda>n v. lv_ok v \<and> lv_globalSize v = n \<and> list_all (\<lambda>g. g < n) (shown (lv_cells v))) gss vs) srcs
     \<and> list_all (\<lambda>vs. list_all2 (dv_ok remoteSize) gss vs) dsts
     \<and> hashes [0..<remoteSize] \<and> hashes [0..<prod_list gss]"

text \<open>The indices a rank of the remote grid shows, whoever knows of them.\<close>

definition remote_cells :: "distributed_view list list \<Rightarrow> nat \<Rightarrow> nat \<Rightarrow> nat set" where
  "remote_cells dsts r i = (\<Union>vs\<in>set dsts. set (dv_shown (vs ! i) (int r)))"

lemma gm_ok_dst:
  assumes "gm_ok gss N srcs dsts" "vs \<in> set dsts"
  shows "length vs = length gss" "i < length gss \<Longrightarrow> dv_ok N (gss ! i) (vs ! i)" "map dv_globalSize vs = gss"
proof -
  have a: "list_all2 (dv_ok N) gss vs" using assms by (simp add: gm_ok_def list_all_iff)
  then show l: "length vs = length gss" by (simp add: list_all2_lengthD)
  show d: "i < length gss \<Longrightarrow> dv_ok N (gss ! i) (vs ! i)" for i using a by (simp add: list_all2_conv_all_nth)
  show "map dv_globalSize vs = gss" by (rule nth_equalityI) (use l dv_ok_facts(2) [OF d] in simp_all)
qed

lemma remote_cells_less: "gm_ok gss N srcs dsts \<Longrightarrow> i < length gss \<Longrightarrow> g \<in> remote_cells dsts r i \<Longrightarrow> g < gss ! i"
proof -
  assume ok: "gm_ok gss N srcs dsts" and i: "i < length gss" and g: "g \<in> remote_cells dsts r i"
  then obtain vs where vs: "vs \<in> set dsts" "g \<in> set (dv_shown (vs ! i) (int r))" by (auto simp: remote_cells_def)
  then have "int r \<in> fst ` set (dv_globalIndex (vs ! i))" using dv_shown_empty by fastforce
  from dv_ok_facts(4) [OF gm_ok_dst(2) [OF ok vs(1) i] this vs(2)] show "g < gss ! i" .
qed

definition gm_inv :: "nat list \<Rightarrow> nat \<Rightarrow> distributed_view list list \<Rightarrow> nat \<Rightarrow> nat info_map list \<Rightarrow> bool" where
  "gm_inv gss N dsts k info \<longleftrightarrow> length info = length dsts
     \<and> (\<forall>m\<in>set info. distinct (map fst m) \<and> (\<forall>r\<in>fst ` set m. r < N))
     \<and> (0 < k \<longrightarrow> (\<forall>r. (\<Union>m\<in>set info. set (infos m r)) = gm_cells gss (remote_cells dsts r) k))"

lemma gm_combine_facts:
  assumes "dv_ok N n v"
  shows "distinct (map fst (gm_combine b s l (dv_table v)))" "\<forall>r\<in>fst ` set (gm_combine b s l (dv_table v)). r < N"
    "set (infos (gm_combine b s l (dv_table v)) r) = (if b then set (dv_shown v (int r))
       else {g * s + x | g x. g \<in> set (dv_shown v (int r)) \<and> x \<in> set (infos l r)})"
proof -
  let ?F = "\<lambda>rank. if b then dv_shown v rank
     else concat (map (\<lambda>lastGlobalInd. map (\<lambda>g. g * s + lastGlobalInd) (dv_shown v rank)) (infos l (nat rank)))"
  let ?m = "dv_globalIndex v"
  have eq: "gm_combine b s l (dv_table v) = map (\<lambda>(rank, gs). (nat rank, ?F rank)) ?m"
    by (simp add: gm_combine_def dv_table_def case_prod_beta comp_def)
  have rk: "0 \<le> rank \<and> rank < int N" if "rank \<in> fst ` set ?m" for rank using dv_ok_facts(3) [OF assms] that by auto
  have fst_eq: "map fst (gm_combine b s l (dv_table v)) = map nat (map fst ?m)" by (simp add: eq case_prod_beta comp_def)
  have "inj_on nat (set (map fst ?m))" using rk by (auto simp: inj_on_def) (metis fst_conv image_eqI int_nat_eq)
  with dv_ok_facts(1) [OF assms] show d: "distinct (map fst (gm_combine b s l (dv_table v)))"
    unfolding fst_eq distinct_map in_order_def by blast
  show "\<forall>r\<in>fst ` set (gm_combine b s l (dv_table v)). r < N"
    using rk unfolding set_map [symmetric] fst_eq by fastforce
  show "set (infos (gm_combine b s l (dv_table v)) r) = (if b then set (dv_shown v (int r))
       else {g * s + x | g x. g \<in> set (dv_shown v (int r)) \<and> x \<in> set (infos l r)})"
  proof (cases "int r \<in> fst ` set ?m")
    case True
    then obtain gs where "(int r, gs) \<in> set ?m" by auto
    then have "(r, ?F (int r)) \<in> set (gm_combine b s l (dv_table v))" unfolding eq by force
    with d have "infos (gm_combine b s l (dv_table v)) r = ?F (int r)" by (simp add: infos_def)
    then show ?thesis by auto
  next
    case False
    have "r \<notin> fst ` set (gm_combine b s l (dv_table v))"
    proof
      assume "r \<in> fst ` set (gm_combine b s l (dv_table v))"
      then obtain rank where "rank \<in> fst ` set ?m" "r = nat rank" unfolding set_map [symmetric] fst_eq by auto
      with rk False show False by simp
    qed
    then have "infos (gm_combine b s l (dv_table v)) r = []" by (simp add: infos_def map_of_eq_None_iff [THEN iffD2])
    with dv_shown_empty [OF False] show ?thesis by simp
  qed
qed

end
