(* ===== verification/GridRemoteGeneric.thy ===== *)
theory GridRemoteGeneric
  imports GridRemoteProps
begin

text \<open>
  The generic method: the table of the remote grid, the questions, and what each process finds to send
  to each rank.
\<close>

section \<open>The indices of the remote grid, element by element\<close>

lemma gm_tables:
  assumes "gm_ok gss N srcs dsts" "k < length gss"
  shows "otraverse (\<lambda>vs. dv_getGlobalIndexView junk (vs ! k) []) dsts = Inr (map (\<lambda>vs. dv_table (vs ! k)) dsts)"
  by (rule otraverse_ok) (rule dv_table_eq [OF gm_ok_dst(2) [OF assms(1) _ assms(2)]])

lemma dht_infos_Union: "set (dht_infos maps i) = (\<Union>m\<in>set maps. set (infos m i))"
  by (simp add: dht_infos_def)

lemma gm_asked:
  assumes ok: "gm_ok gss N srcs dsts" and inv: "gm_inv gss N dsts k info" and k: "0 < k" "k < length gss"
  shows "\<exists>t found. construct_dht info = Inr t
    \<and> computeIndexInfoMapping t (map (map (nat \<circ> fst)) (map (\<lambda>vs. dv_table (vs ! k)) dsts)) = Inr found
    \<and> length found = length dsts
    \<and> (\<forall>p<length dsts. \<forall>r. dv_shown (dsts ! p ! k) (int r) \<noteq> [] \<longrightarrow> set (infos (found ! p) r) = gm_cells gss (remote_cells dsts r) k)"
proof -
  let ?qs = "map (map (nat \<circ> fst)) (map (\<lambda>vs. dv_table (vs ! k)) dsts)"
  have len: "length info = length dsts" and keys: "\<forall>m\<in>set info. distinct (map fst m)" "\<forall>m\<in>set info. \<forall>r\<in>fst ` set m. r < N"
    using inv by (simp_all add: gm_inv_def)
  have h: "\<And>r. r < N \<Longrightarrow> hashXIOS r < nbHashIndexMax" using ok by (simp add: gm_ok_def hashes_def list_all_iff)
  have n: "length info \<le> nbHashIndexMax" using ok len by (simp add: gm_ok_def)
  have hok: "hash_ok info" using keys(2) h unfolding hash_ok_def by blast
  have q1: "length ?qs = length info" by (simp add: len)
  have q2: "\<forall>is\<in>set ?qs. hashes is"
  proof
    fix qs assume "qs \<in> set ?qs"
    then obtain vs where vs: "vs \<in> set dsts" "qs = map (nat \<circ> fst) (dv_table (vs ! k))" by auto
    have "hashXIOS r < nbHashIndexMax" if "r \<in> set qs" for r
    proof -
      obtain rank gs where rk: "(rank, gs) \<in> set (dv_globalIndex (vs ! k))" "r = nat rank" using \<open>r \<in> set qs\<close> by (force simp: vs(2) dv_table_def)
      with dv_ok_facts(3) [OF gm_ok_dst(2) [OF ok vs(1) k(2)] rk(1)] show ?thesis by (intro h) (simp add: nat_less_iff)
    qed
    then show "hashes qs" by (simp add: hashes_def list_all_iff)
  qed
  obtain t found where f: "construct_dht info = Inr t" "computeIndexInfoMapping t ?qs = Inr found" "length found = length dsts"
    "\<And>p i. p < length dsts \<Longrightarrow> map_of (found ! p) i = (if i \<in> set (?qs ! p) \<and> dht_infos info i \<noteq> [] then Some (dht_infos info i) else None)"
    using dht_end_to_end [OF n keys(1) hok q1 q2] unfolding len by blast
  have "set (infos (found ! p) r) = gm_cells gss (remote_cells dsts r) k" if p: "p < length dsts" and r: "dv_shown (dsts ! p ! k) (int r) \<noteq> []" for p r
  proof -
    have "int r \<in> fst ` set (dv_globalIndex (dsts ! p ! k))" using r dv_shown_empty by blast
    then have "(int r, dv_shown (dsts ! p ! k) (int r)) \<in> set (dv_table (dsts ! p ! k))" by (simp add: dv_table_mem)
    then have "r \<in> set (?qs ! p)" using p by force
    with f(4) [OF p, of r] have "infos (found ! p) r = dht_infos info r" by (simp add: infos_def)
    then show ?thesis using inv k(1) by (simp add: dht_infos_Union gm_inv_def)
  qed
  with f(1-3) show ?thesis by blast
qed

lemma UN_set_nth: "(\<Union>x\<in>set xs. f x) = (\<Union>p<length xs. f (xs ! p))"
  by (auto simp: set_conv_nth)

lemma gm_step_inv:
  assumes ok: "gm_ok gss N srcs dsts" and inv: "gm_inv gss N dsts k info" and k: "k < length gss"
  shows "\<exists>info'. gm_step junk dsts k info = Inr info' \<and> gm_inv gss N dsts (Suc k) info'"
proof -
  let ?n = "length dsts"
  have len: "length info = ?n" using inv by (simp add: gm_inv_def)
  let ?tables = "map (\<lambda>vs. dv_table (vs ! k)) dsts"
  obtain l where l: "(if k = 0 then Inr info else obind (construct_dht info) (\<lambda>t. computeIndexInfoMapping t (map (map (nat \<circ> fst)) ?tables))) = Inr l"
    "length l = ?n" "0 < k \<Longrightarrow> \<forall>p<?n. \<forall>r. dv_shown (dsts ! p ! k) (int r) \<noteq> [] \<longrightarrow> set (infos (l ! p) r) = gm_cells gss (remote_cells dsts r) k"
  proof (cases "k = 0")
    case True
    with len that show thesis by simp
  next
    case False
    with gm_asked [OF ok inv _ k] that show thesis by auto
  qed
  define info' where "info' = map (\<lambda>(vs, l, view). gm_combine (k = 0) (slice_sizes 1 (map dv_globalSize vs) ! k) l view) (zip dsts (zip l ?tables))"
  have nth: "info' ! p = gm_combine (k = 0) (prod_list (take k gss)) (l ! p) (dv_table (dsts ! p ! k))" if "p < ?n" for p
    using that l(2) k gm_ok_dst(3) [OF ok, of "dsts ! p"] by (simp add: info'_def slice_sizes_nth)
  have d: "dv_ok N (gss ! k) (dsts ! p ! k)" if "p < ?n" for p using that by (intro gm_ok_dst(2) [OF ok _ k]) simp
  have len': "length info' = ?n" using l(2) by (simp add: info'_def)
  have "set (infos (info' ! p) r) = {g * prod_list (take k gss) + x | g x. g \<in> set (dv_shown (dsts ! p ! k) (int r)) \<and> x \<in> gm_cells gss (remote_cells dsts r) k}"
    if p: "p < ?n" for p r
  proof (cases "k = 0")
    case False
    then have "x \<in> set (infos (l ! p) r) \<longleftrightarrow> x \<in> gm_cells gss (remote_cells dsts r) k" if "g \<in> set (dv_shown (dsts ! p ! k) (int r))" for g x
    proof -
      have "dv_shown (dsts ! p ! k) (int r) \<noteq> []" using that by auto
      with l(3) False p have "set (infos (l ! p) r) = gm_cells gss (remote_cells dsts r) k" by blast
      then show ?thesis by simp
    qed
    with False show ?thesis by (auto simp: nth [OF p] gm_combine_facts(3) [OF d [OF p]])
  next
    case True
    then show ?thesis unfolding nth [OF p] gm_combine_facts(3) [OF d [OF p]] by simp
  qed
  then have cells: "(\<Union>m\<in>set info'. set (infos m r)) = gm_cells gss (remote_cells dsts r) (Suc k)" for r
    unfolding UN_set_nth len' remote_cells_def by auto
  have "distinct (map fst m) \<and> (\<forall>r\<in>fst ` set m. r < N)" if "m \<in> set info'" for m
  proof -
    obtain p where "p < ?n" "m = info' ! p" using \<open>m \<in> set info'\<close> len' by (auto simp: in_set_conv_nth)
    with nth gm_combine_facts(1,2) [OF d] show ?thesis by simp
  qed
  with cells len' have "gm_inv gss N dsts (Suc k) info'" by (simp add: gm_inv_def)
  moreover have "gm_step junk dsts k info = Inr info'"
    unfolding gm_step_def gm_tables [OF ok k] obind.simps l(1) by (simp add: info'_def)
  ultimately show ?thesis by blast
qed

lemma gm_infos:
  assumes ok: "gm_ok gss N srcs dsts"
  shows "\<exists>info. ofold (gm_step junk dsts) [0..<length gss] (replicate (length srcs) []) = Inr info \<and> gm_inv gss N dsts (length gss) info"
proof (rule ofold_upto [where P = "gm_inv gss N dsts"])
  show "gm_inv gss N dsts 0 (replicate (length srcs) [])" using ok by (auto simp: gm_inv_def gm_ok_def)
qed (rule gm_step_inv [OF ok])

section \<open>The table of the remote grid\<close>

lemma gm_dataInfo_eq: "gm_dataInfo m = fold info_push (concat (map (\<lambda>(r, gs). map (\<lambda>g. (g, r)) gs) m)) []"
proof -
  have "fold (\<lambda>(rank, globalIndex). fold (\<lambda>g. info_push (g, rank)) globalIndex) m acc
      = fold info_push (concat (map (\<lambda>(r, gs). map (\<lambda>g. (g, r)) gs) m)) acc" for acc
    by (induction m arbitrary: acc) (auto simp: fold_map comp_def)
  then show ?thesis by (simp add: gm_dataInfo_def)
qed

lemma gm_dataInfo_facts:
  assumes "distinct (map fst m)"
  shows "distinct (map fst (gm_dataInfo m))" "set (infos (gm_dataInfo m) g) = {r. g \<in> set (infos m r)}"
    "fst ` set (gm_dataInfo m) = (\<Union>r. set (infos m r))"
proof -
  let ?kvs = "concat (map (\<lambda>(r, gs). map (\<lambda>g. (g, r)) gs) m)"
  show "distinct (map fst (gm_dataInfo m))" using info_ok_push [OF info_ok_Nil, of ?kvs] by (simp add: gm_dataInfo_eq info_ok_def)
  have mem: "(g, r) \<in> set ?kvs \<longleftrightarrow> g \<in> set (infos m r)" for g r
  proof -
    have "(g, r) \<in> set ?kvs \<longleftrightarrow> (\<exists>gs. (r, gs) \<in> set m \<and> g \<in> set gs)" by force
    also have "\<dots> \<longleftrightarrow> (\<exists>gs. map_of m r = Some gs \<and> g \<in> set gs)" using assms by simp
    also have "\<dots> \<longleftrightarrow> g \<in> set (infos m r)" by (cases "map_of m r") (auto simp: infos_def)
    finally show ?thesis .
  qed
  have "set (infos (gm_dataInfo m) g) = {r. (g, r) \<in> set ?kvs}"
    by (force simp: gm_dataInfo_eq infos_push infos_def [of "[]"] simp del: set_concat)
  then show "set (infos (gm_dataInfo m) g) = {r. g \<in> set (infos m r)}" by (simp only: mem)
  have "fst ` set (gm_dataInfo m) = {g. \<exists>r. (g, r) \<in> set ?kvs}"
    by (force simp: gm_dataInfo_eq keys_push simp del: set_concat)
  then show "fst ` set (gm_dataInfo m) = (\<Union>r. set (infos m r))" by (auto simp only: mem)
qed

section \<open>The indices of the source grid\<close>

lemma gm_ok_src:
  assumes "gm_ok gss N srcs dsts" "vs \<in> set srcs"
  shows "length vs = length gss" "map lv_globalSize vs = gss"
    "i < length gss \<Longrightarrow> lv_ok (vs ! i)" "i < length gss \<Longrightarrow> g \<in> set (shown (lv_cells (vs ! i))) \<Longrightarrow> g < gss ! i"
proof -
  have a: "list_all2 (\<lambda>n v. lv_ok v \<and> lv_globalSize v = n \<and> list_all (\<lambda>g. g < n) (shown (lv_cells v))) gss vs"
    using assms by (simp add: gm_ok_def list_all_iff)
  then show l: "length vs = length gss" by (simp add: list_all2_lengthD)
  show "map lv_globalSize vs = gss" by (rule nth_equalityI) (use a l in \<open>auto simp: list_all2_conv_all_nth\<close>)
  show "i < length gss \<Longrightarrow> lv_ok (vs ! i)" "i < length gss \<Longrightarrow> g \<in> set (shown (lv_cells (vs ! i))) \<Longrightarrow> g < gss ! i"
    using a by (auto simp: list_all2_conv_all_nth list_all_iff)
qed

text \<open>The cells of the source grid of a process, by the indices of their elements.\<close>

definition local_boxes :: "nat list \<Rightarrow> local_view list \<Rightarrow> nat list set" where
  "local_boxes gss vs = {gs. length gs = length gss \<and> (\<forall>i<length gss. gs ! i \<in> set (shown (lv_cells (vs ! i))))}"

lemma gm_source:
  assumes ok: "gm_ok gss N srcs dsts" and vs: "vs \<in> set srcs"
  shows "\<exists>ix. lv_getGlobalIndex [] 0 (rev (zip vs (slice_sizes 1 (map lv_globalSize vs)))) = Inr ix
    \<and> set ix = (\<lambda>gs. flat (rev gss) (rev gs)) ` local_boxes gss vs"
    and "gs \<in> local_boxes gss vs \<Longrightarrow> in_box (rev gss) (rev gs)"
proof -
  note s = gm_ok_src [OF ok vs]
  have ne: "gss \<noteq> []" using ok by (simp add: gm_ok_def)
  show box: "in_box (rev gss) (rev gs)" if "gs \<in> local_boxes gss vs" for gs
  proof -
    have "list_all2 (\<lambda>n i. i < n) gss gs" using that s(4) by (auto simp: local_boxes_def list_all2_conv_all_nth)
    then show ?thesis by (simp add: in_box_def)
  qed
  let ?views = "rev (zip vs (slice_sizes 1 gss))"
  have sn: "map snd ?views = down_sizes (rev gss)" using s(1) by (simp add: rev_map [symmetric] rev_slice_sizes [unfolded One_nat_def])
  have fs: "map (shown \<circ> lv_cells \<circ> fst) ?views = rev (map (shown \<circ> lv_cells) vs)"
    using s(1) by (simp add: rev_map [symmetric] flip: map_map)
  have last: "snd (last ?views) = 1"
  proof -
    obtain n ns where "gss = n # ns" using ne by (cases gss) auto
    moreover obtain v ws where "vs = v # ws" using s(1) ne by (cases vs) auto
    ultimately show ?thesis by simp
  qed
  have "lv_getGlobalIndex [] 0 ?views = Inr ([] @ map (\<lambda>gs. 0 + sum_list (map2 (*) gs (map snd ?views)))
      (product_lists (map (shown \<circ> lv_cells \<circ> fst) ?views)))"
  proof (rule lv_getGlobalIndex_eq [OF _ _ last])
    show "\<forall>(v, s)\<in>set ?views. lv_ok v" using s(1,3) by (auto simp: in_set_conv_nth dest!: set_zip_leftD)
    show "?views \<noteq> []" using ne s(1) by (cases gss; cases vs) auto
  qed
  then have ix: "lv_getGlobalIndex [] 0 ?views = Inr (map (\<lambda>gs. sum_list (map2 (*) gs (down_sizes (rev gss)))) (product_lists (rev (map (shown \<circ> lv_cells) vs))))"
    unfolding sn fs by simp
  have prods: "set (product_lists (rev (map (shown \<circ> lv_cells) vs))) = rev ` local_boxes gss vs"
  proof -
    have "gs \<in> set (product_lists (rev (map (shown \<circ> lv_cells) vs))) \<longleftrightarrow> rev gs \<in> local_boxes gss vs" for gs
    proof -
      have "gs \<in> set (product_lists (rev (map (shown \<circ> lv_cells) vs))) \<longleftrightarrow> list_all2 (\<lambda>x ys. x \<in> set ys) gs (rev (map (shown \<circ> lv_cells) vs))"
        by (simp add: product_lists_set)
      also have "\<dots> \<longleftrightarrow> list_all2 (\<lambda>x ys. x \<in> set ys) (rev gs) (map (shown \<circ> lv_cells) vs)"
        by (metis list_all2_rev rev_rev_ident)
      also have "\<dots> \<longleftrightarrow> rev gs \<in> local_boxes gss vs"
        using s(1) by (auto simp: local_boxes_def list_all2_conv_all_nth)
      finally show ?thesis .
    qed
    then show ?thesis by (force simp: image_iff)
  qed
  have "set (map (\<lambda>gs. sum_list (map2 (*) gs (down_sizes (rev gss)))) (product_lists (rev (map (shown \<circ> lv_cells) vs))))
      = (\<lambda>gs. flat (rev gss) (rev gs)) ` local_boxes gss vs"
    unfolding set_map prods image_image by (rule image_cong [OF refl], rule flat_sum [symmetric]) (simp add: local_boxes_def)
  with ix show "\<exists>ix. lv_getGlobalIndex [] 0 (rev (zip vs (slice_sizes 1 (map lv_globalSize vs)))) = Inr ix
    \<and> set ix = (\<lambda>gs. flat (rev gss) (rev gs)) ` local_boxes gss vs"
    by (simp only: s(2)) blast
qed

end
