(* ===== verification/GridRemoteClaims.thy ===== *)
theory GridRemoteClaims
  imports GridRemoteGeneric
begin

text \<open>The properties of the connector to a remote grid.\<close>

section \<open>What a process sends to a rank\<close>

definition std_insert :: "'k::linorder \<times> 'v \<Rightarrow> ('k, 'v set) std_map \<Rightarrow> ('k, 'v set) std_map" where
  "std_insert = (\<lambda>(k, v) m. std_put k (insert v (std_at {} m k)) m)"

lemma std_at_insert: "std_at {} (fold std_insert kvs m) k = std_at {} m k \<union> {v. (k, v) \<in> set kvs}"
proof (induction kvs arbitrary: m)
  case (Cons kv kvs)
  obtain l v where kv: "kv = (l, v)" by (cases kv)
  have "std_at {} (std_insert kv m) k = std_at {} m k \<union> (if l = k then {v} else {})"
    by (simp add: kv std_insert_def std_at_def map_of_std_put)
  with Cons.IH [of "std_insert kv m"] show ?case by (auto simp: kv)
qed simp

lemma keys_insert: "fst ` set (fold std_insert kvs m) = fst ` set m \<union> fst ` set kvs"
  by (induction kvs arbitrary: m) (simp_all add: std_insert_def set_fst_std_put case_prod_beta)

lemma in_order_insert: "in_order m \<Longrightarrow> in_order (fold std_insert kvs m)"
  by (induction kvs arbitrary: m) (auto simp: std_insert_def)

lemma gm_element_eq:
  "gm_element slices i m = map (\<lambda>(rank, indGlo). (rank, sorted_list_of_set indGlo))
     (fold std_insert (concat (map (\<lambda>(g, ranks). map (\<lambda>r. (int r, rev (gm_digits (rev slices) g) ! i)) ranks) m)) [])"
proof -
  have "fold (\<lambda>(gridIndexGlo, ranks). fold (\<lambda>rank element. std_put (int rank)
          (insert (rev (gm_digits (rev slices) gridIndexGlo) ! i) (std_at {} element (int rank))) element) ranks) m acc
      = fold std_insert (concat (map (\<lambda>(g, ranks). map (\<lambda>r. (int r, rev (gm_digits (rev slices) g) ! i)) ranks) m)) acc" for acc
    by (induction m arbitrary: acc) (auto simp: fold_map comp_def std_insert_def)
  then show ?thesis by (simp add: gm_element_def)
qed

lemma gm_element_order: "in_order (gm_element slices i m)"
  unfolding gm_element_eq by (intro in_order_map in_order_insert) simp

lemma gm_element_at:
  fixes slices :: "nat list" and i :: nat and m :: "nat info_map"
  assumes "distinct (map fst m)"
  defines "S \<equiv> \<lambda>k. {rev (gm_digits (rev slices) g) ! i | g r. r \<in> set (infos m g) \<and> k = int r}"
  shows "map_of (gm_element slices i m) k = (if S k = {} then None else Some (sorted_list_of_set (S k)))"
    and "k \<in> fst ` set (gm_element slices i m) \<longleftrightarrow> S k \<noteq> {}"
proof -
  let ?kvs = "concat (map (\<lambda>(g, ranks). map (\<lambda>r. (int r, rev (gm_digits (rev slices) g) ! i)) ranks) m)"
  have mem: "(k, x) \<in> set ?kvs \<longleftrightarrow> x \<in> S k" for k x
  proof -
    have "(k, x) \<in> set ?kvs \<longleftrightarrow> (\<exists>g ranks. (g, ranks) \<in> set m \<and> (\<exists>r\<in>set ranks. k = int r \<and> x = rev (gm_digits (rev slices) g) ! i))"
      by force
    also have "\<dots> \<longleftrightarrow> (\<exists>g ranks. map_of m g = Some ranks \<and> (\<exists>r\<in>set ranks. k = int r \<and> x = rev (gm_digits (rev slices) g) ! i))"
      using assms(1) by simp
    also have "\<dots> \<longleftrightarrow> (\<exists>g. \<exists>r\<in>set (infos m g). k = int r \<and> x = rev (gm_digits (rev slices) g) ! i)"
    proof -
      have "(\<exists>ranks. map_of m g = Some ranks \<and> (\<exists>r\<in>set ranks. k = int r \<and> x = rev (gm_digits (rev slices) g) ! i))
          \<longleftrightarrow> (\<exists>r\<in>set (infos m g). k = int r \<and> x = rev (gm_digits (rev slices) g) ! i)" for g
        by (cases "map_of m g") (auto simp: infos_def)
      then show ?thesis by (simp only:)
    qed
    finally show ?thesis unfolding S_def by blast
  qed
  have at: "std_at {} (fold std_insert ?kvs []) k = S k" unfolding std_at_insert mem by (simp add: std_at_def)
  have keys: "k \<in> fst ` set (fold std_insert ?kvs []) \<longleftrightarrow> S k \<noteq> {}"
  proof -
    have "k \<in> fst ` set (fold std_insert ?kvs []) \<longleftrightarrow> (\<exists>x. (k, x) \<in> set ?kvs)" unfolding keys_insert by force
    then show ?thesis by (simp only: mem) blast
  qed
  show "k \<in> fst ` set (gm_element slices i m) \<longleftrightarrow> S k \<noteq> {}"
    using keys unfolding gm_element_eq by simp
  show "map_of (gm_element slices i m) k = (if S k = {} then None else Some (sorted_list_of_set (S k)))"
  proof (cases "map_of (fold std_insert ?kvs []) k")
    case None
    then have "S k = {}" using keys by (simp add: map_of_eq_None_iff)
    with None show ?thesis by (simp add: gm_element_eq map_of_map_snd)
  next
    case (Some T)
    then have "k \<in> fst ` set (fold std_insert ?kvs [])" by (metis domI dom_map_of_conv_image_fst)
    then have "S k \<noteq> {}" using keys by simp
    moreover have "T = S k" using at Some by (simp add: std_at_def)
    ultimately show ?thesis using Some by (simp add: gm_element_eq map_of_map_snd)
  qed
qed

text \<open>The indices of an element that a process and a rank of the remote grid both show.\<close>

definition common :: "local_view list \<Rightarrow> distributed_view list list \<Rightarrow> nat \<Rightarrow> nat \<Rightarrow> nat set" where
  "common vs dsts r i = set (shown (lv_cells (vs ! i))) \<inter> remote_cells dsts r i"

definition meets :: "nat \<Rightarrow> local_view list \<Rightarrow> distributed_view list list \<Rightarrow> nat \<Rightarrow> bool" where
  "meets nElements vs dsts r \<longleftrightarrow> (\<forall>i<nElements. common vs dsts r i \<noteq> {})"

definition gm_returned :: "nat list \<Rightarrow> local_view list list \<Rightarrow> distributed_view list list \<Rightarrow> nat info_map list \<Rightarrow> bool" where
  "gm_returned gss srcs dsts found \<longleftrightarrow> length found = length srcs \<and> (\<forall>p<length srcs. distinct (map fst (found ! p))
     \<and> (\<forall>g r. r \<in> set (infos (found ! p) g) \<longleftrightarrow> g \<in> (\<lambda>gs. flat (rev gss) (rev gs)) ` local_boxes gss (srcs ! p)
          \<and> g \<in> gm_cells gss (remote_cells dsts r) (length gss)))"

lemma gm_elements:
  assumes ok: "gm_ok gss N srcs dsts" and found: "gm_returned gss srcs dsts found" and p: "p < length srcs" and i: "i < length gss"
  shows "map_of (gm_element (slice_sizes 1 gss) i (found ! p)) (int r)
      = (if meets (length gss) (srcs ! p) dsts r then Some (sorted_list_of_set (common (srcs ! p) dsts r i)) else None)"
    and "k \<in> fst ` set (gm_element (slice_sizes 1 gss) i (found ! p)) \<longleftrightarrow> (\<exists>r. k = int r \<and> meets (length gss) (srcs ! p) dsts r)"
proof -
  have vs: "srcs ! p \<in> set srcs" using p by simp
  have d: "distinct (map fst (found ! p))" and f: "\<And>g r. r \<in> set (infos (found ! p) g) \<longleftrightarrow> g \<in> (\<lambda>gs. flat (rev gss) (rev gs)) ` local_boxes gss (srcs ! p)
          \<and> g \<in> gm_cells gss (remote_cells dsts r) (length gss)"
    using found p by (auto simp: gm_returned_def)
  let ?S = "\<lambda>k. {rev (gm_digits (rev (slice_sizes 1 gss)) g) ! i | g r. r \<in> set (infos (found ! p) g) \<and> k = int r}"
  have S: "?S (int r) = {gs ! i | gs. gs \<in> local_boxes gss (srcs ! p) \<and> (\<forall>j<length gss. gs ! j \<in> remote_cells dsts r j)}" for r
  proof -
    have D: "gm_digits (down_sizes (rev gss)) (flat (rev gss) (rev gs)) = rev gs"
      "flat (rev gss) (rev gs) \<in> gm_cells gss (remote_cells dsts r) (length gss) \<longleftrightarrow> (\<forall>j<length gss. gs ! j \<in> remote_cells dsts r j)"
      if "gs \<in> local_boxes gss (srcs ! p)" for gs
    proof -
      have box: "in_box (rev gss) (rev gs)" by (rule gm_source(2) [OF ok vs that])
      show "gm_digits (down_sizes (rev gss)) (flat (rev gss) (rev gs)) = rev gs" by (rule gm_digits_flat [OF box])
      have "length gs = length gss" using that by (simp add: local_boxes_def)
      with gm_cells_flat [of gss "remote_cells dsts r" "length gss" gs] remote_cells_less [OF ok] box
      show "flat (rev gss) (rev gs) \<in> gm_cells gss (remote_cells dsts r) (length gss) \<longleftrightarrow> (\<forall>j<length gss. gs ! j \<in> remote_cells dsts r j)"
        by simp
    qed
    have "?S (int r) = {rev (gm_digits (down_sizes (rev gss)) (flat (rev gss) (rev gs))) ! i | gs. gs \<in> local_boxes gss (srcs ! p)
        \<and> flat (rev gss) (rev gs) \<in> gm_cells gss (remote_cells dsts r) (length gss)}"
      unfolding rev_slice_sizes by (auto simp: f)
    also have "\<dots> = {gs ! i | gs. gs \<in> local_boxes gss (srcs ! p) \<and> (\<forall>j<length gss. gs ! j \<in> remote_cells dsts r j)}"
      by (rule Collect_cong, rule ex_cong1) (auto simp: D)
    finally show ?thesis .
  qed
  have C: "{gs ! i | gs. gs \<in> local_boxes gss (srcs ! p) \<and> (\<forall>j<length gss. gs ! j \<in> remote_cells dsts r j)}
      = (if meets (length gss) (srcs ! p) dsts r then common (srcs ! p) dsts r i else {})" for r
  proof -
    have eq: "gs \<in> local_boxes gss (srcs ! p) \<and> (\<forall>j<length gss. gs ! j \<in> remote_cells dsts r j)
        \<longleftrightarrow> length gs = length gss \<and> (\<forall>j<length gss. gs ! j \<in> common (srcs ! p) dsts r j)" for gs
      by (auto simp: local_boxes_def common_def)
    show ?thesis
    proof (cases "meets (length gss) (srcs ! p) dsts r")
      case True
      obtain f where fj: "\<And>j. j < length gss \<Longrightarrow> f j \<in> common (srcs ! p) dsts r j"
        by (rule that [of "\<lambda>j. SOME x. x \<in> common (srcs ! p) dsts r j"]) (use True in \<open>auto simp: meets_def some_in_eq\<close>)
      have "\<exists>gs. (length gs = length gss \<and> (\<forall>j<length gss. gs ! j \<in> common (srcs ! p) dsts r j)) \<and> x = gs ! i" if "x \<in> common (srcs ! p) dsts r i" for x
        by (rule exI [where x = "map (\<lambda>j. if j = i then x else f j) [0..<length gss]"]) (use that fj i in auto)
      with i show ?thesis unfolding eq by (auto simp: True)
    next
      case False
      then show ?thesis unfolding eq by (auto simp: meets_def)
    qed
  qed
  have fin: "?S (int r) = {} \<longleftrightarrow> \<not> meets (length gss) (srcs ! p) dsts r" for r
    unfolding S C using i by (auto simp: meets_def)
  show "map_of (gm_element (slice_sizes 1 gss) i (found ! p)) (int r)
      = (if meets (length gss) (srcs ! p) dsts r then Some (sorted_list_of_set (common (srcs ! p) dsts r i)) else None)"
    unfolding gm_element_at(1) [OF d] fin unfolding S C by simp
  show "k \<in> fst ` set (gm_element (slice_sizes 1 gss) i (found ! p)) \<longleftrightarrow> (\<exists>r. k = int r \<and> meets (length gss) (srcs ! p) dsts r)"
  proof -
    have "k \<in> fst ` set (gm_element (slice_sizes 1 gss) i (found ! p)) \<longleftrightarrow> ?S k \<noteq> {}" by (rule gm_element_at(2) [OF d])
    also have "\<dots> \<longleftrightarrow> (\<exists>r. k = int r \<and> ?S (int r) \<noteq> {})" by auto
    finally show ?thesis by (simp only: fin not_not)
  qed
qed

section \<open>The ranks nobody has anything for\<close>

definition idle_before :: "int list \<Rightarrow> nat \<Rightarrow> nat" where
  "idle_before ranks i = length (filter (\<lambda>j. ranks ! j = 0) [0..<i])"

text \<open>The process that tells an idle rank that nothing will come.\<close>

definition in_charge :: "nat \<Rightarrow> int list \<Rightarrow> nat \<Rightarrow> nat" where
  "in_charge commSize ranks i = idle_before ranks i mod commSize"

lemma gm_void_at:
  assumes "j < length elements"
  shows "map_of (gm_void N commSize commRank ranks elements ! j) (int r)
    = (if r < N \<and> ranks ! r = 0 \<and> in_charge commSize ranks r = commRank then Some [] else map_of (elements ! j) (int r))"
    and "length (gm_void N commSize commRank ranks elements) = length elements"
proof -
  let ?f = "\<lambda>i (pos, elements). if ranks ! i = 0
       then (pos + 1, if pos mod commSize = commRank then map (std_put (int i) []) elements else elements) else (pos, elements)"
  have "fst (fold ?f [0..<n] (0, elements)) = idle_before ranks n \<and> length (snd (fold ?f [0..<n] (0, elements))) = length elements
    \<and> map_of (snd (fold ?f [0..<n] (0, elements)) ! j) (int r)
      = (if r < n \<and> ranks ! r = 0 \<and> in_charge commSize ranks r = commRank then Some [] else map_of (elements ! j) (int r))" for n
  proof (induction n)
    case (Suc n)
    obtain pos es where s: "fold ?f [0..<n] (0, elements) = (pos, es)" by (cases "fold ?f [0..<n] (0, elements)")
    have f: "fold ?f [0..<Suc n] (0, elements) = ?f n (pos, es)" by (simp add: s)
    have ih: "pos = idle_before ranks n" "length es = length elements"
      "map_of (es ! j) (int r) = (if r < n \<and> ranks ! r = 0 \<and> in_charge commSize ranks r = commRank then Some [] else map_of (elements ! j) (int r))"
      using Suc by (simp_all add: s)
    show ?case
      unfolding f using ih assms by (auto simp: idle_before_def in_charge_def map_of_std_put less_Suc_eq)
  qed (simp add: idle_before_def)
  then show "map_of (gm_void N commSize commRank ranks elements ! j) (int r)
    = (if r < N \<and> ranks ! r = 0 \<and> in_charge commSize ranks r = commRank then Some [] else map_of (elements ! j) (int r))"
    "length (gm_void N commSize commRank ranks elements) = length elements"
    unfolding gm_void_def by blast+
qed

lemma gm_void_order:
  assumes "j < length elements" "in_order (elements ! j)" "\<forall>k\<in>fst ` set (elements ! j). 0 \<le> k \<and> k < int N"
  shows "in_order (gm_void N commSize commRank ranks elements ! j)"
    "\<forall>k\<in>fst ` set (gm_void N commSize commRank ranks elements ! j). 0 \<le> k \<and> k < int N"
proof -
  let ?f = "\<lambda>i (pos, elements). if ranks ! i = 0
       then (pos + 1, if pos mod commSize = commRank then map (std_put (int i) []) elements else elements) else (pos, elements)"
  have "length (snd (fold ?f [0..<n] (0, elements))) = length elements \<and> in_order (snd (fold ?f [0..<n] (0, elements)) ! j)
    \<and> (\<forall>k\<in>fst ` set (snd (fold ?f [0..<n] (0, elements)) ! j). 0 \<le> k \<and> k < int N)" if "n \<le> N" for n
    using that
  proof (induction n)
    case (Suc n)
    obtain pos es where s: "fold ?f [0..<n] (0, elements) = (pos, es)" by (cases "fold ?f [0..<n] (0, elements)")
    have f: "fold ?f [0..<Suc n] (0, elements) = ?f n (pos, es)" by (simp add: s)
    have ih: "length es = length elements" "in_order (es ! j)" "\<forall>k\<in>fst ` set (es ! j). 0 \<le> k \<and> k < int N"
      using Suc by (simp_all add: s)
    have "fst ` set (std_put (int n) [] (es ! j)) = insert (int n) (fst ` set (es ! j))" by (rule set_fst_std_put)
    with ih Suc.prems have "in_order (std_put (int n) [] (es ! j))" "\<forall>k\<in>fst ` set (std_put (int n) [] (es ! j)). 0 \<le> k \<and> k < int N"
      by (simp_all only:) (auto intro: in_order_std_put)
    with ih assms(1) show ?case unfolding f by simp
  qed (use assms in simp)
  from this [of N] show "in_order (gm_void N commSize commRank ranks elements ! j)"
    "\<forall>k\<in>fst ` set (gm_void N commSize commRank ranks elements ! j). 0 \<le> k \<and> k < int N"
    unfolding gm_void_def by simp_all
qed

section \<open>The generic method\<close>

lemma marks_zero: "sum_list (map (\<lambda>p. if P p then 1 else (0::int)) ps) = 0 \<longleftrightarrow> (\<forall>p\<in>set ps. \<not> P p)"
proof (induction ps)
  case (Cons p ps)
  have "0 \<le> sum_list (map (\<lambda>p. if P p then 1 else (0::int)) ps)" by (induction ps) auto
  with Cons show ?case by auto
qed simp

lemma remote_rank: "gm_ok gss N srcs dsts \<Longrightarrow> i < length gss \<Longrightarrow> remote_cells dsts r i \<noteq> {} \<Longrightarrow> r < N"
proof -
  assume ok: "gm_ok gss N srcs dsts" and i: "i < length gss" and "remote_cells dsts r i \<noteq> {}"
  then obtain vs where vs: "vs \<in> set dsts" "dv_shown (vs ! i) (int r) \<noteq> []" by (auto simp: remote_cells_def)
  then have "int r \<in> fst ` set (dv_globalIndex (vs ! i))" using dv_shown_empty by blast
  with dv_ok_facts(3) [OF gm_ok_dst(2) [OF ok vs(1) i]] show "r < N" by fastforce
qed

lemma gm_table:
  assumes ok: "gm_ok gss N srcs dsts"
  shows "\<exists>info t ix found. ofold (gm_step junk dsts) [0..<length gss] (replicate (length srcs) []) = Inr info
    \<and> construct_dht (map gm_dataInfo info) = Inr t
    \<and> otraverse (\<lambda>vs. lv_getGlobalIndex [] 0 (rev (zip vs (slice_sizes 1 (map lv_globalSize vs))))) srcs = Inr ix
    \<and> computeIndexInfoMapping t ix = Inr found \<and> gm_returned gss srcs dsts found"
proof -
  obtain info where info: "ofold (gm_step junk dsts) [0..<length gss] (replicate (length srcs) []) = Inr info" "gm_inv gss N dsts (length gss) info"
    using gm_infos [OF ok] by blast
  have len: "length info = length dsts" "length srcs = length dsts" and keys: "\<forall>m\<in>set info. distinct (map fst m)"
    and un: "\<And>r. (\<Union>m\<in>set info. set (infos m r)) = gm_cells gss (remote_cells dsts r) (length gss)"
    using info(2) ok by (simp_all add: gm_inv_def gm_ok_def)
  have h: "\<And>g. g < prod_list gss \<Longrightarrow> hashXIOS g < nbHashIndexMax" using ok by (simp add: gm_ok_def hashes_def list_all_iff)
  let ?maps = "map gm_dataInfo info"
  have n: "length ?maps \<le> nbHashIndexMax" using ok len by (simp add: gm_ok_def)
  have dist: "\<forall>m\<in>set ?maps. distinct (map fst m)" using keys gm_dataInfo_facts(1) by auto
  have hok: "hash_ok ?maps"
  proof -
    have "hashXIOS g < nbHashIndexMax" if m: "m \<in> set info" and g: "g \<in> fst ` set (gm_dataInfo m)" for m g
    proof -
      have "distinct (map fst m)" using keys m by blast
      from g obtain r where "g \<in> set (infos m r)" unfolding gm_dataInfo_facts(3) [OF \<open>distinct (map fst m)\<close>] by blast
      then have "g \<in> gm_cells gss (remote_cells dsts r) (length gss)" using un [of r] m by blast
      then have "g < prod_list (take (length gss) gss)" by (intro gm_cells_less) (auto intro: remote_cells_less [OF ok])
      then show ?thesis by (intro h) simp
    qed
    then show ?thesis unfolding hash_ok_def by auto
  qed
  obtain ix where ix: "otraverse (\<lambda>vs. lv_getGlobalIndex [] 0 (rev (zip vs (slice_sizes 1 (map lv_globalSize vs))))) srcs = Inr ix"
    "length ix = length srcs" "\<And>p. p < length srcs \<Longrightarrow> set (ix ! p) = (\<lambda>gs. flat (rev gss) (rev gs)) ` local_boxes gss (srcs ! p)"
  proof -
    have "\<exists>ys. otraverse (\<lambda>vs. lv_getGlobalIndex [] 0 (rev (zip vs (slice_sizes 1 (map lv_globalSize vs))))) srcs = Inr ys \<and> length ys = length srcs
      \<and> (\<forall>p<length srcs. set (ys ! p) = (\<lambda>gs. flat (rev gss) (rev gs)) ` local_boxes gss (srcs ! p))"
      by (rule otraverse_nth) (rule gm_source(1) [OF ok], simp)
    with that show thesis by blast
  qed
  have q1: "length ix = length ?maps" using ix(2) len by simp
  have q2: "\<forall>is\<in>set ix. hashes is"
  proof
    fix gs assume "gs \<in> set ix"
    then obtain p where p: "p < length srcs" "gs = ix ! p" using ix(2) by (auto simp: in_set_conv_nth)
    have "hashXIOS g < nbHashIndexMax" if g: "g \<in> set gs" for g
    proof -
      obtain hs where hs: "g = flat (rev gss) (rev hs)" "hs \<in> local_boxes gss (srcs ! p)" using g ix(3) [OF p(1)] p(2) by auto
      have "in_box (rev gss) (rev hs)" by (rule gm_source(2) [OF ok _ hs(2)]) (use p(1) in simp)
      from flat_less [OF this] show ?thesis by (intro h) (simp add: hs(1) prod_list.rev)
    qed
    then show "hashes gs" by (simp add: hashes_def list_all_iff)
  qed
  obtain t found where f: "construct_dht ?maps = Inr t" "computeIndexInfoMapping t ix = Inr found" "length found = length dsts"
    "\<And>p. p < length dsts \<Longrightarrow> info_ok (found ! p)"
    "\<And>p i. p < length dsts \<Longrightarrow> map_of (found ! p) i = (if i \<in> set (ix ! p) \<and> dht_infos ?maps i \<noteq> [] then Some (dht_infos ?maps i) else None)"
    using dht_end_to_end [OF n dist hok q1 q2] len(1) unfolding length_map by metis
  have R: "set (dht_infos ?maps g) = {r. g \<in> gm_cells gss (remote_cells dsts r) (length gss)}" for g
  proof -
    have "set (dht_infos ?maps g) = (\<Union>m\<in>set info. {r. g \<in> set (infos m r)})"
      using keys gm_dataInfo_facts(2) by (auto simp: dht_infos_Union)
    also have "\<dots> = {r. g \<in> gm_cells gss (remote_cells dsts r) (length gss)}" unfolding un [symmetric] by auto
    finally show ?thesis .
  qed
  have "gm_returned gss srcs dsts found"
    unfolding gm_returned_def
  proof (intro conjI allI impI)
    show "length found = length srcs" using f(3) len by simp
    fix p assume "p < length srcs"
    then have p: "p < length dsts" "p < length srcs" using len by simp_all
    show "distinct (map fst (found ! p))" using f(4) [OF p(1)] by (simp add: info_ok_def)
    fix g r
    have "set (infos (found ! p) g) = (if g \<in> set (ix ! p) then set (dht_infos ?maps g) else {})"
      using f(5) [OF p(1), of g] by (simp add: infos_def)
    then show "r \<in> set (infos (found ! p) g) \<longleftrightarrow> g \<in> (\<lambda>gs. flat (rev gss) (rev gs)) ` local_boxes gss (srcs ! p)
          \<and> g \<in> gm_cells gss (remote_cells dsts r) (length gss)" by (simp add: R ix(3) [OF p(2)])
  qed
  with info(1) f(1,2) ix(1) show ?thesis by blast
qed

text \<open>What the processes have found; \<open>idle\<close> are the ranks a process tells that nothing will come.\<close>

definition gm_sends ::
  "nat \<Rightarrow> nat \<Rightarrow> local_view list list \<Rightarrow> distributed_view list list \<Rightarrow> (nat \<Rightarrow> nat \<Rightarrow> bool) \<Rightarrow> (int, nat list) std_map list list \<Rightarrow> bool" where
  "gm_sends k N srcs dsts idle res \<longleftrightarrow> length res = length srcs \<and> (\<forall>p<length srcs. length (res ! p) = k
     \<and> (\<forall>i<k. in_order (res ! p ! i) \<and> (\<forall>r\<in>fst ` set (res ! p ! i). 0 \<le> r \<and> r < int N)
         \<and> (\<forall>r<N. map_of (res ! p ! i) (int r) = (if meets k (srcs ! p) dsts r then Some (sorted_list_of_set (common (srcs ! p) dsts r i))
              else if idle p r then Some [] else None))))
     \<and> (\<forall>r<N. \<exists>p<length srcs. meets k (srcs ! p) dsts r \<or> idle p r)"

lemma generic_sends:
  assumes "gm_ok gss remoteSize srcs dsts"
  shows "\<exists>res idle. computeGenericMethod junk remoteSize (length gss) srcs dsts = Inr res
    \<and> gm_sends (length gss) remoteSize srcs dsts idle res"
proof -
  let ?n = "length srcs" and ?k = "length gss"
  have "gss \<noteq> []" "srcs \<noteq> []" using assms unfolding gm_ok_def by blast+
  then have pos: "0 < ?k" "0 < ?n" by simp_all
  obtain info t ix found where f: "ofold (gm_step junk dsts) [0..<?k] (replicate ?n []) = Inr info"
    "construct_dht (map gm_dataInfo info) = Inr t"
    "otraverse (\<lambda>vs. lv_getGlobalIndex [] 0 (rev (zip vs (slice_sizes 1 (map lv_globalSize vs))))) srcs = Inr ix"
    "computeIndexInfoMapping t ix = Inr found" "gm_returned gss srcs dsts found"
    using gm_table [OF assms] by blast
  have lenf: "length found = ?n" using f(5) by (simp add: gm_returned_def)
  define es where "es = map2 (\<lambda>vs info. map (\<lambda>i. gm_element (slice_sizes 1 (map lv_globalSize vs)) i info) [0..<?k]) srcs found"
  have es: "length es = ?n" "\<And>p. p < ?n \<Longrightarrow> length (es ! p) = ?k"
    "\<And>p i. p < ?n \<Longrightarrow> i < ?k \<Longrightarrow> es ! p ! i = gm_element (slice_sizes 1 gss) i (found ! p)"
    using lenf gm_ok_src(2) [OF assms nth_mem] by (simp_all add: es_def del: One_nat_def)
  note el = gm_elements [OF assms f(5)]
  let ?met = "\<lambda>p r. meets ?k (srcs ! p) dsts r"
  have N: "r < remoteSize" if "?met p r" for p r
  proof (rule remote_rank [OF assms pos(1)])
    show "remote_cells dsts r 0 \<noteq> {}" using that pos(1) by (auto simp: meets_def common_def)
  qed
  let ?marks = "map (\<lambda>p. map (\<lambda>q. if ?met p q then 1 else (0::int)) [0..<remoteSize]) [0..<?n]"
  have marks: "otraverse (\<lambda>es. obind (arr_get es 0) (tc_nbSenders remoteSize)) es = Inr ?marks"
  proof (rule otraverse_eq)
    fix p assume "p < length es"
    then have p: "p < ?n" by (simp add: es(1))
    have get: "arr_get (es ! p) 0 = Inr (es ! p ! 0)" using es(2) [OF p] pos(1) by (simp add: arr_get_def)
    have keys: "k \<in> fst ` set (es ! p ! 0) \<longleftrightarrow> (\<exists>r. k = int r \<and> ?met p r)" for k
      unfolding es(3) [OF p pos(1)] by (rule el(2) [OF p pos(1)])
    have "tc_nbSenders remoteSize (es ! p ! 0) = Inr (map (\<lambda>q. if int q \<in> fst ` set (es ! p ! 0) then 1 else 0) [0..<remoteSize])"
    proof (rule tc_nbSenders_eq, rule ballI)
      fix k assume "k \<in> fst ` set (es ! p ! 0)"
      then obtain r where "k = int r" "?met p r" using keys by blast
      with N show "0 \<le> k \<and> k < int remoteSize" by simp
    qed
    then show "obind (arr_get (es ! p) 0) (tc_nbSenders remoteSize) = Inr (?marks ! p)"
      unfolding get obind.simps keys using p by simp
  qed (simp add: es(1))
  define ranks where "ranks = map (\<lambda>i. sum_list (map (\<lambda>m. m ! i) ?marks)) [0..<remoteSize]"
  have ranks: "ranks ! r = 0 \<longleftrightarrow> (\<forall>p<?n. \<not> ?met p r)" if "r < remoteSize" for r
  proof -
    have "ranks ! r = sum_list (map (\<lambda>p. if ?met p r then 1 else 0) [0..<?n])" using that by (simp add: ranks_def comp_def)
    also have "\<dots> = 0 \<longleftrightarrow> (\<forall>p\<in>set [0..<?n]. \<not> ?met p r)" by (rule marks_zero)
    finally show ?thesis by (auto simp: Ball_def)
  qed
  define res where "res = map2 (\<lambda>commRank es. gm_void remoteSize ?n commRank ranks es) [0..<?n] es"
  have nth: "res ! p = gm_void remoteSize ?n p ranks (es ! p)" if "p < ?n" for p using that es(1) by (simp add: res_def)
  have at: "map_of (res ! p ! i) (int r) = (if ranks ! r = 0 \<and> in_charge ?n ranks r = p then Some []
      else if ?met p r then Some (sorted_list_of_set (common (srcs ! p) dsts r i)) else None)"
    if "p < ?n" "i < ?k" "r < remoteSize" for p i r
    using that el(1) [OF that(1,2)] by (simp add: nth gm_void_at es(2,3) del: One_nat_def)
  have "computeGenericMethod junk remoteSize ?k srcs dsts = Inr res"
    unfolding computeGenericMethod_def Let_def f(1) obind.simps f(2,3,4) es_def [symmetric] marks
    by (simp add: res_def ranks_def)
  moreover have "length res = ?n" using es(1) by (simp add: res_def)
  moreover have "length (res ! p) = ?k" if "p < ?n" for p using that pos(1) gm_void_at(2) [of 0 "es ! p"] by (simp add: nth es(2))
  moreover have "in_order (res ! p ! i)" "\<forall>r\<in>fst ` set (res ! p ! i). 0 \<le> r \<and> r < int remoteSize" if pi: "p < ?n" "i < ?k" for p i
  proof -
    have keys: "k \<in> fst ` set (es ! p ! i) \<longleftrightarrow> (\<exists>r. k = int r \<and> ?met p r)" for k
      unfolding es(3) [OF pi] by (rule el(2) [OF pi])
    have "\<forall>k\<in>fst ` set (es ! p ! i). 0 \<le> k \<and> k < int remoteSize"
    proof
      fix k assume "k \<in> fst ` set (es ! p ! i)"
      then obtain r where "k = int r" "?met p r" using keys by blast
      with N show "0 \<le> k \<and> k < int remoteSize" by simp
    qed
    note range = this
    have order: "in_order (es ! p ! i)" unfolding es(3) [OF pi] by (rule gm_element_order)
    have i: "i < length (es ! p)" unfolding es(2) [OF pi(1)] by (rule pi(2))
    show "in_order (res ! p ! i)" "\<forall>r\<in>fst ` set (res ! p ! i). 0 \<le> r \<and> r < int remoteSize"
      unfolding nth [OF pi(1)] by (rule gm_void_order [OF i order range])+
  qed
  moreover have "map_of (res ! p ! i) (int r) = (if ?met p r then Some (sorted_list_of_set (common (srcs ! p) dsts r i))
      else if ranks ! r = 0 \<and> in_charge ?n ranks r = p then Some [] else None)" if "p < ?n" "i < ?k" "r < remoteSize" for p i r
    using at [OF that] ranks [OF that(3)] that(1) by auto
  moreover have "\<exists>p<?n. ?met p r \<or> (ranks ! r = 0 \<and> in_charge ?n ranks r = p)" if r: "r < remoteSize" for r
  proof (cases "ranks ! r = 0")
    case True
    have "in_charge ?n ranks r < ?n" using pos(2) by (simp add: in_charge_def)
    with True show ?thesis by blast
  next
    case False
    then show ?thesis using ranks [OF r] by blast
  qed
  ultimately have "gm_sends ?k remoteSize srcs dsts (\<lambda>p r. ranks ! r = 0 \<and> in_charge ?n ranks r = p) res"
    unfolding gm_sends_def by blast
  with \<open>computeGenericMethod junk remoteSize ?k srcs dsts = Inr res\<close> show ?thesis by blast
qed

text \<open>C2: The generic method of the remote connector: for any number of processes and elements it goes through, and
  each process sends to each rank of the remote grid, for each element, exactly the indices both
  show, provided that they have a cell of the grid in common; and every rank hears from
  at least one process, if only that nothing will come.\<close>

theorem generic_method:
  assumes "gm_ok gss remoteSize srcs dsts"
  shows "\<exists>res. computeGenericMethod junk remoteSize (length gss) srcs dsts = Inr res \<and> length res = length srcs
    \<and> (\<forall>p<length srcs. \<forall>r<remoteSize. \<forall>i<length gss.
          if meets (length gss) (srcs ! p) dsts r
          then map_of (res ! p ! i) (int r) = Some (sorted_list_of_set (common (srcs ! p) dsts r i))
          else map_of (res ! p ! i) (int r) \<in> {None, Some []})
    \<and> (\<forall>r<remoteSize. \<exists>p<length srcs. \<forall>i<length gss. map_of (res ! p ! i) (int r) \<noteq> None)"
proof -
  obtain res idle where res: "computeGenericMethod junk remoteSize (length gss) srcs dsts = Inr res"
    "gm_sends (length gss) remoteSize srcs dsts idle res" using generic_sends [OF assms] by blast
  then have "length res = length srcs" "\<And>p i r. p < length srcs \<Longrightarrow> i < length gss \<Longrightarrow> r < remoteSize \<Longrightarrow>
      map_of (res ! p ! i) (int r) = (if meets (length gss) (srcs ! p) dsts r then Some (sorted_list_of_set (common (srcs ! p) dsts r i))
              else if idle p r then Some [] else None)"
    "\<And>r. r < remoteSize \<Longrightarrow> \<exists>p<length srcs. meets (length gss) (srcs ! p) dsts r \<or> idle p r"
    by (simp_all add: gm_sends_def)
  with res(1) show ?thesis by (intro exI [where x = res]) (auto, metis)
qed

text \<open>Two processes of a grid of two elements, of sizes 4 and 2; each knows of one of two remote ranks.\<close>

definition demo_remote :: "nat \<Rightarrow> int \<Rightarrow> nat list \<Rightarrow> distributed_view" where
  "demo_remote globalSize rank gs = \<lparr>dv_index = [(rank, map int [0..<length gs])], dv_size = [(rank, int (length gs))],
     dv_globalIndex = [(rank, gs)], dv_localSize = [(rank, int (length gs))], dv_globalSize = globalSize\<rparr>"

definition demo_local :: "nat \<Rightarrow> nat list \<Rightarrow> local_view" where
  "demo_local globalSize gs = newLocalView (newLocalElement 0 globalSize gs) (map int [0..<length gs])"

lemma demo_remote_facts: "dv_shown (demo_remote m rank gs) k = (if k = rank then gs else [])"
  "0 \<le> rank \<Longrightarrow> rank < int n \<Longrightarrow> list_all (\<lambda>g. g < m) gs \<Longrightarrow> dv_ok n m (demo_remote m rank gs)"
proof -
  have c: "cells (map int [0..<length gs]) gs = map Some gs" by (rule cells_full)
  have s: "shown (map Some gs) = gs" by (induction gs) simp_all
  have e: "cells index [] = replicate (length index) None" for index by (rule nth_equalityI) (simp_all add: cells_nth Let_def)
  have sh: "dv_shown (demo_remote m rank gs) rank = gs" by (simp add: dv_shown_def demo_remote_def std_at_def c s)
  show "dv_shown (demo_remote m rank gs) k = (if k = rank then gs else [])"
    using sh dv_shown_empty [of k "demo_remote m rank gs"] by (auto simp: demo_remote_def)
  have "holes_behind (map Some gs)" by (induction gs) (simp_all add: holes_behind_def)
  then show "dv_ok n m (demo_remote m rank gs)" if "0 \<le> rank" "rank < int n" "list_all (\<lambda>g. g < m) gs"
    using that sh by (simp add: dv_ok_def demo_remote_def std_at_def c in_order_def)
qed

lemma demo_local_facts: "lv_ok (demo_local m gs)" "lv_globalSize (demo_local m gs) = m" "shown (lv_cells (demo_local m gs)) = gs"
proof -
  have c: "cells (map int [0..<length gs]) gs = map Some gs" by (rule cells_full)
  have s: "shown (map Some gs) = gs" by (induction gs) simp_all
  show "lv_ok (demo_local m gs)" "lv_globalSize (demo_local m gs) = m" "shown (lv_cells (demo_local m gs)) = gs"
    by (simp_all add: demo_local_def newLocalView_def newLocalElement_def lv_ok_def lv_cells_def c s)
qed

lemma generic_method_witness:
  "\<exists>res. computeGenericMethod (\<lambda>_. 99) 2 2 [[demo_local 2 [0], demo_local 2 [0, 1]], [demo_local 2 [1], demo_local 2 [0, 1]]]
      [[demo_remote 2 0 [0, 1], demo_remote 2 0 [0]], [demo_remote 2 1 [1], demo_remote 2 1 [1]]] = Inr res
    \<and> map_of (res ! 0 ! 0) 0 = Some [0] \<and> map_of (res ! 1 ! 0) 0 = Some [1] \<and> map_of (res ! 1 ! 1) 0 = Some [0]"
proof -
  let ?srcs = "[[demo_local 2 [0], demo_local 2 [0, 1]], [demo_local 2 [1], demo_local 2 [0, 1]]]"
  let ?dsts = "[[demo_remote 2 0 [0, 1], demo_remote 2 0 [0]], [demo_remote 2 1 [1], demo_remote 2 1 [1]]]"
  have h: "hashes [0..<2]" "hashes [0..<prod_list [2, 2]]"
    using small_hashes hash_values(1) by (simp_all add: upt_rec hashes_def eval_nat_numeral)
  have ok: "gm_ok [2, 2] 2 ?srcs ?dsts"
    using h by (simp add: gm_ok_def demo_local_facts demo_remote_facts(2) nbHashIndexMax_def)
  obtain res where r: "computeGenericMethod (\<lambda>_. 99) 2 (length [2, 2::nat]) ?srcs ?dsts = Inr res"
    "\<And>p r i. p < length ?srcs \<Longrightarrow> r < 2 \<Longrightarrow> i < length [2, 2::nat] \<Longrightarrow>
          if meets (length [2, 2::nat]) (?srcs ! p) ?dsts r
          then map_of (res ! p ! i) (int r) = Some (sorted_list_of_set (common (?srcs ! p) ?dsts r i))
          else map_of (res ! p ! i) (int r) \<in> {None, Some []}"
    using generic_method [OF ok, of "\<lambda>_. 99"] by blast
  have c: "common (?srcs ! 0) ?dsts 0 0 = {0}" "common (?srcs ! 0) ?dsts 0 1 = {0}"
    "common (?srcs ! 1) ?dsts 0 0 = {1}" "common (?srcs ! 1) ?dsts 0 1 = {0}"
    by (auto simp: common_def remote_cells_def demo_local_facts demo_remote_facts(1))
  have m: "meets (length [2, 2::nat]) (?srcs ! 0) ?dsts 0" "meets (length [2, 2::nat]) (?srcs ! 1) ?dsts 0"
    using c by (auto simp: meets_def less_Suc_eq)
  have "map_of (res ! 0 ! 0) 0 = Some [0]" "map_of (res ! 1 ! 0) 0 = Some [1]" "map_of (res ! 1 ! 1) 0 = Some [0]"
    using r(2) [of 0 0 0] r(2) [of 1 0 0] r(2) [of 1 0 1] by (simp_all only: m c if_True) simp_all
  moreover have "length [2, 2::nat] = 2" by simp
  ultimately show ?thesis using r(1) by metis
qed

section \<open>Distributed source views\<close>

lemma all_min_max: "xs \<noteq> [] \<Longrightarrow> all_min xs \<noteq> all_max xs \<longleftrightarrow> (\<exists>x\<in>set xs. \<exists>y\<in>set xs. x \<noteq> y)"
proof -
  assume "xs \<noteq> []"
  then obtain z zs where xs: "xs = z # zs" by (cases xs) auto
  have mn: "fold min zs a = Min (insert a (set zs))" and mx: "fold max zs a = Max (insert a (set zs))" for a
    by (simp_all add: Min.set_eq_fold Max.set_eq_fold flip: list.set(2))
  have e: "all_min xs = Min (set xs)" "all_max xs = Max (set xs)"
    by (simp_all add: all_min_def all_max_def xs mn mx)
  show ?thesis
  proof
    assume "all_min xs \<noteq> all_max xs"
    moreover have "Min (set xs) \<in> set xs" "Max (set xs) \<in> set xs" using xs by (simp_all del: list.set)
    ultimately show "\<exists>x\<in>set xs. \<exists>y\<in>set xs. x \<noteq> y" unfolding e by blast
  next
    assume "\<exists>x\<in>set xs. \<exists>y\<in>set xs. x \<noteq> y"
    then obtain x y where "x \<in> set xs" "y \<in> set xs" "x \<noteq> y" by blast
    moreover have "Min (set xs) \<le> v" "v \<le> Max (set xs)" if "v \<in> set xs" for v using that by simp_all
    ultimately show "all_min xs \<noteq> all_max xs" unfolding e by (metis order.antisym order.trans)
  qed
qed

text \<open>The sizes of the views of an element on the processes.\<close>

definition same_size :: "local_view list list \<Rightarrow> nat \<Rightarrow> bool" where
  "same_size srcs i \<longleftrightarrow> (\<forall>vs\<in>set srcs. \<forall>ws\<in>set srcs. length (shown (lv_cells (vs ! i))) = length (shown (lv_cells (ws ! i))))"

text \<open>Two processes show parts of an element that differ in the sum of the hash values of their indices.\<close>

definition differ_in_hash :: "local_view list list \<Rightarrow> nat \<Rightarrow> bool" where
  "differ_in_hash srcs i \<longleftrightarrow> (\<exists>vs\<in>set srcs. \<exists>ws\<in>set srcs. view_hash (shown (lv_cells (vs ! i))) \<noteq> view_hash (shown (lv_cells (ws ! i))))"

lemma view_list:
  assumes "lv_ok v"
  shows "\<exists>gs. lv_getGlobalIndexView junk v = Inr gs \<and> length gs = length (shown (lv_cells v)) \<and> (holes_last v \<longrightarrow> gs = shown (lv_cells v))"
proof -
  have sizes: "lv_size v = int (length (lv_index v))" "lv_localSize v = int (length (lv_globalIndex v))"
    using assms by (simp_all add: lv_ok_def)
  from index_view_eq [OF this, of junk] obtain gs where gs: "lv_getGlobalIndexView junk v = Inr gs" "length gs = length (shown (lv_cells v))"
    by (simp add: lv_getGlobalIndexView_def lv_cells_def)
  have "gs = shown (lv_cells v)" if "holes_last v"
    using holes_last_index [OF assms that, of junk] gs(1) by simp
  with gs show ?thesis by blast
qed

lemma src_flags_step:
  assumes "srcs \<noteq> []" "\<forall>vs\<in>set srcs. lv_ok (vs ! i)"
  shows "\<exists>b. isSrcViewDistributed junk srcs (i # is)
    = (if same_size srcs i then omap (Cons b) (isSrcViewDistributed junk srcs is) else Inr (True # replicate (length is) False))
    \<and> ((\<forall>vs\<in>set srcs. holes_last (vs ! i)) \<longrightarrow> b = differ_in_hash srcs i)"
proof -
  have "\<exists>gss. otraverse (\<lambda>vs. lv_getGlobalIndexView junk (vs ! i)) srcs = Inr gss \<and> length gss = length srcs
    \<and> (\<forall>p<length srcs. length (gss ! p) = length (shown (lv_cells (srcs ! p ! i)))
        \<and> (holes_last (srcs ! p ! i) \<longrightarrow> gss ! p = shown (lv_cells (srcs ! p ! i))))"
    by (rule otraverse_nth) (use view_list assms(2) in simp)
  then obtain gss where g: "otraverse (\<lambda>vs. lv_getGlobalIndexView junk (vs ! i)) srcs = Inr gss" "length gss = length srcs"
    "\<forall>p<length srcs. length (gss ! p) = length (shown (lv_cells (srcs ! p ! i)))
        \<and> (holes_last (srcs ! p ! i) \<longrightarrow> gss ! p = shown (lv_cells (srcs ! p ! i)))" by blast
  have "map length gss = map (\<lambda>vs. length (shown (lv_cells (vs ! i)))) srcs"
    by (rule nth_equalityI) (use g in simp_all)
  then have "all_min (map length gss) \<noteq> all_max (map length gss) \<longleftrightarrow> \<not> same_size srcs i"
    using all_min_max [of "map length gss"] assms(1) by (auto simp: same_size_def)
  then have "isSrcViewDistributed junk srcs (i # is) = (if same_size srcs i
      then omap (Cons (all_min (map view_hash gss) \<noteq> all_max (map view_hash gss))) (isSrcViewDistributed junk srcs is)
      else Inr (True # replicate (length is) False))"
    by (simp only: isSrcViewDistributed.simps g(1) obind.simps) simp
  moreover have "all_min (map view_hash gss) \<noteq> all_max (map view_hash gss) \<longleftrightarrow> differ_in_hash srcs i" if "\<forall>vs\<in>set srcs. holes_last (vs ! i)"
  proof -
    have "map view_hash gss = map (\<lambda>vs. view_hash (shown (lv_cells (vs ! i)))) srcs"
      by (rule nth_equalityI) (use g that in simp_all)
    then show ?thesis using all_min_max [of "map view_hash gss"] assms(1) by (auto simp: differ_in_hash_def)
  qed
  ultimately show ?thesis by blast
qed

text \<open>C40: The search for distributed source views ends at the first element of which two processes show
  different numbers of cells.  The elements before it are marked exactly when two processes show indices
  with different sums of hash values, it is marked itself, and every element behind it is taken as
  the same on all processes, whatever its views are.  In the views of the elements before it the positions
  without a cell come last.\<close>

theorem source_views_unchecked:
  assumes "srcs \<noteq> []" "\<forall>vs\<in>set srcs. \<forall>i\<le>k. lv_ok (vs ! i)" "\<forall>vs\<in>set srcs. \<forall>i<k. holes_last (vs ! i)" "k < nElements"
    and "\<forall>i<k. same_size srcs i" "\<not> same_size srcs k"
  shows "isSrcViewDistributed junk srcs [0..<nElements]
    = Inr (map (differ_in_hash srcs) [0..<k] @ True # replicate (nElements - Suc k) False)"
proof -
  have "isSrcViewDistributed junk srcs [j..<nElements] = Inr (map (differ_in_hash srcs) [j..<k] @ True # replicate (nElements - Suc k) False)"
    if "j \<le> k" for j
    using that
  proof (induction rule: inc_induct)
    case base
    have u: "[k..<nElements] = k # [Suc k..<nElements]" using assms(4) by (rule upt_conv_Cons)
    have "\<forall>vs\<in>set srcs. lv_ok (vs ! k)" using assms(2) by simp
    from src_flags_step [OF assms(1) this, of junk "[Suc k..<nElements]"] assms(6) show ?case by (simp add: u)
  next
    case (step j)
    have u: "[j..<nElements] = j # [Suc j..<nElements]" "[j..<k] = j # [Suc j..<k]"
      using assms(4) step.hyps by (intro upt_conv_Cons, simp)+
    have "\<forall>vs\<in>set srcs. lv_ok (vs ! j)" "\<forall>vs\<in>set srcs. holes_last (vs ! j)" using assms(2,3) step.hyps by simp_all
    with src_flags_step [OF assms(1), of j junk "[Suc j..<nElements]"] assms(5) step.hyps step.IH show ?case by (auto simp: u)
  qed
  from this [of 0] show ?thesis by simp
qed

text \<open>The first element is not distributed, the second and the third are, and the third is not marked.\<close>

lemma source_views_unchecked_witness:
  "isSrcViewDistributed (\<lambda>_. 99) [[demo_local 2 [0, 1], demo_local 4 [0, 1, 2], demo_local 2 [0]],
      [demo_local 2 [0, 1], demo_local 4 [3], demo_local 2 [1]]] [0..<3] = Inr [False, True, False]"
proof -
  let ?srcs = "[[demo_local 2 [0, 1], demo_local 4 [0, 1, 2], demo_local 2 [0]], [demo_local 2 [0, 1], demo_local 4 [3], demo_local 2 [1]]]"
  have h: "holes_last (demo_local 2 [0, 1])"
    by (simp add: demo_local_def newLocalView_def newLocalElement_def holes_last_def holes_behind_def lv_cells_def cells_def)
  have "\<forall>vs\<in>set ?srcs. \<forall>i\<le>1. lv_ok (vs ! i)" "\<forall>vs\<in>set ?srcs. \<forall>i<1. holes_last (vs ! i)" "\<forall>i<1. same_size ?srcs i" "\<not> same_size ?srcs 1"
    using h by (auto simp: demo_local_facts same_size_def le_Suc_eq)
  from source_views_unchecked [OF _ this(1,2) _ this(3,4), of 3 "\<lambda>_. 99"]
  show ?thesis by (simp add: differ_in_hash_def demo_local_facts)
qed

end
