(* ===== verification/ServerDistribution.thy ===== *)
theory ServerDistribution
  imports Dht
begin

text \<open>
  How the cells of a grid are shared out among the servers
  (\<open>distribution/server_distribution_description.cpp\<close>): in bands of one dimension, or all to the first server.

  The first dimension is the one that varies fastest.  Sizes and ranks are natural numbers, the begins of
  the bands are \<open>int\<close>.  \<open>std::unordered_map\<close> is a map here, and \<open>info_map\<close> where its values are vectors.
\<close>

datatype ServerDistributionType = BAND_DISTRIBUTION | PLAN_DISTRIBUTION | ROOT_DISTRIBUTION

record server_distribution =
  sd_nGlobal :: "nat list"
  sd_indexBegin :: "int list list"
  sd_dimensionSizes :: "nat list list"
  sd_vecGlobalIndex :: "nat list list"
  sd_globalIndex :: "nat \<rightharpoonup> nat"
  sd_serverType :: ServerDistributionType
  sd_nServer :: nat
  sd_position :: int

definition newServerDistribution :: "nat list \<Rightarrow> nat \<Rightarrow> ServerDistributionType \<Rightarrow> server_distribution" where
  "newServerDistribution globalDimensionSize nServer serType = \<lparr>sd_nGlobal = globalDimensionSize, sd_indexBegin = [],
     sd_dimensionSizes = [], sd_vecGlobalIndex = [], sd_globalIndex = Map.empty, sd_serverType = serType, sd_nServer = nServer,
     sd_position = 1\<rparr>"

definition defaultDistributedDimension :: "int \<Rightarrow> ServerDistributionType \<Rightarrow> int outcome" where
  "defaultDistributedDimension gridDimension serType = (case serType of
     BAND_DISTRIBUTION \<Rightarrow> Inr (if gridDimension = 1 then 0 else 1)
   | _ \<Rightarrow> Inl (CException ''defaultDistributedDimension''))"

definition getDimensionDistributed :: "server_distribution \<Rightarrow> int" where
  "getDimensionDistributed sd = (if 1 < length (sd_nGlobal sd) then sd_position sd else 0)"

section \<open>Bands\<close>

definition band_ranges :: "nat \<Rightarrow> nat \<Rightarrow> (nat \<times> nat list \<times> nat list) outcome" where
  "band_ranges nGlobTemp nServer =
     (let nbBand = min nGlobTemp nServer
      in obind (ofold (\<lambda>i (njRangeBegin, njRangeEnd).
             obind (if 0 < i then obind (arr_get njRangeEnd (int i - 1)) (arr_set njRangeBegin (int i)) else Inr njRangeBegin)
               (\<lambda>njRangeBegin.
             let njRangeSize = nGlobTemp div nbBand;
                 njRangeSize = (if i < nGlobTemp mod nbBand then njRangeSize + 1 else njRangeSize)
             in obind (arr_get njRangeBegin (int i)) (\<lambda>b. omap (Pair njRangeBegin) (arr_set njRangeEnd (int i) (njRangeSize + b)))))
           [0..<nbBand] (replicate nServer 0, replicate nServer 0)) (\<lambda>(njRangeBegin, njRangeEnd).
         obind (arr_set njRangeEnd (int nbBand - 1) nGlobTemp) (\<lambda>njRangeEnd.
         omap (Pair nbBand) (ofold (\<lambda>i (njRangeBegin, njRangeEnd).
             obind (arr_set njRangeEnd (int i) 0) (\<lambda>njRangeEnd. omap (\<lambda>njRangeBegin. (njRangeBegin, njRangeEnd)) (arr_set njRangeBegin (int i) 0)))
           [nbBand..<nServer] (njRangeBegin, njRangeEnd)))))"

text \<open>The check of the position of the dimension that is cut; a grid of one dimension is cut along it.\<close>

definition sd_cut :: "int \<Rightarrow> server_distribution \<Rightarrow> (int \<times> nat \<times> server_distribution) outcome" where
  "sd_cut positionDimensionDistributed sd =
     (let ndim = length (sd_nGlobal sd);
          position = (if ndim = 1 then 0 else positionDimensionDistributed)
      in if int ndim < position then Inl (CException ''computeBandDistribution'')
         else let positionDistributed = (if 1 < ndim then position else 0)
              in omap (\<lambda>nGlobTemp. (positionDistributed, nGlobTemp, sd\<lparr>sd_position := position\<rparr>))
                   (arr_get (sd_nGlobal sd) positionDistributed))"

text \<open>The begin and the size of dimension \<open>j\<close> on a server, of which the one that is cut has the range given.\<close>

definition sd_table :: "nat \<Rightarrow> int \<Rightarrow> (nat \<Rightarrow> 'a) \<Rightarrow> (nat \<Rightarrow> 'a) \<Rightarrow> nat \<Rightarrow> 'a list list" where
  "sd_table ndim positionDistributed band whole nServer =
     map (\<lambda>i. map (\<lambda>j. if positionDistributed \<noteq> int j then (if ndim = 1 then band i else whole j) else band i) [0..<ndim]) [0..<nServer]"

definition computeBandDistribution :: "nat \<Rightarrow> int \<Rightarrow> server_distribution \<Rightarrow> (nat \<times> server_distribution) outcome" where
  "computeBandDistribution nServer positionDimensionDistributed sd =
     obind (sd_cut positionDimensionDistributed sd) (\<lambda>(positionDistributed, nGlobTemp, sd).
     omap (\<lambda>(nbBand, njRangeBegin, njRangeEnd). (nbBand, sd\<lparr>
         sd_indexBegin := sd_table (length (sd_nGlobal sd)) positionDistributed (\<lambda>i. int (njRangeBegin ! i)) (\<lambda>j. 0) nServer,
         sd_dimensionSizes := sd_table (length (sd_nGlobal sd)) positionDistributed (\<lambda>i. njRangeEnd ! i - njRangeBegin ! i)
           (\<lambda>j. sd_nGlobal sd ! j) nServer\<rparr>))
       (band_ranges nGlobTemp nServer))"

definition computeRootDistribution :: "nat \<Rightarrow> int \<Rightarrow> server_distribution \<Rightarrow> (nat \<times> server_distribution) outcome" where
  "computeRootDistribution nServer positionDimensionDistributed sd =
     omap (\<lambda>(positionDistributed, nGlobTemp, sd). (1, sd\<lparr>
         sd_indexBegin := sd_table (length (sd_nGlobal sd)) positionDistributed (\<lambda>i. if i = 0 then 0 else int nGlobTemp - 1) (\<lambda>j. 0) nServer,
         sd_dimensionSizes := sd_table (length (sd_nGlobal sd)) positionDistributed (\<lambda>i. if i = 0 then nGlobTemp else 0)
           (\<lambda>j. sd_nGlobal sd ! j) nServer\<rparr>))
       (sd_cut positionDimensionDistributed sd)"

section \<open>The cells of a server\<close>

text \<open>The loop that carries the counters of the dimensions over.\<close>

fun sd_carry :: "nat list \<Rightarrow> nat list \<Rightarrow> nat list" where
  "sd_carry (d # e # ds) (x # y # xs) = (if x = d then 0 # sd_carry (e # ds) (Suc y # xs) else x # sd_carry (e # ds) (y # xs))"
| "sd_carry ds xs = xs"

text \<open>What the outer dimensions add to a global index; \<open>mulDim\<close> is the size of a slice.\<close>

fun sd_offset :: "nat list \<Rightarrow> nat \<Rightarrow> int list \<Rightarrow> int" where
  "sd_offset (n # ns) mulDim (c # cs) = c * int (mulDim * n) + sd_offset ns (mulDim * n) cs"
| "sd_offset ns mulDim cs = 0"

text \<open>The global indices in the order in which the loops reach them.\<close>

function sd_rows :: "nat list \<Rightarrow> nat list \<Rightarrow> int list \<Rightarrow> nat \<Rightarrow> nat list \<Rightarrow> nat list" where
  "sd_rows nGlobal dims begin idx idxLoop =
     (if idx < prod_list dims \<and> dims \<noteq> []
      then let idxLoop = sd_carry dims idxLoop
           in map (\<lambda>j. nat (int j + begin ! 0 + sd_offset nGlobal 1 (map2 (\<lambda>x b. int x + b) (tl idxLoop) (tl begin)))) [0..<dims ! 0]
              @ sd_rows nGlobal dims begin (idx + dims ! 0) (idxLoop[0 := idxLoop ! 0 + dims ! 0])
      else [])"
  by pat_completeness auto
termination
proof (relation "measure (\<lambda>(_, dims, _, idx, _). prod_list dims - idx)")
  fix dims :: "nat list" and idx :: nat
  assume "idx < prod_list dims \<and> dims \<noteq> []"
  then have "0 < dims ! 0" by (cases dims) (auto intro: gr0I)
  then show "((nGlobal, dims, bs, idx + dims ! 0, x), (nGlobal, dims, bs, idx, y)) \<in> measure (\<lambda>(_, dims, _, idx, _). prod_list dims - idx)"
    for nGlobal bs x y using \<open>idx < prod_list dims \<and> dims \<noteq> []\<close> by (simp add: diff_less_mono2)
qed simp

declare sd_rows.simps [simp del]

definition sd_cells :: "server_distribution \<Rightarrow> nat \<Rightarrow> nat list outcome" where
  "sd_cells sd idxServer =
     obind (arr_get (sd_dimensionSizes sd) (int idxServer)) (\<lambda>dims.
     obind (arr_get (sd_indexBegin sd) (int idxServer)) (\<lambda>begin.
     omap (\<lambda>_. sd_rows (sd_nGlobal sd) dims begin 0 (replicate (length (sd_nGlobal sd)) 0)) (arr_get dims 0)))"

definition computeServerDistribution :: "bool \<Rightarrow> int \<Rightarrow> server_distribution \<Rightarrow> server_distribution outcome" where
  "computeServerDistribution doComputeGlobalIndex positionDimensionDistributed sd =
     obind (case sd_serverType sd of
         BAND_DISTRIBUTION \<Rightarrow> omap snd (computeBandDistribution (sd_nServer sd) positionDimensionDistributed sd)
       | _ \<Rightarrow> Inr sd) (\<lambda>sd.
     if doComputeGlobalIndex
     then omap (\<lambda>cells. sd\<lparr>sd_vecGlobalIndex := cells\<rparr>) (otraverse (\<lambda>idxServer.
            obind (sd_cells sd idxServer) (\<lambda>gs.
            if length gs \<le> prod_list (sd_dimensionSizes sd ! idxServer) then Inr gs
            else Inl (UndefinedBehaviour ''write out of range'')))
          [0..<sd_nServer sd])
     else Inr sd)"

definition computeServerGlobalIndexInRange :: "nat \<times> nat \<Rightarrow> int \<Rightarrow> server_distribution \<Rightarrow> (nat list \<times> server_distribution) outcome" where
  "computeServerGlobalIndexInRange indexBeginEnd positionDimensionDistributed sd =
     obind (case sd_serverType sd of
         BAND_DISTRIBUTION \<Rightarrow> computeBandDistribution (sd_nServer sd) positionDimensionDistributed sd
       | ROOT_DISTRIBUTION \<Rightarrow> computeRootDistribution (sd_nServer sd) 1 sd
       | _ \<Rightarrow> Inr (0, sd)) (\<lambda>(nBand, sd).
     let (indexBegin, indexEnd) = indexBeginEnd
     in if indexEnd < indexBegin then Inl (CException ''computeServerGlobalIndexInRange'')
        else omap (\<lambda>globalIndex. ([nBand..<sd_nServer sd], sd\<lparr>sd_globalIndex := globalIndex\<rparr>))
          (ofold (\<lambda>idxServer globalIndex. omap (\<lambda>gs. fold (\<lambda>g m. if indexBegin \<le> g \<and> g \<le> indexEnd then m(g \<mapsto> idxServer) else m) gs globalIndex)
               (sd_cells sd idxServer))
             [0..<nBand] (sd_globalIndex sd)))"

section \<open>The cells of the elements\<close>

fun rp_loop :: "nat \<Rightarrow> nat \<Rightarrow> nat \<Rightarrow> nat list \<Rightarrow> nat \<times> nat \<Rightarrow> nat \<times> nat" where
  "rp_loop clientRank clientSize rangeProcSize [] r = r"
| "rp_loop clientRank clientSize rangeProcSize (i # is) (indexBegin, _) =
     (let n = rangeProcSize div clientSize;
          n = (if i < rangeProcSize mod clientSize then n + 1 else n)
      in if i = clientRank then (indexBegin, n) else rp_loop clientRank clientSize rangeProcSize is (indexBegin + n, n))"

text \<open>The begin and the size of the range of a client, whose rank is one of the ranks of the clients.\<close>

definition computeRangeProcIndex :: "nat \<Rightarrow> nat \<Rightarrow> nat \<Rightarrow> nat \<times> nat" where
  "computeRangeProcIndex clientRank clientSize rangeProcSize =
     (if rangeProcSize < clientSize
      then snd (fold (\<lambda>idx (rangeIndex, r). (if Suc rangeIndex = rangeProcSize then 0 else Suc rangeIndex, if idx = clientRank then (rangeIndex, 1) else r))
             [0..<clientSize] (0, (0, 0)))
      else rp_loop clientRank clientSize rangeProcSize [0..<clientSize] (0, 0))"

text \<open>Where the dimensions of each element start among those of the grid.\<close>

fun sd_idxMap :: "nat \<Rightarrow> int list \<Rightarrow> nat list" where
  "sd_idxMap idx [] = []"
| "sd_idxMap idx (n # axisDomainOrder) = idx # sd_idxMap (if n = 2 then idx + 2 else if n = 1 then idx + 1 else idx) axisDomainOrder"

text \<open>\<open>elementSize\<close> and \<open>elementDimension\<close>\<close>

definition sd_element :: "int list \<Rightarrow> nat list \<Rightarrow> int \<Rightarrow> nat \<Rightarrow> (nat \<times> int \<times> int \<times> nat \<times> nat) outcome" where
  "sd_element begin dims n m =
     (if n = 2 then
        obind (arr_get dims (int m)) (\<lambda>ni. obind (arr_get dims (int m + 1)) (\<lambda>nj.
        obind (arr_get begin (int m)) (\<lambda>ib. omap (\<lambda>jb. (ni * nj, ib, jb, ni, nj)) (arr_get begin (int m + 1)))))
      else if n = 1 then obind (arr_get dims (int m)) (\<lambda>ni. omap (\<lambda>ib. (ni, ib, 0, ni, 1)) (arr_get begin (int m)))
      else omap (\<lambda>ni. (ni, 0, 0, 1, 1)) (arr_get dims (int m)))"

definition sd_element_cells :: "nat \<times> nat \<Rightarrow> int \<times> int \<times> nat \<times> nat \<Rightarrow> nat list" where
  "sd_element_cells r d = (case (r, d) of ((rangeBegin, rangeSize), (ib, jb, ni, nj)) \<Rightarrow>
     snd (snd (fold (\<lambda>k. fold (\<lambda>l (idx, idxRange, gs).
         if rangeBegin \<le> idx \<and> idxRange < rangeSize
         then (Suc idx, Suc idxRange, gs @ [nat (int l + ib + (int k + jb) * int ni)])
         else (Suc idx, idxRange, gs)) [0..<ni]) [0..<nj] (0, 0, []))))"

definition computeServerGlobalByElement ::
  "nat info_map list \<Rightarrow> nat \<Rightarrow> nat \<Rightarrow> int list \<Rightarrow> int \<Rightarrow> server_distribution \<Rightarrow> (nat list \<times> nat info_map list \<times> server_distribution) outcome" where
  "computeServerGlobalByElement indexServerOnElement clientRank clientSize axisDomainOrder positionDimensionDistributed sd =
     obind (case sd_serverType sd of
         BAND_DISTRIBUTION \<Rightarrow> computeBandDistribution (sd_nServer sd) positionDimensionDistributed sd
       | _ \<Rightarrow> Inr (0, sd)) (\<lambda>(nBand, sd).
     let nbElement = length axisDomainOrder;
         indexServerOnElement = take nbElement indexServerOnElement @ replicate (nbElement - length indexServerOnElement) []
     in omap (\<lambda>tables. ([nBand..<sd_nServer sd], tables, sd))
       (ofold (\<lambda>idxServer. ofold (\<lambda>i tables.
            obind (sd_element (sd_indexBegin sd ! idxServer) (sd_dimensionSizes sd ! idxServer) (axisDomainOrder ! i) (sd_idxMap 0 axisDomainOrder ! i))
              (\<lambda>(elementSize, ndim).
            Inr (tables[i := fold (\<lambda>g. info_push (g, idxServer)) (sd_element_cells (computeRangeProcIndex clientRank clientSize elementSize) ndim) (tables ! i)])))
          [0..<nbElement]) [0..<nBand] indexServerOnElement))"

end
