(* ===== verification/ServerBands.thy ===== *)
theory ServerBands
  imports ServerDistribution
begin

text \<open>
  The bands of the servers: the loops over the cells of a server reach the cells of a box of the grid, in
  increasing order, and the boxes of the servers share the grid out.
\<close>

section \<open>Counters\<close>

fun sd_digits :: "nat list \<Rightarrow> nat \<Rightarrow> nat list" where
  "sd_digits [] n = []"
| "sd_digits [d] n = [n]"
| "sd_digits (d # e # ds) n = (n mod d) # sd_digits (e # ds) (n div d)"

fun sd_value :: "nat list \<Rightarrow> nat list \<Rightarrow> nat" where
  "sd_value (n # ns) (x # xs) = x + n * sd_value ns xs"
| "sd_value ns xs = 0"

lemma length_digits [simp]: "length (sd_digits ds n) = length ds"
  by (induction ds n rule: sd_digits.induct) simp_all

lemma digits_Cons: "\<exists>y ys. sd_digits (d # ds) n = y # ys"
  by (cases ds) simp_all

lemma digits_0: "sd_digits ds 0 = replicate (length ds) 0"
  by (induction ds "0::nat" rule: sd_digits.induct) simp_all

lemma carry_digits: "\<forall>d\<in>set ds. 0 < d \<Longrightarrow> sd_carry ds (sd_digits ds n) = sd_digits ds n"
proof (induction ds n rule: sd_digits.induct)
  case (3 d e ds n)
  obtain y ys where y: "sd_digits (e # ds) (n div d) = y # ys" using digits_Cons by blast
  have "n mod d \<noteq> d" using 3 mod_less_divisor [of d n] by force
  with 3 y show ?case by simp
qed simp_all

lemma carry_Suc: "\<forall>d\<in>set ds. 0 < d \<Longrightarrow> sd_digits ds n = y # ys \<Longrightarrow> sd_carry ds (Suc y # ys) = sd_digits ds (Suc n)"
proof (induction ds n arbitrary: y ys rule: sd_digits.induct)
  case (3 d e ds n)
  obtain z zs where z: "sd_digits (e # ds) (n div d) = z # zs" using digits_Cons by blast
  have y: "y = n mod d" "ys = z # zs" using 3 z by simp_all
  have IH: "sd_carry (e # ds) (Suc z # zs) = sd_digits (e # ds) (Suc (n div d))" using 3 z by simp
  have c: "sd_carry (e # ds) (z # zs) = z # zs" using carry_digits [of "e # ds" "n div d"] 3 z by simp
  show ?case using IH c z y by (simp add: mod_Suc div_Suc)
qed simp_all

text \<open>The counters at the head of the loop, when \<open>q\<close> rows have been done.\<close>

definition sd_head :: "nat \<Rightarrow> nat list \<Rightarrow> nat \<Rightarrow> nat list" where
  "sd_head d ds q = (if q = 0 then 0 else d) # sd_digits ds (q - 1)"

lemma carry_head:
  assumes "0 < d" "\<forall>d\<in>set ds. 0 < d" "q < prod_list ds"
  shows "sd_carry (d # ds) (sd_head d ds q) = 0 # sd_digits ds q"
proof (cases ds)
  case (Cons e es)
  obtain y ys where y: "sd_digits ds (q - 1) = y # ys" using digits_Cons Cons by blast
  have s: "sd_carry ds (y # ys) = y # ys" "sd_carry ds (Suc y # ys) = sd_digits ds (Suc (q - 1))"
    using carry_digits [OF assms(2), of "q - 1"] carry_Suc [OF assms(2) y] y by simp_all
  show ?thesis
  proof (cases "q = 0")
    case True
    with y s(1) assms(1) show ?thesis unfolding Cons sd_head_def by simp
  next
    case False
    with y s(2) show ?thesis unfolding Cons sd_head_def by simp
  qed
qed (use assms(3) in \<open>simp add: sd_head_def\<close>)

section \<open>Boxes\<close>

text \<open>The cells of a box, given by the sizes and begins of its sides.\<close>

fun sd_box :: "nat list \<Rightarrow> nat list \<Rightarrow> nat list \<Rightarrow> nat list" where
  "sd_box (d # ds) (b # bs) (n # ns) = concat (map (\<lambda>h. map (\<lambda>j. j + b + n * h) [0..<d]) (sd_box ds bs ns))"
| "sd_box ds bs ns = [0]"

lemma upt_blocks: "[d * q..<d * p] = concat (map (\<lambda>q. map (\<lambda>j. d * q + j) [0..<d]) [q..<p])"
proof (cases "q \<le> p")
  case True
  then show ?thesis
  proof (induction p rule: dec_induct)
    case (step p)
    have "[d * q..<d * Suc p] = [d * q..<d * p] @ [d * p..<d * p + d]"
      using step(1) by (metis upt_add_eq_append add.commute mult_Suc_right mult_le_mono2)
    also have "[d * p..<d * p + d] = map (\<lambda>j. d * p + j) [0..<d]" by (simp add: map_add_upt add.commute)
    finally show ?case using step by simp
  qed simp
qed simp

lemma box_digits:
  assumes "length ns = length ds" "length bs = length ds" "\<forall>d\<in>set ds. 0 < d"
  shows "map (\<lambda>q. sd_value ns (map2 (+) (sd_digits ds q) bs)) [0..<prod_list ds] = sd_box ds bs ns"
  using assms
proof (induction ds arbitrary: ns bs)
  case (Cons d ds)
  obtain n ns' b bs' where e: "ns = n # ns'" "bs = b # bs'" using Cons.prems by (metis length_Suc_conv)
  show ?case
  proof (cases ds)
    case Nil
    then have "ns' = []" "bs' = []" using Cons.prems e by simp_all
    then show ?thesis by (simp add: Nil e)
  next
    case (Cons c cs)
    have dig: "sd_digits (d # ds) (d * q + j) = j # sd_digits ds q" if "j < d" for q j using that by (simp add: Cons)
    have "[0..<d * prod_list ds] = concat (map (\<lambda>q. map (\<lambda>j. d * q + j) [0..<d]) [0..<prod_list ds])"
      using upt_blocks [of d 0 "prod_list ds"] by simp
    then have "map (\<lambda>q. sd_value ns (map2 (+) (sd_digits (d # ds) q) bs)) [0..<prod_list (d # ds)]
       = concat (map (\<lambda>q. map (\<lambda>j. sd_value ns (map2 (+) (sd_digits (d # ds) (d * q + j)) bs)) [0..<d]) [0..<prod_list ds])"
      by (simp add: map_concat comp_def)
    also have "\<dots> = concat (map (\<lambda>q. map (\<lambda>j. j + b + n * sd_value ns' (map2 (+) (sd_digits ds q) bs')) [0..<d]) [0..<prod_list ds])"
      by (intro arg_cong [where f = concat] map_cong refl) (simp add: dig e)
    also have "\<dots> = concat (map (\<lambda>h. map (\<lambda>j. j + b + n * h) [0..<d]) (map (\<lambda>q. sd_value ns' (map2 (+) (sd_digits ds q) bs')) [0..<prod_list ds]))"
      by (simp add: comp_def)
    also have "\<dots> = sd_box (d # ds) bs ns" using Cons.IH [of ns' bs'] Cons.prems e by simp
    finally show ?thesis .
  qed
qed simp

section \<open>The loops over the cells\<close>

lemma offset_value: "length cs = length ns \<Longrightarrow> sd_offset (n # ns) m (map int cs) = int (m * n * sd_value ns cs)"
proof (induction ns arbitrary: n m cs)
  case (Cons k ns)
  then obtain c cs' where cs: "cs = c # cs'" "length cs' = length ns" by (metis length_Suc_conv)
  then show ?case using Cons.IH [of cs' k "m * n"] by (simp add: algebra_simps)
qed simp

lemma rows_from:
  assumes "0 < d" "\<forall>d\<in>set ds. 0 < d" "length ns = length ds" "length bs = length ds" "q \<le> prod_list ds"
  shows "sd_rows (n # ns) (d # ds) (map int (b # bs)) (d * q) (sd_head d ds q)
    = concat (map (\<lambda>q. map (\<lambda>j. j + b + n * sd_value ns (map2 (+) (sd_digits ds q) bs)) [0..<d]) [q..<prod_list ds])"
  using assms(5)
proof (induction "prod_list ds - q" arbitrary: q)
  case 0
  then show ?case by (simp add: sd_rows.simps)
next
  case (Suc k)
  then have q: "q < prod_list ds" by simp
  have c: "sd_carry (d # ds) (sd_head d ds q) = 0 # sd_digits ds q" by (rule carry_head [OF assms(1,2) q])
  have h: "(0 # sd_digits ds q)[0 := 0 + d] = sd_head d ds (Suc q)" by (simp add: sd_head_def)
  have o: "sd_offset (n # ns) 1 (map2 (\<lambda>x b. int x + b) (sd_digits ds q) (map int bs)) = int (n * sd_value ns (map2 (+) (sd_digits ds q) bs))"
  proof -
    have "map2 (\<lambda>x b. int x + b) (sd_digits ds q) (map int bs) = map int (map2 (+) (sd_digits ds q) bs)"
      by (rule nth_equalityI) (simp_all add: assms(4))
    then show ?thesis using offset_value [of "map2 (+) (sd_digits ds q) bs" ns n 1] assms(3,4) by simp
  qed
  have lt: "d * q < prod_list (d # ds)" using q assms(1) by simp
  have IH: "sd_rows (n # ns) (d # ds) (map int (b # bs)) (d * Suc q) (sd_head d ds (Suc q))
    = concat (map (\<lambda>q. map (\<lambda>j. j + b + n * sd_value ns (map2 (+) (sd_digits ds q) bs)) [0..<d]) [Suc q..<prod_list ds])"
    by (rule Suc.hyps(1)) (use Suc.hyps(2) q in simp_all)
  have nt: "nat (int j + int b + int (n * v)) = j + b + n * v" for j v :: nat by linarith
  have "sd_rows (n # ns) (d # ds) (map int (b # bs)) (d * q) (sd_head d ds q)
    = map (\<lambda>j. j + b + n * sd_value ns (map2 (+) (sd_digits ds q) bs)) [0..<d]
      @ sd_rows (n # ns) (d # ds) (map int (b # bs)) (d * Suc q) (sd_head d ds (Suc q))"
    apply (subst sd_rows.simps)
    using lt h by (simp add: c Let_def o [unfolded One_nat_def] nt add.commute [of "d * q"] del: prod_list.Cons sd_carry.simps of_nat_mult of_nat_add)
  then show ?case using q IH by (simp add: upt_rec [of q])
qed

lemma rows_box:
  assumes "length ns = length ds" "length bs = length ds" "ds \<noteq> []" "\<forall>d\<in>set (tl ds). 0 < d"
  shows "sd_rows ns ds (map int bs) 0 (replicate (length ns) 0) = sd_box ds bs ns"
proof -
  obtain d ds' where d: "ds = d # ds'" using assms(3) by (cases ds) simp_all
  then obtain n ns' b bs' where e: "ns = n # ns'" "bs = b # bs'" "length ns' = length ds'" "length bs' = length ds'"
    using assms(1,2) by (metis length_Suc_conv)
  show ?thesis
  proof (cases "d = 0")
    case True
    have "concat (map (\<lambda>h. []) xs) = []" for xs :: "nat list" by (induction xs) simp_all
    with True show ?thesis by (simp add: d e sd_rows.simps)
  next
    case False
    have "replicate (length ns) 0 = sd_head d ds' 0" by (simp add: e sd_head_def digits_0)
    moreover have "sd_box ds bs ns = concat (map (\<lambda>q. map (\<lambda>j. j + b + n * sd_value ns' (map2 (+) (sd_digits ds' q) bs')) [0..<d]) [0..<prod_list ds'])"
    proof -
      have box: "sd_box ds' bs' ns' = map (\<lambda>q. sd_value ns' (map2 (+) (sd_digits ds' q) bs')) [0..<prod_list ds']"
        by (rule box_digits [symmetric]) (use e d assms(4) in simp_all)
      show ?thesis by (simp add: d e box comp_def)
    qed
    ultimately show ?thesis using rows_from [of d ds' ns' bs' 0 n b] False assms(4) e d by simp
  qed
qed

section \<open>Boxes as sets\<close>

definition sd_coord :: "nat list \<Rightarrow> nat \<Rightarrow> nat \<Rightarrow> nat" where
  "sd_coord ns k g = g div prod_list (take k ns) mod ns ! k"

lemma coord_simps [simp]: "sd_coord (n # ns) 0 g = g mod n" "sd_coord (n # ns) (Suc k) g = sd_coord ns k (g div n)"
  by (simp_all add: sd_coord_def div_mult2_eq)

lemma set_box:
  assumes "length ds = length ns" "length bs = length ns" "\<forall>k<length ns. bs ! k + ds ! k \<le> ns ! k" "\<forall>n\<in>set ns. 0 < n"
  shows "set (sd_box ds bs ns) = {g. g < prod_list ns \<and> (\<forall>k<length ns. bs ! k \<le> sd_coord ns k g \<and> sd_coord ns k g < bs ! k + ds ! k)}"
  using assms
proof (induction ns arbitrary: ds bs)
  case (Cons n ns)
  obtain d ds' b bs' where e: "ds = d # ds'" "bs = b # bs'" "length ds' = length ns" "length bs' = length ns"
    using Cons.prems(1,2) by (metis length_Suc_conv)
  have n: "0 < n" "b + d \<le> n" using Cons.prems(3,4) e by auto
  have IH: "set (sd_box ds' bs' ns) = {g. g < prod_list ns \<and> (\<forall>k<length ns. bs' ! k \<le> sd_coord ns k g \<and> sd_coord ns k g < bs' ! k + ds' ! k)}"
  proof (rule Cons.IH [OF e(3,4)])
    show "\<forall>k<length ns. bs' ! k + ds' ! k \<le> ns ! k" using Cons.prems(3) e by auto
  qed (use Cons.prems(4) in simp)
  have all: "(\<forall>k<length (n # ns). P k) \<longleftrightarrow> P 0 \<and> (\<forall>k<length ns. P (Suc k))" for P by (auto simp: less_Suc_eq_0_disj)
  have lt: "g < n * prod_list ns \<longleftrightarrow> g div n < prod_list ns" for g using n(1) by (simp add: div_less_iff_less_mult mult.commute)
  have "g \<in> set (sd_box ds bs (n # ns)) \<longleftrightarrow> g div n \<in> set (sd_box ds' bs' ns) \<and> b \<le> g mod n \<and> g mod n < b + d" for g
  proof
    assume "g \<in> set (sd_box ds bs (n # ns))"
    then obtain h j where h: "h \<in> set (sd_box ds' bs' ns)" "j < d" "g = j + b + n * h" by (auto simp: e)
    then have "j + b < n" using n(2) by simp
    with h show "g div n \<in> set (sd_box ds' bs' ns) \<and> b \<le> g mod n \<and> g mod n < b + d" by simp
  next
    assume r: "g div n \<in> set (sd_box ds' bs' ns) \<and> b \<le> g mod n \<and> g mod n < b + d"
    then have "g mod n - b < d" "g = g mod n - b + b + n * (g div n)" by auto
    with r show "g \<in> set (sd_box ds bs (n # ns))" by (force simp: e)
  qed
  then show ?case unfolding IH all by (auto simp: lt e)
qed simp

lemma sorted_box:
  assumes "length ds = length ns" "length bs = length ns" "\<forall>k<length ns. bs ! k + ds ! k \<le> ns ! k"
  shows "sorted_wrt (<) (sd_box ds bs ns)"
  using assms
proof (induction ns arbitrary: ds bs)
  case (Cons n ns)
  obtain d ds' b bs' where e: "ds = d # ds'" "bs = b # bs'" "length ds' = length ns" "length bs' = length ns"
    using Cons.prems(1,2) by (metis length_Suc_conv)
  have bd: "b + d \<le> n" using Cons.prems(3) e by auto
  have IH: "sorted_wrt (<) (sd_box ds' bs' ns)" by (rule Cons.IH [OF e(3,4)]) (use Cons.prems(3) e in auto)
  have row: "j + b + n * h < j' + b + n * h'" if "h < h'" "j < d" for h h' j j'
  proof -
    have "n * h + n \<le> n * h'" using that(1) by (metis Suc_leI mult_Suc_right mult_le_mono2 add.commute)
    with that(2) bd show ?thesis by linarith
  qed
  have "sorted_wrt (<) (concat (map (\<lambda>h. map (\<lambda>j. j + b + n * h) [0..<d]) hs))" if "sorted_wrt (<) hs" for hs
    using that
  proof (induction hs)
    case (Cons h hs)
    have "sorted_wrt (<) (map (\<lambda>j. j + b + n * h) [0..<d])" by (simp add: sorted_wrt_map)
    with Cons row show ?case by (fastforce simp: sorted_wrt_append)
  qed simp
  with IH show ?case by (simp add: e)
qed simp

lemma length_box: "length ds = length ns \<Longrightarrow> length bs = length ns \<Longrightarrow> length (sd_box ds bs ns) = prod_list ds"
proof (induction ns arbitrary: ds bs)
  case (Cons n ns)
  then obtain d ds' b bs' where e: "ds = d # ds'" "bs = b # bs'" "length ds' = length ns" "length bs' = length ns" by (metis length_Suc_conv)
  have "length (concat (map (\<lambda>h. map (\<lambda>j. j + b + n * h) [0..<d]) hs)) = d * length hs" for hs by (induction hs) simp_all
  with Cons.IH [OF e(3,4)] show ?case by (simp add: e)
qed simp

section \<open>Ranges\<close>

text \<open>The begin of a band; the first bands are longer by one.\<close>

definition band_begin :: "nat \<Rightarrow> nat \<Rightarrow> nat \<Rightarrow> nat" where
  "band_begin n nb i = i * (n div nb) + min i (n mod nb)"

lemma band_begin_simps: "band_begin n nb 0 = 0" "band_begin n nb (Suc i) = band_begin n nb i + (n div nb + (if i < n mod nb then 1 else 0))"
  by (simp_all add: band_begin_def)

lemma band_begin_last: "0 < nb \<Longrightarrow> band_begin n nb nb = n"
  by (simp add: band_begin_def min_absorb2 less_imp_le)

lemma band_begin_mono: "i \<le> j \<Longrightarrow> band_begin n nb i \<le> band_begin n nb j"
  by (simp add: band_begin_def add_mono)

lemma band_of:
  assumes "0 < nb" "x < n"
  shows "\<exists>!i. i < nb \<and> band_begin n nb i \<le> x \<and> x < band_begin n nb (Suc i)"
proof -
  have "\<exists>i<k. band_begin n nb i \<le> x \<and> x < band_begin n nb (Suc i)" if "x < band_begin n nb k" for k
    using that
  proof (induction k)
    case (Suc k)
    then show ?case by (cases "x < band_begin n nb k") (auto simp: not_less intro: less_SucI)
  qed (simp add: band_begin_simps)
  moreover have "i = j" if "band_begin n nb i \<le> x" "x < band_begin n nb (Suc i)" "band_begin n nb j \<le> x" "x < band_begin n nb (Suc j)" for i j
    using that band_begin_mono [of "Suc i" j n nb] band_begin_mono [of "Suc j" i n nb] by (metis Suc_leI leD le_trans not_less_iff_gr_or_eq)
  ultimately show ?thesis using band_begin_last [OF assms(1), of n] assms(2) by metis
qed

lemma band_ranges_eq:
  assumes "0 < n" "0 < nServer"
  defines "nb \<equiv> min n nServer"
  shows "band_ranges n nServer = Inr (nb, map (\<lambda>i. if i < nb then band_begin n nb i else 0) [0..<nServer],
    map (\<lambda>i. if i < nb then band_begin n nb (Suc i) else 0) [0..<nServer])"
proof -
  let ?c = "band_begin n nb"
  let ?B = "\<lambda>k. map (\<lambda>i. if i < k then ?c i else 0) [0..<nServer]" and ?E = "\<lambda>k. map (\<lambda>i. if i < k then ?c (Suc i) else 0) [0..<nServer]"
  let ?step = "\<lambda>i (njRangeBegin, njRangeEnd).
             obind (if 0 < i then obind (arr_get njRangeEnd (int i - 1)) (arr_set njRangeBegin (int i)) else Inr njRangeBegin)
               (\<lambda>njRangeBegin.
             let njRangeSize = n div nb;
                 njRangeSize = (if i < n mod nb then njRangeSize + 1 else njRangeSize)
             in obind (arr_get njRangeBegin (int i)) (\<lambda>b. omap (Pair njRangeBegin) (arr_set njRangeEnd (int i) (njRangeSize + b))))"
  have nb: "0 < nb" "nb \<le> nServer" using assms by simp_all
  have up: "(map (\<lambda>i. if i < k then f i else (0::nat)) [0..<nServer])[k := f k] = map (\<lambda>i. if i < Suc k then f i else 0) [0..<nServer]" for k and f :: "nat \<Rightarrow> nat"
    by (rule nth_equalityI) (auto simp: nth_list_update less_Suc_eq)
  have "\<exists>t. ofold ?step [0..<nb] (replicate nServer 0, replicate nServer 0) = Inr t \<and> t = (?B nb, ?E nb)"
  proof (rule ofold_upto [where P = "\<lambda>k t. t = (?B k, ?E k)"])
    show "(replicate nServer 0, replicate nServer 0) = (?B 0, ?E 0)" by (simp add: map_replicate_const)
    fix k s assume k: "k < nb" and s: "s = (?B k, ?E k)"
    have b: "(if 0 < k then obind (arr_get (?E k) (int k - 1)) (arr_set (?B k) (int k)) else Inr (?B k)) = Inr (?B (Suc k))"
    proof (cases k)
      case 0
      show ?thesis unfolding 0 by (auto simp: band_begin_simps)
    next
      case (Suc i)
      have "arr_get (?E k) (int k - 1) = Inr (?c k)" using Suc k nb(2) by simp
      moreover have "arr_set (?B k) (int k) (?c k) = Inr (?B (Suc k))" using k nb(2) up [of k ?c] by simp
      ultimately show ?thesis using Suc by (simp only: obind.simps) simp
    qed
    have sz: "(if k < n mod nb then n div nb + 1 else n div nb) + ?c k = ?c (Suc k)" by (simp add: band_begin_simps(2))
    have get: "arr_get (?B (Suc k)) (int k) = Inr (?c k)" using k nb(2) by simp
    have put: "arr_set (?E k) (int k) (?c (Suc k)) = Inr (?E (Suc k))" using k nb(2) up [of k "\<lambda>i. ?c (Suc i)"] by simp
    have "?step k s = Inr (?B (Suc k), ?E (Suc k))"
      unfolding s prod.case b obind.simps Let_def get by (simp only: obind.simps sz put omap_simps)
    then show "\<exists>t. ?step k s = Inr t \<and> t = (?B (Suc k), ?E (Suc k))" by blast
  qed
  then have f: "ofold ?step [0..<nb] (replicate nServer 0, replicate nServer 0) = Inr (?B nb, ?E nb)" by blast
  have last: "(?E nb)[nb - 1 := n] = ?E nb"
    using nb band_begin_last [OF nb(1), of n] by (intro nth_equalityI) (auto simp: nth_list_update)
  have rest: "ofold (\<lambda>i (njRangeBegin, njRangeEnd).
             obind (arr_set njRangeEnd (int i) 0) (\<lambda>njRangeEnd. omap (\<lambda>njRangeBegin. (njRangeBegin, njRangeEnd)) (arr_set njRangeBegin (int i) 0)))
           is (?B nb, ?E nb) = Inr (?B nb, ?E nb)" if "\<forall>i\<in>set is. nb \<le> i \<and> i < nServer" for "is"
    using that
  proof (induction "is")
    case (Cons i "is")
    have "(?B nb)[i := 0] = ?B nb" "(?E nb)[i := 0] = ?E nb"
      using Cons.prems by (auto intro!: nth_equalityI simp: nth_list_update)
    with Cons show ?case by simp
  qed simp
  have n1: "nat (int nb - 1) = nb - 1" "0 \<le> int nb - 1" using nb(1) by linarith+
  have "band_ranges n nServer = obind (ofold ?step [0..<nb] (replicate nServer 0, replicate nServer 0)) (\<lambda>(njRangeBegin, njRangeEnd).
         obind (arr_set njRangeEnd (int nb - 1) n) (\<lambda>njRangeEnd.
         omap (Pair nb) (ofold (\<lambda>i (njRangeBegin, njRangeEnd).
             obind (arr_set njRangeEnd (int i) 0) (\<lambda>njRangeEnd. omap (\<lambda>njRangeBegin. (njRangeBegin, njRangeEnd)) (arr_set njRangeBegin (int i) 0)))
           [nb..<nServer] (njRangeBegin, njRangeEnd))))"
    by (simp add: band_ranges_def nb_def Let_def)
  also have "\<dots> = Inr (nb, ?B nb, ?E nb)"
    unfolding f using nb(2) n1 last by (simp add: rest)
  finally show ?thesis .
qed

end
