(* ===== verification/ServerClaims.thy ===== *)
theory ServerClaims
  imports ServerBands DhtClaims
begin

text \<open>
  What the servers and the clients know of the bands: the cells of each server, the servers of a range of
  cells, the parts of the elements; and where the distribution goes wrong.
\<close>

section \<open>The distribution in bands\<close>

text \<open>Grids whose dimensions are not empty, with the number of a dimension to be cut.\<close>

definition sd_ok :: "nat list \<Rightarrow> nat \<Rightarrow> int \<Rightarrow> bool" where
  "sd_ok nGlobal nServer position \<longleftrightarrow> 0 < nServer \<and> nGlobal \<noteq> [] \<and> (\<forall>n\<in>set nGlobal. 0 < n)
     \<and> (length nGlobal = 1 \<and> position \<le> 1 \<or> 0 \<le> position \<and> position < int (length nGlobal))"

definition sd_dimension :: "nat list \<Rightarrow> int \<Rightarrow> nat" where
  "sd_dimension nGlobal position = (if length nGlobal = 1 then 0 else nat position)"

text \<open>The server that has a cell is the one whose band the coordinate of the cell is in.\<close>

definition in_band :: "nat list \<Rightarrow> nat \<Rightarrow> int \<Rightarrow> nat \<Rightarrow> nat \<Rightarrow> bool" where
  "in_band nGlobal nServer position g i \<longleftrightarrow>
     (let p = sd_dimension nGlobal position; n = nGlobal ! p; nb = min n nServer
      in i < nb \<and> band_begin n nb i \<le> sd_coord nGlobal p g \<and> sd_coord nGlobal p g < band_begin n nb (Suc i))"

definition sd_sides :: "nat list \<Rightarrow> nat \<Rightarrow> int \<Rightarrow> nat \<Rightarrow> nat list \<times> nat list" where
  "sd_sides nGlobal nServer position i =
     (let p = sd_dimension nGlobal position; n = nGlobal ! p; nb = min n nServer
      in ((replicate (length nGlobal) 0)[p := if i < nb then band_begin n nb i else 0],
          nGlobal[p := if i < nb then band_begin n nb (Suc i) - band_begin n nb i else 0]))"

lemma sd_dimension_less: "sd_ok nGlobal nServer position \<Longrightarrow> sd_dimension nGlobal position < length nGlobal"
  by (auto simp: sd_ok_def sd_dimension_def)

lemma sd_sides_facts:
  assumes "sd_ok nGlobal nServer position"
  shows "length (fst (sd_sides nGlobal nServer position i)) = length nGlobal"
    "length (snd (sd_sides nGlobal nServer position i)) = length nGlobal"
    "k < length nGlobal \<Longrightarrow> fst (sd_sides nGlobal nServer position i) ! k + snd (sd_sides nGlobal nServer position i) ! k \<le> nGlobal ! k"
proof -
  let ?p = "sd_dimension nGlobal position"
  let ?n = "nGlobal ! ?p"
  let ?nb = "min ?n nServer"
  have p: "?p < length nGlobal" by (rule sd_dimension_less [OF assms])
  then have n: "0 < ?n" "0 < ?nb" using assms by (auto simp: sd_ok_def)
  show "length (fst (sd_sides nGlobal nServer position i)) = length nGlobal"
    "length (snd (sd_sides nGlobal nServer position i)) = length nGlobal" by (simp_all add: sd_sides_def Let_def)
  have "band_begin ?n ?nb (Suc i) \<le> ?n" if "i < ?nb"
    using band_begin_mono [of "Suc i" ?nb ?n ?nb] band_begin_last [OF n(2), of ?n] that by simp
  moreover have "band_begin ?n ?nb i \<le> band_begin ?n ?nb (Suc i)" by (rule band_begin_mono) simp
  ultimately show "fst (sd_sides nGlobal nServer position i) ! k + snd (sd_sides nGlobal nServer position i) ! k \<le> nGlobal ! k" if "k < length nGlobal"
    using that p by (cases "k = ?p"; cases "i < ?nb") (auto simp: sd_sides_def Let_def nth_list_update)
qed

lemma sides_box:
  assumes "sd_ok nGlobal nServer position"
  shows "set (sd_box (snd (sd_sides nGlobal nServer position i)) (fst (sd_sides nGlobal nServer position i)) nGlobal)
    = {g. g < prod_list nGlobal \<and> in_band nGlobal nServer position g i}"
proof -
  let ?p = "sd_dimension nGlobal position"
  have p: "?p < length nGlobal" by (rule sd_dimension_less [OF assms])
  have pos: "\<forall>n\<in>set nGlobal. 0 < n" using assms by (simp add: sd_ok_def)
  have c: "sd_coord nGlobal k g < nGlobal ! k" if "k < length nGlobal" for k g using pos that by (simp add: sd_coord_def)
  let ?ds = "snd (sd_sides nGlobal nServer position i)" and ?bs = "fst (sd_sides nGlobal nServer position i)"
  have box: "set (sd_box ?ds ?bs nGlobal) = {g. g < prod_list nGlobal
      \<and> (\<forall>k<length nGlobal. ?bs ! k \<le> sd_coord nGlobal k g \<and> sd_coord nGlobal k g < ?bs ! k + ?ds ! k)}"
    by (rule set_box [OF sd_sides_facts(2,1) [OF assms] _ pos]) (use sd_sides_facts(3) [OF assms] in blast)
  have other: "(?bs ! k \<le> sd_coord nGlobal k g \<and> sd_coord nGlobal k g < ?bs ! k + ?ds ! k)" if "k < length nGlobal" "k \<noteq> ?p" for k g
    using that c [OF that(1), of g] by (simp add: sd_sides_def Let_def)
  have this_one: "(?bs ! ?p \<le> sd_coord nGlobal ?p g \<and> sd_coord nGlobal ?p g < ?bs ! ?p + ?ds ! ?p) \<longleftrightarrow> in_band nGlobal nServer position g i" for g
  proof -
    define nb where "nb = min (nGlobal ! ?p) nServer"
    have at: "?bs ! ?p = (if i < nb then band_begin (nGlobal ! ?p) nb i else 0)"
      "?ds ! ?p = (if i < nb then band_begin (nGlobal ! ?p) nb (Suc i) - band_begin (nGlobal ! ?p) nb i else 0)"
      unfolding nb_def using p by (simp_all only: sd_sides_def Let_def fst_conv snd_conv nth_list_update_eq length_replicate)
    have ib: "in_band nGlobal nServer position g i \<longleftrightarrow> i < nb \<and> band_begin (nGlobal ! ?p) nb i \<le> sd_coord nGlobal ?p g
        \<and> sd_coord nGlobal ?p g < band_begin (nGlobal ! ?p) nb (Suc i)" by (simp only: in_band_def Let_def nb_def)
    have "band_begin (nGlobal ! ?p) nb i \<le> band_begin (nGlobal ! ?p) nb (Suc i)" by (rule band_begin_mono) simp
    then show ?thesis unfolding at ib by (cases "i < nb") simp_all
  qed
  have "(\<forall>k<length nGlobal. ?bs ! k \<le> sd_coord nGlobal k g \<and> sd_coord nGlobal k g < ?bs ! k + ?ds ! k)
      \<longleftrightarrow> in_band nGlobal nServer position g i" for g using other this_one p by metis
  then show ?thesis unfolding box by blast
qed

lemma sd_row:
  assumes "p < n" "n = 1 \<Longrightarrow> p = 0"
  shows "map (\<lambda>j. if int p \<noteq> int j then (if n = 1 then x else f j) else x) [0..<n] = (map f [0..<n])[p := x]"
  using assms by (intro nth_equalityI) (auto simp: nth_list_update)

lemma bands_eq:
  assumes "sd_ok (sd_nGlobal sd) nServer position"
  shows "computeBandDistribution nServer position sd = Inr (min (sd_nGlobal sd ! sd_dimension (sd_nGlobal sd) position) nServer,
    sd\<lparr>sd_position := (if length (sd_nGlobal sd) = 1 then 0 else position),
       sd_indexBegin := map (\<lambda>i. map int (fst (sd_sides (sd_nGlobal sd) nServer position i))) [0..<nServer],
       sd_dimensionSizes := map (\<lambda>i. snd (sd_sides (sd_nGlobal sd) nServer position i)) [0..<nServer]\<rparr>)"
proof -
  let ?ns = "sd_nGlobal sd"
  let ?p = "sd_dimension ?ns position"
  let ?pos = "if length ?ns = 1 then 0 else position"
  have p: "?p < length ?ns" by (rule sd_dimension_less [OF assms])
  then have n: "0 < ?ns ! ?p" "0 < nServer" using assms by (auto simp: sd_ok_def)
  have le: "\<not> int (length ?ns) < ?pos" using assms by (auto simp: sd_ok_def)
  have pd: "(if 1 < length ?ns then ?pos else 0) = int ?p" using assms by (auto simp: sd_ok_def sd_dimension_def)
  have cut: "sd_cut position sd = Inr (int ?p, ?ns ! ?p, sd\<lparr>sd_position := ?pos\<rparr>)"
    using le p by (simp add: sd_cut_def Let_def pd del: One_nat_def)
  have row: "sd_table (length ?ns) (int ?p) band whole nServer = map (\<lambda>i. (map whole [0..<length ?ns])[?p := band i]) [0..<nServer]"
    for band whole :: "nat \<Rightarrow> nat"
    unfolding sd_table_def by (rule map_cong [OF refl], rule sd_row [OF p]) (simp add: sd_dimension_def)
  have rowi: "sd_table (length ?ns) (int ?p) band whole nServer = map (\<lambda>i. (map whole [0..<length ?ns])[?p := band i]) [0..<nServer]"
    for band whole :: "nat \<Rightarrow> int"
    unfolding sd_table_def by (rule map_cong [OF refl], rule sd_row [OF p]) (simp add: sd_dimension_def)
  let ?nb = "min (?ns ! ?p) nServer"
  let ?b = "band_begin (?ns ! ?p) ?nb"
  let ?B = "map (\<lambda>i. if i < ?nb then ?b i else 0) [0..<nServer]" and ?E = "map (\<lambda>i. if i < ?nb then ?b (Suc i) else 0) [0..<nServer]"
  have Bn: "?B ! i = (if i < ?nb then ?b i else 0)" and En: "?E ! i = (if i < ?nb then ?b (Suc i) else 0)" if "i < nServer" for i
    using that by simp_all
  have sel: "sd_nGlobal (sd\<lparr>sd_position := x\<rparr>) = sd_nGlobal sd" for x by simp
  have diff: "(if c then x else 0) - (if c then y else 0) = (if c then x - y else (0::nat))" for c x y by simp
  have upt_zeros: "map (\<lambda>j. 0) [0..<k] = replicate k 0" for k :: nat by (simp add: map_replicate_const)
  have begins: "map (\<lambda>i. (map (\<lambda>j. 0) [0..<length ?ns])[?p := int (?B ! i)]) [0..<nServer]
      = map (\<lambda>i. map int (fst (sd_sides ?ns nServer position i))) [0..<nServer]"
    using Bn by (intro map_cong refl) (simp only: sd_sides_def Let_def fst_conv map_update map_replicate upt_zeros atLeastLessThan_iff set_upt int_ops(1))
  have sizes: "map (\<lambda>i. (map (\<lambda>j. ?ns ! j) [0..<length ?ns])[?p := ?E ! i - ?B ! i]) [0..<nServer]
      = map (\<lambda>i. snd (sd_sides ?ns nServer position i)) [0..<nServer]"
    using Bn En by (intro map_cong refl) (simp only: sd_sides_def Let_def snd_conv map_nth atLeastLessThan_iff set_upt diff)
  show ?thesis
    unfolding computeBandDistribution_def cut obind.simps prod.case band_ranges_eq [OF n] omap_simps
    by (simp only: prod.case sel row rowi begins sizes)
qed

lemma cells_box:
  assumes "sd_ok nGlobal nServer position" "sd_nGlobal sd = nGlobal" "i < nServer"
    and "sd_indexBegin sd = map (\<lambda>i. map int (fst (sd_sides nGlobal nServer position i))) [0..<nServer]"
    and "sd_dimensionSizes sd = map (\<lambda>i. snd (sd_sides nGlobal nServer position i)) [0..<nServer]"
  shows "sd_cells sd i = Inr (sd_box (snd (sd_sides nGlobal nServer position i)) (fst (sd_sides nGlobal nServer position i)) nGlobal)"
proof -
  let ?ds = "snd (sd_sides nGlobal nServer position i)" and ?bs = "fst (sd_sides nGlobal nServer position i)"
  have len: "length ?bs = length nGlobal" "length ?ds = length nGlobal" "?ds \<noteq> []"
    using sd_sides_facts(1,2) [OF assms(1), of i] assms(1) by (auto simp: sd_ok_def)
  have "sd_rows nGlobal ?ds (map int ?bs) 0 (replicate (length nGlobal) 0) = sd_box ?ds ?bs nGlobal"
  proof (cases "prod_list ?ds = 0")
    case True
    then have "sd_box ?ds ?bs nGlobal = []" using length_box [of ?ds nGlobal ?bs] len by simp
    with True show ?thesis by (simp add: sd_rows.simps)
  next
    case False
    then have "\<forall>d\<in>set (tl ?ds). 0 < d" by (metis gr0I list.set_sel(2) prod_list_zero_iff tl_Nil)
    then show ?thesis using rows_box [of nGlobal ?ds ?bs] len by simp
  qed
  with assms len show ?thesis by (simp add: sd_cells_def arr_get_def)
qed

text \<open>C4: The bands of the servers share the grid out, for any number of dimensions and servers and any dimension that
  is cut: the loops go through and list, for each server, the cells of its band in increasing order, and
  each cell of the grid is in the list of exactly one server.\<close>

theorem bands_share_grid:
  assumes "sd_ok nGlobal nServer position"
  shows "\<exists>sd. computeServerDistribution True position (newServerDistribution nGlobal nServer BAND_DISTRIBUTION) = Inr sd
    \<and> length (sd_vecGlobalIndex sd) = nServer
    \<and> (\<forall>i<nServer. sorted_wrt (<) (sd_vecGlobalIndex sd ! i)
          \<and> set (sd_vecGlobalIndex sd ! i) = {g. g < prod_list nGlobal \<and> in_band nGlobal nServer position g i})
    \<and> (\<forall>g<prod_list nGlobal. \<exists>!i. i < nServer \<and> g \<in> set (sd_vecGlobalIndex sd ! i))"
proof -
  let ?sd = "newServerDistribution nGlobal nServer BAND_DISTRIBUTION"
  let ?box = "\<lambda>i. sd_box (snd (sd_sides nGlobal nServer position i)) (fst (sd_sides nGlobal nServer position i)) nGlobal"
  have n: "sd_nGlobal ?sd = nGlobal" "sd_nServer ?sd = nServer" "sd_serverType ?sd = BAND_DISTRIBUTION" by (simp_all add: newServerDistribution_def)
  define t where "t = snd (the (case computeBandDistribution nServer position ?sd of Inl _ \<Rightarrow> None | Inr r \<Rightarrow> Some r))"
  have t: "computeBandDistribution nServer position ?sd = Inr (min (nGlobal ! sd_dimension nGlobal position) nServer, t)"
    "sd_nGlobal t = nGlobal" "sd_nServer t = nServer"
    "sd_indexBegin t = map (\<lambda>i. map int (fst (sd_sides nGlobal nServer position i))) [0..<nServer]"
    "sd_dimensionSizes t = map (\<lambda>i. snd (sd_sides nGlobal nServer position i)) [0..<nServer]"
    using bands_eq [of ?sd nServer position] assms by (simp_all add: n t_def)
  have tr: "otraverse (\<lambda>i. obind (sd_cells t i) (\<lambda>gs. if length gs \<le> prod_list (sd_dimensionSizes t ! i) then Inr gs
            else Inl (UndefinedBehaviour ''write out of range''))) [0..<nServer] = Inr (map ?box [0..<nServer])"
  proof (rule otraverse_ok)
    fix i assume "i \<in> set [0..<nServer]"
    then have i: "i < nServer" by simp
    have "length (?box i) = prod_list (sd_dimensionSizes t ! i)"
      using length_box [of _ nGlobal] sd_sides_facts(1,2) [OF assms, of i] i t(5) by simp
    then show "obind (sd_cells t i) (\<lambda>gs. if length gs \<le> prod_list (sd_dimensionSizes t ! i) then Inr gs
            else Inl (UndefinedBehaviour ''write out of range'')) = Inr (?box i)"
      by (simp add: cells_box [OF assms t(2) i t(4,5)])
  qed
  let ?r = "t\<lparr>sd_vecGlobalIndex := map ?box [0..<nServer]\<rparr>"
  have "computeServerDistribution True position ?sd = Inr ?r"
    by (simp add: computeServerDistribution_def n t(1,3) tr)
  moreover have at: "sorted_wrt (<) (?box i)" "set (?box i) = {g. g < prod_list nGlobal \<and> in_band nGlobal nServer position g i}" for i
    using sorted_box [OF sd_sides_facts(2,1) [OF assms], of i i] sd_sides_facts(3) [OF assms, of _ i] sides_box [OF assms] by auto
  moreover have "\<exists>!i. i < nServer \<and> g \<in> set (?box i)" if "g < prod_list nGlobal" for g
  proof -
    let ?p = "sd_dimension nGlobal position"
    let ?n = "nGlobal ! ?p"
    have n: "0 < ?n" using sd_dimension_less [OF assms] assms by (simp add: sd_ok_def)
    then have nb: "0 < min ?n nServer" "sd_coord nGlobal ?p g < ?n" using assms by (auto simp: sd_ok_def sd_coord_def)
    have "in_band nGlobal nServer position g i \<Longrightarrow> i < nServer" for i by (simp add: in_band_def Let_def)
    moreover have "\<exists>!i. in_band nGlobal nServer position g i"
      using band_of [OF nb] by (simp only: in_band_def Let_def)
    ultimately show ?thesis using that unfolding at(2) by blast
  qed
  ultimately show ?thesis by (intro exI [where x = ?r]) (simp cong: conj_cong)
qed

text \<open>For any range of global indices the table gives exactly the cells of the range, each with the server whose band
  it is in, and the servers without a band are named.\<close>

lemma range_lookup:
  assumes "sd_ok nGlobal nServer position" "indexBegin \<le> indexEnd"
  shows "\<exists>sd. computeServerGlobalIndexInRange (indexBegin, indexEnd) position (newServerDistribution nGlobal nServer BAND_DISTRIBUTION)
      = Inr ([min (nGlobal ! sd_dimension nGlobal position) nServer..<nServer], sd)
    \<and> (\<forall>g i. sd_globalIndex sd g = Some i \<longleftrightarrow>
          indexBegin \<le> g \<and> g \<le> indexEnd \<and> g < prod_list nGlobal \<and> in_band nGlobal nServer position g i)"
proof -
  let ?sd = "newServerDistribution nGlobal nServer BAND_DISTRIBUTION"
  let ?nb = "min (nGlobal ! sd_dimension nGlobal position) nServer"
  let ?box = "\<lambda>i. sd_box (snd (sd_sides nGlobal nServer position i)) (fst (sd_sides nGlobal nServer position i)) nGlobal"
  let ?ins = "\<lambda>i. fold (\<lambda>g m. if indexBegin \<le> g \<and> g \<le> indexEnd then m(g \<mapsto> i) else m) (?box i)"
  obtain t where t: "computeBandDistribution nServer position ?sd = Inr (?nb, t)" "sd_nGlobal t = nGlobal" "sd_nServer t = nServer"
    "sd_indexBegin t = map (\<lambda>i. map int (fst (sd_sides nGlobal nServer position i))) [0..<nServer]"
    "sd_dimensionSizes t = map (\<lambda>i. snd (sd_sides nGlobal nServer position i)) [0..<nServer]" "sd_globalIndex t = Map.empty"
    using bands_eq [of ?sd nServer position] assms(1) by (simp add: newServerDistribution_def)
  have "ofold (\<lambda>i globalIndex. omap (\<lambda>gs. fold (\<lambda>g m. if indexBegin \<le> g \<and> g \<le> indexEnd then m(g \<mapsto> i) else m) gs globalIndex) (sd_cells t i))
      [0..<?nb] Map.empty = Inr (fold ?ins [0..<?nb] Map.empty)"
    by (rule ofold_pure) (simp add: cells_box [OF assms(1) t(2) _ t(4,5)])
  then have r: "computeServerGlobalIndexInRange (indexBegin, indexEnd) position ?sd
      = Inr ([?nb..<nServer], t\<lparr>sd_globalIndex := fold ?ins [0..<?nb] Map.empty\<rparr>)"
    using assms(2) by (simp add: computeServerGlobalIndexInRange_def newServerDistribution_def [of nGlobal] flip: t(1))
      (simp add: t newServerDistribution_def [of nGlobal, symmetric])
  have ins: "fold (\<lambda>g m. if indexBegin \<le> g \<and> g \<le> indexEnd then m(g \<mapsto> i) else m) gs m g
      = (if g \<in> set gs \<and> indexBegin \<le> g \<and> g \<le> indexEnd then Some i else m g)" for gs i g and m :: "nat \<rightharpoonup> nat"
    by (induction gs arbitrary: m) auto
  have band: "g \<in> set (?box i) \<longleftrightarrow> g < prod_list nGlobal \<and> in_band nGlobal nServer position g i" for g i
    by (simp add: sides_box [OF assms(1)])
  have one: "i = j" if "in_band nGlobal nServer position g i" "in_band nGlobal nServer position g j" for g i j
  proof -
    let ?p = "sd_dimension nGlobal position"
    have "0 < nGlobal ! ?p" using sd_dimension_less [OF assms(1)] assms(1) by (simp add: sd_ok_def)
    then have nb: "0 < ?nb" "sd_coord nGlobal ?p g < nGlobal ! ?p" using assms(1) by (auto simp: sd_ok_def sd_coord_def)
    show ?thesis using band_of [OF nb] that by (simp only: in_band_def Let_def) blast
  qed
  have "fold ?ins [0..<k] Map.empty g = Some i \<longleftrightarrow> i < k \<and> indexBegin \<le> g \<and> g \<le> indexEnd \<and> g < prod_list nGlobal
      \<and> in_band nGlobal nServer position g i" for k g i
  proof (induction k)
    case (Suc k)
    have "fold ?ins [0..<Suc k] Map.empty g = (if g \<in> set (?box k) \<and> indexBegin \<le> g \<and> g \<le> indexEnd then Some k else fold ?ins [0..<k] Map.empty g)"
      by (simp add: ins)
    then show ?case using Suc one [of g i k] unfolding band by (auto simp: less_Suc_eq)
  qed simp
  moreover have "in_band nGlobal nServer position g i \<Longrightarrow> i < ?nb" for g i by (simp add: in_band_def Let_def)
  ultimately show ?thesis using r by (intro exI [where x = "t\<lparr>sd_globalIndex := fold ?ins [0..<?nb] Map.empty\<rparr>"]) auto
qed

text \<open>The check of the position of the dimension that is cut lets the number of dimensions itself pass, which is
  the number of no dimension: the size is then read behind the end of the sizes of the grid.\<close>

theorem cut_position_overruns:
  assumes "1 < length (sd_nGlobal sd)"
  shows "computeBandDistribution nServer (int (length (sd_nGlobal sd))) sd = Inl (UndefinedBehaviour ''read out of range'')"
  using assms by (simp add: computeBandDistribution_def sd_cut_def arr_get_def Let_def)

lemma cut_position_overruns_witness:
  "computeBandDistribution 2 2 (newServerDistribution [3, 5] 2 BAND_DISTRIBUTION) = Inl (UndefinedBehaviour ''read out of range'')"
  using cut_position_overruns [of "newServerDistribution [3, 5] 2 BAND_DISTRIBUTION" 2] by (simp add: newServerDistribution_def)

lemma bands_share_grid_witness:
  "\<exists>sd. computeServerDistribution True 1 (newServerDistribution [3, 5] 2 BAND_DISTRIBUTION) = Inr sd
    \<and> sorted_wrt (<) (sd_vecGlobalIndex sd ! 1) \<and> 14 \<in> set (sd_vecGlobalIndex sd ! 1) \<and> 8 \<notin> set (sd_vecGlobalIndex sd ! 1)"
proof -
  have "sd_ok [3, 5] 2 1" by (simp add: sd_ok_def)
  from bands_share_grid [OF this] obtain sd where sd: "computeServerDistribution True 1 (newServerDistribution [3, 5] 2 BAND_DISTRIBUTION) = Inr sd"
    "sorted_wrt (<) (sd_vecGlobalIndex sd ! 1)" "set (sd_vecGlobalIndex sd ! 1) = {g. g < prod_list [3, 5] \<and> in_band [3, 5] 2 1 g 1}" by auto
  have "in_band [3, 5] 2 1 14 1" "\<not> in_band [3, 5] 2 1 8 1"
    by (simp_all add: in_band_def sd_dimension_def sd_coord_def band_begin_def Let_def)
  with sd show ?thesis by auto
qed

end
