(* ===== verification/ServerElements.thy ===== *)
theory ServerElements
  imports ServerClaims
begin

text \<open>
  The parts of the elements of a grid that each server has, as the clients find them out together: each client
  goes through a range of the part of every server.
\<close>

section \<open>The ranges of the clients\<close>

lemma rp_loop_eq:
  "i \<le> clientRank \<Longrightarrow> clientRank < clientSize \<Longrightarrow>
   rp_loop clientRank clientSize n [i..<clientSize] (band_begin n clientSize i, r)
     = (band_begin n clientSize clientRank, band_begin n clientSize (Suc clientRank) - band_begin n clientSize clientRank)"
proof (induction "clientRank - i" arbitrary: i r)
  case 0
  then show ?case by (simp add: upt_rec [of i] band_begin_simps(2))
next
  case (Suc k)
  then have IH: "rp_loop clientRank clientSize n [Suc i..<clientSize] (band_begin n clientSize (Suc i), r)
     = (band_begin n clientSize clientRank, band_begin n clientSize (Suc clientRank) - band_begin n clientSize clientRank)" for r
    by simp
  have "rp_loop clientRank clientSize n [i..<clientSize] (band_begin n clientSize i, r)
      = rp_loop clientRank clientSize n [Suc i..<clientSize]
          (band_begin n clientSize (Suc i), n div clientSize + (if i < n mod clientSize then 1 else 0))"
    using Suc.prems Suc.hyps(2) by (auto simp: upt_rec [of i] band_begin_simps(2) Let_def)
  then show ?case unfolding IH .
qed

lemma round_robin:
  "fold (\<lambda>idx (rangeIndex, r). (if Suc rangeIndex = n then 0 else Suc rangeIndex, if idx = clientRank then (rangeIndex, 1) else r)) [0..<k] (0, r)
     = (if n = 0 then k else k mod n, if clientRank < k then (if n = 0 then clientRank else clientRank mod n, 1) else r)"
  by (induction k) (auto simp: mod_Suc less_Suc_eq)

text \<open>Clients that are no more than the indices share them out, and each of more clients has one of them.\<close>

lemma range_eq:
  assumes "clientRank < clientSize"
  shows "computeRangeProcIndex clientRank clientSize n
    = (if n < clientSize then (if n = 0 then clientRank else clientRank mod n, 1)
       else (band_begin n clientSize clientRank, band_begin n clientSize (Suc clientRank) - band_begin n clientSize clientRank))"
  using assms rp_loop_eq [of 0 clientRank clientSize n 0] by (simp add: computeRangeProcIndex_def round_robin band_begin_simps(1))

lemma ranges_cover:
  assumes "x < n" "0 < clientSize"
  shows "\<exists>clientRank<clientSize. \<exists>b s. computeRangeProcIndex clientRank clientSize n = (b, s) \<and> b \<le> x \<and> x < b + s"
proof (cases "n < clientSize")
  case True
  then show ?thesis using assms by (intro exI [where x = x]) (simp add: range_eq)
next
  case False
  then obtain r where "r < clientSize" "band_begin n clientSize r \<le> x" "x < band_begin n clientSize (Suc r)"
    using band_of [OF assms(2,1)] by blast
  with False show ?thesis by (intro exI [where x = r]) (simp add: range_eq)
qed

section \<open>The cells of a part\<close>

text \<open>The turns of the loops that fall into the range.\<close>

lemma element_cells_eq:
  assumes "0 < ni"
  shows "sd_element_cells (b, s) (ib, jb, ni, nj)
    = map (\<lambda>x. nat (int (x mod ni) + ib + (int (x div ni) + jb) * int ni)) (take s (drop b [0..<ni * nj]))"
proof -
  let ?f = "\<lambda>x. nat (int (x mod ni) + ib + (int (x div ni) + jb) * int ni)"
  let ?step = "\<lambda>x (idx, idxRange, gs). if b \<le> idx \<and> idxRange < s then (Suc idx, Suc idxRange, gs @ [?f x]) else (Suc idx, idxRange, gs)"
  let ?row = "\<lambda>k. fold (\<lambda>l (idx, idxRange, gs).
         if b \<le> idx \<and> idxRange < s
         then (Suc idx, Suc idxRange, gs @ [nat (int l + ib + (int k + jb) * int ni)])
         else (Suc idx, idxRange, gs)) [0..<ni]"
  have all: "fold ?step [0..<m] (0, 0, []) = (m, min s (m - b), map ?f (take s (drop b [0..<m])))" for m
  proof (induction m)
    case (Suc m)
    show ?case
    proof (cases "b \<le> m \<and> min s (m - b) < s")
      case True
      then have "drop b [0..<Suc m] = drop b [0..<m] @ [m]" "min s (Suc m - b) = Suc (m - b)" "m - b < s" by auto
      with True Suc show ?thesis by simp
    next
      case False
      then have "take s (drop b [0..<Suc m]) = take s (drop b [0..<m])" "min s (Suc m - b) = min s (m - b)" by (auto simp: not_le)
      with False Suc show ?thesis by auto
    qed
  qed simp
  have row: "?row k st = fold ?step (map (\<lambda>l. ni * k + l) [0..<ni]) st" for k st
  proof -
    have "?row k st = fold (\<lambda>l. ?step (ni * k + l)) [0..<ni] st"
      by (rule fold_cong [OF refl refl]) (use assms in \<open>simp add: fun_eq_iff\<close>)
    then show ?thesis by (simp only: fold_map comp_def)
  qed
  have "fold ?row [0..<nj] st = fold ?step [0..<ni * nj] st" for st
  proof -
    have "[0..<ni * nj] = concat (map (\<lambda>k. map (\<lambda>l. ni * k + l) [0..<ni]) [0..<nj])" using upt_blocks [of ni 0 nj] by simp
    moreover have "fold ?step (concat xss) st = fold (fold ?step) xss st" for xss st by (induction xss arbitrary: st) simp_all
    moreover have "?row = (\<lambda>k. fold ?step (map (\<lambda>l. ni * k + l) [0..<ni]))" by (rule ext, rule ext, rule row)
    ultimately show ?thesis by (simp only: fold_map comp_def)
  qed
  then show ?thesis by (simp add: sd_element_cells_def all)
qed

lemma element_cells_set:
  assumes "computeRangeProcIndex clientRank clientSize (ni * nj) = (b, s)" "0 < ni"
  shows "set (sd_element_cells (computeRangeProcIndex clientRank clientSize (ni * nj)) (int ib, int jb, ni, nj))
    = (\<lambda>x. x mod ni + ib + (x div ni + jb) * ni) ` {x. x < ni * nj \<and> b \<le> x \<and> x < b + s}"
proof -
  have "nat (int (x mod ni) + int ib + (int (x div ni) + int jb) * int ni) = x mod ni + ib + (x div ni + jb) * ni" for x
    by (metis nat_int of_nat_add of_nat_mult)
  moreover have "set (take s (drop b [0..<k])) = {x. x < k \<and> b \<le> x \<and> x < b + s}" for k
    by (cases "b + s \<le> k") (auto simp: take_upt)
  ultimately show ?thesis using assms by (simp add: element_cells_eq image_def)
qed

text \<open>All clients together.\<close>

lemma element_cells_all:
  assumes "0 < clientSize"
  shows "(\<Union>clientRank<clientSize. set (sd_element_cells (computeRangeProcIndex clientRank clientSize (ni * nj)) (int ib, int jb, ni, nj)))
    = (\<lambda>(l, k). l + ib + (k + jb) * ni) ` ({..<ni} \<times> {..<nj})" (is "?L = ?R")
proof (cases "ni = 0")
  case True
  have "sd_element_cells r (x, y, 0, nj) = []" for r x y
  proof -
    have "fold (\<lambda>k. id) ks st = st" for ks :: "nat list" and st :: "nat \<times> nat \<times> nat list" by (induction ks) simp_all
    then show ?thesis by (cases r) (simp add: sd_element_cells_def)
  qed
  with True show ?thesis by simp
next
  case False
  then have ni: "0 < ni" by simp
  let ?f = "\<lambda>x. x mod ni + ib + (x div ni + jb) * ni"
  have "?L = ?f ` {..<ni * nj}"
  proof
    show "?L \<subseteq> ?f ` {..<ni * nj}"
    proof
      fix g assume "g \<in> ?L"
      then obtain r where r: "r < clientSize" "g \<in> set (sd_element_cells (computeRangeProcIndex r clientSize (ni * nj)) (int ib, int jb, ni, nj))" by blast
      obtain b s where "computeRangeProcIndex r clientSize (ni * nj) = (b, s)" by (cases "computeRangeProcIndex r clientSize (ni * nj)")
      from element_cells_set [OF this ni] r(2) show "g \<in> ?f ` {..<ni * nj}" by auto
    qed
    show "?f ` {..<ni * nj} \<subseteq> ?L"
    proof
      fix g assume "g \<in> ?f ` {..<ni * nj}"
      then obtain x where x: "x < ni * nj" "g = ?f x" by auto
      obtain r b s where r: "r < clientSize" "computeRangeProcIndex r clientSize (ni * nj) = (b, s)" "b \<le> x" "x < b + s"
        using ranges_cover [OF x(1) assms] by blast
      then have "g \<in> set (sd_element_cells (computeRangeProcIndex r clientSize (ni * nj)) (int ib, int jb, ni, nj))"
        using element_cells_set [OF r(2) ni, of ib jb] x by auto
      with r(1) show "g \<in> ?L" by blast
    qed
  qed
  also have "\<dots> = ?R"
  proof
    show "?f ` {..<ni * nj} \<subseteq> ?R"
    proof
      fix g assume "g \<in> ?f ` {..<ni * nj}"
      then obtain x where "x < ni * nj" "g = ?f x" by auto
      moreover from this have "x mod ni < ni" "x div ni < nj" using ni by (simp_all add: div_less_iff_less_mult mult.commute)
      ultimately show "g \<in> ?R" by (intro image_eqI [where x = "(x mod ni, x div ni)"]) auto
    qed
    show "?R \<subseteq> ?f ` {..<ni * nj}"
    proof
      fix g assume "g \<in> ?R"
      then obtain l k where lk: "l < ni" "k < nj" "g = l + ib + (k + jb) * ni" by auto
      have "ni * k + l < ni * Suc k" using lk(1) by simp
      also have "\<dots> \<le> ni * nj" using lk(2) by (intro mult_le_mono2) simp
      finally show "g \<in> ?f ` {..<ni * nj}" using lk by (intro image_eqI [where x = "ni * k + l"]) simp_all
    qed
  qed
  finally show ?thesis .
qed

section \<open>The tables of the elements\<close>

text \<open>Grids of axes and domains.\<close>

definition elements_ok :: "nat list \<Rightarrow> int list \<Rightarrow> bool" where
  "elements_ok nGlobal order \<longleftrightarrow> set order \<subseteq> {1, 2} \<and> sum_list (map nat order) = length nGlobal"

lemma idxMap_nth:
  "set order \<subseteq> {1, 2} \<Longrightarrow> e < length order \<Longrightarrow> sd_idxMap idx order ! e = idx + sum_list (map nat (take e order))"
proof (induction order arbitrary: idx e)
  case (Cons n order)
  then show ?case by (cases e) auto
qed simp

lemma idxMap_less:
  assumes "elements_ok nGlobal order" "e < length order"
  shows "sd_idxMap 0 order ! e + nat (order ! e) \<le> length nGlobal" "order ! e = 1 \<or> order ! e = 2"
proof -
  have "sum_list (map nat order) = sum_list (map nat (take e order)) + sum_list (map nat (drop e order))"
    by (metis append_take_drop_id map_append sum_list_append)
  moreover have "drop e order = order ! e # drop (Suc e) order" using assms(2) by (simp add: Cons_nth_drop_Suc)
  ultimately show "sd_idxMap 0 order ! e + nat (order ! e) \<le> length nGlobal"
    using assms idxMap_nth [of order e 0] by (simp add: elements_ok_def)
  have "order ! e \<in> {1, 2}" using assms nth_mem by (auto simp: elements_ok_def simp del: insert_iff)
  then show "order ! e = 1 \<or> order ! e = 2" by simp
qed

text \<open>The sides of the part of a server: begins and sizes.\<close>

definition part_sides :: "nat list \<Rightarrow> nat \<Rightarrow> int \<Rightarrow> int list \<Rightarrow> nat \<Rightarrow> nat \<Rightarrow> nat \<times> nat \<times> nat \<times> nat" where
  "part_sides nGlobal nServer position order e i =
     (let m = sd_idxMap 0 order ! e; (bs, ds) = sd_sides nGlobal nServer position i
      in if order ! e = 2 then (bs ! m, bs ! Suc m, ds ! m, ds ! Suc m) else (bs ! m, 0, ds ! m, 1))"

definition part_cells :: "nat list \<Rightarrow> nat \<Rightarrow> int \<Rightarrow> int list \<Rightarrow> nat \<Rightarrow> nat \<Rightarrow> nat \<Rightarrow> nat \<Rightarrow> nat list" where
  "part_cells nGlobal nServer position order clientRank clientSize e i =
     (case part_sides nGlobal nServer position order e i of (ib, jb, ni, nj) \<Rightarrow>
        sd_element_cells (computeRangeProcIndex clientRank clientSize (ni * nj)) (int ib, int jb, ni, nj))"

lemma element_eq:
  assumes "sd_ok nGlobal nServer position" "elements_ok nGlobal order" "e < length order"
  shows "sd_element (map int (fst (sd_sides nGlobal nServer position i))) (snd (sd_sides nGlobal nServer position i))
      (order ! e) (sd_idxMap 0 order ! e)
    = (case part_sides nGlobal nServer position order e i of (ib, jb, ni, nj) \<Rightarrow> Inr (ni * nj, int ib, int jb, ni, nj))"
proof -
  let ?m = "sd_idxMap 0 order ! e"
  have "?m < length nGlobal" "order ! e = 2 \<Longrightarrow> Suc ?m < length nGlobal" using idxMap_less [OF assms(2,3)] by auto
  moreover have "nat (1 + int ?m) = Suc ?m" "nat (int ?m + 1) = Suc ?m" by simp_all
  ultimately show ?thesis using idxMap_less(2) [OF assms(2,3)] sd_sides_facts(1,2) [OF assms(1), of i]
    by (cases "sd_sides nGlobal nServer position i") (auto simp: sd_element_def part_sides_def Let_def arr_get_def)
qed

lemma ofold_updates:
  assumes "\<And>e tables. e < n \<Longrightarrow> f e tables = Inr (tables[e := F e (tables ! e)])" "length tables = n"
  shows "ofold f [0..<n] tables = Inr (map (\<lambda>e. F e (tables ! e)) [0..<n])"
proof -
  have "\<exists>t. ofold f [0..<n] tables = Inr t \<and> t = map (\<lambda>e. if e < n then F e (tables ! e) else tables ! e) [0..<n]"
  proof (rule ofold_upto [where P = "\<lambda>k t. t = map (\<lambda>e. if e < k then F e (tables ! e) else tables ! e) [0..<n]"])
    show "tables = map (\<lambda>e. if e < 0 then F e (tables ! e) else tables ! e) [0..<n]" using assms(2) map_nth [of tables] by simp
    fix k t assume k: "k < n" and t: "t = map (\<lambda>e. if e < k then F e (tables ! e) else tables ! e) [0..<n]"
    have "t[k := F k (t ! k)] = map (\<lambda>e. if e < Suc k then F e (tables ! e) else tables ! e) [0..<n]"
      using k unfolding t by (intro nth_equalityI) (auto simp: nth_list_update less_Suc_eq)
    then show "\<exists>u. f k t = Inr u \<and> u = map (\<lambda>e. if e < Suc k then F e (tables ! e) else tables ! e) [0..<n]"
      using assms(1) [OF k, of t] by simp
  qed
  then show ?thesis by (simp cong: map_cong)
qed

lemma elements_of_client:
  assumes "sd_ok nGlobal nServer position" "elements_ok nGlobal order"
  shows "\<exists>tables sd. computeServerGlobalByElement [] clientRank clientSize order position (newServerDistribution nGlobal nServer BAND_DISTRIBUTION)
      = Inr ([min (nGlobal ! sd_dimension nGlobal position) nServer..<nServer], tables, sd) \<and> length tables = length order
    \<and> (\<forall>e<length order. \<forall>g i. i \<in> set (infos (tables ! e) g)
          \<longleftrightarrow> i < min (nGlobal ! sd_dimension nGlobal position) nServer
            \<and> g \<in> set (part_cells nGlobal nServer position order clientRank clientSize e i))"
proof -
  let ?sd = "newServerDistribution nGlobal nServer BAND_DISTRIBUTION"
  let ?nb = "min (nGlobal ! sd_dimension nGlobal position) nServer" and ?n = "length order"
  let ?cells = "\<lambda>e i. part_cells nGlobal nServer position order clientRank clientSize e i"
  obtain t where t: "computeBandDistribution nServer position ?sd = Inr (?nb, t)" "sd_nServer t = nServer"
    "sd_indexBegin t = map (\<lambda>i. map int (fst (sd_sides nGlobal nServer position i))) [0..<nServer]"
    "sd_dimensionSizes t = map (\<lambda>i. snd (sd_sides nGlobal nServer position i)) [0..<nServer]"
    using bands_eq [of ?sd nServer position] assms(1) by (simp add: newServerDistribution_def)
  let ?f = "\<lambda>s e tables.
            obind (sd_element (sd_indexBegin t ! s) (sd_dimensionSizes t ! s) (order ! e) (sd_idxMap 0 order ! e))
              (\<lambda>(elementSize, sides).
            Inr (tables[e := fold (\<lambda>g. info_push (g, s)) (sd_element_cells (computeRangeProcIndex clientRank clientSize elementSize) sides) (tables ! e)]))"
  have f: "?f s e tables = Inr (tables[e := fold info_push (map (\<lambda>g. (g, s)) (?cells e s)) (tables ! e)])" if "s < ?nb" "e < ?n" for s e tables
    using that t(3,4) by (simp add: element_eq [OF assms that(2)] part_cells_def fold_map comp_def split: prod.split)
  have pushed: "i \<in> set (infos (fold info_push (map (\<lambda>g. (g, s)) gs) m) g) \<longleftrightarrow> i \<in> set (infos m g) \<or> i = s \<and> g \<in> set gs"
    for i s g :: nat and gs m by (force simp: infos_push)
  let ?P = "\<lambda>k tables. length tables = ?n \<and> (\<forall>e<?n. \<forall>g i. i \<in> set (infos (tables ! e) g) \<longleftrightarrow> i < k \<and> g \<in> set (?cells e i))"
  have "\<exists>tables. ofold (\<lambda>s. ofold (?f s) [0..<?n]) [0..<?nb] (replicate ?n []) = Inr tables \<and> ?P ?nb tables"
  proof (rule ofold_upto [where P = ?P])
    fix s tables assume s: "s < ?nb" and P: "?P s tables"
    have o: "ofold (?f s) [0..<?n] tables = Inr (map (\<lambda>e. fold info_push (map (\<lambda>g. (g, s)) (?cells e s)) (tables ! e)) [0..<?n])"
      by (rule ofold_updates [OF f [OF s]]) (use P in simp_all)
    have "?P (Suc s) (map (\<lambda>e. fold info_push (map (\<lambda>g. (g, s)) (?cells e s)) (tables ! e)) [0..<?n])"
      using P by (auto simp: pushed less_Suc_eq)
    with o show "\<exists>u. ofold (?f s) [0..<?n] tables = Inr u \<and> ?P (Suc s) u" by blast
  qed simp
  then obtain tables where r: "ofold (\<lambda>s. ofold (?f s) [0..<?n]) [0..<?nb] (replicate ?n []) = Inr tables" "?P ?nb tables" by blast
  have "computeServerGlobalByElement [] clientRank clientSize order position ?sd = Inr ([?nb..<nServer], tables, t)"
  proof -
    have ty: "sd_serverType ?sd = BAND_DISTRIBUTION" "sd_nServer ?sd = nServer" by (simp_all add: newServerDistribution_def)
    show ?thesis unfolding computeServerGlobalByElement_def ty ServerDistributionType.case t(1) obind.simps prod.case Let_def
      by (simp only: list.size take_Nil append_Nil diff_zero r(1) omap_simps t(2))
  qed
  with r(2) show ?thesis by blast
qed

section \<open>Who has which part\<close>

definition in_part :: "nat list \<Rightarrow> nat \<Rightarrow> int \<Rightarrow> int list \<Rightarrow> nat \<Rightarrow> nat \<Rightarrow> nat \<Rightarrow> bool" where
  "in_part nGlobal nServer position order e g i \<longleftrightarrow>
     (let p = sd_dimension nGlobal position; n = nGlobal ! p; nb = min n nServer; m = sd_idxMap 0 order ! e;
          outer = (if order ! e = 2 then Suc m else m)
      in i < nb \<and> g < (if order ! e = 2 then nGlobal ! m * nGlobal ! Suc m else nGlobal ! m)
         \<and> (outer = p \<longrightarrow> (let x = (if order ! e = 2 then g div nGlobal ! m else g)
              in band_begin n nb i \<le> x \<and> x < band_begin n nb (Suc i))))"

lemma slices: "0 < ni \<Longrightarrow> (\<lambda>(l, k). l + (k + jb) * ni) ` ({..<ni} \<times> {..<nj}) = {g. jb \<le> g div ni \<and> g div ni < jb + nj}" for ni :: nat
proof
  assume ni: "0 < ni"
  show "(\<lambda>(l, k). l + (k + jb) * ni) ` ({..<ni} \<times> {..<nj}) \<subseteq> {g. jb \<le> g div ni \<and> g div ni < jb + nj}"
    using ni by auto
  show "{g. jb \<le> g div ni \<and> g div ni < jb + nj} \<subseteq> (\<lambda>(l, k). l + (k + jb) * ni) ` ({..<ni} \<times> {..<nj})"
  proof
    fix g assume "g \<in> {g. jb \<le> g div ni \<and> g div ni < jb + nj}"
    then have "g = g mod ni + (g div ni - jb + jb) * ni" "g mod ni < ni" "g div ni - jb < nj" using ni by auto
    then show "g \<in> (\<lambda>(l, k). l + (k + jb) * ni) ` ({..<ni} \<times> {..<nj})"
      by (intro image_eqI [where x = "(g mod ni, g div ni - jb)"]) auto
  qed
qed

lemma part_set:
  assumes "sd_ok nGlobal nServer position" "elements_ok nGlobal order" "e < length order" "0 < clientSize"
    and "order ! e = 2 \<Longrightarrow> sd_idxMap 0 order ! e \<noteq> sd_dimension nGlobal position"
    and "i < min (nGlobal ! sd_dimension nGlobal position) nServer"
  shows "(\<exists>r<clientSize. g \<in> set (part_cells nGlobal nServer position order r clientSize e i)) \<longleftrightarrow> in_part nGlobal nServer position order e g i"
proof -
  define p where "p = sd_dimension nGlobal position"
  define nb where "nb = min (nGlobal ! p) nServer"
  define m where "m = sd_idxMap 0 order ! e"
  let ?b = "band_begin (nGlobal ! p) nb"
  obtain ib jb ni nj where s: "part_sides nGlobal nServer position order e i = (ib, jb, ni, nj)" by (metis prod_cases4)
  have cells: "(\<exists>r<clientSize. g \<in> set (part_cells nGlobal nServer position order r clientSize e i))
      \<longleftrightarrow> g \<in> (\<lambda>(l, k). l + ib + (k + jb) * ni) ` ({..<ni} \<times> {..<nj})"
    unfolding part_cells_def s prod.case using element_cells_all [OF assms(4), of ni nj ib jb] by blast
  have mono: "?b i \<le> ?b (Suc i)" by (rule band_begin_mono) simp
  have inb: "i < nb" using assms(6) by (simp add: nb_def p_def)
  have "0 < nb" using inb by simp
  then have top: "?b (Suc i) \<le> nGlobal ! p" using band_begin_mono [of "Suc i" nb "nGlobal ! p" nb] band_begin_last inb by simp
  have sides: "fst (sd_sides nGlobal nServer position i) = (replicate (length nGlobal) 0)[p := ?b i]"
    "snd (sd_sides nGlobal nServer position i) = nGlobal[p := ?b (Suc i) - ?b i]"
    using inb by (simp_all only: sd_sides_def Let_def p_def [symmetric] nb_def [symmetric] fst_conv snd_conv if_True)
  have p: "p < length nGlobal" using sd_dimension_less [OF assms(1)] by (simp add: p_def)
  have pos: "k < length nGlobal \<Longrightarrow> 0 < nGlobal ! k" for k using assms(1) by (simp add: sd_ok_def)
  have part: "in_part nGlobal nServer position order e g i \<longleftrightarrow> g < (if order ! e = 2 then nGlobal ! m * nGlobal ! Suc m else nGlobal ! m)
         \<and> ((if order ! e = 2 then Suc m else m) = p \<longrightarrow> (let x = (if order ! e = 2 then g div nGlobal ! m else g) in ?b i \<le> x \<and> x < ?b (Suc i)))"
    unfolding in_part_def Let_def p_def [symmetric] nb_def [symmetric] m_def [symmetric] using inb by blast
  show ?thesis
  proof (cases "order ! e = 2")
    case True
    then have m: "m \<noteq> p" "Suc m < length nGlobal" using assms(5) idxMap_less [OF assms(2,3)] by (simp_all add: m_def p_def)
    then have v: "ib = 0" "ni = nGlobal ! m" "jb = (if Suc m = p then ?b i else 0)" "nj = (if Suc m = p then ?b (Suc i) - ?b i else nGlobal ! Suc m)"
      using s True p by (auto simp: part_sides_def Let_def sides split_beta m_def [symmetric] nth_list_update)
    have "g < nGlobal ! m * nGlobal ! Suc m \<longleftrightarrow> g div nGlobal ! m < nGlobal ! Suc m"
      using pos [of m] m(2) by (simp add: div_less_iff_less_mult mult.commute)
    moreover have "g \<in> (\<lambda>(l, k). l + ib + (k + jb) * ni) ` ({..<ni} \<times> {..<nj}) \<longleftrightarrow> jb \<le> g div nGlobal ! m \<and> g div nGlobal ! m < jb + nj"
      using slices [of "nGlobal ! m" jb nj] pos [of m] m(2) v(1,2) by simp
    ultimately show ?thesis unfolding cells part using True v(3,4) mono top by (auto simp: Let_def)
  next
    case False
    then have m: "m < length nGlobal" using idxMap_less [OF assms(2,3)] by (auto simp: m_def)
    then have v: "ib = (if m = p then ?b i else 0)" "ni = (if m = p then ?b (Suc i) - ?b i else nGlobal ! m)" "jb = 0" "nj = 1"
      using s False p by (auto simp: part_sides_def Let_def sides split_beta m_def [symmetric] nth_list_update)
    have "g \<in> (\<lambda>(l, k). l + ib + (k + jb) * ni) ` ({..<ni} \<times> {..<nj}) \<longleftrightarrow> ib \<le> g \<and> g < ib + ni"
    proof
      assume "ib \<le> g \<and> g < ib + ni"
      then show "g \<in> (\<lambda>(l, k). l + ib + (k + jb) * ni) ` ({..<ni} \<times> {..<nj})"
        by (intro image_eqI [where x = "(g - ib, 0)"]) (auto simp: v(3,4))
    qed (auto simp: v(3,4))
    then show ?thesis unfolding cells part using False v(1,2) mono top by (auto simp: Let_def)
  qed
qed

lemma elements_of_clients:
  assumes "sd_ok nGlobal nServer position" "elements_ok nGlobal order"
  defines "nb \<equiv> min (nGlobal ! sd_dimension nGlobal position) nServer"
  shows "\<exists>tables sds. (\<forall>r. computeServerGlobalByElement [] r clientSize order position (newServerDistribution nGlobal nServer BAND_DISTRIBUTION)
        = Inr ([nb..<nServer], tables r, sds r))
    \<and> (\<forall>r. \<forall>e<length order. \<forall>g i. i \<in> set (infos (tables r ! e) g) \<longleftrightarrow> i < nb \<and> g \<in> set (part_cells nGlobal nServer position order r clientSize e i))"
proof -
  define Q where "Q r tables sd \<longleftrightarrow> computeServerGlobalByElement [] r clientSize order position (newServerDistribution nGlobal nServer BAND_DISTRIBUTION)
        = Inr ([nb..<nServer], tables, sd)
      \<and> (\<forall>e<length order. \<forall>g i. i \<in> set (infos (tables ! e) g) \<longleftrightarrow> i < nb \<and> g \<in> set (part_cells nGlobal nServer position order r clientSize e i))"
    for r tables sd
  have "\<forall>r. \<exists>tables. \<exists>sd. Q r tables sd" unfolding Q_def nb_def using elements_of_client [OF assms(1,2)] by blast
  then obtain tables where "\<forall>r. \<exists>sd. Q r (tables r) sd" using choice [of "\<lambda>r tables. \<exists>sd. Q r tables sd"] by blast
  then obtain sds where "\<forall>r. Q r (tables r) (sds r)" using choice [of "\<lambda>r sd. Q r (tables r) sd"] by blast
  then show ?thesis unfolding Q_def by blast
qed

text \<open>C20: On grids of axes and domains whose cut dimension is not the first of a domain, the clients together know
  for each element exactly which servers have which of its indices: those in the band for the element
  that is cut, all of them for the others.\<close>

theorem element_parts:
  assumes "sd_ok nGlobal nServer position" "elements_ok nGlobal order" "0 < clientSize"
    and "\<forall>e<length order. order ! e = 2 \<longrightarrow> sd_idxMap 0 order ! e \<noteq> sd_dimension nGlobal position"
  shows "\<exists>tables sds. (\<forall>r. computeServerGlobalByElement [] r clientSize order position (newServerDistribution nGlobal nServer BAND_DISTRIBUTION)
        = Inr ([min (nGlobal ! sd_dimension nGlobal position) nServer..<nServer], tables r, sds r))
    \<and> (\<forall>e<length order. \<forall>g i. (\<exists>r<clientSize. i \<in> set (infos (tables r ! e) g)) \<longleftrightarrow> in_part nGlobal nServer position order e g i)"
proof -
  let ?nb = "min (nGlobal ! sd_dimension nGlobal position) nServer"
  obtain tables sds where t: "\<forall>r. computeServerGlobalByElement [] r clientSize order position (newServerDistribution nGlobal nServer BAND_DISTRIBUTION)
        = Inr ([?nb..<nServer], tables r, sds r)"
    "\<And>r e g i. e < length order \<Longrightarrow> i \<in> set (infos (tables r ! e) g) \<longleftrightarrow> i < ?nb \<and> g \<in> set (part_cells nGlobal nServer position order r clientSize e i)"
    using elements_of_clients [OF assms(1,2), of clientSize] by blast
  have "(\<exists>r<clientSize. i \<in> set (infos (tables r ! e) g)) \<longleftrightarrow> in_part nGlobal nServer position order e g i" if e: "e < length order" for e g i
  proof (cases "i < ?nb")
    case True
    with part_set [OF assms(1,2) e assms(3) _ True, of g] assms(4) e show ?thesis unfolding t(2) [OF e] by blast
  next
    case False
    then have "\<not> in_part nGlobal nServer position order e g i" by (simp only: in_part_def Let_def simp_thms)
    with False show ?thesis unfolding t(2) [OF e] by blast
  qed
  with t(1) show ?thesis by blast
qed

text \<open>With more than one band each is narrower than the domain.\<close>

lemma band_narrow:
  assumes "1 < n" "1 < nServer" "i < min n nServer"
  shows "band_begin n (min n nServer) (Suc i) \<le> n"
    and "band_begin n (min n nServer) (Suc i) - band_begin n (min n nServer) i < n"
proof -
  let ?nb = "min n nServer"
  let ?b = "band_begin n ?nb"
  show le: "?b (Suc i) \<le> n" using band_begin_mono [of "Suc i" ?nb n ?nb] band_begin_last [of ?nb n] assms(3) by simp
  have nb: "2 \<le> ?nb" "?nb \<le> n" using assms by simp_all
  then have "1 \<le> n div ?nb" using div_greater_zero_iff [of n ?nb] by linarith
  then have first: "?b 1 < ?b 2" "1 \<le> ?b 1" by (simp_all add: numeral_2_eq_2 band_begin_simps)
  have last: "?b 2 \<le> n" using band_begin_mono [OF nb(1), of n ?nb] band_begin_last [of ?nb n] nb by simp
  show "?b (Suc i) - ?b i < n"
  proof (cases "i = 0")
    case True
    then show ?thesis using first last by (simp add: band_begin_simps(1))
  next
    case False
    then have "?b 1 \<le> ?b i" by (intro band_begin_mono) simp
    with le first assms(1) show ?thesis by linarith
  qed
qed

lemma last_cell_missed:
  assumes "(1 :: nat) < n" "1 < nj" "w < n" "ib + w \<le> n"
  shows "n * nj - 1 \<notin> (\<lambda>(l, k). l + ib + (k + 0) * w) ` ({..<w} \<times> {..<nj})"
proof
  assume "n * nj - 1 \<in> (\<lambda>(l, k). l + ib + (k + 0) * w) ` ({..<w} \<times> {..<nj})"
  then obtain l k where lk: "l < w" "k < nj" "n * nj - 1 = l + ib + k * w" by auto
  have "k * w \<le> (nj - 1) * (n - 1)" using lk(2) assms(3) by (intro mult_le_mono) linarith+
  then have "n * nj - 1 \<le> n - 1 + (nj - 1) * (n - 1)" using lk(1,3) assms(4) by linarith
  moreover have "n - 1 + (nj - 1) * (n - 1) < n * nj - 1"
  proof -
    obtain x y where "n = Suc (Suc x)" "nj = Suc (Suc y)" using assms(1,2) by (metis Suc_lessE less_natE add_Suc One_nat_def)
    then show ?thesis by simp
  qed
  ultimately show False by linarith
qed

text \<open>C39: When an element of a grid is a domain that is cut along its first dimension, the clients compute its
  indices with the width of the band instead of the width of the domain: when there is more than one
  server and both sizes of the domain are above one, no client tells any server the last index of the
  domain.\<close>

theorem first_dimension_loses:
  assumes "sd_ok nGlobal nServer position" "elements_ok nGlobal order" "0 < clientSize" "1 < nServer"
    and "e < length order" "order ! e = 2" "sd_idxMap 0 order ! e = sd_dimension nGlobal position"
    and "1 < nGlobal ! (sd_idxMap 0 order ! e)" "1 < nGlobal ! Suc (sd_idxMap 0 order ! e)"
  shows "\<exists>tables sds. (\<forall>r. computeServerGlobalByElement [] r clientSize order position (newServerDistribution nGlobal nServer BAND_DISTRIBUTION)
        = Inr ([min (nGlobal ! sd_dimension nGlobal position) nServer..<nServer], tables r, sds r))
    \<and> (\<forall>r<clientSize. infos (tables r ! e) (nGlobal ! (sd_idxMap 0 order ! e) * nGlobal ! Suc (sd_idxMap 0 order ! e) - 1) = [])"
proof -
  define p where "p = sd_dimension nGlobal position"
  let ?n = "nGlobal ! p" and ?nj = "nGlobal ! Suc p"
  let ?nb = "min ?n nServer"
  let ?b = "band_begin ?n ?nb"
  obtain tables sds where t: "\<forall>r. computeServerGlobalByElement [] r clientSize order position (newServerDistribution nGlobal nServer BAND_DISTRIBUTION)
        = Inr ([?nb..<nServer], tables r, sds r)"
    "\<And>r g i. i \<in> set (infos (tables r ! e) g) \<longleftrightarrow> i < ?nb \<and> g \<in> set (part_cells nGlobal nServer position order r clientSize e i)"
    using elements_of_clients [OF assms(1,2), of clientSize] assms(5) unfolding p_def by blast
  have p: "p < length nGlobal" using sd_dimension_less [OF assms(1)] by (simp add: p_def)
  have n: "1 < ?n" "1 < ?nj" using assms(7-9) by (simp_all add: p_def)
  have "?n * ?nj - 1 \<notin> set (part_cells nGlobal nServer position order r clientSize e i)" if r: "r < clientSize" and i: "i < ?nb" for r i
  proof -
    note narrow = band_narrow [OF n(1) assms(4) i]
    have sides: "fst (sd_sides nGlobal nServer position i) = (replicate (length nGlobal) 0)[p := ?b i]"
      "snd (sd_sides nGlobal nServer position i) = nGlobal[p := ?b (Suc i) - ?b i]"
      using i by (simp_all only: sd_sides_def Let_def p_def [symmetric] fst_conv snd_conv if_True)
    have "Suc p < length nGlobal" using idxMap_less [OF assms(2,5)] assms(6,7) by (simp add: p_def)
    then have s: "part_sides nGlobal nServer position order e i = (?b i, 0, ?b (Suc i) - ?b i, ?nj)"
      using p assms(6,7) by (simp add: part_sides_def Let_def sides split_beta p_def [symmetric])
    have "set (part_cells nGlobal nServer position order r clientSize e i)
        \<subseteq> (\<lambda>(l, k). l + ?b i + (k + 0) * (?b (Suc i) - ?b i)) ` ({..<?b (Suc i) - ?b i} \<times> {..<?nj})"
      unfolding part_cells_def s prod.case using element_cells_all [OF assms(3), of "?b (Suc i) - ?b i" ?nj "?b i" 0] r by blast
    moreover have "?b i + (?b (Suc i) - ?b i) \<le> ?n" using narrow(1) band_begin_mono [of i "Suc i" ?n ?nb] by simp
    ultimately show ?thesis using last_cell_missed [OF n narrow(2), of "?b i"] by blast
  qed
  then have "infos (tables r ! e) (?n * ?nj - 1) = []" if "r < clientSize" for r using t(2) [of _ r] that by (metis list.set_intros(1) neq_Nil_conv)
  with t(1) show ?thesis unfolding assms(7) p_def [symmetric] by blast
qed

lemma element_parts_witness:
  "\<exists>tables sds. (\<forall>r. computeServerGlobalByElement [] r 2 [2] 1 (newServerDistribution [4, 2] 2 BAND_DISTRIBUTION) = Inr ([], tables r, sds r))
    \<and> (\<exists>r<2. 1 \<in> set (infos (tables r ! 0) 7)) \<and> \<not> (\<exists>r<2. 0 \<in> set (infos (tables r ! 0) 7))"
proof -
  have "sd_ok [4, 2] 2 1" "elements_ok [4, 2] [2]" "\<forall>e<length [2::int]. [2::int] ! e = 2 \<longrightarrow> sd_idxMap 0 [2] ! e \<noteq> sd_dimension [4, 2] 1"
    by (simp_all add: sd_ok_def elements_ok_def sd_dimension_def)
  from element_parts [OF this(1,2) _ this(3), of 2] obtain tables sds where
    t: "\<And>r. computeServerGlobalByElement [] r 2 [2] 1 (newServerDistribution [4, 2] 2 BAND_DISTRIBUTION)
        = Inr ([min ([4, 2] ! sd_dimension [4, 2] 1) 2..<2], tables r, sds r)"
    "\<And>g i. (\<exists>r<2. i \<in> set (infos (tables r ! 0) g)) \<longleftrightarrow> in_part [4, 2] 2 1 [2] 0 g i" by auto
  have "in_part [4, 2] 2 1 [2] 0 7 1" "\<not> in_part [4, 2] 2 1 [2] 0 7 0" "[min ([4, 2] ! sd_dimension [4, 2] 1) 2..<2] = []"
    by (simp_all add: in_part_def sd_dimension_def band_begin_def Let_def)
  with t show ?thesis by metis
qed

lemma first_dimension_loses_witness:
  "\<exists>tables sds. (\<forall>r. computeServerGlobalByElement [] r 3 [2, 1] 0 (newServerDistribution [4, 2, 5] 2 BAND_DISTRIBUTION)
      = Inr ([], tables r, sds r)) \<and> infos (tables 1 ! 0) 7 = []"
proof -
  have ok: "sd_ok [4, 2, 5] 2 0" "elements_ok [4, 2, 5] [2, 1]" by (simp_all add: sd_ok_def elements_ok_def)
  have d: "sd_dimension [4, 2, 5] 0 = 0" "sd_idxMap 0 [2, 1] ! 0 = 0" by (simp_all add: sd_dimension_def)
  have v: "[min ([4, 2, 5] ! 0) 2..<2] = []" "[4, 2, 5 :: nat] ! 0 * [4, 2, 5] ! Suc 0 - 1 = 7" by simp_all
  obtain tables sds where t: "\<forall>r. computeServerGlobalByElement [] r 3 [2, 1] 0 (newServerDistribution [4, 2, 5] 2 BAND_DISTRIBUTION)
      = Inr ([], tables r, sds r)" "\<forall>r<3. infos (tables r ! 0) 7 = []"
    using first_dimension_loses [OF ok, of 3 0, unfolded d v] by auto
  have "infos (tables 1 ! 0) 7 = []" by (rule t(2) [rule_format]) simp
  with t(1) show ?thesis by blast
qed

end
