(* ===== verification/ServerMapping.thy ===== *)
theory ServerMapping
  imports ServerClaims
begin

text \<open>
  Which cells a client sends to which server (\<open>distribution/client_server_mapping_distributed.cpp\<close>), from how many
  clients a server receives (\<open>distribution/client_server_mapping.cpp\<close>), and the numbering of indices over all processes
  (\<open>distribution/dht_auto_indexing.cpp\<close>).  All clients act together; \<open>MPI_Scan\<close> and \<open>MPI_Allgatherv\<close> give each the sums of
  the ranks up to its own, and the values of all ranks.
\<close>

section \<open>The servers of the cells of a client\<close>

text \<open>\<open>std::vector::resize\<close>\<close>

definition vector_resize :: "nat list \<Rightarrow> nat \<Rightarrow> nat list" where
  "vector_resize xs n = take n xs @ replicate (n - length xs) 0"

definition newServerMapping :: "(nat \<times> nat) list list \<Rightarrow> (dht list \<times> nat info_map list) outcome" where
  "newServerMapping globalIndexOfServer = construct_dht (map (\<lambda>m. fold info_push m []) globalIndexOfServer)"

definition csm_count :: "nat \<Rightarrow> nat info_map \<Rightarrow> nat list outcome" where
  "csm_count n infoIndexMap = ofold (\<lambda>(g, ranks) nbInfoIndex. obind (arr_get ranks 0) (\<lambda>r.
     obind (arr_get nbInfoIndex (int r)) (\<lambda>k. arr_set nbInfoIndex (int r) (k + 1)))) infoIndexMap (replicate n 0)"

definition csm_fill :: "nat info_map \<Rightarrow> (nat \<rightharpoonup> nat list) \<times> nat list \<Rightarrow> ((nat \<rightharpoonup> nat list) \<times> nat list) outcome" where
  "csm_fill = ofold (\<lambda>(g, ranks) (indexGlobalOnServer, nbInfoIndex). obind (arr_get ranks 0) (\<lambda>r.
     obind (arr_get nbInfoIndex (int r)) (\<lambda>k.
     obind (arr_set (case indexGlobalOnServer r of None \<Rightarrow> [] | Some xs \<Rightarrow> xs) (int k) g) (\<lambda>xs.
     omap (Pair (indexGlobalOnServer(r \<mapsto> xs))) (arr_set nbInfoIndex (int r) (k + 1))))))"

definition computeServerIndexMapping ::
  "dht list \<times> nat info_map list \<Rightarrow> nat \<Rightarrow> nat list list \<Rightarrow> (nat \<rightharpoonup> nat list) list \<Rightarrow> (nat \<rightharpoonup> nat list) list outcome" where
  "computeServerIndexMapping ccDHT nbServer globalIndexOnClient indexGlobalOnServer =
     obind (computeIndexInfoMapping ccDHT globalIndexOnClient) (otraverse (\<lambda>(m, infoIndexMap).
       let n = max (length globalIndexOnClient) nbServer
       in obind (csm_count n infoIndexMap) (\<lambda>nbInfoIndex.
          omap fst (csm_fill infoIndexMap
            (fold (\<lambda>idx m. if nbInfoIndex ! idx \<noteq> 0
                 then m(idx \<mapsto> vector_resize (case m idx of None \<Rightarrow> [] | Some xs \<Rightarrow> xs) (nbInfoIndex ! idx)) else m) [0..<n] m,
             map (\<lambda>k. if k \<noteq> 0 then 0 else k) nbInfoIndex))))
       \<circ> zip indexGlobalOnServer)"

section \<open>The clients of a server\<close>

definition csm_connected :: "nat \<Rightarrow> nat list \<Rightarrow> nat list" where
  "csm_connected nbServer connectedServerRank =
     (let isConnected = fold (\<lambda>r. fold (\<lambda>serverNum xs. if r = serverNum then xs[serverNum := True] else xs) [0..<nbServer])
            connectedServerRank (replicate nbServer False)
      in filter (\<lambda>serverNum. isConnected ! serverNum) [0..<nbServer])"

definition computeConnectedClients :: "nat \<Rightarrow> nat list list \<Rightarrow> (nat, nat) std_map list outcome" where
  "computeConnectedClients nbServer connectedServerRanks =
     (let connectedServers = map (csm_connected nbServer) connectedServerRanks
      in omap (\<lambda>clientRes. map (\<lambda>connectedServer. fold (\<lambda>s. std_put s (clientRes ! s)) connectedServer []) connectedServers)
           (ofold (\<lambda>s clientRes. obind (arr_get clientRes (int s)) (\<lambda>k. arr_set clientRes (int s) (k + 1)))
              (concat connectedServers) (replicate nbServer 0)))"

section \<open>Numbering\<close>

record auto_indexing =
  ai_globalIndex :: "nat list"
  ai_nbIndexesGlobal :: nat
  ai_nbIndexOnProc :: nat
  ai_beginIndexOnProc :: nat

definition newDHTAutoIndexing :: "nat list list \<Rightarrow> auto_indexing list" where
  "newDHTAutoIndexing hashValues =
     (let accum = map (\<lambda>p. sum_list (map length (take (Suc p) hashValues))) [0..<length hashValues]
      in map2 (\<lambda>hashValue nbIndexAccum. \<lparr>ai_globalIndex = map (\<lambda>idx. nbIndexAccum - length hashValue + idx) [0..<length hashValue],
             ai_nbIndexesGlobal = last accum, ai_nbIndexOnProc = length hashValue,
             ai_beginIndexOnProc = nbIndexAccum - length hashValue\<rparr>) hashValues accum)"

text \<open>With a table of the processes: the number of an index becomes the second value of its vector.\<close>

definition newDHTAutoIndexing_map :: "nat info_map list \<Rightarrow> (nat info_map \<times> auto_indexing) list outcome" where
  "newDHTAutoIndexing_map hashInitMaps =
     otraverse (\<lambda>(m, ai). omap (\<lambda>m. (m, ai))
         (otraverse (\<lambda>((k, v), g). omap (Pair k) (arr_set v 1 g)) (zip m (ai_globalIndex ai))))
       (zip hashInitMaps (newDHTAutoIndexing (map (map fst) hashInitMaps)))"

section \<open>Counting and filling\<close>

lemma csm_count_eq:
  assumes "\<forall>(g, rs)\<in>set info. rs \<noteq> [] \<and> hd rs < n"
  shows "csm_count n info = Inr (map (\<lambda>s. length (filter (\<lambda>(g, rs). hd rs = s) info)) [0..<n])"
  using assms
proof (induction info rule: rev_induct)
  case (snoc e info)
  obtain g rs where e: "e = (g, rs)" by (cases e)
  then have r: "rs \<noteq> []" "hd rs < n" using snoc.prems by auto
  then have h: "rs ! 0 = hd rs" by (simp add: hd_conv_nth)
  let ?c = "\<lambda>s. length (filter (\<lambda>(g, rs). hd rs = s) info)"
  have "(map ?c [0..<n])[hd rs := Suc (?c (hd rs))] = map (\<lambda>s. length (filter (\<lambda>(g, rs). hd rs = s) (info @ [e]))) [0..<n]"
    by (rule nth_equalityI) (simp_all add: e nth_list_update)
  with snoc r h show ?case by (simp add: csm_count_def ofold_append e)
qed (simp add: csm_count_def map_replicate_const)

definition csm_of :: "nat info_map \<Rightarrow> nat \<Rightarrow> nat list" where
  "csm_of info s = map fst (filter (\<lambda>(g, rs). hd rs = s) info)"

lemma csm_fill_eq:
  assumes "\<forall>(g, rs)\<in>set info. rs \<noteq> [] \<and> hd rs < n" "\<forall>s. length (csm_of info s) \<le> length (base s)"
  shows "csm_fill info (\<lambda>s. if P s \<or> base s \<noteq> [] then Some (base s) else None, replicate n 0)
    = Inr (\<lambda>s. if P s \<or> base s \<noteq> [] then Some (csm_of info s @ drop (length (csm_of info s)) (base s)) else None,
        map (\<lambda>s. length (csm_of info s)) [0..<n])"
  using assms
proof (induction info rule: rev_induct)
  case (snoc e info)
  obtain g rs where e: "e = (g, rs)" by (cases e)
  let ?r = "hd rs"
  have r: "rs \<noteq> []" "?r < n" "rs ! 0 = ?r" using snoc.prems e by (auto simp: hd_conv_nth)
  have more: "csm_of (info @ [e]) s = csm_of info s @ (if s = ?r then [g] else [])" for s by (simp add: csm_of_def e)
  have le: "length (csm_of info s) \<le> length (base s)" for s using snoc.prems(2) spec [of _ s] more [of s] by (metis length_append add_leE)
  have lt: "length (csm_of info ?r) < length (base ?r)" using snoc.prems(2) more [of ?r] by (metis length_append_singleton Suc_le_eq)
  then have ne: "base ?r \<noteq> []" by auto
  let ?xs = "csm_of info ?r @ drop (length (csm_of info ?r)) (base ?r)"
  let ?m = "\<lambda>s. if P s \<or> base s \<noteq> [] then Some (csm_of info s @ drop (length (csm_of info s)) (base s)) else None"
  have upd: "?xs[length (csm_of info ?r) := g] = csm_of (info @ [e]) ?r @ drop (length (csm_of (info @ [e]) ?r)) (base ?r)"
    using lt by (simp add: more Cons_nth_drop_Suc [symmetric])
  have m: "?m(?r \<mapsto> ?xs[length (csm_of info ?r) := g])
      = (\<lambda>s. if P s \<or> base s \<noteq> [] then Some (csm_of (info @ [e]) s @ drop (length (csm_of (info @ [e]) s)) (base s)) else None)"
    using ne unfolding upd by (auto simp: fun_eq_iff more)
  have c: "(map (\<lambda>s. length (csm_of info s)) [0..<n])[?r := Suc (length (csm_of info ?r))] = map (\<lambda>s. length (csm_of (info @ [e]) s)) [0..<n]"
    by (rule nth_equalityI) (auto simp: nth_list_update more)
  have IH: "csm_fill info (\<lambda>s. if P s \<or> base s \<noteq> [] then Some (base s) else None, replicate n 0) = Inr (?m, map (\<lambda>s. length (csm_of info s)) [0..<n])"
    by (rule snoc.IH) (use snoc.prems(1) le in auto)
  show ?case
    using IH r ne lt unfolding csm_fill_def ofold_append e by (simp add: m [unfolded e] c [unfolded e] del: fun_upd_apply)
qed (simp add: csm_fill_def csm_of_def map_replicate_const cong: if_cong)

lemma mapping_of_client:
  assumes "\<forall>(g, rs)\<in>set info. rs \<noteq> [] \<and> hd rs < n"
  shows "obind (csm_count n info) (\<lambda>nbInfoIndex. omap fst (csm_fill info
            (fold (\<lambda>idx m. if nbInfoIndex ! idx \<noteq> 0
                 then m(idx \<mapsto> vector_resize (case m idx of None \<Rightarrow> [] | Some xs \<Rightarrow> xs) (nbInfoIndex ! idx)) else m) [0..<n] Map.empty,
             map (\<lambda>k. if k \<noteq> 0 then 0 else k) nbInfoIndex)))
    = Inr (\<lambda>s. if csm_of info s \<noteq> [] then Some (csm_of info s) else None)"
proof -
  let ?c = "\<lambda>s. length (csm_of info s)"
  let ?f = "\<lambda>nb idx m. if nb ! idx \<noteq> 0 then m(idx \<mapsto> vector_resize (case m idx of None \<Rightarrow> [] | Some xs \<Rightarrow> xs) (nb ! idx)) else m"
  let ?nb = "map ?c [0..<n]"
  have count: "csm_count n info = Inr ?nb" using csm_count_eq [OF assms] by (simp add: csm_of_def)
  have "fold (?f ?nb) [0..<k] Map.empty = (\<lambda>s. if s < k \<and> ?c s \<noteq> 0 then Some (replicate (?c s) 0) else None)" if "k \<le> n" for k
    using that by (induction k) (auto simp: fun_eq_iff vector_resize_def less_Suc_eq)
  moreover have "?c s = 0" if "\<not> s < n" for s
    using assms that by (auto simp: csm_of_def filter_empty_conv)
  ultimately have base: "fold (?f ?nb) [0..<n] Map.empty = (\<lambda>s. if False \<or> replicate (?c s) (0::nat) \<noteq> [] then Some (replicate (?c s) 0) else None)"
    by (force simp: fun_eq_iff)
  have zero: "map (\<lambda>k. if k \<noteq> 0 then 0 else k) ?nb = replicate n (0::nat)"
    by (rule nth_equalityI) simp_all
  have "csm_fill info (\<lambda>s. if False \<or> replicate (?c s) (0::nat) \<noteq> [] then Some (replicate (?c s) 0) else None, replicate n 0)
    = Inr (\<lambda>s. if False \<or> replicate (?c s) (0::nat) \<noteq> [] then Some (csm_of info s @ drop (?c s) (replicate (?c s) 0)) else None, ?nb)"
    by (rule csm_fill_eq [OF assms]) simp
  then show ?thesis unfolding count obind.simps base zero by (simp add: fun_eq_iff)
qed

section \<open>Who gets what\<close>

text \<open>C3: From the bands to the messages: when each client puts the servers of its range of cells into the
  distributed table and the ranges together are the grid, each client finds for each of its cells the server whose
  band it is in, whatever the number of clients and servers: the list for a server holds exactly the cells of
  the client that the server has, each once.\<close>

theorem cells_to_servers:
  assumes "sd_ok nGlobal nServer position" "hashes [0..<prod_list nGlobal]"
    and "length ranges \<le> nbHashIndexMax" "\<forall>r\<in>set ranges. fst r \<le> snd r"
    and "\<forall>g<prod_list nGlobal. \<exists>r\<in>set ranges. fst r \<le> g \<and> g \<le> snd r"
    and "length tables = length ranges" "length indices = length ranges" "\<forall>is\<in>set indices. hashes is"
    and "\<forall>p<length ranges. distinct (map fst (tables ! p)) \<and> (\<exists>zero sd.
          computeServerGlobalIndexInRange (ranges ! p) position (newServerDistribution nGlobal nServer BAND_DISTRIBUTION) = Inr (zero, sd)
          \<and> map_of (tables ! p) = sd_globalIndex sd)"
  shows "\<exists>ccDHT res. newServerMapping tables = Inr ccDHT
    \<and> computeServerIndexMapping ccDHT nServer indices (replicate (length ranges) Map.empty) = Inr res \<and> length res = length ranges
    \<and> (\<forall>p<length ranges. \<forall>s gs. (res ! p) s = Some gs \<longrightarrow> distinct gs)
    \<and> (\<forall>p<length ranges. \<forall>s g. (\<exists>gs. (res ! p) s = Some gs \<and> g \<in> set gs)
          \<longleftrightarrow> g \<in> set (indices ! p) \<and> g < prod_list nGlobal \<and> in_band nGlobal nServer position g s)"
proof -
  let ?maps = "map (\<lambda>m. fold info_push m []) tables" and ?n = "length ranges"
  have at: "map_of (tables ! p) g = Some s \<longleftrightarrow> fst (ranges ! p) \<le> g \<and> g \<le> snd (ranges ! p) \<and> g < prod_list nGlobal \<and> in_band nGlobal nServer position g s"
    if p: "p < ?n" for p g s
  proof -
    have "fst (ranges ! p) \<le> snd (ranges ! p)" using assms(4) p by simp
    from range_lookup [OF assms(1) this] obtain zero sd where "computeServerGlobalIndexInRange (ranges ! p) position
        (newServerDistribution nGlobal nServer BAND_DISTRIBUTION) = Inr (zero, sd)"
      "\<And>g i. sd_globalIndex sd g = Some i \<longleftrightarrow> fst (ranges ! p) \<le> g \<and> g \<le> snd (ranges ! p) \<and> g < prod_list nGlobal
        \<and> in_band nGlobal nServer position g i" by (auto simp: prod.collapse)
    moreover from this(1) assms(9) p have "map_of (tables ! p) = sd_globalIndex sd" by (metis Pair_inject sum.inject(2))
    ultimately show ?thesis by simp
  qed
  have infos: "infos (?maps ! p) g = (case map_of (tables ! p) g of None \<Rightarrow> [] | Some s \<Rightarrow> [s])" if p: "p < ?n" for p g
  proof -
    have "map snd (filter (\<lambda>(j, x). j = g) xs) = (case map_of xs g of None \<Rightarrow> [] | Some s \<Rightarrow> [s])" if "distinct (map fst xs)" for xs :: "(nat \<times> nat) list"
      using that
    proof (induction xs)
      case (Cons x xs)
      obtain j y where x: "x = (j, y)" by (cases x)
      have "filter (\<lambda>(j, x). j = g) xs = []" if "g = j" using Cons.prems that by (force simp: x filter_empty_conv)
      with Cons show ?case by (simp add: x)
    qed simp
    then show ?thesis using assms(6,9) p by (simp add: infos_push)
  qed
  have key: "fst ` set (?maps ! p) = fst ` set (tables ! p)" if "p < ?n" for p using that assms(6) by (simp add: keys_push)
  have less: "g < prod_list nGlobal" if "p < ?n" "g \<in> fst ` set (tables ! p)" for p g
    using at [OF that(1)] that(2) map_of_eq_None_iff [of "tables ! p" g] by (metis option.exhaust)
  have "hash_ok ?maps"
    unfolding hash_ok_def
  proof (intro ballI)
    fix m i assume "m \<in> set ?maps" "i \<in> fst ` set m"
    then obtain p where p: "p < ?n" "i \<in> fst ` set (?maps ! p)" using assms(6) by (metis in_set_conv_nth length_map)
    then show "hashXIOS i < nbHashIndexMax" using less [OF p(1), of i] key assms(2) by (auto simp: hashes_def list_all_iff)
  qed
  moreover have "\<forall>m\<in>set ?maps. distinct (map fst m)" using info_ok_push [OF info_ok_Nil] by (auto simp: info_ok_def)
  ultimately obtain t found where f: "construct_dht ?maps = Inr t" "computeIndexInfoMapping t indices = Inr found" "length found = ?n"
    "\<And>p. p < ?n \<Longrightarrow> info_ok (found ! p)"
    "\<And>p g. p < ?n \<Longrightarrow> map_of (found ! p) g = (if g \<in> set (indices ! p) \<and> dht_infos ?maps g \<noteq> [] then Some (dht_infos ?maps g) else None)"
    using dht_end_to_end [of ?maps indices] assms(3,6-8) by auto
  have who: "s \<in> set (dht_infos ?maps g) \<longleftrightarrow> g < prod_list nGlobal \<and> in_band nGlobal nServer position g s" for s g
  proof -
    have "s \<in> set (dht_infos ?maps g) \<longleftrightarrow> (\<exists>p<?n. s \<in> set (infos (?maps ! p) g))"
    proof -
      have "s \<in> set (dht_infos maps g) \<longleftrightarrow> (\<exists>p<length maps. s \<in> set (infos (maps ! p) g))" for maps :: "nat info_map list"
        by (simp add: dht_infos_def) (metis in_set_conv_nth)
      from this [of ?maps] show ?thesis using assms(6) by (simp only: length_map)
    qed
    also have "\<dots> \<longleftrightarrow> (\<exists>p<?n. map_of (tables ! p) g = Some s)" by (auto simp: infos simp del: nth_map split: option.splits)
    also have "\<dots> \<longleftrightarrow> (\<exists>p<?n. fst (ranges ! p) \<le> g \<and> g \<le> snd (ranges ! p)) \<and> g < prod_list nGlobal \<and> in_band nGlobal nServer position g s"
      using at by blast
    also have "\<dots> \<longleftrightarrow> g < prod_list nGlobal \<and> in_band nGlobal nServer position g s"
      using assms(5) by (metis in_set_conv_nth)
    finally show ?thesis .
  qed
  have one: "hd (dht_infos ?maps g) = s" if "s \<in> set (dht_infos ?maps g)" for s g
  proof -
    let ?p = "sd_dimension nGlobal position"
    have "0 < nGlobal ! ?p" using sd_dimension_less [OF assms(1)] assms(1) by (simp add: sd_ok_def)
    then have nb: "0 < min (nGlobal ! ?p) nServer" "sd_coord nGlobal ?p g < nGlobal ! ?p" using assms(1) by (auto simp: sd_ok_def sd_coord_def)
    have "hd (dht_infos ?maps g) \<in> set (dht_infos ?maps g)" using that by (intro hd_in_set) auto
    then show ?thesis using band_of [OF nb] that unfolding who in_band_def Let_def by blast
  qed
  let ?res = "\<lambda>p s. if csm_of (found ! p) s \<noteq> [] then Some (csm_of (found ! p) s) else None"
  have entry: "(g, rs) \<in> set (found ! p) \<longleftrightarrow> g \<in> set (indices ! p) \<and> rs = dht_infos ?maps g \<and> rs \<noteq> []" if "p < ?n" for p g rs
  proof -
    have d: "distinct (map fst (found ! p))" using f(4) [OF that] by (simp add: info_ok_def)
    have eq: "(if c then Some x else None) = Some rs \<longleftrightarrow> c \<and> rs = x" for c and x :: "nat list" by auto
    have swap: "(a \<and> y \<noteq> []) \<and> rs = y \<longleftrightarrow> a \<and> rs = y \<and> rs \<noteq> []" for a and y :: "nat list" by auto
    show ?thesis unfolding map_of_eq_Some_iff [OF d, symmetric] f(5) [OF that] eq by (rule swap)
  qed
  have "otraverse ((\<lambda>(m, infoIndexMap).
       let n = max (length indices) nServer
       in obind (csm_count n infoIndexMap) (\<lambda>nbInfoIndex.
          omap fst (csm_fill infoIndexMap
            (fold (\<lambda>idx m. if nbInfoIndex ! idx \<noteq> 0
                 then m(idx \<mapsto> vector_resize (case m idx of None \<Rightarrow> [] | Some xs \<Rightarrow> xs) (nbInfoIndex ! idx)) else m) [0..<n] m,
             map (\<lambda>k. if k \<noteq> 0 then 0 else k) nbInfoIndex))))) (zip (replicate ?n Map.empty) found) = Inr (map ?res [0..<?n])"
  proof (rule otraverse_eq)
    fix p assume "p < length (zip (replicate ?n Map.empty) found)"
    then have p: "p < ?n" by simp
    have "\<forall>(g, rs)\<in>set (found ! p). rs \<noteq> [] \<and> hd rs < max (length indices) nServer"
    proof (intro ballI, clarify)
      fix g rs assume "(g, rs) \<in> set (found ! p)"
      then have rs: "rs \<noteq> []" "rs = dht_infos ?maps g" using entry [OF p] by blast+
      then have "in_band nGlobal nServer position g (hd rs)" using who hd_in_set by metis
      then show "rs \<noteq> [] \<and> hd rs < max (length indices) nServer" using rs(1) by (simp add: in_band_def Let_def less_max_iff_disj)
    qed
    from mapping_of_client [OF this] p f(3) show "(case zip (replicate ?n Map.empty) found ! p of (m, infoIndexMap) \<Rightarrow>
       let n = max (length indices) nServer
       in obind (csm_count n infoIndexMap) (\<lambda>nbInfoIndex.
          omap fst (csm_fill infoIndexMap
            (fold (\<lambda>idx m. if nbInfoIndex ! idx \<noteq> 0
                 then m(idx \<mapsto> vector_resize (case m idx of None \<Rightarrow> [] | Some xs \<Rightarrow> xs) (nbInfoIndex ! idx)) else m) [0..<n] m,
             map (\<lambda>k. if k \<noteq> 0 then 0 else k) nbInfoIndex)))) = Inr (map ?res [0..<?n] ! p)"
      by (simp add: Let_def cong: if_cong)
  qed (simp add: f(3))
  then have c: "computeServerIndexMapping t nServer indices (replicate ?n Map.empty) = Inr (map ?res [0..<?n])"
    by (simp only: computeServerIndexMapping_def f(2) obind.simps comp_def)
  have d: "distinct (csm_of (found ! p) s)" if "p < ?n" for p s
    using f(4) [OF that] by (auto simp: csm_of_def info_ok_def distinct_map intro: inj_on_subset)
  have m: "g \<in> set (csm_of (found ! p) s) \<longleftrightarrow> g \<in> set (indices ! p) \<and> g < prod_list nGlobal \<and> in_band nGlobal nServer position g s" if p: "p < ?n" for p g s
  proof -
    have "g \<in> set (csm_of (found ! p) s) \<longleftrightarrow> (\<exists>rs. (g, rs) \<in> set (found ! p) \<and> hd rs = s)" by (force simp: csm_of_def)
    also have "\<dots> \<longleftrightarrow> g \<in> set (indices ! p) \<and> s \<in> set (dht_infos ?maps g)"
    proof -
      have "I \<noteq> [] \<and> hd I = s \<longleftrightarrow> s \<in> set I" if "s \<in> set I \<Longrightarrow> hd I = s" for I :: "nat list"
        using that hd_in_set [of I] by (cases "I = []") auto
      from this [OF one [of s g]] show ?thesis unfolding entry [OF p] by blast
    qed
    finally show ?thesis unfolding who .
  qed
  show ?thesis
  proof (intro exI conjI)
    show "newServerMapping tables = Inr t" by (simp add: newServerMapping_def f(1))
    show "computeServerIndexMapping t nServer indices (replicate ?n Map.empty) = Inr (map ?res [0..<?n])" by (rule c)
    show "length (map ?res [0..<?n]) = ?n" by simp
    show "\<forall>p<?n. \<forall>s gs. (map ?res [0..<?n] ! p) s = Some gs \<longrightarrow> distinct gs"
    proof (intro allI impI)
      fix p s gs assume p: "p < ?n" and gs: "(map ?res [0..<?n] ! p) s = Some gs"
      have "map ?res [0..<?n] ! p = ?res p" using p by (simp cong: if_cong)
      with gs have "gs = csm_of (found ! p) s" by (simp split: if_splits)
      with d [OF p] show "distinct gs" by simp
    qed
    show "\<forall>p<?n. \<forall>s g. (\<exists>gs. (map ?res [0..<?n] ! p) s = Some gs \<and> g \<in> set gs)
          \<longleftrightarrow> g \<in> set (indices ! p) \<and> g < prod_list nGlobal \<and> in_band nGlobal nServer position g s"
    proof (intro allI impI)
      fix p s g assume p: "p < ?n"
      have "map ?res [0..<?n] ! p = ?res p" using p by (simp cong: if_cong)
      then have "(\<exists>gs. (map ?res [0..<?n] ! p) s = Some gs \<and> g \<in> set gs) \<longleftrightarrow> g \<in> set (csm_of (found ! p) s)" by auto
      then show "(\<exists>gs. (map ?res [0..<?n] ! p) s = Some gs \<and> g \<in> set gs)
          \<longleftrightarrow> g \<in> set (indices ! p) \<and> g < prod_list nGlobal \<and> in_band nGlobal nServer position g s"
        by (rule HOL.trans [OF _ m [OF p]])
    qed
  qed
qed

section \<open>Connected clients\<close>

lemma csm_connected_eq: "csm_connected nbServer ranks = filter (\<lambda>s. s \<in> set ranks) [0..<nbServer]"
proof -
  have inner: "fold (\<lambda>serverNum xs. if r = serverNum then xs[serverNum := True] else xs) [0..<k] xs = (if r < k then xs[r := True] else xs)" for r k xs
    by (induction k) (auto simp: less_Suc_eq)
  have step: "(\<lambda>r. fold (\<lambda>serverNum xs. if r = serverNum then xs[serverNum := True] else xs) [0..<nbServer])
      = (\<lambda>r xs. if r < nbServer then xs[r := True] else xs)" by (intro ext inner)
  have "length (fold (\<lambda>r xs. if r < nbServer then xs[r := True] else xs) ranks xs) = length xs
    \<and> (\<forall>s<length xs. fold (\<lambda>r xs. if r < nbServer then xs[r := True] else xs) ranks xs ! s = (xs ! s \<or> s \<in> set ranks))"
    if "length xs = nbServer" for xs
    using that by (induction ranks arbitrary: xs) (auto simp: nth_list_update)
  from this [of "replicate nbServer False"] show ?thesis
    unfolding csm_connected_def Let_def step by (intro filter_cong) simp_all
qed

lemma count_servers:
  assumes "\<forall>s\<in>set ss. s < n"
  shows "ofold (\<lambda>s clientRes. obind (arr_get clientRes (int s)) (\<lambda>k. arr_set clientRes (int s) (k + 1))) ss (replicate n 0)
    = Inr (map (count_list ss) [0..<n])"
  using assms
proof (induction ss rule: rev_induct)
  case (snoc s ss)
  have "(map (count_list ss) [0..<n])[s := Suc (count_list ss s)] = map (count_list (ss @ [s])) [0..<n]"
    by (rule nth_equalityI) (auto simp: nth_list_update)
  with snoc show ?case by (simp add: ofold_append)
qed (auto intro: nth_equalityI)

lemma count_concat: "count_list (concat xss) x = sum_list (map (\<lambda>xs. count_list xs x) xss)"
  by (induction xss) simp_all

text \<open>C35: From the ranks of the servers that each client is connected to, the clients find out together how
  many clients are connected to each server: each client is told this number for exactly the servers it
  is connected to itself, in their order, whatever the numbers of clients and servers; ranks that are no
  server's are left out.\<close>

theorem connected_clients:
  "\<exists>res. computeConnectedClients nbServer ranks = Inr res \<and> length res = length ranks
    \<and> (\<forall>p<length ranks. in_order (res ! p) \<and> (\<forall>s. map_of (res ! p) s = (if s < nbServer \<and> s \<in> set (ranks ! p)
          then Some (card {q. q < length ranks \<and> s \<in> set (ranks ! q)}) else None)))"
proof -
  let ?ss = "concat (map (csm_connected nbServer) ranks)"
  have "\<forall>s\<in>set ?ss. s < nbServer" by (auto simp: csm_connected_eq)
  note count = count_servers [OF this]
  have num: "count_list ?ss s = card {q. q < length ranks \<and> s \<in> set (ranks ! q)}" if "s < nbServer" for s
  proof -
    have "count_list (csm_connected nbServer r) s = (if s \<in> set r then 1 else 0)" for r
      using that distinct_count_list [of "csm_connected nbServer r" s] by (simp add: csm_connected_eq)
    then have "count_list ?ss s = sum_list (map (\<lambda>r. if s \<in> set r then 1 else 0) ranks)" by (simp add: count_concat comp_def)
    also have "\<dots> = length (filter (\<lambda>r. s \<in> set r) ranks)" by (induction ranks) simp_all
    finally show ?thesis by (simp only: length_filter_conv_card)
  qed
  let ?row = "\<lambda>ss. fold (\<lambda>s. std_put s (map (count_list ?ss) [0..<nbServer] ! s)) ss []"
  have row: "in_order (?row ss) \<and> map_of (?row ss) s = (if s \<in> set ss then Some (map (count_list ?ss) [0..<nbServer] ! s) else None)" for ss s
    by (induction ss rule: rev_induct) (auto simp: map_of_std_put)
  have "computeConnectedClients nbServer ranks = Inr (map ?row (map (csm_connected nbServer) ranks))"
    by (simp only: computeConnectedClients_def Let_def count omap_simps)
  moreover have "map_of (?row (csm_connected nbServer r)) s = (if s < nbServer \<and> s \<in> set r
      then Some (card {q. q < length ranks \<and> s \<in> set (ranks ! q)}) else None)" for r s
    using row [of "csm_connected nbServer r" s] num [of s] by (simp add: csm_connected_eq)
  ultimately show ?thesis using row by (intro exI [where x = "map ?row (map (csm_connected nbServer) ranks)"]) simp
qed

theorem connected_clients_witness:
  "\<exists>res. computeConnectedClients 2 [[1, 0], [1, 5]] = Inr res \<and> map_of (res ! 0) 1 = Some 2 \<and> map_of (res ! 0) 0 = Some 1
    \<and> map_of (res ! 1) 0 = None \<and> map_of (res ! 1) 5 = None"
proof -
  let ?ranks = "[[1, 0], [1, 5 :: nat]]"
  obtain res where r: "computeConnectedClients 2 ?ranks = Inr res"
    "\<forall>p<length ?ranks. in_order (res ! p) \<and> (\<forall>s. map_of (res ! p) s = (if s < 2 \<and> s \<in> set (?ranks ! p)
          then Some (card {q. q < length ?ranks \<and> s \<in> set (?ranks ! q)}) else None))"
    using connected_clients [of 2 ?ranks] by blast
  have "{q. q < length ?ranks \<and> 1 \<in> set (?ranks ! q)} = {0, 1}" "{q. q < length ?ranks \<and> 0 \<in> set (?ranks ! q)} = {0}"
    by (auto simp: less_Suc_eq)
  moreover have "map_of (res ! 0) s = (if s < 2 \<and> s \<in> set (?ranks ! 0) then Some (card {q. q < length ?ranks \<and> s \<in> set (?ranks ! q)}) else None)"
    "map_of (res ! 1) s = (if s < 2 \<and> s \<in> set (?ranks ! 1) then Some (card {q. q < length ?ranks \<and> s \<in> set (?ranks ! q)}) else None)" for s
    using r(2) by simp_all
  ultimately show ?thesis using r(1) by (intro exI [where x = res]) simp
qed

text \<open>The numbers that the processes give their indices are all numbers up to the total, each once, in the order of the
  ranks, and every process knows the total.\<close>

theorem numbering_complete:
  "concat (map ai_globalIndex (newDHTAutoIndexing hashValues)) = [0..<length (concat hashValues)]
    \<and> map (length \<circ> ai_globalIndex) (newDHTAutoIndexing hashValues) = map length hashValues
    \<and> list_all (\<lambda>ai. ai_nbIndexesGlobal ai = length (concat hashValues) \<and> ai_nbIndexOnProc ai = length (ai_globalIndex ai))
         (newDHTAutoIndexing hashValues)"
proof -
  let ?a = "\<lambda>p. sum_list (map length (take (Suc p) hashValues))" and ?n = "length hashValues"
  let ?ai = "newDHTAutoIndexing hashValues"
  have len: "length ?ai = ?n" by (simp add: newDHTAutoIndexing_def Let_def)
  have split: "?a p = sum_list (map length (take p hashValues)) + length (hashValues ! p)" if "p < ?n" for p
    using that by (simp add: take_Suc_conv_app_nth)
  have total: "last (map ?a [0..<?n]) = length (concat hashValues)" if "0 < ?n"
    using that by (simp add: last_map length_concat)
  have at: "ai_globalIndex (?ai ! p) = map (\<lambda>idx. sum_list (map length (take p hashValues)) + idx) [0..<length (hashValues ! p)]"
    "ai_nbIndexesGlobal (?ai ! p) = length (concat hashValues)" "ai_nbIndexOnProc (?ai ! p) = length (hashValues ! p)" if "p < ?n" for p
    using that split [OF that] total [OF order.strict_trans1 [OF zero_le that]] by (simp_all add: newDHTAutoIndexing_def Let_def del: upt_Suc)
  have "concat (map ai_globalIndex (take k ?ai)) = [0..<sum_list (map length (take k hashValues))]" if "k \<le> ?n" for k
    using that
  proof (induction k)
    case (Suc k)
    then have k: "k < ?n" by simp
    let ?s = "sum_list (map length (take k hashValues))"
    have row: "map (\<lambda>idx. ?s + idx) [0..<length (hashValues ! k)] = [?s..<?s + length (hashValues ! k)]" by (simp add: map_add_upt add.commute)
    have tk: "take (Suc k) ?ai = take k ?ai @ [?ai ! k]" "take (Suc k) hashValues = take k hashValues @ [hashValues ! k]"
      using k len by (simp_all add: take_Suc_conv_app_nth)
    have IH: "concat (map ai_globalIndex (take k ?ai)) = [0..<?s]" using Suc by simp
    have "concat (map ai_globalIndex (take (Suc k) ?ai)) = [0..<?s] @ [?s..<?s + length (hashValues ! k)]"
      unfolding tk(1) by (simp only: map_append concat_append list.map concat.simps append_Nil2 IH at(1) [OF k] row)
    also have "\<dots> = [0..<?s + length (hashValues ! k)]" by (metis upt_add_eq_append zero_le)
    also have "?s + length (hashValues ! k) = sum_list (map length (take (Suc k) hashValues))" unfolding tk(2) by simp
    finally show ?case .
  qed simp
  from this [of ?n] len have "concat (map ai_globalIndex ?ai) = [0..<length (concat hashValues)]" by (simp add: length_concat)
  moreover have "map (length \<circ> ai_globalIndex) ?ai = map length hashValues"
    by (rule nth_equalityI) (simp_all add: len at)
  ultimately show ?thesis using at len by (simp add: list_all_length)
qed

section \<open>Two clients and two servers\<close>

lemma demo_table:
  "\<exists>zero sd. computeServerGlobalIndexInRange (2 * k, 2 * k + 1) 1 (newServerDistribution [2, 2] 2 BAND_DISTRIBUTION) = Inr (zero, sd)
    \<and> map_of [(2 * k, k), (2 * k + 1, k)] = sd_globalIndex sd" if "k < 2"
proof -
  have "sd_ok [2, 2] 2 1" "2 * k \<le> 2 * k + 1" by (simp_all add: sd_ok_def)
  from range_lookup [OF this] obtain zero sd where
    r: "computeServerGlobalIndexInRange (2 * k, 2 * k + 1) 1 (newServerDistribution [2, 2] 2 BAND_DISTRIBUTION) = Inr (zero, sd)"
    "\<And>g i. sd_globalIndex sd g = Some i \<longleftrightarrow> 2 * k \<le> g \<and> g \<le> 2 * k + 1 \<and> g < prod_list [2, 2] \<and> in_band [2, 2] 2 1 g i" by blast
  have b: "in_band [2, 2] 2 1 g i \<longleftrightarrow> i < 2 \<and> i = g div 2 mod 2" for g i
    by (auto simp: in_band_def sd_dimension_def sd_coord_def band_begin_def Let_def)
  have "map_of [(2 * k, k), (2 * k + 1, k)] g = Some i \<longleftrightarrow> sd_globalIndex sd g = Some i" for g i
  proof -
    consider "g = 2 * k" | "g = 2 * k + 1" | "\<not> (2 * k \<le> g \<and> g \<le> 2 * k + 1)" by linarith
    then show ?thesis
    proof cases
      case 3
      then have "g \<noteq> 2 * k" "g \<noteq> 2 * k + 1" by auto
      then have "map_of [(2 * k, k), (2 * k + 1, k)] g = None" by simp
      with 3 show ?thesis unfolding r(2) by auto
    qed (use that in \<open>auto simp: r(2) b\<close>)
  qed
  then have "map_of [(2 * k, k), (2 * k + 1, k)] = sd_globalIndex sd"
    by (intro ext) (metis (no_types) not_Some_eq)
  with r(1) show ?thesis by blast
qed

lemma hashes_upto: "hashes [0..<4]"
proof -
  have "[0..<4] = [0, Suc 0, 2, 3::nat]" by (simp add: upt_rec)
  with small_hashes hash_values(1) show ?thesis by (simp add: hashes_def)
qed

lemma cells_to_servers_witness:
  "\<exists>ccDHT res. newServerMapping [[(0, 0), (1, 0)], [(2, 1), (3, 1)]] = Inr ccDHT
    \<and> computeServerIndexMapping ccDHT 2 [[3], [0, 3]] [Map.empty, Map.empty] = Inr res
    \<and> (\<exists>gs. (res ! 1) 0 = Some gs \<and> 0 \<in> set gs) \<and> \<not> (\<exists>gs. (res ! 0) 1 = Some gs \<and> 0 \<in> set gs)"
proof -
  let ?ranges = "[(0, 1), (2, 3)] :: (nat \<times> nat) list" and ?tables = "[[(0, 0), (1, 0)], [(2, 1), (3, 1)]] :: (nat \<times> nat) list list"
  have t: "\<forall>p<length ?ranges. distinct (map fst (?tables ! p)) \<and> (\<exists>zero sd.
          computeServerGlobalIndexInRange (?ranges ! p) 1 (newServerDistribution [2, 2] 2 BAND_DISTRIBUTION) = Inr (zero, sd)
          \<and> map_of (?tables ! p) = sd_globalIndex sd)"
    using demo_table [of 0] demo_table [of 1] by (simp add: less_Suc_eq all_conj_distrib)
  have ok: "sd_ok [2, 2] 2 1" "hashes [0..<prod_list [2, 2]]" "hashes [3]" "hashes [0, 3]"
    using hashes_upto by (simp_all add: sd_ok_def hashes_def list_all_iff)
  have "\<exists>ccDHT res. newServerMapping ?tables = Inr ccDHT
    \<and> computeServerIndexMapping ccDHT 2 [[3], [0, 3]] (replicate (length ?ranges) Map.empty) = Inr res \<and> length res = length ?ranges
    \<and> (\<forall>p<length ?ranges. \<forall>s gs. (res ! p) s = Some gs \<longrightarrow> distinct gs)
    \<and> (\<forall>p<length ?ranges. \<forall>s g. (\<exists>gs. (res ! p) s = Some gs \<and> g \<in> set gs)
          \<longleftrightarrow> g \<in> set ([[3], [0, 3]] ! p) \<and> g < prod_list [2, 2] \<and> in_band [2, 2] 2 1 g s)"
    by (rule cells_to_servers [OF ok(1,2) _ _ _ _ _ _ t]) (use ok(3,4) in \<open>auto simp: nbHashIndexMax_def\<close>)
  then obtain ccDHT res where r: "newServerMapping ?tables = Inr ccDHT"
    "computeServerIndexMapping ccDHT 2 [[3], [0, 3]] [Map.empty, Map.empty] = Inr res"
    "\<And>p s g. p < 2 \<Longrightarrow> (\<exists>gs. (res ! p) s = Some gs \<and> g \<in> set gs)
          \<longleftrightarrow> g \<in> set ([[3], [0, 3]] ! p) \<and> g < prod_list [2, 2] \<and> in_band [2, 2] 2 1 g s" by (auto simp: numeral_2_eq_2)
  have "in_band [2, 2] 2 1 0 0" by (simp add: in_band_def sd_dimension_def sd_coord_def band_begin_def Let_def)
  with r(1,2) r(3) [of 1 0 0] r(3) [of 0 1 0] show ?thesis by auto
qed

end
