(* ===== verification/P2pRing.thy ===== *)
theory P2pRing
  imports Prelude "HOL-Library.Word"
begin

text \<open>
  The ring buffers of the point to point transport: \<open>CP2pClientBuffer::CBuffer\<close>, which a client
  writes its events into and sends them from, and \<open>CP2pServerBuffer::CBuffer\<close>, in which the server
  lays out the blocks of the client at the places the client has them (\<open>p2p_client_buffer.hpp\<close>,
  \<open>p2p_server_buffer.hpp\<close>).  \<open>start\<close> is the last byte that was freed, \<open>end\<close> the next byte to write.
\<close>

type_synonym byte = "8 word"

text \<open>A \<open>size_t\<close> is a number below \<open>2 ^ 64\<close>; its subtraction wraps.\<close>

definition sub_t :: "nat \<Rightarrow> nat \<Rightarrow> nat" where
  "sub_t a b = (a + (2 ^ 64 - b)) mod 2 ^ 64"

text \<open>\<open>memcpy\<close> into an allocated block.\<close>

definition mem_copy :: "nat \<Rightarrow> byte list \<Rightarrow> byte list \<Rightarrow> byte list outcome" where
  "mem_copy i xs mem = (if i + length xs \<le> length mem then Inr (take i mem @ xs @ drop (i + length xs) mem)
     else Inl (UndefinedBehaviour ''write out of range''))"

section \<open>The buffer of the client\<close>

record cbuffer =
  cb_mem :: "byte list"
  cb_start :: nat
  cb_end :: nat
  cb_count :: nat
  cb_size :: nat
  cb_fixed :: bool

text \<open>The memory is somewhat larger than the size; what it holds at first does not matter.\<close>

definition new_cbuffer :: "nat \<Rightarrow> bool \<Rightarrow> cbuffer" where
  "new_cbuffer sz fixed = \<lparr>cb_mem = replicate ((sz div 8 + 1) * 8 + 8) 0, cb_start = sz, cb_end = 0, cb_count = 0,
     cb_size = sz, cb_fixed = fixed\<rparr>"

text \<open>\<open>write\<close> takes what fits of the bytes that are left and returns where it put how many, and the
  rest of the bytes.\<close>

definition cb_store :: "nat \<Rightarrow> nat \<Rightarrow> byte list \<Rightarrow> cbuffer \<Rightarrow> (nat \<times> nat \<times> byte list \<times> cbuffer) outcome" where
  "cb_store count new_end xs b =
     obind (mem_copy (cb_end b) (take count xs) (cb_mem b)) (\<lambda>mem.
     if count \<noteq> 0 \<and> cb_end b + count - 1 > cb_size b - 1
     then Inl (CException ''out of bounds'')
     else Inr (cb_end b, count, drop count xs, b\<lparr>cb_mem := mem, cb_end := new_end, cb_count := cb_count b + count\<rparr>))"

definition cb_write :: "byte list \<Rightarrow> cbuffer \<Rightarrow> (nat \<times> nat \<times> byte list \<times> cbuffer) outcome" where
  "cb_write xs b =
     (let sz = length xs
      in if cb_end b < cb_start b
         then (if sz \<le> cb_start b - cb_end b then cb_store sz (cb_end b + sz) xs b
               else cb_store (cb_start b - cb_end b) (cb_start b) xs b)
         else if cb_start b < cb_end b
         then (if sz \<le> cb_size b - cb_end b then cb_store sz (cb_end b + sz) xs b
               else cb_store (cb_size b - cb_end b) 0 xs b)
         else Inr (0, 0, xs, b))"

definition cb_free :: "nat \<Rightarrow> nat \<Rightarrow> cbuffer \<Rightarrow> cbuffer" where
  "cb_free start count b = b\<lparr>cb_start := sub_t (start + count) 1, cb_count := sub_t (cb_count b) count\<rparr>"

definition cb_remain :: "cbuffer \<Rightarrow> nat" where
  "cb_remain b = sub_t (cb_size b) (cb_count b)"

section \<open>The buffer of the server\<close>

record sbuffer =
  sb_mem :: "byte list"
  sb_start :: nat
  sb_end :: nat
  sb_count :: nat
  sb_size :: nat

definition new_sbuffer :: "nat \<Rightarrow> sbuffer" where
  "new_sbuffer sz = \<lparr>sb_mem = replicate sz 0, sb_start = sz, sb_end = 0, sb_count = 0, sb_size = sz\<rparr>"

text \<open>\<open>reserve\<close> returns the size that is left to reserve and, when it reserved any, the place and the
  count.\<close>

definition sb_reserve :: "nat \<Rightarrow> sbuffer \<Rightarrow> (nat \<times> (nat \<times> nat) \<times> sbuffer) outcome" where
  "sb_reserve sz b =
     (if sb_end b < sb_start b
      then (if sz \<le> sb_start b - sb_end b
            then Inr (0, (sb_end b, sz), b\<lparr>sb_end := sb_end b + sz, sb_count := sb_count b + sz\<rparr>)
            else Inl (CException ''This should be the case of the 2nd part of a splitted message''))
      else if sb_start b < sb_end b
      then (if sz \<le> sb_size b - sb_end b
            then Inr (0, (sb_end b, sz), b\<lparr>sb_end := sb_end b + sz, sb_count := sb_count b + sz\<rparr>)
            else Inr (sz, (0, 0), b\<lparr>sb_end := 0\<rparr>))
      else Inr (sz, (0, 0), b))"

definition sb_free :: "nat \<Rightarrow> nat \<Rightarrow> sbuffer \<Rightarrow> sbuffer" where
  "sb_free start count b = b\<lparr>sb_start := sub_t (start + count) 1, sb_count := sub_t (sb_count b) count\<rparr>"

definition sb_remain :: "sbuffer \<Rightarrow> nat" where
  "sb_remain b = (if sb_count b = 0 then sb_size b
     else if sb_end b < sb_start b then sb_start b - sb_end b else sb_size b - sb_end b)"

section \<open>Rings\<close>

text \<open>
  A ring of \<open>sz\<close> bytes of which \<open>T\<close> bytes have been freed and \<open>H\<close> written since it was made.  Once
  something was freed, one byte stays unused; the end may stand behind the last byte.
\<close>

definition ring :: "nat \<Rightarrow> nat \<Rightarrow> nat \<Rightarrow> nat \<Rightarrow> nat \<Rightarrow> nat \<Rightarrow> bool" where
  "ring sz st e c T H \<longleftrightarrow> 0 < sz \<and> sz < 2 ^ 63 \<and> T \<le> H \<and> c = H - T
     \<and> (if T = 0 then st = sz \<and> H \<le> sz \<and> e = H else st = (T - 1) mod sz \<and> H < T + sz)
     \<and> (e = H mod sz \<or> e = sz \<and> H mod sz = 0 \<and> 0 < H)"

lemma sub_t: "b \<le> a \<Longrightarrow> a < 2 ^ 64 \<Longrightarrow> sub_t a b = a - b"
proof -
  assume ab: "b \<le> a" "a < 2 ^ 64"
  then have "a + (2 ^ 64 - b) = (a - b) + 2 ^ 64" by simp
  moreover have "a - b < 2 ^ 64" using ab by simp
  ultimately show ?thesis unfolding sub_t_def by (simp only: mod_add_self2 mod_less)
qed

text \<open>Where the end is when something has been freed: ahead of the start in the same round, or behind
  it in the next one.\<close>

lemma ring_lap:
  assumes "ring sz st e c T H" "0 < T"
  shows "(st < H mod sz \<and> H - T = H mod sz - st - 1) \<or> (H mod sz \<le> st \<and> H - T + st + 1 = sz + H mod sz)"
proof -
  have r: "0 < sz" "T \<le> H" "st = (T - 1) mod sz" "H < T + sz" using assms by (simp_all add: ring_def)
  let ?d = "H - T + 1"
  have "H = T - 1 + ?d" using r(2) assms(2) by simp
  then have "H mod sz = (st + ?d) mod sz" by (metis r(3) mod_add_left_eq)
  moreover have "st < sz" "?d \<le> sz" using r by simp_all
  ultimately show ?thesis by (cases "st + ?d < sz") (auto simp: mod_if)
qed

lemma ring_end_le: "ring sz st e c T H \<Longrightarrow> e \<le> sz \<and> st \<le> sz \<and> (0 < T \<longrightarrow> st < sz)"
  by (auto simp: ring_def less_imp_le split: if_splits)

lemma ring_new: "0 < sz \<Longrightarrow> sz < 2 ^ 63 \<Longrightarrow> ring sz sz 0 0 0 0"
  by (simp add: ring_def)

text \<open>Advancing the end by what is contiguous.\<close>

lemma mod_add_within: "0 < sz \<Longrightarrow> H mod sz + k \<le> sz \<Longrightarrow> (H + k) mod sz = (if H mod sz + k = sz then 0 else H mod sz + (k :: nat))"
  by (metis add.commute le_neq_implies_less mod_add_left_eq mod_less mod_self)

lemma ring_advance:
  assumes "ring sz st e c T H" "e < sz" "e + k \<le> sz" "0 < T \<longrightarrow> H + k < T + sz"
  shows "ring sz st (e + k) (c + k) T (H + k)"
proof -
  have r: "0 < sz" "sz < 2 ^ 63" "T \<le> H" "c = H - T" "if T = 0 then st = sz \<and> H \<le> sz \<and> e = H else st = (T - 1) mod sz \<and> H < T + sz"
    "e = H mod sz" using assms(1,2) by (auto simp: ring_def)
  have "(H + k) mod sz = (if e + k = sz then 0 else e + k)" using mod_add_within [OF r(1), of H k] assms(3) r(6) by simp
  with r assms(2-) show ?thesis by (auto simp: ring_def split: if_splits)
qed

lemma ring_wrap:
  assumes "ring sz st sz c T H" "0 < T"
  shows "ring sz st 0 c T H"
proof -
  have "H mod sz \<noteq> sz" using assms(1) mod_less_divisor [of sz H] unfolding ring_def by linarith
  then have "H mod sz = 0" using assms by (auto simp: ring_def)
  then show ?thesis using assms by (auto simp: ring_def)
qed

text \<open>Freeing the oldest bytes.\<close>

lemma ring_free:
  assumes "ring sz st e c T H" "0 < k" "k \<le> c" "T mod sz + k \<le> sz"
  shows "ring sz (sub_t (T mod sz + k) 1) e (sub_t c k) (T + k) H"
proof -
  have r: "0 < sz" "sz < 2 ^ 63" "T \<le> H" "c = H - T" using assms(1) by (simp_all add: ring_def)
  have "c \<le> sz" using assms(1) by (auto simp: ring_def split: if_splits)
  then have s: "sub_t (T mod sz + k) 1 = T mod sz + (k - 1)" "sub_t c k = c - k"
    using sub_t [of 1 "T mod sz + k"] sub_t [of k c] assms(2-4) r(2) by simp_all
  have "(T + (k - 1)) mod sz = T mod sz + (k - 1)" using mod_add_within [OF r(1), of T "k - 1"] assms(2,4) by simp
  moreover have "T + k - 1 = T + (k - 1)" using assms(2) by simp
  ultimately show ?thesis using assms r s by (auto simp: ring_def split: if_splits)
qed

lemma mod_apart:
  assumes "p < q" "q < p + (sz :: nat)"
  shows "p mod sz \<noteq> q mod sz"
proof
  assume "p mod sz = q mod sz"
  then have "sz dvd q - p" using assms(1) by (metis less_imp_le mod_eq_dvd_iff_nat)
  with assms show False by (auto dest: dvd_imp_le)
qed

end
