(* ===== verification/P2pClient.thy ===== *)
theory P2pClient
  imports P2pRing
begin

text \<open>
  The client side of the point to point transport (\<open>p2p_client_buffer.cpp\<close>): an event is cut into
  blocks that lie in a list of ring buffers, of which only the last is written, and a control
  message tells the server where the blocks lie.  A buffer is named by the number of its creation
  (\<open>currentMirror_\<close>) and an address by its buffer and its place in it.
\<close>

type_synonym maddr = "int \<times> nat"

record sbloc =
  bl_addr :: maddr
  bl_buffer :: int
  bl_start :: nat
  bl_count :: nat
  bl_window :: int

text \<open>The control messages: a new size of the buffers, or an event with its blocks, each given by
  address, count, window and start.\<close>

type_synonym bloc_msg = "maddr \<times> nat \<times> int \<times> nat"

datatype p2p_msg = Resize nat nat | Timeline nat nat "bloc_msg list"

record p2p_client =
  pc_buffers :: "(int \<times> cbuffer) list"
  pc_blocs :: "sbloc list"
  pc_currentMirror :: int
  pc_currentBuffer :: int
  pc_sentBlocRequest :: "maddr list"
  pc_fixed :: bool
  pc_fixedSize :: nat
  pc_currentBufferSize :: nat
  pc_growingFactor :: rat
  pc_isFinalized :: bool

definition MAX_WINDOWS :: nat where "MAX_WINDOWS = 6"

definition maxSentBlocRequests :: nat where "maxSentBlocRequests = 10000"

definition new_p2p_client :: p2p_client where
  "new_p2p_client = \<lparr>pc_buffers = [], pc_blocs = [], pc_currentMirror = -1, pc_currentBuffer = -1, pc_sentBlocRequest = [],
     pc_fixed = False, pc_fixedSize = 0, pc_currentBufferSize = 0, pc_growingFactor = 6 / 5, pc_isFinalized = False\<rparr>"

definition setFixed :: "nat \<Rightarrow> p2p_client \<Rightarrow> p2p_client" where
  "setFixed sz c = c\<lparr>pc_fixed := True, pc_fixedSize := sz\<rparr>"

definition setGrowable :: "rat \<Rightarrow> p2p_client \<Rightarrow> p2p_client" where
  "setGrowable factor c = c\<lparr>pc_fixed := False, pc_growingFactor := factor\<rparr>"

section \<open>Writing\<close>

text \<open>The buffer takes the entry of its number in \<open>windows_\<close>, an array of \<open>MAX_WINDOWS\<close> unused pointers.\<close>

definition pc_newBuffer :: "nat \<Rightarrow> p2p_client \<Rightarrow> p2p_client outcome" where
  "pc_newBuffer sz c =
     (let i = pc_currentMirror c + 1
      in omap (\<lambda>_. c\<lparr>pc_currentMirror := i, pc_buffers := pc_buffers c @ [(i, new_cbuffer sz (pc_fixed c))], pc_currentBuffer := i\<rparr>)
           (arr_get (replicate MAX_WINDOWS ()) i))"

definition pc_isBufferFree :: "nat \<Rightarrow> p2p_client \<Rightarrow> bool" where
  "pc_isBufferFree sz c =
     (if length (pc_sentBlocRequest c) > maxSentBlocRequests then False
      else if length (pc_buffers c) > MAX_WINDOWS - 1 then False
      else if pc_buffers c = [] then True
      else if \<not> pc_fixed c then True
      else (let b = snd (last (pc_buffers c))
            in if sz \<le> cb_remain b then True
               else if cb_fixed b then cb_size b < sz
               else True))"

text \<open>One of the two calls of \<open>write\<close> in a turn of the loop.\<close>

definition write_part :: "byte list \<Rightarrow> nat \<Rightarrow> p2p_client \<Rightarrow> (byte list \<times> nat \<times> p2p_client) outcome" where
  "write_part xs nbBlocs c =
     (let (i, b) = last (pc_buffers c)
      in omap (\<lambda>(start, count, xs, b). let c = c\<lparr>pc_buffers := butlast (pc_buffers c) @ [(i, b)]\<rparr>
           in if 0 < count
              then (xs, nbBlocs + 1, c\<lparr>pc_blocs := pc_blocs c @ [\<lparr>bl_addr = (i, start), bl_buffer = pc_currentBuffer c,
                     bl_start = start, bl_count = count, bl_window = pc_currentMirror c\<rparr>]\<rparr>)
              else (xs, nbBlocs, c)) (cb_write xs b))"

definition first_buffer :: "nat \<Rightarrow> p2p_client \<Rightarrow> p2p_client outcome" where
  "first_buffer sz c =
     (if pc_buffers c \<noteq> [] then Inr c
      else if pc_fixed c then pc_newBuffer (pc_fixedSize c) (c\<lparr>pc_currentBufferSize := pc_fixedSize c\<rparr>)
      else (let c = (if pc_currentBufferSize c = 0 then c\<lparr>pc_currentBufferSize := sz\<rparr> else c)
            in pc_newBuffer (pc_currentBufferSize c) c))"

definition next_buffer :: "nat \<Rightarrow> p2p_client \<Rightarrow> p2p_client outcome" where
  "next_buffer sz c =
     (let c = c\<lparr>pc_currentBufferSize := (if pc_fixed c then pc_fixedSize c
                  else max (nat \<lfloor>of_nat (pc_currentBufferSize c) * pc_growingFactor c\<rfloor>) sz)\<rparr>
      in pc_newBuffer (pc_currentBufferSize c) c)"

partial_function (option) write_loop :: "byte list \<Rightarrow> nat \<Rightarrow> p2p_client \<Rightarrow> (nat \<times> p2p_client) outcome option" where [code]:
  "write_loop xs nbBlocs c =
     (if xs = [] then Some (Inr (nbBlocs, c))
      else case obind (first_buffer (length xs) c) (\<lambda>c.
                obind (write_part xs nbBlocs c) (\<lambda>(xs, nbBlocs, c).
                obind (write_part xs nbBlocs c) (\<lambda>(xs, nbBlocs, c).
                if xs = [] then Inr (xs, nbBlocs, c)
                else omap (\<lambda>c. (xs, nbBlocs, c)) (next_buffer (length xs) c)))) of
             Inl e \<Rightarrow> Some (Inl e)
           | Inr (xs, nbBlocs, c) \<Rightarrow> write_loop xs nbBlocs c)"

definition writeBuffer :: "byte list \<Rightarrow> p2p_client \<Rightarrow> (nat \<times> p2p_client) outcome" where
  "writeBuffer xs c = (if pc_isBufferFree (length xs) c then returned ''writeBuffer'' (write_loop xs 0 c) else Inr (0, c))"

definition bloc_msg_of :: "sbloc \<Rightarrow> bloc_msg" where
  "bloc_msg_of bl = (bl_addr bl, bl_count bl, bl_window bl, bl_start bl)"

text \<open>The control message with the last blocks, and the blocks that are sent, in this order.\<close>

definition sendTimelineEvent :: "nat \<Rightarrow> nat \<Rightarrow> nat \<Rightarrow> p2p_client \<Rightarrow> p2p_msg \<times> sbloc list \<times> p2p_client" where
  "sendTimelineEvent timeline nbSenders nbBlocs c =
     (let bls = drop (length (pc_blocs c) - nbBlocs) (pc_blocs c)
      in (Timeline timeline nbSenders (map bloc_msg_of bls), bls,
          c\<lparr>pc_sentBlocRequest := pc_sentBlocRequest c @ map bl_addr bls\<rparr>))"

text \<open>Whether the event was written, the control messages and the blocks sent.\<close>

definition writeEvent :: "nat \<Rightarrow> nat \<Rightarrow> byte list \<Rightarrow> p2p_client \<Rightarrow> (bool \<times> p2p_msg list \<times> sbloc list \<times> p2p_client) outcome" where
  "writeEvent timeline nbSenders bytes c =
     (if pc_isBufferFree (length bytes) c
      then omap (\<lambda>(nbBlocs, c').
             let resize = (if pc_currentBufferSize c' \<noteq> pc_currentBufferSize c then [Resize timeline (pc_currentBufferSize c')] else []);
                 (msg, bls, c') = sendTimelineEvent timeline nbSenders nbBlocs c'
             in (True, resize @ [msg], bls, c')) (writeBuffer bytes c)
      else Inr (False, [], [], c))"

section \<open>Freeing\<close>

fun cb_at :: "int \<Rightarrow> (int \<times> cbuffer) list \<Rightarrow> cbuffer option" where
  "cb_at i [] = None"
| "cb_at i ((j, b) # bs) = (if i = j then Some b else cb_at i bs)"

text \<open>The destructor of a buffer refuses one that is not empty.\<close>

definition delete_front :: "(int \<times> cbuffer) list \<Rightarrow> (int \<times> cbuffer) list outcome" where
  "delete_front bs = (case bs of [] \<Rightarrow> Inl (UndefinedBehaviour ''front of an empty list'')
     | (i, b) # bs \<Rightarrow> if 0 < cb_count b then Inl (CException ''Try to delete buffer that is not empty'') else Inr bs)"

definition freeBloc :: "sbloc \<Rightarrow> (int \<times> cbuffer) list \<Rightarrow> (int \<times> cbuffer) list outcome" where
  "freeBloc bl bs = (case cb_at (bl_buffer bl) bs of
     None \<Rightarrow> Inl (UndefinedBehaviour ''deleted buffer'')
   | Some b \<Rightarrow>
       let b = cb_free (bl_start bl) (bl_count bl) b;
           bs = map (\<lambda>(j, b'). (j, if j = bl_buffer bl then b else b')) bs
       in if cb_count b = 0 \<and> 1 < length bs then delete_front bs else Inr bs)"

text \<open>\<open>while(freeBloc(addr))\<close>: the blocks are freed from the first one on to the one at the address.\<close>

fun free_until :: "maddr \<Rightarrow> sbloc list \<Rightarrow> (int \<times> cbuffer) list \<Rightarrow> (sbloc list \<times> (int \<times> cbuffer) list) outcome" where
  "free_until addr [] bs = Inl (UndefinedBehaviour ''front of an empty list'')"
| "free_until addr (bl # bls) bs =
     obind (freeBloc bl bs) (\<lambda>bs. if addr \<noteq> bl_addr bl then free_until addr bls bs else Inr (bls, bs))"

definition pc_freeBuffer :: "maddr option \<Rightarrow> p2p_client \<Rightarrow> p2p_client outcome" where
  "pc_freeBuffer addr c =
     obind (case addr of None \<Rightarrow> Inr c
            | Some a \<Rightarrow> omap (\<lambda>(bls, bs). c\<lparr>pc_blocs := bls, pc_buffers := bs\<rparr>) (free_until a (pc_blocs c) (pc_buffers c))) (\<lambda>c.
     if pc_isFinalized c \<and> pc_buffers c \<noteq> [] \<and> cb_count (snd (hd (pc_buffers c))) = 0
     then omap (\<lambda>bs. c\<lparr>pc_buffers := bs\<rparr>) (delete_front (pc_buffers c)) else Inr c)"

text \<open>One turn of the event loop in which the first \<open>k\<close> of the sent blocks are found complete, and
  the message of the end has come or not.\<close>

definition pc_eventLoop :: "nat \<Rightarrow> bool \<Rightarrow> p2p_client \<Rightarrow> p2p_client outcome" where
  "pc_eventLoop k finalized c =
     (let sent = pc_sentBlocRequest c;
          addr = (if take k sent = [] then None else Some (last (take k sent)))
      in obind (pc_freeBuffer addr (c\<lparr>pc_sentBlocRequest := drop k sent\<rparr>)) (\<lambda>c.
         Inr (c\<lparr>pc_isFinalized := pc_isFinalized c \<or> finalized\<rparr>)))"

end
