(* ===== verification/P2pServer.thy ===== *)
theory P2pServer
  imports P2pClient StdMap
begin

text \<open>
  The server side of the point to point transport (\<open>p2p_server_buffer.cpp\<close>): for one client, the
  ring buffers that mirror those of the client, and the way of an event from the control message
  over the reception of its blocks to the bytes that are handed on.  A buffer is named by the number
  of its creation, as in the messages of the client.  The \<open>double\<close> factor of the sizes is one.

  The transfers are MPI calls: what the requests of a server bring when all of them are found
  complete is an argument of the operations.
\<close>

record server_bloc =
  sl_buffer :: int
  sl_start :: nat
  sl_count :: nat
  sl_addr :: maddr

record p2p_server =
  ps_clientRank :: int
  ps_currentBufferSize :: nat
  ps_buffers :: "sbuffer list"
  ps_deleted :: int
  ps_nbSenders :: "(nat, nat) std_map"
  ps_pendingBlocs :: "(nat, bloc_msg list) std_map"
  ps_pendingRma :: "(int \<times> nat \<times> nat) list"
  ps_onTransfer :: "(nat, server_bloc list) std_map"
  ps_completed :: "(nat, server_bloc list) std_map"
  ps_bufferResize :: "(nat \<times> nat) list"

text \<open>The events of which some clients have announced, or transferred, their part, shared by the
  buffers of all clients: how many senders there are, how many of them have come, and which.\<close>

record pending_event =
  pe_nbSenders :: int
  pe_currentNbSenders :: int
  pe_buffers :: "int list"

record full_events =
  fe_pending :: "(nat, pending_event) std_map"
  fe_completed :: "(nat, pending_event) std_map"

definition new_p2p_server :: "int \<Rightarrow> p2p_server" where
  "new_p2p_server rank = \<lparr>ps_clientRank = rank, ps_currentBufferSize = 0, ps_buffers = [], ps_deleted = 0, ps_nbSenders = [],
     ps_pendingBlocs = [], ps_pendingRma = [], ps_onTransfer = [], ps_completed = [], ps_bufferResize = []\<rparr>"

section \<open>The buffers\<close>

text \<open>\<open>window - countDeletedBuffers_\<close> as an index of \<open>buffers_\<close>; a negative difference is a large
  number once it is compared with a size.\<close>

definition buffer_at :: "int \<Rightarrow> p2p_server \<Rightarrow> sbuffer option" where
  "buffer_at w s = (if 0 \<le> w - ps_deleted s \<and> w - ps_deleted s < int (length (ps_buffers s))
     then Some (ps_buffers s ! nat (w - ps_deleted s)) else None)"

definition set_buffer :: "int \<Rightarrow> sbuffer \<Rightarrow> p2p_server \<Rightarrow> p2p_server" where
  "set_buffer w b s = s\<lparr>ps_buffers := (ps_buffers s)[nat (w - ps_deleted s) := b]\<rparr>"

definition ps_newBuffer :: "nat \<Rightarrow> p2p_server \<Rightarrow> p2p_server" where
  "ps_newBuffer sz s = s\<lparr>ps_buffers := ps_buffers s @ [new_sbuffer sz]\<rparr>"

definition remainSize :: "int \<Rightarrow> p2p_server \<Rightarrow> nat" where
  "remainSize w s = (case buffer_at w s of None \<Rightarrow> 0 | Some b \<Rightarrow> sb_remain b)"

text \<open>The destructor of a buffer refuses one that is not empty.\<close>

definition erase_front :: "p2p_server \<Rightarrow> p2p_server outcome" where
  "erase_front s = (case ps_buffers s of [] \<Rightarrow> Inl (UndefinedBehaviour ''front of an empty vector'')
     | b # bs \<Rightarrow> if 0 < sb_count b then Inl (CException ''Try to delete buffer that is not empty'')
                 else Inr (s\<lparr>ps_buffers := bs, ps_deleted := ps_deleted s + 1\<rparr>))"

section \<open>Control messages\<close>

fun receivedRequest :: "p2p_msg \<Rightarrow> p2p_server \<Rightarrow> full_events \<Rightarrow> p2p_server \<times> full_events" where
  "receivedRequest (Resize timeline sz) s fe = (s\<lparr>ps_bufferResize := ps_bufferResize s @ [(timeline, sz)]\<rparr>, fe)"
| "receivedRequest (Timeline timeline nb blocs) s fe =
    (let e = (case map_of (fe_pending fe) timeline of
                None \<Rightarrow> \<lparr>pe_nbSenders = int nb, pe_currentNbSenders = 1, pe_buffers = [ps_clientRank s]\<rparr>
              | Some e \<Rightarrow> e\<lparr>pe_currentNbSenders := pe_currentNbSenders e + 1, pe_buffers := pe_buffers e @ [ps_clientRank s]\<rparr>)
     in (s\<lparr>ps_nbSenders := std_put timeline nb (ps_nbSenders s),
           ps_pendingBlocs := std_put timeline (std_at [] (ps_pendingBlocs s) timeline @ blocs) (ps_pendingBlocs s)\<rparr>,
         fe\<lparr>fe_pending := std_put timeline e (fe_pending fe)\<rparr>))"

section \<open>Transferring an event\<close>

text \<open>Whether the buffers have room for all the blocks: with the window of the last block that has
  room and the bytes that the blocks before take in it.\<close>

fun space_for :: "p2p_server \<Rightarrow> int \<Rightarrow> nat \<Rightarrow> bloc_msg list \<Rightarrow> bool" where
  "space_for s lastUsed eventSize [] = True"
| "space_for s lastUsed eventSize ((addr, k, w, start) # blocs) =
    (let eventSize = (if lastUsed \<noteq> w then 0 else eventSize)
     in if buffer_at w s = None
        then (if ps_bufferResize s = [] then False else space_for s lastUsed eventSize blocs)
        else if k > sub_t (remainSize w s) eventSize then False
        else space_for s w (eventSize + k) blocs)"

definition transferRmaRequest :: "nat \<Rightarrow> maddr \<Rightarrow> int \<Rightarrow> nat \<Rightarrow> nat \<Rightarrow> p2p_server \<Rightarrow> p2p_server" where
  "transferRmaRequest timeline addr w start k s =
     s\<lparr>ps_pendingRma := ps_pendingRma s @ [(w, start, k)],
       ps_onTransfer := std_put timeline (std_at [] (ps_onTransfer s) timeline
          @ [\<lparr>sl_buffer = w, sl_start = start, sl_count = k, sl_addr = addr\<rparr>]) (ps_onTransfer s)\<rparr>"

text \<open>A window without buffer gets one when the first resize request is that of the event.\<close>

definition mirror_buffer :: "nat \<Rightarrow> int \<Rightarrow> p2p_server \<Rightarrow> p2p_server" where
  "mirror_buffer timeline w s =
     (if buffer_at w s = None
      then (case ps_bufferResize s of
              [] \<Rightarrow> s
            | (t, sz) # rs \<Rightarrow> if t = timeline
                then ps_newBuffer sz (s\<lparr>ps_currentBufferSize := sz, ps_bufferResize := rs\<rparr>) else s)
      else s)"

text \<open>The loop over the parts of one block.\<close>

partial_function (option) reserve_loop :: "nat \<Rightarrow> maddr \<Rightarrow> int \<Rightarrow> nat \<Rightarrow> p2p_server \<Rightarrow> p2p_server outcome option" where [code]:
  "reserve_loop timeline addr w sz s =
     (let s = mirror_buffer timeline w s
      in case buffer_at w s of
           None \<Rightarrow> Some (Inl (UndefinedBehaviour ''read out of range''))
         | Some b \<Rightarrow>
             (case sb_reserve sz b of
                Inl e \<Rightarrow> Some (Inl e)
              | Inr (sz, (start, k), b) \<Rightarrow>
                  (let s = set_buffer w b s;
                       s = (if 0 < k then transferRmaRequest timeline addr w start k s else s)
                   in if 0 < sz then reserve_loop timeline addr w sz s else Some (Inr s))))"

definition transfer_bloc :: "nat \<Rightarrow> bloc_msg \<Rightarrow> p2p_server \<Rightarrow> p2p_server outcome" where
  "transfer_bloc timeline = (\<lambda>(addr, k, w, start) s. returned ''transferEvent'' (reserve_loop timeline addr w k s))"

definition transferEvent :: "nat \<Rightarrow> bloc_msg list \<Rightarrow> p2p_server \<Rightarrow> p2p_server outcome" where
  "transferEvent timeline blocs s = ofold (transfer_bloc timeline) blocs s"

definition transferEvents :: "p2p_server \<Rightarrow> p2p_server outcome" where
  "transferEvents s =
     (if ps_pendingRma s = []
      then (case ps_pendingBlocs s of
              [] \<Rightarrow> Inr s
            | (timeline, blocs) # rest \<Rightarrow>
                if blocs \<noteq> [] \<and> space_for s (-1) 0 blocs
                then omap (\<lambda>s. s\<lparr>ps_pendingBlocs := tl (ps_pendingBlocs s)\<rparr>) (transferEvent timeline blocs s)
                else Inr s)
      else Inr s)"

section \<open>Completion\<close>

text \<open>The requests have put what they brought into the buffers.\<close>

definition rma_arrive :: "(int \<times> nat \<times> nat) \<times> byte list \<Rightarrow> p2p_server \<Rightarrow> p2p_server outcome" where
  "rma_arrive = (\<lambda>((w, start, k), xs) s. case buffer_at w s of
     None \<Rightarrow> Inl (UndefinedBehaviour ''deleted buffer'')
   | Some b \<Rightarrow> if k < length xs then Inl (CException ''message truncated'')
               else omap (\<lambda>mem. set_buffer w (b\<lparr>sb_mem := mem\<rparr>) s) (mem_copy start xs (sb_mem b)))"

text \<open>\<open>std::map::insert\<close> keeps what is there.\<close>

definition std_insert :: "'k::linorder \<Rightarrow> 'v \<Rightarrow> ('k, 'v) std_map \<Rightarrow> ('k, 'v) std_map" where
  "std_insert k v m = (if map_of m k = None then std_put k v m else m)"

definition std_erase :: "'k \<Rightarrow> ('k, 'v) std_map \<Rightarrow> ('k, 'v) std_map" where
  "std_erase k m = filter (\<lambda>e. fst e \<noteq> k) m"

definition event_transferred :: "nat \<Rightarrow> p2p_server \<times> full_events \<Rightarrow> (p2p_server \<times> full_events) outcome" where
  "event_transferred timeline = (\<lambda>(s, fe). case map_of (fe_pending fe) timeline of
     None \<Rightarrow> Inl (UndefinedBehaviour ''iterator at the end'')
   | Some e \<Rightarrow>
       let e = e\<lparr>pe_nbSenders := pe_nbSenders e - 1, pe_currentNbSenders := pe_currentNbSenders e - 1\<rparr>;
           f = (case map_of (fe_completed fe) timeline of
                  None \<Rightarrow> \<lparr>pe_nbSenders = int (std_at 0 (ps_nbSenders s) timeline), pe_currentNbSenders = 1, pe_buffers = [ps_clientRank s]\<rparr>
                | Some f \<Rightarrow> f\<lparr>pe_currentNbSenders := pe_currentNbSenders f + 1, pe_buffers := pe_buffers f @ [ps_clientRank s]\<rparr>)
       in Inr (s\<lparr>ps_nbSenders := std_erase timeline (ps_nbSenders s)\<rparr>,
               \<lparr>fe_pending = std_put timeline e (fe_pending fe), fe_completed = std_put timeline f (fe_completed fe)\<rparr>))"

definition testPendingRequests :: "byte list list option \<Rightarrow> p2p_server \<times> full_events \<Rightarrow> (p2p_server \<times> full_events) outcome" where
  "testPendingRequests arrived = (\<lambda>(s, fe). case arrived of
     None \<Rightarrow> Inr (s, fe)
   | Some xss \<Rightarrow>
       obind (ofold rma_arrive (zip (ps_pendingRma s) xss) s) (\<lambda>s.
       let events = ps_onTransfer s;
           s = s\<lparr>ps_pendingRma := [], ps_completed := fold (\<lambda>(t, bls). std_insert t bls) events (ps_completed s)\<rparr>
       in omap (\<lambda>(s, fe). (s\<lparr>ps_onTransfer := []\<rparr>, fe)) (ofold event_transferred (map fst events) (s, fe))))"

definition ps_eventLoop :: "byte list list option \<Rightarrow> p2p_server \<times> full_events \<Rightarrow> (p2p_server \<times> full_events) outcome" where
  "ps_eventLoop arrived = (\<lambda>(s, fe).
     obind (if ps_pendingRma s \<noteq> [] then testPendingRequests arrived (s, fe) else Inr (s, fe)) (\<lambda>(s, fe).
     obind (if ps_pendingRma s = [] then transferEvents s else Inr s) (\<lambda>s.
     omap (\<lambda>s. (s, fe))
       (if 1 < length (ps_buffers s) \<and> sb_count (hd (ps_buffers s)) = 0 then erase_front s else Inr s))))"

section \<open>Handing on\<close>

text \<open>One block is copied behind the bytes so far and freed; a buffer that gets empty makes way.\<close>

definition take_bloc :: "server_bloc \<Rightarrow> byte list \<times> p2p_server \<Rightarrow> (byte list \<times> p2p_server) outcome" where
  "take_bloc bl = (\<lambda>(bytes, s). case buffer_at (sl_buffer bl) s of
     None \<Rightarrow> Inl (UndefinedBehaviour ''deleted buffer'')
   | Some b \<Rightarrow>
       if length (sb_mem b) < sl_start bl + sl_count bl then Inl (UndefinedBehaviour ''read out of range'')
       else (let bytes = bytes @ take (sl_count bl) (drop (sl_start bl) (sb_mem b));
                 b = sb_free (sl_start bl) (sl_count bl) b;
                 s = set_buffer (sl_buffer bl) b s
             in omap (\<lambda>s. (bytes, s)) (if sb_count b = 0 \<and> 1 < length (ps_buffers s) then erase_front s else Inr s)))"

text \<open>The bytes of the event go to \<open>CEventServer::push\<close>; the event loop is entered once more.\<close>

definition fillEventServer :: "nat \<Rightarrow> byte list list option \<Rightarrow> p2p_server \<times> full_events
    \<Rightarrow> (byte list \<times> p2p_server \<times> full_events) outcome" where
  "fillEventServer timeline arrived = (\<lambda>(s, fe).
     obind (ofold take_bloc (std_at [] (ps_completed s) timeline) ([], s)) (\<lambda>(bytes, s).
     omap (\<lambda>s. (bytes, s)) (ps_eventLoop arrived (s\<lparr>ps_completed := std_erase timeline (ps_completed s)\<rparr>, fe))))"

end
