(* ===== verification/P2pRingProps.thy ===== *)
theory P2pRingProps
  imports P2pRing
begin

text \<open>
  Both ring buffers against the bytes they hold: \<open>S\<close> is all that was ever written into a buffer, and
  the last bytes of it, from position \<open>T\<close> on, are in the buffer.
\<close>

section \<open>The memory\<close>

definition holds :: "byte list \<Rightarrow> nat \<Rightarrow> nat \<Rightarrow> byte list \<Rightarrow> bool" where
  "holds mem sz T S \<longleftrightarrow> sz \<le> length mem \<and> (\<forall>p. T \<le> p \<and> p < length S \<longrightarrow> mem ! (p mod sz) = S ! p)"

lemma mem_copy_nth:
  assumes "i + length xs \<le> length mem"
  shows "\<exists>mem'. mem_copy i xs mem = Inr mem' \<and> length mem' = length mem
    \<and> (\<forall>j<length mem. mem' ! j = (if i \<le> j \<and> j < i + length xs then xs ! (j - i) else mem ! j))"
  using assms by (auto simp: mem_copy_def nth_append)

text \<open>Bytes put behind those that are held leave these alone.\<close>

lemma holds_append:
  assumes h: "holds mem sz T S" and sz: "0 < sz" and fit: "length S mod sz + length xs \<le> sz" "length S + length xs \<le> T + sz"
  shows "\<exists>mem'. mem_copy (length S mod sz) xs mem = Inr mem' \<and> length mem' = length mem \<and> holds mem' sz T (S @ xs)"
proof -
  let ?e = "length S mod sz"
  have l: "sz \<le> length mem" "\<And>p. T \<le> p \<Longrightarrow> p < length S \<Longrightarrow> mem ! (p mod sz) = S ! p" using h by (auto simp: holds_def)
  obtain mem' where m: "mem_copy ?e xs mem = Inr mem'" "length mem' = length mem"
    "\<And>j. j < length mem \<Longrightarrow> mem' ! j = (if ?e \<le> j \<and> j < ?e + length xs then xs ! (j - ?e) else mem ! j)"
    using mem_copy_nth [of ?e xs mem] fit(1) l(1) by auto
  have "mem' ! (p mod sz) = (S @ xs) ! p" if p: "T \<le> p" "p < length S + length xs" for p
  proof -
    have b: "p mod sz < length mem" using l(1) sz by (meson less_le_trans mod_less_divisor)
    show ?thesis
    proof (cases "p < length S")
      case True
      have "\<not> (?e \<le> p mod sz \<and> p mod sz < ?e + length xs)"
      proof
        assume a: "?e \<le> p mod sz \<and> p mod sz < ?e + length xs"
        let ?q = "length S + (p mod sz - ?e)"
        have "?q mod sz = p mod sz" using mod_add_within [OF sz, of "length S" "p mod sz - ?e"] a mod_less_divisor [OF sz, of p] by auto
        moreover have "p < ?q" "?q < p + sz" using a True p fit by linarith+
        ultimately show False using mod_apart [of p ?q sz] by simp
      qed
      then show ?thesis using m(3) [OF b] l(2) [OF p(1) True] True by (auto simp: nth_append)
    next
      case False
      then obtain d where d: "p = length S + d" "d < length xs" using p by (metis le_iff_add linorder_not_less nat_add_left_cancel_less)
      then have "p mod sz = ?e + d" using mod_add_within [OF sz, of "length S" d] fit(1) by simp
      then show ?thesis using m(3) [OF b] d by (simp add: nth_append)
    qed
  qed
  with m(1,2) l(1) show ?thesis by (auto simp: holds_def)
qed

lemma holds_later: "holds mem sz T S \<Longrightarrow> T \<le> T' \<Longrightarrow> holds mem sz T' S"
  by (auto simp: holds_def)

text \<open>What is read from a block that does not cross the end of the ring.\<close>

lemma holds_read:
  assumes "holds mem sz T S" "0 < sz" "T \<le> p" "p + k \<le> length S" "p mod sz + k \<le> sz"
  shows "take k (drop (p mod sz) mem) = take k (drop p S)"
proof (rule nth_equalityI)
  have l: "sz \<le> length mem" using assms(1) by (simp add: holds_def)
  show "length (take k (drop (p mod sz) mem)) = length (take k (drop p S))" using l assms by simp
  fix i assume "i < length (take k (drop (p mod sz) mem))"
  then have i: "i < k" by simp
  then have "(p + i) mod sz = p mod sz + i" using mod_add_within [OF assms(2), of p i] assms(5) by simp
  then have "mem ! (p mod sz + i) = S ! (p + i)" using assms i unfolding holds_def by (metis add_less_cancel_left less_le_trans trans_le_add1)
  then show "take k (drop (p mod sz) mem) ! i = take k (drop p S) ! i" using i l assms by simp
qed

section \<open>The buffer of the client\<close>

definition cb_ok :: "cbuffer \<Rightarrow> nat \<Rightarrow> byte list \<Rightarrow> bool" where
  "cb_ok b T S \<longleftrightarrow> ring (cb_size b) (cb_start b) (cb_end b) (cb_count b) T (length S) \<and> holds (cb_mem b) (cb_size b) T S"

lemma cb_store_ok:
  assumes b: "cb_ok b T S" and e: "cb_end b < cb_size b" and k: "k \<le> length xs" "cb_end b + k \<le> cb_size b"
    and fit: "0 < T \<longrightarrow> length S + k < T + cb_size b"
    and ne: "ne = cb_end b + k \<or> (ne = 0 \<and> cb_end b + k = cb_size b \<and> 0 < T)"
  shows "\<exists>b'. cb_store k ne xs b = Inr (cb_end b, k, drop k xs, b') \<and> cb_ok b' T (S @ take k xs) \<and> cb_size b' = cb_size b
    \<and> cb_start b' = cb_start b \<and> cb_end b' = ne \<and> cb_end b = length S mod cb_size b"
proof -
  let ?sz = "cb_size b" and ?xs = "take k xs"
  have r: "ring ?sz (cb_start b) (cb_end b) (cb_count b) T (length S)" "holds (cb_mem b) ?sz T S" using b by (simp_all add: cb_ok_def)
  then have em: "cb_end b = length S mod ?sz" "0 < ?sz" using e by (auto simp: ring_def)
  have "length S + k \<le> T + ?sz"
  proof (cases "T = 0")
    case True
    then have "cb_end b = length S" using r(1) by (simp add: ring_def)
    with k(2) True show ?thesis by simp
  qed (use fit in simp)
  then obtain mem where m: "mem_copy (cb_end b) ?xs (cb_mem b) = Inr mem" "holds mem ?sz T (S @ ?xs)"
    using holds_append [OF r(2) em(2), of ?xs] k em(1) by auto
  have "\<not> (k \<noteq> 0 \<and> cb_end b + k - 1 > ?sz - 1)" using k(2) by auto
  moreover have "ring ?sz (cb_start b) ne (cb_count b + k) T (length (S @ ?xs))"
  proof -
    have adv: "ring ?sz (cb_start b) (cb_end b + k) (cb_count b + k) T (length S + k)"
      using ring_advance [OF r(1) e k(2) fit] .
    moreover have "length (S @ ?xs) = length S + k" using k(1) by simp
    ultimately show ?thesis using ne by (metis ring_wrap)
  qed
  ultimately show ?thesis using m em by (auto simp: cb_store_def cb_ok_def)
qed

text \<open>\<open>write\<close> puts what is contiguous behind the bytes that are held.  When it leaves some bytes, the
  end has come round, or has met the start.\<close>

lemma cb_write_ok:
  assumes b: "cb_ok b T S"
  shows "\<exists>st k b'. cb_write xs b = Inr (st, k, drop k xs, b') \<and> cb_ok b' T (S @ take k xs) \<and> cb_size b' = cb_size b
    \<and> cb_start b' = cb_start b \<and> k \<le> length xs \<and> (0 < k \<longrightarrow> st = length S mod cb_size b \<and> st + k \<le> cb_size b)
    \<and> (k < length xs \<longrightarrow> cb_end b' = cb_start b' \<or> cb_end b' = 0)"
proof -
  let ?sz = "cb_size b" and ?s = "cb_start b" and ?e = "cb_end b"
  have r: "ring ?sz ?s ?e (cb_count b) T (length S)" using b by (simp add: cb_ok_def)
  note le = ring_end_le [OF r]
  consider "?e < ?s" | "?s < ?e" "?e < ?sz" | "?s < ?e" "?e = ?sz" | "?e = ?s" using le by linarith
  then show ?thesis
  proof cases
    case 1
    define k where "k = min (length xs) (?s - ?e)"
    have e: "?e < ?sz" using 1 le by linarith
    then have em: "?e = length S mod ?sz" using r by (auto simp: ring_def)
    have "0 < T \<longrightarrow> length S + k < T + ?sz"
    proof
      assume T: "0 < T"
      then have "T \<le> length S" using r by (simp add: ring_def)
      then show "length S + k < T + ?sz" using ring_lap [OF r T] 1 em unfolding k_def by linarith
    qed
    moreover have k: "k \<le> length xs" "?e + k \<le> ?sz" using 1 le unfolding k_def by linarith+
    ultimately obtain b' where b': "cb_store k (?e + k) xs b = Inr (?e, k, drop k xs, b')" "cb_ok b' T (S @ take k xs)" "cb_size b' = ?sz"
      "cb_start b' = ?s" "cb_end b' = ?e + k" using cb_store_ok [OF b e k] by blast
    have "cb_write xs b = cb_store k (?e + k) xs b" using 1 by (auto simp: cb_write_def Let_def k_def min_def)
    moreover have "k < length xs \<Longrightarrow> ?e + k = ?s" using 1 unfolding k_def by linarith
    ultimately show ?thesis using b' em k by (intro exI [where x = "?e"] exI [where x = k] exI [where x = b']) simp
  next
    case 2
    define k where "k = min (length xs) (?sz - ?e)"
    define ne where "ne = (if length xs \<le> ?sz - ?e then ?e + k else 0)"
    have T: "0 < T" using r 2 by (auto simp: ring_def split: if_splits)
    have em: "?e = length S mod ?sz" using r 2 by (auto simp: ring_def)
    have "length S + k < T + ?sz" using ring_lap [OF r T] 2 em unfolding k_def ring_def
      using r by (auto simp: ring_def)
    moreover have k: "k \<le> length xs" "?e + k \<le> ?sz" using 2 unfolding k_def by linarith+
    moreover have "ne = ?e + k \<or> (ne = 0 \<and> ?e + k = ?sz \<and> 0 < T)" using T 2 by (auto simp: k_def ne_def min_def)
    ultimately obtain b' where b': "cb_store k ne xs b = Inr (?e, k, drop k xs, b')" "cb_ok b' T (S @ take k xs)" "cb_size b' = ?sz"
      "cb_start b' = ?s" "cb_end b' = ne" using cb_store_ok [OF b 2(2) k] by blast
    have "cb_write xs b = cb_store k ne xs b" using 2 by (auto simp: cb_write_def Let_def k_def ne_def min_def)
    moreover have "k < length xs \<Longrightarrow> ne = 0" by (auto simp: k_def ne_def)
    ultimately show ?thesis using b' em k by (intro exI [where x = "?e"] exI [where x = k] exI [where x = b']) simp
  next
    case 3
    have T: "0 < T" using r 3 by (auto simp: ring_def split: if_splits)
    define ne where "ne = (if xs = [] then ?e else 0)"
    have "holds (cb_mem b) ?sz T S" using b by (simp add: cb_ok_def)
    then have "?sz \<le> length (cb_mem b)" by (simp add: holds_def)
    then have w: "cb_write xs b = Inr (?e, 0, xs, b\<lparr>cb_end := ne\<rparr>)"
      using 3 by (auto simp: cb_write_def Let_def cb_store_def mem_copy_def ne_def)
    have "ring ?sz ?s ne (cb_count b) T (length S)" using ring_wrap [OF _ T] r 3 by (simp add: ne_def)
    then have "cb_ok (b\<lparr>cb_end := ne\<rparr>) T S" using b by (simp add: cb_ok_def)
    with w show ?thesis by (intro exI [where x = "?e"] exI [where x = 0] exI [where x = "b\<lparr>cb_end := ne\<rparr>"]) (auto simp: ne_def)
  next
    case 4
    then have "cb_write xs b = Inr (0, 0, xs, b)" by (simp add: cb_write_def)
    with b 4 show ?thesis by (intro exI [where x = 0] exI [where x = b]) auto
  qed
qed

lemma cb_free_ok:
  assumes "cb_ok b T S" "0 < k" "T + k \<le> length S" "T mod cb_size b + k \<le> cb_size b"
  shows "cb_ok (cb_free (T mod cb_size b) k b) (T + k) S"
proof -
  have r: "ring (cb_size b) (cb_start b) (cb_end b) (cb_count b) T (length S)" "holds (cb_mem b) (cb_size b) T S"
    using assms(1) by (simp_all add: cb_ok_def)
  then have "k \<le> cb_count b" using assms(3) by (simp add: ring_def)
  from ring_free [OF r(1) assms(2) this assms(4)] holds_later [OF r(2), of "T + k"]
  show ?thesis by (simp add: cb_ok_def cb_free_def)
qed

lemma new_cbuffer_ok: "0 < sz \<Longrightarrow> sz < 2 ^ 63 \<Longrightarrow> cb_ok (new_cbuffer sz fixed) 0 []"
proof -
  have "sz \<le> (sz div 8 + 1) * 8 + 8" by presburger
  then show "0 < sz \<Longrightarrow> sz < 2 ^ 63 \<Longrightarrow> ?thesis" by (simp add: cb_ok_def new_cbuffer_def ring_new holds_def)
qed

end
