(* ===== verification/P2pClientProps.thy ===== *)
theory P2pClientProps
  imports P2pClient P2pRingProps
begin

text \<open>
  The blocks of a client: in each ring buffer they lie one behind the other from the oldest byte
  that is held to the newest, the buffers in the order of their creation.
\<close>

section \<open>The invariant\<close>

fun chain :: "nat \<Rightarrow> nat \<Rightarrow> sbloc list \<Rightarrow> nat \<Rightarrow> bool" where
  "chain sz p [] q \<longleftrightarrow> p = q"
| "chain sz p (bl # bls) q \<longleftrightarrow> bl_start bl = p mod sz \<and> 0 < bl_count bl \<and> p mod sz + bl_count bl \<le> sz
     \<and> chain sz (p + bl_count bl) bls q"

definition in_buffer :: "int \<Rightarrow> sbloc list \<Rightarrow> sbloc list" where
  "in_buffer i bls = filter (\<lambda>bl. bl_buffer bl = i) bls"

definition client_inv :: "p2p_client \<Rightarrow> (int \<Rightarrow> nat) \<Rightarrow> (int \<Rightarrow> byte list) \<Rightarrow> bool" where
  "client_inv c T S \<longleftrightarrow> -1 \<le> pc_currentMirror c
   \<and> sorted_wrt (<) (map fst (pc_buffers c))
   \<and> (pc_buffers c \<noteq> [] \<longrightarrow> fst (last (pc_buffers c)) = pc_currentMirror c \<and> pc_currentBuffer c = pc_currentMirror c)
   \<and> (\<forall>(i, b)\<in>set (pc_buffers c). i \<le> pc_currentMirror c \<and> cb_ok b (T i) (S i)
        \<and> chain (cb_size b) (T i) (in_buffer i (pc_blocs c)) (length (S i)))
   \<and> sorted (map bl_buffer (pc_blocs c))
   \<and> (\<forall>bl\<in>set (pc_blocs c). bl_buffer bl \<in> fst ` set (pc_buffers c) \<and> bl_addr bl = (bl_buffer bl, bl_start bl)
        \<and> bl_window bl = bl_buffer bl)"

text \<open>The bytes of a block.\<close>

definition bloc_bytes :: "(int \<times> cbuffer) list \<Rightarrow> sbloc \<Rightarrow> byte list" where
  "bloc_bytes bs bl = (case cb_at (bl_buffer bl) bs of None \<Rightarrow> [] | Some b \<Rightarrow> take (bl_count bl) (drop (bl_start bl) (cb_mem b)))"

lemma in_buffer_simps [simp]: "in_buffer i [] = []"
  "in_buffer i (bl # bls) = (if bl_buffer bl = i then bl # in_buffer i bls else in_buffer i bls)"
  "in_buffer i (bls @ bls') = in_buffer i bls @ in_buffer i bls'"
  by (simp_all add: in_buffer_def)

lemma chain_append: "chain sz p (bls @ bls') q \<longleftrightarrow> (\<exists>m. chain sz p bls m \<and> chain sz m bls' q)"
  by (induction bls arbitrary: p) auto

lemma chain_le: "chain sz p bls q \<Longrightarrow> p \<le> q"
  by (induction bls arbitrary: p) force+

lemma chain_in: "chain sz p bls q \<Longrightarrow> bl \<in> set bls \<Longrightarrow>
    \<exists>m\<ge>p. m + bl_count bl \<le> q \<and> bl_start bl = m mod sz \<and> m mod sz + bl_count bl \<le> sz \<and> 0 < bl_count bl"
proof (induction bls arbitrary: p)
  case (Cons x bls)
  show ?case
  proof (cases "bl = x")
    case True
    with Cons.prems(1) chain_le show ?thesis by (intro exI [where x = p]) auto
  next
    case False
    with Cons.prems obtain m where "m \<ge> p + bl_count x" "m + bl_count bl \<le> q" "bl_start bl = m mod sz"
      "m mod sz + bl_count bl \<le> sz" "0 < bl_count bl" using Cons.IH [of "p + bl_count x"] by auto
    then show ?thesis by (intro exI [where x = m]) simp
  qed
qed simp

lemma cb_at_in: "distinct (map fst bs) \<Longrightarrow> (i, b) \<in> set bs \<Longrightarrow> cb_at i bs = Some b"
  by (induction bs) force+

lemma cb_at_SomeD: "cb_at i bs = Some b \<Longrightarrow> (i, b) \<in> set bs"
  by (induction bs) (auto split: if_splits)

lemma cb_at_map: "cb_at i (map (\<lambda>(j, b'). (j, if j = k then b else b')) bs)
    = (if i = k then map_option (\<lambda>_. b) (cb_at i bs) else cb_at i bs)"
  by (induction bs) auto

lemma cb_at_append: "cb_at i (bs @ bs') = (case cb_at i bs of None \<Rightarrow> cb_at i bs' | Some b \<Rightarrow> Some b)"
  by (induction bs) auto

lemma sorted_less_distinct: "sorted_wrt (<) (xs :: int list) \<Longrightarrow> distinct xs"
  by (induction xs) auto

lemma client_invD:
  assumes "client_inv c T S"
  shows "distinct (map fst (pc_buffers c))"
    and "(i, b) \<in> set (pc_buffers c) \<Longrightarrow> cb_at i (pc_buffers c) = Some b \<and> cb_ok b (T i) (S i)
      \<and> chain (cb_size b) (T i) (in_buffer i (pc_blocs c)) (length (S i)) \<and> i \<le> pc_currentMirror c"
proof -
  show d: "distinct (map fst (pc_buffers c))" using assms sorted_less_distinct by (auto simp: client_inv_def)
  show "cb_at i (pc_buffers c) = Some b \<and> cb_ok b (T i) (S i)
      \<and> chain (cb_size b) (T i) (in_buffer i (pc_blocs c)) (length (S i)) \<and> i \<le> pc_currentMirror c" if "(i, b) \<in> set (pc_buffers c)"
    using cb_at_in [OF d that] assms that by (auto simp: client_inv_def)
qed

text \<open>A block shows the bytes that were written at its place.\<close>

lemma bloc_place:
  assumes inv: "client_inv c T S" and bl: "bl \<in> set (pc_blocs c)"
  shows "\<exists>b m. (bl_buffer bl, b) \<in> set (pc_buffers c) \<and> T (bl_buffer bl) \<le> m \<and> m + bl_count bl \<le> length (S (bl_buffer bl))
    \<and> bl_start bl = m mod cb_size b \<and> m mod cb_size b + bl_count bl \<le> cb_size b \<and> 0 < bl_count bl
    \<and> bloc_bytes (pc_buffers c) bl = take (bl_count bl) (drop m (S (bl_buffer bl)))"
proof -
  from inv bl have "bl_buffer bl \<in> fst ` set (pc_buffers c)" by (simp add: client_inv_def)
  then obtain b where b: "(bl_buffer bl, b) \<in> set (pc_buffers c)" by force
  note d = client_invD(2) [OF inv b]
  have "bl \<in> set (in_buffer (bl_buffer bl) (pc_blocs c))" using bl by (simp add: in_buffer_def)
  then obtain m where m: "m \<ge> T (bl_buffer bl)" "m + bl_count bl \<le> length (S (bl_buffer bl))" "bl_start bl = m mod cb_size b"
    "m mod cb_size b + bl_count bl \<le> cb_size b" "0 < bl_count bl" using chain_in d by blast
  have "holds (cb_mem b) (cb_size b) (T (bl_buffer bl)) (S (bl_buffer bl))" "0 < cb_size b" using d by (auto simp: cb_ok_def ring_def)
  from holds_read [OF this m(1,2,4)] have "bloc_bytes (pc_buffers c) bl = take (bl_count bl) (drop m (S (bl_buffer bl)))"
    using d m(3) by (simp add: bloc_bytes_def)
  with b m show ?thesis by blast
qed

lemma bloc_place_at:
  assumes inv: "client_inv c T S" and bl: "bl \<in> set (pc_blocs c)" and b: "(bl_buffer bl, b) \<in> set (pc_buffers c)"
  shows "\<exists>m. T (bl_buffer bl) \<le> m \<and> m + bl_count bl \<le> length (S (bl_buffer bl)) \<and> bl_start bl = m mod cb_size b
    \<and> m mod cb_size b + bl_count bl \<le> cb_size b \<and> bloc_bytes (pc_buffers c) bl = take (bl_count bl) (drop m (S (bl_buffer bl)))"
proof -
  from bloc_place [OF inv bl] obtain b' m where m: "(bl_buffer bl, b') \<in> set (pc_buffers c)" "T (bl_buffer bl) \<le> m"
    "m + bl_count bl \<le> length (S (bl_buffer bl))" "bl_start bl = m mod cb_size b'" "m mod cb_size b' + bl_count bl \<le> cb_size b'"
    "bloc_bytes (pc_buffers c) bl = take (bl_count bl) (drop m (S (bl_buffer bl)))" by blast
  have "b' = b" using client_invD(2) [OF inv m(1)] client_invD(2) [OF inv b] by simp
  with m show ?thesis by blast
qed

section \<open>Writing\<close>

text \<open>What a step of the writing adds: some blocks with the next bytes, and nothing else changes.\<close>

definition adds :: "p2p_client \<Rightarrow> sbloc list \<Rightarrow> byte list \<Rightarrow> p2p_client \<Rightarrow> bool" where
  "adds c new xs c' \<longleftrightarrow> pc_blocs c' = pc_blocs c @ new \<and> concat (map (bloc_bytes (pc_buffers c')) new) = xs
     \<and> (\<forall>bl\<in>set (pc_blocs c). bloc_bytes (pc_buffers c') bl = bloc_bytes (pc_buffers c) bl)
     \<and> pc_currentMirror c \<le> pc_currentMirror c' \<and> (\<forall>bl\<in>set new. pc_currentMirror c \<le> bl_buffer bl)
     \<and> pc_sentBlocRequest c' = pc_sentBlocRequest c \<and> pc_fixed c' = pc_fixed c \<and> pc_fixedSize c' = pc_fixedSize c
     \<and> pc_growingFactor c' = pc_growingFactor c \<and> pc_isFinalized c' = pc_isFinalized c"

lemma adds_trans: "adds c new xs c' \<Longrightarrow> adds c' new' xs' c'' \<Longrightarrow> adds c (new @ new') (xs @ xs') c''"
proof -
  assume a: "adds c new xs c'" "adds c' new' xs' c''"
  then have "map (bloc_bytes (pc_buffers c'')) new = map (bloc_bytes (pc_buffers c')) new"
    by (intro map_cong) (simp_all add: adds_def)
  then have "concat (map (bloc_bytes (pc_buffers c'')) new) = xs" using a(1) by (simp only: adds_def)
  moreover have "\<forall>bl\<in>set (new @ new'). pc_currentMirror c \<le> bl_buffer bl" using a by (fastforce simp: adds_def)
  ultimately show ?thesis using a by (simp add: adds_def)
qed

text \<open>How writing moves on the bytes of each buffer: those of the older ones are continued, the new
  ones start empty.\<close>

definition buffer_size :: "p2p_client \<Rightarrow> int \<Rightarrow> nat option" where
  "buffer_size c i = map_option cb_size (cb_at i (pc_buffers c))"

definition grown :: "p2p_client \<Rightarrow> (int \<Rightarrow> nat) \<Rightarrow> (int \<Rightarrow> byte list) \<Rightarrow> p2p_client \<Rightarrow> (int \<Rightarrow> nat) \<Rightarrow> (int \<Rightarrow> byte list) \<Rightarrow> bool" where
  "grown c T S c' T' S' \<longleftrightarrow> pc_currentMirror c \<le> pc_currentMirror c'
     \<and> (\<forall>i. i \<le> pc_currentMirror c \<longrightarrow> T' i = T i \<and> (\<exists>ys. S' i = S i @ ys) \<and> buffer_size c' i = buffer_size c i)
     \<and> (\<forall>i. pc_currentMirror c < i \<and> i \<le> pc_currentMirror c' \<longrightarrow> T' i = 0)"

lemma grown_refl [simp]: "grown c T S c T S"
  by (simp add: grown_def)

lemma grown_trans:
  assumes "grown c T S c1 T1 S1" "grown c1 T1 S1 c2 T2 S2"
  shows "grown c T S c2 T2 S2"
proof -
  have "T2 i = T i \<and> (\<exists>ys. S2 i = S i @ ys) \<and> buffer_size c2 i = buffer_size c i" if i: "i \<le> pc_currentMirror c" for i
  proof -
    have 1: "i \<le> pc_currentMirror c1" "T1 i = T i" "\<exists>ys. S1 i = S i @ ys" "buffer_size c1 i = buffer_size c i"
      using assms(1) i by (auto simp: grown_def)
    moreover have "T2 i = T1 i" "\<exists>ys. S2 i = S1 i @ ys" "buffer_size c2 i = buffer_size c1 i"
      using assms(2) 1(1) by (auto simp: grown_def)
    ultimately show ?thesis by auto
  qed
  moreover have "T2 i = 0" if "pc_currentMirror c < i" "i \<le> pc_currentMirror c2" for i
    using assms that unfolding grown_def by (cases "i \<le> pc_currentMirror c1") auto
  ultimately show ?thesis using assms by (simp add: grown_def)
qed

lemma write_part_ok:
  assumes inv: "client_inv c T S" and ne: "pc_buffers c \<noteq> []"
  shows "\<exists>k new c' S' st b'. write_part xs nb c = Inr (drop k xs, nb + length new, c') \<and> k \<le> length xs \<and> client_inv c' T S'
    \<and> adds c new (take k xs) c' \<and> pc_currentMirror c' = pc_currentMirror c \<and> pc_currentBufferSize c' = pc_currentBufferSize c
    \<and> pc_buffers c' \<noteq> [] \<and> cb_write xs (snd (last (pc_buffers c))) = Inr (st, k, drop k xs, b') \<and> grown c T S c' T S'"
proof -
  define bs where "bs = butlast (pc_buffers c)"
  obtain i b where ib: "last (pc_buffers c) = (i, b)" by (cases "last (pc_buffers c)")
  then have bufs: "pc_buffers c = bs @ [(i, b)]" using ne by (metis append_butlast_last_id bs_def)
  have cur: "pc_currentMirror c = i" "pc_currentBuffer c = i" using inv ne ib by (auto simp: client_inv_def)
  note dist = client_invD(1) [OF inv, unfolded bufs]
  have b: "cb_ok b (T i) (S i)" "chain (cb_size b) (T i) (in_buffer i (pc_blocs c)) (length (S i))"
    using client_invD(2) [OF inv, of i b] by (simp_all add: bufs)
  obtain st k b' where w: "cb_write xs b = Inr (st, k, drop k xs, b')" and b': "cb_ok b' (T i) (S i @ take k xs)"
    "cb_size b' = cb_size b" "k \<le> length xs" "0 < k \<Longrightarrow> st = length (S i) mod cb_size b \<and> st + k \<le> cb_size b"
    using cb_write_ok [OF b(1), of xs] by blast
  define bl where "bl = \<lparr>bl_addr = (i, st), bl_buffer = i, bl_start = st, bl_count = k, bl_window = i\<rparr>"
  define new where "new = (if 0 < k then [bl] else [])"
  define c' where "c' = c\<lparr>pc_buffers := bs @ [(i, b')], pc_blocs := pc_blocs c @ new\<rparr>"
  define S' where "S' = S(i := S i @ take k xs)"
  have run: "write_part xs nb c = Inr (drop k xs, nb + length new, c')"
    using w cur by (simp add: write_part_def ib bs_def [symmetric] Let_def new_def bl_def c'_def)
  have h: "holds (cb_mem b') (cb_size b) (T i) (S i @ take k xs)" "0 < cb_size b" "T i \<le> length (S i)"
    using b' b(1) by (auto simp: cb_ok_def ring_def)
  have bl_in: "bl_buffer x = i" if "x \<in> set new" for x using that by (simp add: new_def bl_def split: if_splits)
  have "client_inv c' T S'"
    unfolding client_inv_def
  proof (intro conjI)
    show "-1 \<le> pc_currentMirror c'" using inv by (simp add: client_inv_def c'_def)
    have "sorted_wrt (<) (map fst (pc_buffers c))" using inv by (simp add: client_inv_def)
    then show "sorted_wrt (<) (map fst (pc_buffers c'))" by (simp only: c'_def bufs) simp
    show "pc_buffers c' \<noteq> [] \<longrightarrow> fst (last (pc_buffers c')) = pc_currentMirror c' \<and> pc_currentBuffer c' = pc_currentMirror c'"
      using cur by (simp add: c'_def)
    show "\<forall>(j, x)\<in>set (pc_buffers c'). j \<le> pc_currentMirror c' \<and> cb_ok x (T j) (S' j)
        \<and> chain (cb_size x) (T j) (in_buffer j (pc_blocs c')) (length (S' j))"
    proof safe
      fix j x assume jx: "(j, x) \<in> set (pc_buffers c')"
      have "j \<le> pc_currentMirror c' \<and> cb_ok x (T j) (S' j) \<and> chain (cb_size x) (T j) (in_buffer j (pc_blocs c')) (length (S' j))"
      proof (cases "j = i")
        case True
        then have x: "x = b'" using jx dist by (force simp: c'_def)
        have "chain (cb_size b) (length (S i)) new (length (S i) + k)" using b'(4) by (cases "0 < k") (simp_all add: new_def bl_def)
        moreover have "in_buffer i new = new" by (simp add: new_def bl_def)
        ultimately have "chain (cb_size b) (T i) (in_buffer i (pc_blocs c')) (length (S' i))"
          using b(2) b'(3) by (auto simp: c'_def S'_def chain_append)
        with True x b' cur show ?thesis by (simp add: S'_def c'_def)
      next
        case False
        then have "(j, x) \<in> set (pc_buffers c)" using jx by (auto simp: c'_def bufs)
        moreover have "in_buffer j new = []" using False by (simp add: new_def bl_def)
        ultimately show ?thesis using client_invD(2) [OF inv, of j x] False by (simp add: S'_def c'_def)
      qed
      then show "j \<le> pc_currentMirror c'" "cb_ok x (T j) (S' j)" "chain (cb_size x) (T j) (in_buffer j (pc_blocs c')) (length (S' j))"
        by blast+
    qed
    have "bl_buffer x \<le> i" if "x \<in> set (pc_blocs c)" for x
      using inv that cur unfolding client_inv_def by fastforce
    moreover have "sorted (map bl_buffer new)" by (simp add: new_def)
    ultimately show "sorted (map bl_buffer (pc_blocs c'))" using inv by (auto simp: client_inv_def c'_def sorted_append dest: bl_in)
    show "\<forall>x\<in>set (pc_blocs c'). bl_buffer x \<in> fst ` set (pc_buffers c') \<and> bl_addr x = (bl_buffer x, bl_start x) \<and> bl_window x = bl_buffer x"
      using inv by (auto simp: client_inv_def c'_def bufs new_def bl_def split: if_splits)
  qed
  moreover have "concat (map (bloc_bytes (pc_buffers c')) new) = take k xs"
  proof (cases "0 < k")
    case True
    have "cb_at i (pc_buffers c') = Some b'" using client_invD(2) [OF \<open>client_inv c' T S'\<close>, of i b'] by (simp add: c'_def)
    then show ?thesis using True b'(3,4) holds_read [OF h(1,2), of "length (S i)" k] h(3) by (simp add: new_def bloc_bytes_def bl_def)
  qed (simp add: new_def)
  moreover have "bloc_bytes (pc_buffers c') x = bloc_bytes (pc_buffers c) x" if x: "x \<in> set (pc_blocs c)" for x
  proof (cases "bl_buffer x = i")
    case True
    obtain m where m: "T i \<le> m" "m + bl_count x \<le> length (S i)" "bl_start x = m mod cb_size b" "m mod cb_size b + bl_count x \<le> cb_size b"
      "bloc_bytes (pc_buffers c) x = take (bl_count x) (drop m (S i))"
      using bloc_place_at [OF inv x, of b] True by (auto simp: bufs)
    have "cb_at i (pc_buffers c') = Some b'" using client_invD(2) [OF \<open>client_inv c' T S'\<close>, of i b'] by (simp add: c'_def)
    then have "bloc_bytes (pc_buffers c') x = take (bl_count x) (drop m (S i @ take k xs))"
      using holds_read [OF h(1,2) m(1) _ m(4)] m(2,3) True by (simp add: bloc_bytes_def)
    with m show ?thesis by simp
  next
    case False
    then show ?thesis by (simp add: bloc_bytes_def c'_def bufs cb_at_append split: option.split)
  qed
  ultimately have "adds c new (take k xs) c'" using bl_in cur by (simp add: adds_def c'_def)
  moreover have "grown c T S c' T S'"
  proof -
    have "buffer_size c' j = buffer_size c j" for j
      using b'(2) by (auto simp: buffer_size_def c'_def bufs cb_at_append split: option.split)
    then show ?thesis by (auto simp: grown_def c'_def S'_def)
  qed
  ultimately show ?thesis using run b'(3) \<open>client_inv c' T S'\<close> w ib
    by (intro exI [where x = k] exI [where x = new] exI [where x = c'] exI [where x = S'] exI [where x = st] exI [where x = b'])
      (simp add: c'_def)
qed

lemma newBuffer_ok:
  assumes inv: "client_inv c T S" and sz: "0 < sz" "sz < 2 ^ 63" and room: "pc_currentMirror c + 1 < int MAX_WINDOWS"
  shows "\<exists>c' T' S'. pc_newBuffer sz c = Inr c' \<and> client_inv c' T' S' \<and> adds c [] [] c'
    \<and> pc_currentMirror c' = pc_currentMirror c + 1 \<and> pc_currentBufferSize c' = pc_currentBufferSize c
    \<and> pc_buffers c' \<noteq> [] \<and> snd (last (pc_buffers c')) = new_cbuffer sz (pc_fixed c)
    \<and> grown c T S c' T' S' \<and> buffer_size c' (pc_currentMirror c') = Some sz"
proof -
  define i where "i = pc_currentMirror c + 1"
  define c' where "c' = c\<lparr>pc_currentMirror := i, pc_buffers := pc_buffers c @ [(i, new_cbuffer sz (pc_fixed c))], pc_currentBuffer := i\<rparr>"
  have i: "0 \<le> i" "i < int MAX_WINDOWS" using inv room by (simp_all add: client_inv_def i_def)
  then have run: "pc_newBuffer sz c = Inr c'" by (simp add: pc_newBuffer_def Let_def i_def [symmetric] c'_def)
  have less: "j < i" if "(j, b) \<in> set (pc_buffers c)" for j b using client_invD(2) [OF inv that] by (simp add: i_def)
  then have none: "bl_buffer bl < i" if "bl \<in> set (pc_blocs c)" for bl using inv that unfolding client_inv_def by fastforce
  then have empty: "in_buffer i (pc_blocs c) = []" by (fastforce simp: in_buffer_def filter_empty_conv)
  have "client_inv c' (T(i := 0)) (S(i := []))"
    unfolding client_inv_def
  proof (intro conjI)
    have "sorted_wrt (<) (map fst (pc_buffers c))" using inv by (simp add: client_inv_def)
    then show "sorted_wrt (<) (map fst (pc_buffers c'))" using less by (auto simp: c'_def sorted_wrt_append)
    show "\<forall>(j, x)\<in>set (pc_buffers c'). j \<le> pc_currentMirror c' \<and> cb_ok x ((T(i := 0)) j) ((S(i := [])) j)
        \<and> chain (cb_size x) ((T(i := 0)) j) (in_buffer j (pc_blocs c')) (length ((S(i := [])) j))"
      using client_invD(2) [OF inv] less new_cbuffer_ok [OF sz] empty by (force simp: c'_def)
  qed (use inv i in \<open>auto simp: client_inv_def c'_def\<close>)
  moreover have "adds c [] [] c'"
  proof -
    have "bloc_bytes (pc_buffers c') bl = bloc_bytes (pc_buffers c) bl" if "bl \<in> set (pc_blocs c)" for bl
      using none [OF that] by (simp add: bloc_bytes_def c'_def cb_at_append split: option.split)
    then show ?thesis by (simp add: adds_def c'_def i_def)
  qed
  moreover have "grown c T S c' (T(i := 0)) (S(i := []))"
  proof -
    have "buffer_size c' j = buffer_size c j" if "j \<le> pc_currentMirror c" for j
      using that by (auto simp: buffer_size_def c'_def i_def cb_at_append split: option.split)
    then show ?thesis by (auto simp: grown_def c'_def i_def)
  qed
  moreover have "buffer_size c' i = Some sz"
    using client_invD(2) [OF \<open>client_inv c' _ _\<close>, of i "new_cbuffer sz (pc_fixed c)"] by (simp add: buffer_size_def c'_def new_cbuffer_def)
  ultimately show ?thesis using run
    by (intro exI [where x = c'] exI [where x = "T(i := 0)"] exI [where x = "S(i := [])"]) (simp add: c'_def i_def)
qed

text \<open>The two calls of \<open>write\<close> in one turn.\<close>

lemma write_parts_ok:
  assumes "client_inv c T S" "pc_buffers c \<noteq> []"
  shows "\<exists>k new c' S'. obind (write_part xs nb c) (\<lambda>(xs, nb, c). write_part xs nb c) = Inr (drop k xs, nb + length new, c')
    \<and> k \<le> length xs \<and> client_inv c' T S' \<and> adds c new (take k xs) c' \<and> pc_currentMirror c' = pc_currentMirror c
    \<and> pc_currentBufferSize c' = pc_currentBufferSize c \<and> grown c T S c' T S'
    \<and> (\<forall>st b. cb_write xs (snd (last (pc_buffers c))) = Inr (st, length xs, [], b) \<longrightarrow> k = length xs)"
proof -
  obtain k new c1 S1 st b where 1: "write_part xs nb c = Inr (drop k xs, nb + length new, c1)" "k \<le> length xs" "client_inv c1 T S1"
    "adds c new (take k xs) c1" "pc_currentMirror c1 = pc_currentMirror c" "pc_currentBufferSize c1 = pc_currentBufferSize c"
    "pc_buffers c1 \<noteq> []" "cb_write xs (snd (last (pc_buffers c))) = Inr (st, k, drop k xs, b)" "grown c T S c1 T S1"
    using write_part_ok [OF assms, of xs nb] by blast
  obtain l new' c2 S2 where 2: "write_part (drop k xs) (nb + length new) c1 = Inr (drop l (drop k xs), nb + length new + length new', c2)"
    "l \<le> length (drop k xs)" "client_inv c2 T S2" "adds c1 new' (take l (drop k xs)) c2" "pc_currentMirror c2 = pc_currentMirror c1"
    "pc_currentBufferSize c2 = pc_currentBufferSize c1" "grown c1 T S1 c2 T S2"
    using write_part_ok [OF 1(3,7), of "drop k xs" "nb + length new"] by blast
  have eq: "obind (write_part xs nb c) (\<lambda>(xs, nb, c). write_part xs nb c) = Inr (drop (k + l) xs, nb + length (new @ new'), c2)"
    using 1(1) 2(1) by (simp add: add.commute)
  have ad: "adds c (new @ new') (take (k + l) xs) c2" using adds_trans [OF 1(4) 2(4)] by (simp only: take_add)
  have all: "k + l = length xs" if "cb_write xs (snd (last (pc_buffers c))) = Inr (st', length xs, [], b')" for st' b'
    using that 1(8) 2(2) by simp
  have "k + l \<le> length xs" using 1(2) 2(2) by simp
  moreover have "pc_currentMirror c2 = pc_currentMirror c" "pc_currentBufferSize c2 = pc_currentBufferSize c"
    using 1(5,6) 2(5,6) by simp_all
  moreover have "grown c T S c2 T S2" using grown_trans [OF 1(9) 2(7)] .
  ultimately show ?thesis using eq ad all 2(3) by blast
qed

lemma write_loop_Nil [simp]: "write_loop [] nb c = Some (Inr (nb, c))"
  by (subst write_loop.simps) simp

text \<open>One turn of the loop after the first buffer is there.\<close>

lemma obind_pair: "obind x (\<lambda>(a, b, c). f a b c) = Inr y \<Longrightarrow> obind x (\<lambda>(a, b, c). obind (f a b c) g) = g y"
  by (cases x) auto

lemma write_loop_turn:
  assumes "obind (write_part xs nb c) (\<lambda>(xs, nb, c). write_part xs nb c) = Inr (ys, nb', c1)" "pc_buffers c \<noteq> []" "xs \<noteq> []"
  shows "write_loop xs nb c = (case (if ys = [] then Inr (ys, nb', c1) else omap (\<lambda>c. (ys, nb', c)) (next_buffer (length ys) c1)) of
             Inl e \<Rightarrow> Some (Inl e) | Inr (xs, nbBlocs, c) \<Rightarrow> write_loop xs nbBlocs c)"
  using assms(2,3) by (subst write_loop.simps) (simp add: first_buffer_def obind_pair [OF assms(1)])

lemma write_last:
  assumes "client_inv c T S" "pc_buffers c \<noteq> []" "cb_write xs (snd (last (pc_buffers c))) = Inr (st, length xs, [], b)" "xs \<noteq> []"
  shows "\<exists>new c' S'. write_loop xs nb c = Some (Inr (nb + length new, c')) \<and> client_inv c' T S' \<and> adds c new xs c'
    \<and> grown c T S c' T S' \<and> pc_currentMirror c' = pc_currentMirror c \<and> pc_currentBufferSize c' = pc_currentBufferSize c"
proof -
  obtain k new c1 S1 where 1: "obind (write_part xs nb c) (\<lambda>(xs, nb, c). write_part xs nb c) = Inr (drop k xs, nb + length new, c1)"
    "client_inv c1 T S1" "adds c new (take k xs) c1" "k = length xs"
    "grown c T S c1 T S1" "pc_currentMirror c1 = pc_currentMirror c" "pc_currentBufferSize c1 = pc_currentBufferSize c"
    using write_parts_ok [OF assms(1,2), of xs nb] assms(3) by blast
  then show ?thesis using write_loop_turn [OF 1(1) assms(2,4)] by auto
qed

text \<open>The size of the buffer that is made for \<open>n\<close> bytes that are left.\<close>

definition next_size :: "p2p_client \<Rightarrow> nat \<Rightarrow> nat" where
  "next_size c n = (if pc_fixed c then pc_fixedSize c else max (nat \<lfloor>of_nat (pc_currentBufferSize c) * pc_growingFactor c\<rfloor>) n)"

lemma write_turn:
  assumes inv: "client_inv c T S" and ne: "pc_buffers c \<noteq> []" and xs: "xs \<noteq> []"
    and grow: "\<And>n. n \<le> length xs \<Longrightarrow> 0 < n \<Longrightarrow> n \<le> next_size c n \<and> next_size c n < 2 ^ 63"
    and room: "pc_currentMirror c + 1 < int MAX_WINDOWS"
  shows "\<exists>k new c' T' S'. write_loop xs nb c = write_loop (drop k xs) (nb + length new) c' \<and> client_inv c' T' S' \<and> adds c new (take k xs) c'
    \<and> k \<le> length xs \<and> grown c T S c' T' S'
    \<and> (k < length xs \<longrightarrow> pc_buffers c' \<noteq> [] \<and> (\<exists>sz fixed. length xs - k \<le> sz \<and> 0 < sz \<and> snd (last (pc_buffers c')) = new_cbuffer sz fixed)
         \<and> pc_currentMirror c' = pc_currentMirror c + 1 \<and> buffer_size c' (pc_currentMirror c') = Some (pc_currentBufferSize c'))
    \<and> (k = length xs \<longrightarrow> pc_currentMirror c' = pc_currentMirror c \<and> pc_currentBufferSize c' = pc_currentBufferSize c)
    \<and> (\<forall>st b. cb_write xs (snd (last (pc_buffers c))) = Inr (st, length xs, [], b) \<longrightarrow> k = length xs)"
proof -
  obtain k new c1 S1 where 1: "obind (write_part xs nb c) (\<lambda>(xs, nb, c). write_part xs nb c) = Inr (drop k xs, nb + length new, c1)"
    "k \<le> length xs" "client_inv c1 T S1" "adds c new (take k xs) c1" "pc_currentMirror c1 = pc_currentMirror c"
    "pc_currentBufferSize c1 = pc_currentBufferSize c"
    "\<forall>st b. cb_write xs (snd (last (pc_buffers c))) = Inr (st, length xs, [], b) \<longrightarrow> k = length xs" "grown c T S c1 T S1"
    using write_parts_ok [OF inv ne, of xs nb] by blast
  note turn = write_loop_turn [OF 1(1) ne xs]
  show ?thesis
  proof (cases "k = length xs")
    case True
    with turn 1 show ?thesis by (intro exI [where x = k] exI [where x = new] exI [where x = c1] exI [where x = T] exI [where x = S1]) simp
  next
    case False
    let ?n = "length xs - k" and ?sz = "next_size c (length xs - k)"
    have f: "pc_fixed c1 = pc_fixed c" "pc_fixedSize c1 = pc_fixedSize c" "pc_growingFactor c1 = pc_growingFactor c"
      using 1(4) by (simp_all add: adds_def)
    let ?c = "c1\<lparr>pc_currentBufferSize := ?sz\<rparr>"
    have inv': "client_inv ?c T S1" using 1(3) by (simp add: client_inv_def)
    have sz: "0 < ?sz" "?sz < 2 ^ 63" "?n \<le> ?sz" using grow [of ?n] 1(2) False by auto
    obtain c2 T2 S2 where 2: "pc_newBuffer ?sz ?c = Inr c2" "client_inv c2 T2 S2" "adds ?c [] [] c2" "pc_buffers c2 \<noteq> []"
      "snd (last (pc_buffers c2)) = new_cbuffer ?sz (pc_fixed ?c)" "grown ?c T S1 c2 T2 S2"
      "pc_currentMirror c2 = pc_currentMirror c1 + 1" "buffer_size c2 (pc_currentMirror c2) = Some (pc_currentBufferSize c2)"
      using newBuffer_ok [OF inv' sz(1,2)] room 1(5) by auto
    have "next_buffer (length (drop k xs)) c1 = Inr c2" using 2(1) f 1(6) by (cases "pc_fixed c") (simp_all add: next_buffer_def next_size_def Let_def)
    then have "write_loop xs nb c = write_loop (drop k xs) (nb + length new) c2" using turn False 1(2) by simp
    moreover have none: "adds c1 [] [] ?c" by (simp add: adds_def)
    have "adds c new (take k xs) c2" using adds_trans [OF adds_trans [OF 1(4) none] 2(3)] by simp
    moreover have "\<exists>sz fixed. length xs - k \<le> sz \<and> 0 < sz \<and> snd (last (pc_buffers c2)) = new_cbuffer sz fixed"
      using 2(5) sz(1,3) by blast
    moreover have "grown c T S c2 T2 S2"
    proof (rule grown_trans [OF 1(8)])
      show "grown c1 T S1 c2 T2 S2" using 2(6) by (simp add: grown_def buffer_size_def)
    qed
    ultimately show ?thesis using 1(2,5,7) 2(2,4,7,8) False
      by (intro exI [where x = k] exI [where x = new] exI [where x = c2] exI [where x = T2] exI [where x = S2]) simp
  qed
qed

lemma cb_write_new: "length xs \<le> sz \<Longrightarrow> 0 < sz \<Longrightarrow> \<exists>st b. cb_write xs (new_cbuffer sz fixed) = Inr (st, length xs, [], b)"
proof -
  assume a: "length xs \<le> sz" "0 < sz"
  have "sz \<le> (sz div 8 + 1) * 8 + 8" by presburger
  moreover have "cb_write xs (new_cbuffer sz fixed) = cb_store (length xs) (length xs) xs (new_cbuffer sz fixed)"
    using a by (simp add: cb_write_def new_cbuffer_def Let_def)
  ultimately show ?thesis using a by (auto simp: cb_store_def mem_copy_def new_cbuffer_def)
qed

text \<open>What an event needs to be written: a window for the buffer that may be made, for two when there is no
  buffer yet, and sizes that are not too large; a client with a fixed size takes events up to that size.\<close>

definition writable :: "byte list \<Rightarrow> p2p_client \<Rightarrow> bool" where
  "writable xs c \<longleftrightarrow> xs \<noteq> [] \<and> pc_currentMirror c + (if pc_buffers c = [] then 2 else 1) < int MAX_WINDOWS
     \<and> (if pc_fixed c then length xs \<le> pc_fixedSize c \<and> pc_fixedSize c < 2 ^ 63
        else length xs < 2 ^ 63 \<and> pc_currentBufferSize c < 2 ^ 63 \<and> 0 \<le> pc_growingFactor c
           \<and> nat \<lfloor>of_nat (max (pc_currentBufferSize c) (length xs)) * pc_growingFactor c\<rfloor> < 2 ^ 63)"

lemma grow_mono: "0 \<le> (f :: rat) \<Longrightarrow> a \<le> b \<Longrightarrow> nat \<lfloor>of_nat a * f\<rfloor> \<le> nat \<lfloor>of_nat b * f\<rfloor>"
  by (intro nat_mono floor_mono mult_right_mono) simp_all

lemma write_loop_writes:
  assumes inv: "client_inv c T S" and wr: "writable xs c"
  shows "\<exists>new c' T' S'. write_loop xs nb c = Some (Inr (nb + length new, c')) \<and> client_inv c' T' S' \<and> adds c new xs c'
    \<and> grown c T S c' T' S' \<and> (\<exists>bl\<in>set new. bl_buffer bl = pc_currentMirror c')
    \<and> ((pc_buffers c = [] \<longrightarrow> pc_currentBufferSize c = 0) \<longrightarrow>
         pc_currentMirror c' = pc_currentMirror c \<and> pc_currentBufferSize c' = pc_currentBufferSize c
       \<or> pc_currentMirror c' = pc_currentMirror c + 1 \<and> buffer_size c' (pc_currentMirror c') = Some (pc_currentBufferSize c'))"
proof -
  have xs: "xs \<noteq> []" and room: "pc_currentMirror c + (if pc_buffers c = [] then 2 else 1) < int MAX_WINDOWS" using wr by (simp_all add: writable_def)
  define cur where "cur = (if pc_buffers c \<noteq> [] then pc_currentBufferSize c else if pc_fixed c then pc_fixedSize c
    else if pc_currentBufferSize c = 0 then length xs else pc_currentBufferSize c)"
  have "\<exists>c1 T1 S1. write_loop xs nb c = write_loop xs nb c1 \<and> client_inv c1 T1 S1 \<and> adds c [] [] c1 \<and> pc_buffers c1 \<noteq> []
      \<and> pc_currentBufferSize c1 = cur \<and> pc_currentMirror c1 \<le> pc_currentMirror c + 1 \<and> grown c T S c1 T1 S1
      \<and> (if pc_buffers c = [] then pc_currentMirror c1 = pc_currentMirror c + 1 \<and> buffer_size c1 (pc_currentMirror c1) = Some cur
           \<and> (\<exists>fixed. snd (last (pc_buffers c1)) = new_cbuffer cur fixed) else c1 = c)"
  proof (cases "pc_buffers c = []")
    case True
    let ?c = "c\<lparr>pc_currentBufferSize := cur\<rparr>"
    have inv': "client_inv ?c T S" using inv by (simp add: client_inv_def)
    have "0 < length xs" using xs by simp
    then have cur: "0 < cur" "cur < 2 ^ 63" using wr True by (auto simp: cur_def writable_def split: if_splits dest: less_le_trans)
    have first: "first_buffer (length xs) c = pc_newBuffer cur ?c" using True by (simp add: first_buffer_def cur_def Let_def)
    have room': "pc_currentMirror ?c + 1 < int MAX_WINDOWS" using room True by simp
    obtain c1 T1 S1 where c1: "pc_newBuffer cur ?c = Inr c1" "client_inv c1 T1 S1" "adds ?c [] [] c1" "pc_buffers c1 \<noteq> []"
      and c1m: "pc_currentMirror c1 = pc_currentMirror ?c + 1" "pc_currentBufferSize c1 = pc_currentBufferSize ?c"
      and c1g: "grown ?c T S c1 T1 S1" "buffer_size c1 (pc_currentMirror c1) = Some cur" "snd (last (pc_buffers c1)) = new_cbuffer cur (pc_fixed ?c)"
      using newBuffer_ok [OF inv' cur room'] by blast
    have c1m': "pc_currentMirror c1 = pc_currentMirror c + 1" "pc_currentBufferSize c1 = cur" using c1m by simp_all
    have gr: "grown c T S c1 T1 S1" using c1g(1) by (simp add: grown_def buffer_size_def)
    have "first_buffer (length xs) c1 = Inr c1" using c1(4) by (simp add: first_buffer_def)
    then have "write_loop xs nb c = write_loop xs nb c1" using first c1(1) write_loop.simps [of xs nb c] write_loop.simps [of xs nb c1] xs by simp
    moreover have "adds c [] [] c1" using c1(3) by (simp add: adds_def)
    ultimately show ?thesis using c1 c1m' c1g(2,3) gr True
      by (intro exI [where x = c1] exI [where x = T1] exI [where x = S1]) (simp, blast)
  next
    case False
    with inv show ?thesis by (intro exI [where x = c] exI [where x = T] exI [where x = S]) (simp add: adds_def cur_def)
  qed
  then obtain c1 T1 S1 where c1: "write_loop xs nb c = write_loop xs nb c1" "client_inv c1 T1 S1" "adds c [] [] c1" "pc_buffers c1 \<noteq> []"
    "pc_currentBufferSize c1 = cur" "pc_currentMirror c1 \<le> pc_currentMirror c + 1" "grown c T S c1 T1 S1"
    "if pc_buffers c = [] then pc_currentMirror c1 = pc_currentMirror c + 1 \<and> buffer_size c1 (pc_currentMirror c1) = Some cur
           \<and> (\<exists>fixed. snd (last (pc_buffers c1)) = new_cbuffer cur fixed) else c1 = c" by blast
  have f: "pc_fixed c1 = pc_fixed c" "pc_fixedSize c1 = pc_fixedSize c" "pc_growingFactor c1 = pc_growingFactor c"
    using c1(3) by (simp_all add: adds_def)
  have g: "m \<le> next_size c1 m \<and> next_size c1 m < 2 ^ 63" if "m \<le> length xs" for m
  proof (cases "pc_fixed c")
    case True
    then show ?thesis using f wr that by (simp add: next_size_def writable_def)
  next
    case False
    then have w: "length xs < 2 ^ 63" "0 \<le> pc_growingFactor c"
      "nat \<lfloor>of_nat (max (pc_currentBufferSize c) (length xs)) * pc_growingFactor c\<rfloor> < 2 ^ 63" using wr by (simp_all add: writable_def)
    have "cur \<le> max (pc_currentBufferSize c) (length xs)" using False by (simp add: cur_def)
    from grow_mono [OF w(2) this] have "nat \<lfloor>of_nat cur * pc_growingFactor c\<rfloor> < 2 ^ 63" using w(3) by linarith
    then show ?thesis using c1(5) f False that w(1) by (simp add: next_size_def)
  qed
  have room1: "pc_currentMirror c1 + 1 < int MAX_WINDOWS" using c1(8) room by (cases "pc_buffers c = []") simp_all
  obtain k new c2 T2 S2 where 2: "write_loop xs nb c1 = write_loop (drop k xs) (nb + length new) c2" "client_inv c2 T2 S2"
    "adds c1 new (take k xs) c2" "k \<le> length xs"
    "k < length xs \<longrightarrow> pc_buffers c2 \<noteq> [] \<and> (\<exists>sz fixed. length xs - k \<le> sz \<and> 0 < sz \<and> snd (last (pc_buffers c2)) = new_cbuffer sz fixed)
         \<and> pc_currentMirror c2 = pc_currentMirror c1 + 1 \<and> buffer_size c2 (pc_currentMirror c2) = Some (pc_currentBufferSize c2)"
    "k = length xs \<longrightarrow> pc_currentMirror c2 = pc_currentMirror c1 \<and> pc_currentBufferSize c2 = pc_currentBufferSize c1"
    "grown c1 T1 S1 c2 T2 S2" "\<forall>st b. cb_write xs (snd (last (pc_buffers c1))) = Inr (st, length xs, [], b) \<longrightarrow> k = length xs"
    using write_turn [OF c1(2,4) xs g room1, of nb] by blast
  have last: "\<exists>bl\<in>set new. bl_buffer bl = pc_currentMirror d'"
    if d: "adds d new ys d'" "ys \<noteq> []" "client_inv d' T'' S''" "pc_currentMirror d' = pc_currentMirror d" for d d' new ys T'' S''
  proof -
    have "concat (map (bloc_bytes (pc_buffers d')) new) \<noteq> []" using d(1,2) by (simp add: adds_def)
    then obtain bl where bl: "bl \<in> set new" by (cases new) auto
    have "pc_currentMirror d \<le> bl_buffer bl" using d(1) bl by (simp add: adds_def)
    moreover have "bl \<in> set (pc_blocs d')" using d(1) bl by (simp add: adds_def)
    then have "bl_buffer bl \<le> pc_currentMirror d'" using d(3) unfolding client_inv_def by fastforce
    ultimately show ?thesis using d(4) bl by force
  qed
  have gr: "grown c T S c2 T2 S2" using grown_trans [OF c1(7) 2(7)] .
  have add: "adds c new (take k xs) c2" using adds_trans [OF c1(3) 2(3)] by simp
  show ?thesis
  proof (cases "k = length xs")
    case True
    moreover have "(pc_buffers c = [] \<longrightarrow> pc_currentBufferSize c = 0) \<longrightarrow>
         pc_currentMirror c2 = pc_currentMirror c \<and> pc_currentBufferSize c2 = pc_currentBufferSize c
       \<or> pc_currentMirror c2 = pc_currentMirror c + 1 \<and> buffer_size c2 (pc_currentMirror c2) = Some (pc_currentBufferSize c2)"
    proof (cases "pc_buffers c = []")
      case True
      have m: "pc_currentMirror c2 = pc_currentMirror c1" "pc_currentBufferSize c2 = cur" using 2(6) \<open>k = length xs\<close> c1(5) by simp_all
      moreover have "buffer_size c2 (pc_currentMirror c1) = buffer_size c1 (pc_currentMirror c1)" using 2(7) by (simp add: grown_def)
      ultimately show ?thesis using c1(8) True by auto
    next
      case False
      with 2(6) c1(8) \<open>k = length xs\<close> show ?thesis by simp
    qed
    moreover have "\<exists>bl\<in>set new. bl_buffer bl = pc_currentMirror c2"
      using last [OF 2(3) _ 2(2)] 2(6) \<open>k = length xs\<close> xs by simp
    ultimately show ?thesis using c1(1) 2(1-4) add gr by (intro exI [where x = new] exI [where x = c2] exI [where x = T2] exI [where x = S2]) simp
  next
    case False
    with 2(4,5) obtain sz fixed where l: "pc_buffers c2 \<noteq> []" "length (drop k xs) \<le> sz" "0 < sz" "snd (last (pc_buffers c2)) = new_cbuffer sz fixed"
      by auto
    obtain st b where w: "cb_write (drop k xs) (snd (last (pc_buffers c2))) = Inr (st, length (drop k xs), [], b)"
      using cb_write_new [OF l(2,3)] l(4) by metis
    have "drop k xs \<noteq> []" using False 2(4) by simp
    from write_last [OF 2(2) l(1) w this, of "nb + length new"] obtain new' c3 S3 where
      3: "write_loop (drop k xs) (nb + length new) c2 = Some (Inr (nb + length new + length new', c3))" "client_inv c3 T2 S3"
      "adds c2 new' (drop k xs) c3" "grown c2 T2 S2 c3 T2 S3" "pc_currentMirror c3 = pc_currentMirror c2" "pc_currentBufferSize c3 = pc_currentBufferSize c2" by blast
    have same: "pc_currentMirror c2 = pc_currentMirror c1 + 1" "buffer_size c2 (pc_currentMirror c2) = Some (pc_currentBufferSize c2)"
      using 2(4,5) False by auto
    have "buffer_size c3 (pc_currentMirror c2) = buffer_size c2 (pc_currentMirror c2)" using 3(4) by (simp add: grown_def)
    moreover have "pc_buffers c \<noteq> []" if z: "pc_buffers c = [] \<longrightarrow> pc_currentBufferSize c = 0"
    proof
      assume e: "pc_buffers c = []"
      then obtain fixed where n: "snd (last (pc_buffers c1)) = new_cbuffer cur fixed" using c1(8) by auto
      have "length xs \<le> cur" using e z wr by (simp add: cur_def writable_def)
      moreover from this have "0 < cur" using xs by (cases cur) simp_all
      ultimately have "k = length xs" using cb_write_new [of xs cur fixed] 2(8) n by auto
      with False show "False" by simp
    qed
    ultimately have fin: "(pc_buffers c = [] \<longrightarrow> pc_currentBufferSize c = 0) \<longrightarrow>
       pc_currentMirror c3 = pc_currentMirror c + 1 \<and> buffer_size c3 (pc_currentMirror c3) = Some (pc_currentBufferSize c3)"
      using 3(5,6) same c1(8) by auto
    have "adds c (new @ new') xs c3" using adds_trans [OF add 3(3)] by simp
    moreover have "\<exists>bl\<in>set (new @ new'). bl_buffer bl = pc_currentMirror c3"
      using last [OF 3(3) \<open>drop k xs \<noteq> []\<close> 3(2,5)] by auto
    ultimately show ?thesis using c1(1) 2(1) 3 fin grown_trans [OF gr 3(4)]
      by (intro exI [where x = "new @ new'"] exI [where x = c3] exI [where x = T2] exI [where x = S3]) (simp add: add.assoc, force)
  qed
qed

section \<open>Freeing\<close>

lemma chain_starts: "chain sz p bls q \<Longrightarrow> q \<le> p + sz \<Longrightarrow> distinct (map bl_start bls)"
proof (induction bls arbitrary: p)
  case (Cons bl bls)
  have "bl_start x \<noteq> p mod sz" if x: "x \<in> set bls" for x
  proof -
    obtain m where "m \<ge> p + bl_count bl" "m + bl_count x \<le> q" "bl_start x = m mod sz" "0 < bl_count x"
      using chain_in [OF _ x, of sz "p + bl_count bl" q] Cons.prems(1) by auto
    then show ?thesis using mod_apart [of p m sz] Cons.prems by simp
  qed
  then show ?case using Cons by fastforce
qed simp

lemma blocs_distinct:
  assumes inv: "client_inv c T S"
  shows "distinct (map bl_addr (pc_blocs c))"
proof -
  have per: "distinct (map bl_start (in_buffer i (pc_blocs c)))" for i
  proof (cases "in_buffer i (pc_blocs c) = []")
    case False
    then obtain bl where "bl \<in> set (pc_blocs c)" "bl_buffer bl = i" by (auto simp: in_buffer_def filter_empty_conv)
    then obtain b where b: "(i, b) \<in> set (pc_buffers c)" using bloc_place [OF inv] by blast
    have "length (S i) \<le> T i + cb_size b" using client_invD(2) [OF inv b] by (auto simp: cb_ok_def ring_def split: if_splits)
    with chain_starts client_invD(2) [OF inv b] show ?thesis by blast
  qed simp
  have "distinct (map bl_addr bls)" if "set bls \<subseteq> set (pc_blocs c)" "\<And>i. distinct (map bl_start (in_buffer i bls))" for bls
    using that
  proof (induction bls)
    case (Cons bl bls)
    have addr: "bl_addr x = (bl_buffer x, bl_start x)" if "x \<in> set (bl # bls)" for x
      using that Cons.prems(1) inv unfolding client_inv_def by blast
    have "bl_addr x \<noteq> bl_addr bl" if "x \<in> set bls" for x
    proof
      assume "bl_addr x = bl_addr bl"
      then have "bl_buffer x = bl_buffer bl" "bl_start x = bl_start bl" using addr that by simp_all
      moreover have "x \<in> set (in_buffer (bl_buffer bl) bls)" using calculation(1) that by (simp add: in_buffer_def)
      ultimately show False using Cons.prems(2) [of "bl_buffer bl"] by (metis distinct.simps(2) imageI in_buffer_simps(2) list.set_map list.simps(9))
    qed
    moreover have "distinct (map bl_start (in_buffer i bls))" for i using Cons.prems(2) [of i] by (auto split: if_splits)
    ultimately show ?case using Cons by fastforce
  qed simp
  with per show ?thesis by blast
qed

lemma chain_eq: "chain sz p bls p \<Longrightarrow> bls = []"
  by (cases bls) (auto dest: chain_le)

lemma empty_buffer:
  assumes "client_inv c T S" "(i, b) \<in> set (pc_buffers c)"
  shows "cb_count b = 0 \<longleftrightarrow> in_buffer i (pc_blocs c) = []"
proof -
  have r: "T i \<le> length (S i)" "cb_count b = length (S i) - T i" "chain (cb_size b) (T i) (in_buffer i (pc_blocs c)) (length (S i))"
    using client_invD(2) [OF assms] by (auto simp: cb_ok_def ring_def)
  show ?thesis
  proof
    assume "cb_count b = 0"
    then have "T i = length (S i)" using r(1,2) by simp
    then show "in_buffer i (pc_blocs c) = []" using chain_eq r(3) by simp
  qed (use r in simp)
qed

text \<open>Deleting the first buffer when it is empty.\<close>

lemma delete_front_ok:
  assumes inv: "client_inv c T S" and bs: "pc_buffers c = (i, b) # bs" and "cb_count b = 0"
  shows "delete_front (pc_buffers c) = Inr bs \<and> client_inv (c\<lparr>pc_buffers := bs\<rparr>) T S
    \<and> (\<forall>bl\<in>set (pc_blocs c). bloc_bytes bs bl = bloc_bytes (pc_buffers c) bl)"
proof -
  have none: "bl_buffer bl \<noteq> i" if "bl \<in> set (pc_blocs c)" for bl
    using empty_buffer [OF inv, of i b] assms(2,3) that by (auto simp: in_buffer_def filter_empty_conv)
  have "client_inv (c\<lparr>pc_buffers := bs\<rparr>) T S"
    unfolding client_inv_def
  proof (intro conjI)
    show "\<forall>bl\<in>set (pc_blocs (c\<lparr>pc_buffers := bs\<rparr>)). bl_buffer bl \<in> fst ` set (pc_buffers (c\<lparr>pc_buffers := bs\<rparr>))
        \<and> bl_addr bl = (bl_buffer bl, bl_start bl) \<and> bl_window bl = bl_buffer bl"
      using inv none bs by (auto simp: client_inv_def)
  qed (use inv bs in \<open>auto simp: client_inv_def\<close>)
  with none assms(2,3) show ?thesis by (auto simp: delete_front_def bloc_bytes_def)
qed

lemma freeBloc_ok:
  assumes inv: "client_inv c T S" and bls: "pc_blocs c = bl # bls"
  shows "\<exists>bs T'. freeBloc bl (pc_buffers c) = Inr bs \<and> client_inv (c\<lparr>pc_blocs := bls, pc_buffers := bs\<rparr>) T' S
    \<and> (\<forall>x\<in>set bls. bloc_bytes bs x = bloc_bytes (pc_buffers c) x)"
proof -
  define i where "i = bl_buffer bl"
  obtain b where b: "(i, b) \<in> set (pc_buffers c)" using bloc_place [OF inv, of bl] bls by (auto simp: i_def)
  note d = client_invD(2) [OF inv b]
  have ch: "bl_start bl = T i mod cb_size b" "0 < bl_count bl" "T i mod cb_size b + bl_count bl \<le> cb_size b"
    "chain (cb_size b) (T i + bl_count bl) (in_buffer i bls) (length (S i))" using d bls by (simp_all add: i_def)
  define b' where "b' = cb_free (bl_start bl) (bl_count bl) b"
  define bs where "bs = map (\<lambda>(j, x). (j, if j = i then b' else x)) (pc_buffers c)"
  define T' where "T' = T(i := T i + bl_count bl)"
  define c' where "c' = c\<lparr>pc_blocs := bls, pc_buffers := bs\<rparr>"
  have b': "cb_ok b' (T' i) (S i)" "cb_size b' = cb_size b" "cb_mem b' = cb_mem b"
    using cb_free_ok [of b "T i" "S i" "bl_count bl"] d ch chain_le [OF ch(4)] by (simp_all add: b'_def T'_def cb_free_def)
  have ids: "map fst bs = map fst (pc_buffers c)" by (simp add: bs_def case_prod_beta comp_def)
  have "client_inv c' T' S"
    unfolding client_inv_def
  proof (intro conjI)
    show "pc_buffers c' \<noteq> [] \<longrightarrow> fst (last (pc_buffers c')) = pc_currentMirror c' \<and> pc_currentBuffer c' = pc_currentMirror c'"
      using inv by (auto simp: client_inv_def c'_def bs_def last_map case_prod_beta)
    show "\<forall>(j, x)\<in>set (pc_buffers c'). j \<le> pc_currentMirror c' \<and> cb_ok x (T' j) (S j)
        \<and> chain (cb_size x) (T' j) (in_buffer j (pc_blocs c')) (length (S j))"
    proof safe
      fix j x assume "(j, x) \<in> set (pc_buffers c')"
      then obtain y where y: "(j, y) \<in> set (pc_buffers c)" "x = (if j = i then b' else y)" by (auto simp: c'_def bs_def)
      have "j \<le> pc_currentMirror c' \<and> cb_ok x (T' j) (S j) \<and> chain (cb_size x) (T' j) (in_buffer j (pc_blocs c')) (length (S j))"
        using client_invD(2) [OF inv y(1)] y(2) b' ch(4) bls by (cases "j = i") (auto simp: c'_def T'_def i_def)
      then show "j \<le> pc_currentMirror c'" "cb_ok x (T' j) (S j)" "chain (cb_size x) (T' j) (in_buffer j (pc_blocs c')) (length (S j))"
        by blast+
    qed
    have "fst ` set bs = fst ` set (pc_buffers c)" using ids by (metis list.set_map)
    then show "\<forall>x\<in>set (pc_blocs c'). bl_buffer x \<in> fst ` set (pc_buffers c') \<and> bl_addr x = (bl_buffer x, bl_start x) \<and> bl_window x = bl_buffer x"
      using inv bls by (simp add: client_inv_def c'_def)
  qed (use inv bls ids in \<open>auto simp: client_inv_def c'_def\<close>)
  have same: "bloc_bytes bs x = bloc_bytes (pc_buffers c) x" for x
    using d b'(3) by (auto simp: bloc_bytes_def bs_def cb_at_map split: option.split)
  have at: "cb_at i (pc_buffers c) = Some b" and len: "length (pc_buffers c) = length bs" using d by (simp_all add: bs_def)
  show ?thesis
  proof (cases "cb_count b' = 0 \<and> 1 < length bs")
    case False
    then have "freeBloc bl (pc_buffers c) = Inr bs" using at by (auto simp: freeBloc_def i_def [symmetric] b'_def [symmetric] bs_def [symmetric] Let_def len)
    with \<open>client_inv c' T' S\<close> same show ?thesis by (intro exI [where x = bs] exI [where x = T']) (simp add: c'_def)
  next
    case True
    then obtain f fb rest where f: "bs = (f, fb) # rest" by (cases bs) auto
    have "cb_count fb = 0"
    proof (cases "f = i")
      case True
      then have "fb = b'" using f by (auto simp: bs_def)
      with \<open>cb_count b' = 0 \<and> 1 < length bs\<close> show ?thesis by simp
    next
      case False
      have "sorted_wrt (<) (map fst bs)" using inv ids by (simp add: client_inv_def)
      moreover have "i \<in> fst ` set bs" using b ids by (metis fst_conv image_eqI list.set_map)
      ultimately have "f < i" using f False by auto
      moreover have "\<forall>x\<in>set bls. i \<le> bl_buffer x" using inv bls by (auto simp: client_inv_def i_def)
      ultimately have "in_buffer f bls = []" by (auto simp: in_buffer_def filter_empty_conv)
      then show ?thesis using empty_buffer [OF \<open>client_inv c' T' S\<close>, of f fb] f by (simp add: c'_def)
    qed
    from delete_front_ok [OF \<open>client_inv c' T' S\<close> _ this, of f rest] f
    have del: "delete_front bs = Inr rest" "client_inv (c\<lparr>pc_blocs := bls, pc_buffers := rest\<rparr>) T' S"
      "\<forall>x\<in>set bls. bloc_bytes rest x = bloc_bytes bs x" by (simp_all add: c'_def)
    have "freeBloc bl (pc_buffers c) = delete_front bs" using at True by (simp add: freeBloc_def i_def [symmetric] b'_def [symmetric] bs_def [symmetric] Let_def len)
    with del same show ?thesis by (intro exI [where x = rest] exI [where x = T']) simp
  qed
qed

lemma free_until_ok:
  assumes "client_inv c T S" "pc_blocs c = pre @ bl # rest"
  shows "\<exists>bs T'. free_until (bl_addr bl) (pc_blocs c) (pc_buffers c) = Inr (rest, bs)
    \<and> client_inv (c\<lparr>pc_blocs := rest, pc_buffers := bs\<rparr>) T' S \<and> (\<forall>x\<in>set rest. bloc_bytes bs x = bloc_bytes (pc_buffers c) x)"
  using assms
proof (induction pre arbitrary: c T)
  case Nil
  then show ?case using freeBloc_ok [OF Nil(1), of bl rest] by auto
next
  case (Cons x pre)
  obtain bs T' where bs: "freeBloc x (pc_buffers c) = Inr bs" "client_inv (c\<lparr>pc_blocs := pre @ bl # rest, pc_buffers := bs\<rparr>) T' S"
    "\<forall>y\<in>set (pre @ bl # rest). bloc_bytes bs y = bloc_bytes (pc_buffers c) y"
    using freeBloc_ok [OF Cons.prems(1)] Cons.prems(2) by fastforce
  have "bl_addr bl \<noteq> bl_addr x" using blocs_distinct [OF Cons.prems(1)] Cons.prems(2) by auto
  with Cons.IH [OF bs(2)] bs Cons.prems(2) show ?case by auto
qed

end
