(* ===== verification/P2pServerProps.thy ===== *)
theory P2pServerProps
  imports P2pServer P2pClientProps
begin

text \<open>
  The server of one client: its ring buffers hold the blocks of the completed events and of the
  events that are on transfer, one behind the other, at the places where the client has them.
\<close>

section \<open>The invariant\<close>

definition as_sbloc :: "server_bloc \<Rightarrow> sbloc" where
  "as_sbloc bl = \<lparr>bl_addr = sl_addr bl, bl_buffer = sl_buffer bl, bl_start = sl_start bl, bl_count = sl_count bl,
     bl_window = sl_buffer bl\<rparr>"

lemma as_sbloc_simps [simp]: "bl_buffer (as_sbloc bl) = sl_buffer bl" "bl_start (as_sbloc bl) = sl_start bl"
  "bl_count (as_sbloc bl) = sl_count bl"
  by (simp_all add: as_sbloc_def)

definition event_blocs :: "(nat, server_bloc list) std_map \<Rightarrow> server_bloc list" where
  "event_blocs m = concat (map snd m)"

definition server_blocs :: "p2p_server \<Rightarrow> server_bloc list" where
  "server_blocs s = event_blocs (ps_completed s) @ event_blocs (ps_onTransfer s)"

text \<open>Of buffer \<open>w\<close>, \<open>T w\<close> bytes were freed, \<open>H w\<close> reserved, and \<open>S w\<close> have arrived.\<close>

definition sb_ok :: "sbuffer \<Rightarrow> nat \<Rightarrow> nat \<Rightarrow> byte list \<Rightarrow> bool" where
  "sb_ok b T H S \<longleftrightarrow> ring (sb_size b) (sb_start b) (sb_end b) (sb_count b) T H \<and> holds (sb_mem b) (sb_size b) T S
     \<and> T \<le> length S \<and> length S \<le> H"

definition inv_over :: "p2p_server \<Rightarrow> server_bloc list \<Rightarrow> (int \<Rightarrow> nat) \<Rightarrow> (int \<Rightarrow> nat) \<Rightarrow> (int \<Rightarrow> byte list) \<Rightarrow> bool" where
  "inv_over s bls T H S \<longleftrightarrow>
     (\<forall>w b. buffer_at w s = Some b \<longrightarrow> sb_ok b (T w) (H w) (S w)
        \<and> chain (sb_size b) (T w) (in_buffer w (map as_sbloc bls)) (H w))
   \<and> (\<forall>w. ps_deleted s + int (length (ps_buffers s)) \<le> w \<longrightarrow> T w = 0 \<and> H w = 0 \<and> S w = [])
   \<and> sorted (map sl_buffer bls)
   \<and> (\<forall>bl\<in>set bls. buffer_at (sl_buffer bl) s \<noteq> None)"

abbreviation server_inv :: "p2p_server \<Rightarrow> (int \<Rightarrow> nat) \<Rightarrow> (int \<Rightarrow> nat) \<Rightarrow> (int \<Rightarrow> byte list) \<Rightarrow> bool" where
  "server_inv s \<equiv> inv_over s (server_blocs s)"

lemma server_invD:
  assumes "inv_over s bls T H S" "buffer_at w s = Some b"
  shows "sb_ok b (T w) (H w) (S w)" "chain (sb_size b) (T w) (in_buffer w (map as_sbloc bls)) (H w)"
  using assms by (auto simp: inv_over_def)

lemma buffer_at_Some: "buffer_at w s = Some b \<longleftrightarrow> 0 \<le> w - ps_deleted s \<and> w - ps_deleted s < int (length (ps_buffers s))
    \<and> b = ps_buffers s ! nat (w - ps_deleted s)"
  by (auto simp: buffer_at_def)

lemma buffer_at_frame [simp]: "buffer_at w (s\<lparr>ps_pendingBlocs := x1\<rparr>) = buffer_at w s"
  "buffer_at w (s\<lparr>ps_pendingRma := x2\<rparr>) = buffer_at w s" "buffer_at w (s\<lparr>ps_completed := x3\<rparr>) = buffer_at w s"
  "buffer_at w (s\<lparr>ps_onTransfer := x4\<rparr>) = buffer_at w s" "buffer_at w (s\<lparr>ps_nbSenders := x5\<rparr>) = buffer_at w s"
  by (simp_all add: buffer_at_def)

lemma buffer_at_set: "buffer_at w s = Some x \<Longrightarrow> buffer_at v (set_buffer w b s) = (if v = w then Some b else buffer_at v s)"
  by (auto simp: buffer_at_def set_buffer_def nth_list_update)

lemma set_buffer_simps [simp]: "ps_deleted (set_buffer w b s) = ps_deleted s" "length (ps_buffers (set_buffer w b s)) = length (ps_buffers s)"
  "ps_completed (set_buffer w b s) = ps_completed s" "ps_onTransfer (set_buffer w b s) = ps_onTransfer s"
  "ps_pendingRma (set_buffer w b s) = ps_pendingRma s" "ps_bufferResize (set_buffer w b s) = ps_bufferResize s"
  "ps_pendingBlocs (set_buffer w b s) = ps_pendingBlocs s" "server_blocs (set_buffer w b s) = server_blocs s"
  "ps_nbSenders (set_buffer w b s) = ps_nbSenders s" "ps_clientRank (set_buffer w b s) = ps_clientRank s"
  by (simp_all add: set_buffer_def server_blocs_def)

lemma transferRma_simps [simp]: "ps_deleted (transferRmaRequest t a w st k s) = ps_deleted s"
  "ps_buffers (transferRmaRequest t a w st k s) = ps_buffers s" "ps_completed (transferRmaRequest t a w st k s) = ps_completed s"
  "ps_bufferResize (transferRmaRequest t a w st k s) = ps_bufferResize s" "ps_nbSenders (transferRmaRequest t a w st k s) = ps_nbSenders s"
  "ps_pendingBlocs (transferRmaRequest t a w st k s) = ps_pendingBlocs s" "ps_clientRank (transferRmaRequest t a w st k s) = ps_clientRank s"
  "ps_pendingRma (transferRmaRequest t a w st k s) = ps_pendingRma s @ [(w, st, k)]"
  "buffer_at v (transferRmaRequest t a w st k s) = buffer_at v s"
  by (simp_all add: transferRmaRequest_def buffer_at_def)

section \<open>Reserving the place of a block\<close>

text \<open>A block that lies in one piece in the ring and leaves one byte of it unused, once something
  was freed, goes to the place that follows from what was reserved before; an end behind the last
  byte comes round first.\<close>

definition room :: "nat \<Rightarrow> nat \<Rightarrow> nat \<Rightarrow> bool" where
  "room sz T H \<longleftrightarrow> (if T = 0 then H \<le> sz else H < T + sz)"

lemma room_le: "room sz T H \<Longrightarrow> H' \<le> H \<Longrightarrow> room sz T H'"
  by (auto simp: room_def split: if_splits)

lemma reserve_ok:
  assumes r: "ring (sb_size b) (sb_start b) (sb_end b) (sb_count b) T H" and k: "0 < k" "H mod sb_size b + k \<le> sb_size b"
    and room: "room (sb_size b) T (H + k)" and e: "sb_end b < sb_size b"
  shows "sb_reserve k b = Inr (0, (H mod sb_size b, k), b\<lparr>sb_end := sb_end b + k, sb_count := sb_count b + k\<rparr>)
     \<and> ring (sb_size b) (sb_start b) (sb_end b + k) (sb_count b + k) T (H + k)"
proof -
  let ?sz = "sb_size b" and ?e = "sb_end b" and ?s = "sb_start b"
  have em: "?e = H mod ?sz" using r e by (auto simp: ring_def)
  have "k \<le> ?s - ?e \<and> ?e < ?s \<or> ?s < ?e \<and> k \<le> ?sz - ?e"
  proof (cases "T = 0")
    case True
    then have "?s = ?sz" using r by (simp add: ring_def)
    then show ?thesis using k em e by simp
  next
    case False
    have "T \<le> H" using r by (simp add: ring_def)
    then show ?thesis using ring_lap [OF r] False k room em by (auto simp: room_def)
  qed
  then have "sb_reserve k b = Inr (0, (?e, k), b\<lparr>sb_end := ?e + k, sb_count := sb_count b + k\<rparr>)"
    by (auto simp: sb_reserve_def)
  moreover have "ring ?sz ?s (?e + k) (sb_count b + k) T (H + k)"
    using ring_advance [OF r e, of k] k(2) em room by (auto simp: room_def split: if_splits)
  ultimately show ?thesis using em by simp
qed

lemma reserve_round:
  assumes r: "ring (sb_size b) (sb_start b) (sb_size b) (sb_count b) T H" "sb_end b = sb_size b" and k: "0 < k"
    and room: "room (sb_size b) T (H + k)"
  shows "sb_reserve k b = Inr (k, (0, 0), b\<lparr>sb_end := 0\<rparr>) \<and> ring (sb_size b) (sb_start b) 0 (sb_count b) T H \<and> 0 < sb_size b"
proof -
  have T: "0 < T" using r k room by (auto simp: ring_def room_def split: if_splits)
  then have "sb_start b < sb_size b" using ring_end_le [OF r(1)] by simp
  then have "sb_reserve k b = Inr (k, (0, 0), b\<lparr>sb_end := 0\<rparr>)" using r(2) k by (simp add: sb_reserve_def)
  moreover have "0 < sb_size b" using r(1) by (simp add: ring_def)
  ultimately show ?thesis using ring_wrap [OF r(1) T] by simp
qed

lemma mirror_buffer_there [simp]: "buffer_at w s = Some b \<Longrightarrow> mirror_buffer t w s = s"
  by (simp add: mirror_buffer_def)

lemma set_buffer_twice: "buffer_at w s = Some x \<Longrightarrow> set_buffer w b (set_buffer w b' s) = set_buffer w b s"
  by (simp add: set_buffer_def)

lemma reserve_loop_ok:
  assumes b: "buffer_at w s = Some b" and r: "ring (sb_size b) (sb_start b) (sb_end b) (sb_count b) T H"
    and k: "0 < k" "H mod sb_size b + k \<le> sb_size b" and room: "room (sb_size b) T (H + k)"
  shows "\<exists>b'. reserve_loop t a w k s = Some (Inr (transferRmaRequest t a w (H mod sb_size b) k (set_buffer w b' s)))
    \<and> ring (sb_size b) (sb_start b') (sb_end b') (sb_count b') T (H + k) \<and> sb_size b' = sb_size b \<and> sb_mem b' = sb_mem b"
proof -
  have le: "sb_end b \<le> sb_size b" using ring_end_le [OF r] by simp
  have final: ?thesis if r': "ring (sb_size b) (sb_start b) e (sb_count b) T H" and e: "e < sb_size b"
    and loop: "reserve_loop t a w k s = reserve_loop t a w k (set_buffer w (b\<lparr>sb_end := e\<rparr>) s)" for e
  proof -
    have at: "buffer_at w (set_buffer w (b\<lparr>sb_end := e\<rparr>) s) = Some (b\<lparr>sb_end := e\<rparr>)" using buffer_at_set [OF b] by simp
    define b' where "b' = b\<lparr>sb_end := e + k, sb_count := sb_count b + k\<rparr>"
    have "sb_reserve k (b\<lparr>sb_end := e\<rparr>) = Inr (0, (H mod sb_size b, k), b')"
      "ring (sb_size b) (sb_start b) (e + k) (sb_count b + k) T (H + k)"
      using reserve_ok [of "b\<lparr>sb_end := e\<rparr>" T H k] r' k room e by (simp_all add: b'_def)
    then show ?thesis
      using loop k(1) by (intro exI [where x = b']) (simp add: reserve_loop.simps [of t a w k "set_buffer w (b\<lparr>sb_end := e\<rparr>) s"] at Let_def
          set_buffer_twice [OF b] b'_def)
  qed
  show ?thesis
  proof (cases "sb_end b < sb_size b")
    case True
    have "set_buffer w (b\<lparr>sb_end := sb_end b\<rparr>) s = s" using b by (simp add: set_buffer_def buffer_at_Some)
    with final [OF r True] show ?thesis by simp
  next
    case False
    then have e: "sb_end b = sb_size b" using le by simp
    have "sb_reserve k b = Inr (k, (0, 0), b\<lparr>sb_end := 0\<rparr>)" "ring (sb_size b) (sb_start b) 0 (sb_count b) T H" "0 < sb_size b"
      using reserve_round [of b T H k] r k room e by simp_all
    moreover from this(1) have "reserve_loop t a w k s = reserve_loop t a w k (set_buffer w (b\<lparr>sb_end := 0\<rparr>) s)"
      using k(1) by (subst reserve_loop.simps) (simp add: b Let_def)
    ultimately show ?thesis using final [of 0] by simp
  qed
qed

text \<open>A full ring passes for one with room behind its end, and then the loop never ends.\<close>

lemma reserve_loop_returns:
  assumes "reserve_loop t a w k s = Some r" "buffer_at w s = Some b" "0 < k"
  shows "sb_end b \<noteq> sb_start b"
proof -
  have "buffer_at w s = Some b \<longrightarrow> 0 < k \<longrightarrow> sb_end b \<noteq> sb_start b"
  proof (rule reserve_loop.raw_induct [OF _ assms(1)], goal_cases)
    case (1 loop t a w k s r)
    show ?case
    proof (intro impI notI)
      assume b: "buffer_at w s = Some b" "0 < k" "sb_end b = sb_start b"
      have "set_buffer w b s = s" using b(1) by (simp add: set_buffer_def buffer_at_Some)
      then have "loop t a w k s = Some r" using 1(2) b by (simp add: Let_def sb_reserve_def)
      with 1(1) b show False by blast
    qed
  qed
  with assms(2,3) show ?thesis by blast
qed

lemma reserve_loop_full: "buffer_at w s = Some b \<Longrightarrow> sb_end b = sb_start b \<Longrightarrow> 0 < k \<Longrightarrow> reserve_loop t a w k s = None"
  using reserve_loop_returns by (cases "reserve_loop t a w k s") blast+

section \<open>Transferring an event\<close>

text \<open>The blocks of a message lie where the bytes that were reserved before put them.\<close>

fun places :: "(int \<Rightarrow> nat) \<Rightarrow> (int \<Rightarrow> nat) \<Rightarrow> bloc_msg list \<Rightarrow> bool" where
  "places sz H [] = True"
| "places sz H ((a, k, w, st) # blocs) = (0 < k \<and> st = H w mod sz w \<and> st + k \<le> sz w \<and> places sz (H(w := H w + k)) blocs)"

definition reserved :: "(int \<Rightarrow> nat) \<Rightarrow> bloc_msg list \<Rightarrow> int \<Rightarrow> nat" where
  "reserved H blocs = fold (\<lambda>(a, k, w, st) H. H(w := H w + k)) blocs H"

definition msg_window :: "bloc_msg \<Rightarrow> int" where "msg_window = (\<lambda>(a, k, w, st). w)"

definition msg_place :: "bloc_msg \<Rightarrow> int \<times> nat \<times> nat" where "msg_place = (\<lambda>(a, k, w, st). (w, st, k))"

definition msg_bloc :: "bloc_msg \<Rightarrow> server_bloc" where
  "msg_bloc = (\<lambda>(a, k, w, st). \<lparr>sl_buffer = w, sl_start = st, sl_count = k, sl_addr = a\<rparr>)"

lemma reserved_simps [simp]: "reserved H [] = H" "reserved H ((a, k, w, st) # blocs) = reserved (H(w := H w + k)) blocs"
  by (simp_all add: reserved_def)

lemma reserved_le: "H w \<le> reserved H blocs w"
proof (induction blocs arbitrary: H)
  case (Cons m blocs)
  obtain a k v st where m: "m = (a, k, v, st)" by (metis prod_cases4)
  have "H w \<le> (H(v := H v + k)) w" by simp
  also have "\<dots> \<le> reserved (H(v := H v + k)) blocs w" by (rule Cons.IH)
  finally show ?case by (simp add: m)
qed simp

lemma bloc_entry_simps [simp]: "msg_window (a, k, w, st) = w" "msg_place (a, k, w, st) = (w, st, k)"
  "msg_bloc (a, k, w, st) = \<lparr>sl_buffer = w, sl_start = st, sl_count = k, sl_addr = a\<rparr>"
  by (simp_all add: msg_window_def msg_place_def msg_bloc_def)

text \<open>Where the buffer of a window is, or comes from.\<close>

definition window_of :: "nat \<Rightarrow> p2p_server \<Rightarrow> int \<Rightarrow> nat \<Rightarrow> bool" where
  "window_of t s w sz \<longleftrightarrow> (case buffer_at w s of Some b \<Rightarrow> sb_size b = sz
     | None \<Rightarrow> w = ps_deleted s + int (length (ps_buffers s)) \<and> 0 < sz \<and> sz < 2 ^ 63 \<and> (\<exists>rs. ps_bufferResize s = (t, sz) # rs))"

lemma new_sbuffer_ok: "0 < sz \<Longrightarrow> sz < 2 ^ 63 \<Longrightarrow> sb_ok (new_sbuffer sz) 0 0 []"
  by (simp add: sb_ok_def new_sbuffer_def ring_new holds_def)

lemma buffer_at_new:
  "buffer_at v (ps_newBuffer sz s) = (if v = ps_deleted s + int (length (ps_buffers s)) then Some (new_sbuffer sz) else buffer_at v s)"
  by (auto simp: buffer_at_def ps_newBuffer_def nth_append)

lemma server_blocs_windows:
  assumes "server_inv s T H S" "buffer_at w s = None"
  shows "in_buffer w (map as_sbloc (server_blocs s)) = []"
  using assms by (auto simp: in_buffer_def inv_over_def filter_empty_conv)

lemma mirror_buffer_ok:
  assumes inv: "server_inv s T H S" and w: "window_of t s w sz"
  shows "\<exists>b. buffer_at w (mirror_buffer t w s) = Some b \<and> sb_size b = sz" and "server_inv (mirror_buffer t w s) T H S"
    and "buffer_at v s = Some b \<Longrightarrow> buffer_at v (mirror_buffer t w s) = Some b"
    and "server_blocs (mirror_buffer t w s) = server_blocs s" "ps_completed (mirror_buffer t w s) = ps_completed s"
      "ps_onTransfer (mirror_buffer t w s) = ps_onTransfer s" "ps_pendingRma (mirror_buffer t w s) = ps_pendingRma s"
      "ps_pendingBlocs (mirror_buffer t w s) = ps_pendingBlocs s" "ps_nbSenders (mirror_buffer t w s) = ps_nbSenders s"
      "ps_clientRank (mirror_buffer t w s) = ps_clientRank s" "ps_deleted (mirror_buffer t w s) = ps_deleted s"
proof -
  show "server_blocs (mirror_buffer t w s) = server_blocs s" "ps_completed (mirror_buffer t w s) = ps_completed s"
    "ps_onTransfer (mirror_buffer t w s) = ps_onTransfer s" "ps_pendingRma (mirror_buffer t w s) = ps_pendingRma s"
    "ps_pendingBlocs (mirror_buffer t w s) = ps_pendingBlocs s" "ps_nbSenders (mirror_buffer t w s) = ps_nbSenders s"
    "ps_clientRank (mirror_buffer t w s) = ps_clientRank s" "ps_deleted (mirror_buffer t w s) = ps_deleted s"
    by (auto simp: mirror_buffer_def ps_newBuffer_def server_blocs_def split: list.split)
  have "(\<exists>b. buffer_at w (mirror_buffer t w s) = Some b \<and> sb_size b = sz) \<and> server_inv (mirror_buffer t w s) T H S
    \<and> (buffer_at v s = Some b \<longrightarrow> buffer_at v (mirror_buffer t w s) = Some b)"
  proof (cases "buffer_at w s")
    case (Some x)
    with inv w show ?thesis by (simp add: window_of_def)
  next
    case None
    then obtain rs where n: "w = ps_deleted s + int (length (ps_buffers s))" "0 < sz" "sz < 2 ^ 63" "ps_bufferResize s = (t, sz) # rs"
      using w by (auto simp: window_of_def)
    define s' where "s' = ps_newBuffer sz (s\<lparr>ps_currentBufferSize := sz, ps_bufferResize := rs\<rparr>)"
    have m: "mirror_buffer t w s = s'" using None n by (simp add: mirror_buffer_def s'_def)
    have at: "buffer_at v s' = (if v = w then Some (new_sbuffer sz) else buffer_at v s)" for v
      using buffer_at_new [of v sz "s\<lparr>ps_currentBufferSize := sz, ps_bufferResize := rs\<rparr>"] n(1)
      by (simp add: s'_def buffer_at_def)
    have f: "server_blocs s' = server_blocs s" "ps_deleted s' = ps_deleted s" "length (ps_buffers s') = Suc (length (ps_buffers s))"
      by (simp_all add: s'_def ps_newBuffer_def server_blocs_def)
    have z: "T w = 0" "H w = 0" "S w = []" using inv n(1) by (simp_all add: inv_over_def)
    have "chain sz (T w) (in_buffer w (map as_sbloc (server_blocs s))) (H w)" using server_blocs_windows [OF inv None] z by simp
    then have "\<forall>v b. buffer_at v s' = Some b \<longrightarrow> sb_ok b (T v) (H v) (S v) \<and> chain (sb_size b) (T v) (in_buffer v (map as_sbloc (server_blocs s'))) (H v)"
      using server_invD [OF inv] new_sbuffer_ok [OF n(2,3)] z by (auto simp: at f new_sbuffer_def split: if_splits)
    moreover have "\<forall>bl\<in>set (server_blocs s'). buffer_at (sl_buffer bl) s' \<noteq> None" using inv by (simp add: at f inv_over_def)
    ultimately have "server_inv s' T H S" using inv n(1) unfolding inv_over_def f by simp
    then show ?thesis using None by (auto simp: m at new_sbuffer_def)
  qed
  then show "\<exists>b. buffer_at w (mirror_buffer t w s) = Some b \<and> sb_size b = sz" "server_inv (mirror_buffer t w s) T H S"
    "buffer_at v s = Some b \<Longrightarrow> buffer_at v (mirror_buffer t w s) = Some b" by blast+
qed

end
