(* ===== verification/P2pTransfer.thy ===== *)
theory P2pTransfer
  imports P2pServerProps
begin

text \<open>
  The way of an event through a server: its blocks are transferred to the places the client has them
  at, arrive there, and leave, in the order of the events, as the bytes of the event.
\<close>

section \<open>Transfer\<close>

text \<open>What an operation of the transfer leaves alone.\<close>

definition kept :: "p2p_server \<Rightarrow> p2p_server \<Rightarrow> bool" where
  "kept s s' \<longleftrightarrow> ps_completed s' = ps_completed s \<and> ps_pendingBlocs s' = ps_pendingBlocs s \<and> ps_nbSenders s' = ps_nbSenders s
     \<and> ps_clientRank s' = ps_clientRank s \<and> ps_deleted s' = ps_deleted s"

text \<open>Whether the server made a buffer for one of the windows.\<close>

definition one_more :: "int set \<Rightarrow> p2p_server \<Rightarrow> p2p_server \<Rightarrow> bool" where
  "one_more W s s' \<longleftrightarrow> (if \<forall>w\<in>W. buffer_at w s \<noteq> None
     then length (ps_buffers s') = length (ps_buffers s) \<and> ps_bufferResize s' = ps_bufferResize s
     else length (ps_buffers s') = Suc (length (ps_buffers s)) \<and> ps_bufferResize s' = tl (ps_bufferResize s))"

definition sizes_kept :: "p2p_server \<Rightarrow> p2p_server \<Rightarrow> bool" where
  "sizes_kept s s' \<longleftrightarrow> (\<forall>v k. map_option sb_size (buffer_at v s) = Some k \<longrightarrow> map_option sb_size (buffer_at v s') = Some k)"

definition on_transfer :: "nat \<Rightarrow> server_bloc list \<Rightarrow> (nat, server_bloc list) std_map" where
  "on_transfer t bls = (if bls = [] then [] else [(t, bls)])"

lemma on_transfer_blocs [simp]: "event_blocs (on_transfer t bls) = bls"
  by (simp add: on_transfer_def event_blocs_def)

lemma reserve_loop_mirror:
  "buffer_at w (mirror_buffer t w s) = Some b \<Longrightarrow> reserve_loop t a w k s = reserve_loop t a w k (mirror_buffer t w s)"
  by (subst (1 2) reserve_loop.simps) simp

lemma transfer_bloc_ok:
  assumes inv: "server_inv s T H S" and w: "window_of t s w sz" and k: "0 < k" "H w mod sz + k \<le> sz"
    and room: "room sz (T w) (H w + k)" and ord: "\<forall>bl\<in>set (server_blocs s). sl_buffer bl \<le> w"
    and on: "ps_onTransfer s = on_transfer t bls"
  shows "\<exists>s'. transfer_bloc t (a, k, w, H w mod sz) s = Inr s' \<and> server_inv s' T (H(w := H w + k)) S \<and> kept s s'
    \<and> ps_pendingRma s' = ps_pendingRma s @ [(w, H w mod sz, k)]
    \<and> ps_onTransfer s' = on_transfer t (bls @ [msg_bloc (a, k, w, H w mod sz)])
    \<and> (\<forall>v sz. window_of t s v sz \<longrightarrow> v \<noteq> w \<longrightarrow> buffer_at v s \<noteq> None \<or> buffer_at w s \<noteq> None \<longrightarrow> window_of t s' v sz) \<and> window_of t s' w sz
    \<and> sizes_kept s s' \<and> map_option sb_size (buffer_at w s') = Some sz \<and> one_more {w} s s'"
proof -
  define s1 where "s1 = mirror_buffer t w s"
  note m = mirror_buffer_ok [OF inv w, folded s1_def]
  obtain b where b: "buffer_at w s1 = Some b" "sb_size b = sz" using m(1) by blast
  note d = server_invD [OF m(2) b(1)]
  have r: "ring (sb_size b) (sb_start b) (sb_end b) (sb_count b) (T w) (H w)" using d(1) by (simp add: sb_ok_def)
  obtain b' where b': "reserve_loop t a w k s1 = Some (Inr (transferRmaRequest t a w (H w mod sz) k (set_buffer w b' s1)))"
    "ring sz (sb_start b') (sb_end b') (sb_count b') (T w) (H w + k)" "sb_size b' = sz" "sb_mem b' = sb_mem b"
    using reserve_loop_ok [OF b(1) r k(1), of t a] k(2) room b(2) by auto
  define bl where "bl = msg_bloc (a, k, w, H w mod sz)"
  define s' where "s' = transferRmaRequest t a w (H w mod sz) k (set_buffer w b' s1)"
  have at: "buffer_at v s' = (if v = w then Some b' else buffer_at v s1)" for v
    using buffer_at_set [OF b(1), of v b'] by (simp add: s'_def)
  have on': "ps_onTransfer s' = on_transfer t (bls @ [bl])"
    using on m(6) by (simp add: s'_def transferRmaRequest_def on_transfer_def std_at_def bl_def)
  have bls: "server_blocs s' = server_blocs s @ [bl]"
    using on on' m(5) by (simp add: server_blocs_def s'_def)
  have f: "ps_deleted s' = ps_deleted s1" "length (ps_buffers s') = length (ps_buffers s1)" by (simp_all add: s'_def)
  have "server_inv s' T (H(w := H w + k)) S"
    unfolding inv_over_def f
  proof (intro conjI allI impI)
    fix v x assume x: "buffer_at v s' = Some x"
    have d': "sb_ok x (T v) (H v) (S v) \<and> chain (sb_size x) (T v) (in_buffer v (map as_sbloc (server_blocs s))) (H v)" if "v \<noteq> w"
      using server_invD [OF m(2)] x that m(4) by (simp add: at)
    have "sb_ok b' (T w) (H w + k) (S w)" using d(1) b b' by (simp add: sb_ok_def)
    then show "sb_ok x (T v) ((H(w := H w + k)) v) (S v)" using d' x by (cases "v = w") (auto simp: at)
    have "chain sz (T w) (in_buffer w (map as_sbloc (server_blocs s)) @ [as_sbloc bl]) (H w + k)"
      using d(2) b(2) k m(4) by (auto simp: chain_append bl_def)
    then show "chain (sb_size x) (T v) (in_buffer v (map as_sbloc (server_blocs s'))) ((H(w := H w + k)) v)"
      using d' x b' by (cases "v = w") (auto simp: at bls bl_def)
  next
    show "sorted (map sl_buffer (server_blocs s'))" using m(2,4) ord by (auto simp: bls bl_def inv_over_def sorted_append)
    show "\<forall>bl\<in>set (server_blocs s'). buffer_at (sl_buffer bl) s' \<noteq> None"
      using m(2,4) by (auto simp: bls at bl_def inv_over_def)
  next
    fix v assume v: "ps_deleted s1 + int (length (ps_buffers s1)) \<le> v"
    have "w < ps_deleted s1 + int (length (ps_buffers s1))" using b(1) by (simp add: buffer_at_Some)
    then have "v \<noteq> w" using v by simp
    then show "T v = 0" "(H(w := H w + k)) v = 0" "S v = []" using m(2) v by (simp_all add: inv_over_def)
  qed
  moreover have "transfer_bloc t (a, k, w, H w mod sz) s = Inr s'"
    using reserve_loop_mirror [of w t s b a k] b(1) b'(1) by (simp add: transfer_bloc_def s'_def s1_def)
  moreover have "kept s s'" using m by (simp add: kept_def s'_def)
  moreover have "\<forall>v sz. window_of t s v sz \<longrightarrow> v \<noteq> w \<longrightarrow> buffer_at v s \<noteq> None \<or> buffer_at w s \<noteq> None \<longrightarrow> window_of t s' v sz"
  proof (intro allI impI)
    fix v sz assume v: "window_of t s v sz" "v \<noteq> w" "buffer_at v s \<noteq> None \<or> buffer_at w s \<noteq> None"
    show "window_of t s' v sz"
    proof (cases "buffer_at w s")
      case None
      then show ?thesis using v m(3) by (auto simp: window_of_def at)
    next
      case (Some x)
      then have e: "s1 = s" by (simp add: s1_def)
      have "ps_bufferResize s' = ps_bufferResize s1" by (simp add: s'_def)
      with v f show ?thesis unfolding window_of_def at e by (cases "buffer_at v s") simp_all
    qed
  qed
  moreover have "sizes_kept s s'"
    unfolding sizes_kept_def
  proof (intro allI impI)
    fix v k assume "map_option sb_size (buffer_at v s) = Some k"
    then obtain x where x: "buffer_at v s1 = Some x" "sb_size x = k" using m(3) by auto
    with b b'(3) show "map_option sb_size (buffer_at v s') = Some k" by (cases "v = w") (auto simp: at)
  qed
  moreover have "one_more {w} s s'"
  proof (cases "buffer_at w s")
    case None
    then obtain rs where rs: "ps_bufferResize s = (t, sz) # rs" using w by (auto simp: window_of_def)
    have "ps_bufferResize s' = ps_bufferResize s1" by (simp add: s'_def)
    with None rs f show ?thesis by (simp add: one_more_def s1_def mirror_buffer_def ps_newBuffer_def)
  next
    case (Some x)
    then have e: "s1 = s" by (simp add: s1_def)
    have "ps_bufferResize s' = ps_bufferResize s1" by (simp add: s'_def)
    with Some f show ?thesis unfolding one_more_def e by simp
  qed
  ultimately show ?thesis using on' m(7) b'(3) by (intro exI [where x = s']) (simp add: bl_def s'_def window_of_def buffer_at_set [OF b(1)])
qed

lemma buffer_at_None: "buffer_at w s = None \<longleftrightarrow> \<not> (ps_deleted s \<le> w \<and> w < ps_deleted s + int (length (ps_buffers s)))"
  by (auto simp: buffer_at_def)

lemma one_more_trans:
  assumes 1: "one_more {w} s s1" and 2: "one_more W s1 s2" and d: "ps_deleted s1 = ps_deleted s"
    and W: "\<forall>v\<in>insert w W. buffer_at v s = None \<longrightarrow> v = ps_deleted s + int (length (ps_buffers s))"
  shows "one_more (insert w W) s s2"
proof (cases "buffer_at w s = None")
  case True
  then have w: "w = ps_deleted s + int (length (ps_buffers s))" using W by blast
  have l: "length (ps_buffers s1) = Suc (length (ps_buffers s))" "ps_bufferResize s1 = tl (ps_bufferResize s)"
    using 1 True by (simp_all add: one_more_def)
  have "buffer_at v s1 \<noteq> None" if v: "v \<in> W" for v
  proof (cases "buffer_at v s = None")
    case True
    then have "v = ps_deleted s + int (length (ps_buffers s))" using W v by blast
    then show ?thesis using l(1) d by (simp add: buffer_at_def)
  next
    case False
    then show ?thesis unfolding buffer_at_None l(1) d by simp
  qed
  with 2 True l show ?thesis by (simp add: one_more_def)
next
  case False
  then have l: "length (ps_buffers s1) = length (ps_buffers s)" "ps_bufferResize s1 = ps_bufferResize s"
    using 1 by (simp_all add: one_more_def)
  have "buffer_at v s1 = None \<longleftrightarrow> buffer_at v s = None" for v unfolding buffer_at_None l(1) d by (rule refl)
  with 2 False l show ?thesis by (simp add: one_more_def)
qed

text \<open>The blocks of an event, whose windows come in order.\<close>

lemma transferEvent_ok:
  assumes "server_inv s T H S" "places sz H blocs" "sorted (map msg_window blocs)"
    and "\<forall>bl\<in>set (server_blocs s). \<forall>m\<in>set blocs. sl_buffer bl \<le> msg_window m"
    and "\<forall>m\<in>set blocs. room (sz (msg_window m)) (T (msg_window m)) (reserved H blocs (msg_window m)) \<and> window_of t s (msg_window m) (sz (msg_window m))"
    and "ps_onTransfer s = on_transfer t bls"
  shows "\<exists>s'. transferEvent t blocs s = Inr s' \<and> server_inv s' T (reserved H blocs) S \<and> kept s s'
    \<and> ps_pendingRma s' = ps_pendingRma s @ map msg_place blocs \<and> ps_onTransfer s' = on_transfer t (bls @ map msg_bloc blocs) \<and> sizes_kept s s' \<and> one_more (msg_window ` set blocs) s s'
    \<and> (\<forall>m\<in>set blocs. map_option sb_size (buffer_at (msg_window m) s') = Some (sz (msg_window m)))"
  using assms
proof (induction blocs arbitrary: s H bls)
  case Nil
  then show ?case by (simp add: transferEvent_def kept_def sizes_kept_def one_more_def)
next
  case (Cons m blocs)
  obtain a k w st where m: "m = (a, k, w, st)" by (metis prod_cases4)
  let ?H = "H(w := H w + k)"
  have pl: "0 < k" "st = H w mod sz w" "H w mod sz w + k \<le> sz w" "places sz ?H blocs" using Cons.prems(2) by (auto simp: m)
  have "room (sz w) (T w) (reserved ?H blocs w)" "window_of t s w (sz w)" using Cons.prems(5) by (simp_all add: m)
  moreover have "H w + k \<le> reserved ?H blocs w" using reserved_le [of ?H w blocs] by simp
  ultimately obtain s1 where s1: "transfer_bloc t m s = Inr s1" "server_inv s1 T ?H S" "kept s s1"
    "ps_pendingRma s1 = ps_pendingRma s @ [msg_place m]" "ps_onTransfer s1 = on_transfer t (bls @ [msg_bloc m])"
    "\<forall>v sz. window_of t s v sz \<longrightarrow> v \<noteq> w \<longrightarrow> buffer_at v s \<noteq> None \<or> buffer_at w s \<noteq> None \<longrightarrow> window_of t s1 v sz" "window_of t s1 w (sz w)" "sizes_kept s s1" "map_option sb_size (buffer_at w s1) = Some (sz w)" "one_more {w} s s1"
    using transfer_bloc_ok [OF Cons.prems(1) _ pl(1,3) _ _ Cons.prems(6), of a] Cons.prems(4) room_le pl(2) by (auto simp: m)
  have bls: "server_blocs s1 = server_blocs s @ [msg_bloc m]"
    using s1(3,5) Cons.prems(6) by (simp add: server_blocs_def kept_def)
  have sorted: "sorted (map msg_window blocs)" "\<forall>x\<in>set blocs. w \<le> msg_window x" using Cons.prems(3) by (simp_all add: m)
  have win: "window_of t s1 (msg_window x) (sz (msg_window x))" if x: "x \<in> set blocs" for x
  proof (cases "msg_window x = w")
    case False
    have wx: "window_of t s (msg_window x) (sz (msg_window x))" "window_of t s w (sz w)" using Cons.prems(5) x by (simp_all add: m)
    then have "buffer_at (msg_window x) s = None \<Longrightarrow> buffer_at w s = None \<Longrightarrow> msg_window x = w" by (simp add: window_of_def)
    with False have "buffer_at (msg_window x) s \<noteq> None \<or> buffer_at w s \<noteq> None" by blast
    with False wx(1) s1(6) show ?thesis by blast
  qed (use s1(7) in simp)
  have "\<exists>s'. transferEvent t blocs s1 = Inr s' \<and> server_inv s' T (reserved ?H blocs) S \<and> kept s1 s'
    \<and> ps_pendingRma s' = ps_pendingRma s1 @ map msg_place blocs \<and> ps_onTransfer s' = on_transfer t ((bls @ [msg_bloc m]) @ map msg_bloc blocs)
    \<and> sizes_kept s1 s' \<and> one_more (msg_window ` set blocs) s1 s' \<and> (\<forall>m\<in>set blocs. map_option sb_size (buffer_at (msg_window m) s') = Some (sz (msg_window m)))"
  proof (rule Cons.IH [OF s1(2) pl(4) sorted(1) _ _ s1(5)])
    show "\<forall>bl\<in>set (server_blocs s1). \<forall>x\<in>set blocs. sl_buffer bl \<le> msg_window x"
      using Cons.prems(4) sorted(2) by (auto simp: bls m)
    show "\<forall>x\<in>set blocs. room (sz (msg_window x)) (T (msg_window x)) (reserved ?H blocs (msg_window x)) \<and> window_of t s1 (msg_window x) (sz (msg_window x))"
      using Cons.prems(5) win by (simp add: m)
  qed
  then obtain s' where s': "transferEvent t blocs s1 = Inr s'" "server_inv s' T (reserved ?H blocs) S" "kept s1 s'"
    "ps_pendingRma s' = ps_pendingRma s1 @ map msg_place blocs" "ps_onTransfer s' = on_transfer t ((bls @ [msg_bloc m]) @ map msg_bloc blocs)"
    "sizes_kept s1 s'" "one_more (msg_window ` set blocs) s1 s'" "\<forall>m\<in>set blocs. map_option sb_size (buffer_at (msg_window m) s') = Some (sz (msg_window m))" by blast
  have "sizes_kept s s'" using s1(8) s'(6) unfolding sizes_kept_def by blast
  moreover have "map_option sb_size (buffer_at w s') = Some (sz w)" using s1(9) s'(6) unfolding sizes_kept_def by blast
  moreover have "one_more (insert w (msg_window ` set blocs)) s s'"
  proof (rule one_more_trans [OF s1(10) s'(7)])
    show "ps_deleted s1 = ps_deleted s" using s1(3) by (simp add: kept_def)
    show "\<forall>v\<in>insert w (msg_window ` set blocs). buffer_at v s = None \<longrightarrow> v = ps_deleted s + int (length (ps_buffers s))"
    proof (intro ballI impI)
      fix v assume "v \<in> insert w (msg_window ` set blocs)" "buffer_at v s = None"
      moreover from this have "window_of t s v (sz v)" using Cons.prems(5) by (auto simp: m)
      ultimately show "v = ps_deleted s + int (length (ps_buffers s))" by (simp add: window_of_def)
    qed
  qed
  ultimately show ?case using s1(1,3,4) s' by (intro exI [where x = s']) (simp add: transferEvent_def kept_def m)
qed

section \<open>Arrival\<close>

text \<open>The bytes at the place of a block.\<close>

definition server_bytes :: "p2p_server \<Rightarrow> server_bloc \<Rightarrow> byte list" where
  "server_bytes s bl = (case buffer_at (sl_buffer bl) s of None \<Rightarrow> [] | Some b \<Rightarrow> take (sl_count bl) (drop (sl_start bl) (sb_mem b)))"

text \<open>A block that has arrived, with its bytes.\<close>

definition bloc_at :: "p2p_server \<Rightarrow> (int \<Rightarrow> nat) \<Rightarrow> (int \<Rightarrow> byte list) \<Rightarrow> server_bloc \<Rightarrow> byte list \<Rightarrow> bool" where
  "bloc_at s T S bl xs \<longleftrightarrow> (\<exists>b m. buffer_at (sl_buffer bl) s = Some b \<and> T (sl_buffer bl) \<le> m
     \<and> m + sl_count bl \<le> length (S (sl_buffer bl)) \<and> xs = take (sl_count bl) (drop m (S (sl_buffer bl)))
     \<and> sl_start bl = m mod sb_size b \<and> sl_start bl + sl_count bl \<le> sb_size b)"

lemma bloc_at_bytes: "inv_over s bls T H S \<Longrightarrow> bloc_at s T S bl xs \<Longrightarrow> server_bytes s bl = xs"
proof -
  assume inv: "inv_over s bls T H S" and "bloc_at s T S bl xs"
  then obtain b m where b: "buffer_at (sl_buffer bl) s = Some b" "T (sl_buffer bl) \<le> m" "m + sl_count bl \<le> length (S (sl_buffer bl))"
    "xs = take (sl_count bl) (drop m (S (sl_buffer bl)))" "sl_start bl = m mod sb_size b" "sl_start bl + sl_count bl \<le> sb_size b"
    unfolding bloc_at_def by blast
  have "sb_ok b (T (sl_buffer bl)) (H (sl_buffer bl)) (S (sl_buffer bl))" using server_invD [OF inv b(1)] by blast
  then have h: "holds (sb_mem b) (sb_size b) (T (sl_buffer bl)) (S (sl_buffer bl))" "0 < sb_size b" by (simp_all add: sb_ok_def ring_def)
  show "server_bytes s bl = xs"
    using holds_read [OF h b(2,3)] b by (simp add: server_bytes_def)
qed

definition buffers_changed :: "p2p_server \<Rightarrow> p2p_server \<Rightarrow> bool" where
  "buffers_changed s s' \<longleftrightarrow> (\<exists>bs. length bs = length (ps_buffers s) \<and> map sb_size bs = map sb_size (ps_buffers s) \<and> s' = s\<lparr>ps_buffers := bs\<rparr>)"

lemma buffers_changed_refl: "buffers_changed s s"
  unfolding buffers_changed_def by (intro exI [where x = "ps_buffers s"]) simp

lemma buffers_changed_trans: "buffers_changed s s1 \<Longrightarrow> buffers_changed s1 s2 \<Longrightarrow> buffers_changed s s2"
  unfolding buffers_changed_def by auto

lemma buffers_changed_set: "buffer_at w s = Some b \<Longrightarrow> sb_size b' = sb_size b \<Longrightarrow> buffers_changed s (set_buffer w b' s)"
  unfolding buffers_changed_def set_buffer_def
  by (rule exI, rule conjI [rotated], rule conjI [rotated], rule refl) (auto simp: buffer_at_Some map_update list_update_same_conv)

lemma buffers_changedD:
  assumes "buffers_changed s s'"
  shows "ps_deleted s' = ps_deleted s" "length (ps_buffers s') = length (ps_buffers s)" "ps_completed s' = ps_completed s"
    "ps_onTransfer s' = ps_onTransfer s" "ps_pendingRma s' = ps_pendingRma s" "ps_pendingBlocs s' = ps_pendingBlocs s"
    "ps_nbSenders s' = ps_nbSenders s" "ps_clientRank s' = ps_clientRank s" "server_blocs s' = server_blocs s"
    "map_option sb_size (buffer_at w s') = map_option sb_size (buffer_at w s)"
proof -
  obtain bs where bs: "length bs = length (ps_buffers s)" "map sb_size bs = map sb_size (ps_buffers s)" "s' = s\<lparr>ps_buffers := bs\<rparr>"
    using assms by (auto simp: buffers_changed_def)
  then show "ps_deleted s' = ps_deleted s" "length (ps_buffers s') = length (ps_buffers s)" "ps_completed s' = ps_completed s"
    "ps_onTransfer s' = ps_onTransfer s" "ps_pendingRma s' = ps_pendingRma s" "ps_pendingBlocs s' = ps_pendingBlocs s"
    "ps_nbSenders s' = ps_nbSenders s" "ps_clientRank s' = ps_clientRank s" "server_blocs s' = server_blocs s"
    by (simp_all add: server_blocs_def)
  have "sb_size (bs ! i) = sb_size (ps_buffers s ! i)" if "i < length (ps_buffers s)" for i
    using that bs(1,2) by (metis nth_map)
  then show "map_option sb_size (buffer_at w s') = map_option sb_size (buffer_at w s)" using bs(1,3) by (auto simp: buffer_at_def)
qed

lemma rma_arrive_ok:
  assumes inv: "server_inv s T H S" and b: "buffer_at w s = Some b"
    and fit: "length (S w) mod sb_size b + length xs \<le> sb_size b" "length (S w) + length xs \<le> H w"
  shows "\<exists>s'. rma_arrive ((w, length (S w) mod sb_size b, length xs), xs) s = Inr s' \<and> server_inv s' T H (S(w := S w @ xs))
    \<and> buffers_changed s s'"
proof -
  have ok: "sb_ok b (T w) (H w) (S w)" using server_invD [OF inv b] by blast
  then have r: "0 < sb_size b" "H w \<le> T w + sb_size b" "holds (sb_mem b) (sb_size b) (T w) (S w)"
    by (auto simp: sb_ok_def ring_def split: if_splits)
  then obtain mem where mem: "mem_copy (length (S w) mod sb_size b) xs (sb_mem b) = Inr mem" "holds mem (sb_size b) (T w) (S w @ xs)"
    using holds_append [of "sb_mem b" "sb_size b" "T w" "S w" xs] fit by auto
  define s' where "s' = set_buffer w (b\<lparr>sb_mem := mem\<rparr>) s"
  have at: "buffer_at v s' = (if v = w then Some (b\<lparr>sb_mem := mem\<rparr>) else buffer_at v s)" for v
    using buffer_at_set [OF b] by (simp add: s'_def)
  have bls: "server_blocs s' = server_blocs s" by (simp add: s'_def)
  have "server_inv s' T H (S(w := S w @ xs))"
    unfolding inv_over_def
  proof (intro conjI allI impI)
    fix v x assume x: "buffer_at v s' = Some x"
    show "sb_ok x (T v) (H v) ((S(w := S w @ xs)) v)"
    proof (cases "v = w")
      case True
      then show ?thesis using ok x mem(2) fit(2) by (auto simp: at sb_ok_def)
    next
      case False
      then show ?thesis using server_invD(1) [OF inv] x by (simp add: at)
    qed
    show "chain (sb_size x) (T v) (in_buffer v (map as_sbloc (server_blocs s'))) (H v)"
      using server_invD(2) [OF inv] x b bls by (cases "v = w") (auto simp: at)
  next
    show "sorted (map sl_buffer (server_blocs s'))" using inv by (simp add: bls inv_over_def)
    show "\<forall>bl\<in>set (server_blocs s'). buffer_at (sl_buffer bl) s' \<noteq> None"
      using inv by (simp add: at bls inv_over_def)
  next
    fix v assume "ps_deleted s' + int (length (ps_buffers s')) \<le> v"
    then have v: "ps_deleted s + int (length (ps_buffers s)) \<le> v" by (simp add: s'_def)
    then have "v \<noteq> w" using b by (auto simp: buffer_at_Some)
    then show "T v = 0" "H v = 0" "(S(w := S w @ xs)) v = []" using inv v by (simp_all add: inv_over_def)
  qed
  moreover have "rma_arrive ((w, length (S w) mod sb_size b, length xs), xs) s = Inr s'" by (simp add: rma_arrive_def b mem(1) s'_def)
  moreover have "buffers_changed s s'" unfolding s'_def by (rule buffers_changed_set [OF b]) simp
  ultimately show ?thesis by blast
qed

lemma bloc_at_later:
  assumes "bloc_at s T S bl xs" "sizes_kept s s'" "\<And>w. \<exists>ys. S' w = S w @ ys"
  shows "bloc_at s' T S' bl xs"
proof -
  obtain b m where b: "buffer_at (sl_buffer bl) s = Some b" "T (sl_buffer bl) \<le> m" "m + sl_count bl \<le> length (S (sl_buffer bl))"
    "xs = take (sl_count bl) (drop m (S (sl_buffer bl)))" "sl_start bl = m mod sb_size b" "sl_start bl + sl_count bl \<le> sb_size b"
    using assms(1) unfolding bloc_at_def by blast
  have "map_option sb_size (buffer_at (sl_buffer bl) s') = Some (sb_size b)" using assms(2) b(1) unfolding sizes_kept_def by simp
  then obtain b' where "buffer_at (sl_buffer bl) s' = Some b'" "sb_size b' = sb_size b" by auto
  moreover obtain ys where "S' (sl_buffer bl) = S (sl_buffer bl) @ ys" using assms(3) by blast
  ultimately show ?thesis using b unfolding bloc_at_def by (intro exI [where x = b'] exI [where x = m]) simp
qed

lemma changed_sizes: "buffers_changed s s' \<Longrightarrow> sizes_kept s s'"
  by (simp add: sizes_kept_def buffers_changedD(10))

definition msg_count :: "bloc_msg \<Rightarrow> nat" where "msg_count = (\<lambda>(a, k, w, st). k)"

lemma msg_count [simp]: "msg_count (a, k, w, st) = k"
  by (simp add: msg_count_def)

lemma len_upd: "(\<lambda>v. length ((S(w := S w @ xs)) v)) = (\<lambda>v. length (S v))(w := length (S w) + length xs)"
  by auto

lemma rma_arrive_all:
  assumes "server_inv s T H S" "places sz (\<lambda>w. length (S w)) blocs"
    and "\<forall>m\<in>set blocs. map_option sb_size (buffer_at (msg_window m) s) = Some (sz (msg_window m))"
    and "list_all2 (\<lambda>m xs. length xs = msg_count m) blocs xss" "\<forall>w. reserved (\<lambda>w. length (S w)) blocs w \<le> H w"
  shows "\<exists>s' S'. ofold rma_arrive (zip (map msg_place blocs) xss) s = Inr s' \<and> server_inv s' T H S' \<and> buffers_changed s s'
    \<and> (\<forall>w. \<exists>ys. S' w = S w @ ys) \<and> (\<lambda>w. length (S' w)) = reserved (\<lambda>w. length (S w)) blocs
    \<and> list_all2 (bloc_at s' T S') (map msg_bloc blocs) xss"
  using assms
proof (induction blocs arbitrary: s S xss)
  case Nil
  then show ?case by (auto intro!: exI [where x = S] simp: buffers_changed_refl)
next
  case (Cons m blocs)
  obtain a k w st where m: "m = (a, k, w, st)" by (metis prod_cases4)
  obtain xs yss where xss: "xss = xs # yss" "length xs = k" "list_all2 (\<lambda>m xs. length xs = msg_count m) blocs yss"
    using Cons.prems(4) by (auto simp: m list_all2_Cons1)
  obtain b where b: "buffer_at w s = Some b" "sb_size b = sz w" using Cons.prems(3) by (auto simp: m)
  let ?L = "\<lambda>w. length (S w)" and ?S = "S(w := S w @ xs)"
  have pl: "0 < k" "st = length (S w) mod sz w" "length (S w) mod sz w + k \<le> sz w" "places sz (?L(w := ?L w + k)) blocs"
    using Cons.prems(2) by (auto simp: m)
  have H: "reserved (?L(w := ?L w + k)) blocs v \<le> H v" for v using Cons.prems(5) by (simp add: m)
  have "?L w + k \<le> H w" using reserved_le [of "?L(w := ?L w + k)" w blocs] H [of w] by simp
  then obtain s1 where s1: "rma_arrive ((w, st, k), xs) s = Inr s1" "server_inv s1 T H ?S" "buffers_changed s s1"
    using rma_arrive_ok [OF Cons.prems(1) b(1), of xs] b(2) pl xss(2) by auto
  have L: "(\<lambda>v. length (?S v)) = ?L(w := ?L w + k)" using len_upd [of S w xs] xss(2) by simp
  have "\<forall>m\<in>set blocs. map_option sb_size (buffer_at (msg_window m) s1) = Some (sz (msg_window m))"
    using Cons.prems(3) buffers_changedD(10) [OF s1(3)] by simp
  then obtain s' S' where s': "ofold rma_arrive (zip (map msg_place blocs) yss) s1 = Inr s'" "server_inv s' T H S'" "buffers_changed s1 s'"
    "\<forall>w. \<exists>ys. S' w = ?S w @ ys" "(\<lambda>w. length (S' w)) = reserved (?L(w := ?L w + k)) blocs" "list_all2 (bloc_at s' T S') (map msg_bloc blocs) yss"
    using Cons.IH [OF s1(2) _ _ xss(3)] pl(4) H unfolding L by blast
  have ext: "\<exists>ys. S' v = S v @ ys" for v
  proof -
    obtain ys where "S' v = ?S v @ ys" using s'(4) by blast
    then show ?thesis by (cases "v = w") auto
  qed
  have T: "T w \<le> length (S w)" using server_invD(1) [OF Cons.prems(1) b(1)] by (simp add: sb_ok_def)
  have "bloc_at s T ?S (msg_bloc m) xs"
    unfolding bloc_at_def by (intro exI [where x = b] exI [where x = "length (S w)"]) (use b pl T xss(2) in \<open>simp add: m\<close>)
  moreover have "buffers_changed s s'" using buffers_changed_trans [OF s1(3) s'(3)] .
  ultimately have "bloc_at s' T S' (msg_bloc m) xs" using bloc_at_later changed_sizes s'(3,4) by blast
  with s1(1) s' xss ext \<open>buffers_changed s s'\<close> show ?case
    by (intro exI [where x = s'] exI [where x = S']) (simp add: m)
qed

section \<open>Departure\<close>

lemma server_bytes_buffers:
  assumes "\<And>w. map_option sb_mem (buffer_at w s') = map_option sb_mem (buffer_at w s)"
  shows "server_bytes s' bl = server_bytes s bl"
  using assms [of "sl_buffer bl"] by (auto simp: server_bytes_def split: option.splits)

text \<open>The first buffer goes when it is empty: no block lies in it.\<close>

lemma erase_front_ok:
  assumes inv: "inv_over s bls T H S" and two: "1 < length (ps_buffers s)" and e: "sb_count (hd (ps_buffers s)) = 0"
  shows "\<exists>s'. erase_front s = Inr s' \<and> inv_over s' bls T H S \<and> (\<forall>bl\<in>set bls. buffer_at (sl_buffer bl) s' = buffer_at (sl_buffer bl) s)
    \<and> s' = s\<lparr>ps_buffers := tl (ps_buffers s), ps_deleted := ps_deleted s + 1\<rparr>"
proof -
  obtain b bs where bs: "ps_buffers s = b # bs" using two by (cases "ps_buffers s") auto
  define s' where "s' = s\<lparr>ps_buffers := tl (ps_buffers s), ps_deleted := ps_deleted s + 1\<rparr>"
  have er: "erase_front s = Inr s'" using e by (simp add: erase_front_def bs s'_def)
  have b: "buffer_at (ps_deleted s) s = Some b" by (simp add: buffer_at_def bs)
  have at: "buffer_at w s' = (if w = ps_deleted s then None else buffer_at w s)" for w
    by (auto simp: buffer_at_def s'_def bs nth_Cons' nat_diff_distrib' intro!: arg_cong [where f = "nth bs"])
  have "T (ps_deleted s) = H (ps_deleted s)" using server_invD(1) [OF inv b] e by (simp add: sb_ok_def ring_def bs)
  then have "in_buffer (ps_deleted s) (map as_sbloc bls) = []" using server_invD(2) [OF inv b] chain_eq by metis
  then have none: "\<forall>bl\<in>set bls. sl_buffer bl \<noteq> ps_deleted s" by (auto simp: in_buffer_def filter_empty_conv)
  have f: "ps_deleted s' + int (length (ps_buffers s')) = ps_deleted s + int (length (ps_buffers s))"
    by (simp add: s'_def bs)
  have "inv_over s' bls T H S"
    using inv none unfolding inv_over_def f at by (auto split: if_splits)
  moreover have "buffer_at (sl_buffer bl) s' = buffer_at (sl_buffer bl) s" if "bl \<in> set bls" for bl
    using none that by (simp add: at)
  ultimately show ?thesis using er by (auto simp: s'_def)
qed

lemma sb_free_ok:
  assumes "sb_ok b T H S" "0 < k" "T + k \<le> length S" "T mod sb_size b + k \<le> sb_size b"
  shows "sb_ok (sb_free (T mod sb_size b) k b) (T + k) H S"
proof -
  have r: "ring (sb_size b) (sb_start b) (sb_end b) (sb_count b) T H" "holds (sb_mem b) (sb_size b) T S" "length S \<le> H"
    using assms(1) by (simp_all add: sb_ok_def)
  then have "k \<le> sb_count b" using assms(3) by (simp add: ring_def)
  from ring_free [OF r(1) assms(2) this assms(4)] holds_later [OF r(2), of "T + k"] r(3) assms(3)
  show ?thesis by (simp add: sb_ok_def sb_free_def)
qed

text \<open>One block leaves.  The places of the blocks behind it, and their bytes, stay.\<close>

lemma same_place: "(p :: nat) mod sz = q mod sz \<Longrightarrow> T \<le> p \<Longrightarrow> T \<le> q \<Longrightarrow> p < T + sz \<Longrightarrow> q < T + sz \<Longrightarrow> p = q"
  using mod_apart [of p q sz] mod_apart [of q p sz] by (cases p q rule: linorder_cases) auto

lemma bloc_position:
  assumes inv: "inv_over s bls T H S" and bl: "bl \<in> set bls" and at: "bloc_at s T S bl xs"
  shows "\<exists>b m. buffer_at (sl_buffer bl) s = Some b \<and> sl_start bl = m mod sb_size b \<and> m + sl_count bl \<le> length (S (sl_buffer bl))
    \<and> xs = take (sl_count bl) (drop m (S (sl_buffer bl)))
    \<and> (\<forall>p q. chain (sb_size b) p (map as_sbloc q) (H (sl_buffer bl)) \<and> bl \<in> set q \<and> T (sl_buffer bl) \<le> p \<longrightarrow> p \<le> m)"
proof -
  obtain b m where b: "buffer_at (sl_buffer bl) s = Some b" "T (sl_buffer bl) \<le> m" "m + sl_count bl \<le> length (S (sl_buffer bl))"
    "xs = take (sl_count bl) (drop m (S (sl_buffer bl)))" "sl_start bl = m mod sb_size b" "sl_start bl + sl_count bl \<le> sb_size b"
    using at unfolding bloc_at_def by blast
  let ?w = "sl_buffer bl"
  have "sb_ok b (T ?w) (H ?w) (S ?w)" using server_invD(1) [OF inv b(1)] .
  then have H: "H ?w \<le> T ?w + sb_size b" "length (S ?w) \<le> H ?w" by (auto simp: sb_ok_def ring_def split: if_splits)
  have "p \<le> m" if pq: "chain (sb_size b) p (map as_sbloc q) (H ?w)" "bl \<in> set q" "T ?w \<le> p" for p q
  proof -
    obtain m' where m': "p \<le> m'" "m' + sl_count bl \<le> H ?w" "sl_start bl = m' mod sb_size b" "0 < sl_count bl"
      using chain_in [OF pq(1), of "as_sbloc bl"] pq(2) by auto
    have "m' mod sb_size b = m mod sb_size b" using m'(3) b(5) by (rule subst)
    moreover have "m' < T ?w + sb_size b" "m < T ?w + sb_size b" "T ?w \<le> m'" using m'(1,2,4) b(3) pq(3) H by linarith+
    ultimately have "m' = m" using same_place b(2) by blast
    with m'(1) show ?thesis by simp
  qed
  with b show ?thesis by blast
qed

definition same_rest :: "p2p_server \<Rightarrow> p2p_server \<Rightarrow> bool" where
  "same_rest s s' \<longleftrightarrow> s'\<lparr>ps_buffers := [], ps_deleted := 0\<rparr> = s\<lparr>ps_buffers := [], ps_deleted := 0\<rparr>"

lemma same_rest_trans: "same_rest s s1 \<Longrightarrow> same_rest s1 s2 \<Longrightarrow> same_rest s s2"
  by (auto simp: same_rest_def)

lemma same_rest_refl: "same_rest s s"
  by (simp add: same_rest_def)

lemma in_buffer_map: "in_buffer w (map as_sbloc bls) = map as_sbloc (filter (\<lambda>bl. sl_buffer bl = w) bls)"
  by (simp add: in_buffer_def filter_map comp_def)

lemma free_bloc_ok:
  assumes inv: "inv_over s (bl # bls) T H S" and at: "bloc_at s T S bl xs" and b: "buffer_at (sl_buffer bl) s = Some b"
  shows "sl_start bl = T (sl_buffer bl) mod sb_size b" (is ?place)
    and "inv_over (set_buffer (sl_buffer bl) (sb_free (sl_start bl) (sl_count bl) b) s) bls (T(sl_buffer bl := T (sl_buffer bl) + sl_count bl)) H S" (is ?inv)
    and "\<And>x ys. x \<in> set bls \<Longrightarrow> bloc_at s T S x ys \<Longrightarrow>
      bloc_at (set_buffer (sl_buffer bl) (sb_free (sl_start bl) (sl_count bl) b) s) (T(sl_buffer bl := T (sl_buffer bl) + sl_count bl)) S x ys"
proof -
  define w where "w = sl_buffer bl"
  define s' where "s' = set_buffer w (sb_free (sl_start bl) (sl_count bl) b) s"
  define T' where "T' = T(w := T w + sl_count bl)"
  have b': "buffer_at w s = Some b" using b by (simp add: w_def)
  note d = server_invD [OF inv b']
  have ch: "sl_start bl = T w mod sb_size b" "0 < sl_count bl" "T w mod sb_size b + sl_count bl \<le> sb_size b"
    "chain (sb_size b) (T w + sl_count bl) (in_buffer w (map as_sbloc bls)) (H w)" using d(2) by (simp_all add: w_def)
  show ?place using ch(1) by (simp add: w_def)
  obtain m where m: "m + sl_count bl \<le> length (S w)" "T w \<le> m"
    using at unfolding bloc_at_def by (auto simp: w_def)
  have ok: "sb_ok (sb_free (sl_start bl) (sl_count bl) b) (T w + sl_count bl) (H w) (S w)"
    using sb_free_ok [OF d(1) ch(2) _ ch(3)] m ch(1) by simp
  have at': "buffer_at v s' = (if v = w then Some (sb_free (sl_start bl) (sl_count bl) b) else buffer_at v s)" for v
    using buffer_at_set [OF b'] by (simp add: s'_def)
  have "inv_over s' bls T' H S"
    unfolding inv_over_def
  proof (intro conjI allI impI)
    fix v x assume x: "buffer_at v s' = Some x"
    show "sb_ok x (T' v) (H v) (S v)" using ok x server_invD(1) [OF inv] by (cases "v = w") (auto simp: at' T'_def)
    show "chain (sb_size x) (T' v) (in_buffer v (map as_sbloc bls)) (H v)"
      using ch(4) x server_invD(2) [OF inv, of v x] by (cases "v = w") (auto simp: at' T'_def sb_free_def w_def)
  next
    fix v assume v: "ps_deleted s' + int (length (ps_buffers s')) \<le> v"
    then have "v \<noteq> w" using b' by (auto simp: buffer_at_Some s'_def)
    then show "T' v = 0" "H v = 0" "S v = []" using inv v by (simp_all add: inv_over_def T'_def s'_def)
  next
    show "sorted (map sl_buffer bls)" using inv by (simp add: inv_over_def)
    show "\<forall>bl\<in>set bls. buffer_at (sl_buffer bl) s' \<noteq> None" using inv by (simp add: inv_over_def at')
  qed
  then show ?inv by (simp add: s'_def T'_def w_def)
  fix x ys assume x: "x \<in> set bls" "bloc_at s T S x ys"
  obtain c p where p: "buffer_at (sl_buffer x) s = Some c" "sl_start x = p mod sb_size c" "p + sl_count x \<le> length (S (sl_buffer x))"
    "ys = take (sl_count x) (drop p (S (sl_buffer x)))"
    "\<And>q qs. chain (sb_size c) q (map as_sbloc qs) (H (sl_buffer x)) \<Longrightarrow> x \<in> set qs \<Longrightarrow> T (sl_buffer x) \<le> q \<Longrightarrow> q \<le> p"
    using bloc_position [OF inv _ x(2)] x(1) by auto
  have "T' (sl_buffer x) \<le> p"
    using p(5) [of "T' (sl_buffer x)" "filter (\<lambda>bl. sl_buffer bl = sl_buffer x) bls"] x(1) ch(4) p(1) b' server_invD(2) [OF inv p(1)]
    by (cases "sl_buffer x = w") (auto simp: T'_def in_buffer_map w_def)
  moreover have "sl_start x + sl_count x \<le> sb_size c" using x(2) p(1) by (auto simp: bloc_at_def)
  ultimately have "bloc_at s' T' S x ys" using p b' unfolding bloc_at_def at'
    by (cases "sl_buffer x = w") (auto simp: sb_free_def intro!: exI [where x = p])
  then show "bloc_at (set_buffer (sl_buffer bl) (sb_free (sl_start bl) (sl_count bl) b) s) (T(sl_buffer bl := T (sl_buffer bl) + sl_count bl)) S x ys"
    by (simp add: s'_def T'_def w_def)
qed

lemma empty_ring: "inv_over s bls T H S \<Longrightarrow> buffer_at w s = Some b \<Longrightarrow> \<forall>bl\<in>set bls. sl_buffer bl \<noteq> w \<Longrightarrow> sb_count b = 0"
proof -
  assume inv: "inv_over s bls T H S" and b: "buffer_at w s = Some b" and n: "\<forall>bl\<in>set bls. sl_buffer bl \<noteq> w"
  then have "in_buffer w (map as_sbloc bls) = []" by (auto simp: in_buffer_def filter_empty_conv)
  then show ?thesis using server_invD [OF inv b] by (simp add: sb_ok_def ring_def)
qed

lemma take_bloc_ok:
  assumes inv: "inv_over s (bl # bls) T H S" and at: "bloc_at s T S bl xs"
  shows "\<exists>s' T'. take_bloc bl (bytes, s) = Inr (bytes @ xs, s') \<and> inv_over s' bls T' H S \<and> same_rest s s'
    \<and> (\<forall>x\<in>set bls. \<forall>ys. bloc_at s T S x ys \<longrightarrow> bloc_at s' T' S x ys)"
proof -
  define w where "w = sl_buffer bl"
  obtain b where b: "buffer_at w s = Some b" using inv by (auto simp: inv_over_def w_def)
  define b' where "b' = sb_free (sl_start bl) (sl_count bl) b"
  define s1 where "s1 = set_buffer w b' s"
  define T' where "T' = T(w := T w + sl_count bl)"
  note f = free_bloc_ok(2,3) [OF inv at b [unfolded w_def], folded w_def, folded b'_def, folded s1_def, folded T'_def]
  have "server_bytes s bl = xs" using bloc_at_bytes [OF inv at] .
  then have xs: "take (sl_count bl) (drop (sl_start bl) (sb_mem b)) = xs" using b by (simp add: server_bytes_def w_def)
  have "sl_start bl + sl_count bl \<le> sb_size b" using at b by (auto simp: bloc_at_def w_def)
  moreover have "sb_size b \<le> length (sb_mem b)" using server_invD(1) [OF inv b] by (simp add: sb_ok_def holds_def)
  ultimately have len: "\<not> length (sb_mem b) < sl_start bl + sl_count bl" by simp
  have r: "same_rest s s1" by (simp add: same_rest_def s1_def set_buffer_def)
  have l: "length (ps_buffers s1) = length (ps_buffers s)" by (simp add: s1_def)
  show ?thesis
  proof (cases "sb_count b' = 0 \<and> 1 < length (ps_buffers s1)")
    case False
    then have "take_bloc bl (bytes, s) = Inr (bytes @ xs, s1)"
      using b len xs by (auto simp: take_bloc_def w_def [symmetric] b'_def [symmetric] s1_def [symmetric] Let_def l)
    with f r show ?thesis by blast
  next
    case True
    then obtain x where x: "buffer_at (ps_deleted s1) s1 = Some x" "hd (ps_buffers s1) = x" by (cases "ps_buffers s1") (auto simp: buffer_at_def)
    have w: "ps_deleted s1 \<le> w" "buffer_at w s1 = Some b'"
      using b buffer_at_set [OF b, of w b'] by (simp_all add: s1_def buffer_at_Some)
    have "sb_count x = 0"
    proof (cases "w = ps_deleted s1")
      case True
      with x w \<open>sb_count b' = 0 \<and> 1 < length (ps_buffers s1)\<close> show ?thesis by simp
    next
      case False
      have "\<forall>y\<in>set bls. w \<le> sl_buffer y" using inv by (simp add: inv_over_def w_def)
      with False w(1) empty_ring [OF f(1) x(1)] show ?thesis by force
    qed
    then obtain s2 where s2: "erase_front s1 = Inr s2" "inv_over s2 bls T' H S" "\<forall>bl\<in>set bls. buffer_at (sl_buffer bl) s2 = buffer_at (sl_buffer bl) s1"
      "s2 = s1\<lparr>ps_buffers := tl (ps_buffers s1), ps_deleted := ps_deleted s1 + 1\<rparr>"
      using erase_front_ok [OF f(1)] True x(2) by auto
    have "take_bloc bl (bytes, s) = Inr (bytes @ xs, s2)"
      using b len xs True s2(1) by (auto simp: take_bloc_def w_def [symmetric] b'_def [symmetric] s1_def [symmetric] Let_def l)
    moreover have "same_rest s s2" using r by (simp add: s2(4) same_rest_def)
    moreover have "\<forall>x\<in>set bls. \<forall>ys. bloc_at s T S x ys \<longrightarrow> bloc_at s2 T' S x ys"
      using f(2) s2(3) by (simp add: bloc_at_def)
    ultimately show ?thesis using s2(2) by blast
  qed
qed

lemma take_blocs_ok:
  assumes "inv_over s (bls @ rest) T H S" "list_all2 (bloc_at s T S) bls xss"
  shows "\<exists>s' T'. ofold take_bloc bls (bytes, s) = Inr (bytes @ concat xss, s') \<and> inv_over s' rest T' H S \<and> same_rest s s'
    \<and> (\<forall>x\<in>set rest. \<forall>ys. bloc_at s T S x ys \<longrightarrow> bloc_at s' T' S x ys)"
  using assms
proof (induction bls arbitrary: s T xss bytes)
  case Nil
  then show ?case by (auto simp: same_rest_refl)
next
  case (Cons bl bls)
  obtain xs yss where xss: "xss = xs # yss" "bloc_at s T S bl xs" "list_all2 (bloc_at s T S) bls yss"
    using Cons.prems(2) by (auto simp: list_all2_Cons1)
  obtain s1 T1 where s1: "take_bloc bl (bytes, s) = Inr (bytes @ xs, s1)" "inv_over s1 (bls @ rest) T1 H S" "same_rest s s1"
    "\<forall>x\<in>set (bls @ rest). \<forall>ys. bloc_at s T S x ys \<longrightarrow> bloc_at s1 T1 S x ys"
    using take_bloc_ok [of s bl "bls @ rest" T H S xs bytes] Cons.prems(1) xss(2) by auto
  have "list_all2 (bloc_at s1 T1 S) bls yss" using xss(3) s1(4) by (auto simp: list_all2_conv_all_nth)
  from Cons.IH [OF s1(2) this, of "bytes @ xs"] obtain s' T' where s': "ofold take_bloc bls (bytes @ xs, s1) = Inr (bytes @ concat xss, s')"
    "inv_over s' rest T' H S" "same_rest s1 s'" "\<forall>x\<in>set rest. \<forall>ys. bloc_at s1 T1 S x ys \<longrightarrow> bloc_at s' T' S x ys"
    by (auto simp: xss(1))
  with s1 show ?case by (intro exI [where x = s'] exI [where x = T']) (simp add: same_rest_trans [OF s1(3)])
qed

text \<open>Buffers only go, and never the last one.\<close>

definition shrunk :: "p2p_server \<Rightarrow> p2p_server \<Rightarrow> bool" where
  "shrunk s s' \<longleftrightarrow> ps_deleted s' + int (length (ps_buffers s')) = ps_deleted s + int (length (ps_buffers s))
     \<and> (ps_buffers s \<noteq> [] \<longrightarrow> ps_buffers s' \<noteq> [])
     \<and> (\<forall>w k. map_option sb_size (buffer_at w s') = Some k \<longrightarrow> map_option sb_size (buffer_at w s) = Some k)"

lemma shrunk_refl: "shrunk s s"
  by (simp add: shrunk_def)

lemma shrunk_trans: "shrunk s s1 \<Longrightarrow> shrunk s1 s2 \<Longrightarrow> shrunk s s2"
  unfolding shrunk_def by simp

lemma erase_front_shrunk:
  assumes "erase_front s = Inr s'" "1 < length (ps_buffers s)"
  shows "shrunk s s'"
proof -
  obtain b bs where bs: "ps_buffers s = b # bs" "s' = s\<lparr>ps_buffers := bs, ps_deleted := ps_deleted s + 1\<rparr>" "bs \<noteq> []"
    using assms by (auto simp: erase_front_def split: list.splits if_splits)
  have "buffer_at w s' = (if w = ps_deleted s then None else buffer_at w s)" for w
    by (auto simp: buffer_at_def bs nth_Cons' nat_diff_distrib' intro!: arg_cong [where f = "nth bs"])
  with bs show ?thesis by (simp add: shrunk_def)
qed

lemma take_bloc_shrunk:
  assumes "take_bloc bl (bytes, s) = Inr (bytes', s')"
  shows "shrunk s s'"
proof -
  obtain b where b: "buffer_at (sl_buffer bl) s = Some b" using assms by (cases "buffer_at (sl_buffer bl) s") (auto simp: take_bloc_def)
  define b' where "b' = sb_free (sl_start bl) (sl_count bl) b"
  define s1 where "s1 = set_buffer (sl_buffer bl) b' s"
  have "length (ps_buffers s1) = length (ps_buffers s)" "ps_deleted s1 = ps_deleted s" by (simp_all add: s1_def)
  moreover have "buffer_at w s1 = (if w = sl_buffer bl then Some b' else buffer_at w s)" for w using buffer_at_set [OF b] by (simp add: s1_def)
  moreover have "sb_size b' = sb_size b" by (simp add: b'_def sb_free_def)
  ultimately have "shrunk s s1" using b by (auto simp: shrunk_def simp flip: length_greater_0_conv)
  moreover have "s' = s1 \<or> erase_front s1 = Inr s' \<and> 1 < length (ps_buffers s1)"
    using assms b by (auto simp: take_bloc_def Let_def s1_def b'_def omap_def outcome_simps split: if_splits)
  ultimately show ?thesis using erase_front_shrunk shrunk_trans by blast
qed

lemma take_blocs_shrunk: "ofold take_bloc bls (bytes, s) = Inr (bytes', s') \<Longrightarrow> shrunk s s'"
proof (induction bls arbitrary: bytes s)
  case (Cons bl bls)
  then obtain ys t where "take_bloc bl (bytes, s) = Inr (ys, t)" "ofold take_bloc bls (ys, t) = Inr (bytes', s')" by (auto simp: outcome_simps)
  with Cons.IH take_bloc_shrunk shrunk_trans show ?case by blast
qed (simp add: shrunk_refl)

end
