(* ===== verification/P2pClaims.thy ===== *)
theory P2pClaims
  imports P2pTransfer
begin

text \<open>
  The point to point transport: the client is a queue of blocks, the server a queue of events, and
  what the two do with a ring that is full and with an event that is larger than a buffer.
\<close>

section \<open>The client is a queue of blocks\<close>

text \<open>The blocks that wait for their transfer, with their addresses and bytes.\<close>

definition client_queue :: "p2p_client \<Rightarrow> (maddr \<times> byte list) list" where
  "client_queue c = map (\<lambda>bl. (bl_addr bl, bloc_bytes (pc_buffers c) bl)) (pc_blocs c)"

definition client_ok :: "p2p_client \<Rightarrow> bool" where
  "client_ok c \<longleftrightarrow> (\<exists>T S. client_inv c T S) \<and> pc_sentBlocRequest c = map bl_addr (pc_blocs c)"

lemma adds_queue: "adds c new xs c' \<Longrightarrow> client_queue c' = client_queue c @ map (\<lambda>bl. (bl_addr bl, bloc_bytes (pc_buffers c') bl)) new"
  by (simp add: adds_def client_queue_def)

lemma writeEvent_writes:
  assumes ok: "client_ok c" and free: "pc_isBufferFree (length xs) c" and wr: "writable xs c"
  shows "\<exists>msgs bls c'. writeEvent timeline nbSenders xs c = Inr (True, msgs @ [Timeline timeline nbSenders (map bloc_msg_of bls)], bls, c')
    \<and> client_ok c' \<and> client_queue c' = client_queue c @ map (\<lambda>bl. (bl_addr bl, bloc_bytes (pc_buffers c') bl)) bls
    \<and> concat (map (bloc_bytes (pc_buffers c')) bls) = xs"
proof -
  obtain T S where inv: "client_inv c T S" and sent: "pc_sentBlocRequest c = map bl_addr (pc_blocs c)" using ok by (auto simp: client_ok_def)
  obtain bls c1 T1 S1 where w: "write_loop xs 0 c = Some (Inr (0 + length bls, c1))" "client_inv c1 T1 S1" "adds c bls xs c1"
    using write_loop_writes [OF inv wr, of 0] by blast
  have last: "drop (length (pc_blocs c1) - length bls) (pc_blocs c1) = bls" using w(3) by (simp add: adds_def)
  define c' where "c' = c1\<lparr>pc_sentBlocRequest := pc_sentBlocRequest c1 @ map bl_addr bls\<rparr>"
  have "client_inv c' T1 S1" using w(2) by (simp add: client_inv_def c'_def)
  moreover have "pc_sentBlocRequest c' = map bl_addr (pc_blocs c')" using w(3) sent by (simp add: adds_def c'_def)
  moreover have "client_queue c' = client_queue c @ map (\<lambda>bl. (bl_addr bl, bloc_bytes (pc_buffers c') bl)) bls"
    using adds_queue [OF w(3)] by (simp add: c'_def client_queue_def)
  moreover have "concat (map (bloc_bytes (pc_buffers c')) bls) = xs" using w(3) by (simp add: adds_def c'_def)
  moreover have "\<exists>msgs. writeEvent timeline nbSenders xs c = Inr (True, msgs @ [Timeline timeline nbSenders (map bloc_msg_of bls)], bls, c')"
    using free w(1) last by (auto simp: writeEvent_def writeBuffer_def sendTimelineEvent_def c'_def Let_def)
  ultimately show ?thesis unfolding client_ok_def by blast
qed

lemma take_last: "0 < k \<Longrightarrow> k \<le> length xs \<Longrightarrow> \<exists>pre x. xs = pre @ x # drop k xs \<and> take k xs = pre @ [x]"
proof -
  assume k: "0 < k" "k \<le> length xs"
  then have "take k xs = take (k - 1) xs @ [xs ! (k - 1)]" using take_Suc_conv_app_nth [of "k - 1" xs] by simp
  moreover have "xs = take k xs @ drop k xs" by simp
  ultimately show ?thesis by (metis append.assoc append_Cons append_Nil)
qed

lemma eventLoop_frees:
  assumes ok: "client_ok c" and k: "k \<le> length (pc_blocs c)"
  shows "\<exists>c'. pc_eventLoop k finalized c = Inr c' \<and> client_ok c' \<and> client_queue c' = drop k (client_queue c)
    \<and> pc_sentBlocRequest c' = drop k (pc_sentBlocRequest c)"
proof -
  obtain T S where inv: "client_inv c T S" and sent: "pc_sentBlocRequest c = map bl_addr (pc_blocs c)" using ok by (auto simp: client_ok_def)
  let ?sent = "drop k (pc_sentBlocRequest c)"
  define addr where "addr = (if take k (pc_sentBlocRequest c) = [] then None else Some (last (take k (pc_sentBlocRequest c))))"
  have "\<exists>bs T'. (case addr of None \<Rightarrow> Inr (c\<lparr>pc_sentBlocRequest := ?sent\<rparr>)
        | Some a \<Rightarrow> omap (\<lambda>(bls, bs). c\<lparr>pc_sentBlocRequest := ?sent, pc_blocs := bls, pc_buffers := bs\<rparr>) (free_until a (pc_blocs c) (pc_buffers c)))
      = Inr (c\<lparr>pc_sentBlocRequest := ?sent, pc_blocs := drop k (pc_blocs c), pc_buffers := bs\<rparr>)
    \<and> client_inv (c\<lparr>pc_blocs := drop k (pc_blocs c), pc_buffers := bs\<rparr>) T' S
    \<and> (\<forall>x\<in>set (drop k (pc_blocs c)). bloc_bytes bs x = bloc_bytes (pc_buffers c) x)"
  proof (cases "k = 0")
    case True
    with inv show ?thesis by (intro exI [where x = "pc_buffers c"] exI [where x = T]) (simp add: addr_def)
  next
    case False
    then obtain pre bl where b: "pc_blocs c = pre @ bl # drop k (pc_blocs c)" "take k (pc_blocs c) = pre @ [bl]"
      using take_last [of k "pc_blocs c"] k by blast
    then have "addr = Some (bl_addr bl)" by (simp add: addr_def sent take_map)
    with free_until_ok [OF inv b(1)] show ?thesis by auto
  qed
  then obtain bs T' where bs: "(case addr of None \<Rightarrow> Inr (c\<lparr>pc_sentBlocRequest := ?sent\<rparr>)
        | Some a \<Rightarrow> omap (\<lambda>(bls, bs). c\<lparr>pc_sentBlocRequest := ?sent, pc_blocs := bls, pc_buffers := bs\<rparr>) (free_until a (pc_blocs c) (pc_buffers c)))
      = Inr (c\<lparr>pc_sentBlocRequest := ?sent, pc_blocs := drop k (pc_blocs c), pc_buffers := bs\<rparr>)"
    "client_inv (c\<lparr>pc_blocs := drop k (pc_blocs c), pc_buffers := bs\<rparr>) T' S"
    "\<forall>x\<in>set (drop k (pc_blocs c)). bloc_bytes bs x = bloc_bytes (pc_buffers c) x" by blast
  define c1 where "c1 = c\<lparr>pc_sentBlocRequest := ?sent, pc_blocs := drop k (pc_blocs c), pc_buffers := bs\<rparr>"
  have inv1: "client_inv c1 T' S" using bs(2) by (simp add: client_inv_def c1_def)
  have q1: "client_queue c1 = drop k (client_queue c)" using bs(3) by (simp add: client_queue_def c1_def drop_map)
  define fin :: "p2p_client \<Rightarrow> p2p_client" where "fin c2 = c2\<lparr>pc_isFinalized := pc_isFinalized c2 \<or> finalized\<rparr>" for c2
  have loop: "pc_eventLoop k finalized c = omap fin (if pc_isFinalized c1 \<and> pc_buffers c1 \<noteq> [] \<and> cb_count (snd (hd (pc_buffers c1))) = 0
     then omap (\<lambda>bs. c1\<lparr>pc_buffers := bs\<rparr>) (delete_front (pc_buffers c1)) else Inr c1)"
    using bs(1) unfolding pc_eventLoop_def pc_freeBuffer_def Let_def addr_def [symmetric]
    by (cases addr) (simp_all add: c1_def fin_def omap_def)
  have fin: "client_ok (fin c2) \<and> client_queue (fin c2) = drop k (client_queue c) \<and> pc_sentBlocRequest (fin c2) = ?sent"
    if "client_inv c2 T' S" "client_queue c2 = drop k (client_queue c)" "pc_sentBlocRequest c2 = ?sent" "pc_blocs c2 = drop k (pc_blocs c)" for c2
    using that sent by (auto simp: client_ok_def fin_def client_queue_def client_inv_def drop_map)
  show ?thesis
  proof (cases "pc_isFinalized c1 \<and> pc_buffers c1 \<noteq> [] \<and> cb_count (snd (hd (pc_buffers c1))) = 0")
    case False
    then have "pc_eventLoop k finalized c = Inr (fin c1)" using loop by auto
    with fin [OF inv1 q1] show ?thesis by (simp add: c1_def)
  next
    case True
    then obtain i b rest where f: "pc_buffers c1 = (i, b) # rest" "cb_count b = 0" by (cases "pc_buffers c1") auto
    note d = delete_front_ok [OF inv1 f]
    have "pc_eventLoop k finalized c = Inr (fin (c1\<lparr>pc_buffers := rest\<rparr>))" using loop True d by simp
    moreover have same: "client_queue (c1\<lparr>pc_buffers := rest\<rparr>) = client_queue c1" using d by (simp add: client_queue_def)
    then have "client_queue (c1\<lparr>pc_buffers := rest\<rparr>) = drop k (client_queue c)" using q1 by metis
    ultimately show ?thesis using fin [of "c1\<lparr>pc_buffers := rest\<rparr>"] d by (simp add: c1_def)
  qed
qed

section \<open>The server is a queue of events\<close>

text \<open>The completed events with their bytes, in the order of their timelines.\<close>

definition server_queue :: "p2p_server \<Rightarrow> (nat \<times> byte list) list" where
  "server_queue s = map (\<lambda>(t, bls). (t, concat (map (server_bytes s) bls))) (ps_completed s)"

text \<open>Between two transfers everything that was reserved has arrived; of buffer \<open>w\<close>, \<open>T w\<close> bytes
  were freed and \<open>H w\<close> filled.\<close>

definition server_ok :: "p2p_server \<Rightarrow> (int \<Rightarrow> nat) \<Rightarrow> (int \<Rightarrow> nat) \<Rightarrow> bool" where
  "server_ok s T H \<longleftrightarrow> (\<exists>S. server_inv s T H S \<and> (\<forall>w. length (S w) = H w)) \<and> ps_pendingRma s = [] \<and> ps_onTransfer s = []
     \<and> in_order (ps_completed s)"

text \<open>The message of the client names the places that follow what was reserved, in the order of the
  windows, and the rings have room for them; a new window comes with its size.\<close>

definition mirrors :: "(int \<Rightarrow> nat) \<Rightarrow> nat \<Rightarrow> bloc_msg list \<Rightarrow> p2p_server \<Rightarrow> (int \<Rightarrow> nat) \<Rightarrow> (int \<Rightarrow> nat) \<Rightarrow> bool" where
  "mirrors sz t blocs s T H \<longleftrightarrow> places sz H blocs \<and> sorted (map msg_window blocs)
     \<and> (\<forall>bl\<in>set (server_blocs s). \<forall>m\<in>set blocs. sl_buffer bl \<le> msg_window m)
     \<and> (\<forall>m\<in>set blocs. room (sz (msg_window m)) (T (msg_window m)) (reserved H blocs (msg_window m))
          \<and> window_of t s (msg_window m) (sz (msg_window m)))"

lemma chain_split:
  assumes "chain sz p (bls @ bls') q" "length S = q"
  shows "\<forall>bl\<in>set bls. \<exists>m\<ge>p. m + bl_count bl \<le> length S \<and> bl_start bl = m mod sz \<and> bl_start bl + bl_count bl \<le> sz"
  using chain_in [OF assms(1)] assms(2) by fastforce

lemma arrived_all:
  assumes "inv_over s bls T H S" "\<forall>w. length (S w) = H w" "bl \<in> set bls"
  shows "\<exists>xs. bloc_at s T S bl xs"
proof -
  obtain b where b: "buffer_at (sl_buffer bl) s = Some b" using assms(1,3) by (auto simp: inv_over_def)
  have "as_sbloc bl \<in> set (in_buffer (sl_buffer bl) (map as_sbloc bls))" using assms(3) by (simp add: in_buffer_map)
  from chain_in [OF server_invD(2) [OF assms(1) b] this] obtain m where "T (sl_buffer bl) \<le> m" "m + sl_count bl \<le> H (sl_buffer bl)"
    "sl_start bl = m mod sb_size b" "m mod sb_size b + sl_count bl \<le> sb_size b" by auto
  with b assms(2) show ?thesis unfolding bloc_at_def by auto
qed

lemma std_insert_last: "\<forall>x\<in>set m. fst x < k \<Longrightarrow> std_insert k v m = m @ [(k, v)]"
proof -
  assume m: "\<forall>x\<in>set m. fst x < k"
  then have "map_of m k = None" by (auto simp: map_of_eq_None_iff)
  then show ?thesis using std_put_last [of m k v] m by (simp add: std_insert_def)
qed

lemma in_order_snoc: "in_order m \<Longrightarrow> \<forall>x\<in>set m. fst x < k \<Longrightarrow> in_order (m @ [(k, v)])"
  by (force simp: in_order_def sorted_append)

text \<open>The state of an event after its transfer and after its arrival.\<close>

lemma transfer_arrive:
  assumes ok: "server_ok s T H" and pend: "ps_pendingBlocs s = (t, blocs) # rest" and new: "\<forall>e\<in>set (ps_completed s). fst e < t"
    and mirrors: "mirrors sz t blocs s T H" and blocs: "blocs \<noteq> []" "space_for s (-1) 0 blocs"
    and xss: "list_all2 (\<lambda>m xs. length xs = msg_count m) blocs xss" and fe: "map_of (fe_pending fe) t = Some e"
  shows "\<exists>s1 s2 fe'. transferEvents s = Inr s1 \<and> ps_pendingRma s1 = map msg_place blocs
    \<and> testPendingRequests (Some xss) (s1, fe) = Inr (s2, fe') \<and> server_ok s2 T (reserved H blocs) \<and> ps_pendingBlocs s2 = rest
    \<and> server_queue s2 = server_queue s @ [(t, concat xss)] \<and> sizes_kept s s2 \<and> ps_deleted s2 = ps_deleted s
    \<and> one_more (msg_window ` set blocs) s s2
    \<and> (\<forall>m\<in>set blocs. map_option sb_size (buffer_at (msg_window m) s2) = Some (sz (msg_window m)))"
proof -
  obtain S where inv: "server_inv s T H S" "\<And>w. length (S w) = H w" "ps_pendingRma s = []" "ps_onTransfer s = on_transfer t []" "in_order (ps_completed s)"
    using ok by (auto simp: server_ok_def on_transfer_def)
  note mi = mirrors [unfolded mirrors_def]
  obtain s0 where s0: "transferEvent t blocs s = Inr s0" "server_inv s0 T (reserved H blocs) S" "kept s s0"
    "ps_pendingRma s0 = map msg_place blocs" "ps_onTransfer s0 = on_transfer t (map msg_bloc blocs)"
    "sizes_kept s s0" "\<forall>m\<in>set blocs. map_option sb_size (buffer_at (msg_window m) s0) = Some (sz (msg_window m))"
    "one_more (msg_window ` set blocs) s s0"
    using transferEvent_ok [OF inv(1) _ _ _ _ inv(4), of sz blocs] mi inv(3) by auto
  define s1 where "s1 = s0\<lparr>ps_pendingBlocs := tl (ps_pendingBlocs s0)\<rparr>"
  have tr: "transferEvents s = Inr s1" using pend blocs s0(1) inv(3) by (simp add: transferEvents_def s1_def)
  have L: "(\<lambda>w. length (S w)) = H" using inv(2) by auto
  have sizes: "\<forall>m\<in>set blocs. map_option sb_size (buffer_at (msg_window m) s1) = Some (sz (msg_window m))"
    using s0(7) by (simp add: s1_def)
  have pl: "places sz (\<lambda>w. length (S w)) blocs" using mi by (simp add: L)
  have inv1: "server_inv s1 T (reserved H blocs) S" using s0(2) by (simp add: s1_def inv_over_def server_blocs_def)
  obtain s2 S2 where s2: "ofold rma_arrive (zip (map msg_place blocs) xss) s1 = Inr s2" "server_inv s2 T (reserved H blocs) S2" "buffers_changed s1 s2"
    "\<forall>w. \<exists>ys. S2 w = S w @ ys" "(\<lambda>w. length (S2 w)) = reserved H blocs" "list_all2 (bloc_at s2 T S2) (map msg_bloc blocs) xss"
    using rma_arrive_all [OF inv1 pl sizes xss] unfolding L by auto
  note c = buffers_changedD [OF s2(3)]
  have on: "ps_onTransfer s2 = [(t, map msg_bloc blocs)]" using c(4) s0(5) blocs(1) by (simp add: s1_def on_transfer_def)
  have comp: "ps_completed s2 = ps_completed s" using c(3) s0(3) by (simp add: s1_def kept_def)
  define s3 where "s3 = s2\<lparr>ps_pendingRma := [], ps_completed := ps_completed s @ [(t, map msg_bloc blocs)],
    ps_nbSenders := std_erase t (ps_nbSenders s2), ps_onTransfer := []\<rparr>"
  have "\<exists>fe'. testPendingRequests (Some xss) (s1, fe) = Inr (s3, fe')"
    using s2(1) c(5) s0(4) on comp std_insert_last [OF new] fe
    by (simp add: testPendingRequests_def s1_def s3_def event_transferred_def Let_def)
  have bytes2: "server_bytes s3 bl = server_bytes s2 bl" for bl by (simp add: server_bytes_def s3_def)
  have "server_blocs s3 = server_blocs s2" using comp on by (simp add: server_blocs_def s3_def event_blocs_def)
  then have inv3: "server_inv s3 T (reserved H blocs) S2" using s2(2) by (simp add: s3_def inv_over_def)
  have len: "\<forall>w. length (S2 w) = reserved H blocs w" using s2(5) by (simp add: fun_eq_iff)
  have "in_order (ps_completed s3)" using in_order_snoc [OF inv(5) new] by (simp add: s3_def)
  with inv3 len have ok3: "server_ok s3 T (reserved H blocs)" by (auto simp: server_ok_def s3_def)
  have old: "server_bytes s3 bl = server_bytes s bl" if bl: "bl \<in> set (event_blocs (ps_completed s))" for bl
  proof -
    obtain xs where xs: "bloc_at s T S bl xs" using arrived_all [OF inv(1), of bl] inv(2) bl by (auto simp: server_blocs_def)
    have "sizes_kept s s2" using s0(6) changed_sizes [OF s2(3)] by (simp add: sizes_kept_def s1_def)
    then have "bloc_at s2 T S2 bl xs" using bloc_at_later [OF xs] s2(4) by blast
    then show ?thesis using bloc_at_bytes [OF s2(2)] bloc_at_bytes [OF inv(1) xs] bytes2 by simp
  qed
  have "map (server_bytes s3) (map msg_bloc blocs) = xss"
    using s2(6) bloc_at_bytes [OF s2(2)] bytes2 by (auto simp: list_all2_conv_all_nth intro!: nth_equalityI)
  then have "server_queue s3 = server_queue s @ [(t, concat xss)]"
    using old by (simp add: server_queue_def s3_def [THEN arg_cong [where f = ps_completed]] event_blocs_def) (force intro: map_cong arg_cong [where f = concat])
  moreover have "sizes_kept s s3" using s0(6) changed_sizes [OF s2(3)] by (simp add: sizes_kept_def s1_def s3_def)
  moreover have "ps_deleted s3 = ps_deleted s" using c(1) s0(3) by (simp add: s3_def s1_def kept_def)
  moreover have "one_more (msg_window ` set blocs) s s3"
  proof -
    have "ps_bufferResize s2 = ps_bufferResize s1" using s2(3) by (auto simp: buffers_changed_def)
    then show ?thesis using s0(8) c(2) by (simp add: one_more_def s3_def s1_def)
  qed
  moreover have "\<forall>m\<in>set blocs. map_option sb_size (buffer_at (msg_window m) s3) = Some (sz (msg_window m))"
    using sizes c(10) by (simp add: s3_def)
  moreover have "ps_pendingBlocs s3 = rest" using c(6) s0(3) pend by (simp add: s3_def s1_def kept_def)
  moreover have "ps_pendingRma s1 = map msg_place blocs" using s0(4) by (simp add: s1_def)
  ultimately show ?thesis using tr \<open>\<exists>fe'. _\<close> ok3 by blast
qed

lemma erase_first: "in_order ((t, v) # m) \<Longrightarrow> std_erase t ((t, v) # m) = m"
  by (force simp: in_order_def std_erase_def filter_id_conv)

lemma fill_first:
  assumes ok: "server_ok s T H" and q: "server_queue s = (t, bytes) # q"
  shows "\<exists>s1 T1. fillEventServer t arrived (s, fe) = omap (\<lambda>r. (bytes, r)) (ps_eventLoop arrived (s1, fe)) \<and> server_ok s1 T1 H
    \<and> server_queue s1 = q \<and> ps_pendingBlocs s1 = ps_pendingBlocs s \<and> ps_bufferResize s1 = ps_bufferResize s \<and> shrunk s s1"
proof -
  obtain S where inv: "server_inv s T H S" "\<And>w. length (S w) = H w" "ps_pendingRma s = []" "ps_onTransfer s = []" "in_order (ps_completed s)"
    using ok by (auto simp: server_ok_def)
  obtain bls rest where c: "ps_completed s = (t, bls) # rest" "bytes = concat (map (server_bytes s) bls)"
    "q = map (\<lambda>(t, bls). (t, concat (map (server_bytes s) bls))) rest"
    using q by (auto simp: server_queue_def map_eq_Cons_conv)
  have all: "server_blocs s = bls @ event_blocs rest" using c(1) inv(4) by (simp add: server_blocs_def event_blocs_def)
  have at: "bloc_at s T S bl (server_bytes s bl)" if "bl \<in> set (server_blocs s)" for bl
    using arrived_all [OF inv(1) _ that] inv(2) bloc_at_bytes [OF inv(1)] by blast
  have "list_all2 (bloc_at s T S) bls (map (server_bytes s) bls)" using at by (auto simp: list_all2_conv_all_nth all)
  from take_blocs_ok [OF inv(1) [unfolded all] this, of "[]"] obtain s' T' where
    s': "ofold take_bloc bls ([], s) = Inr (bytes, s')" "inv_over s' (event_blocs rest) T' H S" "same_rest s s'"
      "\<forall>x\<in>set (event_blocs rest). \<forall>ys. bloc_at s T S x ys \<longrightarrow> bloc_at s' T' S x ys"
    using c(2) by auto
  define s1 where "s1 = s'\<lparr>ps_completed := rest\<rparr>"
  have r: "ps_completed s' = ps_completed s" "ps_onTransfer s' = []" "ps_pendingRma s' = []" "ps_pendingBlocs s' = ps_pendingBlocs s"
    "ps_bufferResize s' = ps_bufferResize s"
    using arg_cong [OF s'(3) [unfolded same_rest_def], of ps_completed] arg_cong [OF s'(3) [unfolded same_rest_def], of ps_onTransfer]
      arg_cong [OF s'(3) [unfolded same_rest_def], of ps_pendingRma] arg_cong [OF s'(3) [unfolded same_rest_def], of ps_pendingBlocs]
      arg_cong [OF s'(3) [unfolded same_rest_def], of ps_bufferResize] inv(3,4) by simp_all
  have "server_inv s1 T' H S" using s'(2) r(2) by (simp add: s1_def inv_over_def server_blocs_def event_blocs_def)
  moreover have "in_order rest" using inv(5) by (simp add: c(1) in_order_def)
  ultimately have ok1: "server_ok s1 T' H" using inv(2) r by (auto simp: server_ok_def s1_def)
  have "server_bytes s1 x = server_bytes s x" if x: "x \<in> set (event_blocs rest)" for x
  proof -
    have "bloc_at s' T' S x (server_bytes s x)" using s'(4) at x by (simp add: all)
    then have "server_bytes s' x = server_bytes s x" by (rule bloc_at_bytes [OF s'(2)])
    then show ?thesis by (simp add: server_bytes_def s1_def)
  qed
  then have "server_queue s1 = q"
    by (simp add: server_queue_def s1_def [THEN arg_cong [where f = ps_completed]] event_blocs_def c(3)) (force intro: arg_cong [where f = concat])
  moreover have "fillEventServer t arrived (s, fe) = omap (\<lambda>r. (bytes, r)) (ps_eventLoop arrived (s1, fe))"
    using s'(1) c(1) r(1) erase_first [of t bls rest] inv(5) by (simp add: fillEventServer_def std_at_def s1_def case_prod_beta')
  moreover have "shrunk s s1" using take_blocs_shrunk [OF s'(1)] by (simp add: shrunk_def s1_def)
  ultimately show ?thesis using ok1 r by (auto simp: s1_def)
qed

section \<open>Whether there is room\<close>

definition msg_total :: "bloc_msg list \<Rightarrow> nat" where "msg_total blocs = sum_list (map msg_count blocs)"

lemma space_for_total:
  assumes "\<forall>m\<in>set blocs. msg_window m = w" "buffer_at w s \<noteq> None" "space_for s w used blocs" "used \<le> remainSize w s" "remainSize w s < 2 ^ 64"
  shows "used + msg_total blocs \<le> remainSize w s"
  using assms
proof (induction blocs arbitrary: used)
  case (Cons m blocs)
  obtain a k st where m: "m = (a, k, w, st)" using Cons.prems(1) by (metis list.set_intros(1) bloc_entry_simps(1) prod_cases4)
  have "k \<le> remainSize w s - used" "space_for s w (used + k) blocs"
    using Cons.prems(2-5) sub_t [of used "remainSize w s"] by (auto simp: m Let_def split: if_splits)
  then have "used + k + msg_total blocs \<le> remainSize w s"
    using Cons.IH [of "used + k"] Cons.prems(1,2,4,5) by auto
  then show ?case by (simp add: m msg_total_def)
qed (simp add: msg_total_def)

lemma reserved_total: "\<forall>m\<in>set blocs. msg_window m = w \<Longrightarrow> reserved H blocs w = H w + msg_total blocs"
proof (induction blocs arbitrary: H)
  case (Cons m blocs)
  obtain a k st where m: "m = (a, k, w, st)" using Cons.prems by (metis list.set_intros(1) bloc_entry_simps(1) prod_cases4)
  then show ?case using Cons by (simp add: msg_total_def)
qed (simp add: msg_total_def)

lemma remain_room:
  assumes r: "ring (sb_size b) (sb_start b) (sb_end b) (sb_count b) T H" and k: "k \<le> sb_remain b"
    and full: "sb_end b \<noteq> sb_start b" and last: "0 < H \<longrightarrow> k < sb_size b"
  shows "room (sb_size b) T (H + k)"
proof (cases "T = 0")
  case True
  then have "sb_start b = sb_size b" "sb_end b = H" "H \<le> sb_size b" "sb_count b = H" using r by (simp_all add: ring_def)
  then show ?thesis using True k full by (auto simp: room_def sb_remain_def split: if_splits)
next
  case T: False
  then have lap: "(sb_start b < H mod sb_size b \<and> H - T = H mod sb_size b - sb_start b - 1)
      \<or> (H mod sb_size b \<le> sb_start b \<and> H - T + sb_start b + 1 = sb_size b + H mod sb_size b)" using ring_lap [OF r] by simp
  have c: "sb_count b = H - T" "T \<le> H" using r by (simp_all add: ring_def)
  show ?thesis
  proof (cases "H = T")
    case True
    then show ?thesis using T last k c by (auto simp: room_def sb_remain_def)
  next
    case False
    then have e: "k \<le> (if sb_end b < sb_start b then sb_start b - sb_end b else sb_size b - sb_end b)"
      using k c by (simp add: sb_remain_def split: if_splits)
    have "sb_end b = H mod sb_size b \<or> sb_end b = sb_size b" using r by (auto simp: ring_def)
    moreover have "sb_start b < sb_size b" "H < T + sb_size b" using ring_end_le [OF r] r T by (simp_all add: ring_def)
    ultimately show ?thesis using e lap full T c(2) unfolding room_def by (auto split: if_splits)
  qed
qed

end
