(* ===== verification/P2pLink.thy ===== *)
theory P2pLink
  imports P2pClaims
begin

text \<open>
  A client and its server together: as long as the server follows the client, the rings of the one
  mirror those of the other, and the events come out at the server as they went in at the client.
\<close>

section \<open>The invariant of the link\<close>

definition linked :: "p2p_client \<Rightarrow> p2p_server \<Rightarrow> bool" where
  "linked c s \<longleftrightarrow> (\<exists>Tc S T H. client_inv c Tc S \<and> server_ok s T H \<and> (\<forall>(w, b)\<in>set (pc_buffers c). H w = length (S w)))
   \<and> pc_sentBlocRequest c = map bl_addr (pc_blocs c) \<and> ps_pendingBlocs s = [] \<and> ps_bufferResize s = []
   \<and> pc_currentMirror c + 1 = ps_deleted s + int (length (ps_buffers s)) \<and> (0 \<le> pc_currentMirror c \<longrightarrow> ps_buffers s \<noteq> [])
   \<and> (pc_buffers c = [] \<longrightarrow> pc_currentBufferSize c = 0) \<and> (pc_currentMirror c < 0 \<longrightarrow> pc_buffers c = [])
   \<and> (\<forall>w b k. buffer_at w s = Some b \<longrightarrow> buffer_size c w = Some k \<longrightarrow> sb_size b = k) \<and> \<not> pc_isFinalized c"

lemma chain_det: "chain sz p bls q \<Longrightarrow> chain sz p bls q' \<Longrightarrow> q = q'"
  by (induction bls arbitrary: p) auto

lemma reserved_other: "\<forall>m\<in>set msgs. msg_window m \<noteq> w \<Longrightarrow> reserved H msgs w = H w"
proof (induction msgs arbitrary: H)
  case (Cons m msgs)
  obtain a k v st where m: "m = (a, k, v, st)" by (metis prod_cases4)
  with Cons show ?case by simp
qed simp

lemma bloc_msg_simps [simp]: "msg_window (bloc_msg_of bl) = bl_window bl" "msg_count (bloc_msg_of bl) = bl_count bl"
  by (simp_all add: bloc_msg_of_def)

text \<open>Blocks that lie one behind the other in each buffer are at the places of a message.\<close>

lemma chain_places:
  assumes "\<forall>bl\<in>set bls. bl_window bl = bl_buffer bl \<and> chain (sz (bl_buffer bl)) (H (bl_buffer bl)) (in_buffer (bl_buffer bl) bls) (H' (bl_buffer bl))"
  shows "places sz H (map bloc_msg_of bls) \<and> (\<forall>bl\<in>set bls. reserved H (map bloc_msg_of bls) (bl_buffer bl) = H' (bl_buffer bl))"
  using assms
proof (induction bls arbitrary: H)
  case (Cons x bls)
  define w where "w = bl_buffer x"
  define H1 where "H1 = H(w := H w + bl_count x)"
  have x: "bl_window x = w" "bl_start x = H w mod sz w" "0 < bl_count x" "H w mod sz w + bl_count x \<le> sz w"
    "chain (sz w) (H w + bl_count x) (in_buffer w bls) (H' w)" using Cons.prems by (auto simp: w_def)
  have "\<forall>bl\<in>set bls. bl_window bl = bl_buffer bl \<and> chain (sz (bl_buffer bl)) (H1 (bl_buffer bl)) (in_buffer (bl_buffer bl) bls) (H' (bl_buffer bl))"
  proof
    fix bl assume bl: "bl \<in> set bls"
    then have "bl_window bl = bl_buffer bl" "chain (sz (bl_buffer bl)) (H (bl_buffer bl)) (in_buffer (bl_buffer bl) (x # bls)) (H' (bl_buffer bl))"
      using Cons.prems by simp_all
    then show "bl_window bl = bl_buffer bl \<and> chain (sz (bl_buffer bl)) (H1 (bl_buffer bl)) (in_buffer (bl_buffer bl) bls) (H' (bl_buffer bl))"
      using x(5) by (cases "bl_buffer bl = w") (auto simp: H1_def w_def)
  qed
  from Cons.IH [OF this] have ih: "places sz H1 (map bloc_msg_of bls)" "\<forall>bl\<in>set bls. reserved H1 (map bloc_msg_of bls) (bl_buffer bl) = H' (bl_buffer bl)"
    by blast+
  have m: "bloc_msg_of x = (bl_addr x, bl_count x, w, bl_start x)" by (simp add: bloc_msg_of_def x(1))
  have r: "reserved H (map bloc_msg_of (x # bls)) = reserved H1 (map bloc_msg_of bls)" by (simp add: m H1_def)
  have "reserved H1 (map bloc_msg_of bls) w = H' w"
  proof (cases "\<exists>bl\<in>set bls. bl_buffer bl = w")
    case True
    with ih(2) show ?thesis by auto
  next
    case False
    then have "in_buffer w bls = []" by (auto simp: in_buffer_def filter_empty_conv)
    moreover have "\<forall>m\<in>set (map bloc_msg_of bls). msg_window m \<noteq> w" using False Cons.prems by auto
    ultimately show ?thesis using reserved_other [of "map bloc_msg_of bls" w H1] x(5) by (simp add: H1_def)
  qed
  with ih have "\<forall>bl\<in>set (x # bls). reserved H1 (map bloc_msg_of bls) (bl_buffer bl) = H' (bl_buffer bl)" by (simp add: w_def)
  moreover have "places sz H (map bloc_msg_of (x # bls))" using ih(1) x(2-4) by (simp add: m H1_def)
  ultimately show ?case by (simp only: r)
qed simp

lemma space_for_prefix: "space_for s l u (A @ B) \<Longrightarrow> space_for s l u A"
proof (induction A arbitrary: l u)
  case (Cons m A)
  obtain a k w st where m: "m = (a, k, w, st)" by (metis prod_cases4)
  from Cons.prems Cons.IH show ?case by (auto simp: m Let_def split: if_splits)
qed simp

text \<open>The windows of an event come in order: those of the first window are a prefix.\<close>

lemma sorted_prefix:
  "sorted (map f ms) \<Longrightarrow> \<forall>m\<in>set ms. w \<le> f m \<Longrightarrow> \<exists>A B. ms = A @ B \<and> (\<forall>m\<in>set A. f m = w) \<and> (\<forall>m\<in>set B. (w :: int) < f m)"
proof (induction ms)
  case (Cons m ms)
  show ?case
  proof (cases "f m = w")
    case True
    obtain A B where "ms = A @ B" "\<forall>m\<in>set A. f m = w" "\<forall>m\<in>set B. w < f m" using Cons by auto
    with True show ?thesis by (intro exI [where x = "m # A"] exI [where x = B]) simp
  next
    case False
    with Cons.prems show ?thesis by (intro exI [where x = "[]"] exI [where x = "m # ms"]) force
  qed
qed simp

lemma reserved_append: "reserved H (A @ B) = reserved (reserved H A) B"
  by (simp add: reserved_def)

section \<open>One event\<close>

text \<open>The client writes an event; its control messages reach the server in order, and the bytes of its
  blocks are on the way.\<close>

definition announce :: "nat \<Rightarrow> nat \<Rightarrow> byte list \<Rightarrow> p2p_client \<times> p2p_server \<times> full_events
    \<Rightarrow> (byte list list \<times> p2p_client \<times> p2p_server \<times> full_events) outcome" where
  "announce t nbSenders xs = (\<lambda>(c, s, fe). omap (\<lambda>(written, msgs, bls, c').
     (map (bloc_bytes (pc_buffers c')) bls, c', fold (\<lambda>m (s, fe). receivedRequest m s fe) msgs (s, fe)))
     (writeEvent t nbSenders xs c))"

lemma in_ids: "client_inv c T S \<Longrightarrow> w \<in> fst ` set (pc_buffers c) \<longleftrightarrow> (\<exists>k. buffer_size c w = Some k)"
proof
  assume inv: "client_inv c T S"
  show "w \<in> fst ` set (pc_buffers c) \<Longrightarrow> \<exists>k. buffer_size c w = Some k"
    using client_invD(2) [OF inv, of w] by (auto simp: buffer_size_def)
  show "\<exists>k. buffer_size c w = Some k \<Longrightarrow> w \<in> fst ` set (pc_buffers c)"
    by (auto simp: buffer_size_def dest!: cb_at_SomeD intro: rev_image_eqI)
qed

lemma client_chain:
  assumes inv: "client_inv c T S" and w: "buffer_size c w = Some k"
  shows "chain k (T w) (in_buffer w (pc_blocs c)) (length (S w))" "0 < k \<and> k < 2 ^ 63" "room k (T w) (length (S w))" "w \<le> pc_currentMirror c"
    "T w \<le> length (S w)"
proof -
  obtain b where b: "(w, b) \<in> set (pc_buffers c)" "cb_size b = k" using w by (auto simp: buffer_size_def dest: cb_at_SomeD)
  note d = client_invD(2) [OF inv b(1)]
  show "chain k (T w) (in_buffer w (pc_blocs c)) (length (S w))" "w \<le> pc_currentMirror c" using d b(2) by simp_all
  show "0 < k \<and> k < 2 ^ 63" "room k (T w) (length (S w))" "T w \<le> length (S w)" using d b(2) by (auto simp: cb_ok_def ring_def room_def split: if_splits)
qed

text \<open>What the new blocks of an event are to the server.\<close>

lemma event_places:
  assumes inv: "client_inv c T S" and inv1: "client_inv c1 T1 S1" and add: "adds c new xs c1" and gr: "grown c T S c1 T1 S1"
    and H: "\<forall>w. buffer_size c w \<noteq> None \<longrightarrow> H w = length (S w)" "\<forall>w>pc_currentMirror c. H w = 0"
  defines "sz \<equiv> \<lambda>w. case buffer_size c1 w of Some k \<Rightarrow> k | None \<Rightarrow> 0"
  shows "places sz H (map bloc_msg_of new)" "\<forall>w. buffer_size c1 w \<noteq> None \<longrightarrow> reserved H (map bloc_msg_of new) w = length (S1 w)"
    "\<forall>bl\<in>set new. bl_window bl = bl_buffer bl \<and> buffer_size c1 (bl_buffer bl) \<noteq> None \<and> pc_currentMirror c \<le> bl_buffer bl"
    "sorted (map msg_window (map bloc_msg_of new))"
proof -
  have bls: "pc_blocs c1 = pc_blocs c @ new" using add by (simp add: adds_def)
  have b: "bl_window bl = bl_buffer bl \<and> buffer_size c1 (bl_buffer bl) \<noteq> None \<and> pc_currentMirror c \<le> bl_buffer bl" if "bl \<in> set new" for bl
    using inv1 add that in_ids [OF inv1, of "bl_buffer bl"] by (auto simp: client_inv_def bls adds_def)
  then show "\<forall>bl\<in>set new. bl_window bl = bl_buffer bl \<and> buffer_size c1 (bl_buffer bl) \<noteq> None \<and> pc_currentMirror c \<le> bl_buffer bl" by blast
  have sorted: "sorted (map bl_buffer new)" using inv1 by (simp add: client_inv_def bls sorted_append)
  have eq: "map msg_window (map bloc_msg_of new) = map bl_buffer new" using b by simp
  show "sorted (map msg_window (map bloc_msg_of new))" unfolding eq by (rule sorted)
  have ch: "chain k (H w) (in_buffer w new) (length (S1 w))" if k: "buffer_size c1 w = Some k" for w k
  proof (cases "w \<le> pc_currentMirror c")
    case True
    then have g: "T1 w = T w" "buffer_size c w = Some k" using gr k by (simp_all add: grown_def)
    note 1 = client_chain(1) [OF inv1 k, unfolded bls g(1)] and 2 = client_chain(1) [OF inv g(2)]
    then obtain m where m: "chain k (T w) (in_buffer w (pc_blocs c)) m" "chain k m (in_buffer w new) (length (S1 w))" by (auto simp: chain_append)
    have "m = H w" using chain_det [OF m(1) 2] H(1) g(2) by simp
    with m(2) show ?thesis by simp
  next
    case False
    then have "T1 w = 0" "H w = 0" using gr H(2) client_chain(4) [OF inv1 k] by (simp_all add: grown_def)
    moreover have "in_buffer w (pc_blocs c) = []"
    proof -
      have "bl_buffer bl \<le> pc_currentMirror c" if "bl \<in> set (pc_blocs c)" for bl using inv that unfolding client_inv_def by fastforce
      with False show ?thesis by (fastforce simp: in_buffer_def filter_empty_conv)
    qed
    ultimately show ?thesis using client_chain(1) [OF inv1 k] by (simp add: bls)
  qed
  have "\<forall>bl\<in>set new. bl_window bl = bl_buffer bl \<and> chain (sz (bl_buffer bl)) (H (bl_buffer bl)) (in_buffer (bl_buffer bl) new) (length (S1 (bl_buffer bl)))"
  proof
    fix bl assume "bl \<in> set new"
    from b [OF this] obtain k where "buffer_size c1 (bl_buffer bl) = Some k" "bl_window bl = bl_buffer bl" by blast
    with ch show "bl_window bl = bl_buffer bl \<and> chain (sz (bl_buffer bl)) (H (bl_buffer bl)) (in_buffer (bl_buffer bl) new) (length (S1 (bl_buffer bl)))"
      by (simp add: sz_def)
  qed
  from chain_places [OF this] have p: "places sz H (map bloc_msg_of new)"
    "\<forall>bl\<in>set new. reserved H (map bloc_msg_of new) (bl_buffer bl) = length (S1 (bl_buffer bl))" by blast+
  show "places sz H (map bloc_msg_of new)" by (rule p)
  show "\<forall>w. buffer_size c1 w \<noteq> None \<longrightarrow> reserved H (map bloc_msg_of new) w = length (S1 w)"
  proof (intro allI impI)
    fix w assume "buffer_size c1 w \<noteq> None"
    then obtain k where k: "buffer_size c1 w = Some k" by blast
    show "reserved H (map bloc_msg_of new) w = length (S1 w)"
    proof (cases "\<exists>bl\<in>set new. bl_buffer bl = w")
      case False
      then have "in_buffer w new = []" by (auto simp: in_buffer_def filter_empty_conv)
      moreover have "\<forall>m\<in>set (map bloc_msg_of new). msg_window m \<noteq> w" using False b by auto
      ultimately show ?thesis using ch [OF k] reserved_other by simp
    qed (use p(2) in auto)
  qed
qed

text \<open>The rings of the server have room for the event, when they pass its check and are not full.\<close>

lemma event_room:
  assumes inv: "server_inv s T H S" and b: "buffer_at w s = Some b" and ms: "sorted (map msg_window ms)" "\<forall>m\<in>set ms. w \<le> msg_window m"
    and space: "space_for s (-1) 0 ms" and full: "sb_end b \<noteq> sb_start b" and last: "0 < H w \<longrightarrow> reserved H ms w < H w + sb_size b"
  shows "room (sb_size b) (T w) (reserved H ms w)"
proof -
  obtain A B where AB: "ms = A @ B" "\<forall>m\<in>set A. msg_window m = w" "\<forall>m\<in>set B. w < msg_window m" using sorted_prefix [OF ms] by blast
  have r: "ring (sb_size b) (sb_start b) (sb_end b) (sb_count b) (T w) (H w)" using server_invD(1) [OF inv b] by (simp add: sb_ok_def)
  have "reserved H ms w = reserved H A w" using reserved_other [of B w "reserved H A"] AB(1,3) by (auto simp: reserved_append)
  then have H: "reserved H ms w = H w + msg_total A" using reserved_total [OF AB(2)] by simp
  have "sb_remain b \<le> sb_size b" using ring_end_le [OF r] by (auto simp: sb_remain_def)
  moreover have "sb_size b < 2 ^ 63" using r by (simp add: ring_def)
  ultimately have rem: "remainSize w s = sb_remain b" "remainSize w s < 2 ^ 64" using b by (simp_all add: remainSize_def)
  have "msg_total A \<le> sb_remain b"
  proof (cases A)
    case (Cons m A')
    then obtain a k st where m: "m = (a, k, w, st)" using AB(2) by (metis list.set_intros(1) bloc_entry_simps(1) prod_cases4)
    have "space_for s (-1) 0 A" using space_for_prefix space AB(1) by simp
    then have "space_for s w 0 A" by (simp add: Cons m Let_def b)
    then show ?thesis using space_for_total [OF AB(2), of s 0] b rem by simp
  qed (simp add: msg_total_def)
  with remain_room [OF r _ full] last H show ?thesis by simp
qed

text \<open>The state of the server that was told of an event.\<close>

definition told :: "nat \<Rightarrow> nat \<Rightarrow> bloc_msg list \<Rightarrow> (nat \<times> nat) list \<Rightarrow> p2p_server \<Rightarrow> p2p_server" where
  "told t nbSenders ms resize s = s\<lparr>ps_nbSenders := std_put t nbSenders (ps_nbSenders s), ps_pendingBlocs := [(t, ms)], ps_bufferResize := resize\<rparr>"

lemma told_simps [simp]: "buffer_at w (told t n ms r s) = buffer_at w s" "server_blocs (told t n ms r s) = server_blocs s"
  "server_bytes (told t n ms r s) bl = server_bytes s bl" "ps_completed (told t n ms r s) = ps_completed s"
  "ps_pendingBlocs (told t n ms r s) = [(t, ms)]" "ps_bufferResize (told t n ms r s) = r" "ps_deleted (told t n ms r s) = ps_deleted s"
  "ps_buffers (told t n ms r s) = ps_buffers s"
  by (simp_all add: told_def buffer_at_def server_blocs_def server_bytes_def)

lemma told_queue [simp]: "server_queue (told t n ms r s) = server_queue s"
  unfolding server_queue_def by (simp cong: map_cong)

lemma told_ok: "server_ok s T H \<Longrightarrow> server_ok (told t n ms r s) T H"
  unfolding server_ok_def inv_over_def told_simps by (simp add: told_def)

lemma announce_told:
  assumes "linked c s" and w: "write_loop xs 0 c = Some (Inr (length new, c1))" "pc_blocs c1 = pc_blocs c @ new" and free: "pc_isBufferFree (length xs) c"
  shows "\<exists>fe1. announce t n xs (c, s, fe) = Inr (map (bloc_bytes (pc_buffers c1)) new, c1\<lparr>pc_sentBlocRequest := pc_sentBlocRequest c1 @ map bl_addr new\<rparr>,
     told t n (map bloc_msg_of new) (if pc_currentBufferSize c1 \<noteq> pc_currentBufferSize c then [(t, pc_currentBufferSize c1)] else []) s, fe1)
     \<and> map_of (fe_pending fe1) t \<noteq> None"
proof -
  have s: "ps_pendingBlocs s = []" "ps_bufferResize s = []" using assms(1) by (simp_all add: linked_def)
  have "drop (length (pc_blocs c1) - length new) (pc_blocs c1) = new" using w(2) by simp
  with w(1) free s show ?thesis
    by (auto simp: announce_def writeEvent_def writeBuffer_def sendTimelineEvent_def Let_def told_def std_at_def map_of_std_put)
qed

lemma exchange:
  assumes link: "linked c s" and free: "pc_isBufferFree (length xs) c" and wr: "writable xs c" and new: "\<forall>e\<in>set (ps_completed s). fst e < t"
    and ann: "announce t n xs (c, s, fe) = Inr (xss, c', s1, fe1)"
    and resize: "pc_currentMirror c' \<noteq> pc_currentMirror c \<longrightarrow> pc_currentBufferSize c' \<noteq> pc_currentBufferSize c"
    and space: "space_for s1 (-1) 0 (snd (hd (ps_pendingBlocs s1)))"
    and full: "\<forall>b. buffer_at (pc_currentMirror c) s = Some b \<longrightarrow> sb_end b \<noteq> sb_start b"
  shows "\<exists>s2 s3 fe3. transferEvents s1 = Inr s2 \<and> testPendingRequests (Some xss) (s2, fe1) = Inr (s3, fe3) \<and> linked c' s3
    \<and> server_queue s3 = server_queue s @ [(t, xs)]"
proof -
  obtain Tc S T H where inv: "client_inv c Tc S" and sok: "server_ok s T H" and HS: "\<forall>(w, b)\<in>set (pc_buffers c). H w = length (S w)"
    using link by (auto simp: linked_def)
  note l = link [unfolded linked_def]
  obtain bls c1 T1 S1 where w: "write_loop xs 0 c = Some (Inr (length bls, c1))" "client_inv c1 T1 S1" "adds c bls xs c1" "grown c Tc S c1 T1 S1"
    "\<exists>bl\<in>set bls. bl_buffer bl = pc_currentMirror c1"
    and grows: "(pc_buffers c = [] \<longrightarrow> pc_currentBufferSize c = 0) \<longrightarrow>
       pc_currentMirror c1 = pc_currentMirror c \<and> pc_currentBufferSize c1 = pc_currentBufferSize c
       \<or> pc_currentMirror c1 = pc_currentMirror c + 1 \<and> buffer_size c1 (pc_currentMirror c1) = Some (pc_currentBufferSize c1)"
    using write_loop_writes [OF inv wr, of 0] unfolding add_0 by blast
  have grows: "pc_currentMirror c1 = pc_currentMirror c \<and> pc_currentBufferSize c1 = pc_currentBufferSize c
       \<or> pc_currentMirror c1 = pc_currentMirror c + 1 \<and> buffer_size c1 (pc_currentMirror c1) = Some (pc_currentBufferSize c1)"
    using grows l by blast
  define ms where "ms = map bloc_msg_of bls"
  define r where "r = (if pc_currentBufferSize c1 \<noteq> pc_currentBufferSize c then [(t, pc_currentBufferSize c1)] else [])"
  have bls: "pc_blocs c1 = pc_blocs c @ bls" using w(3) by (simp add: adds_def)
  have a: "xss = map (bloc_bytes (pc_buffers c1)) bls" "c' = c1\<lparr>pc_sentBlocRequest := pc_sentBlocRequest c1 @ map bl_addr bls\<rparr>"
    "s1 = told t n ms r s" "map_of (fe_pending fe1) t \<noteq> None"
    using announce_told [OF link w(1) bls free, of t n fe] ann by (auto simp: ms_def r_def)
  have H: "\<forall>w. buffer_size c w \<noteq> None \<longrightarrow> H w = length (S w)" "\<forall>w>pc_currentMirror c. H w = 0"
    using HS l sok by (auto simp: buffer_size_def server_ok_def inv_over_def dest!: cb_at_SomeD)
  define sz where "sz w = (case buffer_size c1 w of Some k \<Rightarrow> k | None \<Rightarrow> 0)" for w
  note pl = event_places [OF inv w(2,3,4) H, folded sz_def [abs_def], folded ms_def]
  obtain S0 where si: "server_inv s T H S0" "\<And>w. length (S0 w) = H w" using sok by (auto simp: server_ok_def)
  have inv1: "server_inv s1 T H S0" using si(1) by (simp add: a(3) inv_over_def)
  have nxt: "ps_deleted s + int (length (ps_buffers s)) = pc_currentMirror c + 1" using l by simp
  have msw: "\<exists>bl\<in>set bls. msg_window m = bl_buffer bl" if "m \<in> set ms" for m using that pl(3) by (auto simp: ms_def)
  have there: "buffer_at (pc_currentMirror c) s \<noteq> None" if "buffer_size c (pc_currentMirror c) \<noteq> None"
  proof -
    have "pc_buffers c \<noteq> []" using that by (auto simp: buffer_size_def)
    then have "ps_buffers s \<noteq> []" using l by force
    then have "0 < length (ps_buffers s)" by simp
    then show ?thesis using nxt unfolding buffer_at_None by linarith
  qed
  have mirror: "room (sz (bl_buffer bl)) (T (bl_buffer bl)) (reserved H ms (bl_buffer bl)) \<and> window_of t s1 (bl_buffer bl) (sz (bl_buffer bl))"
    if bl: "bl \<in> set bls" for bl
  proof -
    define v where "v = bl_buffer bl"
    obtain k where k: "buffer_size c1 v = Some k" "sz v = k" using pl(3) bl by (auto simp: v_def sz_def)
    have v: "pc_currentMirror c \<le> v" "v \<le> pc_currentMirror c1" using pl(3) bl client_chain(4) [OF w(2) k(1)] by (auto simp: v_def)
    have Hv: "reserved H ms v = length (S1 v)" using pl(2) k(1) by simp
    show ?thesis
    proof (cases "v = pc_currentMirror c")
      case True
      then have kc: "buffer_size c v = Some k" "T1 v = Tc v" using w(4) k(1) by (simp_all add: grown_def)
      have "buffer_at v s \<noteq> None" using there kc(1) by (simp add: True)
      then obtain b where b: "buffer_at v s = Some b" by blast
      have bk: "sb_size b = k" using l b kc(1) by blast
      have "sb_end b \<noteq> sb_start b" using full b True by blast
      moreover have hv: "H v = length (S v)" using H(1) kc(1) by simp
      have "length (S1 v) < H v + k" if "0 < H v"
      proof -
        have t: "Tc v = 0 \<Longrightarrow> length (S1 v) \<le> k" "Tc v \<noteq> 0 \<Longrightarrow> length (S1 v) < Tc v + k"
          using client_chain(3) [OF w(2) k(1)] kc(2) by (simp_all add: room_def)
        have le: "Tc v \<le> H v" using client_chain(5) [OF inv kc(1)] hv by simp
        show ?thesis
        proof (cases "Tc v = 0")
          case True
          show ?thesis using t(1) [OF True] that by linarith
        next
          case False
          show ?thesis using t(2) [OF False] le by linarith
        qed
      qed
      then have "0 < H v \<longrightarrow> reserved H ms v < H v + sb_size b" by (simp add: Hv bk)
      moreover have "sorted (map msg_window ms)" "\<forall>m\<in>set ms. v \<le> msg_window m" using pl(3,4) True by (auto simp: ms_def)
      ultimately have "room (sb_size b) (T v) (reserved H ms v)" using event_room [OF inv1, of v b ms] b space a(3) by simp
      then show ?thesis using k b bk by (simp add: v_def window_of_def a(3))
    next
      case False
      then have n: "v = pc_currentMirror c + 1" "pc_currentMirror c1 = pc_currentMirror c + 1" using v grows by auto
      moreover have "buffer_size c1 (pc_currentMirror c1) = Some (pc_currentBufferSize c1)" using grows n by simp
      ultimately have n: "v = pc_currentMirror c + 1" "pc_currentMirror c1 = pc_currentMirror c + 1" "k = pc_currentBufferSize c1"
        using k(1) by simp_all
      then have "T v = 0" "H v = 0" using si(1) nxt by (simp_all add: inv_over_def)
      moreover have "T1 v = 0" using w(4) n by (simp add: grown_def)
      moreover have "buffer_at v s = None" using nxt n(1) by (simp add: buffer_at_None)
      moreover have "r = [(t, k)]" using resize n by (simp add: a(2) r_def)
      ultimately show ?thesis using client_chain(2,3) [OF w(2) k(1)] Hv k(2) nxt n(1) by (simp add: v_def window_of_def a(3))
    qed
  qed
  have mi: "mirrors sz t ms s1 T H"
    unfolding mirrors_def
  proof (intro conjI ballI)
    fix b m assume "b \<in> set (server_blocs s1)" "m \<in> set ms"
    then have "buffer_at (sl_buffer b) s \<noteq> None" "pc_currentMirror c \<le> msg_window m" using si(1) pl(3) by (auto simp: inv_over_def a(3) ms_def)
    then show "sl_buffer b \<le> msg_window m" using nxt unfolding buffer_at_None by simp
  next
    fix m assume "m \<in> set ms"
    then obtain bl where "bl \<in> set bls" "msg_window m = bl_buffer bl" using msw by blast
    with mirror show "room (sz (msg_window m)) (T (msg_window m)) (reserved H ms (msg_window m))" "window_of t s1 (msg_window m) (sz (msg_window m))"
      by simp_all
  qed (use pl(1,4) in simp_all)
  have ne: "ms \<noteq> []" using w(5) by (auto simp: ms_def)
  have lens: "list_all2 (\<lambda>m xs. length xs = msg_count m) ms xss"
  proof -
    have "length (bloc_bytes (pc_buffers c1) bl) = bl_count bl" if "bl \<in> set bls" for bl
      using bloc_place [OF w(2), of bl] that bls by auto
    then show ?thesis by (simp add: ms_def a(1) list_all2_map1 list_all2_map2 list.rel_refl_strong)
  qed
  obtain e where e: "map_of (fe_pending fe1) t = Some e" using a(4) by blast
  obtain s2 s3 fe3 where x: "transferEvents s1 = Inr s2" "testPendingRequests (Some xss) (s2, fe1) = Inr (s3, fe3)" "server_ok s3 T (reserved H ms)"
    "ps_pendingBlocs s3 = []" "server_queue s3 = server_queue s1 @ [(t, concat xss)]" "sizes_kept s1 s3" "ps_deleted s3 = ps_deleted s1"
    "one_more (msg_window ` set ms) s1 s3" "\<forall>m\<in>set ms. map_option sb_size (buffer_at (msg_window m) s3) = Some (sz (msg_window m))"
    using transfer_arrive [of s1 T H t ms "[]" sz xss fe1 e] told_ok [OF sok] new mi ne space lens e a(3) by auto
  have "server_queue s3 = server_queue s @ [(t, xs)]" using x(5) a(1,3) w(3) by (simp add: adds_def)
  moreover have "linked c' s3"
    unfolding linked_def
  proof (intro conjI allI impI)
    have "client_inv c' T1 S1" using w(2) by (simp add: a(2) client_inv_def)
    moreover have "\<forall>(w, b)\<in>set (pc_buffers c'). reserved H ms w = length (S1 w)"
      using pl(2) in_ids [OF w(2)] by (force simp: a(2))
    ultimately show "\<exists>Tc S T H. client_inv c' Tc S \<and> server_ok s3 T H \<and> (\<forall>(w, b)\<in>set (pc_buffers c'). H w = length (S w))"
      using x(3) by blast
    show "pc_sentBlocRequest c' = map bl_addr (pc_blocs c')" using l w(3) by (simp add: a(2) adds_def)
    show "ps_pendingBlocs s3 = []" by (rule x(4))
    show "\<not> pc_isFinalized c'" using l w(3) by (simp add: a(2) adds_def)
    have more: "if pc_currentMirror c1 = pc_currentMirror c then length (ps_buffers s3) = length (ps_buffers s) \<and> ps_bufferResize s3 = []
      else length (ps_buffers s3) = Suc (length (ps_buffers s)) \<and> ps_bufferResize s3 = []"
    proof (cases "pc_currentMirror c1 = pc_currentMirror c")
      case True
      have "buffer_at v s \<noteq> None" if v: "v \<in> msg_window ` set ms" for v
      proof -
        obtain m where m: "m \<in> set ms" "v = msg_window m" using v by blast
        obtain bl where "bl \<in> set bls" "v = bl_buffer bl" using msw [OF m(1)] m(2) by blast
        then have "pc_currentMirror c \<le> v" "buffer_size c1 v \<noteq> None" using pl(3) by auto
        moreover from this have "v \<le> pc_currentMirror c" using client_chain(4) [OF w(2), of v] True by auto
        ultimately have "v = pc_currentMirror c" "buffer_size c v \<noteq> None" using w(4) by (simp_all add: grown_def)
        then show ?thesis using there by blast
      qed
      with x(8) True grows show ?thesis by (simp add: one_more_def a(3) r_def)
    next
      case False
      then have n: "pc_currentMirror c1 = pc_currentMirror c + 1" using grows by blast
      obtain bl where bl: "bl \<in> set bls" "bl_buffer bl = pc_currentMirror c + 1" using w(5) n by auto
      then have "bl_buffer bl \<in> msg_window ` set ms" using pl(3) by (force simp: ms_def)
      moreover have "buffer_at (bl_buffer bl) s = None" using nxt bl(2) by (simp add: buffer_at_None)
      ultimately have "\<not> (\<forall>v\<in>msg_window ` set ms. buffer_at v s1 \<noteq> None)" by (auto simp only: a(3) told_simps)
      with x(8) have "length (ps_buffers s3) = Suc (length (ps_buffers s1))" "ps_bufferResize s3 = tl (ps_bufferResize s1)"
        unfolding one_more_def by simp_all
      with False show ?thesis by (simp add: a(3) r_def)
    qed
    show "ps_bufferResize s3 = []" using more by (simp split: if_splits)
    show "pc_currentMirror c' + 1 = ps_deleted s3 + int (length (ps_buffers s3))"
      using more grows nxt x(7) by (auto simp: a(2,3) split: if_splits)
    show "0 \<le> pc_currentMirror c' \<Longrightarrow> ps_buffers s3 \<noteq> []" using more l grows by (auto simp: a(2) split: if_splits)
    obtain bl where bl: "bl \<in> set bls" "bl_buffer bl = pc_currentMirror c1" using w(5) by blast
    then have last: "buffer_size c1 (pc_currentMirror c1) \<noteq> None" using pl(3) by auto
    then show "pc_buffers c' = [] \<Longrightarrow> pc_currentBufferSize c' = 0" by (simp add: a(2) buffer_size_def)
    have "0 \<le> pc_currentMirror c'"
    proof (rule ccontr)
      assume "\<not> 0 \<le> pc_currentMirror c'"
      moreover have "-1 \<le> pc_currentMirror c" using inv by (simp add: client_inv_def)
      ultimately have "pc_currentMirror c1 = pc_currentMirror c" "pc_currentMirror c < 0" using grows by (auto simp: a(2))
      then have "buffer_size c1 (pc_currentMirror c1) = None" using w(4) l by (simp add: grown_def buffer_size_def)
      with last show False ..
    qed
    then show "pc_currentMirror c' < 0 \<Longrightarrow> pc_buffers c' = []" by simp
    fix v b k assume b: "buffer_at v s3 = Some b" and "buffer_size c' v = Some k"
    then have k: "buffer_size c1 v = Some k" by (simp add: a(2) buffer_size_def)
    show "sb_size b = k"
    proof (cases "v \<le> pc_currentMirror c")
      case True
      then have kc: "buffer_size c v = Some k" using w(4) k by (simp add: grown_def)
      have "ps_deleted s \<le> v" using b x(7) by (simp add: buffer_at_Some a(3))
      then have "buffer_at v s \<noteq> None" using nxt True unfolding buffer_at_None by simp
      then obtain b0 where b0: "buffer_at v s = Some b0" by blast
      have "sb_size b0 = k" using l b0 kc by blast
      then have "map_option sb_size (buffer_at v s1) = Some k" using b0 by (simp add: a(3))
      then have "map_option sb_size (buffer_at v s3) = Some k" using x(6) unfolding sizes_kept_def by blast
      with b show ?thesis by simp
    next
      case False
      then have "v = pc_currentMirror c1" using grows client_chain(4) [OF w(2) k] by auto
      then have "bloc_msg_of bl \<in> set ms" "msg_window (bloc_msg_of bl) = v" using bl pl(3) by (simp_all add: ms_def)
      then have "map_option sb_size (buffer_at v s3) = Some (sz v)" using x(9) by metis
      with b k show ?thesis by (simp add: sz_def)
    qed
  qed
  ultimately show ?thesis using x(1,2) by blast
qed

end
