(* ===== verification/P2pRun.thy ===== *)
theory P2pRun
  imports P2pLink
begin

text \<open>
  Runs of a client with its server: the client writes events and frees what was sent, the server
  takes the events over and hands them on.
\<close>

section \<open>Freeing keeps the link\<close>

definition size_at :: "(int \<times> cbuffer) list \<Rightarrow> int \<Rightarrow> nat option" where
  "size_at bs i = map_option cb_size (cb_at i bs)"

definition fewer :: "(int \<times> cbuffer) list \<Rightarrow> (int \<times> cbuffer) list \<Rightarrow> bool" where
  "fewer bs bs' \<longleftrightarrow> bs' \<noteq> [] \<and> distinct (map fst bs') \<and> (\<forall>i k. size_at bs' i = Some k \<longrightarrow> size_at bs i = Some k)"

lemma fewer_trans: "fewer bs bs1 \<Longrightarrow> fewer bs1 bs2 \<Longrightarrow> fewer bs bs2"
  by (auto simp: fewer_def)

lemma delete_front_fewer:
  assumes "delete_front bs = Inr bs'" "distinct (map fst bs)" "1 < length bs"
  shows "fewer bs bs'"
proof -
  obtain i b rest where bs: "bs = (i, b) # rest" "bs' = rest" "rest \<noteq> []"
    using assms(1,3) by (auto simp: delete_front_def split: list.splits if_splits)
  have "cb_at i rest = None" using assms(2) bs(1) by (cases "cb_at i rest") (auto dest!: cb_at_SomeD simp: rev_image_eqI)
  with assms(2) bs show ?thesis by (auto simp: fewer_def size_at_def)
qed

lemma freeBloc_fewer:
  assumes f: "freeBloc bl bs = Inr bs'" and d: "distinct (map fst bs)" and ne: "bs \<noteq> []"
  shows "fewer bs bs'"
proof -
  obtain b where b: "cb_at (bl_buffer bl) bs = Some b" using f by (cases "cb_at (bl_buffer bl) bs") (auto simp: freeBloc_def)
  define b' where "b' = cb_free (bl_start bl) (bl_count bl) b"
  define bs1 where "bs1 = map (\<lambda>(j, x). (j, if j = bl_buffer bl then b' else x)) bs"
  have "map fst bs1 = map fst bs" "bs1 \<noteq> []" using ne by (simp_all add: bs1_def case_prod_beta comp_def)
  moreover have "size_at bs1 i = size_at bs i" for i
    using b by (auto simp: size_at_def bs1_def cb_at_map b'_def cb_free_def)
  ultimately have 1: "fewer bs bs1" "distinct (map fst bs1)" using d by (simp_all add: fewer_def)
  have "bs' = bs1 \<or> delete_front bs1 = Inr bs' \<and> 1 < length bs1"
    using f b unfolding freeBloc_def Let_def bs1_def b'_def by (auto split: if_splits)
  then show ?thesis using 1 delete_front_fewer fewer_trans by blast
qed

lemma free_until_fewer:
  "free_until addr bls bs = Inr (bls', bs') \<Longrightarrow> distinct (map fst bs) \<Longrightarrow> bs \<noteq> [] \<Longrightarrow> fewer bs bs'"
proof (induction addr bls bs rule: free_until.induct)
  case (2 addr bl bls bs)
  then obtain bs1 where bs1: "freeBloc bl bs = Inr bs1" by (auto simp: outcome_simps)
  note f = freeBloc_fewer [OF bs1 2(3,4)]
  show ?case
  proof (cases "addr = bl_addr bl")
    case True
    with 2(2) bs1 f show ?thesis by simp
  next
    case False
    with 2(2) bs1 have "free_until addr bls bs1 = Inr (bls', bs')" by simp
    moreover have "distinct (map fst bs1)" "bs1 \<noteq> []" using f by (simp_all add: fewer_def)
    ultimately have "fewer bs1 bs'" using 2(1) [OF bs1] False by blast
    with f show ?thesis by (rule fewer_trans)
  qed
qed simp

lemma release_linked:
  assumes link: "linked c s" and k: "k \<le> length (pc_blocs c)" and run: "pc_eventLoop k False c = Inr c'"
  shows "linked c' s"
proof -
  obtain Tc S T H where inv: "client_inv c Tc S" and sok: "server_ok s T H" and HS: "\<forall>(w, b)\<in>set (pc_buffers c). H w = length (S w)"
    using link by (auto simp: linked_def)
  note l = link [unfolded linked_def]
  have nf: "\<not> pc_isFinalized c" using l by blast
  have sent: "pc_sentBlocRequest c = map bl_addr (pc_blocs c)" using l by blast
  show ?thesis
  proof (cases "k = 0")
    case True
    then have "c' = c" using run nf by (simp add: pc_eventLoop_def pc_freeBuffer_def Let_def)
    with link show ?thesis by simp
  next
    case False
    then obtain pre bl where b: "pc_blocs c = pre @ bl # drop k (pc_blocs c)" "take k (pc_blocs c) = pre @ [bl]"
      using take_last [of k "pc_blocs c"] k by blast
    obtain bs T' where bs: "free_until (bl_addr bl) (pc_blocs c) (pc_buffers c) = Inr (drop k (pc_blocs c), bs)"
      "client_inv (c\<lparr>pc_blocs := drop k (pc_blocs c), pc_buffers := bs\<rparr>) T' S" using free_until_ok [OF inv b(1)] by blast
    have tk: "take k (pc_sentBlocRequest c) = map bl_addr pre @ [bl_addr bl]" using b(2) by (simp add: sent take_map)
    have ad: "(if take k (pc_sentBlocRequest c) = [] then None else Some (last (take k (pc_sentBlocRequest c)))) = Some (bl_addr bl)"
      unfolding tk by simp
    have c': "c' = c\<lparr>pc_sentBlocRequest := drop k (pc_sentBlocRequest c), pc_blocs := drop k (pc_blocs c), pc_buffers := bs\<rparr>"
      using run bs(1) nf unfolding pc_eventLoop_def Let_def ad by (simp add: pc_freeBuffer_def)
    have ne: "pc_buffers c \<noteq> []" using bloc_place [OF inv, of bl] b(1) by (metis empty_iff in_set_conv_decomp list.set(1))
    have few: "fewer (pc_buffers c) bs" using free_until_fewer [OF bs(1) client_invD(1) [OF inv] ne] .
    have inv': "client_inv c' T' S" using bs(2) by (simp add: c' client_inv_def)
    have sz: "buffer_size c' w = Some n \<Longrightarrow> buffer_size c w = Some n" for w n
      using few by (simp add: c' fewer_def buffer_size_def size_at_def)
    have "\<forall>(w, b)\<in>set (pc_buffers c'). H w = length (S w)"
    proof safe
      fix w b assume "(w, b) \<in> set (pc_buffers c')"
      then obtain n where "buffer_size c w = Some n" using in_ids [OF inv', of w] sz by force
      then obtain b' where "(w, b') \<in> set (pc_buffers c)" by (auto simp: buffer_size_def dest: cb_at_SomeD)
      with HS show "H w = length (S w)" by blast
    qed
    moreover have "\<forall>w b n. buffer_at w s = Some b \<longrightarrow> buffer_size c' w = Some n \<longrightarrow> sb_size b = n" using l sz by blast
    ultimately show ?thesis using l inv' sok few ne
      unfolding linked_def by (auto simp: c' drop_map fewer_def)
  qed
qed

section \<open>Handing on keeps the link\<close>

lemma idle_loop:
  assumes ok: "server_ok s T H" and pend: "ps_pendingBlocs s = []"
  shows "\<exists>s'. ps_eventLoop arrived (s, fe) = Inr (s', fe) \<and> server_ok s' T H \<and> server_queue s' = server_queue s \<and> shrunk s s'
    \<and> ps_pendingBlocs s' = [] \<and> ps_bufferResize s' = ps_bufferResize s"
proof -
  obtain S where inv: "server_inv s T H S" and rest: "\<forall>w. length (S w) = H w" "ps_pendingRma s = []" "ps_onTransfer s = []" "in_order (ps_completed s)"
    using ok by (auto simp: server_ok_def)
  show ?thesis
  proof (cases "1 < length (ps_buffers s) \<and> sb_count (hd (ps_buffers s)) = 0")
    case False
    then have "ps_eventLoop arrived (s, fe) = Inr (s, fe)" using rest(2) pend by (auto simp: ps_eventLoop_def transferEvents_def)
    with ok pend show ?thesis using shrunk_refl by blast
  next
    case True
    obtain s' where s': "erase_front s = Inr s'" "inv_over s' (server_blocs s) T H S"
      "\<forall>bl\<in>set (server_blocs s). buffer_at (sl_buffer bl) s' = buffer_at (sl_buffer bl) s"
      "s' = s\<lparr>ps_buffers := tl (ps_buffers s), ps_deleted := ps_deleted s + 1\<rparr>"
      using erase_front_ok [OF inv] True by auto
    have run: "ps_eventLoop arrived (s, fe) = Inr (s', fe)"
      using True s'(1) rest(2) pend by (simp add: ps_eventLoop_def transferEvents_def)
    have same: "server_blocs s' = server_blocs s" "ps_completed s' = ps_completed s" "ps_pendingRma s' = []" "ps_onTransfer s' = []"
      "ps_pendingBlocs s' = []" "ps_bufferResize s' = ps_bufferResize s"
      using rest pend by (simp_all add: s'(4) server_blocs_def)
    have "server_bytes s' bl = server_bytes s bl" if "bl \<in> set (event_blocs (ps_completed s))" for bl
      using s'(3) that by (simp add: server_bytes_def server_blocs_def)
    then have "server_queue s' = server_queue s"
      by (simp add: server_queue_def same event_blocs_def) (force intro: arg_cong [where f = concat])
    moreover have "server_ok s' T H" using s'(2) rest same by (auto simp: server_ok_def)
    ultimately show ?thesis using run same erase_front_shrunk [OF s'(1)] True by blast
  qed
qed

lemma hand_on_linked:
  assumes link: "linked c s" and q: "server_queue s = (t, bytes) # q"
  shows "\<exists>s'. fillEventServer t arrived (s, fe) = Inr (bytes, s', fe) \<and> linked c s' \<and> server_queue s' = q"
proof -
  obtain Tc S T H where inv: "client_inv c Tc S" and sok: "server_ok s T H" and HS: "\<forall>(w, b)\<in>set (pc_buffers c). H w = length (S w)"
    using link by (auto simp: linked_def)
  note l = link [unfolded linked_def]
  obtain s1 T1 where s1: "fillEventServer t arrived (s, fe) = omap (\<lambda>r. (bytes, r)) (ps_eventLoop arrived (s1, fe))" "server_ok s1 T1 H"
    "server_queue s1 = q" "ps_pendingBlocs s1 = ps_pendingBlocs s" "ps_bufferResize s1 = ps_bufferResize s" "shrunk s s1"
    using fill_first [OF sok q, of arrived fe] by blast
  have "ps_pendingBlocs s1 = []" using s1(4) l by simp
  from idle_loop [OF s1(2) this, of arrived fe] obtain s' where s': "ps_eventLoop arrived (s1, fe) = Inr (s', fe)" "server_ok s' T1 H"
    "server_queue s' = server_queue s1" "shrunk s1 s'" "ps_pendingBlocs s' = []" "ps_bufferResize s' = ps_bufferResize s1" by blast
  have sh: "shrunk s s'" using shrunk_trans [OF s1(6) s'(4)] .
  have "\<forall>w b k. buffer_at w s' = Some b \<longrightarrow> buffer_size c w = Some k \<longrightarrow> sb_size b = k"
  proof (intro allI impI)
    fix w b k assume b: "buffer_at w s' = Some b" "buffer_size c w = Some k"
    then have "map_option sb_size (buffer_at w s) = Some (sb_size b)" using sh by (simp add: shrunk_def)
    then obtain b0 where "buffer_at w s = Some b0" "sb_size b0 = sb_size b" by auto
    with l b(2) show "sb_size b = k" by metis
  qed
  moreover have "\<exists>Tc S T H. client_inv c Tc S \<and> server_ok s' T H \<and> (\<forall>(w, b)\<in>set (pc_buffers c). H w = length (S w))"
    using inv s'(2) HS by blast
  moreover have "ps_bufferResize s' = []" "ps_deleted s' + int (length (ps_buffers s')) = pc_currentMirror c + 1"
    "0 \<le> pc_currentMirror c \<longrightarrow> ps_buffers s' \<noteq> []" using s'(6) s1(5) sh l by (auto simp: shrunk_def)
  ultimately have "linked c s'" using l s'(5) unfolding linked_def by presburger
  with s1(1,3) s'(1,3) show ?thesis by auto
qed

section \<open>Runs\<close>

text \<open>What a client needs to write an event: a free buffer, fewer than \<open>MAX_WINDOWS\<close> buffers made (and one fewer
  when it holds none), with a fixed size an event that is not larger, and sizes below \<open>2 ^ 63\<close>.\<close>

definition can_write :: "byte list \<Rightarrow> p2p_client \<Rightarrow> bool" where
  "can_write xs c \<longleftrightarrow> pc_isBufferFree (length xs) c \<and> writable xs c"

lemma can_writeD: "can_write xs c \<Longrightarrow> pc_isBufferFree (length xs) c" "can_write xs c \<Longrightarrow> writable xs c"
  by (simp_all add: can_write_def)

text \<open>The check of the server lets the announced event pass, its current ring is not full, and a new
  buffer of the client has a new size.\<close>

definition can_transfer :: "p2p_client \<Rightarrow> p2p_server \<Rightarrow> p2p_client \<Rightarrow> p2p_server \<Rightarrow> bool" where
  "can_transfer c s c' s1 \<longleftrightarrow> space_for s1 (-1) 0 (snd (hd (ps_pendingBlocs s1)))
     \<and> (case buffer_at (pc_currentMirror c) s of None \<Rightarrow> True | Some b \<Rightarrow> sb_end b \<noteq> sb_start b)
     \<and> (pc_currentMirror c' = pc_currentMirror c \<or> pc_currentBufferSize c' \<noteq> pc_currentBufferSize c)"

text \<open>Runs, with the events that were written and those that were handed on.  The client starts without a
  fixed size and may be given one or have it taken back at any time.\<close>

inductive p2p_run :: "p2p_client \<Rightarrow> p2p_server \<Rightarrow> full_events \<Rightarrow> (nat \<times> byte list) list \<Rightarrow> (nat \<times> byte list) list \<Rightarrow> bool" where
  start: "p2p_run new_p2p_client (new_p2p_server rank) \<lparr>fe_pending = [], fe_completed = []\<rparr> [] []"
| event: "p2p_run c s fe W D \<Longrightarrow> can_write xs c \<Longrightarrow> \<forall>e\<in>set W. fst e < t
    \<Longrightarrow> announce t n xs (c, s, fe) = Inr (xss, c', s1, fe1) \<Longrightarrow> can_transfer c s c' s1
    \<Longrightarrow> transferEvents s1 = Inr s2 \<Longrightarrow> testPendingRequests (Some xss) (s2, fe1) = Inr (s3, fe3)
    \<Longrightarrow> p2p_run c' s3 fe3 (W @ [(t, xs)]) D"
| release: "p2p_run c s fe W D \<Longrightarrow> k \<le> length (pc_sentBlocRequest c) \<Longrightarrow> pc_eventLoop k False c = Inr c' \<Longrightarrow> p2p_run c' s fe W D"
| hand_on: "p2p_run c s fe W D \<Longrightarrow> ps_completed s = (t, bls) # rest \<Longrightarrow> fillEventServer t arrived (s, fe) = Inr (bytes, s', fe')
    \<Longrightarrow> p2p_run c s' fe' W (D @ [(t, bytes)])"
| set_fixed: "p2p_run c s fe W D \<Longrightarrow> p2p_run (setFixed sz c) s fe W D"
| set_growable: "p2p_run c s fe W D \<Longrightarrow> p2p_run (setGrowable factor c) s fe W D"

lemma linked_mode: "linked c s \<Longrightarrow> linked (setFixed sz c) s" "linked c s \<Longrightarrow> linked (setGrowable factor c) s"
  unfolding linked_def client_inv_def buffer_size_def by (simp_all add: setFixed_def setGrowable_def)

lemma start_linked: "linked new_p2p_client (new_p2p_server rank)"
proof -
  have "client_inv new_p2p_client (\<lambda>w. 0) (\<lambda>w. [])" by (simp add: client_inv_def new_p2p_client_def)
  moreover have "server_ok (new_p2p_server rank) (\<lambda>w. 0) (\<lambda>w. 0)"
    unfolding server_ok_def
    by (rule conjI, rule exI [where x = "\<lambda>w. []"]) (auto simp: inv_over_def new_p2p_server_def buffer_at_def server_blocs_def event_blocs_def)
  ultimately show ?thesis
    unfolding linked_def by (intro conjI exI [where x = "\<lambda>w. 0"] exI [where x = "\<lambda>w. []"])
      (simp_all add: new_p2p_client_def new_p2p_server_def buffer_at_def)
qed

lemma queue_before:
  assumes "W = D @ server_queue s" "\<forall>e\<in>set W. fst e < t"
  shows "\<forall>e\<in>set (ps_completed s). fst e < t"
proof
  fix e assume "e \<in> set (ps_completed s)"
  then have "fst e \<in> fst ` set (server_queue s)" by (force simp: server_queue_def)
  then obtain y where "y \<in> set W" "fst e = fst y" using assms(1) by auto
  with assms(2) show "fst e < t" by simp
qed

lemma run_linked: "p2p_run c s fe W D \<Longrightarrow> linked c s \<and> W = D @ server_queue s"
proof (induction rule: p2p_run.induct)
  case (start rank)
  show ?case using start_linked by (simp add: server_queue_def new_p2p_server_def)
next
  case (event c s fe W D xs t n xss c' s1 fe1 s2 s3 fe3)
  then have ih: "linked c s" "W = D @ server_queue s" by blast+
  have "\<forall>e\<in>set (ps_completed s). fst e < t" using queue_before [OF ih(2) event(3)] .
  moreover have "pc_currentMirror c' \<noteq> pc_currentMirror c \<longrightarrow> pc_currentBufferSize c' \<noteq> pc_currentBufferSize c"
    "space_for s1 (-1) 0 (snd (hd (ps_pendingBlocs s1)))"
    "\<forall>b. buffer_at (pc_currentMirror c) s = Some b \<longrightarrow> sb_end b \<noteq> sb_start b" using event(5) by (auto simp: can_transfer_def)
  ultimately obtain r2 r3 f3 where "transferEvents s1 = Inr r2" "testPendingRequests (Some xss) (r2, fe1) = Inr (r3, f3)" "linked c' r3"
    "server_queue r3 = server_queue s @ [(t, xs)]"
    using exchange [OF ih(1) can_writeD [OF event(2)] _ event(4)] by blast
  with event(6,7) ih(2) show ?case by simp
next
  case (release c s fe W D k c')
  then have "k \<le> length (pc_blocs c)" by (simp add: linked_def)
  with release release_linked show ?case by blast
next
  case (hand_on c s fe W D t bls rest arrived bytes s' fe')
  then obtain ys q where q: "server_queue s = (t, ys) # q" by (simp add: server_queue_def)
  from hand_on_linked [OF _ this, of c arrived fe] hand_on q show ?case by auto
qed (use linked_mode in blast)+

end
