(* ===== verification/P2pProps.thy ===== *)
theory P2pProps
  imports P2pRun
begin

text \<open>
  The properties of the point to point transport.  Their witnesses are runs of a client and a server
  whose only buffer has three bytes.
\<close>

section \<open>A small run\<close>

definition small_client :: "byte list \<Rightarrow> nat \<Rightarrow> nat \<Rightarrow> nat \<Rightarrow> (nat \<times> nat) list \<Rightarrow> p2p_client" where
  "small_client mem st e k blocs = \<lparr>pc_buffers = [(0, \<lparr>cb_mem = mem @ replicate 13 0, cb_start = st, cb_end = e, cb_count = k, cb_size = 3, cb_fixed = False\<rparr>)],
     pc_blocs = map (\<lambda>(p, n). \<lparr>bl_addr = (0, p), bl_buffer = 0, bl_start = p, bl_count = n, bl_window = 0\<rparr>) blocs,
     pc_currentMirror = 0, pc_currentBuffer = 0, pc_sentBlocRequest = map (\<lambda>(p, n). (0, p)) blocs, pc_fixed = False, pc_fixedSize = 0,
     pc_currentBufferSize = 3, pc_growingFactor = 6 / 5, pc_isFinalized = False\<rparr>"

definition small_server :: "byte list \<Rightarrow> nat \<Rightarrow> nat \<Rightarrow> nat \<Rightarrow> (nat \<times> nat \<times> nat) list \<Rightarrow> p2p_server" where
  "small_server mem st e k events = \<lparr>ps_clientRank = 0, ps_currentBufferSize = 3,
     ps_buffers = [\<lparr>sb_mem = mem, sb_start = st, sb_end = e, sb_count = k, sb_size = 3\<rparr>], ps_deleted = 0, ps_nbSenders = [],
     ps_pendingBlocs = [], ps_pendingRma = [], ps_onTransfer = [],
     ps_completed = map (\<lambda>(t, p, n). (t, [\<lparr>sl_buffer = 0, sl_start = p, sl_count = n, sl_addr = (0, p)\<rparr>])) events, ps_bufferResize = []\<rparr>"

definition small_events :: "nat list \<Rightarrow> full_events" where
  "small_events ts = \<lparr>fe_pending = map (\<lambda>t. (t, \<lparr>pe_nbSenders = 0, pe_currentNbSenders = 0, pe_buffers = [0]\<rparr>)) ts,
     fe_completed = map (\<lambda>t. (t, \<lparr>pe_nbSenders = 1, pe_currentNbSenders = 1, pe_buffers = [0]\<rparr>)) ts\<rparr>"

lemmas p2p_eval = small_client_def small_server_def small_events_def new_p2p_client_def new_p2p_server_def announce_def writeEvent_def
  writeBuffer_def pc_isBufferFree_def write_loop.simps first_buffer_def pc_newBuffer_def new_cbuffer_def write_part_def cb_write_def cb_store_def
  mem_copy_def sendTimelineEvent_def bloc_msg_of_def Let_def std_at_def arr_get_def MAX_WINDOWS_def maxSentBlocRequests_def bloc_bytes_def
  transferEvents_def transferEvent_def transfer_bloc_def reserve_loop.simps mirror_buffer_def buffer_at_def ps_newBuffer_def new_sbuffer_def
  sb_reserve_def set_buffer_def transferRmaRequest_def remainSize_def sb_remain_def sub_t_def testPendingRequests_def rma_arrive_def
  event_transferred_def std_insert_def std_erase_def next_buffer_def writable_def

lemma small_1:
  "\<exists>s1 fe1 s2. announce 1 1 [1, 2, 3] (new_p2p_client, new_p2p_server 0, \<lparr>fe_pending = [], fe_completed = []\<rparr>)
      = Inr ([[1, 2, 3]], small_client [1, 2, 3] 3 3 3 [(0, 3)], s1, fe1)
    \<and> can_transfer new_p2p_client (new_p2p_server 0) (small_client [1, 2, 3] 3 3 3 [(0, 3)]) s1
    \<and> transferEvents s1 = Inr s2 \<and> testPendingRequests (Some [[1, 2, 3]]) (s2, fe1) = Inr (small_server [1, 2, 3] 3 3 3 [(1, 0, 3)], small_events [1])"
  by (simp add: p2p_eval can_transfer_def)

lemma small_floor: "\<lfloor>18 / 5 :: rat\<rfloor> = 3"
  by (simp add: floor_eq_iff)

lemma small_run_1: "p2p_run (small_client [1, 2, 3] 3 3 3 [(0, 3)]) (small_server [1, 2, 3] 3 3 3 [(1, 0, 3)]) (small_events [1]) [(1, [1, 2, 3])] []"
proof -
  obtain s1 fe1 s2 where 1: "announce 1 1 [1, 2, 3] (new_p2p_client, new_p2p_server 0, \<lparr>fe_pending = [], fe_completed = []\<rparr>)
      = Inr ([[1, 2, 3]], small_client [1, 2, 3] 3 3 3 [(0, 3)], s1, fe1)"
    "can_transfer new_p2p_client (new_p2p_server 0) (small_client [1, 2, 3] 3 3 3 [(0, 3)]) s1"
    "transferEvents s1 = Inr s2" "testPendingRequests (Some [[1, 2, 3]]) (s2, fe1) = Inr (small_server [1, 2, 3] 3 3 3 [(1, 0, 3)], small_events [1])"
    using small_1 by blast
  have "can_write [1, 2, 3] new_p2p_client" by (simp add: can_write_def p2p_eval small_floor)
  from p2p_run.event [OF p2p_run.start this _ 1] show ?thesis by simp
qed

lemmas p2p_eval_free = small_client_def small_server_def small_events_def pc_eventLoop_def pc_freeBuffer_def freeBloc_def cb_free_def
  fillEventServer_def take_bloc_def sb_free_def ps_eventLoop_def buffer_at_def set_buffer_def sub_t_def std_at_def std_erase_def Let_def
  transferEvents_def

lemma small_run_2: "p2p_run (small_client [1, 2, 3] 2 3 0 []) (small_server [1, 2, 3] 2 3 0 []) (small_events [1]) [(1, [1, 2, 3])] [(1, [1, 2, 3])]"
proof -
  have r: "pc_eventLoop 1 False (small_client [1, 2, 3] 3 3 3 [(0, 3)]) = Inr (small_client [1, 2, 3] 2 3 0 [])"
    by (simp add: p2p_eval_free)
  have h: "fillEventServer 1 None (small_server [1, 2, 3] 3 3 3 [(1, 0, 3)], small_events [1])
      = Inr ([1, 2, 3], small_server [1, 2, 3] 2 3 0 [], small_events [1])" by (simp add: p2p_eval_free)
  have "p2p_run (small_client [1, 2, 3] 2 3 0 []) (small_server [1, 2, 3] 3 3 3 [(1, 0, 3)]) (small_events [1]) [(1, [1, 2, 3])] []"
    using p2p_run.release [OF small_run_1 _ r] by (simp add: small_client_def)
  from p2p_run.hand_on [OF this _ h] show ?thesis by (simp add: small_server_def)
qed

lemma small_3:
  "\<exists>s1 fe1 s2. announce 2 1 [4, 5] (small_client [1, 2, 3] 2 3 0 [], small_server [1, 2, 3] 2 3 0 [], small_events [1])
      = Inr ([[4, 5]], small_client [4, 5, 3] 2 2 2 [(0, 2)], s1, fe1)
    \<and> can_transfer (small_client [1, 2, 3] 2 3 0 []) (small_server [1, 2, 3] 2 3 0 []) (small_client [4, 5, 3] 2 2 2 [(0, 2)]) s1
    \<and> transferEvents s1 = Inr s2
    \<and> testPendingRequests (Some [[4, 5]]) (s2, fe1) = Inr (small_server [4, 5, 3] 2 2 2 [(2, 0, 2)], small_events [1, 2])"
  by (simp add: p2p_eval can_transfer_def)

lemma small_run_4: "p2p_run (small_client [4, 5, 3] 1 2 0 []) (small_server [4, 5, 3] 2 2 2 [(2, 0, 2)]) (small_events [1, 2])
    [(1, [1, 2, 3]), (2, [4, 5])] [(1, [1, 2, 3])]"
proof -
  obtain s1 fe1 s2 where 3: "announce 2 1 [4, 5] (small_client [1, 2, 3] 2 3 0 [], small_server [1, 2, 3] 2 3 0 [], small_events [1])
      = Inr ([[4, 5]], small_client [4, 5, 3] 2 2 2 [(0, 2)], s1, fe1)"
    "can_transfer (small_client [1, 2, 3] 2 3 0 []) (small_server [1, 2, 3] 2 3 0 []) (small_client [4, 5, 3] 2 2 2 [(0, 2)]) s1"
    "transferEvents s1 = Inr s2" "testPendingRequests (Some [[4, 5]]) (s2, fe1) = Inr (small_server [4, 5, 3] 2 2 2 [(2, 0, 2)], small_events [1, 2])"
    using small_3 by blast
  have w: "can_write [4, 5] (small_client [1, 2, 3] 2 3 0 [])" by (simp add: can_write_def p2p_eval small_floor)
  have e: "p2p_run (small_client [4, 5, 3] 2 2 2 [(0, 2)]) (small_server [4, 5, 3] 2 2 2 [(2, 0, 2)]) (small_events [1, 2])
      [(1, [1, 2, 3]), (2, [4, 5])] [(1, [1, 2, 3])]"
    using p2p_run.event [OF small_run_2 w _ 3] by simp
  have "pc_eventLoop 1 False (small_client [4, 5, 3] 2 2 2 [(0, 2)]) = Inr (small_client [4, 5, 3] 1 2 0 [])" by (simp add: p2p_eval_free)
  from p2p_run.release [OF e _ this] show ?thesis by (simp add: small_client_def)
qed

section \<open>Properties\<close>

text \<open>C13: in the runs of one client and its server the events that were written are those that the
  server has handed on followed by those it holds, each with its bytes: nothing is lost, changed,
  repeated or overtaken.  The runs are those of \<open>p2p_run\<close>: the client is given a fixed size or has it taken back
  at any time, the client frees what was sent and the server hands on the first event it holds, in any
  interleaving, before the connection is finalised; events are not empty, have growing time lines, are
  not larger than a fixed size and need a free buffer, with fewer than \<open>MAX_WINDOWS\<close> buffers made (\<open>can_write\<close>); and an event is transferred and complete before the next is written, by
  a server whose check passes, whose current ring is not full and that is told the size of a new buffer
  (\<open>can_transfer\<close>), so that no backlog of announced events builds up.\<close>

theorem events_in_order:
  assumes "p2p_run c s fe W D"
  shows "W = D @ server_queue s"
  using run_linked [OF assms] by simp

theorem events_in_order_witness:
  "\<exists>c s fe. p2p_run c s fe [(1, [1, 2, 3]), (2, [4, 5])] [(1, [1, 2, 3])] \<and> [(1, [1, 2, 3]), (2, [4, 5])] = [(1, [1, 2, 3])] @ server_queue s"
  using small_run_4 events_in_order [OF small_run_4] by blast

text \<open>C14: in these runs an event that the client can write (\<open>can_write\<close>: a free buffer, fewer than \<open>MAX_WINDOWS\<close> buffers made,
  with a fixed size an event that is not larger) is announced with its bytes, and when the check of the
  server passes, its current ring is not full and the client makes no new buffer or one of a new size,
  the server transfers the event without error.\<close>

theorem event_goes_through:
  assumes "p2p_run c s fe W D" "can_write xs c" "\<forall>e\<in>set W. fst e < t"
  shows "\<exists>xss c' s1 fe1. announce t n xs (c, s, fe) = Inr (xss, c', s1, fe1) \<and> concat xss = xs
    \<and> (can_transfer c s c' s1 \<longrightarrow> (\<exists>s2 s3 fe3. transferEvents s1 = Inr s2 \<and> testPendingRequests (Some xss) (s2, fe1) = Inr (s3, fe3)
         \<and> p2p_run c' s3 fe3 (W @ [(t, xs)]) D))"
proof -
  have link: "linked c s" "W = D @ server_queue s" using run_linked [OF assms(1)] by simp_all
  note w = can_writeD [OF assms(2)]
  obtain Tc S where inv: "client_inv c Tc S" using link(1) by (auto simp: linked_def)
  obtain bls c1 where b: "write_loop xs 0 c = Some (Inr (length bls, c1))" "adds c bls xs c1"
    using write_loop_writes [OF inv w(2), of 0] unfolding add_0 by blast
  obtain xss c' s1 fe1 where a: "announce t n xs (c, s, fe) = Inr (xss, c', s1, fe1)" "xss = map (bloc_bytes (pc_buffers c1)) bls"
    using announce_told [OF link(1) b(1) _ w(1), of t n fe] b(2) by (auto simp: adds_def)
  have "concat xss = xs" using a(2) b(2) by (simp add: adds_def)
  moreover have "\<exists>s2 s3 fe3. transferEvents s1 = Inr s2 \<and> testPendingRequests (Some xss) (s2, fe1) = Inr (s3, fe3)
      \<and> p2p_run c' s3 fe3 (W @ [(t, xs)]) D" if tr: "can_transfer c s c' s1"
  proof -
    have "\<forall>e\<in>set (ps_completed s). fst e < t" using queue_before [OF link(2) assms(3)] .
    moreover have "pc_currentMirror c' \<noteq> pc_currentMirror c \<longrightarrow> pc_currentBufferSize c' \<noteq> pc_currentBufferSize c"
      "space_for s1 (-1) 0 (snd (hd (ps_pendingBlocs s1)))"
      "\<forall>b. buffer_at (pc_currentMirror c) s = Some b \<longrightarrow> sb_end b \<noteq> sb_start b" using tr by (auto simp: can_transfer_def)
    ultimately obtain s2 s3 fe3 where x: "transferEvents s1 = Inr s2" "testPendingRequests (Some xss) (s2, fe1) = Inr (s3, fe3)"
      using exchange [OF link(1) w _ a(1)] by blast
    from p2p_run.event [OF assms a(1) tr x] x show ?thesis by blast
  qed
  ultimately show ?thesis using a(1) by blast
qed

theorem event_goes_through_witness:
  "\<exists>xss c' s1 fe1. announce 2 1 [4, 5] (small_client [1, 2, 3] 2 3 0 [], small_server [1, 2, 3] 2 3 0 [], small_events [1])
       = Inr (xss, c', s1, fe1) \<and> concat xss = [4, 5]
     \<and> (\<exists>s2 s3 fe3. transferEvents s1 = Inr s2 \<and> testPendingRequests (Some xss) (s2, fe1) = Inr (s3, fe3)
          \<and> p2p_run c' s3 fe3 [(1, [1, 2, 3]), (2, [4, 5])] [(1, [1, 2, 3])])"
proof -
  have w: "can_write [4, 5] (small_client [1, 2, 3] 2 3 0 [])" by (simp add: can_write_def p2p_eval small_floor)
  from small_3 event_goes_through [OF small_run_2 w, of 2 1] show ?thesis by auto
qed

text \<open>C17: the check of the server lets a full ring pass that has room behind its end: after a first
  event of three bytes, an event of two bytes that was sent but not handed on, and an event of one
  byte, the transfer of the last one never returns.\<close>

theorem full_ring_hangs:
  "\<exists>c s fe W D xss c' s1 fe1. p2p_run c s fe W D \<and> \<not> pc_fixed c \<and> can_write [6] c \<and> announce 3 1 [6] (c, s, fe) = Inr (xss, c', s1, fe1)
     \<and> space_for s1 (-1) 0 (snd (hd (ps_pendingBlocs s1))) \<and> transferEvents s1 = Inl (NonTermination ''transferEvent'')"
proof -
  define s1 where "s1 = told 3 1 [((0, 2), 1, 0, 2)] [] (small_server [4, 5, 3] 2 2 2 [(2, 0, 2)])"
  have w: "can_write [6] (small_client [4, 5, 3] 1 2 0 [])" by (simp add: can_write_def p2p_eval small_floor)
  have a: "\<exists>xss c' fe1. announce 3 1 [6] (small_client [4, 5, 3] 1 2 0 [], small_server [4, 5, 3] 2 2 2 [(2, 0, 2)], small_events [1, 2])
     = Inr (xss, c', s1, fe1)" by (simp add: p2p_eval s1_def told_def)
  have b: "buffer_at 0 s1 = Some \<lparr>sb_mem = [4, 5, 3], sb_start = 2, sb_end = 2, sb_count = 2, sb_size = 3\<rparr>"
    by (simp add: s1_def small_server_def buffer_at_def)
  then have "space_for s1 (-1) 0 [((0, 2), 1, 0, 2)]" by (simp add: remainSize_def sb_remain_def sub_t_def)
  moreover have "transferEvent 3 [((0, 2), 1, 0, 2)] s1 = Inl (NonTermination ''transferEvent'')"
    using reserve_loop_full [OF b, of 1 3] by (simp add: transferEvent_def transfer_bloc_def)
  moreover have "ps_pendingRma s1 = []" "ps_pendingBlocs s1 = [(3, [((0, 2), 1, 0, 2)])]" by (simp_all add: s1_def told_def small_server_def)
  ultimately have "space_for s1 (-1) 0 (snd (hd (ps_pendingBlocs s1)))" "transferEvents s1 = Inl (NonTermination ''transferEvent'')"
    by (simp_all add: transferEvents_def)
  moreover have "\<not> pc_fixed (small_client [4, 5, 3] 1 2 0 [])" by (simp add: small_client_def)
  ultimately show ?thesis using small_run_4 w a by blast
qed

section \<open>Events larger than the fixed size\<close>

text \<open>A client with the fixed size \<open>k\<close> whose last buffer is new: a turn of the loop fills it and makes the next
  one, the last turn writes what is left.\<close>

definition fresh_end :: "nat \<Rightarrow> int \<Rightarrow> p2p_client \<Rightarrow> bool" where
  "fresh_end k i c \<longleftrightarrow> pc_fixed c \<and> pc_fixedSize c = k \<and> pc_currentBufferSize c = k \<and> pc_currentMirror c = i
     \<and> (\<exists>bs. pc_buffers c = bs @ [(i, new_cbuffer k True)])"

lemma mem_copy_front: "length xs \<le> length mem \<Longrightarrow> \<exists>mem'. mem_copy 0 xs mem = Inr mem' \<and> length mem' = length mem"
  by (simp add: mem_copy_def)

lemma fill_new:
  assumes "fresh_end k i c" "0 < k" "n = min k (length xs)" "xs \<noteq> []"
  shows "\<exists>bl b. obind (write_part xs nb c) (\<lambda>(xs, nb, c). write_part xs nb c)
      = Inr (drop n xs, nb + 1, c\<lparr>pc_buffers := butlast (pc_buffers c) @ [(i, b)], pc_blocs := pc_blocs c @ [bl]\<rparr>)
    \<and> bl_window bl = i \<and> bl_start bl = 0 \<and> bl_count bl = n"
proof -
  obtain bs where bs: "pc_buffers c = bs @ [(i, new_cbuffer k True)]" "pc_currentMirror c = i" using assms(1) by (auto simp: fresh_end_def)
  have k: "k \<le> (k div 8 + 1) * 8 + 8" by presburger
  then have "length (take n xs) \<le> length (replicate ((k div 8 + 1) * 8 + 8) (0 :: byte))" using assms(3) by (simp only: length_take length_replicate)
  from mem_copy_front [OF this] obtain mem where mem: "mem_copy 0 (take n xs) (replicate ((k div 8 + 1) * 8 + 8) 0) = Inr mem"
    "length mem = (k div 8 + 1) * 8 + 8" by (simp only: length_replicate) blast
  let ?b = "\<lparr>cb_mem = mem, cb_start = k, cb_end = n, cb_count = n, cb_size = k, cb_fixed = True\<rparr>"
  have n: "0 < n" "n \<le> k" "n \<le> length xs" using assms(2-4) by auto
  have 1: "cb_write xs (new_cbuffer k True) = Inr (0, n, drop n xs, ?b)"
    using mem assms(2,3) n by (auto simp: cb_write_def new_cbuffer_def cb_store_def Let_def min_def split: if_splits)
  have 2: "\<exists>st. cb_write (drop n xs) ?b = Inr (st, 0, drop n xs, ?b)"
  proof (cases "n = k")
    case False
    then have "drop n xs = []" using assms(3) by auto
    moreover have "n \<le> length mem" using n(2) k mem(2) by simp
    ultimately show ?thesis using n False by (simp add: cb_write_def cb_store_def mem_copy_def)
  qed (simp add: cb_write_def)
  let ?bl = "\<lparr>bl_addr = (i, 0), bl_buffer = pc_currentBuffer c, bl_start = 0, bl_count = n, bl_window = i\<rparr>"
  from 2 obtain st where "cb_write (drop n xs) ?b = Inr (st, 0, drop n xs, ?b)" by blast
  then show ?thesis using 1 n by (intro exI [where x = ?bl] exI [where x = ?b]) (simp add: write_part_def bs Let_def)
qed

lemma fixed_loop:
  assumes "fresh_end k i c" "0 < k" "xs \<noteq> []" "length xs \<le> m * k" "0 \<le> i" "i + int m \<le> int MAX_WINDOWS"
  shows "\<exists>new c'. write_loop xs nb c = Some (Inr (nb + length new, c')) \<and> pc_blocs c' = pc_blocs c @ new \<and> pc_currentBufferSize c' = k
    \<and> (\<exists>bl rest. new = bl # rest \<and> bl_window bl = i \<and> bl_start bl = 0 \<and> bl_count bl = min k (length xs)
         \<and> (k < length xs \<longrightarrow> (\<exists>bl' rest'. rest = bl' # rest' \<and> bl_window bl' = i + 1)))"
  using assms
proof (induction m arbitrary: xs nb c i)
  case (Suc m)
  obtain bl b where t: "obind (write_part xs nb c) (\<lambda>(xs, nb, c). write_part xs nb c)
      = Inr (drop (min k (length xs)) xs, nb + 1, c\<lparr>pc_buffers := butlast (pc_buffers c) @ [(i, b)], pc_blocs := pc_blocs c @ [bl]\<rparr>)"
    "bl_window bl = i" "bl_start bl = 0" "bl_count bl = min k (length xs)" using fill_new [OF Suc.prems(1,2) refl Suc.prems(3)] by blast
  have c: "pc_fixed c" "pc_fixedSize c = k" "pc_currentBufferSize c = k" "pc_currentMirror c = i" "pc_buffers c \<noteq> []"
    using Suc.prems(1) by (auto simp: fresh_end_def)
  note turn = write_loop_turn [OF t(1) c(5) Suc.prems(3)]
  define c1 where "c1 = c\<lparr>pc_buffers := butlast (pc_buffers c) @ [(i, b)], pc_blocs := pc_blocs c @ [bl]\<rparr>"
  show ?case
  proof (cases "k < length xs")
    case False
    then have "write_loop xs nb c = Some (Inr (nb + length [bl], c1))" using turn by (simp add: c1_def [symmetric])
    then show ?thesis using t(2-4) c(3) False by (intro exI [where x = "[bl]"] exI [where x = c1]) (simp add: c1_def)
  next
    case True
    define c2 where "c2 = c1\<lparr>pc_currentMirror := i + 1, pc_buffers := pc_buffers c1 @ [(i + 1, new_cbuffer k True)], pc_currentBuffer := i + 1\<rparr>"
    have m: "0 < m" using True Suc.prems(4) by (cases m) simp_all
    then have "i + 1 < int MAX_WINDOWS" using Suc.prems(6) by simp
    moreover have "c1\<lparr>pc_currentBufferSize := k\<rparr> = c1" using c(3) by (simp add: c1_def)
    moreover have "pc_fixed c1" "pc_fixedSize c1 = k" "pc_currentMirror c1 = i" "pc_currentBufferSize c1 = k" using c by (simp_all add: c1_def)
    ultimately have "next_buffer (length (drop k xs)) c1 = Inr c2" using Suc.prems(5)
      by (simp add: next_buffer_def pc_newBuffer_def Let_def c2_def)
    then have run: "write_loop xs nb c = write_loop (drop k xs) (nb + 1) c2" using turn True by (simp add: c1_def [symmetric] min_absorb1)
    have "fresh_end k (i + 1) c2" using c by (simp add: fresh_end_def c1_def c2_def)
    moreover have "drop k xs \<noteq> []" "length (drop k xs) \<le> m * k" using True Suc.prems(4) by simp_all
    ultimately obtain new c' where n: "write_loop (drop k xs) (nb + 1) c2 = Some (Inr (nb + 1 + length new, c'))" "pc_blocs c' = pc_blocs c2 @ new"
      "pc_currentBufferSize c' = k" "\<exists>bl rest. new = bl # rest \<and> bl_window bl = i + 1"
      using Suc.IH [of "i + 1" c2 "drop k xs" "nb + 1"] Suc.prems(2,5,6) by auto
    then show ?thesis using run t(2-4) True by (intro exI [where x = "bl # new"] exI [where x = c']) (auto simp: c1_def c2_def)
  qed
qed simp

lemma fixed_write:
  assumes "0 < k" "k < length xs" "length xs \<le> MAX_WINDOWS * k"
  shows "\<exists>bl bl' rest c'. write_loop xs 0 (setFixed k new_p2p_client) = Some (Inr (length (bl # bl' # rest), c')) \<and> pc_blocs c' = bl # bl' # rest
    \<and> pc_currentBufferSize c' = k \<and> bl_window bl = 0 \<and> bl_start bl = 0 \<and> bl_count bl = k \<and> bl_window bl' = 1"
proof -
  define c where "c = setFixed k new_p2p_client"
  define c1 where "c1 = c\<lparr>pc_currentBufferSize := k, pc_currentMirror := 0, pc_buffers := [(0, new_cbuffer k True)], pc_currentBuffer := 0\<rparr>"
  have f: "first_buffer (length xs) c = Inr c1" "first_buffer (length xs) c1 = Inr c1"
    by (simp_all add: first_buffer_def c_def c1_def setFixed_def new_p2p_client_def pc_newBuffer_def arr_get_def MAX_WINDOWS_def Let_def)
  have "xs \<noteq> []" using assms by auto
  then have "write_loop xs 0 c = write_loop xs 0 c1" using f write_loop.simps [of xs 0 c] write_loop.simps [of xs 0 c1] by simp
  moreover have "fresh_end k 0 c1" "pc_blocs c1 = []" by (simp_all add: fresh_end_def c1_def c_def setFixed_def new_p2p_client_def)
  ultimately show ?thesis using fixed_loop [of k 0 c1 xs MAX_WINDOWS 0] assms \<open>xs \<noteq> []\<close> by (auto simp: c_def [symmetric] min_absorb1)
qed

lemma announce_written:
  assumes "pc_isBufferFree (length xs) c" "write_loop xs 0 c = Some (Inr (nb, c1))"
  shows "\<exists>c'. announce t n xs (c, s, fe) = (let bls = drop (length (pc_blocs c1) - nb) (pc_blocs c1);
      msgs = (if pc_currentBufferSize c1 \<noteq> pc_currentBufferSize c then [Resize t (pc_currentBufferSize c1)] else []) @ [Timeline t n (map bloc_msg_of bls)]
    in Inr (map (bloc_bytes (pc_buffers c1)) bls, c', fold (\<lambda>m (s, fe). receivedRequest m s fe) msgs (s, fe)))"
  using assms by (simp add: announce_def writeEvent_def writeBuffer_def sendTimelineEvent_def Let_def)

lemma reserve_loop_none:
  "buffer_at w s = None \<Longrightarrow> ps_bufferResize s = [] \<Longrightarrow> reserve_loop t a w k s = Some (Inl (UndefinedBehaviour ''read out of range''))"
  by (subst reserve_loop.simps) (simp add: mirror_buffer_def)

text \<open>The check of the server lets every block pass while no buffer is there and a resize waits.\<close>

lemma space_for_unmirrored: "ps_buffers s = [] \<Longrightarrow> ps_bufferResize s \<noteq> [] \<Longrightarrow> space_for s u e ms"
  by (induction s u e ms rule: space_for.induct) (simp_all add: buffer_at_def Let_def)

text \<open>The first block is transferred into the buffer of the resize, the second finds no buffer.\<close>

lemma transfer_unmirrored:
  assumes "ps_buffers s = []" "ps_deleted s = 0" "ps_bufferResize s = [(t, k)]" "0 < k" "ms = (a, k, 0, 0) # (a', k', 1, st') # rest"
  shows "transferEvent t ms s = Inl (UndefinedBehaviour ''read out of range'')"
proof -
  have "\<exists>s2. reserve_loop t a 0 k s = Some (Inr s2) \<and> buffer_at 1 s2 = None \<and> ps_bufferResize s2 = []"
    using assms(1-4) by (subst reserve_loop.simps) (simp add: mirror_buffer_def buffer_at_def ps_newBuffer_def new_sbuffer_def sb_reserve_def
        set_buffer_def transferRmaRequest_def Let_def)
  then obtain s2 where s2: "reserve_loop t a 0 k s = Some (Inr s2)" "buffer_at 1 s2 = None" "ps_bufferResize s2 = []" by blast
  then show ?thesis using reserve_loop_none [OF s2(2,3)] by (simp add: assms(5) transferEvent_def transfer_bloc_def)
qed

text \<open>C18: the first event of a client with the fixed size \<open>k\<close> that is larger than \<open>k\<close> (and not larger than the
  buffers the client can make) is spread over several new buffers, but the server is told of one new
  size only: its check lets the event pass, and its transfer reads behind the end of its list of
  buffers.\<close>

theorem large_event_unmirrored:
  assumes "0 < k" "k < length xs" "length xs \<le> MAX_WINDOWS * k"
  shows "\<exists>xss c' s1 fe1. announce t n xs (setFixed k new_p2p_client, new_p2p_server 0, \<lparr>fe_pending = [], fe_completed = []\<rparr>)
       = Inr (xss, c', s1, fe1)
     \<and> ps_bufferResize s1 = [(t, k)] \<and> (\<exists>m m' ms. ps_pendingBlocs s1 = [(t, m # m' # ms)] \<and> msg_window m = 0 \<and> msg_window m' = 1)
     \<and> space_for s1 (-1) 0 (snd (hd (ps_pendingBlocs s1))) \<and> transferEvents s1 = Inl (UndefinedBehaviour ''read out of range'')"
proof -
  define c where "c = setFixed k new_p2p_client"
  obtain bl bl' rest c1 where w: "write_loop xs 0 c = Some (Inr (length (bl # bl' # rest), c1))" "pc_blocs c1 = bl # bl' # rest"
    "pc_currentBufferSize c1 = k" "bl_window bl = 0" "bl_start bl = 0" "bl_count bl = k" "bl_window bl' = 1"
    using fixed_write [OF assms] by (auto simp: c_def)
  define ms where "ms = map bloc_msg_of (bl # bl' # rest)"
  define s1 where "s1 = told t n ms [(t, k)] (new_p2p_server 0)"
  have free: "pc_isBufferFree (length xs) c" "pc_currentBufferSize c = 0" by (simp_all add: c_def pc_isBufferFree_def setFixed_def new_p2p_client_def)
  have "\<exists>xss c' fe1. announce t n xs (c, new_p2p_server 0, \<lparr>fe_pending = [], fe_completed = []\<rparr>) = Inr (xss, c', s1, fe1)"
    using announce_written [OF free(1) w(1), of t n "new_p2p_server 0" "\<lparr>fe_pending = [], fe_completed = []\<rparr>"] assms(1) free(2) w(2,3)
    by (auto simp: Let_def s1_def told_def ms_def new_p2p_server_def std_at_def)
  moreover have s1: "ps_buffers s1 = []" "ps_deleted s1 = 0" "ps_bufferResize s1 = [(t, k)]" "ps_pendingBlocs s1 = [(t, ms)]" "ps_pendingRma s1 = []"
    by (simp_all add: s1_def told_def new_p2p_server_def)
  have m: "ms = (bl_addr bl, k, 0, 0) # (bl_addr bl', bl_count bl', 1, bl_start bl') # map bloc_msg_of rest"
    using w(4-7) by (simp add: ms_def bloc_msg_of_def)
  have sp: "space_for s1 (-1) 0 ms" using space_for_unmirrored s1(1,3) by simp
  then have "transferEvents s1 = Inl (UndefinedBehaviour ''read out of range'')"
    using transfer_unmirrored [OF s1(1-3) assms(1) m] by (simp add: transferEvents_def s1(4,5)) (simp add: m)
  ultimately show ?thesis using s1(3,4) sp m by (auto simp: c_def)
qed

theorem large_event_unmirrored_witness:
  "\<exists>xss c' s1 fe1. announce 1 1 [1, 2, 3, 4, 5] (setFixed 2 new_p2p_client, new_p2p_server 0, \<lparr>fe_pending = [], fe_completed = []\<rparr>)
       = Inr (xss, c', s1, fe1) \<and> transferEvents s1 = Inl (UndefinedBehaviour ''read out of range'')"
  using large_event_unmirrored [of 2 "[1, 2, 3, 4, 5]" 1 1] by (simp add: MAX_WINDOWS_def) blast


lemma linked_client_ok: "linked c s \<Longrightarrow> client_ok c"
  unfolding linked_def client_ok_def by blast

lemma small_client_ok: "client_ok (small_client [1, 2, 3] 3 3 3 [(0, 3)])" "client_ok new_p2p_client" "client_ok (small_client [1, 2, 3] 2 3 0 [])"
  using run_linked [OF small_run_1] run_linked [OF p2p_run.start] run_linked [OF small_run_2] linked_client_ok by blast+


text \<open>C16: when the first \<open>k\<close> of the blocks are found sent, the event loop of the client frees exactly
  these, and the bytes of the others stay.\<close>

theorem client_drops_sent:
  assumes "client_ok c" "k \<le> length (pc_blocs c)"
  shows "\<exists>c'. pc_eventLoop k finalized c = Inr c' \<and> client_ok c' \<and> client_queue c' = drop k (client_queue c)
    \<and> pc_sentBlocRequest c' = drop k (pc_sentBlocRequest c)"
  using eventLoop_frees [OF assms] .

theorem client_drops_sent_witness:
  "\<exists>c'. pc_eventLoop 1 True (small_client [1, 2, 3] 3 3 3 [(0, 3)]) = Inr c' \<and> client_queue c' = []"
  using client_drops_sent [OF small_client_ok(1), of 1 True] by (auto simp: small_client_def client_queue_def)

end
