(* ===== verification/Spec2Isabelle.thy ===== *)
theory Spec2Isabelle
  imports CalendarClaims LeapYears DateTextClaims TemporalClaims PinsProps LocalClaims GathererClaims IndexClaims EventClaims DhtClaims TransformClaims Leader GridRemoteClaims ServerElements ServerMapping P2pProps
begin

text \<open>
  A verification library for XIOS, the XML Input/Output Server.

  The program.  XIOS runs beside a simulation: its clients live in the processes of the model, its
  servers in processes of their own.  Fields are described on grids of axes and domains; every
  process holds a part of each grid.  At each time step a field enters a graph of filters, which
  reduce it over time and transform it from grid to grid, and leaves the graph towards the
  servers.  There the parts that come from the clients are put together and written.  The parts of
  the program that this library models, in the order in which a field meets them:

  \<^bold>\<open>Time.\<close>  A calendar (\<open>calendar.cpp\<close>, \<open>date/\<close>) turns dates into seconds and back,
  adds durations to dates and keeps the clock of the context.  Everything that is periodic in XIOS
  (output frequencies, sampling, file splitting) is decided by these operations.
    \<^item> \<open>Prelude\<close>: the outcome of a C++ call, a value or a thrown exception (\<open>outcome\<close> with \<open>obind\<close>), checked
      access to arrays (an access out of range is a fault of the model, never an unspecified value).
    \<^item> \<open>Duration\<close>: \<open>duration.hpp\<close>, \<open>duration.cpp\<close>.  \<open>Calendar\<close>, \<open>CalendarTime\<close>: \<open>calendar.cpp\<close>, \<open>date.cpp\<close> and the
      classes of \<open>date/\<close>; the virtual methods of the calendar types are one function each with a case
      per type.  \<open>DateArith\<close>: the resolution and the addition of durations of \<open>calendar_util.cpp\<close>.
    \<^item> \<open>CalendarProps\<close>, \<open>DateArithProps\<close>, \<open>CalendarClaims\<close>, \<open>LeapYears\<close>: the conversion to seconds is an
      order embedding, addition moves the time by the seconds of the duration and is undone by
      subtraction, whole months clip the day, the clock advances by time steps, the drift of user
      defined calendars.
    \<^item> \<open>Streams\<close>, \<open>DateText\<close>, \<open>DateTextClaims\<close>: the parts of the C++ streams that the text forms use, the
      printers and parsers of dates and durations, and that the one undoes the other.

  \<^bold>\<open>Filters.\<close>  A field is a packet that is handed from the output pin of a filter to the input pins
  of those that listen to it.
    \<^item> \<open>DataPacket\<close>, \<open>Pins\<close>: \<open>filter/input_pin.cpp\<close>, \<open>filter/output_pin.cpp\<close>, \<open>filter/filter.cpp\<close>,
      \<open>garbage_collector.cpp\<close>.  The network is a store of pins; the mutual recursion of deliveries,
      triggers and engines is the work list of \<open>exec\<close> and the step relation \<open>gstep\<close>.  The engines are a parameter.
    \<^item> \<open>PinsProps\<close>: packets of a timestamp are joined, a collection reaches every old packet, the
      flow in an acyclic graph ends.
    \<^item> \<open>Functors\<close>, \<open>FunctorProps\<close>: the temporal operations of \<open>functor/\<close>.  \<open>TemporalFilter\<close>, \<open>TemporalClaims\<close>:
      \<open>filter/temporal_filter.cpp\<close>, on the calendar and the functors above.

  \<^bold>\<open>Views and connectors.\<close>  An element (axis or domain) is the list of global indices a process has;
  a view is a selection of them.  A connector is computed once from two views and then transfers
  every field from the one to the other (\<open>distribution/\<close>).
    \<^item> \<open>StdMap\<close>: \<open>std::map\<close> as a list in the order of its keys and \<open>std::unordered_map\<close> as a map.
    \<^item> \<open>Views\<close>, \<open>ViewProps\<close>: elements and views, described by the cell each position shows.
    \<^item> \<open>Slices\<close>: the loop shape of all connectors, and arrays as lists of blocks.
    \<^item> \<open>LocalConnectors\<close>, \<open>LocalConnectorProps\<close>, \<open>LocalClaims\<close>: between the views of one process.
    \<^item> \<open>Scatterer\<close>, \<open>ScattererProps\<close>, \<open>ScattererClaims\<close>: from a process to the ranks it sends to.
    \<^item> \<open>Gatherer\<close>, \<open>GridConnectors\<close>, \<open>Landing\<close>, \<open>Cells\<close>, \<open>GathererProps\<close>, \<open>GathererClaims\<close>: from the ranks a process
      receives from, with the reductions; the grid connectors compose the connectors of the
      elements.  A gathering is a sequence of arrivals of values at cells.
    \<^item> \<open>IndexConnectors\<close>, \<open>IndexConnectorProps\<close>, \<open>WeightProps\<close>, \<open>IndexClaims\<close>: the connectors of the
      transformations (reductions, weights, copies), which follow a map of global indices.

  \<^bold>\<open>Who has a cell.\<close>  A process that needs to know which others show a global index asks a hash table that is
  spread over all processes (\<open>distribution/client_client_dht_template_impl.hpp\<close>).
    \<^item> \<open>Dht\<close>: the hierarchy of groups of \<open>policy.cpp\<close>, the hash of \<open>utils.hpp\<close> on 64 bit words, the ranges of hashes
      of the members of a group (\<open>computeHashIndex\<close>), the exchanges of a level, the distribution of the
      entries (\<open>construct_dht\<close>) and the questions (\<open>computeIndexInfoMapping\<close>); all processes at once, since
      every step is collective.  Unordered maps are traversed in the order of insertion, and no
      statement depends on it.  The packing into bytes and the hash of vectors are left out.
    \<^item> \<open>DhtHash\<close>, \<open>DhtTree\<close>, \<open>DhtRanks\<close>, \<open>DhtRound\<close>, \<open>DhtInsert\<close>, \<open>DhtAsk\<close>, \<open>DhtClaims\<close>: the ranges of hashes, the
      groups, who sends to whom, one exchange, the distribution down the levels, the questions and
      their answers: the table answers as one map would; and the one hash no process has.

  \<^bold>\<open>Between processes.\<close>  The connectors between views on different processes; all processes act together, and
  the order in which messages arrive is a parameter.
    \<^item> \<open>TransformConnector\<close>: \<open>distribution/transform_connector.*\<close>.  The processes ask the hash table who shows their
      cells, build a scatterer and a gatherer each, and exchange the blocks (\<open>tc_computeConnector\<close>, \<open>tc_transfer\<close>).
    \<^item> \<open>TransformProps\<close>, \<open>TransformTransfer\<close>, \<open>TransformClaims\<close>: what is sent and received, that every exchange goes
      through, and that the last position of each cell gets the value of the last process that shows it.
    \<^item> \<open>Leader\<close>: \<open>distribution/leader_process.cpp\<close>, which client leads which server.
    \<^item> \<open>GridRemote\<close>: \<open>distribution/grid_remote_connector.cpp\<close>: which views are distributed, and the generic method, which
      finds what each process sends to each rank of a remote grid, element by element.
    \<^item> \<open>GridRemoteProps\<close>, \<open>GridRemoteGeneric\<close>, \<open>GridRemoteClaims\<close>: the tables the processes build of the cells of the grid,
      the digits of a cell, and that each rank is sent just what both show.

  \<^bold>\<open>Bands.\<close>  The servers share the cells of a grid out in bands of one dimension.
    \<^item> \<open>ServerDistribution\<close>: \<open>distribution/server_distribution_description.cpp\<close>.  The ranges of the bands, the loops over
      the cells of a server (\<open>sd_rows\<close> ends because its counter grows by a row), the table of a range of cells and the parts
      of the elements.
    \<^item> \<open>ServerBands\<close>, \<open>ServerClaims\<close>, \<open>ServerElements\<close>: the counters of the loops are the digits of the cells of a box, the bands
      share the grid out, what the clients find out about the elements together, and where a cut along the first dimension
      of a domain goes wrong.
    \<^item> \<open>ServerMapping\<close>: \<open>client_server_mapping.cpp\<close>, \<open>client_server_mapping_distributed.cpp\<close> and \<open>dht_auto_indexing.cpp\<close>: the cells a
      client sends to each server, found by the hash table, the numbers of clients of the servers, and the numbering
      of indices over all processes.

  \<^bold>\<open>Events.\<close>  Clients tell the servers what to do by events, and all servers of a context have to
  handle them in one order.
    \<^item> \<open>EventScheduler\<close>: \<open>event_scheduler.cpp\<close>.  The world of all processes of a communicator is their
      schedulers and the messages in flight; \<open>sched_step\<close> and \<open>sched_run\<close> let a process register an
      event, receive a message or take the next event, in any order of the processes.
    \<^item> \<open>EventTree\<close>, \<open>EventOrder\<close>, \<open>EventSequence\<close>, \<open>EventCount\<close>, \<open>EventTraffic\<close>, \<open>EventClaims\<close>: every process builds its
      path of one tree; all take the events in one order; an event is handed out only after all
      have registered it, and once they have it reaches all; the receptions end.

  \<^bold>\<open>Transport.\<close>  The bytes of the events travel through ring buffers that the server mirrors
  (\<open>transport/p2p_*_buffer\<close>).
    \<^item> \<open>P2pRing\<close>, \<open>P2pClient\<close>, \<open>P2pServer\<close>: the rings of both sides and their operations; memory is lists of
      bytes, MPI requests are arguments of the loops that test them.
    \<^item> \<open>P2pRingProps\<close>, \<open>P2pClientProps\<close>, \<open>P2pServerProps\<close>, \<open>P2pTransfer\<close>, \<open>P2pClaims\<close>: what a ring holds; the client is a
      queue of blocks, the server a queue of events.
    \<^item> \<open>P2pLink\<close>, \<open>P2pRun\<close>, \<open>P2pProps\<close>: a client with its server: what is written comes out in order, with its
      bytes, in the runs of \<open>p2p_run\<close>; and where the checks of the server do not protect it.  In these runs
      the client may have a fixed size or not, and each event is transferred before the next is
      written; events larger than a fixed size, more buffers than windows, full rings and a backlog
      of announced events are outside of them, and three of these go wrong in the code.

  Interfaces.  \<open>keyed_order\<close> (an order given by a key) is met by the comparisons of dates and of
  durations; \<open>reduction\<close> by the operations of the functors; \<open>dictionary\<close> by both kinds of maps;
  \<open>gather_rank\<close> by the transfers of the gatherers; \<open>cell_store\<close> by the window of a slice and by the
  factors of the weights; \<open>sched_tree\<close> (what the protocol of the scheduler needs of its tree) by the
  tree that \<open>init_tree\<close> builds.  Each is interpreted on the definitions that model the code, in the
  theory of the component that provides them.

  Numbers.  The \<open>int\<close> of C++ is unbounded here, its division rounds towards zero; \<open>size_t\<close> is \<open>nat\<close> or
  \<open>int\<close>, bytes are \<open>8 word\<close>.  Floating point numbers are rationals, with a separate value for NaN where the code
  tests for it; infinities are left out (a division by zero gives NaN), and no statement is made on rounding.  The ring buffers rely on no wrap-around of their
  counters.

  Loops.  Loops over ranges are folds, loops that follow the data are \<open>function\<close>s with a measure.  Loops
  that need not end are \<open>partial_function (option)\<close>, and \<open>None\<close> is a loop that does not return; that they do return
  is proved where a property says so (\<open>find_degree\<close>, \<open>count_levels\<close>, \<open>cut_levels\<close> for every number of processes,
  \<open>walk_up\<close>, \<open>walk_down\<close>, \<open>neg_loop\<close> on valid dates, \<open>run\<close> on acyclic graphs, \<open>write_loop\<close> of a client that can write,
  \<open>reserve_loop\<close> when there is room), and that \<open>reserve_loop\<close> does not return on a full ring is proved as well.
  \<open>exec\<close> has no bound on the work it may do.  \<open>MAX_WINDOWS\<close> is 6 as in the code.

  Not modelled: in \<open>grid_remote_connector.cpp\<close> the special cases for views that are not distributed and the removal of
  redundant ranks; the connectors of one element and of transformed grids (\<open>remote_connector.cpp\<close>,
  \<open>grid_transform_connector.cpp\<close>); the index maps of the transformations and the distribution of the clients, which are
  computed from the attributes of the XML objects; the registry and the byte buffers of the messages; the contexts
  that drive the ring buffers and the older transports (one sided MPI windows); the NetCDF output, the XML and
  Fortran interfaces, the management of processes, and the vendored libraries.  Where a component is modelled for
  all processes at once, a collective operation is computed from what all of them put in and a message is
  received when it was sent; elsewhere collective results and completed requests are arguments.
\<close>

end
